(* ===== verification/Prelude.thy ===== *)
theory Prelude
  imports Main
begin

text \<open>
  Shared ground of the development: the result type of a fallible operation, its two
  combinators (sequencing and assertion), and generic facts about list segments that
  every component uses. Nothing here is specific to the program.
\<close>

section \<open>Fact collections\<close>

named_theorems res_simps \<open>unfolding of the result monad\<close>
named_theorems seg_simps \<open>normal forms of take/drop segments\<close>
named_theorems avm_defs \<open>definitions of the AVM operations\<close>

section \<open>Results\<close>

text \<open>
  A run either fails with an error value (every AVM panic and every failed \<open>assert\<close> rejects
  the whole transaction) or returns a value. Sequencing stops at the first failure.
\<close>

definition rbind :: "'e + 'a \<Rightarrow> ('a \<Rightarrow> 'e + 'b) \<Rightarrow> 'e + 'b" where
  "rbind m f = (case m of Inl e \<Rightarrow> Inl e | Inr x \<Rightarrow> f x)"

definition require :: "bool \<Rightarrow> 'e \<Rightarrow> 'e + 'a \<Rightarrow> 'e + 'a" where
  "require b e k = (if b then k else Inl e)"

definition ok :: "'e + 'a \<Rightarrow> bool" where
  "ok m = (case m of Inl _ \<Rightarrow> False | Inr _ \<Rightarrow> True)"

lemma rbind_Inr [simp]: "rbind (Inr x) f = f x"
  by (simp add: rbind_def)

lemma rbind_Inl [simp]: "rbind (Inl e) f = Inl e"
  by (simp add: rbind_def)

lemma require_True [simp]: "require True e k = k"
  by (simp add: require_def)

lemma require_False [simp]: "require False e k = Inl e"
  by (simp add: require_def)

lemma ok_Inr [simp]: "ok (Inr x)"
  by (simp add: ok_def)

lemma ok_Inl [simp]: "\<not> ok (Inl e)"
  by (simp add: ok_def)

lemma ok_iff: "ok m \<longleftrightarrow> (\<exists>x. m = Inr x)"
  by (cases m) auto

lemma rbind_eq_Inr [res_simps]: "rbind m f = Inr y \<longleftrightarrow> (\<exists>x. m = Inr x \<and> f x = Inr y)"
  by (cases m) auto

lemma rbind_eq_Inl [res_simps]:
  "rbind m f = Inl e \<longleftrightarrow> m = Inl e \<or> (\<exists>x. m = Inr x \<and> f x = Inl e)"
  by (cases m) auto

lemma require_eq_Inr [res_simps]: "require b e k = Inr y \<longleftrightarrow> b \<and> k = Inr y"
  by (simp add: require_def)

lemma require_eq_Inl [res_simps]:
  "require b e k = Inl e' \<longleftrightarrow> (\<not> b \<and> e' = e) \<or> (b \<and> k = Inl e')"
  by (auto simp: require_def)

lemma rbind_assoc: "rbind (rbind m f) g = rbind m (\<lambda>x. rbind (f x) g)"
  by (cases m) auto

lemma rbind_cong [fundef_cong]:
  "m = m' \<Longrightarrow> (\<And>x. m' = Inr x \<Longrightarrow> f x = f' x) \<Longrightarrow> rbind m f = rbind m' f'"
  by (cases m') auto

lemma require_cong [fundef_cong]:
  "b = b' \<Longrightarrow> e = e' \<Longrightarrow> (b' \<Longrightarrow> k = k') \<Longrightarrow> require b e k = require b' e' k'"
  by (auto simp: require_def)

lemma ok_rbind [res_simps]: "ok (rbind m f) \<longleftrightarrow> (\<exists>x. m = Inr x \<and> ok (f x))"
  by (cases m) auto

lemma ok_require [res_simps]: "ok (require b e k) \<longleftrightarrow> b \<and> ok k"
  by (simp add: require_def)

text \<open>A list of fallible steps, run in order and stopped at the first failure.\<close>

fun rfold :: "('s \<Rightarrow> 'x \<Rightarrow> 'e + 's) \<Rightarrow> 's \<Rightarrow> 'x list \<Rightarrow> 'e + 's" where
  "rfold f s [] = Inr s"
| "rfold f s (x # xs) = rbind (f s x) (\<lambda>s'. rfold f s' xs)"

lemma rfold_append: "rfold f s (xs @ ys) = rbind (rfold f s xs) (\<lambda>s'. rfold f s' ys)"
  by (induction xs arbitrary: s) (auto simp: rbind_assoc)

lemma rfold_invariant:
  assumes "rfold f s xs = Inr t" and "P s"
    and step: "\<And>s x s'. x \<in> set xs \<Longrightarrow> P s \<Longrightarrow> f s x = Inr s' \<Longrightarrow> P s'"
  shows "P t"
  using assms(1,2) step
proof (induction xs arbitrary: s)
  case Nil
  then show ?case by simp
next
  case (Cons x xs)
  from Cons.prems(1) obtain s' where s': "f s x = Inr s'" "rfold f s' xs = Inr t"
    by (auto simp: res_simps)
  have "P s'" using Cons.prems(3)[OF _ Cons.prems(2) s'(1)] by simp
  moreover have "\<And>s x s'. x \<in> set xs \<Longrightarrow> P s \<Longrightarrow> f s x = Inr s' \<Longrightarrow> P s'"
    using Cons.prems(3) by (meson list.set_intros(2))
  ultimately show ?case using Cons.IH s'(2) by blast
qed

section \<open>Segments of lists\<close>

definition seg :: "nat \<Rightarrow> nat \<Rightarrow> 'a list \<Rightarrow> 'a list" where
  "seg off n xs = take n (drop off xs)"

lemma length_seg [simp]: "off + n \<le> length xs \<Longrightarrow> length (seg off n xs) = n"
  by (simp add: seg_def)

lemma length_seg_le: "length (seg off n xs) \<le> n"
  by (simp add: seg_def)

lemma seg_0 [simp]: "seg off 0 xs = []"
  by (simp add: seg_def)

lemma seg_0_all [simp]: "length xs \<le> n \<Longrightarrow> seg 0 n xs = xs"
  by (simp add: seg_def)

lemma nth_seg: "off + n \<le> length xs \<Longrightarrow> i < n \<Longrightarrow> seg off n xs ! i = xs ! (off + i)"
  by (simp add: seg_def)

lemma seg_append_left [seg_simps]: "off + n \<le> length xs \<Longrightarrow> seg off n (xs @ ys) = seg off n xs"
  by (simp add: seg_def)

lemma seg_append_right [seg_simps]:
  "length xs \<le> off \<Longrightarrow> seg off n (xs @ ys) = seg (off - length xs) n ys"
  by (simp add: seg_def)

lemma seg_at: "length xs = off \<Longrightarrow> length ys = n \<Longrightarrow> seg off n (xs @ ys @ zs) = ys"
  by (auto simp: seg_def)

lemma seg_at_end: "length xs = off \<Longrightarrow> length ys = n \<Longrightarrow> seg off n (xs @ ys) = ys"
  by (auto simp: seg_def)

lemma seg_add: "seg off (m + n) xs = seg off m xs @ seg (off + m) n xs"
  by (simp add: seg_def take_add drop_drop add.commute)

lemma seg_seg: "a + n \<le> m \<Longrightarrow> seg a n (seg off m xs) = seg (off + a) n xs"
  by (simp add: seg_def drop_take min_absorb1 add.commute)

lemma seg_Suc: "off < length xs \<Longrightarrow> seg off (Suc n) xs = xs ! off # seg (Suc off) n xs"
  by (simp add: seg_def Cons_nth_drop_Suc[symmetric])

text \<open>Overwriting a segment in place, the effect of a overwrite.\<close>

definition overwrite :: "nat \<Rightarrow> 'a list \<Rightarrow> 'a list \<Rightarrow> 'a list" where
  "overwrite off new xs = take off xs @ new @ drop (off + length new) xs"

lemma length_overwrite [simp]: "off + length new \<le> length xs \<Longrightarrow> length (overwrite off new xs) = length xs"
  by (simp add: overwrite_def)

lemma seg_overwrite_same:
  "off + length new \<le> length xs \<Longrightarrow> n = length new \<Longrightarrow> seg off n (overwrite off new xs) = new"
  by (simp add: overwrite_def seg_def)

lemma seg_overwrite_before:
  assumes "off + length new \<le> length xs" and "a + n \<le> off"
  shows "seg a n (overwrite off new xs) = seg a n xs"
proof -
  have "overwrite off new xs = take off xs @ (new @ drop (off + length new) xs)"
    by (simp add: overwrite_def)
  then have "seg a n (overwrite off new xs) = seg a n (take off xs)"
    using assms by (simp add: seg_append_left)
  then show ?thesis using assms by (simp add: seg_def drop_take min_absorb1)
qed

lemma seg_overwrite_after:
  assumes "off + length new \<le> length xs" and "off + length new \<le> a"
  shows "seg a n (overwrite off new xs) = seg a n xs"
proof -
  have "drop a (overwrite off new xs) = drop a xs"
  proof -
    have "drop a (overwrite off new xs)
        = drop (a - off - length new) (drop (off + length new) xs)"
      using assms by (simp add: overwrite_def)
    also have "\<dots> = drop a xs" using assms by (simp add: drop_drop)
    finally show ?thesis .
  qed
  then show ?thesis by (simp add: seg_def)
qed

lemmas seg_overwrite [seg_simps] = seg_overwrite_same seg_overwrite_before seg_overwrite_after

lemma nth_overwrite_before: "off + length new \<le> length xs \<Longrightarrow> i < off \<Longrightarrow> overwrite off new xs ! i = xs ! i"
  by (simp add: overwrite_def nth_append)

lemma nth_overwrite_at:
  assumes "off + length new \<le> length xs" and "off \<le> i" and "i < off + length new"
  shows "overwrite off new xs ! i = new ! (i - off)"
proof -
  have "i - off < length new" using assms by simp
  then show ?thesis using assms by (simp add: overwrite_def nth_append)
qed

lemma nth_overwrite_after:
  assumes "off + length new \<le> length xs" and "off + length new \<le> i" and "i < length xs"
  shows "overwrite off new xs ! i = xs ! i"
proof -
  have "\<not> i - off < length new" using assms by simp
  then show ?thesis using assms by (simp add: overwrite_def nth_append)
qed

lemmas nth_overwrite [seg_simps] = nth_overwrite_before nth_overwrite_at nth_overwrite_after

end
