(* ===== verification/AVM.thy ===== *)
theory AVM
  imports Prelude "HOL-Library.Word"
begin

text \<open>
  The AVM operations the contracts are written in (\<open>algopy\<close>'s \<open>UInt64\<close>, \<open>Bytes\<close> and
  \<open>op\<close>): total results or panics. A \<open>UInt64\<close> is a natural number; arithmetic that leaves
  the range \<open>0 .. 2^64 - 1\<close> is a panic, as on the AVM, never a wrap-around. A \<open>Bytes\<close> value
  is a list of bytes; the 4096-byte cap on a value is checked where a value is built. Box storage
  is a partial map from names to contents.
\<close>

type_synonym byte = "8 word"
type_synonym bytes = "byte list"

datatype avm_error =
    AssertFail string
  | Overflow
  | Underflow
  | DivByZero
  | OutOfRange
  | TooLong
  | BadShift
  | NoSuchBox
  | BoxSizeMismatch
  | NoSuchArg
  | TypeMismatch
  | InvalidPoint

type_synonym 'a res = "avm_error + 'a"

abbreviation check :: "bool \<Rightarrow> string \<Rightarrow> 'a res \<Rightarrow> 'a res" where
  "check b code k \<equiv> require b (AssertFail code) k"

definition uint64_limit :: nat where
  "uint64_limit = 2 ^ 64"

definition max_bytes :: nat where
  "max_bytes = 4096"

section \<open>Arithmetic on UInt64\<close>

definition uadd :: "nat \<Rightarrow> nat \<Rightarrow> nat res" where
  "uadd a b = (if a + b < uint64_limit then Inr (a + b) else Inl Overflow)"

definition usub :: "nat \<Rightarrow> nat \<Rightarrow> nat res" where
  "usub a b = (if b \<le> a then Inr (a - b) else Inl Underflow)"

definition umul :: "nat \<Rightarrow> nat \<Rightarrow> nat res" where
  "umul a b = (if a * b < uint64_limit then Inr (a * b) else Inl Overflow)"

definition udiv :: "nat \<Rightarrow> nat \<Rightarrow> nat res" where
  "udiv a b = (if b = 0 then Inl DivByZero else Inr (a div b))"

definition umod :: "nat \<Rightarrow> nat \<Rightarrow> nat res" where
  "umod a b = (if b = 0 then Inl DivByZero else Inr (a mod b))"

text \<open>\<open>op.bitlen\<close>: the position of the highest set bit plus one, 0 for 0.\<close>

fun bitlen :: "nat \<Rightarrow> nat" where
  "bitlen n = (if n = 0 then 0 else Suc (bitlen (n div 2)))"

declare bitlen.simps [simp del]

text \<open>\<open>op.getbit\<close> on an integer: bit 0 is the least significant one.\<close>

definition getbit_u :: "nat \<Rightarrow> nat \<Rightarrow> nat res" where
  "getbit_u n i = (if i < 64 then Inr ((n div 2 ^ i) mod 2) else Inl OutOfRange)"

definition ushl :: "nat \<Rightarrow> nat \<Rightarrow> nat res" where
  "ushl a k = (if k < 64 then Inr ((a * 2 ^ k) mod uint64_limit) else Inl BadShift)"

definition not64 :: "nat \<Rightarrow> nat" where
  "not64 a = uint64_limit - 1 - a"

section \<open>Bytes\<close>

definition bconcat :: "bytes \<Rightarrow> bytes \<Rightarrow> bytes res" where
  "bconcat a b = (if length a + length b \<le> max_bytes then Inr (a @ b) else Inl TooLong)"

definition bzero :: "nat \<Rightarrow> bytes res" where
  "bzero n = (if n \<le> max_bytes then Inr (replicate n 0) else Inl TooLong)"

definition getbyte :: "bytes \<Rightarrow> nat \<Rightarrow> nat res" where
  "getbyte xs i = (if i < length xs then Inr (unat (xs ! i)) else Inl OutOfRange)"

definition setbyte :: "bytes \<Rightarrow> nat \<Rightarrow> nat \<Rightarrow> bytes res" where
  "setbyte xs i v = (if i < length xs \<and> v < 256 then Inr (xs[i := of_nat v]) else Inl OutOfRange)"

text \<open>\<open>op.getbit\<close> on bytes: bit 0 is the most significant bit of byte 0.\<close>

definition getbit_b :: "bytes \<Rightarrow> nat \<Rightarrow> nat res" where
  "getbit_b xs i =
     (if i div 8 < length xs then Inr ((unat (xs ! (i div 8)) div 2 ^ (7 - i mod 8)) mod 2)
      else Inl OutOfRange)"

text \<open>\<open>op.extract\<close> with explicit start and length (\<open>extract3\<close>).\<close>

definition bextract :: "bytes \<Rightarrow> nat \<Rightarrow> nat \<Rightarrow> bytes res" where
  "bextract xs off n = (if off + n \<le> length xs then Inr (seg off n xs) else Inl OutOfRange)"

text \<open>A Python slice \<open>xs[a:b]\<close> with natural bounds: clamped, never a panic.\<close>

definition bslice :: "bytes \<Rightarrow> nat \<Rightarrow> nat \<Rightarrow> bytes" where
  "bslice xs a b = seg a (b - a) xs"

definition breplace :: "bytes \<Rightarrow> nat \<Rightarrow> bytes \<Rightarrow> bytes res" where
  "breplace xs off new =
     (if off + length new \<le> length xs then Inr (overwrite off new xs) else Inl OutOfRange)"

text \<open>Big-endian reading and writing.\<close>

definition be_val :: "bytes \<Rightarrow> nat" where
  "be_val xs = foldl (\<lambda>acc b. acc * 256 + unat b) 0 xs"

fun be_bytes :: "nat \<Rightarrow> nat \<Rightarrow> bytes" where
  "be_bytes 0 v = []"
| "be_bytes (Suc k) v = be_bytes k (v div 256) @ [of_nat (v mod 256)]"

definition btoi :: "bytes \<Rightarrow> nat res" where
  "btoi xs = (if length xs \<le> 8 then Inr (be_val xs) else Inl TooLong)"

definition itob :: "nat \<Rightarrow> bytes" where
  "itob v = be_bytes 8 v"

definition extract_uint16 :: "bytes \<Rightarrow> nat \<Rightarrow> nat res" where
  "extract_uint16 xs off =
     (if off + 2 \<le> length xs then Inr (be_val (seg off 2 xs)) else Inl OutOfRange)"

text \<open>The single low byte of an integer, \<open>op.extract(op.itob(v), 7, 1)\<close>.\<close>

definition low_byte :: "nat \<Rightarrow> bytes" where
  "low_byte v = seg 7 1 (itob v)"

text \<open>The two low bytes of an integer, \<open>op.extract(op.itob(v), 6, 2)\<close>.\<close>

definition low_bytes2 :: "nat \<Rightarrow> bytes" where
  "low_bytes2 v = seg 6 2 (itob v)"

lemmas avm_arith_defs [avm_defs] = uadd_def usub_def umul_def udiv_def umod_def
lemmas avm_bytes_defs [avm_defs] = bconcat_def bzero_def getbyte_def bextract_def breplace_def btoi_def
  extract_uint16_def

section \<open>Facts about the operations\<close>

lemma uadd_Inr [res_simps]: "uadd a b = Inr c \<longleftrightarrow> c = a + b \<and> a + b < uint64_limit"
  by (auto simp: uadd_def)

lemma usub_Inr [res_simps]: "usub a b = Inr c \<longleftrightarrow> b \<le> a \<and> c = a - b"
  by (auto simp: usub_def)

lemma umul_Inr [res_simps]: "umul a b = Inr c \<longleftrightarrow> c = a * b \<and> a * b < uint64_limit"
  by (auto simp: umul_def)

lemma udiv_Inr [res_simps]: "udiv a b = Inr c \<longleftrightarrow> b \<noteq> 0 \<and> c = a div b"
  by (auto simp: udiv_def)

lemma umod_Inr [res_simps]: "umod a b = Inr c \<longleftrightarrow> b \<noteq> 0 \<and> c = a mod b"
  by (auto simp: umod_def)

lemma getbyte_Inr [res_simps]: "getbyte xs i = Inr v \<longleftrightarrow> i < length xs \<and> v = unat (xs ! i)"
  by (auto simp: getbyte_def)

lemma bextract_Inr [res_simps]:
  "bextract xs off n = Inr ys \<longleftrightarrow> off + n \<le> length xs \<and> ys = seg off n xs"
  by (auto simp: bextract_def)

lemma bconcat_Inr [res_simps]:
  "bconcat a b = Inr c \<longleftrightarrow> c = a @ b \<and> length a + length b \<le> max_bytes"
  by (auto simp: bconcat_def)

lemma bzero_Inr [res_simps]: "bzero n = Inr c \<longleftrightarrow> c = replicate n 0 \<and> n \<le> max_bytes"
  by (auto simp: bzero_def)

lemma breplace_Inr [res_simps]:
  "breplace xs off new = Inr c \<longleftrightarrow> off + length new \<le> length xs \<and> c = overwrite off new xs"
  by (auto simp: breplace_def)

lemma btoi_Inr [res_simps]: "btoi xs = Inr v \<longleftrightarrow> length xs \<le> 8 \<and> v = be_val xs"
  by (auto simp: btoi_def)

lemma extract_uint16_Inr [res_simps]:
  "extract_uint16 xs off = Inr v \<longleftrightarrow> off + 2 \<le> length xs \<and> v = be_val (seg off 2 xs)"
  by (auto simp: extract_uint16_def)

lemma getbit_u_Inr [res_simps]: "getbit_u n i = Inr v \<longleftrightarrow> i < 64 \<and> v = (n div 2 ^ i) mod 2"
  by (auto simp: getbit_u_def)

lemma unat_byte_less [simp]: "unat (b :: byte) < 256"
  using unsigned_less [of b] by simp

lemma getbyte_less: "getbyte xs i = Inr v \<Longrightarrow> v < 256"
  by (auto simp: getbyte_def split: if_splits)

lemma length_be_bytes [simp]: "length (be_bytes k v) = k"
  by (induction k arbitrary: v) auto

lemma length_itob [simp]: "length (itob v) = 8"
  by (simp add: itob_def)

lemma be_val_Nil [simp]: "be_val [] = 0"
  by (simp add: be_val_def)

lemma be_val_snoc [simp]: "be_val (xs @ [b]) = be_val xs * 256 + unat b"
  by (simp add: be_val_def)

lemma be_val_append: "be_val (xs @ ys) = be_val xs * 256 ^ length ys + be_val ys"
proof (induction ys rule: rev_induct)
  case Nil
  then show ?case by simp
next
  case (snoc y ys)
  have "be_val (xs @ ys @ [y]) = be_val (xs @ ys) * 256 + unat y"
    by (simp flip: append_assoc)
  then show ?case using snoc by (simp add: algebra_simps)
qed

lemma be_val_less: "be_val xs < 256 ^ length xs"
proof (induction xs rule: rev_induct)
  case Nil
  then show ?case by simp
next
  case (snoc x xs)
  have "be_val xs * 256 + unat x < (be_val xs + 1) * 256" using unat_byte_less [of x] by simp
  also have "\<dots> \<le> 256 ^ length xs * 256" using snoc by (intro mult_right_mono) auto
  finally show ?case by (simp add: mult.commute)
qed

lemma unat_of_nat_byte: "v < 256 \<Longrightarrow> unat (of_nat v :: byte) = v"
  by (simp add: unat_of_nat)

lemma be_val_be_bytes [simp]: "v < 256 ^ k \<Longrightarrow> be_val (be_bytes k v) = v"
proof (induction k arbitrary: v)
  case 0
  then show ?case by simp
next
  case (Suc k)
  then have "v div 256 < 256 ^ k" by (simp add: less_mult_imp_div_less mult.commute)
  with Suc.IH show ?case by (simp add: unat_of_nat_byte)
qed

lemma be_bytes_be_val: "length xs = k \<Longrightarrow> be_bytes k (be_val xs) = xs"
proof (induction k arbitrary: xs)
  case 0
  then show ?case by simp
next
  case (Suc k)
  then obtain ys y where xs: "xs = ys @ [y]" by (metis append_butlast_last_id length_0_conv nat.distinct(1))
  with Suc.prems have "length ys = k" by simp
  with Suc.IH [of ys] show ?case by (simp add: xs div_add1_eq)
qed

lemma be_bytes_zero: "be_bytes k 0 = replicate k 0"
  by (induction k) (simp_all add: replicate_append_same)

lemma be_val_inj: "length xs = length ys \<Longrightarrow> be_val xs = be_val ys \<Longrightarrow> xs = ys"
  by (metis be_bytes_be_val)

lemma seg_be_bytes: "m \<le> k \<Longrightarrow> seg (k - m) m (be_bytes k v) = be_bytes m v"
proof (induction m arbitrary: k v)
  case 0
  then show ?case by simp
next
  case (Suc m)
  then obtain k' where k: "k = Suc k'" "m \<le> k'" by (cases k) auto
  have "seg (k - Suc m) (Suc m) (be_bytes k v) = drop (k' - m) (be_bytes k v)"
    using k by (simp add: seg_def)
  also have "\<dots> = drop (k' - m) (be_bytes k' (v div 256)) @ [of_nat (v mod 256)]"
    using k by simp
  also have "drop (k' - m) (be_bytes k' (v div 256)) = seg (k' - m) m (be_bytes k' (v div 256))"
    using k by (simp add: seg_def)
  finally show ?case using Suc.IH [OF k(2)] by simp
qed

lemma low_byte_eq: "low_byte v = [of_nat (v mod 256)]"
  using seg_be_bytes [of 1 8 v] by (simp add: low_byte_def itob_def)

lemma low_bytes2_eq: "low_bytes2 v = be_bytes 2 v"
  using seg_be_bytes [of 2 8 v] by (simp add: low_bytes2_def itob_def)

lemma length_low_bytes2 [simp]: "length (low_bytes2 v) = 2"
  by (simp add: low_bytes2_eq)

lemma length_low_byte [simp]: "length (low_byte v) = 1"
  by (simp add: low_byte_eq)

lemma btoi_itob [simp]: "v < uint64_limit \<Longrightarrow> btoi (itob v) = Inr v"
  by (simp add: btoi_def itob_def uint64_limit_def)

lemma itob_inj: "v < uint64_limit \<Longrightarrow> w < uint64_limit \<Longrightarrow> itob v = itob w \<longleftrightarrow> v = w"
  by (metis btoi_itob sum.inject(2))

lemma btoi_less: "btoi xs = Inr v \<Longrightarrow> v < uint64_limit"
proof -
  assume "btoi xs = Inr v"
  then have "v = be_val xs" "length xs \<le> 8" by (auto simp: btoi_Inr)
  moreover have "(256::nat) ^ length xs \<le> 256 ^ 8" using \<open>length xs \<le> 8\<close> by (intro power_increasing) auto
  moreover have "be_val xs < 256 ^ length xs" by (rule be_val_less)
  ultimately show ?thesis by (simp add: uint64_limit_def)
qed

lemma getbit_u_01: "getbit_u n i = Inr v \<Longrightarrow> v = 0 \<or> v = 1"
  by (auto simp: getbit_u_def split: if_splits)

lemma bitlen_0 [simp]: "bitlen 0 = 0"
  by (simp add: bitlen.simps)

lemma bitlen_pos: "0 < n \<Longrightarrow> bitlen n = Suc (bitlen (n div 2))"
  by (subst bitlen.simps) simp

lemma bitlen_bounds: "0 < n \<Longrightarrow> 2 ^ (bitlen n - 1) \<le> n \<and> n < 2 ^ bitlen n"
proof (induction n rule: bitlen.induct)
  case (1 n)
  show ?case
  proof (cases "n div 2 = 0")
    case True
    with 1 have "n = 1" by simp
    then show ?thesis by (simp add: bitlen_pos)
  next
    case False
    with 1 have IH: "2 ^ (bitlen (n div 2) - 1) \<le> n div 2" "n div 2 < 2 ^ bitlen (n div 2)" by auto
    from False have b: "0 < bitlen (n div 2)" by (simp add: bitlen_pos)
    then obtain k where k: "bitlen (n div 2) = Suc k" by (cases "bitlen (n div 2)") auto
    have "bitlen n = Suc (Suc k)" using 1 k by (simp add: bitlen_pos)
    moreover have "2 * 2 ^ k \<le> n" using IH(1) k by simp
    moreover have "n < 2 * 2 ^ Suc k" using IH(2) k by simp
    ultimately show ?thesis by simp
  qed
qed

section \<open>Big integers\<close>

text \<open>\<open>BigUInt.bytes\<close>: the minimal big-endian form, also the length field of an RLP header.\<close>

fun be_min :: "nat \<Rightarrow> bytes" where
  "be_min n = (if n = 0 then [] else be_min (n div 256) @ [of_nat (n mod 256)])"

declare be_min.simps [simp del]

lemma be_min_0 [simp]: "be_min 0 = []"
  by (simp add: be_min.simps)

lemma be_min_pos: "0 < n \<Longrightarrow> be_min n = be_min (n div 256) @ [of_nat (n mod 256)]"
  by (subst be_min.simps) simp

lemma be_val_be_min [simp]: "be_val (be_min n) = n"
proof (induction n rule: be_min.induct)
  case (1 n)
  show ?case
  proof (cases "n = 0")
    case True
    then show ?thesis by simp
  next
    case False
    with 1 show ?thesis by (simp add: be_min_pos unat_of_nat_byte)
  qed
qed

lemma length_be_min_le: "n < 256 ^ k \<Longrightarrow> length (be_min n) \<le> k"
proof (induction k arbitrary: n)
  case 0
  then show ?case by simp
next
  case (Suc k)
  then have "n div 256 < 256 ^ k" by (simp add: less_mult_imp_div_less mult.commute)
  with Suc.IH show ?case by (cases "n = 0") (auto simp: be_min_pos)
qed

lemma length_be_min_8: "n < uint64_limit \<Longrightarrow> length (be_min n) \<le> 8"
  by (rule length_be_min_le) (simp add: uint64_limit_def)

lemma be_min_eq_Nil [simp]: "be_min n = [] \<longleftrightarrow> n = 0"
  by (cases "n = 0") (auto simp: be_min_pos)

lemma length_be_min_gt0: "0 < n \<Longrightarrow> 0 < length (be_min n)"
  by simp

lemma be_val_head [simp]: "be_val (itob 0) = 0" "m < 256 \<Longrightarrow> be_val (low_byte m) = m"
  using be_val_be_bytes [of 0 8] by (simp_all add: itob_def) (simp add: low_byte_eq be_val_def unat_of_nat_byte)

lemma btoi_head [simp]: "btoi (itob 0) = Inr 0" "m < 256 \<Longrightarrow> btoi (low_byte m) = Inr m"
  by (simp_all add: btoi_def)

lemma btoi_byte [simp]: "btoi [b] = Inr (unat b)"
  by (simp add: btoi_def be_val_def)

text \<open>
  AVM box storage: named byte arrays of fixed size. \<open>box_create\<close> is a no-op returning false when a
  box of that size exists and a panic when its size differs; every other access to a missing box,
  and every access outside a box, is a panic. Names are at most 64 bytes long in this program.
\<close>

type_synonym boxes = "bytes \<rightharpoonup> bytes"

definition max_box_size :: nat where "max_box_size = 32768"

definition box_create :: "boxes \<Rightarrow> bytes \<Rightarrow> nat \<Rightarrow> (boxes \<times> bool) res" where
  "box_create bs name n = (case bs name of
       Some b \<Rightarrow> if length b = n then Inr (bs, False) else Inl BoxSizeMismatch
     | None \<Rightarrow> if n \<le> max_box_size then Inr (bs(name \<mapsto> replicate n 0), True) else Inl TooLong)"

definition box_extract :: "boxes \<Rightarrow> bytes \<Rightarrow> nat \<Rightarrow> nat \<Rightarrow> bytes res" where
  "box_extract bs name off n = (case bs name of
       None \<Rightarrow> Inl NoSuchBox
     | Some b \<Rightarrow> if n \<le> max_bytes then bextract b off n else Inl TooLong)"

definition box_replace :: "boxes \<Rightarrow> bytes \<Rightarrow> nat \<Rightarrow> bytes \<Rightarrow> boxes res" where
  "box_replace bs name off new = (case bs name of
       None \<Rightarrow> Inl NoSuchBox
     | Some b \<Rightarrow> rbind (breplace b off new) (\<lambda>b'. Inr (bs(name \<mapsto> b'))))"

definition box_length :: "boxes \<Rightarrow> bytes \<Rightarrow> nat \<times> bool" where
  "box_length bs name = (case bs name of None \<Rightarrow> (0, False) | Some b \<Rightarrow> (length b, True))"

definition box_delete :: "boxes \<Rightarrow> bytes \<Rightarrow> boxes \<times> bool" where
  "box_delete bs name = (bs(name := None), bs name \<noteq> None)"

lemma box_extract_Inr [res_simps]:
  "box_extract bs name off n = Inr x \<longleftrightarrow>
   (\<exists>b. bs name = Some b \<and> n \<le> max_bytes \<and> off + n \<le> length b \<and> x = seg off n b)"
  by (auto simp: box_extract_def bextract_def split: option.splits)

lemma box_replace_Inr [res_simps]:
  "box_replace bs name off new = Inr bs' \<longleftrightarrow>
   (\<exists>b. bs name = Some b \<and> off + length new \<le> length b \<and> bs' = bs(name \<mapsto> overwrite off new b))"
  by (auto simp: box_replace_def breplace_def split: option.splits)

lemma box_create_Inr [res_simps]:
  "box_create bs name n = Inr (bs', c) \<longleftrightarrow>
   (\<exists>b. bs name = Some b \<and> length b = n \<and> bs' = bs \<and> \<not> c) \<or>
   (bs name = None \<and> n \<le> max_box_size \<and> bs' = bs(name \<mapsto> replicate n 0) \<and> c)"
  by (auto simp: box_create_def split: option.splits)

lemma overwrite_all: "length new = length b \<Longrightarrow> overwrite 0 new b = new"
  by (simp add: overwrite_def)

lemma box_extract_all: "bs name = Some b \<Longrightarrow> length b = n \<Longrightarrow> n \<le> max_bytes \<Longrightarrow> box_extract bs name 0 n = Inr b"
  by (simp add: box_extract_def bextract_def)

lemma box_replace_all:
  "bs name = Some b \<Longrightarrow> length new = length b \<Longrightarrow> box_replace bs name 0 new = Inr (bs(name \<mapsto> new))"
  by (simp add: box_replace_def breplace_def overwrite_all)

end
