(* ===== verification/RLP_Core.thy ===== *)
theory RLP_Core
  imports AVM
begin

text \<open>
  The RLP decoder library, \<open>contracts/primitives/rlp/core.py\<close>: header decoding, the
  single-pass span scan that builds an offset table, table retrieval and the loop-free
  and early-exit fast paths. Each \<open>@subroutine\<close> is one definition; an \<open>assert\<close> with code
  \<open>R<n>\<close> is a \<open>check\<close> with that code, an AVM panic is the corresponding error.
\<close>

definition KIND_BYTE :: nat where "KIND_BYTE = 0"
definition KIND_STR :: nat where "KIND_STR = 1"
definition KIND_LIST :: nat where "KIND_LIST = 2"
definition MAX_ITEMS :: nat where "MAX_ITEMS = 17"

section \<open>Header decoding\<close>

definition read_len :: "bytes \<Rightarrow> nat \<Rightarrow> nat \<Rightarrow> nat res" where
  "read_len data off ll = check (ll \<le> 8) ''R7'' (rbind (bextract data off ll) btoi)"

definition rlp_list_header :: "bytes \<Rightarrow> nat \<Rightarrow> (nat \<times> nat) res" where
  "rlp_list_header data start =
     check (start < length data) ''R8'' (
     rbind (getbyte data start) (\<lambda>p.
     check (0xC0 \<le> p) ''R1'' (
     rbind
       (if p < 0xF8 then
          rbind (uadd start 1) (\<lambda>payload_off.
          rbind (usub p 0xC0) (\<lambda>payload_len. Inr (payload_off, payload_len)))
        else
          rbind (usub p 0xF7) (\<lambda>ll.
          rbind (uadd start 1) (\<lambda>s1.
          rbind (uadd s1 ll) (\<lambda>payload_off.
          rbind (read_len data s1 ll) (\<lambda>payload_len. Inr (payload_off, payload_len))))))
     (\<lambda>(payload_off, payload_len).
     rbind (uadd payload_off payload_len) (\<lambda>payload_end.
     check (payload_end \<le> length data) ''R2'' (Inr (payload_off, payload_end)))))))"

definition rlp_item_header :: "bytes \<Rightarrow> nat \<Rightarrow> (nat \<times> nat \<times> nat) res" where
  "rlp_item_header data pos =
     rbind (getbyte data pos) (\<lambda>p.
     rbind
       (if p < 0x80 then Inr (pos, 1, KIND_BYTE)
        else if p < 0xB8 then
          rbind (uadd pos 1) (\<lambda>content_off.
          rbind (usub p 0x80) (\<lambda>content_len. Inr (content_off, content_len, KIND_STR)))
        else if p < 0xC0 then
          rbind (usub p 0xB7) (\<lambda>ll.
          rbind (uadd pos 1) (\<lambda>p1.
          rbind (uadd p1 ll) (\<lambda>content_off.
          rbind (read_len data p1 ll) (\<lambda>content_len. Inr (content_off, content_len, KIND_STR)))))
        else if p < 0xF8 then
          rbind (uadd 1 p) (\<lambda>t.
          rbind (usub t 0xC0) (\<lambda>content_len. Inr (pos, content_len, KIND_LIST)))
        else
          rbind (usub p 0xF7) (\<lambda>ll.
          rbind (uadd pos 1) (\<lambda>p1.
          rbind (read_len data p1 ll) (\<lambda>list_len.
          rbind (uadd 1 ll) (\<lambda>t.
          rbind (uadd t list_len) (\<lambda>content_len. Inr (pos, content_len, KIND_LIST)))))))
     (\<lambda>(content_off, content_len, kind).
     rbind (uadd content_off content_len) (\<lambda>content_end.
     check (content_end \<le> length data) ''R2'' (Inr (content_off, content_len, kind)))))"

section \<open>The scan loop\<close>

text \<open>
  The body of the hot loop that advances \<open>pos\<close> past one item. The source inlines it in
  \<open>rlp_scan_n\<close> and again in \<open>rlp_scan_upto\<close>, with the same branch order.
\<close>

definition rlp_stride :: "bytes \<Rightarrow> nat \<Rightarrow> nat res" where
  "rlp_stride data pos =
     rbind (getbyte data pos) (\<lambda>p.
     if p < 0xB8 then
       (if p < 0x80 then uadd pos 1
        else rbind (uadd 1 p) (\<lambda>t. rbind (usub t 0x80) (\<lambda>s. uadd pos s)))
     else if p < 0xC0 then
       rbind (usub p 0xB7) (\<lambda>ll.
       rbind (uadd 1 ll) (\<lambda>t.
       rbind (uadd pos 1) (\<lambda>p1.
       rbind (read_len data p1 ll) (\<lambda>n.
       rbind (uadd t n) (\<lambda>s. uadd pos s)))))
     else if p < 0xF8 then
       rbind (uadd 1 p) (\<lambda>t. rbind (usub t 0xC0) (\<lambda>s. uadd pos s))
     else
       rbind (usub p 0xF7) (\<lambda>ll.
       rbind (uadd 1 ll) (\<lambda>t.
       rbind (uadd pos 1) (\<lambda>p1.
       rbind (read_len data p1 ll) (\<lambda>n.
       rbind (uadd t n) (\<lambda>s. uadd pos s))))))"

lemma rlp_stride_gt: "rlp_stride data pos = Inr pos' \<Longrightarrow> pos < pos'"
  by (auto simp: rlp_stride_def res_simps split: if_splits)

function rlp_scan_loop :: "bytes \<Rightarrow> nat \<Rightarrow> nat \<Rightarrow> bytes \<Rightarrow> nat \<Rightarrow> (bytes \<times> nat) res" where
  "rlp_scan_loop data max_items payload_end table pos =
     (if pos < payload_end then
        rbind (umul 2 max_items) (\<lambda>cap.
        check (length table < cap) ''R3'' (
        rbind (bconcat table (low_bytes2 pos)) (\<lambda>table'.
        rbind (rlp_stride data pos) (\<lambda>pos'.
        rlp_scan_loop data max_items payload_end table' pos'))))
      else Inr (table, pos))"
  by pat_completeness auto
termination
  by (relation "measure (\<lambda>(data, max_items, payload_end, table, pos). payload_end - pos)")
    (auto dest!: rlp_stride_gt)

declare rlp_scan_loop.simps [simp del]

definition rlp_table_count :: "bytes \<Rightarrow> nat res" where
  "rlp_table_count table = usub (length table div 2) 1"

definition rlp_scan_n :: "bytes \<Rightarrow> nat \<Rightarrow> nat \<Rightarrow> (bytes \<times> nat) res" where
  "rlp_scan_n data start max_items =
     rbind (rlp_list_header data start) (\<lambda>(payload_off, payload_end).
     rbind (rlp_scan_loop data max_items payload_end [] payload_off) (\<lambda>(table, pos).
     check (pos = payload_end) ''R4'' (
     rbind (bconcat table (low_bytes2 payload_end)) (\<lambda>table'.
     rbind (usub (length table' div 2) 1) (\<lambda>n. Inr (table', n))))))"

definition rlp_scan :: "bytes \<Rightarrow> nat \<Rightarrow> (bytes \<times> nat) res" where
  "rlp_scan data start = rlp_scan_n data start MAX_ITEMS"

definition rlp_table_item :: "bytes \<Rightarrow> bytes \<Rightarrow> nat \<Rightarrow> (nat \<times> nat \<times> nat) res" where
  "rlp_table_item data table i =
     rbind (umul 2 i) (\<lambda>i2.
     rbind (uadd i2 2) (\<lambda>e.
     check (e \<le> length table) ''R5'' (
     rbind (extract_uint16 table i2) (\<lambda>pos. rlp_item_header data pos))))"

definition rlp_bytes :: "bytes \<Rightarrow> nat \<Rightarrow> nat \<Rightarrow> bytes res" where
  "rlp_bytes data off n = bextract data off n"

definition mpt_node_scan :: "bytes \<Rightarrow> nat \<Rightarrow> (bytes \<times> nat) res" where
  "mpt_node_scan data start =
     rbind (rlp_scan data start) (\<lambda>(table, n).
     check (n = 2 \<or> n = 17) ''R6'' (Inr (table, n)))"

section \<open>Fast paths\<close>

definition rlp_scan2 :: "bytes \<Rightarrow> nat \<Rightarrow> (nat \<times> nat \<times> nat \<times> nat \<times> nat \<times> nat) res" where
  "rlp_scan2 data start =
     rbind (rlp_list_header data start) (\<lambda>(payload_off, payload_end).
     rbind (rlp_item_header data payload_off) (\<lambda>(o0, l0, k0).
     rbind (uadd o0 l0) (\<lambda>item1_off.
     rbind (rlp_item_header data item1_off) (\<lambda>(o1, l1, k1).
     rbind (uadd o1 l1) (\<lambda>e1.
     check (e1 = payload_end) ''R4'' (Inr (o0, l0, k0, o1, l1, k1)))))))"

text \<open>The skip loop: \<open>k\<close> items still to be skipped, that is \<open>want - n\<close> of the source.\<close>

fun rlp_skip_loop :: "bytes \<Rightarrow> nat \<Rightarrow> nat \<Rightarrow> nat \<Rightarrow> nat res" where
  "rlp_skip_loop data payload_end 0 pos = Inr pos"
| "rlp_skip_loop data payload_end (Suc k) pos =
     check (pos < payload_end) ''R9'' (
     rbind (rlp_stride data pos) (\<lambda>pos'. rlp_skip_loop data payload_end k pos'))"

definition rlp_scan_upto :: "bytes \<Rightarrow> nat \<Rightarrow> nat \<Rightarrow> (nat \<times> nat \<times> nat) res" where
  "rlp_scan_upto data start want =
     rbind (rlp_list_header data start) (\<lambda>(payload_off, payload_end).
     rbind (rlp_skip_loop data payload_end want payload_off) (\<lambda>pos.
     check (pos < payload_end) ''R9'' (rlp_item_header data pos)))"

end
