(* ===== verification/RLP_Nibbles.thy ===== *)
theory RLP_Nibbles
  imports RLP_Core
begin

text \<open>
  Nibble addressing, the hex-prefix path header and the nibble-range comparison of
  \<open>contracts/primitives/rlp/nibbles.py\<close>, with the EIP-2718 envelope of
  \<open>contracts/primitives/rlp/eip2718.py\<close>. The comparison has an aligned fast path, an odd-lead
  peel, an odd-tail case and a per-nibble loop; all four agree with comparing the two nibble
  sequences.
\<close>

section \<open>Definitions\<close>

definition hp_decode :: "bytes \<Rightarrow> nat \<Rightarrow> nat \<Rightarrow> (bool \<times> nat \<times> nat) res" where
  "hp_decode data off len =
     check (1 \<le> len) ''H1'' (
     rbind (getbyte data off) (\<lambda>b0.
     let f = b0 div 16 in
     check (f \<le> 3) ''H2'' (
     check (f mod 2 = 0 \<longrightarrow> b0 mod 16 = 0) ''H3'' (
     let is_leaf = (f div 2 mod 2 \<noteq> 0); skip = (if f mod 2 \<noteq> 0 then 1 else 2) in
     rbind (umul 2 len) (\<lambda>l2.
     rbind (usub l2 skip) (\<lambda>nibble_count.
     check (f div 2 mod 2 = 0 \<longrightarrow> 1 \<le> nibble_count) ''H4'' (
     rbind (umul 2 off) (\<lambda>o2.
     rbind (uadd o2 skip) (\<lambda>nib_index. Inr (is_leaf, nibble_count, nib_index))))))))))"

definition nibble_at :: "bytes \<Rightarrow> nat \<Rightarrow> nat res" where
  "nibble_at data k =
     rbind (getbyte data (k div 2)) (\<lambda>b. Inr (if k mod 2 = 0 then b div 16 else b mod 16))"

text \<open>The per-nibble loop from index \<open>i\<close> with \<open>k = count - i\<close> nibbles still to compare.\<close>

fun nibbles_loop :: "bytes \<Rightarrow> nat \<Rightarrow> bytes \<Rightarrow> nat \<Rightarrow> nat \<Rightarrow> nat \<Rightarrow> bool res" where
  "nibbles_loop a a_nib b b_nib i 0 = Inr True"
| "nibbles_loop a a_nib b b_nib i (Suc k) =
     rbind (uadd a_nib i) (\<lambda>ai.
     rbind (nibble_at a ai) (\<lambda>x.
     rbind (uadd b_nib i) (\<lambda>bi.
     rbind (nibble_at b bi) (\<lambda>y.
     if x \<noteq> y then Inr False else nibbles_loop a a_nib b b_nib (i + 1) k))))"

text \<open>The aligned cases: an even count is one slice comparison, an odd one adds the last nibble.\<close>

definition nibbles_aligned :: "bytes \<Rightarrow> nat \<Rightarrow> bytes \<Rightarrow> nat \<Rightarrow> nat \<Rightarrow> bool res" where
  "nibbles_aligned a a_nib b b_nib count =
     (if count mod 2 = 0 then
        rbind (bextract a (a_nib div 2) (count div 2)) (\<lambda>x.
        rbind (bextract b (b_nib div 2) (count div 2)) (\<lambda>y. Inr (x = y)))
      else
        rbind (usub count 1) (\<lambda>even_count.
        rbind (bextract a (a_nib div 2) (even_count div 2)) (\<lambda>x.
        rbind (bextract b (b_nib div 2) (even_count div 2)) (\<lambda>y.
        if x \<noteq> y then Inr False
        else
          rbind (uadd a_nib even_count) (\<lambda>ai.
          rbind (nibble_at a ai) (\<lambda>u.
          rbind (uadd b_nib even_count) (\<lambda>bi.
          rbind (nibble_at b bi) (\<lambda>v. Inr (u = v)))))))))"

definition nibbles_equal :: "bytes \<Rightarrow> nat \<Rightarrow> bytes \<Rightarrow> nat \<Rightarrow> nat \<Rightarrow> bool res" where
  "nibbles_equal a a_nib b b_nib count =
     (if count = 0 then Inr True
      else if a_nib mod 2 = b_nib mod 2 then
        (if a_nib mod 2 = 1 then
           rbind (nibble_at a a_nib) (\<lambda>x.
           rbind (nibble_at b b_nib) (\<lambda>y.
           if x \<noteq> y then Inr False
           else
             rbind (uadd a_nib 1) (\<lambda>a_nib'.
             rbind (uadd b_nib 1) (\<lambda>b_nib'.
             rbind (usub count 1) (\<lambda>count'.
             if count' = 0 then Inr True else nibbles_aligned a a_nib' b b_nib' count')))))
         else nibbles_aligned a a_nib b b_nib count)
      else nibbles_loop a a_nib b b_nib 0 count)"

definition receipt_envelope :: "bytes \<Rightarrow> nat \<Rightarrow> nat \<Rightarrow> (nat \<times> nat \<times> nat) res" where
  "receipt_envelope data off len =
     check (1 \<le> len) ''T1'' (
     rbind (getbyte data off) (\<lambda>t.
     if 0xC0 \<le> t then Inr (0, off, len)
     else
       check (0x01 \<le> t \<and> t \<le> 0x7F) ''T2'' (
       check (2 \<le> len) ''T3'' (
       rbind (uadd off 1) (\<lambda>o1.
       rbind (getbyte data o1) (\<lambda>b.
       check (0xC0 \<le> b) ''T4'' (
       rbind (usub len 1) (\<lambda>l1. Inr (t, o1, l1)))))))))"

section \<open>The nibble sequence of a byte string\<close>

fun nibs :: "bytes \<Rightarrow> nat list" where
  "nibs [] = []"
| "nibs (b # bs) = unat b div 16 # unat b mod 16 # nibs bs"

lemma length_nibs [simp]: "length (nibs bs) = 2 * length bs"
  by (induction bs) auto

lemma nibs_append [simp]: "nibs (xs @ ys) = nibs xs @ nibs ys"
  by (induction xs) auto

lemma nth_nibs:
  "k < 2 * length bs \<Longrightarrow>
   nibs bs ! k = (if k mod 2 = 0 then unat (bs ! (k div 2)) div 16 else unat (bs ! (k div 2)) mod 16)"
proof (induction bs arbitrary: k rule: nibs.induct)
  case 1
  then show ?case by simp
next
  case (2 b bs)
  consider "k = 0" | "k = 1" | k' where "k = Suc (Suc k')"
    by (metis One_nat_def old.nat.exhaust)
  then show ?case
  proof cases
    case 3
    with 2 show ?thesis by simp
  qed auto
qed

lemma nibs_less: "x \<in> set (nibs bs) \<Longrightarrow> x < 16"
  by (induction bs rule: nibs.induct) (auto simp: less_mult_imp_div_less)

lemma byte_of_nibbles: "unat (b :: byte) div 16 = unat c div 16 \<Longrightarrow> unat b mod 16 = unat c mod 16 \<Longrightarrow> b = c"
  by (metis div_mult_mod_eq word_unat_eq_iff)

lemma nibs_inj: "nibs xs = nibs ys \<Longrightarrow> xs = ys"
proof (induction xs arbitrary: ys rule: nibs.induct)
  case 1
  then show ?case by (cases ys) auto
next
  case (2 b bs)
  then show ?case by (cases ys) (auto intro: byte_of_nibbles)
qed

lemma drop_nibs: "drop (2 * k) (nibs bs) = nibs (drop k bs)"
proof (induction k arbitrary: bs)
  case 0
  then show ?case by simp
next
  case (Suc k)
  then show ?case by (cases bs) auto
qed

lemma take_nibs: "take (2 * k) (nibs bs) = nibs (take k bs)"
proof (induction k arbitrary: bs)
  case 0
  then show ?case by simp
next
  case (Suc k)
  then show ?case by (cases bs) auto
qed

lemma seg_nibs: "seg (2 * k) (2 * n) (nibs bs) = nibs (seg k n bs)"
  by (simp add: seg_def drop_nibs take_nibs)

lemma nibble_at_eq: "k < 2 * length bs \<Longrightarrow> nibble_at bs k = Inr (nibs bs ! k)"
  by (auto simp: nibble_at_def getbyte_def nth_nibs)

lemma nibble_at_Inr [res_simps]: "nibble_at bs k = Inr v \<longleftrightarrow> k < 2 * length bs \<and> v = nibs bs ! k"
proof (cases "k < 2 * length bs")
  case True
  then show ?thesis by (auto simp: nibble_at_eq)
next
  case False
  then have "\<not> k div 2 < length bs" by simp
  then show ?thesis using False by (simp add: nibble_at_def getbyte_def)
qed

section \<open>The comparison\<close>

lemma seg_Suc_eq:
  "a < length xs \<Longrightarrow> b < length ys \<Longrightarrow>
   seg a (Suc n) xs = seg b (Suc n) ys \<longleftrightarrow> xs ! a = ys ! b \<and> seg (Suc a) n xs = seg (Suc b) n ys"
  by (simp add: seg_Suc)

lemma seg_snoc_eq:
  assumes "a + Suc n \<le> length xs" and "b + Suc n \<le> length ys"
  shows "seg a (Suc n) xs = seg b (Suc n) ys \<longleftrightarrow>
    seg a n xs = seg b n ys \<and> xs ! (a + n) = ys ! (b + n)"
proof -
  have "seg a (Suc n) xs = seg a n xs @ [xs ! (a + n)]"
    using assms(1) seg_add [of a n 1 xs] seg_Suc [of "a + n" xs 0] by simp
  moreover have "seg b (Suc n) ys = seg b n ys @ [ys ! (b + n)]"
    using assms(2) seg_add [of b n 1 ys] seg_Suc [of "b + n" ys 0] by simp
  ultimately show ?thesis by simp
qed

lemma nibbles_loop_eq:
  assumes "a_nib + i + k \<le> 2 * length a" and "b_nib + i + k \<le> 2 * length b"
    and "length a \<le> max_bytes" and "length b \<le> max_bytes"
  shows "nibbles_loop a a_nib b b_nib i k =
    Inr (seg (a_nib + i) k (nibs a) = seg (b_nib + i) k (nibs b))"
  using assms(1,2)
proof (induction k arbitrary: i)
  case 0
  then show ?case by simp
next
  case (Suc k)
  have u: "uadd a_nib i = Inr (a_nib + i)" "uadd b_nib i = Inr (b_nib + i)"
    using Suc.prems assms(3,4) by (auto simp: uadd_def uint64_limit_def max_bytes_def)
  have "nibbles_loop a a_nib b b_nib (i + 1) k =
      Inr (seg (Suc (a_nib + i)) k (nibs a) = seg (Suc (b_nib + i)) k (nibs b))"
    using Suc.IH [of "i + 1"] Suc.prems by simp
  then show ?case using Suc.prems by (simp add: u nibble_at_eq seg_Suc_eq)
qed

lemma nibbles_aligned_eq:
  assumes "a_nib + n \<le> 2 * length a" and "b_nib + n \<le> 2 * length b"
    and "a_nib mod 2 = 0" and "b_nib mod 2 = 0"
    and "length a \<le> max_bytes" and "length b \<le> max_bytes"
  shows "nibbles_aligned a a_nib b b_nib n = Inr (seg a_nib n (nibs a) = seg b_nib n (nibs b))"
proof -
  obtain p q where pq: "a_nib = 2 * p" "b_nib = 2 * q" using assms(3,4) by (metis mod_0_imp_dvd dvdE)
  have even_eq: "seg p m a = seg q m b \<longleftrightarrow> seg a_nib (2 * m) (nibs a) = seg b_nib (2 * m) (nibs b)" for m
    by (auto simp: pq seg_nibs dest: nibs_inj)
  show ?thesis
  proof (cases "n mod 2 = 0")
    case True
    then obtain m where m: "n = 2 * m" by (metis mod_0_imp_dvd dvdE)
    have "p + m \<le> length a" "q + m \<le> length b" using assms(1,2) by (auto simp: pq m)
    then have "nibbles_aligned a a_nib b b_nib n = Inr (seg p m a = seg q m b)"
      by (simp add: nibbles_aligned_def m pq bextract_def)
    then show ?thesis by (simp add: even_eq m)
  next
    case False
    then obtain m where m: "n = Suc (2 * m)" by (metis odd_iff_mod_2_eq_one oddE not_mod_2_eq_0_eq_1 Suc_eq_plus1)
    have le: "p + m \<le> length a" "q + m \<le> length b" using assms(1,2) by (auto simp: pq m)
    have u: "uadd (2 * p) (2 * m) = Inr (2 * p + 2 * m)" "uadd (2 * q) (2 * m) = Inr (2 * q + 2 * m)"
      using le assms(5,6) by (auto simp: uadd_def uint64_limit_def max_bytes_def)
    have "nibbles_aligned a a_nib b b_nib n = Inr (seg p m a = seg q m b \<and>
        nibs a ! (a_nib + 2 * m) = nibs b ! (b_nib + 2 * m))"
      using le assms(1,2)
      by (auto simp: nibbles_aligned_def m pq bextract_def usub_def u nibble_at_eq)
    then show ?thesis using assms(1,2) seg_snoc_eq [of a_nib "2 * m" "nibs a" b_nib "nibs b"]
      by (simp add: even_eq m)
  qed
qed

text \<open>Every branch of the comparison computes equality of the two nibble ranges.\<close>

lemma nibbles_equal_correct:
  assumes "a_nib + n \<le> 2 * length a" and "b_nib + n \<le> 2 * length b"
    and "length a \<le> max_bytes" and "length b \<le> max_bytes"
  shows "nibbles_equal a a_nib b b_nib n = Inr (seg a_nib n (nibs a) = seg b_nib n (nibs b))"
proof (cases n)
  case 0
  then show ?thesis by (simp add: nibbles_equal_def)
next
  case (Suc m)
  have u: "uadd a_nib 1 = Inr (a_nib + 1)" "uadd b_nib 1 = Inr (b_nib + 1)"
    using assms Suc by (auto simp: uadd_def uint64_limit_def max_bytes_def)
  show ?thesis
  proof (cases "a_nib mod 2 = b_nib mod 2")
    case False
    then show ?thesis using nibbles_loop_eq [of a_nib 0 n a b_nib b] assms Suc
      by (simp add: nibbles_equal_def)
  next
    case par: True
    show ?thesis
    proof (cases "a_nib mod 2 = 1")
      case False
      then show ?thesis using par nibbles_aligned_eq [of a_nib n a b_nib b] assms Suc
        by (simp add: nibbles_equal_def)
    next
      case True
      then have odd: "b_nib mod 2 = 1" "Suc a_nib mod 2 = 0" "Suc b_nib mod 2 = 0" using par by presburger+
      have al: "nibbles_aligned a (Suc a_nib) b (Suc b_nib) m =
          Inr (seg (Suc a_nib) m (nibs a) = seg (Suc b_nib) m (nibs b))"
        using assms Suc odd by (intro nibbles_aligned_eq) auto
      show ?thesis using par True odd assms Suc u
        by (auto simp: nibbles_equal_def nibble_at_eq al usub_def seg_Suc_eq)
    qed
  qed
qed

section \<open>Hex-prefix paths\<close>

text \<open>The reference encoder of a nibble path: flag nibble, padding nibble for an even path.\<close>

fun pack :: "nat list \<Rightarrow> bytes" where
  "pack (x # y # zs) = of_nat (16 * x + y) # pack zs"
| "pack _ = []"

definition hp_encode :: "bool \<Rightarrow> nat list \<Rightarrow> bytes" where
  "hp_encode leaf path =
     (let t = (if leaf then 2 else 0) in
      if even (length path) then pack (t # 0 # path) else pack ((t + 1) # path))"

lemma nibs_pack: "even (length xs) \<Longrightarrow> \<forall>x\<in>set xs. x < 16 \<Longrightarrow> nibs (pack xs) = xs"
proof (induction xs rule: pack.induct)
  case (1 x y zs)
  have "16 * x + y < 256" using 1 by auto
  then have u: "unat (of_nat (16 * x + y) :: byte) = 16 * x + y" by (rule unat_of_nat_byte)
  have "(16 * x + y) div 16 = x" "(16 * x + y) mod 16 = y" using 1 by auto
  then show ?case using 1 u by (simp del: of_nat_add of_nat_mult)
qed auto

lemma length_pack: "length (pack xs) = length xs div 2"
  by (induction xs rule: pack.induct) auto

lemma hp_encode_nibs:
  assumes "\<forall>x\<in>set path. x < 16"
  shows "nibs (hp_encode leaf path) =
    (let t = (if leaf then 2 else 0) in
     if even (length path) then t # 0 # path else (t + 1) # path)"
  using assms by (auto simp: hp_encode_def nibs_pack)

lemma length_hp_encode: "length (hp_encode leaf path) = length path div 2 + 1"
  by (auto simp: hp_encode_def length_pack)

text \<open>Decoding an encoded path: the flag, the length, and where the path's nibbles are.\<close>

lemma hp_decode_encode:
  assumes data: "data = pre @ hp_encode leaf path @ post" and nib: "\<forall>x\<in>set path. x < 16"
    and ne: "leaf \<or> path \<noteq> []" and lim: "length data \<le> max_bytes"
  shows "\<exists>k. hp_decode data (length pre) (length (hp_encode leaf path)) = Inr (leaf, length path, k) \<and>
    k + length path \<le> 2 * length data \<and> seg k (length path) (nibs data) = path"
proof -
  let ?c = "hp_encode leaf path"
  define skip where "skip = (if even (length path) then 2 else 1 :: nat)"
  define k where "k = 2 * length pre + skip"
  have len: "length ?c = length path div 2 + 1" by (rule length_hp_encode)
  then obtain b rest where c: "?c = b # rest" by (cases ?c) auto
  have nb: "unat b div 16 # unat b mod 16 # nibs rest =
      (if even (length path) then (if leaf then 2 else 0) # 0 # path
       else (if leaf then 3 else 1) # path)"
    using hp_encode_nibs [OF nib, of leaf] by (auto simp: c Let_def)
  have g: "getbyte data (length pre) = Inr (unat b)" by (simp add: data c getbyte_def)
  have lims: "2 * length ?c < uint64_limit" "2 * length pre + 2 < uint64_limit"
    using lim by (auto simp: data uint64_limit_def max_bytes_def)
  have cnt: "2 * length ?c - skip = length path" "skip \<le> 2 * length ?c" "1 \<le> length ?c"
    by (auto simp: len skip_def elim!: oddE evenE)
  have flag: "unat b div 16 = (if leaf then 2 else 0) + (if even (length path) then 0 else 1)"
    using nb by (auto split: if_splits)
  have low: "even (length path) \<Longrightarrow> unat b mod 16 = 0" using nb by auto
  have np: "path \<noteq> [] \<Longrightarrow> 1 \<le> length path" by (cases path) auto
  have "hp_decode data (length pre) (length ?c) = Inr (leaf, length path, k)"
    using lims ne cnt low np
    by (cases leaf; cases "even (length path)")
      (auto simp: hp_decode_def g flag umul_def usub_def uadd_def k_def skip_def)
  moreover have "k + length path \<le> 2 * length data"
    using cnt(1,2) by (simp add: k_def data)
  moreover have "seg k (length path) (nibs data) = path"
  proof -
    have "nibs data = nibs pre @ (if even (length path) then [if leaf then 2 else 0, 0]
        else [if leaf then 3 else 1]) @ path @ nibs post"
      using hp_encode_nibs [OF nib, of leaf] by (auto simp: data Let_def)
    then show ?thesis by (auto simp: k_def skip_def seg_def)
  qed
  ultimately show ?thesis by blast
qed

section \<open>The receipt envelope\<close>

lemma receipt_envelope_typed:
  "receipt_envelope data off len = Inr (t, o', l') \<Longrightarrow>
   (t = 0 \<and> o' = off \<and> l' = len) \<or> (1 \<le> t \<and> t \<le> 0x7F \<and> o' = off + 1 \<and> l' = len - 1 \<and> 1 \<le> l')"
  by (auto simp: receipt_envelope_def res_simps split: if_splits)

lemma receipt_envelope_list_head:
  "receipt_envelope data off len = Inr (t, o', l') \<Longrightarrow> o' < length data \<and> 0xC0 \<le> unat (data ! o')"
  by (auto simp: receipt_envelope_def res_simps split: if_splits)

end
