(* ===== verification/Group.thy ===== *)
theory Group
  imports AVM
begin

text \<open>
  The transaction-group context of a contract call: the transactions of the group that precede
  the current one, with the effects the AVM recorded for them (\<open>LastLog\<close>), and the raw
  application arguments. The second half is the interface every hand-off of state between
  transactions of a group implements: a producer logs a state, a consumer recovers it from the
  group's own record.
\<close>

datatype gtxn =
    AppCall nat "bytes list" bytes
  | Payment bytes bytes nat
  | OtherTxn

record env =
  env_group :: "gtxn list"
  env_index :: nat
  env_app :: nat
  env_args :: "bytes list"

text \<open>\<open>Txn.application_args(i)\<close>.\<close>

definition app_arg :: "env \<Rightarrow> nat \<Rightarrow> bytes res" where
  "app_arg E i = (if i < length (env_args E) then Inr (env_args E ! i) else Inl NoSuchArg)"

text \<open>\<open>gtxn.ApplicationCallTransaction(gi)\<close>: application id, arguments and last log.\<close>

definition gtxn_app_call :: "env \<Rightarrow> nat \<Rightarrow> (nat \<times> bytes list \<times> bytes) res" where
  "gtxn_app_call E gi =
     (if gi < length (env_group E) then
        (case env_group E ! gi of AppCall app args lg \<Rightarrow> Inr (app, args, lg) | _ \<Rightarrow> Inl TypeMismatch)
      else Inl OutOfRange)"

definition gtxn_arg0 :: "bytes list \<Rightarrow> bytes res" where
  "gtxn_arg0 args = (case args of [] \<Rightarrow> Inl NoSuchArg | a # _ \<Rightarrow> Inr a)"

lemma gtxn_app_call_Inr [res_simps]:
  "gtxn_app_call E gi = Inr (app, args, lg) \<longleftrightarrow>
   gi < length (env_group E) \<and> env_group E ! gi = AppCall app args lg"
  by (auto simp: gtxn_app_call_def split: gtxn.splits)

lemma gtxn_arg0_Inr [res_simps]: "gtxn_arg0 args = Inr a \<longleftrightarrow> (\<exists>rest. args = a # rest)"
  by (auto simp: gtxn_arg0_def split: list.splits)

lemma app_arg_Inr [res_simps]: "app_arg E i = Inr a \<longleftrightarrow> i < length (env_args E) \<and> a = env_args E ! i"
  by (auto simp: app_arg_def)

text \<open>The context of call number \<open>i\<close> of a group \<open>G\<close>.\<close>

definition env_at :: "nat \<Rightarrow> gtxn list \<Rightarrow> nat \<Rightarrow> bytes list \<Rightarrow> env" where
  "env_at app G i args = \<lparr>env_group = G, env_index = i, env_app = app, env_args = args\<rparr>"

lemma env_at_update: "(env_at app G n args)\<lparr>env_index := i, env_args := x\<rparr> = env_at app G i x"
  by (simp add: env_at_def)

definition ARC4_RETURN_PREFIX :: bytes where
  "ARC4_RETURN_PREFIX = [0x15, 0x1f, 0x7c, 0x75]"

lemma length_ARC4_RETURN_PREFIX [simp]: "length ARC4_RETURN_PREFIX = 4"
  by (simp add: ARC4_RETURN_PREFIX_def)

section \<open>The hand-off interface\<close>

text \<open>
  \<open>log_state p\<close> is what a segment logs; \<open>recover E gi\<close> is what a later segment of the group
  reads back from transaction \<open>gi\<close>; \<open>home E\<close> is the application the consumer trusts and
  \<open>sel\<close> the method selector it insists on. The provider promises that recovery inverts the log
  of such a call and reads nothing but the log of such a call.
\<close>

locale log_handoff =
  fixes log_state :: "'p \<Rightarrow> bytes res"
    and recover :: "env \<Rightarrow> nat \<Rightarrow> 'p res"
    and home :: "env \<Rightarrow> nat"
    and sel :: bytes
  assumes recover_logged:
      "\<lbrakk>gi < env_index E; gi < length (env_group E);
        env_group E ! gi = AppCall (home E) (sel # rest) lg; log_state p = Inr lg\<rbrakk>
       \<Longrightarrow> recover E gi = Inr p"
    and recover_source:
      "recover E gi = Inr p \<Longrightarrow>
       gi < env_index E \<and> gi < length (env_group E) \<and>
       (\<exists>rest lg. env_group E ! gi = AppCall (home E) (sel # rest) lg)"
begin

text \<open>
  If every earlier call of the trusted method in this group logged a state satisfying \<open>Q\<close>, or
  something that cannot be recovered as a state, then whatever index a caller points at, a recovered
  state satisfies \<open>Q\<close>.
\<close>

lemma recover_invariant_or:
  assumes "recover E gi = Inr p"
    and logged: "\<And>i rest lg. i < env_index E \<Longrightarrow> i < length (env_group E) \<Longrightarrow>
        env_group E ! i = AppCall (home E) (sel # rest) lg \<Longrightarrow>
        (\<exists>q. log_state q = Inr lg \<and> Q q) \<or> (\<forall>p. recover E i \<noteq> Inr p)"
  shows "Q p"
proof -
  from recover_source [OF assms(1)] obtain rest lg where
    src: "gi < env_index E" "gi < length (env_group E)" "env_group E ! gi = AppCall (home E) (sel # rest) lg"
    by blast
  from logged [OF src] assms(1) obtain q where q: "log_state q = Inr lg" "Q q" by blast
  from recover_logged [OF src q(1)] assms(1) have "q = p" by simp
  with q(2) show ?thesis by simp
qed

lemma recover_invariant:
  assumes "recover E gi = Inr p"
    and logged: "\<And>i rest lg. i < env_index E \<Longrightarrow> i < length (env_group E) \<Longrightarrow>
        env_group E ! i = AppCall (home E) (sel # rest) lg \<Longrightarrow> \<exists>q. log_state q = Inr lg \<and> Q q"
  shows "Q p"
  by (rule recover_invariant_or [OF assms(1)]) (use logged in blast)

lemma recover_not_self: "recover E gi = Inr p \<Longrightarrow> gi \<noteq> env_index E"
  using recover_source by blast

lemma recover_other_app:
  "env_group E ! gi = AppCall app args lg \<Longrightarrow> app \<noteq> home E \<Longrightarrow> recover E gi \<noteq> Inr p"
  using recover_source by fastforce

lemma recover_not_payment: "env_group E ! gi = Payment s r a \<Longrightarrow> recover E gi \<noteq> Inr p"
  using recover_source by fastforce

end

text \<open>
  Fixed-layout buffers. Several states of the contracts are byte strings with fields at constant
  offsets, read by constant-offset extraction and updated by splicing one field. The lemmas here
  describe such a buffer as the concatenation of its list of fields.
\<close>

lemma split_field:
  "i < length fs \<Longrightarrow> concat fs = concat (take i fs) @ fs ! i @ concat (drop (Suc i) fs)"
  by (metis concat.simps(2) concat_append id_take_nth_drop)

lemma offset_field: "map length fs = ls \<Longrightarrow> length (concat (take i fs)) = sum_list (take i ls)"
  by (auto simp: length_concat take_map)

lemma length_fields: "map length fs = ls \<Longrightarrow> length (concat fs) = sum_list ls"
  by (auto simp: length_concat)

lemma field_end:
  assumes "map length fs = ls" and "i < length ls"
  shows "sum_list (take i ls) + ls ! i \<le> length (concat fs)"
proof -
  have "ls = take i ls @ ls ! i # drop (Suc i) ls" using assms(2) by (rule id_take_nth_drop)
  then have "sum_list ls = sum_list (take i ls) + (ls ! i + sum_list (drop (Suc i) ls))"
    by (metis sum_list.Cons sum_list_append)
  then show ?thesis using length_fields [OF assms(1)] by linarith
qed

lemma extract_field:
  assumes "map length fs = ls" and "i < length ls" and "off = sum_list (take i ls)" and "n = ls ! i"
  shows "bextract (concat fs) off n = Inr (fs ! i)"
proof -
  have i: "i < length fs" using assms(1,2) by auto
  have "seg off n (concat fs) = fs ! i"
    using offset_field [OF assms(1), of i] assms i by (subst split_field [OF i]) (auto intro!: seg_at)
  then show ?thesis using field_end [OF assms(1,2)] assms(3,4) by (simp add: bextract_def)
qed

lemma overwrite_field:
  assumes "map length fs = ls" and "i < length ls" and "off = sum_list (take i ls)" and "length new = ls ! i"
  shows "breplace (concat fs) off new = Inr (concat (fs[i := new]))"
proof -
  have i: "i < length fs" using assms(1,2) by auto
  have len: "length (concat (take i fs)) = off" using offset_field [OF assms(1)] assms(3) by simp
  have "length (fs ! i) = length new" using assms(1,4) i by auto
  then have "overwrite off new (concat fs) = concat (take i fs) @ new @ concat (drop (Suc i) fs)"
    using len by (subst split_field [OF i]) (simp add: overwrite_def)
  also have "\<dots> = concat (fs[i := new])" by (simp add: upd_conv_take_nth_drop [OF i])
  finally show ?thesis using field_end [OF assms(1,2)] assms(3,4) by (simp add: breplace_def)
qed

lemma byte_field:
  assumes "map length fs = ls" and "i < length ls" and "off = sum_list (take i ls)"
    and "fs ! i = low_byte v" and "v < 256"
  shows "getbyte (concat fs) off = Inr v"
proof -
  have "ls ! i = 1" using assms(1,2,4) length_low_byte [of v] by (metis length_map nth_map)
  then have "bextract (concat fs) off 1 = Inr (low_byte v)"
    using extract_field [OF assms(1-3), of 1] assms(4) by simp
  then have s: "off < length (concat fs)" "seg off 1 (concat fs) = low_byte v" by (auto simp: bextract_Inr)
  have "seg off 1 (concat fs) = [concat fs ! off]"
    unfolding One_nat_def using seg_Suc [OF s(1), of 0] by simp
  then have "concat fs ! off = of_nat v" using s(2) assms(5) by (simp add: low_byte_eq)
  then show ?thesis using s(1) assms(5) by (simp add: getbyte_def unat_of_nat_byte)
qed

text \<open>A buffer of the right length is the concatenation of its fields.\<close>

fun cut_fields :: "nat list \<Rightarrow> 'a list \<Rightarrow> 'a list list" where
  "cut_fields [] xs = []"
| "cut_fields (n # ns) xs = take n xs # cut_fields ns (drop n xs)"

lemma cut_fields:
  "length xs = sum_list ls \<Longrightarrow> map length (cut_fields ls xs) = ls \<and> concat (cut_fields ls xs) = xs"
  by (induction ls arbitrary: xs) auto

end
