(* ===== verification/MPT_State.thy ===== *)
theory MPT_State
  imports RLP_Nibbles Group
begin

text \<open>
  The walk state W of \<open>contracts/mpt/state.py\<close>, a 101-byte buffer
  \<open>status(1) root(32) expected(32) depth(2) key_nibs(2) key(32)\<close>, with its accessors, its
  in-place updates and the on-chain key derivations; and the hand-off of W between
  transactions, \<open>contracts/mpt/handoff.py\<close>. Keccak-256 is the parameter \<open>K\<close>.
\<close>

definition WALK_CONTINUE :: nat where "WALK_CONTINUE = 0"
definition WALK_INCLUDED :: nat where "WALK_INCLUDED = 1"
definition WALK_ABSENT_EMPTY_SLOT :: nat where "WALK_ABSENT_EMPTY_SLOT = 2"
definition WALK_ABSENT_EXT_DIVERGE :: nat where "WALK_ABSENT_EXT_DIVERGE = 3"
definition WALK_ABSENT_LEAF_DIVERGE :: nat where "WALK_ABSENT_LEAF_DIVERGE = 4"
definition WALK_ABSENT_BRANCH_TERM :: nat where "WALK_ABSENT_BRANCH_TERM = 5"
definition W_LEN :: nat where "W_LEN = 101"

lemmas walk_status_defs = WALK_CONTINUE_def WALK_INCLUDED_def WALK_ABSENT_EMPTY_SLOT_def
  WALK_ABSENT_EXT_DIVERGE_def WALK_ABSENT_LEAF_DIVERGE_def WALK_ABSENT_BRANCH_TERM_def

section \<open>Accessors\<close>

definition w_status :: "bytes \<Rightarrow> nat res" where "w_status w = getbyte w 0"
definition w_root :: "bytes \<Rightarrow> bytes res" where "w_root w = bextract w 1 32"
definition w_expected :: "bytes \<Rightarrow> bytes res" where "w_expected w = bextract w 33 32"
definition w_depth :: "bytes \<Rightarrow> nat res" where "w_depth w = extract_uint16 w 65"
definition w_key_nibs :: "bytes \<Rightarrow> nat res" where "w_key_nibs w = extract_uint16 w 67"
definition w_key :: "bytes \<Rightarrow> bytes res" where "w_key w = bextract w 69 32"

lemmas w_accessor_defs = w_status_def w_root_def w_expected_def w_depth_def w_key_nibs_def w_key_def

section \<open>Construction and update\<close>

definition mpt_init_state :: "bytes \<Rightarrow> bytes \<Rightarrow> nat \<Rightarrow> bytes res" where
  "mpt_init_state root key key_nibs =
     check (length root = 32) ''W18'' (
     check (length key \<le> 32) ''W19'' (
     rbind (usub 32 (length key)) (\<lambda>pad.
     rbind (bzero pad) (\<lambda>zs.
     rbind (bconcat key zs) (\<lambda>padded_key.
     let status_b = low_byte WALK_CONTINUE; depth_b = low_bytes2 0; key_nibs_b = low_bytes2 key_nibs in
     Inr (status_b @ root @ root @ depth_b @ key_nibs_b @ padded_key))))))"

definition w_with_continue :: "bytes \<Rightarrow> bytes \<Rightarrow> nat \<Rightarrow> bytes res" where
  "w_with_continue w expected depth =
     check (length expected = 32) ''W18'' (
     let depth_b = low_bytes2 depth; status_b = low_byte WALK_CONTINUE in
     rbind (breplace w 0 status_b) (\<lambda>w2.
     rbind (breplace w2 33 expected) (\<lambda>w3. breplace w3 65 depth_b)))"

definition w_with_continue_depth_only :: "bytes \<Rightarrow> nat \<Rightarrow> bytes res" where
  "w_with_continue_depth_only w depth =
     (let depth_b = low_bytes2 depth; status_b = low_byte WALK_CONTINUE in
      rbind (breplace w 0 status_b) (\<lambda>w2. breplace w2 65 depth_b))"

definition w_with_terminal :: "bytes \<Rightarrow> nat \<Rightarrow> bytes res" where
  "w_with_terminal w status = (let status_b = low_byte status in breplace w 0 status_b)"

section \<open>Key derivation\<close>

definition mpt_key_from_address :: "(bytes \<Rightarrow> bytes) \<Rightarrow> bytes \<Rightarrow> bytes res" where
  "mpt_key_from_address K addr = check (length addr = 20) ''W1'' (Inr (K addr))"

definition mpt_key_from_slot :: "(bytes \<Rightarrow> bytes) \<Rightarrow> bytes \<Rightarrow> bytes res" where
  "mpt_key_from_slot K slot = check (length slot = 32) ''W2'' (Inr (K slot))"

definition mpt_key_from_tx_index :: "nat \<Rightarrow> bytes res" where
  "mpt_key_from_tx_index index =
     check (index \<le> 0xFFFFFF) ''W3'' (
     if index = 0 then Inr [0x80]
     else if index \<le> 0x7F then bextract (itob index) 7 1
     else if index \<le> 0xFF then rbind (bextract (itob index) 7 1) (\<lambda>b. bconcat [0x81] b)
     else if index \<le> 0xFFFF then rbind (bextract (itob index) 6 2) (\<lambda>b. bconcat [0x82] b)
     else rbind (bextract (itob index) 5 3) (\<lambda>b. bconcat [0x83] b))"

section \<open>Hand-off\<close>

definition LOG_LEN :: nat where "LOG_LEN = 4 + 2 + W_LEN"

definition mpt_log_state :: "bytes \<Rightarrow> bytes res" where
  "mpt_log_state w =
     check (length w = W_LEN) ''W16'' (
     let length_b = low_bytes2 W_LEN in Inr (ARC4_RETURN_PREFIX @ length_b @ w))"

definition mpt_state_from_prev :: "env \<Rightarrow> nat \<Rightarrow> bytes \<Rightarrow> bytes res" where
  "mpt_state_from_prev E gi selector =
     check (gi < env_index E) ''W13'' (
     rbind (gtxn_app_call E gi) (\<lambda>(app, args, lg).
     check (app = env_app E) ''W14'' (
     rbind (gtxn_arg0 args) (\<lambda>a0.
     check (a0 = selector) ''W15'' (
     check (length lg = LOG_LEN) ''W16'' (
     rbind (bextract lg 0 4) (\<lambda>pre.
     check (pre = ARC4_RETURN_PREFIX) ''W16'' (
     bextract lg 6 W_LEN))))))))"

section \<open>The fields of a state\<close>

text \<open>The abstract content of a walk state.\<close>

record walk =
  wk_status :: nat
  wk_root :: bytes
  wk_expected :: bytes
  wk_depth :: nat
  wk_key_nibs :: nat
  wk_key :: bytes

definition walk_ok :: "walk \<Rightarrow> bool" where
  "walk_ok a \<longleftrightarrow> wk_status a < 256 \<and> length (wk_root a) = 32 \<and> length (wk_expected a) = 32 \<and>
     wk_depth a < 65536 \<and> wk_key_nibs a < 65536 \<and> length (wk_key a) = 32"

definition w_encode :: "walk \<Rightarrow> bytes" where
  "w_encode a = low_byte (wk_status a) @ wk_root a @ wk_expected a @
     low_bytes2 (wk_depth a) @ low_bytes2 (wk_key_nibs a) @ wk_key a"

lemma length_w_encode: "walk_ok a \<Longrightarrow> length (w_encode a) = W_LEN"
  by (simp add: w_encode_def walk_ok_def W_LEN_def)

lemma be_val_low_bytes2: "v < 65536 \<Longrightarrow> be_val (low_bytes2 v) = v"
  by (simp add: low_bytes2_eq)

lemma unat_low_byte: "v < 256 \<Longrightarrow> unat (low_byte v ! 0) = v"
  by (simp add: low_byte_eq unat_of_nat_byte)

lemma w_encode_status: "walk_ok a \<Longrightarrow> w_status (w_encode a) = Inr (wk_status a)"
  by (simp add: w_status_def getbyte_def w_encode_def walk_ok_def low_byte_eq unat_of_nat_byte)

lemma w_encode_fields:
  assumes "walk_ok a"
  shows "w_root (w_encode a) = Inr (wk_root a)"
    and "w_expected (w_encode a) = Inr (wk_expected a)"
    and "w_depth (w_encode a) = Inr (wk_depth a)"
    and "w_key_nibs (w_encode a) = Inr (wk_key_nibs a)"
    and "w_key (w_encode a) = Inr (wk_key a)"
proof -
  let ?s = "low_byte (wk_status a)"
  let ?d = "low_bytes2 (wk_depth a)"
  let ?n = "low_bytes2 (wk_key_nibs a)"
  have l: "length (wk_root a) = 32" "length (wk_expected a) = 32" "length (wk_key a) = 32"
    using assms by (auto simp: walk_ok_def)
  have len: "length (w_encode a) = 101" using length_w_encode [OF assms] by (simp add: W_LEN_def)
  have "seg 1 32 (w_encode a) = wk_root a"
    using seg_at [of ?s 1 "wk_root a" 32] l by (simp add: w_encode_def)
  then show "w_root (w_encode a) = Inr (wk_root a)" using len by (simp add: w_root_def bextract_def)
  have "seg 33 32 (w_encode a) = wk_expected a"
    using seg_at [of "?s @ wk_root a" 33 "wk_expected a" 32] l by (simp add: w_encode_def)
  then show "w_expected (w_encode a) = Inr (wk_expected a)" using len by (simp add: w_expected_def bextract_def)
  have "seg 65 2 (w_encode a) = ?d"
    using seg_at [of "?s @ wk_root a @ wk_expected a" 65 ?d 2] l by (simp add: w_encode_def)
  then show "w_depth (w_encode a) = Inr (wk_depth a)"
    using len assms by (simp add: w_depth_def extract_uint16_def be_val_low_bytes2 walk_ok_def)
  have "seg 67 2 (w_encode a) = ?n"
    using seg_at [of "?s @ wk_root a @ wk_expected a @ ?d" 67 ?n 2] l by (simp add: w_encode_def)
  then show "w_key_nibs (w_encode a) = Inr (wk_key_nibs a)"
    using len assms by (simp add: w_key_nibs_def extract_uint16_def be_val_low_bytes2 walk_ok_def)
  have "seg 69 32 (w_encode a) = wk_key a"
    using seg_at_end [of "?s @ wk_root a @ wk_expected a @ ?d @ ?n" 69 "wk_key a" 32] l
    by (simp add: w_encode_def)
  then show "w_key (w_encode a) = Inr (wk_key a)" using len by (simp add: w_key_def bextract_def)
qed

lemmas w_encode_get = w_encode_status w_encode_fields

text \<open>The updates act on the abstract fields.\<close>

lemma overwrite_at: "length pre = off \<Longrightarrow> length old = length new \<Longrightarrow>
  overwrite off new (pre @ old @ post) = pre @ new @ post"
  by (auto simp: overwrite_def)

lemma w_with_terminal_encode:
  "walk_ok a \<Longrightarrow> w_with_terminal (w_encode a) s = Inr (w_encode (a\<lparr>wk_status := s\<rparr>))"
  using overwrite_at [of "[]" 0 "low_byte (wk_status a)" "low_byte s"]
  by (simp add: w_with_terminal_def breplace_def length_w_encode W_LEN_def)
    (simp add: w_encode_def)

lemma low_byte_0: "overwrite 0 (low_byte s) (low_byte t @ xs) = low_byte s @ xs"
  using overwrite_at [of "[]" 0 "low_byte t" "low_byte s" xs] by simp

lemma w_with_continue_depth_only_encode:
  assumes "walk_ok a"
  shows "w_with_continue_depth_only (w_encode a) d =
    Inr (w_encode (a\<lparr>wk_status := WALK_CONTINUE, wk_depth := d\<rparr>))"
proof -
  have l: "length (wk_root a) = 32" "length (wk_expected a) = 32" "length (wk_key a) = 32"
    using assms by (auto simp: walk_ok_def)
  let ?pre = "low_byte WALK_CONTINUE @ wk_root a @ wk_expected a"
  let ?post = "low_bytes2 (wk_key_nibs a) @ wk_key a"
  have "overwrite 65 (low_bytes2 d) (?pre @ low_bytes2 (wk_depth a) @ ?post) = ?pre @ low_bytes2 d @ ?post"
    using l by (intro overwrite_at) auto
  then show ?thesis using l
    by (simp add: w_with_continue_depth_only_def breplace_def w_encode_def low_byte_0 Let_def)
qed

lemma w_with_continue_encode:
  assumes "walk_ok a" and "length e = 32"
  shows "w_with_continue (w_encode a) e d =
    Inr (w_encode (a\<lparr>wk_status := WALK_CONTINUE, wk_expected := e, wk_depth := d\<rparr>))"
proof -
  have l: "length (wk_root a) = 32" "length (wk_expected a) = 32" "length (wk_key a) = 32"
    using assms by (auto simp: walk_ok_def)
  let ?s = "low_byte WALK_CONTINUE"
  let ?post = "low_bytes2 (wk_key_nibs a) @ wk_key a"
  have "overwrite 33 e ((?s @ wk_root a) @ wk_expected a @ low_bytes2 (wk_depth a) @ ?post) =
      (?s @ wk_root a) @ e @ low_bytes2 (wk_depth a) @ ?post"
    using l assms(2) by (intro overwrite_at) auto
  moreover have "overwrite 65 (low_bytes2 d) ((?s @ wk_root a @ e) @ low_bytes2 (wk_depth a) @ ?post) =
      (?s @ wk_root a @ e) @ low_bytes2 d @ ?post"
    using l assms(2) by (intro overwrite_at) auto
  ultimately show ?thesis using l assms(2)
    by (simp add: w_with_continue_def breplace_def w_encode_def low_byte_0 Let_def)
qed

lemma mpt_init_state_encode:
  assumes "length root = 32" and "length key \<le> 32"
  shows "mpt_init_state root key key_nibs =
    Inr (w_encode \<lparr>wk_status = WALK_CONTINUE, wk_root = root, wk_expected = root, wk_depth = 0,
      wk_key_nibs = key_nibs, wk_key = key @ replicate (32 - length key) 0\<rparr>)"
  using assms
  by (simp add: mpt_init_state_def usub_def bzero_def bconcat_def max_bytes_def w_encode_def Let_def)

section \<open>The hand-off of W implements the interface\<close>

lemma mpt_recover_logged:
  assumes "gi < env_index E" and "gi < length (env_group E)"
    and "env_group E ! gi = AppCall (env_app E) (sel # rest) lg" and "mpt_log_state w = Inr lg"
  shows "mpt_state_from_prev E gi sel = Inr w"
proof -
  have w: "length w = W_LEN" and lg: "lg = ARC4_RETURN_PREFIX @ low_bytes2 W_LEN @ w"
    using assms(4) by (auto simp: mpt_log_state_def res_simps)
  have "seg 0 4 lg = ARC4_RETURN_PREFIX" using seg_at [of "[]" 0 ARC4_RETURN_PREFIX 4] by (simp add: lg)
  moreover have "seg 6 W_LEN lg = w"
    using seg_at_end [of "ARC4_RETURN_PREFIX @ low_bytes2 W_LEN" 6 w W_LEN] w by (simp add: lg)
  moreover have "length lg = LOG_LEN" using w by (simp add: lg LOG_LEN_def)
  ultimately show ?thesis using assms(1-3)
    by (simp add: mpt_state_from_prev_def gtxn_app_call_def gtxn_arg0_def bextract_def LOG_LEN_def W_LEN_def)
qed

interpretation mpt_handoff: log_handoff mpt_log_state "\<lambda>E gi. mpt_state_from_prev E gi sel" env_app sel for sel
  by unfold_locales
    (auto simp: mpt_recover_logged, auto simp: mpt_state_from_prev_def res_simps split: prod.splits)

end
