(* ===== verification/MPT_Walk.thy ===== *)
theory MPT_Walk
  imports MPT_State
begin

text \<open>
  The verified descent: \<open>contracts/mpt/descend.py\<close> (arity discrimination, item fetch) and
  \<open>contracts/mpt/walk.py\<close> (branch, extension and leaf hops, the single-node walker), with the
  raw-argument driver \<open>MptSegmentApp\<close> of \<open>contracts/mpt/bench_app.py\<close>. Inner transactions
  that only raise the opcode budget are the parameter \<open>donate\<close>.
\<close>

section \<open>Descend\<close>

definition mpt_arity_discriminate ::
  "bytes \<Rightarrow> nat \<Rightarrow> (nat \<times> nat \<times> nat \<times> nat \<times> nat \<times> nat \<times> nat \<times> nat) res" where
  "mpt_arity_discriminate node start =
     rbind (rlp_list_header node start) (\<lambda>(payload_off, payload_end).
     rbind (rlp_item_header node payload_off) (\<lambda>(o0, l0, k0).
     rbind (uadd o0 l0) (\<lambda>i1.
     rbind (rlp_item_header node i1) (\<lambda>(o1, l1, k1).
     rbind (uadd o1 l1) (\<lambda>e1.
     if e1 = payload_end then Inr (2, payload_end, o0, l0, k0, o1, l1, k1)
     else Inr (17, payload_end, o0, l0, k0, o1, l1, k1))))))"

text \<open>The stride of the skip loop, duplicated in the source without the \<open>R7\<close> length check.\<close>

definition mpt_stride :: "bytes \<Rightarrow> nat \<Rightarrow> nat res" where
  "mpt_stride node pos =
     rbind (getbyte node pos) (\<lambda>p.
     if p < 0xB8 then
       (if p < 0x80 then uadd pos 1
        else rbind (uadd 1 p) (\<lambda>t. rbind (usub t 0x80) (\<lambda>s. uadd pos s)))
     else if p < 0xC0 then
       rbind (usub p 0xB7) (\<lambda>ll.
       rbind (uadd 1 ll) (\<lambda>t.
       rbind (uadd pos 1) (\<lambda>p1.
       rbind (bextract node p1 ll) (\<lambda>bs.
       rbind (btoi bs) (\<lambda>n.
       rbind (uadd t n) (\<lambda>s. uadd pos s))))))
     else if p < 0xF8 then
       rbind (uadd 1 p) (\<lambda>t. rbind (usub t 0xC0) (\<lambda>s. uadd pos s))
     else
       rbind (usub p 0xF7) (\<lambda>ll.
       rbind (uadd 1 ll) (\<lambda>t.
       rbind (uadd pos 1) (\<lambda>p1.
       rbind (bextract node p1 ll) (\<lambda>bs.
       rbind (btoi bs) (\<lambda>n.
       rbind (uadd t n) (\<lambda>s. uadd pos s)))))))"

text \<open>The skip loop with \<open>k = want - n\<close> items left to skip.\<close>

fun mpt_skip_loop :: "bytes \<Rightarrow> nat \<Rightarrow> nat \<Rightarrow> nat \<Rightarrow> nat res" where
  "mpt_skip_loop node payload_end 0 pos = Inr pos"
| "mpt_skip_loop node payload_end (Suc k) pos =
     check (pos < payload_end) ''W9'' (
     rbind (mpt_stride node pos) (\<lambda>pos'. mpt_skip_loop node payload_end k pos'))"

definition mpt_branch_item_at ::
  "bytes \<Rightarrow> nat \<Rightarrow> nat \<Rightarrow> nat \<Rightarrow> nat \<Rightarrow> nat \<Rightarrow> nat \<Rightarrow> nat \<Rightarrow> nat \<Rightarrow> (nat \<times> nat \<times> nat) res" where
  "mpt_branch_item_at node o0 l0 k0 o1 l1 k1 payload_end want =
     (if want = 0 then Inr (o0, l0, k0)
      else if want = 1 then Inr (o1, l1, k1)
      else
        rbind (uadd o1 l1) (\<lambda>pos.
        rbind (mpt_skip_loop node payload_end (want - 2) pos) (\<lambda>pos'.
        check (pos' < payload_end) ''W9'' (rlp_item_header node pos'))))"

definition mpt_descend ::
  "bytes \<Rightarrow> nat \<Rightarrow> nat \<Rightarrow> (nat \<times> nat \<times> nat \<times> nat \<times> nat \<times> nat \<times> nat) res" where
  "mpt_descend node start want =
     rbind (mpt_arity_discriminate node start) (\<lambda>(arity, payload_end, o0, l0, k0, o1, l1, k1).
     if arity = 2 then Inr (2, o0, l0, k0, o1, l1, k1)
     else
       rbind (mpt_branch_item_at node o0 l0 k0 o1 l1 k1 payload_end want) (\<lambda>(ow, lw, kw).
       Inr (17, o0, l0, k0, ow, lw, kw)))"

section \<open>Hops\<close>

datatype hop_kind = Terminal | NextNode | Inline

definition INLINE_STEPS_MAX :: nat where "INLINE_STEPS_MAX = 8"

type_synonym hop = "hop_kind \<times> bytes \<times> nat \<times> nat \<times> nat"

definition mpt_branch_hop ::
  "bytes \<Rightarrow> nat \<Rightarrow> nat \<Rightarrow> nat \<Rightarrow> nat \<Rightarrow> nat \<Rightarrow> nat \<Rightarrow> nat \<Rightarrow> bytes \<Rightarrow> hop res" where
  "mpt_branch_hop node o0 l0 k0 o1 l1 k1 payload_end w =
     rbind (w_depth w) (\<lambda>depth.
     rbind (w_key_nibs w) (\<lambda>key_nibs.
     rbind (w_key w) (\<lambda>key.
     check (depth \<le> key_nibs) ''W4'' (
     if depth = key_nibs then
       rbind (mpt_branch_item_at node o0 l0 k0 o1 l1 k1 payload_end 16) (\<lambda>(ov, lv, _).
       if lv = 0 then
         rbind (w_with_terminal w WALK_ABSENT_BRANCH_TERM) (\<lambda>w'. Inr (Terminal, w', 0, 0, 0))
       else rbind (w_with_terminal w WALK_INCLUDED) (\<lambda>w'. Inr (Terminal, w', ov, lv, 0)))
     else
       rbind (nibble_at key depth) (\<lambda>nib.
       rbind (mpt_branch_item_at node o0 l0 k0 o1 l1 k1 payload_end nib) (\<lambda>(oc, lc, kc).
       if kc = KIND_LIST then
         rbind (uadd depth 1) (\<lambda>d'.
         rbind (w_with_continue_depth_only w d') (\<lambda>w'. Inr (Inline, w', 0, 0, oc)))
       else
         check (kc = KIND_STR) ''W6'' (
         if lc = 0 then
           rbind (w_with_terminal w WALK_ABSENT_EMPTY_SLOT) (\<lambda>w'. Inr (Terminal, w', 0, 0, 0))
         else
           check (lc = 32) ''W6'' (
           rbind (rlp_bytes node oc 32) (\<lambda>next_expected.
           rbind (uadd depth 1) (\<lambda>d'.
           rbind (w_with_continue w next_expected d') (\<lambda>w'. Inr (NextNode, w', 0, 0, 0))))))))))))"

definition mpt_extension_hop ::
  "bytes \<Rightarrow> nat \<Rightarrow> nat \<Rightarrow> nat \<Rightarrow> nat \<Rightarrow> nat \<Rightarrow> bytes \<Rightarrow> hop res" where
  "mpt_extension_hop node o0 l0 o1 l1 k1 w =
     rbind (w_depth w) (\<lambda>depth.
     rbind (w_key_nibs w) (\<lambda>key_nibs.
     rbind (w_key w) (\<lambda>key.
     rbind (hp_decode node o0 l0) (\<lambda>(_, n_path, nib_index).
     rbind (uadd depth n_path) (\<lambda>new_depth.
     if new_depth > key_nibs then
       rbind (w_with_terminal w WALK_ABSENT_EXT_DIVERGE) (\<lambda>w'. Inr (Terminal, w', 0, 0, 0))
     else
       rbind (nibbles_equal node nib_index key depth n_path) (\<lambda>eq.
       if \<not> eq then
         rbind (w_with_terminal w WALK_ABSENT_EXT_DIVERGE) (\<lambda>w'. Inr (Terminal, w', 0, 0, 0))
       else if k1 = KIND_LIST then
         rbind (w_with_continue_depth_only w new_depth) (\<lambda>w'. Inr (Inline, w', 0, 0, o1))
       else
         check (k1 = KIND_STR) ''W6'' (
         check (l1 \<noteq> 0) ''W7'' (
         check (l1 = 32) ''W6'' (
         rbind (rlp_bytes node o1 32) (\<lambda>next_expected.
         rbind (w_with_continue w next_expected new_depth) (\<lambda>w'.
         Inr (NextNode, w', 0, 0, 0)))))))))))) "

definition mpt_leaf_hop :: "bytes \<Rightarrow> nat \<Rightarrow> nat \<Rightarrow> nat \<Rightarrow> nat \<Rightarrow> bytes \<Rightarrow> hop res" where
  "mpt_leaf_hop node o0 l0 o1 l1 w =
     rbind (w_depth w) (\<lambda>depth.
     rbind (w_key_nibs w) (\<lambda>key_nibs.
     rbind (w_key w) (\<lambda>key.
     rbind (hp_decode node o0 l0) (\<lambda>(_, n_path, nib_index).
     rbind (uadd depth n_path) (\<lambda>end_depth.
     if end_depth \<noteq> key_nibs then
       rbind (w_with_terminal w WALK_ABSENT_LEAF_DIVERGE) (\<lambda>w'. Inr (Terminal, w', 0, 0, 0))
     else
       rbind (nibbles_equal node nib_index key depth n_path) (\<lambda>eq.
       if \<not> eq then
         rbind (w_with_terminal w WALK_ABSENT_LEAF_DIVERGE) (\<lambda>w'. Inr (Terminal, w', 0, 0, 0))
       else rbind (w_with_terminal w WALK_INCLUDED) (\<lambda>w'. Inr (Terminal, w', o1, l1, 0))))))))"

text \<open>The dispatch of one iteration of the walker's loop at offset \<open>start\<close>.\<close>

definition mpt_hop :: "bytes \<Rightarrow> nat \<Rightarrow> bytes \<Rightarrow> hop res" where
  "mpt_hop node start w =
     rbind (mpt_arity_discriminate node start) (\<lambda>(arity, payload_end, o0, l0, k0, o1, l1, k1).
     if arity = 17 then mpt_branch_hop node o0 l0 k0 o1 l1 k1 payload_end w
     else
       rbind (hp_decode node o0 l0) (\<lambda>(is_leaf, _, _).
       if is_leaf then mpt_leaf_hop node o0 l0 o1 l1 w
       else mpt_extension_hop node o0 l0 o1 l1 k1 w))"

function mpt_walk_loop :: "bytes \<Rightarrow> nat \<Rightarrow> nat \<Rightarrow> bytes \<Rightarrow> (bytes \<times> nat \<times> nat) res" where
  "mpt_walk_loop node start steps cur_w =
     check (steps \<le> INLINE_STEPS_MAX) ''W8'' (
     rbind (mpt_hop node start cur_w) (\<lambda>(kind, w', value_off, value_len, child_off).
     if kind = Inline then mpt_walk_loop node child_off (steps + 1) w'
     else Inr (w', value_off, value_len)))"
  by pat_completeness auto
termination
  by (relation "measure (\<lambda>(node, start, steps, w). Suc INLINE_STEPS_MAX - steps)") auto

declare mpt_walk_loop.simps [simp del]

definition mpt_walk_node :: "(bytes \<Rightarrow> bytes) \<Rightarrow> bytes \<Rightarrow> bytes \<Rightarrow> (bytes \<times> nat \<times> nat) res" where
  "mpt_walk_node K node w =
     rbind (w_expected w) (\<lambda>expected.
     check (K node = expected) ''W11'' (
     rbind (w_status w) (\<lambda>status.
     check (status = WALK_CONTINUE) ''W12'' (
     mpt_walk_loop node 0 0 w))))"

definition mpt_verify_inclusion :: "bytes \<Rightarrow> nat \<Rightarrow> nat \<Rightarrow> (nat \<times> nat) res" where
  "mpt_verify_inclusion w value_off value_len =
     rbind (w_status w) (\<lambda>s. check (s = WALK_INCLUDED) ''W17'' (Inr (value_off, value_len)))"

section \<open>The segment driver\<close>

definition MPT_SEGMENT_SELECTOR :: bytes where
  "MPT_SEGMENT_SELECTOR = [0x4D, 0x50, 0x54, 0x31]"

text \<open>\<open>_walk_remaining_args\<close>: the loop over the raw node arguments, here their list.\<close>

fun walk_nodes :: "(bytes \<Rightarrow> bytes) \<Rightarrow> bytes \<Rightarrow> bytes list \<Rightarrow> bytes res" where
  "walk_nodes K w [] = Inr w"
| "walk_nodes K w (node # nodes) =
     rbind (w_status w) (\<lambda>s.
     check (s = WALK_CONTINUE) ''W10'' (
     rbind (mpt_walk_node K node w) (\<lambda>(w', _, _). walk_nodes K w' nodes)))"

definition walk_remaining_args :: "(bytes \<Rightarrow> bytes) \<Rightarrow> env \<Rightarrow> bytes \<Rightarrow> nat \<Rightarrow> bytes res" where
  "walk_remaining_args K E w first_node_arg = walk_nodes K w (drop first_node_arg (env_args E))"

text \<open>
  \<open>MptSegmentApp.approval_program\<close> for a \<open>NoOp\<close> call of the deployed application; the result is
  the bytes it logs (none when called without arguments).
\<close>

definition mpt_segment_app ::
  "(bytes \<Rightarrow> bytes) \<Rightarrow> (nat \<Rightarrow> nat \<Rightarrow> unit res) \<Rightarrow> env \<Rightarrow> bytes option res" where
  "mpt_segment_app K donate E =
     (if env_args E = [] then Inr None
      else
        rbind (app_arg E 0) (\<lambda>selector.
        check (selector = MPT_SEGMENT_SELECTOR) ''V2'' (
        rbind (app_arg E 1) (\<lambda>a1. rbind (btoi a1) (\<lambda>mode.
        rbind (app_arg E 2) (\<lambda>a2. rbind (btoi a2) (\<lambda>donor_count.
        rbind (app_arg E 3) (\<lambda>a3. rbind (btoi a3) (\<lambda>donor_app_id.
        if mode = 0 then
          rbind (app_arg E 4) (\<lambda>a4. rbind (btoi a4) (\<lambda>key_kind.
          rbind (app_arg E 5) (\<lambda>preimage.
          rbind (app_arg E 6) (\<lambda>root.
          rbind (donate donor_count donor_app_id) (\<lambda>_.
          rbind
            (if key_kind = 0 then rbind (mpt_key_from_address K preimage) (\<lambda>key. Inr (key, 64))
             else if key_kind = 1 then rbind (mpt_key_from_slot K preimage) (\<lambda>key. Inr (key, 64))
             else
               rbind (btoi preimage) (\<lambda>index.
               rbind (mpt_key_from_tx_index index) (\<lambda>key. Inr (key, 2 * length key))))
          (\<lambda>(key, key_nibs).
          rbind (mpt_init_state root key key_nibs) (\<lambda>w.
          rbind (walk_remaining_args K E w 7) (\<lambda>final_w.
          rbind (mpt_log_state final_w) (\<lambda>lg. Inr (Some lg))))))))))
        else
          check (mode = 1) ''V3'' (
          rbind (app_arg E 4) (\<lambda>a4. rbind (btoi a4) (\<lambda>prev_gi.
          rbind (donate donor_count donor_app_id) (\<lambda>_.
          rbind (mpt_state_from_prev E prev_gi MPT_SEGMENT_SELECTOR) (\<lambda>w.
          rbind (walk_remaining_args K E w 5) (\<lambda>final_w.
          rbind (mpt_log_state final_w) (\<lambda>lg. Inr (Some lg)))))))))))))))))"

end
