(* ===== verification/RLP_Encode.thy ===== *)
theory RLP_Encode
  imports RLP_Spec
begin

text \<open>
  The RLP encoding itself, as a reference: items, their encoder, and the proof that the decoder
  of \<open>RLP_Core\<close> reads back what the encoder wrote. The encoder is the specification side;
  the repository contains only the decoder.
\<close>

datatype rlp = RStr bytes | RList "rlp list"

definition enc_prefix :: "nat \<Rightarrow> nat \<Rightarrow> bytes" where
  "enc_prefix base n =
     (if n < 56 then [of_nat (base + n)] else of_nat (base + 55 + length (be_min n)) # be_min n)"

fun rlp_enc :: "rlp \<Rightarrow> bytes" where
  "rlp_enc (RStr bs) =
     (if length bs = 1 \<and> unat (hd bs) < 0x80 then bs else enc_prefix 0x80 (length bs) @ bs)"
| "rlp_enc (RList xs) =
     (let p = concat (map rlp_enc xs) in enc_prefix 0xC0 (length p) @ p)"

text \<open>The span the header decoder must report for an item that begins at \<open>pos\<close>.\<close>

fun rlp_span :: "nat \<Rightarrow> rlp \<Rightarrow> nat \<times> nat \<times> nat" where
  "rlp_span pos (RStr bs) =
     (if length bs = 1 \<and> unat (hd bs) < 0x80 then (pos, 1, KIND_BYTE)
      else (pos + length (enc_prefix 0x80 (length bs)), length bs, KIND_STR))"
| "rlp_span pos (RList xs) = (pos, length (rlp_enc (RList xs)), KIND_LIST)"

section \<open>Headers\<close>

lemma enc_prefix_not_Nil [simp]: "enc_prefix b n \<noteq> []"
  by (simp add: enc_prefix_def)

lemma rlp_enc_not_Nil [simp]: "rlp_enc x \<noteq> []"
  by (cases x) (auto simp: Let_def)

lemma getbyte_append: "getbyte (pre @ b # rest) (length pre) = Inr (unat b)"
  by (simp add: getbyte_def)

lemma getbyte_of_nat: "data = pre @ of_nat v # rest \<Longrightarrow> v < 256 \<Longrightarrow> getbyte data (length pre) = Inr v"
  by (simp add: getbyte_append unat_of_nat_byte del: of_nat_add)

lemma read_len_append:
  "length l \<le> 8 \<Longrightarrow> read_len (pre @ b # l @ rest) (Suc (length pre)) (length l) = Inr (be_val l)"
proof -
  have "seg (Suc (length pre)) (length l) (pre @ b # l @ rest) = l"
    using seg_at [of "pre @ [b]" "Suc (length pre)" l "length l" rest] by simp
  then show "length l \<le> 8 \<Longrightarrow> ?thesis"
    by (simp add: read_len_def bextract_def btoi_def)
qed

lemma enc_prefix_length: "length (enc_prefix b n) = (if n < 56 then 1 else 1 + length (be_min n))"
  by (simp add: enc_prefix_def)

text \<open>The list header decoder inverts the prefix of a list.\<close>

lemma rlp_list_header_enc:
  assumes "data = pre @ enc_prefix 0xC0 (length p) @ p @ post" and "length data < uint64_limit"
  shows "rlp_list_header data (length pre) =
    Inr (length pre + length (enc_prefix 0xC0 (length p)),
         length pre + length (enc_prefix 0xC0 (length p)) + length p)"
proof (cases "length p < 56")
  case True
  have g: "getbyte data (length pre) = Inr (0xC0 + length p)"
    by (rule getbyte_of_nat) (use True assms(1) in \<open>simp_all add: enc_prefix_def\<close>)
  have len: "length data = length pre + 1 + length p + length post"
    using True by (simp add: assms(1) enc_prefix_length)
  show ?thesis using True assms(2) len
    by (simp add: rlp_list_header_def g enc_prefix_def uadd_def usub_def)
next
  case False
  let ?l = "be_min (length p)"
  have l8: "length ?l \<le> 8" using assms by (intro length_be_min_8) simp
  have lpos: "0 < length ?l" using False by (intro length_be_min_gt0) linarith
  have d: "data = pre @ of_nat (0xC0 + 55 + length ?l) # ?l @ p @ post"
    using False assms(1) by (simp add: enc_prefix_def)
  have g: "getbyte data (length pre) = Inr (0xC0 + 55 + length ?l)"
    by (rule getbyte_of_nat [OF d]) (use l8 in simp)
  have r: "read_len data (Suc (length pre)) (length ?l) = Inr (length p)"
    unfolding d using read_len_append [OF l8] by simp
  have len: "length data = length pre + 1 + length ?l + length p + length post"
    by (simp add: d)
  show ?thesis using False assms(2) len l8 lpos
    by (simp add: rlp_list_header_def g r enc_prefix_length uadd_def usub_def)
qed

text \<open>The item header decoder inverts the encoder, for every item and every context.\<close>

lemma rlp_item_header_enc:
  assumes data: "data = pre @ rlp_enc x @ post" and lim: "length data < uint64_limit"
  shows "rlp_item_header data (length pre) = Inr (rlp_span (length pre) x)"
proof (cases x)
  case (RStr bs)
  show ?thesis
  proof (cases "length bs = 1 \<and> unat (hd bs) < 0x80")
    case True
    then obtain b where b: "bs = [b]" "unat b < 128" by (cases bs) auto
    have g: "getbyte data (length pre) = Inr (unat b)"
      by (simp add: data RStr b getbyte_def)
    have len: "length data = length pre + 1 + length post" by (simp add: data RStr b)
    show ?thesis using b lim len by (simp add: rlp_item_header_def g RStr uadd_def)
  next
    case False
    note nb = this
    show ?thesis
    proof (cases "length bs < 56")
      case True
      have d: "data = pre @ of_nat (0x80 + length bs) # bs @ post"
        using nb True by (auto simp: data RStr enc_prefix_def)
      have g: "getbyte data (length pre) = Inr (0x80 + length bs)"
        by (rule getbyte_of_nat [OF d]) (use True in simp)
      have "length data = length pre + 1 + length bs + length post" by (simp add: d)
      then show ?thesis using nb True lim
        by (auto simp: rlp_item_header_def g RStr uadd_def usub_def enc_prefix_length)
    next
      case False
      let ?l = "be_min (length bs)"
      have d: "data = pre @ of_nat (0x80 + 55 + length ?l) # ?l @ bs @ post"
        using nb False by (auto simp: data RStr enc_prefix_def)
      then have len: "length data = length pre + 1 + length ?l + length bs + length post" by simp
      have l8: "length ?l \<le> 8" using len lim by (intro length_be_min_8) simp
      have lpos: "0 < length ?l" using False by (intro length_be_min_gt0) linarith
      have g: "getbyte data (length pre) = Inr (0x80 + 55 + length ?l)"
        by (rule getbyte_of_nat [OF d]) (use l8 in simp)
      have r: "read_len data (Suc (length pre)) (length ?l) = Inr (length bs)"
        unfolding d using read_len_append [OF l8] by simp
      show ?thesis using nb False lim len l8 lpos
        by (auto simp: rlp_item_header_def g r RStr uadd_def usub_def enc_prefix_length)
    qed
  qed
next
  case (RList xs)
  define p where "p = concat (map rlp_enc xs)"
  have enc: "rlp_enc x = enc_prefix 0xC0 (length p) @ p" by (simp add: RList p_def Let_def)
  show ?thesis
  proof (cases "length p < 56")
    case True
    have d: "data = pre @ of_nat (0xC0 + length p) # p @ post"
      using True by (simp add: data enc enc_prefix_def)
    have g: "getbyte data (length pre) = Inr (0xC0 + length p)"
      by (rule getbyte_of_nat [OF d]) (use True in simp)
    have len: "length data = length pre + 1 + length p + length post" by (simp add: d)
    have "rlp_span (length pre) x = (length pre, 1 + length p, KIND_LIST)"
      using True enc by (simp add: RList enc_prefix_length)
    moreover have "1 + (0xC0 + length p) < uint64_limit" using True by (simp add: uint64_limit_def)
    ultimately show ?thesis using True lim len
      by (simp add: rlp_item_header_def g uadd_def usub_def)
  next
    case False
    let ?l = "be_min (length p)"
    have d: "data = pre @ of_nat (0xC0 + 55 + length ?l) # ?l @ p @ post"
      using False by (simp add: data enc enc_prefix_def)
    then have len: "length data = length pre + 1 + length ?l + length p + length post" by simp
    have l8: "length ?l \<le> 8" using len lim by (intro length_be_min_8) simp
    have lpos: "0 < length ?l" using False by (intro length_be_min_gt0) linarith
    have g: "getbyte data (length pre) = Inr (0xC0 + 55 + length ?l)"
      by (rule getbyte_of_nat [OF d]) (use l8 in simp)
    have r: "read_len data (Suc (length pre)) (length ?l) = Inr (length p)"
      unfolding d using read_len_append [OF l8] by simp
    have "rlp_span (length pre) x = (length pre, 1 + length ?l + length p, KIND_LIST)"
      using False enc by (simp add: RList enc_prefix_length)
    then show ?thesis using False lim len l8 lpos
      by (simp add: rlp_item_header_def g r uadd_def usub_def)
  qed
qed

lemma rlp_span_end: "rlp_span pos x = (off, n, k) \<Longrightarrow> off + n = pos + length (rlp_enc x)"
  by (cases x) (auto simp: enc_prefix_length split: if_splits)

lemma rlp_stride_enc:
  "data = pre @ rlp_enc x @ post \<Longrightarrow> length data < uint64_limit \<Longrightarrow>
   rlp_stride data (length pre) = Inr (length pre + length (rlp_enc x))"
  by (metis rlp_item_header_enc rlp_item_header_stride rlp_span_end prod_cases3)

section \<open>Lists\<close>

text \<open>The loop completes on every chain of items within the caps.\<close>

lemma rlp_scan_loop_complete:
  assumes "rlp_chain data pos offs pe" and "length table + 2 * length offs \<le> 2 * mx"
    and "length table + 2 * length offs \<le> max_bytes" and "2 * mx < uint64_limit"
  shows "rlp_scan_loop data mx pe table pos = Inr (table @ offset_table offs, pe)"
  using assms(1-3)
proof (induction offs arbitrary: pos table)
  case Nil
  then show ?case by (simp add: rlp_scan_loop.simps)
next
  case (Cons off offs)
  then obtain q where q: "rlp_stride data pos = Inr q" "rlp_chain data q offs pe" "pos < pe" "off = pos"
    by (auto split: sum.splits)
  have "rlp_scan_loop data mx pe (table @ low_bytes2 pos) q =
      Inr ((table @ low_bytes2 pos) @ offset_table offs, pe)"
    using q(2) Cons.prems by (intro Cons.IH) auto
  then show ?case using q Cons.prems assms(4)
    by (subst rlp_scan_loop.simps) (simp add: umul_def bconcat_def offset_table_def)
qed

fun item_offs :: "nat \<Rightarrow> rlp list \<Rightarrow> nat list" where
  "item_offs pos [] = []"
| "item_offs pos (x # xs) = pos # item_offs (pos + length (rlp_enc x)) xs"

lemma length_item_offs [simp]: "length (item_offs pos xs) = length xs"
  by (induction xs arbitrary: pos) auto

lemma nth_item_offs:
  "i < length xs \<Longrightarrow> item_offs pos xs ! i = pos + length (concat (map rlp_enc (take i xs)))"
proof (induction xs arbitrary: pos i)
  case Nil
  then show ?case by simp
next
  case (Cons x xs)
  then show ?case by (cases i) auto
qed

lemma rlp_chain_enc:
  assumes "data = pre @ concat (map rlp_enc xs) @ post" and "length data < uint64_limit"
  shows "rlp_chain data (length pre) (item_offs (length pre) xs)
    (length pre + length (concat (map rlp_enc xs)))"
  using assms
proof (induction xs arbitrary: pre)
  case Nil
  then show ?case by simp
next
  case (Cons x xs)
  have "rlp_stride data (length pre) = Inr (length pre + length (rlp_enc x))"
    using Cons.prems by (intro rlp_stride_enc [where post = "concat (map rlp_enc xs) @ post"]) auto
  moreover have "data = (pre @ rlp_enc x) @ concat (map rlp_enc xs) @ post"
    using Cons.prems by simp
  note Cons.IH [OF this Cons.prems(2)]
  ultimately show ?case by (simp add: add.assoc)
qed

lemma rlp_scan_n_enc:
  assumes data: "data = pre @ rlp_enc (RList xs) @ post" and lim: "length data < uint64_limit"
    and cap: "length xs \<le> mx" "2 * mx + 2 \<le> max_bytes"
  defines "start \<equiv> length pre"
    and "po \<equiv> length pre + length (enc_prefix 0xC0 (length (concat (map rlp_enc xs))))"
  shows "rlp_scan_n data start mx = Inr
    (offset_table (item_offs po xs @ [po + length (concat (map rlp_enc xs))]), length xs)"
proof -
  let ?p = "concat (map rlp_enc xs)"
  let ?h = "enc_prefix 0xC0 (length ?p)"
  have h: "rlp_list_header data start = Inr (po, po + length ?p)"
    unfolding start_def po_def using data lim by (intro rlp_list_header_enc) (auto simp: Let_def)
  have d: "data = (pre @ ?h) @ ?p @ post" using data by (simp add: Let_def)
  have c: "rlp_chain data po (item_offs po xs) (po + length ?p)"
    using rlp_chain_enc [OF d lim] by (simp add: po_def)
  have mx: "2 * mx < uint64_limit" using cap by (simp add: uint64_limit_def max_bytes_def)
  have "rlp_scan_loop data mx (po + length ?p) [] po
      = Inr ([] @ offset_table (item_offs po xs), po + length ?p)"
    using cap by (intro rlp_scan_loop_complete [OF c _ _ mx]) auto
  then show ?thesis using cap
    by (simp add: rlp_scan_n_def h bconcat_def usub_def offset_table_single)
qed

text \<open>The items of a payload are determined by its bounds, so a scan that succeeds has counted them all.\<close>

lemma rlp_chain_unique: "rlp_chain data p offs e \<Longrightarrow> rlp_chain data p offs' e \<Longrightarrow> offs = offs'"
proof (induction offs arbitrary: p offs')
  case Nil
  then show ?case by (cases offs') auto
next
  case (Cons o1 offs)
  then show ?case by (cases offs') (auto split: sum.splits)
qed

lemma rlp_scan_n_count:
  assumes data: "data = pre @ rlp_enc (RList xs) @ post" and lim: "length data < uint64_limit"
    and scan: "rlp_scan_n data (length pre) mx = Inr (table, n)"
  shows "length xs \<le> mx"
proof -
  let ?p = "concat (map rlp_enc xs)"
  let ?h = "enc_prefix 0xC0 (length ?p)"
  have d: "data = pre @ ?h @ ?p @ post" using data by (simp add: Let_def)
  have h: "rlp_list_header data (length pre) = Inr (length (pre @ ?h), length (pre @ ?h) + length ?p)"
    using rlp_list_header_enc [OF d lim] by simp
  have d': "data = (pre @ ?h) @ ?p @ post" using d by simp
  obtain po pe offs where s: "rlp_list_header data (length pre) = Inr (po, pe)" "rlp_chain data po offs pe"
    "n = length offs" "n \<le> mx" by (rule rlp_scan_n_sound [OF scan])
  have e: "po = length (pre @ ?h)" "pe = length (pre @ ?h) + length ?p" using s(1) h by simp_all
  from rlp_chain_unique [OF s(2) [unfolded e] rlp_chain_enc [OF d' lim]] have "offs = item_offs (length (pre @ ?h)) xs" .
  then show ?thesis using s(3,4) by simp
qed

text \<open>Scanning an encoded list and retrieving item \<open>i\<close> gives exactly the span of \<open>xs ! i\<close>.\<close>

lemma rlp_scan_n_item_enc:
  assumes data: "data = pre @ rlp_enc (RList xs) @ post" and lim: "length data \<le> max_bytes"
    and cap: "length xs \<le> mx" "2 * mx + 2 \<le> max_bytes" and i: "i < length xs"
  defines "pos \<equiv> length pre + length (enc_prefix 0xC0 (length (concat (map rlp_enc xs))))
      + length (concat (map rlp_enc (take i xs)))"
  shows "\<exists>table. rlp_scan_n data (length pre) mx = Inr (table, length xs) \<and>
     rlp_table_item data table i = Inr (rlp_span pos (xs ! i)) \<and>
     rlp_scan_upto data (length pre) i = Inr (rlp_span pos (xs ! i))"
proof -
  let ?p = "concat (map rlp_enc xs)"
  let ?h = "enc_prefix 0xC0 (length ?p)"
  have lim64: "length data < uint64_limit" and lim16: "length data < 65536"
    using lim by (auto simp: uint64_limit_def max_bytes_def)
  obtain table where t: "rlp_scan_n data (length pre) mx = Inr (table, length xs)"
    using rlp_scan_n_enc [OF data lim64 cap] by auto
  have xs: "?p = concat (map rlp_enc (take i xs)) @ rlp_enc (xs ! i) @ concat (map rlp_enc (drop (Suc i) xs))"
    by (metis (no_types, lifting) i id_take_nth_drop map_append list.simps(9) concat_append concat.simps(2))
  have d: "data = (pre @ ?h @ concat (map rlp_enc (take i xs))) @ rlp_enc (xs ! i)
      @ (concat (map rlp_enc (drop (Suc i) xs)) @ post)"
    unfolding data by (simp only: rlp_enc.simps Let_def append_assoc) (metis xs append_assoc)
  have it: "rlp_item_header data pos = Inr (rlp_span pos (xs ! i))"
    using rlp_item_header_enc [OF d lim64] by (simp add: pos_def add.assoc)
  have d': "data = (pre @ ?h) @ ?p @ post" using data by (simp add: Let_def)
  have h: "rlp_list_header data (length pre) =
      Inr (length pre + length ?h, length pre + length ?h + length ?p)"
    using data lim64 by (intro rlp_list_header_enc) (auto simp: Let_def)
  have c: "rlp_chain data (length pre + length ?h) (item_offs (length pre + length ?h) xs)
      (length pre + length ?h + length ?p)"
    using rlp_chain_enc [OF d' lim64] by simp
  have "rlp_skip_loop data (length pre + length ?h + length ?p) i (length pre + length ?h) = Inr pos"
    using rlp_chain_skip [OF c, of i] i by (simp add: pos_def nth_item_offs)
  moreover have "pos < length pre + length ?h + length ?p"
    using xs by (simp add: pos_def)
  ultimately have u: "rlp_scan_upto data (length pre) i = Inr (rlp_span pos (xs ! i))"
    by (simp add: rlp_scan_upto_def h it)
  moreover have "rlp_table_item data table i = rlp_scan_upto data (length pre) i"
    by (rule rlp_table_item_scan_upto [OF t i lim16])
  ultimately show ?thesis using t by auto
qed

end
