(* ===== verification/MPT_Trie.thy ===== *)
theory MPT_Trie
  imports MPT_Walk RLP_Encode
begin

text \<open>
  The abstract Merkle-Patricia trie, its node encodings and the abstract lookup: the
  specification the walker of \<open>MPT_Walk\<close> refines. A child whose encoding is shorter than 32
  bytes is embedded, any other is referenced by its Keccak hash.
\<close>

section \<open>Tries and their encodings\<close>

datatype trie =
    TNull
  | TLeaf "nat list" bytes
  | TExt "nat list" trie
  | TBranch "trie list" bytes

definition ref_of :: "(bytes \<Rightarrow> bytes) \<Rightarrow> rlp \<Rightarrow> rlp" where
  "ref_of K r = (if length (rlp_enc r) < 32 then r else RStr (K (rlp_enc r)))"

fun node_rlp :: "(bytes \<Rightarrow> bytes) \<Rightarrow> trie \<Rightarrow> rlp" where
  "node_rlp K TNull = RStr []"
| "node_rlp K (TLeaf p v) = RList [RStr (hp_encode True p), RStr v]"
| "node_rlp K (TExt p t) = RList [RStr (hp_encode False p), ref_of K (node_rlp K t)]"
| "node_rlp K (TBranch ts v) = RList (map (\<lambda>t. ref_of K (node_rlp K t)) ts @ [RStr v])"

definition node_enc :: "(bytes \<Rightarrow> bytes) \<Rightarrow> trie \<Rightarrow> bytes" where
  "node_enc K t = rlp_enc (node_rlp K t)"

definition hashed :: "(bytes \<Rightarrow> bytes) \<Rightarrow> trie \<Rightarrow> bool" where
  "hashed K t = (32 \<le> length (node_enc K t))"

definition nibble_list :: "nat list \<Rightarrow> bool" where
  "nibble_list p = (\<forall>x\<in>set p. x < 16)"

fun is_branch :: "trie \<Rightarrow> bool" where
  "is_branch (TBranch ts v) = True"
| "is_branch _ = False"

fun wf_trie :: "trie \<Rightarrow> bool" where
  "wf_trie TNull = True"
| "wf_trie (TLeaf p v) = nibble_list p"
| "wf_trie (TExt p t) = (p \<noteq> [] \<and> nibble_list p \<and> is_branch t \<and> wf_trie t)"
| "wf_trie (TBranch ts v) = (length ts = 16 \<and> (\<forall>t\<in>set ts. wf_trie t))"

text \<open>The encodings of a trie and of all its descendants.\<close>

fun trie_nodes :: "(bytes \<Rightarrow> bytes) \<Rightarrow> trie \<Rightarrow> bytes set" where
  "trie_nodes K TNull = {}"
| "trie_nodes K (TLeaf p v) = {node_enc K (TLeaf p v)}"
| "trie_nodes K (TExt p t) = insert (node_enc K (TExt p t)) (trie_nodes K t)"
| "trie_nodes K (TBranch ts v) = insert (node_enc K (TBranch ts v)) (\<Union>t\<in>set ts. trie_nodes K t)"

section \<open>Abstract lookup\<close>

text \<open>The status a lookup of the nibble string \<open>k\<close> must report, and the value when included.\<close>

fun trie_lookup :: "trie \<Rightarrow> nat list \<Rightarrow> nat \<times> bytes" where
  "trie_lookup TNull k = (WALK_ABSENT_EMPTY_SLOT, [])"
| "trie_lookup (TLeaf p v) k = (if k = p then (WALK_INCLUDED, v) else (WALK_ABSENT_LEAF_DIVERGE, []))"
| "trie_lookup (TExt p t) k =
     (if take (length p) k = p then trie_lookup t (drop (length p) k) else (WALK_ABSENT_EXT_DIVERGE, []))"
| "trie_lookup (TBranch ts v) [] = (if v = [] then (WALK_ABSENT_BRANCH_TERM, []) else (WALK_INCLUDED, v))"
| "trie_lookup (TBranch ts v) (n # k) =
     (if n < length ts then trie_lookup (ts ! n) k else (WALK_ABSENT_EMPTY_SLOT, []))"

text \<open>
  What one supplied node decides: the lookup inside the node and its embedded descendants, up to
  the first child that is referenced by hash.
\<close>

datatype outcome = Found nat bytes | Goto trie "nat list"

fun node_step :: "(bytes \<Rightarrow> bytes) \<Rightarrow> trie \<Rightarrow> nat list \<Rightarrow> outcome" where
  "node_step K TNull k = Found WALK_ABSENT_EMPTY_SLOT []"
| "node_step K (TLeaf p v) k =
     (if k = p then Found WALK_INCLUDED v else Found WALK_ABSENT_LEAF_DIVERGE [])"
| "node_step K (TExt p t) k =
     (if take (length p) k = p then
        (if hashed K t then Goto t (drop (length p) k) else node_step K t (drop (length p) k))
      else Found WALK_ABSENT_EXT_DIVERGE [])"
| "node_step K (TBranch ts v) [] =
     (if v = [] then Found WALK_ABSENT_BRANCH_TERM [] else Found WALK_INCLUDED v)"
| "node_step K (TBranch ts v) (n # k) =
     (if n < length ts then
        (if hashed K (ts ! n) then Goto (ts ! n) k else node_step K (ts ! n) k)
      else Found WALK_ABSENT_EMPTY_SLOT [])"

text \<open>The encodings a walker is supplied on the path of a key: the trie and the hashed descendants on the way.\<close>

fun nodes_below :: "(bytes \<Rightarrow> bytes) \<Rightarrow> trie \<Rightarrow> nat list \<Rightarrow> bytes list" where
  "nodes_below K TNull k = []"
| "nodes_below K (TLeaf p v) k = []"
| "nodes_below K (TExt p t) k =
     (if take (length p) k = p
      then (if hashed K t then [node_enc K t] else []) @ nodes_below K t (drop (length p) k) else [])"
| "nodes_below K (TBranch ts v) [] = []"
| "nodes_below K (TBranch ts v) (n # k) =
     (if n < length ts
      then (if hashed K (ts ! n) then [node_enc K (ts ! n)] else []) @ nodes_below K (ts ! n) k else [])"

definition path_nodes :: "(bytes \<Rightarrow> bytes) \<Rightarrow> trie \<Rightarrow> nat list \<Rightarrow> bytes list" where
  "path_nodes K t k = node_enc K t # nodes_below K t k"

lemma nodes_below_step:
  "nodes_below K t k = (case node_step K t k of Found s v \<Rightarrow> [] | Goto t' k' \<Rightarrow> path_nodes K t' k')"
  by (induction K t k rule: node_step.induct) (auto simp: path_nodes_def)

lemma path_nodes_step:
  "path_nodes K t k = node_enc K t # (case node_step K t k of Found s v \<Rightarrow> [] | Goto t' k' \<Rightarrow> path_nodes K t' k')"
  using nodes_below_step [of K t k] by (simp add: path_nodes_def)

text \<open>The number of embedded children entered on the way.\<close>

fun inline_steps :: "(bytes \<Rightarrow> bytes) \<Rightarrow> trie \<Rightarrow> nat list \<Rightarrow> nat" where
  "inline_steps K TNull k = 0"
| "inline_steps K (TLeaf p v) k = 0"
| "inline_steps K (TExt p t) k =
     (if take (length p) k = p \<and> \<not> hashed K t then Suc (inline_steps K t (drop (length p) k)) else 0)"
| "inline_steps K (TBranch ts v) [] = 0"
| "inline_steps K (TBranch ts v) (n # k) =
     (if n < length ts \<and> \<not> hashed K (ts ! n) \<and> ts ! n \<noteq> TNull
      then Suc (inline_steps K (ts ! n) k) else 0)"

lemma trie_lookup_step:
  "trie_lookup t k = (case node_step K t k of Found s v \<Rightarrow> (s, v) | Goto t' k' \<Rightarrow> trie_lookup t' k')"
  by (induction K t k rule: node_step.induct) auto

text \<open>A continuation is a proper, well-formed, hashed descendant.\<close>

lemma node_step_Goto:
  "node_step K t k = Goto t' k' \<Longrightarrow> wf_trie t \<Longrightarrow>
   wf_trie t' \<and> hashed K t' \<and> t' \<noteq> TNull \<and> size t' < size t \<and> trie_nodes K t' \<subseteq> trie_nodes K t \<and>
   node_enc K t' \<in> trie_nodes K t'"
proof (induction K t k rule: node_step.induct)
  case (3 K p t k)
  then show ?case by (cases t') (auto simp: hashed_def node_enc_def split: if_splits)
next
  case (5 K ts v n k)
  show ?case
  proof (cases "n < length ts")
    case True
    then have sz: "size (ts ! n) < size (TBranch ts v)"
      using size_list_estimation' [of "ts ! n" ts "size (ts ! n)" size] by (auto simp: less_Suc_eq_le)
    have sub: "trie_nodes K (ts ! n) \<subseteq> trie_nodes K (TBranch ts v)" and wf: "wf_trie (ts ! n)"
      using True 5 by auto
    show ?thesis
    proof (cases "hashed K (ts ! n)")
      case True
      then have "t' = ts ! n" using 5 \<open>n < length ts\<close> by simp
      then show ?thesis using True sz sub wf
        by (cases "ts ! n") (auto simp: hashed_def node_enc_def enc_prefix_def)
    next
      case False
      then show ?thesis using 5 \<open>n < length ts\<close> sz sub wf by fastforce
    qed
  qed (use 5 in simp)
qed (auto split: if_splits)

section \<open>Embedded chains are short\<close>

lemma length_enc_pos: "1 \<le> length (rlp_enc x)"
  using rlp_enc_not_Nil [of x] by (cases "rlp_enc x") auto

lemma length_enc_prefix_pos: "1 \<le> length (enc_prefix b n)"
  by (simp add: enc_prefix_length)

lemma sum_enc_ge: "length xs \<le> length (concat (map rlp_enc xs))"
proof (induction xs)
  case (Cons x xs)
  then show ?case using length_enc_pos [of x] by simp
qed simp

lemma sum_enc_member:
  assumes "i < length xs"
  shows "length (rlp_enc (xs ! i)) + (length xs - 1) \<le> length (concat (map rlp_enc xs))"
proof -
  let ?c = "\<lambda>ys. concat (map rlp_enc ys)"
  have "xs = take i xs @ xs ! i # drop (Suc i) xs" using assms by (simp add: id_take_nth_drop)
  then have "?c xs = ?c (take i xs) @ rlp_enc (xs ! i) @ ?c (drop (Suc i) xs)"
    by (metis concat.simps(2) concat_append list.simps(9) map_append)
  moreover have "i \<le> length (?c (take i xs))" using sum_enc_ge [of "take i xs"] assms by simp
  moreover have "length xs - Suc i \<le> length (?c (drop (Suc i) xs))"
    using sum_enc_ge [of "drop (Suc i) xs"] by simp
  ultimately show ?thesis using assms by simp
qed

lemma length_rlp_list: "length (concat (map rlp_enc xs)) < length (rlp_enc (RList xs))"
  using length_enc_prefix_pos by (simp add: Let_def Suc_le_eq)

lemma branch_size:
  assumes "length ts = 16"
  shows "18 \<le> length (node_enc K (TBranch ts v))"
    and "n < 16 \<Longrightarrow> \<not> hashed K (ts ! n) \<Longrightarrow>
      length (node_enc K (ts ! n)) + 17 \<le> length (node_enc K (TBranch ts v))"
proof -
  let ?xs = "map (\<lambda>t. ref_of K (node_rlp K t)) ts @ [RStr v]"
  have enc: "length (concat (map rlp_enc ?xs)) < length (node_enc K (TBranch ts v))"
    unfolding node_enc_def node_rlp.simps by (rule length_rlp_list)
  have len: "length ?xs = 17" using assms by simp
  show "18 \<le> length (node_enc K (TBranch ts v))" using enc sum_enc_ge [of ?xs] len by linarith
  show "length (node_enc K (ts ! n)) + 17 \<le> length (node_enc K (TBranch ts v))"
    if "n < 16" "\<not> hashed K (ts ! n)"
  proof -
    have "?xs ! n = node_rlp K (ts ! n)"
      using that assms by (simp add: nth_append ref_of_def hashed_def node_enc_def)
    moreover have "length (rlp_enc (?xs ! n)) + (length ?xs - 1) \<le> length (concat (map rlp_enc ?xs))"
      by (rule sum_enc_member) (use len that in simp)
    ultimately have "length (node_enc K (ts ! n)) + 16 \<le> length (concat (map rlp_enc ?xs))"
      by (simp only: len node_enc_def)
    then show ?thesis using enc by linarith
  qed
qed

lemma ext_size:
  "\<not> hashed K t \<Longrightarrow> length (node_enc K t) + 2 \<le> length (node_enc K (TExt p t))"
  "hashed K t \<Longrightarrow> (\<And>x. length (K x) = 32) \<Longrightarrow> 32 \<le> length (node_enc K (TExt p t))"
proof -
  let ?xs = "[RStr (hp_encode False p), ref_of K (node_rlp K t)]"
  have enc: "length (concat (map rlp_enc ?xs)) < length (node_enc K (TExt p t))"
    unfolding node_enc_def node_rlp.simps by (rule length_rlp_list)
  have one: "1 \<le> length (rlp_enc (RStr (hp_encode False p)))" by (rule length_enc_pos)
  show "\<not> hashed K t \<Longrightarrow> length (node_enc K t) + 2 \<le> length (node_enc K (TExt p t))"
  proof -
    assume "\<not> hashed K t"
    then have "ref_of K (node_rlp K t) = node_rlp K t" by (simp add: ref_of_def hashed_def node_enc_def)
    then show ?thesis using enc one by (simp add: node_enc_def del: rlp_enc.simps)
  qed
  show "hashed K t \<Longrightarrow> (\<And>x. length (K x) = 32) \<Longrightarrow> 32 \<le> length (node_enc K (TExt p t))"
  proof -
    assume "hashed K t" and K: "\<And>x. length (K x) = 32"
    then have "ref_of K (node_rlp K t) = RStr (K (node_enc K t))"
      by (simp add: ref_of_def hashed_def node_enc_def)
    moreover have "33 \<le> length (rlp_enc (RStr (K (node_enc K t))))"
      using K by (simp add: enc_prefix_length)
    ultimately show ?thesis using enc by (simp del: rlp_enc.simps)
  qed
qed

lemma inline_branch_steps:
  assumes "wf_trie (TBranch ts v)" and "\<not> hashed K (TBranch ts v)" and K: "\<And>x. length (K x) = 32"
  shows "inline_steps K (TBranch ts v) k \<le> 1"
proof (cases k)
  case Nil
  then show ?thesis by simp
next
  case (Cons n k')
  have len: "length ts = 16" and wf: "n < 16 \<Longrightarrow> wf_trie (ts ! n)" using assms(1) by auto
  have small: "length (node_enc K (ts ! n)) \<le> 14" if "n < 16" "\<not> hashed K (ts ! n)"
    using branch_size(2) [OF len that, of v] assms(2) by (simp add: hashed_def)
  have "inline_steps K (ts ! n) k' = 0" if n: "n < 16" "\<not> hashed K (ts ! n)" for k'
  proof (cases "ts ! n")
    case (TBranch ts' v')
    then have "18 \<le> length (node_enc K (ts ! n))"
      using wf [OF n(1)] branch_size(1) [of ts' K v'] by simp
    with small [OF n] show ?thesis by simp
  next
    case (TExt p t')
    then obtain ts' v' where t': "t' = TBranch ts' v'" "length ts' = 16"
      using wf [OF n(1)] by (cases t') auto
    have "20 \<le> length (node_enc K (TExt p t'))"
      using ext_size [of K t' p] branch_size(1) [OF t'(2), of K v'] K t'(1)
      by (cases "hashed K t'") auto
    with small [OF n] TExt show ?thesis by simp
  qed auto
  then show ?thesis using Cons len by simp
qed

lemma inline_steps_le:
  assumes "wf_trie t" and "\<not> hashed K t" and K: "\<And>x. length (K x) = 32"
  shows "inline_steps K t k \<le> 2"
proof (cases t)
  case (TExt p t')
  then obtain ts v where "t' = TBranch ts v" "wf_trie t'" using assms(1) by (cases t') auto
  then have "\<not> hashed K t' \<Longrightarrow> inline_steps K t' k' \<le> 1" for k'
    using inline_branch_steps K by blast
  then show ?thesis using TExt by simp
next
  case (TBranch ts v)
  then show ?thesis using inline_branch_steps [of ts v K k] assms by simp
qed auto

text \<open>A chain of embedded nodes makes at most three steps: the walker's limit of eight never fires.\<close>

lemma inline_steps_bound:
  assumes "wf_trie t" and K: "\<And>x. length (K x) = 32"
  shows "inline_steps K t k \<le> 3"
proof (cases t)
  case (TExt p t')
  then have "\<not> hashed K t' \<Longrightarrow> inline_steps K t' k' \<le> 2" for k'
    using inline_steps_le [of t' K k'] assms by simp
  then show ?thesis using TExt by simp
next
  case (TBranch ts v)
  show ?thesis
  proof (cases k)
    case (Cons n k')
    then show ?thesis using TBranch inline_steps_le [of "ts ! n" K k'] assms by simp
  qed (use TBranch in simp)
qed auto

end
