(* ===== verification/MPT_Refine.thy ===== *)
theory MPT_Refine
  imports MPT_Trie
begin

text \<open>
  The walker refines the abstract lookup: on the encoding of a well-formed trie node every hop of
  \<open>MPT_Walk\<close> computes exactly what \<open>node_step\<close> says, and a chain of hash-checked nodes computes
  \<open>trie_lookup\<close>. The hash only has to be injective on the node bytes that actually occur.
\<close>

section \<open>Decoding an encoded list in place\<close>

lemma read_len_direct: "ll \<le> 8 \<Longrightarrow> rbind (bextract node p ll) (\<lambda>bs. rbind (btoi bs) f) = rbind (read_len node p ll) f"
  by (simp add: read_len_def rbind_assoc)

lemma mpt_stride_eq: "mpt_stride node pos = rlp_stride node pos"
  unfolding mpt_stride_def rlp_stride_def
  by (rule rbind_cong)
    (auto intro!: rbind_cong read_len_direct simp: usub_Inr dest: getbyte_less)

lemma mpt_skip_loop_Inr: "mpt_skip_loop node pe k pos = Inr q \<longleftrightarrow> rlp_skip_loop node pe k pos = Inr q"
  by (induction k arbitrary: pos) (auto simp: res_simps mpt_stride_eq)

lemma mpt_branch_item_at_enc:
  assumes data: "data = pre @ rlp_enc (RList xs) @ post" and lim: "length data < uint64_limit"
    and len: "2 \<le> length xs" and i: "i < length xs"
  defines "po \<equiv> length pre + length (enc_prefix 0xC0 (length (concat (map rlp_enc xs))))"
  defines "pe \<equiv> po + length (concat (map rlp_enc xs))"
  shows "\<exists>o0 l0 k0 o1 l1 k1.
    mpt_arity_discriminate data (length pre) =
      Inr (if length xs = 2 then 2 else 17, pe, o0, l0, k0, o1, l1, k1) \<and>
    (o0, l0, k0) = rlp_span po (xs ! 0) \<and> (o1, l1, k1) = rlp_span (po + length (rlp_enc (xs ! 0))) (xs ! 1) \<and>
    mpt_branch_item_at data o0 l0 k0 o1 l1 k1 pe i =
      Inr (rlp_span (po + length (concat (map rlp_enc (take i xs)))) (xs ! i))"
proof -
  let ?p = "concat (map rlp_enc xs)"
  let ?h = "enc_prefix 0xC0 (length ?p)"
  obtain x0 x1 rest where xs: "xs = x0 # x1 # rest" using len by (cases xs; cases "tl xs") auto
  obtain o0 l0 k0 where s0: "rlp_span po x0 = (o0, l0, k0)" by (metis prod_cases3)
  obtain o1 l1 k1 where s1: "rlp_span (po + length (rlp_enc x0)) x1 = (o1, l1, k1)" by (metis prod_cases3)
  have hd: "rlp_list_header data (length pre) = Inr (po, pe)"
    unfolding po_def pe_def using data lim by (intro rlp_list_header_enc) (auto simp: Let_def)
  have d0: "data = (pre @ ?h) @ rlp_enc x0 @ (rlp_enc x1 @ concat (map rlp_enc rest) @ post)"
    using data by (simp add: xs Let_def)
  have i0: "rlp_item_header data po = Inr (o0, l0, k0)"
    using rlp_item_header_enc [OF d0 lim] s0 by (simp add: po_def)
  have e0: "o0 + l0 = po + length (rlp_enc x0)" by (rule rlp_span_end [OF s0])
  have d1: "data = (pre @ ?h @ rlp_enc x0) @ rlp_enc x1 @ (concat (map rlp_enc rest) @ post)"
    using data by (simp add: xs Let_def)
  have i1: "rlp_item_header data (o0 + l0) = Inr (o1, l1, k1)"
    using rlp_item_header_enc [OF d1 lim] s1 by (simp add: po_def e0 add.assoc)
  have e1: "o1 + l1 = po + length (rlp_enc x0) + length (rlp_enc x1)" by (rule rlp_span_end [OF s1])
  have pe: "pe = po + length (rlp_enc x0) + length (rlp_enc x1) + length (concat (map rlp_enc rest))"
    by (simp add: pe_def xs)
  have pelim: "pe < uint64_limit" using rlp_list_header_bounds [OF hd] by simp
  have two: "o1 + l1 = pe \<longleftrightarrow> length xs = 2"
  proof -
    have "concat (map rlp_enc rest) = [] \<longleftrightarrow> rest = []" by (cases rest) auto
    then show ?thesis by (simp add: e1 pe xs)
  qed
  have ar: "mpt_arity_discriminate data (length pre) =
      Inr (if length xs = 2 then 2 else 17, pe, o0, l0, k0, o1, l1, k1)"
  proof -
    have "uadd o0 l0 = Inr (o0 + l0)" "uadd o1 l1 = Inr (o1 + l1)"
      using e0 e1 pe pelim by (auto simp: uadd_def)
    then show ?thesis using two by (simp add: mpt_arity_discriminate_def hd i0 i1)
  qed
  have d': "data = (pre @ ?h) @ ?p @ post" using data by (simp add: Let_def)
  have chain: "rlp_chain data po (item_offs po xs) pe"
    using rlp_chain_enc [OF d' lim] by (simp add: po_def pe_def)
  have item: "mpt_branch_item_at data o0 l0 k0 o1 l1 k1 pe i =
      Inr (rlp_span (po + length (concat (map rlp_enc (take i xs)))) (xs ! i))"
  proof -
    consider "i = 0" | "i = 1" | "2 \<le> i" by linarith
    then show ?thesis
    proof cases
      case 1
      then show ?thesis by (simp add: mpt_branch_item_at_def s0 xs)
    next
      case 2
      then show ?thesis by (simp add: mpt_branch_item_at_def s1 xs)
    next
      case 3
      then obtain j where j: "i = Suc (Suc j)" by (metis add_2_eq_Suc le_Suc_ex)
      let ?pos = "po + length (concat (map rlp_enc (take i xs)))"
      have sp: "?p = concat (map rlp_enc (take i xs)) @ rlp_enc (xs ! i) @ concat (map rlp_enc (drop (Suc i) xs))"
        by (metis (no_types, lifting) i id_take_nth_drop map_append list.simps(9) concat_append concat.simps(2))
      have di: "data = (pre @ ?h @ concat (map rlp_enc (take i xs))) @ rlp_enc (xs ! i)
          @ (concat (map rlp_enc (drop (Suc i) xs)) @ post)"
        unfolding data by (simp only: rlp_enc.simps Let_def append_assoc) (metis sp append_assoc)
      have it: "rlp_item_header data ?pos = Inr (rlp_span ?pos (xs ! i))"
        using rlp_item_header_enc [OF di lim] by (simp add: po_def add.assoc)
      have "rlp_chain data (o1 + l1) (item_offs (o1 + l1) rest) pe"
        using chain rlp_item_header_stride [OF i0] rlp_item_header_stride [OF i1]
        by (simp add: xs e0 e1 add.assoc)
      from rlp_chain_skip [OF this, of j]
      have "rlp_skip_loop data pe j (o1 + l1) = Inr (item_offs (o1 + l1) rest ! j)"
        using i j by (simp add: xs)
      moreover have "item_offs (o1 + l1) rest ! j = ?pos"
        using i j by (simp add: xs nth_item_offs e1)
      ultimately have "mpt_skip_loop data pe (i - 2) (o1 + l1) = Inr ?pos"
        using j by (simp add: mpt_skip_loop_Inr)
      moreover have "?pos < pe" using sp by (simp add: pe_def)
      moreover have "uadd o1 l1 = Inr (o1 + l1)" using e1 pe pelim by (simp add: uadd_def)
      ultimately show ?thesis using 3 it by (simp add: mpt_branch_item_at_def)
    qed
  qed
  show ?thesis using ar item s0 s1 by (auto simp: xs)
qed

text \<open>Where the content of a string item sits.\<close>

lemma rlp_span_str:
  assumes "data = pre @ rlp_enc (RStr bs) @ post" and "rlp_span (length pre) (RStr bs) = (off, n, k)"
  shows "n = length bs" and "k \<noteq> KIND_LIST" and "\<exists>pre' post'. data = pre' @ bs @ post' \<and> length pre' = off"
    and "length bs \<noteq> 1 \<Longrightarrow> k = KIND_STR"
proof -
  show "n = length bs" "k \<noteq> KIND_LIST" "length bs \<noteq> 1 \<Longrightarrow> k = KIND_STR"
    using assms(2) by (auto simp: KIND_BYTE_def KIND_STR_def KIND_LIST_def split: if_splits)
  show "\<exists>pre' post'. data = pre' @ bs @ post' \<and> length pre' = off"
  proof (cases "length bs = 1 \<and> unat (hd bs) < 0x80")
    case True
    then show ?thesis using assms by auto
  next
    case False
    then have "data = (pre @ enc_prefix 0x80 (length bs)) @ bs @ post" "off = length (pre @ enc_prefix 0x80 (length bs))"
      using assms by auto
    then show ?thesis by blast
  qed
qed

section \<open>The state of a walk in progress\<close>

definition rem_key :: "walk \<Rightarrow> nat list" where
  "rem_key a = drop (wk_depth a) (take (wk_key_nibs a) (nibs (wk_key a)))"

definition walk_inv :: "walk \<Rightarrow> bool" where
  "walk_inv a \<longleftrightarrow> walk_ok a \<and> wk_depth a \<le> wk_key_nibs a \<and> wk_key_nibs a \<le> 64 \<and>
     wk_status a = WALK_CONTINUE"

lemma walk_inv_ok: "walk_inv a \<Longrightarrow> walk_ok a"
  by (simp add: walk_inv_def)

lemma length_rem_key: "walk_inv a \<Longrightarrow> length (rem_key a) = wk_key_nibs a - wk_depth a"
  by (simp add: rem_key_def walk_inv_def walk_ok_def)

lemma take_rem_key:
  "wk_depth a + n \<le> wk_key_nibs a \<Longrightarrow> take n (rem_key a) = seg (wk_depth a) n (nibs (wk_key a))"
  by (simp add: rem_key_def seg_def drop_take min_def)

lemma drop_rem_key: "drop n (rem_key a) = rem_key (a\<lparr>wk_depth := wk_depth a + n\<rparr>)"
  by (simp add: rem_key_def drop_drop add.commute)

lemma rem_key_Cons:
  assumes "walk_inv a" and "wk_depth a \<noteq> wk_key_nibs a"
  shows "rem_key a = nibs (wk_key a) ! wk_depth a # rem_key (a\<lparr>wk_depth := wk_depth a + 1\<rparr>)"
    and "nibs (wk_key a) ! wk_depth a < 16"
    and "nibble_at (wk_key a) (wk_depth a) = Inr (nibs (wk_key a) ! wk_depth a)"
proof -
  have d: "wk_depth a < 2 * length (wk_key a)" and lt: "wk_depth a < wk_key_nibs a"
    and kn: "wk_key_nibs a \<le> 2 * length (wk_key a)"
    using assms by (auto simp: walk_inv_def walk_ok_def)
  show "rem_key a = nibs (wk_key a) ! wk_depth a # rem_key (a\<lparr>wk_depth := wk_depth a + 1\<rparr>)"
    using lt kn by (simp add: rem_key_def Cons_nth_drop_Suc [symmetric])
  show "nibs (wk_key a) ! wk_depth a < 16" 
    by (rule nibs_less [of _ "wk_key a"]) (use d in \<open>simp add: nth_mem\<close>)
  show "nibble_at (wk_key a) (wk_depth a) = Inr (nibs (wk_key a) ! wk_depth a)" by (rule nibble_at_eq [OF d])
qed

text \<open>The path comparison of a two-item node against the key.\<close>

lemma path_compare:
  assumes a: "walk_inv a" and data: "length data \<le> max_bytes"
    and b: "k + length p \<le> 2 * length data" and s: "seg k (length p) (nibs data) = p"
    and d: "wk_depth a + length p \<le> wk_key_nibs a"
  shows "nibbles_equal data k (wk_key a) (wk_depth a) (length p) = Inr (take (length p) (rem_key a) = p)"
proof -
  have "nibbles_equal data k (wk_key a) (wk_depth a) (length p) =
      Inr (seg k (length p) (nibs data) = seg (wk_depth a) (length p) (nibs (wk_key a)))"
    using a b d data by (intro nibbles_equal_correct) (auto simp: walk_inv_def walk_ok_def max_bytes_def)
  then show ?thesis using s take_rem_key [OF d] by auto
qed

lemma two_item_node:
  assumes data: "data = pre @ rlp_enc (RList [RStr (hp_encode leaf p), x]) @ post"
    and lim: "length data \<le> max_bytes" and p: "nibble_list p" and ne: "leaf \<or> p \<noteq> []"
  shows "\<exists>pe o0 l0 k0 o1 l1 k1 nib mid. mpt_arity_discriminate data (length pre) =
      Inr (2, pe, o0, l0, k0, o1, l1, k1) \<and>
    hp_decode data o0 l0 = Inr (leaf, length p, nib) \<and> nib + length p \<le> 2 * length data \<and>
    seg nib (length p) (nibs data) = p \<and>
    data = mid @ rlp_enc x @ post \<and> (o1, l1, k1) = rlp_span (length mid) x"
proof -
  let ?xs = "[RStr (hp_encode leaf p), x]"
  let ?h = "enc_prefix 0xC0 (length (concat (map rlp_enc ?xs)))"
  have lim64: "length data < uint64_limit" using lim by (simp add: max_bytes_def uint64_limit_def)
  let ?po = "length pre + length ?h"
  from mpt_branch_item_at_enc [OF data lim64, of 0] obtain pe o0 l0 k0 o1 l1 k1 where
      ar: "mpt_arity_discriminate data (length pre) = Inr (2, pe, o0, l0, k0, o1, l1, k1)"
    and s0: "(o0, l0, k0) = rlp_span ?po (RStr (hp_encode leaf p))"
    and s1: "(o1, l1, k1) = rlp_span (?po + length (rlp_enc (RStr (hp_encode leaf p)))) x"
    by (auto simp del: rlp_enc.simps rlp_span.simps)
  have d0: "data = (pre @ ?h) @ rlp_enc (RStr (hp_encode leaf p)) @ (rlp_enc x @ post)"
    unfolding data rlp_enc.simps(2) Let_def by simp
  have s0': "rlp_span (length (pre @ ?h)) (RStr (hp_encode leaf p)) = (o0, l0, k0)"
    using s0 by (simp del: rlp_span.simps)
  note sp = rlp_span_str [OF d0 s0']
  from sp(3) obtain pre' post' where d': "data = pre' @ hp_encode leaf p @ post'" "length pre' = o0" by blast
  have "\<forall>x\<in>set p. x < 16" using p by (simp add: nibble_list_def)
  from hp_decode_encode [OF d'(1) this ne lim] obtain nib where
    "hp_decode data o0 l0 = Inr (leaf, length p, nib)" "nib + length p \<le> 2 * length data"
    "seg nib (length p) (nibs data) = p" using d'(2) sp(1) by auto
  moreover have "data = (pre @ ?h @ rlp_enc (RStr (hp_encode leaf p))) @ rlp_enc x @ post" using d0 by simp
  moreover have "(o1, l1, k1) = rlp_span (length (pre @ ?h @ rlp_enc (RStr (hp_encode leaf p)))) x"
    using s1 by (simp add: add.assoc del: rlp_enc.simps rlp_span.simps)
  ultimately show ?thesis using ar by blast
qed

lemma uadd_small: "a \<le> 65536 \<Longrightarrow> b \<le> 65536 \<Longrightarrow> uadd a b = Inr (a + b)"
  by (simp add: uadd_def uint64_limit_def)

section \<open>Leaf hops\<close>

lemma leaf_hop:
  assumes data: "data = pre @ node_enc K (TLeaf p v) @ post" and lim: "length data \<le> max_bytes"
    and a: "walk_inv a" and wf: "wf_trie (TLeaf p v)"
  shows "\<exists>off len. mpt_hop data (length pre) (w_encode a) =
      Inr (Terminal, w_encode (a\<lparr>wk_status := (if rem_key a = p then WALK_INCLUDED else WALK_ABSENT_LEAF_DIVERGE)\<rparr>),
           off, len, 0) \<and>
    (rem_key a = p \<longrightarrow> off + len \<le> length data \<and> seg off len data = v)"
proof -
  have p: "nibble_list p" using wf by simp
  have d: "data = pre @ rlp_enc (RList [RStr (hp_encode True p), RStr v]) @ post"
    using data by (simp only: node_enc_def node_rlp.simps)
  obtain pe o0 l0 k0 o1 l1 k1 nib mid where
      ar: "mpt_arity_discriminate data (length pre) = Inr (2, pe, o0, l0, k0, o1, l1, k1)"
    and hp: "hp_decode data o0 l0 = Inr (True, length p, nib)" "nib + length p \<le> 2 * length data"
      "seg nib (length p) (nibs data) = p"
    and mid: "data = mid @ rlp_enc (RStr v) @ post" "(o1, l1, k1) = rlp_span (length mid) (RStr v)"
    using two_item_node [OF d lim p] by blast
  note sp = rlp_span_str [OF mid(1) mid(2) [symmetric]]
  from sp(3) obtain pre' post' where v: "data = pre' @ v @ post'" "length pre' = o1" by blast
  have val: "o1 + l1 \<le> length data" "seg o1 l1 data = v"
    using v sp(1) by (auto simp: seg_at)
  note get = w_encode_get [OF walk_inv_ok [OF a]]
  have plen: "length p \<le> 65536"
    using hp(2) lim by (simp add: max_bytes_def)
  have dep: "wk_depth a \<le> 65536" using a by (simp add: walk_inv_def walk_ok_def)
  note u = uadd_small [OF dep plen]
  show ?thesis
  proof (cases "wk_depth a + length p = wk_key_nibs a")
    case False
    then have "rem_key a \<noteq> p" using length_rem_key [OF a] a by (auto simp: walk_inv_def)
    then show ?thesis using False
      by (simp add: mpt_hop_def ar hp mpt_leaf_hop_def get u w_with_terminal_encode [OF walk_inv_ok [OF a]])
  next
    case True
    then have cmp: "nibbles_equal data nib (wk_key a) (wk_depth a) (length p) = Inr (take (length p) (rem_key a) = p)"
      by (intro path_compare [OF a lim hp(2,3)]) simp
    have "take (length p) (rem_key a) = rem_key a" using length_rem_key [OF a] True by simp
    then show ?thesis using True cmp val
      by (simp add: mpt_hop_def ar hp mpt_leaf_hop_def get u w_with_terminal_encode [OF walk_inv_ok [OF a]])
  qed
qed

section \<open>Child references\<close>

lemma child_span:
  assumes data: "data = mid @ rlp_enc (ref_of K (node_rlp K t)) @ post"
    and sp: "rlp_span (length mid) (ref_of K (node_rlp K t)) = (off, n, k)"
    and K: "\<And>x. length (K x) = 32"
  shows "t = TNull \<Longrightarrow> k = KIND_STR \<and> n = 0"
    and "hashed K t \<Longrightarrow> k = KIND_STR \<and> n = 32 \<and> rlp_bytes data off 32 = Inr (K (node_enc K t))"
    and "t \<noteq> TNull \<Longrightarrow> \<not> hashed K t \<Longrightarrow> k = KIND_LIST \<and> off = length mid \<and> data = mid @ node_enc K t @ post"
proof -
  show "k = KIND_STR \<and> n = 0" if "t = TNull"
  proof -
    have "ref_of K (node_rlp K t) = RStr []" using that by (simp add: ref_of_def enc_prefix_def)
    then show ?thesis using sp by simp
  qed
  show "k = KIND_STR \<and> n = 32 \<and> rlp_bytes data off 32 = Inr (K (node_enc K t))" if "hashed K t"
  proof -
    have r: "ref_of K (node_rlp K t) = RStr (K (node_enc K t))"
      using that by (simp add: ref_of_def hashed_def node_enc_def)
    note s = rlp_span_str [OF data [unfolded r] sp [unfolded r]]
    from s(3) obtain pre' post' where d: "data = pre' @ K (node_enc K t) @ post'" "length pre' = off" by blast
    then show ?thesis using s(1,4) K by (auto simp: rlp_bytes_def bextract_def seg_at)
  qed
  show "k = KIND_LIST \<and> off = length mid \<and> data = mid @ node_enc K t @ post" if nn: "t \<noteq> TNull" and nh: "\<not> hashed K t"
  proof -
    have r: "ref_of K (node_rlp K t) = node_rlp K t"
      using nh by (simp add: ref_of_def hashed_def node_enc_def)
    obtain xs where "node_rlp K t = RList xs" using nn by (cases t) auto
    then show ?thesis using sp data r by (simp add: node_enc_def)
  qed
qed

definition advance :: "walk \<Rightarrow> nat \<Rightarrow> walk" where
  "advance a n = a\<lparr>wk_depth := wk_depth a + n\<rparr>"

lemma advance_continue: "walk_inv a \<Longrightarrow> a\<lparr>wk_status := WALK_CONTINUE, wk_depth := wk_depth a + n\<rparr> = advance a n"
  by (simp add: advance_def walk_inv_def)

lemma advance_expected: "walk_inv a \<Longrightarrow>
  a\<lparr>wk_status := WALK_CONTINUE, wk_expected := e, wk_depth := wk_depth a + n\<rparr> = (advance a n)\<lparr>wk_expected := e\<rparr>"
  by (simp add: advance_def walk_inv_def)

lemma rem_key_advance: "rem_key (advance a n) = drop n (rem_key a)"
  by (simp add: drop_rem_key advance_def)

lemma rem_key_expected [simp]: "rem_key (a\<lparr>wk_expected := e\<rparr>) = rem_key a"
  by (simp add: rem_key_def)

lemma walk_inv_advance: "walk_inv a \<Longrightarrow> wk_depth a + n \<le> wk_key_nibs a \<Longrightarrow> walk_inv (advance a n)"
  by (simp add: walk_inv_def walk_ok_def advance_def)

lemma walk_inv_expected: "walk_inv a \<Longrightarrow> length e = 32 \<Longrightarrow> walk_inv (a\<lparr>wk_expected := e\<rparr>)"
  by (simp add: walk_inv_def walk_ok_def)

section \<open>Extension hops\<close>

lemma take_eq_fits: "walk_inv a \<Longrightarrow> take (length p) (rem_key a) = p \<Longrightarrow> wk_depth a + length p \<le> wk_key_nibs a"
proof -
  assume a: "walk_inv a" and m: "take (length p) (rem_key a) = p"
  have "length (take (length p) (rem_key a)) = length p" by (simp only: m)
  then have "length p \<le> length (rem_key a)" by simp
  then show ?thesis using length_rem_key [OF a] a unfolding walk_inv_def by linarith
qed

lemma ext_hop:
  assumes data: "data = pre @ node_enc K (TExt p t) @ post" and lim: "length data \<le> max_bytes"
    and a: "walk_inv a" and wf: "wf_trie (TExt p t)" and K: "\<And>x. length (K x) = 32"
  shows "take (length p) (rem_key a) \<noteq> p \<Longrightarrow> mpt_hop data (length pre) (w_encode a) =
      Inr (Terminal, w_encode (a\<lparr>wk_status := WALK_ABSENT_EXT_DIVERGE\<rparr>), 0, 0, 0)" (is "_ \<Longrightarrow> ?div")
    and "take (length p) (rem_key a) = p \<Longrightarrow> hashed K t \<Longrightarrow> mpt_hop data (length pre) (w_encode a) =
      Inr (NextNode, w_encode ((advance a (length p))\<lparr>wk_expected := K (node_enc K t)\<rparr>), 0, 0, 0)"
      (is "_ \<Longrightarrow> _ \<Longrightarrow> ?next")
    and "take (length p) (rem_key a) = p \<Longrightarrow> \<not> hashed K t \<Longrightarrow> \<exists>mid post'. data = mid @ node_enc K t @ post' \<and>
      mpt_hop data (length pre) (w_encode a) = Inr (Inline, w_encode (advance a (length p)), 0, 0, length mid)"
proof -
  have p: "nibble_list p" "p \<noteq> []" and br: "is_branch t" using wf by auto
  have d: "data = pre @ rlp_enc (RList [RStr (hp_encode False p), ref_of K (node_rlp K t)]) @ post"
    using data by (simp only: node_enc_def node_rlp.simps)
  obtain pe o0 l0 k0 o1 l1 k1 nib mid where
      ar: "mpt_arity_discriminate data (length pre) = Inr (2, pe, o0, l0, k0, o1, l1, k1)"
    and hp: "hp_decode data o0 l0 = Inr (False, length p, nib)" "nib + length p \<le> 2 * length data"
      "seg nib (length p) (nibs data) = p"
    and mid: "data = mid @ rlp_enc (ref_of K (node_rlp K t)) @ post"
      "(o1, l1, k1) = rlp_span (length mid) (ref_of K (node_rlp K t))"
    using two_item_node [OF d lim p(1)] p(2) by blast
  note ch = child_span [OF mid(1) mid(2) [symmetric] K]
  note get = w_encode_get [OF walk_inv_ok [OF a]]
  have plen: "length p \<le> 65536" using hp(2) lim by (simp add: max_bytes_def)
  have dep: "wk_depth a \<le> 65536" using a by (simp add: walk_inv_def walk_ok_def)
  note u = uadd_small [OF dep plen]
  note hopdef = mpt_hop_def ar hp mpt_extension_hop_def get u
  have cmp: "nibbles_equal data nib (wk_key a) (wk_depth a) (length p) = Inr (take (length p) (rem_key a) = p)"
    if "wk_depth a + length p \<le> wk_key_nibs a"
    by (rule path_compare [OF a lim hp(2,3) that])
  show ?div if "take (length p) (rem_key a) \<noteq> p"
    using that cmp by (cases "wk_depth a + length p \<le> wk_key_nibs a")
      (simp_all add: hopdef w_with_terminal_encode [OF walk_inv_ok [OF a]])
  show ?next if m: "take (length p) (rem_key a) = p" and h: "hashed K t"
  proof -
    note fit = take_eq_fits [OF a m]
    have "w_with_continue (w_encode a) (K (node_enc K t)) (wk_depth a + length p) =
        Inr (w_encode ((advance a (length p))\<lparr>wk_expected := K (node_enc K t)\<rparr>))"
      using w_with_continue_encode [OF walk_inv_ok [OF a] K] advance_expected [OF a] by simp
    then show ?thesis using ch(2) [OF h] fit cmp [OF fit] m
      by (simp add: hopdef KIND_STR_def KIND_LIST_def)
  qed
  show "\<exists>mid post'. data = mid @ node_enc K t @ post' \<and>
      mpt_hop data (length pre) (w_encode a) = Inr (Inline, w_encode (advance a (length p)), 0, 0, length mid)"
    if m: "take (length p) (rem_key a) = p" and h: "\<not> hashed K t"
  proof -
    note fit = take_eq_fits [OF a m]
    have "t \<noteq> TNull" using br by auto
    from ch(3) [OF this h] have k: "k1 = KIND_LIST" "o1 = length mid" and dm: "data = mid @ node_enc K t @ post"
      by blast+
    have "mpt_hop data (length pre) (w_encode a) = Inr (Inline, w_encode (advance a (length p)), 0, 0, length mid)"
      using k fit cmp [OF fit] m
      by (simp add: hopdef w_with_continue_depth_only_encode [OF walk_inv_ok [OF a]] advance_continue [OF a])
    with dm show ?thesis by blast
  qed
qed

section \<open>Branch hops\<close>

lemma branch_item:
  assumes data: "data = pre @ node_enc K (TBranch ts v) @ post" and lim: "length data \<le> max_bytes"
    and len: "length ts = 16" and i: "i \<le> 16"
  defines "x \<equiv> if i < 16 then ref_of K (node_rlp K (ts ! i)) else RStr v"
  shows "\<exists>pe o0 l0 k0 o1 l1 k1 mid post'. mpt_arity_discriminate data (length pre) =
      Inr (17, pe, o0, l0, k0, o1, l1, k1) \<and>
    mpt_branch_item_at data o0 l0 k0 o1 l1 k1 pe i = Inr (rlp_span (length mid) x) \<and>
    data = mid @ rlp_enc x @ post'"
proof -
  let ?xs = "map (\<lambda>t. ref_of K (node_rlp K t)) ts @ [RStr v]"
  let ?c = "\<lambda>ys. concat (map rlp_enc ys)"
  let ?h = "enc_prefix 0xC0 (length (?c ?xs))"
  have lim64: "length data < uint64_limit" using lim by (simp add: max_bytes_def uint64_limit_def)
  have lxs: "length ?xs = 17" using len by simp
  have d: "data = pre @ rlp_enc (RList ?xs) @ post" using data by (simp only: node_enc_def node_rlp.simps)
  have il: "i < length ?xs" using i lxs by simp
  have xi: "?xs ! i = x" using len i by (auto simp: x_def nth_append)
  have sp: "?c ?xs = ?c (take i ?xs) @ rlp_enc (?xs ! i) @ ?c (drop (Suc i) ?xs)"
    using il by (metis (no_types, lifting) id_take_nth_drop map_append list.simps(9) concat_append concat.simps(2))
  let ?mid = "pre @ ?h @ ?c (take i ?xs)"
  have "data = (pre @ ?h) @ ?c ?xs @ post" unfolding d rlp_enc.simps(2) Let_def by simp
  then have dm: "data = ?mid @ rlp_enc x @ (?c (drop (Suc i) ?xs) @ post)"
    by (metis sp xi append_assoc)
  have le2: "2 \<le> length ?xs" by (simp only: lxs)
  from mpt_branch_item_at_enc [OF d lim64 le2 il] obtain pe o0 l0 k0 o1 l1 k1 where
      ar: "mpt_arity_discriminate data (length pre) =
        Inr (if length ?xs = 2 then 2 else 17, pe, o0, l0, k0, o1, l1, k1)"
    and it: "mpt_branch_item_at data o0 l0 k0 o1 l1 k1 pe i =
      Inr (rlp_span (length pre + length ?h + length (?c (take i ?xs))) (?xs ! i))"
    by blast
  have "(if length ?xs = 2 then 2 else 17 :: nat) = 17" unfolding lxs by simp
  with ar have ar: "mpt_arity_discriminate data (length pre) = Inr (17, pe, o0, l0, k0, o1, l1, k1)"
    by (simp only:)
  have "mpt_branch_item_at data o0 l0 k0 o1 l1 k1 pe i = Inr (rlp_span (length ?mid) x)"
    using it xi by (simp add: add.assoc)
  with ar dm show ?thesis by blast
qed

lemma branch_hop_end:
  assumes data: "data = pre @ node_enc K (TBranch ts v) @ post" and lim: "length data \<le> max_bytes"
    and a: "walk_inv a" and len: "length ts = 16" and e: "rem_key a = []"
  shows "\<exists>off n. mpt_hop data (length pre) (w_encode a) = Inr (Terminal,
      w_encode (a\<lparr>wk_status := (if v = [] then WALK_ABSENT_BRANCH_TERM else WALK_INCLUDED)\<rparr>), off, n, 0) \<and>
    (v \<noteq> [] \<longrightarrow> off + n \<le> length data \<and> seg off n data = v)"
proof -
  from branch_item [OF data lim len, of 16] obtain pe o0 l0 k0 o1 l1 k1 mid post' where
      ar: "mpt_arity_discriminate data (length pre) = Inr (17, pe, o0, l0, k0, o1, l1, k1)"
    and it: "mpt_branch_item_at data o0 l0 k0 o1 l1 k1 pe 16 = Inr (rlp_span (length mid) (RStr v))"
    and d: "data = mid @ rlp_enc (RStr v) @ post'" by (auto simp del: rlp_span.simps rlp_enc.simps)
  obtain ov lv kv where sp: "rlp_span (length mid) (RStr v) = (ov, lv, kv)" by (metis prod_cases3)
  note s = rlp_span_str [OF d sp]
  from s(3) obtain pre' post'' where v: "data = pre' @ v @ post''" "length pre' = ov" by blast
  have val: "ov + lv \<le> length data" "seg ov lv data = v" "lv = 0 \<longleftrightarrow> v = []"
    using v s(1) by (auto simp: seg_at)
  have dep: "wk_depth a = wk_key_nibs a" using e length_rem_key [OF a] a by (auto simp: walk_inv_def)
  note get = w_encode_get [OF walk_inv_ok [OF a]]
  have it': "mpt_branch_item_at data o0 l0 k0 o1 l1 k1 pe 16 = Inr (ov, lv, kv)" using it by (simp only: sp)
  have "mpt_hop data (length pre) (w_encode a) =
      (if lv = 0 then Inr (Terminal, w_encode (a\<lparr>wk_status := WALK_ABSENT_BRANCH_TERM\<rparr>), 0, 0, 0)
       else Inr (Terminal, w_encode (a\<lparr>wk_status := WALK_INCLUDED\<rparr>), ov, lv, 0))"
    by (simp add: mpt_hop_def ar mpt_branch_hop_def get dep it' w_with_terminal_encode [OF walk_inv_ok [OF a]])
  then show ?thesis using val by (cases "v = []") simp_all
qed

lemma branch_hop_child:
  assumes data: "data = pre @ node_enc K (TBranch ts v) @ post" and lim: "length data \<le> max_bytes"
    and a: "walk_inv a" and len: "length ts = 16" and e: "rem_key a = n # k" and K: "\<And>x. length (K x) = 32"
  shows "n < 16"
    and "ts ! n = TNull \<Longrightarrow> mpt_hop data (length pre) (w_encode a) =
      Inr (Terminal, w_encode (a\<lparr>wk_status := WALK_ABSENT_EMPTY_SLOT\<rparr>), 0, 0, 0)"
    and "hashed K (ts ! n) \<Longrightarrow> mpt_hop data (length pre) (w_encode a) =
      Inr (NextNode, w_encode ((advance a 1)\<lparr>wk_expected := K (node_enc K (ts ! n))\<rparr>), 0, 0, 0)"
    and "ts ! n \<noteq> TNull \<Longrightarrow> \<not> hashed K (ts ! n) \<Longrightarrow> \<exists>mid post'. data = mid @ node_enc K (ts ! n) @ post' \<and>
      mpt_hop data (length pre) (w_encode a) = Inr (Inline, w_encode (advance a 1), 0, 0, length mid)"
    and "wk_depth a + 1 \<le> wk_key_nibs a" and "rem_key (advance a 1) = k"
proof -
  have lr: "length (rem_key a) = wk_key_nibs a - wk_depth a" by (rule length_rem_key [OF a])
  then have dep: "wk_depth a \<noteq> wk_key_nibs a" using e by auto
  note rc = rem_key_Cons [OF a dep]
  have n: "n = nibs (wk_key a) ! wk_depth a" using e rc(1) by simp
  then show n16: "n < 16" using rc(2) by simp
  have nib: "nibble_at (wk_key a) (wk_depth a) = Inr n" using rc(3) n by simp
  show lt: "wk_depth a + 1 \<le> wk_key_nibs a" using lr e by simp
  show "rem_key (advance a 1) = k" using e by (simp add: rem_key_advance)
  let ?x = "ref_of K (node_rlp K (ts ! n))"
  from branch_item [OF data lim len, of n] n16 obtain pe o0 l0 k0 o1 l1 k1 mid post' where
      ar: "mpt_arity_discriminate data (length pre) = Inr (17, pe, o0, l0, k0, o1, l1, k1)"
    and it: "mpt_branch_item_at data o0 l0 k0 o1 l1 k1 pe n = Inr (rlp_span (length mid) ?x)"
    and d: "data = mid @ rlp_enc ?x @ post'" by auto
  obtain oc lc kc where sp: "rlp_span (length mid) ?x = (oc, lc, kc)" by (metis prod_cases3)
  note ch = child_span [OF d sp K]
  note get = w_encode_get [OF walk_inv_ok [OF a]]
  have dle: "wk_depth a \<le> wk_key_nibs a" using a by (simp add: walk_inv_def)
  have u: "uadd (wk_depth a) 1 = Inr (wk_depth a + 1)"
    using a by (intro uadd_small) (auto simp: walk_inv_def)
  note hopdef = mpt_hop_def ar mpt_branch_hop_def get dep dle nib it sp u
  show "mpt_hop data (length pre) (w_encode a) =
      Inr (Terminal, w_encode (a\<lparr>wk_status := WALK_ABSENT_EMPTY_SLOT\<rparr>), 0, 0, 0)" if "ts ! n = TNull"
    using ch(1) [OF that]
    by (simp add: hopdef KIND_STR_def KIND_LIST_def w_with_terminal_encode [OF walk_inv_ok [OF a]])
  show "mpt_hop data (length pre) (w_encode a) =
      Inr (NextNode, w_encode ((advance a 1)\<lparr>wk_expected := K (node_enc K (ts ! n))\<rparr>), 0, 0, 0)"
    if h: "hashed K (ts ! n)"
  proof -
    have "w_with_continue (w_encode a) (K (node_enc K (ts ! n))) (wk_depth a + 1) =
        Inr (w_encode ((advance a 1)\<lparr>wk_expected := K (node_enc K (ts ! n))\<rparr>))"
      by (simp only: w_with_continue_encode [OF walk_inv_ok [OF a] K] advance_expected [OF a])
    then show ?thesis using ch(2) [OF h] u
      by (simp add: hopdef KIND_STR_def KIND_LIST_def)
  qed
  show "\<exists>mid post'. data = mid @ node_enc K (ts ! n) @ post' \<and>
      mpt_hop data (length pre) (w_encode a) = Inr (Inline, w_encode (advance a 1), 0, 0, length mid)"
    if nn: "ts ! n \<noteq> TNull" and h: "\<not> hashed K (ts ! n)"
  proof -
    from ch(3) [OF nn h] have k: "kc = KIND_LIST" "oc = length mid"
      and dm: "data = mid @ node_enc K (ts ! n) @ post'" by blast+
    have "w_with_continue_depth_only (w_encode a) (wk_depth a + 1) = Inr (w_encode (advance a 1))"
      by (simp only: w_with_continue_depth_only_encode [OF walk_inv_ok [OF a]] advance_continue [OF a])
    then have "mpt_hop data (length pre) (w_encode a) = Inr (Inline, w_encode (advance a 1), 0, 0, length mid)"
      using k u by (simp add: hopdef)
    with dm show ?thesis by blast
  qed
qed

section \<open>One supplied node\<close>

text \<open>
  The result a walk over one node must have, given the outcome of the abstract step: a terminal
  state with the status (and the span of the value), or a continuation whose expected hash is
  that of the next node and whose remaining key is what is left to match.
\<close>

definition step_result ::
  "(bytes \<Rightarrow> bytes) \<Rightarrow> bytes \<Rightarrow> walk \<Rightarrow> outcome \<Rightarrow> bytes \<times> nat \<times> nat \<Rightarrow> bool" where
  "step_result K data a oc r = (case r of (w', off, n) \<Rightarrow>
     (case oc of
        Found s v \<Rightarrow> \<exists>a'. w' = w_encode a' \<and> walk_ok a' \<and> wk_status a' = s \<and>
          wk_root a' = wk_root a \<and> wk_key a' = wk_key a \<and> wk_key_nibs a' = wk_key_nibs a \<and>
          s \<noteq> WALK_CONTINUE \<and> (s = WALK_INCLUDED \<longrightarrow> off + n \<le> length data \<and> seg off n data = v) \<and>
          (s \<noteq> WALK_INCLUDED \<longrightarrow> v = [])
      | Goto t k \<Rightarrow> \<exists>a'. w' = w_encode a' \<and> walk_inv a' \<and> wk_expected a' = K (node_enc K t) \<and>
          rem_key a' = k \<and> wk_root a' = wk_root a \<and> wk_key a' = wk_key a \<and>
          wk_key_nibs a' = wk_key_nibs a))"

lemma walk_ok_status: "walk_inv a \<Longrightarrow> s < 256 \<Longrightarrow> walk_ok (a\<lparr>wk_status := s\<rparr>)"
  by (simp add: walk_inv_def walk_ok_def)

lemma step_result_absent:
  "walk_inv a \<Longrightarrow> s < 256 \<Longrightarrow> s \<noteq> WALK_CONTINUE \<Longrightarrow> s \<noteq> WALK_INCLUDED \<Longrightarrow>
   step_result K data a (Found s []) (w_encode (a\<lparr>wk_status := s\<rparr>), off, n)"
  unfolding step_result_def by (auto intro!: exI [of _ "a\<lparr>wk_status := s\<rparr>"] walk_ok_status)

lemma step_result_included:
  "walk_inv a \<Longrightarrow> off + n \<le> length data \<Longrightarrow> seg off n data = v \<Longrightarrow>
   step_result K data a (Found WALK_INCLUDED v) (w_encode (a\<lparr>wk_status := WALK_INCLUDED\<rparr>), off, n)"
  unfolding step_result_def
  by (auto intro!: exI [of _ "a\<lparr>wk_status := WALK_INCLUDED\<rparr>"] walk_ok_status simp: walk_status_defs)

lemma step_result_next:
  "walk_inv a \<Longrightarrow> wk_depth a + n \<le> wk_key_nibs a \<Longrightarrow> (\<And>x. length (K x) = 32) \<Longrightarrow>
   step_result K data a (Goto t (drop n (rem_key a)))
     (w_encode ((advance a n)\<lparr>wk_expected := K (node_enc K t)\<rparr>), off, len)"
  unfolding step_result_def
  by (auto intro!: exI [of _ "(advance a n)\<lparr>wk_expected := K (node_enc K t)\<rparr>"]
      walk_inv_expected walk_inv_advance simp: rem_key_advance) (simp_all add: advance_def)

lemma step_result_advance: "step_result K data (advance a n) oc r \<Longrightarrow> step_result K data a oc r"
  by (cases r) (simp add: step_result_def advance_def split: outcome.splits)

lemma walk_loop_stop:
  "steps \<le> INLINE_STEPS_MAX \<Longrightarrow> mpt_hop data st w = Inr (kind, w', off, n, c) \<Longrightarrow> kind \<noteq> Inline \<Longrightarrow>
   mpt_walk_loop data st steps w = Inr (w', off, n)"
  by (simp add: mpt_walk_loop.simps [of data st steps w])

lemma walk_loop_inline:
  "steps \<le> INLINE_STEPS_MAX \<Longrightarrow> mpt_hop data st w = Inr (Inline, w', off, n, c) \<Longrightarrow>
   mpt_walk_loop data st steps w = mpt_walk_loop data c (Suc steps) w'"
  by (simp add: mpt_walk_loop.simps [of data st steps w])

lemma mpt_walk_loop_step:
  assumes K: "\<And>x. length (K x) = 32" and lim: "length data \<le> max_bytes"
  shows "\<lbrakk>wf_trie t; t \<noteq> TNull; walk_inv a; data = pre @ node_enc K t @ post;
      steps + inline_steps K t (rem_key a) \<le> INLINE_STEPS_MAX\<rbrakk> \<Longrightarrow>
    \<exists>r. mpt_walk_loop data (length pre) steps (w_encode a) = Inr r \<and>
      step_result K data a (node_step K t (rem_key a)) r"
proof (induction t arbitrary: a pre post steps)
  case TNull
  then show ?case by simp
next
  case (TLeaf p v)
  have steps: "steps \<le> INLINE_STEPS_MAX" using TLeaf.prems(5) by simp
  from leaf_hop [OF TLeaf.prems(4) lim TLeaf.prems(3,1)] obtain off n where
    h: "mpt_hop data (length pre) (w_encode a) = Inr (Terminal, w_encode (a\<lparr>wk_status :=
        (if rem_key a = p then WALK_INCLUDED else WALK_ABSENT_LEAF_DIVERGE)\<rparr>), off, n, 0)"
    and v: "rem_key a = p \<longrightarrow> off + n \<le> length data \<and> seg off n data = v" by blast
  have "step_result K data a (node_step K (TLeaf p v) (rem_key a)) (w_encode (a\<lparr>wk_status :=
        (if rem_key a = p then WALK_INCLUDED else WALK_ABSENT_LEAF_DIVERGE)\<rparr>), off, n)"
  proof (cases "rem_key a = p")
    case True
    then show ?thesis using v step_result_included [OF TLeaf.prems(3)] by simp
  next
    case False
    then show ?thesis using step_result_absent [OF TLeaf.prems(3), of WALK_ABSENT_LEAF_DIVERGE]
      by (simp add: walk_status_defs)
  qed
  then show ?case using walk_loop_stop [OF steps h] by blast
next
  case (TExt p t)
  have steps: "steps \<le> INLINE_STEPS_MAX" using TExt.prems(5) by simp
  note hop = ext_hop [OF TExt.prems(4) lim TExt.prems(3,1) K]
  show ?case
  proof (cases "take (length p) (rem_key a) = p")
    case False
    then show ?thesis
      using walk_loop_stop [OF steps hop(1) [OF False]] step_result_absent [OF TExt.prems(3), of WALK_ABSENT_EXT_DIVERGE]
      by (simp add: walk_status_defs)
  next
    case m: True
    note fit = take_eq_fits [OF TExt.prems(3) m]
    show ?thesis
    proof (cases "hashed K t")
      case True
      then show ?thesis
        using walk_loop_stop [OF steps hop(2) [OF m True]] m step_result_next [OF TExt.prems(3) fit K]
        by simp
    next
      case False
      from hop(3) [OF m False] obtain mid post' where d: "data = mid @ node_enc K t @ post'"
        and h: "mpt_hop data (length pre) (w_encode a) =
          Inr (Inline, w_encode (advance a (length p)), 0, 0, length mid)" by blast
      have rk: "rem_key (advance a (length p)) = drop (length p) (rem_key a)" by (rule rem_key_advance)
      have "\<exists>r. mpt_walk_loop data (length mid) (Suc steps) (w_encode (advance a (length p))) = Inr r \<and>
          step_result K data (advance a (length p)) (node_step K t (rem_key (advance a (length p)))) r"
      proof (rule TExt.IH [OF _ _ walk_inv_advance [OF TExt.prems(3) fit] d])
        show "wf_trie t" "t \<noteq> TNull" using TExt.prems(1) by auto
        show "Suc steps + inline_steps K t (rem_key (advance a (length p))) \<le> INLINE_STEPS_MAX"
          using TExt.prems(5) m False by (simp add: rk)
      qed
      then show ?thesis using walk_loop_inline [OF steps h] m False rk step_result_advance by fastforce
    qed
  qed
next
  case (TBranch ts v)
  have steps: "steps \<le> INLINE_STEPS_MAX" using TBranch.prems(5) by simp
  have len: "length ts = 16" using TBranch.prems(1) by simp
  show ?case
  proof (cases "rem_key a")
    case Nil
    from branch_hop_end [OF TBranch.prems(4) lim TBranch.prems(3) len Nil] obtain off n where
      h: "mpt_hop data (length pre) (w_encode a) = Inr (Terminal, w_encode (a\<lparr>wk_status :=
          (if v = [] then WALK_ABSENT_BRANCH_TERM else WALK_INCLUDED)\<rparr>), off, n, 0)"
      and val: "v \<noteq> [] \<longrightarrow> off + n \<le> length data \<and> seg off n data = v" by blast
    have "step_result K data a (node_step K (TBranch ts v) (rem_key a)) (w_encode (a\<lparr>wk_status :=
          (if v = [] then WALK_ABSENT_BRANCH_TERM else WALK_INCLUDED)\<rparr>), off, n)"
    proof (cases "v = []")
      case True
      then show ?thesis using Nil step_result_absent [OF TBranch.prems(3), of WALK_ABSENT_BRANCH_TERM]
        by (simp add: walk_status_defs)
    next
      case False
      then show ?thesis using Nil val step_result_included [OF TBranch.prems(3)] by simp
    qed
    then show ?thesis using walk_loop_stop [OF steps h] by blast
  next
    case (Cons n k)
    note hop = branch_hop_child [OF TBranch.prems(4) lim TBranch.prems(3) len Cons K]
    have lt: "n < length ts" using hop(1) len by simp
    have k: "k = drop 1 (rem_key a)" using Cons by simp
    consider "ts ! n = TNull" | "hashed K (ts ! n)" | "ts ! n \<noteq> TNull" "\<not> hashed K (ts ! n)" by blast
    then show ?thesis
    proof cases
      case 1
      have "\<not> hashed K TNull" by (simp add: hashed_def node_enc_def enc_prefix_def)
      then show ?thesis
        using walk_loop_stop [OF steps hop(2) [OF 1]] Cons lt 1
          step_result_absent [OF TBranch.prems(3), of WALK_ABSENT_EMPTY_SLOT]
        by (simp add: walk_status_defs)
    next
      case 2
      have "step_result K data a (Goto (ts ! n) k)
          (w_encode ((advance a 1)\<lparr>wk_expected := K (node_enc K (ts ! n))\<rparr>), 0, 0)"
        unfolding k by (rule step_result_next [OF TBranch.prems(3) hop(5) K])
      then show ?thesis using walk_loop_stop [OF steps hop(3) [OF 2]] Cons lt 2 by simp
    next
      case 3
      from hop(4) [OF 3] obtain mid post' where d: "data = mid @ node_enc K (ts ! n) @ post'"
        and h: "mpt_hop data (length pre) (w_encode a) = Inr (Inline, w_encode (advance a 1), 0, 0, length mid)"
        by blast
      have "\<exists>r. mpt_walk_loop data (length mid) (Suc steps) (w_encode (advance a 1)) = Inr r \<and>
          step_result K data (advance a 1) (node_step K (ts ! n) (rem_key (advance a 1))) r"
      proof (rule TBranch.IH [OF nth_mem [OF lt] _ 3(1) walk_inv_advance [OF TBranch.prems(3) hop(5)] d])
        show "wf_trie (ts ! n)" using TBranch.prems(1) lt by simp
        show "Suc steps + inline_steps K (ts ! n) (rem_key (advance a 1)) \<le> INLINE_STEPS_MAX"
          using TBranch.prems(5) Cons lt 3 hop(6) by simp
      qed
      then show ?thesis using walk_loop_inline [OF steps h] Cons lt 3 hop(6) step_result_advance by fastforce
    qed
  qed
qed

text \<open>One call of \<open>mpt_walk_node\<close> on the genuine bytes of a node.\<close>

lemma mpt_walk_node_genuine:
  assumes K: "\<And>x. length (K x) = 32" and wf: "wf_trie t" "t \<noteq> TNull" and a: "walk_inv a"
    and ex: "wk_expected a = K (node_enc K t)" and lim: "length (node_enc K t) \<le> max_bytes"
  shows "\<exists>r. mpt_walk_node K (node_enc K t) (w_encode a) = Inr r \<and>
    step_result K (node_enc K t) a (node_step K t (rem_key a)) r"
proof -
  have "inline_steps K t (rem_key a) \<le> INLINE_STEPS_MAX"
    using inline_steps_bound [where K = K and k = "rem_key a", OF wf(1) K] by (simp add: INLINE_STEPS_MAX_def)
  then have "\<exists>r. mpt_walk_loop (node_enc K t) 0 0 (w_encode a) = Inr r \<and>
      step_result K (node_enc K t) a (node_step K t (rem_key a)) r"
    using mpt_walk_loop_step [where K = K and pre = "[]" and post = "[]" and steps = 0, OF K lim wf a] by simp
  moreover have "wk_status a = WALK_CONTINUE" using a by (simp add: walk_inv_def)
  ultimately show ?thesis
    by (simp add: mpt_walk_node_def w_encode_get [OF walk_inv_ok [OF a]] ex)
qed

lemma mpt_walk_node_hash: "mpt_walk_node K node w = Inr r \<Longrightarrow> w_expected w = Inr (K node)"
  by (auto simp: mpt_walk_node_def res_simps)

end
