(* ===== verification/MPT_Sound.thy ===== *)
theory MPT_Sound
  imports MPT_Refine
begin

text \<open>
  Walks over several nodes: soundness and completeness of the walker against the abstract lookup,
  and uniqueness of proofs. The reachable states of a walk are an inductive relation; that a
  reachable state is on the path of the key is proved by rule induction.
\<close>

section \<open>Reachable walk states\<close>

text \<open>
  \<open>walk_reaches K w0 ns w\<close>: from \<open>w0\<close> the node arguments \<open>ns\<close> lead to \<open>w\<close>, each of them walked
  from a state that is still open (the \<open>W10\<close> check of the driver).
\<close>

inductive walk_reaches :: "(bytes \<Rightarrow> bytes) \<Rightarrow> bytes \<Rightarrow> bytes list \<Rightarrow> bytes \<Rightarrow> bool" for K w0 where
  start: "walk_reaches K w0 [] w0"
| more: "walk_reaches K w0 ns w \<Longrightarrow> w_status w = Inr WALK_CONTINUE \<Longrightarrow>
    mpt_walk_node K node w = Inr (w', off, n) \<Longrightarrow> walk_reaches K w0 (ns @ [node]) w'"

inductive_simps walk_reaches_Nil [simp]: "walk_reaches K w0 [] w"
inductive_cases walk_reaches_snocE: "walk_reaches K w0 (ns @ [node]) w"

lemma walk_nodes_append: "walk_nodes K w (ns @ ms) = rbind (walk_nodes K w ns) (\<lambda>w'. walk_nodes K w' ms)"
  by (induction ns arbitrary: w) (auto simp: rbind_assoc require_def intro!: rbind_cong split: prod.splits)

lemma walk_nodes_reaches: "walk_nodes K w0 ns = Inr w \<longleftrightarrow> walk_reaches K w0 ns w"
proof (induction ns arbitrary: w rule: rev_induct)
  case Nil
  then show ?case by auto
next
  case (snoc node ns)
  have "walk_nodes K w0 (ns @ [node]) = Inr w \<longleftrightarrow>
      (\<exists>w1 off n. walk_nodes K w0 ns = Inr w1 \<and> w_status w1 = Inr WALK_CONTINUE \<and>
         mpt_walk_node K node w1 = Inr (w, off, n))"
    by (force simp: walk_nodes_append res_simps split: prod.splits)
  also have "\<dots> \<longleftrightarrow> walk_reaches K w0 (ns @ [node]) w"
    unfolding snoc by (blast intro: walk_reaches.more elim: walk_reaches_snocE)
  finally show ?case .
qed

section \<open>On the path of the key\<close>

definition on_path :: "(bytes \<Rightarrow> bytes) \<Rightarrow> trie \<Rightarrow> nat list \<Rightarrow> bytes \<Rightarrow> bool" where
  "on_path K T k0 w \<longleftrightarrow> (\<exists>a t. w = w_encode a \<and> walk_inv a \<and> wk_expected a = K (node_enc K t) \<and>
     wf_trie t \<and> t \<noteq> TNull \<and> trie_nodes K t \<subseteq> trie_nodes K T \<and> node_enc K t \<in> trie_nodes K T \<and>
     trie_lookup t (rem_key a) = trie_lookup T k0)"

definition decided :: "trie \<Rightarrow> nat list \<Rightarrow> bytes \<Rightarrow> bytes \<Rightarrow> nat \<Rightarrow> nat \<Rightarrow> bool" where
  "decided T k0 w' node off n \<longleftrightarrow> (\<exists>a. w' = w_encode a \<and> walk_ok a \<and> wk_status a \<noteq> WALK_CONTINUE \<and>
     trie_lookup T k0 = (wk_status a, if wk_status a = WALK_INCLUDED then seg off n node else []) \<and>
     (wk_status a = WALK_INCLUDED \<longrightarrow> off + n \<le> length node))"

lemma on_path_status: "on_path K T k0 w \<Longrightarrow> w_status w = Inr WALK_CONTINUE"
  by (auto simp: on_path_def w_encode_get walk_inv_def)

lemma decided_status: "decided T k0 w node off n \<Longrightarrow> w_status w = Inr s \<Longrightarrow>
  s \<noteq> WALK_CONTINUE \<and> trie_lookup T k0 = (s, if s = WALK_INCLUDED then seg off n node else [])"
  by (auto simp: decided_def w_encode_get)

lemma decided_span: "decided T k0 w node off n \<Longrightarrow> w_status w = Inr WALK_INCLUDED \<Longrightarrow> off + n \<le> length node"
  by (auto simp: decided_def w_encode_get)

lemma genuine_step:
  assumes K: "\<And>x. length (K x) = 32" and lim: "length (node_enc K t) \<le> max_bytes"
    and a: "walk_inv a" "wk_expected a = K (node_enc K t)" and wf: "wf_trie t" "t \<noteq> TNull"
    and sub: "trie_nodes K t \<subseteq> trie_nodes K T" "node_enc K t \<in> trie_nodes K T"
    and look: "trie_lookup t (rem_key a) = trie_lookup T k0"
  shows "\<exists>w' off n. mpt_walk_node K (node_enc K t) (w_encode a) = Inr (w', off, n) \<and>
    (case node_step K t (rem_key a) of
       Found s v \<Rightarrow> decided T k0 w' (node_enc K t) off n
     | Goto t' k' \<Rightarrow> (\<exists>a'. w' = w_encode a' \<and> walk_inv a' \<and> wk_expected a' = K (node_enc K t') \<and>
         wf_trie t' \<and> t' \<noteq> TNull \<and> size t' < size t \<and> trie_nodes K t' \<subseteq> trie_nodes K T \<and>
         node_enc K t' \<in> trie_nodes K T \<and> trie_lookup t' (rem_key a') = trie_lookup T k0 \<and> rem_key a' = k'))"
proof -
  from mpt_walk_node_genuine [where K = K and t = t and a = a, OF K wf a lim] obtain w' off n where
    r: "mpt_walk_node K (node_enc K t) (w_encode a) = Inr (w', off, n)"
    and res: "step_result K (node_enc K t) a (node_step K t (rem_key a)) (w', off, n)" by (metis prod_cases3)
  have "case node_step K t (rem_key a) of
       Found s v \<Rightarrow> decided T k0 w' (node_enc K t) off n
     | Goto t' k' \<Rightarrow> (\<exists>a'. w' = w_encode a' \<and> walk_inv a' \<and> wk_expected a' = K (node_enc K t') \<and>
         wf_trie t' \<and> t' \<noteq> TNull \<and> size t' < size t \<and> trie_nodes K t' \<subseteq> trie_nodes K T \<and>
         node_enc K t' \<in> trie_nodes K T \<and> trie_lookup t' (rem_key a') = trie_lookup T k0 \<and> rem_key a' = k')"
  proof (cases "node_step K t (rem_key a)")
    case (Found s v)
    from res obtain a' where a': "w' = w_encode a'" "walk_ok a'" "wk_status a' = s" "s \<noteq> WALK_CONTINUE"
      "s = WALK_INCLUDED \<longrightarrow> off + n \<le> length (node_enc K t) \<and> seg off n (node_enc K t) = v" "s \<noteq> WALK_INCLUDED \<longrightarrow> v = []"
      by (auto simp: step_result_def Found)
    have "trie_lookup T k0 = (s, v)" using look trie_lookup_step [of t "rem_key a" K] Found by simp
    then have "decided T k0 w' (node_enc K t) off n" using a' by (auto simp: decided_def)
    then show ?thesis by (simp add: Found)
  next
    case (Goto t' k')
    from res obtain a' where a': "w' = w_encode a'" "walk_inv a'" "wk_expected a' = K (node_enc K t')"
      "rem_key a' = k'" by (auto simp: step_result_def Goto)
    have "trie_lookup t' k' = trie_lookup T k0"
      using look trie_lookup_step [of t "rem_key a" K] Goto by simp
    then show ?thesis using a' node_step_Goto [OF Goto wf(1)] sub by (auto simp: Goto)
  qed
  with r show ?thesis by blast
qed

lemma on_path_step:
  assumes K: "\<And>x. length (K x) = 32" and sz: "node \<in> trie_nodes K T \<Longrightarrow> length node \<le> max_bytes"
    and p: "on_path K T k0 w" and inj: "inj_on K (insert node (trie_nodes K T))"
    and st: "mpt_walk_node K node w = Inr (w', off, n)"
  shows "on_path K T k0 w' \<or> decided T k0 w' node off n"
proof -
  from p obtain a t where a: "w = w_encode a" "walk_inv a" "wk_expected a = K (node_enc K t)"
    and wf: "wf_trie t" "t \<noteq> TNull" and sub: "trie_nodes K t \<subseteq> trie_nodes K T" "node_enc K t \<in> trie_nodes K T"
    and look: "trie_lookup t (rem_key a) = trie_lookup T k0" by (auto simp: on_path_def)
  have "w_expected w = Inr (K node)" by (rule mpt_walk_node_hash [OF st])
  then have "K node = K (node_enc K t)" using a by (simp add: w_encode_get walk_inv_ok)
  then have node: "node = node_enc K t" using inj sub(2) by (auto dest: inj_onD)
  have lim: "length (node_enc K t) \<le> max_bytes" using sz sub(2) unfolding node by blast
  from genuine_step [where K = K and T = T and a = a and t = t, OF K lim a(2,3) wf sub look] obtain v o' m where
    gs: "mpt_walk_node K (node_enc K t) (w_encode a) = Inr (v, o', m)"
    and res: "case node_step K t (rem_key a) of
       Found s x \<Rightarrow> decided T k0 v (node_enc K t) o' m
     | Goto t' k' \<Rightarrow> (\<exists>a'. v = w_encode a' \<and> walk_inv a' \<and> wk_expected a' = K (node_enc K t') \<and>
         wf_trie t' \<and> t' \<noteq> TNull \<and> size t' < size t \<and> trie_nodes K t' \<subseteq> trie_nodes K T \<and>
         node_enc K t' \<in> trie_nodes K T \<and> trie_lookup t' (rem_key a') = trie_lookup T k0 \<and> rem_key a' = k')" by blast
  have "Inr (w', off, n) = (Inr (v, o', m) :: (bytes \<times> nat \<times> nat) res)"
    using st unfolding node a(1) gs by (rule sym)
  then have eq: "v = w'" "o' = off" "m = n" by simp_all
  note res [unfolded eq node [symmetric]]
  then show ?thesis by (auto simp: on_path_def split: outcome.splits)
qed

text \<open>The node of a walk on the path is a node of the trie.\<close>

lemma on_path_node:
  assumes "on_path K T k w" and "mpt_walk_node K node w = Inr r" and "inj_on K (insert node (trie_nodes K T))"
  shows "node \<in> trie_nodes K T"
proof -
  from assms(1) obtain a t where a: "w = w_encode a" "walk_inv a" "wk_expected a = K (node_enc K t)"
    "node_enc K t \<in> trie_nodes K T" by (auto simp: on_path_def)
  have "Inr (K node) = (Inr (K (node_enc K t)) :: bytes res)"
    using mpt_walk_node_hash [OF assms(2)] a by (simp add: w_encode_get walk_inv_ok)
  then have "node = node_enc K t" using assms(3) a(4) by (auto dest: inj_onD)
  with a(4) show ?thesis by simp
qed

text \<open>Rule induction: every reachable open state is on the path.\<close>

lemma reaches_on_path:
  assumes K: "\<And>x. length (K x) = 32" and sz: "\<And>e. e \<in> set ns \<Longrightarrow> e \<in> trie_nodes K T \<Longrightarrow> length e \<le> max_bytes"
    and w0: "on_path K T k0 w0" and r: "walk_reaches K w0 ns w"
    and inj: "inj_on K (set ns \<union> trie_nodes K T)" and st: "w_status w = Inr WALK_CONTINUE"
  shows "on_path K T k0 w"
  using r inj st sz
proof (induction rule: walk_reaches.induct)
  case start
  show ?case by (rule w0)
next
  case (more ns w node w' off n)
  have "inj_on K (set ns \<union> trie_nodes K T)" using more.prems(1) by (rule inj_on_subset) auto
  then have "on_path K T k0 w" by (rule more.IH [OF _ more.hyps(2)]) (rule more.prems(3); simp)
  moreover have "inj_on K (insert node (trie_nodes K T))" using more.prems(1) by (rule inj_on_subset) auto
  ultimately have "on_path K T k0 w' \<or> decided T k0 w' node off n"
    using more.hyps(3) more.prems(3) by (intro on_path_step [where K = K and T = T, OF K]) auto
  then show ?case using decided_status more.prems(2) by blast
qed

lemma init_state:
  assumes K: "\<And>x. length (K x) = 32" and key: "length key \<le> 32" "kn \<le> 2 * length key"
    and init: "mpt_init_state (K (node_enc K T)) key kn = Inr w0"
  obtains a where "w0 = w_encode a" "walk_inv a" "wk_expected a = K (node_enc K T)" "rem_key a = take kn (nibs key)"
proof -
  let ?a = "\<lparr>wk_status = WALK_CONTINUE, wk_root = K (node_enc K T), wk_expected = K (node_enc K T),
    wk_depth = 0, wk_key_nibs = kn, wk_key = key @ replicate (32 - length key) 0\<rparr>"
  have "w0 = w_encode ?a" using init mpt_init_state_encode [OF K key(1), of _ kn] by simp
  moreover have "walk_inv ?a" using key K by (simp add: walk_inv_def walk_ok_def WALK_CONTINUE_def)
  moreover have "rem_key ?a = take kn (nibs key)" using key(2) by (simp add: rem_key_def)
  ultimately show ?thesis by (intro that [of ?a]) simp_all
qed

lemma root_node: "T \<noteq> TNull \<Longrightarrow> node_enc K T \<in> trie_nodes K T"
  by (cases T) auto

lemma init_on_path:
  assumes K: "\<And>x. length (K x) = 32" and wf: "wf_trie T" "T \<noteq> TNull"
    and key: "length key \<le> 32" "kn \<le> 2 * length key"
    and init: "mpt_init_state (K (node_enc K T)) key kn = Inr w0"
  shows "on_path K T (take kn (nibs key)) w0"
proof -
  obtain a where a: "w0 = w_encode a" "walk_inv a" "wk_expected a = K (node_enc K T)" "rem_key a = take kn (nibs key)"
    by (rule init_state [where K = K, OF K key init])
  then show ?thesis unfolding on_path_def using wf root_node [OF wf(2)] by (intro exI [of _ a] exI [of _ T]) simp
qed

text \<open>The nodes on a path are nodes of the trie.\<close>

lemma hashed_not_null: "hashed K t \<Longrightarrow> t \<noteq> TNull"
  by (auto simp: hashed_def node_enc_def enc_prefix_def)

lemma nodes_below_sub: "set (nodes_below K t k) \<subseteq> trie_nodes K t"
proof (induction K t k rule: nodes_below.induct)
  case (3 K p t k)
  then show ?case by (auto dest: hashed_not_null root_node)
next
  case (5 K ts v n k)
  show ?case
  proof (cases "n < length ts")
    case True
    then have "trie_nodes K (ts ! n) \<subseteq> trie_nodes K (TBranch ts v)" by auto
    moreover have "set (nodes_below K (TBranch ts v) (n # k)) \<subseteq> trie_nodes K (ts ! n)"
      using 5 [OF True] True by (auto dest: hashed_not_null root_node)
    ultimately show ?thesis by blast
  qed simp
qed simp_all

lemma path_nodes_sub: "t \<noteq> TNull \<Longrightarrow> set (path_nodes K t k) \<subseteq> trie_nodes K t"
  using nodes_below_sub [of K t k] root_node [of t K] by (simp add: path_nodes_def)

text \<open>From a state on the path the genuine nodes lead to the verdict.\<close>

lemma path_completes:
  assumes K: "\<And>x. length (K x) = 32"
  shows "\<lbrakk>walk_inv a; wk_expected a = K (node_enc K t); wf_trie t; t \<noteq> TNull;
      trie_nodes K t \<subseteq> trie_nodes K T; node_enc K t \<in> trie_nodes K T;
      trie_lookup t (rem_key a) = trie_lookup T k0; walk_reaches K w0 ns (w_encode a);
      set ns \<subseteq> trie_nodes K T; \<forall>e\<in>set (path_nodes K t (rem_key a)). length e \<le> max_bytes\<rbrakk> \<Longrightarrow>
    \<exists>ns' node w w' off n. walk_reaches K w0 ns' w \<and> w_status w = Inr WALK_CONTINUE \<and>
      mpt_walk_node K node w = Inr (w', off, n) \<and> set ns' \<union> {node} \<subseteq> trie_nodes K T \<and>
      decided T k0 w' node off n \<and> ns' @ [node] = ns @ path_nodes K t (rem_key a)"
proof (induction "size t" arbitrary: t a ns rule: less_induct)
  case less
  have lim: "length (node_enc K t) \<le> max_bytes" using less.prems(10) by (simp add: path_nodes_def)
  from genuine_step [where K = K and T = T and a = a and t = t, OF K lim less.prems(1-7)] obtain w' off n where
    st: "mpt_walk_node K (node_enc K t) (w_encode a) = Inr (w', off, n)"
    and res: "case node_step K t (rem_key a) of
       Found s v \<Rightarrow> decided T k0 w' (node_enc K t) off n
     | Goto t' k' \<Rightarrow> (\<exists>a'. w' = w_encode a' \<and> walk_inv a' \<and> wk_expected a' = K (node_enc K t') \<and>
         wf_trie t' \<and> t' \<noteq> TNull \<and> size t' < size t \<and> trie_nodes K t' \<subseteq> trie_nodes K T \<and>
         node_enc K t' \<in> trie_nodes K T \<and> trie_lookup t' (rem_key a') = trie_lookup T k0 \<and> rem_key a' = k')"
    by blast
  have cont: "w_status (w_encode a) = Inr WALK_CONTINUE"
    using less.prems(1) by (simp add: w_encode_get walk_inv_def)
  show ?case
  proof (cases "node_step K t (rem_key a)")
    case (Found s v)
    with res have "decided T k0 w' (node_enc K t) off n" by simp
    moreover have "set ns \<union> {node_enc K t} \<subseteq> trie_nodes K T" using less.prems(6,9) by simp
    moreover have "path_nodes K t (rem_key a) = [node_enc K t]" using Found by (simp add: path_nodes_step)
    ultimately show ?thesis using st cont less.prems(8) by (intro exI [of _ ns] exI [of _ "node_enc K t"] exI [of _ "w_encode a"] exI [of _ w'] exI [of _ off] exI [of _ n]) auto
  next
    case (Goto t' k')
    with res obtain a' where a': "w' = w_encode a'" "walk_inv a'" "wk_expected a' = K (node_enc K t')"
      "wf_trie t'" "t' \<noteq> TNull" "size t' < size t" "trie_nodes K t' \<subseteq> trie_nodes K T"
      "node_enc K t' \<in> trie_nodes K T" "trie_lookup t' (rem_key a') = trie_lookup T k0" and k': "rem_key a' = k'" by auto
    have r: "walk_reaches K w0 (ns @ [node_enc K t]) (w_encode a')"
      using walk_reaches.more [OF less.prems(8) cont st] a'(1) by simp
    have p: "ns @ path_nodes K t (rem_key a) = (ns @ [node_enc K t]) @ path_nodes K t' (rem_key a')"
      using Goto k' by (simp add: path_nodes_step)
    have "\<forall>e\<in>set (path_nodes K t' (rem_key a')). length e \<le> max_bytes"
      using less.prems(10) Goto k' by (simp add: path_nodes_step [of K t])
    then show ?thesis unfolding p
      by (intro less.hyps [OF a'(6) a'(2-5) a'(7-9) r]) (use less.prems(6,9) in auto)
  qed
qed

lemma lookup_decides: "fst (trie_lookup t k) \<noteq> WALK_CONTINUE"
  by (induction t k rule: trie_lookup.induct) (auto simp: walk_status_defs)

lemma walk_complete_core:
  assumes K: "\<And>x. length (K x) = 32" and wf: "wf_trie T" "T \<noteq> TNull"
    and sz: "\<forall>e\<in>set (path_nodes K T (take kn (nibs key))). length e \<le> max_bytes"
    and key: "length key \<le> 32" "kn \<le> 2 * length key"
    and init: "mpt_init_state (K (node_enc K T)) key kn = Inr w0"
  shows "\<exists>nodes node w w' off n. set nodes \<union> {node} \<subseteq> trie_nodes K T \<and>
    walk_nodes K w0 nodes = Inr w \<and> mpt_walk_node K node w = Inr (w', off, n) \<and>
    walk_nodes K w0 (nodes @ [node]) = Inr w' \<and>
    w_status w' = Inr (fst (trie_lookup T (take kn (nibs key)))) \<and>
    snd (trie_lookup T (take kn (nibs key))) =
      (if fst (trie_lookup T (take kn (nibs key))) = WALK_INCLUDED then seg off n node else []) \<and>
    nodes @ [node] = path_nodes K T (take kn (nibs key))"
proof -
  let ?k = "take kn (nibs key)"
  obtain a where a: "w0 = w_encode a" "walk_inv a" "wk_expected a = K (node_enc K T)" "rem_key a = ?k"
    by (rule init_state [where K = K, OF K key init])
  have sub: "trie_nodes K T \<subseteq> trie_nodes K T" "node_enc K T \<in> trie_nodes K T" using wf(2) by (auto intro: root_node)
  have look: "trie_lookup T (rem_key a) = trie_lookup T ?k" by (simp only: a(4))
  have "walk_reaches K w0 [] (w_encode a)" using a(1) by simp
  from path_completes [where K = K and T = T, OF K a(2,3) wf sub look this] obtain ns node w w' off n where
    r: "walk_reaches K w0 ns w" "w_status w = Inr WALK_CONTINUE" "mpt_walk_node K node w = Inr (w', off, n)"
      "set ns \<union> {node} \<subseteq> trie_nodes K T" and d: "decided T ?k w' node off n" and path: "ns @ [node] = path_nodes K T ?k"
    using sz by (auto simp: a(4))
  have "walk_reaches K w0 (ns @ [node]) w'" by (rule walk_reaches.more [OF r(1-3)])
  then have run: "walk_nodes K w0 ns = Inr w" "walk_nodes K w0 (ns @ [node]) = Inr w'" using r(1) by (simp_all only: walk_nodes_reaches)
  obtain s where s: "w_status w' = Inr s" using d by (auto simp: decided_def w_encode_get)
  note look = decided_status [OF d s] run(2) [unfolded path]
  have "node \<in> trie_nodes K T" "set ns \<subseteq> trie_nodes K T" using r(4) by simp_all
  then show ?thesis
    by (intro exI [of _ ns] exI [of _ node] exI [of _ w] exI [of _ w'] exI [of _ off] exI [of _ n])
      (simp add: r(3) run(1) s path look)
qed

section \<open>Uniqueness\<close>

lemma reaches_unique:
  assumes "walk_reaches K w0 ns w" and "walk_reaches K w0 ms v" and "length ns = length ms"
    and "inj_on K (set ns \<union> set ms)"
  shows "ns = ms \<and> w = v"
  using assms
proof (induction arbitrary: ms v rule: walk_reaches.induct)
  case start
  then show ?case by simp
next
  case (more ns w node w' off n)
  then obtain ms' node' where ms: "ms = ms' @ [node']" by (metis append_is_Nil_conv length_0_conv not_Cons_self2 rev_exhaust)
  from more.prems(1) [unfolded ms] obtain u off' n' where
    u: "walk_reaches K w0 ms' u" "mpt_walk_node K node' u = Inr (v, off', n')"
    by (rule walk_reaches_snocE) blast
  have inj: "inj_on K (set ns \<union> set ms')" using more.prems(3) by (rule inj_on_subset) (auto simp: ms)
  have "length ns = length ms'" using more.prems(2) by (simp add: ms)
  from more.IH [OF u(1) this inj] have eq: "ns = ms'" "w = u" by simp_all
  have "K node = K node'"
  proof -
    have "Inr (K node) = (Inr (K node') :: bytes res)"
      using mpt_walk_node_hash [OF more.hyps(3)] mpt_walk_node_hash [OF u(2)] unfolding eq(2)
      by (rule subst)
    then show ?thesis by (rule sum.inject(2) [THEN iffD1])
  qed
  then have "node = node'" by (rule inj_onD [OF more.prems(3)]) (simp_all add: ms)
  moreover from this have "w' = v" using more.hyps(3) u(2) unfolding eq(2) by simp
  ultimately show ?case by (simp add: ms eq(1))
qed

text \<open>A prefix of a walk is a walk that is still open.\<close>

lemma reaches_prefix_open:
  "walk_reaches K w0 ns w \<Longrightarrow> ns = ms @ m # rest \<Longrightarrow> \<exists>v. walk_reaches K w0 ms v \<and> w_status v = Inr WALK_CONTINUE"
proof (induction arbitrary: rest rule: walk_reaches.induct)
  case start
  then show ?case by simp
next
  case (more ns w node w' off n)
  show ?case
  proof (cases rest rule: rev_cases)
    case Nil
    then show ?thesis using more by auto
  next
    case (snoc rest' x)
    then show ?thesis using more.IH [of rest'] more.prems by simp
  qed
qed

lemma terminal_unique:
  assumes r: "walk_reaches K w0 ns w" "walk_reaches K w0 ms v"
    and t: "w_status w \<noteq> Inr WALK_CONTINUE" "w_status v \<noteq> Inr WALK_CONTINUE"
    and inj: "inj_on K (set ns \<union> set ms)"
  shows "ns = ms \<and> w = v"
proof -
  have no_longer: False
    if r: "walk_reaches K w0 ns w" "walk_reaches K w0 ms v" and t: "w_status v \<noteq> Inr WALK_CONTINUE"
      and inj: "inj_on K (set ns \<union> set ms)" and lt: "length ms < length ns" for ns ms w v
  proof -
    have split: "ns = take (length ms) ns @ ns ! length ms # drop (Suc (length ms)) ns"
      using lt by (simp add: id_take_nth_drop)
    from reaches_prefix_open [OF r(1) split] obtain u where
      u: "walk_reaches K w0 (take (length ms) ns) u" "w_status u = Inr WALK_CONTINUE" by blast
    have "inj_on K (set (take (length ms) ns) \<union> set ms)"
      using inj by (rule inj_on_subset) (auto dest: in_set_takeD)
    then have "u = v" using reaches_unique [OF u(1) r(2)] lt by simp
    with u(2) t show False by simp
  qed
  have "inj_on K (set ms \<union> set ns)" using inj by (simp add: Un_commute)
  then have "length ns = length ms"
    using no_longer [OF r t(2) inj] no_longer [OF r(2,1) t(1)] by (meson linorder_neqE_nat)
  then show ?thesis by (rule reaches_unique [OF r _ inj])
qed

text \<open>
  What the clients of the walker need besides its soundness: the root a walk started from is never
  changed on the way, and every key of a well-formed trie has a walk over the trie's own nodes that
  decides it.
\<close>

section \<open>The root and the length of a walk state are constant\<close>

definition walk_frame :: "bytes \<Rightarrow> bytes \<Rightarrow> bool" where
  "walk_frame w w' \<longleftrightarrow> w_root w' = w_root w \<and> length w' = length w"

lemma walk_frame_refl [simp]: "walk_frame w w"
  by (simp add: walk_frame_def)

lemma walk_frame_trans: "walk_frame u v \<Longrightarrow> walk_frame v w \<Longrightarrow> walk_frame u w"
  by (simp add: walk_frame_def)

lemma frame_terminal: "w_with_terminal w s = Inr w' \<Longrightarrow> walk_frame w w'"
  by (auto simp: walk_frame_def w_with_terminal_def w_root_def bextract_def res_simps seg_overwrite_after simp del: One_nat_def)

lemma frame_depth: "w_with_continue_depth_only w d = Inr w' \<Longrightarrow> walk_frame w w'"
  by (auto simp: walk_frame_def w_with_continue_depth_only_def w_root_def bextract_def res_simps seg_overwrite_after
      seg_overwrite_before Let_def simp del: One_nat_def)

lemma frame_continue: "w_with_continue w e d = Inr w' \<Longrightarrow> walk_frame w w'"
  by (auto simp: walk_frame_def w_with_continue_def w_root_def bextract_def res_simps seg_overwrite_after
      seg_overwrite_before Let_def simp del: One_nat_def)

lemmas frame_updates = frame_terminal frame_depth frame_continue

lemma branch_hop_frame: "mpt_branch_hop node o0 l0 k0 o1 l1 k1 pe w = Inr (k, w', a, b, c) \<Longrightarrow> walk_frame w w'"
  unfolding mpt_branch_hop_def by (auto simp: res_simps split: if_splits dest: frame_updates)

lemma leaf_hop_frame: "mpt_leaf_hop node o0 l0 o1 l1 w = Inr (k, w', a, b, c) \<Longrightarrow> walk_frame w w'"
  unfolding mpt_leaf_hop_def by (auto simp: res_simps split: if_splits dest: frame_updates)

lemma extension_hop_frame: "mpt_extension_hop node o0 l0 o1 l1 k1 w = Inr (k, w', a, b, c) \<Longrightarrow> walk_frame w w'"
  unfolding mpt_extension_hop_def by (auto simp: res_simps split: if_splits dest: frame_updates)

lemma hop_frame: "mpt_hop node st w = Inr (k, w', a, b, c) \<Longrightarrow> walk_frame w w'"
  unfolding mpt_hop_def
  by (auto simp: res_simps split: if_splits dest: branch_hop_frame leaf_hop_frame extension_hop_frame)

lemma walk_loop_frame: "mpt_walk_loop node st steps w = Inr (w', off, n) \<Longrightarrow> walk_frame w w'"
proof (induction node st steps w rule: mpt_walk_loop.induct)
  case (1 node st steps w)
  from "1.prems" obtain k w1 a b c where h: "mpt_hop node st w = Inr (k, w1, a, b, c)" and s: "steps \<le> INLINE_STEPS_MAX"
    and r: "(if k = Inline then mpt_walk_loop node c (steps + 1) w1 else Inr (w1, a, b)) = Inr (w', off, n)"
    by (auto simp: mpt_walk_loop.simps [of node st steps w] res_simps)
  show ?case
  proof (cases "k = Inline")
    case True
    then show ?thesis using "1.IH" [OF s h refl refl refl refl True] r hop_frame [OF h] walk_frame_trans by simp
  next
    case False
    then show ?thesis using r hop_frame [OF h] by simp
  qed
qed

lemma walk_node_frame: "mpt_walk_node K node w = Inr (w', off, n) \<Longrightarrow> walk_frame w w'"
  by (auto simp: mpt_walk_node_def res_simps dest: walk_loop_frame)

lemma walk_nodes_frame: "walk_nodes K w nodes = Inr w' \<Longrightarrow> walk_frame w w'"
  by (induction nodes arbitrary: w) (auto simp: res_simps intro: walk_frame_trans dest: walk_node_frame)

lemma walk_node_root: "mpt_walk_node K node w = Inr (w', off, n) \<Longrightarrow> w_root w' = w_root w"
  using walk_node_frame by (simp add: walk_frame_def)

lemma walk_nodes_root: "walk_nodes K w nodes = Inr w' \<Longrightarrow> w_root w' = w_root w"
  using walk_nodes_frame by (simp add: walk_frame_def)

lemma walk_nodes_length: "walk_nodes K w nodes = Inr w' \<Longrightarrow> length w' = length w"
  using walk_nodes_frame by (simp add: walk_frame_def)

section \<open>Completed walks\<close>

lemma walk_nodes_open: "walk_nodes K w nodes = Inr w' \<Longrightarrow> w_status w' = Inr WALK_CONTINUE \<Longrightarrow> w_status w = Inr WALK_CONTINUE"
  by (cases nodes) (auto simp: res_simps)

text \<open>A completed walk from the initial state for a root.\<close>

lemma decided_length: "decided T k w node off n \<Longrightarrow> length w = W_LEN"
  by (auto simp: decided_def length_w_encode)

lemma honest_walk:
  assumes K: "\<And>x. length (K x) = 32" and wf: "wf_trie T" "T \<noteq> TNull"
    and sz: "\<forall>e\<in>set (path_nodes K T (nibs key)). length e \<le> max_bytes" and inj: "inj_on K (trie_nodes K T)" and kl: "length key \<le> 32"
  obtains w0 nodes w1 node w2 off n where "mpt_init_state (K (node_enc K T)) key (length key * 2) = Inr w0"
    "set (nodes @ [node]) \<subseteq> trie_nodes K T" "walk_nodes K w0 nodes = Inr w1"
    "mpt_walk_node K node w1 = Inr (w2, off, n)" "on_path K T (nibs key) w1"
    "w_status w2 = Inr (fst (trie_lookup T (nibs key)))" "fst (trie_lookup T (nibs key)) \<noteq> WALK_CONTINUE"
    "length w2 = W_LEN" "w_root w2 = Inr (K (node_enc K T))" "decided T (nibs key) w2 node off n"
    "nodes @ [node] = path_nodes K T (nibs key)"
proof -
  let ?R = "K (node_enc K T)"
  let ?a = "\<lparr>wk_status = WALK_CONTINUE, wk_root = ?R, wk_expected = ?R, wk_depth = 0, wk_key_nibs = length key * 2,
      wk_key = key @ replicate (32 - length key) 0\<rparr>"
  have init: "mpt_init_state ?R key (length key * 2) = Inr (w_encode ?a)" using K kl by (simp add: mpt_init_state_encode)
  have aok: "walk_ok ?a" using K kl by (simp add: walk_ok_def WALK_CONTINUE_def)
  have k: "length key * 2 \<le> 2 * length key" "take (length key * 2) (nibs key) = nibs key" by simp_all
  have sz': "\<forall>e\<in>set (path_nodes K T (take (length key * 2) (nibs key))). length e \<le> max_bytes" using sz by (simp only: k(2))
  from walk_complete_core [where K = K, OF K wf sz' kl k(1) init] obtain nodes node w1 w2 off n where
    r: "set nodes \<union> {node} \<subseteq> trie_nodes K T" "walk_nodes K (w_encode ?a) nodes = Inr w1"
      "mpt_walk_node K node w1 = Inr (w2, off, n)" "w_status w2 = Inr (fst (trie_lookup T (nibs key)))"
      "nodes @ [node] = path_nodes K T (nibs key)"
    by (auto simp only: k(2))
  have p0: "on_path K T (nibs key) (w_encode ?a)"
    using init_on_path [where K = K, OF K wf kl k(1) init] by (simp only: k(2))
  have o: "w_status w1 = Inr WALK_CONTINUE" using r(3) by (auto simp: mpt_walk_node_def res_simps)
  have i1: "inj_on K (set nodes \<union> trie_nodes K T)" "inj_on K (insert node (trie_nodes K T))"
    using r(1) inj by (simp_all add: insert_absorb Un_absorb1)
  have small: "e \<in> set (nodes @ [node]) \<Longrightarrow> length e \<le> max_bytes" for e using sz r(5) by simp
  have small1: "e \<in> set nodes \<Longrightarrow> e \<in> trie_nodes K T \<Longrightarrow> length e \<le> max_bytes" for e using small [of e] by simp
  have small2: "node \<in> trie_nodes K T \<Longrightarrow> length node \<le> max_bytes" using small [of node] by simp
  have reach: "walk_reaches K (w_encode ?a) nodes w1" using r(2) by (simp add: walk_nodes_reaches)
  have p1: "on_path K T (nibs key) w1"
    by (rule reaches_on_path [where K = K, OF K _ p0 reach i1(1) o]) (rule small1)
  from on_path_step [where K = K, OF K small2 p1 i1(2) r(3)] have d: "decided T (nibs key) w2 node off n"
    using r(4) lookup_decides [of T "nibs key"] by (auto dest: on_path_status)
  show ?thesis
  proof (rule that [OF init _ r(2,3) p1 r(4)])
    show "set (nodes @ [node]) \<subseteq> trie_nodes K T" using r(1) by simp
    show "fst (trie_lookup T (nibs key)) \<noteq> WALK_CONTINUE" using decided_status [OF d r(4)] by simp
    show "length w2 = W_LEN" by (rule decided_length [OF d])
    have "w_root w2 = w_root (w_encode ?a)" using walk_node_root [OF r(3)] walk_nodes_root [OF r(2)] by simp
    then show "w_root w2 = Inr ?R" using w_encode_fields(1) [OF aok] by simp
    show "decided T (nibs key) w2 node off n" by (rule d)
    show "nodes @ [node] = path_nodes K T (nibs key)" by (rule r(5))
  qed
qed

text \<open>The walk along a hashed key of 64 nibbles.\<close>

lemma honest_walk_hash:
  assumes K: "\<And>x. length (K x) = 32" and wf: "wf_trie T" "T \<noteq> TNull"
    and sz: "\<forall>e\<in>trie_nodes K T. length e \<le> max_bytes" and inj: "inj_on K (trie_nodes K T)"
  obtains w0 nodes w1 node w2 off n where "mpt_init_state (K (node_enc K T)) (K x) 64 = Inr w0"
    "set (nodes @ [node]) \<subseteq> trie_nodes K T" "walk_nodes K w0 nodes = Inr w1"
    "mpt_walk_node K node w1 = Inr (w2, off, n)" "on_path K T (nibs (K x)) w1"
    "w_status w2 = Inr (fst (trie_lookup T (nibs (K x))))" "fst (trie_lookup T (nibs (K x))) \<noteq> WALK_CONTINUE"
    "length w2 = W_LEN" "w_root w2 = Inr (K (node_enc K T))"
proof -
  have l: "length (K x) \<le> 32" "length (K x) * 2 = 64" by (simp_all add: K)
  have "\<forall>e\<in>set (path_nodes K T (nibs (K x))). length e \<le> max_bytes" using sz path_nodes_sub [OF wf(2)] by blast
  then show ?thesis
    by (rule honest_walk [where K = K and T = T and key = "K x", OF K wf _ inj l(1)]) (rule that, simp_all add: l(2))
qed

end
