(* ===== verification/Props_Walk.thy ===== *)
theory Props_Walk
  imports MPT_Sound
begin

text \<open>
  The properties of the RLP decoder, the nibble comparison and the trie walker, each with a
  concrete instance of its hypotheses.
\<close>

section \<open>The trie walker\<close>

text \<open>A hash for the instances: 32 bytes that depend on the length of the message.\<close>

definition toy_hash :: "bytes \<Rightarrow> bytes" where
  "toy_hash x = replicate 32 (of_nat (length x))"

lemma length_toy_hash [simp]: "length (toy_hash x) = 32"
  by (simp add: toy_hash_def)

text \<open>The instance trie: a branch whose child 1 is a leaf large enough to be referenced by hash.\<close>

definition toy_leaf :: trie where
  "toy_leaf = TLeaf [2] (replicate 40 7)"

definition toy_trie :: trie where
  "toy_trie = TBranch (TNull # toy_leaf # replicate 14 TNull) []"

lemma toy_wf: "wf_trie toy_trie" "toy_trie \<noteq> TNull"
  by (simp_all add: toy_trie_def toy_leaf_def nibble_list_def)

lemma length_toy_leaf: "length (node_enc toy_hash toy_leaf) = 43"
  by (simp add: node_enc_def toy_leaf_def hp_encode_def enc_prefix_def Let_def unat_of_nat_byte)

lemma length_toy_trie: "length (node_enc toy_hash toy_trie) = 50"
proof -
  have "32 \<le> length (rlp_enc (node_rlp toy_hash toy_leaf))"
    using length_toy_leaf by (simp add: node_enc_def)
  then show ?thesis
    by (simp add: node_enc_def toy_trie_def ref_of_def enc_prefix_def Let_def numeral_eq_Suc)
qed

lemma toy_nodes: "trie_nodes toy_hash toy_trie = {node_enc toy_hash toy_trie, node_enc toy_hash toy_leaf}"
  by (auto simp: toy_trie_def toy_leaf_def)

lemma toy_sizes: "\<forall>e\<in>trie_nodes toy_hash toy_trie. length e \<le> max_bytes"
  by (simp add: toy_nodes length_toy_leaf length_toy_trie max_bytes_def)

lemma toy_path_sizes: "\<forall>e\<in>set (path_nodes toy_hash toy_trie k). length e \<le> max_bytes"
  using toy_sizes path_nodes_sub [OF toy_wf(2)] by blast

lemma toy_inj: "inj_on toy_hash (trie_nodes toy_hash toy_trie)"
proof -
  have "toy_hash (node_enc toy_hash toy_trie) \<noteq> toy_hash (node_enc toy_hash toy_leaf)"
    unfolding toy_hash_def [of "node_enc toy_hash toy_trie"] toy_hash_def [of "node_enc toy_hash toy_leaf"]
    by (simp add: length_toy_leaf length_toy_trie)
  then show ?thesis by (auto simp: toy_nodes)
qed

lemma toy_lookup: "trie_lookup toy_trie (take 2 (nibs [0x12])) = (WALK_INCLUDED, replicate 40 7)"
  by (simp add: toy_trie_def toy_leaf_def)

text \<open>
C2: soundness of the walk. Take any well-formed trie and any list of node arguments, however a
relayer chose them. If the segment driver walks them from the initial state for the trie's root
and a key, and the last node makes the status terminal, then that status is the one the abstract
lookup of the key gives, and for an inclusion the reported span holds exactly the value stored
under the key. No supplied node of the trie is longer than 4,096 bytes, the most an AVM value can
hold; of the other nodes of the trie nothing is asked. So inclusion and all four forms of absence are bound to root and key. The hash is
only assumed injective on the node bytes that occur.
\<close>

theorem mpt_walk_sound:
  assumes K: "\<And>x. length (K x) = 32" and wf: "wf_trie T" "T \<noteq> TNull"
    and sz: "\<forall>e\<in>(set nodes \<union> {node}) \<inter> trie_nodes K T. length e \<le> max_bytes"
    and key: "length key \<le> 32" "kn \<le> 2 * length key"
    and init: "mpt_init_state (K (node_enc K T)) key kn = Inr w0"
    and walk: "walk_nodes K w0 nodes = Inr w" and open_w: "w_status w = Inr WALK_CONTINUE"
    and last: "mpt_walk_node K node w = Inr (w', off, n)"
    and status: "w_status w' = Inr s" "s \<noteq> WALK_CONTINUE"
    and inj: "inj_on K (set nodes \<union> {node} \<union> trie_nodes K T)"
  shows "trie_lookup T (take kn (nibs key)) = (s, if s = WALK_INCLUDED then seg off n node else [])"
proof -
  let ?k = "take kn (nibs key)"
  have p0: "on_path K T ?k w0" by (rule init_on_path [where K = K, OF K wf key init])
  have i1: "inj_on K (set nodes \<union> trie_nodes K T)" using inj by (rule inj_on_subset) auto
  have i2: "inj_on K (insert node (trie_nodes K T))" using inj by (rule inj_on_subset) auto
  have "on_path K T ?k w"
    using walk by (intro reaches_on_path [where K = K, OF K _ p0 _ i1 open_w]) (use sz in \<open>simp_all add: walk_nodes_reaches\<close>)
  moreover have "node \<in> trie_nodes K T \<Longrightarrow> length node \<le> max_bytes" using sz by simp
  ultimately have "on_path K T ?k w' \<or> decided T ?k w' node off n" by (intro on_path_step [where K = K, OF K _ _ i2 last])
  then show ?thesis
    using status on_path_status decided_status by (auto dest: on_path_status)
qed

theorem mpt_walk_sound_witness:
  "\<exists>nodes node w0 w w' off n. mpt_init_state (toy_hash (node_enc toy_hash toy_trie)) [0x12] 2 = Inr w0 \<and>
     walk_nodes toy_hash w0 nodes = Inr w \<and> mpt_walk_node toy_hash node w = Inr (w', off, n) \<and>
     w_status w' = Inr WALK_INCLUDED \<and> seg off n node = replicate 40 7"
proof -
  obtain w0 where init: "mpt_init_state (toy_hash (node_enc toy_hash toy_trie)) [0x12] 2 = Inr w0"
    by (simp add: mpt_init_state_encode)
  have key: "length [0x12 :: byte] \<le> 32" "2 \<le> 2 * length [0x12 :: byte]" by simp_all
  from walk_complete_core [where K = toy_hash, OF length_toy_hash toy_wf toy_path_sizes key init] obtain nodes node w w' off n
    where sub: "set nodes \<union> {node} \<subseteq> trie_nodes toy_hash toy_trie" and walk: "walk_nodes toy_hash w0 nodes = Inr w"
      and last: "mpt_walk_node toy_hash node w = Inr (w', off, n)" and st: "w_status w' = Inr WALK_INCLUDED"
    by (auto simp only: toy_lookup fst_conv)
  have open_w: "w_status w = Inr WALK_CONTINUE"
    using last by (auto simp: mpt_walk_node_def res_simps)
  have "set nodes \<union> {node} \<union> trie_nodes toy_hash toy_trie = trie_nodes toy_hash toy_trie" using sub by blast
  then have inj: "inj_on toy_hash (set nodes \<union> {node} \<union> trie_nodes toy_hash toy_trie)" using toy_inj by simp
  have "WALK_INCLUDED \<noteq> WALK_CONTINUE" by (simp add: walk_status_defs)
  moreover have "\<forall>e\<in>(set nodes \<union> {node}) \<inter> trie_nodes toy_hash toy_trie. length e \<le> max_bytes" using toy_sizes by blast
  ultimately have "trie_lookup toy_trie (take 2 (nibs [0x12])) = (WALK_INCLUDED, if WALK_INCLUDED = WALK_INCLUDED then seg off n node else [])"
    by (intro mpt_walk_sound [where K = toy_hash, OF length_toy_hash toy_wf _ key init walk open_w last st _ inj])
  then
  have "seg off n node = replicate 40 7" unfolding toy_lookup by simp
  with init walk last st show ?thesis by blast
qed

text \<open>
C3: completeness of the walk. For every well-formed trie and every key the list of the
trie's own hashed nodes on the path of the key is one on which the walk never fails (no assertion, no AVM panic, no inline-depth
limit) and ends in the terminal status of the abstract lookup, with the value's span when the key
is present. The nodes on that path, and only they, must have at most 4,096 bytes.
\<close>

theorem mpt_walk_complete:
  assumes K: "\<And>x. length (K x) = 32" and wf: "wf_trie T" "T \<noteq> TNull"
    and sz: "\<forall>e\<in>set (path_nodes K T (take kn (nibs key))). length e \<le> max_bytes"
    and key: "length key \<le> 32" "kn \<le> 2 * length key"
    and init: "mpt_init_state (K (node_enc K T)) key kn = Inr w0"
  shows "\<exists>nodes node w w' off n. set nodes \<union> {node} \<subseteq> trie_nodes K T \<and>
    walk_nodes K w0 nodes = Inr w \<and> mpt_walk_node K node w = Inr (w', off, n) \<and>
    walk_nodes K w0 (nodes @ [node]) = Inr w' \<and>
    w_status w' = Inr (fst (trie_lookup T (take kn (nibs key)))) \<and>
    snd (trie_lookup T (take kn (nibs key))) =
      (if fst (trie_lookup T (take kn (nibs key))) = WALK_INCLUDED then seg off n node else []) \<and>
    nodes @ [node] = path_nodes K T (take kn (nibs key))"
  using assms by (intro walk_complete_core) auto

theorem mpt_walk_complete_witness:
  "\<exists>nodes w0 w'. mpt_init_state (toy_hash (node_enc toy_hash toy_trie)) [0x12] 2 = Inr w0 \<and>
     walk_nodes toy_hash w0 nodes = Inr w' \<and> w_status w' = Inr WALK_INCLUDED"
proof -
  obtain w0 where init: "mpt_init_state (toy_hash (node_enc toy_hash toy_trie)) [0x12] 2 = Inr w0"
    by (simp add: mpt_init_state_encode)
  have key: "length [0x12 :: byte] \<le> 32" "2 \<le> 2 * length [0x12 :: byte]" by simp_all
  from mpt_walk_complete [where K = toy_hash, OF length_toy_hash toy_wf toy_path_sizes key init] init
  show ?thesis by (auto simp only: toy_lookup fst_conv)
qed

text \<open>
A proof is unique. Two lists of node arguments that both lead the driver from the same walk
state to a terminal status are the same list and give the same final state: no second proof with
other nodes, more nodes or another verdict exists, whatever the root commits to.
\<close>

theorem mpt_walk_proof_unique:
  assumes "walk_nodes K w0 ns = Inr w" and "walk_nodes K w0 ms = Inr v"
    and "w_status w \<noteq> Inr WALK_CONTINUE" and "w_status v \<noteq> Inr WALK_CONTINUE"
    and "inj_on K (set ns \<union> set ms)"
  shows "ns = ms \<and> w = v"
  using terminal_unique [of K w0 ns w ms v] assms by (simp add: walk_nodes_reaches)

theorem mpt_walk_proof_unique_witness:
  "\<exists>w0 ns w ms v. mpt_init_state (toy_hash (node_enc toy_hash toy_trie)) [0x12] 2 = Inr w0 \<and>
     walk_nodes toy_hash w0 ns = Inr w \<and> w_status w = Inr WALK_INCLUDED \<and>
     walk_nodes toy_hash w0 ms = Inr v \<and> w_status v = Inr WALK_INCLUDED \<and> ns = ms \<and> w = v"
proof -
  obtain w0 where init: "mpt_init_state (toy_hash (node_enc toy_hash toy_trie)) [0x12] 2 = Inr w0"
    by (simp add: mpt_init_state_encode)
  have key: "length [0x12 :: byte] \<le> 32" "2 \<le> 2 * length [0x12 :: byte]" by simp_all
  from walk_complete_core [where K = toy_hash, OF length_toy_hash toy_wf toy_path_sizes key init] obtain nodes node w'
    where sub: "set nodes \<union> {node} \<subseteq> trie_nodes toy_hash toy_trie"
      and walk: "walk_nodes toy_hash w0 (nodes @ [node]) = Inr w'" and st: "w_status w' = Inr WALK_INCLUDED"
    by (auto simp only: toy_lookup fst_conv)
  have "w_status w' \<noteq> Inr WALK_CONTINUE" using st by (simp add: walk_status_defs)
  moreover have "inj_on toy_hash (set (nodes @ [node]) \<union> set (nodes @ [node]))"
    using toy_inj by (rule inj_on_subset) (use sub in auto)
  ultimately show ?thesis using mpt_walk_proof_unique [OF walk walk] init walk st by blast
qed

section \<open>RLP\<close>

text \<open>
C4: decoding inverts encoding. On the RLP encoding of a list of items, anywhere inside a buffer of
at most 4096 bytes, the span scan succeeds with the right arity, and both the table lookup and the
early-exit lookup of item \<open>i\<close> return exactly the span (content offset, content length, kind) of
that item.
\<close>

theorem rlp_decode_encode:
  assumes "data = pre @ rlp_enc (RList xs) @ post" and "length data \<le> max_bytes"
    and "length xs \<le> mx" "2 * mx + 2 \<le> max_bytes" and "i < length xs"
  defines "pos \<equiv> length pre + length (enc_prefix 0xC0 (length (concat (map rlp_enc xs))))
      + length (concat (map rlp_enc (take i xs)))"
  shows "\<exists>table. rlp_scan_n data (length pre) mx = Inr (table, length xs) \<and>
     rlp_table_item data table i = Inr (rlp_span pos (xs ! i)) \<and>
     rlp_scan_upto data (length pre) i = Inr (rlp_span pos (xs ! i))"
  unfolding pos_def by (rule rlp_scan_n_item_enc [OF assms(1-5)])

theorem rlp_decode_encode_witness:
  "\<exists>table. rlp_scan_n [0xC3, 1, 0x81, 0x90] 0 17 = Inr (table, 2) \<and>
     rlp_table_item [0xC3, 1, 0x81, 0x90] table 1 = Inr (3, 1, KIND_STR) \<and>
     rlp_scan_upto [0xC3, 1, 0x81, 0x90] 0 1 = Inr (3, 1, KIND_STR)"
proof -
  have "\<exists>table. rlp_scan_n [0xC3, 1, 0x81, 0x90] 0 17 = Inr (table, Suc (Suc 0)) \<and>
     rlp_table_item [0xC3, 1, 0x81, 0x90] table (Suc 0) = Inr (Suc (Suc (Suc 0)), Suc 0, KIND_STR) \<and>
     rlp_scan_upto [0xC3, 1, 0x81, 0x90] 0 (Suc 0) = Inr (Suc (Suc (Suc 0)), Suc 0, KIND_STR)"
    using rlp_decode_encode [of "[0xC3, 1, 0x81, 0x90]" "[]" "[RStr [1], RStr [0x90]]" "[]" 17 1]
    by (simp add: enc_prefix_def Let_def max_bytes_def)
  then show ?thesis by (simp only: numeral_2_eq_2 numeral_3_eq_3 One_nat_def)
qed

text \<open>
The two retrieval paths agree on every buffer. Whenever the single-pass scan accepts a list of
a buffer shorter than 65536 bytes, the table lookup of any item in range and the early-exit walk to
that item return the same result, error or span, whatever the bytes are.
\<close>

theorem rlp_retrieval_paths_agree:
  assumes "rlp_scan_n data start mx = Inr (table, n)" and "i < n" and "length data < 65536"
  shows "rlp_table_item data table i = rlp_scan_upto data start i"
  by (rule rlp_table_item_scan_upto [OF assms])

theorem rlp_retrieval_paths_agree_witness:
  "\<exists>table. rlp_scan_n [0xC3, 1, 0x81, 0x90] 0 17 = Inr (table, 2) \<and>
     rlp_table_item [0xC3, 1, 0x81, 0x90] table 1 = rlp_scan_upto [0xC3, 1, 0x81, 0x90] 0 1"
proof -
  have "\<exists>table. rlp_scan_n [0xC3, 1, 0x81, 0x90] 0 17 = Inr (table, 2)"
    using rlp_scan_n_item_enc [of "[0xC3, 1, 0x81, 0x90]" "[]" "[RStr [1], RStr [0x90]]" "[]" 17 1]
    by (auto simp: enc_prefix_def Let_def max_bytes_def)
  then show ?thesis using rlp_retrieval_paths_agree [of "[0xC3, 1, 0x81, 0x90]" 0 17 _ 2 1] by auto
qed

section \<open>Nibble paths\<close>

text \<open>
The nibble comparison, with its byte-aligned fast path, odd-lead peel, odd-tail case and
misaligned loop, computes equality of the two nibble ranges for every pair of start offsets and
every count that stays inside the two buffers.
\<close>

theorem nibbles_equal_reference:
  assumes "a_nib + n \<le> 2 * length a" and "b_nib + n \<le> 2 * length b"
    and "length a \<le> max_bytes" and "length b \<le> max_bytes"
  shows "nibbles_equal a a_nib b b_nib n = Inr (seg a_nib n (nibs a) = seg b_nib n (nibs b))"
  by (rule nibbles_equal_correct [OF assms])

theorem nibbles_equal_reference_witness:
  "nibbles_equal [0x12, 0x34] 1 [0xA2, 0x3B] 1 2 = Inr True \<and>
   nibbles_equal [0x12, 0x34] 0 [0xA1, 0x2B] 1 2 = Inr True"
  using nibbles_equal_reference [of 1 2 "[0x12, 0x34]" 1 "[0xA2, 0x3B]"]
    nibbles_equal_reference [of 0 2 "[0x12, 0x34]" 1 "[0xA1, 0x2B]"]
  by (simp add: max_bytes_def seg_def)

text \<open>
Hex-prefix round trip. Decoding the hex-prefix encoding of a nibble path, anywhere inside a
buffer, returns its leaf flag, its length and the absolute nibble index at which exactly the path's
nibbles stand.
\<close>

theorem hp_decode_roundtrip:
  assumes "data = pre @ hp_encode leaf path @ post" and "\<forall>x\<in>set path. x < 16"
    and "leaf \<or> path \<noteq> []" and "length data \<le> max_bytes"
  shows "\<exists>k. hp_decode data (length pre) (length (hp_encode leaf path)) = Inr (leaf, length path, k) \<and>
    k + length path \<le> 2 * length data \<and> seg k (length path) (nibs data) = path"
  by (rule hp_decode_encode [OF assms])

theorem hp_decode_roundtrip_witness:
  "\<exists>k. hp_decode [0xFF, 0x3A, 0xBC] 1 2 = Inr (True, 3, k) \<and> seg k 3 (nibs [0xFF, 0x3A, 0xBC]) = [10, 11, 12]"
proof -
  have "\<exists>k. hp_decode [0xFF, 0x3A, 0xBC] (Suc 0) (Suc (Suc 0)) = Inr (True, Suc (Suc (Suc 0)), k) \<and>
      seg k (Suc (Suc (Suc 0))) (nibs [0xFF, 0x3A, 0xBC]) = [10, 11, 12]"
    using hp_decode_roundtrip [of "[0xFF, 0x3A, 0xBC]" "[0xFF]" True "[10, 11, 12]" "[]"]
    by (auto simp: hp_encode_def max_bytes_def)
  then show ?thesis by (simp only: numeral_2_eq_2 numeral_3_eq_3 One_nat_def)
qed

end
