(* ===== verification/SSZ_Merkle.thy ===== *)
theory SSZ_Merkle
  imports AVM
begin

text \<open>
  SSZ Merkle-branch verification, \<open>contracts/primitives/ssz/merkle.py\<close>. SHA-256 is an AVM
  opcode and enters as the parameter \<open>H\<close>. A bounded \<open>urange\<close> loop counts its index up while the
  number of iterations left counts down. The reference is a fold over the list of siblings and,
  above it, a Merkle tree with its generalized indices.
\<close>

section \<open>The verifier\<close>

fun branch_fold :: "(bytes \<Rightarrow> bytes) \<Rightarrow> bytes \<Rightarrow> nat \<Rightarrow> nat \<Rightarrow> nat \<Rightarrow> bytes \<Rightarrow> bytes res" where
  "branch_fold H branch gindex i 0 node = Inr node"
| "branch_fold H branch gindex i (Suc k) node =
     (let offset = i * 32; sibling = bslice branch offset (offset + 32) in
      rbind (getbit_u gindex i) (\<lambda>b.
      rbind (if b \<noteq> 0 then bconcat sibling node else bconcat node sibling) (\<lambda>x.
      branch_fold H branch gindex (i + 1) k (H x))))"

definition compute_merkle_branch_root :: "(bytes \<Rightarrow> bytes) \<Rightarrow> bytes \<Rightarrow> bytes \<Rightarrow> nat \<Rightarrow> bytes res" where
  "compute_merkle_branch_root H leaf branch gindex =
     check (length leaf = 32) ''leaf must be 32 bytes'' (
     check (1 \<le> gindex) ''gindex must be >= 1 (gindex == 0 is invalid)'' (
     let bitlen_gindex = bitlen gindex in
     check (bitlen_gindex \<le> 62) ''gindex exceeds supported depth (depth <= 61)'' (
     rbind (usub bitlen_gindex 1) (\<lambda>depth.
     check (length branch mod 32 = 0) ''branch length must be a multiple of 32'' (
     check (length branch div 32 = depth) ''branch length must equal depth exactly'' (
     branch_fold H branch gindex 0 depth leaf))))))"

definition assert_valid_merkle_branch ::
  "(bytes \<Rightarrow> bytes) \<Rightarrow> bytes \<Rightarrow> bytes \<Rightarrow> nat \<Rightarrow> bytes \<Rightarrow> unit res" where
  "assert_valid_merkle_branch H leaf branch gindex expected_root =
     check (length expected_root = 32) ''expected_root must be 32 bytes'' (
     rbind (compute_merkle_branch_root H leaf branch gindex) (\<lambda>root.
     check (root = expected_root) ''merkle branch does not fold to expected root'' (Inr ())))"

definition zero32 :: bytes where
  "zero32 = replicate 32 0"

fun padding_loop :: "bytes \<Rightarrow> nat \<Rightarrow> nat \<Rightarrow> unit res" where
  "padding_loop branch i 0 = Inr ()"
| "padding_loop branch i (Suc k) =
     (let offset = i * 32 in
      check (bslice branch offset (offset + 32) = zero32)
        ''non-zero byte in normalized-branch padding slot''
        (padding_loop branch (i + 1) k))"

definition assert_valid_normalized_merkle_branch ::
  "(bytes \<Rightarrow> bytes) \<Rightarrow> bytes \<Rightarrow> bytes \<Rightarrow> nat \<Rightarrow> bytes \<Rightarrow> unit res" where
  "assert_valid_normalized_merkle_branch H leaf branch gindex expected_root =
     check (1 \<le> gindex) ''gindex must be >= 1 (gindex == 0 is invalid)'' (
     let bitlen_gindex = bitlen gindex in
     check (bitlen_gindex \<le> 62) ''gindex exceeds supported depth (depth <= 61)'' (
     rbind (usub bitlen_gindex 1) (\<lambda>depth.
     check (length branch mod 32 = 0) ''branch length must be a multiple of 32'' (
     let total_slots = length branch div 32 in
     check (depth \<le> total_slots) ''branch shorter than depth'' (
     rbind (usub total_slots depth) (\<lambda>num_extra.
     rbind (padding_loop branch 0 num_extra) (\<lambda>_.
     let real_branch = bslice branch (num_extra * 32) (length branch) in
     assert_valid_merkle_branch H leaf real_branch gindex expected_root)))))))"

section \<open>Reference: folding a list of siblings\<close>

fun chunks32 :: "bytes \<Rightarrow> nat \<Rightarrow> bytes list" where
  "chunks32 xs 0 = []"
| "chunks32 xs (Suc n) = seg 0 32 xs # chunks32 (drop 32 xs) n"

text \<open>The consensus specification's fold: bit \<open>i\<close> of the index tells which side the node is on.\<close>

fun fold_sibs :: "(bytes \<Rightarrow> bytes) \<Rightarrow> bytes \<Rightarrow> bytes list \<Rightarrow> nat \<Rightarrow> bytes" where
  "fold_sibs H node [] g = node"
| "fold_sibs H node (s # ss) g =
     fold_sibs H (if odd g then H (s @ node) else H (node @ s)) ss (g div 2)"

text \<open>The messages the fold hashes.\<close>

fun fold_msgs :: "(bytes \<Rightarrow> bytes) \<Rightarrow> bytes \<Rightarrow> bytes list \<Rightarrow> nat \<Rightarrow> bytes list" where
  "fold_msgs H node [] g = []"
| "fold_msgs H node (s # ss) g =
     (let m = (if odd g then s @ node else node @ s) in m # fold_msgs H (H m) ss (g div 2))"

lemma length_chunks32 [simp]: "length (chunks32 xs n) = n"
  by (induction n arbitrary: xs) auto

lemma chunks32_nth: "i < n \<Longrightarrow> chunks32 xs n ! i = seg (32 * i) 32 xs"
proof (induction n arbitrary: xs i)
  case 0
  then show ?case by simp
next
  case (Suc n)
  then show ?case by (cases i) (auto simp: seg_def drop_drop add.commute)
qed

lemma chunks32_len: "length xs = 32 * n \<Longrightarrow> c \<in> set (chunks32 xs n) \<Longrightarrow> length c = 32"
proof (induction n arbitrary: xs)
  case 0
  then show ?case by simp
next
  case (Suc n)
  then show ?case using Suc.IH [of "drop 32 xs"] by auto
qed

lemma concat_chunks32: "length xs = 32 * n \<Longrightarrow> concat (chunks32 xs n) = xs"
proof (induction n arbitrary: xs)
  case 0
  then show ?case by simp
next
  case (Suc n)
  then show ?case using Suc.IH [of "drop 32 xs"] by (simp add: seg_def)
qed

lemma branch_fold_eq:
  assumes "length branch = 32 * (i + k)" and "length node = 32" and H: "\<And>x. length (H x) = 32"
    and "i + k \<le> 64"
  shows "branch_fold H branch g i k node =
    Inr (fold_sibs H node (chunks32 (drop (32 * i) branch) k) (g div 2 ^ i))"
  using assms(1,2,4)
proof (induction k arbitrary: i node)
  case 0
  then show ?case by simp
next
  case (Suc k)
  let ?s = "seg 0 32 (drop (32 * i) branch)"
  have s: "bslice branch (i * 32) (i * 32 + 32) = ?s"
    by (simp add: bslice_def seg_def mult.commute)
  have ls: "length ?s = 32" using Suc.prems by simp
  have d: "drop 32 (drop (32 * i) branch) = drop (32 * (i + 1)) branch"
    by (simp add: drop_drop add.commute)
  have g: "g div 2 ^ i div 2 = g div 2 ^ (i + 1)" by (simp flip: div_mult2_eq add: mult.commute)
  have bit: "getbit_u g i = Inr (g div 2 ^ i mod 2)" using Suc.prems by (simp add: getbit_u_def)
  have cat: "bconcat ?s node = Inr (?s @ node)" "bconcat node ?s = Inr (node @ ?s)"
    using ls Suc.prems by (auto simp: bconcat_def max_bytes_def)
  have IH: "\<And>x. branch_fold H branch g (i + 1) k (H x) =
      Inr (fold_sibs H (H x) (chunks32 (drop (32 * (i + 1)) branch) k) (g div 2 ^ (i + 1)))"
    using Suc.prems by (intro Suc.IH) (auto simp: H)
  show ?case
  proof (cases "odd (g div 2 ^ i)")
    case True
    then have "g div 2 ^ i mod 2 = 1" by presburger
    then show ?thesis using True IH by (simp add: Let_def s bit cat d g del: power_Suc)
  next
    case False
    then have "g div 2 ^ i mod 2 = 0" by presburger
    then show ?thesis using False IH by (simp add: Let_def s bit cat d g del: power_Suc)
  qed
qed

text \<open>The depth of a generalized index and the exact domain on which the fold succeeds.\<close>

definition gdepth :: "nat \<Rightarrow> nat" where
  "gdepth g = bitlen g - 1"

lemma bitlen_ge1: "1 \<le> g \<Longrightarrow> 1 \<le> bitlen g"
  by (simp add: bitlen_pos)

lemma compute_root_eq:
  assumes H: "\<And>x. length (H x) = 32"
  shows "compute_merkle_branch_root H leaf branch g = Inr r \<longleftrightarrow>
    length leaf = 32 \<and> 1 \<le> g \<and> bitlen g \<le> 62 \<and> length branch = 32 * gdepth g \<and>
    r = fold_sibs H leaf (chunks32 branch (gdepth g)) g"
proof -
  have "length branch mod 32 = 0 \<and> length branch div 32 = n \<longleftrightarrow> length branch = 32 * n" for n
    by auto
  moreover have "branch_fold H branch g 0 (gdepth g) leaf =
      Inr (fold_sibs H leaf (chunks32 branch (gdepth g)) g)"
    if "length leaf = 32" "length branch = 32 * gdepth g" "bitlen g \<le> 62"
    using branch_fold_eq [of branch 0 "gdepth g" leaf H g] that H by (simp add: gdepth_def)
  ultimately show ?thesis
    unfolding compute_merkle_branch_root_def gdepth_def
    using bitlen_ge1 [of g] by (auto simp: res_simps Let_def)
qed

lemma assert_valid_eq:
  assumes H: "\<And>x. length (H x) = 32"
  shows "assert_valid_merkle_branch H leaf branch g root = Inr u \<longleftrightarrow>
    length leaf = 32 \<and> 1 \<le> g \<and> bitlen g \<le> 62 \<and> length branch = 32 * gdepth g \<and>
    length root = 32 \<and> fold_sibs H leaf (chunks32 branch (gdepth g)) g = root"
  by (auto simp: assert_valid_merkle_branch_def res_simps compute_root_eq [OF H])

lemma padding_loop_ok:
  "padding_loop branch i k = Inr u \<longleftrightarrow> (\<forall>j<k. seg (32 * (i + j)) 32 branch = zero32)"
proof (induction k arbitrary: i)
  case 0
  then show ?case by simp
next
  case (Suc k)
  have "(\<forall>j<Suc k. P (i + j)) \<longleftrightarrow> P i \<and> (\<forall>j<k. P (Suc i + j))" for P :: "nat \<Rightarrow> bool"
    by (auto simp: less_Suc_eq_0_disj)
  from this [of "\<lambda>j. seg (32 * j) 32 branch = zero32"]
  have "(\<forall>j<Suc k. seg (32 * (i + j)) 32 branch = zero32) \<longleftrightarrow>
      seg (32 * i) 32 branch = zero32 \<and> (\<forall>j<k. seg (32 * (Suc i + j)) 32 branch = zero32)" .
  then show ?case using Suc [of "Suc i"]
    by (simp add: Let_def res_simps bslice_def mult.commute)
qed

lemma length_zero32 [simp]: "length zero32 = 32"
  by (simp add: zero32_def)

lemma concat_replicate_zero32: "concat (replicate k zero32) = replicate (32 * k) 0"
  by (induction k) (auto simp: zero32_def replicate_add [symmetric] add.commute)

lemma zero_chunks_iff:
  assumes "32 * k \<le> length xs"
  shows "(\<forall>j<k. seg (32 * j) 32 xs = zero32) \<longleftrightarrow> take (32 * k) xs = replicate (32 * k) 0"
proof -
  let ?ys = "take (32 * k) xs"
  have len: "length ?ys = 32 * k" using assms by simp
  have eq: "seg (32 * j) 32 xs = chunks32 ?ys k ! j" if "j < k" for j
  proof -
    have "seg (32 * j) 32 ?ys = seg (32 * j) 32 xs"
      using that by (simp add: seg_def drop_take min_absorb1)
    then show ?thesis using that by (simp add: chunks32_nth)
  qed
  have "(\<forall>j<k. seg (32 * j) 32 xs = zero32) \<longleftrightarrow> chunks32 ?ys k = replicate k zero32"
    using eq by (auto simp: list_eq_iff_nth_eq)
  also have "\<dots> \<longleftrightarrow> ?ys = concat (replicate k zero32)"
  proof
    assume "chunks32 ?ys k = replicate k zero32"
    then show "?ys = concat (replicate k zero32)" using concat_chunks32 [OF len] by simp
  next
    assume a: "?ys = concat (replicate k zero32)"
    show "chunks32 ?ys k = replicate k zero32"
    proof (rule nth_equalityI)
      fix j assume "j < length (chunks32 ?ys k)"
      then have j: "j < k" by simp
      then have "32 * j + 32 \<le> 32 * k" by simp
      then have "seg (32 * j) 32 (replicate (32 * k) 0) = zero32"
        by (simp add: seg_def zero32_def min_def)
      with j a show "chunks32 ?ys k ! j = replicate k zero32 ! j"
        by (simp add: chunks32_nth concat_replicate_zero32)
    qed simp
  qed
  finally show ?thesis by (simp add: concat_replicate_zero32)
qed

text \<open>
  A normalized branch is accepted exactly when it is a zero prefix followed by a strict branch
  that folds to the root.
\<close>

lemma assert_normalized_eq:
  assumes H: "\<And>x. length (H x) = 32"
  shows "assert_valid_normalized_merkle_branch H leaf branch g root = Inr u \<longleftrightarrow>
    length leaf = 32 \<and> 1 \<le> g \<and> bitlen g \<le> 62 \<and> length root = 32 \<and>
    (\<exists>m real. branch = replicate (32 * m) 0 @ real \<and> length real = 32 * gdepth g \<and>
       fold_sibs H leaf (chunks32 real (gdepth g)) g = root)"
    (is "?lhs \<longleftrightarrow> ?rhs")
proof
  assume ?lhs
  let ?m = "length branch div 32 - gdepth g"
  from \<open>?lhs\<close> have a: "1 \<le> g" "bitlen g \<le> 62" "length branch mod 32 = 0"
      "gdepth g \<le> length branch div 32" "padding_loop branch 0 ?m = Inr ()"
      "assert_valid_merkle_branch H leaf (bslice branch (?m * 32) (length branch)) g root = Inr u"
    by (auto simp: assert_valid_normalized_merkle_branch_def res_simps Let_def gdepth_def)
  have "32 * ?m \<le> length branch" using a(3) by auto
  then have "take (32 * ?m) branch = replicate (32 * ?m) 0"
    using a(5) by (simp add: padding_loop_ok zero_chunks_iff)
  moreover have "bslice branch (?m * 32) (length branch) = drop (32 * ?m) branch"
    by (simp add: bslice_def seg_def mult.commute)
  ultimately have "branch = replicate (32 * ?m) 0 @ bslice branch (?m * 32) (length branch)"
    by (metis append_take_drop_id)
  with a show ?rhs by (auto simp: assert_valid_eq [OF H])
next
  assume ?rhs
  then obtain m real where r: "branch = replicate (32 * m) 0 @ real" "length real = 32 * gdepth g"
      "fold_sibs H leaf (chunks32 real (gdepth g)) g = root"
      "length leaf = 32" "1 \<le> g" "bitlen g \<le> 62" "length root = 32" by auto
  have len: "length branch = 32 * (m + gdepth g)" using r by simp
  then have dv: "length branch div 32 = m + gdepth g" "length branch mod 32 = 0" by auto
  have "padding_loop branch 0 m = Inr ()"
    using zero_chunks_iff [of m branch] len by (simp add: padding_loop_ok r(1))
  moreover have "bslice branch (m * 32) (length branch) = real"
    by (simp add: bslice_def seg_def r(1))
  moreover have "assert_valid_merkle_branch H leaf real g root = Inr u"
    using r by (simp add: assert_valid_eq [OF H])
  ultimately show ?lhs using r(5,6) dv bitlen_ge1 [OF r(5)]
    by (simp add: assert_valid_normalized_merkle_branch_def usub_def Let_def gdepth_def)
qed

section \<open>Binding\<close>

lemma fold_sibs_binding:
  assumes "fold_sibs H a ss g = fold_sibs H b ts g" and "length ss = length ts"
    and "length a = length b" and "\<forall>s\<in>set ss \<union> set ts. length s = n" and "length a = n"
    and "\<And>x. length (H x) = n"
    and "inj_on H (set (fold_msgs H a ss g) \<union> set (fold_msgs H b ts g))"
  shows "a = b \<and> ss = ts"
  using assms
proof (induction ss arbitrary: a b ts g)
  case Nil
  then show ?case by simp
next
  case (Cons s ss)
  from Cons.prems(2) obtain t ts' where ts: "ts = t # ts'" by (cases ts) auto
  let ?m = "\<lambda>s a. if odd g then s @ a else a @ s"
  have "H (?m s a) = H (?m t b) \<and> ss = ts'"
  proof (rule Cons.IH [of _ "g div 2"])
    show "fold_sibs H (H (?m s a)) ss (g div 2) = fold_sibs H (H (?m t b)) ts' (g div 2)"
      using Cons.prems(1) by (simp add: ts split: if_splits)
    show "inj_on H (set (fold_msgs H (H (?m s a)) ss (g div 2))
        \<union> set (fold_msgs H (H (?m t b)) ts' (g div 2)))"
      using Cons.prems(7) by (rule inj_on_subset) (auto simp: ts Let_def)
    show "length ss = length ts'" using Cons.prems(2) by (simp add: ts)
    show "\<forall>s\<in>set ss \<union> set ts'. length s = n" using Cons.prems(4) by (simp add: ts)
  qed (simp_all only: Cons.prems(6))
  moreover have "?m s a \<in> set (fold_msgs H a (s # ss) g)" "?m t b \<in> set (fold_msgs H b ts g)"
    by (simp_all add: ts Let_def)
  ultimately have "?m s a = ?m t b" "ss = ts'"
    using inj_onD [OF Cons.prems(7)] by blast+
  moreover have "length s = n" "length t = n" using Cons.prems(4) by (simp_all add: ts)
  ultimately show ?case using Cons.prems(3,5) by (simp add: ts split: if_splits)
qed

end
