(* ===== verification/SSZ_Tree.thy ===== *)
theory SSZ_Tree
  imports SSZ_Merkle
begin

text \<open>
  Merkle trees addressed by generalized indices, the meaning of a branch proof: what the
  verifier of \<open>SSZ_Merkle\<close> accepts against the root of a tree is exactly the subtree root at the
  index, with exactly the siblings of that tree.
\<close>

datatype mtree = MLeaf bytes | MNode mtree mtree

fun tree_root :: "(bytes \<Rightarrow> bytes) \<Rightarrow> mtree \<Rightarrow> bytes" where
  "tree_root H (MLeaf b) = b"
| "tree_root H (MNode l r) = H (tree_root H l @ tree_root H r)"

fun wf_tree :: "mtree \<Rightarrow> bool" where
  "wf_tree (MLeaf b) = (length b = 32)"
| "wf_tree (MNode l r) = (wf_tree l \<and> wf_tree r)"

text \<open>The node at a generalized index: 1 is the root, \<open>2 * g\<close> and \<open>2 * g + 1\<close> its children.\<close>

fun node_at :: "mtree \<Rightarrow> nat \<Rightarrow> mtree option" where
  "node_at t g =
     (if g \<le> 1 then Some t
      else case node_at t (g div 2) of
             Some (MNode l r) \<Rightarrow> Some (if odd g then r else l)
           | _ \<Rightarrow> None)"

declare node_at.simps [simp del]

fun tree_sibs :: "(bytes \<Rightarrow> bytes) \<Rightarrow> mtree \<Rightarrow> nat \<Rightarrow> bytes list" where
  "tree_sibs H t g =
     (if g \<le> 1 then []
      else (case node_at t (g div 2) of
              Some (MNode l r) \<Rightarrow> tree_root H (if odd g then l else r)
            | _ \<Rightarrow> []) # tree_sibs H t (g div 2))"

declare tree_sibs.simps [simp del]

lemma length_tree_root: "wf_tree t \<Longrightarrow> (\<And>x. length (H x) = 32) \<Longrightarrow> length (tree_root H t) = 32"
  by (cases t) auto

lemma node_at_1: "g \<le> 1 \<Longrightarrow> node_at t g = Some t"
  by (simp add: node_at.simps)

lemma tree_sibs_1: "g \<le> 1 \<Longrightarrow> tree_sibs H t g = []"
  by (simp add: tree_sibs.simps)

lemma node_at_step:
  assumes "1 < g" and "node_at t g = Some u"
  obtains l r where "node_at t (g div 2) = Some (MNode l r)" "u = (if odd g then r else l)"
    "tree_sibs H t g = tree_root H (if odd g then l else r) # tree_sibs H t (g div 2)"
  using assms by (auto simp: node_at.simps [of t g] tree_sibs.simps [of H t g] split: option.splits mtree.splits)

lemma wf_node_at: "wf_tree t \<Longrightarrow> node_at t g = Some u \<Longrightarrow> wf_tree u"
proof (induction t g arbitrary: u rule: node_at.induct)
  case (1 t g)
  show ?case
  proof (cases "g \<le> 1")
    case True
    then show ?thesis using 1 by (simp add: node_at_1)
  next
    case False
    then have g: "1 < g" by simp
    obtain l r where lr: "node_at t (g div 2) = Some (MNode l r)" "u = (if odd g then r else l)"
      by (rule node_at_step [OF g 1(3)])
    have "wf_tree (MNode l r)" using 1(1) False 1(2) lr(1) by blast
    with lr(2) show ?thesis by simp
  qed
qed

lemma bitlen_div2: "1 < g \<Longrightarrow> gdepth g = Suc (gdepth (g div 2))"
  by (cases "g div 2 = 0") (auto simp: gdepth_def bitlen_pos)

lemma length_tree_sibs: "1 \<le> g \<Longrightarrow> length (tree_sibs H t g) = gdepth g"
proof (induction H t g rule: tree_sibs.induct)
  case (1 H t g)
  show ?case
  proof (cases "g \<le> 1")
    case True
    with 1 have "g = 1" by simp
    then show ?thesis by (simp add: tree_sibs.simps gdepth_def bitlen_pos)
  next
    case False
    then have "1 \<le> g div 2" by simp
    with 1 False show ?thesis by (simp add: tree_sibs.simps [of H t g] bitlen_div2)
  qed
qed

text \<open>Completeness: the tree's own siblings fold to its root.\<close>

lemma fold_tree_sibs:
  "1 \<le> g \<Longrightarrow> node_at t g = Some u \<Longrightarrow> fold_sibs H (tree_root H u) (tree_sibs H t g) g = tree_root H t"
proof (induction H t g arbitrary: u rule: tree_sibs.induct)
  case (1 H t g)
  show ?case
  proof (cases "g \<le> 1")
    case True
    then show ?thesis using 1 by (simp add: node_at_1 tree_sibs_1)
  next
    case False
    then have g: "1 < g" "1 \<le> g div 2" by auto
    obtain l r where lr: "node_at t (g div 2) = Some (MNode l r)" "u = (if odd g then r else l)"
        "tree_sibs H t g = tree_root H (if odd g then l else r) # tree_sibs H t (g div 2)"
      by (rule node_at_step [OF g(1) 1(3)])
    have "fold_sibs H (tree_root H (MNode l r)) (tree_sibs H t (g div 2)) (g div 2) = tree_root H t"
      by (rule 1(1) [OF False g(2) lr(1)])
    then show ?thesis by (cases "odd g") (simp_all add: lr)
  qed
qed

lemma tree_sibs_len:
  "wf_tree t \<Longrightarrow> 1 \<le> g \<Longrightarrow> node_at t g = Some u \<Longrightarrow> (\<And>x. length (H x) = 32) \<Longrightarrow>
   s \<in> set (tree_sibs H t g) \<Longrightarrow> length s = 32"
proof (induction H t g arbitrary: u rule: tree_sibs.induct)
  case (1 H t g)
  show ?case
  proof (cases "g \<le> 1")
    case True
    then show ?thesis using 1 by (simp add: tree_sibs_1)
  next
    case False
    then have g: "1 < g" "1 \<le> g div 2" by auto
    obtain l r where lr: "node_at t (g div 2) = Some (MNode l r)" "u = (if odd g then r else l)"
        "tree_sibs H t g = tree_root H (if odd g then l else r) # tree_sibs H t (g div 2)"
      by (rule node_at_step [OF g(1) 1(4)])
    have w: "wf_tree (MNode l r)" by (rule wf_node_at [OF 1(2) lr(1)])
    consider "s = tree_root H (if odd g then l else r)" | "s \<in> set (tree_sibs H t (g div 2))"
      using 1(6) lr(3) by auto
    then show ?thesis
    proof cases
      case 1
      then show ?thesis using w length_tree_root [of l H] length_tree_root [of r H] \<open>\<And>x. length (H x) = 32\<close>
        by (cases "odd g") auto
    next
      case 2
      show ?thesis by (rule 1(1) [OF False 1(2) g(2) lr(1) 1(5) 2])
    qed
  qed
qed

lemma chunks32_concat: "\<forall>s\<in>set ss. length s = 32 \<Longrightarrow> chunks32 (concat ss) (length ss) = ss"
  by (induction ss) (auto simp: seg_def)

lemma concat_len32: "\<forall>s\<in>set ss. length s = 32 \<Longrightarrow> length (concat ss) = 32 * length ss"
  by (induction ss) auto

text \<open>The messages hashed by one run on the supplied siblings and by the genuine branch.\<close>

definition branch_msgs :: "(bytes \<Rightarrow> bytes) \<Rightarrow> mtree \<Rightarrow> mtree \<Rightarrow> bytes \<Rightarrow> bytes \<Rightarrow> nat \<Rightarrow> bytes set" where
  "branch_msgs H t u leaf real g =
     set (fold_msgs H leaf (chunks32 real (gdepth g)) g) \<union>
     set (fold_msgs H (tree_root H u) (tree_sibs H t g) g)"

lemma fold_iff_tree:
  assumes H: "\<And>x. length (H x) = 32" and wf: "wf_tree t" and g: "1 \<le> g" and u: "node_at t g = Some u"
    and len: "length leaf = 32" "length real = 32 * gdepth g"
    and inj: "inj_on H (branch_msgs H t u leaf real g)"
  shows "fold_sibs H leaf (chunks32 real (gdepth g)) g = tree_root H t \<longleftrightarrow>
    leaf = tree_root H u \<and> real = concat (tree_sibs H t g)"
proof
  note sl = tree_sibs_len [OF wf g u H]
  have ru: "length (tree_root H u) = 32" by (rule length_tree_root [OF wf_node_at [OF wf u] H])
  {
    assume "fold_sibs H leaf (chunks32 real (gdepth g)) g = tree_root H t"
    then have eq: "fold_sibs H leaf (chunks32 real (gdepth g)) g =
        fold_sibs H (tree_root H u) (tree_sibs H t g) g"
      by (simp add: fold_tree_sibs [OF g u])
    have "leaf = tree_root H u \<and> chunks32 real (gdepth g) = tree_sibs H t g"
      using inj unfolding branch_msgs_def
      by (intro fold_sibs_binding [OF eq, of 32])
        (auto simp: length_tree_sibs [OF g] len ru H sl chunks32_len [OF len(2)])
    then show "leaf = tree_root H u \<and> real = concat (tree_sibs H t g)"
      using concat_chunks32 [OF len(2)] by auto
  next
    assume "leaf = tree_root H u \<and> real = concat (tree_sibs H t g)"
    moreover have "chunks32 (concat (tree_sibs H t g)) (gdepth g) = tree_sibs H t g"
      using chunks32_concat [of "tree_sibs H t g"] sl by (simp add: length_tree_sibs [OF g])
    ultimately show "fold_sibs H leaf (chunks32 real (gdepth g)) g = tree_root H t"
      by (simp add: fold_tree_sibs [OF g u])
  }
qed

text \<open>
  Concrete hashes and trees on which the hypotheses of the properties are shown to hold together.
\<close>

section \<open>Concrete hashes and trees\<close>

text \<open>A hash that keeps the first 32 bytes of the message, padded.\<close>

definition head_hash :: "bytes \<Rightarrow> bytes" where
  "head_hash x = take 32 (x @ zero32)"

lemma length_head_hash [simp]: "length (head_hash x) = 32"
  by (simp add: head_hash_def)

definition ssz_leaf :: "nat \<Rightarrow> bytes" where
  "ssz_leaf i = replicate 32 (of_nat i)"

lemma length_ssz_leaf [simp]: "length (ssz_leaf i) = 32"
  by (simp add: ssz_leaf_def)

lemma gdepth_2: "gdepth 2 = 1"
  by (simp add: gdepth_def bitlen.simps)

lemma bitlen_2: "bitlen 2 = 2"
  by (simp add: bitlen.simps)

lemma node_at_2: "node_at (MNode l r) 2 = Some l"
  by (simp add: node_at.simps [of _ 2] node_at_1)

lemma tree_sibs_2: "tree_sibs H (MNode l r) 2 = [tree_root H r]"
  by (simp add: tree_sibs.simps [of _ _ 2] node_at_1 tree_sibs_1)

lemma head_hash_left: "length a = 32 \<Longrightarrow> head_hash (a @ b) = a"
  by (simp add: head_hash_def)

end
