(* ===== verification/SSZ_Merkleize.thy ===== *)
theory SSZ_Merkleize
  imports SSZ_Merkle
begin

text \<open>
  SSZ merkleization, \<open>contracts/primitives/ssz/merkleize.py\<close>: the zero-hash table, the
  incremental stack accumulator, its finalization and the length mix-in, with the driver
  \<open>MerkleizeBenchmark\<close> of \<open>harness.py\<close> that runs them end to end. The reference is the recursive
  root of a zero-padded list of chunks; the accumulator is proved equal to it, the
  exactly-full case included.
\<close>

unbundle bit_operations_syntax

section \<open>The zero-hash table\<close>

text \<open>The program constant \<open>_ZERO_HASH_TABLE_HEX\<close>, one 32-byte row per depth.\<close>

definition zero_hash_rows :: "nat list" where
  "zero_hash_rows =
  [0x0000000000000000000000000000000000000000000000000000000000000000,
   0xF5A5FD42D16A20302798EF6ED309979B43003D2320D9F0E8EA9831A92759FB4B,
   0xDB56114E00FDD4C1F85C892BF35AC9A89289AAECB1EBD0A96CDE606A748B5D71,
   0xC78009FDF07FC56A11F122370658A353AAA542ED63E44C4BC15FF4CD105AB33C,
   0x536D98837F2DD165A55D5EEAE91485954472D56F246DF256BF3CAE19352A123C,
   0x9EFDE052AA15429FAE05BAD4D0B1D7C64DA64D03D7A1854A588C2CB8430C0D30,
   0xD88DDFEED400A8755596B21942C1497E114C302E6118290F91E6772976041FA1,
   0x87EB0DDBA57E35F6D286673802A4AF5975E22506C7CF4C64BB6BE5EE11527F2C,
   0x26846476FD5FC54A5D43385167C95144F2643F533CC85BB9D16B782F8D7DB193,
   0x506D86582D252405B840018792CAD2BF1259F1EF5AA5F887E13CB2F0094F51E1,
   0xFFFF0AD7E659772F9534C195C815EFC4014EF1E1DAED4404C06385D11192E92B,
   0x6CF04127DB05441CD833107A52BE852868890E4317E6A02AB47683AA75964220,
   0xB7D05F875F140027EF5118A2247BBB84CE8F2F0F1123623085DAF7960C329F5F,
   0xDF6AF5F5BBDB6BE9EF8AA618E4BF8073960867171E29676F8B284DEA6A08A85E,
   0xB58D900F5E182E3C50EF74969EA16C7726C549757CC23523C369587DA7293784,
   0xD49A7502FFCFB0340B1D7885688500CA308161A7F96B62DF9D083B71FCC8F2BB,
   0x8FE6B1689256C0D385F42F5BBE2027A22C1996E110BA97C171D3E5948DE92BEB,
   0x8D0D63C39EBADE8509E0AE3C9C3876FB5FA112BE18F905ECACFECB92057603AB,
   0x95EEC8B2E541CAD4E91DE38385F2E046619F54496C2382CB6CACD5B98C26F5A4,
   0xF893E908917775B62BFF23294DBBE3A1CD8E6CC1C35B4801887B646A6F81F17F,
   0xCDDBA7B592E3133393C16194FAC7431ABF2F5485ED711DB282183C819E08EBAA,
   0x8A8D7FE3AF8CAA085A7639A832001457DFB9128A8061142AD0335629FF23FF9C,
   0xFEB3C337D7A51A6FBF00B9E34C52E1C9195C969BD4E7A0BFD51D5C5BED9C1167,
   0xE71F0AA83CC32EDFBEFA9F4D3E0174CA85182EEC9F3A09F6A6C0DF6377A510D7,
   0x31206FA80A50BB6ABE29085058F16212212A60EEC8F049FECB92D8C8E0A84BC0,
   0x21352BFECBEDDDE993839F614C3DAC0A3EE37543F9B412B16199DC158E23B544,
   0x619E312724BB6D7C3153ED9DE791D764A366B389AF13C58BF8A8D90481A46765,
   0x7CDD2986268250628D0C10E385C58C6191E6FBE05191BCC04F133F2CEA72C1C4,
   0x848930BD7BA8CAC54661072113FB278869E07BB8587F91392933374D017BCBE1,
   0x8869FF2C22B28CC10510D9853292803328BE4FB0E80495E8BB8D271F5B889636,
   0xB5FE28E79F1B850F8658246CE9B6A1E7B49FC06DB7143E8FE0B4F2B0C5523A5C,
   0x985E929F70AF28D0BDD1A90A808F977F597C7C778C489E98D3BD8910D31AC0F7,
   0xC6F67E02E6E4E1BDEFB994C6098953F34636BA2B6CA20A4721D2B26A886722FF,
   0x1C9A7E5FF1CF48B4AD1582D3F4E4A1004F3B20D8C5A2B71387A4254AD933EBC5,
   0x2F075AE229646B6F6AED19A5E372CF295081401EB893FF599B3F9ACC0C0D3E7D,
   0x328921DEB59612076801E8CD61592107B5C67C79B846595CC6320C395B46362C,
   0xBFB909FDB236AD2411B4E4883810A074B840464689986C3F8A8091827E17C327,
   0x55D8FB3687BA3BA49F342C77F5A1F89BEC83D811446E1A467139213D640B6A74,
   0xF7210D4F8E7E1039790E7BF4EFA207555A10A6DB1DD4B95DA313AAA88B88FE76,
   0xAD21B516CBC645FFE34AB5DE1C8AEF8CD4E7F8D2B51E8E1456ADC7563CDA206F,
   0x6BFE8D2BCC4237B74A5047058EF455339ECD7360CB63BFBB8EE5448E6430BA04,
   0xA7F23CE9181740DC220C814782654FEE6ACEB9F1EC9222C4E2467D0AB1680837,
   0xAEF9476C89590A2C8CC9B3B74F4967C757C49D9866A44BACF21FA2ED675DDFA2,
   0x9A42BCAD82F6A9E41284D808EAD319F29F3B08209D680F0E2CE71510D071E205,
   0xD1A66D354A67B9CF179571D8E5F97792716E8DD4EC44196839A3F7C6B74F8BAC,
   0xFAFA3025F2F89509C2C71C74FBA0CD92858EF49B0780FB5479746C8A9BFCB346,
   0x3334A7C1E7F6705AA6011A6A949645016DB4ACDE0CA9ABD66DC79D8266423056,
   0x0796FD75664FAEF744EE4E52D7271E2BBB769F91ED6F9B74D8B694F56606852C,
   0x7BA3AE4A417FE8545B142BC89F4ADCD7AE13941CBAB7750B83E9F0A66D16BE64,
   0x788FAFCC4AA520399ADBAED195F8B12C4EB31EC10168E50AABC659A6AEA516DC,
   0xE833D7A67160E68BF4C9044A53077DF2727AD00CF36F4949C7B681A912140CBB,
   0x309EABF095DC6714F9F4D864BBA5AFFAE0B35AE2F5E3565BCC3A47B212767701,
   0x226A8EBEFA288665A644A50273335EFBB610510F241B5B720C8A368D59A69A5D,
   0x41ABFD995425827625938131AF0C4F33FE0BD4688C222C21FA9DA8E89CAA03F8,
   0x442C642EF50FA1A667A6E6D105C77C5CC3FEC8D7AA2570CF1A3077B503C38069,
   0xA0A08DFC9B42D96C2DE19B6D127B8AE136DDCF3E5AD0DCE422C45A56F61F6A74,
   0x7D348382AF096DBE0BF086C7BB39B2A2C0BC36B621AB0C738E9885D731D81740,
   0x3AB134751D191269026C86994EAA8B43A83B4AD1F6D0E77381C4E2974AFBC8F6,
   0x9A7452611DB2D23EAE26F9BDBB88958EF44C64D0FE987BE9F726ADF938F50F6C,
   0x725C7F816037BFE452CD1E7BA35AC47EDCB49A9A2B27AECA70DCE483CB7DED1F,
   0x2CEA1AF51FB28B62887C39998AC9FEF4DFDEDA1F07E071BA558A173AFD06CBC3,
   0xFF1D59F98B6C551D95089357057D5C8BE26402279E9DF0B1DF1A10B72BF3927F,
   0x2F8A181F7C99DD215A7529BFE296A9603A1446737186D21AEB8BC7AE59E1FD21,
   0xECC502C9B1145F3950CB7D3E3842446F81A4F0DF1DF537CEE139EF64EA984BD9]"

definition zero_hash_table :: bytes where
  "zero_hash_table = concat (map (be_bytes 32) zero_hash_rows)"

definition zero_hash :: "nat \<Rightarrow> bytes res" where
  "zero_hash depth =
     check (depth < 64) ''zero_hash: depth exceeds precomputed table size (64)'' (
     let offset = depth * 32 in Inr (bslice zero_hash_table offset (offset + 32)))"

section \<open>The accumulator\<close>

function push_loop :: "(bytes \<Rightarrow> bytes) \<Rightarrow> bytes \<Rightarrow> nat \<Rightarrow> nat \<Rightarrow> bytes \<Rightarrow> (bytes \<times> nat \<times> nat) res" where
  "push_loop H state f level node =
     rbind (getbit_u f level) (\<lambda>b.
     if b \<noteq> 0 then
       (let sibling_offset = level * 32;
            sibling = bslice state sibling_offset (sibling_offset + 32) in
        rbind (bconcat sibling node) (\<lambda>m.
        rbind (ushl 1 level) (\<lambda>bit. push_loop H state (f XOR bit) (level + 1) (H m))))
     else Inr (node, level, f))"
  by pat_completeness auto
termination
  by (relation "measure (\<lambda>(H, state, f, level, node). 64 - level)") (auto simp: getbit_u_Inr)

declare push_loop.simps [simp del]

definition merkleize_stack_push ::
  "(bytes \<Rightarrow> bytes) \<Rightarrow> bytes \<Rightarrow> nat \<Rightarrow> bytes \<Rightarrow> (bytes \<times> nat) res" where
  "merkleize_stack_push H state filled chunk =
     rbind (push_loop H state filled 0 chunk) (\<lambda>(node, level, f).
     let write_offset = level * 32 in
     check (write_offset + 32 \<le> length state)
       ''merkleize_stack_push: state too small for this many chunks'' (
     rbind (bconcat (bslice state 0 write_offset) node) (\<lambda>s1.
     rbind (bconcat s1 (bslice state (write_offset + 32) (length state))) (\<lambda>new_state.
     rbind (ushl 1 level) (\<lambda>bit. Inr (new_state, f OR bit))))))"

fun finalize_loop :: "(bytes \<Rightarrow> bytes) \<Rightarrow> bytes \<Rightarrow> nat \<Rightarrow> nat \<Rightarrow> nat \<Rightarrow> bytes \<Rightarrow> bytes res" where
  "finalize_loop H state filled level 0 node = Inr node"
| "finalize_loop H state filled level (Suc k) node =
     rbind (getbit_u filled level) (\<lambda>b.
     rbind
       (if b \<noteq> 0 then
          (let sibling_offset = level * 32 in
           bconcat (bslice state sibling_offset (sibling_offset + 32)) node)
        else rbind (zero_hash level) (\<lambda>z. bconcat node z))
     (\<lambda>m. finalize_loop H state filled (level + 1) k (H m)))"

definition merkleize_stack_finalize :: "(bytes \<Rightarrow> bytes) \<Rightarrow> bytes \<Rightarrow> nat \<Rightarrow> nat \<Rightarrow> bytes res" where
  "merkleize_stack_finalize H state filled depth =
     (if depth = 0 then
        rbind (getbit_u filled 0) (\<lambda>b. if b \<noteq> 0 then Inr (bslice state 0 32) else zero_hash 0)
      else
        rbind (getbit_u filled depth) (\<lambda>b.
        if b \<noteq> 0 then (let offset = depth * 32 in Inr (bslice state offset (offset + 32)))
        else rbind (zero_hash 0) (\<lambda>z. finalize_loop H state filled 0 depth z)))"

definition mix_in_length :: "(bytes \<Rightarrow> bytes) \<Rightarrow> bytes \<Rightarrow> nat \<Rightarrow> bytes res" where
  "mix_in_length H root len =
     (let length_be = itob len; length_le = rev length_be in
      rbind (bconcat length_le (take 24 zero32)) (\<lambda>length_le_32.
      rbind (bconcat root length_le_32) (\<lambda>m. Inr (H m))))"

section \<open>The end-to-end driver\<close>

fun zero_state_loop :: "nat \<Rightarrow> bytes \<Rightarrow> bytes res" where
  "zero_state_loop 0 state = Inr state"
| "zero_state_loop (Suc k) state = rbind (bconcat state zero32) (zero_state_loop k)"

fun push_all_loop ::
  "(bytes \<Rightarrow> bytes) \<Rightarrow> bytes \<Rightarrow> nat \<Rightarrow> nat \<Rightarrow> bytes \<Rightarrow> nat \<Rightarrow> (bytes \<times> nat) res" where
  "push_all_loop H chunks i 0 state filled = Inr (state, filled)"
| "push_all_loop H chunks i (Suc k) state filled =
     (let offset = i * 32; chunk = bslice chunks offset (offset + 32) in
      rbind (merkleize_stack_push H state filled chunk) (\<lambda>(state', filled').
      push_all_loop H chunks (i + 1) k state' filled'))"

text \<open>\<open>MerkleizeBenchmark.approval_program\<close>: the two roots it logs, in order.\<close>

definition merkleize_benchmark :: "(bytes \<Rightarrow> bytes) \<Rightarrow> bytes \<Rightarrow> bytes \<Rightarrow> bytes \<Rightarrow> (bytes \<times> bytes) res" where
  "merkleize_benchmark H arg0 arg1 arg2 =
     rbind (btoi arg0) (\<lambda>n.
     rbind (btoi arg2) (\<lambda>depth.
     rbind (uadd depth 1) (\<lambda>slots.
     rbind (zero_state_loop slots []) (\<lambda>state.
     rbind (push_all_loop H arg1 0 n state 0) (\<lambda>(state', filled).
     rbind (merkleize_stack_finalize H state' filled depth) (\<lambda>vector_root.
     rbind (mix_in_length H vector_root n) (\<lambda>list_root.
     Inr (vector_root, list_root))))))))"

section \<open>Reference: the root of a zero-padded chunk list\<close>

fun chunk_root :: "(bytes \<Rightarrow> bytes) \<Rightarrow> nat \<Rightarrow> bytes list \<Rightarrow> bytes" where
  "chunk_root H 0 cs = (case cs of [] \<Rightarrow> zero32 | c # _ \<Rightarrow> c)"
| "chunk_root H (Suc d) cs = H (chunk_root H d (take (2 ^ d) cs) @ chunk_root H d (drop (2 ^ d) cs))"

definition zero_root :: "nat \<Rightarrow> bytes" where
  "zero_root i = be_bytes 32 (zero_hash_rows ! i)"

text \<open>The table agrees with the hash up to depth \<open>d\<close>: each entry is the hash of two copies of the one before.\<close>

definition zero_table_ok :: "(bytes \<Rightarrow> bytes) \<Rightarrow> nat \<Rightarrow> bool" where
  "zero_table_ok H d = (\<forall>i<d. zero_root (Suc i) = H (zero_root i @ zero_root i))"

lemma length_zero_hash_rows [simp]: "length zero_hash_rows = 64"
  by (simp add: zero_hash_rows_def)

lemma seg_concat_32:
  "\<forall>r\<in>set rs. length r = 32 \<Longrightarrow> i < length rs \<Longrightarrow> seg (32 * i) 32 (concat rs) = rs ! i"
proof (induction rs arbitrary: i)
  case Nil
  then show ?case by simp
next
  case (Cons r rs)
  then show ?case by (cases i) (auto simp: seg_append_right seg_at_end seg_append_left)
qed

lemma zero_hash_eq: "zero_hash d = (if d < 64 then Inr (zero_root d) else
    Inl (AssertFail ''zero_hash: depth exceeds precomputed table size (64)''))"
proof -
  have "seg (32 * d) 32 zero_hash_table = zero_root d" if "d < 64"
    using that seg_concat_32 [of "map (be_bytes 32) zero_hash_rows" d]
    by (simp add: zero_hash_table_def zero_root_def)
  then show ?thesis by (auto simp: zero_hash_def bslice_def Let_def mult.commute require_def)
qed

lemma zero_root_0: "zero_root 0 = zero32"
proof -
  have "be_bytes k 0 = replicate k 0" for k
    by (induction k) (auto simp: replicate_append_same)
  moreover have "zero_hash_rows ! 0 = 0" by (simp add: zero_hash_rows_def)
  ultimately show ?thesis by (simp add: zero_root_def zero32_def)
qed

lemma length_zero_root [simp]: "length (zero_root i) = 32"
  by (simp add: zero_root_def)

lemma chunk_root_Nil: "zero_table_ok H d \<Longrightarrow> i \<le> d \<Longrightarrow> chunk_root H i [] = zero_root i"
  by (induction i) (auto simp: zero_table_ok_def zero_root_0)

lemma chunk_root_take: "chunk_root H d (take (2 ^ d) cs) = chunk_root H d cs"
proof (induction d arbitrary: cs)
  case 0
  then show ?case by (cases cs) auto
next
  case (Suc d)
  have "drop (2 ^ d) (take (2 ^ Suc d) cs) = take (2 ^ d) (drop (2 ^ d) cs)"
    by (simp add: drop_take mult_2)
  then show ?case using Suc.IH [of "drop (2 ^ d) cs"] by (simp add: min_absorb1)
qed

lemma length_chunk_root:
  "(\<And>x. length (H x) = 32) \<Longrightarrow> \<forall>c\<in>set cs. length c = 32 \<Longrightarrow> length (chunk_root H d cs) = 32"
  by (cases d) (auto split: list.splits)

section \<open>Bits of a natural number\<close>

lemma xor_clear:
  assumes "odd (f div 2 ^ l)"
  shows "f XOR 2 ^ l = f - (2 ^ l :: nat)"
proof -
  have "bit f l" using assms by (simp add: bit_iff_odd)
  then have "f XOR 2 ^ l = unset_bit l f"
    by (simp add: flip_bit_eq_if flip: flip_bit_eq_xor [unfolded push_bit_of_1])
  also have "\<dots> = f - 2 ^ l"
  proof -
    have "set_bit l (unset_bit l f) = f"
      by (rule bit_eqI) (use \<open>bit f l\<close> in \<open>auto simp: bit_simps\<close>)
    moreover have "set_bit l (unset_bit l f) = unset_bit l f + 2 ^ l"
      by (simp add: set_bit_eq bit_simps)
    ultimately show ?thesis by linarith
  qed
  finally show ?thesis .
qed

lemma or_set:
  assumes "even (f div 2 ^ l)"
  shows "f OR 2 ^ l = f + (2 ^ l :: nat)"
proof -
  have "\<not> bit f l" using assms by (simp add: bit_iff_odd)
  have "f OR 2 ^ l = set_bit l f" by (simp add: set_bit_eq_or push_bit_of_1)
  also have "\<dots> = f + 2 ^ l" using \<open>\<not> bit f l\<close> by (simp add: set_bit_eq)
  finally show ?thesis .
qed

section \<open>The accumulator computes the reference root\<close>

definition floor_pow :: "nat \<Rightarrow> nat \<Rightarrow> nat" where
  "floor_pow l n = (n div 2 ^ l) * 2 ^ l"

text \<open>
  What the stack holds after the chunks \<open>cs\<close>: the mask is the count, and every level whose bit
  is set holds the root of the corresponding aligned block of chunks.
\<close>

definition stack_inv :: "(bytes \<Rightarrow> bytes) \<Rightarrow> nat \<Rightarrow> bytes list \<Rightarrow> bytes \<Rightarrow> nat \<Rightarrow> bool" where
  "stack_inv H depth cs state filled \<longleftrightarrow>
     filled = length cs \<and> length state = 32 * (depth + 1) \<and> length cs \<le> 2 ^ depth \<and>
     (\<forall>c\<in>set cs. length c = 32) \<and>
     (\<forall>l\<le>depth. odd (length cs div 2 ^ l) \<longrightarrow>
        seg (32 * l) 32 state = chunk_root H l (seg (floor_pow (Suc l) (length cs)) (2 ^ l) cs))"

lemma floor_pow_Suc: "floor_pow l n = floor_pow (Suc l) n + (if odd (n div 2 ^ l) then 2 ^ l else 0)"
proof -
  have "n div 2 ^ Suc l = n div 2 ^ l div 2" by (simp only: power_Suc2 div_mult2_eq)
  moreover have "m = 2 * (m div 2) + (if odd m then 1 else 0)" for m :: nat
    by (cases "odd m") (auto elim!: oddE)
  ultimately have "n div 2 ^ l = 2 * (n div 2 ^ Suc l) + (if odd (n div 2 ^ l) then 1 else 0)"
    by metis
  then have "n div 2 ^ l * 2 ^ l =
      (2 * (n div 2 ^ Suc l) + (if odd (n div 2 ^ l) then 1 else 0)) * 2 ^ l"
    by (rule arg_cong [of _ _ "\<lambda>q. q * 2 ^ l"])
  then show ?thesis
    by (cases "odd (n div 2 ^ l)") (simp_all only: floor_pow_def power_Suc, simp_all add: algebra_simps)
qed

lemma floor_pow_le: "floor_pow l n \<le> n"
  by (simp add: floor_pow_def)

lemma floor_pow_mod: "n = floor_pow l n + n mod 2 ^ l"
  using div_mult_mod_eq [of n "2 ^ l"] by (simp add: floor_pow_def)

lemma getbit_floor_pow: "l < 64 \<Longrightarrow> getbit_u (floor_pow l n) l = Inr (n div 2 ^ l mod 2)"
  by (simp add: getbit_u_def floor_pow_def)

lemma bslice_level: "bslice state (l * 32) (l * 32 + 32) = seg (32 * l) 32 state"
  by (simp add: bslice_def mult.commute)

text \<open>The block of a set level ends inside the list.\<close>

lemma block_end: "odd (n div 2 ^ l) \<Longrightarrow> floor_pow (Suc l) n + 2 ^ l \<le> n"
  using floor_pow_Suc [of l n] floor_pow_le [of l n] by simp

lemma mod_pow_Suc_carry:
  assumes "n mod 2 ^ l = 2 ^ l - 1" and "odd (n div 2 ^ l)"
  shows "n mod 2 ^ Suc l = 2 ^ Suc l - (1::nat)"
proof -
  have "n mod 2 ^ Suc l = 2 ^ l * (n div 2 ^ l mod 2) + n mod 2 ^ l"
    by (simp only: power_Suc2 mod_mult2_eq)
  also have "n div 2 ^ l mod 2 = 1" using assms(2) by presburger
  finally show ?thesis using assms(1) by simp
qed

lemma push_loop_stop:
  assumes "even (n div 2 ^ l)" and "l < 64"
  shows "push_loop H state (floor_pow l n) l node = Inr (node, l, floor_pow l n)"
proof -
  have "n div 2 ^ l mod 2 = 0" using assms(1) by presburger
  then show ?thesis
    using assms(2) by (simp add: push_loop.simps [of H state _ l node] getbit_floor_pow)
qed

lemma push_loop_eq:
  assumes inv: "stack_inv H depth cs state filled" and n: "length cs < 2 ^ depth" and d: "depth \<le> 62"
    and c: "length c = 32" and H: "\<And>x. length (H x) = 32"
    and l: "l \<le> depth" "length cs mod 2 ^ l = 2 ^ l - 1"
    and node: "node = chunk_root H l (drop (floor_pow l (length cs)) (cs @ [c]))"
  shows "\<exists>l' node'. push_loop H state (floor_pow l (length cs)) l node =
      Inr (node', l', floor_pow l' (length cs)) \<and>
    l' \<le> depth \<and> length cs mod 2 ^ l' = 2 ^ l' - 1 \<and> even (length cs div 2 ^ l') \<and>
    node' = chunk_root H l' (drop (floor_pow l' (length cs)) (cs @ [c]))"
  using l node
proof (induction "depth - l" arbitrary: l node)
  case 0
  then have ld: "l = depth" by simp
  with n have z: "length cs div 2 ^ l = 0" by simp
  then have "push_loop H state (floor_pow l (length cs)) l node = Inr (node, l, floor_pow l (length cs))"
    using ld d by (intro push_loop_stop) auto
  moreover have "even (length cs div 2 ^ l)" using z by simp
  ultimately show ?case using 0 by blast
next
  case (Suc k)
  let ?n = "length cs"
  have l64: "l < 64" using Suc.prems(1) d by simp
  show ?case
  proof (cases "odd (?n div 2 ^ l)")
    case False
    then have "push_loop H state (floor_pow l ?n) l node = Inr (node, l, floor_pow l ?n)"
      using l64 by (intro push_loop_stop) auto
    with False Suc.prems show ?thesis by blast
  next
    case True
    have ld: "l < depth" using Suc.hyps(2) by simp
    let ?sib = "seg (32 * l) 32 state"
    have sib: "?sib = chunk_root H l (seg (floor_pow (Suc l) ?n) (2 ^ l) cs)"
      using inv True ld by (simp add: stack_inv_def)
    have fs: "floor_pow l ?n = floor_pow (Suc l) ?n + 2 ^ l"
      using True by (simp add: floor_pow_Suc [of l])
    have lens: "\<forall>x\<in>set cs. length x = 32" "length ?sib = 32"
      using inv ld by (auto simp: stack_inv_def)
    have ln: "length node = 32" unfolding Suc.prems(3)
      by (rule length_chunk_root) (use H lens c in \<open>auto dest: in_set_dropD\<close>)
    have comb: "H (?sib @ node) = chunk_root H (Suc l) (drop (floor_pow (Suc l) ?n) (cs @ [c]))"
    proof -
      have "take (2 ^ l) (drop (floor_pow (Suc l) ?n) (cs @ [c])) = seg (floor_pow (Suc l) ?n) (2 ^ l) cs"
        using block_end [OF True] by (simp add: seg_def)
      moreover have "drop (2 ^ l) (drop (floor_pow (Suc l) ?n) (cs @ [c])) = drop (floor_pow l ?n) (cs @ [c])"
        by (simp only: drop_drop fs add.commute)
      ultimately show ?thesis by (simp add: sib Suc.prems(3) del: drop_drop)
    qed
    have "odd (floor_pow l ?n div 2 ^ l)" using True by (simp add: floor_pow_def)
    then have x: "floor_pow l ?n XOR 2 ^ l = floor_pow (Suc l) ?n"
      by (simp add: xor_clear fs)
    have sh: "ushl 1 l = Inr (2 ^ l)"
    proof -
      have "(2::nat) ^ l < 2 ^ 64" using l64 by (intro power_strict_increasing) auto
      then show ?thesis using l64 by (simp add: ushl_def uint64_limit_def)
    qed
    have "?n div 2 ^ l mod 2 = 1" using True by presburger
    then have step: "push_loop H state (floor_pow l ?n) l node =
        push_loop H state (floor_pow (Suc l) ?n) (Suc l) (H (?sib @ node))"
      using l64 lens ln
      by (simp add: push_loop.simps [of H state "floor_pow l ?n" l node] getbit_floor_pow Let_def
          bslice_level bconcat_def max_bytes_def sh [simplified] x)
    have "k = depth - Suc l" using Suc.hyps(2) by simp
    from Suc.hyps(1) [OF this _ mod_pow_Suc_carry [OF Suc.prems(2) True] comb] ld
    show ?thesis unfolding step by simp
  qed
qed

lemma ushl_1: "l < 64 \<Longrightarrow> ushl 1 l = Inr (2 ^ l)"
proof -
  assume l: "l < 64"
  then have "(2::nat) ^ l < 2 ^ 64" by (intro power_strict_increasing) auto
  with l show ?thesis by (simp add: ushl_def uint64_limit_def)
qed

lemma push_level_bits:
  assumes "n mod 2 ^ l = 2 ^ l - (1::nat)" and "even (n div 2 ^ l)"
  shows "n + 1 = floor_pow l n + 2 ^ l"
    and "floor_pow (Suc l) (n + 1) = floor_pow l n"
    and "m < l \<Longrightarrow> even ((n + 1) div 2 ^ m)"
    and "l < m \<Longrightarrow> (n + 1) div 2 ^ m = n div 2 ^ m"
proof -
  have p: "0 < (2::nat) ^ l" by simp
  show n1: "n + 1 = floor_pow l n + 2 ^ l"
    using floor_pow_mod [of n l] assms(1) p by linarith
  have div_l: "(n + 1) div 2 ^ l = n div 2 ^ l + 1"
    unfolding n1 floor_pow_def by simp
  have s: "k div 2 ^ Suc j = k div 2 ^ j div 2" for k j :: nat by (simp only: power_Suc2 div_mult2_eq)
  have div_Sl: "(n + 1) div 2 ^ Suc l = n div 2 ^ Suc l"
    using assms(2) by (simp only: s div_l) (metis even_succ_div_two add.commute)
  then show "floor_pow (Suc l) (n + 1) = floor_pow l n"
    using assms(2) floor_pow_Suc [of l n] by (simp add: floor_pow_def)
  show "even ((n + 1) div 2 ^ m)" if "m < l"
  proof -
    from that obtain k where k: "l = Suc (m + k)" using less_imp_Suc_add by blast
    have "n + 1 = (n div 2 ^ l + 1) * 2 ^ l" unfolding n1 floor_pow_def by simp
    also have "\<dots> = ((n div 2 ^ l + 1) * 2 ^ k * 2) * 2 ^ m" by (simp add: k power_add algebra_simps)
    finally have "(n + 1) div 2 ^ m = (n div 2 ^ l + 1) * 2 ^ k * 2" by simp
    then show ?thesis by simp
  qed
  show "(n + 1) div 2 ^ m = n div 2 ^ m" if "l < m"
  proof -
    from that obtain k where k: "m = Suc l + k" using less_imp_Suc_add by fastforce
    have "(2::nat) ^ m = 2 ^ Suc l * 2 ^ k" by (simp add: k power_add)
    then show ?thesis by (simp only: div_mult2_eq div_Sl)
  qed
qed

lemma stack_push:
  assumes inv: "stack_inv H depth cs state filled" and n: "length cs < 2 ^ depth" and d: "depth \<le> 62"
    and c: "length c = 32" and H: "\<And>x. length (H x) = 32"
  shows "\<exists>state' filled'. merkleize_stack_push H state filled c = Inr (state', filled') \<and>
    stack_inv H depth (cs @ [c]) state' filled'"
proof -
  let ?n = "length cs"
  have f0: "filled = floor_pow 0 ?n" using inv by (simp add: stack_inv_def floor_pow_def)
  have "c = chunk_root H 0 (drop (floor_pow 0 ?n) (cs @ [c]))" by (simp add: floor_pow_def)
  from push_loop_eq [OF inv n d c H _ _ this] obtain l node where
      loop: "push_loop H state filled 0 c = Inr (node, l, floor_pow l ?n)"
    and l: "l \<le> depth" "?n mod 2 ^ l = 2 ^ l - 1" "even (?n div 2 ^ l)"
    and node: "node = chunk_root H l (drop (floor_pow l ?n) (cs @ [c]))"
    unfolding f0 by auto
  note bits = push_level_bits [OF l(2,3)]
  have lens: "\<forall>x\<in>set cs. length x = 32" "length state = 32 * (depth + 1)"
    using inv by (auto simp: stack_inv_def)
  have ln: "length node = 32" unfolding node
    by (rule length_chunk_root) (use H lens c in \<open>auto dest: in_set_dropD\<close>)
  have fit: "32 * l + 32 \<le> length state" using l(1) lens by simp
  let ?state = "overwrite (32 * l) node state"
  have ow: "bslice state 0 (l * 32) @ node @ bslice state (l * 32 + 32) (length state) = ?state"
    by (simp add: bslice_def overwrite_def seg_def ln mult.commute)
  have l64: "l < 64" using l(1) d by simp
  have "even (floor_pow l ?n div 2 ^ l)" using l(3) by (simp add: floor_pow_def)
  then have filled': "floor_pow l ?n OR 2 ^ l = ?n + 1" 
    using bits(1) by (simp only: or_set)
  have "merkleize_stack_push H state filled c = Inr (?state, ?n + 1)"
  proof -
    have cap: "length state \<le> max_bytes" using lens d by (simp add: max_bytes_def)
    have "bconcat (bslice state 0 (l * 32)) node = Inr (bslice state 0 (l * 32) @ node)"
      using fit cap by (simp add: bconcat_def bslice_def ln mult.commute)
    moreover have "bconcat (bslice state 0 (l * 32) @ node) (bslice state (l * 32 + 32) (length state))
        = Inr ?state"
      using fit cap ow by (simp add: bconcat_def bslice_def ln mult.commute)
    ultimately show ?thesis using fit filled'
      by (simp add: merkleize_stack_push_def loop Let_def mult.commute ushl_1 [OF l64, simplified])
  qed
  moreover have "stack_inv H depth (cs @ [c]) ?state (?n + 1)"
    unfolding stack_inv_def
  proof (intro conjI allI impI)
    fix m assume m: "m \<le> depth" and odd: "odd (length (cs @ [c]) div 2 ^ m)"
    then have odd': "odd ((?n + 1) div 2 ^ m)" by simp
    have "\<not> m < l" using bits(3) odd' by blast
    then consider "m = l" | "l < m" by linarith
    then show "seg (32 * m) 32 ?state =
        chunk_root H m (seg (floor_pow (Suc m) (length (cs @ [c]))) (2 ^ m) (cs @ [c]))"
    proof cases
      case 1
      have "seg (floor_pow l ?n) (2 ^ l) (cs @ [c]) = drop (floor_pow l ?n) (cs @ [c])"
        unfolding seg_def using bits(1) by (intro take_all) simp
      moreover have "seg (32 * l) 32 ?state = node" using fit ln by (simp add: seg_overwrite_same)
      ultimately show ?thesis using bits(2) node 1 by simp
    next
      case 2
      have dv: "(?n + 1) div 2 ^ m = ?n div 2 ^ m" by (rule bits(4) [OF 2])
      then have oddm: "odd (?n div 2 ^ m)" using odd' by simp
      have "(?n + 1) div 2 ^ Suc m = ?n div 2 ^ Suc m" using bits(4) [of "Suc m"] 2 by simp
      then have fp: "floor_pow (Suc m) (length (cs @ [c])) = floor_pow (Suc m) ?n"
        by (simp add: floor_pow_def)
      have "seg (32 * m) 32 ?state = seg (32 * m) 32 state"
        using fit 2 ln by (intro seg_overwrite_after) auto
      also have "\<dots> = chunk_root H m (seg (floor_pow (Suc m) ?n) (2 ^ m) cs)"
        using inv m oddm by (simp add: stack_inv_def)
      also have "seg (floor_pow (Suc m) ?n) (2 ^ m) cs = seg (floor_pow (Suc m) ?n) (2 ^ m) (cs @ [c])"
        using block_end [OF oddm] by (simp add: seg_append_left)
      finally show ?thesis by (simp only: fp)
    qed
  qed (use lens n c fit ln in auto)
  ultimately show ?thesis by blast
qed

lemma stack_inv_init: "depth \<le> 62 \<Longrightarrow> length state = 32 * (depth + 1) \<Longrightarrow> stack_inv H depth [] state 0"
  by (simp add: stack_inv_def)

lemma finalize_loop_eq:
  assumes inv: "stack_inv H depth cs state filled" and d: "depth \<le> 62"
    and H: "\<And>x. length (H x) = 32" and z: "zero_table_ok H depth"
  shows "l + k \<le> depth \<Longrightarrow> node = chunk_root H l (drop (floor_pow l (length cs)) cs) \<Longrightarrow>
    finalize_loop H state filled l k node =
      Inr (chunk_root H (l + k) (drop (floor_pow (l + k) (length cs)) cs))"
proof (induction k arbitrary: l node)
  case 0
  then show ?case by simp
next
  case (Suc k)
  let ?n = "length cs"
  have ld: "l < depth" "l < 64" using Suc.prems(1) d by auto
  have lens: "\<forall>x\<in>set cs. length x = 32" "length (seg (32 * l) 32 state) = 32" "filled = ?n"
    using inv ld by (auto simp: stack_inv_def)
  have ln: "length node = 32" unfolding Suc.prems(2)
    by (rule length_chunk_root) (use H lens in \<open>auto dest: in_set_dropD\<close>)
  have bit: "getbit_u filled l = Inr (?n div 2 ^ l mod 2)" using lens ld by (simp add: getbit_u_def)
  have dd: "drop (2 ^ l) (drop (floor_pow (Suc l) ?n) cs) = drop (2 ^ l + floor_pow (Suc l) ?n) cs"
    by (simp only: drop_drop)
  show ?case
  proof (cases "odd (?n div 2 ^ l)")
    case True
    have "take (2 ^ l) (drop (floor_pow (Suc l) ?n) cs) = seg (floor_pow (Suc l) ?n) (2 ^ l) cs"
      by (simp add: seg_def)
    moreover have "drop (2 ^ l) (drop (floor_pow (Suc l) ?n) cs) = drop (floor_pow l ?n) cs"
    proof -
      have "floor_pow l ?n = 2 ^ l + floor_pow (Suc l) ?n" using True floor_pow_Suc [of l ?n] by simp
      then show ?thesis by (simp only: dd)
    qed
    moreover have "seg (32 * l) 32 state = chunk_root H l (seg (floor_pow (Suc l) ?n) (2 ^ l) cs)"
      using inv True ld by (simp add: stack_inv_def)
    ultimately have "H (seg (32 * l) 32 state @ node) = chunk_root H (Suc l) (drop (floor_pow (Suc l) ?n) cs)"
      by (simp add: Suc.prems(2) del: drop_drop)
    then have "finalize_loop H state filled (Suc l) k (H (seg (32 * l) 32 state @ node)) =
        Inr (chunk_root H (Suc l + k) (drop (floor_pow (Suc l + k) ?n) cs))"
      using Suc.prems(1) by (intro Suc.IH) simp_all
    moreover have "?n div 2 ^ l mod 2 = 1" using True by presburger
    ultimately show ?thesis using lens(2) ln
      by (simp add: bit Let_def bslice_level bconcat_def max_bytes_def del: chunk_root.simps drop_drop)
  next
    case False
    have fs: "floor_pow (Suc l) ?n = floor_pow l ?n" using False floor_pow_Suc [of l ?n] by simp
    let ?D = "drop (floor_pow l ?n) cs"
    have "?n mod 2 ^ l < 2 ^ l" by simp
    with floor_pow_mod [of ?n l] have "?n - floor_pow l ?n \<le> 2 ^ l" by linarith
    then have "length ?D \<le> 2 ^ l" by simp
    then have "take (2 ^ l) ?D = ?D" "drop (2 ^ l) ?D = []" by (simp_all del: drop_drop)
    moreover have "chunk_root H l [] = zero_root l"
      using chunk_root_Nil [OF z, of l] ld by simp
    ultimately have "H (node @ zero_root l) = chunk_root H (Suc l) (drop (floor_pow (Suc l) ?n) cs)"
      by (simp only: fs chunk_root.simps Suc.prems(2))
    then have "finalize_loop H state filled (Suc l) k (H (node @ zero_root l)) =
        Inr (chunk_root H (Suc l + k) (drop (floor_pow (Suc l + k) ?n) cs))"
      using Suc.prems(1) by (intro Suc.IH) simp_all
    moreover have "?n div 2 ^ l mod 2 = 0" using False by presburger
    ultimately show ?thesis using ln ld
      by (simp add: bit zero_hash_eq bconcat_def max_bytes_def del: chunk_root.simps drop_drop)
  qed
qed

text \<open>Finalization returns the reference root, the depth-0 and exactly-full cases included.\<close>

lemma stack_finalize_full:
  assumes inv: "stack_inv H depth cs state filled" and d: "depth \<le> 62" and full: "length cs = 2 ^ depth"
  shows "merkleize_stack_finalize H state filled depth = Inr (chunk_root H depth cs)"
proof -
  let ?n = "length cs"
  have f: "filled = ?n" using inv by (auto simp: stack_inv_def)
  have bit: "getbit_u filled depth = Inr (?n div 2 ^ depth mod 2)" using f d by (simp add: getbit_u_def)
  have "seg (32 * depth) 32 state = chunk_root H depth (seg (floor_pow (Suc depth) ?n) (2 ^ depth) cs)"
    using inv full by (simp add: stack_inv_def)
  also have "seg (floor_pow (Suc depth) ?n) (2 ^ depth) cs = cs"
    using full by (simp add: floor_pow_def)
  finally have s: "seg (32 * depth) 32 state = chunk_root H depth cs" .
  have "?n div 2 ^ depth mod 2 = 1" using full by simp
  with s show ?thesis using bit f
    by (cases "depth = 0") (simp_all add: merkleize_stack_finalize_def Let_def bslice_level bslice_def mult.commute)
qed

lemma stack_finalize:
  assumes inv: "stack_inv H depth cs state filled" and d: "depth \<le> 62"
    and H: "\<And>x. length (H x) = 32" and z: "zero_table_ok H depth"
  shows "merkleize_stack_finalize H state filled depth = Inr (chunk_root H depth cs)"
proof -
  let ?n = "length cs"
  have f: "filled = ?n" and n: "?n \<le> 2 ^ depth" using inv by (auto simp: stack_inv_def)
  have bit: "getbit_u filled depth = Inr (?n div 2 ^ depth mod 2)" using f d by (simp add: getbit_u_def)
  show ?thesis
  proof (cases "?n = 2 ^ depth")
    case True
    show ?thesis by (rule stack_finalize_full [OF inv d True])
  next
    case False
    with n have lt: "?n < 2 ^ depth" by simp
    then have b0: "?n div 2 ^ depth mod 2 = 0" by simp
    show ?thesis
    proof (cases "depth = 0")
      case True
      with lt have "cs = []" by simp
      then show ?thesis using True bit b0 zero_root_0
        by (simp add: merkleize_stack_finalize_def zero_hash_eq)
    next
      case nz: False
      have "zero_root 0 = chunk_root H 0 (drop (floor_pow 0 ?n) cs)"
        by (simp add: floor_pow_def zero_root_0)
      from finalize_loop_eq [OF inv d H z _ this, of depth]
      have "finalize_loop H state filled 0 depth (zero_root 0) =
          Inr (chunk_root H depth (drop (floor_pow depth ?n) cs))" by simp
      moreover have "floor_pow depth ?n = 0" using lt by (simp add: floor_pow_def)
      ultimately show ?thesis using nz bit b0
        by (simp add: merkleize_stack_finalize_def zero_hash_eq)
    qed
  qed
qed

section \<open>End to end\<close>

lemma zero_state_loop_eq:
  "length state + 32 * k \<le> max_bytes \<Longrightarrow> zero_state_loop k state = Inr (state @ concat (replicate k zero32))"
proof (induction k arbitrary: state)
  case 0
  then show ?case by simp
next
  case (Suc k)
  then show ?case using Suc.IH [of "state @ zero32"] by (simp add: bconcat_def)
qed

lemma push_all_loop_eq:
  assumes "stack_inv H depth cs state filled" and "cs @ ds = chunks32 arg n" and "length arg = 32 * n"
    and "n \<le> 2 ^ depth" and "depth \<le> 62" and H: "\<And>x. length (H x) = 32"
  shows "\<exists>state' filled'. push_all_loop H arg (length cs) (length ds) state filled = Inr (state', filled') \<and>
    stack_inv H depth (cs @ ds) state' filled'"
  using assms(1,2)
proof (induction ds arbitrary: cs state filled)
  case Nil
  then show ?case by simp
next
  case (Cons c ds)
  have n: "length cs + Suc (length ds) = n"
    using arg_cong [OF Cons.prems(2), of length] by simp
  have "c = chunks32 arg n ! length cs" by (metis Cons.prems(2) nth_append_length)
  then have c: "bslice arg (length cs * 32) (length cs * 32 + 32) = c"
    using n by (simp add: chunks32_nth bslice_level)
  have "c \<in> set (chunks32 arg n)" by (metis Cons.prems(2) in_set_conv_decomp)
  then have lc: "length c = 32" by (rule chunks32_len [OF assms(3)])
  have "length cs < 2 ^ depth" using n assms(4) by simp
  from stack_push [OF Cons.prems(1) this assms(5) lc H] obtain state' filled' where
      push: "merkleize_stack_push H state filled c = Inr (state', filled')"
    and inv: "stack_inv H depth (cs @ [c]) state' filled'" by blast
  have "(cs @ [c]) @ ds = chunks32 arg n" using Cons.prems(2) by simp
  from Cons.IH [OF inv this] show ?case
    by (simp add: c push Let_def)
qed

lemma mix_in_length_eq:
  assumes "length root = 32" and "n < uint64_limit"
  shows "mix_in_length H root n = Inr (H (root @ rev (be_bytes 32 n)))"
proof -
  have "be_bytes (24 + 8) n = be_bytes 24 (n div 256 ^ 8) @ be_bytes 8 n"
  proof -
    have "be_bytes (j + k) v = be_bytes j (v div 256 ^ k) @ be_bytes k v" for j k v
      by (induction k arbitrary: v) (auto simp: div_mult2_eq [symmetric] mult.commute)
    then show ?thesis .
  qed
  moreover have "n div 256 ^ 8 = 0" using assms(2) by (simp add: uint64_limit_def)
  moreover have "be_bytes k 0 = replicate k 0" for k by (induction k) (auto simp: replicate_append_same)
  ultimately have "rev (be_bytes 32 n) = rev (itob n) @ take 24 zero32"
    by (simp add: itob_def zero32_def)
  then show ?thesis using assms(1) by (simp add: mix_in_length_def Let_def bconcat_def max_bytes_def)
qed

lemma benchmark_run:
  assumes H: "\<And>x. length (H x) = 32" and z: "zero_table_ok H depth" and d: "depth \<le> 62"
    and n: "n \<le> 2 ^ depth" and arg: "length arg = 32 * n" and a0: "btoi a0 = Inr n" and a2: "btoi a2 = Inr depth"
  shows "merkleize_benchmark H a0 arg a2 =
    Inr (chunk_root H depth (chunks32 arg n), H (chunk_root H depth (chunks32 arg n) @ rev (be_bytes 32 n)))"
proof -
  let ?state = "concat (replicate (Suc depth) zero32)"
  have st: "zero_state_loop (Suc depth) [] = Inr ?state"
    using d zero_state_loop_eq [of "[]" "Suc depth"] by (simp add: max_bytes_def del: replicate.simps)
  have "length ?state = 32 * (depth + 1)"
    by (simp add: concat_replicate_zero32 del: replicate.simps)
  then have "stack_inv H depth [] ?state 0" using d by (intro stack_inv_init)
  from push_all_loop_eq [OF this _ arg n d H, of "chunks32 arg n"] obtain state' filled' where
      push: "push_all_loop H arg 0 n ?state 0 = Inr (state', filled')"
    and inv: "stack_inv H depth (chunks32 arg n) state' filled'" by auto
  have fin: "merkleize_stack_finalize H state' filled' depth = Inr (chunk_root H depth (chunks32 arg n))"
    by (rule stack_finalize [OF inv d H z])
  have "length (chunk_root H depth (chunks32 arg n)) = 32"
    by (rule length_chunk_root) (use H chunks32_len [OF arg] in auto)
  moreover have "n < uint64_limit" by (rule btoi_less [OF a0])
  ultimately have mix: "mix_in_length H (chunk_root H depth (chunks32 arg n)) n =
      Inr (H (chunk_root H depth (chunks32 arg n) @ rev (be_bytes 32 n)))"
    by (rule mix_in_length_eq)
  have "uadd depth 1 = Inr (Suc depth)" using d by (simp add: uadd_def uint64_limit_def)
  then show ?thesis
    by (simp add: merkleize_benchmark_def a0 a2 st push fin mix del: replicate.simps zero_state_loop.simps)
qed

section \<open>Binding\<close>

text \<open>The messages hashed for a reference root, and what a root of a full list determines.\<close>

fun root_msgs :: "(bytes \<Rightarrow> bytes) \<Rightarrow> nat \<Rightarrow> bytes list \<Rightarrow> bytes set" where
  "root_msgs H 0 cs = {}"
| "root_msgs H (Suc d) cs =
     insert (chunk_root H d (take (2 ^ d) cs) @ chunk_root H d (drop (2 ^ d) cs))
       (root_msgs H d (take (2 ^ d) cs) \<union> root_msgs H d (drop (2 ^ d) cs))"

lemma chunk_root_binding:
  assumes "length cs = 2 ^ d" "length ds = 2 ^ d" and "\<forall>c\<in>set cs. length c = 32" "\<forall>c\<in>set ds. length c = 32"
    and H: "\<And>x. length (H x) = 32" and "inj_on H (root_msgs H d cs \<union> root_msgs H d ds)"
    and "chunk_root H d cs = chunk_root H d ds"
  shows "cs = ds"
  using assms(1-4,6,7)
proof (induction d arbitrary: cs ds)
  case 0
  then show ?case by (cases cs; cases ds) auto
next
  case (Suc d)
  let ?tc = "take (2 ^ d) cs" and ?dc = "drop (2 ^ d) cs" and ?td = "take (2 ^ d) ds" and ?dd = "drop (2 ^ d) ds"
  have l: "length ?tc = 2 ^ d" "length ?dc = 2 ^ d" "length ?td = 2 ^ d" "length ?dd = 2 ^ d"
    using Suc.prems(1,2) by simp_all
  have w: "\<forall>c\<in>set ?tc. length c = 32" "\<forall>c\<in>set ?dc. length c = 32" "\<forall>c\<in>set ?td. length c = 32" "\<forall>c\<in>set ?dd. length c = 32"
    using Suc.prems(3,4) by (auto dest: in_set_takeD in_set_dropD)
  have "chunk_root H d ?tc @ chunk_root H d ?dc = chunk_root H d ?td @ chunk_root H d ?dd"
    by (rule inj_onD [OF Suc.prems(5)]) (use Suc.prems(6) in simp_all)
  moreover have "length (chunk_root H d ?tc) = length (chunk_root H d ?td)"
    using length_chunk_root [where H = H] H w by simp
  ultimately have eq: "chunk_root H d ?tc = chunk_root H d ?td" "chunk_root H d ?dc = chunk_root H d ?dd" by simp_all
  have "?tc = ?td"
    by (rule Suc.IH [OF l(1,3) w(1,3) _ eq(1)]) (rule inj_on_subset [OF Suc.prems(5)], auto)
  moreover have "?dc = ?dd"
    by (rule Suc.IH [OF l(2,4) w(2,4) _ eq(2)]) (rule inj_on_subset [OF Suc.prems(5)], auto)
  ultimately show ?case by (metis append_take_drop_id)
qed

end
