(* ===== verification/Props_SSZ.thy ===== *)
theory Props_SSZ
  imports SSZ_Tree SSZ_Merkleize
begin

text \<open>
  The properties of the SSZ Merkle primitives: what a normalized branch proves, that its wire form
  is unique, and that streaming merkleization computes the reference root.
\<close>

section \<open>Branch proofs\<close>

text \<open>
C5: what a normalized branch proves. Against the root of a Merkle tree that has a node at the
generalized index, the verifier accepts a leaf and a branch exactly when the leaf is the root of
that node's subtree and the branch is a whole number of all-zero padding slots followed by the
tree's own siblings, deepest first. The hash is only assumed injective on the messages the two
folds hash.
\<close>

theorem normalized_branch_accepts:
  assumes "\<And>x. length (H x) = 32" and "wf_tree t" and "1 \<le> g" "bitlen g \<le> 62" and "node_at t g = Some u"
    and "length leaf = 32"
    and "inj_on H (branch_msgs H t u leaf (drop (length branch - 32 * gdepth g) branch) g)"
  shows "assert_valid_normalized_merkle_branch H leaf branch g (tree_root H t) = Inr () \<longleftrightarrow>
    leaf = tree_root H u \<and> (\<exists>m. branch = replicate (32 * m) 0 @ concat (tree_sibs H t g))"
proof -
  note fold = fold_iff_tree [where H = H, OF assms(1,2,3,5,6)]
  have rl: "length (tree_root H t) = 32" by (rule length_tree_root [OF assms(2,1)])
  have sl: "length (concat (tree_sibs H t g)) = 32 * gdepth g"
    using tree_sibs_len [where H = H, OF assms(2,3,5,1)] concat_len32 [of "tree_sibs H t g"]
    by (simp add: length_tree_sibs [OF assms(3)])
  have "(\<exists>m real. branch = replicate (32 * m) 0 @ real \<and> length real = 32 * gdepth g \<and>
        fold_sibs H leaf (chunks32 real (gdepth g)) g = tree_root H t) \<longleftrightarrow>
      leaf = tree_root H u \<and> (\<exists>m. branch = replicate (32 * m) 0 @ concat (tree_sibs H t g))" (is "?l \<longleftrightarrow> ?r")
  proof
    assume ?l
    then obtain m real where r: "branch = replicate (32 * m) 0 @ real" "length real = 32 * gdepth g"
      "fold_sibs H leaf (chunks32 real (gdepth g)) g = tree_root H t" by blast
    have "drop (length branch - 32 * gdepth g) branch = real" using r(1,2) by simp
    then have "inj_on H (branch_msgs H t u leaf real g)" using assms(7) by simp
    with fold [OF r(2)] r show ?r by blast
  next
    assume ?r
    then obtain m where r: "leaf = tree_root H u" "branch = replicate (32 * m) 0 @ concat (tree_sibs H t g)" by blast
    have "drop (length branch - 32 * gdepth g) branch = concat (tree_sibs H t g)" using r(2) sl by simp
    then have "inj_on H (branch_msgs H t u leaf (concat (tree_sibs H t g)) g)" using assms(7) by simp
    with fold [OF sl] r(1) have "fold_sibs H leaf (chunks32 (concat (tree_sibs H t g)) (gdepth g)) g = tree_root H t"
      by simp
    with r(2) sl show ?l by blast
  qed
  then show ?thesis using assms(3,4,6) rl by (simp add: assert_normalized_eq [OF assms(1)])
qed

theorem normalized_branch_accepts_witness:
  "assert_valid_normalized_merkle_branch head_hash (ssz_leaf 1) (replicate 32 0 @ ssz_leaf 2) 2
     (head_hash (ssz_leaf 1 @ ssz_leaf 2)) = Inr ()"
proof -
  let ?t = "MNode (MLeaf (ssz_leaf 1)) (MLeaf (ssz_leaf 2))"
  have len: "length (replicate 32 0 @ ssz_leaf 2 :: bytes) - 32 * gdepth 2 = 32" by (simp add: gdepth_2)
  have "chunks32 (ssz_leaf 2) 1 = [ssz_leaf 2]" by (simp add: numeral_eq_Suc)
  then have "branch_msgs head_hash ?t (MLeaf (ssz_leaf 1)) (ssz_leaf 1)
      (drop (length (replicate 32 0 @ ssz_leaf 2 :: bytes) - 32 * gdepth 2) (replicate 32 0 @ ssz_leaf 2)) 2
      = {ssz_leaf 1 @ ssz_leaf 2}"
    unfolding len by (simp add: branch_msgs_def gdepth_2 tree_sibs_2)
  then have "inj_on head_hash (branch_msgs head_hash ?t (MLeaf (ssz_leaf 1)) (ssz_leaf 1)
      (drop (length (replicate 32 0 @ ssz_leaf 2 :: bytes) - 32 * gdepth 2) (replicate 32 0 @ ssz_leaf 2)) 2)"
    by (simp only: inj_on_insert inj_on_empty) simp
  from normalized_branch_accepts [where H = head_hash and t = ?t and g = 2 and u = "MLeaf (ssz_leaf 1)",
      OF length_head_hash _ _ _ _ _ this]
  show ?thesis
    by (auto simp: bitlen_2 node_at_2 tree_sibs_2 intro!: exI [of _ 1])
qed

text \<open>
One wire form per statement. For a given leaf, generalized index, root and branch length, at
most one branch is accepted: the padding slots leave no freedom. So an accepted update has no
second encoding of the same length.
\<close>

theorem normalized_branch_unique:
  assumes "\<And>x. length (H x) = 32"
    and "assert_valid_normalized_merkle_branch H leaf b1 g root = Inr ()"
    and "assert_valid_normalized_merkle_branch H leaf b2 g root = Inr ()"
    and "length b1 = length b2"
    and "inj_on H (set (fold_msgs H leaf (chunks32 (drop (length b1 - 32 * gdepth g) b1) (gdepth g)) g) \<union>
                  set (fold_msgs H leaf (chunks32 (drop (length b2 - 32 * gdepth g) b2) (gdepth g)) g))"
  shows "b1 = b2"
proof -
  from assms(2) obtain m r where r: "b1 = replicate (32 * m) 0 @ r" "length r = 32 * gdepth g"
      "fold_sibs H leaf (chunks32 r (gdepth g)) g = root" and leaf: "length leaf = 32"
    by (auto simp: assert_normalized_eq [OF assms(1)])
  from assms(3) obtain k s where s: "b2 = replicate (32 * k) 0 @ s" "length s = 32 * gdepth g"
      "fold_sibs H leaf (chunks32 s (gdepth g)) g = root"
    by (auto simp: assert_normalized_eq [OF assms(1)])
  have "m = k" using assms(4) r s by simp
  have d: "drop (length b1 - 32 * gdepth g) b1 = r" "drop (length b2 - 32 * gdepth g) b2 = s"
    using r s by auto
  have "chunks32 r (gdepth g) = chunks32 s (gdepth g)"
  proof -
    have eq: "fold_sibs H leaf (chunks32 r (gdepth g)) g = fold_sibs H leaf (chunks32 s (gdepth g)) g"
      using r(3) s(3) by simp
    have inj: "inj_on H (set (fold_msgs H leaf (chunks32 r (gdepth g)) g) \<union>
        set (fold_msgs H leaf (chunks32 s (gdepth g)) g))"
      using assms(5) unfolding d .
    have l32: "\<forall>x\<in>set (chunks32 r (gdepth g)) \<union> set (chunks32 s (gdepth g)). length x = 32"
      using chunks32_len [OF r(2)] chunks32_len [OF s(2)] by blast
    have "leaf = leaf \<and> chunks32 r (gdepth g) = chunks32 s (gdepth g)"
      by (rule fold_sibs_binding [where n = 32, OF eq _ refl l32 leaf assms(1) inj]) simp
    then show ?thesis by simp
  qed
  then have "r = s" using concat_chunks32 [OF r(2)] concat_chunks32 [OF s(2)] by metis
  then show ?thesis unfolding r(1) s(1) \<open>m = k\<close> by (rule arg_cong)
qed

theorem normalized_branch_unique_witness:
  "\<exists>b1 b2. b1 = ssz_leaf 2 \<and> length b1 = length b2 \<and>
     assert_valid_normalized_merkle_branch head_hash (ssz_leaf 1) b1 2 (head_hash (ssz_leaf 1 @ ssz_leaf 2)) = Inr () \<and>
     assert_valid_normalized_merkle_branch head_hash (ssz_leaf 1) b2 2 (head_hash (ssz_leaf 1 @ ssz_leaf 2)) = Inr () \<and>
     b1 = b2"
proof -
  have c: "chunks32 (ssz_leaf 2) 1 = [ssz_leaf 2]" by (simp add: numeral_eq_Suc)
  have ok: "assert_valid_normalized_merkle_branch head_hash (ssz_leaf 1) (ssz_leaf 2) 2
       (head_hash (ssz_leaf 1 @ ssz_leaf 2)) = Inr ()"
    using c by (auto simp: assert_normalized_eq bitlen_2 gdepth_2 intro!: exI [of _ 0] exI [of _ "ssz_leaf 2"])
  have "inj_on head_hash (set (fold_msgs head_hash (ssz_leaf 1)
        (chunks32 (drop (length (ssz_leaf 2) - 32 * gdepth 2) (ssz_leaf 2)) (gdepth 2)) 2) \<union>
      set (fold_msgs head_hash (ssz_leaf 1)
        (chunks32 (drop (length (ssz_leaf 2) - 32 * gdepth 2) (ssz_leaf 2)) (gdepth 2)) 2))"
    by (simp add: gdepth_2)
  from normalized_branch_unique [OF length_head_hash ok ok refl this] ok show ?thesis by blast
qed

section \<open>Streaming merkleization\<close>

text \<open>
Streaming merkleization is merkleization. For every depth up to 62, every count of 32-byte
chunks up to the exactly full \<open>2^depth\<close>, and every hash that agrees with the program's zero-hash
table up to that depth, pushing the chunks one by one and finalizing never fails; it logs the root
of the zero-padded chunk list and the hash of that root with the 32-byte little-endian count.
\<close>

theorem merkleize_benchmark_correct:
  assumes "\<And>x. length (H x) = 32" and "zero_table_ok H depth" and "depth \<le> 62"
    and "n \<le> 2 ^ depth" and "length arg = 32 * n" and "btoi a0 = Inr n" and "btoi a2 = Inr depth"
  shows "merkleize_benchmark H a0 arg a2 =
    Inr (chunk_root H depth (chunks32 arg n), H (chunk_root H depth (chunks32 arg n) @ rev (be_bytes 32 n)))"
  by (rule benchmark_run [OF assms])

theorem merkleize_benchmark_correct_witness:
  "let H = (\<lambda>x. if x = zero_root 0 @ zero_root 0 then zero_root 1 else head_hash x) in
   merkleize_benchmark H [2] (ssz_leaf 1 @ ssz_leaf 2) [1] =
     Inr (H (ssz_leaf 1 @ ssz_leaf 2), H (H (ssz_leaf 1 @ ssz_leaf 2) @ rev (be_bytes 32 2)))"
proof -
  define H where "H = (\<lambda>x. if x = zero_root 0 @ zero_root 0 then zero_root 1 else head_hash x)"
  have "zero_table_ok H 1" by (simp add: zero_table_ok_def H_def)
  moreover have "\<And>x. length (H x) = 32" by (simp add: H_def)
  moreover have "chunks32 (ssz_leaf 1 @ ssz_leaf 2) 2 = [ssz_leaf 1, ssz_leaf 2]"
    using chunks32_concat [of "[ssz_leaf 1, ssz_leaf 2]"] by (simp add: numeral_2_eq_2)
  ultimately have "merkleize_benchmark H [2] (ssz_leaf 1 @ ssz_leaf 2) [1] =
      Inr (H (ssz_leaf 1 @ ssz_leaf 2), H (H (ssz_leaf 1 @ ssz_leaf 2) @ rev (be_bytes 32 2)))"
    using merkleize_benchmark_correct [where H = H and depth = 1 and n = 2 and arg = "ssz_leaf 1 @ ssz_leaf 2"
        and ?a0.0 = "[2]" and ?a2.0 = "[1]"]
    by (simp add: btoi_def be_val_def del: be_bytes.simps)
  then show ?thesis by (simp add: H_def Let_def del: be_bytes.simps)
qed

end
