(* ===== verification/Anchor_Record.thy ===== *)
theory Anchor_Record
  imports AVM
begin

text \<open>
  The anchor record \<open>A\<close> of \<open>contracts/state_anchor/record.py\<close> and \<open>constants.py\<close>: 154 bytes, its
  accessors, its construction and the comparison that tells an idempotent re-anchor from an
  equivocation.
\<close>

unbundle bit_operations_syntax

section \<open>Layout\<close>

definition RECORD_LEN :: nat where "RECORD_LEN = 154"
definition OFF_VERSION :: nat where "OFF_VERSION = 0"
definition OFF_FLAGS :: nat where "OFF_FLAGS = 1"
definition OFF_BLOCK_NUMBER :: nat where "OFF_BLOCK_NUMBER = 2"
definition OFF_BEACON_SLOT :: nat where "OFF_BEACON_SLOT = 10"
definition OFF_STATE_ROOT :: nat where "OFF_STATE_ROOT = 18"
definition OFF_RECEIPTS_ROOT :: nat where "OFF_RECEIPTS_ROOT = 50"
definition OFF_BEACON_BLOCK_ROOT :: nat where "OFF_BEACON_BLOCK_ROOT = 82"
definition OFF_FINALITY_ROOT :: nat where "OFF_FINALITY_ROOT = 114"
definition OFF_ANCHORED_ROUND :: nat where "OFF_ANCHORED_ROUND = 146"
definition VERSION_1 :: nat where "VERSION_1 = 1"
definition FLAG_REVOKED :: nat where "FLAG_REVOKED = 1"
definition FLAG_HISTORICAL :: nat where "FLAG_HISTORICAL = 2"

lemmas record_layout = RECORD_LEN_def OFF_VERSION_def OFF_FLAGS_def OFF_BLOCK_NUMBER_def OFF_BEACON_SLOT_def
  OFF_STATE_ROOT_def OFF_RECEIPTS_ROOT_def OFF_BEACON_BLOCK_ROOT_def OFF_FINALITY_ROOT_def
  OFF_ANCHORED_ROUND_def VERSION_1_def FLAG_REVOKED_def FLAG_HISTORICAL_def

section \<open>Accessors\<close>

definition a_version :: "bytes \<Rightarrow> nat res" where "a_version a = getbyte a OFF_VERSION"
definition a_flags :: "bytes \<Rightarrow> nat res" where "a_flags a = getbyte a OFF_FLAGS"

definition a_is_revoked :: "bytes \<Rightarrow> bool res" where
  "a_is_revoked a = rbind (a_flags a) (\<lambda>f. Inr (f AND FLAG_REVOKED \<noteq> 0))"

definition a_is_historical :: "bytes \<Rightarrow> bool res" where
  "a_is_historical a = rbind (a_flags a) (\<lambda>f. Inr (f AND FLAG_HISTORICAL \<noteq> 0))"

definition a_block_number :: "bytes \<Rightarrow> nat res" where
  "a_block_number a = rbind (bextract a OFF_BLOCK_NUMBER 8) btoi"

definition a_beacon_slot :: "bytes \<Rightarrow> nat res" where
  "a_beacon_slot a = rbind (bextract a OFF_BEACON_SLOT 8) btoi"

definition a_state_root :: "bytes \<Rightarrow> bytes res" where "a_state_root a = bextract a OFF_STATE_ROOT 32"
definition a_receipts_root :: "bytes \<Rightarrow> bytes res" where "a_receipts_root a = bextract a OFF_RECEIPTS_ROOT 32"
definition a_beacon_block_root :: "bytes \<Rightarrow> bytes res" where
  "a_beacon_block_root a = bextract a OFF_BEACON_BLOCK_ROOT 32"
definition a_finality_root :: "bytes \<Rightarrow> bytes res" where "a_finality_root a = bextract a OFF_FINALITY_ROOT 32"
definition a_anchored_round :: "bytes \<Rightarrow> nat res" where
  "a_anchored_round a = rbind (bextract a OFF_ANCHORED_ROUND 8) btoi"

definition a_matches_block_number :: "bytes \<Rightarrow> nat \<Rightarrow> bool res" where
  "a_matches_block_number a block_number = rbind (a_block_number a) (\<lambda>n. Inr (n = block_number))"

section \<open>Construction and comparison\<close>

definition build_record ::
  "bool \<Rightarrow> nat \<Rightarrow> nat \<Rightarrow> bytes \<Rightarrow> bytes \<Rightarrow> bytes \<Rightarrow> bytes \<Rightarrow> nat \<Rightarrow> bytes res" where
  "build_record historical block_number beacon_slot state_root receipts_root beacon_block_root
       finality_root anchored_round =
     check (length state_root = 32) ''N20-shape'' (
     check (length receipts_root = 32) ''N20-shape'' (
     check (length beacon_block_root = 32) ''N20-shape'' (
     check (length finality_root = 32) ''N20-shape'' (
     let flags = if historical then FLAG_HISTORICAL else 0 in
     Inr (low_byte VERSION_1 @ low_byte flags @ itob block_number @ itob beacon_slot @ state_root
       @ receipts_root @ beacon_block_root @ finality_root @ itob anchored_round)))))"

definition record_content_matches :: "bytes \<Rightarrow> bytes \<Rightarrow> bool res" where
  "record_content_matches existing candidate =
     rbind (a_flags existing) (\<lambda>ef.
     rbind (a_flags candidate) (\<lambda>cf.
     if ef AND not64 FLAG_REVOKED \<noteq> cf AND not64 FLAG_REVOKED then Inr False
     else
       rbind (a_version existing) (\<lambda>ev.
       rbind (a_version candidate) (\<lambda>cv.
       if ev \<noteq> cv then Inr False
       else
         rbind (bextract existing 2 144) (\<lambda>ex.
         rbind (bextract candidate 2 144) (\<lambda>cx.
         if ex \<noteq> cx then Inr False else Inr True))))))"

section \<open>Reading a well-shaped record\<close>

text \<open>The fields as plain functions; on a 154-byte record the accessors return exactly these.\<close>

definition rec_version :: "bytes \<Rightarrow> nat" where "rec_version a = unat (a ! 0)"
definition rec_flags :: "bytes \<Rightarrow> nat" where "rec_flags a = unat (a ! 1)"
definition rec_revoked :: "bytes \<Rightarrow> bool" where "rec_revoked a = odd (rec_flags a)"
definition rec_block :: "bytes \<Rightarrow> nat" where "rec_block a = be_val (seg 2 8 a)"
definition rec_slot :: "bytes \<Rightarrow> nat" where "rec_slot a = be_val (seg 10 8 a)"

lemma a_version_eq [simp]: "length a = 154 \<Longrightarrow> a_version a = Inr (rec_version a)"
  by (simp add: a_version_def getbyte_def rec_version_def OFF_VERSION_def)

lemma a_flags_eq [simp]: "length a = 154 \<Longrightarrow> a_flags a = Inr (rec_flags a)"
  by (simp add: a_flags_def getbyte_def rec_flags_def OFF_FLAGS_def)

lemma a_is_revoked_eq [simp]: "length a = 154 \<Longrightarrow> a_is_revoked a = Inr (rec_revoked a)"
  by (simp add: a_is_revoked_def rec_revoked_def FLAG_REVOKED_def and_one_eq odd_iff_mod_2_eq_one)

lemma a_block_number_eq [simp]: "length a = 154 \<Longrightarrow> a_block_number a = Inr (rec_block a)"
  by (simp add: a_block_number_def rec_block_def OFF_BLOCK_NUMBER_def bextract_def btoi_def)

lemma a_beacon_slot_eq [simp]: "length a = 154 \<Longrightarrow> a_beacon_slot a = Inr (rec_slot a)"
  by (simp add: a_beacon_slot_def rec_slot_def OFF_BEACON_SLOT_def bextract_def btoi_def)

lemma a_matches_eq [simp]: "length a = 154 \<Longrightarrow> a_matches_block_number a n = Inr (rec_block a = n)"
  by (simp add: a_matches_block_number_def)

lemma rec_block_less: "length a = 154 \<Longrightarrow> rec_block a < uint64_limit"
  using be_val_less [of "seg 2 8 a"] by (simp add: rec_block_def uint64_limit_def)

lemma rec_version_less [simp]: "rec_version a < 256"
  by (simp add: rec_version_def)

lemma rec_flags_less [simp]: "rec_flags a < 256"
  by (simp add: rec_flags_def)

lemma and_not_revoked: "f < 256 \<Longrightarrow> f AND not64 FLAG_REVOKED = 2 * (f div 2)"
proof -
  assume f: "f < 256"
  have n: "not64 FLAG_REVOKED = 2 * mask 63"
    by (simp add: not64_def FLAG_REVOKED_def uint64_limit_def mask_eq_exp_minus_1)
  have "(f div 2) AND mask 63 = f div 2"
    using f by (simp flip: take_bit_eq_mask add: take_bit_nat_eq_self_iff)
  then have "f AND 2 * mask 63 = 2 * (f div 2)" by (subst and_rec) simp
  with n show ?thesis by simp
qed

text \<open>The comparison ignores exactly the revoked bit and the round.\<close>

definition same_content :: "bytes \<Rightarrow> bytes \<Rightarrow> bool" where
  "same_content a b \<longleftrightarrow> rec_flags a div 2 = rec_flags b div 2 \<and> rec_version a = rec_version b \<and>
     seg 2 144 a = seg 2 144 b"

lemma record_content_matches_eq:
  "length a = 154 \<Longrightarrow> length b = 154 \<Longrightarrow> record_content_matches a b = Inr (same_content a b)"
  by (simp add: record_content_matches_def same_content_def and_not_revoked bextract_def)

lemma same_content_block: "same_content a b \<Longrightarrow> rec_block a = rec_block b"
proof -
  assume "same_content a b"
  then have "seg 0 8 (seg 2 144 a) = seg 0 8 (seg 2 144 b)" by (simp add: same_content_def)
  then show ?thesis by (simp add: rec_block_def seg_seg)
qed

section \<open>A built record\<close>

lemma build_record_Inr:
  "build_record h n s sr rr br fr rd = Inr a \<longleftrightarrow>
   length sr = 32 \<and> length rr = 32 \<and> length br = 32 \<and> length fr = 32 \<and>
   a = low_byte 1 @ low_byte (if h then 2 else 0) @ itob n @ itob s @ sr @ rr @ br @ fr @ itob rd"
  by (auto simp: build_record_def res_simps Let_def VERSION_1_def FLAG_HISTORICAL_def)

lemma build_record_fields:
  assumes "build_record h n s sr rr br fr rd = Inr a" and "n < uint64_limit" and "s < uint64_limit"
  shows "length a = 154" and "rec_version a = 1" and "rec_flags a = (if h then 2 else 0)"
    and "rec_block a = n" and "rec_slot a = s" and "\<not> rec_revoked a"
    and "seg 18 32 a = sr" and "seg 50 32 a = rr" and "seg 82 32 a = br" and "seg 114 32 a = fr"
proof -
  from assms(1) have l: "length sr = 32" "length rr = 32" "length br = 32" "length fr = 32"
    and a: "a = low_byte 1 @ low_byte (if h then 2 else 0) @ itob n @ itob s @ sr @ rr @ br @ fr @ itob rd"
    by (auto simp: build_record_Inr)
  have iv: "be_val (itob v) = v" if "v < uint64_limit" for v
    using btoi_itob [OF that] by (simp add: btoi_def)
  show "length a = 154" using l by (simp add: a)
  show v: "rec_version a = 1" by (simp add: a rec_version_def low_byte_eq)
  show f: "rec_flags a = (if h then 2 else 0)" by (simp add: a rec_flags_def low_byte_eq)
  show "rec_block a = n" using assms(2) by (simp add: a rec_block_def seg_simps seg_append_left seg_append_right iv)
  show "rec_slot a = s" using assms(3) by (simp add: a rec_slot_def seg_simps iv)
  show "\<not> rec_revoked a" by (simp add: rec_revoked_def f)
  show "seg 18 32 a = sr" "seg 50 32 a = rr" "seg 82 32 a = br" "seg 114 32 a = fr"
    using l by (simp_all add: a seg_simps)
qed

text \<open>
  The hot ring and the pinned tier, \<open>contracts/state_anchor/box.py\<close>: box names, the admission and
  write decision for a candidate record, the fused anchoring flow, and the pinned copies. The
  boxes are threaded as the first argument and returned.
\<close>

unbundle bit_operations_syntax

definition RING_BOX_PREFIX :: bytes where "RING_BOX_PREFIX = [0x68, 0x3a]"
definition PIN_BOX_PREFIX :: bytes where "PIN_BOX_PREFIX = [0x70, 0x3a]"
definition PINNED_RECORD_LEN :: nat where "PINNED_RECORD_LEN = RECORD_LEN + 32"
definition OFF_PIN_PAYER :: nat where "OFF_PIN_PAYER = RECORD_LEN"

definition RING_WRITE_OK :: nat where "RING_WRITE_OK = 0"
definition RING_WRITE_IDEMPOTENT :: nat where "RING_WRITE_IDEMPOTENT = 1"
definition RING_WRITE_EQUIVOCATION :: nat where "RING_WRITE_EQUIVOCATION = 2"
definition RING_WRITE_REGRESSION :: nat where "RING_WRITE_REGRESSION = 3"

lemmas ring_codes = RING_WRITE_OK_def RING_WRITE_IDEMPOTENT_def RING_WRITE_EQUIVOCATION_def
  RING_WRITE_REGRESSION_def

definition ring_box_name :: "nat \<Rightarrow> bytes" where "ring_box_name residue = RING_BOX_PREFIX @ itob residue"
definition pin_box_name :: "nat \<Rightarrow> bytes" where "pin_box_name block_number = PIN_BOX_PREFIX @ itob block_number"

definition ring_residue :: "nat \<Rightarrow> nat \<Rightarrow> nat res" where
  "ring_residue block_number ring_n = rbind (usub ring_n 1) (\<lambda>m. Inr (block_number AND m))"

fun ring_init_loop :: "boxes \<Rightarrow> nat \<Rightarrow> nat \<Rightarrow> nat \<Rightarrow> boxes res" where
  "ring_init_loop bs cursor j 0 = Inr bs"
| "ring_init_loop bs cursor j (Suc k) =
     rbind (uadd cursor j) (\<lambda>r.
     rbind (box_create bs (ring_box_name r) RECORD_LEN) (\<lambda>(bs', _).
     ring_init_loop bs' cursor (j + 1) k))"

definition ring_init_chunk :: "boxes \<Rightarrow> nat \<Rightarrow> nat \<Rightarrow> (boxes \<times> nat) res" where
  "ring_init_chunk bs cursor k =
     rbind (ring_init_loop bs cursor 0 k) (\<lambda>bs'.
     rbind (uadd cursor k) (\<lambda>c. Inr (bs', c)))"

definition ring_admit_and_write :: "boxes \<Rightarrow> nat \<Rightarrow> nat \<Rightarrow> bytes \<Rightarrow> (boxes \<times> nat \<times> bytes) res" where
  "ring_admit_and_write bs ring_n hi_block candidate =
     rbind (a_block_number candidate) (\<lambda>new_block.
     rbind (uadd new_block ring_n) (\<lambda>lim.
     check (hi_block < lim) ''N-ADMIT'' (
     rbind (ring_residue new_block ring_n) (\<lambda>residue.
     let box_name = ring_box_name residue in
     rbind (box_extract bs box_name 0 RECORD_LEN) (\<lambda>existing.
     rbind (a_block_number existing) (\<lambda>ex_block.
     rbind (getbyte existing 0) (\<lambda>ex_version.
     if ex_version = 0 then
       rbind (box_replace bs box_name 0 candidate) (\<lambda>bs'. Inr (bs', RING_WRITE_OK, candidate))
     else if ex_block = new_block then
       rbind (record_content_matches existing candidate) (\<lambda>same.
       if same then Inr (bs, RING_WRITE_IDEMPOTENT, existing)
       else Inr (bs, RING_WRITE_EQUIVOCATION, existing))
     else if ex_block < new_block then
       rbind (box_replace bs box_name 0 candidate) (\<lambda>bs'. Inr (bs', RING_WRITE_OK, candidate))
     else Inr (bs, RING_WRITE_REGRESSION, existing))))))))"

text \<open>The result: boxes, conflict flag, result record, high block, high slot, whether a record was written.\<close>

definition finish_anchor_flow ::
  "boxes \<Rightarrow> nat \<Rightarrow> nat \<Rightarrow> nat \<Rightarrow> nat \<Rightarrow> nat \<Rightarrow> nat \<Rightarrow> bytes \<Rightarrow>
   (boxes \<times> nat \<times> bytes \<times> nat \<times> nat \<times> nat) res" where
  "finish_anchor_flow bs ring_cursor ring_n frozen conflict hi_block hi_slot candidate =
     check (ring_cursor = ring_n) ''N10'' (
     check (frozen = 0) ''N11'' (
     check (conflict = 0) ''N22'' (
     rbind (ring_admit_and_write bs ring_n hi_block candidate) (\<lambda>(bs', outcome, result).
     if outcome = RING_WRITE_EQUIVOCATION then Inr (bs', 1, result, hi_block, hi_slot, 0)
     else
       check (outcome \<noteq> RING_WRITE_REGRESSION) ''N21'' (
       if outcome = RING_WRITE_OK then
         rbind (a_block_number result) (\<lambda>new_block.
         rbind (a_beacon_slot result) (\<lambda>new_slot.
         if new_block > hi_block then
           check (hi_slot < new_slot) ''N-ADMIT-monotonic'' (Inr (bs', conflict, result, new_block, new_slot, 1))
         else Inr (bs', conflict, result, hi_block, hi_slot, 1)))
       else Inr (bs', conflict, result, hi_block, hi_slot, 0))))))"

definition read_ring_slot :: "boxes \<Rightarrow> nat \<Rightarrow> nat \<Rightarrow> bytes res" where
  "read_ring_slot bs ring_n block_number =
     rbind (ring_residue block_number ring_n) (\<lambda>residue.
     box_extract bs (ring_box_name residue) 0 RECORD_LEN)"

definition pin_write :: "boxes \<Rightarrow> nat \<Rightarrow> bytes \<Rightarrow> bytes \<Rightarrow> boxes res" where
  "pin_write bs block_number record payer =
     check (length payer = 32) ''N24'' (
     let name = pin_box_name block_number in
     rbind (box_create bs name PINNED_RECORD_LEN) (\<lambda>(bs', _).
     box_replace bs' name 0 (record @ payer)))"

definition pin_read_maybe :: "boxes \<Rightarrow> nat \<Rightarrow> (bool \<times> bytes \<times> bytes) res" where
  "pin_read_maybe bs block_number =
     (let name = pin_box_name block_number; (_, exists) = box_length bs name in
      if \<not> exists then Inr (False, [], [])
      else
        rbind (box_extract bs name 0 PINNED_RECORD_LEN) (\<lambda>raw.
        Inr (True, bslice raw 0 RECORD_LEN, bslice raw OFF_PIN_PAYER (OFF_PIN_PAYER + 32))))"

definition pin_delete :: "boxes \<Rightarrow> nat \<Rightarrow> boxes" where
  "pin_delete bs block_number = fst (box_delete bs (pin_box_name block_number))"

section \<open>Names and residues\<close>

lemma ring_name_inj: "r < uint64_limit \<Longrightarrow> s < uint64_limit \<Longrightarrow> ring_box_name r = ring_box_name s \<longleftrightarrow> r = s"
  by (simp add: ring_box_name_def itob_inj)

lemma pin_name_inj: "r < uint64_limit \<Longrightarrow> s < uint64_limit \<Longrightarrow> pin_box_name r = pin_box_name s \<longleftrightarrow> r = s"
  by (simp add: pin_box_name_def itob_inj)

lemma ring_pin_names [simp]: "ring_box_name r \<noteq> pin_box_name s" "pin_box_name s \<noteq> ring_box_name r"
  by (simp_all add: ring_box_name_def pin_box_name_def RING_BOX_PREFIX_def PIN_BOX_PREFIX_def)

lemma residue_eq: "ring_residue b (2 ^ k) = Inr (b mod 2 ^ k)"
proof -
  have "b AND (2 ^ k - 1) = b mod 2 ^ k"
    by (simp only: mask_eq_exp_minus_1 [symmetric] take_bit_eq_mask [symmetric] take_bit_eq_mod)
  then show ?thesis by (simp add: ring_residue_def usub_def)
qed

text \<open>The check of \<open>create\<close>: a nonzero \<open>n\<close> with \<open>n AND (n - 1) = 0\<close> is a power of two.\<close>

lemma power_of_two: "0 < n \<Longrightarrow> n AND (n - 1) = 0 \<Longrightarrow> \<exists>k. n = (2::nat) ^ k"
proof (induction n rule: less_induct)
  case (less n)
  show ?case
  proof (cases "even n")
    case True
    then obtain m where m: "n = 2 * m" by blast
    with less.prems have m0: "0 < m" by simp
    have "n - 1 = 2 * (m - 1) + 1" using m m0 by simp
    then have "(n - 1) div 2 = m - 1" by simp
    then have "n AND (n - 1) = 2 * (m AND (m - 1))" using m by (subst and_rec) simp
    then have "m AND (m - 1) = 0" using less.prems by simp
    then obtain k where "m = 2 ^ k" using less.IH [of m] m m0 by auto
    then show ?thesis using m by (intro exI [of _ "Suc k"]) simp
  next
    case False
    then obtain m where m: "n = 2 * m + 1" using oddE by blast
    have "n AND (n - 1) = 2 * m" using m by (subst and_rec) simp
    then show ?thesis using less.prems m by (intro exI [of _ 0]) simp
  qed
qed

end
