(* ===== verification/SC_Header.thy ===== *)
theory SC_Header
  imports SSZ_Tree SSZ_Merkleize
begin

text \<open>
  Beacon block headers and signing domains: \<open>contracts/sync_committee/header.py\<close> and the presets and
  epoch arithmetic of \<open>contracts/sync_committee/constants.py\<close>. The reference is the SSZ Merkle tree of
  the five header fields. Concatenations here have constant lengths far below the 4096-byte cap, so
  they are plain list appends.
\<close>

section \<open>Presets and epochs\<close>

definition SYNC_COMMITTEE_SIZE :: nat where "SYNC_COMMITTEE_SIZE = 512"
definition SYNC_COMMITTEE_BITS_BYTES :: nat where "SYNC_COMMITTEE_BITS_BYTES = SYNC_COMMITTEE_SIZE div 8"
definition SLOTS_PER_EPOCH :: nat where "SLOTS_PER_EPOCH = 32"
definition EPOCHS_PER_SYNC_COMMITTEE_PERIOD :: nat where "EPOCHS_PER_SYNC_COMMITTEE_PERIOD = 256"
definition BEACON_HEADER_BYTES :: nat where "BEACON_HEADER_BYTES = 112"

definition domain_sync_committee :: bytes where
  "domain_sync_committee = [0x07, 0x00, 0x00, 0x00]"

definition epoch_at_slot :: "nat \<Rightarrow> nat" where
  "epoch_at_slot slot = slot div SLOTS_PER_EPOCH"

definition period_at_epoch :: "nat \<Rightarrow> nat" where
  "period_at_epoch epoch = epoch div EPOCHS_PER_SYNC_COMMITTEE_PERIOD"

definition period_at_slot :: "nat \<Rightarrow> nat" where
  "period_at_slot slot = period_at_epoch (epoch_at_slot slot)"

text \<open>The fork version is resolved one slot before the signature slot.\<close>

definition fork_version_epoch_for_signature_slot :: "nat \<Rightarrow> nat" where
  "fork_version_epoch_for_signature_slot signature_slot =
     epoch_at_slot (if 1 \<le> signature_slot then signature_slot - 1 else 0)"

lemma period_at_slot_eq: "period_at_slot s = s div 8192"
  by (simp add: period_at_slot_def period_at_epoch_def epoch_at_slot_def SLOTS_PER_EPOCH_def
      EPOCHS_PER_SYNC_COMMITTEE_PERIOD_def flip: div_mult2_eq)

section \<open>Headers\<close>

text \<open>The loops of \<open>le64\<close> and \<open>be64_from_le\<close> append the bytes of the reversed input one by one.\<close>

definition le64 :: "nat \<Rightarrow> bytes" where
  "le64 x = rev (itob x)"

definition be64_from_le :: "bytes \<Rightarrow> nat res" where
  "be64_from_le chunk_bytes8 =
     check (length chunk_bytes8 = 8) ''chunk length'' (btoi (rev chunk_bytes8))"

definition header_slot :: "bytes \<Rightarrow> nat res" where
  "header_slot header =
     check (length header = BEACON_HEADER_BYTES) ''header length'' (be64_from_le (bslice header 0 8))"

definition hash_tree_root_beacon_block_header :: "(bytes \<Rightarrow> bytes) \<Rightarrow> bytes \<Rightarrow> bytes res" where
  "hash_tree_root_beacon_block_header H header =
     check (length header = BEACON_HEADER_BYTES) ''header length'' (
     let slot_chunk = bslice header 0 8 @ replicate 24 0;
         proposer_chunk = bslice header 8 16 @ replicate 24 0;
         parent_root = bslice header 16 48;
         state_root = bslice header 48 80;
         body_root = bslice header 80 112 in
     rbind (zero_hash 0) (\<lambda>zero_leaf.
     let l0 = H (slot_chunk @ proposer_chunk);
         l1 = H (parent_root @ state_root);
         l2 = H (body_root @ zero_leaf);
         l3 = H (zero_leaf @ zero_leaf);
         n0 = H (l0 @ l1);
         n1 = H (l2 @ l3) in
     Inr (H (n0 @ n1))))"

definition compute_fork_data_root :: "(bytes \<Rightarrow> bytes) \<Rightarrow> bytes \<Rightarrow> bytes \<Rightarrow> bytes res" where
  "compute_fork_data_root H current_version genesis_validators_root =
     check (length current_version = 4) ''current_version length'' (
     check (length genesis_validators_root = 32) ''genesis_validators_root length'' (
     Inr (H (current_version @ replicate 28 0 @ genesis_validators_root))))"

definition compute_domain :: "(bytes \<Rightarrow> bytes) \<Rightarrow> bytes \<Rightarrow> bytes \<Rightarrow> bytes \<Rightarrow> bytes res" where
  "compute_domain H domain_type fork_version genesis_validators_root =
     check (length domain_type = 4) ''domain_type length'' (
     rbind (compute_fork_data_root H fork_version genesis_validators_root) (\<lambda>fork_data_root.
     Inr (domain_type @ bslice fork_data_root 0 28)))"

definition compute_signing_root :: "(bytes \<Rightarrow> bytes) \<Rightarrow> bytes \<Rightarrow> bytes \<Rightarrow> bytes res" where
  "compute_signing_root H header domain =
     check (length domain = 32) ''domain length'' (
     rbind (hash_tree_root_beacon_block_header H header) (\<lambda>object_root.
     Inr (H (object_root @ domain))))"

text \<open>The whole pipeline up to the curve point; hashing to the curve is the parameter \<open>hash_to_g2\<close>.\<close>

definition signing_root_msg_point ::
  "(bytes \<Rightarrow> bytes) \<Rightarrow> (bytes \<Rightarrow> bytes res) \<Rightarrow> bytes \<Rightarrow> bytes \<Rightarrow> bytes \<Rightarrow> bytes res" where
  "signing_root_msg_point H hash_to_g2 header fork_version genesis_validators_root =
     rbind (compute_domain H domain_sync_committee fork_version genesis_validators_root) (\<lambda>domain.
     rbind (compute_signing_root H header domain) (\<lambda>signing_root.
     hash_to_g2 signing_root))"

section \<open>The header as a Merkle tree\<close>

definition header_tree :: "bytes \<Rightarrow> mtree" where
  "header_tree h = MNode
     (MNode (MNode (MLeaf (seg 0 8 h @ replicate 24 0)) (MLeaf (seg 8 8 h @ replicate 24 0)))
            (MNode (MLeaf (seg 16 32 h)) (MLeaf (seg 48 32 h))))
     (MNode (MNode (MLeaf (seg 80 32 h)) (MLeaf zero32)) (MNode (MLeaf zero32) (MLeaf zero32)))"

text \<open>The messages hashed along a tree.\<close>

fun tree_msgs :: "(bytes \<Rightarrow> bytes) \<Rightarrow> mtree \<Rightarrow> bytes set" where
  "tree_msgs H (MLeaf b) = {}"
| "tree_msgs H (MNode l r) = insert (tree_root H l @ tree_root H r) (tree_msgs H l \<union> tree_msgs H r)"

fun same_shape :: "mtree \<Rightarrow> mtree \<Rightarrow> bool" where
  "same_shape (MLeaf _) (MLeaf _) = True"
| "same_shape (MNode l r) (MNode l' r') = (same_shape l l' \<and> same_shape r r')"
| "same_shape _ _ = False"

text \<open>Merkle trees of one shape with one root are equal, as far as the hash does not collide on them.\<close>

lemma tree_root_binding:
  assumes "same_shape t u" and "wf_tree t" "wf_tree u" and H: "\<And>x. length (H x) = 32"
    and "inj_on H (tree_msgs H t \<union> tree_msgs H u)" and "tree_root H t = tree_root H u"
  shows "t = u"
  using assms(1,2,3,5,6)
proof (induction t u rule: same_shape.induct)
  case (2 l r l' r')
  have len: "length (tree_root H l) = 32" "length (tree_root H l') = 32"
    using 2(4,5) length_tree_root [of l H] length_tree_root [of l' H] H by simp_all
  have "tree_root H l @ tree_root H r = tree_root H l' @ tree_root H r'"
    by (rule inj_onD [OF 2(6)]) (use 2(7) in simp_all)
  then have eq: "tree_root H l = tree_root H l'" "tree_root H r = tree_root H r'" using len by simp_all
  have "l = l'" by (rule 2(1)) (use 2(3-5) eq in \<open>auto intro: inj_on_subset [OF 2(6)]\<close>)
  moreover have "r = r'" by (rule 2(2)) (use 2(3-5) eq in \<open>auto intro: inj_on_subset [OF 2(6)]\<close>)
  ultimately show ?case by simp
qed simp_all

lemma htr_header_eq:
  "hash_tree_root_beacon_block_header H h = Inr r \<longleftrightarrow> length h = 112 \<and> r = tree_root H (header_tree h)"
  by (auto simp: hash_tree_root_beacon_block_header_def res_simps zero_hash_eq zero_root_0 header_tree_def
      BEACON_HEADER_BYTES_def bslice_def Let_def)

lemma wf_header_tree: "length h = 112 \<Longrightarrow> wf_tree (header_tree h)"
  by (simp add: header_tree_def)

lemma same_shape_header: "same_shape (header_tree h) (header_tree h')"
  by (simp add: header_tree_def)

lemma header_tree_inj:
  assumes "length h = 112" "length h' = 112" and "header_tree h = header_tree h'"
  shows "h = h'"
proof -
  have "h = seg 0 8 h @ seg 8 8 h @ seg 16 32 h @ seg 48 32 h @ seg 80 32 h" if "length h = 112" for h :: bytes
    using that seg_add [of 0 8 104 h] seg_add [of 8 8 96 h] seg_add [of 16 32 64 h] seg_add [of 48 32 32 h]
    by simp
  from this [OF assms(1)] this [OF assms(2)] show ?thesis
    using assms by (simp add: header_tree_def)
qed

lemma htr_header_inj:
  assumes "hash_tree_root_beacon_block_header H h = Inr r" and "hash_tree_root_beacon_block_header H h' = Inr r"
    and H: "\<And>x. length (H x) = 32"
    and inj: "inj_on H (tree_msgs H (header_tree h) \<union> tree_msgs H (header_tree h'))"
  shows "h = h'"
proof -
  from assms(1,2) have l: "length h = 112" "length h' = 112"
    and eq: "tree_root H (header_tree h) = tree_root H (header_tree h')"
    by (auto simp: htr_header_eq)
  have "header_tree h = header_tree h'"
    by (rule tree_root_binding [where H = H, OF same_shape_header wf_header_tree [OF l(1)] wf_header_tree [OF l(2)] H inj eq])
  then show ?thesis by (rule header_tree_inj [OF l])
qed

section \<open>Endianness\<close>

lemma length_le64 [simp]: "length (le64 x) = 8"
  by (simp add: le64_def)

lemma be64_le64: "x < uint64_limit \<Longrightarrow> be64_from_le (le64 x) = Inr x"
  by (simp add: be64_from_le_def le64_def)

lemma le64_inj: "x < uint64_limit \<Longrightarrow> y < uint64_limit \<Longrightarrow> le64 x = le64 y \<longleftrightarrow> x = y"
  by (simp add: le64_def itob_inj)

lemma itob_be_val: "length xs = 8 \<Longrightarrow> itob (be_val xs) = xs"
  by (simp add: itob_def be_bytes_be_val)

lemma header_slot_eq:
  "header_slot h = Inr s \<longleftrightarrow> length h = 112 \<and> s < uint64_limit \<and> seg 0 8 h = le64 s"
proof -
  have "length h = 112 \<Longrightarrow> s < uint64_limit \<Longrightarrow> seg 0 8 h = le64 s \<longleftrightarrow> s = be_val (rev (seg 0 8 h))"
  proof -
    assume h: "length h = 112" and s: "s < uint64_limit"
    have l: "length (rev (seg 0 8 h)) = 8" using h by simp
    have "seg 0 8 h = le64 s \<longleftrightarrow> rev (seg 0 8 h) = itob s" unfolding le64_def by (metis rev_rev_ident)
    also have "\<dots> \<longleftrightarrow> itob (be_val (rev (seg 0 8 h))) = itob s" by (simp add: itob_be_val [OF l])
    also have "\<dots> \<longleftrightarrow> be_val (rev (seg 0 8 h)) = s"
      using be_val_less [of "rev (seg 0 8 h)"] l s by (intro itob_inj) (simp_all add: uint64_limit_def)
    finally show ?thesis by auto
  qed
  moreover have "be_val (rev (seg 0 8 h)) < uint64_limit" if "length h = 112"
    using be_val_less [of "rev (seg 0 8 h)"] that by (simp add: uint64_limit_def)
  ultimately show ?thesis
    by (auto simp: header_slot_def be64_from_le_def res_simps BEACON_HEADER_BYTES_def bslice_def)
qed

end
