(* ===== verification/Anchor_Bridge.thy ===== *)
theory Anchor_Bridge
  imports SC_Header
begin

text \<open>
  The bridge from a finalized beacon header to execution fields, \<open>contracts/state_anchor/bridge.py\<close>:
  reading the light client's globals, binding the header, and the Merkle folds at the governed
  generalized indices. SHA-256 is the parameter \<open>H\<close>. The lemmas say what a successful fold proves
  about any Merkle tree with the given root.
\<close>

text \<open>What a call sees of the rest of the ledger: its sender, the round, and other applications' globals.\<close>

record call_env =
  ce_sender :: bytes
  ce_round :: nat
  ce_app_addr :: bytes
  ce_uints :: "nat \<Rightarrow> bytes \<rightharpoonup> nat"
  ce_bytes :: "nat \<Rightarrow> bytes \<rightharpoonup> bytes"

definition ascii :: "string \<Rightarrow> bytes" where
  "ascii s = map of_char s"

definition SLOTS_PER_HISTORICAL_ROOT :: nat where "SLOTS_PER_HISTORICAL_ROOT = 8192"

definition assert_header_shape :: "bytes \<Rightarrow> unit res" where
  "assert_header_shape header = check (length header = BEACON_HEADER_BYTES) ''N8'' (Inr ())"

definition assert_fin_header_matches :: "(bytes \<Rightarrow> bytes) \<Rightarrow> bytes \<Rightarrow> bytes \<Rightarrow> bytes res" where
  "assert_fin_header_matches H header fin_root =
     rbind (assert_header_shape header) (\<lambda>_.
     rbind (hash_tree_root_beacon_block_header H header) (\<lambda>root.
     check (root = fin_root) ''N6'' (Inr (bslice header 48 80))))"

definition assert_fin_state_root_cross_check :: "bytes \<Rightarrow> bytes \<Rightarrow> unit res" where
  "assert_fin_state_root_cross_check header_state_root m4_fin_state_root =
     check (header_state_root = m4_fin_state_root) ''N7'' (Inr ())"

definition block_number_leaf :: "nat \<Rightarrow> bytes" where
  "block_number_leaf block_number = le64 block_number @ replicate 24 0"

definition assert_branch_depth :: "bytes \<Rightarrow> nat \<Rightarrow> unit res" where
  "assert_branch_depth branch gindex =
     check (1 \<le> gindex) ''N9'' (
     rbind (usub (bitlen gindex) 1) (\<lambda>depth.
     check (length branch = depth * 32) ''N9'' (Inr ())))"

definition fold_execution_fields ::
  "(bytes \<Rightarrow> bytes) \<Rightarrow> bytes \<Rightarrow> nat \<Rightarrow> nat \<Rightarrow> nat \<Rightarrow> bytes \<Rightarrow> bytes \<Rightarrow> nat \<Rightarrow> bytes \<Rightarrow> bytes \<Rightarrow> bytes \<Rightarrow> unit res" where
  "fold_execution_fields H body_root g_state_root g_receipts_root g_block_number
       el_state_root el_receipts_root el_block_number state_branch receipts_branch number_branch =
     check (length el_state_root = 32) ''N20-shape'' (
     check (length el_receipts_root = 32) ''N20-shape'' (
     rbind (assert_branch_depth state_branch g_state_root) (\<lambda>_.
     rbind (assert_branch_depth receipts_branch g_receipts_root) (\<lambda>_.
     let number_leaf = block_number_leaf el_block_number in
     rbind (assert_branch_depth number_branch g_block_number) (\<lambda>_.
     rbind (assert_valid_merkle_branch H el_state_root state_branch g_state_root body_root) (\<lambda>_.
     rbind (assert_valid_merkle_branch H el_receipts_root receipts_branch g_receipts_root body_root) (\<lambda>_.
     assert_valid_merkle_branch H number_leaf number_branch g_block_number body_root)))))))"

definition block_roots_gindex :: "nat \<Rightarrow> nat \<Rightarrow> nat res" where
  "block_roots_gindex g_block_roots_base t_slot =
     rbind (umod t_slot SLOTS_PER_HISTORICAL_ROOT) (\<lambda>residue.
     rbind (umul g_block_roots_base SLOTS_PER_HISTORICAL_ROOT) (\<lambda>b.
     uadd b residue))"

definition assert_window :: "nat \<Rightarrow> nat \<Rightarrow> unit res" where
  "assert_window t_slot fin_slot =
     check (t_slot < fin_slot) ''N16'' (
     rbind (usub fin_slot t_slot) (\<lambda>d.
     check (d \<le> SLOTS_PER_HISTORICAL_ROOT) ''N16'' (Inr ())))"

definition fold_block_roots :: "(bytes \<Rightarrow> bytes) \<Rightarrow> bytes \<Rightarrow> nat \<Rightarrow> nat \<Rightarrow> bytes \<Rightarrow> bytes \<Rightarrow> unit res" where
  "fold_block_roots H fin_state_root g_block_roots_base t_slot target_root block_roots_branch =
     rbind (block_roots_gindex g_block_roots_base t_slot) (\<lambda>g.
     rbind (assert_branch_depth block_roots_branch g) (\<lambda>_.
     assert_valid_merkle_branch H target_root block_roots_branch g fin_state_root))"

definition read_m4_finalized :: "call_env \<Rightarrow> nat \<Rightarrow> nat \<Rightarrow> (nat \<times> bytes \<times> bytes) res" where
  "read_m4_finalized E m4_app expected_m4_id =
     check (m4_app = expected_m4_id) ''N4'' (
     case ce_uints E m4_app (ascii ''fin_slot'') of None \<Rightarrow> Inl (AssertFail ''N4'') | Some fin_slot \<Rightarrow>
     (case ce_bytes E m4_app (ascii ''fin_root'') of None \<Rightarrow> Inl (AssertFail ''N4'') | Some fin_root \<Rightarrow>
     (case ce_bytes E m4_app (ascii ''fin_state_root'') of None \<Rightarrow> Inl (AssertFail ''N4'') | Some fin_state_root \<Rightarrow>
     Inr (fin_slot, fin_root, fin_state_root))))"

definition epoch_of :: "nat \<Rightarrow> nat" where "epoch_of slot = epoch_at_slot slot"

section \<open>What the checks prove\<close>

lemma fin_header_Inr:
  "assert_fin_header_matches H header fin_root = Inr r \<longleftrightarrow>
   length header = 112 \<and> tree_root H (header_tree header) = fin_root \<and> r = seg 48 32 header"
  by (auto simp: assert_fin_header_matches_def assert_header_shape_def res_simps htr_header_eq
      BEACON_HEADER_BYTES_def bslice_def)

lemma cross_check_Inr: "assert_fin_state_root_cross_check a b = Inr u \<longleftrightarrow> a = b"
  by (simp add: assert_fin_state_root_cross_check_def res_simps)

lemma branch_depth_Inr:
  "assert_branch_depth branch g = Inr u \<longleftrightarrow> 1 \<le> g \<and> length branch = 32 * gdepth g"
  using bitlen_ge1 [of g] by (auto simp: assert_branch_depth_def res_simps gdepth_def)

lemma window_Inr: "assert_window t f = Inr u \<longleftrightarrow> t < f \<and> f \<le> t + 8192"
  by (auto simp: assert_window_def res_simps SLOTS_PER_HISTORICAL_ROOT_def)

lemma block_roots_gindex_Inr:
  "block_roots_gindex b t = Inr g \<longleftrightarrow> g = b * 8192 + t mod 8192 \<and> g < uint64_limit"
  by (auto simp: block_roots_gindex_def res_simps SLOTS_PER_HISTORICAL_ROOT_def)

text \<open>A branch accepted by the verifier and its reading as a fold.\<close>

definition folds_to :: "(bytes \<Rightarrow> bytes) \<Rightarrow> bytes \<Rightarrow> bytes \<Rightarrow> nat \<Rightarrow> bytes \<Rightarrow> bool" where
  "folds_to H leaf branch g root \<longleftrightarrow> length leaf = 32 \<and> 1 \<le> g \<and> bitlen g \<le> 62 \<and>
     length branch = 32 * gdepth g \<and> length root = 32 \<and> fold_sibs H leaf (chunks32 branch (gdepth g)) g = root"

lemma valid_folds:
  assumes H: "\<And>x. length (H x) = 32"
  shows "assert_valid_merkle_branch H leaf branch g root = Inr u \<longleftrightarrow> folds_to H leaf branch g root"
  by (auto simp: folds_to_def assert_valid_eq [where H = H, OF H])

lemma length_number_leaf [simp]: "length (block_number_leaf n) = 32"
  by (simp add: block_number_leaf_def)

lemma number_leaf_inj:
  "m < uint64_limit \<Longrightarrow> n < uint64_limit \<Longrightarrow> block_number_leaf m = block_number_leaf n \<longleftrightarrow> m = n"
  by (simp add: block_number_leaf_def le64_inj)

lemma fold_fields_Inr:
  assumes H: "\<And>x. length (H x) = 32"
  shows "fold_execution_fields H body gs gr gn sr rr n sb rb nb = Inr u \<longleftrightarrow>
    folds_to H sr sb gs body \<and> folds_to H rr rb gr body \<and> folds_to H (block_number_leaf n) nb gn body"
  by (auto simp: fold_execution_fields_def res_simps Let_def branch_depth_Inr valid_folds [where H = H, OF H] folds_to_def)

lemma fold_block_roots_Inr:
  assumes H: "\<And>x. length (H x) = 32"
  shows "fold_block_roots H st b t root branch = Inr u \<longleftrightarrow>
    b * 8192 + t mod 8192 < uint64_limit \<and> folds_to H root branch (b * 8192 + t mod 8192) st"
  by (auto simp: fold_block_roots_def res_simps block_roots_gindex_Inr branch_depth_Inr valid_folds [where H = H, OF H]
      folds_to_def)

text \<open>Against the root of a tree that has a node at the index, only that node's root is a leaf.\<close>

lemma folds_to_tree:
  assumes H: "\<And>x. length (H x) = 32" and f: "folds_to H leaf branch g (tree_root H t)"
    and "wf_tree t" and u: "node_at t g = Some u" and inj: "inj_on H (branch_msgs H t u leaf branch g)"
  shows "leaf = tree_root H u"
proof -
  have g: "1 \<le> g" and len: "length leaf = 32" "length branch = 32 * gdepth g"
    and eq: "fold_sibs H leaf (chunks32 branch (gdepth g)) g = tree_root H t"
    using f by (auto simp: folds_to_def)
  show ?thesis
    using fold_iff_tree [where H = H, OF H \<open>wf_tree t\<close> g u len inj] eq by simp
qed

lemma read_m4_Inr:
  "read_m4_finalized E m4 expected = Inr (s, r, sr) \<longleftrightarrow>
   m4 = expected \<and> ce_uints E m4 (ascii ''fin_slot'') = Some s \<and>
   ce_bytes E m4 (ascii ''fin_root'') = Some r \<and> ce_bytes E m4 (ascii ''fin_state_root'') = Some sr"
  by (auto simp: read_m4_finalized_def res_simps split: option.splits)

end
