(* ===== verification/Fork_Tables.thy ===== *)
theory Fork_Tables
  imports AVM
begin

text \<open>
  The two fork-gated tables: fork versions and sync-committee generalized indices
  (\<open>contracts/sync_committee/forks.py\<close>, 36-byte rows) and execution-field generalized indices
  (\<open>contracts/state_anchor/forks.py\<close>, 40-byte rows). Both keep append-only rows in the
  application's global state under a one-byte index key. What a client of either table relies on
  is the interface \<open>fork_table\<close>; it is interpreted on both.
\<close>

type_synonym globals = "bytes \<rightharpoonup> bytes"

definition UINT64_MAX :: nat where "UINT64_MAX = 2 ^ 64 - 1"

lemma UINT64_MAX_eq: "UINT64_MAX = uint64_limit - 1"
  by (simp add: UINT64_MAX_def uint64_limit_def)

section \<open>The interface\<close>

text \<open>
  \<open>get st i\<close> reads row \<open>i\<close>, \<open>put st n row\<close> appends row number \<open>n\<close>, \<open>find st n e\<close> returns whether
  some of the first \<open>n\<close> rows is active at epoch \<open>e\<close> and the index of the last such row; \<open>valid\<close>
  rows are those whose integers are UInt64 values.
\<close>

locale fork_table =
  fixes get :: "globals \<Rightarrow> nat \<Rightarrow> 'row res"
    and put :: "globals \<Rightarrow> nat \<Rightarrow> 'row \<Rightarrow> (globals \<times> nat) res"
    and find :: "globals \<Rightarrow> nat \<Rightarrow> nat \<Rightarrow> (bool \<times> nat) res"
    and epoch :: "'row \<Rightarrow> nat"
    and valid :: "'row \<Rightarrow> bool"
  assumes put_row: "put st n row = Inr (st', n') \<Longrightarrow> valid row \<Longrightarrow>
      n' = n + 1 \<and> get st' n = Inr row \<and> (\<forall>i<n. get st' i = get st i)"
    and put_increasing: "put st n row = Inr (st', n') \<Longrightarrow> 0 < n \<Longrightarrow>
      \<exists>prev. get st (n - 1) = Inr prev \<and> epoch prev < epoch row"
    and find_last: "\<forall>i<n. \<exists>r. get st i = Inr r \<Longrightarrow>
      \<exists>b i. find st n e = Inr (b, i) \<and>
        (b \<longleftrightarrow> (\<exists>j<n. \<exists>r. get st j = Inr r \<and> epoch r \<le> e)) \<and>
        (b \<longrightarrow> i < n \<and> (\<exists>r. get st i = Inr r \<and> epoch r \<le> e) \<and>
           (\<forall>j r. i < j \<longrightarrow> j < n \<longrightarrow> get st j = Inr r \<longrightarrow> e < epoch r))"
begin

text \<open>A table is well formed when its rows are readable and their epochs strictly increase.\<close>

definition table_ok :: "globals \<Rightarrow> nat \<Rightarrow> bool" where
  "table_ok st n \<longleftrightarrow> (\<forall>i<n. \<exists>r. get st i = Inr r) \<and>
     (\<forall>i j r s. i < j \<longrightarrow> j < n \<longrightarrow> get st i = Inr r \<longrightarrow> get st j = Inr s \<longrightarrow> epoch r < epoch s)"

definition active_row :: "globals \<Rightarrow> nat \<Rightarrow> nat \<Rightarrow> 'row \<Rightarrow> bool" where
  "active_row st n e row \<longleftrightarrow> (\<exists>i<n. get st i = Inr row \<and> epoch row \<le> e \<and>
     (\<forall>j r. j < n \<longrightarrow> get st j = Inr r \<longrightarrow> epoch r \<le> e \<longrightarrow> epoch r \<le> epoch row))"

lemma table_ok_0: "table_ok st 0"
  by (simp add: table_ok_def)

lemma table_ok_put:
  assumes ok: "table_ok st n" and put: "put st n row = Inr (st', n')" and v: "valid row"
  shows "table_ok st' n'"
proof -
  note p = put_row [OF put v]
  have read: "\<exists>r. get st' i = Inr r" if "i < n + 1" for i
    using that p ok by (cases "i = n") (auto simp: table_ok_def)
  have inc: "epoch r < epoch s" if ij: "i < j" "j < n + 1" "get st' i = Inr r" "get st' j = Inr s" for i j r s
  proof (cases "j = n")
    case False
    then have "j < n" using ij(2) by simp
    then have "i < n" using ij(1) by simp
    have "get st i = Inr r" "get st j = Inr s" using ij(3,4) p \<open>i < n\<close> \<open>j < n\<close> by auto
    then show ?thesis using ok ij(1) \<open>j < n\<close> unfolding table_ok_def by blast
  next
    case True
    then obtain prev where prev: "get st (n - 1) = Inr prev" "epoch prev < epoch row"
      using put_increasing [OF put] ij(1) by auto
    have s: "s = row" using ij(4) p True by simp
    have gi: "get st i = Inr r" using ij(1,3) p True by simp
    show ?thesis
    proof (cases "i = n - 1")
      case True
      then show ?thesis using gi prev s by simp
    next
      case False
      then have "i < n - 1" "n - 1 < n" using ij(1) True by auto
      then have "epoch r < epoch prev" using ok gi prev(1) unfolding table_ok_def by blast
      then show ?thesis using prev(2) s by simp
    qed
  qed
  show ?thesis using read inc p by (auto simp: table_ok_def)
qed

text \<open>The row found is the active one: the greatest activation epoch not after \<open>e\<close>.\<close>

lemma find_active:
  assumes ok: "table_ok st n" and find: "find st n e = Inr (True, i)"
  shows "\<exists>row. get st i = Inr row \<and> active_row st n e row"
proof -
  have "\<forall>i<n. \<exists>r. get st i = Inr r" using ok by (simp add: table_ok_def)
  from find_last [OF this, of e] find obtain row where
    row: "i < n" "get st i = Inr row" "epoch row \<le> e"
    and last: "\<forall>j r. i < j \<longrightarrow> j < n \<longrightarrow> get st j = Inr r \<longrightarrow> e < epoch r" by auto
  have "epoch r \<le> epoch row" if "j < n" "get st j = Inr r" "epoch r \<le> e" for j r
  proof (cases "j < i")
    case True
    then have "epoch r < epoch row" using ok that row unfolding table_ok_def by blast
    then show ?thesis by simp
  next
    case False
    then show ?thesis using that row last by (metis linorder_neqE_nat nat_le_linear not_less sum.inject(2))
  qed
  with row show ?thesis unfolding active_row_def by blast
qed

lemma active_row_unique:
  assumes ok: "table_ok st n" and r: "active_row st n e r" and s: "active_row st n e s"
  shows "r = s"
proof -
  from r obtain i where i: "i < n" "get st i = Inr r" "epoch r \<le> e"
    and ri: "\<And>j x. j < n \<Longrightarrow> get st j = Inr x \<Longrightarrow> epoch x \<le> e \<Longrightarrow> epoch x \<le> epoch r"
    by (auto simp: active_row_def)
  from s obtain j where j: "j < n" "get st j = Inr s" "epoch s \<le> e"
    and sj: "\<And>k x. k < n \<Longrightarrow> get st k = Inr x \<Longrightarrow> epoch x \<le> e \<Longrightarrow> epoch x \<le> epoch s"
    by (auto simp: active_row_def)
  have eq: "epoch r = epoch s" using ri [OF j] sj [OF i] by simp
  have "i = j"
  proof (rule ccontr)
    assume "i \<noteq> j"
    then consider "i < j" | "j < i" by linarith
    then show False
    proof cases
      case 1
      then show False using ok i j eq unfolding table_ok_def by (metis less_irrefl)
    next
      case 2
      then show False using ok i j eq unfolding table_ok_def by (metis less_irrefl)
    qed
  qed
  then show ?thesis using i j by simp
qed

text \<open>Appending a later fork changes no answer about earlier epochs.\<close>

lemma put_keeps_active:
  assumes put: "put st n row = Inr (st', n')" and v: "valid row" and later: "e < epoch row"
  shows "active_row st' n' e r \<longleftrightarrow> active_row st n e r"
proof -
  note p = put_row [OF put v]
  have split: "(\<exists>i<n + 1. P i) \<longleftrightarrow> (\<exists>i<n. P i) \<or> P n" for P :: "nat \<Rightarrow> bool" by (auto simp: less_Suc_eq)
  have split': "(\<forall>i<n + 1. P i) \<longleftrightarrow> (\<forall>i<n. P i) \<and> P n" for P :: "nat \<Rightarrow> bool" by (auto simp: less_Suc_eq)
  have "active_row st' n' e r \<longleftrightarrow> (\<exists>i<n + 1. get st' i = Inr r \<and> epoch r \<le> e \<and>
      (\<forall>j<n + 1. \<forall>x. get st' j = Inr x \<longrightarrow> epoch x \<le> e \<longrightarrow> epoch x \<le> epoch r))"
    using p by (auto simp: active_row_def)
  also have "\<dots> \<longleftrightarrow> (\<exists>i<n. get st i = Inr r \<and> epoch r \<le> e \<and>
      (\<forall>j<n. \<forall>x. get st j = Inr x \<longrightarrow> epoch x \<le> e \<longrightarrow> epoch x \<le> epoch r))"
    unfolding split split' using p later by auto
  finally show ?thesis by (auto simp: active_row_def)
qed

lemma find_after_put:
  assumes ok: "table_ok st n" and put: "put st n row = Inr (st', n')" and v: "valid row" and later: "e < epoch row"
    and f: "find st n e = Inr (True, i)" and f': "find st' n' e = Inr (True, i')"
  shows "get st' i' = get st i"
proof -
  obtain r where r: "get st i = Inr r" "active_row st n e r" using find_active [OF ok f] by blast
  obtain r' where r': "get st' i' = Inr r'" "active_row st' n' e r'"
    using find_active [OF table_ok_put [OF ok put v] f'] by blast
  have "active_row st n e r'" using r'(2) put_keeps_active [OF put v later] by simp
  then have "r' = r" by (rule active_row_unique [OF ok _ r(2)])
  then show ?thesis using r r' by simp
qed

end

section \<open>The linear scan\<close>

text \<open>
  \<open>_find_row_index_for_epoch\<close>, the same loop in both modules: \<open>ep i\<close> reads the activation epoch
  of row \<open>i\<close>; \<open>k\<close> iterations are left.
\<close>

fun find_row_loop :: "(nat \<Rightarrow> nat res) \<Rightarrow> nat \<Rightarrow> nat \<Rightarrow> nat \<Rightarrow> bool \<times> nat \<Rightarrow> (bool \<times> nat) res" where
  "find_row_loop ep e i 0 acc = Inr acc"
| "find_row_loop ep e i (Suc k) acc =
     rbind (ep i) (\<lambda>row_epoch.
     find_row_loop ep e (i + 1) k (if row_epoch \<le> e then (True, i) else acc))"

lemma find_row_loop_snoc:
  "find_row_loop ep e i (k + 1) acc = rbind (find_row_loop ep e i k acc) (\<lambda>acc'.
     rbind (ep (i + k)) (\<lambda>row_epoch. Inr (if row_epoch \<le> e then (True, i + k) else acc')))"
proof (induction k arbitrary: i acc)
  case 0
  have "i + 0 = i" by simp
  then show ?case by (cases "ep i") simp_all
next
  case (Suc k)
  have "find_row_loop ep e i (Suc k + 1) acc =
      rbind (ep i) (\<lambda>x. find_row_loop ep e (i + 1) (k + 1) (if x \<le> e then (True, i) else acc))"
    by simp
  also have "\<dots> = rbind (ep i) (\<lambda>x. rbind (find_row_loop ep e (i + 1) k (if x \<le> e then (True, i) else acc))
      (\<lambda>acc'. rbind (ep (i + 1 + k)) (\<lambda>y. Inr (if y \<le> e then (True, i + 1 + k) else acc'))))"
    by (simp only: Suc.IH)
  finally have "find_row_loop ep e i (Suc k + 1) acc = \<dots>" .
  moreover have "i + 1 + k = i + Suc k" by simp
  ultimately show ?case by (simp only: find_row_loop.simps rbind_assoc)
qed

lemma find_row_loop_last:
  assumes "\<forall>i<n. \<exists>x. ep i = Inr x"
  shows "\<exists>b i. find_row_loop ep e 0 n (False, 0) = Inr (b, i) \<and>
    (b \<longleftrightarrow> (\<exists>j<n. \<exists>x. ep j = Inr x \<and> x \<le> e)) \<and>
    (b \<longrightarrow> i < n \<and> (\<exists>x. ep i = Inr x \<and> x \<le> e) \<and> (\<forall>j x. i < j \<longrightarrow> j < n \<longrightarrow> ep j = Inr x \<longrightarrow> e < x))"
  using assms
proof (induction n)
  case 0
  then show ?case by (intro exI [of _ False] exI [of _ 0]) simp
next
  case (Suc n)
  then obtain b i where IH: "find_row_loop ep e 0 n (False, 0) = Inr (b, i)"
      "b \<longleftrightarrow> (\<exists>j<n. \<exists>x. ep j = Inr x \<and> x \<le> e)"
      "b \<longrightarrow> i < n \<and> (\<exists>x. ep i = Inr x \<and> x \<le> e) \<and> (\<forall>j x. i < j \<longrightarrow> j < n \<longrightarrow> ep j = Inr x \<longrightarrow> e < x)"
    by auto
  obtain x where x: "ep n = Inr x" using Suc.prems by auto
  have run: "find_row_loop ep e 0 (Suc n) (False, 0) = Inr (if x \<le> e then (True, n) else (b, i))"
    using find_row_loop_snoc [of ep e 0 n "(False, 0)"] IH(1) x by simp
  show ?case
  proof (cases "x \<le> e")
    case True
    then show ?thesis using run x by (intro exI [of _ True] exI [of _ n]) auto
  next
    case False
    then show ?thesis using run x IH(2,3) by (intro exI [of _ b] exI [of _ i]) (auto simp: less_Suc_eq)
  qed
qed

section \<open>The sync-committee table\<close>

definition SC_ROW_BYTES :: nat where "SC_ROW_BYTES = 36"
definition SC_TABLE_CAPACITY :: nat where "SC_TABLE_CAPACITY = 16"
definition SC_ROW_KEY_PREFIX :: bytes where "SC_ROW_KEY_PREFIX = [0x66]"

type_synonym sc_row = "nat \<times> bytes \<times> nat \<times> nat \<times> nat"

definition sc_row_key :: "nat \<Rightarrow> bytes" where
  "sc_row_key index = SC_ROW_KEY_PREFIX @ bslice (itob index) 7 8"

definition sc_read_row :: "globals \<Rightarrow> nat \<Rightarrow> sc_row res" where
  "sc_read_row st index = (case st (sc_row_key index) of
       None \<Rightarrow> Inl (AssertFail ''fork row missing'')
     | Some raw \<Rightarrow>
         check (length raw = SC_ROW_BYTES) ''fork row wrong length'' (
         rbind (btoi (bslice raw 0 8)) (\<lambda>activation_epoch.
         let fork_version = bslice raw 8 12 in
         rbind (btoi (bslice raw 12 20)) (\<lambda>finality_gindex.
         rbind (btoi (bslice raw 20 28)) (\<lambda>current_sc_gindex.
         rbind (btoi (bslice raw 28 36)) (\<lambda>next_sc_gindex.
         Inr (activation_epoch, fork_version, finality_gindex, current_sc_gindex, next_sc_gindex)))))))"

definition sc_append_fork_row :: "globals \<Rightarrow> nat \<Rightarrow> sc_row \<Rightarrow> (globals \<times> nat) res" where
  "sc_append_fork_row st fork_count row =
     (case row of (activation_epoch, fork_version, finality_gindex, current_sc_gindex, next_sc_gindex) \<Rightarrow>
     check (length fork_version = 4) ''fork_version length'' (
     check (activation_epoch \<noteq> UINT64_MAX) ''sentinel epoch rejected'' (
     check (fork_count < SC_TABLE_CAPACITY) ''fork table full'' (
     rbind
       (if fork_count > 0 then
          rbind (sc_read_row st (fork_count - 1)) (\<lambda>(prev_epoch, _).
          check (prev_epoch < activation_epoch) ''activation_epoch must strictly increase'' (Inr ()))
        else Inr ()) (\<lambda>_.
     let raw = itob activation_epoch @ fork_version @ itob finality_gindex
         @ itob current_sc_gindex @ itob next_sc_gindex in
     Inr (st(sc_row_key fork_count \<mapsto> raw), fork_count + 1))))))"

definition sc_find_row :: "globals \<Rightarrow> nat \<Rightarrow> nat \<Rightarrow> (bool \<times> nat) res" where
  "sc_find_row st fork_count epoch =
     find_row_loop (\<lambda>i. rbind (sc_read_row st i) (\<lambda>(e, _). Inr e)) epoch 0 fork_count (False, 0)"

definition lookup_fork_version :: "globals \<Rightarrow> nat \<Rightarrow> nat \<Rightarrow> bytes res" where
  "lookup_fork_version st fork_count epoch =
     rbind (sc_find_row st fork_count epoch) (\<lambda>(found, idx).
     check found ''no fork row active at this epoch'' (
     rbind (sc_read_row st idx) (\<lambda>(_, fork_version, _). Inr fork_version)))"

definition lookup_gindices :: "globals \<Rightarrow> nat \<Rightarrow> nat \<Rightarrow> (nat \<times> nat \<times> nat) res" where
  "lookup_gindices st fork_count epoch =
     rbind (sc_find_row st fork_count epoch) (\<lambda>(found, idx).
     check found ''no fork row active at this epoch'' (
     rbind (sc_read_row st idx) (\<lambda>(_, _, finality_gindex, current_sc_gindex, next_sc_gindex).
     check (finality_gindex \<noteq> 0) ''matched row carries no gindices (pre-Altair)''
       (Inr (finality_gindex, current_sc_gindex, next_sc_gindex)))))"

section \<open>The anchor table\<close>

definition AN_ROW_BYTES :: nat where "AN_ROW_BYTES = 40"
definition AN_TABLE_CAPACITY :: nat where "AN_TABLE_CAPACITY = 8"
definition AN_ROW_KEY_PREFIX :: bytes where "AN_ROW_KEY_PREFIX = [0x67]"

type_synonym an_row = "nat \<times> nat \<times> nat \<times> nat \<times> nat"

definition an_row_key :: "nat \<Rightarrow> bytes" where
  "an_row_key index = AN_ROW_KEY_PREFIX @ bslice (itob index) 7 8"

definition an_read_row :: "globals \<Rightarrow> nat \<Rightarrow> an_row res" where
  "an_read_row st index = (case st (an_row_key index) of
       None \<Rightarrow> Inl (AssertFail ''fork row missing'')
     | Some raw \<Rightarrow>
         check (length raw = AN_ROW_BYTES) ''fork row wrong length'' (
         rbind (btoi (bslice raw 0 8)) (\<lambda>activation_epoch.
         rbind (btoi (bslice raw 8 16)) (\<lambda>g_state_root.
         rbind (btoi (bslice raw 16 24)) (\<lambda>g_receipts_root.
         rbind (btoi (bslice raw 24 32)) (\<lambda>g_block_number.
         rbind (btoi (bslice raw 32 40)) (\<lambda>g_block_roots_base.
         Inr (activation_epoch, g_state_root, g_receipts_root, g_block_number, g_block_roots_base)))))))) "

definition an_append_fork_row :: "globals \<Rightarrow> nat \<Rightarrow> an_row \<Rightarrow> (globals \<times> nat) res" where
  "an_append_fork_row st fork_count row =
     (case row of (activation_epoch, g_state_root, g_receipts_root, g_block_number, g_block_roots_base) \<Rightarrow>
     check (activation_epoch \<noteq> UINT64_MAX) ''N17-sentinel'' (
     check (fork_count < AN_TABLE_CAPACITY) ''fork table full'' (
     check (2 \<le> g_state_root) ''g_state_root must be a real composed gindex'' (
     check (2 \<le> g_receipts_root) ''g_receipts_root must be a real composed gindex'' (
     check (2 \<le> g_block_number) ''g_block_number must be a real composed gindex'' (
     check (2 \<le> g_block_roots_base) ''g_block_roots_base must be a real composed gindex'' (
     rbind
       (if fork_count > 0 then
          rbind (an_read_row st (fork_count - 1)) (\<lambda>(prev_epoch, _).
          check (prev_epoch < activation_epoch) ''activation_epoch must strictly increase'' (Inr ()))
        else Inr ()) (\<lambda>_.
     let raw = itob activation_epoch @ itob g_state_root @ itob g_receipts_root
         @ itob g_block_number @ itob g_block_roots_base in
     Inr (st(an_row_key fork_count \<mapsto> raw), fork_count + 1)))))))))"

definition an_find_row :: "globals \<Rightarrow> nat \<Rightarrow> nat \<Rightarrow> (bool \<times> nat) res" where
  "an_find_row st fork_count epoch =
     find_row_loop (\<lambda>i. rbind (an_read_row st i) (\<lambda>(e, _). Inr e)) epoch 0 fork_count (False, 0)"

definition lookup_row :: "globals \<Rightarrow> nat \<Rightarrow> nat \<Rightarrow> (nat \<times> nat \<times> nat \<times> nat) res" where
  "lookup_row st fork_count epoch =
     rbind (an_find_row st fork_count epoch) (\<lambda>(found, idx).
     check found ''N17'' (
     rbind (an_read_row st idx) (\<lambda>(_, row). Inr row)))"

section \<open>Both tables provide the interface\<close>

definition sc_row_valid :: "sc_row \<Rightarrow> bool" where
  "sc_row_valid row = (case row of (e, _, a, b, c) \<Rightarrow>
     e < uint64_limit \<and> a < uint64_limit \<and> b < uint64_limit \<and> c < uint64_limit)"

definition an_row_valid :: "an_row \<Rightarrow> bool" where
  "an_row_valid row = (case row of (e, a, b, c, d) \<Rightarrow>
     e < uint64_limit \<and> a < uint64_limit \<and> b < uint64_limit \<and> c < uint64_limit \<and> d < uint64_limit)"

lemma row_key_byte: "bslice (itob i) 7 8 = [of_nat (i mod 256)]"
  using low_byte_eq [of i] by (simp add: bslice_def low_byte_def)

lemma of_nat_byte_inj: "i < 256 \<Longrightarrow> j < 256 \<Longrightarrow> (of_nat i :: byte) = of_nat j \<longleftrightarrow> i = j"
  by (metis unat_of_nat_byte)

lemma sc_row_key_inj: "i < 256 \<Longrightarrow> j < 256 \<Longrightarrow> sc_row_key i = sc_row_key j \<longleftrightarrow> i = j"
  by (simp add: sc_row_key_def row_key_byte of_nat_byte_inj)

lemma an_row_key_inj: "i < 256 \<Longrightarrow> j < 256 \<Longrightarrow> an_row_key i = an_row_key j \<longleftrightarrow> i = j"
  by (simp add: an_row_key_def row_key_byte of_nat_byte_inj)

lemma bslice_front: "length xs = b \<Longrightarrow> bslice (xs @ ys) 0 b = xs"
  by (simp add: bslice_def seg_def)

lemma bslice_skip: "length xs \<le> a \<Longrightarrow> bslice (xs @ ys) a b = bslice ys (a - length xs) (b - length xs)"
  by (simp add: bslice_def seg_def)

lemma bslice_all: "length xs \<le> b \<Longrightarrow> bslice xs 0 b = xs"
  by (simp add: bslice_def seg_def)

lemma sc_read_written:
  assumes "length v = 4" and "sc_row_valid (e, v, a, b, c)"
    and "st (sc_row_key i) = Some (itob e @ v @ itob a @ itob b @ itob c)"
  shows "sc_read_row st i = Inr (e, v, a, b, c)"
  using assms by (simp add: sc_read_row_def sc_row_valid_def SC_ROW_BYTES_def bslice_front bslice_skip bslice_all Let_def)

lemma an_read_written:
  assumes "an_row_valid (e, a, b, c, d)"
    and "st (an_row_key i) = Some (itob e @ itob a @ itob b @ itob c @ itob d)"
  shows "an_read_row st i = Inr (e, a, b, c, d)"
  using assms by (simp add: an_read_row_def an_row_valid_def AN_ROW_BYTES_def bslice_front bslice_skip bslice_all Let_def)

lemma sc_append_eq:
  assumes "sc_append_fork_row st n (e, v, a, b, c) = Inr (st', n')"
  shows "length v = 4" and "n < SC_TABLE_CAPACITY" and "n' = n + 1"
    and "st' = st(sc_row_key n \<mapsto> itob e @ v @ itob a @ itob b @ itob c)"
    and "0 < n \<Longrightarrow> \<exists>prev. sc_read_row st (n - 1) = Inr prev \<and> fst prev < e"
  using assms by (auto simp: sc_append_fork_row_def res_simps Let_def split: if_splits prod.splits)

lemma an_append_eq:
  assumes "an_append_fork_row st n (e, a, b, c, d) = Inr (st', n')"
  shows "n < AN_TABLE_CAPACITY" and "n' = n + 1" and "2 \<le> a \<and> 2 \<le> b \<and> 2 \<le> c \<and> 2 \<le> d"
    and "st' = st(an_row_key n \<mapsto> itob e @ itob a @ itob b @ itob c @ itob d)"
    and "0 < n \<Longrightarrow> \<exists>prev. an_read_row st (n - 1) = Inr prev \<and> fst prev < e"
  using assms by (auto simp: an_append_fork_row_def res_simps Let_def split: if_splits prod.splits)

lemma sc_read_other: "i < n \<Longrightarrow> n < 256 \<Longrightarrow> sc_read_row (st(sc_row_key n \<mapsto> x)) i = sc_read_row st i"
  by (simp add: sc_read_row_def sc_row_key_inj)

lemma an_read_other: "i < n \<Longrightarrow> n < 256 \<Longrightarrow> an_read_row (st(an_row_key n \<mapsto> x)) i = an_read_row st i"
  by (simp add: an_read_row_def an_row_key_inj)

lemma find_by_first:
  assumes "\<forall>i<n. \<exists>r. g i = Inr r"
    and "\<And>st n e. F st n e = find_row_loop (\<lambda>i. rbind (g i) (\<lambda>r. Inr (fst r))) e 0 n (False, 0)"
  shows "\<exists>b i. F st n e = Inr (b, i) \<and> (b \<longleftrightarrow> (\<exists>j<n. \<exists>r. g j = Inr r \<and> fst r \<le> e)) \<and>
      (b \<longrightarrow> i < n \<and> (\<exists>r. g i = Inr r \<and> fst r \<le> e) \<and>
         (\<forall>j r. i < j \<longrightarrow> j < n \<longrightarrow> g j = Inr r \<longrightarrow> e < fst r))"
proof -
  let ?ep = "\<lambda>i. rbind (g i) (\<lambda>r. Inr (fst r))"
  have "\<forall>i<n. \<exists>x. ?ep i = Inr x" using assms(1) by (auto simp: res_simps)
  from find_row_loop_last [OF this, of e] show ?thesis
    unfolding assms(2) by (fastforce simp: res_simps)
qed

interpretation sc_table: fork_table sc_read_row sc_append_fork_row sc_find_row fst sc_row_valid
proof
  fix st n st' n' and row :: sc_row
  assume put: "sc_append_fork_row st n row = Inr (st', n')"
  obtain e v a b c where row: "row = (e, v, a, b, c)" by (cases row)
  note p = sc_append_eq [OF put [unfolded row]]
  have n: "n < 256" using p(2) by (simp add: SC_TABLE_CAPACITY_def)
  show "0 < n \<Longrightarrow> \<exists>prev. sc_read_row st (n - 1) = Inr prev \<and> fst prev < fst row"
    using p(5) by (simp add: row)
  assume v: "sc_row_valid row"
  have "sc_read_row st' n = Inr row"
    unfolding row by (rule sc_read_written [OF p(1) v [unfolded row]]) (simp add: p(4))
  moreover have "\<forall>i<n. sc_read_row st' i = sc_read_row st i" using n by (simp add: p(4) sc_read_other)
  ultimately show "n' = n + 1 \<and> sc_read_row st' n = Inr row \<and> (\<forall>i<n. sc_read_row st' i = sc_read_row st i)"
    using p(3) by blast
next
  fix st n e
  assume "\<forall>i<n. \<exists>r. sc_read_row st i = Inr r"
  then show "\<exists>b i. sc_find_row st n e = Inr (b, i) \<and>
      (b \<longleftrightarrow> (\<exists>j<n. \<exists>r. sc_read_row st j = Inr r \<and> fst r \<le> e)) \<and>
      (b \<longrightarrow> i < n \<and> (\<exists>r. sc_read_row st i = Inr r \<and> fst r \<le> e) \<and>
         (\<forall>j r. i < j \<longrightarrow> j < n \<longrightarrow> sc_read_row st j = Inr r \<longrightarrow> e < fst r))"
    by (rule find_by_first [where F = "\<lambda>_ n e. sc_find_row st n e"]) (simp add: sc_find_row_def case_prod_beta')
qed

interpretation an_table: fork_table an_read_row an_append_fork_row an_find_row fst an_row_valid
proof
  fix st n st' n' and row :: an_row
  assume put: "an_append_fork_row st n row = Inr (st', n')"
  obtain e a b c d where row: "row = (e, a, b, c, d)" by (cases row)
  note p = an_append_eq [OF put [unfolded row]]
  have n: "n < 256" using p(1) by (simp add: AN_TABLE_CAPACITY_def)
  show "0 < n \<Longrightarrow> \<exists>prev. an_read_row st (n - 1) = Inr prev \<and> fst prev < fst row"
    using p(5) by (simp add: row)
  assume v: "an_row_valid row"
  have "an_read_row st' n = Inr row"
    unfolding row by (rule an_read_written [OF v [unfolded row]]) (simp add: p(4))
  moreover have "\<forall>i<n. an_read_row st' i = an_read_row st i" using n by (simp add: p(4) an_read_other)
  ultimately show "n' = n + 1 \<and> an_read_row st' n = Inr row \<and> (\<forall>i<n. an_read_row st' i = an_read_row st i)"
    using p(2) by blast
next
  fix st n e
  assume "\<forall>i<n. \<exists>r. an_read_row st i = Inr r"
  then show "\<exists>b i. an_find_row st n e = Inr (b, i) \<and>
      (b \<longleftrightarrow> (\<exists>j<n. \<exists>r. an_read_row st j = Inr r \<and> fst r \<le> e)) \<and>
      (b \<longrightarrow> i < n \<and> (\<exists>r. an_read_row st i = Inr r \<and> fst r \<le> e) \<and>
         (\<forall>j r. i < j \<longrightarrow> j < n \<longrightarrow> an_read_row st j = Inr r \<longrightarrow> e < fst r))"
    by (rule find_by_first [where F = "\<lambda>_ n e. an_find_row st n e"]) (simp add: an_find_row_def case_prod_beta')
qed

end
