(* ===== verification/Anchor_App.thy ===== *)
theory Anchor_App
  imports Anchor_Record Anchor_Bridge Fork_Tables
begin

text \<open>
  \<open>TrustedRootAnchor\<close>, \<open>contracts/state_anchor/anchor_app.py\<close>: the contract's global state and boxes
  as a record, every ABI method as a function on it (a failed assertion rejects the call and keeps
  the old state), and the dispatch over method calls. \<open>H\<close> is SHA-256. The ledger's rule that the
  application account must afford an inner payment is outside the model.
\<close>

unbundle bit_operations_syntax

record anchor_state =
  an_gov :: bytes
  an_m4_app :: nat
  an_ring_size :: nat
  an_ring_cursor :: nat
  an_hi_block :: nat
  an_hi_slot :: nat
  an_n_anchored :: nat
  an_frozen :: nat
  an_conflict :: nat
  an_fork_count :: nat
  an_globals :: globals
  an_boxes :: boxes

definition zero_address :: bytes where "zero_address = replicate 32 0"

definition anchor_create :: "bytes \<Rightarrow> nat \<Rightarrow> nat \<Rightarrow> anchor_state res" where
  "anchor_create governance m4_app_id ring_n =
     check (0 < ring_n) ''ring_n must be nonzero'' (
     rbind (usub ring_n 1) (\<lambda>m.
     check (ring_n AND m = 0) ''ring_n must be a power of two'' (
     Inr \<lparr>an_gov = governance, an_m4_app = m4_app_id, an_ring_size = ring_n, an_ring_cursor = 0,
       an_hi_block = 0, an_hi_slot = 0, an_n_anchored = 0, an_frozen = 1, an_conflict = 0,
       an_fork_count = 0, an_globals = Map.empty, an_boxes = Map.empty\<rparr>)))"

definition anchor_ring_init :: "call_env \<Rightarrow> anchor_state \<Rightarrow> nat \<Rightarrow> anchor_state res" where
  "anchor_ring_init E s k =
     check (ce_sender E = an_gov s) ''N23'' (
     check (an_ring_cursor s < an_ring_size s) ''ring already initialised'' (
     rbind (uadd (an_ring_cursor s) k) (\<lambda>c.
     check (c \<le> an_ring_size s) ''chunk would overflow ring_n'' (
     rbind (ring_init_chunk (an_boxes s) (an_ring_cursor s) k) (\<lambda>(bs, cursor).
     let s1 = s\<lparr>an_boxes := bs, an_ring_cursor := cursor\<rparr> in
     Inr (if cursor = an_ring_size s then s1\<lparr>an_frozen := 0\<rparr> else s1))))))"

definition anchor_append_fork_row :: "call_env \<Rightarrow> anchor_state \<Rightarrow> an_row \<Rightarrow> anchor_state res" where
  "anchor_append_fork_row E s row =
     check (ce_sender E = an_gov s) ''N23'' (
     rbind (an_append_fork_row (an_globals s) (an_fork_count s) row) (\<lambda>(g, n).
     Inr (s\<lparr>an_globals := g, an_fork_count := n\<rparr>)))"

text \<open>The common tail of both anchoring methods: the write decision and the state it leaves.\<close>

definition anchor_finish :: "anchor_state \<Rightarrow> bytes \<Rightarrow> (anchor_state \<times> bytes) res" where
  "anchor_finish s candidate =
     rbind (finish_anchor_flow (an_boxes s) (an_ring_cursor s) (an_ring_size s) (an_frozen s)
         (an_conflict s) (an_hi_block s) (an_hi_slot s) candidate)
       (\<lambda>(bs, new_conflict, result, new_hi_block, new_hi_slot, wrote).
     let s1 = s\<lparr>an_boxes := bs, an_conflict := new_conflict, an_hi_block := new_hi_block,
         an_hi_slot := new_hi_slot\<rparr> in
     if wrote = 1 then
       rbind (uadd (an_n_anchored s) 1) (\<lambda>n. Inr (s1\<lparr>an_n_anchored := n\<rparr>, result))
     else Inr (s1, result))"

text \<open>The execution fields a relayer supplies: state root, receipts root, block number and the three branches.\<close>

type_synonym el_fields = "bytes \<times> bytes \<times> nat \<times> bytes \<times> bytes \<times> bytes"

definition anchor_direct_candidate ::
  "(bytes \<Rightarrow> bytes) \<Rightarrow> call_env \<Rightarrow> anchor_state \<Rightarrow> nat \<Rightarrow> bytes \<Rightarrow> el_fields \<Rightarrow> bytes res" where
  "anchor_direct_candidate H E s m4_app header_bytes el =
     (case el of (el_state_root, el_receipts_root, el_block_number, state_branch, receipts_branch, number_branch) \<Rightarrow>
     rbind (read_m4_finalized E m4_app (an_m4_app s)) (\<lambda>(fin_slot, fin_root, fin_state_root).
     check (fin_root \<noteq> zero_address) ''N5'' (
     rbind (assert_fin_header_matches H header_bytes fin_root) (\<lambda>header_state_root.
     rbind (assert_fin_state_root_cross_check header_state_root fin_state_root) (\<lambda>_.
     rbind (header_slot header_bytes) (\<lambda>t_slot.
     check (t_slot = fin_slot) ''DIRECT requires t_slot == fin_slot'' (
     rbind (lookup_row (an_globals s) (an_fork_count s) (epoch_of t_slot))
       (\<lambda>(g_state_root, g_receipts_root, g_block_number, _).
     let body_root = bslice header_bytes 80 112 in
     rbind (fold_execution_fields H body_root g_state_root g_receipts_root g_block_number
         el_state_root el_receipts_root el_block_number state_branch receipts_branch number_branch) (\<lambda>_.
     build_record False el_block_number t_slot el_state_root el_receipts_root fin_root fin_root
       (ce_round E))))))))))"

definition anchor_direct ::
  "(bytes \<Rightarrow> bytes) \<Rightarrow> call_env \<Rightarrow> anchor_state \<Rightarrow> nat \<Rightarrow> bytes \<Rightarrow> el_fields \<Rightarrow> (anchor_state \<times> bytes) res" where
  "anchor_direct H E s m4_app fin_header el =
     rbind (anchor_direct_candidate H E s m4_app fin_header el) (anchor_finish s)"

definition anchor_historical_candidate ::
  "(bytes \<Rightarrow> bytes) \<Rightarrow> call_env \<Rightarrow> anchor_state \<Rightarrow> nat \<Rightarrow> bytes \<Rightarrow> bytes \<Rightarrow> bytes \<Rightarrow> el_fields \<Rightarrow> bytes res" where
  "anchor_historical_candidate H E s m4_app fin_header_bytes target_bytes block_roots_branch el =
     (case el of (el_state_root, el_receipts_root, el_block_number, state_branch, receipts_branch, number_branch) \<Rightarrow>
     rbind (read_m4_finalized E m4_app (an_m4_app s)) (\<lambda>(fin_slot, fin_root, fin_state_root).
     check (fin_root \<noteq> zero_address) ''N5'' (
     rbind (assert_fin_header_matches H fin_header_bytes fin_root) (\<lambda>fin_header_state_root.
     rbind (assert_fin_state_root_cross_check fin_header_state_root fin_state_root) (\<lambda>_.
     check (length target_bytes = 112) ''N8'' (
     rbind (hash_tree_root_beacon_block_header H target_bytes) (\<lambda>t_root.
     rbind (header_slot target_bytes) (\<lambda>t_slot.
     rbind (assert_window t_slot fin_slot) (\<lambda>_.
     rbind (lookup_row (an_globals s) (an_fork_count s) (epoch_of fin_slot))
       (\<lambda>(_, _, _, g_block_roots_base).
     rbind (lookup_row (an_globals s) (an_fork_count s) (epoch_of t_slot))
       (\<lambda>(g_state_root, g_receipts_root, g_block_number, _).
     rbind (fold_block_roots H fin_state_root g_block_roots_base t_slot t_root block_roots_branch) (\<lambda>_.
     let body_root = bslice target_bytes 80 112 in
     rbind (fold_execution_fields H body_root g_state_root g_receipts_root g_block_number
         el_state_root el_receipts_root el_block_number state_branch receipts_branch number_branch) (\<lambda>_.
     build_record True el_block_number t_slot el_state_root el_receipts_root t_root fin_root
       (ce_round E))))))))))))))"

definition anchor_historical ::
  "(bytes \<Rightarrow> bytes) \<Rightarrow> call_env \<Rightarrow> anchor_state \<Rightarrow> nat \<Rightarrow> bytes \<Rightarrow> bytes \<Rightarrow> bytes \<Rightarrow> el_fields \<Rightarrow>
   (anchor_state \<times> bytes) res" where
  "anchor_historical H E s m4_app fin_header target_header block_roots_branch el =
     rbind (anchor_historical_candidate H E s m4_app fin_header target_header block_roots_branch el)
       (anchor_finish s)"

section \<open>Reading\<close>

definition anchor_attest :: "anchor_state \<Rightarrow> nat \<Rightarrow> bytes res" where
  "anchor_attest s bn =
     check (an_conflict s = 0) ''N22'' (
     rbind (read_ring_slot (an_boxes s) (an_ring_size s) bn) (\<lambda>record.
     rbind (a_version record) (\<lambda>v.
     rbind (a_matches_block_number record bn) (\<lambda>m.
     if v \<noteq> 0 \<and> m then
       rbind (a_is_revoked record) (\<lambda>r. check (\<not> r) ''N13'' (Inr record))
     else
       rbind (pin_read_maybe (an_boxes s) bn) (\<lambda>(exists, pinned, _).
       check exists ''N12'' (
       rbind (a_version pinned) (\<lambda>pv.
       check (pv = 1) ''N14'' (
       rbind (a_is_revoked pinned) (\<lambda>r. check (\<not> r) ''N13'' (Inr pinned))))))))))"

definition anchor_get :: "anchor_state \<Rightarrow> nat \<Rightarrow> bytes res" where
  "anchor_get s bn =
     check (an_conflict s = 0) ''N22'' (
     rbind (read_ring_slot (an_boxes s) (an_ring_size s) bn) (\<lambda>record.
     rbind (a_version record) (\<lambda>v.
     rbind (a_matches_block_number record bn) (\<lambda>m.
     if v \<noteq> 0 \<and> m then
       rbind (a_is_revoked record) (\<lambda>r. check (\<not> r) ''N13'' (Inr record))
     else
       rbind (pin_read_maybe (an_boxes s) bn) (\<lambda>(exists, pinned, _).
       check exists ''N12'' (
       rbind (a_is_revoked pinned) (\<lambda>r. check (\<not> r) ''N13'' (Inr pinned))))))))"

section \<open>Pinning\<close>

definition PIN_MBR :: nat where "PIN_MBR = 80900"

definition anchor_pin :: "call_env \<Rightarrow> anchor_state \<Rightarrow> nat \<Rightarrow> bytes \<times> nat \<Rightarrow> anchor_state res" where
  "anchor_pin E s bn payment =
     check (an_conflict s = 0) ''N22'' (
     check (an_frozen s = 0) ''N11'' (
     rbind (read_ring_slot (an_boxes s) (an_ring_size s) bn) (\<lambda>record.
     rbind (a_version record) (\<lambda>v.
     rbind (a_matches_block_number record bn) (\<lambda>m.
     check (v \<noteq> 0 \<and> m) ''N12'' (
     check (fst payment = ce_app_addr E) ''N24'' (
     check (PIN_MBR \<le> snd payment) ''N24'' (
     rbind (pin_write (an_boxes s) bn record (ce_sender E)) (\<lambda>bs.
     Inr (s\<lparr>an_boxes := bs\<rparr>))))))))))"

text \<open>The second result is the inner payment: receiver and amount.\<close>

definition anchor_unpin :: "anchor_state \<Rightarrow> nat \<Rightarrow> (anchor_state \<times> bytes \<times> nat) res" where
  "anchor_unpin s bn =
     rbind (pin_read_maybe (an_boxes s) bn) (\<lambda>(exists, _, payer).
     check exists ''N12'' (
     Inr (s\<lparr>an_boxes := pin_delete (an_boxes s) bn\<rparr>, payer, PIN_MBR)))"

section \<open>Governance\<close>

definition anchor_revoke :: "call_env \<Rightarrow> anchor_state \<Rightarrow> nat \<Rightarrow> anchor_state res" where
  "anchor_revoke E s bn =
     check (ce_sender E = an_gov s) ''N23'' (
     rbind (ring_residue bn (an_ring_size s)) (\<lambda>residue.
     let name = ring_box_name residue in
     rbind (box_extract (an_boxes s) name 0 RECORD_LEN) (\<lambda>record.
     rbind (a_version record) (\<lambda>v.
     rbind (a_matches_block_number record bn) (\<lambda>m.
     check (v \<noteq> 0 \<and> m) ''N12'' (
     rbind (getbyte record 1) (\<lambda>f.
     rbind (box_replace (an_boxes s) name 1 (low_byte (f OR 1))) (\<lambda>bs.
     Inr (s\<lparr>an_boxes := bs\<rparr>)))))))))"

definition anchor_freeze :: "call_env \<Rightarrow> anchor_state \<Rightarrow> anchor_state res" where
  "anchor_freeze E s = check (ce_sender E = an_gov s) ''N23'' (Inr (s\<lparr>an_frozen := 1\<rparr>))"

definition anchor_unfreeze :: "call_env \<Rightarrow> anchor_state \<Rightarrow> anchor_state res" where
  "anchor_unfreeze E s =
     check (ce_sender E = an_gov s) ''N23'' (
     check (an_ring_cursor s = an_ring_size s) ''ring not initialised'' (Inr (s\<lparr>an_frozen := 0\<rparr>)))"

definition gov_clear_conflict :: "call_env \<Rightarrow> anchor_state \<Rightarrow> anchor_state res" where
  "gov_clear_conflict E s = check (ce_sender E = an_gov s) ''N23'' (Inr (s\<lparr>an_conflict := 0\<rparr>))"

definition anchor_renounce :: "call_env \<Rightarrow> anchor_state \<Rightarrow> anchor_state res" where
  "anchor_renounce E s = check (ce_sender E = an_gov s) ''N23'' (Inr (s\<lparr>an_gov := zero_address\<rparr>))"

section \<open>Dispatch\<close>

datatype anchor_call =
    CRingInit nat
  | CAppendForkRow an_row
  | CAnchorDirect nat bytes el_fields
  | CAnchorHistorical nat bytes bytes bytes el_fields
  | CAttest nat
  | CGetAnchor nat
  | CPin nat "bytes \<times> nat"
  | CUnpin nat
  | CRevoke nat
  | CFreeze
  | CUnfreeze
  | CClearConflict
  | CRenounce
  | CNoopBudget
  | CDonor

definition quiet :: "anchor_state res \<Rightarrow> (anchor_state \<times> bytes \<times> (bytes \<times> nat) list) res" where
  "quiet m = rbind m (\<lambda>s. Inr (s, [], []))"

text \<open>One method call: the new state, the returned bytes and the inner payments.\<close>

fun anchor_exec ::
  "(bytes \<Rightarrow> bytes) \<Rightarrow> call_env \<Rightarrow> anchor_state \<Rightarrow> anchor_call \<Rightarrow> (anchor_state \<times> bytes \<times> (bytes \<times> nat) list) res" where
  "anchor_exec H E s (CRingInit k) = quiet (anchor_ring_init E s k)"
| "anchor_exec H E s (CAppendForkRow row) = quiet (anchor_append_fork_row E s row)"
| "anchor_exec H E s (CAnchorDirect m h el) = rbind (anchor_direct H E s m h el) (\<lambda>(s', a). Inr (s', a, []))"
| "anchor_exec H E s (CAnchorHistorical m h t b el) =
     rbind (anchor_historical H E s m h t b el) (\<lambda>(s', a). Inr (s', a, []))"
| "anchor_exec H E s (CAttest bn) = rbind (anchor_attest s bn) (\<lambda>a. Inr (s, a, []))"
| "anchor_exec H E s (CGetAnchor bn) = rbind (anchor_get s bn) (\<lambda>a. Inr (s, a, []))"
| "anchor_exec H E s (CPin bn p) = quiet (anchor_pin E s bn p)"
| "anchor_exec H E s (CUnpin bn) = rbind (anchor_unpin s bn) (\<lambda>(s', p). Inr (s', [], [p]))"
| "anchor_exec H E s (CRevoke bn) = quiet (anchor_revoke E s bn)"
| "anchor_exec H E s CFreeze = quiet (anchor_freeze E s)"
| "anchor_exec H E s CUnfreeze = quiet (anchor_unfreeze E s)"
| "anchor_exec H E s CClearConflict = quiet (gov_clear_conflict E s)"
| "anchor_exec H E s CRenounce = quiet (anchor_renounce E s)"
| "anchor_exec H E s CNoopBudget = Inr (s, [], [])"
| "anchor_exec H E s CDonor = Inr (s, [], [])"

text \<open>Arguments are UInt64 values, addresses have 32 bytes.\<close>

definition env_ok :: "call_env \<Rightarrow> bool" where
  "env_ok E \<longleftrightarrow> length (ce_sender E) = 32 \<and> ce_round E < uint64_limit"

fun call_ok :: "anchor_call \<Rightarrow> bool" where
  "call_ok (CRingInit k) = (k < uint64_limit)"
| "call_ok (CAppendForkRow row) = an_row_valid row"
| "call_ok (CAnchorDirect m h (_, _, n, _)) = (n < uint64_limit)"
| "call_ok (CAnchorHistorical m h t b (_, _, n, _)) = (n < uint64_limit)"
| "call_ok (CAttest bn) = (bn < uint64_limit)"
| "call_ok (CGetAnchor bn) = (bn < uint64_limit)"
| "call_ok (CPin bn _) = (bn < uint64_limit)"
| "call_ok (CUnpin bn) = (bn < uint64_limit)"
| "call_ok (CRevoke bn) = (bn < uint64_limit)"
| "call_ok _ = True"

text \<open>The ledger of calls: a step is an accepted call, a rejected one leaves no trace.\<close>

inductive anchor_step ::
  "(bytes \<Rightarrow> bytes) \<Rightarrow> anchor_state \<Rightarrow> call_env \<times> anchor_call \<Rightarrow> anchor_state \<Rightarrow> bool" for H where
  accept: "env_ok E \<Longrightarrow> call_ok c \<Longrightarrow> anchor_exec H E s c = Inr (s', out, pays) \<Longrightarrow> anchor_step H s (E, c) s'"

inductive_simps anchor_step_simps: "anchor_step H s (E, c) s'"
inductive_cases anchor_stepE: "anchor_step H s ev s'"

inductive anchor_run ::
  "(bytes \<Rightarrow> bytes) \<Rightarrow> anchor_state \<Rightarrow> (call_env \<times> anchor_call) list \<Rightarrow> anchor_state \<Rightarrow> bool" for H where
  run_nil: "anchor_run H s [] s"
| run_snoc: "anchor_run H s evs s' \<Longrightarrow> anchor_step H s' ev s'' \<Longrightarrow> anchor_run H s (evs @ [ev]) s''"

definition anchor_reach :: "(bytes \<Rightarrow> bytes) \<Rightarrow> (call_env \<times> anchor_call) list \<Rightarrow> anchor_state \<Rightarrow> bool" where
  "anchor_reach H evs s \<longleftrightarrow>
     (\<exists>gov m4 n s0. n < uint64_limit \<and> anchor_create gov m4 n = Inr s0 \<and> anchor_run H s0 evs s)"

end
