(* ===== verification/Anchor_Inv.thy ===== *)
theory Anchor_Inv
  imports Anchor_App
begin

text \<open>
  What every accepted call of the anchor does to the ring and the pinned tier, and the invariant of
  the reachable states: which ring boxes exist, what a ring slot and a pinned box can hold. All later
  arguments rest on \<open>step_slot\<close> and \<open>step_pin\<close>, never on a method's own code.
\<close>

section \<open>Invariant\<close>

abbreviation ring_slot :: "anchor_state \<Rightarrow> nat \<Rightarrow> bytes option" where
  "ring_slot s r \<equiv> an_boxes s (ring_box_name r)"

abbreviation pin_slot :: "anchor_state \<Rightarrow> nat \<Rightarrow> bytes option" where
  "pin_slot s bn \<equiv> an_boxes s (pin_box_name bn)"

definition slot_ok :: "anchor_state \<Rightarrow> nat \<Rightarrow> bytes \<Rightarrow> bool" where
  "slot_ok s r b \<longleftrightarrow> length b = 154 \<and> (rec_version b = 0 \<or>
     rec_version b = 1 \<and> rec_block b mod an_ring_size s = r \<and> rec_block b \<le> an_hi_block s)"

definition pinned_ok :: "nat \<Rightarrow> bytes \<Rightarrow> bool" where
  "pinned_ok bn b \<longleftrightarrow> length b = 186 \<and> rec_version b = 1 \<and> rec_block b = bn"

definition size_ok :: "anchor_state \<Rightarrow> bool" where
  "size_ok s \<longleftrightarrow> (\<exists>k. an_ring_size s = 2 ^ k) \<and> an_ring_size s < uint64_limit \<and>
     an_ring_cursor s \<le> an_ring_size s"

definition anchor_inv :: "anchor_state \<Rightarrow> bool" where
  "anchor_inv s \<longleftrightarrow> size_ok s \<and>
     (\<forall>r<an_ring_size s. (ring_slot s r \<noteq> None \<longleftrightarrow> r < an_ring_cursor s) \<and>
        (\<forall>b. ring_slot s r = Some b \<longrightarrow> slot_ok s r b)) \<and>
     (\<forall>bn<uint64_limit. \<forall>b. pin_slot s bn = Some b \<longrightarrow> pinned_ok bn b) \<and>
     (an_frozen s = 0 \<longrightarrow> an_ring_cursor s = an_ring_size s) \<and>
     (an_conflict s = 0 \<or> an_conflict s = 1)"

lemma residue_of: "size_ok s \<Longrightarrow> ring_residue bn (an_ring_size s) = Inr (bn mod an_ring_size s)"
  by (auto simp: size_ok_def residue_eq)

lemma residue_less: "size_ok s \<Longrightarrow> bn mod an_ring_size s < an_ring_size s"
  by (auto simp: size_ok_def)

lemma inv_size: "anchor_inv s \<Longrightarrow> size_ok s"
  by (simp add: anchor_inv_def)

lemma inv_slot: "anchor_inv s \<Longrightarrow> r < an_ring_size s \<Longrightarrow> ring_slot s r = Some b \<Longrightarrow> slot_ok s r b"
  by (simp add: anchor_inv_def)

lemma inv_slot_exists: "anchor_inv s \<Longrightarrow> r < an_ring_size s \<Longrightarrow> ring_slot s r \<noteq> None \<longleftrightarrow> r < an_ring_cursor s"
  by (simp add: anchor_inv_def)

lemma inv_pin: "anchor_inv s \<Longrightarrow> bn < uint64_limit \<Longrightarrow> pin_slot s bn = Some b \<Longrightarrow> pinned_ok bn b"
  by (simp add: anchor_inv_def)

section \<open>The revocation mark\<close>

definition mark_revoked :: "bytes \<Rightarrow> bytes" where
  "mark_revoked b = overwrite 1 (low_byte (rec_flags b OR 1)) b"

lemma mark_revoked_facts:
  assumes "154 \<le> length b"
  shows "length (mark_revoked b) = length b" "rec_version (mark_revoked b) = rec_version b"
    "rec_block (mark_revoked b) = rec_block b" "rec_revoked (mark_revoked b)"
    "seg 2 n (mark_revoked b) = seg 2 n b"
proof -
  have l: "1 + length (low_byte (rec_flags b OR 1)) \<le> length b" using assms by simp
  show "length (mark_revoked b) = length b" using l by (simp add: mark_revoked_def)
  show "rec_version (mark_revoked b) = rec_version b"
    using l by (simp add: mark_revoked_def rec_version_def nth_overwrite_before)
  show "rec_block (mark_revoked b) = rec_block b" "seg 2 n (mark_revoked b) = seg 2 n b"
    using l by (simp_all add: mark_revoked_def rec_block_def seg_overwrite_after)
  have "rec_flags b OR 1 = rec_flags b + of_bool (even (rec_flags b))" by (rule or_one_eq)
  moreover have "rec_flags b \<le> 255" using rec_flags_less [of b] by linarith
  ultimately have f: "odd (rec_flags b OR 1)" "rec_flags b OR 1 < 256"
    by (cases "rec_flags b = 255"; simp)+
  have "mark_revoked b ! 1 = of_nat (rec_flags b OR 1)"
    using nth_overwrite_at [of 1 "low_byte (rec_flags b OR 1)" b 1] l f by (simp add: mark_revoked_def low_byte_eq)
  then show "rec_revoked (mark_revoked b)"
    using f by (simp add: rec_revoked_def rec_flags_def [of "mark_revoked b"] unat_of_nat_byte)
qed

section \<open>The write decision\<close>

lemma finish_cases:
  assumes "size_ok s" and len: "length a = 154"
    and slots: "\<forall>r b. r < an_ring_size s \<longrightarrow> ring_slot s r = Some b \<longrightarrow> length b = 154"
    and fin: "anchor_finish s a = Inr (s', out)"
  obtains b where "an_ring_cursor s = an_ring_size s" "an_frozen s = 0" "an_conflict s = 0"
      "an_hi_block s < rec_block a + an_ring_size s"
      "ring_slot s (rec_block a mod an_ring_size s) = Some b" "length b = 154"
      "rec_version b = 0 \<or> rec_block b < rec_block a" "out = a"
      "rec_block a > an_hi_block s \<Longrightarrow> rec_slot a > an_hi_slot s"
      "s' = s\<lparr>an_boxes := (an_boxes s)(ring_box_name (rec_block a mod an_ring_size s) \<mapsto> a),
         an_hi_block := max (an_hi_block s) (rec_block a),
         an_hi_slot := (if rec_block a > an_hi_block s then rec_slot a else an_hi_slot s),
         an_n_anchored := an_n_anchored s + 1\<rparr>"
    | b where "an_ring_cursor s = an_ring_size s" "an_frozen s = 0" "an_conflict s = 0"
      "an_hi_block s < rec_block a + an_ring_size s"
      "ring_slot s (rec_block a mod an_ring_size s) = Some b" "length b = 154"
      "rec_version b \<noteq> 0" "rec_block b = rec_block a" "same_content b a" "out = b" "s' = s"
    | b where "an_ring_cursor s = an_ring_size s" "an_frozen s = 0" "an_conflict s = 0"
      "an_hi_block s < rec_block a + an_ring_size s"
      "ring_slot s (rec_block a mod an_ring_size s) = Some b" "length b = 154"
      "rec_version b \<noteq> 0" "rec_block b = rec_block a" "\<not> same_content b a" "out = b"
      "s' = s\<lparr>an_conflict := 1\<rparr>"
proof -
  let ?r = "rec_block a mod an_ring_size s"
  have r: "?r < an_ring_size s" by (rule residue_less [OF assms(1)])
  from fin have pre: "an_ring_cursor s = an_ring_size s" "an_frozen s = 0" "an_conflict s = 0"
    by (auto simp: anchor_finish_def finish_anchor_flow_def res_simps)
  from fin pre obtain b where b: "ring_slot s ?r = Some b"
    by (auto simp: anchor_finish_def finish_anchor_flow_def ring_admit_and_write_def res_simps len residue_of [OF assms(1)] Let_def)
  have lb: "length b = 154" using slots r b by blast
  have ext: "box_extract (an_boxes s) (ring_box_name ?r) 0 RECORD_LEN = Inr b"
    using b lb by (simp add: box_extract_all RECORD_LEN_def max_bytes_def)
  have rep: "box_replace (an_boxes s) (ring_box_name ?r) 0 a = Inr ((an_boxes s)(ring_box_name ?r \<mapsto> a))"
    using b lb len by (simp add: box_replace_all)
  have ver: "getbyte b 0 = Inr (rec_version b)" using lb by (simp add: getbyte_def rec_version_def)
  have adm: "an_hi_block s < rec_block a + an_ring_size s"
    using fin pre by (auto simp: anchor_finish_def finish_anchor_flow_def ring_admit_and_write_def res_simps len)
  have admit: "ring_admit_and_write (an_boxes s) (an_ring_size s) (an_hi_block s) a =
      (if rec_version b = 0 \<or> rec_block b < rec_block a
       then Inr ((an_boxes s)(ring_box_name ?r \<mapsto> a), RING_WRITE_OK, a)
       else if rec_block b = rec_block a then
         if same_content b a then Inr (an_boxes s, RING_WRITE_IDEMPOTENT, b)
         else Inr (an_boxes s, RING_WRITE_EQUIVOCATION, b)
       else Inr (an_boxes s, RING_WRITE_REGRESSION, b))"
    if "uadd (rec_block a) (an_ring_size s) = Inr (rec_block a + an_ring_size s)"
    using that adm by (simp add: ring_admit_and_write_def len lb residue_of [OF assms(1)] ext rep ver Let_def
        record_content_matches_eq)
  have up: "uadd (rec_block a) (an_ring_size s) = Inr (rec_block a + an_ring_size s)"
    using fin pre by (auto simp: anchor_finish_def finish_anchor_flow_def ring_admit_and_write_def res_simps len)
  note run = fin [unfolded anchor_finish_def finish_anchor_flow_def admit [OF up]]
  consider "rec_version b = 0 \<or> rec_block b < rec_block a"
    | "\<not> (rec_version b = 0 \<or> rec_block b < rec_block a)" "rec_block b = rec_block a" "same_content b a"
    | "\<not> (rec_version b = 0 \<or> rec_block b < rec_block a)" "rec_block b = rec_block a" "\<not> same_content b a"
    | "\<not> (rec_version b = 0 \<or> rec_block b < rec_block a)" "rec_block b \<noteq> rec_block a" by blast
  then show thesis
  proof cases
    case 1
    note w = 1
    show ?thesis
    proof (rule that(1) [OF pre adm b lb w])
      show "out = a" using run pre w len by (auto simp: ring_codes res_simps Let_def split: if_splits)
      show "rec_block a > an_hi_block s \<Longrightarrow> rec_slot a > an_hi_slot s"
        using run pre w len by (auto simp: ring_codes res_simps Let_def split: if_splits)
      show "s' = s\<lparr>an_boxes := (an_boxes s)(ring_box_name ?r \<mapsto> a),
         an_hi_block := max (an_hi_block s) (rec_block a),
         an_hi_slot := (if rec_block a > an_hi_block s then rec_slot a else an_hi_slot s),
         an_n_anchored := an_n_anchored s + 1\<rparr>"
        using run pre w len by (auto simp: ring_codes res_simps Let_def max_def split: if_splits)
    qed
  next
    case 2
    show ?thesis
      by (rule that(2) [OF pre adm b lb _ 2(2,3)])
        (use run pre 2 len in \<open>auto simp: ring_codes res_simps Let_def split: if_splits\<close>)
  next
    case 3
    show ?thesis
      by (rule that(3) [OF pre adm b lb _ 3(2,3)])
        (use run pre 3 len in \<open>auto simp: ring_codes res_simps Let_def split: if_splits\<close>)
  next
    case 4
    then show ?thesis using run pre by (auto simp: ring_codes res_simps Let_def split: if_splits)
  qed
qed

section \<open>What a call does to the boxes\<close>

text \<open>The candidate record of an anchoring call.\<close>

fun call_candidate :: "(bytes \<Rightarrow> bytes) \<Rightarrow> call_env \<Rightarrow> anchor_state \<Rightarrow> anchor_call \<Rightarrow> bytes res" where
  "call_candidate H E s (CAnchorDirect m h el) = anchor_direct_candidate H E s m h el"
| "call_candidate H E s (CAnchorHistorical m h t b el) = anchor_historical_candidate H E s m h t b el"
| "call_candidate H E s _ = Inl NoSuchArg"

lemma lookup_row_Inr:
  "lookup_row st n e = Inr row \<longleftrightarrow> (\<exists>i e'. an_find_row st n e = Inr (True, i) \<and> an_read_row st i = Inr (e', row))"
  by (cases row) (auto simp: lookup_row_def res_simps)

lemma direct_candidate_Inr:
  assumes H: "\<And>x. length (H x) = 32"
  shows "anchor_direct_candidate H E s m h (sr, rr, n, sb, rb, nb) = Inr a \<longleftrightarrow>
    (\<exists>fs fr gs gr gn gb.
      read_m4_finalized E m (an_m4_app s) = Inr (fs, fr, seg 48 32 h) \<and> fr \<noteq> zero_address \<and>
      length h = 112 \<and> tree_root H (header_tree h) = fr \<and> header_slot h = Inr fs \<and>
      lookup_row (an_globals s) (an_fork_count s) (epoch_of fs) = Inr (gs, gr, gn, gb) \<and>
      folds_to H sr sb gs (seg 80 32 h) \<and> folds_to H rr rb gr (seg 80 32 h) \<and>
      folds_to H (block_number_leaf n) nb gn (seg 80 32 h) \<and>
      build_record False n fs sr rr fr fr (ce_round E) = Inr a)"
  by (simp add: anchor_direct_candidate_def res_simps fin_header_Inr cross_check_Inr Let_def
      fold_fields_Inr [where H = H, OF H] bslice_def split_paired_Ex del: split_paired_All)

lemma historical_candidate_Inr:
  assumes H: "\<And>x. length (H x) = 32"
  shows "anchor_historical_candidate H E s m h t bb (sr, rr, n, sb, rb, nb) = Inr a \<longleftrightarrow>
    (\<exists>fs fr ts u1 u2 u3 base gs gr gn gb.
      read_m4_finalized E m (an_m4_app s) = Inr (fs, fr, seg 48 32 h) \<and> fr \<noteq> zero_address \<and>
      length h = 112 \<and> tree_root H (header_tree h) = fr \<and> length t = 112 \<and> header_slot t = Inr ts \<and>
      ts < fs \<and> fs \<le> ts + 8192 \<and>
      lookup_row (an_globals s) (an_fork_count s) (epoch_of fs) = Inr (u1, u2, u3, base) \<and>
      lookup_row (an_globals s) (an_fork_count s) (epoch_of ts) = Inr (gs, gr, gn, gb) \<and>
      base * 8192 + ts mod 8192 < uint64_limit \<and>
      folds_to H (tree_root H (header_tree t)) bb (base * 8192 + ts mod 8192) (seg 48 32 h) \<and>
      folds_to H sr sb gs (seg 80 32 t) \<and> folds_to H rr rb gr (seg 80 32 t) \<and>
      folds_to H (block_number_leaf n) nb gn (seg 80 32 t) \<and>
      build_record True n ts sr rr (tree_root H (header_tree t)) fr (ce_round E) = Inr a)"
  by (simp add: anchor_historical_candidate_def res_simps fin_header_Inr cross_check_Inr Let_def window_Inr
      htr_header_eq fold_block_roots_Inr [where H = H, OF H]
      fold_fields_Inr [where H = H, OF H] bslice_def split_paired_Ex del: split_paired_All)

text \<open>Whatever the method, a candidate is a fresh version-1 record with the block number of the call.\<close>

lemma header_slot_less: "header_slot h = Inr s \<Longrightarrow> s < uint64_limit"
  by (simp add: header_slot_eq)

lemma candidate_built:
  assumes H: "\<And>x. length (H x) = 32" and ok: "call_ok c" and cand: "call_candidate H E s c = Inr a"
  shows "\<exists>h n sl sr rr br fr. n < uint64_limit \<and> sl < uint64_limit \<and>
    build_record h n sl sr rr br fr (ce_round E) = Inr a"
proof (cases c)
  case (CAnchorDirect m h el)
  obtain sr rr n sb rb nb where el: "el = (sr, rr, n, sb, rb, nb)" by (cases el)
  from cand show ?thesis using ok header_slot_less
    by (fastforce simp: CAnchorDirect el direct_candidate_Inr [where H = H, OF H])
next
  case (CAnchorHistorical m h t bb el)
  obtain sr rr n sb rb nb where el: "el = (sr, rr, n, sb, rb, nb)" by (cases el)
  from cand show ?thesis using ok header_slot_less
    by (fastforce simp: CAnchorHistorical el historical_candidate_Inr [where H = H, OF H])
qed (use cand in simp_all)

lemma candidate_facts:
  assumes "\<And>x. length (H x) = 32" and "call_ok c" and "call_candidate H E s c = Inr a"
  shows "length a = 154" "rec_version a = 1" "\<not> rec_revoked a"
  using candidate_built [OF assms] by (metis build_record_fields(1), metis build_record_fields(2), metis build_record_fields(6))


text \<open>Ring initialisation creates zero-filled boxes and touches nothing else.\<close>

lemma ring_init_loop_boxes:
  assumes "ring_init_loop bs c j k = Inr bs'" and "c + j + k < uint64_limit"
    and "\<And>i. i < k \<Longrightarrow> bs (ring_box_name (c + j + i)) = None"
  shows "bs' nm = (if \<exists>i<k. nm = ring_box_name (c + j + i) then Some (replicate 154 0) else bs nm)"
  using assms
proof (induction k arbitrary: bs j)
  case 0
  then show ?case by simp
next
  case (Suc k)
  from Suc.prems(3) [of 0] have none: "bs (ring_box_name (c + j)) = None" by simp
  let ?bs = "bs(ring_box_name (c + j) \<mapsto> replicate 154 0)"
  from Suc.prems(1) none have run: "ring_init_loop ?bs c (j + 1) k = Inr bs'"
    by (auto simp: res_simps RECORD_LEN_def)
  have "bs' nm = (if \<exists>i<k. nm = ring_box_name (c + (j + 1) + i) then Some (replicate 154 0) else ?bs nm)"
  proof (rule Suc.IH [OF run])
    show "c + (j + 1) + k < uint64_limit" using Suc.prems(2) by simp
    fix i assume i: "i < k"
    have "ring_box_name (c + (j + 1) + i) \<noteq> ring_box_name (c + j)"
      using Suc.prems(2) i by (subst ring_name_inj) simp_all
    then show "?bs (ring_box_name (c + (j + 1) + i)) = None" using Suc.prems(3) [of "i + 1"] i by simp
  qed
  moreover have "(\<exists>i<Suc k. nm = ring_box_name (c + j + i)) \<longleftrightarrow>
      nm = ring_box_name (c + j) \<or> (\<exists>i<k. nm = ring_box_name (c + (j + 1) + i))"
    by (auto simp: less_Suc_eq_0_disj)
  ultimately show ?case
    by (simp only: fun_upd_apply split: if_split) blast
qed

lemma ring_init_Inr:
  assumes inv: "anchor_inv s" and init: "anchor_ring_init E s k = Inr s'"
  shows "an_ring_cursor s < an_ring_size s" and "an_ring_cursor s + k \<le> an_ring_size s"
    and "\<exists>bs. s' = s\<lparr>an_boxes := bs, an_ring_cursor := an_ring_cursor s + k,
        an_frozen := (if an_ring_cursor s + k = an_ring_size s then 0 else an_frozen s)\<rparr> \<and>
        (\<forall>nm. bs nm = (if \<exists>i<k. nm = ring_box_name (an_ring_cursor s + i) then Some (replicate 154 0)
           else an_boxes s nm))"
proof -
  from init obtain bs where pre: "an_ring_cursor s < an_ring_size s" "an_ring_cursor s + k \<le> an_ring_size s"
    and loop: "ring_init_loop (an_boxes s) (an_ring_cursor s) 0 k = Inr bs"
    and s': "s' = s\<lparr>an_boxes := bs, an_ring_cursor := an_ring_cursor s + k,
        an_frozen := (if an_ring_cursor s + k = an_ring_size s then 0 else an_frozen s)\<rparr>"
    by (auto simp: anchor_ring_init_def ring_init_chunk_def res_simps Let_def split: if_splits)
  show "an_ring_cursor s < an_ring_size s" "an_ring_cursor s + k \<le> an_ring_size s" by (fact pre)+
  have lim: "an_ring_size s < uint64_limit" using inv_size [OF inv] by (simp add: size_ok_def)
  have none: "an_boxes s (ring_box_name (an_ring_cursor s + 0 + i)) = None" if "i < k" for i
    using inv_slot_exists [OF inv, of "an_ring_cursor s + i"] that pre by auto
  have "bs nm = (if \<exists>i<k. nm = ring_box_name (an_ring_cursor s + i) then Some (replicate 154 0)
      else an_boxes s nm)" for nm
    using ring_init_loop_boxes [OF loop _ none, of nm] pre lim by simp
  with s' show "\<exists>bs. s' = s\<lparr>an_boxes := bs, an_ring_cursor := an_ring_cursor s + k,
        an_frozen := (if an_ring_cursor s + k = an_ring_size s then 0 else an_frozen s)\<rparr> \<and>
        (\<forall>nm. bs nm = (if \<exists>i<k. nm = ring_box_name (an_ring_cursor s + i) then Some (replicate 154 0)
           else an_boxes s nm))" by blast
qed

lemma revoke_Inr:
  assumes inv: "anchor_inv s" and rv: "anchor_revoke E s bn = Inr s'"
  shows "\<exists>b. ring_slot s (bn mod an_ring_size s) = Some b \<and> rec_version b \<noteq> 0 \<and> rec_block b = bn \<and>
    s' = s\<lparr>an_boxes := (an_boxes s)(ring_box_name (bn mod an_ring_size s) \<mapsto> mark_revoked b)\<rparr>"
proof -
  let ?r = "bn mod an_ring_size s"
  note r = residue_less [OF inv_size [OF inv], of bn]
  from rv obtain b where b: "ring_slot s ?r = Some b"
    by (auto simp: anchor_revoke_def res_simps residue_of [OF inv_size [OF inv]] Let_def)
  have lb: "length b = 154" using inv_slot [OF inv r b] by (simp add: slot_ok_def)
  have ext: "box_extract (an_boxes s) (ring_box_name ?r) 0 RECORD_LEN = Inr b"
    using b lb by (simp add: box_extract_all RECORD_LEN_def max_bytes_def)
  have fl: "getbyte b 1 = Inr (rec_flags b)" using lb by (simp add: getbyte_def rec_flags_def)
  from rv b show ?thesis
    by (auto simp: anchor_revoke_def res_simps residue_of [OF inv_size [OF inv]] Let_def ext lb fl mark_revoked_def
        rec_flags_def)
qed

lemma pin_Inr:
  assumes inv: "anchor_inv s" and pin: "anchor_pin E s bn p = Inr s'" and env: "length (ce_sender E) = 32"
    and pinned: "\<And>b. pin_slot s bn = Some b \<Longrightarrow> length b = 186"
  shows "\<exists>b. an_conflict s = 0 \<and> an_frozen s = 0 \<and> ring_slot s (bn mod an_ring_size s) = Some b \<and>
    rec_version b \<noteq> 0 \<and> rec_block b = bn \<and> fst p = ce_app_addr E \<and> PIN_MBR \<le> snd p \<and>
    s' = s\<lparr>an_boxes := (an_boxes s)(pin_box_name bn \<mapsto> b @ ce_sender E)\<rparr>"
proof -
  let ?r = "bn mod an_ring_size s"
  note r = residue_less [OF inv_size [OF inv], of bn]
  from pin obtain b where b: "ring_slot s ?r = Some b"
    by (auto simp: anchor_pin_def read_ring_slot_def res_simps residue_of [OF inv_size [OF inv]])
  have lb: "length b = 154" using inv_slot [OF inv r b] by (simp add: slot_ok_def)
  have rd: "read_ring_slot (an_boxes s) (an_ring_size s) bn = Inr b"
    using b lb by (simp add: read_ring_slot_def residue_of [OF inv_size [OF inv]] box_extract_all RECORD_LEN_def max_bytes_def)
  have wr: "pin_write (an_boxes s) bn b (ce_sender E) = Inr ((an_boxes s)(pin_box_name bn \<mapsto> b @ ce_sender E))"
  proof (cases "pin_slot s bn")
    case None
    then show ?thesis using lb env
      by (simp add: pin_write_def box_create_def box_replace_all PINNED_RECORD_LEN_def RECORD_LEN_def max_box_size_def Let_def)
  next
    case (Some q)
    then show ?thesis using lb env pinned [OF Some]
      by (simp add: pin_write_def box_create_def box_replace_all PINNED_RECORD_LEN_def RECORD_LEN_def Let_def)
  qed
  from pin b show ?thesis by (auto simp: anchor_pin_def res_simps rd wr lb)
qed

section \<open>The abstract effects\<close>

text \<open>
  The specification of the anchor as a transition relation on rings and pins: a call initialises
  empty slots, writes a newer candidate, repeats one, latches a conflict, copies a ring record to the
  pinned tier, drops a pin, marks a record revoked, or changes a governed field.
\<close>

inductive anchor_effect ::
  "(bytes \<Rightarrow> bytes) \<Rightarrow> call_env \<Rightarrow> anchor_call \<Rightarrow> anchor_state \<Rightarrow> anchor_state \<Rightarrow> bool" for H E where
  eff_init: "ce_sender E = an_gov s \<Longrightarrow> an_ring_cursor s + k \<le> an_ring_size s \<Longrightarrow>
     \<forall>nm. bs nm = (if \<exists>i<k. nm = ring_box_name (an_ring_cursor s + i) then Some (replicate 154 0) else an_boxes s nm) \<Longrightarrow>
     anchor_effect H E (CRingInit k) s (s\<lparr>an_boxes := bs, an_ring_cursor := an_ring_cursor s + k,
        an_frozen := (if an_ring_cursor s + k = an_ring_size s then 0 else an_frozen s)\<rparr>)"
| eff_row: "ce_sender E = an_gov s \<Longrightarrow> an_append_fork_row (an_globals s) (an_fork_count s) row = Inr (g, n) \<Longrightarrow>
     anchor_effect H E (CAppendForkRow row) s (s\<lparr>an_globals := g, an_fork_count := n\<rparr>)"
| eff_write: "call_candidate H E s c = Inr a \<Longrightarrow> r = rec_block a mod an_ring_size s \<Longrightarrow>
     an_ring_cursor s = an_ring_size s \<Longrightarrow> an_frozen s = 0 \<Longrightarrow> an_conflict s = 0 \<Longrightarrow>
     an_hi_block s < rec_block a + an_ring_size s \<Longrightarrow> ring_slot s r = Some b \<Longrightarrow>
     rec_version b = 0 \<or> rec_block b < rec_block a \<Longrightarrow>
     (rec_block a > an_hi_block s \<longrightarrow> rec_slot a > an_hi_slot s) \<Longrightarrow>
     anchor_effect H E c s (s\<lparr>an_boxes := (an_boxes s)(ring_box_name r \<mapsto> a),
         an_hi_block := max (an_hi_block s) (rec_block a),
         an_hi_slot := (if rec_block a > an_hi_block s then rec_slot a else an_hi_slot s),
         an_n_anchored := an_n_anchored s + 1\<rparr>)"
| eff_latch: "call_candidate H E s c = Inr a \<Longrightarrow> an_conflict s = 0 \<Longrightarrow>
     ring_slot s (rec_block a mod an_ring_size s) = Some b \<Longrightarrow> rec_version b \<noteq> 0 \<Longrightarrow>
     rec_block b = rec_block a \<Longrightarrow> \<not> same_content b a \<Longrightarrow> anchor_effect H E c s (s\<lparr>an_conflict := 1\<rparr>)"
| eff_pin: "an_conflict s = 0 \<Longrightarrow> an_frozen s = 0 \<Longrightarrow> ring_slot s (bn mod an_ring_size s) = Some b \<Longrightarrow>
     rec_version b \<noteq> 0 \<Longrightarrow> rec_block b = bn \<Longrightarrow> PIN_MBR \<le> snd p \<Longrightarrow>
     anchor_effect H E (CPin bn p) s (s\<lparr>an_boxes := (an_boxes s)(pin_box_name bn \<mapsto> b @ ce_sender E)\<rparr>)"
| eff_unpin: "pin_slot s bn \<noteq> None \<Longrightarrow>
     anchor_effect H E (CUnpin bn) s (s\<lparr>an_boxes := (an_boxes s)(pin_box_name bn := None)\<rparr>)"
| eff_revoke: "ce_sender E = an_gov s \<Longrightarrow> ring_slot s (bn mod an_ring_size s) = Some b \<Longrightarrow> rec_version b \<noteq> 0 \<Longrightarrow>
     rec_block b = bn \<Longrightarrow> anchor_effect H E (CRevoke bn) s
       (s\<lparr>an_boxes := (an_boxes s)(ring_box_name (bn mod an_ring_size s) \<mapsto> mark_revoked b)\<rparr>)"
| eff_freeze: "ce_sender E = an_gov s \<Longrightarrow> anchor_effect H E CFreeze s (s\<lparr>an_frozen := 1\<rparr>)"
| eff_unfreeze: "ce_sender E = an_gov s \<Longrightarrow> an_ring_cursor s = an_ring_size s \<Longrightarrow>
     anchor_effect H E CUnfreeze s (s\<lparr>an_frozen := 0\<rparr>)"
| eff_clear: "ce_sender E = an_gov s \<Longrightarrow> anchor_effect H E CClearConflict s (s\<lparr>an_conflict := 0\<rparr>)"
| eff_renounce: "ce_sender E = an_gov s \<Longrightarrow> anchor_effect H E CRenounce s (s\<lparr>an_gov := zero_address\<rparr>)"
| eff_none: "anchor_effect H E c s s"

lemma finish_effect:
  assumes H: "\<And>x. length (H x) = 32" and inv: "anchor_inv s" and ok: "call_ok c"
    and cand: "call_candidate H E s c = Inr a" and fin: "anchor_finish s a = Inr (s', out)"
  shows "anchor_effect H E c s s'"
proof -
  note f = candidate_facts [where H = H, OF H ok cand]
  have slots: "\<forall>r b. r < an_ring_size s \<longrightarrow> ring_slot s r = Some b \<longrightarrow> length b = 154"
    using inv_slot [OF inv] by (auto simp: slot_ok_def)
  show ?thesis
  proof (cases rule: finish_cases [OF inv_size [OF inv] f(1) slots fin])
    case (2 b)
    then show ?thesis by (simp add: eff_none)
  qed (blast intro: eff_write [OF cand refl] eff_latch [OF cand])+
qed

theorem step_effect:
  assumes H: "\<And>x. length (H x) = 32" and inv: "anchor_inv s" and st: "anchor_step H s (E, c) s'"
  shows "anchor_effect H E c s s'"
proof -
  from st obtain out pays where env: "env_ok E" and ok: "call_ok c"
    and ex: "anchor_exec H E s c = Inr (s', out, pays)" by (auto simp: anchor_step_simps)
  show ?thesis
  proof (cases c)
    case (CRingInit k)
    from ex have i: "anchor_ring_init E s k = Inr s'" by (auto simp: CRingInit quiet_def res_simps)
    then have g: "ce_sender E = an_gov s" by (auto simp: anchor_ring_init_def res_simps)
    from ring_init_Inr [OF inv i] g show ?thesis unfolding CRingInit by (blast intro: eff_init)
  next
    case (CAppendForkRow row)
    with ex show ?thesis by (auto simp: quiet_def res_simps anchor_append_fork_row_def intro: eff_row)
  next
    case (CAnchorDirect m h el)
    with ex obtain a where "call_candidate H E s c = Inr a" "anchor_finish s a = Inr (s', out)"
      by (auto simp: res_simps anchor_direct_def)
    then show ?thesis by (rule finish_effect [where H = H, OF H inv ok])
  next
    case (CAnchorHistorical m h t b el)
    with ex obtain a where "call_candidate H E s c = Inr a" "anchor_finish s a = Inr (s', out)"
      by (auto simp: res_simps anchor_historical_def)
    then show ?thesis by (rule finish_effect [where H = H, OF H inv ok])
  next
    case (CPin bn p)
    with ex have i: "anchor_pin E s bn p = Inr s'" by (auto simp: quiet_def res_simps)
    have bn: "bn < uint64_limit" using ok CPin by simp
    have l: "\<And>b. pin_slot s bn = Some b \<Longrightarrow> length b = 186" using inv_pin [OF inv bn] by (simp add: pinned_ok_def)
    from pin_Inr [OF inv i _ l] env show ?thesis unfolding CPin env_ok_def by (auto intro: eff_pin)
  next
    case (CUnpin bn)
    with ex show ?thesis
      by (auto simp: res_simps anchor_unpin_def pin_read_maybe_def pin_delete_def box_delete_def box_length_def Let_def
          split: option.splits prod.splits intro!: eff_unpin)
  next
    case (CRevoke bn)
    with ex have i: "anchor_revoke E s bn = Inr s'" by (auto simp: quiet_def res_simps)
    then have g: "ce_sender E = an_gov s" by (auto simp: anchor_revoke_def res_simps)
    from revoke_Inr [OF inv i] g show ?thesis unfolding CRevoke by (auto intro: eff_revoke)
  qed (use ex in \<open>auto simp: quiet_def res_simps anchor_freeze_def anchor_unfreeze_def gov_clear_conflict_def
        anchor_renounce_def simp del: One_nat_def intro: anchor_effect.intros\<close>)
qed

section \<open>The invariant is inductive\<close>

lemma pin_name_ring_init: "an_boxes s (pin_box_name bn) = x \<Longrightarrow>
   (if \<exists>i<k. pin_box_name bn = ring_box_name (c + i) then Some z else an_boxes s (pin_box_name bn)) = x"
  by simp

lemma pinned_copy:
  assumes "slot_ok s r b" and "rec_version b \<noteq> 0" and "rec_block b = bn" and "length p = 32"
  shows "pinned_ok bn (b @ p)" "rec_revoked (b @ p) \<longleftrightarrow> rec_revoked b" "take 154 (b @ p) = b"
proof -
  have l: "length b = 154" "rec_version b = 1" using assms(1,2) by (auto simp: slot_ok_def)
  have n: "(b @ p) ! 0 = b ! 0" "(b @ p) ! 1 = b ! 1" using l by (simp_all add: nth_append)
  show "pinned_ok bn (b @ p)"
    using assms l n(1) by (simp add: pinned_ok_def rec_version_def rec_block_def seg_append_left)
  show "rec_revoked (b @ p) \<longleftrightarrow> rec_revoked b" using n(2) by (simp add: rec_revoked_def rec_flags_def)
  show "take 154 (b @ p) = b" using l by simp
qed

lemma zero_record: "rec_version (replicate 154 0) = 0"
  by (simp add: rec_version_def)

lemma effect_size: "anchor_effect H E c s s' \<Longrightarrow> an_ring_size s' = an_ring_size s \<and> an_hi_block s \<le> an_hi_block s'"
  by (induction rule: anchor_effect.induct) simp_all

lemma effect_m4: "anchor_effect H E c s s' \<Longrightarrow> an_m4_app s' = an_m4_app s"
  by (induction rule: anchor_effect.induct) simp_all

text \<open>How a ring slot evolves.\<close>

definition supersedes :: "bytes \<Rightarrow> bytes \<Rightarrow> bool" where
  "supersedes a b \<longleftrightarrow> rec_version b = 0 \<or> rec_block b < rec_block a"

lemma effect_slot:
  assumes H: "\<And>x. length (H x) = 32" and inv: "anchor_inv s" and ok: "call_ok c"
    and ef: "anchor_effect H E c s s'" and r: "r < an_ring_size s"
  shows "ring_slot s' r = ring_slot s r \<or>
    ring_slot s r = None \<and> ring_slot s' r = Some (replicate 154 0) \<or>
    (\<exists>b a. ring_slot s r = Some b \<and> call_candidate H E s c = Inr a \<and> ring_slot s' r = Some a \<and>
       rec_block a mod an_ring_size s = r \<and> rec_block a \<le> an_hi_block s' \<and>
       supersedes a b) \<or>
    (\<exists>b. ring_slot s r = Some b \<and> rec_version b \<noteq> 0 \<and> ring_slot s' r = Some (mark_revoked b))"
proof -
  have lim: "an_ring_size s < uint64_limit" using inv_size [OF inv] by (simp add: size_ok_def)
  have ne: "ring_box_name r = ring_box_name q \<longleftrightarrow> r = q" if "q < an_ring_size s" for q
    using that r lim by (simp add: ring_name_inj)
  note md = residue_less [OF inv_size [OF inv]]
  from ef show ?thesis
  proof cases
    case (eff_init k bs)
    have "ring_box_name r = ring_box_name (an_ring_cursor s + i) \<longleftrightarrow> r = an_ring_cursor s + i" if "i < k" for i
      using that eff_init by (intro ne) simp
    then have "\<exists>i<k. ring_box_name r = ring_box_name (an_ring_cursor s + i) \<Longrightarrow> an_ring_cursor s \<le> r" by (metis le_add1)
    moreover have "bs (ring_box_name r) =
        (if \<exists>i<k. ring_box_name r = ring_box_name (an_ring_cursor s + i) then Some (replicate 154 0) else ring_slot s r)"
      using eff_init by blast
    ultimately have "bs (ring_box_name r) = ring_slot s r \<or>
        an_ring_cursor s \<le> r \<and> bs (ring_box_name r) = Some (replicate 154 0)"
      by (metis (no_types))
    moreover have "ring_slot s' r = bs (ring_box_name r)" using eff_init(2) by simp
    moreover have "an_ring_cursor s \<le> r \<Longrightarrow> ring_slot s r = None"
      using inv_slot_exists [OF inv r] by (metis linorder_not_less)
    ultimately show ?thesis by (elim disjE) simp_all
  next
    case (eff_write a q b)
    then show ?thesis using ne [of q] md [of "rec_block a"] by (cases "r = q") (auto simp: supersedes_def)
  next
    case (eff_revoke bn b)
    then show ?thesis using ne [of "bn mod an_ring_size s"] md [of bn] by (cases "r = bn mod an_ring_size s") auto
  qed simp_all
qed

text \<open>How a pinned box evolves.\<close>

lemma effect_pin:
  assumes ef: "anchor_effect H E c s s'" and bn: "bn < uint64_limit" and ok: "call_ok c"
  shows "pin_slot s' bn = pin_slot s bn \<or> pin_slot s' bn = None \<or>
    (\<exists>b. an_conflict s = 0 \<and> ring_slot s (bn mod an_ring_size s) = Some b \<and> rec_version b \<noteq> 0 \<and> rec_block b = bn \<and>
       pin_slot s' bn = Some (b @ ce_sender E) \<and> ring_slot s' (bn mod an_ring_size s) = Some b)"
  using ef
proof cases
  case (eff_pin q b p)
  then have "q < uint64_limit" using ok by simp
  then show ?thesis using eff_pin bn by (cases "q = bn") (auto simp: pin_name_inj)
qed auto

lemma effect_inv:
  assumes H: "\<And>x. length (H x) = 32" and inv: "anchor_inv s" and ok: "call_ok c" and env: "env_ok E"
    and ef: "anchor_effect H E c s s'"
  shows "anchor_inv s'"
proof -
  note sz = effect_size [OF ef]
  have slot: "slot_ok s' r b" if r: "r < an_ring_size s" and b: "ring_slot s' r = Some b" for r b
    using effect_slot [where H = H, OF H inv ok ef r]
  proof (elim disjE exE conjE)
    assume "ring_slot s' r = ring_slot s r"
    then have "slot_ok s r b" using b inv_slot [OF inv r] by simp
    then show ?thesis using sz by (auto simp: slot_ok_def)
  next
    assume "ring_slot s' r = Some (replicate 154 0)"
    then show ?thesis using b by (auto simp: slot_ok_def zero_record)
  next
    fix b0 a assume a: "call_candidate H E s c = Inr a" "ring_slot s' r = Some a"
      "rec_block a mod an_ring_size s = r" "rec_block a \<le> an_hi_block s'"
    then show ?thesis using b candidate_facts [where H = H, OF H ok a(1)] sz by (simp add: slot_ok_def)
  next
    fix b0 assume b0: "ring_slot s r = Some b0" "rec_version b0 \<noteq> 0" "ring_slot s' r = Some (mark_revoked b0)"
    have s0: "slot_ok s r b0" by (rule inv_slot [OF inv r b0(1)])
    then have "154 \<le> length b0" by (simp add: slot_ok_def)
    note m = mark_revoked_facts [OF this]
    show ?thesis using b b0 s0 m sz by (auto simp: slot_ok_def)
  qed
  have pin: "pinned_ok bn b" if bn: "bn < uint64_limit" and b: "pin_slot s' bn = Some b" for bn b
    using effect_pin [OF ef bn ok]
  proof (elim disjE exE conjE)
    fix q assume q: "ring_slot s (bn mod an_ring_size s) = Some q" "rec_version q \<noteq> 0" "rec_block q = bn"
      "pin_slot s' bn = Some (q @ ce_sender E)"
    have "slot_ok s (bn mod an_ring_size s) q"
      by (rule inv_slot [OF inv residue_less [OF inv_size [OF inv]] q(1)])
    from pinned_copy(1) [OF this q(2,3), of "ce_sender E"] show ?thesis
      using env q(4) b by (simp add: env_ok_def)
  qed (use b inv_pin [OF inv bn] in simp_all)
  have ex: "ring_slot s' r \<noteq> None \<longleftrightarrow> r < an_ring_cursor s'" if r: "r < an_ring_size s" for r
    using ef
  proof cases
    case (eff_init k bs)
    have lim: "an_ring_size s < uint64_limit" using inv_size [OF inv] by (simp add: size_ok_def)
    have "ring_box_name r = ring_box_name (an_ring_cursor s + i) \<longleftrightarrow> r = an_ring_cursor s + i" if "i < k" for i
      using that eff_init r lim by (intro ring_name_inj) simp_all
    moreover have "(\<exists>i<k. r = an_ring_cursor s + i) \<longleftrightarrow> an_ring_cursor s \<le> r \<and> r < an_ring_cursor s + k"
      by (auto simp: le_iff_add)
    ultimately have "(\<exists>i<k. ring_box_name r = ring_box_name (an_ring_cursor s + i)) \<longleftrightarrow>
        an_ring_cursor s \<le> r \<and> r < an_ring_cursor s + k" by blast
    then show ?thesis using eff_init inv_slot_exists [OF inv r] by auto
  qed (use inv_slot_exists [OF inv r] in \<open>auto split: if_splits\<close>)
  have rest: "size_ok s'" "an_frozen s' = 0 \<longrightarrow> an_ring_cursor s' = an_ring_size s'"
      "an_conflict s' = 0 \<or> an_conflict s' = 1"
    using ef inv by (cases; auto simp: anchor_inv_def size_ok_def)+
  show ?thesis unfolding anchor_inv_def using slot pin ex rest sz by simp
qed

lemma create_inv: "anchor_create gov m4 n = Inr s \<Longrightarrow> n < uint64_limit \<Longrightarrow> anchor_inv s"
  using power_of_two [of n] by (auto simp: anchor_create_def res_simps anchor_inv_def size_ok_def)

theorem run_inv:
  assumes H: "\<And>x. length (H x) = 32" and run: "anchor_run H s evs s'" and inv: "anchor_inv s"
  shows "anchor_inv s'"
  using run inv
proof (induction rule: anchor_run.induct)
  case (run_snoc s evs s' ev s'')
  obtain E c where ev: "ev = (E, c)" by (cases ev)
  from run_snoc.hyps(2) have ok: "env_ok E" "call_ok c" by (auto simp: ev anchor_step_simps)
  have inv: "anchor_inv s'" using run_snoc.IH run_snoc.prems by blast
  have "anchor_effect H E c s' s''"
    using step_effect [where H = H, OF H inv] run_snoc.hyps(2) by (simp add: ev)
  then show ?case by (rule effect_inv [where H = H, OF H inv ok(2,1)])
qed

lemma run_m4:
  assumes H: "\<And>x. length (H x) = 32" and run: "anchor_run H s evs s'" and inv: "anchor_inv s"
  shows "an_m4_app s' = an_m4_app s"
  using run inv
proof (induction rule: anchor_run.induct)
  case (run_snoc s evs s' ev s'')
  obtain E c where ev: "ev = (E, c)" by (cases ev)
  have "anchor_effect H E c s' s''"
    using step_effect [where H = H, OF H run_inv [where H = H, OF H run_snoc.hyps(1) run_snoc.prems]] run_snoc.hyps(2)
    by (simp add: ev)
  then show ?case using run_snoc effect_m4 by metis
qed simp

theorem reach_inv: "(\<And>x. length (H x) = 32) \<Longrightarrow> anchor_reach H evs s \<Longrightarrow> anchor_inv s"
  unfolding anchor_reach_def by (metis create_inv run_inv)

end
