(* ===== verification/Anchor_Facts.thy ===== *)
theory Anchor_Facts
  imports Anchor_Inv
begin

text \<open>
  Consequences of the anchor's invariant along runs: where an attested record comes from, what stays
  revoked, what a latched conflict blocks, the fork table, and the exact answers of the two readers.
\<close>

section \<open>The readers\<close>

text \<open>The answer both readers give on a state that satisfies the invariant.\<close>

definition attest_answer :: "anchor_state \<Rightarrow> nat \<Rightarrow> bytes option" where
  "attest_answer s bn =
     (if an_conflict s \<noteq> 0 then None
      else case ring_slot s (bn mod an_ring_size s) of
        None \<Rightarrow> None
      | Some b \<Rightarrow>
          if rec_version b \<noteq> 0 \<and> rec_block b = bn then (if rec_revoked b then None else Some b)
          else case pin_slot s bn of
            None \<Rightarrow> None
          | Some p \<Rightarrow> if rec_revoked p then None else Some (take 154 p))"

lemma read_slot:
  assumes "anchor_inv s" and "ring_slot s (bn mod an_ring_size s) = Some b"
  shows "read_ring_slot (an_boxes s) (an_ring_size s) bn = Inr b"
proof -
  have "slot_ok s (bn mod an_ring_size s) b"
    by (rule inv_slot [OF assms(1) residue_less [OF inv_size [OF assms(1)]] assms(2)])
  then show ?thesis using assms(2)
    by (simp add: read_ring_slot_def residue_of [OF inv_size [OF assms(1)]] box_extract_all RECORD_LEN_def
        max_bytes_def slot_ok_def)
qed

lemma read_slot_None:
  assumes "anchor_inv s" and "ring_slot s (bn mod an_ring_size s) = None"
  shows "read_ring_slot (an_boxes s) (an_ring_size s) bn = Inl NoSuchBox"
  using assms(2) by (simp add: read_ring_slot_def residue_of [OF inv_size [OF assms(1)]] box_extract_def)

lemma pin_read_Some:
  assumes "pin_slot s bn = Some p" and "pinned_ok bn p"
  shows "pin_read_maybe (an_boxes s) bn = Inr (True, take 154 p, drop 154 p)"
  using assms by (simp add: pin_read_maybe_def box_length_def box_extract_all pinned_ok_def PINNED_RECORD_LEN_def
      RECORD_LEN_def OFF_PIN_PAYER_def max_bytes_def bslice_def seg_def Let_def)

lemma pin_read_None: "pin_slot s bn = None \<Longrightarrow> pin_read_maybe (an_boxes s) bn = Inr (False, [], [])"
  by (simp add: pin_read_maybe_def box_length_def)

lemma take_record:
  assumes "length p = 186"
  shows "length (take 154 p) = 154" "rec_version (take 154 p) = rec_version p"
    "rec_revoked (take 154 p) = rec_revoked p" "rec_block (take 154 p) = rec_block p"
  using assms by (simp_all add: rec_version_def rec_revoked_def rec_flags_def rec_block_def seg_def drop_take min_absorb1)

lemma attest_exact:
  assumes inv: "anchor_inv s" and bn: "bn < uint64_limit"
  shows "anchor_attest s bn = Inr a \<longleftrightarrow> attest_answer s bn = Some a"
    and "anchor_get s bn = Inr a \<longleftrightarrow> attest_answer s bn = Some a"
proof -
  let ?r = "bn mod an_ring_size s"
  note r = residue_less [OF inv_size [OF inv], of bn]
  have pin: "pin_slot s bn = None \<or> (\<exists>p. pin_slot s bn = Some p \<and> pinned_ok bn p)"
    using inv_pin [OF inv bn] by (cases "pin_slot s bn") auto
  have slot: "ring_slot s ?r = None \<or> (\<exists>b. ring_slot s ?r = Some b \<and> length b = 154)"
    using inv_slot [OF inv r] by (cases "ring_slot s ?r") (auto simp: slot_ok_def)
  have "anchor_attest s bn = Inr a \<longleftrightarrow> attest_answer s bn = Some a"
    using slot
  proof (elim disjE exE conjE)
    assume "ring_slot s ?r = None"
    then show ?thesis by (simp add: anchor_attest_def attest_answer_def read_slot_None [OF inv] res_simps)
  next
    fix b assume b: "ring_slot s ?r = Some b" "length b = 154"
    from pin show ?thesis
      by (elim disjE exE conjE) (auto simp: anchor_attest_def attest_answer_def read_slot [OF inv b(1)] b res_simps
          pin_read_None pin_read_Some take_record pinned_ok_def)
  qed
  moreover have "anchor_get s bn = Inr a \<longleftrightarrow> attest_answer s bn = Some a"
    using slot
  proof (elim disjE exE conjE)
    assume "ring_slot s ?r = None"
    then show ?thesis by (simp add: anchor_get_def attest_answer_def read_slot_None [OF inv] res_simps)
  next
    fix b assume b: "ring_slot s ?r = Some b" "length b = 154"
    from pin show ?thesis
      by (elim disjE exE conjE) (auto simp: anchor_get_def attest_answer_def read_slot [OF inv b(1)] b res_simps
          pin_read_None pin_read_Some take_record pinned_ok_def)
  qed
  ultimately show "anchor_attest s bn = Inr a \<longleftrightarrow> attest_answer s bn = Some a"
    "anchor_get s bn = Inr a \<longleftrightarrow> attest_answer s bn = Some a" by blast+
qed

lemma attest_answer_shape:
  assumes inv: "anchor_inv s" and bn: "bn < uint64_limit" and a: "attest_answer s bn = Some a"
  shows "length a = 154 \<and> rec_version a = 1 \<and> \<not> rec_revoked a \<and> rec_block a = bn \<and> an_conflict s = 0"
proof -
  note r = residue_less [OF inv_size [OF inv], of bn]
  from a show ?thesis
    using inv_slot [OF inv r] inv_pin [OF inv bn]
    by (auto simp: attest_answer_def slot_ok_def pinned_ok_def take_record split: if_splits option.splits)
qed

section \<open>Runs\<close>

lemma run_step_inv:
  assumes H: "\<And>x. length (H x) = 32" and run: "anchor_run H s0 evs s" and inv0: "anchor_inv s0"
    and P0: "P [] s0"
    and step: "\<And>evs s E c s'. anchor_run H s0 evs s \<Longrightarrow> anchor_inv s \<Longrightarrow> P evs s \<Longrightarrow> env_ok E \<Longrightarrow> call_ok c \<Longrightarrow>
       anchor_step H s (E, c) s' \<Longrightarrow> anchor_effect H E c s s' \<Longrightarrow> P (evs @ [(E, c)]) s'"
  shows "P evs s"
  using run inv0 P0 step
proof (induction rule: anchor_run.induct)
  case (run_snoc s0 evs s ev s')
  obtain E c where ev: "ev = (E, c)" by (cases ev)
  from run_snoc.hyps(2) have ok: "env_ok E" "call_ok c" by (auto simp: ev anchor_step_simps)
  have inv: "anchor_inv s" by (rule run_inv [where H = H, OF H run_snoc.hyps(1) run_snoc.prems(1)])
  have ef: "anchor_effect H E c s s'" using step_effect [where H = H, OF H inv] run_snoc.hyps(2) by (simp add: ev)
  have "P evs s" using run_snoc.IH run_snoc.prems by blast
  then show ?case unfolding ev using run_snoc.prems(3) run_snoc.hyps inv ok ef ev by blast
qed blast

text \<open>Where a record comes from: an earlier accepted call whose candidate it is.\<close>

definition provenance :: "(bytes \<Rightarrow> bytes) \<Rightarrow> anchor_state \<Rightarrow> (call_env \<times> anchor_call) list \<Rightarrow> bytes \<Rightarrow> bool" where
  "provenance H s0 evs a \<longleftrightarrow> (\<exists>pre E c post s1. evs = pre @ (E, c) # post \<and> anchor_run H s0 pre s1 \<and>
     env_ok E \<and> call_ok c \<and> call_candidate H E s1 c = Inr a)"

lemma provenance_more: "provenance H s0 evs a \<Longrightarrow> provenance H s0 (evs @ [ev]) a"
  unfolding provenance_def by (metis append.assoc append_Cons)

lemma provenance_last:
  "anchor_run H s0 evs s \<Longrightarrow> env_ok E \<Longrightarrow> call_ok c \<Longrightarrow> call_candidate H E s c = Inr a \<Longrightarrow>
   provenance H s0 (evs @ [(E, c)]) a"
  unfolding provenance_def by blast

definition all_provenance where
  "all_provenance H s0 evs s \<longleftrightarrow>
     (\<forall>r<an_ring_size s. \<forall>b. ring_slot s r = Some b \<longrightarrow> rec_version b \<noteq> 0 \<longrightarrow> \<not> rec_revoked b \<longrightarrow> provenance H s0 evs b) \<and>
     (\<forall>bn<uint64_limit. \<forall>b. pin_slot s bn = Some b \<longrightarrow> \<not> rec_revoked b \<longrightarrow> provenance H s0 evs (take 154 b))"

lemma step_provenance:
  assumes H: "\<And>x. length (H x) = 32" and run: "anchor_run H s0 evs s" and inv: "anchor_inv s"
    and P: "all_provenance H s0 evs s" and env: "env_ok E" and ok: "call_ok c"
    and ef: "anchor_effect H E c s s'"
  shows "all_provenance H s0 (evs @ [(E, c)]) s'"
proof -
  let ?evs = "evs @ [(E, c)]"
  have rold: "provenance H s0 ?evs b" if "r < an_ring_size s" "ring_slot s r = Some b" "rec_version b \<noteq> 0" "\<not> rec_revoked b" for r b
    using P that unfolding all_provenance_def by (blast intro: provenance_more)
  have ring: "provenance H s0 ?evs b"
    if r: "r < an_ring_size s" and b: "ring_slot s' r = Some b" and v: "rec_version b \<noteq> 0" "\<not> rec_revoked b" for r b
    using effect_slot [where H = H, OF H inv ok ef r]
  proof (elim disjE exE conjE)
    assume "ring_slot s' r = ring_slot s r"
    then show ?thesis using rold [OF r] b v by simp
  next
    assume "ring_slot s' r = Some (replicate 154 0)"
    then show ?thesis using b v zero_record by simp
  next
    fix b0 a assume "call_candidate H E s c = Inr a" "ring_slot s' r = Some a"
    then show ?thesis using b provenance_last [OF run env ok] by simp
  next
    fix b0 assume b0: "ring_slot s r = Some b0" "ring_slot s' r = Some (mark_revoked b0)"
    then have "154 \<le> length b0" using inv_slot [OF inv r b0(1)] by (simp add: slot_ok_def)
    then show ?thesis using b b0 v mark_revoked_facts(4) by auto
  qed
  have pin: "provenance H s0 ?evs (take 154 b)"
    if bn: "bn < uint64_limit" and b: "pin_slot s' bn = Some b" and v: "\<not> rec_revoked b" for bn b
    using effect_pin [OF ef bn ok]
  proof (elim disjE exE conjE)
    assume "pin_slot s' bn = pin_slot s bn"
    then have "pin_slot s bn = Some b" using b by simp
    then have "provenance H s0 evs (take 154 b)" using P bn v unfolding all_provenance_def by blast
    then show ?thesis by (rule provenance_more)
  next
    assume "pin_slot s' bn = None"
    then show ?thesis using b by simp
  next
    fix q assume q: "ring_slot s (bn mod an_ring_size s) = Some q" "rec_version q \<noteq> 0" "rec_block q = bn"
      "pin_slot s' bn = Some (q @ ce_sender E)"
    note r = residue_less [OF inv_size [OF inv], of bn]
    have l: "length (ce_sender E) = 32" using env by (simp add: env_ok_def)
    note pc = pinned_copy [OF inv_slot [OF inv r q(1)] q(2,3) l]
    have "\<not> rec_revoked q" using pc(2) b q(4) v by simp
    then have "provenance H s0 ?evs q" by (rule rold [OF r q(1,2)])
    then show ?thesis using b q(4) pc(3) by simp
  qed
  show ?thesis unfolding all_provenance_def using ring pin effect_size [OF ef] by simp
qed

lemma create_empty:
  assumes "anchor_create gov m4 n = Inr s"
  shows "an_boxes s = Map.empty" "an_globals s = Map.empty" "an_fork_count s = 0" "an_m4_app s = m4"
    "an_ring_size s = n" "an_conflict s = 0" "an_gov s = gov"
  using assms by (auto simp: anchor_create_def res_simps)

lemma run_provenance:
  assumes H: "\<And>x. length (H x) = 32" and c: "anchor_create gov m4 n = Inr s0" "n < uint64_limit"
    and run: "anchor_run H s0 evs s"
  shows "all_provenance H s0 evs s"
proof (rule run_step_inv [where H = H and P = "all_provenance H s0", OF H run create_inv [OF c]])
  show "all_provenance H s0 [] s0" by (simp add: all_provenance_def create_empty [OF c(1)])
qed (blast intro: step_provenance [where H = H, OF H])

lemma attest_provenance_core:
  assumes H: "\<And>x. length (H x) = 32" and c: "anchor_create gov m4 n = Inr s0" "n < uint64_limit"
    and run: "anchor_run H s0 evs s" and bn: "bn < uint64_limit" and a: "attest_answer s bn = Some a"
  shows "provenance H s0 evs a"
proof -
  have inv: "anchor_inv s" by (rule run_inv [where H = H, OF H run create_inv [OF c]])
  note r = residue_less [OF inv_size [OF inv], of bn]
  have P: "all_provenance H s0 evs s" by (rule run_provenance [where H = H, OF H c run])
  from a show ?thesis using P r bn unfolding attest_answer_def all_provenance_def
    by (auto split: if_splits option.splits)
qed

section \<open>Revocation\<close>

text \<open>
  A block whose ring record is revoked or superseded and which has no unrevoked pinned copy is dead,
  and stays dead.
\<close>

definition dead_block :: "nat \<Rightarrow> anchor_state \<Rightarrow> bool" where
  "dead_block bn s \<longleftrightarrow>
     (\<exists>b. ring_slot s (bn mod an_ring_size s) = Some b \<and> rec_version b \<noteq> 0 \<and>
        (bn < rec_block b \<or> rec_block b = bn \<and> rec_revoked b)) \<and>
     (\<forall>p. pin_slot s bn = Some p \<longrightarrow> rec_revoked p)"

lemma dead_not_attested: "dead_block bn s \<Longrightarrow> attest_answer s bn = None"
  by (auto simp: dead_block_def attest_answer_def split: option.splits)

lemma step_dead:
  assumes H: "\<And>x. length (H x) = 32" and inv: "anchor_inv s" and env: "env_ok E" and ok: "call_ok c"
    and ef: "anchor_effect H E c s s'" and bn: "bn < uint64_limit" and d: "dead_block bn s"
  shows "dead_block bn s'"
proof -
  let ?r = "bn mod an_ring_size s"
  note r = residue_less [OF inv_size [OF inv], of bn]
  from d obtain b where b: "ring_slot s ?r = Some b" "rec_version b \<noteq> 0"
      "bn < rec_block b \<or> rec_block b = bn \<and> rec_revoked b"
    and p: "\<forall>p. pin_slot s bn = Some p \<longrightarrow> rec_revoked p" by (auto simp: dead_block_def)
  have sb: "slot_ok s ?r b" by (rule inv_slot [OF inv r b(1)])
  then have lb: "154 \<le> length b" by (simp add: slot_ok_def)
  note m = mark_revoked_facts [OF lb]
  have "\<exists>b'. ring_slot s' ?r = Some b' \<and> rec_version b' \<noteq> 0 \<and>
      (bn < rec_block b' \<or> rec_block b' = bn \<and> rec_revoked b')"
    using effect_slot [where H = H, OF H inv ok ef r]
  proof (elim disjE exE conjE)
    fix b0 a assume a: "ring_slot s ?r = Some b0" "call_candidate H E s c = Inr a" "ring_slot s' ?r = Some a" "supersedes a b0"
    have "rec_block b < rec_block a" using a(1,4) b by (simp add: supersedes_def)
    then show ?thesis using a b(3) candidate_facts(2) [where H = H, OF H ok a(2)] by auto
  next
    fix b0 assume "ring_slot s ?r = Some b0" "ring_slot s' ?r = Some (mark_revoked b0)"
    then show ?thesis using b m by auto
  qed (use b in auto)
  moreover have "\<forall>p. pin_slot s' bn = Some p \<longrightarrow> rec_revoked p"
    using effect_pin [OF ef bn ok]
  proof (elim disjE exE conjE)
    fix q assume q: "ring_slot s ?r = Some q" "rec_block q = bn" "pin_slot s' bn = Some (q @ ce_sender E)"
    have l: "length (ce_sender E) = 32" using env by (simp add: env_ok_def)
    have "q = b" using q(1) b(1) by simp
    then have "rec_revoked q" using b(3) q(2) by auto
    then show ?thesis using pinned_copy(2) [OF sb b(2) _ l] q \<open>q = b\<close> by simp
  qed (use p in simp_all)
  ultimately show ?thesis using effect_size [OF ef] by (simp add: dead_block_def)
qed

lemma run_dead:
  assumes H: "\<And>x. length (H x) = 32" and run: "anchor_run H s evs s'" and inv: "anchor_inv s"
    and bn: "bn < uint64_limit" and d: "dead_block bn s"
  shows "dead_block bn s'"
  by (rule run_step_inv [where H = H and P = "\<lambda>_. dead_block bn", OF H run inv d])
    (blast intro: step_dead [where H = H, OF H _ _ _ _ bn])

section \<open>One record per block\<close>

definition pins_match :: "anchor_state \<Rightarrow> bool" where
  "pins_match s \<longleftrightarrow> (\<forall>bn<uint64_limit. \<forall>p. pin_slot s bn = Some p \<longrightarrow>
     (\<exists>b. ring_slot s (bn mod an_ring_size s) = Some b \<and> rec_version b \<noteq> 0 \<and> bn \<le> rec_block b \<and>
        (rec_block b = bn \<longrightarrow> take 154 p = b \<or> rec_revoked b)))"

text \<open>The block is settled on the record \<open>a\<close>: nothing else can be attested for it.\<close>

definition settled :: "nat \<Rightarrow> bytes \<Rightarrow> anchor_state \<Rightarrow> bool" where
  "settled bn a s \<longleftrightarrow>
     (\<exists>b. ring_slot s (bn mod an_ring_size s) = Some b \<and> rec_version b \<noteq> 0 \<and> bn \<le> rec_block b \<and>
        (rec_block b = bn \<longrightarrow> b = a \<or> rec_revoked b)) \<and>
     (\<forall>p. pin_slot s bn = Some p \<longrightarrow> take 154 p = a \<or> rec_revoked p)"

lemma settled_attest: "settled bn a s \<Longrightarrow> attest_answer s bn = Some a' \<Longrightarrow> a' = a"
  by (auto simp: settled_def attest_answer_def split: option.splits if_splits)

lemma slot_successor:
  assumes H: "\<And>x. length (H x) = 32" and inv: "anchor_inv s" and ok: "call_ok c"
    and ef: "anchor_effect H E c s s'" and r: "r < an_ring_size s"
    and b: "ring_slot s r = Some b" "rec_version b \<noteq> 0"
  obtains b' where "ring_slot s' r = Some b'" "rec_version b' \<noteq> 0"
    "b' = b \<or> rec_block b < rec_block b' \<or> rec_block b' = rec_block b \<and> rec_revoked b'"
proof -
  have lb: "154 \<le> length b" using inv_slot [OF inv r b(1)] by (simp add: slot_ok_def)
  note m = mark_revoked_facts [OF lb]
  show thesis
    using effect_slot [where H = H, OF H inv ok ef r]
  proof (elim disjE exE conjE)
    assume "ring_slot s' r = ring_slot s r"
    then show thesis using that [of b] b by simp
  next
    assume "ring_slot s r = None"
    then show thesis using b by simp
  next
    fix b0 a assume a: "ring_slot s r = Some b0" "call_candidate H E s c = Inr a" "ring_slot s' r = Some a" "supersedes a b0"
    have "rec_block b < rec_block a" using a(1,4) b by (simp add: supersedes_def)
    then show thesis using that [of a] a candidate_facts(2) [where H = H, OF H ok a(2)] by simp
  next
    fix b0 assume "ring_slot s r = Some b0" "ring_slot s' r = Some (mark_revoked b0)"
    then show thesis using that [of "mark_revoked b"] b m by simp
  qed
qed

lemma step_pins_match:
  assumes H: "\<And>x. length (H x) = 32" and inv: "anchor_inv s" and env: "env_ok E" and ok: "call_ok c"
    and ef: "anchor_effect H E c s s'" and pm: "pins_match s"
  shows "pins_match s'"
  unfolding pins_match_def
proof (intro allI impI)
  fix bn p assume bn: "bn < uint64_limit" and p: "pin_slot s' bn = Some p"
  let ?r = "bn mod an_ring_size s"
  note r = residue_less [OF inv_size [OF inv], of bn]
  have sz: "an_ring_size s' = an_ring_size s" using effect_size [OF ef] by simp
  show "\<exists>b. ring_slot s' (bn mod an_ring_size s') = Some b \<and> rec_version b \<noteq> 0 \<and> bn \<le> rec_block b \<and>
      (rec_block b = bn \<longrightarrow> take 154 p = b \<or> rec_revoked b)"
    using effect_pin [OF ef bn ok]
  proof (elim disjE exE conjE)
    assume same: "pin_slot s' bn = pin_slot s bn"
    from pm [unfolded pins_match_def, rule_format, OF bn, of p] p same obtain b where
      b: "ring_slot s ?r = Some b" "rec_version b \<noteq> 0" "bn \<le> rec_block b"
        "rec_block b = bn \<longrightarrow> take 154 p = b \<or> rec_revoked b" by auto
    obtain b' where b': "ring_slot s' ?r = Some b'" "rec_version b' \<noteq> 0"
      "b' = b \<or> rec_block b < rec_block b' \<or> rec_block b' = rec_block b \<and> rec_revoked b'"
      by (rule slot_successor [where H = H, OF H inv ok ef r b(1,2)])
    then show ?thesis using b sz by auto
  next
    assume "pin_slot s' bn = None"
    then show ?thesis using p by simp
  next
    fix q assume q: "ring_slot s ?r = Some q" "rec_version q \<noteq> 0" "rec_block q = bn"
      "pin_slot s' bn = Some (q @ ce_sender E)" "ring_slot s' ?r = Some q"
    have "length q = 154" using inv_slot [OF inv r q(1)] by (simp add: slot_ok_def)
    then show ?thesis using q p sz by auto
  qed
qed

lemma settled_of_answer:
  assumes inv: "anchor_inv s" and pm: "pins_match s" and bn: "bn < uint64_limit" and a: "attest_answer s bn = Some a"
  shows "settled bn a s"
proof -
  let ?r = "bn mod an_ring_size s"
  from a obtain b where b: "ring_slot s ?r = Some b" by (auto simp: attest_answer_def split: option.splits if_splits)
  have pins: "\<exists>b. ring_slot s ?r = Some b \<and> rec_version b \<noteq> 0 \<and> bn \<le> rec_block b \<and>
      (rec_block b = bn \<longrightarrow> take 154 p = b \<or> rec_revoked b)" if "pin_slot s bn = Some p" for p
    using pm bn that unfolding pins_match_def by blast
  show ?thesis
  proof (cases "rec_version b \<noteq> 0 \<and> rec_block b = bn")
    case True
    then have "a = b" "\<not> rec_revoked b" using a b by (auto simp: attest_answer_def split: if_splits)
    then show ?thesis using b True pins by (fastforce simp: settled_def)
  next
    case False
    then obtain p where p: "pin_slot s bn = Some p" "a = take 154 p"
      using a b by (auto simp: attest_answer_def split: option.splits if_splits)
    from pins [OF p(1)] b have "rec_version b \<noteq> 0" "bn \<le> rec_block b" by auto
    then show ?thesis using b p False by (auto simp: settled_def)
  qed
qed

lemma step_settled:
  assumes H: "\<And>x. length (H x) = 32" and inv: "anchor_inv s" and env: "env_ok E" and ok: "call_ok c"
    and ef: "anchor_effect H E c s s'" and bn: "bn < uint64_limit" and d: "settled bn a s"
  shows "settled bn a s'"
proof -
  let ?r = "bn mod an_ring_size s"
  note r = residue_less [OF inv_size [OF inv], of bn]
  from d obtain b where b: "ring_slot s ?r = Some b" "rec_version b \<noteq> 0" "bn \<le> rec_block b"
      "rec_block b = bn \<longrightarrow> b = a \<or> rec_revoked b"
    and p: "\<forall>p. pin_slot s bn = Some p \<longrightarrow> take 154 p = a \<or> rec_revoked p" by (auto simp: settled_def)
  obtain b' where b': "ring_slot s' ?r = Some b'" "rec_version b' \<noteq> 0"
      "b' = b \<or> rec_block b < rec_block b' \<or> rec_block b' = rec_block b \<and> rec_revoked b'"
    by (rule slot_successor [where H = H, OF H inv ok ef r b(1,2)])
  have "\<forall>p. pin_slot s' bn = Some p \<longrightarrow> take 154 p = a \<or> rec_revoked p"
    using effect_pin [OF ef bn ok]
  proof (elim disjE exE conjE)
    fix q assume q: "ring_slot s ?r = Some q" "rec_version q \<noteq> 0" "rec_block q = bn" "pin_slot s' bn = Some (q @ ce_sender E)"
    have l: "length (ce_sender E) = 32" using env by (simp add: env_ok_def)
    have "q = a \<or> rec_revoked q" using q(1,3) b(1,4) by auto
    then show ?thesis using pinned_copy(2,3) [OF inv_slot [OF inv r q(1)] q(2,3) l] q(4) by auto
  qed (use p in simp_all)
  then show ?thesis using b b' effect_size [OF ef] by (auto simp: settled_def)
qed

lemma run_pins_match:
  assumes H: "\<And>x. length (H x) = 32" and c: "anchor_create gov m4 n = Inr s0" "n < uint64_limit"
    and run: "anchor_run H s0 evs s"
  shows "pins_match s"
proof (rule run_step_inv [where H = H and P = "\<lambda>_. pins_match", OF H run create_inv [OF c]])
  show "pins_match s0" by (simp add: pins_match_def create_empty [OF c(1)])
qed (blast intro: step_pins_match [where H = H, OF H])

lemma attest_stable_core:
  assumes H: "\<And>x. length (H x) = 32" and inv: "anchor_inv s" and pm: "pins_match s"
    and run: "anchor_run H s evs s'" and bn: "bn < uint64_limit"
    and a: "attest_answer s bn = Some a" and a': "attest_answer s' bn = Some a'"
  shows "a' = a"
proof -
  have "settled bn a s'"
    by (rule run_step_inv [where H = H and P = "\<lambda>_. settled bn a", OF H run inv settled_of_answer [OF inv pm bn a]])
      (blast intro: step_settled [where H = H, OF H _ _ _ _ bn])
  then show ?thesis using a' by (rule settled_attest)
qed

section \<open>The conflict latch\<close>

lemma effect_latched:
  "anchor_effect H E c s s' \<Longrightarrow> an_conflict s \<noteq> 0 \<Longrightarrow> c \<noteq> CClearConflict \<Longrightarrow> an_conflict s' \<noteq> 0"
  by (induction rule: anchor_effect.induct) auto

lemma run_latched:
  assumes H: "\<And>x. length (H x) = 32" and run: "anchor_run H s evs s'" and inv: "anchor_inv s"
    and "an_conflict s \<noteq> 0" and "CClearConflict \<notin> snd ` set evs"
  shows "an_conflict s' \<noteq> 0"
proof -
  have "CClearConflict \<notin> snd ` set evs \<longrightarrow> an_conflict s' \<noteq> 0"
    by (rule run_step_inv [where H = H and P = "\<lambda>evs s. CClearConflict \<notin> snd ` set evs \<longrightarrow> an_conflict s \<noteq> 0", OF H run inv])
      (use assms(4) effect_latched in force)+
  then show ?thesis using assms(5) by blast
qed

lemma latched_blocks:
  assumes "an_conflict s \<noteq> 0"
  shows "anchor_attest s bn = Inl (AssertFail ''N22'')" "anchor_get s bn = Inl (AssertFail ''N22'')"
    "anchor_pin E s bn p = Inl (AssertFail ''N22'')" "anchor_finish s a \<noteq> Inr r"
  using assms by (auto simp: anchor_attest_def anchor_get_def anchor_pin_def anchor_finish_def
      finish_anchor_flow_def res_simps)

section \<open>The fork table of a run\<close>

lemma effect_table:
  assumes ef: "anchor_effect H E c s s'" and ok: "call_ok c"
    and t: "an_table.table_ok (an_globals s) (an_fork_count s)"
  shows "an_table.table_ok (an_globals s') (an_fork_count s')"
  using ef
proof cases
  case (eff_row row g n)
  then show ?thesis using an_table.table_ok_put [OF t eff_row(4)] ok by simp
qed (use t in simp_all)

lemma run_table:
  assumes H: "\<And>x. length (H x) = 32" and c: "anchor_create gov m4 n = Inr s0" "n < uint64_limit"
    and run: "anchor_run H s0 evs s"
  shows "an_table.table_ok (an_globals s) (an_fork_count s)"
proof (rule run_step_inv [where H = H and P = "\<lambda>_ s. an_table.table_ok (an_globals s) (an_fork_count s)",
      OF H run create_inv [OF c]])
  show "an_table.table_ok (an_globals s0) (an_fork_count s0)" by (simp add: create_empty [OF c(1)] an_table.table_ok_0)
qed (blast intro: effect_table)

lemma lookup_row_active:
  assumes ok: "an_table.table_ok st n"
  shows "lookup_row st n e = Inr row \<longleftrightarrow> (\<exists>e'. an_table.active_row st n e (e', row))"
proof
  assume "lookup_row st n e = Inr row"
  then obtain i e' where f: "an_find_row st n e = Inr (True, i)" "an_read_row st i = Inr (e', row)"
    by (auto simp: lookup_row_Inr)
  from an_table.find_active [OF ok f(1)] f(2) show "\<exists>e'. an_table.active_row st n e (e', row)" by auto
next
  assume "\<exists>e'. an_table.active_row st n e (e', row)"
  then obtain e' where a: "an_table.active_row st n e (e', row)" by blast
  have rd: "\<forall>i<n. \<exists>r. an_read_row st i = Inr r" using ok by (simp add: an_table.table_ok_def)
  from an_table.find_last [OF rd, of e] obtain b i where f: "an_find_row st n e = Inr (b, i)"
    and b: "b \<longleftrightarrow> (\<exists>j<n. \<exists>r. an_read_row st j = Inr r \<and> fst r \<le> e)" by blast
  have b using a b unfolding an_table.active_row_def by blast
  then have f: "an_find_row st n e = Inr (True, i)" using f by simp
  from an_table.find_active [OF ok f] obtain r where r: "an_read_row st i = Inr r" "an_table.active_row st n e r" by blast
  have "r = (e', row)" by (rule an_table.active_row_unique [OF ok r(2) a])
  then show "lookup_row st n e = Inr row" using f r by (auto simp: lookup_row_Inr)
qed

section \<open>The ring only moves forward\<close>

definition hi_ok :: "anchor_state \<Rightarrow> bool" where
  "hi_ok s \<longleftrightarrow> an_hi_block s < uint64_limit"

lemma effect_heads:
  assumes "anchor_effect H E c s s'"
  shows "an_hi_block s \<le> an_hi_block s' \<and> an_hi_slot s \<le> an_hi_slot s' \<and>
    (an_hi_block s < an_hi_block s' \<longrightarrow> an_hi_slot s < an_hi_slot s')"
  using assms by cases auto

section \<open>Pinned deposits\<close>

lemma effect_pin_frame:
  assumes ef: "anchor_effect H E c s s'" and bn: "bn < uint64_limit" and ok: "call_ok c"
    and "\<forall>p. c \<noteq> CPin bn p" and "c \<noteq> CUnpin bn"
  shows "pin_slot s' bn = pin_slot s bn"
  using ef
proof cases
  case (eff_pin q b p)
  then show ?thesis using bn ok assms(4) by (auto simp: pin_name_inj)
next
  case (eff_unpin q)
  then show ?thesis using bn ok assms(5) by (auto simp: pin_name_inj)
qed auto

lemma run_pin_frame:
  assumes H: "\<And>x. length (H x) = 32" and run: "anchor_run H s evs s'" and inv: "anchor_inv s" and bn: "bn < uint64_limit"
    and quiet: "\<forall>(E, c)\<in>set evs. (\<forall>p. c \<noteq> CPin bn p) \<and> c \<noteq> CUnpin bn"
  shows "pin_slot s' bn = pin_slot s bn"
proof -
  have "(\<forall>(E, c)\<in>set evs. (\<forall>p. c \<noteq> CPin bn p) \<and> c \<noteq> CUnpin bn) \<longrightarrow> pin_slot s' bn = pin_slot s bn"
    by (rule run_step_inv [where H = H and
        P = "\<lambda>evs s'. (\<forall>(E, c)\<in>set evs. (\<forall>p. c \<noteq> CPin bn p) \<and> c \<noteq> CUnpin bn) \<longrightarrow> pin_slot s' bn = pin_slot s bn",
        OF H run inv]) (use effect_pin_frame [OF _ bn] in \<open>auto simp: ball_Un\<close>)
  then show ?thesis using quiet by blast
qed

lemma unpin_pays:
  assumes "pin_slot s bn = Some (b @ payer)" and "length b = 154" "length payer = 32"
  shows "anchor_unpin s bn = Inr (s\<lparr>an_boxes := (an_boxes s)(pin_box_name bn := None)\<rparr>, payer, PIN_MBR)"
proof -
  have "box_extract (an_boxes s) (pin_box_name bn) 0 PINNED_RECORD_LEN = Inr (b @ payer)"
    using assms by (simp add: box_extract_all PINNED_RECORD_LEN_def RECORD_LEN_def max_bytes_def)
  then show ?thesis using assms
    by (simp add: anchor_unpin_def pin_read_maybe_def box_length_def Let_def OFF_PIN_PAYER_def RECORD_LEN_def
        bslice_def seg_def pin_delete_def box_delete_def)
qed

lemma pin_step:
  assumes inv: "anchor_inv s" and bn: "bn < uint64_limit"
    and st: "anchor_step H s (E, CPin bn p) s'"
  shows "\<exists>b. length b = 154 \<and> pin_slot s' bn = Some (b @ ce_sender E) \<and> length (ce_sender E) = 32"
proof -
  from st have env: "length (ce_sender E) = 32" and pin: "anchor_pin E s bn p = Inr s'"
    by (auto simp: anchor_step_simps env_ok_def quiet_def res_simps)
  have l: "\<And>b. pin_slot s bn = Some b \<Longrightarrow> length b = 186" using inv_pin [OF inv bn] by (simp add: pinned_ok_def)
  from pin_Inr [OF inv pin env l] obtain b where b: "ring_slot s (bn mod an_ring_size s) = Some b"
    "s' = s\<lparr>an_boxes := (an_boxes s)(pin_box_name bn \<mapsto> b @ ce_sender E)\<rparr>" by blast
  have "length b = 154" using inv_slot [OF inv residue_less [OF inv_size [OF inv]] b(1)] by (simp add: slot_ok_def)
  then show ?thesis using b(2) env by auto
qed

section \<open>The write decision, exactly\<close>

text \<open>
  What anchoring a candidate does, in terms of the ring alone. There is no branch for a slot that
  holds a newer block than the candidate: admission excludes it.
\<close>

definition anchor_decision :: "anchor_state \<Rightarrow> bytes \<Rightarrow> (anchor_state \<times> bytes) res" where
  "anchor_decision s a =
     (let n = an_ring_size s; r = rec_block a mod n in
      if an_ring_cursor s \<noteq> n then Inl (AssertFail ''N10'')
      else if an_frozen s \<noteq> 0 then Inl (AssertFail ''N11'')
      else if an_conflict s \<noteq> 0 then Inl (AssertFail ''N22'')
      else if rec_block a + n \<le> an_hi_block s then Inl (AssertFail ''N-ADMIT'')
      else let b = the (ring_slot s r) in
        if rec_version b = 0 \<or> rec_block b < rec_block a then
          if an_hi_block s < rec_block a \<and> rec_slot a \<le> an_hi_slot s then Inl (AssertFail ''N-ADMIT-monotonic'')
          else Inr (s\<lparr>an_boxes := (an_boxes s)(ring_box_name r \<mapsto> a),
            an_hi_block := max (an_hi_block s) (rec_block a),
            an_hi_slot := (if an_hi_block s < rec_block a then rec_slot a else an_hi_slot s),
            an_n_anchored := an_n_anchored s + 1\<rparr>, a)
        else if same_content b a then Inr (s, b)
        else Inr (s\<lparr>an_conflict := 1\<rparr>, b))"

lemma newer_slot_excluded:
  assumes inv: "anchor_inv s" and adm: "an_hi_block s < m + an_ring_size s"
    and b: "ring_slot s (m mod an_ring_size s) = Some b" "rec_version b \<noteq> 0"
  shows "rec_block b \<le> m"
proof (rule ccontr)
  assume "\<not> rec_block b \<le> m"
  then have lt: "m < rec_block b" by simp
  let ?n = "an_ring_size s"
  note r = residue_less [OF inv_size [OF inv], of m]
  have ok: "rec_block b mod ?n = m mod ?n" "rec_block b \<le> an_hi_block s"
    using inv_slot [OF inv r b(1)] b(2) by (auto simp: slot_ok_def)
  have "?n dvd rec_block b - m" using ok(1) lt by (simp add: mod_eq_dvd_iff_nat)
  then have "?n \<le> rec_block b - m" using lt by (simp add: dvd_imp_le)
  then show False using adm ok(2) lt by linarith
qed

lemma finish_exact:
  assumes inv: "anchor_inv s" and len: "length a = 154"
    and nb: "rec_block a + an_ring_size s < uint64_limit" and na: "an_n_anchored s + 1 < uint64_limit"
  shows "anchor_finish s a = anchor_decision s a"
proof (cases "an_ring_cursor s = an_ring_size s \<and> an_frozen s = 0 \<and> an_conflict s = 0 \<and>
    an_hi_block s < rec_block a + an_ring_size s")
  case False
  then show ?thesis using nb
    by (auto simp: anchor_finish_def anchor_decision_def finish_anchor_flow_def ring_admit_and_write_def
        len uadd_def Let_def require_def)
next
  case True
  let ?r = "rec_block a mod an_ring_size s"
  note r = residue_less [OF inv_size [OF inv], of "rec_block a"]
  obtain b where b: "ring_slot s ?r = Some b" using inv_slot_exists [OF inv r] True r by auto
  have lb: "length b = 154" using inv_slot [OF inv r b] by (simp add: slot_ok_def)
  have ext: "box_extract (an_boxes s) (ring_box_name ?r) 0 RECORD_LEN = Inr b"
    using b lb by (simp add: box_extract_all RECORD_LEN_def max_bytes_def)
  have rep: "box_replace (an_boxes s) (ring_box_name ?r) 0 a = Inr ((an_boxes s)(ring_box_name ?r \<mapsto> a))"
    using b lb len by (simp add: box_replace_all)
  have ver: "getbyte b 0 = Inr (rec_version b)" using lb by (simp add: getbyte_def rec_version_def)
  have le: "rec_version b \<noteq> 0 \<Longrightarrow> rec_block b \<le> rec_block a"
    using newer_slot_excluded [OF inv _ b] True by simp
  have up: "uadd (rec_block a) (an_ring_size s) = Inr (rec_block a + an_ring_size s)" using nb by (simp add: uadd_def)
  have admit: "ring_admit_and_write (an_boxes s) (an_ring_size s) (an_hi_block s) a =
      (if rec_version b = 0 \<or> rec_block b < rec_block a
       then Inr ((an_boxes s)(ring_box_name ?r \<mapsto> a), RING_WRITE_OK, a)
       else if same_content b a then Inr (an_boxes s, RING_WRITE_IDEMPOTENT, b)
       else Inr (an_boxes s, RING_WRITE_EQUIVOCATION, b))"
    using True le by (auto simp: ring_admit_and_write_def len lb residue_of [OF inv_size [OF inv]] ext rep ver up Let_def
        record_content_matches_eq)
  show ?thesis
    unfolding anchor_finish_def finish_anchor_flow_def admit anchor_decision_def
    using True b len na by (auto simp: ring_codes uadd_def Let_def max_def require_def not_less)
qed

end
