(* ===== verification/Anchor_Demo.thy ===== *)
theory Anchor_Demo
  imports Anchor_Facts SSZ_Tree
begin

text \<open>
  A concrete history of the anchor, used by the witnesses: a ring of one slot, one fork row, and a
  finalized header whose block has number 5. The hash keeps the left half of a message, which is
  injective on the messages of this history.
\<close>

definition dm_gov :: bytes where "dm_gov = replicate 32 1"
definition dm_leaf :: bytes where "dm_leaf = block_number_leaf 5"
definition dm_rr :: bytes where "dm_rr = replicate 32 0xbb"

definition dm_hdr :: "nat \<Rightarrow> bytes" where
  "dm_hdr slot = le64 slot @ le64 5 @ dm_leaf @ zero32 @ dm_leaf"

definition dm_hdr_root :: "nat \<Rightarrow> bytes" where "dm_hdr_root slot = le64 slot @ replicate 24 0"

abbreviation dm_header :: bytes where "dm_header \<equiv> dm_hdr 64"
abbreviation dm_root :: bytes where "dm_root \<equiv> dm_hdr_root 64"

definition dm_env :: "bytes \<Rightarrow> call_env" where
  "dm_env sender = \<lparr>ce_sender = sender, ce_round = 9, ce_app_addr = replicate 32 7,
     ce_uints = (\<lambda>_. [ascii ''fin_slot'' \<mapsto> 64]),
     ce_bytes = (\<lambda>_. [ascii ''fin_root'' \<mapsto> dm_root, ascii ''fin_state_root'' \<mapsto> zero32])\<rparr>"

definition dm_row :: an_row where "dm_row = (0, 5, 7, 4, 2)"

text \<open>The execution fields, with the state root free.\<close>

definition dm_el :: "bytes \<Rightarrow> el_fields" where
  "dm_el sr = (sr, dm_rr, 5, dm_leaf @ sr, sr @ dm_leaf, sr @ sr)"

definition dm_sr :: bytes where "dm_sr = replicate 32 0xaa"
definition dm_sr2 :: bytes where "dm_sr2 = replicate 32 0xcc"

definition dm_rec :: "bytes \<Rightarrow> bytes" where
  "dm_rec sr = low_byte 1 @ low_byte 0 @ itob 5 @ itob 64 @ sr @ dm_rr @ dm_root @ dm_root @ itob 9"

definition dm_base :: anchor_state where
  "dm_base = \<lparr>an_gov = dm_gov, an_m4_app = 7, an_ring_size = 1, an_ring_cursor = 0, an_hi_block = 0,
     an_hi_slot = 0, an_n_anchored = 0, an_frozen = 1, an_conflict = 0, an_fork_count = 0,
     an_globals = Map.empty, an_boxes = Map.empty\<rparr>"

definition dm_ring :: anchor_state where
  "dm_ring = dm_base\<lparr>an_boxes := [ring_box_name 0 \<mapsto> replicate 154 0], an_ring_cursor := 1, an_frozen := 0\<rparr>"

definition dm_forked :: anchor_state where
  "dm_forked = dm_ring\<lparr>an_globals := [an_row_key 0 \<mapsto> itob 0 @ itob 5 @ itob 7 @ itob 4 @ itob 2], an_fork_count := 1\<rparr>"

definition dm_anchored :: anchor_state where
  "dm_anchored = dm_forked\<lparr>an_boxes := [ring_box_name 0 \<mapsto> dm_rec dm_sr], an_hi_block := 5, an_hi_slot := 64,
     an_n_anchored := 1\<rparr>"

lemma dm_lengths [simp]: "length dm_gov = 32" "length dm_leaf = 32" "length dm_rr = 32" "length (dm_hdr_root slot) = 32"
    "length dm_sr = 32" "length dm_sr2 = 32" "length (dm_hdr slot) = 112"
  by (simp_all add: dm_gov_def dm_leaf_def dm_rr_def dm_hdr_root_def dm_sr_def dm_sr2_def dm_hdr_def)

lemma dm_distinct: "dm_sr \<noteq> dm_sr2" "dm_leaf \<noteq> dm_sr"
proof -
  show "dm_sr \<noteq> dm_sr2" by (simp add: dm_sr_def dm_sr2_def replicate_eq_replicate)
  have "last dm_leaf = 0" "last dm_sr = 0xaa" by (simp_all add: dm_leaf_def block_number_leaf_def dm_sr_def)
  then show "dm_leaf \<noteq> dm_sr" by auto
qed

lemma dm_root_nonzero: "dm_root \<noteq> zero_address"
proof
  assume "dm_root = zero_address"
  then have "take 8 dm_root = take 8 zero_address" by simp
  then have "le64 64 = replicate 8 0" by (simp add: dm_hdr_root_def zero_address_def)
  moreover have "replicate 8 0 = le64 0" by (simp add: le64_def itob_def be_bytes_zero)
  ultimately have "le64 64 = le64 0" by simp
  then show False using le64_inj [of 64 0] by (simp add: uint64_limit_def)
qed

lemma dm_create: "anchor_create dm_gov 7 1 = Inr dm_base"
  by (simp add: anchor_create_def dm_base_def usub_def)

lemma dm_env_ok: "length sender = 32 \<Longrightarrow> env_ok (dm_env sender)"
  by (simp add: env_ok_def dm_env_def uint64_limit_def)

lemma dm_init: "anchor_exec H (dm_env dm_gov) dm_base (CRingInit 1) = Inr (dm_ring, [], [])"
  by (simp add: quiet_def anchor_ring_init_def dm_base_def dm_ring_def dm_env_def ring_init_chunk_def box_create_def
      uadd_def uint64_limit_def RECORD_LEN_def max_box_size_def Let_def)

lemma dm_append: "anchor_exec H (dm_env dm_gov) dm_ring (CAppendForkRow dm_row) = Inr (dm_forked, [], [])"
  by (simp add: quiet_def anchor_append_fork_row_def dm_base_def dm_ring_def dm_forked_def dm_env_def
      an_append_fork_row_def dm_row_def AN_TABLE_CAPACITY_def UINT64_MAX_def Let_def)

section \<open>The header and the folds\<close>

lemma dm_header_segs: "seg 0 8 (dm_hdr s) = le64 s" "seg 8 8 (dm_hdr s) = le64 5" "seg 16 32 (dm_hdr s) = dm_leaf"
    "seg 48 32 (dm_hdr s) = zero32" "seg 80 32 (dm_hdr s) = dm_leaf"
  by (simp_all add: dm_hdr_def seg_simps)

lemma dm_slot: "s < uint64_limit \<Longrightarrow> header_slot (dm_hdr s) = Inr s"
  by (simp add: header_slot_eq dm_header_segs)

lemma dm_slot64: "header_slot dm_header = Inr 64"
  by (rule dm_slot) (simp add: uint64_limit_def)

lemma dm_htr: "tree_root head_hash (header_tree (dm_hdr s)) = dm_hdr_root s"
  using head_hash_left [of "le64 s @ replicate 24 0"] by (simp add: header_tree_def dm_header_segs dm_hdr_root_def)

lemma dm_gdepth: "gdepth 4 = 2" "gdepth 5 = 2" "gdepth 7 = 2" "bitlen 4 = 3" "bitlen 5 = 3" "bitlen 7 = 3"
  by (simp_all add: gdepth_def bitlen.simps)

lemma chunks_two: "length a = 32 \<Longrightarrow> length b = 32 \<Longrightarrow> chunks32 (a @ b) 2 = [a, b]"
  by (simp add: numeral_2_eq_2 seg_def)

lemma dm_folds:
  assumes "length sr = 32"
  shows "folds_to head_hash sr (dm_leaf @ sr) 5 dm_leaf" "folds_to head_hash dm_rr (sr @ dm_leaf) 7 dm_leaf"
    "folds_to head_hash (block_number_leaf 5) (sr @ sr) 4 dm_leaf"
  using assms by (simp_all add: folds_to_def dm_gdepth chunks_two head_hash_left dm_leaf_def [symmetric])

lemma dm_lookup:
  assumes "an_globals s = an_globals dm_forked" "an_fork_count s = 1"
  shows "lookup_row (an_globals s) (an_fork_count s) e = Inr (5, 7, 4, 2)"
proof -
  have "an_read_row (an_globals s) 0 = Inr dm_row"
    unfolding dm_row_def assms(1)
    by (rule an_read_written) (simp_all add: an_row_valid_def uint64_limit_def dm_forked_def)
  then have "an_find_row (an_globals s) 1 e = Inr (True, 0) \<and> an_read_row (an_globals s) 0 = Inr (0, 5, 7, 4, 2)"
    by (simp add: an_find_row_def dm_row_def)
  then show ?thesis unfolding assms(2) lookup_row_Inr by blast
qed

lemma ascii_names: "ascii ''fin_root'' \<noteq> ascii ''fin_state_root''"
  by (simp add: ascii_def)

lemma dm_candidate:
  assumes "length sr = 32" and "an_globals s = an_globals dm_forked" "an_fork_count s = 1" "an_m4_app s = 7"
  shows "anchor_direct_candidate head_hash (dm_env sender) s 7 dm_header (dm_el sr) = Inr (dm_rec sr)"
proof -
  have "read_m4_finalized (dm_env sender) 7 (an_m4_app s) = Inr (64, dm_root, seg 48 32 dm_header)"
    using ascii_names by (simp add: read_m4_Inr dm_env_def assms(4) dm_header_segs)
  moreover have "build_record False 5 64 sr dm_rr dm_root dm_root 9 = Inr (dm_rec sr)"
    using assms(1) by (simp add: build_record_Inr dm_rec_def)
  moreover have "ce_round (dm_env sender) = 9" by (simp add: dm_env_def)
  moreover have "epoch_of 64 = 2" by (simp add: epoch_of_def epoch_at_slot_def SLOTS_PER_EPOCH_def)
  ultimately show ?thesis
    unfolding dm_el_def direct_candidate_Inr [where H = head_hash, OF length_head_hash] dm_header_segs(5)
    using dm_folds [OF assms(1)] dm_lookup [OF assms(2,3)] dm_htr dm_slot64 dm_root_nonzero dm_lengths(7)
    by (intro exI [of _ 64] exI [of _ dm_root] exI [of _ 5] exI [of _ 7] exI [of _ 4] exI [of _ 2]) simp
qed

lemma dm_rec_facts:
  assumes "length sr = 32"
  shows "length (dm_rec sr) = 154" "rec_version (dm_rec sr) = 1" "rec_block (dm_rec sr) = 5" "rec_slot (dm_rec sr) = 64"
    "\<not> rec_revoked (dm_rec sr)" "seg 18 32 (dm_rec sr) = sr"
  using build_record_fields [of False 5 64 sr dm_rr dm_root dm_root 9 "dm_rec sr"] assms
  by (simp_all add: build_record_Inr dm_rec_def uint64_limit_def)

lemma dm_rec_receipts: "seg 50 32 (dm_rec dm_sr) = dm_rr"
  using seg_at [of "low_byte 1 @ low_byte 0 @ itob 5 @ itob 64 @ dm_sr" 50 dm_rr 32]
  by (simp add: dm_rec_def)

section \<open>The history\<close>

lemma dm_anchor: "anchor_exec head_hash (dm_env sender) dm_forked (CAnchorDirect 7 dm_header (dm_el dm_sr)) =
   Inr (dm_anchored, dm_rec dm_sr, [])"
  and dm_latch: "anchor_exec head_hash (dm_env sender) dm_anchored (CAnchorDirect 7 dm_header (dm_el dm_sr2)) =
   Inr (dm_anchored\<lparr>an_conflict := 1\<rparr>, dm_rec dm_sr, [])"
proof -
  note f = dm_rec_facts [OF dm_lengths(5)] dm_rec_facts [OF dm_lengths(6)]
  have l: "length (replicate 154 (0::byte)) = 154" by simp
  have m0: "(5::nat) AND 0 = 0" by simp
  have c1: "anchor_direct_candidate head_hash (dm_env sender) dm_forked 7 dm_header (dm_el dm_sr) = Inr (dm_rec dm_sr)"
    by (rule dm_candidate) (simp_all add: dm_forked_def dm_ring_def dm_base_def)
  have e1: "box_extract [ring_box_name 0 \<mapsto> replicate 154 0] (ring_box_name 0) 0 154 = Inr (replicate 154 0)"
    by (simp add: box_extract_all max_bytes_def)
  have r1: "box_replace [ring_box_name 0 \<mapsto> replicate 154 0] (ring_box_name 0) 0 (dm_rec dm_sr) =
      Inr [ring_box_name 0 \<mapsto> dm_rec dm_sr]"
    using f by (simp add: box_replace_all)
  have "anchor_finish dm_forked (dm_rec dm_sr) = Inr (dm_anchored, dm_rec dm_sr)"
    by (simp add: anchor_finish_def finish_anchor_flow_def ring_admit_and_write_def dm_forked_def dm_ring_def
        dm_base_def dm_anchored_def f uadd_def uint64_limit_def ring_residue_def usub_def RECORD_LEN_def e1 r1
        getbyte_def ring_codes Let_def)
  then show "anchor_exec head_hash (dm_env sender) dm_forked (CAnchorDirect 7 dm_header (dm_el dm_sr)) =
      Inr (dm_anchored, dm_rec dm_sr, [])"
    by (simp add: anchor_direct_def c1)
  have c2: "anchor_direct_candidate head_hash (dm_env sender) dm_anchored 7 dm_header (dm_el dm_sr2) = Inr (dm_rec dm_sr2)"
    by (rule dm_candidate) (simp_all add: dm_anchored_def dm_forked_def dm_ring_def dm_base_def)
  have e2: "box_extract [ring_box_name 0 \<mapsto> dm_rec dm_sr] (ring_box_name 0) 0 154 = Inr (dm_rec dm_sr)"
    using f by (simp add: box_extract_all max_bytes_def)
  have v: "getbyte (dm_rec dm_sr) 0 = Inr 1" using f(1,2) by (simp add: getbyte_def rec_version_def)
  have ns: "\<not> same_content (dm_rec dm_sr) (dm_rec dm_sr2)"
  proof
    assume "same_content (dm_rec dm_sr) (dm_rec dm_sr2)"
    then have "seg 16 32 (seg 2 144 (dm_rec dm_sr)) = seg 16 32 (seg 2 144 (dm_rec dm_sr2))" by (simp add: same_content_def)
    then have "seg 18 32 (dm_rec dm_sr) = seg 18 32 (dm_rec dm_sr2)" by (simp add: seg_seg)
    then show False using f dm_distinct(1) by simp
  qed
  have "anchor_finish dm_anchored (dm_rec dm_sr2) = Inr (dm_anchored\<lparr>an_conflict := 1\<rparr>, dm_rec dm_sr)"
    by (simp add: anchor_finish_def finish_anchor_flow_def ring_admit_and_write_def dm_forked_def dm_ring_def
        dm_base_def dm_anchored_def f uadd_def uint64_limit_def ring_residue_def usub_def RECORD_LEN_def e2 v
        record_content_matches_eq ns ring_codes Let_def)
  then show "anchor_exec head_hash (dm_env sender) dm_anchored (CAnchorDirect 7 dm_header (dm_el dm_sr2)) =
      Inr (dm_anchored\<lparr>an_conflict := 1\<rparr>, dm_rec dm_sr, [])"
    by (simp add: anchor_direct_def c2)
qed

lemma dm_call_ok: "call_ok (CRingInit 1)" "call_ok (CAppendForkRow dm_row)" "call_ok (CAnchorDirect m h (dm_el sr))"
    "call_ok (CRevoke 5)" "call_ok (CPin 5 p)"
  by (simp_all add: dm_row_def an_row_valid_def dm_el_def uint64_limit_def)

definition dm_events :: "(call_env \<times> anchor_call) list" where
  "dm_events = [(dm_env dm_gov, CRingInit 1), (dm_env dm_gov, CAppendForkRow dm_row),
     (dm_env dm_gov, CAnchorDirect 7 dm_header (dm_el dm_sr))]"

lemma run_more: "anchor_run H s evs s' \<Longrightarrow> anchor_exec H E s' c = Inr (s'', out, pays) \<Longrightarrow> env_ok E \<Longrightarrow> call_ok c \<Longrightarrow>
   anchor_run H s (evs @ [(E, c)]) s''"
  by (rule run_snoc) (auto intro: accept)

lemma dm_run: "anchor_run head_hash dm_base dm_events dm_anchored"
proof -
  note ok = dm_env_ok [OF dm_lengths(1)]
  have "anchor_run head_hash dm_base ([] @ [(dm_env dm_gov, CRingInit 1)]) dm_ring"
    by (rule run_more [OF run_nil dm_init ok dm_call_ok(1)])
  note run_more [OF this dm_append ok dm_call_ok(2)]
  note run_more [OF this dm_anchor ok dm_call_ok(3)]
  then show ?thesis by (simp add: dm_events_def)
qed

lemma dm_inv: "anchor_inv dm_anchored"
  by (rule run_inv [where H = head_hash, OF length_head_hash dm_run create_inv [OF dm_create]])
    (simp add: uint64_limit_def)

lemma dm_attest: "anchor_attest dm_anchored 5 = Inr (dm_rec dm_sr)"
proof -
  have "attest_answer dm_anchored 5 = Some (dm_rec dm_sr)"
    using dm_rec_facts [OF dm_lengths(5)]
    by (simp add: attest_answer_def dm_anchored_def dm_forked_def dm_ring_def dm_base_def)
  then show ?thesis using attest_exact(1) [OF dm_inv, of 5 "dm_rec dm_sr"] by (simp add: uint64_limit_def)
qed

end
