(* ===== verification/Anchor_Handoff.thy ===== *)
theory Anchor_Handoff
  imports Anchor_Facts Group
begin

text \<open>
  The consumer side of the anchor, \<open>contracts/state_anchor/handoff.py\<close>: recovering an attested record
  from an earlier call of the transaction group. The application identifier a consumer trusts is a
  compile-time constant of the consumer and enters as the parameter \<open>anchor_id\<close>.
\<close>

unbundle bit_operations_syntax

definition ATTEST_SELECTOR :: bytes where "ATTEST_SELECTOR = [0x11, 0xe6, 0xd2, 0xdd]"
definition LOG_LEN_M8 :: nat where "LOG_LEN_M8 = 4 + RECORD_LEN"

definition anchor_from_group :: "nat \<Rightarrow> env \<Rightarrow> nat \<Rightarrow> nat \<Rightarrow> bytes res" where
  "anchor_from_group anchor_id E gi want_block_number =
     check (gi < env_index E) ''N1'' (
     rbind (gtxn_app_call E gi) (\<lambda>(app, args, log).
     check (app = anchor_id) ''N2'' (
     rbind (gtxn_arg0 args) (\<lambda>arg0.
     check (arg0 = ATTEST_SELECTOR) ''N3'' (
     check (length log = LOG_LEN_M8) ''N4b'' (
     rbind (bextract log 0 4) (\<lambda>prefix.
     check (prefix = ARC4_RETURN_PREFIX) ''N4b'' (
     rbind (bextract log 4 RECORD_LEN) (\<lambda>a.
     rbind (getbyte a OFF_VERSION) (\<lambda>v.
     check (v = VERSION_1) ''N14'' (
     rbind (a_flags a) (\<lambda>f.
     check (f AND 1 = 0) ''N13'' (
     rbind (bextract a OFF_BLOCK_NUMBER 8) (\<lambda>bn.
     check (bn = itob want_block_number) ''N15'' (Inr a)))))))))))))))"

definition anchor_state_root :: "bytes \<Rightarrow> bytes res" where "anchor_state_root a = bextract a OFF_STATE_ROOT 32"
definition anchor_receipts_root :: "bytes \<Rightarrow> bytes res" where
  "anchor_receipts_root a = bextract a OFF_RECEIPTS_ROOT 32"
definition anchor_block_number :: "bytes \<Rightarrow> nat res" where
  "anchor_block_number a = rbind (bextract a OFF_BLOCK_NUMBER 8) btoi"
definition anchor_round :: "bytes \<Rightarrow> nat res" where
  "anchor_round a = rbind (bextract a OFF_ANCHORED_ROUND 8) btoi"

definition anchor_assert_mature :: "nat \<Rightarrow> bytes \<Rightarrow> nat \<Rightarrow> unit res" where
  "anchor_assert_mature global_round a min_rounds =
     rbind (anchor_round a) (\<lambda>r.
     rbind (usub global_round r) (\<lambda>d.
     check (min_rounds \<le> d) ''not mature'' (Inr ())))"

section \<open>The hand-off interface\<close>

text \<open>
  The log of an \<open>attest(w)\<close> call that returned \<open>a\<close>: the ARC-4 prefix and the raw record. Only records
  that \<open>attest(w)\<close> can return have such a log.
\<close>

definition attest_log :: "nat \<Rightarrow> bytes \<Rightarrow> bytes res" where
  "attest_log w a =
     check (length a = 154 \<and> rec_version a = 1 \<and> \<not> rec_revoked a \<and> seg 2 8 a = itob w) ''not attestable''
       (Inr (ARC4_RETURN_PREFIX @ a))"

lemma from_group_Inr:
  "anchor_from_group anchor_id E gi w = Inr a \<longleftrightarrow>
   gi < env_index E \<and> gi < length (env_group E) \<and>
   (\<exists>rest. env_group E ! gi = AppCall anchor_id (ATTEST_SELECTOR # rest) (ARC4_RETURN_PREFIX @ a)) \<and>
   length a = 154 \<and> rec_version a = 1 \<and> \<not> rec_revoked a \<and> seg 2 8 a = itob w"
  (is "?l \<longleftrightarrow> ?r")
proof
  assume ?l
  then obtain rest log where g: "gi < env_index E" "gi < length (env_group E)"
      "env_group E ! gi = AppCall anchor_id (ATTEST_SELECTOR # rest) log" "length log = 158"
      "seg 0 4 log = ARC4_RETURN_PREFIX" "a = seg 4 154 log" "rec_version a = 1" "rec_flags a AND 1 = 0" "seg 2 8 a = itob w"
    by (auto simp: anchor_from_group_def res_simps LOG_LEN_M8_def record_layout rec_version_def simp del: One_nat_def)
  moreover have "log = seg 0 4 log @ seg 4 154 log" using g(4) seg_add [of 0 4 154 log] by simp
  ultimately show ?r by (simp add: rec_revoked_def and_one_eq odd_iff_mod_2_eq_one)
next
  assume ?r
  then obtain rest where g: "gi < env_index E" "gi < length (env_group E)"
      "env_group E ! gi = AppCall anchor_id (ATTEST_SELECTOR # rest) (ARC4_RETURN_PREFIX @ a)"
    and a: "length a = 154" "rec_version a = 1" "\<not> rec_revoked a" "seg 2 8 a = itob w" by blast
  have s: "seg 0 4 (ARC4_RETURN_PREFIX @ a) = ARC4_RETURN_PREFIX" "seg 4 154 (ARC4_RETURN_PREFIX @ a) = a"
    using a(1) by (simp_all add: seg_append_left seg_append_right)
  have "getbyte a 0 = Inr 1" using a by (simp add: getbyte_def rec_version_def)
  moreover have "a_flags a = Inr (rec_flags a)" using a(1) by simp
  moreover have "rec_flags a AND 1 = 0" using a(3) by (simp add: rec_revoked_def and_one_eq even_iff_mod_2_eq_zero)
  moreover have "gtxn_app_call E gi = Inr (anchor_id, ATTEST_SELECTOR # rest, ARC4_RETURN_PREFIX @ a)"
    using g by (simp add: gtxn_app_call_Inr)
  ultimately show ?l using g(1) a s
    by (simp add: anchor_from_group_def gtxn_arg0_def LOG_LEN_M8_def record_layout bextract_def)
qed

interpretation anchor_handoff:
  log_handoff "attest_log w" "\<lambda>(E::env) gi. anchor_from_group anchor_id E gi w" "\<lambda>_. anchor_id" ATTEST_SELECTOR
  for w anchor_id
proof
  fix gi rest lg p and E :: env
  assume "gi < env_index E" "gi < length (env_group E)"
    "env_group E ! gi = AppCall anchor_id (ATTEST_SELECTOR # rest) lg" "attest_log w p = Inr lg"
  then show "anchor_from_group anchor_id E gi w = Inr p"
    by (auto simp: from_group_Inr attest_log_def res_simps)
next
  fix gi p and E :: env
  assume "anchor_from_group anchor_id E gi w = Inr p"
  then show "gi < env_index E \<and> gi < length (env_group E) \<and>
      (\<exists>rest lg. env_group E ! gi = AppCall anchor_id (ATTEST_SELECTOR # rest) lg)"
    by (auto simp: from_group_Inr)
qed

lemma attested_log:
  assumes inv: "anchor_inv s" and bn: "bn < uint64_limit" and a: "anchor_attest s bn = Inr a"
  shows "attest_log bn a = Inr (ARC4_RETURN_PREFIX @ a)"
proof -
  have an: "attest_answer s bn = Some a" using a attest_exact(1) [OF inv bn] by simp
  note f = attest_answer_shape [OF inv bn an]
  have "seg 2 8 a = itob bn"
    using f itob_be_val [of "seg 2 8 a"] by (simp add: rec_block_def)
  then show ?thesis using f by (simp add: attest_log_def)
qed

lemma itob_cong: "w < uint64_limit \<Longrightarrow> bn < uint64_limit \<Longrightarrow> seg 2 8 a = itob w \<Longrightarrow> seg 2 8 a = itob bn \<Longrightarrow> w = bn"
  using itob_inj by metis

text \<open>
  A consumer that trusts the anchor application: if every earlier \<open>attest\<close> call of the group logged
  what the anchor attested in its state, the recovered record is the one attested for the wanted block.
\<close>

lemma consumer_core:
  assumes inv: "anchor_inv s" and w: "w < uint64_limit" and r: "anchor_from_group anchor_id E gi w = Inr a"
    and logged: "\<And>i rest lg. i < env_index E \<Longrightarrow> i < length (env_group E) \<Longrightarrow>
        env_group E ! i = AppCall anchor_id (ATTEST_SELECTOR # rest) lg \<Longrightarrow>
        \<exists>bn b. bn < uint64_limit \<and> anchor_attest s bn = Inr b \<and> lg = ARC4_RETURN_PREFIX @ b"
  shows "anchor_attest s w = Inr a"
proof -
  from r obtain rest where g: "gi < env_index E" "gi < length (env_group E)"
      "env_group E ! gi = AppCall anchor_id (ATTEST_SELECTOR # rest) (ARC4_RETURN_PREFIX @ a)" and bn: "seg 2 8 a = itob w"
    by (auto simp: from_group_Inr)
  from logged [OF g] obtain n b where b0: "n < uint64_limit" "anchor_attest s n = Inr b"
    "ARC4_RETURN_PREFIX @ a = ARC4_RETURN_PREFIX @ b" by blast
  have b: "n < uint64_limit" "anchor_attest s n = Inr b" "a = b" using b0 by simp_all
  have "attest_answer s n = Some b" using b attest_exact(1) [OF inv b(1)] by simp
  from attest_answer_shape [OF inv b(1) this] have "length b = 154" "rec_block b = n" by simp_all
  then have "seg 2 8 b = itob n" using itob_be_val [of "seg 2 8 b"] by (simp add: rec_block_def)
  then have "seg 2 8 a = itob n" by (simp only: b(3))
  then have "w = n" by (rule itob_cong [OF w b(1) bn])
  then show ?thesis using b by (simp only:)
qed

end
