(* ===== verification/Props_Anchor.thy ===== *)
theory Props_Anchor
  imports Anchor_Demo Anchor_Handoff
begin

text \<open>
  The properties of the trusted-root anchor: where an attested record comes from, what it binds, that
  a block has one record for ever, revocation, the conflict latch, the fork table, and pinned deposits.
\<close>

section \<open>Provenance\<close>

text \<open>
C6: an attested record was anchored. In every history of a freshly created anchor, a record that
\<open>attest\<close> (or \<open>get_anchor\<close>) returns for a block number is a 154-byte, version-1, unrevoked record of
that block number, no conflict is latched, and the record is exactly the candidate that some earlier
accepted anchoring call of the history built and checked.
\<close>

theorem attest_provenance:
  assumes "\<And>x. length (H x) = 32" and "anchor_create gov m4 n = Inr s0" and "n < uint64_limit"
    and "anchor_run H s0 evs s" and "bn < uint64_limit"
    and "anchor_attest s bn = Inr a \<or> anchor_get s bn = Inr a"
  shows "provenance H s0 evs a \<and> length a = 154 \<and> rec_version a = 1 \<and> \<not> rec_revoked a \<and> rec_block a = bn \<and>
    an_conflict s = 0"
proof -
  have inv: "anchor_inv s" by (rule run_inv [where H = H, OF assms(1,4) create_inv [OF assms(2,3)]])
  have a: "attest_answer s bn = Some a" using assms(6) attest_exact [OF inv assms(5)] by blast
  show ?thesis
    using attest_provenance_core [where H = H, OF assms(1-5) a] attest_answer_shape [OF inv assms(5) a] by blast
qed

theorem attest_provenance_witness:
  "provenance head_hash dm_base dm_events (dm_rec dm_sr) \<and> rec_block (dm_rec dm_sr) = 5"
proof -
  have "anchor_attest dm_anchored 5 = Inr (dm_rec dm_sr) \<or> anchor_get dm_anchored 5 = Inr (dm_rec dm_sr)"
    using dm_attest by simp
  from attest_provenance [where H = head_hash, OF length_head_hash dm_create _ dm_run _ this]
  show ?thesis by (simp add: uint64_limit_def)
qed

section \<open>What an anchored record binds\<close>

text \<open>The messages hashed by the folds of an anchoring call, genuine and supplied.\<close>

definition header_msgs :: "(bytes \<Rightarrow> bytes) \<Rightarrow> bytes \<Rightarrow> bytes \<Rightarrow> bytes set" where
  "header_msgs H h h' = tree_msgs H (header_tree h) \<union> tree_msgs H (header_tree h')"

lemma body_leaf:
  assumes H: "\<And>x. length (H x) = 32" and f: "folds_to H leaf branch g (seg 80 32 h)"
    and "wf_tree B" and "tree_root H B = seg 80 32 h" and u: "node_at B g = Some u"
    and inj: "inj_on H (branch_msgs H B u leaf branch g)"
  shows "leaf = tree_root H u"
  by (rule folds_to_tree [where H = H, OF H _ assms(3) u inj]) (use f assms(4) in simp)

text \<open>
C7: what \<open>anchor_direct\<close> binds. Suppose the trusted light client's finalized root is the root of a
genuine header, whose body root is the root of the genuine block body tree, and the fork row active
at the header's epoch names the positions of state root, receipts root and block number in that
tree. Then, whatever header, fields and branches the relayer supplies, an accepted candidate carries
the genuine slot, block number, state root and receipts root, and the finalized root. The hash is
only assumed injective on the messages hashed along the two headers and the branches.
\<close>

theorem anchor_direct_binds:
  assumes "\<And>x. length (H x) = 32"
    and "anchor_direct_candidate H E s m4 h (sr, rr, n, sb, rb, nb) = Inr a"
    and "n < uint64_limit" and "length h0 = 112" and "header_slot h0 = Inr slot0"
    and "ce_bytes E (an_m4_app s) (ascii ''fin_root'') = Some (tree_root H (header_tree h0))"
    and "inj_on H (header_msgs H h h0)"
    and "wf_tree B" and "tree_root H B = seg 80 32 h0"
    and "lookup_row (an_globals s) (an_fork_count s) (epoch_of slot0) = Inr (gs, gr, gn, gb)"
    and "node_at B gs = Some us" "node_at B gr = Some ur" "node_at B gn = Some (MLeaf (block_number_leaf n0))"
    and "n0 < uint64_limit"
    and "inj_on H (branch_msgs H B us sr sb gs)" "inj_on H (branch_msgs H B ur rr rb gr)"
      "inj_on H (branch_msgs H B (MLeaf (block_number_leaf n0)) (block_number_leaf n) nb gn)"
  shows "m4 = an_m4_app s \<and> h = h0 \<and> rec_slot a = slot0 \<and> rec_block a = n0 \<and> seg 18 32 a = tree_root H us \<and>
    seg 50 32 a = tree_root H ur \<and> seg 82 32 a = tree_root H (header_tree h0) \<and>
    seg 114 32 a = tree_root H (header_tree h0)"
proof -
  from assms(2) obtain fs fr gs' gr' gn' gb' where
    m4: "read_m4_finalized E m4 (an_m4_app s) = Inr (fs, fr, seg 48 32 h)"
    and h: "length h = 112" "tree_root H (header_tree h) = fr" "header_slot h = Inr fs"
    and row: "lookup_row (an_globals s) (an_fork_count s) (epoch_of fs) = Inr (gs', gr', gn', gb')"
    and f: "folds_to H sr sb gs' (seg 80 32 h)" "folds_to H rr rb gr' (seg 80 32 h)"
      "folds_to H (block_number_leaf n) nb gn' (seg 80 32 h)"
    and built: "build_record False n fs sr rr fr fr (ce_round E) = Inr a"
    by (auto simp: direct_candidate_Inr [where H = H, OF assms(1)])
  have app: "m4 = an_m4_app s" and fr: "fr = tree_root H (header_tree h0)"
    using m4 assms(6) by (auto simp: read_m4_Inr)
  have hh: "h = h0"
    by (rule htr_header_inj [where H = H, of h "tree_root H (header_tree h0)", OF _ _ assms(1) assms(7) [unfolded header_msgs_def]])
      (use h fr assms(4) in \<open>simp_all add: htr_header_eq\<close>)
  have slot: "fs = slot0" using h(3) assms(5) hh by simp
  have g: "gs' = gs" "gr' = gr" "gn' = gn" using row assms(10) slot by simp_all
  note leaf = body_leaf [where H = H, OF assms(1) _ assms(8,9), unfolded hh]
  have "sr = tree_root H us" "rr = tree_root H ur" "block_number_leaf n = tree_root H (MLeaf (block_number_leaf n0))"
    using leaf [OF _ assms(11,15)] leaf [OF _ assms(12,16)] leaf [OF _ assms(13,17)] f g hh by simp_all
  then have v: "sr = tree_root H us" "rr = tree_root H ur" "n = n0"
    using number_leaf_inj [OF assms(3,14)] by simp_all
  show ?thesis
    using build_record_fields [OF built assms(3) header_slot_less [OF h(3)]] app hh slot v fr by simp
qed

text \<open>The block body of the demonstration history.\<close>

definition dm_body :: mtree where
  "dm_body = MNode (MNode (MLeaf dm_leaf) (MLeaf dm_sr)) (MNode (MLeaf dm_sr) (MLeaf dm_rr))"

lemma dm_nodes: "node_at dm_body 4 = Some (MLeaf dm_leaf)" "node_at dm_body 5 = Some (MLeaf dm_sr)"
    "node_at dm_body 7 = Some (MLeaf dm_rr)"
  by (simp_all add: dm_body_def node_at.simps)

lemma dm_sibs: "tree_sibs head_hash dm_body 4 = [dm_sr, dm_sr]" "tree_sibs head_hash dm_body 5 = [dm_leaf, dm_sr]"
    "tree_sibs head_hash dm_body 7 = [dm_sr, dm_leaf]"
  by (simp_all add: dm_body_def tree_sibs.simps node_at.simps head_hash_left)

lemma inj_heads: "dm_leaf \<noteq> dm_sr \<Longrightarrow> inj_on head_hash {dm_leaf @ dm_sr, dm_sr @ dm_rr}"
  by (simp add: inj_on_def head_hash_left)

lemma dm_body_inj:
  "inj_on head_hash (branch_msgs head_hash dm_body (MLeaf dm_sr) dm_sr (dm_leaf @ dm_sr) 5)"
  "inj_on head_hash (branch_msgs head_hash dm_body (MLeaf dm_rr) dm_rr (dm_sr @ dm_leaf) 7)"
  "inj_on head_hash (branch_msgs head_hash dm_body (MLeaf dm_leaf) dm_leaf (dm_sr @ dm_sr) 4)"
  by (rule inj_on_subset [OF inj_heads [OF dm_distinct(2)]];
      simp add: branch_msgs_def dm_gdepth chunks_two dm_sibs head_hash_left Let_def)+

lemma dm_hdr_inj:
  assumes "s \<noteq> 0" "s \<noteq> 5" "s < uint64_limit"
  shows "inj_on head_hash (header_msgs head_hash (dm_hdr s) (dm_hdr s))"
proof -
  have l: "take 8 dm_leaf = le64 5" "take 8 (dm_hdr_root s) = le64 s" "take 8 zero32 = le64 0"
    by (simp_all add: dm_leaf_def block_number_leaf_def dm_hdr_root_def zero32_def le64_def itob_def be_bytes_zero)
  have "le64 5 \<noteq> le64 s" "le64 0 \<noteq> le64 5" "le64 0 \<noteq> le64 s"
    using assms by (simp_all add: le64_inj uint64_limit_def)
  then have ne: "zero32 \<noteq> dm_leaf" "zero32 \<noteq> dm_hdr_root s" "dm_leaf \<noteq> dm_hdr_root s" using l by metis+
  have five: "le64 5 @ replicate 24 0 = dm_leaf" by (simp add: dm_leaf_def block_number_leaf_def)
  have root: "le64 s @ replicate 24 0 = dm_hdr_root s" by (simp add: dm_hdr_root_def)
  have "tree_msgs head_hash (header_tree (dm_hdr s)) \<subseteq>
      {dm_hdr_root s @ dm_leaf, dm_leaf @ zero32, zero32 @ zero32}"
    by (simp add: header_tree_def dm_header_segs five root head_hash_left)
  moreover have "inj_on head_hash {dm_hdr_root s @ dm_leaf, dm_leaf @ zero32, zero32 @ zero32}"
    using ne by (auto simp: inj_on_def head_hash_left)
  ultimately show ?thesis unfolding header_msgs_def Un_absorb by (metis inj_on_subset)
qed

lemma dm_header_inj: "inj_on head_hash (header_msgs head_hash dm_header dm_header)"
  by (rule dm_hdr_inj) (simp_all add: uint64_limit_def)

theorem anchor_direct_binds_witness:
  "rec_slot (dm_rec dm_sr) = 64 \<and> rec_block (dm_rec dm_sr) = 5 \<and> seg 18 32 (dm_rec dm_sr) = dm_sr \<and>
   seg 50 32 (dm_rec dm_sr) = dm_rr \<and> seg 82 32 (dm_rec dm_sr) = dm_root"
proof -
  have cand: "anchor_direct_candidate head_hash (dm_env dm_gov) dm_forked 7 dm_header
      (dm_sr, dm_rr, 5, dm_leaf @ dm_sr, dm_sr @ dm_leaf, dm_sr @ dm_sr) = Inr (dm_rec dm_sr)"
    using dm_candidate [of dm_sr dm_forked dm_gov]
    by (simp add: dm_el_def dm_forked_def dm_ring_def dm_base_def)
  have fr: "ce_bytes (dm_env dm_gov) (an_m4_app dm_forked) (ascii ''fin_root'') = Some (tree_root head_hash (header_tree dm_header))"
    using ascii_names by (simp add: dm_env_def dm_htr)
  have row: "lookup_row (an_globals dm_forked) (an_fork_count dm_forked) (epoch_of 64) = Inr (5, 7, 4, 2)"
    by (rule dm_lookup) (simp_all add: dm_forked_def)
  have body: "wf_tree dm_body" "tree_root head_hash dm_body = seg 80 32 dm_header"
    by (simp_all add: dm_body_def dm_header_segs head_hash_left)
  have n: "(5::nat) < uint64_limit" by (simp add: uint64_limit_def)
  have l: "node_at dm_body 4 = Some (MLeaf (block_number_leaf 5))"
      "inj_on head_hash (branch_msgs head_hash dm_body (MLeaf (block_number_leaf 5)) (block_number_leaf 5) (dm_sr @ dm_sr) 4)"
    using dm_nodes(1) dm_body_inj(3) by (simp_all add: dm_leaf_def)
  from anchor_direct_binds [where H = head_hash, OF length_head_hash cand n dm_lengths(7) dm_slot64 fr dm_header_inj body row
      dm_nodes(2,3) l(1) n dm_body_inj(1,2) l(2)]
  show ?thesis by (simp add: dm_htr)
qed

section \<open>Historical anchoring\<close>

text \<open>
C8: what \<open>anchor_historical\<close> binds. Suppose the finalized beacon state tree holds, at the position of
\<open>block_roots\<close> named by the fork row active at the finalized epoch, in the entry of the supplied
target header's own slot, the root of the genuine header of that slot. Then an accepted candidate was
built from that genuine header, its slot is within the 8192 slots before the finalized slot, and the
record's fields are those of the genuine block body at the positions of the fork row active at the
target's epoch; no index is taken from the caller.
\<close>

theorem anchor_historical_binds:
  assumes "\<And>x. length (H x) = 32"
    and "anchor_historical_candidate H E s m4 hf t bb (sr, rr, n, sb, rb, nb) = Inr a"
    and "n < uint64_limit" and "length t0 = 112" and "header_slot t = Inr slot"
    and "ce_uints E (an_m4_app s) (ascii ''fin_slot'') = Some fin_slot"
    and "ce_bytes E (an_m4_app s) (ascii ''fin_state_root'') = Some (tree_root H S)" and "wf_tree S"
    and "lookup_row (an_globals s) (an_fork_count s) (epoch_of fin_slot) = Inr (u1, u2, u3, base)"
    and "node_at S (base * 8192 + slot mod 8192) = Some (MLeaf (tree_root H (header_tree t0)))"
    and "inj_on H (branch_msgs H S (MLeaf (tree_root H (header_tree t0))) (tree_root H (header_tree t)) bb
           (base * 8192 + slot mod 8192))"
    and "inj_on H (header_msgs H t t0)"
    and "wf_tree B" and "tree_root H B = seg 80 32 t0"
    and "lookup_row (an_globals s) (an_fork_count s) (epoch_of slot) = Inr (gs, gr, gn, gb)"
    and "node_at B gs = Some us" "node_at B gr = Some ur" "node_at B gn = Some (MLeaf (block_number_leaf n0))"
    and "n0 < uint64_limit"
    and "inj_on H (branch_msgs H B us sr sb gs)" "inj_on H (branch_msgs H B ur rr rb gr)"
      "inj_on H (branch_msgs H B (MLeaf (block_number_leaf n0)) (block_number_leaf n) nb gn)"
  shows "m4 = an_m4_app s \<and> t = t0 \<and> slot < fin_slot \<and> fin_slot \<le> slot + 8192 \<and> rec_slot a = slot \<and>
    rec_block a = n0 \<and> seg 18 32 a = tree_root H us \<and> seg 50 32 a = tree_root H ur \<and>
    seg 82 32 a = tree_root H (header_tree t0) \<and> rec_flags a = 2"
proof -
  from assms(2) obtain fs fr ts v1 v2 v3 base' gs' gr' gn' gb' where
    m4: "read_m4_finalized E m4 (an_m4_app s) = Inr (fs, fr, seg 48 32 hf)"
    and t: "length t = 112" "header_slot t = Inr ts" "ts < fs" "fs \<le> ts + 8192"
    and rows: "lookup_row (an_globals s) (an_fork_count s) (epoch_of fs) = Inr (v1, v2, v3, base')"
      "lookup_row (an_globals s) (an_fork_count s) (epoch_of ts) = Inr (gs', gr', gn', gb')"
    and fb: "folds_to H (tree_root H (header_tree t)) bb (base' * 8192 + ts mod 8192) (seg 48 32 hf)"
    and f: "folds_to H sr sb gs' (seg 80 32 t)" "folds_to H rr rb gr' (seg 80 32 t)"
      "folds_to H (block_number_leaf n) nb gn' (seg 80 32 t)"
    and built: "build_record True n ts sr rr (tree_root H (header_tree t)) fr (ce_round E) = Inr a"
    by (auto simp: historical_candidate_Inr [where H = H, OF assms(1)])
  have app: "m4 = an_m4_app s" and fs: "fs = fin_slot" and st: "seg 48 32 hf = tree_root H S"
    using m4 assms(6,7) by (auto simp: read_m4_Inr)
  have ts: "ts = slot" using t(2) assms(5) by simp
  have base: "base' = base" using rows(1) assms(9) fs by simp
  have "tree_root H (header_tree t) = tree_root H (MLeaf (tree_root H (header_tree t0)))"
    by (rule folds_to_tree [where H = H, OF assms(1) _ assms(8,10,11)]) (use fb ts base st in simp)
  then have tt: "t = t0"
    by (intro htr_header_inj [where H = H, of t "tree_root H (header_tree t0)", OF _ _ assms(1) assms(12) [unfolded header_msgs_def]])
      (use t(1) assms(4) in \<open>simp_all add: htr_header_eq\<close>)
  have g: "gs' = gs" "gr' = gr" "gn' = gn" using rows(2) assms(15) ts by simp_all
  note leaf = body_leaf [where H = H, OF assms(1) _ assms(13,14), unfolded tt]
  have "sr = tree_root H us" "rr = tree_root H ur" "block_number_leaf n = tree_root H (MLeaf (block_number_leaf n0))"
    using leaf [OF _ assms(16,20)] leaf [OF _ assms(17,21)] leaf [OF _ assms(18,22)] f g tt by simp_all
  then have v: "sr = tree_root H us" "rr = tree_root H ur" "n = n0"
    using number_leaf_inj [OF assms(3,19)] by simp_all
  show ?thesis
    using build_record_fields [OF built assms(3) header_slot_less [OF t(2)]] app tt v t(3,4) fs ts by simp
qed

text \<open>A finalized state whose leftmost leaf, fourteen levels down, is the demonstration header's root.\<close>

fun spine :: "bytes \<Rightarrow> nat \<Rightarrow> mtree" where
  "spine leaf 0 = MLeaf leaf"
| "spine leaf (Suc k) = MNode (spine leaf k) (MLeaf zero32)"

lemma spine_root: "length leaf = 32 \<Longrightarrow> tree_root head_hash (spine leaf k) = leaf"
  by (induction k) (simp_all add: head_hash_left)

lemma spine_wf: "length leaf = 32 \<Longrightarrow> wf_tree (spine leaf k)"
  by (induction k) simp_all

lemma spine_node: "j \<le> k \<Longrightarrow> node_at (spine leaf k) (2 ^ j) = Some (spine leaf (k - j))"
proof (induction j)
  case 0
  then show ?case by (simp add: node_at_1)
next
  case (Suc j)
  then have IH: "node_at (spine leaf k) (2 ^ j) = Some (spine leaf (k - j))" by simp
  obtain i where "k - j = Suc i" using Suc.prems by (metis Suc_diff_Suc Suc_le_lessD)
  then have "k - Suc j = i" "spine leaf (k - j) = MNode (spine leaf i) (MLeaf zero32)" by simp_all
  moreover have "\<not> 2 * 2 ^ j \<le> (1::nat)" using one_le_power [of "2::nat" j] by linarith
  ultimately show ?case using IH by (simp add: node_at.simps [of _ "2 * 2 ^ j"])
qed

lemma spine_sibs: "j \<le> k \<Longrightarrow> tree_sibs H (spine leaf k) (2 ^ j) = replicate j zero32"
proof (induction j)
  case 0
  then show ?case by (simp add: tree_sibs_1)
next
  case (Suc j)
  obtain i where "k - j = Suc i" using Suc.prems by (metis Suc_diff_Suc Suc_le_lessD)
  then have "node_at (spine leaf k) (2 ^ j) = Some (MNode (spine leaf i) (MLeaf zero32))"
    using spine_node [of j k leaf] Suc.prems by simp
  moreover have "\<not> 2 * 2 ^ j \<le> (1::nat)" using one_le_power [of "2::nat" j] by linarith
  ultimately show ?case using Suc by (simp add: tree_sibs.simps [of _ _ "2 * 2 ^ j"])
qed

lemma spine_msgs: "length leaf = 32 \<Longrightarrow> set (fold_msgs head_hash leaf (replicate j zero32) (2 ^ j)) \<subseteq> {leaf @ zero32}"
  by (induction j) (simp_all add: head_hash_left Let_def)

lemma gdepth_power: "gdepth (2 ^ k) = k" "bitlen (2 ^ k) = Suc k"
proof -
  show b: "bitlen (2 ^ k) = Suc k"
  proof (induction k)
    case 0
    show ?case by (simp add: bitlen_pos)
  next
    case (Suc k)
    then show ?case by (subst bitlen_pos) simp_all
  qed
  show "gdepth (2 ^ k) = k" by (simp add: gdepth_def b)
qed

text \<open>The finalized header of slot 8256 whose state holds the header of slot 8192.\<close>

definition hs_state :: mtree where "hs_state = spine (dm_hdr_root 8192) 14"

definition hs_fin :: bytes where
  "hs_fin = le64 8256 @ le64 5 @ dm_leaf @ dm_hdr_root 8192 @ dm_leaf"

definition hs_env :: call_env where
  "hs_env = (dm_env dm_gov)\<lparr>ce_uints := (\<lambda>_. [ascii ''fin_slot'' \<mapsto> 8256]),
     ce_bytes := (\<lambda>_. [ascii ''fin_root'' \<mapsto> dm_hdr_root 8256, ascii ''fin_state_root'' \<mapsto> dm_hdr_root 8192])\<rparr>"

definition hs_rec :: bytes where
  "hs_rec = low_byte 1 @ low_byte 2 @ itob 5 @ itob 8192 @ dm_sr @ dm_rr @ dm_hdr_root 8192 @ dm_hdr_root 8256 @ itob 9"

lemma hs_segs: "length hs_fin = 112" "seg 0 8 hs_fin = le64 8256" "seg 8 8 hs_fin = le64 5" "seg 16 32 hs_fin = dm_leaf"
    "seg 48 32 hs_fin = dm_hdr_root 8192" "seg 80 32 hs_fin = dm_leaf"
  by (simp_all add: hs_fin_def seg_simps)

lemma hs_htr: "tree_root head_hash (header_tree hs_fin) = dm_hdr_root 8256"
  using head_hash_left [of "le64 8256 @ replicate 24 0"] by (simp add: header_tree_def hs_segs dm_hdr_root_def)

lemma hs_root_nonzero: "dm_hdr_root 8256 \<noteq> zero_address"
proof
  assume "dm_hdr_root 8256 = zero_address"
  then have "take 8 (dm_hdr_root 8256) = take 8 zero_address" by simp
  then have "le64 8256 = le64 0" by (simp add: dm_hdr_root_def zero_address_def le64_def itob_def be_bytes_zero)
  then show False using le64_inj [of 8256 0] by (simp add: uint64_limit_def)
qed

lemma hs_slot: "header_slot (dm_hdr 8192) = Inr 8192"
  by (rule dm_slot) (simp add: uint64_limit_def)

lemma hs_index: "(2::nat) * 8192 + 8192 mod 8192 = 2 ^ 14"
  by simp

lemma hs_branch: "chunks32 (concat (replicate 14 zero32)) 14 = replicate 14 zero32"
  using chunks32_concat [of "replicate 14 zero32"] by simp

lemma hs_branch_folds: "folds_to head_hash (dm_hdr_root 8192) (concat (replicate 14 zero32)) (2 ^ 14) (dm_hdr_root 8192)"
proof -
  have "fold_sibs head_hash (tree_root head_hash (spine (dm_hdr_root 8192) (14 - 14)))
      (tree_sibs head_hash (spine (dm_hdr_root 8192) 14) (2 ^ 14)) (2 ^ 14) = tree_root head_hash (spine (dm_hdr_root 8192) 14)"
    by (rule fold_tree_sibs) (simp, rule spine_node, simp)
  then have "fold_sibs head_hash (dm_hdr_root 8192) (replicate 14 zero32) (2 ^ 14) = dm_hdr_root 8192"
    unfolding spine_sibs [OF order.refl] spine_root [OF dm_lengths(4)] .
  then show ?thesis
    unfolding folds_to_def gdepth_power hs_branch using concat_len32 [of "replicate 14 zero32"] by simp
qed

lemma hs_candidate:
  "anchor_historical_candidate head_hash hs_env dm_forked 7 hs_fin (dm_hdr 8192) (concat (replicate 14 zero32))
     (dm_sr, dm_rr, 5, dm_leaf @ dm_sr, dm_sr @ dm_leaf, dm_sr @ dm_sr) = Inr hs_rec"
proof -
  have m4: "read_m4_finalized hs_env 7 (an_m4_app dm_forked) = Inr (8256, dm_hdr_root 8256, seg 48 32 hs_fin)"
    using ascii_names by (simp add: read_m4_Inr hs_env_def hs_segs dm_forked_def dm_ring_def dm_base_def)
  have row: "lookup_row (an_globals dm_forked) (an_fork_count dm_forked) e = Inr (5, 7, 4, 2)" for e
    by (rule dm_lookup) (simp_all add: dm_forked_def)
  have b: "build_record True 5 8192 dm_sr dm_rr (dm_hdr_root 8192) (dm_hdr_root 8256) (ce_round hs_env) = Inr hs_rec"
    by (simp add: build_record_Inr hs_rec_def hs_env_def dm_env_def)
  have fb: "folds_to head_hash (tree_root head_hash (header_tree (dm_hdr 8192))) (concat (replicate 14 zero32))
      (2 * 8192 + 8192 mod 8192) (seg 48 32 hs_fin)"
    unfolding hs_index dm_htr hs_segs by (rule hs_branch_folds)
  show ?thesis
    unfolding historical_candidate_Inr [where H = head_hash, OF length_head_hash]
    by (rule exI [of _ 8256], rule exI [of _ "dm_hdr_root 8256"], rule exI [of _ 8192],
        (rule exI [of _ 5], rule exI [of _ 7], rule exI [of _ 4], rule exI [of _ 2])+)
      (use m4 row b fb dm_folds [OF dm_lengths(5)] hs_htr hs_slot hs_segs(1) hs_root_nonzero dm_htr [of 8192] in
        \<open>simp add: dm_header_segs uint64_limit_def\<close>)
qed

theorem anchor_historical_binds_witness:
  "rec_slot hs_rec = 8192 \<and> rec_block hs_rec = 5 \<and> seg 18 32 hs_rec = dm_sr \<and> seg 50 32 hs_rec = dm_rr \<and>
   rec_flags hs_rec = 2"
proof -
  note row = dm_lookup [of dm_forked, OF refl]
  have fc: "an_fork_count dm_forked = 1" and app: "an_m4_app dm_forked = 7"
    by (simp_all add: dm_forked_def dm_ring_def dm_base_def)
  have n: "(5::nat) < uint64_limit" by (simp add: uint64_limit_def)
  have env: "ce_uints hs_env (an_m4_app dm_forked) (ascii ''fin_slot'') = Some 8256"
      "ce_bytes hs_env (an_m4_app dm_forked) (ascii ''fin_state_root'') = Some (tree_root head_hash hs_state)"
    using ascii_names by (simp_all add: hs_env_def hs_state_def spine_root)
  have wf: "wf_tree hs_state" by (simp add: hs_state_def spine_wf)
  have node: "node_at hs_state (2 * 8192 + 8192 mod 8192) = Some (MLeaf (tree_root head_hash (header_tree (dm_hdr 8192))))"
    unfolding hs_index dm_htr hs_state_def
    using spine_node [of 14 14 "dm_hdr_root 8192"] by (simp only: order.refl diff_self_eq_0 spine.simps simp_thms)
  have inj: "inj_on head_hash (branch_msgs head_hash hs_state (MLeaf (tree_root head_hash (header_tree (dm_hdr 8192))))
      (tree_root head_hash (header_tree (dm_hdr 8192))) (concat (replicate 14 zero32)) (2 * 8192 + 8192 mod 8192))"
    unfolding hs_index dm_htr hs_state_def branch_msgs_def gdepth_power hs_branch spine_sibs [OF order.refl] tree_root.simps
      Un_absorb
    by (rule inj_on_subset [OF _ spine_msgs]) simp_all
  have hinj: "inj_on head_hash (header_msgs head_hash (dm_hdr 8192) (dm_hdr 8192))"
    by (rule dm_hdr_inj) (simp_all add: uint64_limit_def)
  have body: "wf_tree dm_body" "tree_root head_hash dm_body = seg 80 32 (dm_hdr 8192)"
    by (simp_all add: dm_body_def dm_header_segs head_hash_left)
  have l: "node_at dm_body 4 = Some (MLeaf (block_number_leaf 5))"
      "inj_on head_hash (branch_msgs head_hash dm_body (MLeaf (block_number_leaf 5)) (block_number_leaf 5) (dm_sr @ dm_sr) 4)"
    using dm_nodes(1) dm_body_inj(3) by (simp_all add: dm_leaf_def)
  from anchor_historical_binds [where H = head_hash, OF length_head_hash hs_candidate n dm_lengths(7) hs_slot env wf row [OF fc]
      node inj hinj body row [OF fc] dm_nodes(2,3) l(1) n dm_body_inj(1,2) l(2)]
  show ?thesis by simp
qed

section \<open>One record for ever\<close>

text \<open>
C9: no equivocation towards consumers. If the anchor attests a record for a block number, then
every later attestation of that block number, in any continuation of the history (evictions,
revocations, pins, latched and cleared conflicts, re-anchoring included), returns the same bytes.
\<close>

theorem attest_stable:
  assumes "\<And>x. length (H x) = 32" and "anchor_create gov m4 n = Inr s0" and "n < uint64_limit"
    and "anchor_run H s0 evs s" and "anchor_run H s evs' s'" and "bn < uint64_limit"
    and "anchor_attest s bn = Inr a" and "anchor_attest s' bn = Inr a'"
  shows "a' = a"
proof -
  have inv: "anchor_inv s" by (rule run_inv [where H = H, OF assms(1,4) create_inv [OF assms(2,3)]])
  have inv': "anchor_inv s'" by (rule run_inv [where H = H, OF assms(1,5) inv])
  show ?thesis
    by (rule attest_stable_core [where H = H, OF assms(1) inv run_pins_match [where H = H, OF assms(1-4)] assms(5,6)])
      (use assms(6-8) attest_exact [OF inv] attest_exact [OF inv'] in blast)+
qed

theorem attest_stable_witness:
  "\<exists>s'. anchor_run head_hash dm_anchored [(dm_env dm_gov, CFreeze)] s' \<and> anchor_attest s' 5 = anchor_attest dm_anchored 5"
proof -
  let ?s = "dm_anchored\<lparr>an_frozen := 1\<rparr>"
  have "anchor_exec head_hash (dm_env dm_gov) dm_anchored CFreeze = Inr (?s, [], [])"
    by (simp add: quiet_def anchor_freeze_def dm_env_def dm_anchored_def dm_forked_def dm_ring_def dm_base_def)
  then have run: "anchor_run head_hash dm_anchored [(dm_env dm_gov, CFreeze)] ?s"
    using run_more [OF run_nil _ dm_env_ok [OF dm_lengths(1)], of head_hash dm_anchored CFreeze ?s] by simp
  have "anchor_attest ?s 5 = anchor_attest dm_anchored 5" by (simp add: anchor_attest_def cong: if_cong)
  then have a: "anchor_attest ?s 5 = Inr (dm_rec dm_sr)" by (simp add: dm_attest)
  have "dm_rec dm_sr = dm_rec dm_sr"
    by (rule attest_stable [where H = head_hash, OF length_head_hash dm_create _ dm_run run _ dm_attest a])
      (simp_all add: uint64_limit_def)
  then show ?thesis using run a dm_attest by auto
qed

section \<open>Revocation\<close>

text \<open>
C10: revocation is final for a block without a pinned copy. Once governance has revoked the record of
a block number that has no pinned box, no continuation of the history ever attests that block
again: re-anchoring identical content keeps the mark, eviction is followed by rejection at
admission, and a pin copies the mark.
\<close>

theorem revoked_never_attested:
  assumes "\<And>x. length (H x) = 32" and "anchor_create gov m4 n = Inr s0" and "n < uint64_limit"
    and "anchor_run H s0 evs s" and "bn < uint64_limit" and "pin_slot s bn = None"
    and "anchor_revoke E s bn = Inr s1" and "env_ok E" and "anchor_run H s1 evs' s'"
  shows "anchor_attest s' bn \<noteq> Inr a \<and> anchor_get s' bn \<noteq> Inr a"
proof -
  have inv: "anchor_inv s" by (rule run_inv [where H = H, OF assms(1,4) create_inv [OF assms(2,3)]])
  have st: "anchor_step H s (E, CRevoke bn) s1"
    unfolding anchor_step_simps using assms(5,7,8) by (simp add: quiet_def)
  have ef: "anchor_effect H E (CRevoke bn) s s1" by (rule step_effect [where H = H, OF assms(1) inv st])
  have inv1: "anchor_inv s1" by (rule effect_inv [where H = H, OF assms(1) inv _ assms(8) ef]) (simp add: assms(5))
  from revoke_Inr [OF inv assms(7)] obtain b where b: "ring_slot s (bn mod an_ring_size s) = Some b" "rec_version b \<noteq> 0"
    "rec_block b = bn" "s1 = s\<lparr>an_boxes := (an_boxes s)(ring_box_name (bn mod an_ring_size s) \<mapsto> mark_revoked b)\<rparr>" by blast
  have "154 \<le> length b" using inv_slot [OF inv residue_less [OF inv_size [OF inv]] b(1)] by (simp add: slot_ok_def)
  note m = mark_revoked_facts [OF this]
  have "dead_block bn s1" using b m assms(6) by (simp add: dead_block_def)
  then have "dead_block bn s'" by (rule run_dead [where H = H, OF assms(1,9) inv1 assms(5)])
  then have "attest_answer s' bn = None" by (rule dead_not_attested)
  moreover have "anchor_inv s'" by (rule run_inv [where H = H, OF assms(1,9) inv1])
  ultimately show ?thesis using attest_exact [OF _ assms(5)] by simp
qed

lemma dm_revoke:
  "anchor_revoke (dm_env dm_gov) dm_anchored 5 =
   Inr (dm_anchored\<lparr>an_boxes := [ring_box_name 0 \<mapsto> mark_revoked (dm_rec dm_sr)]\<rparr>)"
proof -
  note f = dm_rec_facts [OF dm_lengths(5)]
  have "box_extract [ring_box_name 0 \<mapsto> dm_rec dm_sr] (ring_box_name 0) 0 154 = Inr (dm_rec dm_sr)"
    using f by (simp add: box_extract_all max_bytes_def)
  moreover have "getbyte (dm_rec dm_sr) (Suc 0) = Inr (rec_flags (dm_rec dm_sr))"
    using f by (simp add: getbyte_def rec_flags_def)
  moreover have "(5::nat) AND 0 = 0" by simp
  ultimately show ?thesis
    using f by (simp add: anchor_revoke_def dm_anchored_def dm_forked_def dm_ring_def dm_base_def dm_env_def
        ring_residue_def usub_def RECORD_LEN_def Let_def box_replace_def breplace_def mark_revoked_def)
qed

theorem revoked_never_attested_witness:
  "anchor_attest (dm_anchored\<lparr>an_boxes := [ring_box_name 0 \<mapsto> mark_revoked (dm_rec dm_sr)]\<rparr>) 5 \<noteq> Inr (dm_rec dm_sr)"
proof -
  have "pin_slot dm_anchored 5 = None" by (simp add: dm_anchored_def)
  from revoked_never_attested [where H = head_hash, OF length_head_hash dm_create _ dm_run _ this dm_revoke
      dm_env_ok [OF dm_lengths(1)] run_nil]
  show ?thesis by (simp add: uint64_limit_def)
qed

section \<open>The conflict latch\<close>

text \<open>
C11: the write decision. In a state that satisfies the invariant, anchoring a well-formed record does
exactly what \<open>anchor_decision\<close> says: it is refused with the named code when the ring is incomplete,
frozen, in conflict, or the block too old; it replaces an empty or older slot and advances the heads
together; it leaves the state alone when the slot holds the same content; and it latches the
conflict, without touching the disputed record, when the slot holds other content for the same
block. The regression code N21 is never reached.
\<close>

theorem anchor_finish_decides:
  assumes "anchor_inv s" and "length a = 154" and "rec_block a + an_ring_size s < uint64_limit"
    and "an_n_anchored s + 1 < uint64_limit"
  shows "anchor_finish s a = anchor_decision s a \<and> anchor_finish s a \<noteq> Inl (AssertFail ''N21'')"
proof -
  have "anchor_decision s a \<noteq> Inl (AssertFail ''N21'')" by (auto simp: anchor_decision_def Let_def)
  then show ?thesis using finish_exact [OF assms] by simp
qed

theorem anchor_finish_decides_witness:
  "anchor_finish dm_anchored (dm_rec dm_sr2) = anchor_decision dm_anchored (dm_rec dm_sr2)"
proof -
  note f = dm_rec_facts [OF dm_lengths(6)]
  show ?thesis
    using anchor_finish_decides [OF dm_inv f(1)] f(3)
    by (simp add: dm_anchored_def dm_forked_def dm_ring_def dm_base_def uint64_limit_def)
qed

text \<open>
A latched conflict fails closed. After an equivocation has been recorded, and as long as
governance does not clear it, no reader returns a record, no pin succeeds and no anchoring call is
accepted, whatever other calls the history contains.
\<close>

theorem conflict_fails_closed:
  assumes "\<And>x. length (H x) = 32" and "anchor_inv s" and "an_conflict s = 1" and "anchor_run H s evs s'"
    and "CClearConflict \<notin> snd ` set evs"
  shows "anchor_attest s' bn = Inl (AssertFail ''N22'') \<and> anchor_get s' bn = Inl (AssertFail ''N22'') \<and>
    anchor_pin E s' bn p = Inl (AssertFail ''N22'') \<and> anchor_direct H E s' m h el \<noteq> Inr r \<and>
    anchor_historical H E s' m h t b el \<noteq> Inr r"
proof -
  have "an_conflict s' \<noteq> 0" by (rule run_latched [where H = H, OF assms(1,4,2)]) (use assms(3,5) in simp_all)
  note l = latched_blocks [OF this]
  show ?thesis using l(1-3) l(4) by (simp add: anchor_direct_def anchor_historical_def rbind_eq_Inr)
qed

theorem conflict_fails_closed_witness:
  "anchor_attest (dm_anchored\<lparr>an_conflict := 1\<rparr>) 5 = Inl (AssertFail ''N22'') \<and>
   anchor_run head_hash dm_anchored [(dm_env dm_gov, CAnchorDirect 7 dm_header (dm_el dm_sr2))]
     (dm_anchored\<lparr>an_conflict := 1\<rparr>)"
proof -
  let ?s = "dm_anchored\<lparr>an_conflict := 1\<rparr>"
  have run: "anchor_run head_hash dm_anchored [(dm_env dm_gov, CAnchorDirect 7 dm_header (dm_el dm_sr2))] ?s"
    using run_more [OF run_nil dm_latch dm_env_ok [OF dm_lengths(1)] dm_call_ok(3)] by simp
  have inv: "anchor_inv ?s" by (rule run_inv [where H = head_hash, OF length_head_hash run dm_inv])
  from conflict_fails_closed [where H = head_hash, OF length_head_hash inv _ run_nil] run show ?thesis by simp
qed

section \<open>The fork table\<close>

text \<open>
C12: gindex lookup. In every reachable state, \<open>lookup_row\<close> returns exactly the generalized indices of
the active row: the row with the greatest activation epoch not after the queried epoch; it fails when
there is none; and appending a row of a later epoch changes no such answer.
\<close>

theorem lookup_row_exact:
  assumes "\<And>x. length (H x) = 32" and "anchor_create gov m4 n = Inr s0" and "n < uint64_limit"
    and "anchor_run H s0 evs s"
  shows "(lookup_row (an_globals s) (an_fork_count s) e = Inr row \<longleftrightarrow>
      (\<exists>e'. an_table.active_row (an_globals s) (an_fork_count s) e (e', row))) \<and>
    (an_append_fork_row (an_globals s) (an_fork_count s) new = Inr (g, k) \<and> an_row_valid new \<and> e < fst new \<longrightarrow>
      (lookup_row g k e = Inr row \<longleftrightarrow> lookup_row (an_globals s) (an_fork_count s) e = Inr row))"
proof -
  have ok: "an_table.table_ok (an_globals s) (an_fork_count s)" by (rule run_table [where H = H, OF assms])
  have "lookup_row g k e = Inr row \<longleftrightarrow> lookup_row (an_globals s) (an_fork_count s) e = Inr row"
    if "an_append_fork_row (an_globals s) (an_fork_count s) new = Inr (g, k)" "an_row_valid new" "e < fst new"
    using lookup_row_active [OF ok, of e row] lookup_row_active [OF an_table.table_ok_put [OF ok that(1,2)], of e row]
      an_table.put_keeps_active [OF that] by simp
  then show ?thesis using lookup_row_active [OF ok] by blast
qed

theorem lookup_row_exact_witness:
  "\<exists>e'. an_table.active_row (an_globals dm_anchored) (an_fork_count dm_anchored) 2 (e', 5, 7, 4, 2)"
proof -
  have "lookup_row (an_globals dm_anchored) (an_fork_count dm_anchored) 2 = Inr (5, 7, 4, 2)"
    by (rule dm_lookup) (simp_all add: dm_anchored_def dm_forked_def)
  with lookup_row_exact [where H = head_hash, OF length_head_hash dm_create _ dm_run, of 2 "(5, 7, 4, 2)"]
  show ?thesis by (simp add: uint64_limit_def)
qed

section \<open>Pinned deposits\<close>

text \<open>
The refund of a pin goes to its payer. After an accepted pin of a block number, and whatever
happens that is not another pin or unpin of it, an unpin by anyone succeeds, removes the pinned box
and pays exactly the deposit, to the sender of that pin.
\<close>

theorem unpin_refunds_payer:
  assumes "\<And>x. length (H x) = 32" and "anchor_inv s" and "bn < uint64_limit"
    and "anchor_step H s (E, CPin bn p) s1" and "anchor_run H s1 evs s2"
    and "\<forall>(E, c)\<in>set evs. (\<forall>p. c \<noteq> CPin bn p) \<and> c \<noteq> CUnpin bn"
  shows "anchor_unpin s2 bn =
    Inr (s2\<lparr>an_boxes := (an_boxes s2)(pin_box_name bn := None)\<rparr>, ce_sender E, PIN_MBR)"
proof -
  from pin_step [OF assms(2-4)] obtain b where b: "length b = 154" "pin_slot s1 bn = Some (b @ ce_sender E)"
    "length (ce_sender E) = 32" by blast
  have ok: "env_ok E" "call_ok (CPin bn p)" using assms(4) by (auto simp: anchor_step_simps)
  have inv1: "anchor_inv s1"
    by (rule effect_inv [where H = H, OF assms(1,2) ok(2,1) step_effect [where H = H, OF assms(1,2,4)]])
  have "pin_slot s2 bn = Some (b @ ce_sender E)"
    using run_pin_frame [where H = H, OF assms(1,5) inv1 assms(3,6)] b(2) by simp
  then show ?thesis by (rule unpin_pays) (use b in simp_all)
qed

definition dm_pinned :: "bytes \<Rightarrow> anchor_state" where
  "dm_pinned payer = dm_anchored\<lparr>an_boxes := [ring_box_name 0 \<mapsto> dm_rec dm_sr, pin_box_name 5 \<mapsto> dm_rec dm_sr @ payer]\<rparr>"

lemma dm_pin:
  assumes "length payer = 32" and "length old = 32" and "s = dm_anchored \<or> s = dm_pinned old"
  shows "anchor_exec H (dm_env payer) s (CPin 5 (replicate 32 7, 80900)) = Inr (dm_pinned payer, [], [])"
proof -
  note f = dm_rec_facts [OF dm_lengths(5)]
  have m: "(5::nat) AND 0 = 0" by simp
  have e: "box_extract bs (ring_box_name 0) 0 154 = Inr (dm_rec dm_sr)" if "bs (ring_box_name 0) = Some (dm_rec dm_sr)" for bs
    using f that by (simp add: box_extract_all max_bytes_def)
  have w: "pin_write (an_boxes s) 5 (dm_rec dm_sr) payer =
      Inr [ring_box_name 0 \<mapsto> dm_rec dm_sr, pin_box_name 5 \<mapsto> dm_rec dm_sr @ payer]"
    using assms f by (auto simp: pin_write_def box_create_def box_replace_all PINNED_RECORD_LEN_def RECORD_LEN_def
        max_box_size_def Let_def dm_pinned_def dm_anchored_def)
  have fields: "an_conflict s = 0" "an_frozen s = 0" "an_ring_size s = 1" "an_boxes s (ring_box_name 0) = Some (dm_rec dm_sr)"
    using assms(3) by (auto simp: dm_pinned_def dm_anchored_def dm_forked_def dm_ring_def dm_base_def)
  have "anchor_pin (dm_env payer) s 5 (replicate 32 7, 80900) =
      Inr (s\<lparr>an_boxes := [ring_box_name 0 \<mapsto> dm_rec dm_sr, pin_box_name 5 \<mapsto> dm_rec dm_sr @ payer]\<rparr>)"
    using f by (simp add: anchor_pin_def fields read_ring_slot_def ring_residue_def usub_def RECORD_LEN_def e w
        dm_env_def PIN_MBR_def)
  also have "s\<lparr>an_boxes := [ring_box_name 0 \<mapsto> dm_rec dm_sr, pin_box_name 5 \<mapsto> dm_rec dm_sr @ payer]\<rparr> = dm_pinned payer"
    using assms(3) by (auto simp: dm_pinned_def)
  finally show ?thesis by (simp add: quiet_def)
qed

lemma dm_pin_run: "anchor_step H dm_anchored (dm_env dm_sr, CPin 5 (replicate 32 7, 80900)) (dm_pinned dm_sr)"
  by (rule accept [OF dm_env_ok [OF dm_lengths(5)] dm_call_ok(5) dm_pin [OF dm_lengths(5,5)]]) simp

theorem unpin_refunds_payer_witness:
  "\<exists>s'. anchor_unpin (dm_pinned dm_sr) 5 = Inr (s', dm_sr, 80900)"
proof -
  have n: "(5::nat) < uint64_limit" by (simp add: uint64_limit_def)
  have "ce_sender (dm_env dm_sr) = dm_sr" by (simp add: dm_env_def)
  with unpin_refunds_payer [where H = head_hash, OF length_head_hash dm_inv n dm_pin_run run_nil]
  show ?thesis by (simp add: PIN_MBR_def)
qed

text \<open>
C13: a second pin of the same block strands the first deposit. Pinning an already pinned block number
is accepted and overwrites the recorded payer, so one unpin refunds the second payer, removes the
box, and leaves nothing from which the first payer can be refunded.
\<close>

theorem second_pin_strands_deposit:
  assumes "\<And>x. length (H x) = 32" and "anchor_inv s" and "bn < uint64_limit"
    and "anchor_step H s (E1, CPin bn p1) s1" and "anchor_step H s1 (E2, CPin bn p2) s2"
  shows "\<exists>s3. anchor_unpin s2 bn = Inr (s3, ce_sender E2, PIN_MBR) \<and>
    anchor_unpin s3 bn = Inl (AssertFail ''N12'')"
proof -
  have ok: "env_ok E1" "call_ok (CPin bn p1)" using assms(4) by (auto simp: anchor_step_simps)
  have inv1: "anchor_inv s1"
    by (rule effect_inv [where H = H, OF assms(1,2) ok(2,1) step_effect [where H = H, OF assms(1,2,4)]])
  from pin_step [OF inv1 assms(3,5)] obtain b where b: "length b = 154" "pin_slot s2 bn = Some (b @ ce_sender E2)"
    "length (ce_sender E2) = 32" by blast
  have "anchor_unpin (s2\<lparr>an_boxes := (an_boxes s2)(pin_box_name bn := None)\<rparr>) bn = Inl (AssertFail ''N12'')"
    by (simp add: anchor_unpin_def pin_read_maybe_def box_length_def)
  then show ?thesis using unpin_pays [OF b(2,1,3)] by blast
qed

theorem second_pin_strands_deposit_witness:
  "\<exists>s3. anchor_unpin (dm_pinned dm_sr2) 5 = Inr (s3, dm_sr2, 80900) \<and> anchor_unpin s3 5 = Inl (AssertFail ''N12'')"
proof -
  have n: "(5::nat) < uint64_limit" by (simp add: uint64_limit_def)
  have st: "anchor_step head_hash (dm_pinned dm_sr) (dm_env dm_sr2, CPin 5 (replicate 32 7, 80900)) (dm_pinned dm_sr2)"
    by (rule accept [OF dm_env_ok [OF dm_lengths(6)] dm_call_ok(5) dm_pin [OF dm_lengths(6,5)]]) simp
  have "ce_sender (dm_env dm_sr2) = dm_sr2" by (simp add: dm_env_def)
  with second_pin_strands_deposit [where H = head_hash, OF length_head_hash dm_inv n dm_pin_run st]
  show ?thesis by (simp add: PIN_MBR_def)
qed

text \<open>
A pinned copy survives the revocation of its block. Revoking a block number marks only the ring
record: an unrevoked pinned copy stays as it was, and as soon as the ring slot holds another block
and no conflict is latched, the revoked block is attested again from the pinned tier.
\<close>

theorem pinned_copy_survives_revocation:
  assumes "\<And>x. length (H x) = 32" and "anchor_inv s" and "bn < uint64_limit"
    and "pin_slot s bn = Some q" and "\<not> rec_revoked q" and "anchor_revoke E s bn = Inr s1" and "env_ok E"
    and "anchor_run H s1 evs s2"
    and "\<forall>(E, c)\<in>set evs. (\<forall>p. c \<noteq> CPin bn p) \<and> c \<noteq> CUnpin bn"
    and "ring_slot s2 (bn mod an_ring_size s2) = Some b" and "rec_block b \<noteq> bn" and "an_conflict s2 = 0"
  shows "anchor_attest s2 bn = Inr (take 154 q)"
proof -
  have st: "anchor_step H s (E, CRevoke bn) s1" unfolding anchor_step_simps using assms(3,6,7) by (simp add: quiet_def)
  have ef: "anchor_effect H E (CRevoke bn) s s1" by (rule step_effect [where H = H, OF assms(1,2) st])
  have inv1: "anchor_inv s1" by (rule effect_inv [where H = H, OF assms(1,2) _ assms(7) ef]) (simp add: assms(3))
  have inv2: "anchor_inv s2" by (rule run_inv [where H = H, OF assms(1,8) inv1])
  have "pin_slot s1 bn = Some q" using effect_pin_frame [OF ef assms(3)] assms(3,4) by simp
  then have "pin_slot s2 bn = Some q" using run_pin_frame [where H = H, OF assms(1,8) inv1 assms(3,9)] by simp
  then have "attest_answer s2 bn = Some (take 154 q)" using assms(5,10-12) by (simp add: attest_answer_def)
  then show ?thesis using attest_exact(1) [OF inv2 assms(3)] by simp
qed

text \<open>The history continues with block 6, finalized at slot 65.\<close>

definition ev_hdr :: bytes where
  "ev_hdr = le64 65 @ le64 5 @ dm_leaf @ zero32 @ block_number_leaf 6"

definition ev_env :: call_env where
  "ev_env = (dm_env dm_gov)\<lparr>ce_uints := (\<lambda>_. [ascii ''fin_slot'' \<mapsto> 65]),
     ce_bytes := (\<lambda>_. [ascii ''fin_root'' \<mapsto> dm_hdr_root 65, ascii ''fin_state_root'' \<mapsto> zero32])\<rparr>"

definition ev_rec :: bytes where
  "ev_rec = low_byte 1 @ low_byte 0 @ itob 6 @ itob 65 @ dm_sr @ dm_rr @ dm_hdr_root 65 @ dm_hdr_root 65 @ itob 9"

definition ev_el :: el_fields where
  "ev_el = (dm_sr, dm_rr, 6, block_number_leaf 6 @ dm_sr, dm_sr @ block_number_leaf 6, dm_sr @ dm_sr)"

lemma ev_root_nonzero: "dm_hdr_root 65 \<noteq> zero_address"
proof
  assume "dm_hdr_root 65 = zero_address"
  then have "take 8 (dm_hdr_root 65) = take 8 zero_address" by simp
  then have "le64 65 = le64 0" by (simp add: dm_hdr_root_def zero_address_def le64_def itob_def be_bytes_zero)
  then show False using le64_inj [of 65 0] by (simp add: uint64_limit_def)
qed

lemma ev_segs: "length ev_hdr = 112" "seg 0 8 ev_hdr = le64 65" "seg 8 8 ev_hdr = le64 5" "seg 16 32 ev_hdr = dm_leaf"
    "seg 48 32 ev_hdr = zero32" "seg 80 32 ev_hdr = block_number_leaf 6"
  by (simp_all add: ev_hdr_def seg_simps)

lemma ev_htr: "tree_root head_hash (header_tree ev_hdr) = dm_hdr_root 65"
  using head_hash_left [of "le64 65 @ replicate 24 0"] by (simp add: header_tree_def ev_segs dm_hdr_root_def)

lemma ev_candidate:
  assumes "an_globals s = an_globals dm_forked" "an_fork_count s = 1" "an_m4_app s = 7"
  shows "anchor_direct_candidate head_hash ev_env s 7 ev_hdr ev_el = Inr ev_rec"
proof -
  have "read_m4_finalized ev_env 7 (an_m4_app s) = Inr (65, dm_hdr_root 65, seg 48 32 ev_hdr)"
    using ascii_names by (simp add: read_m4_Inr ev_env_def assms(3) ev_segs)
  moreover have "build_record False 6 65 dm_sr dm_rr (dm_hdr_root 65) (dm_hdr_root 65) (ce_round ev_env) = Inr ev_rec"
    by (simp add: build_record_Inr ev_rec_def ev_env_def dm_env_def)
  moreover have "header_slot ev_hdr = Inr 65" by (simp add: header_slot_eq ev_segs uint64_limit_def)
  moreover have "folds_to head_hash dm_sr (block_number_leaf 6 @ dm_sr) 5 (block_number_leaf 6)"
    "folds_to head_hash dm_rr (dm_sr @ block_number_leaf 6) 7 (block_number_leaf 6)"
    "folds_to head_hash (block_number_leaf 6) (dm_sr @ dm_sr) 4 (block_number_leaf 6)"
    by (simp_all add: folds_to_def dm_gdepth chunks_two head_hash_left)
  ultimately show ?thesis
    unfolding ev_el_def direct_candidate_Inr [where H = head_hash, OF length_head_hash] ev_segs(6)
    using dm_lookup [OF assms(1,2)] ev_htr ev_root_nonzero ev_segs(1)
    by (intro exI [of _ 65] exI [of _ "dm_hdr_root 65"] exI [of _ 5] exI [of _ 7] exI [of _ 4] exI [of _ 2]) simp
qed

definition dm_pin_revoked :: anchor_state where
  "dm_pin_revoked = (dm_pinned dm_sr)\<lparr>an_boxes := [ring_box_name 0 \<mapsto> mark_revoked (dm_rec dm_sr),
     pin_box_name 5 \<mapsto> dm_rec dm_sr @ dm_sr]\<rparr>"

definition dm_evicted :: anchor_state where
  "dm_evicted = dm_pin_revoked\<lparr>an_boxes := [ring_box_name 0 \<mapsto> ev_rec, pin_box_name 5 \<mapsto> dm_rec dm_sr @ dm_sr],
     an_hi_block := 6, an_hi_slot := 65, an_n_anchored := 2\<rparr>"

lemma dm_revoke_pinned: "anchor_revoke (dm_env dm_gov) (dm_pinned dm_sr) 5 = Inr dm_pin_revoked"
proof -
  note f = dm_rec_facts [OF dm_lengths(5)]
  have e: "box_extract bs (ring_box_name 0) 0 154 = Inr (dm_rec dm_sr)" if "bs (ring_box_name 0) = Some (dm_rec dm_sr)" for bs
    using f that by (simp add: box_extract_all max_bytes_def)
  have g: "getbyte (dm_rec dm_sr) (Suc 0) = Inr (rec_flags (dm_rec dm_sr))"
    using f by (simp add: getbyte_def rec_flags_def)
  have m: "(5::nat) AND 0 = 0" by simp
  show ?thesis
    using f by (simp add: anchor_revoke_def dm_pin_revoked_def dm_pinned_def dm_anchored_def dm_forked_def dm_ring_def
        dm_base_def dm_env_def ring_residue_def usub_def RECORD_LEN_def Let_def box_replace_def breplace_def
        mark_revoked_def e g fun_upd_twist)
qed

lemma ev_facts: "length ev_rec = 154" "rec_block ev_rec = 6" "rec_slot ev_rec = 65"
  using build_record_fields [of False 6 65 dm_sr dm_rr "dm_hdr_root 65" "dm_hdr_root 65" 9 ev_rec]
  by (simp_all add: build_record_Inr ev_rec_def uint64_limit_def)

lemma ev_finish:
  assumes "anchor_inv dm_pin_revoked"
  shows "anchor_finish dm_pin_revoked ev_rec = Inr (dm_evicted, ev_rec)"
proof -
  note f = dm_rec_facts [OF dm_lengths(5)]
  have "154 \<le> length (dm_rec dm_sr)" using f by simp
  note m = mark_revoked_facts [OF this]
  have fields: "an_ring_size dm_pin_revoked = 1" "an_ring_cursor dm_pin_revoked = 1" "an_frozen dm_pin_revoked = 0"
      "an_conflict dm_pin_revoked = 0" "an_hi_block dm_pin_revoked = 5" "an_hi_slot dm_pin_revoked = 64"
      "an_n_anchored dm_pin_revoked = 1" "ring_slot dm_pin_revoked 0 = Some (mark_revoked (dm_rec dm_sr))"
    by (simp_all add: dm_pin_revoked_def dm_pinned_def dm_anchored_def dm_forked_def dm_ring_def dm_base_def)
  have up: "dm_pin_revoked\<lparr>an_boxes := (an_boxes dm_pin_revoked)(ring_box_name 0 \<mapsto> ev_rec), an_hi_block := 6,
      an_hi_slot := 65, an_n_anchored := 2\<rparr> = dm_evicted"
    by (simp add: dm_evicted_def dm_pin_revoked_def fun_upd_twist)
  have "anchor_decision dm_pin_revoked ev_rec = Inr (dm_evicted, ev_rec)"
    using up by (simp add: anchor_decision_def fields ev_facts m f numeral_2_eq_2 Let_def)
  then show ?thesis
    using finish_exact [OF assms ev_facts(1)] by (simp add: fields ev_facts uint64_limit_def)
qed

theorem pinned_copy_survives_revocation_witness:
  "anchor_attest dm_evicted 5 = Inr (dm_rec dm_sr)"
proof -
  note f = dm_rec_facts [OF dm_lengths(5)] and ok = dm_env_ok [OF dm_lengths(1)]
  have n: "(5::nat) < uint64_limit" by (simp add: uint64_limit_def)
  have inv: "anchor_inv (dm_pinned dm_sr)"
    using run_inv [where H = head_hash, OF length_head_hash run_snoc [OF run_nil dm_pin_run] dm_inv] .
  have "anchor_run head_hash (dm_pinned dm_sr) ([] @ [(dm_env dm_gov, CRevoke 5)]) dm_pin_revoked"
    by (rule run_more [OF run_nil _ ok dm_call_ok(4)]) (simp add: quiet_def dm_revoke_pinned)
  from run_inv [where H = head_hash, OF length_head_hash this inv] have inv1: "anchor_inv dm_pin_revoked" .
  have eo: "env_ok ev_env" "call_ok (CAnchorDirect 7 ev_hdr ev_el)"
    using ok by (simp_all add: env_ok_def ev_env_def ev_el_def uint64_limit_def)
  have c: "anchor_direct_candidate head_hash ev_env dm_pin_revoked 7 ev_hdr ev_el = Inr ev_rec"
    by (rule ev_candidate) (simp_all add: dm_pin_revoked_def dm_pinned_def dm_anchored_def dm_forked_def dm_ring_def dm_base_def)
  have run: "anchor_run head_hash dm_pin_revoked ([] @ [(ev_env, CAnchorDirect 7 ev_hdr ev_el)]) dm_evicted"
    by (rule run_more [OF run_nil _ eo]) (simp add: anchor_direct_def c ev_finish [OF inv1])
  have pin: "pin_slot (dm_pinned dm_sr) 5 = Some (dm_rec dm_sr @ dm_sr)" by (simp add: dm_pinned_def)
  have nr: "\<not> rec_revoked (dm_rec dm_sr @ dm_sr)"
    using f by (simp add: rec_revoked_def rec_flags_def nth_append)
  have slot: "ring_slot dm_evicted (5 mod an_ring_size dm_evicted) = Some ev_rec" "rec_block ev_rec \<noteq> 5" "an_conflict dm_evicted = 0"
    using ev_facts by (simp_all add: dm_evicted_def dm_pin_revoked_def dm_pinned_def dm_anchored_def dm_forked_def
        dm_ring_def dm_base_def)
  from pinned_copy_survives_revocation [where H = head_hash, OF length_head_hash inv n pin nr dm_revoke_pinned ok run _ slot]
  show ?thesis using f by simp
qed

section \<open>The consumer\<close>

text \<open>
A consumer gets the attested record of the block it asked for. If every earlier \<open>attest\<close> call of
the trusted application in the group logged a record the anchor attests in its current state, then
whatever index the caller points at, a record recovered for a wanted block number is the one the
anchor attests for that block number; and it was recovered from an earlier call than the consumer's own.
\<close>

theorem anchor_consumer_sound:
  assumes "anchor_inv s" and "w < uint64_limit" and "anchor_from_group anchor_id E gi w = Inr a"
    and "\<And>i rest lg. i < env_index E \<Longrightarrow> i < length (env_group E) \<Longrightarrow>
        env_group E ! i = AppCall anchor_id (ATTEST_SELECTOR # rest) lg \<Longrightarrow>
        \<exists>bn b. bn < uint64_limit \<and> anchor_attest s bn = Inr b \<and> lg = ARC4_RETURN_PREFIX @ b"
  shows "anchor_attest s w = Inr a \<and> gi < env_index E"
  using consumer_core [OF assms(1-3)] assms(4) anchor_handoff.recover_source [OF assms(3)] by blast

theorem anchor_consumer_sound_witness:
  "anchor_from_group 3 \<lparr>env_group = [AppCall 3 [ATTEST_SELECTOR] (ARC4_RETURN_PREFIX @ dm_rec dm_sr)], env_index = 1,
     env_app = 8, env_args = []\<rparr> 0 5 = Inr (dm_rec dm_sr) \<and> anchor_attest dm_anchored 5 = Inr (dm_rec dm_sr)"
proof -
  let ?E = "\<lparr>env_group = [AppCall 3 [ATTEST_SELECTOR] (ARC4_RETURN_PREFIX @ dm_rec dm_sr)], env_index = 1,
     env_app = 8, env_args = []\<rparr>"
  note f = dm_rec_facts [OF dm_lengths(5)]
  have n: "(5::nat) < uint64_limit" by (simp add: uint64_limit_def)
  have "length (seg 2 8 (dm_rec dm_sr)) = 8" using f(1) by simp
  from itob_be_val [OF this] f(3) have "seg 2 8 (dm_rec dm_sr) = itob 5" by (simp only: rec_block_def)
  then have r: "anchor_from_group 3 ?E 0 5 = Inr (dm_rec dm_sr)"
    using f(1,2,5) by (simp only: from_group_Inr) simp
  have "\<exists>bn b. bn < uint64_limit \<and> anchor_attest dm_anchored bn = Inr b \<and> lg = ARC4_RETURN_PREFIX @ b"
    if "i < env_index ?E" "env_group ?E ! i = AppCall 3 (ATTEST_SELECTOR # rest) lg" for i rest lg
    using that dm_attest n by auto
  from anchor_consumer_sound [OF dm_inv n r] this r show ?thesis by blast
qed

end
