(* ===== verification/BLS_Codec.thy ===== *)
theory BLS_Codec
  imports AVM
begin

text \<open>
  BLS12-381 byte formats, \<open>contracts/primitives/bls/codec.py\<close>: negation, compression and the binding
  of an uncompressed point to its committed compressed form. The elliptic-curve opcodes of the AVM are
  the record \<open>ec_ops\<close>, a parameter; what the development assumes of them is \<open>g1_curve\<close>.
\<close>

unbundle bit_operations_syntax

record ec_ops =
  ec_add1 :: "bytes \<Rightarrow> bytes \<Rightarrow> bytes res"
  ec_in1 :: "bytes \<Rightarrow> bool res"
  ec_msm1 :: "bytes \<Rightarrow> bytes \<Rightarrow> bytes res"
  ec_add2 :: "bytes \<Rightarrow> bytes \<Rightarrow> bytes res"
  ec_in2 :: "bytes \<Rightarrow> bool res"
  ec_map2 :: "bytes \<Rightarrow> bytes res"
  ec_pair :: "bytes \<Rightarrow> bytes \<Rightarrow> bool res"

definition FP_BYTES :: nat where "FP_BYTES = 48"
definition G1_BYTES :: nat where "G1_BYTES = 96"
definition G2_BYTES :: nat where "G2_BYTES = 192"
definition SCALAR_BYTES :: nat where "SCALAR_BYTES = 32"
definition G1_COMPRESSED_BYTES :: nat where "G1_COMPRESSED_BYTES = 48"
definition G2_COMPRESSED_BYTES :: nat where "G2_COMPRESSED_BYTES = 96"
definition COMPRESSION_FLAG_BYTE :: nat where "COMPRESSION_FLAG_BYTE = 0x80"
definition SIGN_FLAG_BYTE :: nat where "SIGN_FLAG_BYTE = 0x20"

definition field_modulus :: nat where
  "field_modulus = 0x1A0111EA397FE69A4B1BA7B6434BACD764774B84F38512BF6730D2A0F6B0F6241EABFFFEB153FFFFB9FEFFFFFFFFAAAB"

definition half_p :: nat where
  "half_p = 0x0D0088F51CBFF34D258DD3DB21A5D66BB23BA5C279C2895FB39869507B587B120F55FFFF58A9FFFFDCFF7FFFFFFFD555"

definition neg_g1_generator :: bytes where
  "neg_g1_generator =
     be_bytes 48 0x17f1d3a73197d7942695638c4fa9ac0fc3688c4f9774b905a14e3a3f171bac586c55e83ff97a1aeffb3af00adb22c6bb @
     be_bytes 48 0x114d1d6855d545a8aa7d76c8cf2e21f267816aef1db507c96655b9d5caac42364e6f38ba0ecb751bad54dcd6b939c2ca"

definition g1_infinity :: bytes where "g1_infinity = replicate G1_BYTES 0"
definition g2_infinity :: bytes where "g2_infinity = replicate G2_BYTES 0"
definition g1_compressed_infinity :: bytes where "g1_compressed_infinity = 0xc0 # replicate (G1_COMPRESSED_BYTES - 1) 0"
definition g2_compressed_infinity :: bytes where "g2_compressed_infinity = 0xc0 # replicate (G2_COMPRESSED_BYTES - 1) 0"

definition pad_fp :: "bytes \<Rightarrow> bytes res" where
  "pad_fp b = check (length b \<le> FP_BYTES) ''pad_fp''
     (if length b = FP_BYTES then Inr b else Inr (replicate (FP_BYTES - length b) 0 @ b))"

definition g1_is_infinity :: "bytes \<Rightarrow> bool res" where
  "g1_is_infinity p = check (length p = G1_BYTES) ''g1 length'' (Inr (p = g1_infinity))"

definition g2_is_infinity :: "bytes \<Rightarrow> bool res" where
  "g2_is_infinity p = check (length p = G2_BYTES) ''g2 length'' (Inr (p = g2_infinity))"

definition g1_negate :: "bytes \<Rightarrow> bytes res" where
  "g1_negate p =
     check (length p = G1_BYTES) ''g1 length'' (
     rbind (g1_is_infinity p) (\<lambda>inf.
     if inf then Inr p
     else let x = bslice p 0 FP_BYTES; y = bslice p FP_BYTES G1_BYTES in
       rbind (usub field_modulus (be_val y)) (\<lambda>d.
       rbind (pad_fp (be_min d)) (\<lambda>neg_y. Inr (x @ neg_y)))))"

definition g2_negate :: "bytes \<Rightarrow> bytes res" where
  "g2_negate p =
     check (length p = G2_BYTES) ''g2 length'' (
     rbind (g2_is_infinity p) (\<lambda>inf.
     if inf then Inr p
     else let x = bslice p 0 (2 * FP_BYTES);
              y_c0 = bslice p (2 * FP_BYTES) (3 * FP_BYTES);
              y_c1 = bslice p (3 * FP_BYTES) (4 * FP_BYTES) in
       rbind (usub field_modulus (be_val y_c0)) (\<lambda>d0.
       rbind (pad_fp (be_min d0)) (\<lambda>neg_y_c0.
       rbind (usub field_modulus (be_val y_c1)) (\<lambda>d1.
       rbind (pad_fp (be_min d1)) (\<lambda>neg_y_c1. Inr (x @ neg_y_c0 @ neg_y_c1)))))))"

definition g1_compress :: "bytes \<Rightarrow> bytes res" where
  "g1_compress p =
     check (length p = G1_BYTES) ''g1 length'' (
     rbind (g1_is_infinity p) (\<lambda>inf.
     if inf then Inr g1_compressed_infinity
     else let x = bslice p 0 FP_BYTES; y = bslice p FP_BYTES G1_BYTES;
              sign_flag = (if be_val y > half_p then SIGN_FLAG_BYTE else 0) in
       rbind (getbyte x 0) (\<lambda>b.
       setbyte x 0 (b OR COMPRESSION_FLAG_BYTE OR sign_flag))))"

definition g2_compress :: "bytes \<Rightarrow> bytes res" where
  "g2_compress p =
     check (length p = G2_BYTES) ''g2 length'' (
     rbind (g2_is_infinity p) (\<lambda>inf.
     if inf then Inr g2_compressed_infinity
     else let x_c0 = bslice p 0 FP_BYTES; x_c1 = bslice p FP_BYTES (2 * FP_BYTES);
              y_c0 = bslice p (2 * FP_BYTES) (3 * FP_BYTES); y_c1 = bslice p (3 * FP_BYTES) (4 * FP_BYTES);
              sign_is_set = (be_val y_c1 > half_p \<or> be_val y_c1 = 0 \<and> be_val y_c0 > half_p);
              sign_flag = (if sign_is_set then SIGN_FLAG_BYTE else 0) in
       rbind (getbyte x_c1 0) (\<lambda>b.
       rbind (setbyte x_c1 0 (b OR COMPRESSION_FLAG_BYTE OR sign_flag)) (\<lambda>x_c1_flagged.
       Inr (x_c1_flagged @ x_c0)))))"

definition g1_validate_wellformed_only :: "ec_ops \<Rightarrow> bytes \<Rightarrow> unit res" where
  "g1_validate_wellformed_only C p =
     check (length p = G1_BYTES) ''g1 length'' (
     rbind (ec_in1 C p) (\<lambda>b. check b ''g1 subgroup'' (Inr ())))"

definition g2_validate_wellformed_only :: "ec_ops \<Rightarrow> bytes \<Rightarrow> unit res" where
  "g2_validate_wellformed_only C p =
     check (length p = G2_BYTES) ''g2 length'' (
     rbind (ec_in2 C p) (\<lambda>b. check b ''g2 subgroup'' (Inr ())))"

definition g1_bind :: "ec_ops \<Rightarrow> bytes \<Rightarrow> bytes \<Rightarrow> unit res" where
  "g1_bind C uncompressed committed_compressed =
     rbind (g1_is_infinity uncompressed) (\<lambda>inf.
     check (\<not> inf) ''g1 infinity'' (
     rbind (ec_in1 C uncompressed) (\<lambda>b.
     check b ''g1 subgroup'' (
     rbind (g1_compress uncompressed) (\<lambda>c.
     check (c = committed_compressed) ''g1 commitment'' (Inr ()))))))"

definition g2_bind :: "ec_ops \<Rightarrow> bytes \<Rightarrow> bytes \<Rightarrow> unit res" where
  "g2_bind C uncompressed committed_compressed =
     rbind (g2_is_infinity uncompressed) (\<lambda>inf.
     check (\<not> inf) ''g2 infinity'' (
     rbind (ec_in2 C uncompressed) (\<lambda>b.
     check b ''g2 subgroup'' (
     rbind (g2_compress uncompressed) (\<lambda>c.
     check (c = committed_compressed) ''g2 commitment'' (Inr ()))))))"

section \<open>Facts about the format\<close>

lemma half_p_eq: "field_modulus = 2 * half_p + 1"
  by (simp add: field_modulus_def half_p_def)

lemma modulus_bound: "field_modulus < 32 * 256 ^ 47"
  by (simp add: field_modulus_def)

lemma pad_fp_be_min: "d < 256 ^ 48 \<Longrightarrow> pad_fp (be_min d) = Inr (be_bytes 48 d)"
proof -
  assume d: "d < 256 ^ 48"
  then have l: "length (be_min d) \<le> 48" by (rule length_be_min_le)
  let ?p = "replicate (48 - length (be_min d)) 0 @ be_min d"
  have z: "be_val (replicate k 0 :: bytes) = 0" for k
    using be_val_be_bytes [of 0 k] by (simp add: be_bytes_zero)
  have "length ?p = 48" using l by simp
  moreover have "be_val ?p = d" by (simp add: be_val_append z)
  ultimately have "?p = be_bytes 48 d" using be_bytes_be_val [of ?p 48] by simp
  then show ?thesis using l by (auto simp: pad_fp_def FP_BYTES_def)
qed

text \<open>A finite point: two coordinates below the modulus, the second nonzero.\<close>

definition px :: "bytes \<Rightarrow> bytes" where "px P = take 48 P"
definition py :: "bytes \<Rightarrow> nat" where "py P = be_val (drop 48 P)"

definition finite_point :: "bytes \<Rightarrow> bool" where
  "finite_point P \<longleftrightarrow> length P = 96 \<and> be_val (px P) < field_modulus \<and> 0 < py P \<and> py P < field_modulus"

definition neg_point :: "bytes \<Rightarrow> bytes" where
  "neg_point P = (if P = g1_infinity then P else px P @ be_bytes 48 (field_modulus - py P))"

lemma length_infinity [simp]: "length g1_infinity = 96"
  by (simp add: g1_infinity_def G1_BYTES_def)

lemma modulus_48: "field_modulus < 256 ^ 48"
  by (simp add: field_modulus_def)

lemma py_append: "length x = 48 \<Longrightarrow> v < 256 ^ 48 \<Longrightarrow> py (x @ be_bytes 48 v) = v"
  by (simp add: py_def)

lemma px_append: "length x = 48 \<Longrightarrow> px (x @ ys) = x"
  by (simp add: px_def)

lemma finite_not_infinity: "finite_point P \<Longrightarrow> P \<noteq> g1_infinity"
proof
  assume f: "finite_point P" and "P = g1_infinity"
  then have "py P = be_val (be_bytes 48 0)" by (simp add: py_def g1_infinity_def G1_BYTES_def be_bytes_zero)
  then show False using f by (simp add: finite_point_def)
qed

lemma point_eq: "length P = 96 \<Longrightarrow> P = px P @ be_bytes 48 (py P)"
  by (simp add: px_def py_def be_bytes_be_val)

lemma g1_negate_finite: "finite_point P \<Longrightarrow> g1_negate P = Inr (neg_point P)"
proof -
  assume f: "finite_point P"
  then have d: "field_modulus - py P < 256 ^ 48" using modulus_48 by linarith
  have s: "bslice P 0 48 = px P" "be_val (bslice P 48 96) = py P"
    using f by (simp_all add: bslice_def seg_def px_def py_def finite_point_def)
  show ?thesis
    using f finite_not_infinity [OF f] s d pad_fp_be_min [OF d]
    by (simp add: g1_negate_def g1_is_infinity_def neg_point_def finite_point_def FP_BYTES_def G1_BYTES_def usub_def)
qed

lemma g1_negate_infinity: "g1_negate g1_infinity = Inr g1_infinity"
  by (simp add: g1_negate_def g1_is_infinity_def G1_BYTES_def)

lemma neg_finite: "finite_point P \<Longrightarrow> finite_point (neg_point P) \<and> px (neg_point P) = px P \<and>
    py (neg_point P) = field_modulus - py P"
proof -
  assume f: "finite_point P"
  then have l: "length (px P) = 48" by (simp add: finite_point_def px_def)
  have d: "field_modulus - py P < 256 ^ 48" using modulus_48 by linarith
  have n: "neg_point P = px P @ be_bytes 48 (field_modulus - py P)"
    using finite_not_infinity [OF f] by (simp add: neg_point_def)
  then have "px (neg_point P) = px P" "py (neg_point P) = field_modulus - py P"
    using px_append [OF l] py_append [OF l d] by simp_all
  then show ?thesis using f l n by (simp add: finite_point_def)
qed

lemma neg_neg: "finite_point P \<Longrightarrow> neg_point (neg_point P) = P"
proof -
  assume f: "finite_point P"
  note n = neg_finite [OF f]
  have "neg_point (neg_point P) = px P @ be_bytes 48 (field_modulus - (field_modulus - py P))"
    using n finite_not_infinity [of "neg_point P"] by (simp add: neg_point_def [of "neg_point P"])
  also have "\<dots> = px P @ be_bytes 48 (py P)" using f by (simp add: finite_point_def)
  also have "\<dots> = P" using point_eq [of P] f by (simp add: finite_point_def)
  finally show ?thesis .
qed

section \<open>Compression\<close>

lemma flag_or:
  assumes "b < 32"
  shows "b OR COMPRESSION_FLAG_BYTE OR 0 = b + 128" "b OR COMPRESSION_FLAG_BYTE OR SIGN_FLAG_BYTE = b + 160"
proof -
  have "take_bit 5 b = b" using assms by (simp add: take_bit_nat_eq_self_iff)
  then have b: "b = b AND 31" by (simp add: take_bit_eq_mask mask_eq_exp_minus_1)
  then have "b AND 128 = b AND (31 AND 128)" "b AND 160 = b AND (31 AND 160)"
    by (simp_all only: and.assoc [symmetric])
  then have "b AND 128 = 0" "b AND 160 = 0" by simp_all
  then have "b OR 128 = b + 128 \<and> b OR 160 = b + 160" by (simp add: disjunctive_add_eq_or)
  moreover have "b OR 128 OR 32 = b OR 160" by (simp add: or.assoc)
  ultimately show "b OR COMPRESSION_FLAG_BYTE OR 0 = b + 128" "b OR COMPRESSION_FLAG_BYTE OR SIGN_FLAG_BYTE = b + 160"
    by (simp_all add: COMPRESSION_FLAG_BYTE_def SIGN_FLAG_BYTE_def)
qed

definition compressed :: "bytes \<Rightarrow> bytes" where
  "compressed P = (px P)[0 := of_nat (unat (P ! 0) + (if py P > half_p then 160 else 128))]"

lemma top_byte_small:
  assumes "finite_point P"
  shows "unat (P ! 0) < 32"
proof (rule ccontr)
  assume "\<not> unat (P ! 0) < 32"
  then have ge: "32 \<le> unat (P ! 0)" by simp
  have l: "length P = 96" using assms by (simp add: finite_point_def)
  have "px P = [P ! 0] @ seg 1 47 P" using seg_Suc [of 0 P 47] l by (simp add: px_def seg_def)
  moreover have "be_val [P ! 0] = unat (P ! 0)" using be_val_snoc [of "[]" "P ! 0"] by simp
  moreover have "length (seg 1 47 P) = 47" using l by simp
  ultimately have "be_val (px P) = unat (P ! 0) * 256 ^ 47 + be_val (seg 1 47 P)"
    by (simp only: be_val_append)
  moreover have "32 * 256 ^ 47 \<le> unat (P ! 0) * 256 ^ 47" using ge by (rule mult_le_mono1)
  ultimately have "field_modulus < be_val (px P)" using modulus_bound by linarith
  moreover have "be_val (px P) < field_modulus" using assms by (simp add: finite_point_def)
  ultimately show False by (rule less_asym)
qed

lemma g1_compress_finite: "finite_point P \<Longrightarrow> g1_compress P = Inr (compressed P)"
proof -
  assume f: "finite_point P"
  have s: "bslice P 0 48 = px P" "be_val (bslice P 48 96) = py P" "px P ! 0 = P ! 0" "length (px P) = 48" "px P \<noteq> []"
    using f by (auto simp: bslice_def seg_def px_def py_def finite_point_def)
  note b = top_byte_small [OF f] flag_or [OF top_byte_small [OF f]]
  show ?thesis
    using f finite_not_infinity [OF f] s b
    by (simp add: g1_compress_def g1_is_infinity_def finite_point_def FP_BYTES_def G1_BYTES_def getbyte_def setbyte_def
        compressed_def Let_def)
qed

text \<open>The compressed form determines the first coordinate and the sign of the second.\<close>

lemma compressed_inj:
  assumes P: "finite_point P" and Q: "finite_point Q" and eq: "compressed P = compressed Q"
  shows "px P = px Q \<and> (py P > half_p \<longleftrightarrow> py Q > half_p)"
proof -
  let ?b = "\<lambda>P. unat (P ! 0) + (if py P > half_p then 160 else 128)"
  note p = top_byte_small [OF P] and q = top_byte_small [OF Q]
  have l: "length (px P) = 48" "length (px Q) = 48" using P Q by (simp_all add: finite_point_def px_def)
  have "(compressed P) ! 0 = (compressed Q) ! 0" using eq by simp
  then have "unat (of_nat (?b P) :: byte) = unat (of_nat (?b Q) :: byte)" using l by (simp add: compressed_def)
  then have "?b P = ?b Q" using p q unat_of_nat_byte [of "?b P"] unat_of_nat_byte [of "?b Q"] by (auto split: if_splits)
  then have b: "unat (P ! 0) = unat (Q ! 0)" "py P > half_p \<longleftrightarrow> py Q > half_p" using p q by (auto split: if_splits)
  have "px P = px Q"
  proof (rule nth_equalityI)
    show "length (px P) = length (px Q)" using l by simp
    fix i assume i: "i < length (px P)"
    show "px P ! i = px Q ! i"
    proof (cases i)
      case 0
      have "px P ! 0 = P ! 0" "px Q ! 0 = Q ! 0" by (simp_all add: px_def)
      then show ?thesis using 0 b(1) by (simp add: word_unat_eq_iff)
    next
      case (Suc j)
      have "(compressed P) ! i = (compressed Q) ! i" using eq by simp
      then show ?thesis using Suc by (simp add: compressed_def)
    qed
  qed
  with b(2) show ?thesis by simp
qed

lemma sign_of_negation:
  assumes "finite_point P"
  shows "py (neg_point P) > half_p \<longleftrightarrow> \<not> py P > half_p"
  using neg_finite [OF assms] assms half_p_eq by (auto simp: finite_point_def)

section \<open>What is assumed of the curve\<close>

text \<open>
  \<open>G\<close> is the set of encodings the subgroup check accepts (on any other it answers no, or fails off the curve):
  the infinity and finite points, at most two
  points with one first coordinate, which are each other's negations, and an abelian group under the
  addition opcode with negation as inverse.
\<close>

definition g1_curve :: "ec_ops \<Rightarrow> bytes set \<Rightarrow> bool" where
  "g1_curve C G \<longleftrightarrow>
     (\<forall>P. length P = 96 \<longrightarrow> (ec_in1 C P = Inr True \<longleftrightarrow> P \<in> G)) \<and>
     g1_infinity \<in> G \<and> (\<forall>P\<in>G. P = g1_infinity \<or> finite_point P) \<and>
     (\<forall>P\<in>G. \<forall>Q\<in>G. P \<noteq> g1_infinity \<longrightarrow> Q \<noteq> g1_infinity \<longrightarrow> px P = px Q \<longrightarrow> Q = P \<or> Q = neg_point P) \<and>
     (\<forall>P\<in>G. neg_point P \<in> G) \<and>
     (\<forall>P\<in>G. \<forall>Q\<in>G. \<exists>R\<in>G. ec_add1 C P Q = Inr R \<and> ec_add1 C Q P = Inr R) \<and>
     (\<forall>P\<in>G. \<forall>Q\<in>G. \<forall>R\<in>G. rbind (ec_add1 C P Q) (\<lambda>S. ec_add1 C S R) = rbind (ec_add1 C Q R) (ec_add1 C P)) \<and>
     (\<forall>P\<in>G. ec_add1 C P g1_infinity = Inr P) \<and>
     (\<forall>P\<in>G. ec_add1 C P (neg_point P) = Inr g1_infinity)"

lemma bind_Inr:
  assumes "g1_curve C G" and "length U = 96"
  shows "g1_bind C U K = Inr u \<longleftrightarrow> U \<in> G \<and> U \<noteq> g1_infinity \<and> compressed U = K"
proof -
  have i: "ec_in1 C U = Inr True \<longleftrightarrow> U \<in> G" using assms by (simp add: g1_curve_def)
  have f: "U \<in> G \<Longrightarrow> U \<noteq> g1_infinity \<Longrightarrow> finite_point U" using assms by (auto simp: g1_curve_def)
  show ?thesis
    by (auto simp: g1_bind_def g1_is_infinity_def res_simps assms(2) G1_BYTES_def i [symmetric] g1_compress_finite [OF f [unfolded i [symmetric]]])
qed

text \<open>A commitment binds one point.\<close>

lemma bind_unique:
  assumes c: "g1_curve C G" and l: "length U = 96" "length V = 96"
    and "g1_bind C U K = Inr u" and "g1_bind C V K = Inr v"
  shows "U = V"
proof -
  have U: "U \<in> G" "U \<noteq> g1_infinity" "compressed U = K" using bind_Inr [OF c l(1)] assms(4) by blast+
  have V: "V \<in> G" "V \<noteq> g1_infinity" "compressed V = K" using bind_Inr [OF c l(2)] assms(5) by blast+
  have f: "finite_point U" "finite_point V" using c U V by (auto simp: g1_curve_def)
  have e: "px U = px V" "py U > half_p \<longleftrightarrow> py V > half_p" using compressed_inj [OF f] U V by simp_all
  have "V = U \<or> V = neg_point U" using c U V e(1) unfolding g1_curve_def by blast
  then show ?thesis using e(2) sign_of_negation [OF f(1)] by auto
qed

end
