(* ===== verification/BLS_Aggregate.thy ===== *)
theory BLS_Aggregate
  imports BLS_Codec
begin

text \<open>
  Aggregation, hashing to the curve and the pairing assembly: \<open>aggregate.py\<close>, \<open>hash_to_curve.py\<close> and
  \<open>pairing.py\<close> of \<open>contracts/primitives/bls\<close>. Aggregation is proved against the sum of a list of points
  in the abelian group that \<open>g1_curve\<close> assumes.
\<close>

section \<open>Aggregation\<close>

definition G1_VALUE_CAP_BYTES :: nat where "G1_VALUE_CAP_BYTES = 42 * G1_BYTES"

definition assert_g1_blob :: "bytes \<Rightarrow> nat res" where
  "assert_g1_blob blob =
     (let n = length blob in
      check (n mod G1_BYTES = 0) ''blob length'' (
      check (n \<le> G1_VALUE_CAP_BYTES) ''blob length'' (Inr (n div G1_BYTES))))"

text \<open>The addition loop: \<open>k\<close> points from index \<open>i\<close> on are added to the accumulator.\<close>

fun g1_add_loop :: "ec_ops \<Rightarrow> bytes \<Rightarrow> nat \<Rightarrow> nat \<Rightarrow> bytes \<Rightarrow> bytes res" where
  "g1_add_loop C blob i 0 acc = Inr acc"
| "g1_add_loop C blob i (Suc k) acc =
     (let pt = bslice blob (i * G1_BYTES) (i * G1_BYTES + G1_BYTES) in
      rbind (ec_add1 C acc pt) (\<lambda>acc'. g1_add_loop C blob (i + 1) k acc'))"

definition g1_sum_blob :: "ec_ops \<Rightarrow> bytes \<Rightarrow> bytes res" where
  "g1_sum_blob C blob =
     rbind (assert_g1_blob blob) (\<lambda>n.
     if n = 0 then Inr g1_infinity
     else g1_add_loop C blob 1 (n - 1) (bslice blob 0 G1_BYTES))"

definition g1_accumulate :: "ec_ops \<Rightarrow> bytes \<Rightarrow> bytes \<Rightarrow> bytes res" where
  "g1_accumulate C acc blob =
     check (length acc = G1_BYTES) ''acc length'' (
     rbind (assert_g1_blob blob) (\<lambda>n.
     if n = 0 then Inr acc
     else rbind (g1_is_infinity acc) (\<lambda>inf.
       if inf then g1_add_loop C blob 1 (n - 1) (bslice blob 0 G1_BYTES)
       else g1_add_loop C blob 0 n acc)))"

definition g1_accumulate_negated :: "ec_ops \<Rightarrow> bytes \<Rightarrow> bytes \<Rightarrow> bytes res" where
  "g1_accumulate_negated C acc blob =
     check (length acc = G1_BYTES) ''acc length'' (
     rbind (assert_g1_blob blob) (\<lambda>n.
     if n = 0 then Inr acc
     else rbind (g1_sum_blob C blob) (\<lambda>sum.
       rbind (g1_negate sum) (\<lambda>neg_sum.
       rbind (g1_is_infinity acc) (\<lambda>inf.
       if inf then Inr neg_sum else ec_add1 C acc neg_sum)))))"

definition g1_msm_chunk :: "ec_ops \<Rightarrow> bytes \<Rightarrow> bytes \<Rightarrow> bytes res" where
  "g1_msm_chunk C points scalars =
     check (length points \<le> G1_VALUE_CAP_BYTES) ''points length'' (
     check (length points mod G1_BYTES = 0) ''points length'' (
     let n = length points div G1_BYTES in
     check (length scalars = n * SCALAR_BYTES) ''scalars length'' (ec_msm1 C points scalars)))"

definition g1_msm_accumulate :: "ec_ops \<Rightarrow> bytes \<Rightarrow> bytes \<Rightarrow> bytes \<Rightarrow> bytes res" where
  "g1_msm_accumulate C acc points scalars =
     check (length acc = G1_BYTES) ''acc length'' (
     rbind (g1_msm_chunk C points scalars) (\<lambda>chunk.
     rbind (g1_is_infinity acc) (\<lambda>inf.
     if inf then Inr chunk else ec_add1 C acc chunk)))"

definition chunk_count :: "nat \<Rightarrow> nat \<Rightarrow> nat res" where
  "chunk_count n chunk_size =
     check (0 < chunk_size) ''chunk_size'' (
     rbind (uadd n chunk_size) (\<lambda>a.
     rbind (usub a 1) (\<lambda>b. udiv b chunk_size)))"

section \<open>Hashing to the curve\<close>

definition MAX_DST_BYTES :: nat where "MAX_DST_BYTES = 255"
definition MAX_ELL :: nat where "MAX_ELL = 255"
definition SHA256_BLOCK_BYTES :: nat where "SHA256_BLOCK_BYTES = 64"
definition SHA256_OUTPUT_BYTES :: nat where "SHA256_OUTPUT_BYTES = 32"

text \<open>Bitwise exclusive or of two strings of one length.\<close>

definition bxor :: "bytes \<Rightarrow> bytes \<Rightarrow> bytes" where
  "bxor a b = map2 xor a b"

fun xmd_loop :: "(bytes \<Rightarrow> bytes) \<Rightarrow> bytes \<Rightarrow> bytes \<Rightarrow> nat \<Rightarrow> nat \<Rightarrow> bytes \<Rightarrow> bytes \<Rightarrow> bytes res" where
  "xmd_loop H b0 dst_prime i 0 b_prev uniform = Inr uniform"
| "xmd_loop H b0 dst_prime i (Suc k) b_prev uniform =
     (let b_i = H (bxor b0 b_prev @ low_byte i @ dst_prime) in
      rbind (bconcat uniform b_i) (\<lambda>u. xmd_loop H b0 dst_prime (i + 1) k b_i u))"

definition expand_message_xmd_sha256 :: "(bytes \<Rightarrow> bytes) \<Rightarrow> bytes \<Rightarrow> bytes \<Rightarrow> nat \<Rightarrow> bytes res" where
  "expand_message_xmd_sha256 H msg dst out_len =
     check (length dst \<le> MAX_DST_BYTES) ''dst length'' (
     check (out_len \<le> MAX_ELL * SHA256_OUTPUT_BYTES) ''out_len'' (
     let ell = (out_len + SHA256_OUTPUT_BYTES - 1) div SHA256_OUTPUT_BYTES in
     check (1 \<le> ell) ''ell'' (
     check (ell \<le> MAX_ELL) ''ell'' (
     let dst_prime = dst @ low_byte (length dst);
         msg_prime = replicate SHA256_BLOCK_BYTES 0 @ msg @ low_bytes2 out_len @ [0] @ dst_prime in
     check (length msg_prime \<le> max_bytes) ''value too long'' (
     let b0 = H msg_prime;
         b1 = H (b0 @ low_byte 1 @ dst_prime) in
     rbind (xmd_loop H b0 dst_prime 2 (ell - 1) b1 b1) (\<lambda>uniform.
     Inr (bslice uniform 0 out_len)))))))"

definition hash_to_g2 :: "(bytes \<Rightarrow> bytes) \<Rightarrow> ec_ops \<Rightarrow> bytes \<Rightarrow> bytes \<Rightarrow> bytes res" where
  "hash_to_g2 H C msg dst =
     rbind (expand_message_xmd_sha256 H msg dst 256) (\<lambda>uniform.
     let e = (\<lambda>j. be_val (bslice uniform (j * 64) ((j + 1) * 64)) mod field_modulus) in
     rbind (pad_fp (be_min (e 0))) (\<lambda>e0.
     rbind (pad_fp (be_min (e 1))) (\<lambda>e1.
     rbind (pad_fp (be_min (e 2))) (\<lambda>e2.
     rbind (pad_fp (be_min (e 3))) (\<lambda>e3.
     rbind (ec_map2 C (e0 @ e1)) (\<lambda>q0.
     rbind (ec_map2 C (e2 @ e3)) (\<lambda>q1.
     ec_add2 C q0 q1)))))))"

section \<open>The pairing assembly\<close>

definition pairing_check_2 :: "ec_ops \<Rightarrow> bytes \<Rightarrow> bytes \<Rightarrow> bytes \<Rightarrow> bytes \<Rightarrow> bool res" where
  "pairing_check_2 C a0 b0 a1 b1 =
     check (length a0 = G1_BYTES) ''a0 length'' (
     check (length a1 = G1_BYTES) ''a1 length'' (
     check (length b0 = G2_BYTES) ''b0 length'' (
     check (length b1 = G2_BYTES) ''b1 length'' (ec_pair C (a0 @ a1) (b0 @ b1)))))"

definition verify_aggregate_signature :: "ec_ops \<Rightarrow> bytes \<Rightarrow> bytes \<Rightarrow> bytes \<Rightarrow> bool res" where
  "verify_aggregate_signature C agg_pubkey msg_point signature =
     rbind (g1_is_infinity agg_pubkey) (\<lambda>i1. check (\<not> i1) ''infinity aggregate key'' (
     rbind (g2_is_infinity msg_point) (\<lambda>i2. check (\<not> i2) ''infinity message'' (
     rbind (g2_is_infinity signature) (\<lambda>i3. check (\<not> i3) ''infinity signature'' (
     rbind (ec_in2 C signature) (\<lambda>b. check b ''g2 subgroup'' (
     pairing_check_2 C agg_pubkey msg_point neg_g1_generator signature))))))))"

section \<open>Sums in the group\<close>

definition gadd :: "ec_ops \<Rightarrow> bytes \<Rightarrow> bytes \<Rightarrow> bytes" where
  "gadd C P Q = (case ec_add1 C P Q of Inr R \<Rightarrow> R | Inl _ \<Rightarrow> g1_infinity)"

fun gsum :: "ec_ops \<Rightarrow> bytes list \<Rightarrow> bytes" where
  "gsum C [] = g1_infinity"
| "gsum C (P # Ps) = gadd C P (gsum C Ps)"

lemma gadd_eq: "g1_curve C G \<Longrightarrow> P \<in> G \<Longrightarrow> Q \<in> G \<Longrightarrow> ec_add1 C P Q = Inr (gadd C P Q)"
  unfolding g1_curve_def gadd_def by (metis sum.case(2))

lemma gadd_in: "g1_curve C G \<Longrightarrow> P \<in> G \<Longrightarrow> Q \<in> G \<Longrightarrow> gadd C P Q \<in> G"
  unfolding g1_curve_def gadd_def by (metis sum.case(2))

lemma inf_in: "g1_curve C G \<Longrightarrow> g1_infinity \<in> G"
  by (simp add: g1_curve_def)

lemma neg_in: "g1_curve C G \<Longrightarrow> P \<in> G \<Longrightarrow> neg_point P \<in> G"
  by (simp add: g1_curve_def)

lemma gadd_comm: "g1_curve C G \<Longrightarrow> P \<in> G \<Longrightarrow> Q \<in> G \<Longrightarrow> gadd C P Q = gadd C Q P"
  unfolding g1_curve_def gadd_def by metis

lemma gadd_assoc:
  assumes c: "g1_curve C G" and m: "P \<in> G" "Q \<in> G" "R \<in> G"
  shows "gadd C (gadd C P Q) R = gadd C P (gadd C Q R)"
proof -
  have "rbind (ec_add1 C P Q) (\<lambda>S. ec_add1 C S R) = rbind (ec_add1 C Q R) (ec_add1 C P)"
    using c m by (simp add: g1_curve_def)
  then show ?thesis
    by (simp add: gadd_eq [OF c] m gadd_in [OF c])
qed

lemma gadd_inf: "g1_curve C G \<Longrightarrow> P \<in> G \<Longrightarrow> gadd C P g1_infinity = P"
  by (simp add: g1_curve_def gadd_def)

lemma gadd_inf_left: "g1_curve C G \<Longrightarrow> P \<in> G \<Longrightarrow> gadd C g1_infinity P = P"
  using gadd_comm [of C G g1_infinity P] gadd_inf [of C G P] inf_in [of C G] by simp

lemma gadd_neg: "g1_curve C G \<Longrightarrow> P \<in> G \<Longrightarrow> gadd C P (neg_point P) = g1_infinity"
  by (simp add: g1_curve_def gadd_def)

lemma gsum_in: "g1_curve C G \<Longrightarrow> set Ps \<subseteq> G \<Longrightarrow> gsum C Ps \<in> G"
  by (induction Ps) (auto simp: inf_in gadd_in)

lemma gsum_append:
  assumes c: "g1_curve C G" and "set Ps \<subseteq> G" "set Qs \<subseteq> G"
  shows "gsum C (Ps @ Qs) = gadd C (gsum C Ps) (gsum C Qs)"
  using assms(2)
proof (induction Ps)
  case Nil
  show ?case using gadd_inf_left [OF c gsum_in [OF c assms(3)]] by simp
next
  case (Cons P Ps)
  then show ?case using gadd_assoc [OF c, of P "gsum C Ps" "gsum C Qs"] gsum_in [OF c] assms(3) by simp
qed

lemma gsum_single: "g1_curve C G \<Longrightarrow> P \<in> G \<Longrightarrow> gsum C [P] = P"
  by (simp add: gadd_inf)

text \<open>Splitting a sum by a predicate.\<close>

lemma gsum_partition:
  assumes c: "g1_curve C G" and "set Ps \<subseteq> G"
  shows "gsum C Ps = gadd C (gsum C (filter f Ps)) (gsum C (filter (\<lambda>P. \<not> f P) Ps))"
  using assms(2)
proof (induction Ps)
  case Nil
  show ?case using gadd_inf [OF c inf_in [OF c]] by simp
next
  case (Cons P Ps)
  let ?a = "gsum C (filter f Ps)" and ?b = "gsum C (filter (\<lambda>P. \<not> f P) Ps)"
  have m: "P \<in> G" "?a \<in> G" "?b \<in> G" using Cons.prems gsum_in [OF c, of "filter f Ps"] gsum_in [OF c, of "filter (\<lambda>P. \<not> f P) Ps"] by auto
  have IH: "gsum C Ps = gadd C ?a ?b" using Cons by simp
  show ?case
  proof (cases "f P")
    case True
    then show ?thesis using IH gadd_assoc [OF c m] by simp
  next
    case False
    have "gadd C P (gadd C ?a ?b) = gadd C (gadd C P ?a) ?b" using gadd_assoc [OF c m] by simp
    also have "\<dots> = gadd C (gadd C ?a P) ?b" using gadd_comm [OF c m(1,2)] by simp
    also have "\<dots> = gadd C ?a (gadd C P ?b)" using gadd_assoc [OF c m(2,1,3)] by simp
    finally show ?thesis using IH False by simp
  qed
qed

text \<open>Negation is what the code computes on group members.\<close>

lemma negate_in_group: "g1_curve C G \<Longrightarrow> P \<in> G \<Longrightarrow> g1_negate P = Inr (neg_point P)"
  using g1_negate_finite [of P] g1_negate_infinity unfolding g1_curve_def
  by (cases "P = g1_infinity") (auto simp: neg_point_def)

text \<open>Cancelling: \<open>(A + B) - B = A\<close>.\<close>

lemma gadd_cancel:
  assumes c: "g1_curve C G" and m: "A \<in> G" "B \<in> G"
  shows "gadd C (gadd C A B) (neg_point B) = A"
  using gadd_assoc [OF c m neg_in [OF c m(2)]] gadd_neg [OF c m(2)] gadd_inf [OF c m(1)] by simp

section \<open>The loops compute sums\<close>

definition points :: "bytes \<Rightarrow> nat \<Rightarrow> nat \<Rightarrow> bytes list" where
  "points blob i k = map (\<lambda>j. seg (j * 96) 96 blob) [i..<i + k]"

lemma points_Suc: "points blob i (Suc k) = seg (i * 96) 96 blob # points blob (i + 1) k"
  by (simp add: points_def upt_conv_Cons del: upt_Suc)

lemma g1_add_loop_sum:
  assumes c: "g1_curve C G" and "acc \<in> G" and "set (points blob i k) \<subseteq> G"
  shows "g1_add_loop C blob i k acc = Inr (gadd C acc (gsum C (points blob i k)))"
  using assms(2,3)
proof (induction k arbitrary: i acc)
  case 0
  then show ?case by (simp add: points_def gadd_inf [OF c])
next
  case (Suc k)
  let ?p = "seg (i * 96) 96 blob"
  have m: "?p \<in> G" "set (points blob (i + 1) k) \<subseteq> G" using Suc.prems(2) by (simp_all add: points_Suc)
  have "bslice blob (i * G1_BYTES) (i * G1_BYTES + G1_BYTES) = ?p" by (simp add: bslice_def G1_BYTES_def)
  then have "g1_add_loop C blob i (Suc k) acc = g1_add_loop C blob (i + 1) k (gadd C acc ?p)"
    using gadd_eq [OF c Suc.prems(1) m(1)] by (simp add: Let_def)
  also have "\<dots> = Inr (gadd C (gadd C acc ?p) (gsum C (points blob (i + 1) k)))"
    by (rule Suc.IH [OF gadd_in [OF c Suc.prems(1) m(1)] m(2)])
  also have "gadd C (gadd C acc ?p) (gsum C (points blob (i + 1) k)) = gadd C acc (gsum C (points blob i (Suc k)))"
    using gadd_assoc [OF c Suc.prems(1) m(1) gsum_in [OF c m(2)]] by (simp add: points_Suc)
  finally show ?case .
qed

text \<open>The points of a blob, and the three accumulators on it.\<close>

definition blob_points :: "bytes \<Rightarrow> bytes list" where
  "blob_points blob = points blob 0 (length blob div 96)"

definition blob_ok :: "bytes set \<Rightarrow> bytes \<Rightarrow> bool" where
  "blob_ok G blob \<longleftrightarrow> length blob mod 96 = 0 \<and> length blob \<le> 4032 \<and> set (blob_points blob) \<subseteq> G"

lemma assert_blob: "blob_ok G blob \<Longrightarrow> assert_g1_blob blob = Inr (length blob div 96)"
  by (simp add: assert_g1_blob_def blob_ok_def G1_BYTES_def G1_VALUE_CAP_BYTES_def)

lemma loop_from_first:
  assumes c: "g1_curve C G" and ok: "blob_ok G blob" and n: "0 < length blob div 96"
  shows "g1_add_loop C blob 1 (length blob div 96 - 1) (bslice blob 0 G1_BYTES) = Inr (gsum C (blob_points blob))"
proof -
  obtain k where k: "length blob div 96 = Suc k" using n by (cases "length blob div 96") auto
  have p: "blob_points blob = seg 0 96 blob # points blob 1 k" by (simp add: blob_points_def k points_Suc)
  then have m: "seg 0 96 blob \<in> G" "set (points blob 1 k) \<subseteq> G" using ok by (simp_all add: blob_ok_def)
  have "bslice blob 0 G1_BYTES = seg 0 96 blob" by (simp add: bslice_def G1_BYTES_def)
  then show ?thesis using g1_add_loop_sum [OF c m] by (simp add: k p)
qed

lemma sum_blob_core:
  assumes c: "g1_curve C G" and ok: "blob_ok G blob"
  shows "g1_sum_blob C blob = Inr (gsum C (blob_points blob))"
proof (cases "length blob div 96 = 0")
  case True
  then show ?thesis by (simp add: g1_sum_blob_def assert_blob [OF ok] blob_points_def points_def)
next
  case False
  then show ?thesis using loop_from_first [OF c ok] by (simp add: g1_sum_blob_def assert_blob [OF ok])
qed

lemma group_length: "g1_curve C G \<Longrightarrow> P \<in> G \<Longrightarrow> length P = 96"
  unfolding g1_curve_def finite_point_def by auto

lemma accumulate_core:
  assumes c: "g1_curve C G" and ok: "blob_ok G blob" and acc: "acc \<in> G"
  shows "g1_accumulate C acc blob = Inr (gadd C acc (gsum C (blob_points blob)))"
    and "g1_accumulate_negated C acc blob = Inr (gadd C acc (neg_point (gsum C (blob_points blob))))"
proof -
  have l: "length acc = 96" by (rule group_length [OF c acc])
  have s: "gsum C (blob_points blob) \<in> G" using ok by (intro gsum_in [OF c]) (simp add: blob_ok_def)
  note pts = ok [unfolded blob_ok_def, THEN conjunct2, THEN conjunct2]
  show "g1_accumulate C acc blob = Inr (gadd C acc (gsum C (blob_points blob)))"
  proof (cases "length blob div 96 = 0")
    case True
    then show ?thesis using gadd_inf [OF c acc]
      by (simp add: g1_accumulate_def assert_blob [OF ok] l G1_BYTES_def blob_points_def points_def)
  next
    case False
    note first = loop_from_first [OF c ok]
    show ?thesis
    proof (cases "acc = g1_infinity")
      case True
      then show ?thesis using first False gadd_inf_left [OF c s]
        by (simp add: g1_accumulate_def assert_blob [OF ok] g1_is_infinity_def G1_BYTES_def)
    next
      case no: False
      have "g1_add_loop C blob 0 (length blob div 96) acc = Inr (gadd C acc (gsum C (blob_points blob)))"
        using g1_add_loop_sum [OF c acc pts [unfolded blob_points_def]] by (simp add: blob_points_def)
      then show ?thesis using False no
        by (simp add: g1_accumulate_def assert_blob [OF ok] g1_is_infinity_def l G1_BYTES_def)
    qed
  qed
  show "g1_accumulate_negated C acc blob = Inr (gadd C acc (neg_point (gsum C (blob_points blob))))"
  proof (cases "length blob div 96 = 0")
    case True
    then show ?thesis using gadd_inf [OF c acc]
      by (simp add: g1_accumulate_negated_def assert_blob [OF ok] l G1_BYTES_def blob_points_def points_def neg_point_def)
  next
    case False
    then show ?thesis
      using gadd_inf_left [OF c neg_in [OF c s]] gadd_eq [OF c acc neg_in [OF c s]]
      by (simp add: g1_accumulate_negated_def assert_blob [OF ok] l G1_BYTES_def g1_is_infinity_def
          sum_blob_core [OF c ok] negate_in_group [OF c s])
  qed
qed

text \<open>The number of chunks is the ceiling of the quotient.\<close>

lemma chunk_count_core:
  assumes "0 < s" and "n + s < uint64_limit"
  shows "\<exists>c. chunk_count n s = Inr c \<and> n \<le> c * s \<and> (\<forall>d. n \<le> d * s \<longrightarrow> c \<le> d)"
proof -
  let ?c = "(n + s - 1) div s"
  have "chunk_count n s = Inr ?c"
    using assms by (simp add: chunk_count_def uadd_def usub_def udiv_def)
  moreover have "n \<le> ?c * s"
  proof -
    have "(n + s - 1) = ?c * s + (n + s - 1) mod s" by simp
    moreover have "(n + s - 1) mod s \<le> s - 1" using assms(1) by (metis Suc_pred' less_Suc_eq_le mod_less_divisor)
    ultimately show ?thesis using assms(1) by linarith
  qed
  moreover have "?c \<le> d" if "n \<le> d * s" for d
  proof -
    have "n + s - 1 < (d + 1) * s" using that assms(1) by (simp add: algebra_simps)
    then have "?c < d + 1" using assms(1) by (simp add: less_mult_imp_div_less)
    then show ?thesis by simp
  qed
  ultimately show ?thesis by blast
qed

section \<open>Expansion\<close>

lemma xmd_loop_length:
  assumes H: "\<And>x. length (H x) = 32" and "length u + 32 * k \<le> max_bytes"
  shows "\<exists>v. xmd_loop H b0 d i k bp u = Inr v \<and> length v = length u + 32 * k"
  using assms(2)
proof (induction k arbitrary: i bp u)
  case 0
  then show ?case by simp
next
  case (Suc k)
  let ?b = "H (bxor b0 bp @ low_byte i @ d)"
  have "length (u @ ?b) + 32 * k \<le> max_bytes" using Suc.prems H by simp
  from Suc.IH [OF this, of "i + 1" ?b] show ?case
    using Suc.prems H by (auto simp: Let_def bconcat_def)
qed

text \<open>Conversely, a finished loop never built a value beyond the cap.\<close>

lemma xmd_loop_fits:
  assumes H: "\<And>x. length (H x) = 32" and "xmd_loop H b0 d i k bp u = Inr v" and "length u \<le> max_bytes"
  shows "length u + 32 * k \<le> max_bytes"
  using assms(2,3)
proof (induction k arbitrary: i bp u)
  case 0
  then show ?case by simp
next
  case (Suc k)
  let ?b = "H (bxor b0 bp @ low_byte i @ d)"
  have "xmd_loop H b0 d (i + 1) k ?b (u @ ?b) = Inr v" "length (u @ ?b) \<le> max_bytes"
    using Suc.prems H by (auto simp: Let_def res_simps)
  from Suc.IH [OF this] show ?case using H by simp
qed

lemma expand_ok:
  assumes H: "\<And>x. length (H x) = 32"
    and c: "length dst \<le> 255" "1 \<le> out_len" "out_len \<le> 4096" "length msg + length dst + 68 \<le> max_bytes"
  shows "\<exists>u. expand_message_xmd_sha256 H msg dst out_len = Inr u \<and> length u = out_len"
proof -
  let ?ell = "(31 + out_len) div 32"
  let ?dp = "dst @ low_byte (length dst)"
  let ?b0 = "H (replicate 64 0 @ msg @ low_bytes2 out_len @ [0] @ ?dp)"
  let ?b1 = "H (?b0 @ low_byte 1 @ ?dp)"
  have e: "1 \<le> ?ell" "?ell \<le> 128" "out_len \<le> 32 * ?ell" using c(2,3) by linarith+
  have "length ?b1 + 32 * (?ell - 1) \<le> max_bytes" using e H by (simp add: max_bytes_def)
  from xmd_loop_length [where H = H, OF H this, of ?b0 ?dp 2 ?b1]
  obtain v where v: "xmd_loop H ?b0 ?dp 2 (?ell - 1) ?b1 ?b1 = Inr v" "length v = 32 * ?ell"
    using e H by auto
  then have "expand_message_xmd_sha256 H msg dst out_len = Inr (bslice v 0 out_len)"
    using c e by (simp add: expand_message_xmd_sha256_def MAX_DST_BYTES_def MAX_ELL_def SHA256_BLOCK_BYTES_def
        SHA256_OUTPUT_BYTES_def Let_def)
  then show ?thesis using v(2) e(3) by (simp add: bslice_def)
qed

text \<open>
  A concrete curve on which the hypothesis \<open>g1_curve\<close> holds: the infinity, one point and its negation,
  with an accepting pairing. The witnesses evaluate on it.
\<close>

section \<open>A concrete group\<close>

text \<open>The infinity, one point and its negation, added modulo three.\<close>

definition toy_p :: bytes where "toy_p = replicate 48 0 @ be_bytes 48 1"
definition toy_group :: "bytes set" where "toy_group = {g1_infinity, toy_p, neg_point toy_p}"

definition toy_add :: "bytes \<Rightarrow> bytes \<Rightarrow> bytes res" where
  "toy_add P Q =
     (if P = g1_infinity then Inr Q else if Q = g1_infinity then Inr P
      else if P = Q then Inr (neg_point P) else Inr g1_infinity)"

definition toy_ec :: ec_ops where
  "toy_ec = \<lparr>ec_add1 = toy_add, ec_in1 = \<lambda>P. Inr (P \<in> toy_group), ec_msm1 = \<lambda>_ _. Inl InvalidPoint,
     ec_add2 = \<lambda>P _. Inr P, ec_in2 = \<lambda>_. Inr True, ec_map2 = \<lambda>_. Inr (replicate 192 1), ec_pair = \<lambda>_ _. Inr True\<rparr>"

lemma toy_finite: "finite_point toy_p"
proof -
  have z: "be_val (replicate 48 0 :: bytes) = 0" using be_val_be_bytes [of 0 48] by (simp add: be_bytes_zero)
  have "px toy_p = replicate 48 0" "py toy_p = 1"
    unfolding toy_p_def by (rule px_append, simp, rule py_append, simp_all)
  then show ?thesis using z by (simp add: finite_point_def toy_p_def field_modulus_def)
qed

lemma toy_distinct:
  "toy_p \<noteq> g1_infinity" "neg_point toy_p \<noteq> g1_infinity" "neg_point toy_p \<noteq> toy_p" "neg_point (neg_point toy_p) = toy_p"
proof -
  note n = neg_finite [OF toy_finite]
  have "py toy_p = 1" unfolding toy_p_def by (rule py_append) simp_all
  then have "py (neg_point toy_p) \<noteq> py toy_p" using n by (simp add: field_modulus_def)
  then show "neg_point toy_p \<noteq> toy_p" by auto
  show "toy_p \<noteq> g1_infinity" "neg_point toy_p \<noteq> g1_infinity"
    using finite_not_infinity toy_finite n by blast+
  show "neg_point (neg_point toy_p) = toy_p" by (rule neg_neg [OF toy_finite])
qed

lemma toy_infinity: "neg_point g1_infinity = g1_infinity"
  by (simp add: neg_point_def)

lemma toy_add_table:
  "toy_add g1_infinity P = Inr P" "toy_add P g1_infinity = Inr P"
  "toy_add toy_p toy_p = Inr (neg_point toy_p)" "toy_add toy_p (neg_point toy_p) = Inr g1_infinity"
  "toy_add (neg_point toy_p) toy_p = Inr g1_infinity" "toy_add (neg_point toy_p) (neg_point toy_p) = Inr toy_p"
  using toy_distinct by (auto simp: toy_add_def)

lemma toy_curve: "g1_curve toy_ec toy_group"
proof -
  note d = toy_distinct toy_distinct(1-3) [symmetric] toy_infinity toy_add_table
  have "\<forall>P\<in>toy_group. \<forall>Q\<in>toy_group. P \<noteq> g1_infinity \<longrightarrow> Q \<noteq> g1_infinity \<longrightarrow> px P = px Q \<longrightarrow> Q = P \<or> Q = neg_point P"
    by (simp add: toy_group_def d)
  moreover have "\<forall>P\<in>toy_group. P = g1_infinity \<or> finite_point P"
    using toy_finite neg_finite by (simp add: toy_group_def)
  moreover have "\<forall>P\<in>toy_group. neg_point P \<in> toy_group" "\<forall>P\<in>toy_group. toy_add P g1_infinity = Inr P"
    "\<forall>P\<in>toy_group. toy_add P (neg_point P) = Inr g1_infinity"
    by (simp_all add: toy_group_def d)
  moreover have "\<forall>P\<in>toy_group. \<forall>Q\<in>toy_group. \<exists>R\<in>toy_group. toy_add P Q = Inr R \<and> toy_add Q P = Inr R"
    by (simp add: toy_group_def d)
  moreover have "\<forall>P\<in>toy_group. \<forall>Q\<in>toy_group. \<forall>R\<in>toy_group.
      rbind (toy_add P Q) (\<lambda>S. toy_add S R) = rbind (toy_add Q R) (toy_add P)"
    by (simp add: toy_group_def d)
  moreover have "ec_add1 toy_ec = toy_add" "\<And>P. ec_in1 toy_ec P = Inr (P \<in> toy_group)" by (simp_all add: toy_ec_def)
  moreover have "g1_infinity \<in> toy_group" by (simp add: toy_group_def)
  ultimately show ?thesis unfolding g1_curve_def by simp
qed

lemma toy_members: "toy_p \<in> toy_group" "neg_point toy_p \<in> toy_group" "g1_infinity \<in> toy_group"
  by (simp_all add: toy_group_def)

lemma toy_length: "length toy_p = 96" "length (neg_point toy_p) = 96"
  using toy_finite neg_finite [OF toy_finite] by (simp_all add: finite_point_def)

end
