(* ===== verification/Props_BLS.thy ===== *)
theory Props_BLS
  imports BLS_Aggregate
begin

text \<open>
  Properties of the BLS primitives; their witnesses use the three-element curve of \<open>BLS_Aggregate\<close>.
\<close>

section \<open>Properties\<close>

text \<open>C14: A committed compressed key binds exactly one uncompressed point: \<open>g1_bind\<close> accepts exactly the
  subgroup members other than infinity whose compression is the commitment, and no two points are
  accepted for one commitment, so a relayer cannot choose the point, not even its sign.\<close>
theorem g1_bind_binds:
  assumes "g1_curve C G" and "length U = 96" and "length V = 96"
  shows "(g1_bind C U K = Inr () \<longleftrightarrow> U \<in> G \<and> U \<noteq> g1_infinity \<and> g1_compress U = Inr K) \<and>
    (g1_bind C U K = Inr () \<and> g1_bind C V K = Inr () \<longrightarrow> U = V) \<and>
    (g1_bind C U K = Inr () \<longrightarrow> g1_bind C (neg_point U) K \<noteq> Inr ())"
proof (intro conjI)
  have f: "U \<in> G \<Longrightarrow> U \<noteq> g1_infinity \<Longrightarrow> finite_point U" using assms(1) by (auto simp: g1_curve_def)
  show iff: "g1_bind C U K = Inr () \<longleftrightarrow> U \<in> G \<and> U \<noteq> g1_infinity \<and> g1_compress U = Inr K"
  proof (cases "U \<in> G \<and> U \<noteq> g1_infinity")
    case True
    then have "g1_compress U = Inr (compressed U)" by (intro g1_compress_finite f) simp_all
    then show ?thesis using bind_Inr [OF assms(1,2), of K "()"] True by simp
  next
    case False
    then show ?thesis using bind_Inr [OF assms(1,2), of K "()"] by blast
  qed
  show "g1_bind C U K = Inr () \<and> g1_bind C V K = Inr () \<longrightarrow> U = V"
    using bind_unique [OF assms] by blast
  show "g1_bind C U K = Inr () \<longrightarrow> g1_bind C (neg_point U) K \<noteq> Inr ()"
  proof
    assume b: "g1_bind C U K = Inr ()"
    then have fu: "finite_point U" using iff f by blast
    then have l: "length (neg_point U) = 96" using neg_finite [OF fu] by (simp add: finite_point_def)
    have "neg_point U \<noteq> U" using sign_of_negation [OF fu] by metis
    then show "g1_bind C (neg_point U) K \<noteq> Inr ()" using bind_unique [OF assms(1,2) l b] by auto
  qed
qed

theorem g1_bind_binds_witness:
  "g1_bind toy_ec toy_p (compressed toy_p) = Inr () \<and> g1_bind toy_ec (neg_point toy_p) (compressed toy_p) \<noteq> Inr ()"
proof -
  note b = g1_bind_binds [OF toy_curve toy_length(1) toy_length(2), of "compressed toy_p"]
  have "g1_bind toy_ec toy_p (compressed toy_p) = Inr ()"
    using b [THEN conjunct1] toy_members(1) toy_distinct(1) g1_compress_finite [OF toy_finite] by simp
  then show ?thesis using b [THEN conjunct2, THEN conjunct2] by simp
qed

text \<open>C15: On a well-formed blob the accumulators compute sums in the curve group: adding a blob adds the
  sum of its points, the negated form subtracts it, splitting a blob over two calls gives the same
  accumulator, and accumulating a blob and then its negation gives back the accumulator.\<close>
theorem accumulators_are_sums:
  assumes "g1_curve C G" and "blob_ok G a" and "blob_ok G b" and "acc \<in> G"
  shows "g1_sum_blob C a = Inr (gsum C (blob_points a)) \<and>
    g1_accumulate C acc a = Inr (gadd C acc (gsum C (blob_points a))) \<and>
    g1_accumulate_negated C acc a = Inr (gadd C acc (neg_point (gsum C (blob_points a)))) \<and>
    rbind (g1_accumulate C acc a) (\<lambda>x. g1_accumulate C x b) = Inr (gadd C acc (gsum C (blob_points a @ blob_points b))) \<and>
    rbind (g1_accumulate C acc a) (\<lambda>x. g1_accumulate_negated C x a) = Inr acc"
proof -
  have in_a: "gsum C (blob_points a) \<in> G" and in_b: "gsum C (blob_points b) \<in> G"
    using assms(2,3) by (auto intro!: gsum_in [OF assms(1)] simp: blob_ok_def)
  have s: "gsum C (blob_points a @ blob_points b) = gadd C (gsum C (blob_points a)) (gsum C (blob_points b))"
    using assms(2,3) by (intro gsum_append [OF assms(1)]) (simp_all add: blob_ok_def)
  have m: "gadd C acc (gsum C (blob_points a)) \<in> G" by (rule gadd_in [OF assms(1,4) in_a])
  show ?thesis
    using accumulate_core [OF assms(1,2,4)] accumulate_core [OF assms(1,2) m] accumulate_core(1) [OF assms(1,3) m]
      sum_blob_core [OF assms(1,2)] gadd_assoc [OF assms(1,4) in_a in_b] gadd_cancel [OF assms(1,4) in_a]
    by (simp add: s)
qed

theorem accumulators_are_sums_witness:
  "g1_accumulate toy_ec toy_p toy_p = Inr (neg_point toy_p)"
proof -
  have b: "blob_points toy_p = [toy_p]" using toy_length by (simp add: blob_points_def points_def)
  then have ok: "blob_ok toy_group toy_p" using toy_length toy_members by (simp add: blob_ok_def)
  have "gadd toy_ec toy_p toy_p = neg_point toy_p" "gadd toy_ec toy_p g1_infinity = toy_p"
    by (simp_all add: gadd_def toy_ec_def toy_add_table)
  then show ?thesis
    using accumulators_are_sums [OF toy_curve ok ok toy_members(1)] by (simp add: b)
qed

text \<open>The chunk rule of contract and relayer: for a positive chunk size and no overflow it returns the
  least number of chunks that holds all items; a chunk size of zero is an assertion failure and an
  overflowing sum a panic, never a wrapped count.\<close>
theorem chunk_count_ceiling:
  assumes "n < uint64_limit" and "s < uint64_limit"
  shows "(0 < s \<and> n + s < uint64_limit \<longrightarrow>
      (\<exists>c. chunk_count n s = Inr c \<and> n \<le> c * s \<and> (\<forall>d. n \<le> d * s \<longrightarrow> c \<le> d))) \<and>
    (s = 0 \<longrightarrow> chunk_count n s = Inl (AssertFail ''chunk_size'')) \<and>
    (0 < s \<and> uint64_limit \<le> n + s \<longrightarrow> chunk_count n s = Inl Overflow)"
  using chunk_count_core [of s n] by (simp add: chunk_count_def uadd_def)

theorem chunk_count_ceiling_witness: "\<exists>c. chunk_count 512 42 = Inr c \<and> 512 \<le> c * 42 \<and> (\<forall>d. 512 \<le> d * 42 \<longrightarrow> c \<le> d)"
  using chunk_count_ceiling [of 512 42] by (simp add: uint64_limit_def)

text \<open>C16: Message expansion always ends, with exactly the requested number of bytes or a rejection. It
  succeeds exactly for a tag of at most 255 bytes, a length from 1 to 4096 and a message that fits the
  value cap: the code's own bound of 8160 bytes is wider than what a value can hold.\<close>
theorem expand_message_total:
  assumes H: "\<forall>x. length (H x) = 32" and "length msg \<le> max_bytes"
  shows "(length dst \<le> 255 \<and> 1 \<le> out_len \<and> out_len \<le> 4096 \<and> length msg + length dst + 68 \<le> max_bytes \<longrightarrow>
      (\<exists>u. expand_message_xmd_sha256 H msg dst out_len = Inr u \<and> length u = out_len)) \<and>
    (out_len = 0 \<or> 4096 < out_len \<or> 255 < length dst \<or> max_bytes < length msg + length dst + 68 \<longrightarrow>
      (\<exists>e. expand_message_xmd_sha256 H msg dst out_len = Inl e))"
proof -
  have H': "\<And>x. length (H x) = 32" using H by blast
  let ?ell = "(31 + out_len) div 32"
  let ?dp = "dst @ low_byte (length dst)"
  let ?mp = "replicate 64 0 @ msg @ low_bytes2 out_len @ [0] @ ?dp"
  let ?b0 = "H ?mp"
  let ?b1 = "H (?b0 @ low_byte 1 @ ?dp)"
  have lm: "length ?mp = length msg + length dst + 68" by simp
  note unf = expand_message_xmd_sha256_def MAX_DST_BYTES_def MAX_ELL_def SHA256_BLOCK_BYTES_def
    SHA256_OUTPUT_BYTES_def Let_def
  have good: "\<exists>u. expand_message_xmd_sha256 H msg dst out_len = Inr u \<and> length u = out_len"
    if "length dst \<le> 255" "1 \<le> out_len" "out_len \<le> 4096" "length msg + length dst + 68 \<le> max_bytes"
    using expand_ok [where H = H, OF H'] that by blast
  have bad: "\<exists>e. expand_message_xmd_sha256 H msg dst out_len = Inl e"
    if c: "out_len = 0 \<or> 4096 < out_len \<or> 255 < length dst \<or> max_bytes < length msg + length dst + 68"
  proof (rule ccontr)
    assume n: "\<nexists>e. expand_message_xmd_sha256 H msg dst out_len = Inl e"
    then obtain u where u: "expand_message_xmd_sha256 H msg dst out_len = Inr u"
      by (cases "expand_message_xmd_sha256 H msg dst out_len") auto
    then have s: "length dst \<le> 255" "1 \<le> ?ell" "length ?mp \<le> max_bytes"
      and l: "\<exists>v. xmd_loop H ?b0 ?dp 2 (?ell - 1) ?b1 ?b1 = Inr v"
      by (auto simp: unf res_simps)
    have "32 + 32 * (?ell - 1) \<le> max_bytes"
      using l xmd_loop_fits [where H = H, OF H', of ?b0 ?dp 2 "?ell - 1" ?b1 ?b1] H' by (auto simp: max_bytes_def)
    then have "out_len \<le> 4096" using s(2) by (simp add: max_bytes_def)
    then show False using c s lm by auto
  qed
  from good bad show ?thesis by blast
qed

theorem expand_message_total_witness:
  "\<exists>u. expand_message_xmd_sha256 (\<lambda>_. replicate 32 1) [1] [2] 256 = Inr u \<and> length u = 256"
  using expand_message_total [of "\<lambda>_. replicate 32 1" "[1]" "[2]" 256] by (simp add: max_bytes_def)

end
