(* ===== verification/SC_Install.thy ===== *)
theory SC_Install
  imports SC_Header AVM BLS_Aggregate
begin

text \<open>
  Committee installation, \<open>contracts/sync_committee/install.py\<close>: box names, box lifecycle, and the two
  steps that carry the trust boundary. A session's abstract content is the list of member pairs
  (compressed, uncompressed) it has bound so far; \<open>session_inv\<close> ties the boxes to that list.
\<close>

section \<open>Layout\<close>

definition KEYS_PER_BOX :: nat where "KEYS_PER_BOX = 64"
definition BOXES_PER_COMMITTEE :: nat where "BOXES_PER_COMMITTEE = SYNC_COMMITTEE_SIZE div KEYS_PER_BOX"
definition COMMITTEE_MERKLE_DEPTH :: nat where "COMMITTEE_MERKLE_DEPTH = 9"
definition SESSION_STACK_BYTES :: nat where "SESSION_STACK_BYTES = (COMMITTEE_MERKLE_DEPTH + 1) * 32"
definition SESSION_FILLED_BYTES :: nat where "SESSION_FILLED_BYTES = 8"
definition SESSION_BOX_BYTES :: nat where
  "SESSION_BOX_BYTES = SESSION_STACK_BYTES + SESSION_FILLED_BYTES + G1_BYTES"

definition key_box_name :: "nat \<Rightarrow> nat \<Rightarrow> bytes" where
  "key_box_name gen box_index = [0x6b, 0x3a] @ itob gen @ low_byte box_index"

definition total_box_name :: "nat \<Rightarrow> bytes" where
  "total_box_name gen = [0x61, 0x3a] @ itob gen"

definition session_box_name :: "nat \<Rightarrow> bytes" where
  "session_box_name gen = [0x73, 0x3a] @ itob gen"

section \<open>Box lifecycle\<close>

fun open_key_loop :: "nat \<Rightarrow> nat \<Rightarrow> nat \<Rightarrow> boxes \<Rightarrow> boxes res" where
  "open_key_loop gen j 0 bs = Inr bs"
| "open_key_loop gen j (Suc k) bs =
     rbind (box_create bs (key_box_name gen j) (KEYS_PER_BOX * G1_BYTES)) (\<lambda>(bs', _).
     open_key_loop gen (j + 1) k bs')"

definition install_open_key_boxes :: "nat \<Rightarrow> boxes \<Rightarrow> boxes res" where
  "install_open_key_boxes gen bs = open_key_loop gen 0 BOXES_PER_COMMITTEE bs"

definition install_open_session_box :: "nat \<Rightarrow> boxes \<Rightarrow> boxes res" where
  "install_open_session_box gen bs =
     rbind (box_create bs (session_box_name gen) SESSION_BOX_BYTES) (\<lambda>(bs', _). Inr bs')"

fun delete_key_loop :: "nat \<Rightarrow> nat \<Rightarrow> nat \<Rightarrow> boxes \<Rightarrow> boxes" where
  "delete_key_loop gen j 0 bs = bs"
| "delete_key_loop gen j (Suc k) bs =
     delete_key_loop gen (j + 1) k (fst (box_delete bs (key_box_name gen j)))"

definition install_abort_key_boxes :: "nat \<Rightarrow> boxes \<Rightarrow> boxes" where
  "install_abort_key_boxes gen bs = delete_key_loop gen 0 BOXES_PER_COMMITTEE bs"

definition install_abort_boxes :: "nat \<Rightarrow> boxes \<Rightarrow> boxes" where
  "install_abort_boxes gen bs =
     fst (box_delete (delete_key_loop gen 0 BOXES_PER_COMMITTEE bs) (session_box_name gen))"

definition install_delete_committee_boxes :: "nat \<Rightarrow> boxes \<Rightarrow> boxes" where
  "install_delete_committee_boxes gen bs =
     fst (box_delete (delete_key_loop gen 0 BOXES_PER_COMMITTEE bs) (total_box_name gen))"

section \<open>Processing members\<close>

text \<open>\<open>hash_tree_root(BLSPubkey)\<close>: one hash of the key padded to two chunks.\<close>

definition key_leaf :: "(bytes \<Rightarrow> bytes) \<Rightarrow> bytes \<Rightarrow> bytes" where
  "key_leaf H ckey = H (ckey @ replicate 16 0)"

fun chunk_loop ::
  "(bytes \<Rightarrow> bytes) \<Rightarrow> ec_ops \<Rightarrow> nat \<Rightarrow> nat \<Rightarrow> bytes \<Rightarrow> bytes \<Rightarrow> nat \<Rightarrow> nat \<Rightarrow>
   boxes \<Rightarrow> bytes \<Rightarrow> nat \<Rightarrow> bytes \<Rightarrow> (boxes \<times> bytes \<times> nat \<times> bytes) res" where
  "chunk_loop H C gen cursor cb ub m 0 bs stack filled running_sum = Inr (bs, stack, filled, running_sum)"
| "chunk_loop H C gen cursor cb ub m (Suc k) bs stack filled running_sum =
     (let ckey = bslice cb (m * G1_COMPRESSED_BYTES) (m * G1_COMPRESSED_BYTES + G1_COMPRESSED_BYTES);
          ukey = bslice ub (m * G1_BYTES) (m * G1_BYTES + G1_BYTES) in
      rbind (uadd cursor m) (\<lambda>i.
      rbind (g1_bind C ukey ckey) (\<lambda>_.
      rbind (box_replace bs (key_box_name gen (i div KEYS_PER_BOX)) (i mod KEYS_PER_BOX * G1_BYTES) ukey) (\<lambda>bs'.
      rbind (merkleize_stack_push H stack filled (key_leaf H ckey)) (\<lambda>(stack', filled').
      rbind (ec_add1 C running_sum ukey) (\<lambda>sum'.
      chunk_loop H C gen cursor cb ub (m + 1) k bs' stack' filled' sum'))))))"

definition read_session :: "boxes \<Rightarrow> nat \<Rightarrow> (bytes \<times> nat \<times> bytes) res" where
  "read_session bs gen =
     rbind (box_extract bs (session_box_name gen) 0 SESSION_BOX_BYTES) (\<lambda>session.
     rbind (btoi (bslice session SESSION_STACK_BYTES (SESSION_STACK_BYTES + SESSION_FILLED_BYTES))) (\<lambda>filled.
     Inr (bslice session 0 SESSION_STACK_BYTES, filled,
          bslice session (SESSION_STACK_BYTES + SESSION_FILLED_BYTES) SESSION_BOX_BYTES)))"

definition install_process_chunk ::
  "(bytes \<Rightarrow> bytes) \<Rightarrow> ec_ops \<Rightarrow> nat \<Rightarrow> nat \<Rightarrow> bytes \<Rightarrow> bytes \<Rightarrow> boxes \<Rightarrow> (boxes \<times> nat) res" where
  "install_process_chunk H C gen cursor compressed_blob uncompressed_blob bs =
     check (length compressed_blob mod G1_COMPRESSED_BYTES = 0) ''compressed blob not a multiple of 48'' (
     let k = length compressed_blob div G1_COMPRESSED_BYTES in
     check (length uncompressed_blob = k * G1_BYTES) ''uncompressed blob length mismatch'' (
     rbind (uadd cursor k) (\<lambda>next_cursor.
     check (next_cursor \<le> SYNC_COMMITTEE_SIZE) ''chunk would overflow the committee'' (
     rbind (read_session bs gen) (\<lambda>(stack, filled, running_sum).
     rbind (chunk_loop H C gen cursor compressed_blob uncompressed_blob 0 k bs stack filled running_sum)
       (\<lambda>(bs', stack', filled', sum').
     rbind (bconcat (stack' @ itob filled') sum') (\<lambda>new_session.
     rbind (box_replace bs' (session_box_name gen) 0 new_session) (\<lambda>bs''.
     Inr (bs'', next_cursor)))))))))"

definition install_process_finalize ::
  "(bytes \<Rightarrow> bytes) \<Rightarrow> ec_ops \<Rightarrow> nat \<Rightarrow> nat \<Rightarrow> bytes \<Rightarrow> bytes \<Rightarrow> bytes \<Rightarrow> boxes \<Rightarrow> (boxes \<times> bytes) res" where
  "install_process_finalize H C gen cursor inst_root aggregate_compressed aggregate_uncompressed bs =
     check (cursor = SYNC_COMMITTEE_SIZE) ''install session incomplete'' (
     check (length inst_root = 32) ''inst_root length'' (
     check (length aggregate_compressed = G1_COMPRESSED_BYTES) ''aggregate length'' (
     check (length aggregate_uncompressed = G1_BYTES) ''aggregate length'' (
     rbind (read_session bs gen) (\<lambda>(stack, filled, running_sum).
     rbind (merkleize_stack_finalize H stack filled COMMITTEE_MERKLE_DEPTH) (\<lambda>vector_root.
     let agg_leaf = key_leaf H aggregate_compressed in
     check (H (vector_root @ agg_leaf) = inst_root) ''committee does not fold to the trusted root'' (
     rbind (g1_bind C aggregate_uncompressed aggregate_compressed) (\<lambda>_.
     check (aggregate_uncompressed = running_sum) ''aggregate_pubkey != sum of installed keys'' (
     Inr (fst (box_delete bs (session_box_name gen)), running_sum))))))))))"

section \<open>Names are distinct\<close>

lemma itob_gen_inj: "g < uint64_limit \<Longrightarrow> h < uint64_limit \<Longrightarrow> itob g = itob h \<longleftrightarrow> g = h"
  by (rule itob_inj)

lemma key_box_name_eq:
  assumes "g < uint64_limit" "h < uint64_limit" "i < 256" "j < 256"
  shows "key_box_name g i = key_box_name h j \<longleftrightarrow> g = h \<and> i = j"
proof -
  have "key_box_name g i = key_box_name h j \<longleftrightarrow> itob g = itob h \<and> low_byte i = low_byte j"
    by (auto simp: key_box_name_def)
  moreover have "low_byte i = low_byte j \<longleftrightarrow> i = j"
  proof
    assume "low_byte i = low_byte j"
    then have "unat (of_nat i :: byte) = unat (of_nat j :: byte)" using assms(3,4) by (simp add: low_byte_eq)
    then show "i = j" by (simp only: unat_of_nat_byte [OF assms(3)] unat_of_nat_byte [OF assms(4)])
  qed simp
  ultimately show ?thesis using itob_gen_inj [OF assms(1,2)] by simp
qed

lemma total_box_name_eq: "g < uint64_limit \<Longrightarrow> h < uint64_limit \<Longrightarrow> total_box_name g = total_box_name h \<longleftrightarrow> g = h"
  by (simp add: total_box_name_def itob_gen_inj)

lemma session_box_name_eq:
  "g < uint64_limit \<Longrightarrow> h < uint64_limit \<Longrightarrow> session_box_name g = session_box_name h \<longleftrightarrow> g = h"
  by (simp add: session_box_name_def itob_gen_inj)

lemma box_kinds_differ [simp]:
  "key_box_name g j \<noteq> total_box_name h" "key_box_name g j \<noteq> session_box_name h" "total_box_name g \<noteq> session_box_name h"
  "total_box_name h \<noteq> key_box_name g j" "session_box_name h \<noteq> key_box_name g j" "session_box_name h \<noteq> total_box_name g"
  by (simp_all add: key_box_name_def total_box_name_def session_box_name_def)

lemma box_layout: "KEYS_PER_BOX * G1_BYTES = 6144" "BOXES_PER_COMMITTEE = 8" "SESSION_STACK_BYTES = 320"
  "SESSION_BOX_BYTES = 424" "SYNC_COMMITTEE_SIZE = 512" "G1_BYTES = 96" "KEYS_PER_BOX = 64"
  "SESSION_FILLED_BYTES = 8" "COMMITTEE_MERKLE_DEPTH = 9" "G1_COMPRESSED_BYTES = 48"
  by (simp_all add: KEYS_PER_BOX_def G1_BYTES_def BOXES_PER_COMMITTEE_def SYNC_COMMITTEE_SIZE_def
      SESSION_STACK_BYTES_def SESSION_BOX_BYTES_def COMMITTEE_MERKLE_DEPTH_def SESSION_FILLED_BYTES_def
      G1_COMPRESSED_BYTES_def)

section \<open>Opening and deleting\<close>

lemma open_key_loop_spec:
  assumes "open_key_loop gen j k bs = Inr bs'" and "gen < uint64_limit" and "j + k \<le> 256"
  shows "(\<forall>name. (\<forall>i. j \<le> i \<and> i < j + k \<longrightarrow> name \<noteq> key_box_name gen i) \<longrightarrow> bs' name = bs name) \<and>
    (\<forall>i. j \<le> i \<and> i < j + k \<longrightarrow> bs' (key_box_name gen i) =
      (if bs (key_box_name gen i) = None then Some (replicate 6144 0) else bs (key_box_name gen i)) \<and>
      (\<exists>b. bs' (key_box_name gen i) = Some b \<and> length b = 6144))"
  using assms
proof (induction k arbitrary: j bs)
  case 0
  then show ?case by auto
next
  case (Suc k)
  from Suc.prems(1) obtain bs1 c where c: "box_create bs (key_box_name gen j) 6144 = Inr (bs1, c)"
    and l: "open_key_loop gen (j + 1) k bs1 = Inr bs'"
    by (auto simp: res_simps box_layout)
  have j: "bs1 = bs(key_box_name gen j := bs1 (key_box_name gen j))"
    "bs1 (key_box_name gen j) = (if bs (key_box_name gen j) = None then Some (replicate 6144 0) else bs (key_box_name gen j))"
    "\<exists>b. bs1 (key_box_name gen j) = Some b \<and> length b = 6144"
    using c by (auto simp: box_create_def split: option.splits if_splits)
  have ne: "key_box_name gen i \<noteq> key_box_name gen j" if "j + 1 \<le> i" "i < j + 1 + k" for i
    using key_box_name_eq [of gen gen i j] that Suc.prems by simp
  have IH: "(\<forall>name. (\<forall>i. j + 1 \<le> i \<and> i < j + 1 + k \<longrightarrow> name \<noteq> key_box_name gen i) \<longrightarrow> bs' name = bs1 name)"
    "\<And>i. j + 1 \<le> i \<Longrightarrow> i < j + 1 + k \<Longrightarrow> bs' (key_box_name gen i) =
      (if bs1 (key_box_name gen i) = None then Some (replicate 6144 0) else bs1 (key_box_name gen i)) \<and>
      (\<exists>b. bs' (key_box_name gen i) = Some b \<and> length b = 6144)"
    using Suc.IH [OF l Suc.prems(2)] Suc.prems(3) by auto
  have same: "bs1 name = bs name" if "name \<noteq> key_box_name gen j" for name
    using that by (subst j(1)) simp
  have first: "bs' (key_box_name gen j) = bs1 (key_box_name gen j)" using IH(1) ne by metis
  show ?case
  proof (intro conjI allI impI)
    fix name assume n: "\<forall>i. j \<le> i \<and> i < j + Suc k \<longrightarrow> name \<noteq> key_box_name gen i"
    then have "bs' name = bs1 name" using IH(1) by simp
    then show "bs' name = bs name" using same n by simp
  next
    fix i assume i: "j \<le> i \<and> i < j + Suc k"
    show "bs' (key_box_name gen i) =
        (if bs (key_box_name gen i) = None then Some (replicate 6144 0) else bs (key_box_name gen i))"
      using first j(2) IH(2) [of i] same [OF ne, of i] i by (cases "i = j") auto
    show "\<exists>b. bs' (key_box_name gen i) = Some b \<and> length b = 6144"
      using first j(3) IH(2) [of i] i by (cases "i = j") auto
  qed
qed

lemma delete_key_loop_spec:
  "delete_key_loop gen j k bs name = (if \<exists>i. j \<le> i \<and> i < j + k \<and> name = key_box_name gen i then None else bs name)"
proof (induction k arbitrary: j bs)
  case 0
  have "\<not> (\<exists>i. j \<le> i \<and> i < j + 0 \<and> name = key_box_name gen i)" by auto
  then show ?case by (simp only: delete_key_loop.simps if_False)
next
  case (Suc k)
  have "(\<exists>i. j \<le> i \<and> i < j + Suc k \<and> name = key_box_name gen i) \<longleftrightarrow>
      name = key_box_name gen j \<or> (\<exists>i. j + 1 \<le> i \<and> i < j + 1 + k \<and> name = key_box_name gen i)"
  proof -
    have "j \<le> i \<and> i < j + Suc k \<longleftrightarrow> i = j \<or> j + 1 \<le> i \<and> i < j + 1 + k" for i by auto
    then show ?thesis by (simp only: conj_assoc [symmetric]) blast
  qed
  then show ?case
    by (simp only: delete_key_loop.simps Suc.IH box_delete_def fst_conv fun_upd_apply) argo
qed

end
