(* ===== verification/SC_Session.thy ===== *)
theory SC_Session
  imports SC_Install
begin

text \<open>
  What an installation session holds and what finalization establishes: the session invariant over the
  list of bound members, its preservation by every chunk, and the binding of the finished list to the
  committed committee root.
\<close>

section \<open>The invariant\<close>

text \<open>The key boxes of a generation hold the given points, in index order.\<close>

definition keys_stored :: "boxes \<Rightarrow> nat \<Rightarrow> bytes list \<Rightarrow> bool" where
  "keys_stored bs gen us \<longleftrightarrow>
     (\<forall>j<8. \<exists>b. bs (key_box_name gen j) = Some b \<and> length b = 6144) \<and>
     (\<forall>i<length us. seg (i mod 64 * 96) 96 (the (bs (key_box_name gen (i div 64)))) = us ! i)"

text \<open>A member: a committed key and the one point it binds.\<close>

definition member_ok :: "bytes set \<Rightarrow> bytes \<times> bytes \<Rightarrow> bool" where
  "member_ok G = (\<lambda>(c, u). length c = 48 \<and> u \<in> G \<and> u \<noteq> g1_infinity \<and> compressed u = c)"

definition leaves :: "(bytes \<Rightarrow> bytes) \<Rightarrow> (bytes \<times> bytes) list \<Rightarrow> bytes list" where
  "leaves H ms = map (key_leaf H \<circ> fst) ms"

definition session_inv ::
  "(bytes \<Rightarrow> bytes) \<Rightarrow> ec_ops \<Rightarrow> bytes set \<Rightarrow> boxes \<Rightarrow> nat \<Rightarrow> (bytes \<times> bytes) list \<Rightarrow> bool" where
  "session_inv H C G bs gen ms \<longleftrightarrow>
     length ms \<le> 512 \<and> (\<forall>p\<in>set ms. member_ok G p) \<and> keys_stored bs gen (map snd ms) \<and>
     (\<exists>stack. bs (session_box_name gen) = Some (stack @ itob (length ms) @ gsum C (map snd ms)) \<and>
        stack_inv H 9 (leaves H ms) stack (length ms))"

lemma length_compressed: "length (compressed u) = 48 \<longleftrightarrow> 48 \<le> length u"
  by (auto simp: compressed_def px_def)

lemma member_bind:
  assumes "g1_curve C G" and "length u = 96"
  shows "g1_bind C u c = Inr () \<longleftrightarrow> member_ok G (c, u)"
  using bind_Inr [OF assms, of c "()"] assms(2) by (auto simp: member_ok_def length_compressed)

lemma member_length: "g1_curve C G \<Longrightarrow> member_ok G (c, u) \<Longrightarrow> length u = 96 \<and> length c = 48 \<and> u \<in> G"
  using group_length by (auto simp: member_ok_def)

lemma keys_stored_len: "keys_stored bs gen us \<Longrightarrow> j < 8 \<Longrightarrow> \<exists>b. bs (key_box_name gen j) = Some b \<and> length b = 6144"
  by (simp add: keys_stored_def)

lemma stored_nth:
  "keys_stored bs gen us \<Longrightarrow> i < length us \<Longrightarrow> bs (key_box_name gen (i div 64)) = Some b \<Longrightarrow>
   seg (i mod 64 * 96) 96 b = us ! i"
  unfolding keys_stored_def by (metis option.sel)

text \<open>Reading one stored key.\<close>

lemma stored_extract:
  assumes "keys_stored bs gen us" and "i < length us" and "length us \<le> 512"
  shows "box_extract bs (key_box_name gen (i div 64)) (i mod 64 * 96) 96 = Inr (us ! i)"
proof -
  have "i div 64 < 8" using assms by auto
  then obtain b where b: "bs (key_box_name gen (i div 64)) = Some b" "length b = 6144"
    using keys_stored_len [OF assms(1)] by blast
  have "i mod 64 * 96 + 96 \<le> 6144" using mod_less_divisor [of 64 i] by linarith
  then show ?thesis using stored_nth [OF assms(1,2) b(1)] b by (simp add: box_extract_def bextract_def max_bytes_def)
qed

text \<open>Writing the next key keeps the earlier ones.\<close>

lemma stored_replace:
  assumes st: "keys_stored bs gen us" and n: "length us < 512" and g: "gen < uint64_limit" and u: "length u = 96"
  shows "\<exists>bs'. box_replace bs (key_box_name gen (length us div 64)) (length us mod 64 * 96) u = Inr bs' \<and>
    keys_stored bs' gen (us @ [u]) \<and> (\<forall>name. name \<noteq> key_box_name gen (length us div 64) \<longrightarrow> bs' name = bs name)"
proof -
  let ?n = "length us" let ?k = "key_box_name gen (?n div 64)"
  have d: "?n div 64 < 8" using n by auto
  then obtain b where b: "bs ?k = Some b" "length b = 6144" using keys_stored_len [OF st] by blast
  have fit: "?n mod 64 * 96 + 96 \<le> 6144" using mod_less_divisor [of 64 ?n] by linarith
  let ?b = "overwrite (?n mod 64 * 96) u b"
  let ?bs = "bs(?k \<mapsto> ?b)"
  have r: "box_replace bs ?k (?n mod 64 * 96) u = Inr ?bs"
    using b fit u by (simp add: box_replace_def breplace_def)
  have len: "length ?b = 6144" using b fit u by simp
  have "\<exists>x. ?bs (key_box_name gen j) = Some x \<and> length x = 6144" if "j < 8" for j
    using keys_stored_len [OF st that] len by (cases "key_box_name gen j = ?k") auto
  moreover have "seg (i mod 64 * 96) 96 (the (?bs (key_box_name gen (i div 64)))) = (us @ [u]) ! i"
    if "i < length (us @ [u])" for i
  proof (cases "i = ?n")
    case True
    then show ?thesis using b fit u by (simp add: seg_overwrite_same)
  next
    case False
    then have i: "i < ?n" using that by simp
    then have i8: "i div 64 < 256" "?n div 64 < 256" using n by auto
    show ?thesis
    proof (cases "i div 64 = ?n div 64")
      case True
      have "i = 64 * (i div 64) + i mod 64" "?n = 64 * (?n div 64) + ?n mod 64" by simp_all
      then have "i mod 64 < ?n mod 64" using i True by linarith
      then have "i mod 64 * 96 + 96 \<le> ?n mod 64 * 96" by linarith
      then have "seg (i mod 64 * 96) 96 ?b = seg (i mod 64 * 96) 96 b"
        using b fit u by (intro seg_overwrite_before) simp_all
      then show ?thesis using stored_nth [OF st i, of b] True b(1) i by (simp add: nth_append)
    next
      case ne: False
      then have "key_box_name gen (i div 64) \<noteq> ?k" using key_box_name_eq [OF g g i8] by simp
      then show ?thesis using st i by (simp add: keys_stored_def nth_append)
    qed
  qed
  ultimately have "keys_stored ?bs gen (us @ [u])" by (simp add: keys_stored_def)
  with r show ?thesis by auto
qed

section \<open>One chunk\<close>

text \<open>The members a chunk carries, from its two blobs.\<close>

definition chunk_member :: "bytes \<Rightarrow> bytes \<Rightarrow> nat \<Rightarrow> bytes \<times> bytes" where
  "chunk_member cb ub m = (seg (m * 48) 48 cb, seg (m * 96) 96 ub)"

definition chunk_members :: "bytes \<Rightarrow> bytes \<Rightarrow> nat \<Rightarrow> nat \<Rightarrow> (bytes \<times> bytes) list" where
  "chunk_members cb ub m k = map (chunk_member cb ub) [m..<m + k]"

lemma chunk_members_Suc: "chunk_members cb ub m (Suc k) = chunk_member cb ub m # chunk_members cb ub (m + 1) k"
  by (simp add: chunk_members_def upt_conv_Cons del: upt_Suc)

lemma length_chunk_members [simp]: "length (chunk_members cb ub m k) = k"
  by (simp add: chunk_members_def)

lemma chunk_slices:
  "bslice cb (m * G1_COMPRESSED_BYTES) (m * G1_COMPRESSED_BYTES + G1_COMPRESSED_BYTES) = fst (chunk_member cb ub m)"
  "bslice ub (m * G1_BYTES) (m * G1_BYTES + G1_BYTES) = snd (chunk_member cb ub m)"
  by (simp_all add: chunk_member_def bslice_def G1_COMPRESSED_BYTES_def G1_BYTES_def)

text \<open>A loop that succeeds has bound every member.\<close>

lemma chunk_loop_bound:
  assumes "chunk_loop H C gen cursor cb ub m k bs stack filled s = Inr r" and "p \<in> set (chunk_members cb ub m k)"
  shows "g1_bind C (snd p) (fst p) = Inr ()"
  using assms
proof (induction k arbitrary: m bs stack filled s)
  case 0
  then show ?case by (simp add: chunk_members_def)
next
  case (Suc k)
  from Suc.prems(1) have b: "g1_bind C (snd (chunk_member cb ub m)) (fst (chunk_member cb ub m)) = Inr ()"
    and l: "\<exists>bs' stack' filled' s'. chunk_loop H C gen cursor cb ub (m + 1) k bs' stack' filled' s' = Inr r"
    by (auto simp: Let_def res_simps chunk_slices(1) [of cb m ub] chunk_slices(2) [of ub m cb])
  then show ?case using Suc.IH Suc.prems(2) by (auto simp: chunk_members_Suc)
qed

text \<open>And with members that bind, the loop succeeds and extends the session.\<close>

lemma chunk_loop_runs:
  assumes c: "g1_curve C G" and H: "\<And>x. length (H x) = 32" and g: "gen < uint64_limit"
    and "\<forall>p\<in>set (chunk_members cb ub m k). member_ok G p"
    and "keys_stored bs gen (map snd ms)" and "stack_inv H 9 (leaves H ms) stack (length ms)"
    and "\<forall>p\<in>set ms. member_ok G p" and "length ms = cursor + m" and "cursor + m + k \<le> 512"
  shows "\<exists>bs' stack'. chunk_loop H C gen cursor cb ub m k bs stack (length ms) (gsum C (map snd ms)) =
      Inr (bs', stack', length ms + k, gsum C (map snd (ms @ chunk_members cb ub m k))) \<and>
    keys_stored bs' gen (map snd (ms @ chunk_members cb ub m k)) \<and>
    stack_inv H 9 (leaves H (ms @ chunk_members cb ub m k)) stack' (length ms + k) \<and>
    (\<forall>name. (\<forall>j<8. name \<noteq> key_box_name gen j) \<longrightarrow> bs' name = bs name)"
  using assms(4-9)
proof (induction k arbitrary: m bs stack ms)
  case 0
  then show ?case by (auto simp: chunk_members_def)
next
  case (Suc k)
  obtain ck uk where p: "chunk_member cb ub m = (ck, uk)" by fastforce
  have mok: "member_ok G (ck, uk)" using Suc.prems(1) p by (simp add: chunk_members_Suc)
  note ml = member_length [OF c mok]
  have bind: "g1_bind C uk ck = Inr ()" using member_bind [OF c] ml mok by simp
  have n: "length (map snd ms) < 512" "length (leaves H ms) < 2 ^ 9"
    using Suc.prems(5,6) by (simp_all add: leaves_def)
  obtain bs1 where bs1: "box_replace bs (key_box_name gen (length ms div 64)) (length ms mod 64 * 96) uk = Inr bs1"
    "keys_stored bs1 gen (map snd (ms @ [(ck, uk)]))"
    "\<forall>name. name \<noteq> key_box_name gen (length ms div 64) \<longrightarrow> bs1 name = bs name"
    using stored_replace [OF Suc.prems(2) n(1) g, of uk] ml by auto
  have "length (key_leaf H ck) = 32" by (simp add: key_leaf_def H)
  from stack_push [OF Suc.prems(3) n(2) _ this H] obtain stack1 filled1 where
    push: "merkleize_stack_push H stack (length ms) (key_leaf H ck) = Inr (stack1, filled1)"
    and inv1: "stack_inv H 9 (leaves H ms @ [key_leaf H ck]) stack1 filled1" by auto
  have f1: "filled1 = length (ms @ [(ck, uk)])" "leaves H ms @ [key_leaf H ck] = leaves H (ms @ [(ck, uk)])"
    using inv1 by (simp_all add: stack_inv_def leaves_def)
  have us: "set (map snd ms) \<subseteq> G" using Suc.prems(4) by (auto simp: member_ok_def)
  have s1: "ec_add1 C (gsum C (map snd ms)) uk = Inr (gsum C (map snd (ms @ [(ck, uk)])))"
    using gadd_eq [OF c gsum_in [OF c us]] gsum_append [OF c us, of "[uk]"] gsum_single [OF c, of uk] ml by simp
  have mem: "\<forall>p\<in>set (ms @ [(ck, uk)]). member_ok G p" using Suc.prems(4) mok by auto
  have rest: "\<forall>p\<in>set (chunk_members cb ub (m + 1) k). member_ok G p"
    using Suc.prems(1) by (simp add: chunk_members_Suc)
  have len: "length (ms @ [(ck, uk)]) = cursor + (m + 1)" "cursor + (m + 1) + k \<le> 512" using Suc.prems(5,6) by simp_all
  have inv1': "stack_inv H 9 (leaves H (ms @ [(ck, uk)])) stack1 (length (ms @ [(ck, uk)]))"
    using inv1 f1 by simp
  from Suc.IH [OF rest bs1(2) inv1' mem len] obtain bs' stack' where
    l: "chunk_loop H C gen cursor cb ub (m + 1) k bs1 stack1 (length (ms @ [(ck, uk)])) (gsum C (map snd (ms @ [(ck, uk)]))) =
      Inr (bs', stack', length (ms @ [(ck, uk)]) + k, gsum C (map snd ((ms @ [(ck, uk)]) @ chunk_members cb ub (m + 1) k)))"
    and k': "keys_stored bs' gen (map snd ((ms @ [(ck, uk)]) @ chunk_members cb ub (m + 1) k))"
    "stack_inv H 9 (leaves H ((ms @ [(ck, uk)]) @ chunk_members cb ub (m + 1) k)) stack' (length (ms @ [(ck, uk)]) + k)"
    and fr: "\<forall>name. (\<forall>j<8. name \<noteq> key_box_name gen j) \<longrightarrow> bs' name = bs1 name" by blast
  have app: "(ms @ [(ck, uk)]) @ chunk_members cb ub (m + 1) k = ms @ chunk_members cb ub m (Suc k)"
    by (simp add: chunk_members_Suc p)
  have lk: "length (ms @ [(ck, uk)]) + k = length ms + Suc k" by simp
  have step: "chunk_loop H C gen cursor cb ub m (Suc k) bs stack (length ms) (gsum C (map snd ms)) =
      chunk_loop H C gen cursor cb ub (m + 1) k bs1 stack1 (length (ms @ [(ck, uk)])) (gsum C (map snd (ms @ [(ck, uk)])))"
    unfolding chunk_loop.simps Let_def chunk_slices [of cb m ub] chunk_slices(2) [of ub m cb] p
    using Suc.prems(5,6) bind bs1(1) push f1(1) s1
    by (simp add: uadd_def uint64_limit_def KEYS_PER_BOX_def G1_BYTES_def)
  have d8: "length ms div 64 < 8" using n by auto
  have "\<forall>name. (\<forall>j<8. name \<noteq> key_box_name gen j) \<longrightarrow> bs' name = bs name" using fr bs1(3) d8 by metis
  then show ?case using step l k' unfolding app lk by metis
qed

section \<open>The session operations\<close>

lemma read_session_inv:
  assumes "bs (session_box_name gen) = Some (stack @ itob n @ s)" and "length stack = 320" and "length s = 96"
    and "n < uint64_limit"
  shows "read_session bs gen = Inr (stack, n, s)"
proof -
  have e: "box_extract bs (session_box_name gen) 0 424 = Inr (stack @ itob n @ s)"
    using assms by (intro box_extract_all) (simp_all add: max_bytes_def)
  have "bslice (stack @ itob n @ s) 320 328 = itob n" "bslice (stack @ itob n @ s) 0 320 = stack"
    "bslice (stack @ itob n @ s) 328 424 = s"
    using assms by (simp_all add: bslice_def seg_def)
  then show ?thesis using e assms(4) by (simp add: read_session_def box_layout)
qed

lemma session_parts:
  assumes "session_inv H C G bs gen ms" and c: "g1_curve C G"
  obtains stack where "read_session bs gen = Inr (stack, length ms, gsum C (map snd ms))"
    "stack_inv H 9 (leaves H ms) stack (length ms)"
    "bs (session_box_name gen) = Some (stack @ itob (length ms) @ gsum C (map snd ms))" "length stack = 320"
    "length (gsum C (map snd ms)) = 96"
proof -
  from assms(1) obtain stack where st: "bs (session_box_name gen) = Some (stack @ itob (length ms) @ gsum C (map snd ms))"
    "stack_inv H 9 (leaves H ms) stack (length ms)" by (auto simp: session_inv_def)
  have "set (map snd ms) \<subseteq> G" using assms(1) by (auto simp: session_inv_def member_ok_def)
  then have g: "length (gsum C (map snd ms)) = 96" by (intro group_length [OF c] gsum_in [OF c])
  have l: "length stack = 320" using st(2) by (simp add: stack_inv_def)
  have "length ms < uint64_limit" using assms(1) by (simp add: session_inv_def uint64_limit_def)
  then have "read_session bs gen = Inr (stack, length ms, gsum C (map snd ms))" using read_session_inv [where stack = stack] st(1) l g by blast
  with st l g that show thesis by blast
qed

text \<open>A chunk either is rejected or extends the session by its members; it is accepted exactly when its
  blobs have matching sizes, it fits the committee and every member binds.\<close>

lemma process_chunk_core:
  assumes c: "g1_curve C G" and H: "\<And>x. length (H x) = 32" and g: "gen < uint64_limit"
    and inv: "session_inv H C G bs gen ms" and cap: "length cb \<le> max_bytes"
  defines "k \<equiv> length cb div 48"
  shows "(\<exists>r. install_process_chunk H C gen (length ms) cb ub bs = Inr r) \<longleftrightarrow>
      length cb mod 48 = 0 \<and> length ub = k * 96 \<and> length ms + k \<le> 512 \<and>
      (\<forall>p\<in>set (chunk_members cb ub 0 k). member_ok G p)"
    and "install_process_chunk H C gen (length ms) cb ub bs = Inr (bs', n) \<Longrightarrow>
      n = length ms + k \<and> session_inv H C G bs' gen (ms @ chunk_members cb ub 0 k) \<and>
      (\<forall>name. (\<forall>j<8. name \<noteq> key_box_name gen j) \<and> name \<noteq> session_box_name gen \<longrightarrow> bs' name = bs name)"
proof -
  obtain stack where rd: "read_session bs gen = Inr (stack, length ms, gsum C (map snd ms))"
    and si: "stack_inv H 9 (leaves H ms) stack (length ms)"
    and sb: "bs (session_box_name gen) = Some (stack @ itob (length ms) @ gsum C (map snd ms))"
    and ls: "length stack = 320" "length (gsum C (map snd ms)) = 96"
    using session_parts [OF inv c] by blast
  have ks: "keys_stored bs gen (map snd ms)" and mo: "\<forall>p\<in>set ms. member_ok G p" and l512: "length ms \<le> 512"
    using inv by (simp_all add: session_inv_def)
  let ?ns = "chunk_members cb ub 0 k"
  have unf: "install_process_chunk H C gen (length ms) cb ub bs =
     check (length cb mod 48 = 0) ''compressed blob not a multiple of 48'' (
     check (length ub = k * 96) ''uncompressed blob length mismatch'' (
     rbind (uadd (length ms) k) (\<lambda>next_cursor.
     check (next_cursor \<le> 512) ''chunk would overflow the committee'' (
     rbind (chunk_loop H C gen (length ms) cb ub 0 k bs stack (length ms) (gsum C (map snd ms)))
       (\<lambda>(bs', stack', filled', sum').
     rbind (bconcat (stack' @ itob filled') sum') (\<lambda>new_session.
     rbind (box_replace bs' (session_box_name gen) 0 new_session) (\<lambda>bs''.
     Inr (bs'', next_cursor))))))))"
    by (simp add: install_process_chunk_def box_layout rd k_def Let_def)
  have run: "\<exists>bs'. install_process_chunk H C gen (length ms) cb ub bs = Inr (bs', length ms + k) \<and>
      session_inv H C G bs' gen (ms @ ?ns) \<and>
      (\<forall>name. (\<forall>j<8. name \<noteq> key_box_name gen j) \<and> name \<noteq> session_box_name gen \<longrightarrow> bs' name = bs name)"
    if a: "length cb mod 48 = 0" "length ub = k * 96" "length ms + k \<le> 512" "\<forall>p\<in>set ?ns. member_ok G p"
  proof -
    have fit: "length ms + 0 + k \<le> 512" using a(3) by simp
    from chunk_loop_runs [where H = H, OF c H g a(4) ks si mo _ fit] obtain bs1 stack1 where
      l: "chunk_loop H C gen (length ms) cb ub 0 k bs stack (length ms) (gsum C (map snd ms)) =
        Inr (bs1, stack1, length ms + k, gsum C (map snd (ms @ ?ns)))"
      and k1: "keys_stored bs1 gen (map snd (ms @ ?ns))"
      and s1: "stack_inv H 9 (leaves H (ms @ ?ns)) stack1 (length ms + k)"
      and fr: "\<forall>name. (\<forall>j<8. name \<noteq> key_box_name gen j) \<longrightarrow> bs1 name = bs name" by auto
    have mem: "\<forall>p\<in>set (ms @ ?ns). member_ok G p" using mo a(4) by auto
    then have "set (map snd (ms @ ?ns)) \<subseteq> G" by (auto simp: member_ok_def)
    then have lg: "length (gsum C (map snd (ms @ ?ns))) = 96" by (intro group_length [OF c] gsum_in [OF c])
    have l1: "length stack1 = 320" using s1 by (simp add: stack_inv_def)
    let ?new = "stack1 @ itob (length ms + k) @ gsum C (map snd (ms @ ?ns))"
    have b1: "bs1 (session_box_name gen) = Some (stack @ itob (length ms) @ gsum C (map snd ms))"
      using fr sb by simp
    let ?bs = "bs1(session_box_name gen \<mapsto> ?new)"
    have "box_replace bs1 (session_box_name gen) 0 ?new = Inr ?bs"
      using box_replace_all [where new = ?new] b1 ls l1 lg by simp
    then have r: "install_process_chunk H C gen (length ms) cb ub bs = Inr (?bs, length ms + k)"
      using a l lg l1 by (simp add: unf uadd_def uint64_limit_def bconcat_def max_bytes_def)
    have "keys_stored ?bs gen (map snd (ms @ ?ns))" using k1 by (simp add: keys_stored_def)
    then have "session_inv H C G ?bs gen (ms @ ?ns)"
      using a(3) mem s1 by (auto simp: session_inv_def)
    then show ?thesis using r fr by auto
  qed
  have need: "length cb mod 48 = 0 \<and> length ub = k * 96 \<and> length ms + k \<le> 512 \<and> (\<forall>p\<in>set ?ns. member_ok G p)"
    if r: "install_process_chunk H C gen (length ms) cb ub bs = Inr r" for r
  proof -
    from r have a: "length cb mod 48 = 0" "length ub = k * 96" "length ms + k \<le> 512"
      and l: "\<exists>q. chunk_loop H C gen (length ms) cb ub 0 k bs stack (length ms) (gsum C (map snd ms)) = Inr q"
      by (auto simp: unf res_simps)
    have "member_ok G p" if p: "p \<in> set ?ns" for p
    proof -
      have "g1_bind C (snd p) (fst p) = Inr ()" using l chunk_loop_bound p by blast
      moreover have "length (snd p) = 96" using p a(2) by (auto simp: chunk_members_def chunk_member_def)
      ultimately show ?thesis using member_bind [OF c] by (metis prod.collapse)
    qed
    with a show ?thesis by blast
  qed
  show "(\<exists>r. install_process_chunk H C gen (length ms) cb ub bs = Inr r) \<longleftrightarrow>
      length cb mod 48 = 0 \<and> length ub = k * 96 \<and> length ms + k \<le> 512 \<and> (\<forall>p\<in>set ?ns. member_ok G p)"
  proof
    assume "\<exists>r. install_process_chunk H C gen (length ms) cb ub bs = Inr r"
    then obtain r where "install_process_chunk H C gen (length ms) cb ub bs = Inr r" ..
    then show "length cb mod 48 = 0 \<and> length ub = k * 96 \<and> length ms + k \<le> 512 \<and> (\<forall>p\<in>set ?ns. member_ok G p)"
      by (rule need)
  next
    assume "length cb mod 48 = 0 \<and> length ub = k * 96 \<and> length ms + k \<le> 512 \<and> (\<forall>p\<in>set ?ns. member_ok G p)"
    then show "\<exists>r. install_process_chunk H C gen (length ms) cb ub bs = Inr r" using run by fast
  qed
  show "n = length ms + k \<and> session_inv H C G bs' gen (ms @ ?ns) \<and>
      (\<forall>name. (\<forall>j<8. name \<noteq> key_box_name gen j) \<and> name \<noteq> session_box_name gen \<longrightarrow> bs' name = bs name)"
    if r: "install_process_chunk H C gen (length ms) cb ub bs = Inr (bs', n)"
    using need [OF r] run r by auto
qed

section \<open>Finalization\<close>

text \<open>The root of a committee: its 512 keys as a vector, and the aggregate key.\<close>

definition committee_root :: "(bytes \<Rightarrow> bytes) \<Rightarrow> bytes list \<Rightarrow> bytes \<Rightarrow> bytes" where
  "committee_root H cks agg = H (chunk_root H 9 (map (key_leaf H) cks) @ key_leaf H agg)"

definition committee_msgs :: "(bytes \<Rightarrow> bytes) \<Rightarrow> bytes list \<Rightarrow> bytes \<Rightarrow> bytes set" where
  "committee_msgs H cks agg =
     insert (chunk_root H 9 (map (key_leaf H) cks) @ key_leaf H agg)
       (root_msgs H 9 (map (key_leaf H) cks) \<union> (\<lambda>c. c @ replicate 16 0) ` insert agg (set cks))"

definition committee_ok :: "bytes list \<Rightarrow> bytes \<Rightarrow> bool" where
  "committee_ok cks agg \<longleftrightarrow> length cks = 512 \<and> length agg = 48 \<and> (\<forall>c\<in>set cks. length c = 48)"

lemma committee_root_binding:
  assumes ok: "committee_ok cks agg" "committee_ok cks' agg'" and H: "\<And>x. length (H x) = 32"
    and inj: "inj_on H (committee_msgs H cks agg \<union> committee_msgs H cks' agg')"
    and eq: "committee_root H cks agg = committee_root H cks' agg'"
  shows "cks = cks' \<and> agg = agg'"
proof -
  let ?r = "\<lambda>cks. chunk_root H 9 (map (key_leaf H) cks)"
  have kl: "length (key_leaf H c) = 32" for c by (simp add: key_leaf_def H)
  have "?r cks @ key_leaf H agg = ?r cks' @ key_leaf H agg'"
    by (rule inj_onD [OF inj]) (use eq in \<open>simp_all add: committee_root_def committee_msgs_def\<close>)
  then have e: "?r cks = ?r cks'" "key_leaf H agg = key_leaf H agg'" using kl by simp_all
  have leaf: "c = c'" if "key_leaf H c = key_leaf H c'" "c \<in> insert agg (set cks)" "c' \<in> insert agg' (set cks')" for c c'
  proof -
    have "c @ replicate 16 0 = c' @ replicate 16 0"
      by (rule inj_onD [OF inj]) (use that in \<open>auto simp: key_leaf_def committee_msgs_def\<close>)
    then show ?thesis by simp
  qed
  have "map (key_leaf H) cks = map (key_leaf H) cks'"
    by (rule chunk_root_binding [where H = H and d = 9, OF _ _ _ _ H _ e(1)])
      (use ok in \<open>auto simp: committee_ok_def kl committee_msgs_def intro: inj_on_subset [OF inj]\<close>)
  then have "cks = cks'"
    using leaf ok by (intro nth_equalityI) (auto simp: committee_ok_def dest: map_eq_imp_length_eq, metis insertCI nth_map nth_mem)
  then show ?thesis using leaf [OF e(2)] by simp
qed

text \<open>Finalization on a session, every branch decided.\<close>

lemma process_finalize_core:
  assumes c: "g1_curve C G" and H: "\<And>x. length (H x) = 32" and inv: "session_inv H C G bs gen ms"
  shows "install_process_finalize H C gen (length ms) root aggc aggu bs = Inr (bs', a_total) \<longleftrightarrow>
    length ms = 512 \<and> length root = 32 \<and> committee_root H (map fst ms) aggc = root \<and> member_ok G (aggc, aggu) \<and>
    aggu = gsum C (map snd ms) \<and> a_total = aggu \<and> bs' = bs(session_box_name gen := None)"
proof -
  obtain stack where rd: "read_session bs gen = Inr (stack, length ms, gsum C (map snd ms))"
    and si: "stack_inv H 9 (leaves H ms) stack (length ms)"
    using session_parts [OF inv c] by blast
  have fin: "merkleize_stack_finalize H stack 512 9 = Inr (chunk_root H 9 (map (key_leaf H) (map fst ms)))"
    if "length ms = 512"
    using stack_finalize_full [OF si] that by (simp add: leaves_def comp_def)
  have l: "member_ok G (aggc, aggu) \<Longrightarrow> length aggc = 48 \<and> length aggu = 96" using member_length [OF c] by blast
  have b: "length aggu = 96 \<Longrightarrow> g1_bind C aggu aggc = Inr () \<longleftrightarrow> member_ok G (aggc, aggu)" by (rule member_bind [OF c])
  show ?thesis
  proof (cases "length ms = 512 \<and> length aggc = 48 \<and> length aggu = 96")
    case True
    then show ?thesis using rd fin b
      by (auto simp: install_process_finalize_def box_layout res_simps committee_root_def box_delete_def)
  next
    case False
    then have "length ms = 512 \<Longrightarrow> \<not> member_ok G (aggc, aggu)" using l by blast
    then show ?thesis using False
      by (auto simp: install_process_finalize_def box_layout res_simps)
  qed
qed

end
