(* ===== verification/SC_Bitfield.thy ===== *)
theory SC_Bitfield
  imports SC_Session
begin

text \<open>
  Participation, \<open>contracts/sync_committee/bitfield.py\<close>: the remap of SSZ bit order, the fused walk over
  the bit vector and the stored keys, and the two aggregation modes, against the sum of the keys whose
  bit is set.
\<close>

definition avm_bit_index :: "nat \<Rightarrow> nat" where
  "avm_bit_index i = (i div 8) * 8 + 7 - (i mod 8)"

text \<open>The walk from index \<open>i\<close> on; the accumulator carries the sum, whether it has a member, and the count.\<close>

fun walk_loop ::
  "ec_ops \<Rightarrow> boxes \<Rightarrow> bytes \<Rightarrow> nat \<Rightarrow> bool \<Rightarrow> nat \<Rightarrow> nat \<Rightarrow> bytes \<Rightarrow> bool \<Rightarrow> nat \<Rightarrow> (bytes \<times> nat) res" where
  "walk_loop C bs bits gen complement i 0 acc have_any touched = Inr (acc, touched)"
| "walk_loop C bs bits gen complement i (Suc k) acc have_any touched =
     rbind (getbit_b bits (avm_bit_index i)) (\<lambda>b.
     let bit_set = (b \<noteq> 0); touch = (bit_set \<and> \<not> complement \<or> \<not> bit_set \<and> complement) in
     if touch then
       rbind (box_extract bs (key_box_name gen (i div KEYS_PER_BOX)) (i mod KEYS_PER_BOX * G1_BYTES) G1_BYTES) (\<lambda>pk.
       rbind (if have_any then ec_add1 C acc pk else Inr pk) (\<lambda>acc'.
       rbind (uadd touched 1) (\<lambda>touched'. walk_loop C bs bits gen complement (i + 1) k acc' True touched')))
     else walk_loop C bs bits gen complement (i + 1) k acc have_any touched)"

definition walk_and_accumulate :: "ec_ops \<Rightarrow> boxes \<Rightarrow> bytes \<Rightarrow> nat \<Rightarrow> bool \<Rightarrow> (bytes \<times> nat) res" where
  "walk_and_accumulate C bs bits gen complement =
     check (length bits = SYNC_COMMITTEE_BITS_BYTES) ''bits length'' (
     walk_loop C bs bits gen complement 0 SYNC_COMMITTEE_SIZE g1_infinity False 0)"

definition aggregate_participants :: "ec_ops \<Rightarrow> boxes \<Rightarrow> bytes \<Rightarrow> nat \<Rightarrow> nat \<Rightarrow> (bytes \<times> nat) res" where
  "aggregate_participants C bs bits gen mode =
     (let complement = (mode = 1) in
      rbind (walk_and_accumulate C bs bits gen complement) (\<lambda>(touched_sum, touched).
      if complement then
        rbind (usub SYNC_COMMITTEE_SIZE touched) (\<lambda>popcount.
        rbind (box_extract bs (total_box_name gen) 0 G1_BYTES) (\<lambda>a_total.
        rbind (g1_negate touched_sum) (\<lambda>neg.
        rbind (ec_add1 C a_total neg) (\<lambda>agg. Inr (agg, popcount)))))
      else Inr (touched_sum, touched)))"

section \<open>Bit order\<close>

text \<open>SSZ bit \<open>i\<close>: bit \<open>i mod 8\<close>, least significant first, of byte \<open>i div 8\<close>.\<close>

definition ssz_bit :: "bytes \<Rightarrow> nat \<Rightarrow> bool" where
  "ssz_bit bits i \<longleftrightarrow> bit (bits ! (i div 8)) (i mod 8)"

lemma bit_unat_div: "bit (b :: byte) n \<longleftrightarrow> unat b div 2 ^ n mod 2 = 1"
proof -
  have "bit b n \<longleftrightarrow> bit (unat b) n" by (simp add: bit_unsigned_iff)
  then show ?thesis by (simp only: bit_iff_odd odd_iff_mod_2_eq_one)
qed

lemma getbit_ssz:
  assumes "length bits = 64" and "i < 512"
  shows "getbit_b bits (avm_bit_index i) = Inr (if ssz_bit bits i then 1 else 0)"
proof -
  have m: "i mod 8 < 8" by simp
  have e: "avm_bit_index i = i div 8 * 8 + (7 - i mod 8)" using m by (simp add: avm_bit_index_def)
  then have d: "avm_bit_index i div 8 = i div 8" "avm_bit_index i mod 8 = 7 - i mod 8"
  proof -
    have "(q * 8 + r) div 8 = q \<and> (q * 8 + r) mod 8 = r" if "r < 8" for q r :: nat using that by simp
    from this [of "7 - i mod 8" "i div 8"]
    have "(i div 8 * 8 + (7 - i mod 8)) div 8 = i div 8" "(i div 8 * 8 + (7 - i mod 8)) mod 8 = 7 - i mod 8"
      by linarith+
    then show "avm_bit_index i div 8 = i div 8" "avm_bit_index i mod 8 = 7 - i mod 8" by (simp_all only: e)
  qed
  have s: "7 - (7 - i mod 8) = i mod 8" using m by simp
  have "i div 8 < length bits" using assms by auto
  then show ?thesis
    by (auto simp: getbit_b_def d s ssz_bit_def bit_unat_div)
qed

section \<open>The walk computes a sum\<close>

definition picked :: "(nat \<Rightarrow> bool) \<Rightarrow> bytes list \<Rightarrow> nat \<Rightarrow> nat \<Rightarrow> bytes list" where
  "picked f us i k = map ((!) us) (filter f [i..<i + k])"

lemma picked_Suc: "picked f us i (Suc k) = (if f i then us ! i # picked f us (i + 1) k else picked f us (i + 1) k)"
  by (simp add: picked_def upt_conv_Cons del: upt_Suc)

lemma picked_set: "i + k \<le> length us \<Longrightarrow> set (picked f us i k) \<subseteq> set us"
  by (auto simp: picked_def)

lemma walk_loop_sum:
  assumes c: "g1_curve C G" and st: "keys_stored bs gen us" and us: "set us \<subseteq> G" "length us = 512"
    and bits: "length bits = 64"
    and "i + k \<le> 512" and "touched \<le> i" and "acc \<in> G" and "have_any \<or> acc = g1_infinity"
    and f_def: "f = (\<lambda>i. ssz_bit bits i \<noteq> complement)"
  shows "walk_loop C bs bits gen complement i k acc have_any touched =
    Inr (gadd C acc (gsum C (picked f us i k)), touched + length (picked f us i k))"
  using assms(6-9)
proof (induction k arbitrary: i acc have_any touched)
  case 0
  then show ?case using gadd_inf [OF c] by (simp add: picked_def)
next
  case (Suc k)
  have i: "i < 512" using Suc.prems(1) by simp
  note bit = getbit_ssz [OF bits i]
  have rest: "i + 1 + k \<le> 512" using Suc.prems(1) by simp
  show ?case
  proof (cases "f i")
    case False
    have "walk_loop C bs bits gen complement i (Suc k) acc have_any touched =
        walk_loop C bs bits gen complement (i + 1) k acc have_any touched"
      using False by (auto simp: bit f_def Let_def)
    then show ?thesis using Suc.IH [OF rest _ Suc.prems(3,4), of touched] Suc.prems(2) False by (simp add: picked_Suc)
  next
    case True
    let ?u = "us ! i"
    have u: "?u \<in> G" using us i by auto
    have ex: "box_extract bs (key_box_name gen (i div 64)) (i mod 64 * 96) 96 = Inr ?u"
      by (rule stored_extract [OF st]) (use us i in simp_all)
    have acc: "(if have_any then ec_add1 C acc ?u else Inr ?u) = Inr (gadd C acc ?u)"
      using gadd_eq [OF c Suc.prems(3) u] Suc.prems(4) gadd_inf_left [OF c u] by auto
    have t: "uadd touched 1 = Inr (touched + 1)" using Suc.prems(2) i by (simp add: uadd_def uint64_limit_def)
    have "walk_loop C bs bits gen complement i (Suc k) acc have_any touched =
        walk_loop C bs bits gen complement (i + 1) k (gadd C acc ?u) True (touched + 1)"
      using True ex acc t by (auto simp: bit f_def Let_def box_layout)
    also have "\<dots> = Inr (gadd C (gadd C acc ?u) (gsum C (picked f us (i + 1) k)), touched + 1 + length (picked f us (i + 1) k))"
      by (rule Suc.IH [OF rest _ gadd_in [OF c Suc.prems(3) u]]) (use Suc.prems(2) in simp_all)
    also have "gadd C (gadd C acc ?u) (gsum C (picked f us (i + 1) k)) = gadd C acc (gsum C (picked f us i (Suc k)))"
      using gadd_assoc [OF c Suc.prems(3) u gsum_in [OF c, of "picked f us (i + 1) k"]] picked_set [of "i + 1" k us f] us rest True
      by (simp add: picked_Suc)
    finally show ?thesis using True by (simp add: picked_Suc)
  qed
qed

text \<open>The participants and their aggregate.\<close>

definition participants :: "bytes \<Rightarrow> nat list" where
  "participants bits = filter (ssz_bit bits) [0..<512]"

definition participant_sum :: "ec_ops \<Rightarrow> bytes \<Rightarrow> bytes list \<Rightarrow> bytes" where
  "participant_sum C bits us = gsum C (map ((!) us) (participants bits))"

text \<open>A finished committee: its keys and their total, in the boxes of its generation.\<close>

definition committee_stored :: "ec_ops \<Rightarrow> boxes \<Rightarrow> nat \<Rightarrow> bytes list \<Rightarrow> bool" where
  "committee_stored C bs gen us \<longleftrightarrow>
     length us = 512 \<and> keys_stored bs gen us \<and> bs (total_box_name gen) = Some (gsum C us)"

lemma filter_compl_length: "length (filter P xs) + length (filter (\<lambda>x. \<not> P x) xs) = length xs"
  by (induction xs) auto

lemma gsum_split_index:
  assumes c: "g1_curve C G" and "\<forall>i\<in>set is. us ! i \<in> G"
  shows "gsum C (map ((!) us) is) =
    gadd C (gsum C (map ((!) us) (filter P is))) (gsum C (map ((!) us) (filter (\<lambda>i. \<not> P i) is)))"
  using assms(2)
proof (induction "is")
  case Nil
  then show ?case using gadd_inf [OF c inf_in [OF c]] by simp
next
  case (Cons i "is")
  let ?a = "gsum C (map ((!) us) (filter P is))" and ?b = "gsum C (map ((!) us) (filter (\<lambda>i. \<not> P i) is))"
  have m: "us ! i \<in> G" "?a \<in> G" "?b \<in> G"
    using Cons.prems by (auto intro!: gsum_in [OF c])
  have IH: "gsum C (map ((!) us) is) = gadd C ?a ?b" using Cons by simp
  show ?case
  proof (cases "P i")
    case True
    then show ?thesis using IH gadd_assoc [OF c m] by simp
  next
    case False
    have "gadd C (us ! i) (gadd C ?a ?b) = gadd C (gadd C ?a (us ! i)) ?b"
      using gadd_assoc [OF c m] gadd_comm [OF c m(1,2)] by simp
    also have "\<dots> = gadd C ?a (gadd C (us ! i) ?b)" using gadd_assoc [OF c m(2,1,3)] by simp
    finally show ?thesis using IH False by simp
  qed
qed

lemma aggregate_core:
  assumes c: "g1_curve C G" and st: "committee_stored C bs gen us" and us: "set us \<subseteq> G" and bits: "length bits = 64"
  shows "aggregate_participants C bs bits gen mode = Inr (participant_sum C bits us, length (participants bits))"
proof -
  have l: "length us = 512" and ks: "keys_stored bs gen us" and tot: "bs (total_box_name gen) = Some (gsum C us)"
    using st by (simp_all add: committee_stored_def)
  let ?p = "participant_sum C bits us"
  let ?q = "gsum C (map ((!) us) (filter (\<lambda>i. \<not> ssz_bit bits i) [0..<512]))"
  have walk: "walk_and_accumulate C bs bits gen complement =
      Inr (gsum C (map ((!) us) (filter (\<lambda>i. ssz_bit bits i \<noteq> complement) [0..<512])),
        length (filter (\<lambda>i. ssz_bit bits i \<noteq> complement) [0..<512]))" for complement
  proof -
    have "set (map ((!) us) (filter (\<lambda>i. ssz_bit bits i \<noteq> complement) [0..<512])) \<subseteq> G"
      using us l nth_mem [of _ us] by fastforce
    then show ?thesis
      using walk_loop_sum [OF c ks us l bits _ _ inf_in [OF c] _ refl, of 0 512 0 False complement] gadd_inf_left [OF c gsum_in [OF c]]
      by (simp add: walk_and_accumulate_def box_layout SYNC_COMMITTEE_BITS_BYTES_def bits picked_def del: upt_conv_Cons)
  qed
  have im: "us ! i \<in> G" if "i < 512" for i using us l nth_mem [of i us] that by auto
  then have m: "?p \<in> G" "?q \<in> G"
    by (auto simp: participant_sum_def participants_def intro!: gsum_in [OF c])
  have all: "map ((!) us) [0..<512] = us" using map_nth [of us] l by simp
  have split: "gsum C us = gadd C ?p ?q"
    using gsum_split_index [OF c, of "[0..<512]" us "ssz_bit bits"] im
    unfolding all by (simp add: participant_sum_def participants_def)
  have cnt: "length (participants bits) + length (filter (\<lambda>i. \<not> ssz_bit bits i) [0..<512]) = 512"
    using filter_compl_length [of "ssz_bit bits" "[0..<512]"] by (simp add: participants_def)
  have tl: "length (gsum C us) = 96" by (rule group_length [OF c gsum_in [OF c us]])
  have ex: "box_extract bs (total_box_name gen) 0 96 = Inr (gsum C us)"
    using tot tl by (intro box_extract_all) (simp_all add: max_bytes_def)
  show ?thesis
  proof (cases "mode = 1")
    case False
    then show ?thesis
      by (simp add: aggregate_participants_def walk Let_def participant_sum_def participants_def)
  next
    case True
    have "gadd C (gsum C us) (neg_point ?q) = ?p" using split gadd_cancel [OF c m] by simp
    then have "ec_add1 C (gsum C us) (neg_point ?q) = Inr ?p"
      using gadd_eq [OF c gsum_in [OF c us] neg_in [OF c m(2)]] by simp
    then show ?thesis using True cnt ex negate_in_group [OF c m(2)]
      by (auto simp: aggregate_participants_def walk Let_def box_layout usub_def)
  qed
qed

end
