(* ===== verification/SC_Verifier.thy ===== *)
theory SC_Verifier
  imports SC_Bitfield Fork_Tables
begin

text \<open>
  \<open>SyncCommitteeVerifier\<close>, \<open>contracts/sync_committee/verifier.py\<close>: the light client's global state and
  boxes as a record, every ABI method as a function on it, the dispatch over method calls and the
  step relation of accepted calls. \<open>H\<close> is SHA-256, \<open>C\<close> the curve opcodes.
\<close>

definition MIN_SYNC_COMMITTEE_PARTICIPANTS :: nat where "MIN_SYNC_COMMITTEE_PARTICIPANTS = 1"
definition TWO_THIRDS_NUMERATOR :: nat where "TWO_THIRDS_NUMERATOR = 2"
definition TWO_THIRDS_DENOMINATOR :: nat where "TWO_THIRDS_DENOMINATOR = 3"
definition INST_STATE_IDLE :: nat where "INST_STATE_IDLE = 0"
definition INST_STATE_VALIDATED :: nat where "INST_STATE_VALIDATED = 1"
definition INST_STATE_OPENING_BOXES :: nat where "INST_STATE_OPENING_BOXES = 2"
definition INST_STATE_INSTALLING :: nat where "INST_STATE_INSTALLING = 3"

text \<open>\<open>BLS_SIG_BLS12381G2_XMD:SHA-256_SSWU_RO_POP_\<close>.\<close>

definition eth_dst :: bytes where
  "eth_dst = map of_char ''BLS_SIG_BLS12381G2_XMD:SHA-256_SSWU_RO_POP_''"

record sc_state =
  sc_gov :: bytes
  sc_gvr :: bytes
  fin_slot :: nat
  fin_root :: bytes
  fin_state_root :: bytes
  att_slot :: nat
  att_state_root :: bytes
  cur_gen :: nat
  cur_period :: nat
  next_gen :: nat
  next_period :: nat
  next_committee_root_trusted :: bytes
  next_committee_root_period :: nat
  inst_state :: nat
  inst_gen :: nat
  inst_period :: nat
  inst_root :: bytes
  inst_cursor :: nat
  sc_fork_count :: nat
  gen_counter :: nat
  sc_globals :: globals
  sc_boxes :: boxes

definition sc_create :: "bytes \<Rightarrow> bytes \<Rightarrow> sc_state" where
  "sc_create governance genesis_validators_root =
     \<lparr>sc_gov = governance, sc_gvr = genesis_validators_root, fin_slot = 0, fin_root = zero32,
      fin_state_root = zero32, att_slot = 0, att_state_root = zero32, cur_gen = 0, cur_period = 0,
      next_gen = 0, next_period = 0, next_committee_root_trusted = zero32, next_committee_root_period = 0,
      inst_state = INST_STATE_IDLE, inst_gen = 0, inst_period = 0, inst_root = zero32, inst_cursor = 0,
      sc_fork_count = 0, gen_counter = 0, sc_globals = Map.empty, sc_boxes = Map.empty\<rparr>"

definition sc_append_row :: "bytes \<Rightarrow> sc_row \<Rightarrow> sc_state \<Rightarrow> sc_state res" where
  "sc_append_row sender row s =
     check (sender = sc_gov s) ''governance only'' (
     rbind (sc_append_fork_row (sc_globals s) (sc_fork_count s) row) (\<lambda>(g, n).
     Inr (s\<lparr>sc_globals := g, sc_fork_count := n\<rparr>)))"

section \<open>Installing a committee\<close>

text \<open>Reserving a generation, the tail that \<open>bootstrap\<close> and \<open>install_begin\<close> have in common.\<close>

definition reserve_generation :: "nat \<Rightarrow> bytes \<Rightarrow> sc_state \<Rightarrow> sc_state res" where
  "reserve_generation period root s =
     rbind (uadd (gen_counter s) 1) (\<lambda>gen.
     Inr (s\<lparr>gen_counter := gen, inst_gen := gen, inst_period := period, inst_root := root,
       inst_cursor := 0, inst_state := INST_STATE_VALIDATED\<rparr>))"

definition sc_bootstrap ::
  "(bytes \<Rightarrow> bytes) \<Rightarrow> bytes \<Rightarrow> bytes \<Rightarrow> bytes \<Rightarrow> bytes \<Rightarrow> bytes \<Rightarrow> sc_state \<Rightarrow> sc_state res" where
  "sc_bootstrap H sender header committee_rt current_sc_branch trusted_block_root s =
     check (sender = sc_gov s) ''governance only'' (
     check (cur_gen s = 0) ''already bootstrapped'' (
     check (inst_state s = INST_STATE_IDLE) ''install session in progress'' (
     rbind (hash_tree_root_beacon_block_header H header) (\<lambda>root.
     check (root = trusted_block_root) ''header != trusted_block_root'' (
     rbind (header_slot header) (\<lambda>slot.
     rbind (lookup_gindices (sc_globals s) (sc_fork_count s) (epoch_at_slot slot)) (\<lambda>(_, current_sc_gindex, _).
     let state_root = bslice header 48 80 in
     rbind (assert_valid_normalized_merkle_branch H committee_rt current_sc_branch current_sc_gindex state_root) (\<lambda>_.
     rbind (reserve_generation (period_at_slot slot) committee_rt s) (\<lambda>s1.
     Inr (s1\<lparr>fin_slot := slot, fin_root := root, fin_state_root := state_root, att_slot := slot,
       att_state_root := state_root\<rparr>))))))))))"

definition install_begin :: "nat \<Rightarrow> sc_state \<Rightarrow> sc_state res" where
  "install_begin p s =
     check (inst_state s = INST_STATE_IDLE) ''a session is already in flight'' (
     rbind (uadd (cur_period s) 1) (\<lambda>q.
     check (p = q) ''period must be exactly cur_period + 1'' (
     check (next_committee_root_period s = p) ''no trusted root established for this period'' (
     check (next_committee_root_trusted s \<noteq> zero32) ''next-committee root not yet established'' (
     reserve_generation p (next_committee_root_trusted s) s)))))"

definition install_open_keys :: "sc_state \<Rightarrow> sc_state res" where
  "install_open_keys s =
     check (inst_state s = INST_STATE_VALIDATED) ''no validated install session in flight'' (
     rbind (install_open_key_boxes (inst_gen s) (sc_boxes s)) (\<lambda>bs.
     Inr (s\<lparr>sc_boxes := bs, inst_state := INST_STATE_OPENING_BOXES\<rparr>)))"

definition install_open_session :: "sc_state \<Rightarrow> sc_state res" where
  "install_open_session s =
     check (inst_state s = INST_STATE_OPENING_BOXES) ''no box-opening phase in flight'' (
     rbind (install_open_session_box (inst_gen s) (sc_boxes s)) (\<lambda>bs.
     Inr (s\<lparr>sc_boxes := bs, inst_state := INST_STATE_INSTALLING\<rparr>)))"

definition install_chunk ::
  "(bytes \<Rightarrow> bytes) \<Rightarrow> ec_ops \<Rightarrow> nat \<Rightarrow> bytes \<Rightarrow> bytes \<Rightarrow> sc_state \<Rightarrow> sc_state res" where
  "install_chunk H C index cb ub s =
     check (inst_state s = INST_STATE_INSTALLING) ''no install session in flight'' (
     check (index = inst_cursor s) ''index must equal the session cursor'' (
     rbind (install_process_chunk H C (inst_gen s) (inst_cursor s) cb ub (sc_boxes s)) (\<lambda>(bs, cursor).
     Inr (s\<lparr>sc_boxes := bs, inst_cursor := cursor\<rparr>))))"

definition clear_session :: "sc_state \<Rightarrow> sc_state" where
  "clear_session s = s\<lparr>inst_state := INST_STATE_IDLE, inst_gen := 0, inst_period := 0, inst_root := zero32,
     inst_cursor := 0\<rparr>"

definition install_finalize ::
  "(bytes \<Rightarrow> bytes) \<Rightarrow> ec_ops \<Rightarrow> bytes \<Rightarrow> bytes \<Rightarrow> sc_state \<Rightarrow> sc_state res" where
  "install_finalize H C aggc aggu s =
     check (inst_state s = INST_STATE_INSTALLING) ''no install session in flight'' (
     let gen = inst_gen s in
     rbind (install_process_finalize H C gen (inst_cursor s) (inst_root s) aggc aggu (sc_boxes s)) (\<lambda>(bs1, a_total).
     rbind (box_create bs1 (total_box_name gen) G1_BYTES) (\<lambda>(bs2, _).
     rbind (box_replace bs2 (total_box_name gen) 0 a_total) (\<lambda>bs3.
     let s1 = (if cur_gen s = 0 then s\<lparr>cur_gen := gen, cur_period := inst_period s\<rparr>
               else s\<lparr>next_gen := gen, next_period := inst_period s\<rparr>) in
     Inr (clear_session (s1\<lparr>sc_boxes := bs3\<rparr>))))))"

definition install_abort :: "bytes \<Rightarrow> sc_state \<Rightarrow> sc_state res" where
  "install_abort sender s =
     check (sender = sc_gov s) ''governance only'' (
     check (inst_state s = INST_STATE_VALIDATED \<or> inst_state s = INST_STATE_OPENING_BOXES \<or>
            inst_state s = INST_STATE_INSTALLING) ''no install session in flight'' (
     let bs = (if inst_state s = INST_STATE_OPENING_BOXES then install_abort_key_boxes (inst_gen s) (sc_boxes s)
               else if inst_state s = INST_STATE_INSTALLING then install_abort_boxes (inst_gen s) (sc_boxes s)
               else sc_boxes s) in
     Inr (clear_session (s\<lparr>sc_boxes := bs\<rparr>))))"

definition sc_retire :: "nat \<Rightarrow> sc_state \<Rightarrow> sc_state res" where
  "sc_retire g s =
     check (g \<noteq> 0) ''generation 0 is never a real committee'' (
     check (g \<noteq> cur_gen s) ''generation is the active committee'' (
     check (g \<noteq> next_gen s) ''generation is the staged next committee'' (
     check (g \<noteq> inst_gen s) ''generation has an install session in flight'' (
     Inr (s\<lparr>sc_boxes := install_delete_committee_boxes g (sc_boxes s)\<rparr>)))))"

section \<open>The update\<close>

record sc_update =
  u_attested :: bytes
  u_finalized :: bytes
  u_finality_branch :: bytes
  u_next_root :: bytes
  u_next_branch :: bytes
  u_bits :: bytes
  u_signature :: bytes
  u_sig_slot :: nat
  u_mode :: nat

text \<open>\<open>LightClientUpdateVerified\<close>, the event of an advancing update.\<close>

record lcu_event =
  ev_finalized_slot :: nat
  ev_finalized_root :: bytes
  ev_finalized_state_root :: bytes
  ev_attested_slot :: nat
  ev_attested_state_root :: bytes
  ev_participation :: nat
  ev_signature_slot :: nat

text \<open>Steps 3 to 5: slot order, the period rule and the committee; the result is whether the next
  committee signs, and its generation.\<close>

definition select_committee :: "sc_state \<Rightarrow> nat \<Rightarrow> nat \<Rightarrow> nat \<Rightarrow> (bool \<times> nat) res" where
  "select_committee s attested_slot finalized_slot sig_slot =
     check (sig_slot > attested_slot) ''signature_slot must exceed attested_slot'' (
     check (attested_slot \<ge> finalized_slot) ''attested_slot must be >= finalized_slot'' (
     let store_period = period_at_slot (fin_slot s);
         update_signature_period = period_at_slot sig_slot in
     check (update_signature_period = store_period \<or> update_signature_period = store_period + 1)
       ''signature period skips a sync-committee period'' (
     let using_next = (update_signature_period = store_period + 1) in
     if using_next then check (next_gen s \<noteq> 0) ''next committee is not known'' (Inr (True, next_gen s))
     else check (cur_gen s \<noteq> 0) ''no committee installed'' (Inr (False, cur_gen s)))))"

text \<open>Steps 6 to 9: table lookups and Merkle branches; the result is the fork version and the finalized leaf.\<close>

definition finalized_leaf_of :: "(bytes \<Rightarrow> bytes) \<Rightarrow> nat \<Rightarrow> bytes \<Rightarrow> bytes res" where
  "finalized_leaf_of H finalized_slot finalized_bytes =
     (if finalized_slot = 0 then Inr zero32 else hash_tree_root_beacon_block_header H finalized_bytes)"

definition check_branches :: "(bytes \<Rightarrow> bytes) \<Rightarrow> sc_state \<Rightarrow> sc_update \<Rightarrow> nat \<Rightarrow> nat \<Rightarrow> (bytes \<times> bytes) res" where
  "check_branches H s u attested_slot finalized_slot =
     rbind (lookup_fork_version (sc_globals s) (sc_fork_count s) (fork_version_epoch_for_signature_slot (u_sig_slot u))) (\<lambda>fork_version.
     rbind (lookup_gindices (sc_globals s) (sc_fork_count s) (epoch_at_slot attested_slot)) (\<lambda>(finality_gindex, _, next_sc_gindex).
     let attested_state_root = bslice (u_attested u) 48 80 in
     rbind (finalized_leaf_of H finalized_slot (u_finalized u)) (\<lambda>finalized_leaf.
     rbind (assert_valid_normalized_merkle_branch H finalized_leaf (u_finality_branch u) finality_gindex attested_state_root) (\<lambda>_.
     rbind (if 0 < length (u_next_branch u)
            then assert_valid_normalized_merkle_branch H (u_next_root u) (u_next_branch u) next_sc_gindex attested_state_root
            else Inr ()) (\<lambda>_.
     Inr (fork_version, finalized_leaf))))))"

text \<open>Steps 10 to 15: participation and the aggregate signature; the result is the number of participants.\<close>

definition check_signature :: "(bytes \<Rightarrow> bytes) \<Rightarrow> ec_ops \<Rightarrow> sc_state \<Rightarrow> sc_update \<Rightarrow> nat \<Rightarrow> bytes \<Rightarrow> nat res" where
  "check_signature H C s u committee_gen fork_version =
     rbind (aggregate_participants C (sc_boxes s) (u_bits u) committee_gen (u_mode u)) (\<lambda>(agg_pubkey, popcount).
     check (popcount \<ge> MIN_SYNC_COMMITTEE_PARTICIPANTS) ''insufficient participation'' (
     rbind (compute_domain H domain_sync_committee fork_version (sc_gvr s)) (\<lambda>domain.
     rbind (compute_signing_root H (u_attested u) domain) (\<lambda>signing_root.
     rbind (hash_to_g2 H C signing_root eth_dst) (\<lambda>msg_point.
     rbind (verify_aggregate_signature C agg_pubkey msg_point (u_signature u)) (\<lambda>valid.
     check valid ''aggregate signature verification failed'' (Inr popcount)))))))"

text \<open>Step 16, first half: the next committee's root.\<close>

definition apply_next_root :: "sc_state \<Rightarrow> sc_update \<Rightarrow> bool \<Rightarrow> nat \<Rightarrow> sc_state res" where
  "apply_next_root s u using_next attested_slot =
     (if 0 < length (u_next_branch u) then
        let next_p = period_at_slot attested_slot + 1; store_period = period_at_slot (fin_slot s) in
        check (inst_state s = INST_STATE_INSTALLING \<and> inst_period s = next_p \<longrightarrow> u_next_root u = inst_root s)
          ''next-committee root diverges from in-flight install'' (
        if \<not> using_next \<and> next_p = store_period + 1 then
          (if next_committee_root_period s = next_p then
             check (u_next_root u = next_committee_root_trusted s)
               ''next-committee root diverges from a previously trusted root'' (Inr s)
           else Inr (s\<lparr>next_committee_root_trusted := u_next_root u, next_committee_root_period := next_p\<rparr>))
        else Inr s)
      else Inr s)"

text \<open>Step 16, second half: a two-thirds majority on a later slot advances the finalized state.\<close>

definition has_supermajority :: "nat \<Rightarrow> bool" where
  "has_supermajority popcount \<longleftrightarrow>
     popcount * TWO_THIRDS_DENOMINATOR \<ge> SYNC_COMMITTEE_SIZE * TWO_THIRDS_NUMERATOR"

definition apply_finality ::
  "sc_state \<Rightarrow> sc_update \<Rightarrow> bool \<Rightarrow> nat \<Rightarrow> nat \<Rightarrow> bytes \<Rightarrow> nat \<Rightarrow> sc_state \<times> lcu_event list" where
  "apply_finality s u using_next attested_slot finalized_slot finalized_leaf popcount =
     (if has_supermajority popcount \<and> finalized_slot > fin_slot s then
        let s1 = (if using_next then s\<lparr>cur_gen := next_gen s, cur_period := next_period s, next_gen := 0, next_period := 0\<rparr>
                  else s);
            att_root = bslice (u_attested u) 48 80;
            fin_st = (if finalized_slot \<noteq> 0 then bslice (u_finalized u) 48 80 else zero32);
            s2 = s1\<lparr>fin_slot := finalized_slot, fin_root := finalized_leaf, fin_state_root := fin_st,
                   att_slot := attested_slot, att_state_root := att_root\<rparr> in
        (s2, [\<lparr>ev_finalized_slot = finalized_slot, ev_finalized_root = finalized_leaf,
               ev_finalized_state_root = fin_st, ev_attested_slot = attested_slot,
               ev_attested_state_root = att_root, ev_participation = popcount, ev_signature_slot = u_sig_slot u\<rparr>])
      else (s, []))"

definition submit_update :: "(bytes \<Rightarrow> bytes) \<Rightarrow> ec_ops \<Rightarrow> sc_update \<Rightarrow> sc_state \<Rightarrow> (sc_state \<times> lcu_event list) res" where
  "submit_update H C u s =
     rbind (header_slot (u_attested u)) (\<lambda>attested_slot.
     rbind (header_slot (u_finalized u)) (\<lambda>finalized_slot.
     rbind (select_committee s attested_slot finalized_slot (u_sig_slot u)) (\<lambda>(using_next, committee_gen).
     rbind (check_branches H s u attested_slot finalized_slot) (\<lambda>(fork_version, finalized_leaf).
     rbind (check_signature H C s u committee_gen fork_version) (\<lambda>popcount.
     rbind (apply_next_root s u using_next attested_slot) (\<lambda>s1.
     Inr (apply_finality s1 u using_next attested_slot finalized_slot finalized_leaf popcount)))))))"

definition get_finalized :: "sc_state \<Rightarrow> nat \<times> bytes \<times> bytes \<times> nat \<times> bytes \<times> nat" where
  "get_finalized s = (fin_slot s, fin_root s, fin_state_root s, att_slot s, att_state_root s, cur_period s)"

section \<open>Calls and histories\<close>

datatype sc_call =
    SAppendForkRow sc_row
  | SBootstrap bytes bytes bytes bytes
  | SInstallBegin nat
  | SOpenKeys
  | SOpenSession
  | SInstallChunk nat bytes bytes
  | SInstallFinalize bytes bytes
  | SInstallAbort
  | SRetire nat
  | SSubmitUpdate sc_update
  | SGetFinalized
  | SNoopBudget
  | SDonor

definition silent :: "sc_state res \<Rightarrow> (sc_state \<times> lcu_event list) res" where
  "silent m = rbind m (\<lambda>s. Inr (s, []))"

fun sc_exec :: "(bytes \<Rightarrow> bytes) \<Rightarrow> ec_ops \<Rightarrow> bytes \<Rightarrow> sc_call \<Rightarrow> sc_state \<Rightarrow> (sc_state \<times> lcu_event list) res" where
  "sc_exec H C sender (SAppendForkRow row) s = silent (sc_append_row sender row s)"
| "sc_exec H C sender (SBootstrap h r b t) s = silent (sc_bootstrap H sender h r b t s)"
| "sc_exec H C sender (SInstallBegin p) s = silent (install_begin p s)"
| "sc_exec H C sender SOpenKeys s = silent (install_open_keys s)"
| "sc_exec H C sender SOpenSession s = silent (install_open_session s)"
| "sc_exec H C sender (SInstallChunk i cb ub) s = silent (install_chunk H C i cb ub s)"
| "sc_exec H C sender (SInstallFinalize ac au) s = silent (install_finalize H C ac au s)"
| "sc_exec H C sender SInstallAbort s = silent (install_abort sender s)"
| "sc_exec H C sender (SRetire g) s = silent (sc_retire g s)"
| "sc_exec H C sender (SSubmitUpdate u) s = submit_update H C u s"
| "sc_exec H C sender SGetFinalized s = Inr (s, [])"
| "sc_exec H C sender SNoopBudget s = Inr (s, [])"
| "sc_exec H C sender SDonor s = Inr (s, [])"

text \<open>What the ABI decoder guarantees of the arguments: static byte arrays and integers have their
  width, and a dynamic byte string fits in a value.\<close>

fun sc_call_ok :: "sc_call \<Rightarrow> bool" where
  "sc_call_ok (SAppendForkRow row) = sc_row_valid row"
| "sc_call_ok (SBootstrap h r b t) = (length h = 112 \<and> length r = 32 \<and> length t = 32)"
| "sc_call_ok (SInstallBegin p) = (p < uint64_limit)"
| "sc_call_ok (SInstallChunk i cb ub) = (i < uint64_limit \<and> length cb \<le> max_bytes \<and> length ub \<le> max_bytes)"
| "sc_call_ok (SInstallFinalize ac au) = (length ac = 48 \<and> length au = 96)"
| "sc_call_ok (SRetire g) = (g < uint64_limit)"
| "sc_call_ok (SSubmitUpdate u) = (length (u_next_root u) = 32 \<and> length (u_bits u) = 64 \<and> u_sig_slot u < uint64_limit)"
| "sc_call_ok _ = True"

inductive sc_step ::
  "(bytes \<Rightarrow> bytes) \<Rightarrow> ec_ops \<Rightarrow> sc_state \<Rightarrow> bytes \<times> sc_call \<Rightarrow> sc_state \<Rightarrow> bool" for H C where
  sc_accept: "sc_call_ok c \<Longrightarrow> sc_exec H C sender c s = Inr (s', out) \<Longrightarrow> sc_step H C s (sender, c) s'"

inductive_cases sc_stepE: "sc_step H C s (sender, c) s'"
inductive_simps sc_step_simps: "sc_step H C s (sender, c) s'"

inductive sc_run ::
  "(bytes \<Rightarrow> bytes) \<Rightarrow> ec_ops \<Rightarrow> sc_state \<Rightarrow> (bytes \<times> sc_call) list \<Rightarrow> sc_state \<Rightarrow> bool" for H C where
  sc_run_nil: "sc_run H C s [] s"
| sc_run_snoc: "sc_run H C s evs s' \<Longrightarrow> sc_step H C s' ev s'' \<Longrightarrow> sc_run H C s (evs @ [ev]) s''"

definition sc_reach :: "(bytes \<Rightarrow> bytes) \<Rightarrow> ec_ops \<Rightarrow> (bytes \<times> sc_call) list \<Rightarrow> sc_state \<Rightarrow> bool" where
  "sc_reach H C evs s \<longleftrightarrow> (\<exists>gov gvr. length gov = 32 \<and> length gvr = 32 \<and> sc_run H C (sc_create gov gvr) evs s)"

end
