(* ===== verification/SC_Inv.thy ===== *)
theory SC_Inv
  imports SC_Verifier
begin

text \<open>
  The invariant of the light client: generations are distinct and counted, the boxes of an open session
  hold exactly the members bound so far, and every live generation holds a complete committee folded to
  a root that \<open>R\<close> vouches for. \<open>R p r\<close> reads: \<open>r\<close> was established as the committee root of period \<open>p\<close>.
\<close>

section \<open>The boxes of one generation\<close>

definition gen_box :: "nat \<Rightarrow> bytes \<Rightarrow> bool" where
  "gen_box g name \<longleftrightarrow> (\<exists>j<8. name = key_box_name g j) \<or> name = total_box_name g \<or> name = session_box_name g"

lemma gen_box_unique:
  assumes "gen_box g name" and "gen_box h name" and "g < uint64_limit" and "h < uint64_limit"
  shows "g = h"
  using assms(1,2) key_box_name_eq [OF assms(3,4)] total_box_name_eq [OF assms(3,4)] session_box_name_eq [OF assms(3,4)]
  by (auto simp: gen_box_def)

lemma gen_box_names [simp]:
  "j < 8 \<Longrightarrow> gen_box g (key_box_name g j)" "gen_box g (total_box_name g)" "gen_box g (session_box_name g)"
  by (auto simp: gen_box_def)

definition no_boxes :: "boxes \<Rightarrow> nat \<Rightarrow> bool" where
  "no_boxes bs g \<longleftrightarrow> (\<forall>name. gen_box g name \<longrightarrow> bs name = None)"

definition only_gen :: "nat \<Rightarrow> boxes \<Rightarrow> boxes \<Rightarrow> bool" where
  "only_gen g bs bs' \<longleftrightarrow> (\<forall>name. \<not> gen_box g name \<longrightarrow> bs' name = bs name)"

text \<open>What is known of a generation depends on its own boxes only.\<close>

lemma only_gen_same:
  assumes "only_gen g bs bs'" and "h \<noteq> g" and "g < uint64_limit" and "h < uint64_limit" and "gen_box h name"
  shows "bs' name = bs name"
  using assms gen_box_unique unfolding only_gen_def by blast

lemma no_boxes_frame:
  assumes "only_gen g bs bs'" "h \<noteq> g" "g < uint64_limit" "h < uint64_limit" "no_boxes bs h"
  shows "no_boxes bs' h"
  using only_gen_same [OF assms(1-4)] assms(5) by (simp add: no_boxes_def)

lemma keys_stored_cong:
  assumes "\<And>j. j < 8 \<Longrightarrow> bs' (key_box_name g j) = bs (key_box_name g j)" and "length us \<le> 512"
  shows "keys_stored bs' g us = keys_stored bs g us"
proof -
  have "i div 64 < 8" if "i < length us" for i using that assms(2) by auto
  then show ?thesis using assms(1) by (auto simp: keys_stored_def)
qed

lemma committee_stored_frame:
  assumes "only_gen g bs bs'" "h \<noteq> g" "g < uint64_limit" "h < uint64_limit"
  shows "committee_stored C bs' h us = committee_stored C bs h us"
proof -
  note same = only_gen_same [OF assms]
  have "length us = 512 \<Longrightarrow> keys_stored bs' h us = keys_stored bs h us"
    by (rule keys_stored_cong) (simp_all add: same)
  then show ?thesis by (auto simp: committee_stored_def same)
qed

lemma session_inv_frame:
  assumes "only_gen g bs bs'" "h \<noteq> g" "g < uint64_limit" "h < uint64_limit"
  shows "session_inv H C G bs' h ms = session_inv H C G bs h ms"
proof -
  note same = only_gen_same [OF assms]
  have "length ms \<le> 512 \<Longrightarrow> keys_stored bs' h (map snd ms) = keys_stored bs h (map snd ms)"
    by (rule keys_stored_cong) (simp_all add: same)
  then show ?thesis by (auto simp: session_inv_def same)
qed

section \<open>A complete committee\<close>

definition committee_members :: "(bytes \<Rightarrow> bytes) \<Rightarrow> ec_ops \<Rightarrow> bytes set \<Rightarrow> (bytes \<times> bytes) list \<Rightarrow> bytes \<Rightarrow> bytes \<Rightarrow> bool" where
  "committee_members H C G ms agg root \<longleftrightarrow>
     length ms = 512 \<and> (\<forall>p\<in>set ms. member_ok G p) \<and> member_ok G (agg, gsum C (map snd ms)) \<and>
     committee_root H (map fst ms) agg = root"

definition installed :: "(bytes \<Rightarrow> bytes) \<Rightarrow> ec_ops \<Rightarrow> bytes set \<Rightarrow> boxes \<Rightarrow> nat \<Rightarrow> bytes \<Rightarrow> bool" where
  "installed H C G bs g root \<longleftrightarrow>
     (\<exists>ms agg. committee_members H C G ms agg root \<and> committee_stored C bs g (map snd ms))"

lemma installed_frame:
  assumes "only_gen g bs bs'" "h \<noteq> g" "g < uint64_limit" "h < uint64_limit"
  shows "installed H C G bs' h root = installed H C G bs h root"
  by (simp add: installed_def committee_stored_frame [OF assms])

text \<open>Finalization turns a complete session into an installed committee.\<close>

lemma finalize_installs:
  assumes c: "g1_curve C G" and H: "\<And>x. length (H x) = 32" and inv: "session_inv H C G bs g ms"
    and t: "bs (total_box_name g) = None"
    and fin: "install_process_finalize H C g (length ms) root aggc aggu bs = Inr (bs1, a_total)"
    and cr: "box_create bs1 (total_box_name g) G1_BYTES = Inr (bs2, b)"
    and rp: "box_replace bs2 (total_box_name g) 0 a_total = Inr bs3"
  shows "only_gen g bs bs3" and "installed H C G bs3 g root"
proof -
  have f: "length ms = 512" "committee_root H (map fst ms) aggc = root" "member_ok G (aggc, aggu)"
    "aggu = gsum C (map snd ms)" "a_total = aggu" "bs1 = bs(session_box_name g := None)"
    using iffD1 [OF process_finalize_core [where H = H, OF c H inv] fin] by blast+
  have len: "length aggu = 96" using member_length [OF c f(3)] by simp
  have "bs2 = bs1(total_box_name g \<mapsto> replicate 96 0)" using cr t f(6) by (auto simp: res_simps G1_BYTES_def)
  then have bs3: "bs3 = bs1(total_box_name g \<mapsto> aggu)"
    using rp f(5) len by (auto simp: res_simps overwrite_all)
  show "only_gen g bs bs3" by (auto simp: only_gen_def bs3 f(6))
  have "keys_stored bs3 g (map snd ms) = keys_stored bs g (map snd ms)"
    by (rule keys_stored_cong) (simp_all add: bs3 f(1,6))
  then have "committee_stored C bs3 g (map snd ms)"
    using inv f(1,4) by (simp add: committee_stored_def session_inv_def bs3)
  then show "installed H C G bs3 g root"
    using f inv unfolding installed_def committee_members_def session_inv_def by blast
qed

section \<open>The invariant\<close>

definition opened_keys :: "boxes \<Rightarrow> nat \<Rightarrow> bool" where
  "opened_keys bs g \<longleftrightarrow> (\<forall>j<8. bs (key_box_name g j) = Some (replicate 6144 0)) \<and>
     bs (total_box_name g) = None \<and> bs (session_box_name g) = None"

definition gens_ok :: "sc_state \<Rightarrow> bool" where
  "gens_ok s \<longleftrightarrow>
     gen_counter s < uint64_limit \<and> cur_gen s \<le> gen_counter s \<and> next_gen s \<le> gen_counter s \<and>
     inst_gen s \<le> gen_counter s \<and> (cur_gen s = 0 \<longrightarrow> next_gen s = 0) \<and>
     (next_gen s \<noteq> 0 \<longrightarrow> next_gen s \<noteq> cur_gen s) \<and>
     (inst_gen s \<noteq> 0 \<longrightarrow> inst_gen s \<noteq> cur_gen s \<and> inst_gen s \<noteq> next_gen s) \<and>
     (inst_state s = 0 \<longleftrightarrow> inst_gen s = 0) \<and> inst_state s \<le> 3"

definition session_ok :: "(bytes \<Rightarrow> bytes) \<Rightarrow> ec_ops \<Rightarrow> bytes set \<Rightarrow> sc_state \<Rightarrow> bool" where
  "session_ok H C G s \<longleftrightarrow>
     (inst_state s = 1 \<longrightarrow> no_boxes (sc_boxes s) (inst_gen s) \<and> inst_cursor s = 0) \<and>
     (inst_state s = 2 \<longrightarrow> opened_keys (sc_boxes s) (inst_gen s) \<and> inst_cursor s = 0) \<and>
     (inst_state s = 3 \<longrightarrow> sc_boxes s (total_box_name (inst_gen s)) = None \<and>
        (\<exists>ms. session_inv H C G (sc_boxes s) (inst_gen s) ms \<and> inst_cursor s = length ms))"

definition roots_ok :: "(nat \<Rightarrow> bytes \<Rightarrow> bool) \<Rightarrow> sc_state \<Rightarrow> bool" where
  "roots_ok R s \<longleftrightarrow>
     (next_committee_root_period s \<noteq> 0 \<longrightarrow> R (next_committee_root_period s) (next_committee_root_trusted s)) \<and>
     (inst_state s \<noteq> 0 \<longrightarrow> R (inst_period s) (inst_root s))"

definition sc_inv :: "(bytes \<Rightarrow> bytes) \<Rightarrow> ec_ops \<Rightarrow> bytes set \<Rightarrow> (nat \<Rightarrow> bytes \<Rightarrow> bool) \<Rightarrow> sc_state \<Rightarrow> bool" where
  "sc_inv H C G R s \<longleftrightarrow>
     gens_ok s \<and> session_ok H C G s \<and> roots_ok R s \<and>
     (\<forall>g. gen_counter s < g \<and> g < uint64_limit \<longrightarrow> no_boxes (sc_boxes s) g) \<and>
     (cur_gen s \<noteq> 0 \<longrightarrow> (\<exists>r. R (cur_period s) r \<and> installed H C G (sc_boxes s) (cur_gen s) r)) \<and>
     (next_gen s \<noteq> 0 \<longrightarrow> (\<exists>r. R (next_period s) r \<and> installed H C G (sc_boxes s) (next_gen s) r))"

lemmas inst_states = INST_STATE_IDLE_def INST_STATE_VALIDATED_def INST_STATE_OPENING_BOXES_def
  INST_STATE_INSTALLING_def

lemma sc_inv_create: "sc_inv H C G R (sc_create gov gvr)"
  by (simp add: sc_inv_def gens_ok_def session_ok_def roots_ok_def sc_create_def inst_states no_boxes_def uint64_limit_def)

lemma sc_inv_mono:
  assumes "\<And>p r. R p r \<Longrightarrow> R' p r"
  shows "sc_inv H C G R s \<Longrightarrow> sc_inv H C G R' s"
  using assms unfolding sc_inv_def roots_ok_def by blast

text \<open>An operation that touches the boxes of one generation other than the live ones.\<close>

lemma sc_inv_touch:
  assumes inv: "sc_inv H C G R s" and og: "only_gen g (sc_boxes s) bs" and g: "g < uint64_limit" "g \<noteq> 0"
    and ne: "g \<noteq> cur_gen s" "g \<noteq> next_gen s"
  shows "cur_gen s \<noteq> 0 \<longrightarrow> (\<exists>r. R (cur_period s) r \<and> installed H C G bs (cur_gen s) r)"
    and "next_gen s \<noteq> 0 \<longrightarrow> (\<exists>r. R (next_period s) r \<and> installed H C G bs (next_gen s) r)"
    and "h \<noteq> g \<Longrightarrow> gen_counter s < h \<Longrightarrow> h < uint64_limit \<Longrightarrow> no_boxes bs h"
proof -
  have l: "cur_gen s < uint64_limit" "next_gen s < uint64_limit"
    using inv by (auto simp: sc_inv_def gens_ok_def)
  show "cur_gen s \<noteq> 0 \<longrightarrow> (\<exists>r. R (cur_period s) r \<and> installed H C G bs (cur_gen s) r)"
    using inv installed_frame [OF og ne(1) [symmetric] g(1) l(1), of H C G] by (simp add: sc_inv_def)
  show "next_gen s \<noteq> 0 \<longrightarrow> (\<exists>r. R (next_period s) r \<and> installed H C G bs (next_gen s) r)"
    using inv installed_frame [OF og ne(2) [symmetric] g(1) l(2), of H C G] by (simp add: sc_inv_def)
  show "h \<noteq> g \<Longrightarrow> gen_counter s < h \<Longrightarrow> h < uint64_limit \<Longrightarrow> no_boxes bs h"
    using inv no_boxes_frame [OF og _ g(1)] by (simp add: sc_inv_def)
qed

section \<open>What establishes a committee root\<close>

text \<open>The call \<open>ev\<close>, made in state \<open>s\<close>, proved \<open>r\<close> to be the committee root of period \<open>p\<close>: governance
  bootstrapped from a trusted header that commits to it, or an update of the store's period, signed by the
  current committee, carried a valid branch for it.\<close>

fun root_proved :: "(bytes \<Rightarrow> bytes) \<Rightarrow> ec_ops \<Rightarrow> sc_state \<Rightarrow> bytes \<times> sc_call \<Rightarrow> nat \<Rightarrow> bytes \<Rightarrow> bool" where
  "root_proved H C s (sender, SBootstrap h r' b t) p r \<longleftrightarrow>
     r' = r \<and> sender = sc_gov s \<and> hash_tree_root_beacon_block_header H h = Inr t \<and>
     (\<exists>slot ga gc gn. header_slot h = Inr slot \<and> p = period_at_slot slot \<and>
        lookup_gindices (sc_globals s) (sc_fork_count s) (epoch_at_slot slot) = Inr (ga, gc, gn) \<and>
        assert_valid_normalized_merkle_branch H r b gc (bslice h 48 80) = Inr ())"
| "root_proved H C s (sender, SSubmitUpdate u) p r \<longleftrightarrow>
     u_next_root u = r \<and>
     (\<exists>as fs fv leaf n ga gc gn. header_slot (u_attested u) = Inr as \<and> header_slot (u_finalized u) = Inr fs \<and>
        p = period_at_slot as + 1 \<and> select_committee s as fs (u_sig_slot u) = Inr (False, cur_gen s) \<and>
        check_branches H s u as fs = Inr (fv, leaf) \<and>
        lookup_gindices (sc_globals s) (sc_fork_count s) (epoch_at_slot as) = Inr (ga, gc, gn) \<and>
        assert_valid_normalized_merkle_branch H r (u_next_branch u) gn (bslice (u_attested u) 48 80) = Inr () \<and>
        check_signature H C s u (cur_gen s) fv = Inr n)"
| "root_proved H C s (sender, c) p r \<longleftrightarrow> False"

section \<open>The operations, inverted\<close>

lemma bootstrap_Inr:
  "sc_bootstrap H sender h r b t s = Inr s' \<Longrightarrow>
   sender = sc_gov s \<and> cur_gen s = 0 \<and> inst_state s = 0 \<and> gen_counter s + 1 < uint64_limit \<and>
   (\<exists>slot. header_slot h = Inr slot \<and> root_proved H C s (sender, SBootstrap h r b t) (period_at_slot slot) r \<and>
     s' = s\<lparr>gen_counter := gen_counter s + 1, inst_gen := gen_counter s + 1, inst_period := period_at_slot slot,
       inst_root := r, inst_cursor := 0, inst_state := 1, fin_slot := slot, fin_root := t,
       fin_state_root := bslice h 48 80, att_slot := slot, att_state_root := bslice h 48 80\<rparr>)"
  by (auto simp: sc_bootstrap_def reserve_generation_def res_simps inst_states Let_def split: prod.splits)

lemma begin_Inr:
  "install_begin p s = Inr s' \<Longrightarrow>
   inst_state s = 0 \<and> p = cur_period s + 1 \<and> next_committee_root_period s = p \<and> gen_counter s + 1 < uint64_limit \<and>
   s' = s\<lparr>gen_counter := gen_counter s + 1, inst_gen := gen_counter s + 1, inst_period := p,
       inst_root := next_committee_root_trusted s, inst_cursor := 0, inst_state := 1\<rparr>"
  by (auto simp: install_begin_def reserve_generation_def res_simps inst_states)

lemma select_Inr:
  "select_committee s as fs sig = Inr (n, g) \<longleftrightarrow>
   as < sig \<and> fs \<le> as \<and> n = (period_at_slot sig = period_at_slot (fin_slot s) + 1) \<and>
   (period_at_slot sig = period_at_slot (fin_slot s) \<or> n) \<and> g = (if n then next_gen s else cur_gen s) \<and> g \<noteq> 0"
  by (auto simp: select_committee_def res_simps Let_def)

lemma submit_Inr:
  assumes "submit_update H C u s = Inr (s', out)"
  obtains as fs n g fv leaf cnt s1 where
    "header_slot (u_attested u) = Inr as" "header_slot (u_finalized u) = Inr fs"
    "select_committee s as fs (u_sig_slot u) = Inr (n, g)" "check_branches H s u as fs = Inr (fv, leaf)"
    "check_signature H C s u g fv = Inr cnt" "apply_next_root s u n as = Inr s1"
    "(s', out) = apply_finality s1 u n as fs leaf cnt"
  using assms by (auto simp: submit_update_def res_simps split: prod.splits)

text \<open>The next-root step changes two fields at most, and only to a root it proved.\<close>

lemma next_root_Inr:
  assumes "apply_next_root s u n as = Inr s1"
  shows "s1 = s \<or> (0 < length (u_next_branch u) \<and> \<not> n \<and> period_at_slot as = period_at_slot (fin_slot s) \<and>
    next_committee_root_period s \<noteq> period_at_slot as + 1 \<and>
    s1 = s\<lparr>next_committee_root_trusted := u_next_root u, next_committee_root_period := period_at_slot as + 1\<rparr>)"
  using assms by (auto simp: apply_next_root_def res_simps Let_def split: if_splits)

lemma branches_next:
  assumes "check_branches H s u as fs = Inr (fv, leaf)" and "0 < length (u_next_branch u)"
  shows "\<exists>ga gc gn. lookup_gindices (sc_globals s) (sc_fork_count s) (epoch_at_slot as) = Inr (ga, gc, gn) \<and>
    assert_valid_normalized_merkle_branch H (u_next_root u) (u_next_branch u) gn (bslice (u_attested u) 48 80) = Inr ()"
  using assms by (auto simp: check_branches_def res_simps Let_def split: prod.splits)

text \<open>What an advance changes.\<close>

definition advanced :: "sc_state \<Rightarrow> sc_update \<Rightarrow> bool \<Rightarrow> nat \<Rightarrow> nat \<Rightarrow> bytes \<Rightarrow> sc_state" where
  "advanced s u n as fs leaf =
     (if n then s\<lparr>cur_gen := next_gen s, cur_period := next_period s, next_gen := 0, next_period := 0\<rparr> else s)
     \<lparr>fin_slot := fs, fin_root := leaf, fin_state_root := bslice (u_finalized u) 48 80,
      att_slot := as, att_state_root := bslice (u_attested u) 48 80\<rparr>"

lemma finality_eq:
  "apply_finality s u n as fs leaf cnt =
   (if has_supermajority cnt \<and> fin_slot s < fs then
      (advanced s u n as fs leaf,
       [\<lparr>ev_finalized_slot = fs, ev_finalized_root = leaf, ev_finalized_state_root = bslice (u_finalized u) 48 80,
         ev_attested_slot = as, ev_attested_state_root = bslice (u_attested u) 48 80, ev_participation = cnt,
         ev_signature_slot = u_sig_slot u\<rparr>])
    else (s, []))"
  by (simp add: apply_finality_def advanced_def Let_def)

section \<open>Every call keeps the invariant\<close>

lemma inv_reserve:
  assumes inv: "sc_inv H C G R s" and i: "inst_state s = 0" and n: "gen_counter s + 1 < uint64_limit"
    and R': "\<And>p r. R p r \<Longrightarrow> R' p r" "R' p r"
    and s': "gen_counter s' = gen_counter s + 1" "inst_gen s' = gen_counter s + 1" "inst_period s' = p"
      "inst_root s' = r" "inst_cursor s' = 0" "inst_state s' = 1" "cur_gen s' = cur_gen s" "next_gen s' = next_gen s"
      "cur_period s' = cur_period s" "next_period s' = next_period s" "sc_boxes s' = sc_boxes s"
      "next_committee_root_period s' = next_committee_root_period s"
      "next_committee_root_trusted s' = next_committee_root_trusted s"
  shows "sc_inv H C G R' s'"
proof -
  have "gens_ok s'" using inv i n by (auto simp: sc_inv_def gens_ok_def s')
  moreover have "session_ok H C G s'" using inv n by (auto simp: sc_inv_def session_ok_def s')
  moreover have "roots_ok R' s'" using inv R' by (auto simp: sc_inv_def roots_ok_def s')
  ultimately show ?thesis using inv R'(1) unfolding sc_inv_def by (auto simp: s')
qed

lemma inv_boxes:
  assumes inv: "sc_inv H C G R s" and og: "only_gen (inst_gen s) (sc_boxes s) bs" and i: "inst_state s \<noteq> 0"
    and s': "s' = s\<lparr>sc_boxes := bs, inst_cursor := k, inst_state := st\<rparr>" and st: "1 \<le> st" "st \<le> 3"
    and ses: "session_ok H C G s'"
  shows "sc_inv H C G R s'"
proof -
  have g: "inst_gen s < uint64_limit" "inst_gen s \<noteq> 0" "inst_gen s \<noteq> cur_gen s" "inst_gen s \<noteq> next_gen s"
    "inst_gen s \<le> gen_counter s"
    using inv i by (auto simp: sc_inv_def gens_ok_def)
  note t = sc_inv_touch [OF inv og g(1-4)]
  have "gens_ok s'" using inv i st by (auto simp: sc_inv_def gens_ok_def s')
  moreover have "roots_ok R s'" using inv i by (auto simp: sc_inv_def roots_ok_def s')
  ultimately show ?thesis using ses t g(5) unfolding sc_inv_def by (auto simp: s')
qed

lemma inv_open_keys:
  assumes inv: "sc_inv H C G R s" and e: "install_open_keys s = Inr s'"
  shows "sc_inv H C G R s'"
proof -
  from e obtain bs where i: "inst_state s = 1" and l: "open_key_loop (inst_gen s) 0 8 (sc_boxes s) = Inr bs"
    and s': "s' = s\<lparr>sc_boxes := bs, inst_state := 2\<rparr>"
    by (auto simp: install_open_keys_def install_open_key_boxes_def box_layout res_simps inst_states)
  let ?g = "inst_gen s"
  have g: "?g < uint64_limit" using inv by (auto simp: sc_inv_def gens_ok_def)
  have nb: "no_boxes (sc_boxes s) ?g" and cu: "inst_cursor s = 0" using inv i by (auto simp: sc_inv_def session_ok_def)
  note sp = open_key_loop_spec [OF l g, simplified]
  have og: "only_gen ?g (sc_boxes s) bs"
    unfolding only_gen_def gen_box_def using sp by blast
  have "bs (key_box_name ?g j) = Some (replicate 6144 0)" if "j < 8" for j
    using sp that nb by (simp add: no_boxes_def)
  moreover have "bs (total_box_name ?g) = None" "bs (session_box_name ?g) = None"
    using sp nb by (simp_all add: no_boxes_def)
  ultimately have ses: "session_ok H C G s'" using cu by (simp add: session_ok_def s' opened_keys_def)
  have eq: "s' = s\<lparr>sc_boxes := bs, inst_cursor := inst_cursor s, inst_state := 2\<rparr>" by (simp add: s')
  show ?thesis by (rule inv_boxes [OF inv og _ eq _ _ ses]) (use i in simp_all)
qed

lemma session_start:
  assumes k: "opened_keys bs g"
  shows "session_inv H C G (bs(session_box_name g \<mapsto> replicate 424 0)) g []"
proof -
  have "replicate 424 (0::byte) = replicate 320 0 @ itob 0 @ gsum C []"
    by (simp add: itob_def be_bytes_zero g1_infinity_def G1_BYTES_def flip: replicate_add)
  moreover have "stack_inv H 9 (leaves H []) (replicate 320 0) (length ([] :: (bytes \<times> bytes) list))"
    by (simp add: leaves_def stack_inv_init)
  ultimately show ?thesis using k by (auto simp: session_inv_def keys_stored_def opened_keys_def)
qed

lemma inv_open_session:
  assumes inv: "sc_inv H C G R s" and e: "install_open_session s = Inr s'"
  shows "sc_inv H C G R s'"
proof -
  let ?g = "inst_gen s"
  from e obtain bs b where i: "inst_state s = 2" and l: "box_create (sc_boxes s) (session_box_name ?g) 424 = Inr (bs, b)"
    and s': "s' = s\<lparr>sc_boxes := bs, inst_state := 3\<rparr>"
    by (auto simp: install_open_session_def install_open_session_box_def box_layout res_simps inst_states)
  have k: "opened_keys (sc_boxes s) ?g" and cu: "inst_cursor s = 0" using inv i by (auto simp: sc_inv_def session_ok_def)
  have bs: "bs = (sc_boxes s)(session_box_name ?g \<mapsto> replicate 424 0)"
    using l k by (auto simp: res_simps opened_keys_def)
  have og: "only_gen ?g (sc_boxes s) bs" by (auto simp: only_gen_def bs)
  have "session_inv H C G bs ?g []" unfolding bs by (rule session_start [OF k])
  moreover have "bs (total_box_name ?g) = None" using k by (simp add: bs opened_keys_def)
  ultimately have ses: "session_ok H C G s'" using cu by (auto simp: session_ok_def s' intro!: exI [of _ "[]"])
  have eq: "s' = s\<lparr>sc_boxes := bs, inst_cursor := inst_cursor s, inst_state := 3\<rparr>" by (simp add: s')
  show ?thesis by (rule inv_boxes [OF inv og _ eq _ _ ses]) (use i in simp_all)
qed

lemma inv_chunk:
  assumes c: "g1_curve C G" and H: "\<And>x. length (H x) = 32" and inv: "sc_inv H C G R s"
    and e: "install_chunk H C i cb ub s = Inr s'" and cap: "length cb \<le> max_bytes"
  shows "sc_inv H C G R s'"
proof -
  let ?g = "inst_gen s"
  from e obtain bs n where st: "inst_state s = 3"
    and p: "install_process_chunk H C ?g (inst_cursor s) cb ub (sc_boxes s) = Inr (bs, n)"
    and s': "s' = s\<lparr>sc_boxes := bs, inst_cursor := n\<rparr>"
    by (auto simp: install_chunk_def res_simps inst_states)
  obtain ms where ms: "session_inv H C G (sc_boxes s) ?g ms" "inst_cursor s = length ms"
    and t: "sc_boxes s (total_box_name ?g) = None"
    using inv st by (auto simp: sc_inv_def session_ok_def)
  have g: "?g < uint64_limit" using inv by (auto simp: sc_inv_def gens_ok_def)
  have r: "n = length ms + length cb div 48" "session_inv H C G bs ?g (ms @ chunk_members cb ub 0 (length cb div 48))"
    "\<And>name. (\<forall>j<8. name \<noteq> key_box_name ?g j) \<Longrightarrow> name \<noteq> session_box_name ?g \<Longrightarrow> bs name = sc_boxes s name"
    using process_chunk_core(2) [where H = H, OF c H g ms(1) cap p [unfolded ms(2)]] by blast+
  have og: "only_gen ?g (sc_boxes s) bs" unfolding only_gen_def gen_box_def using r(3) by blast
  have "bs (total_box_name ?g) = None" using r(3) t by simp
  then have ses: "session_ok H C G s'" using r(1,2) st by (auto simp: session_ok_def s' intro!: exI [of _ "ms @ chunk_members cb ub 0 (length cb div 48)"])
  have eq: "s' = s\<lparr>sc_boxes := bs, inst_cursor := n, inst_state := 3\<rparr>" using st by (simp add: s')
  show ?thesis by (rule inv_boxes [OF inv og _ eq _ _ ses]) (use st in simp_all)
qed

end
