(* ===== verification/SC_Steps.thy ===== *)
theory SC_Steps
  imports SC_Inv
begin

text \<open>
  The remaining operations keep the invariant, and with them every history: in each reachable state every
  live generation is a complete committee under a root that an earlier accepted call proved.
\<close>

lemma clear_session_fields [simp]:
  "inst_state (clear_session s) = 0" "inst_gen (clear_session s) = 0" "cur_gen (clear_session s) = cur_gen s"
  "next_gen (clear_session s) = next_gen s" "cur_period (clear_session s) = cur_period s"
  "next_period (clear_session s) = next_period s" "gen_counter (clear_session s) = gen_counter s"
  "sc_boxes (clear_session s) = sc_boxes s" "fin_slot (clear_session s) = fin_slot s"
  "fin_root (clear_session s) = fin_root s" "fin_state_root (clear_session s) = fin_state_root s"
  "att_slot (clear_session s) = att_slot s" "att_state_root (clear_session s) = att_state_root s"
  "next_committee_root_period (clear_session s) = next_committee_root_period s"
  "next_committee_root_trusted (clear_session s) = next_committee_root_trusted s"
  "sc_globals (clear_session s) = sc_globals s" "sc_fork_count (clear_session s) = sc_fork_count s"
  "sc_gov (clear_session s) = sc_gov s" "sc_gvr (clear_session s) = sc_gvr s"
  by (simp_all add: clear_session_def INST_STATE_IDLE_def)

lemma finalize_Inr:
  assumes "install_finalize H C aggc aggu s = Inr s'"
  obtains bs1 a_total bs2 b bs3 where
    "inst_state s = 3"
    "install_process_finalize H C (inst_gen s) (inst_cursor s) (inst_root s) aggc aggu (sc_boxes s) = Inr (bs1, a_total)"
    "box_create bs1 (total_box_name (inst_gen s)) G1_BYTES = Inr (bs2, b)"
    "box_replace bs2 (total_box_name (inst_gen s)) 0 a_total = Inr bs3"
    "s' = clear_session ((if cur_gen s = 0 then s\<lparr>cur_gen := inst_gen s, cur_period := inst_period s\<rparr>
               else s\<lparr>next_gen := inst_gen s, next_period := inst_period s\<rparr>)\<lparr>sc_boxes := bs3\<rparr>)"
  using assms by (auto simp: install_finalize_def rbind_eq_Inr require_eq_Inr INST_STATE_INSTALLING_def Let_def split: prod.splits)

lemma inv_finalize:
  assumes c: "g1_curve C G" and H: "\<And>x. length (H x) = 32" and inv: "sc_inv H C G R s"
    and e: "install_finalize H C aggc aggu s = Inr s'"
  shows "sc_inv H C G R s'"
proof -
  let ?g = "inst_gen s"
  obtain bs1 a_total bs2 b bs where st: "inst_state s = 3"
    and f: "install_process_finalize H C ?g (inst_cursor s) (inst_root s) aggc aggu (sc_boxes s) = Inr (bs1, a_total)"
    and cr: "box_create bs1 (total_box_name ?g) G1_BYTES = Inr (bs2, b)"
    and rp: "box_replace bs2 (total_box_name ?g) 0 a_total = Inr bs"
    and s': "s' = clear_session ((if cur_gen s = 0 then s\<lparr>cur_gen := ?g, cur_period := inst_period s\<rparr>
               else s\<lparr>next_gen := ?g, next_period := inst_period s\<rparr>)\<lparr>sc_boxes := bs\<rparr>)"
    using finalize_Inr [OF e] by blast
  obtain ms where ms: "session_inv H C G (sc_boxes s) ?g ms" "inst_cursor s = length ms"
    and t: "sc_boxes s (total_box_name ?g) = None"
    using inv st by (auto simp: sc_inv_def session_ok_def)
  note fi = finalize_installs [where H = H, OF c H ms(1) t f [unfolded ms(2)] cr rp]
  have g: "?g < uint64_limit" "?g \<noteq> 0" "?g \<noteq> cur_gen s" "?g \<noteq> next_gen s" "?g \<le> gen_counter s"
    using inv st by (auto simp: sc_inv_def gens_ok_def)
  have R: "R (inst_period s) (inst_root s)" using inv st by (auto simp: sc_inv_def roots_ok_def)
  note tch = sc_inv_touch [OF inv fi(1) g(1-4)]
  have go: "gens_ok s" using inv by (simp add: sc_inv_def)
  have new: "\<exists>r. R (inst_period s) r \<and> installed H C G bs ?g r" using R fi(2) by blast
  have "gens_ok s'" using go g by (auto simp: gens_ok_def s')
  moreover have "session_ok H C G s'" by (simp add: session_ok_def s')
  moreover have "roots_ok R s'" using inv by (auto simp: sc_inv_def roots_ok_def s')
  moreover have "\<forall>h. gen_counter s' < h \<and> h < uint64_limit \<longrightarrow> no_boxes (sc_boxes s') h"
    using tch(3) g(5) by (auto simp: s')
  moreover have "cur_gen s' \<noteq> 0 \<longrightarrow> (\<exists>r. R (cur_period s') r \<and> installed H C G (sc_boxes s') (cur_gen s') r)"
    using tch(1) new by (auto simp: s')
  moreover have "next_gen s' \<noteq> 0 \<longrightarrow> (\<exists>r. R (next_period s') r \<and> installed H C G (sc_boxes s') (next_gen s') r)"
    using tch(2) new by (auto simp: s')
  ultimately show ?thesis unfolding sc_inv_def by blast
qed

lemma delete_only:
  "only_gen g bs (delete_key_loop g 0 8 bs)"
  "only_gen g bs (fst (box_delete (delete_key_loop g 0 8 bs) (session_box_name g)))"
  "only_gen g bs (fst (box_delete (delete_key_loop g 0 8 bs) (total_box_name g)))"
  by (auto simp: only_gen_def box_delete_def delete_key_loop_spec)

lemma inv_cleared:
  assumes inv: "sc_inv H C G R s" and og: "only_gen (inst_gen s) (sc_boxes s) bs" and i: "inst_state s \<noteq> 0"
  shows "sc_inv H C G R (clear_session (s\<lparr>sc_boxes := bs\<rparr>))"
proof -
  let ?s = "clear_session (s\<lparr>sc_boxes := bs\<rparr>)"
  have g: "inst_gen s < uint64_limit" "inst_gen s \<noteq> 0" "inst_gen s \<noteq> cur_gen s" "inst_gen s \<noteq> next_gen s"
    "inst_gen s \<le> gen_counter s"
    using inv i by (auto simp: sc_inv_def gens_ok_def)
  note t = sc_inv_touch [OF inv og g(1-4)]
  have "gens_ok ?s" using inv by (auto simp: sc_inv_def gens_ok_def)
  moreover have "session_ok H C G ?s" by (simp add: session_ok_def)
  moreover have "roots_ok R ?s" using inv by (auto simp: sc_inv_def roots_ok_def)
  ultimately show ?thesis using t g(5) unfolding sc_inv_def by auto
qed

lemma inv_abort:
  assumes inv: "sc_inv H C G R s" and e: "install_abort sender s = Inr s'"
  shows "sc_inv H C G R s'"
proof -
  let ?bs = "if inst_state s = 2 then delete_key_loop (inst_gen s) 0 8 (sc_boxes s)
    else if inst_state s = 3 then fst (box_delete (delete_key_loop (inst_gen s) 0 8 (sc_boxes s)) (session_box_name (inst_gen s)))
    else sc_boxes s"
  have s': "s' = clear_session (s\<lparr>sc_boxes := ?bs\<rparr>)" and i: "inst_state s \<noteq> 0"
    using e by (auto simp: install_abort_def install_abort_key_boxes_def install_abort_boxes_def box_layout res_simps
        inst_states Let_def)
  have og: "only_gen (inst_gen s) (sc_boxes s) ?bs"
    using delete_only by (simp add: only_gen_def)
  show ?thesis unfolding s' by (rule inv_cleared [OF inv og i])
qed

lemma inv_retire:
  assumes inv: "sc_inv H C G R s" and e: "sc_retire g s = Inr s'" and g: "g < uint64_limit"
  shows "sc_inv H C G R s'"
proof -
  let ?bs = "install_delete_committee_boxes g (sc_boxes s)"
  from e have ne: "g \<noteq> 0" "g \<noteq> cur_gen s" "g \<noteq> next_gen s" "g \<noteq> inst_gen s" and s': "s' = s\<lparr>sc_boxes := ?bs\<rparr>"
    by (auto simp: sc_retire_def res_simps)
  have og: "only_gen g (sc_boxes s) ?bs"
    using delete_only(3) by (simp add: install_delete_committee_boxes_def box_layout)
  have ig: "inst_gen s < uint64_limit" using inv by (auto simp: sc_inv_def gens_ok_def)
  note t = sc_inv_touch [OF inv og g ne(1-3)]
  note same = only_gen_same [OF og ne(4) [symmetric] g ig]
  have "gens_ok s'" using inv by (auto simp: sc_inv_def gens_ok_def s')
  moreover have "session_ok H C G s'"
    using inv session_inv_frame [OF og ne(4) [symmetric] g ig, of H C G]
    by (auto simp: sc_inv_def session_ok_def s' no_boxes_def opened_keys_def same)
  moreover have "roots_ok R s'" using inv by (auto simp: sc_inv_def roots_ok_def s')
  moreover have "\<forall>h. gen_counter s' < h \<and> h < uint64_limit \<longrightarrow> no_boxes (sc_boxes s') h"
  proof (intro allI impI)
    fix h assume h: "gen_counter s' < h \<and> h < uint64_limit"
    show "no_boxes (sc_boxes s') h"
    proof (cases "h = g")
      case True
      have "no_boxes (sc_boxes s) g" using inv h True by (simp add: sc_inv_def s')
      then show ?thesis unfolding s' True no_boxes_def install_delete_committee_boxes_def box_delete_def
        by (simp add: delete_key_loop_spec)
    next
      case False
      then show ?thesis using t(3) h by (simp add: s')
    qed
  qed
  ultimately show ?thesis using t(1,2) unfolding sc_inv_def by (simp add: s')
qed

text \<open>The invariant depends on a few fields only.\<close>

lemma inv_fields:
  assumes inv: "sc_inv H C G R s"
    and f: "cur_gen s' = cur_gen s" "next_gen s' = next_gen s" "cur_period s' = cur_period s" "next_period s' = next_period s"
    "sc_boxes s' = sc_boxes s" "gen_counter s' = gen_counter s" "inst_gen s' = inst_gen s" "inst_state s' = inst_state s"
    "inst_period s' = inst_period s" "inst_root s' = inst_root s" "inst_cursor s' = inst_cursor s"
    and r: "next_committee_root_period s' \<noteq> 0 \<longrightarrow> R (next_committee_root_period s') (next_committee_root_trusted s')"
  shows "sc_inv H C G R s'"
proof -
  have "gens_ok s'" using inv unfolding sc_inv_def gens_ok_def f by blast
  moreover have "session_ok H C G s'" using inv unfolding sc_inv_def session_ok_def f by blast
  moreover have "roots_ok R s'" using inv r unfolding sc_inv_def roots_ok_def f by blast
  ultimately show ?thesis using inv unfolding sc_inv_def f by blast
qed

lemma inv_roots: "sc_inv H C G R s \<Longrightarrow>
  next_committee_root_period s \<noteq> 0 \<longrightarrow> R (next_committee_root_period s) (next_committee_root_trusted s)"
  by (simp add: sc_inv_def roots_ok_def)

lemma inv_append:
  assumes inv: "sc_inv H C G R s" and e: "sc_append_row sender row s = Inr s'"
  shows "sc_inv H C G R s'"
proof -
  obtain g n where "s' = s\<lparr>sc_globals := g, sc_fork_count := n\<rparr>"
    using e by (auto simp: sc_append_row_def res_simps)
  then show ?thesis using inv_roots [OF inv] by (intro inv_fields [OF inv]) simp_all
qed

lemma inv_advanced:
  assumes inv: "sc_inv H C G R s" and n: "n \<Longrightarrow> next_gen s \<noteq> 0"
  shows "sc_inv H C G R (advanced s u n as fs leaf)"
proof (cases n)
  case False
  then show ?thesis using inv_roots [OF inv] by (intro inv_fields [OF inv]) (simp_all add: advanced_def)
next
  case True
  let ?s = "advanced s u n as fs leaf"
  have nz: "next_gen s \<noteq> 0" using n True by blast
  have f: "cur_gen ?s = next_gen s" "next_gen ?s = 0" "cur_period ?s = next_period s" "sc_boxes ?s = sc_boxes s"
    "gen_counter ?s = gen_counter s" "inst_gen ?s = inst_gen s" "inst_state ?s = inst_state s" "inst_period ?s = inst_period s"
    "inst_root ?s = inst_root s" "inst_cursor ?s = inst_cursor s"
    "next_committee_root_period ?s = next_committee_root_period s" "next_committee_root_trusted ?s = next_committee_root_trusted s"
    using True by (simp_all add: advanced_def)
  have "gens_ok ?s" using inv nz unfolding sc_inv_def gens_ok_def f by simp
  moreover have "session_ok H C G ?s" using inv unfolding sc_inv_def session_ok_def f by blast
  moreover have "roots_ok R ?s" using inv unfolding sc_inv_def roots_ok_def f by blast
  ultimately show ?thesis using inv unfolding sc_inv_def f by simp
qed

lemma inv_update:
  assumes inv: "sc_inv H C G R s" and e: "submit_update H C u s = Inr (s', out)"
  shows "sc_inv H C G (\<lambda>p r. R p r \<or> root_proved H C s (sender, SSubmitUpdate u) p r) s'"
proof -
  let ?R = "\<lambda>p r. R p r \<or> root_proved H C s (sender, SSubmitUpdate u) p r"
  obtain as fs n g fv leaf cnt s1 where
    h: "header_slot (u_attested u) = Inr as" "header_slot (u_finalized u) = Inr fs"
    and sel: "select_committee s as fs (u_sig_slot u) = Inr (n, g)" and br: "check_branches H s u as fs = Inr (fv, leaf)"
    and sig: "check_signature H C s u g fv = Inr cnt" and nr: "apply_next_root s u n as = Inr s1"
    and fin: "(s', out) = apply_finality s1 u n as fs leaf cnt"
    using submit_Inr [OF e] by blast
  have inv1: "sc_inv H C G ?R s1"
  proof (cases "s1 = s")
    case True
    then show ?thesis using sc_inv_mono [OF _ inv, of ?R] by simp
  next
    case False
    then have nb: "0 < length (u_next_branch u)" "\<not> n"
      and s1: "s1 = s\<lparr>next_committee_root_trusted := u_next_root u, next_committee_root_period := period_at_slot as + 1\<rparr>"
      using next_root_Inr [OF nr] by auto
    have "g = cur_gen s" "select_committee s as fs (u_sig_slot u) = Inr (False, cur_gen s)"
      using sel nb(2) by (auto simp: select_Inr)
    then have "root_proved H C s (sender, SSubmitUpdate u) (period_at_slot as + 1) (u_next_root u)"
      using h br sig branches_next [OF br nb(1)] by auto
    then have "?R (period_at_slot as + 1) (u_next_root u)" ..
    moreover have "sc_inv H C G ?R s" using sc_inv_mono [OF _ inv, of ?R] by simp
    ultimately show ?thesis by (elim inv_fields) (simp_all add: s1)
  qed
  show ?thesis
  proof (cases "has_supermajority cnt \<and> fin_slot s1 < fs")
    case False
    then show ?thesis using fin inv1 by (auto simp: finality_eq)
  next
    case True
    then have s': "s' = advanced s1 u n as fs leaf" using fin by (simp add: finality_eq)
    have "n \<Longrightarrow> next_gen s1 \<noteq> 0" using sel next_root_Inr [OF nr] by (auto simp: select_Inr)
    then show ?thesis unfolding s' by (rule inv_advanced [OF inv1])
  qed
qed

text \<open>One step, and every history.\<close>

lemma inv_step:
  assumes c: "g1_curve C G" and H: "\<And>x. length (H x) = 32" and inv: "sc_inv H C G R s" and st: "sc_step H C s ev s'"
  shows "sc_inv H C G (\<lambda>p r. R p r \<or> root_proved H C s ev p r) s'"
proof -
  obtain sender call out where ev: "ev = (sender, call)" and okc: "sc_call_ok call"
    and ex: "sc_exec H C sender call s = Inr (s', out)"
    using st by (cases ev) (auto elim: sc_stepE)
  let ?R = "\<lambda>p r. R p r \<or> root_proved H C s ev p r"
  have inv': "sc_inv H C G ?R s" by (rule sc_inv_mono [OF _ inv]) simp
  show ?thesis
  proof (cases call)
    case (SAppendForkRow row)
    then have "sc_append_row sender row s = Inr s'" using ex by (auto simp: silent_def res_simps)
    then show ?thesis by (rule inv_append [OF inv'])
  next
    case (SBootstrap h r b t)
    then have "sc_bootstrap H sender h r b t s = Inr s'" using ex by (auto simp: silent_def res_simps)
    from bootstrap_Inr [OF this] obtain slot where f: "inst_state s = 0" "gen_counter s + 1 < uint64_limit"
      "root_proved H C s ev (period_at_slot slot) r"
      and s': "s' = s\<lparr>gen_counter := gen_counter s + 1, inst_gen := gen_counter s + 1, inst_period := period_at_slot slot,
       inst_root := r, inst_cursor := 0, inst_state := 1, fin_slot := slot, fin_root := t,
       fin_state_root := bslice h 48 80, att_slot := slot, att_state_root := bslice h 48 80\<rparr>"
      unfolding ev SBootstrap by blast
    show ?thesis by (rule inv_reserve [OF inv f(1,2), of ?R "period_at_slot slot" r]) (use f(3) s' in simp_all)
  next
    case (SInstallBegin p)
    then have "install_begin p s = Inr s'" using ex by (auto simp: silent_def res_simps)
    from begin_Inr [OF this] have f: "inst_state s = 0" "next_committee_root_period s = p" "p \<noteq> 0" "gen_counter s + 1 < uint64_limit"
      and s': "s' = s\<lparr>gen_counter := gen_counter s + 1, inst_gen := gen_counter s + 1, inst_period := p,
       inst_root := next_committee_root_trusted s, inst_cursor := 0, inst_state := 1\<rparr>" by auto
    have r: "R p (next_committee_root_trusted s)" using inv f(2,3) by (auto simp: sc_inv_def roots_ok_def)
    show ?thesis by (rule inv_reserve [OF inv f(1,4), of ?R p "next_committee_root_trusted s"]) (use r s' in simp_all)
  next
    case SOpenKeys
    then show ?thesis using ex inv_open_keys [OF inv'] by (auto simp: silent_def res_simps)
  next
    case SOpenSession
    then show ?thesis using ex inv_open_session [OF inv'] by (auto simp: silent_def res_simps)
  next
    case (SInstallChunk i cb ub)
    then show ?thesis using ex okc inv_chunk [where H = H, OF c H inv'] by (auto simp: silent_def res_simps)
  next
    case (SInstallFinalize ac au)
    then show ?thesis using ex inv_finalize [where H = H, OF c H inv'] by (auto simp: silent_def res_simps)
  next
    case SInstallAbort
    then show ?thesis using ex inv_abort [OF inv'] by (auto simp: silent_def res_simps)
  next
    case (SRetire g)
    then show ?thesis using ex okc inv_retire [OF inv'] by (auto simp: silent_def res_simps)
  next
    case (SSubmitUpdate u)
    then show ?thesis using ex inv_update [OF inv] ev by simp
  qed (use ex inv' in simp_all)
qed

text \<open>What a history has established: some call in it, made in the state reached by then, proved the root.\<close>

definition established ::
  "(bytes \<Rightarrow> bytes) \<Rightarrow> ec_ops \<Rightarrow> sc_state \<Rightarrow> (bytes \<times> sc_call) list \<Rightarrow> nat \<Rightarrow> bytes \<Rightarrow> bool" where
  "established H C s0 evs p r \<longleftrightarrow>
     (\<exists>pre ev post s s'. evs = pre @ ev # post \<and> sc_run H C s0 pre s \<and> sc_step H C s ev s' \<and> root_proved H C s ev p r)"

lemma established_snoc:
  "established H C s0 evs p r \<Longrightarrow> established H C s0 (evs @ [ev]) p r"
  unfolding established_def by (metis append_Cons append_assoc)

lemma sc_run_inv:
  assumes c: "g1_curve C G" and H: "\<And>x. length (H x) = 32"
  shows "sc_run H C s evs s' \<Longrightarrow> sc_inv H C G R s \<Longrightarrow> sc_inv H C G (\<lambda>p r. R p r \<or> established H C s evs p r) s'"
proof (induction rule: sc_run.induct)
  case (sc_run_nil s)
  then show ?case using sc_inv_mono [of R "\<lambda>p r. R p r \<or> established H C s [] p r"] by blast
next
  case (sc_run_snoc s evs s1 ev s2)
  let ?E = "\<lambda>p r. (R p r \<or> established H C s evs p r) \<or> root_proved H C s1 ev p r"
  have "sc_inv H C G ?E s2" using inv_step [where H = H, OF c H] sc_run_snoc by blast
  moreover have "established H C s (evs @ [ev]) p r" if "root_proved H C s1 ev p r" for p r
    using that sc_run_snoc.hyps unfolding established_def by blast
  ultimately show ?case using established_snoc [of H C s evs _ _ ev] by (elim sc_inv_mono [rotated]) blast
qed

lemma sc_reach_inv:
  assumes "g1_curve C G" and "\<And>x. length (H x) = 32" and "sc_run H C (sc_create gov gvr) evs s"
  shows "sc_inv H C G (established H C (sc_create gov gvr) evs) s"
  using sc_run_inv [where H = H, OF assms sc_inv_create [of H C G "\<lambda>_ _. False"]] by simp

end
