(* ===== verification/SC_Live.thy ===== *)
theory SC_Live
  imports SC_Steps
begin

text \<open>
  Progress of an installation: from a validated session any sender who holds the committee's points can
  open the boxes, feed the members in chunks and finalize, and no other call is needed.
\<close>

lemma sc_run_append: "sc_run H C s1 b s2 \<Longrightarrow> sc_run H C s a s1 \<Longrightarrow> sc_run H C s (a @ b) s2"
proof (induction rule: sc_run.induct)
  case (sc_run_nil s)
  then show ?case by simp
next
  case (sc_run_snoc s1 b s2 ev s3)
  then have "sc_run H C s ((a @ b) @ [ev]) s3" by (intro sc_run.sc_run_snoc) blast+
  then show ?case by simp
qed

lemma sc_run_one: "sc_step H C s ev s' \<Longrightarrow> sc_run H C s [ev] s'"
  using sc_run.sc_run_snoc [OF sc_run.sc_run_nil] by fastforce

lemma sc_run_cons: "sc_step H C s ev s1 \<Longrightarrow> sc_run H C s1 evs s2 \<Longrightarrow> sc_run H C s (ev # evs) s2"
  using sc_run_append [OF _ sc_run_one] by fastforce

section \<open>Encoding a chunk\<close>

definition chunk_call :: "nat \<Rightarrow> (bytes \<times> bytes) list \<Rightarrow> sc_call" where
  "chunk_call n ch = SInstallChunk n (concat (map fst ch)) (concat (map snd ch))"

lemma concat_const_length: "(\<And>x. x \<in> set xs \<Longrightarrow> length x = n) \<Longrightarrow> length (concat xs) = length xs * n"
  by (induction xs) auto

lemma seg_concat_const:
  assumes "\<And>x. x \<in> set xs \<Longrightarrow> length x = n" and "i < length xs"
  shows "seg (i * n) n (concat xs) = xs ! i"
  using assms
proof (induction xs arbitrary: i)
  case Nil
  then show ?case by simp
next
  case (Cons x xs)
  show ?case
  proof (cases i)
    case 0
    then show ?thesis using Cons.prems(1) by (simp add: seg_def)
  next
    case (Suc j)
    have "seg (i * n) n (x @ concat xs) = seg (j * n) n (concat xs)"
      using Cons.prems(1) [of x] Suc by (simp add: seg_append_right)
    then show ?thesis using Cons Suc by simp
  qed
qed

lemma chunk_members_encode:
  assumes "\<And>p. p \<in> set ch \<Longrightarrow> length (fst p) = 48 \<and> length (snd p) = 96"
  shows "chunk_members (concat (map fst ch)) (concat (map snd ch)) 0 (length ch) = ch"
proof (rule nth_equalityI)
  show "length (chunk_members (concat (map fst ch)) (concat (map snd ch)) 0 (length ch)) = length ch" by simp
  fix i assume "i < length (chunk_members (concat (map fst ch)) (concat (map snd ch)) 0 (length ch))"
  then have i: "i < length ch" by simp
  have "seg (i * 48) 48 (concat (map fst ch)) = map fst ch ! i" "seg (i * 96) 96 (concat (map snd ch)) = map snd ch ! i"
    using assms i by (intro seg_concat_const; auto)+
  then show "chunk_members (concat (map fst ch)) (concat (map snd ch)) 0 (length ch) ! i = ch ! i"
    using i by (simp add: chunk_members_def chunk_member_def)
qed

section \<open>Each phase is accepted\<close>

lemma open_keys_accepted:
  assumes inv: "sc_inv H C G R s" and i: "inst_state s = 1"
  shows "\<exists>bs. sc_step H C s (x, SOpenKeys) (s\<lparr>sc_boxes := bs, inst_state := 2\<rparr>)"
proof -
  let ?g = "inst_gen s"
  have g: "?g < uint64_limit" and nb: "no_boxes (sc_boxes s) ?g"
    using inv i by (auto simp: sc_inv_def gens_ok_def session_ok_def)
  have "\<exists>bs'. open_key_loop ?g j k bs = Inr bs'" if "j + k \<le> 8" "\<forall>i. j \<le> i \<and> i < 8 \<longrightarrow> bs (key_box_name ?g i) = None" for j k bs
    using that
  proof (induction k arbitrary: j bs)
    case 0
    then show ?case by simp
  next
    case (Suc k)
    have n: "bs (key_box_name ?g j) = None" using Suc.prems by simp
    let ?bs = "bs(key_box_name ?g j \<mapsto> replicate 6144 0)"
    have "\<forall>i. j + 1 \<le> i \<and> i < 8 \<longrightarrow> ?bs (key_box_name ?g i) = None"
      using Suc.prems key_box_name_eq [OF g g] by auto
    then have "\<exists>bs'. open_key_loop ?g (j + 1) k ?bs = Inr bs'" using Suc.IH Suc.prems(1) by simp
    then show ?case using n by (simp add: box_create_def box_layout max_box_size_def)
  qed
  from this [of 0 8 "sc_boxes s"] nb obtain bs where "open_key_loop ?g 0 8 (sc_boxes s) = Inr bs"
    by (auto simp: no_boxes_def)
  then have "install_open_keys s = Inr (s\<lparr>sc_boxes := bs, inst_state := 2\<rparr>)"
    using i by (simp add: install_open_keys_def install_open_key_boxes_def box_layout inst_states)
  then show ?thesis by (auto simp: sc_step_simps silent_def)
qed

lemma open_session_accepted:
  assumes inv: "sc_inv H C G R s" and i: "inst_state s = 2"
  shows "\<exists>bs. sc_step H C s (x, SOpenSession) (s\<lparr>sc_boxes := bs, inst_state := 3\<rparr>) \<and> session_inv H C G bs (inst_gen s) []"
proof -
  let ?g = "inst_gen s"
  let ?bs = "(sc_boxes s)(session_box_name ?g \<mapsto> replicate 424 0)"
  have k: "opened_keys (sc_boxes s) ?g" using inv i by (auto simp: sc_inv_def session_ok_def)
  then have "install_open_session s = Inr (s\<lparr>sc_boxes := ?bs, inst_state := 3\<rparr>)"
    using i by (simp add: install_open_session_def install_open_session_box_def box_create_def opened_keys_def
        box_layout inst_states max_box_size_def)
  then show ?thesis using session_start [OF k] by (auto simp: sc_step_simps silent_def)
qed

lemma chunk_accepted:
  assumes c: "g1_curve C G" and H: "\<And>x. length (H x) = 32" and inv: "sc_inv H C G R s" and i: "inst_state s = 3"
    and ses: "session_inv H C G (sc_boxes s) (inst_gen s) ms" "inst_cursor s = length ms"
    and ch: "\<And>p. p \<in> set ch \<Longrightarrow> member_ok G p" "length ch \<le> 42" "length ms + length ch \<le> 512"
  shows "\<exists>bs. sc_step H C s (x, chunk_call (length ms) ch) (s\<lparr>sc_boxes := bs, inst_cursor := length (ms @ ch)\<rparr>) \<and>
    session_inv H C G bs (inst_gen s) (ms @ ch)"
proof -
  let ?cb = "concat (map fst ch)" and ?ub = "concat (map snd ch)"
  have g: "inst_gen s < uint64_limit" using inv by (auto simp: sc_inv_def gens_ok_def)
  have ml: "\<And>p. p \<in> set ch \<Longrightarrow> length (fst p) = 48 \<and> length (snd p) = 96"
    using ch(1) member_length [OF c] by (metis prod.collapse)
  have lc: "length ?cb = length ch * 48" "length ?ub = length ch * 96"
  proof -
    have "length ?cb = length (map fst ch) * 48" by (rule concat_const_length) (use ml in force)
    moreover have "length ?ub = length (map snd ch) * 96" by (rule concat_const_length) (use ml in force)
    ultimately show "length ?cb = length ch * 48" "length ?ub = length ch * 96" by simp_all
  qed
  have cap: "length ?cb \<le> max_bytes" "length ?ub \<le> max_bytes" using lc ch(2) by (simp_all add: max_bytes_def)
  have d: "length ?cb div 48 = length ch" "length ?cb mod 48 = 0" by (simp_all add: lc(1))
  note enc = chunk_members_encode [OF ml]
  have ex: "\<exists>r. install_process_chunk H C (inst_gen s) (length ms) ?cb ?ub (sc_boxes s) = Inr r"
    by (rule iffD2 [OF process_chunk_core(1) [where H = H, OF c H g ses(1) cap(1)]]) (use lc d enc ch in simp)
  then obtain bs n where r: "install_process_chunk H C (inst_gen s) (length ms) ?cb ?ub (sc_boxes s) = Inr (bs, n)" by auto
  from process_chunk_core(2) [where H = H, OF c H g ses(1) cap(1) r]
  have n: "n = length (ms @ ch)" and si: "session_inv H C G bs (inst_gen s) (ms @ ch)" by (simp_all add: d enc)
  have "length ms < uint64_limit" using ch(3) by (simp add: uint64_limit_def)
  then have "sc_step H C s (x, chunk_call (length ms) ch) (s\<lparr>sc_boxes := bs, inst_cursor := length (ms @ ch)\<rparr>)"
    using i r n ses(2) cap by (simp add: sc_step_simps chunk_call_def silent_def install_chunk_def inst_states)
  with si show ?thesis by blast
qed

fun chunk_calls :: "bytes \<Rightarrow> nat \<Rightarrow> (bytes \<times> bytes) list list \<Rightarrow> (bytes \<times> sc_call) list" where
  "chunk_calls x n [] = []"
| "chunk_calls x n (ch # chs) = (x, chunk_call n ch) # chunk_calls x (n + length ch) chs"

lemma chunks_accepted:
  assumes c: "g1_curve C G" and H: "\<And>x. length (H x) = 32"
  shows "sc_inv H C G R s \<Longrightarrow> inst_state s = 3 \<Longrightarrow>
    session_inv H C G (sc_boxes s) (inst_gen s) ms \<Longrightarrow> inst_cursor s = length ms \<Longrightarrow>
    (\<And>p. p \<in> set (concat chs) \<Longrightarrow> member_ok G p) \<Longrightarrow> (\<And>ch. ch \<in> set chs \<Longrightarrow> length ch \<le> 42) \<Longrightarrow>
    length (ms @ concat chs) \<le> 512 \<Longrightarrow>
    \<exists>bs R'. let s' = s\<lparr>sc_boxes := bs, inst_cursor := length (ms @ concat chs)\<rparr> in
      sc_run H C s (chunk_calls x (length ms) chs) s' \<and> session_inv H C G bs (inst_gen s) (ms @ concat chs) \<and>
      sc_inv H C G R' s'"
proof (induction chs arbitrary: s ms R)
  case Nil
  have "s\<lparr>sc_boxes := sc_boxes s, inst_cursor := length (ms @ concat [])\<rparr> = s"
    using Nil.prems(4) [symmetric] by simp
  then show ?case using Nil sc_run.sc_run_nil
    by (intro exI [of _ "sc_boxes s"] exI [of _ R]) (simp only: Let_def chunk_calls.simps concat.simps append_Nil2 simp_thms)
next
  case (Cons ch chs)
  have len: "length ms + length ch \<le> 512" "length ch \<le> 42" using Cons.prems by auto
  have mem: "\<And>p. p \<in> set ch \<Longrightarrow> member_ok G p" using Cons.prems(5) by simp
  obtain bs where st: "sc_step H C s (x, chunk_call (length ms) ch) (s\<lparr>sc_boxes := bs, inst_cursor := length (ms @ ch)\<rparr>)"
    and si: "session_inv H C G bs (inst_gen s) (ms @ ch)"
    using chunk_accepted [where H = H, OF c H Cons.prems(1-4) mem len(2,1)] by blast
  let ?s = "s\<lparr>sc_boxes := bs, inst_cursor := length (ms @ ch)\<rparr>"
  note inv1 = inv_step [where H = H, OF c H Cons.prems(1) st]
  have pre: "inst_state ?s = 3" "session_inv H C G (sc_boxes ?s) (inst_gen ?s) (ms @ ch)" "inst_cursor ?s = length (ms @ ch)"
    using Cons.prems si by simp_all
  have mem': "\<And>p. p \<in> set (concat chs) \<Longrightarrow> member_ok G p" "\<And>ch. ch \<in> set chs \<Longrightarrow> length ch \<le> 42"
    "length ((ms @ ch) @ concat chs) \<le> 512" using Cons.prems by auto
  obtain bs' R' where run: "sc_run H C ?s (chunk_calls x (length (ms @ ch)) chs)
      (?s\<lparr>sc_boxes := bs', inst_cursor := length ((ms @ ch) @ concat chs)\<rparr>)"
    and si': "session_inv H C G bs' (inst_gen s) ((ms @ ch) @ concat chs)"
    and iv: "sc_inv H C G R' (?s\<lparr>sc_boxes := bs', inst_cursor := length ((ms @ ch) @ concat chs)\<rparr>)"
    using Cons.IH [OF inv1 pre mem'] unfolding Let_def by auto
  have eq: "?s\<lparr>sc_boxes := bs', inst_cursor := length ((ms @ ch) @ concat chs)\<rparr> =
      s\<lparr>sc_boxes := bs', inst_cursor := length (ms @ concat (ch # chs))\<rparr>" by simp
  show ?case
    using sc_run_cons [OF st run] si' iv unfolding eq Let_def by (intro exI [of _ bs'] exI [of _ R']) simp
qed

text \<open>The state an installation leaves: idle, the committee in its boxes and in its place, the rest as before.\<close>

definition after_install :: "ec_ops \<Rightarrow> sc_state \<Rightarrow> bytes list \<Rightarrow> sc_state \<Rightarrow> bool" where
  "after_install C s us s' \<longleftrightarrow>
     inst_state s' = 0 \<and> committee_stored C (sc_boxes s') (inst_gen s) us \<and>
     (if cur_gen s = 0 then cur_gen s' = inst_gen s \<and> cur_period s' = inst_period s \<and> next_gen s' = next_gen s
      else cur_gen s' = cur_gen s \<and> cur_period s' = cur_period s \<and> next_gen s' = inst_gen s \<and> next_period s' = inst_period s) \<and>
     fin_slot s' = fin_slot s \<and> fin_root s' = fin_root s \<and> fin_state_root s' = fin_state_root s \<and>
     sc_globals s' = sc_globals s \<and> sc_fork_count s' = sc_fork_count s \<and>
     sc_gvr s' = sc_gvr s \<and> sc_gov s' = sc_gov s \<and> gen_counter s' = gen_counter s \<and>
     next_committee_root_period s' = next_committee_root_period s \<and>
     next_committee_root_trusted s' = next_committee_root_trusted s"

text \<open>Finalizing the complete session.\<close>

lemma finalize_accepted:
  assumes c: "g1_curve C G" and H: "\<And>x. length (H x) = 32" and inv: "sc_inv H C G R s" and i: "inst_state s = 3"
    and ses: "session_inv H C G (sc_boxes s) (inst_gen s) ms" "inst_cursor s = 512"
    and cm: "committee_members H C G ms agg (inst_root s)"
  shows "\<exists>s'. sc_step H C s (x, SInstallFinalize agg (gsum C (map snd ms))) s' \<and> after_install C s (map snd ms) s'"
proof -
  let ?g = "inst_gen s" and ?u = "gsum C (map snd ms)"
  have l: "length ms = 512" and m: "member_ok G (agg, ?u)" and rt: "committee_root H (map fst ms) agg = inst_root s"
    using cm by (auto simp: committee_members_def)
  have lr: "length (inst_root s) = 32" unfolding rt [symmetric] committee_root_def by (rule H)
  have len: "length agg = 48" "length ?u = 96" using member_length [OF c m] by simp_all
  have t: "sc_boxes s (total_box_name ?g) = None" using inv i by (auto simp: sc_inv_def session_ok_def)
  let ?bs1 = "(sc_boxes s)(session_box_name ?g := None)"
  let ?bs = "?bs1(total_box_name ?g \<mapsto> ?u)"
  have "install_process_finalize H C ?g (length ms) (inst_root s) agg ?u (sc_boxes s) = Inr (?bs1, ?u)"
    using process_finalize_core [where H = H, OF c H ses(1)] l m rt lr by blast
  then have f: "install_process_finalize H C ?g (inst_cursor s) (inst_root s) agg ?u (sc_boxes s) = Inr (?bs1, ?u)"
    using ses(2) l by simp
  have cr: "box_create ?bs1 (total_box_name ?g) G1_BYTES = Inr (?bs1(total_box_name ?g \<mapsto> replicate 96 0), True)"
    using t by (simp add: box_create_def box_layout max_box_size_def)
  have rp: "box_replace (?bs1(total_box_name ?g \<mapsto> replicate 96 0)) (total_box_name ?g) 0 ?u = Inr ?bs"
    using len by (simp add: box_replace_all)
  let ?s' = "clear_session ((if cur_gen s = 0 then s\<lparr>cur_gen := ?g, cur_period := inst_period s\<rparr>
               else s\<lparr>next_gen := ?g, next_period := inst_period s\<rparr>)\<lparr>sc_boxes := ?bs\<rparr>)"
  have "install_finalize H C agg ?u s = Inr ?s'"
    using i f cr rp by (simp add: install_finalize_def INST_STATE_INSTALLING_def Let_def)
  then have st: "sc_step H C s (x, SInstallFinalize agg ?u) ?s'"
    using len by (simp add: sc_step_simps silent_def)
  have "keys_stored ?bs ?g (map snd ms) = keys_stored (sc_boxes s) ?g (map snd ms)"
    by (rule keys_stored_cong) (simp_all add: l)
  then have "committee_stored C (sc_boxes ?s') ?g (map snd ms)"
    using ses(1) l by (simp add: committee_stored_def session_inv_def)
  then have "after_install C s (map snd ms) ?s'" by (simp add: after_install_def)
  with st show ?thesis by blast
qed

definition install_calls :: "bytes \<Rightarrow> (bytes \<times> bytes) list list \<Rightarrow> bytes \<Rightarrow> bytes \<Rightarrow> (bytes \<times> sc_call) list" where
  "install_calls x chs agg aggu =
     (x, SOpenKeys) # (x, SOpenSession) # chunk_calls x 0 chs @ [(x, SInstallFinalize agg aggu)]"

lemma install_runs:
  assumes c: "g1_curve C G" and H: "\<And>x. length (H x) = 32" and inv: "sc_inv H C G R s" and i: "inst_state s = 1"
    and cm: "committee_members H C G (concat chs) agg (inst_root s)" and ch: "\<And>ch. ch \<in> set chs \<Longrightarrow> length ch \<le> 42"
  shows "\<exists>s'. sc_run H C s (install_calls x chs agg (gsum C (map snd (concat chs)))) s' \<and>
    after_install C s (map snd (concat chs)) s'"
proof -
  have mem: "\<And>p. p \<in> set (concat chs) \<Longrightarrow> member_ok G p" and l: "length (concat chs) = 512"
    using cm unfolding committee_members_def by blast+
  obtain bs1 where st1: "sc_step H C s (x, SOpenKeys) (s\<lparr>sc_boxes := bs1, inst_state := 2\<rparr>)"
    using open_keys_accepted [OF inv i] by blast
  note inv1 = inv_step [where H = H, OF c H inv st1]
  let ?s1 = "s\<lparr>sc_boxes := bs1, inst_state := 2\<rparr>"
  have "inst_state ?s1 = 2" by simp
  from open_session_accepted [OF inv1 this, of x] obtain bs2 where
    st2: "sc_step H C ?s1 (x, SOpenSession) (s\<lparr>sc_boxes := bs2, inst_state := 3\<rparr>)"
    and si: "session_inv H C G bs2 (inst_gen s) []" by auto
  note inv2 = inv_step [where H = H, OF c H inv1 st2]
  let ?s2 = "s\<lparr>sc_boxes := bs2, inst_state := 3\<rparr>"
  have cu: "inst_cursor s = 0" using inv i by (auto simp: sc_inv_def session_ok_def)
  have pre: "inst_state ?s2 = 3" "session_inv H C G (sc_boxes ?s2) (inst_gen ?s2) []" "inst_cursor ?s2 = length ([] :: (bytes \<times> bytes) list)"
    "length ([] @ concat chs) \<le> 512"
    using si cu l by simp_all
  obtain bs3 R3 where run: "sc_run H C ?s2 (chunk_calls x 0 chs) (?s2\<lparr>sc_boxes := bs3, inst_cursor := 512\<rparr>)"
    and si3: "session_inv H C G bs3 (inst_gen s) (concat chs)"
    and inv3: "sc_inv H C G R3 (?s2\<lparr>sc_boxes := bs3, inst_cursor := 512\<rparr>)"
    using chunks_accepted [where H = H, OF c H inv2 pre(1-3) mem ch pre(4), of x] unfolding Let_def by (auto simp: l)
  let ?s3 = "?s2\<lparr>sc_boxes := bs3, inst_cursor := 512\<rparr>"
  have p3: "inst_state ?s3 = 3" "session_inv H C G (sc_boxes ?s3) (inst_gen ?s3) (concat chs)" "inst_cursor ?s3 = 512"
    "committee_members H C G (concat chs) agg (inst_root ?s3)"
    using si3 cm by simp_all
  from finalize_accepted [where H = H, OF c H inv3 p3, of x] obtain s' where
    st4: "sc_step H C ?s3 (x, SInstallFinalize agg (gsum C (map snd (concat chs)))) s'"
    and res: "after_install C ?s3 (map snd (concat chs)) s'" by blast
  have "sc_run H C s (install_calls x chs agg (gsum C (map snd (concat chs)))) s'"
    unfolding install_calls_def
    by (rule sc_run_cons [OF st1], rule sc_run_cons [OF st2], rule sc_run_append [OF sc_run_one [OF st4] run])
  moreover have "after_install C s (map snd (concat chs)) s'" using res by (simp add: after_install_def)
  ultimately show ?thesis by blast
qed

end
