(* ===== verification/SC_Facts.thy ===== *)
theory SC_Facts
  imports SC_Live
begin

text \<open>
  What the accepted calls of a history mean: the finalized header and where it came from, monotonicity,
  the participation result on live committees, and the abstract light-client store the contract refines.
\<close>

section \<open>Live committees\<close>

text \<open>The points stored for a generation, read off the boxes.\<close>

definition gen_keys :: "boxes \<Rightarrow> nat \<Rightarrow> bytes list" where
  "gen_keys bs g = map (\<lambda>i. seg (i mod 64 * 96) 96 (the (bs (key_box_name g (i div 64))))) [0..<512]"

lemma stored_gen_keys: "committee_stored C bs g us \<Longrightarrow> gen_keys bs g = us"
  by (rule nth_equalityI) (auto simp: gen_keys_def committee_stored_def keys_stored_def)

lemma live_committee:
  assumes inv: "sc_inv H C G R s" and g: "g = cur_gen s \<and> p = cur_period s \<or> g = next_gen s \<and> p = next_period s" "g \<noteq> 0"
  obtains ms agg r where "R p r" "committee_members H C G ms agg r" "committee_stored C (sc_boxes s) g (map snd ms)"
  using assms unfolding sc_inv_def installed_def by blast

lemma members_in: "committee_members H C G ms agg r \<Longrightarrow> set (map snd ms) \<subseteq> G"
  by (auto simp: committee_members_def member_ok_def)

lemma live_aggregate:
  assumes c: "g1_curve C G" and inv: "sc_inv H C G R s" and g: "g = cur_gen s \<or> g = next_gen s" "g \<noteq> 0"
    and b: "length bits = 64"
  shows "aggregate_participants C (sc_boxes s) bits g mode =
    Inr (participant_sum C bits (gen_keys (sc_boxes s) g), length (participants bits))"
proof -
  obtain ms agg r where m: "committee_members H C G ms agg r" "committee_stored C (sc_boxes s) g (map snd ms)"
    using live_committee [OF inv] g by metis
  show ?thesis using aggregate_core [OF c m(2) members_in [OF m(1)] b] stored_gen_keys [OF m(2)] by simp
qed

lemma select_live:
  "select_committee s as fs sig = Inr (n, g) \<Longrightarrow> (g = cur_gen s \<or> g = next_gen s) \<and> g \<noteq> 0"
  unfolding select_Inr by (metis)

section \<open>An accepted update\<close>

text \<open>The signature check, with the aggregate written as a sum over the stored keys.\<close>

definition signed_by :: "(bytes \<Rightarrow> bytes) \<Rightarrow> ec_ops \<Rightarrow> bytes \<Rightarrow> bytes \<Rightarrow> sc_update \<Rightarrow> bytes list \<Rightarrow> bool" where
  "signed_by H C gvr fv u us \<longleftrightarrow>
     1 \<le> length (participants (u_bits u)) \<and>
     (\<exists>domain root msg. compute_domain H domain_sync_committee fv gvr = Inr domain \<and>
        compute_signing_root H (u_attested u) domain = Inr root \<and> hash_to_g2 H C root eth_dst = Inr msg \<and>
        verify_aggregate_signature C (participant_sum C (u_bits u) us) msg (u_signature u) = Inr True)"

lemma check_signature_live:
  assumes c: "g1_curve C G" and inv: "sc_inv H C G R s" and g: "g = cur_gen s \<or> g = next_gen s" "g \<noteq> 0"
    and b: "length (u_bits u) = 64"
  shows "check_signature H C s u g fv = Inr cnt \<longleftrightarrow>
    cnt = length (participants (u_bits u)) \<and> signed_by H C (sc_gvr s) fv u (gen_keys (sc_boxes s) g)"
  using live_aggregate [OF c inv g b, of "u_mode u"]
  by (auto simp: check_signature_def res_simps signed_by_def MIN_SYNC_COMMITTEE_PARTICIPANTS_def)

text \<open>Conversely, an update that passes every check is applied.\<close>

lemma submit_accepted:
  assumes c: "g1_curve C G" and inv: "sc_inv H C G R s" and b: "length (u_bits u) = 64"
    and h: "header_slot (u_attested u) = Inr as" "header_slot (u_finalized u) = Inr fs"
    and sel: "select_committee s as fs (u_sig_slot u) = Inr (n, g)" and br: "check_branches H s u as fs = Inr (fv, leaf)"
    and sg: "signed_by H C (sc_gvr s) fv u (gen_keys (sc_boxes s) g)" and nr: "apply_next_root s u n as = Inr s1"
  shows "submit_update H C u s = Inr (apply_finality s1 u n as fs leaf (length (participants (u_bits u))))"
proof -
  have "check_signature H C s u g fv = Inr (length (participants (u_bits u)))"
    using check_signature_live [OF c inv _ _ b] select_live [OF sel] sg by blast
  then show ?thesis by (simp add: submit_update_def h sel br nr)
qed

text \<open>The finalized header an update proves: its root is the leaf at the finality index of the attested state.\<close>

definition finality_proved :: "(bytes \<Rightarrow> bytes) \<Rightarrow> sc_state \<Rightarrow> sc_update \<Rightarrow> nat \<Rightarrow> nat \<Rightarrow> bytes \<Rightarrow> bytes \<Rightarrow> bool" where
  "finality_proved H s u as fs fv leaf \<longleftrightarrow>
     header_slot (u_attested u) = Inr as \<and> header_slot (u_finalized u) = Inr fs \<and>
     finalized_leaf_of H fs (u_finalized u) = Inr leaf \<and>
     lookup_fork_version (sc_globals s) (sc_fork_count s) (fork_version_epoch_for_signature_slot (u_sig_slot u)) = Inr fv \<and>
     (\<exists>ga gc gn. lookup_gindices (sc_globals s) (sc_fork_count s) (epoch_at_slot as) = Inr (ga, gc, gn) \<and>
        assert_valid_normalized_merkle_branch H leaf (u_finality_branch u) ga (seg 48 32 (u_attested u)) = Inr ())"

lemma branches_finality:
  "header_slot (u_attested u) = Inr as \<Longrightarrow> header_slot (u_finalized u) = Inr fs \<Longrightarrow>
   check_branches H s u as fs = Inr (fv, leaf) \<Longrightarrow> finality_proved H s u as fs fv leaf"
  by (auto simp: finality_proved_def check_branches_def res_simps Let_def bslice_def split: prod.splits)

text \<open>An advance: every condition under which the finalized header changes, and to what.\<close>

definition advances_to :: "(bytes \<Rightarrow> bytes) \<Rightarrow> ec_ops \<Rightarrow> sc_state \<Rightarrow> sc_update \<Rightarrow> sc_state \<Rightarrow> bool" where
  "advances_to H C s u s' \<longleftrightarrow>
     (\<exists>as fs n g fv leaf. select_committee s as fs (u_sig_slot u) = Inr (n, g) \<and> finality_proved H s u as fs fv leaf \<and>
        hash_tree_root_beacon_block_header H (u_finalized u) = Inr leaf \<and>
        signed_by H C (sc_gvr s) fv u (gen_keys (sc_boxes s) g) \<and>
        2 * 512 \<le> 3 * length (participants (u_bits u)) \<and> fin_slot s < fs \<and> fs \<le> as \<and> as < u_sig_slot u \<and>
        fin_slot s' = fs \<and> fin_root s' = leaf \<and> fin_state_root s' = seg 48 32 (u_finalized u) \<and>
        att_slot s' = as \<and> att_state_root s' = seg 48 32 (u_attested u) \<and>
        (if n then cur_gen s' = next_gen s \<and> cur_period s' = next_period s \<and> next_gen s' = 0 \<and> next_period s' = 0
         else cur_gen s' = cur_gen s \<and> cur_period s' = cur_period s \<and> next_gen s' = next_gen s \<and> next_period s' = next_period s))"

definition same_store :: "sc_state \<Rightarrow> sc_state \<Rightarrow> bool" where
  "same_store s s' \<longleftrightarrow> get_finalized s' = get_finalized s \<and> cur_gen s' = cur_gen s \<and>
     next_gen s' = next_gen s \<and> next_period s' = next_period s"

lemma update_outcome:
  assumes c: "g1_curve C G" and inv: "sc_inv H C G R s" and e: "submit_update H C u s = Inr (s', out)"
    and b: "length (u_bits u) = 64"
  shows "sc_boxes s' = sc_boxes s \<and> sc_gvr s' = sc_gvr s \<and> (same_store s s' \<and> out = [] \<or> advances_to H C s u s' \<and> out \<noteq> [])"
proof -
  obtain as fs n g fv leaf cnt s1 where
    h: "header_slot (u_attested u) = Inr as" "header_slot (u_finalized u) = Inr fs"
    and sel: "select_committee s as fs (u_sig_slot u) = Inr (n, g)" and br: "check_branches H s u as fs = Inr (fv, leaf)"
    and sig: "check_signature H C s u g fv = Inr cnt" and nr: "apply_next_root s u n as = Inr s1"
    and fin: "(s', out) = apply_finality s1 u n as fs leaf cnt"
    using submit_Inr [OF e] by blast
  have s1: "same_store s s1" "sc_boxes s1 = sc_boxes s" "sc_gvr s1 = sc_gvr s"
    using next_root_Inr [OF nr] by (auto simp: same_store_def get_finalized_def)
  show ?thesis
  proof (cases "has_supermajority cnt \<and> fin_slot s1 < fs")
    case False
    then show ?thesis using fin s1 by (auto simp: finality_eq)
  next
    case True
    then have s': "s' = advanced s1 u n as fs leaf" and out: "out \<noteq> []" using fin by (simp_all add: finality_eq)
    have f: "fin_slot s1 = fin_slot s" "cur_gen s1 = cur_gen s" "cur_period s1 = cur_period s" "next_gen s1 = next_gen s"
      "next_period s1 = next_period s"
      using s1(1) by (simp_all add: same_store_def get_finalized_def)
    have sb: "cnt = length (participants (u_bits u))" "signed_by H C (sc_gvr s) fv u (gen_keys (sc_boxes s) g)"
      using check_signature_live [OF c inv _ _ b] select_live [OF sel] sig by blast+
    have maj: "2 * 512 \<le> 3 * length (participants (u_bits u))"
      using True sb(1) by (simp add: has_supermajority_def SYNC_COMMITTEE_SIZE_def TWO_THIRDS_NUMERATOR_def TWO_THIRDS_DENOMINATOR_def)
    have fp: "finality_proved H s u as fs fv leaf" by (rule branches_finality [OF h br])
    have leaf: "hash_tree_root_beacon_block_header H (u_finalized u) = Inr leaf"
      using fp True by (simp add: finality_proved_def finalized_leaf_of_def)
    have ord: "fs \<le> as" "as < u_sig_slot u" using sel by (simp_all add: select_Inr)
    have "advances_to H C s u s'"
      unfolding advances_to_def
      by (intro exI [of _ as] exI [of _ fs] exI [of _ n] exI [of _ g] exI [of _ fv] exI [of _ leaf])
        (use sel fp leaf sb(2) maj ord True f in \<open>simp add: s' advanced_def bslice_def\<close>)
    then show ?thesis using s1 out by (auto simp: s' advanced_def)
  qed
qed

section \<open>What one call does to the store\<close>

text \<open>Bootstrap sets the finalized header before a committee exists; an install session lands in the current or
  the staged place; an update advances; everything else leaves the store alone.\<close>

definition boots_to :: "(bytes \<Rightarrow> bytes) \<Rightarrow> sc_state \<Rightarrow> bytes \<Rightarrow> sc_state \<Rightarrow> bool" where
  "boots_to H s h s' \<longleftrightarrow>
     cur_gen s = 0 \<and> cur_gen s' = 0 \<and> next_gen s' = next_gen s \<and> next_period s' = next_period s \<and> cur_period s' = cur_period s \<and>
     header_slot h = Inr (fin_slot s') \<and> hash_tree_root_beacon_block_header H h = Inr (fin_root s') \<and>
     fin_state_root s' = seg 48 32 h"

definition lands :: "sc_state \<Rightarrow> sc_state \<Rightarrow> bool" where
  "lands s s' \<longleftrightarrow> inst_state s = 3 \<and> inst_gen s \<noteq> 0 \<and> fin_slot s' = fin_slot s \<and> fin_root s' = fin_root s \<and>
     fin_state_root s' = fin_state_root s \<and>
     (if cur_gen s = 0 then cur_gen s' = inst_gen s \<and> cur_period s' = inst_period s \<and> next_gen s' = next_gen s \<and> next_period s' = next_period s
      else cur_gen s' = cur_gen s \<and> cur_period s' = cur_period s \<and> next_gen s' = inst_gen s \<and> next_period s' = inst_period s)"

text \<open>Named, so that case analysis keeps the alternatives together.\<close>

definition store_effect :: "(bytes \<Rightarrow> bytes) \<Rightarrow> ec_ops \<Rightarrow> sc_state \<Rightarrow> bytes \<times> sc_call \<Rightarrow> sc_state \<Rightarrow> bool" where
  "store_effect H C s ev s' \<longleftrightarrow>
     same_store s s' \<or> (\<exists>x h r b t. ev = (x, SBootstrap h r b t) \<and> x = sc_gov s \<and> fin_root s' = t \<and> boots_to H s h s') \<or>
     (\<exists>x a u. ev = (x, SInstallFinalize a u) \<and> lands s s') \<or> (\<exists>x u. ev = (x, SSubmitUpdate u) \<and> advances_to H C s u s')"

lemma step_store:
  assumes c: "g1_curve C G" and inv: "sc_inv H C G R s" and st: "sc_step H C s ev s'"
  shows "store_effect H C s ev s' \<and> sc_gov s' = sc_gov s \<and> sc_gvr s' = sc_gvr s"
proof -
  obtain x call out where ev: "ev = (x, call)" and okc: "sc_call_ok call" and ex: "sc_exec H C x call s = Inr (s', out)"
    using st by (cases ev) (auto elim: sc_stepE)
  have quiet: "store_effect H C s ev s'" if "same_store s s'" using that by (simp add: store_effect_def)
  note ss = same_store_def get_finalized_def
  show ?thesis
  proof (cases call)
    case (SAppendForkRow row)
    then have "sc_append_row x row s = Inr s'" using ex by (auto simp: silent_def res_simps)
    then obtain g n where "s' = s\<lparr>sc_globals := g, sc_fork_count := n\<rparr>" by (auto simp: sc_append_row_def res_simps)
    then show ?thesis using quiet by (simp add: ss)
  next
    case (SBootstrap h r b t)
    then have "sc_bootstrap H x h r b t s = Inr s'" using ex by (auto simp: silent_def res_simps)
    from bootstrap_Inr [OF this] obtain slot where f: "x = sc_gov s" "cur_gen s = 0" "header_slot h = Inr slot"
      "hash_tree_root_beacon_block_header H h = Inr t"
      and s': "s' = s\<lparr>gen_counter := gen_counter s + 1, inst_gen := gen_counter s + 1, inst_period := period_at_slot slot,
       inst_root := r, inst_cursor := 0, inst_state := 1, fin_slot := slot, fin_root := t,
       fin_state_root := bslice h 48 80, att_slot := slot, att_state_root := bslice h 48 80\<rparr>" by auto
    have "boots_to H s h s'" using f s' by (simp add: boots_to_def bslice_def)
    then show ?thesis using f(1) s' by (auto simp: store_effect_def ev SBootstrap)
  next
    case (SInstallBegin p)
    then have "install_begin p s = Inr s'" using ex by (auto simp: silent_def res_simps)
    from begin_Inr [OF this] show ?thesis using quiet by (auto simp: ss)
  next
    case SOpenKeys
    then show ?thesis using ex quiet by (auto simp: silent_def res_simps install_open_keys_def ss)
  next
    case SOpenSession
    then show ?thesis using ex quiet by (auto simp: silent_def res_simps install_open_session_def ss)
  next
    case (SInstallChunk i cb ub)
    then show ?thesis using ex quiet by (auto simp: silent_def res_simps install_chunk_def ss)
  next
    case (SInstallFinalize a u)
    then have fin: "install_finalize H C a u s = Inr s'" using ex by (auto simp: silent_def res_simps)
    from finalize_Inr [OF this] obtain bs where st3: "inst_state s = 3"
      and s': "s' = clear_session ((if cur_gen s = 0 then s\<lparr>cur_gen := inst_gen s, cur_period := inst_period s\<rparr>
               else s\<lparr>next_gen := inst_gen s, next_period := inst_period s\<rparr>)\<lparr>sc_boxes := bs\<rparr>)" by metis
    have "inst_gen s \<noteq> 0" using inv st3 by (auto simp: sc_inv_def gens_ok_def)
    then have "lands s s'" using st3 by (simp add: lands_def s')
    then show ?thesis by (auto simp: store_effect_def ev SInstallFinalize s')
  next
    case SInstallAbort
    then have "\<exists>bs. s' = clear_session (s\<lparr>sc_boxes := bs\<rparr>)"
      using ex by (auto simp: silent_def res_simps install_abort_def Let_def)
    then show ?thesis using quiet by (auto simp: ss)
  next
    case (SRetire g)
    then show ?thesis using ex quiet by (auto simp: silent_def res_simps sc_retire_def ss)
  next
    case (SSubmitUpdate u)
    then have e: "submit_update H C u s = Inr (s', out)" and b: "length (u_bits u) = 64" using ex okc by simp_all
    have "sc_gov s' = sc_gov s"
    proof (rule submit_Inr [OF e])
      fix as fs n g fv leaf cnt s1
      assume nr: "apply_next_root s u n as = Inr s1" and fin: "(s', out) = apply_finality s1 u n as fs leaf cnt"
      have "sc_gov s1 = sc_gov s" using next_root_Inr [OF nr] by auto
      then show ?thesis using fin by (auto simp: finality_eq advanced_def split: if_splits)
    qed
    moreover have "store_effect H C s ev s'" "sc_gvr s' = sc_gvr s"
      using update_outcome [OF c inv e b] unfolding store_effect_def ev SSubmitUpdate by blast+
    ultimately show ?thesis by blast
  qed (use ex quiet in \<open>simp_all add: ss\<close>)
qed

end
