(* ===== verification/SC_Store.thy ===== *)
theory SC_Store
  imports SC_Facts
begin

text \<open>
  The abstract light-client store: a finalized header, the committee in force and the staged one as plain
  key lists, and the five ways the store may change. The contract refines it: boxes, generations, install
  sessions, aggregation modes and chunking do not appear in the abstract steps.
\<close>

record lc_store =
  lc_slot :: nat
  lc_root :: bytes
  lc_state :: bytes
  lc_current :: "(nat \<times> bytes list) option"
  lc_staged :: "(nat \<times> bytes list) option"

text \<open>A list of points vouched for as the committee of a period.\<close>

definition vouched ::
  "(bytes \<Rightarrow> bytes) \<Rightarrow> ec_ops \<Rightarrow> bytes set \<Rightarrow> (nat \<Rightarrow> bytes \<Rightarrow> bool) \<Rightarrow> nat \<Rightarrow> bytes list \<Rightarrow> bool" where
  "vouched H C G R p us \<longleftrightarrow> (\<exists>ms agg r. us = map snd ms \<and> committee_members H C G ms agg r \<and> R p r)"

inductive lc_step ::
  "(bytes \<Rightarrow> bytes) \<Rightarrow> ec_ops \<Rightarrow> bytes set \<Rightarrow> (nat \<Rightarrow> bytes \<Rightarrow> bool) \<Rightarrow> bytes \<Rightarrow> lc_store \<Rightarrow> lc_store \<Rightarrow> bool"
  for H C G R gvr where
  lc_idle: "lc_step H C G R gvr \<sigma> \<sigma>"
| lc_boot: "lc_current \<sigma> = None \<Longrightarrow> header_slot h = Inr slot \<Longrightarrow> hash_tree_root_beacon_block_header H h = Inr root \<Longrightarrow>
    lc_step H C G R gvr \<sigma> (\<sigma>\<lparr>lc_slot := slot, lc_root := root, lc_state := seg 48 32 h\<rparr>)"
| lc_first: "lc_current \<sigma> = None \<Longrightarrow> vouched H C G R p us \<Longrightarrow>
    lc_step H C G R gvr \<sigma> (\<sigma>\<lparr>lc_current := Some (p, us)\<rparr>)"
| lc_stage: "lc_current \<sigma> \<noteq> None \<Longrightarrow> vouched H C G R p us \<Longrightarrow>
    lc_step H C G R gvr \<sigma> (\<sigma>\<lparr>lc_staged := Some (p, us)\<rparr>)"
| lc_advance_current: "lc_current \<sigma> = Some (p, us) \<Longrightarrow> period_at_slot (u_sig_slot u) = period_at_slot (lc_slot \<sigma>) \<Longrightarrow>
    signed_by H C gvr fv u us \<Longrightarrow> 2 * 512 \<le> 3 * length (participants (u_bits u)) \<Longrightarrow> lc_slot \<sigma> < fs \<Longrightarrow>
    header_slot (u_finalized u) = Inr fs \<Longrightarrow> hash_tree_root_beacon_block_header H (u_finalized u) = Inr root \<Longrightarrow>
    lc_step H C G R gvr \<sigma> (\<sigma>\<lparr>lc_slot := fs, lc_root := root, lc_state := seg 48 32 (u_finalized u)\<rparr>)"
| lc_advance_staged: "lc_staged \<sigma> = Some (p, us) \<Longrightarrow> period_at_slot (u_sig_slot u) = period_at_slot (lc_slot \<sigma>) + 1 \<Longrightarrow>
    signed_by H C gvr fv u us \<Longrightarrow> 2 * 512 \<le> 3 * length (participants (u_bits u)) \<Longrightarrow> lc_slot \<sigma> < fs \<Longrightarrow>
    header_slot (u_finalized u) = Inr fs \<Longrightarrow> hash_tree_root_beacon_block_header H (u_finalized u) = Inr root \<Longrightarrow>
    lc_step H C G R gvr \<sigma> (\<sigma>\<lparr>lc_slot := fs, lc_root := root, lc_state := seg 48 32 (u_finalized u),
      lc_current := Some (p, us), lc_staged := None\<rparr>)"

inductive_cases lc_stepE: "lc_step H C G R gvr \<sigma> \<sigma>'"

definition committee_of :: "boxes \<Rightarrow> nat \<Rightarrow> nat \<Rightarrow> (nat \<times> bytes list) option" where
  "committee_of bs g p = (if g = 0 then None else Some (p, gen_keys bs g))"

definition store_abs :: "sc_state \<Rightarrow> lc_store" where
  "store_abs s = \<lparr>lc_slot = fin_slot s, lc_root = fin_root s, lc_state = fin_state_root s,
     lc_current = committee_of (sc_boxes s) (cur_gen s) (cur_period s),
     lc_staged = committee_of (sc_boxes s) (next_gen s) (next_period s)\<rparr>"

section \<open>No call touches the boxes of a live committee\<close>

lemma gen_keys_frame:
  assumes "only_gen g bs bs'" "h \<noteq> g" "g < uint64_limit" "h < uint64_limit"
  shows "gen_keys bs' h = gen_keys bs h"
proof -
  have "i < 512 \<Longrightarrow> bs' (key_box_name h (i div 64)) = bs (key_box_name h (i div 64))" for i
    by (rule only_gen_same [OF assms]) simp
  then show ?thesis by (auto simp: gen_keys_def)
qed

lemma process_chunk_frame:
  assumes c: "g1_curve C G" and H: "\<And>x. length (H x) = 32" and inv: "sc_inv H C G R s" and st: "inst_state s = 3"
    and p: "install_process_chunk H C (inst_gen s) (inst_cursor s) cb ub (sc_boxes s) = Inr (bs, n)"
    and cap: "length cb \<le> max_bytes"
  shows "only_gen (inst_gen s) (sc_boxes s) bs"
proof -
  obtain ms where ms: "session_inv H C G (sc_boxes s) (inst_gen s) ms" "inst_cursor s = length ms"
    using inv st by (auto simp: sc_inv_def session_ok_def)
  have g: "inst_gen s < uint64_limit" using inv by (auto simp: sc_inv_def gens_ok_def)
  have "bs name = sc_boxes s name" if "\<forall>j<8. name \<noteq> key_box_name (inst_gen s) j" "name \<noteq> session_box_name (inst_gen s)" for name
    using process_chunk_core(2) [where H = H, OF c H g ms(1) cap p [unfolded ms(2)]] that by blast
  then show ?thesis unfolding only_gen_def gen_box_def by blast
qed

lemma bootstrap_boxes: "sc_bootstrap H x h r b t s = Inr s' \<Longrightarrow> sc_boxes s' = sc_boxes s"
  by (auto simp: sc_bootstrap_def reserve_generation_def res_simps Let_def split: prod.splits)

text \<open>The generation a call works on: the open session's, or the one it retires.\<close>

lemma step_boxes:
  assumes c: "g1_curve C G" and H: "\<And>x. length (H x) = 32" and inv: "sc_inv H C G R s" and st: "sc_step H C s ev s'"
  shows "sc_boxes s' = sc_boxes s \<or> (\<exists>g. only_gen g (sc_boxes s) (sc_boxes s') \<and> g < uint64_limit \<and> g \<noteq> 0 \<and> g \<noteq> cur_gen s \<and> g \<noteq> next_gen s)"
proof -
  obtain x call out where ev: "ev = (x, call)" and okc: "sc_call_ok call" and ex: "sc_exec H C x call s = Inr (s', out)"
    using st by (cases ev) (auto elim: sc_stepE)
  have ig: "inst_state s \<noteq> 0 \<Longrightarrow> inst_gen s < uint64_limit \<and> inst_gen s \<noteq> 0 \<and> inst_gen s \<noteq> cur_gen s \<and> inst_gen s \<noteq> next_gen s"
    using inv by (auto simp: sc_inv_def gens_ok_def)
  have by_inst: ?thesis if "only_gen (inst_gen s) (sc_boxes s) (sc_boxes s')" "inst_state s \<noteq> 0"
    using ig that by blast
  show ?thesis
  proof (cases call)
    case (SAppendForkRow row)
    then show ?thesis using ex by (auto simp: silent_def res_simps sc_append_row_def)
  next
    case (SBootstrap h r b t)
    then have "sc_bootstrap H x h r b t s = Inr s'" using ex by (auto simp: silent_def res_simps)
    from bootstrap_boxes [OF this] show ?thesis by simp
  next
    case (SInstallBegin p)
    then have "install_begin p s = Inr s'" using ex by (auto simp: silent_def res_simps)
    from begin_Inr [OF this] show ?thesis by auto
  next
    case SOpenKeys
    then obtain bs where i: "inst_state s = 1" and l: "open_key_loop (inst_gen s) 0 8 (sc_boxes s) = Inr bs"
      and s': "s' = s\<lparr>sc_boxes := bs, inst_state := 2\<rparr>"
      using ex by (auto simp: silent_def install_open_keys_def install_open_key_boxes_def box_layout res_simps inst_states)
    have g: "inst_gen s < uint64_limit" using ig i by simp
    have "only_gen (inst_gen s) (sc_boxes s) bs"
      unfolding only_gen_def gen_box_def using open_key_loop_spec [OF l g, simplified] by blast
    then show ?thesis using by_inst i s' by simp
  next
    case SOpenSession
    then obtain bs b where i: "inst_state s = 2" and l: "box_create (sc_boxes s) (session_box_name (inst_gen s)) 424 = Inr (bs, b)"
      and s': "s' = s\<lparr>sc_boxes := bs, inst_state := 3\<rparr>"
      using ex by (auto simp: silent_def install_open_session_def install_open_session_box_def box_layout res_simps inst_states)
    have "only_gen (inst_gen s) (sc_boxes s) bs" using l by (auto simp: only_gen_def res_simps)
    then show ?thesis using by_inst i s' by simp
  next
    case (SInstallChunk i cb ub)
    then obtain bs n where i: "inst_state s = 3"
      and p: "install_process_chunk H C (inst_gen s) (inst_cursor s) cb ub (sc_boxes s) = Inr (bs, n)"
      and s': "s' = s\<lparr>sc_boxes := bs, inst_cursor := n\<rparr>"
      using ex by (auto simp: silent_def install_chunk_def res_simps inst_states)
    have "only_gen (inst_gen s) (sc_boxes s) bs"
      by (rule process_chunk_frame [where H = H, OF c H inv i p]) (use okc SInstallChunk in simp)
    then show ?thesis using by_inst i s' by simp
  next
    case (SInstallFinalize a u)
    then have fin: "install_finalize H C a u s = Inr s'" using ex by (auto simp: silent_def res_simps)
    show ?thesis
    proof (rule finalize_Inr [OF fin])
      fix bs1 a_total bs2 b bs3
      assume i: "inst_state s = 3"
        and f: "install_process_finalize H C (inst_gen s) (inst_cursor s) (inst_root s) a u (sc_boxes s) = Inr (bs1, a_total)"
        and cr: "box_create bs1 (total_box_name (inst_gen s)) G1_BYTES = Inr (bs2, b)"
        and rp: "box_replace bs2 (total_box_name (inst_gen s)) 0 a_total = Inr bs3"
        and s': "s' = clear_session ((if cur_gen s = 0 then s\<lparr>cur_gen := inst_gen s, cur_period := inst_period s\<rparr>
               else s\<lparr>next_gen := inst_gen s, next_period := inst_period s\<rparr>)\<lparr>sc_boxes := bs3\<rparr>)"
      obtain ms where ms: "session_inv H C G (sc_boxes s) (inst_gen s) ms" "inst_cursor s = length ms"
        "sc_boxes s (total_box_name (inst_gen s)) = None"
        using inv i by (auto simp: sc_inv_def session_ok_def)
      have "only_gen (inst_gen s) (sc_boxes s) bs3"
        by (rule finalize_installs(1) [where H = H, OF c H ms(1,3) f [unfolded ms(2)] cr rp])
      then show ?thesis using by_inst i s' by simp
    qed
  next
    case SInstallAbort
    then show ?thesis using ex by_inst delete_only [of "inst_gen s" "sc_boxes s"]
      by (auto simp: silent_def res_simps install_abort_def install_abort_key_boxes_def install_abort_boxes_def
          box_layout inst_states Let_def split: if_splits)
  next
    case (SRetire g)
    then have "only_gen g (sc_boxes s) (sc_boxes s')" "g \<noteq> 0" "g \<noteq> cur_gen s" "g \<noteq> next_gen s"
      using ex delete_only(3) by (auto simp: silent_def res_simps sc_retire_def install_delete_committee_boxes_def box_layout)
    then show ?thesis using okc SRetire by auto
  next
    case (SSubmitUpdate u)
    then show ?thesis using ex okc update_outcome [OF c inv] by simp
  qed (use ex in simp_all)
qed

lemma step_live_keys:
  assumes c: "g1_curve C G" and H: "\<And>x. length (H x) = 32" and inv: "sc_inv H C G R s" and st: "sc_step H C s ev s'"
    and g: "g = cur_gen s \<or> g = next_gen s"
  shows "committee_of (sc_boxes s') g p = committee_of (sc_boxes s) g p"
proof -
  have l: "g < uint64_limit" using inv g by (auto simp: sc_inv_def gens_ok_def)
  show ?thesis
    using step_boxes [where H = H, OF c H inv st]
  proof
    assume "\<exists>h. only_gen h (sc_boxes s) (sc_boxes s') \<and> h < uint64_limit \<and> h \<noteq> 0 \<and> h \<noteq> cur_gen s \<and> h \<noteq> next_gen s"
    then obtain h where h: "only_gen h (sc_boxes s) (sc_boxes s')" "h < uint64_limit" "g \<noteq> h" using g by blast
    then show ?thesis using gen_keys_frame [OF h(1) h(3) h(2) l] by (simp add: committee_of_def)
  qed simp
qed

section \<open>The simulation\<close>

text \<open>A committee that is live after the call is vouched for by what is established then.\<close>

lemma live_vouched:
  assumes inv: "sc_inv H C G R s" and g: "g = cur_gen s \<and> p = cur_period s \<or> g = next_gen s \<and> p = next_period s" "g \<noteq> 0"
  shows "vouched H C G R p (gen_keys (sc_boxes s) g)"
  using live_committee [OF assms] stored_gen_keys unfolding vouched_def by metis

lemma step_simulated:
  assumes c: "g1_curve C G" and H: "\<And>x. length (H x) = 32" and inv: "sc_inv H C G R s" and st: "sc_step H C s ev s'"
    and inv': "sc_inv H C G R' s'"
  shows "lc_step H C G R' (sc_gvr s) (store_abs s) (store_abs s')"
proof -
  have eff: "store_effect H C s ev s'" using step_store [OF c inv st] by simp
  note keep = step_live_keys [where H = H, OF c H inv st]
  let ?a = "store_abs s" and ?a' = "store_abs s'"
  consider (same) "same_store s s'" | (boot) h where "boots_to H s h s'" | (land) "lands s s'" | (adv) u where "advances_to H C s u s'"
    using eff unfolding store_effect_def by blast
  then show ?thesis
  proof cases
    case same
    then have "?a' = ?a" using keep [of "cur_gen s"] keep [of "next_gen s"]
      by (simp add: store_abs_def same_store_def get_finalized_def)
    then show ?thesis by (simp add: lc_idle)
  next
    case (boot h)
    then have h: "header_slot h = Inr (fin_slot s')" "hash_tree_root_beacon_block_header H h = Inr (fin_root s')"
      by (simp_all add: boots_to_def)
    have "?a' = ?a\<lparr>lc_slot := fin_slot s', lc_root := fin_root s', lc_state := seg 48 32 h\<rparr>"
      using boot keep [of "next_gen s"] by (simp add: store_abs_def boots_to_def committee_of_def)
    moreover have "lc_current ?a = None" using boot by (simp add: store_abs_def boots_to_def committee_of_def)
    ultimately show ?thesis using lc_boot [OF _ h] by simp
  next
    case land
    show ?thesis
    proof (cases "cur_gen s = 0")
      case True
      then have l: "cur_gen s' = inst_gen s" "cur_period s' = inst_period s" "inst_gen s \<noteq> 0" "next_gen s' = next_gen s"
        "next_period s' = next_period s" "fin_slot s' = fin_slot s" "fin_root s' = fin_root s" "fin_state_root s' = fin_state_root s"
        using land by (simp_all add: lands_def)
      have v: "vouched H C G R' (inst_period s) (gen_keys (sc_boxes s') (inst_gen s))"
        by (rule live_vouched [OF inv']) (use l in auto)
      have "?a' = ?a\<lparr>lc_current := Some (inst_period s, gen_keys (sc_boxes s') (inst_gen s))\<rparr>"
        using l keep [of "next_gen s"] by (simp add: store_abs_def committee_of_def)
      moreover have "lc_current ?a = None" using True by (simp add: store_abs_def committee_of_def)
      ultimately show ?thesis using lc_first [OF _ v] by simp
    next
      case False
      then have l: "next_gen s' = inst_gen s" "next_period s' = inst_period s" "inst_gen s \<noteq> 0" "cur_gen s' = cur_gen s"
        "cur_period s' = cur_period s" "fin_slot s' = fin_slot s" "fin_root s' = fin_root s" "fin_state_root s' = fin_state_root s"
        using land by (simp_all add: lands_def)
      have v: "vouched H C G R' (inst_period s) (gen_keys (sc_boxes s') (inst_gen s))"
        by (rule live_vouched [OF inv']) (use l in auto)
      have "?a' = ?a\<lparr>lc_staged := Some (inst_period s, gen_keys (sc_boxes s') (inst_gen s))\<rparr>"
        using l keep [of "cur_gen s"] by (simp add: store_abs_def committee_of_def)
      moreover have "lc_current ?a \<noteq> None" using False by (simp add: store_abs_def committee_of_def)
      ultimately show ?thesis using lc_stage [OF _ v] by simp
    qed
  next
    case (adv u)
    then obtain as fs n g fv leaf where sel: "select_committee s as fs (u_sig_slot u) = Inr (n, g)"
      and fp: "finality_proved H s u as fs fv leaf" and leaf: "hash_tree_root_beacon_block_header H (u_finalized u) = Inr leaf"
      and sg: "signed_by H C (sc_gvr s) fv u (gen_keys (sc_boxes s) g)"
      and maj: "2 * 512 \<le> 3 * length (participants (u_bits u))" and lt: "fin_slot s < fs"
      and f: "fin_slot s' = fs" "fin_root s' = leaf" "fin_state_root s' = seg 48 32 (u_finalized u)"
      and cg: "if n then cur_gen s' = next_gen s \<and> cur_period s' = next_period s \<and> next_gen s' = 0 \<and> next_period s' = 0
         else cur_gen s' = cur_gen s \<and> cur_period s' = cur_period s \<and> next_gen s' = next_gen s \<and> next_period s' = next_period s"
      unfolding advances_to_def by blast
    have fs: "header_slot (u_finalized u) = Inr fs" using fp by (simp add: finality_proved_def)
    have lt': "lc_slot ?a < fs" using lt by (simp add: store_abs_def)
    show ?thesis
    proof (cases n)
      case False
      then have g: "g = cur_gen s" "g \<noteq> 0" "period_at_slot (u_sig_slot u) = period_at_slot (fin_slot s)"
        using sel by (auto simp: select_Inr)
      have cur: "lc_current ?a = Some (cur_period s, gen_keys (sc_boxes s) g)" using g by (simp add: store_abs_def committee_of_def)
      have "?a' = ?a\<lparr>lc_slot := fs, lc_root := leaf, lc_state := seg 48 32 (u_finalized u)\<rparr>"
        using f cg False keep [of "cur_gen s"] keep [of "next_gen s"] by (simp add: store_abs_def)
      then show ?thesis using lc_advance_current [OF cur _ sg maj lt' fs leaf] g(3) by (simp add: store_abs_def)
    next
      case True
      then have g: "g = next_gen s" "g \<noteq> 0" "period_at_slot (u_sig_slot u) = period_at_slot (fin_slot s) + 1"
        using sel by (auto simp: select_Inr)
      have stg: "lc_staged ?a = Some (next_period s, gen_keys (sc_boxes s) g)" using g by (simp add: store_abs_def committee_of_def)
      have "?a' = ?a\<lparr>lc_slot := fs, lc_root := leaf, lc_state := seg 48 32 (u_finalized u),
          lc_current := Some (next_period s, gen_keys (sc_boxes s) g), lc_staged := None\<rparr>"
        using f cg True keep [of "next_gen s"] g by (simp add: store_abs_def committee_of_def)
      then show ?thesis using lc_advance_staged [OF stg _ sg maj lt' fs leaf] g(3) by (simp add: store_abs_def)
    qed
  qed
qed

end
