(* ===== verification/SC_Hist.thy ===== *)
theory SC_Hist
  imports SC_Store
begin

text \<open>
  Facts over whole histories of the light client: where the finalized header comes from, its monotonicity,
  and the state from which no update of the new period is ever accepted again.
\<close>

section \<open>Provenance of the finalized header\<close>

definition fin_of :: "sc_state \<Rightarrow> nat \<times> bytes \<times> bytes" where
  "fin_of s = (fin_slot s, fin_root s, fin_state_root s)"

definition fin_origin ::
  "(bytes \<Rightarrow> bytes) \<Rightarrow> ec_ops \<Rightarrow> bytes set \<Rightarrow> sc_state \<Rightarrow> (bytes \<times> sc_call) list \<Rightarrow> sc_state \<Rightarrow> bool" where
  "fin_origin H C G s0 evs s \<longleftrightarrow>
     (\<exists>pre ev post si sj. evs = pre @ ev # post \<and> sc_run H C s0 pre si \<and> sc_step H C si ev sj \<and> fin_of sj = fin_of s \<and>
       ((\<exists>h r b t. ev = (sc_gov si, SBootstrap h r b t) \<and> boots_to H si h sj \<and> fin_root sj = t) \<or>
        (\<exists>x u fv p us. ev = (x, SSubmitUpdate u) \<and> advances_to H C si u sj \<and> signed_by H C (sc_gvr si) fv u us \<and>
           vouched H C G (established H C s0 pre) p us)))"

lemma fin_origin_snoc: "fin_origin H C G s0 evs s \<Longrightarrow> fin_of s' = fin_of s \<Longrightarrow> fin_origin H C G s0 (evs @ [ev]) s'"
  unfolding fin_origin_def by (metis append_Cons append_assoc)

lemma advance_vouched:
  assumes inv: "sc_inv H C G R s" and adv: "advances_to H C s u s'"
  shows "\<exists>fv p us. signed_by H C (sc_gvr s) fv u us \<and> vouched H C G R p us"
proof -
  obtain as fs n g fv where sel: "select_committee s as fs (u_sig_slot u) = Inr (n, g)"
    and sg: "signed_by H C (sc_gvr s) fv u (gen_keys (sc_boxes s) g)"
    using adv unfolding advances_to_def by blast
  have "(g = cur_gen s \<or> g = next_gen s) \<and> g \<noteq> 0" by (rule select_live [OF sel])
  then have "\<exists>p. vouched H C G R p (gen_keys (sc_boxes s) g)" using live_vouched [OF inv] by blast
  with sg show ?thesis by blast
qed

lemma fin_originI:
  assumes "sc_run H C s0 pre si" and "sc_step H C si ev sj"
    and "(\<exists>h r b t. ev = (sc_gov si, SBootstrap h r b t) \<and> boots_to H si h sj \<and> fin_root sj = t) \<or>
        (\<exists>x u fv p us. ev = (x, SSubmitUpdate u) \<and> advances_to H C si u sj \<and> signed_by H C (sc_gvr si) fv u us \<and>
           vouched H C G (established H C s0 pre) p us)"
  shows "fin_origin H C G s0 (pre @ [ev]) sj"
  unfolding fin_origin_def
  by (rule exI [of _ pre], rule exI [of _ ev], rule exI [of _ "[]"], rule exI [of _ si], rule exI [of _ sj])
    (use assms in simp)

lemma fin_step:
  assumes c: "g1_curve C G" and H: "\<And>x. length (H x) = 32" and run: "sc_run H C s0 evs s"
    and inv: "sc_inv H C G (established H C s0 evs) s" and st: "sc_step H C s ev s'"
  shows "fin_of s' = fin_of s \<or> fin_origin H C G s0 (evs @ [ev]) s'"
proof -
  have "store_effect H C s ev s'" using step_store [OF c inv st] by simp
  then consider "same_store s s'" | "\<exists>x a u. lands s s'"
    | h r b t where "ev = (sc_gov s, SBootstrap h r b t)" "boots_to H s h s'" "fin_root s' = t"
    | x u where "ev = (x, SSubmitUpdate u)" "advances_to H C s u s'"
    unfolding store_effect_def by blast
  then show ?thesis
  proof cases
    case 3
    then show ?thesis using fin_originI [OF run st] by blast
  next
    case 4
    then show ?thesis using fin_originI [OF run st] advance_vouched [OF inv 4(2)] by blast
  qed (auto simp: fin_of_def same_store_def get_finalized_def lands_def)
qed

lemma fin_provenance:
  assumes c: "g1_curve C G" and H: "\<And>x. length (H x) = 32"
  shows "sc_run H C s0 evs s \<Longrightarrow> s0 = sc_create gov gvr \<Longrightarrow> fin_of s = fin_of s0 \<or> fin_origin H C G s0 evs s"
proof (induction rule: sc_run.induct)
  case (sc_run_nil s)
  then show ?case by simp
next
  case (sc_run_snoc s0 evs s1 ev s2)
  have inv: "sc_inv H C G (established H C s0 evs) s1"
    using sc_reach_inv [where H = H, OF c H] sc_run_snoc by blast
  have "fin_of s2 = fin_of s1 \<or> fin_origin H C G s0 (evs @ [ev]) s2"
    by (rule fin_step [where H = H, OF c H sc_run_snoc.hyps(1) inv sc_run_snoc.hyps(2)])
  then show ?case using sc_run_snoc fin_origin_snoc by metis
qed

section \<open>Monotonicity\<close>

lemma step_monotone:
  assumes c: "g1_curve C G" and inv: "sc_inv H C G R s" and st: "sc_step H C s ev s'" and g: "cur_gen s \<noteq> 0"
  shows "cur_gen s' \<noteq> 0 \<and> fin_slot s \<le> fin_slot s' \<and> (fin_slot s' = fin_slot s \<longrightarrow> fin_of s' = fin_of s)"
proof -
  have "store_effect H C s ev s'" using step_store [OF c inv st] by simp
  then consider "same_store s s'" | "lands s s'" | h where "boots_to H s h s'" | u where "advances_to H C s u s'"
    unfolding store_effect_def by blast
  then show ?thesis
  proof cases
    case (4 u)
    then obtain as fs n h where "select_committee s as fs (u_sig_slot u) = Inr (n, h)" "fin_slot s < fs" "fin_slot s' = fs"
      "if n then cur_gen s' = next_gen s else cur_gen s' = cur_gen s"
      unfolding advances_to_def by (metis (full_types))
    then show ?thesis using g by (auto simp: select_Inr split: if_splits)
  qed (use g in \<open>auto simp: fin_of_def same_store_def get_finalized_def lands_def boots_to_def\<close>)
qed

lemma run_monotone:
  assumes c: "g1_curve C G" and H: "\<And>x. length (H x) = 32"
  shows "sc_run H C s evs s' \<Longrightarrow> sc_inv H C G R s \<Longrightarrow> cur_gen s \<noteq> 0 \<Longrightarrow>
    cur_gen s' \<noteq> 0 \<and> fin_slot s \<le> fin_slot s' \<and> (fin_slot s' = fin_slot s \<longrightarrow> fin_of s' = fin_of s)"
proof (induction rule: sc_run.induct)
  case (sc_run_nil s)
  then show ?case by simp
next
  case (sc_run_snoc s evs s1 ev s2)
  then have a: "cur_gen s1 \<noteq> 0" "fin_slot s \<le> fin_slot s1" "fin_slot s1 = fin_slot s \<longrightarrow> fin_of s1 = fin_of s" by auto
  have "sc_inv H C G (\<lambda>p r. R p r \<or> established H C s evs p r) s1"
    using sc_run_inv [where H = H, OF c H] sc_run_snoc by blast
  note m = step_monotone [OF c this sc_run_snoc.hyps(2) a(1)]
  show ?case using a m by (metis le_antisym order_trans)
qed

section \<open>The early rollover\<close>

text \<open>The committee of period \<open>P + 1\<close> is in force while the finalized slot still lies in period \<open>P\<close>.\<close>

definition stalled :: "nat \<Rightarrow> sc_state \<Rightarrow> bool" where
  "stalled P s \<longleftrightarrow> cur_gen s \<noteq> 0 \<and> next_gen s = 0 \<and> period_at_slot (fin_slot s) = P \<and> cur_period s = P + 1 \<and>
     inst_state s = 0 \<and> next_committee_root_period s \<le> P + 1"

definition update_of_period :: "nat \<Rightarrow> bytes \<times> sc_call \<Rightarrow> bool" where
  "update_of_period P ev \<longleftrightarrow> (\<exists>x u. ev = (x, SSubmitUpdate u) \<and> period_at_slot (u_sig_slot u) = P)"

lemma stalled_rejects:
  assumes "stalled P s" and "period_at_slot (u_sig_slot u) \<noteq> P"
  shows "submit_update H C u s \<noteq> Inr r"
proof
  assume "submit_update H C u s = Inr r"
  then obtain as fs n g where "select_committee s as fs (u_sig_slot u) = Inr (n, g)"
    by (auto simp: submit_update_def res_simps)
  then show False using assms by (auto simp: select_Inr stalled_def split: if_splits)
qed

lemma stalled_step:
  assumes s: "stalled P s" and st: "sc_step H C s ev s'" and no: "\<not> update_of_period P ev"
  shows "stalled P s' \<and> fin_of s' = fin_of s"
proof -
  obtain x call out where ev: "ev = (x, call)" and ex: "sc_exec H C x call s = Inr (s', out)"
    using st by (cases ev) (auto elim: sc_stepE)
  show ?thesis
  proof (cases call)
    case (SAppendForkRow row)
    then show ?thesis using ex s by (auto simp: silent_def res_simps sc_append_row_def stalled_def fin_of_def)
  next
    case (SBootstrap h r b t)
    then show ?thesis using ex s by (auto simp: silent_def res_simps sc_bootstrap_def stalled_def)
  next
    case (SInstallBegin p)
    then show ?thesis using ex s by (auto simp: silent_def res_simps install_begin_def stalled_def)
  next
    case SOpenKeys
    then show ?thesis using ex s by (auto simp: silent_def res_simps install_open_keys_def stalled_def inst_states)
  next
    case SOpenSession
    then show ?thesis using ex s by (auto simp: silent_def res_simps install_open_session_def stalled_def inst_states)
  next
    case (SInstallChunk i cb ub)
    then show ?thesis using ex s by (auto simp: silent_def res_simps install_chunk_def stalled_def inst_states)
  next
    case (SInstallFinalize a u)
    then show ?thesis using ex s by (auto simp: silent_def res_simps install_finalize_def stalled_def inst_states)
  next
    case SInstallAbort
    then show ?thesis using ex s by (auto simp: silent_def res_simps install_abort_def stalled_def inst_states)
  next
    case (SRetire g)
    then show ?thesis using ex s by (auto simp: silent_def res_simps sc_retire_def stalled_def fin_of_def)
  next
    case (SSubmitUpdate u)
    have "period_at_slot (u_sig_slot u) \<noteq> P" using no by (auto simp: update_of_period_def ev SSubmitUpdate)
    then show ?thesis using stalled_rejects [OF s, of u H C "(s', out)"] ex SSubmitUpdate by simp
  qed (use ex s in simp_all)
qed

lemma stalled_run:
  "sc_run H C s evs s' \<Longrightarrow> stalled P s \<Longrightarrow> (\<forall>ev\<in>set evs. \<not> update_of_period P ev) \<Longrightarrow> stalled P s' \<and> fin_of s' = fin_of s"
proof (induction rule: sc_run.induct)
  case (sc_run_nil s)
  then show ?case by simp
next
  case (sc_run_snoc s evs s1 ev s2)
  then have "stalled P s1" "fin_of s1 = fin_of s" by auto
  then show ?case using stalled_step [OF _ sc_run_snoc.hyps(2), of P] sc_run_snoc.prems by auto
qed

text \<open>How the store gets there: an update signed in the new period whose finalized header is still in the old one.\<close>

lemma early_rollover:
  assumes e: "submit_update H C u s = Inr (s', out)" and out: "out \<noteq> []" and i: "inst_state s = 0"
    and np: "next_period s = P + 1" and rp: "next_committee_root_period s \<le> P + 1" and fp: "period_at_slot (fin_slot s) = P"
    and sg: "period_at_slot (u_sig_slot u) = P + 1" and fs: "header_slot (u_finalized u) = Inr f" "period_at_slot f = P"
  shows "stalled P s'"
proof (rule submit_Inr [OF e])
  fix as f' n g fv leaf cnt s1
  assume h: "header_slot (u_finalized u) = Inr f'"
    and sel: "select_committee s as f' (u_sig_slot u) = Inr (n, g)" and nr: "apply_next_root s u n as = Inr s1"
    and fin: "(s', out) = apply_finality s1 u n as f' leaf cnt"
  have n: n "next_gen s \<noteq> 0" using sel sg fp by (auto simp: select_Inr split: if_splits)
  have s1: "s1 = s" using next_root_Inr [OF nr] n(1) by auto
  have f': "f' = f" using h fs(1) by simp
  have "s' = advanced s u n as f leaf" using fin out s1 f' by (auto simp: finality_eq split: if_splits)
  then show ?thesis using n fs i np rp by (simp add: stalled_def advanced_def)
qed

end
