(* ===== verification/SC_Demo.thy ===== *)
theory SC_Demo
  imports SC_Hist BLS_Aggregate SSZ_Tree
begin

text \<open>
  A concrete history of the light client, used by the witnesses: one fork row, a bootstrap, the installation
  of the committee of period 0, an update that proves the committee of period 1, its installation, and an
  update signed in period 1. All 512 members are the one point of the concrete curve; the hash keeps the
  left half of a message.
\<close>

definition de_key :: bytes where "de_key = compressed toy_p"
definition de_agg :: bytes where "de_agg = compressed (neg_point toy_p)"
definition de_members :: "(bytes \<times> bytes) list" where "de_members = replicate 512 (de_key, toy_p)"
definition de_chunks :: "(bytes \<times> bytes) list list" where
  "de_chunks = replicate 12 (replicate 42 (de_key, toy_p)) @ [replicate 8 (de_key, toy_p)]"
definition de_root :: bytes where "de_root = committee_root head_hash (map fst de_members) de_agg"

definition de_gov :: bytes where "de_gov = replicate 32 1"
definition de_gvr :: bytes where "de_gvr = replicate 32 2"
definition de_row :: sc_row where "de_row = (0, replicate 4 4, 2, 2, 3)"

definition de_hdr :: "nat \<Rightarrow> bytes \<Rightarrow> bytes" where
  "de_hdr slot sr = le64 slot @ replicate 8 0 @ zero32 @ sr @ zero32"

section \<open>The committee\<close>

lemma concat_replicate_replicate: "concat (replicate n (replicate m x)) = replicate (n * m) x"
  by (induction n) (simp_all add: replicate_add)

lemma de_chunks_concat: "concat de_chunks = de_members"
  by (simp add: de_chunks_def de_members_def concat_replicate_replicate flip: replicate_add)

lemma de_chunks_small: "ch \<in> set de_chunks \<Longrightarrow> length ch \<le> 42"
  by (auto simp: de_chunks_def split: if_splits)

lemma gsum_toy: "gsum toy_ec (replicate n toy_p) =
  (if n mod 3 = 0 then g1_infinity else if n mod 3 = 1 then toy_p else neg_point toy_p)"
proof (induction n)
  case 0
  then show ?case by simp
next
  case (Suc n)
  have g: "gadd toy_ec toy_p g1_infinity = toy_p" "gadd toy_ec toy_p toy_p = neg_point toy_p"
    "gadd toy_ec toy_p (neg_point toy_p) = g1_infinity"
    by (simp_all add: gadd_def toy_ec_def toy_add_table)
  have "n mod 3 = 0 \<or> n mod 3 = 1 \<or> n mod 3 = 2" by presburger
  then show ?case using Suc g by (auto simp: mod_Suc)
qed

lemma de_sum: "gsum toy_ec (map snd de_members) = neg_point toy_p"
  by (simp add: de_members_def gsum_toy map_replicate)

lemma de_lengths [simp]: "length de_key = 48" "length de_agg = 48" "length de_gov = 32" "length de_gvr = 32"
  using toy_length by (simp_all add: de_key_def de_agg_def length_compressed de_gov_def de_gvr_def)

lemma de_committee: "committee_members head_hash toy_ec toy_group de_members de_agg de_root"
proof -
  have "member_ok toy_group (de_key, toy_p)" "member_ok toy_group (de_agg, neg_point toy_p)"
    using toy_members toy_distinct by (simp_all add: member_ok_def, simp_all add: de_key_def de_agg_def)
  moreover have "length de_members = 512" "set de_members = {(de_key, toy_p)}"
    by (simp_all add: de_members_def)
  ultimately show ?thesis by (simp add: committee_members_def de_sum de_root_def)
qed

lemma de_committee_chunks: "committee_members head_hash toy_ec toy_group (concat de_chunks) de_agg de_root"
  by (simp add: de_chunks_concat de_committee)

lemma head_chunk_root:
  "cs \<noteq> [] \<Longrightarrow> \<forall>c\<in>set cs. length c = 32 \<Longrightarrow> chunk_root head_hash d cs = hd cs"
proof (induction d arbitrary: cs)
  case 0
  then show ?case by (cases cs) simp_all
next
  case (Suc d)
  have t: "take (2 ^ d) cs \<noteq> []" "\<forall>c\<in>set (take (2 ^ d) cs). length c = 32" using Suc.prems by (auto dest: in_set_takeD)
  have e: "chunk_root head_hash d (take (2 ^ d) cs) = hd cs" using Suc.IH [OF t] Suc.prems(1) by (simp add: hd_take)
  have "length (hd cs) = 32" using Suc.prems by simp
  then show ?case by (simp add: e head_hash_left)
qed

lemma de_root_eq: "de_root = key_leaf head_hash de_key"
proof -
  have l: "length (key_leaf head_hash c) = 32" for c by (simp add: key_leaf_def)
  have "map (key_leaf head_hash) (map fst de_members) = replicate 512 (key_leaf head_hash de_key)"
    by (simp add: de_members_def map_replicate)
  then have "chunk_root head_hash 9 (map (key_leaf head_hash) (map fst de_members)) = key_leaf head_hash de_key"
    using head_chunk_root [of "replicate 512 (key_leaf head_hash de_key)" 9] l
    by (simp)
  then show ?thesis by (simp add: de_root_def committee_root_def head_hash_left l del: map_map)
qed

lemma length_de_root [simp]: "length de_root = 32"
  by (simp add: de_root_eq key_leaf_def)

lemma de_root_nonzero: "de_root \<noteq> zero32"
proof
  assume z: "de_root = zero32"
  have "toy_p ! 0 = 0" by (simp add: toy_p_def nth_append)
  then have "de_key ! 0 = of_nat (if py toy_p > half_p then 160 else 128)"
    by (simp add: de_key_def compressed_def px_def toy_length)
  then have k: "de_key ! 0 \<noteq> 0" by (simp split: if_split)
  have "take 32 de_key ! 0 = de_root ! 0" by (simp add: de_root_eq key_leaf_def head_hash_def)
  then show False using k z by (simp add: zero32_def)
qed

section \<open>Headers, rows and branches\<close>

lemma length_de_hdr: "length sr = 32 \<Longrightarrow> length (de_hdr slot sr) = 112"
  by (simp add: de_hdr_def)

lemma de_hdr_parts:
  assumes "length sr = 32" and "slot < uint64_limit"
  shows "header_slot (de_hdr slot sr) = Inr slot" "bslice (de_hdr slot sr) 48 80 = sr"
    "hash_tree_root_beacon_block_header head_hash (de_hdr slot sr) = Inr (le64 slot @ replicate 24 0)"
proof -
  show "header_slot (de_hdr slot sr) = Inr slot"
    unfolding header_slot_eq using assms by (simp add: length_de_hdr) (simp add: de_hdr_def seg_def)
  show "bslice (de_hdr slot sr) 48 80 = sr"
    using assms by (simp add: de_hdr_def bslice_def seg_def)
  have "seg 0 8 (de_hdr slot sr) = le64 slot" by (simp add: de_hdr_def seg_def)
  then show "hash_tree_root_beacon_block_header head_hash (de_hdr slot sr) = Inr (le64 slot @ replicate 24 0)"
    unfolding htr_header_eq using assms head_hash_left [of "le64 slot @ replicate 24 0"]
    by (simp add: length_de_hdr header_tree_def head_hash_left)
qed

definition de_globals :: globals where
  "de_globals = [sc_row_key 0 \<mapsto> itob 0 @ replicate 4 4 @ itob 2 @ itob 2 @ itob 3]"

lemma de_lookup: "lookup_gindices de_globals 1 e = Inr (2, 2, 3)" "lookup_fork_version de_globals 1 e = Inr (replicate 4 4)"
proof -
  have r: "sc_read_row de_globals 0 = Inr (0, replicate 4 4, 2, 2, 3)"
    by (rule sc_read_written) (simp_all add: sc_row_valid_def uint64_limit_def de_globals_def)
  then have f: "sc_find_row de_globals 1 e = Inr (True, 0)"
    by (simp add: sc_find_row_def)
  show "lookup_gindices de_globals 1 e = Inr (2, 2, 3)" "lookup_fork_version de_globals 1 e = Inr (replicate 4 4)"
    using r f by (simp_all add: lookup_gindices_def lookup_fork_version_def)
qed

lemma bitlen_3: "bitlen 3 = 2"
  by (simp add: bitlen_pos)

lemma de_branch:
  assumes "length leaf = 32" "length sib = 32"
  shows "assert_valid_normalized_merkle_branch head_hash leaf sib 2 leaf = Inr ()"
    "assert_valid_normalized_merkle_branch head_hash leaf sib 3 sib = Inr ()"
  unfolding assert_normalized_eq [where H = head_hash, OF length_head_hash]
  using assms by (auto simp: bitlen_2 bitlen_3 gdepth_def head_hash_left seg_def intro!: exI [of _ 0] exI [of _ sib])

section \<open>Signatures\<close>

definition de_bits :: bytes where "de_bits = replicate 64 255"

lemma de_participants: "participants de_bits = [0..<512]"
proof -
  have "ssz_bit de_bits i" if "i < 512" for i
  proof -
    have "i div 8 < 64" using that by auto
    then have b: "de_bits ! (i div 8) = 255" by (simp add: de_bits_def)
    have "bit (mask 8 :: byte) (i mod 8)" by (simp add: bit_mask_iff)
    moreover have "(mask 8 :: byte) = 255" by (simp add: mask_eq_exp_minus_1)
    ultimately show ?thesis by (simp add: ssz_bit_def b)
  qed
  then show ?thesis by (simp add: participants_def)
qed

lemma de_hash_to_g2:
  assumes "length root = 32"
  shows "hash_to_g2 head_hash toy_ec root eth_dst = Inr (replicate 192 1)"
proof -
  have "length eth_dst = 43" by (simp add: eth_dst_def)
  then obtain u where u: "expand_message_xmd_sha256 head_hash root eth_dst 256 = Inr u"
    using expand_ok [where H = head_hash, of eth_dst 256 root] assms by (auto simp: max_bytes_def)
  have "pad_fp (be_min (v mod field_modulus)) = Inr (be_bytes 48 (v mod field_modulus))" for v
  proof (rule pad_fp_be_min)
    have "v mod field_modulus < field_modulus" by (rule mod_less_divisor) (simp add: field_modulus_def)
    then show "v mod field_modulus < 256 ^ 48" using modulus_48 by (rule less_trans)
  qed
  then show ?thesis using u by (simp add: hash_to_g2_def Let_def toy_ec_def)
qed

lemma de_signed:
  assumes "length gvr = 32" and "length fv = 4" and "length (u_attested u) = 112" and "u_bits u = de_bits"
    and "u_signature u = replicate 192 1"
  shows "signed_by head_hash toy_ec gvr fv u (replicate 512 toy_p)"
proof -
  obtain dom where d: "compute_domain head_hash domain_sync_committee fv gvr = Inr dom" "length dom = 32"
    using assms by (simp add: compute_domain_def compute_fork_data_root_def domain_sync_committee_def bslice_def)
  obtain root where r: "compute_signing_root head_hash (u_attested u) dom = Inr root" "length root = 32"
  proof -
    have "hash_tree_root_beacon_block_header head_hash (u_attested u) = Inr (tree_root head_hash (header_tree (u_attested u)))"
      using assms(3) by (simp add: htr_header_eq)
    then show ?thesis using that d(2) by (simp add: compute_signing_root_def)
  qed
  have sum: "participant_sum toy_ec (u_bits u) (replicate 512 toy_p) = neg_point toy_p"
    using gsum_toy [of 512] map_nth [of "replicate 512 toy_p"]
    by (simp add: participant_sum_def assms(4) de_participants)
  have ne: "replicate 192 1 \<noteq> g2_infinity"
  proof
    assume "replicate 192 1 = g2_infinity"
    then have "replicate 192 (1 :: byte) ! 0 = g2_infinity ! 0" by simp
    then show False by (simp add: g2_infinity_def G2_BYTES_def)
  qed
  have "verify_aggregate_signature toy_ec (neg_point toy_p) (replicate 192 1) (replicate 192 1) = Inr True"
    using toy_length toy_distinct ne
    by (simp add: verify_aggregate_signature_def g1_is_infinity_def g2_is_infinity_def pairing_check_2_def
        G1_BYTES_def G2_BYTES_def neg_g1_generator_def toy_ec_def)
  then show ?thesis using d(1) r(1) sum de_hash_to_g2 [OF r(2)]
    by (auto simp: signed_by_def assms(4,5) de_participants)
qed

section \<open>The history\<close>

definition de_update :: "nat \<Rightarrow> nat \<Rightarrow> bytes \<Rightarrow> bytes \<Rightarrow> bytes \<Rightarrow> bytes \<Rightarrow> sc_update" where
  "de_update sig att sr fin next_rt next_br =
     \<lparr>u_attested = de_hdr att sr, u_finalized = fin, u_finality_branch = zero32, u_next_root = next_rt,
      u_next_branch = next_br, u_bits = de_bits, u_signature = replicate 192 1, u_sig_slot = sig, u_mode = 1\<rparr>"

text \<open>The update that proves the next committee, and the one signed in the next period.\<close>

definition de_u1 :: sc_update where
  "de_u1 = de_update 3 2 zero32 (de_hdr 0 zero32) de_root zero32"

definition de_u2 :: sc_update where
  "de_u2 = de_update 8192 8191 (le64 1 @ replicate 24 0) (de_hdr 1 zero32) zero32 []"

definition de_s0 :: sc_state where "de_s0 = sc_create de_gov de_gvr"

definition de_s1 :: sc_state where
  "de_s1 = de_s0\<lparr>sc_globals := de_globals, sc_fork_count := 1\<rparr>"

definition de_s2 :: sc_state where
  "de_s2 = de_s1\<lparr>gen_counter := 1, inst_gen := 1, inst_period := 0, inst_root := de_root, inst_cursor := 0, inst_state := 1,
     fin_slot := 0, fin_root := le64 0 @ replicate 24 0, fin_state_root := de_root, att_slot := 0, att_state_root := de_root\<rparr>"

abbreviation de_boot :: "bytes \<times> sc_call" where
  "de_boot \<equiv> (de_gov, SBootstrap (de_hdr 0 de_root) de_root zero32 (le64 0 @ replicate 24 0))"

abbreviation de_start :: "(bytes \<times> sc_call) list" where
  "de_start \<equiv> [(de_gov, SAppendForkRow de_row), de_boot]"

lemma de_globals_eq: "de_globals = Map.empty(sc_row_key 0 \<mapsto> itob 0 @ replicate 4 4 @ itob 2 @ itob 2 @ itob 3)"
  by (simp add: de_globals_def)

lemma de_step1: "sc_step head_hash toy_ec de_s0 (de_gov, SAppendForkRow de_row) de_s1"
  unfolding sc_step_simps
  by (simp add: silent_def sc_append_row_def sc_append_fork_row_def de_row_def de_s0_def de_s1_def sc_create_def
      sc_row_valid_def UINT64_MAX_def SC_TABLE_CAPACITY_def uint64_limit_def Let_def de_globals_eq)

lemma de_step2: "sc_step head_hash toy_ec de_s1 de_boot de_s2"
proof -
  have p: "period_at_slot 0 = 0" by (simp add: period_at_slot_eq)
  have z: "(0::nat) < uint64_limit" by (simp add: uint64_limit_def)
  note h = de_hdr_parts [OF length_de_root z]
  have "sc_bootstrap head_hash de_gov (de_hdr 0 de_root) de_root zero32 (le64 0 @ replicate 24 0) de_s1 = Inr de_s2"
    using h de_lookup(1) de_branch(1) [OF length_de_root length_zero32] p
    by (simp add: sc_bootstrap_def reserve_generation_def de_s1_def de_s0_def de_s2_def sc_create_def inst_states
        uadd_def uint64_limit_def)
  then show ?thesis unfolding sc_step_simps by (simp add: silent_def length_de_hdr)
qed

lemma de_run2: "sc_run head_hash toy_ec de_s0 de_start de_s2"
  by (rule sc_run_cons [OF de_step1 sc_run_one [OF de_step2]])

lemma de_inv2: "sc_inv head_hash toy_ec toy_group (established head_hash toy_ec de_s0 de_start) de_s2"
  unfolding de_s0_def
  by (rule sc_reach_inv [where H = head_hash, OF toy_curve length_head_hash de_run2 [unfolded de_s0_def]])

text \<open>The first installation.\<close>

abbreviation de_keys :: "bytes list" where "de_keys \<equiv> replicate 512 toy_p"

definition de_install :: "(bytes \<times> sc_call) list" where
  "de_install = install_calls de_gov de_chunks de_agg (neg_point toy_p)"

lemma de_snd: "map snd de_members = de_keys"
  by (simp add: de_members_def map_replicate)

lemma de_install_runs:
  assumes "sc_inv head_hash toy_ec toy_group R s" and "inst_state s = 1" and "inst_root s = de_root"
  shows "\<exists>s'. sc_run head_hash toy_ec s de_install s' \<and> after_install toy_ec s de_keys s'"
  using install_runs [where H = head_hash and chs = de_chunks and agg = de_agg and x = de_gov,
      OF toy_curve length_head_hash assms(1,2) _ de_chunks_small]
    de_committee_chunks assms(3)
  by (simp add: de_chunks_concat de_sum [unfolded de_snd] de_snd de_install_def)

lemma de_periods: "period_at_slot 0 = 0" "period_at_slot 1 = 0" "period_at_slot 2 = 0" "period_at_slot 3 = 0"
    "period_at_slot 8191 = 0" "period_at_slot 8192 = 1"
  by (simp_all add: period_at_slot_eq)

lemma de_u64 [simp]: "0 < uint64_limit" "1 < uint64_limit" "Suc 0 < uint64_limit" "Suc (Suc 0) < uint64_limit" "2 < uint64_limit" "3 < uint64_limit" "8191 < uint64_limit" "8192 < uint64_limit"
  by (simp_all add: uint64_limit_def)

text \<open>The update that makes the next committee known.\<close>

lemma de_update1:
  assumes inv: "sc_inv head_hash toy_ec toy_group R s" and f: "after_install toy_ec de_s2 de_keys s"
  shows "sc_step head_hash toy_ec s (de_gov, SSubmitUpdate de_u1)
    (s\<lparr>next_committee_root_trusted := de_root, next_committee_root_period := 1\<rparr>)"
proof -
  have s: "cur_gen s = 1" "cur_period s = 0" "next_gen s = 0" "fin_slot s = 0" "sc_globals s = de_globals"
    "sc_fork_count s = 1" "sc_gvr s = de_gvr" "inst_state s = 0" "next_committee_root_period s = 0"
    using f by (simp_all add: after_install_def de_s2_def de_s1_def de_s0_def sc_create_def)
  have k: "gen_keys (sc_boxes s) 1 = de_keys"
    using f by (intro stored_gen_keys [of toy_ec]) (simp add: after_install_def de_s2_def)
  have z: "length (zero32 :: bytes) = 32" by simp
  note h2 = de_hdr_parts [OF z, of 2] and h0 = de_hdr_parts [OF z, of 0]
  have sel: "select_committee s 2 0 3 = Inr (False, 1)" using s by (simp add: select_Inr de_periods)
  have br: "check_branches head_hash s de_u1 2 0 = Inr (replicate 4 4, zero32)"
    using s de_lookup de_branch(1) [OF z z] de_branch(2) [OF length_de_root z] h2 h0
    by (simp add: check_branches_def finalized_leaf_of_def de_u1_def de_update_def)
  have nr: "apply_next_root s de_u1 False 2 = Inr (s\<lparr>next_committee_root_trusted := de_root, next_committee_root_period := 1\<rparr>)"
    using s by (simp add: apply_next_root_def de_u1_def de_update_def inst_states de_periods zero32_def)
  have sg: "signed_by head_hash toy_ec (sc_gvr s) (replicate 4 4) de_u1 (gen_keys (sc_boxes s) 1)"
    unfolding k by (rule de_signed) (simp_all add: s de_u1_def de_update_def length_de_hdr)
  have "submit_update head_hash toy_ec de_u1 s = Inr (s\<lparr>next_committee_root_trusted := de_root, next_committee_root_period := 1\<rparr>, [])"
    using submit_accepted [OF toy_curve inv _ _ _ _ br sg nr] h2 h0 sel s
    by (simp add: de_u1_def de_update_def de_bits_def finality_eq)
  then show ?thesis unfolding sc_step_simps
    by (simp add: de_u1_def de_update_def de_bits_def)
qed

definition de_evs5 :: "(bytes \<times> sc_call) list" where
  "de_evs5 = de_start @ de_install @ [(de_gov, SSubmitUpdate de_u1), (de_gov, SInstallBegin 1)] @ de_install"

text \<open>The state after both installations.\<close>

definition de_both :: "sc_state \<Rightarrow> bool" where
  "de_both s \<longleftrightarrow> cur_gen s = 1 \<and> cur_period s = 0 \<and> next_gen s = 2 \<and> next_period s = 1 \<and> fin_slot s = 0 \<and>
     sc_globals s = de_globals \<and> sc_fork_count s = 1 \<and> sc_gvr s = de_gvr \<and> inst_state s = 0 \<and>
     next_committee_root_period s = 1 \<and> gen_counter s = 2 \<and> gen_keys (sc_boxes s) 2 = de_keys"

lemma de_run5: "\<exists>s. sc_run head_hash toy_ec de_s0 de_evs5 s \<and> de_both s"
proof -
  note inv_run = sc_reach_inv [where H = head_hash, OF toy_curve length_head_hash, of de_gov de_gvr, folded de_s0_def]
  obtain s3 where r3: "sc_run head_hash toy_ec de_s2 de_install s3" and a3: "after_install toy_ec de_s2 de_keys s3"
    using de_install_runs [OF de_inv2] by (auto simp: de_s2_def)
  have run3: "sc_run head_hash toy_ec de_s0 (de_start @ de_install) s3" by (rule sc_run_append [OF r3 de_run2])
  let ?s4 = "s3\<lparr>next_committee_root_trusted := de_root, next_committee_root_period := 1\<rparr>"
  have st4: "sc_step head_hash toy_ec s3 (de_gov, SSubmitUpdate de_u1) ?s4" by (rule de_update1 [OF inv_run [OF run3] a3])
  let ?s5 = "?s4\<lparr>gen_counter := 2, inst_gen := 2, inst_period := 1, inst_root := de_root, inst_cursor := 0, inst_state := 1\<rparr>"
  have f3: "cur_gen s3 = 1" "cur_period s3 = 0" "inst_state s3 = 0" "gen_counter s3 = 1" "fin_slot s3 = 0" "sc_globals s3 = de_globals"
    "sc_fork_count s3 = 1" "sc_gvr s3 = de_gvr"
    using a3 by (simp_all add: after_install_def de_s2_def de_s1_def de_s0_def sc_create_def)
  have "install_begin 1 ?s4 = Inr ?s5"
    using f3 de_root_nonzero by (simp add: install_begin_def reserve_generation_def uadd_def inst_states)
  then have st5: "sc_step head_hash toy_ec ?s4 (de_gov, SInstallBegin 1) ?s5" unfolding sc_step_simps by (simp add: silent_def)
  have run5: "sc_run head_hash toy_ec de_s0 ((de_start @ de_install) @ [(de_gov, SSubmitUpdate de_u1), (de_gov, SInstallBegin 1)]) ?s5"
    by (rule sc_run_append [OF sc_run_cons [OF st4 sc_run_one [OF st5]] run3])
  obtain s6 where r6: "sc_run head_hash toy_ec ?s5 de_install s6" and a6: "after_install toy_ec ?s5 de_keys s6"
    using de_install_runs [OF inv_run [OF run5]] by auto
  have "sc_run head_hash toy_ec de_s0 de_evs5 s6"
    using sc_run_append [OF r6 run5] by (simp add: de_evs5_def)
  moreover have "gen_keys (sc_boxes s6) 2 = de_keys"
    using a6 by (intro stored_gen_keys [of toy_ec]) (simp add: after_install_def)
  then have "de_both s6" using a6 f3 by (simp add: after_install_def de_both_def)
  ultimately show ?thesis by blast
qed

lemma advanced_state: "fin_slot (advanced s u n as fs leaf) = fs" "sc_boxes (advanced s u n as fs leaf) = sc_boxes s"
  "gen_counter (advanced s u n as fs leaf) = gen_counter s" "inst_gen (advanced s u n as fs leaf) = inst_gen s"
  "cur_gen (advanced s u True as fs leaf) = next_gen s" "next_gen (advanced s u True as fs leaf) = 0"
  by (simp_all add: advanced_def)

text \<open>The update signed in the first epoch of period 1, with the finalized header still in period 0.\<close>

lemma de_update2:
  assumes inv: "sc_inv head_hash toy_ec toy_group R s" and f: "de_both s"
  shows "\<exists>s' out. submit_update head_hash toy_ec de_u2 s = Inr (s', out) \<and> out \<noteq> [] \<and> fin_slot s' = 1 \<and>
    cur_gen s' = 2 \<and> next_gen s' = 0 \<and> inst_gen s' = inst_gen s \<and> gen_counter s' = 2 \<and> sc_boxes s' = sc_boxes s"
proof -
  let ?r = "le64 1 @ replicate 24 (0::byte)"
  have z: "length (zero32 :: bytes) = 32" and r: "length ?r = 32" by simp_all
  note h1 = de_hdr_parts [OF z, of 1] and ha = de_hdr_parts [OF r, of 8191]
  have sel: "select_committee s 8191 1 8192 = Inr (True, 2)" using f by (simp add: select_Inr de_periods de_both_def)
  have br: "check_branches head_hash s de_u2 8191 1 = Inr (replicate 4 4, ?r)"
    using f de_lookup de_branch(1) [OF r z] h1 ha
    by (simp add: check_branches_def finalized_leaf_of_def de_u2_def de_update_def de_both_def)
  have nr: "apply_next_root s de_u2 True 8191 = Inr s" by (simp add: apply_next_root_def de_u2_def de_update_def)
  have sg: "signed_by head_hash toy_ec (sc_gvr s) (replicate 4 4) de_u2 (gen_keys (sc_boxes s) 2)"
    using f de_signed [of de_gvr "replicate 4 4" de_u2] by (simp add: de_both_def de_u2_def de_update_def length_de_hdr)
  have "has_supermajority 512" by (simp add: has_supermajority_def SYNC_COMMITTEE_SIZE_def TWO_THIRDS_NUMERATOR_def TWO_THIRDS_DENOMINATOR_def)
  moreover have "length (participants (u_bits de_u2)) = 512" by (simp add: de_u2_def de_update_def de_participants)
  ultimately have "submit_update head_hash toy_ec de_u2 s = Inr (apply_finality s de_u2 True 8191 1 ?r 512)"
    "apply_finality s de_u2 True 8191 1 ?r 512 = (advanced s de_u2 True 8191 1 ?r, snd (apply_finality s de_u2 True 8191 1 ?r 512))"
    "snd (apply_finality s de_u2 True 8191 1 ?r 512) \<noteq> []"
    using submit_accepted [OF toy_curve inv _ _ _ _ br sg nr] h1 ha sel f
    by (simp_all add: de_u2_def de_update_def de_bits_def finality_eq de_both_def)
  then have "submit_update head_hash toy_ec de_u2 s = Inr (advanced s de_u2 True 8191 1 ?r, snd (apply_finality s de_u2 True 8191 1 ?r 512))"
    "snd (apply_finality s de_u2 True 8191 1 ?r 512) \<noteq> []" by simp_all
  then show ?thesis using f
    by (intro exI [of _ "advanced s de_u2 True 8191 1 ?r"] exI [of _ "snd (apply_finality s de_u2 True 8191 1 ?r 512)"] conjI)
      (simp_all add: advanced_state de_both_def)
qed

end
