(* ===== verification/Props_SC.thy ===== *)
theory Props_SC
  imports SC_Demo
begin

text \<open>
  Properties of the sync-committee light client. Histories start from \<open>sc_create\<close> and consist of accepted
  calls of any sender; the hash has 32-byte output and the curve opcodes satisfy \<open>g1_curve\<close>. The
  witnesses use the history of \<open>SC_Demo\<close>.
\<close>

text \<open>C17: Committee provenance. In every reachable state the boxes of the current and of the staged committee hold
  512 points and their total, each point bound to a compressed key, such that the Merkle root of the keys
  and the aggregate is one that an earlier accepted call proved for exactly that period. If that root is
  the root of a committee, and the hash does not collide on the two, the stored points are its keys, in
  order and with multiplicity: no relayer can insert, drop, replace or reorder a member.\<close>
theorem committees_genuine:
  assumes c: "g1_curve C G" and H: "\<forall>x. length (H x) = 32" and run: "sc_run H C (sc_create gov gvr) evs s"
    and g: "g = cur_gen s \<and> p = cur_period s \<or> g = next_gen s \<and> p = next_period s" "g \<noteq> 0"
  shows "\<exists>r ms agg. established H C (sc_create gov gvr) evs p r \<and> committee_members H C G ms agg r \<and>
    committee_stored C (sc_boxes s) g (map snd ms) \<and>
    (\<forall>cks agg'. committee_ok cks agg' \<and> committee_root H cks agg' = r \<and>
       inj_on H (committee_msgs H (map fst ms) agg \<union> committee_msgs H cks agg') \<longrightarrow> map fst ms = cks \<and> agg = agg')"
proof -
  have H': "\<And>x. length (H x) = 32" using H by blast
  obtain ms agg r where r: "established H C (sc_create gov gvr) evs p r" and m: "committee_members H C G ms agg r"
    and st: "committee_stored C (sc_boxes s) g (map snd ms)"
    using live_committee [OF sc_reach_inv [where H = H, OF c H' run] g] by blast
  have ok: "committee_ok (map fst ms) agg"
    using m by (auto simp: committee_ok_def committee_members_def member_ok_def)
  have "map fst ms = cks \<and> agg = agg'"
    if "committee_ok cks agg'" "committee_root H cks agg' = r"
      "inj_on H (committee_msgs H (map fst ms) agg \<union> committee_msgs H cks agg')" for cks agg'
    by (rule committee_root_binding [where H = H, OF ok that(1) H' that(3)]) (use m that(2) in \<open>simp add: committee_members_def\<close>)
  then show ?thesis using r m st by blast
qed

theorem committees_genuine_witness:
  "\<exists>s r ms agg. sc_run head_hash toy_ec (sc_create de_gov de_gvr) de_evs5 s \<and> next_gen s = 2 \<and>
    established head_hash toy_ec (sc_create de_gov de_gvr) de_evs5 1 r \<and>
    committee_members head_hash toy_ec toy_group ms agg r \<and> committee_stored toy_ec (sc_boxes s) 2 (map snd ms)"
proof -
  obtain s where s: "sc_run head_hash toy_ec (sc_create de_gov de_gvr) de_evs5 s" "de_both s"
    using de_run5 unfolding de_s0_def by blast
  then have "2 = cur_gen s \<and> 1 = cur_period s \<or> 2 = next_gen s \<and> 1 = next_period s" "next_gen s = 2" by (simp_all add: de_both_def)
  with committees_genuine [OF toy_curve _ s(1) this(1)] s(1) show ?thesis by auto
qed

text \<open>All members of a committee but the last.\<close>

definition most_bits :: bytes where "most_bits = replicate 63 255 @ [127]"

lemma most_participants: "{i. i < 512 \<and> ssz_bit most_bits i} = {..<511}"
proof -
  have "ssz_bit most_bits i \<longleftrightarrow> i < 511" if i: "i < 512" for i
  proof (cases "i div 8 < 63")
    case True
    have "bit (mask 8 :: byte) (i mod 8)" by (simp add: bit_mask_iff)
    moreover have "(mask 8 :: byte) = 255" by (simp add: mask_eq_exp_minus_1)
    ultimately show ?thesis using True by (simp add: ssz_bit_def most_bits_def nth_append)
  next
    case False
    then have d: "i div 8 = 63" using i by linarith
    have "bit (mask 7 :: byte) (i mod 8) \<longleftrightarrow> i mod 8 < 7" by (auto simp: bit_mask_iff)
    moreover have "(mask 7 :: byte) = 127" by (simp add: mask_eq_exp_minus_1)
    moreover have "i mod 8 < 7 \<longleftrightarrow> i < 511" using d mult_div_mod_eq [of 8 i] by linarith
    ultimately show ?thesis using d by (simp add: ssz_bit_def most_bits_def nth_append)
  qed
  then show ?thesis by auto
qed

lemma most_sum: "participant_sum toy_ec most_bits de_keys = toy_p" "card {i. i < 512 \<and> ssz_bit most_bits i} = 511"
proof -
  show c: "card {i. i < 512 \<and> ssz_bit most_bits i} = 511" by (simp only: most_participants card_lessThan)
  have "set (participants most_bits) = {i. i < 512 \<and> ssz_bit most_bits i}" by (auto simp: participants_def)
  then have "length (participants most_bits) = 511" using c distinct_card [of "participants most_bits"]
    by (simp add: participants_def)
  moreover have "map ((!) de_keys) (participants most_bits) = replicate (length (participants most_bits)) toy_p"
    by (rule nth_equalityI) (use nth_mem [of _ "participants most_bits"] in \<open>auto simp: participants_def\<close>)
  ultimately show "participant_sum toy_ec most_bits de_keys = toy_p" by (simp add: participant_sum_def gsum_toy)
qed

text \<open>C18: Participation. On a live committee the walk adds up exactly the points whose SSZ bit is set and counts
  them, in the direct and in the complement mode alike, whatever the mode byte; so the whole update has the
  same outcome under every mode.\<close>
theorem modes_agree:
  assumes c: "g1_curve C G" and H: "\<forall>x. length (H x) = 32" and run: "sc_run H C (sc_create gov gvr) evs s"
    and b: "length (u_bits u) = 64"
  shows "(\<forall>g mode. (g = cur_gen s \<or> g = next_gen s) \<and> g \<noteq> 0 \<longrightarrow>
      aggregate_participants C (sc_boxes s) (u_bits u) g mode =
        Inr (participant_sum C (u_bits u) (gen_keys (sc_boxes s) g), card {i. i < 512 \<and> ssz_bit (u_bits u) i})) \<and>
    (\<forall>mode. submit_update H C (u\<lparr>u_mode := mode\<rparr>) s = submit_update H C u s)"
proof -
  have H': "\<And>x. length (H x) = 32" using H by blast
  note inv = sc_reach_inv [where H = H, OF c H' run]
  have card: "length (participants (u_bits u)) = card {i. i < 512 \<and> ssz_bit (u_bits u) i}"
    using distinct_card [of "participants (u_bits u)"] by (simp add: participants_def conj_commute)
  have agg: "aggregate_participants C (sc_boxes s) (u_bits u) g mode =
      Inr (participant_sum C (u_bits u) (gen_keys (sc_boxes s) g), card {i. i < 512 \<and> ssz_bit (u_bits u) i})"
    if "g = cur_gen s \<or> g = next_gen s" "g \<noteq> 0" for g mode
    using live_aggregate [OF c inv that b] card by simp
  have sig: "check_signature H C s (u\<lparr>u_mode := mode\<rparr>) g fv = check_signature H C s u g fv"
    if "select_committee s as fs (u_sig_slot u) = Inr (n, g)" for as fs n g fv mode
    using agg [of g] select_live [OF that] by (simp add: check_signature_def)
  have other: "check_branches H s (u\<lparr>u_mode := mode\<rparr>) as fs = check_branches H s u as fs"
    "apply_next_root s' (u\<lparr>u_mode := mode\<rparr>) n as = apply_next_root s' u n as"
    "apply_finality s' (u\<lparr>u_mode := mode\<rparr>) n as fs leaf cnt = apply_finality s' u n as fs leaf cnt" for mode as fs s' n leaf cnt
    by (simp_all add: check_branches_def apply_next_root_def apply_finality_def cong: if_cong)
  have "submit_update H C (u\<lparr>u_mode := mode\<rparr>) s = submit_update H C u s" for mode
    unfolding submit_update_def other
    by (simp, intro rbind_cong refl) (auto simp: sig intro!: rbind_cong split: prod.splits)
  with agg show ?thesis by blast
qed

theorem modes_agree_witness:
  "\<exists>s s' out. sc_run head_hash toy_ec (sc_create de_gov de_gvr) de_evs5 s \<and> next_gen s = 2 \<and>
     aggregate_participants toy_ec (sc_boxes s) most_bits 2 0 = Inr (toy_p, 511) \<and>
     aggregate_participants toy_ec (sc_boxes s) most_bits 2 1 = Inr (toy_p, 511) \<and>
     submit_update head_hash toy_ec (de_u2\<lparr>u_mode := 0\<rparr>) s = Inr (s', out) \<and>
     submit_update head_hash toy_ec (de_u2\<lparr>u_mode := 1\<rparr>) s = Inr (s', out) \<and> fin_slot s = 0 \<and> fin_slot s' = 1"
proof -
  obtain s where s: "sc_run head_hash toy_ec (sc_create de_gov de_gvr) de_evs5 s" "de_both s"
    using de_run5 unfolding de_s0_def by blast
  obtain s' out where u: "submit_update head_hash toy_ec de_u2 s = Inr (s', out)" "fin_slot s' = 1"
    using de_update2 [OF sc_reach_inv [where H = head_hash, OF toy_curve length_head_hash s(1)] s(2)] by blast
  have H: "\<forall>x. length (head_hash x) = 32" by simp
  have f: "next_gen s = 2" "fin_slot s = 0" "gen_keys (sc_boxes s) 2 = de_keys" using s(2) by (simp_all add: de_both_def)
  have l: "length (u_bits (de_u2\<lparr>u_bits := most_bits\<rparr>)) = 64" "length (u_bits de_u2) = 64"
    by (simp_all add: most_bits_def de_u2_def de_update_def de_bits_def)
  note agg = conjunct1 [OF modes_agree [OF toy_curve H s(1) l(1)], rule_format, of 2]
    and all = conjunct2 [OF modes_agree [OF toy_curve H s(1) l(2)], rule_format]
  have a: "aggregate_participants toy_ec (sc_boxes s) most_bits 2 mode = Inr (toy_p, 511)" for mode
    using agg [of mode] f(1,3) most_sum by simp
  show ?thesis using s(1) a f(1,2) u all by (intro exI conjI) simp_all
qed

text \<open>C19: Provenance of finality. In every reachable state the finalized slot, header root and state root are the
  initial ones, or those of a header governance bootstrapped from, or those an earlier accepted update
  proved: that update's finalized header has this root and state, the root is the leaf at the finality
  index of the attested state, its slot is later than the one before, and the attested header was signed by
  at least two thirds of 512 members of a committee established for its period. The mode, the chunking
  and the boxes play no part.\<close>
theorem finalized_provenance:
  assumes "g1_curve C G" and "\<forall>x. length (H x) = 32" and "sc_run H C (sc_create gov gvr) evs s"
  shows "fin_of s = (0, zero32, zero32) \<or> fin_origin H C G (sc_create gov gvr) evs s"
proof -
  have H: "\<And>x. length (H x) = 32" using assms(2) by blast
  have "fin_of (sc_create gov gvr) = (0, zero32, zero32)" by (simp add: fin_of_def sc_create_def)
  then show ?thesis using fin_provenance [where H = H, OF assms(1) H assms(3) refl] by simp
qed

theorem finalized_provenance_witness:
  "\<exists>s evs. sc_run head_hash toy_ec (sc_create de_gov de_gvr) evs s \<and> fin_slot s = 1 \<and>
    fin_origin head_hash toy_ec toy_group (sc_create de_gov de_gvr) evs s"
proof -
  obtain s where s: "sc_run head_hash toy_ec (sc_create de_gov de_gvr) de_evs5 s" "de_both s"
    using de_run5 unfolding de_s0_def by blast
  obtain s' out where u: "submit_update head_hash toy_ec de_u2 s = Inr (s', out)" "fin_slot s' = 1"
    using de_update2 [OF sc_reach_inv [where H = head_hash, OF toy_curve length_head_hash s(1)] s(2)] by blast
  have "sc_step head_hash toy_ec s (de_gov, SSubmitUpdate de_u2) s'"
    unfolding sc_step_simps using u by (auto simp: de_u2_def de_update_def de_bits_def)
  then have r: "sc_run head_hash toy_ec (sc_create de_gov de_gvr) (de_evs5 @ [(de_gov, SSubmitUpdate de_u2)]) s'"
    by (rule sc_run.sc_run_snoc [OF s(1)])
  then have "fin_origin head_hash toy_ec toy_group (sc_create de_gov de_gvr) (de_evs5 @ [(de_gov, SSubmitUpdate de_u2)]) s'"
    using finalized_provenance [OF toy_curve _ r] u(2) by (simp add: fin_of_def)
  with r u(2) show ?thesis by blast
qed

text \<open>C20: Once a committee is installed, no history moves the finalized slot backwards, and while the slot stays
  the same so do the finalized roots: there is no equivocation in place.\<close>
theorem finalized_monotone:
  assumes "g1_curve C G" and "\<forall>x. length (H x) = 32" and "sc_run H C (sc_create gov gvr) evs s"
    and "cur_gen s \<noteq> 0" and "sc_run H C s evs' s'"
  shows "cur_gen s' \<noteq> 0 \<and> fin_slot s \<le> fin_slot s' \<and> (fin_slot s' = fin_slot s \<longrightarrow> fin_of s' = fin_of s)"
proof -
  have H: "\<And>x. length (H x) = 32" using assms(2) by blast
  show ?thesis
    by (rule run_monotone [where H = H, OF assms(1) H assms(5) sc_reach_inv [where H = H, OF assms(1) H assms(3)] assms(4)])
qed

theorem finalized_monotone_witness:
  "\<exists>s s'. cur_gen s \<noteq> 0 \<and> sc_run head_hash toy_ec s [(de_gov, SSubmitUpdate de_u2)] s' \<and> fin_slot s \<le> fin_slot s' \<and> fin_slot s' = 1"
proof -
  obtain s where s: "sc_run head_hash toy_ec (sc_create de_gov de_gvr) de_evs5 s" "de_both s"
    using de_run5 unfolding de_s0_def by blast
  obtain s' out where u: "submit_update head_hash toy_ec de_u2 s = Inr (s', out)" "fin_slot s' = 1"
    using de_update2 [OF sc_reach_inv [where H = head_hash, OF toy_curve length_head_hash s(1)] s(2)] by blast
  have "sc_step head_hash toy_ec s (de_gov, SSubmitUpdate de_u2) s'"
    unfolding sc_step_simps using u by (auto simp: de_u2_def de_update_def de_bits_def)
  then have r: "sc_run head_hash toy_ec s [(de_gov, SSubmitUpdate de_u2)] s'" by (rule sc_run_one)
  have g: "cur_gen s \<noteq> 0" using s(2) by (simp add: de_both_def)
  from finalized_monotone [OF toy_curve _ s(1) g r] have "fin_slot s \<le> fin_slot s'" by simp
  with r g u(2) show ?thesis by blast
qed

text \<open>C21: Installation makes progress. From a reachable state with a validated session whose root is the root of a
  committee, any sender \<open>x\<close> who knows the committee's points completes it: opening the boxes, any split of
  the 512 members into chunks of at most 42, and finalization are all accepted, and the committee ends up
  stored, as the current one at genesis and as the staged one afterwards.\<close>
theorem honest_install_completes:
  assumes c: "g1_curve C G" and H: "\<forall>x. length (H x) = 32" and run: "sc_run H C (sc_create gov gvr) evs s"
    and i: "inst_state s = INST_STATE_VALIDATED" and cm: "committee_members H C G (concat chs) agg (inst_root s)"
    and ch: "\<forall>ch\<in>set chs. length ch \<le> 42"
  shows "\<exists>s'. sc_run H C s (install_calls x chs agg (gsum C (map snd (concat chs)))) s' \<and>
    after_install C s (map snd (concat chs)) s'"
proof -
  have H': "\<And>x. length (H x) = 32" using H by blast
  have st: "inst_state s = 1" using i by (simp add: INST_STATE_VALIDATED_def)
  show ?thesis
    by (rule install_runs [where H = H, OF c H' sc_reach_inv [where H = H, OF c H' run] st cm]) (use ch in blast)
qed

theorem honest_install_completes_witness:
  "\<exists>s'. sc_run head_hash toy_ec de_s2 de_install s' \<and> after_install toy_ec de_s2 de_keys s'"
proof -
  have "inst_state de_s2 = INST_STATE_VALIDATED" "committee_members head_hash toy_ec toy_group (concat de_chunks) de_agg (inst_root de_s2)"
    using de_committee_chunks by (simp_all add: de_s2_def INST_STATE_VALIDATED_def)
  from honest_install_completes [OF toy_curve _ de_run2 [unfolded de_s0_def] this, of de_gov] show ?thesis
    using de_chunks_small by (simp add: de_chunks_concat de_snd de_sum [unfolded de_snd] de_install_def)
qed

text \<open>C22: The early rollover. Suppose an advancing update signed in period \<open>P + 1\<close> finalizes a header that still
  lies in period \<open>P\<close>, while no installation is in flight (the session is idle) and the committee roots known
  reach at most period \<open>P + 1\<close>. The staged committee is then promoted while the store's period stays \<open>P\<close>.
  From there on, in every history of calls of any sender, governance included, in which no update signed in
  period \<open>P\<close> is accepted, finality is frozen and no update signed in any period other than \<open>P\<close> is accepted. The
  conditions matter: with a second session for period \<open>P + 1\<close> already open at the update, its finalization
  refills the next committee and updates signed in period \<open>P + 1\<close> are accepted again; and the way out left
  otherwise is an update signed in period \<open>P\<close> that verifies under the keys of period \<open>P + 1\<close>.\<close>
theorem early_rollover_stalls:
  assumes "submit_update H C u s = Inr (s1, out)" and "out \<noteq> []" and "inst_state s = INST_STATE_IDLE"
    and "period_at_slot (fin_slot s) = P" and "period_at_slot (u_sig_slot u) = P + 1" and "next_period s = P + 1"
    and "next_committee_root_period s \<le> P + 1"
    and "header_slot (u_finalized u) = Inr f" and "period_at_slot f = P"
    and "sc_run H C s1 evs s2" and "\<forall>ev\<in>set evs. \<not> update_of_period P ev"
  shows "fin_of s2 = fin_of s1 \<and> (\<forall>v r. period_at_slot (u_sig_slot v) \<noteq> P \<longrightarrow> submit_update H C v s2 \<noteq> Inr r)"
proof -
  have "inst_state s = 0" using assms(3) by (simp add: INST_STATE_IDLE_def)
  then have "stalled P s1" using early_rollover [OF assms(1,2) _ assms(6,7,4,5,8,9)] by blast
  from stalled_run [OF assms(10) this assms(11)] show ?thesis using stalled_rejects by blast
qed

theorem early_rollover_stalls_witness:
  "\<exists>s s1 out. sc_run head_hash toy_ec (sc_create de_gov de_gvr) de_evs5 s \<and>
     submit_update head_hash toy_ec de_u2 s = Inr (s1, out) \<and> fin_slot s1 = 1 \<and>
     (\<forall>v r. period_at_slot (u_sig_slot v) \<noteq> 0 \<longrightarrow> submit_update head_hash toy_ec v s1 \<noteq> Inr r)"
proof -
  obtain s where s: "sc_run head_hash toy_ec (sc_create de_gov de_gvr) de_evs5 s" "de_both s"
    using de_run5 unfolding de_s0_def by blast
  obtain s' out where u: "submit_update head_hash toy_ec de_u2 s = Inr (s', out)" "out \<noteq> []" "fin_slot s' = 1"
    using de_update2 [OF sc_reach_inv [where H = head_hash, OF toy_curve length_head_hash s(1)] s(2)] by blast
  have p: "inst_state s = INST_STATE_IDLE" "period_at_slot (fin_slot s) = 0" "period_at_slot (u_sig_slot de_u2) = 0 + 1"
    "next_period s = 0 + 1" "next_committee_root_period s \<le> 0 + 1" "header_slot (u_finalized de_u2) = Inr 1" "period_at_slot 1 = 0"
    using s(2) de_hdr_parts(1) [of zero32 1]
    by (simp_all add: de_both_def INST_STATE_IDLE_def de_periods de_u2_def de_update_def del: One_nat_def)
  have "\<forall>ev\<in>set ([] :: (bytes \<times> sc_call) list). \<not> update_of_period 0 ev" by simp
  from early_rollover_stalls [OF u(1,2) p sc_run.sc_run_nil this] show ?thesis using s(1) u(1,3) by blast
qed

text \<open>C23: Refinement. Every accepted call of a reachable state is a step of the abstract light-client store, which
  knows a finalized header, the committee in force and the staged one as lists of points: idling,
  bootstrapping before a committee exists, accepting a committee an earlier call vouched for, or advancing
  by a two-thirds signature of the committee of the signature's period.\<close>
theorem light_client_refines_store:
  assumes "g1_curve C G" and "\<forall>x. length (H x) = 32" and "sc_run H C (sc_create gov gvr) evs s" and "sc_step H C s ev s'"
  shows "lc_step H C G (established H C (sc_create gov gvr) (evs @ [ev])) (sc_gvr s) (store_abs s) (store_abs s')"
proof -
  have H: "\<And>x. length (H x) = 32" using assms(2) by blast
  show ?thesis
    by (rule step_simulated [where H = H, OF assms(1) H sc_reach_inv [where H = H, OF assms(1) H assms(3)] assms(4)
          sc_reach_inv [where H = H, OF assms(1) H sc_run.sc_run_snoc [OF assms(3,4)]]])
qed

theorem light_client_refines_store_witness:
  "lc_step head_hash toy_ec toy_group (established head_hash toy_ec (sc_create de_gov de_gvr) ([(de_gov, SAppendForkRow de_row)] @ [de_boot]))
    (sc_gvr de_s1) (store_abs de_s1) (store_abs de_s2)"
  by (rule light_client_refines_store [OF toy_curve _ sc_run_one [OF de_step1 [unfolded de_s0_def]] de_step2]) simp

end
