(* ===== verification/Comp_State.thy ===== *)
theory Comp_State
  imports Group MPT_State
begin

text \<open>
  The composite state C of \<open>contracts/composer/state.py\<close>: a 248-byte buffer that carries the three
  immutable inputs of a storage proof (state root, address, slot), the account fields extracted at
  the bridge and the verdict.
\<close>

definition C_PENDING_ACCOUNT :: nat where "C_PENDING_ACCOUNT = 0"
definition C_PENDING_STORAGE :: nat where "C_PENDING_STORAGE = 1"
definition C_INCLUDED :: nat where "C_INCLUDED = 2"
definition C_ABSENT_ACCOUNT :: nat where "C_ABSENT_ACCOUNT = 3"
definition C_ABSENT_SLOT :: nat where "C_ABSENT_SLOT = 4"
definition C_ABSENT_SLOT_EMPTY_TRIE :: nat where "C_ABSENT_SLOT_EMPTY_TRIE = 5"
definition C_ZERO_ENTRY :: nat where "C_ZERO_ENTRY = 6"

definition PHASE_A :: nat where "PHASE_A = 0"
definition PHASE_A_OK :: nat where "PHASE_A_OK = 1"
definition PHASE_B :: nat where "PHASE_B = 2"
definition PHASE_DONE :: nat where "PHASE_DONE = 3"

definition C_LEN :: nat where "C_LEN = 248"

lemmas c_status_defs = C_PENDING_ACCOUNT_def C_PENDING_STORAGE_def C_INCLUDED_def C_ABSENT_ACCOUNT_def
  C_ABSENT_SLOT_def C_ABSENT_SLOT_EMPTY_TRIE_def C_ZERO_ENTRY_def
lemmas phase_defs = PHASE_A_def PHASE_A_OK_def PHASE_B_def PHASE_DONE_def

definition byte1 :: "nat \<Rightarrow> bytes" where "byte1 v = seg 7 1 (itob v)"

lemma byte1_eq [simp]: "byte1 = low_byte"
  by (rule ext) (simp add: byte1_def low_byte_def)

section \<open>Accessors\<close>

definition c_cstatus :: "bytes \<Rightarrow> nat res" where "c_cstatus c = getbyte c 0"
definition c_phase :: "bytes \<Rightarrow> nat res" where "c_phase c = getbyte c 1"
definition c_state_root :: "bytes \<Rightarrow> bytes res" where "c_state_root c = bextract c 2 32"
definition c_address :: "bytes \<Rightarrow> bytes res" where "c_address c = bextract c 34 20"
definition c_slot :: "bytes \<Rightarrow> bytes res" where "c_slot c = bextract c 54 32"
definition c_storage_root :: "bytes \<Rightarrow> bytes res" where "c_storage_root c = bextract c 86 32"
definition c_code_hash :: "bytes \<Rightarrow> bytes res" where "c_code_hash c = bextract c 118 32"
definition c_nonce :: "bytes \<Rightarrow> bytes res" where "c_nonce c = bextract c 150 32"
definition c_balance :: "bytes \<Rightarrow> bytes res" where "c_balance c = bextract c 182 32"
definition c_value :: "bytes \<Rightarrow> bytes res" where "c_value c = bextract c 214 32"
definition c_awalk :: "bytes \<Rightarrow> nat res" where "c_awalk c = getbyte c 246"
definition c_swalk :: "bytes \<Rightarrow> nat res" where "c_swalk c = getbyte c 247"

definition c_with_phase :: "bytes \<Rightarrow> nat \<Rightarrow> bytes res" where
  "c_with_phase c phase = breplace c 1 (byte1 phase)"

definition mpt6_init_composite :: "bytes \<Rightarrow> bytes \<Rightarrow> bytes \<Rightarrow> bytes res" where
  "mpt6_init_composite state_root address slot =
     check (length state_root = 32) ''A20'' (
     check (length address = 20) ''A20'' (
     check (length slot = 32) ''A20'' (
     rbind (bzero 32) (\<lambda>zero32.
     let cstatus_b = byte1 C_PENDING_ACCOUNT; phase_b = byte1 PHASE_A;
         awalk_b = byte1 0; swalk_b = byte1 0 in
     Inr (cstatus_b @ phase_b @ state_root @ address @ slot
       @ zero32 @ zero32 @ zero32 @ zero32 @ zero32 @ awalk_b @ swalk_b)))))"

section \<open>The fields of a composite\<close>

record composite =
  cc_cstatus :: nat
  cc_phase :: nat
  cc_state_root :: bytes
  cc_address :: bytes
  cc_slot :: bytes
  cc_storage_root :: bytes
  cc_code_hash :: bytes
  cc_nonce :: bytes
  cc_balance :: bytes
  cc_value :: bytes
  cc_awalk :: nat
  cc_swalk :: nat

definition c_fields :: "composite \<Rightarrow> bytes list" where
  "c_fields a = [low_byte (cc_cstatus a), low_byte (cc_phase a), cc_state_root a, cc_address a, cc_slot a,
     cc_storage_root a, cc_code_hash a, cc_nonce a, cc_balance a, cc_value a,
     low_byte (cc_awalk a), low_byte (cc_swalk a)]"

definition C_WIDTHS :: "nat list" where "C_WIDTHS = [1, 1, 32, 20, 32, 32, 32, 32, 32, 32, 1, 1]"

definition c_encode :: "composite \<Rightarrow> bytes" where "c_encode a = concat (c_fields a)"

definition c_ok :: "composite \<Rightarrow> bool" where
  "c_ok a \<longleftrightarrow> cc_cstatus a < 256 \<and> cc_phase a < 256 \<and> cc_awalk a < 256 \<and> cc_swalk a < 256 \<and>
     map length (c_fields a) = C_WIDTHS"

definition zeros32 :: bytes where "zeros32 = replicate 32 0"

definition c_initial :: "bytes \<Rightarrow> bytes \<Rightarrow> bytes \<Rightarrow> composite" where
  "c_initial root addr slot = \<lparr>cc_cstatus = C_PENDING_ACCOUNT, cc_phase = PHASE_A, cc_state_root = root,
     cc_address = addr, cc_slot = slot, cc_storage_root = zeros32, cc_code_hash = zeros32,
     cc_nonce = zeros32, cc_balance = zeros32, cc_value = zeros32, cc_awalk = 0, cc_swalk = 0\<rparr>"

lemma length_zeros32 [simp]: "length zeros32 = 32"
  by (simp add: zeros32_def)

lemma c_ok_alt: "c_ok a \<longleftrightarrow> cc_cstatus a < 256 \<and> cc_phase a < 256 \<and> cc_awalk a < 256 \<and> cc_swalk a < 256 \<and>
    length (cc_state_root a) = 32 \<and> length (cc_address a) = 20 \<and> length (cc_slot a) = 32 \<and>
    length (cc_storage_root a) = 32 \<and> length (cc_code_hash a) = 32 \<and> length (cc_nonce a) = 32 \<and>
    length (cc_balance a) = 32 \<and> length (cc_value a) = 32"
  by (simp add: c_ok_def c_fields_def C_WIDTHS_def)

lemma c_ok_widths: "c_ok a \<Longrightarrow> map length (c_fields a) = C_WIDTHS"
  by (simp add: c_ok_def)

lemma c_ok_bytes: "c_ok a \<Longrightarrow> cc_cstatus a < 256 \<and> cc_phase a < 256 \<and> cc_awalk a < 256 \<and> cc_swalk a < 256"
  by (simp add: c_ok_def)

lemma length_c_encode: "c_ok a \<Longrightarrow> length (c_encode a) = C_LEN"
  by (simp add: c_encode_def length_fields [OF c_ok_widths] C_WIDTHS_def C_LEN_def)

lemma c_extract:
  "c_ok a \<Longrightarrow> i < length C_WIDTHS \<Longrightarrow> off = sum_list (take i C_WIDTHS) \<Longrightarrow> n = C_WIDTHS ! i \<Longrightarrow>
   bextract (c_encode a) off n = Inr (c_fields a ! i)"
  unfolding c_encode_def by (rule extract_field [OF c_ok_widths])

lemma c_byte:
  "c_ok a \<Longrightarrow> i < length C_WIDTHS \<Longrightarrow> off = sum_list (take i C_WIDTHS) \<Longrightarrow> c_fields a ! i = low_byte v \<Longrightarrow>
   v < 256 \<Longrightarrow> getbyte (c_encode a) off = Inr v"
  unfolding c_encode_def by (rule byte_field [OF c_ok_widths])

lemma c_overwrite:
  "c_ok a \<Longrightarrow> i < length C_WIDTHS \<Longrightarrow> off = sum_list (take i C_WIDTHS) \<Longrightarrow> length new = C_WIDTHS ! i \<Longrightarrow>
   (c_fields a)[i := new] = c_fields b \<Longrightarrow> breplace (c_encode a) off new = Inr (c_encode b)"
  unfolding c_encode_def using overwrite_field [OF c_ok_widths, of a i off new] by simp

lemma c_encode_get:
  assumes "c_ok a"
  shows "c_cstatus (c_encode a) = Inr (cc_cstatus a)"
    and "c_phase (c_encode a) = Inr (cc_phase a)"
    and "c_state_root (c_encode a) = Inr (cc_state_root a)"
    and "c_address (c_encode a) = Inr (cc_address a)"
    and "c_slot (c_encode a) = Inr (cc_slot a)"
    and "c_storage_root (c_encode a) = Inr (cc_storage_root a)"
    and "c_code_hash (c_encode a) = Inr (cc_code_hash a)"
    and "c_nonce (c_encode a) = Inr (cc_nonce a)"
    and "c_balance (c_encode a) = Inr (cc_balance a)"
    and "c_value (c_encode a) = Inr (cc_value a)"
    and "c_awalk (c_encode a) = Inr (cc_awalk a)"
    and "c_swalk (c_encode a) = Inr (cc_swalk a)"
proof -
  note b = c_ok_bytes [OF assms]
  show "c_cstatus (c_encode a) = Inr (cc_cstatus a)"
    unfolding c_cstatus_def by (rule c_byte [OF assms, of 0]) (use b in \<open>simp_all add: C_WIDTHS_def c_fields_def\<close>)
  show "c_phase (c_encode a) = Inr (cc_phase a)"
    unfolding c_phase_def by (rule c_byte [OF assms, of 1]) (use b in \<open>simp_all add: C_WIDTHS_def c_fields_def\<close>)
  show "c_state_root (c_encode a) = Inr (cc_state_root a)"
    unfolding c_state_root_def by (subst c_extract [OF assms, of 2]) (simp_all add: C_WIDTHS_def c_fields_def)
  show "c_address (c_encode a) = Inr (cc_address a)"
    unfolding c_address_def by (subst c_extract [OF assms, of 3]) (simp_all add: C_WIDTHS_def c_fields_def)
  show "c_slot (c_encode a) = Inr (cc_slot a)"
    unfolding c_slot_def by (subst c_extract [OF assms, of 4]) (simp_all add: C_WIDTHS_def c_fields_def)
  show "c_storage_root (c_encode a) = Inr (cc_storage_root a)"
    unfolding c_storage_root_def by (subst c_extract [OF assms, of 5]) (simp_all add: C_WIDTHS_def c_fields_def)
  show "c_code_hash (c_encode a) = Inr (cc_code_hash a)"
    unfolding c_code_hash_def by (subst c_extract [OF assms, of 6]) (simp_all add: C_WIDTHS_def c_fields_def)
  show "c_nonce (c_encode a) = Inr (cc_nonce a)"
    unfolding c_nonce_def by (subst c_extract [OF assms, of 7]) (simp_all add: C_WIDTHS_def c_fields_def)
  show "c_balance (c_encode a) = Inr (cc_balance a)"
    unfolding c_balance_def by (subst c_extract [OF assms, of 8]) (simp_all add: C_WIDTHS_def c_fields_def)
  show "c_value (c_encode a) = Inr (cc_value a)"
    unfolding c_value_def by (subst c_extract [OF assms, of 9]) (simp_all add: C_WIDTHS_def c_fields_def)
  show "c_awalk (c_encode a) = Inr (cc_awalk a)"
    unfolding c_awalk_def by (rule c_byte [OF assms, of 10]) (use b in \<open>simp_all add: C_WIDTHS_def c_fields_def\<close>)
  show "c_swalk (c_encode a) = Inr (cc_swalk a)"
    unfolding c_swalk_def by (rule c_byte [OF assms, of 11]) (use b in \<open>simp_all add: C_WIDTHS_def c_fields_def\<close>)
qed

text \<open>Splicing one field is a record update.\<close>

lemma c_put:
  assumes "c_ok a"
  shows "breplace (c_encode a) 0 (low_byte v) = Inr (c_encode (a\<lparr>cc_cstatus := v\<rparr>))"
    and "breplace (c_encode a) 1 (low_byte v) = Inr (c_encode (a\<lparr>cc_phase := v\<rparr>))"
    and "length x = 32 \<Longrightarrow> breplace (c_encode a) 86 x = Inr (c_encode (a\<lparr>cc_storage_root := x\<rparr>))"
    and "length x = 32 \<Longrightarrow> breplace (c_encode a) 118 x = Inr (c_encode (a\<lparr>cc_code_hash := x\<rparr>))"
    and "length x = 32 \<Longrightarrow> breplace (c_encode a) 150 x = Inr (c_encode (a\<lparr>cc_nonce := x\<rparr>))"
    and "length x = 32 \<Longrightarrow> breplace (c_encode a) 182 x = Inr (c_encode (a\<lparr>cc_balance := x\<rparr>))"
    and "length x = 32 \<Longrightarrow> breplace (c_encode a) 214 x = Inr (c_encode (a\<lparr>cc_value := x\<rparr>))"
    and "breplace (c_encode a) 246 (low_byte v) = Inr (c_encode (a\<lparr>cc_awalk := v\<rparr>))"
    and "breplace (c_encode a) 247 (low_byte v) = Inr (c_encode (a\<lparr>cc_swalk := v\<rparr>))"
  subgoal by (rule c_overwrite [OF assms, of 0]) (simp_all add: C_WIDTHS_def c_fields_def)
  subgoal by (rule c_overwrite [OF assms, of 1]) (simp_all add: C_WIDTHS_def c_fields_def)
  subgoal by (rule c_overwrite [OF assms, of 5]) (simp_all add: C_WIDTHS_def c_fields_def)
  subgoal by (rule c_overwrite [OF assms, of 6]) (simp_all add: C_WIDTHS_def c_fields_def)
  subgoal by (rule c_overwrite [OF assms, of 7]) (simp_all add: C_WIDTHS_def c_fields_def)
  subgoal by (rule c_overwrite [OF assms, of 8]) (simp_all add: C_WIDTHS_def c_fields_def)
  subgoal by (rule c_overwrite [OF assms, of 9]) (simp_all add: C_WIDTHS_def c_fields_def)
  subgoal by (rule c_overwrite [OF assms, of 10]) (simp_all add: C_WIDTHS_def c_fields_def)
  subgoal by (rule c_overwrite [OF assms, of 11]) (simp_all add: C_WIDTHS_def c_fields_def)
  done

lemma init_composite_Inr:
  "mpt6_init_composite root addr slot = Inr c \<longleftrightarrow>
   length root = 32 \<and> length addr = 20 \<and> length slot = 32 \<and> c = c_encode (c_initial root addr slot)"
  by (auto simp: mpt6_init_composite_def res_simps max_bytes_def c_encode_def c_fields_def c_initial_def
      zeros32_def Let_def)

lemma c_initial_ok: "length root = 32 \<Longrightarrow> length addr = 20 \<Longrightarrow> length slot = 32 \<Longrightarrow> c_ok (c_initial root addr slot)"
  by (simp add: c_ok_alt c_initial_def c_status_defs phase_defs)

text \<open>The encoding determines the fields.\<close>

lemma c_encode_inj: "c_ok a \<Longrightarrow> c_ok b \<Longrightarrow> c_encode a = c_encode b \<Longrightarrow> a = b"
  using c_encode_get [of a] c_encode_get [of b] by (intro composite.equality) simp_all

end
