(* ===== verification/Comp_Account.thy ===== *)
theory Comp_Account
  imports Comp_State RLP_Encode
begin

text \<open>
  The account-body decode and the storage-value normalisation, \<open>contracts/composer/account.py\<close>, and
  the bridges that write their results into C, \<open>contracts/composer/bridge.py\<close>. The abstract
  encodings of an account and of a storage value are the specification both decoders are proved
  against.
\<close>

section \<open>Decoding\<close>

definition mpt6_account_body :: "bytes \<Rightarrow> nat \<Rightarrow> nat \<Rightarrow> (bytes \<times> bytes \<times> bytes \<times> bytes) res" where
  "mpt6_account_body node value_off value_len =
     rbind (rlp_list_header node value_off) (\<lambda>(payload_off, payload_end).
     rbind (rlp_item_header node payload_off) (\<lambda>(o0, l0, k0).
     rbind (uadd o0 l0) (\<lambda>p1.
     rbind (rlp_item_header node p1) (\<lambda>(o1, l1, k1).
     rbind (uadd o1 l1) (\<lambda>p2.
     rbind (rlp_item_header node p2) (\<lambda>(o2, l2, k2).
     rbind (uadd o2 l2) (\<lambda>p3.
     rbind (rlp_item_header node p3) (\<lambda>(o3, l3, k3).
     rbind (uadd o3 l3) (\<lambda>p4.
     check (p4 = payload_end) ''A2'' (
     check (l2 = 32 \<and> k2 = KIND_STR) ''A3'' (
     check (l3 = 32 \<and> k3 = KIND_STR) ''A3'' (
     check (l0 \<le> 32 \<and> l1 \<le> 32) ''A4'' (
     rbind (uadd value_off value_len) (\<lambda>value_end.
     check (payload_end \<le> value_end) ''A1'' (
     rbind (rlp_bytes node o2 32) (\<lambda>storage_root.
     rbind (rlp_bytes node o3 32) (\<lambda>code_hash.
     rbind (usub 32 l0) (\<lambda>z0.
     rbind (bzero z0) (\<lambda>pad0.
     rbind (rlp_bytes node o0 l0) (\<lambda>nonce.
     rbind (bconcat pad0 nonce) (\<lambda>nonce32.
     rbind (usub 32 l1) (\<lambda>z1.
     rbind (bzero z1) (\<lambda>pad1.
     rbind (rlp_bytes node o1 l1) (\<lambda>balance.
     rbind (bconcat pad1 balance) (\<lambda>balance32.
     Inr (storage_root, code_hash, nonce32, balance32))))))))))))))))))))))))))"

definition mpt6_storage_value :: "bytes \<Rightarrow> nat \<Rightarrow> nat \<Rightarrow> (bytes \<times> bool) res" where
  "mpt6_storage_value node value_off value_len =
     rbind (rlp_item_header node value_off) (\<lambda>(vo, vl, _).
     rbind (uadd vo vl) (\<lambda>item_end.
     rbind (uadd value_off value_len) (\<lambda>value_end.
     check (item_end = value_end) ''A6'' (
     check (vl \<le> 32) ''A5'' (
     if vl = 0 then rbind (bzero 32) (\<lambda>z. Inr (z, True))
     else
       rbind (usub 32 vl) (\<lambda>z.
       rbind (bzero z) (\<lambda>pad.
       rbind (rlp_bytes node vo vl) (\<lambda>v.
       rbind (bconcat pad v) (\<lambda>value32. Inr (value32, False))))))))))"

section \<open>The encodings they decode\<close>

definition pad32 :: "bytes \<Rightarrow> bytes" where
  "pad32 b = replicate (32 - length b) 0 @ b"

definition account_enc :: "bytes \<Rightarrow> bytes \<Rightarrow> bytes \<Rightarrow> bytes \<Rightarrow> bytes" where
  "account_enc nonce balance storage_root code_hash =
     rlp_enc (RList [RStr nonce, RStr balance, RStr storage_root, RStr code_hash])"

definition slot_enc :: "bytes \<Rightarrow> bytes" where
  "slot_enc v = rlp_enc (RStr v)"

lemma length_pad32 [simp]: "length b \<le> 32 \<Longrightarrow> length (pad32 b) = 32"
  by (simp add: pad32_def)

lemma pad32_Nil [simp]: "pad32 [] = zeros32"
  by (simp add: pad32_def zeros32_def)

text \<open>The content of a string item: its span reads back the string.\<close>

lemma rlp_span_string:
  assumes "data = pre @ rlp_enc (RStr bs) @ post" and "rlp_span (length pre) (RStr bs) = (off, n, k)"
  shows "n = length bs" and "seg off n data = bs" and "off + n = length pre + length (rlp_enc (RStr bs))"
    and "length bs \<noteq> 1 \<Longrightarrow> k = KIND_STR"
proof -
  show "off + n = length pre + length (rlp_enc (RStr bs))" using rlp_span_end [OF assms(2)] .
  show "n = length bs" using assms(2) by (auto split: if_splits)
  show "length bs \<noteq> 1 \<Longrightarrow> k = KIND_STR" using assms(2) by (auto split: if_splits)
  show "seg off n data = bs"
  proof (cases "length bs = 1 \<and> unat (hd bs) < 0x80")
    case True
    then show ?thesis using assms by (auto intro!: seg_at)
  next
    case False
    then have "rlp_enc (RStr bs) = enc_prefix 0x80 (length bs) @ bs" by auto
    then have d: "data = (pre @ enc_prefix 0x80 (length bs)) @ bs @ post" using assms(1) by simp
    show ?thesis using False assms(2) by (subst d, intro seg_at) auto
  qed
qed

lemma uadd_ok: "a + b < uint64_limit \<Longrightarrow> uadd a b = Inr (a + b)"
  by (simp add: uadd_def)

text \<open>Items of an encoded list one after the other.\<close>

lemma item_at:
  assumes "data = pre @ rlp_enc (RStr bs) @ post" and "length data < uint64_limit"
  obtains off n k where "rlp_item_header data (length pre) = Inr (off, n, k)" "n = length bs"
    "seg off n data = bs" "off + n = length (pre @ rlp_enc (RStr bs))" "length bs \<noteq> 1 \<Longrightarrow> k = KIND_STR"
    "off + n \<le> length data"
proof -
  obtain off n k where s: "rlp_span (length pre) (RStr bs) = (off, n, k)" by (metis prod_cases3)
  have "rlp_item_header data (length pre) = Inr (off, n, k)"
    using rlp_item_header_enc [OF assms] s by simp
  moreover have "off + n \<le> length data" using rlp_span_end [OF s] assms(1) by simp
  ultimately show ?thesis using that rlp_span_string [OF assms(1) s] by (simp del: rlp_enc.simps)
qed

lemma account_body_enc:
  assumes node: "node = pre @ account_enc nonce balance sroot chash @ post"
    and lim: "length node + value_len < uint64_limit"
    and ok: "length nonce \<le> 32" "length balance \<le> 32" "length sroot = 32" "length chash = 32"
    and len: "length (account_enc nonce balance sroot chash) \<le> value_len"
  shows "mpt6_account_body node (length pre) value_len = Inr (sroot, chash, pad32 nonce, pad32 balance)"
proof -
  let ?e = "\<lambda>b. rlp_enc (RStr b)"
  let ?items = "?e nonce @ ?e balance @ ?e sroot @ ?e chash"
  let ?h = "enc_prefix 0xC0 (length ?items)"
  have enc: "account_enc nonce balance sroot chash = ?h @ ?items"
    by (simp add: account_enc_def Let_def del: rlp_enc.simps(1))
  have d: "node = pre @ ?h @ ?items @ post" using node enc by simp
  have lim': "length node < uint64_limit" using lim by simp
  have hd: "rlp_list_header node (length pre) = Inr (length (pre @ ?h), length (pre @ ?h) + length ?items)"
    using rlp_list_header_enc [OF d lim'] by simp
  obtain o0 k0 where i0: "rlp_item_header node (length (pre @ ?h)) = Inr (o0, length nonce, k0)"
    "seg o0 (length nonce) node = nonce" "o0 + length nonce = length ((pre @ ?h) @ ?e nonce)" "o0 + length nonce \<le> length node"
    using item_at [of node "pre @ ?h" nonce "?e balance @ ?e sroot @ ?e chash @ post"] d lim' by (metis append.assoc)
  obtain o1 k1 where i1: "rlp_item_header node (length ((pre @ ?h) @ ?e nonce)) = Inr (o1, length balance, k1)"
    "seg o1 (length balance) node = balance" "o1 + length balance = length (((pre @ ?h) @ ?e nonce) @ ?e balance)" "o1 + length balance \<le> length node"
    using item_at [of node "(pre @ ?h) @ ?e nonce" balance "?e sroot @ ?e chash @ post"] d lim' by (metis append.assoc)
  obtain o2 where i2: "rlp_item_header node (length (((pre @ ?h) @ ?e nonce) @ ?e balance)) = Inr (o2, 32, KIND_STR)"
    "seg o2 32 node = sroot" "o2 + 32 = length ((((pre @ ?h) @ ?e nonce) @ ?e balance) @ ?e sroot)" "o2 + 32 \<le> length node"
    using item_at [of node "((pre @ ?h) @ ?e nonce) @ ?e balance" sroot "?e chash @ post"] d lim' ok(3)
    by (auto simp del: rlp_enc.simps)
  obtain o3 where i3: "rlp_item_header node (length ((((pre @ ?h) @ ?e nonce) @ ?e balance) @ ?e sroot)) = Inr (o3, 32, KIND_STR)"
    "seg o3 32 node = chash" "o3 + 32 = length (((((pre @ ?h) @ ?e nonce) @ ?e balance) @ ?e sroot) @ ?e chash)" "o3 + 32 \<le> length node"
    using item_at [of node "(((pre @ ?h) @ ?e nonce) @ ?e balance) @ ?e sroot" chash post] d lim' ok(4)
    by (auto simp del: rlp_enc.simps)
  have fin: "o3 + 32 = length (pre @ ?h) + length ?items" using i3(3) by simp
  have bound: "length (pre @ ?h) + length ?items \<le> length pre + value_len" using len enc by simp
  have small: "length pre + value_len < uint64_limit" using lim d by simp
  have ua: "uadd o0 (length nonce) = Inr (o0 + length nonce)" "uadd o1 (length balance) = Inr (o1 + length balance)"
    "uadd o2 32 = Inr (o2 + 32)" "uadd o3 32 = Inr (o3 + 32)" "uadd (length pre) value_len = Inr (length pre + value_len)"
    using i0(4) i1(4) i2(4) i3(4) lim' small by (auto intro!: uadd_ok)
  have rb: "rlp_bytes node o2 32 = Inr sroot" "rlp_bytes node o3 32 = Inr chash"
    "rlp_bytes node o0 (length nonce) = Inr nonce" "rlp_bytes node o1 (length balance) = Inr balance"
    using i0 i1 i2 i3 by (simp_all add: rlp_bytes_def bextract_def)
  have pz: "usub 32 (length nonce) = Inr (32 - length nonce)" "usub 32 (length balance) = Inr (32 - length balance)"
    using ok by (simp_all add: usub_def)
  have pd: "bzero (32 - length x) = Inr (replicate (32 - length x) 0)" for x :: bytes
    by (simp add: bzero_def max_bytes_def)
  have cc: "length x \<le> 32 \<Longrightarrow> bconcat (replicate (32 - length x) 0) x = Inr (pad32 x)" for x
    by (simp add: bconcat_def max_bytes_def pad32_def)
  show ?thesis
    unfolding mpt6_account_body_def hd rbind_Inr prod.case i0(1) ua(1) i0(3) i1(1) ua(2) i1(3) i2(1) ua(3) i2(3) i3(1) ua(4)
      fin ua(5) rb pz pd cc [OF ok(1)] cc [OF ok(2)]
    using bound ok by (simp add: cc)
qed

lemma storage_value_enc:
  assumes node: "node = pre @ slot_enc v @ post" and lim: "length node < uint64_limit" and v: "length v \<le> 32"
  shows "mpt6_storage_value node (length pre) (length (slot_enc v)) = Inr (pad32 v, v = [])"
proof -
  obtain o0 k0 where i0: "rlp_item_header node (length pre) = Inr (o0, length v, k0)"
    "seg o0 (length v) node = v" "o0 + length v = length pre + length (slot_enc v)" "o0 + length v \<le> length node"
    using item_at [of node pre v post] node lim unfolding slot_enc_def by (metis length_append)
  have "uadd o0 (length v) = Inr (o0 + length v)" "uadd (length pre) (length (slot_enc v)) = Inr (o0 + length v)"
    using i0(3,4) lim by (simp_all add: uadd_def)
  moreover have "32 - length v \<le> 4096" by simp
  ultimately show ?thesis using v i0
    by (simp add: mpt6_storage_value_def rlp_bytes_def bextract_def usub_def bzero_def bconcat_def max_bytes_def pad32_def)
qed

text \<open>Whatever the node holds, an accepted decode yields 32-byte words.\<close>

lemma account_body_widths:
  "mpt6_account_body node off n = Inr (sr, ch, nonce, bal) \<Longrightarrow>
   length sr = 32 \<and> length ch = 32 \<and> length nonce = 32 \<and> length bal = 32"
  unfolding mpt6_account_body_def rlp_bytes_def by (auto simp: res_simps)

lemma storage_value_width: "mpt6_storage_value node off n = Inr (v, z) \<Longrightarrow> length v = 32"
  unfolding mpt6_storage_value_def rlp_bytes_def by (auto simp: res_simps split: if_splits)

text \<open>
  The bridge from a terminated walk into the composite state, \<open>contracts/composer/bridge.py\<close>: the
  account bridge extracts the storage root from the very node buffer that ended the account walk;
  the storage bridge writes the verdict. Each bridge is shown to be a record update on the fields.
\<close>

definition EMPTY_TRIE_ROOT :: bytes where
  "EMPTY_TRIE_ROOT =
     [0x56, 0xe8, 0x1f, 0x17, 0x1b, 0xcc, 0x55, 0xa6, 0xff, 0x83, 0x45, 0xe6, 0x92, 0xc0, 0xf8, 0x6e,
      0x5b, 0x48, 0xe0, 0x1b, 0x99, 0x6c, 0xad, 0xc0, 0x01, 0x62, 0x2f, 0xb5, 0xe3, 0x63, 0xb4, 0x21]"

definition EMPTY_CODE_HASH :: bytes where
  "EMPTY_CODE_HASH =
     [0xc5, 0xd2, 0x46, 0x01, 0x86, 0xf7, 0x23, 0x3c, 0x92, 0x7e, 0x7d, 0xb2, 0xdc, 0xc7, 0x03, 0xc0,
      0xe5, 0x00, 0xb6, 0x53, 0xca, 0x82, 0x27, 0x3b, 0x7b, 0xfa, 0xd8, 0x04, 0x5d, 0x85, 0xa4, 0x70]"

definition mpt6_bridge_account :: "bytes \<Rightarrow> nat \<Rightarrow> bytes \<Rightarrow> nat \<Rightarrow> nat \<Rightarrow> bytes res" where
  "mpt6_bridge_account c walk_status node value_off value_len =
     (if walk_status \<noteq> WALK_INCLUDED then
        rbind (breplace c 0 (byte1 C_ABSENT_ACCOUNT)) (\<lambda>c2.
        rbind (breplace c2 1 (byte1 PHASE_DONE)) (\<lambda>c2.
        rbind (breplace c2 86 EMPTY_TRIE_ROOT) (\<lambda>c2.
        rbind (breplace c2 118 EMPTY_CODE_HASH) (\<lambda>c2.
        breplace c2 246 (byte1 walk_status)))))
      else
        rbind (mpt6_account_body node value_off value_len) (\<lambda>(storage_root, code_hash, nonce32, balance32).
        rbind (breplace c 86 storage_root) (\<lambda>c2.
        rbind (breplace c2 118 code_hash) (\<lambda>c2.
        rbind (breplace c2 150 nonce32) (\<lambda>c2.
        rbind (breplace c2 182 balance32) (\<lambda>c2.
        rbind (breplace c2 246 (byte1 WALK_INCLUDED)) (\<lambda>c2.
        if storage_root = EMPTY_TRIE_ROOT then
          rbind (breplace c2 0 (byte1 C_ABSENT_SLOT_EMPTY_TRIE)) (\<lambda>c2.
          breplace c2 1 (byte1 PHASE_DONE))
        else
          rbind (breplace c2 0 (byte1 C_PENDING_STORAGE)) (\<lambda>c2.
          breplace c2 1 (byte1 PHASE_A_OK)))))))))"

definition mpt6_bridge_storage :: "bytes \<Rightarrow> nat \<Rightarrow> bytes \<Rightarrow> nat \<Rightarrow> nat \<Rightarrow> bytes res" where
  "mpt6_bridge_storage c walk_status node value_off value_len =
     rbind (breplace c 1 (byte1 PHASE_DONE)) (\<lambda>c2.
     rbind (breplace c2 247 (byte1 walk_status)) (\<lambda>c2.
     if walk_status \<noteq> WALK_INCLUDED then breplace c2 0 (byte1 C_ABSENT_SLOT)
     else
       rbind (mpt6_storage_value node value_off value_len) (\<lambda>(value32, is_zero).
       rbind (breplace c2 214 value32) (\<lambda>c2.
       if is_zero then breplace c2 0 (byte1 C_ZERO_ENTRY)
       else breplace c2 0 (byte1 C_INCLUDED)))))"

lemma length_EMPTY [simp]: "length EMPTY_TRIE_ROOT = 32" "length EMPTY_CODE_HASH = 32"
  by (simp_all add: EMPTY_TRIE_ROOT_def EMPTY_CODE_HASH_def)

section \<open>The bridges on the fields\<close>

text \<open>Every status, phase and walk code is a byte.\<close>

lemma codes_lt:
  "C_ABSENT_ACCOUNT < 256" "C_ABSENT_SLOT_EMPTY_TRIE < 256" "C_PENDING_STORAGE < 256" "C_ABSENT_SLOT < 256"
  "C_ZERO_ENTRY < 256" "C_INCLUDED < 256" "PHASE_DONE < 256" "PHASE_A_OK < 256" "PHASE_B < 256" "WALK_INCLUDED < 256"
  by (simp_all add: c_status_defs phase_defs walk_status_defs)

definition account_absent :: "nat \<Rightarrow> composite \<Rightarrow> composite" where
  "account_absent s a = a\<lparr>cc_cstatus := C_ABSENT_ACCOUNT, cc_phase := PHASE_DONE,
     cc_storage_root := EMPTY_TRIE_ROOT, cc_code_hash := EMPTY_CODE_HASH, cc_awalk := s\<rparr>"

definition account_found :: "bytes \<times> bytes \<times> bytes \<times> bytes \<Rightarrow> composite \<Rightarrow> composite" where
  "account_found body a = (case body of (sr, ch, nonce, bal) \<Rightarrow>
     a\<lparr>cc_storage_root := sr, cc_code_hash := ch, cc_nonce := nonce, cc_balance := bal,
       cc_awalk := WALK_INCLUDED,
       cc_cstatus := (if sr = EMPTY_TRIE_ROOT then C_ABSENT_SLOT_EMPTY_TRIE else C_PENDING_STORAGE),
       cc_phase := (if sr = EMPTY_TRIE_ROOT then PHASE_DONE else PHASE_A_OK)\<rparr>)"

definition slot_absent :: "nat \<Rightarrow> composite \<Rightarrow> composite" where
  "slot_absent s a = a\<lparr>cc_phase := PHASE_DONE, cc_swalk := s, cc_cstatus := C_ABSENT_SLOT\<rparr>"

definition slot_found :: "bytes \<times> bool \<Rightarrow> composite \<Rightarrow> composite" where
  "slot_found r a = (case r of (v, z) \<Rightarrow>
     a\<lparr>cc_phase := PHASE_DONE, cc_swalk := WALK_INCLUDED, cc_value := v,
       cc_cstatus := (if z then C_ZERO_ENTRY else C_INCLUDED)\<rparr>)"

lemmas bridge_result_defs = account_absent_def account_found_def slot_absent_def slot_found_def

lemma account_absent_ok: "c_ok a \<Longrightarrow> s < 256 \<Longrightarrow> c_ok (account_absent s a)"
  using codes_lt by (simp add: c_ok_alt account_absent_def)

lemma account_found_ok:
  "c_ok a \<Longrightarrow> mpt6_account_body node off n = Inr body \<Longrightarrow> c_ok (account_found body a)"
  using codes_lt account_body_widths [of node off n] by (cases body) (simp add: c_ok_alt account_found_def)

lemma slot_absent_ok: "c_ok a \<Longrightarrow> s < 256 \<Longrightarrow> c_ok (slot_absent s a)"
  using codes_lt by (simp add: c_ok_alt slot_absent_def)

lemma slot_found_ok: "c_ok a \<Longrightarrow> mpt6_storage_value node off n = Inr r \<Longrightarrow> c_ok (slot_found r a)"
  using codes_lt storage_value_width [of node off n] by (cases r) (simp add: c_ok_alt slot_found_def)

text \<open>A splice succeeds, with the updated record, as long as the record stays well formed.\<close>

lemma put_chain:
  "c_ok a \<Longrightarrow> rbind (breplace (c_encode a) 0 (low_byte v)) f = f (c_encode (a\<lparr>cc_cstatus := v\<rparr>))"
  "c_ok a \<Longrightarrow> rbind (breplace (c_encode a) 1 (low_byte v)) f = f (c_encode (a\<lparr>cc_phase := v\<rparr>))"
  "c_ok a \<Longrightarrow> rbind (breplace (c_encode a) 246 (low_byte v)) f = f (c_encode (a\<lparr>cc_awalk := v\<rparr>))"
  "c_ok a \<Longrightarrow> rbind (breplace (c_encode a) 247 (low_byte v)) f = f (c_encode (a\<lparr>cc_swalk := v\<rparr>))"
  "c_ok a \<Longrightarrow> length x = 32 \<Longrightarrow> rbind (breplace (c_encode a) 86 x) f = f (c_encode (a\<lparr>cc_storage_root := x\<rparr>))"
  "c_ok a \<Longrightarrow> length x = 32 \<Longrightarrow> rbind (breplace (c_encode a) 118 x) f = f (c_encode (a\<lparr>cc_code_hash := x\<rparr>))"
  "c_ok a \<Longrightarrow> length x = 32 \<Longrightarrow> rbind (breplace (c_encode a) 150 x) f = f (c_encode (a\<lparr>cc_nonce := x\<rparr>))"
  "c_ok a \<Longrightarrow> length x = 32 \<Longrightarrow> rbind (breplace (c_encode a) 182 x) f = f (c_encode (a\<lparr>cc_balance := x\<rparr>))"
  "c_ok a \<Longrightarrow> length x = 32 \<Longrightarrow> rbind (breplace (c_encode a) 214 x) f = f (c_encode (a\<lparr>cc_value := x\<rparr>))"
  by (simp_all add: c_put del: One_nat_def)

lemma c_ok_update:
  "c_ok a \<Longrightarrow> v < 256 \<Longrightarrow> c_ok (a\<lparr>cc_cstatus := v\<rparr>)" "c_ok a \<Longrightarrow> v < 256 \<Longrightarrow> c_ok (a\<lparr>cc_phase := v\<rparr>)"
  "c_ok a \<Longrightarrow> v < 256 \<Longrightarrow> c_ok (a\<lparr>cc_awalk := v\<rparr>)" "c_ok a \<Longrightarrow> v < 256 \<Longrightarrow> c_ok (a\<lparr>cc_swalk := v\<rparr>)"
  "c_ok a \<Longrightarrow> length x = 32 \<Longrightarrow> c_ok (a\<lparr>cc_storage_root := x\<rparr>)"
  "c_ok a \<Longrightarrow> length x = 32 \<Longrightarrow> c_ok (a\<lparr>cc_code_hash := x\<rparr>)"
  "c_ok a \<Longrightarrow> length x = 32 \<Longrightarrow> c_ok (a\<lparr>cc_nonce := x\<rparr>)"
  "c_ok a \<Longrightarrow> length x = 32 \<Longrightarrow> c_ok (a\<lparr>cc_balance := x\<rparr>)"
  "c_ok a \<Longrightarrow> length x = 32 \<Longrightarrow> c_ok (a\<lparr>cc_value := x\<rparr>)"
  by (simp_all add: c_ok_alt)

lemma bridge_account_encode:
  assumes a: "c_ok a" and s: "s < 256"
  shows "mpt6_bridge_account (c_encode a) s node off n =
    (if s \<noteq> WALK_INCLUDED then Inr (c_encode (account_absent s a))
     else rbind (mpt6_account_body node off n) (\<lambda>body. Inr (c_encode (account_found body a))))"
proof (cases "s = WALK_INCLUDED")
  case False
  then show ?thesis using a s codes_lt
    by (simp add: mpt6_bridge_account_def put_chain c_put c_ok_update account_absent_def del: One_nat_def)
next
  case True
  show ?thesis
  proof (cases "mpt6_account_body node off n")
    case (Inr body)
    obtain sr ch nonce bal where b: "body = (sr, ch, nonce, bal)" by (metis prod_cases4)
    note w = account_body_widths [OF Inr [unfolded b]]
    show ?thesis using True a w codes_lt
      by (simp add: mpt6_bridge_account_def Inr b put_chain c_put c_ok_update account_found_def del: One_nat_def)
  qed (simp add: True mpt6_bridge_account_def)
qed

lemma bridge_storage_encode:
  assumes a: "c_ok a" and s: "s < 256"
  shows "mpt6_bridge_storage (c_encode a) s node off n =
    (if s \<noteq> WALK_INCLUDED then Inr (c_encode (slot_absent s a))
     else rbind (mpt6_storage_value node off n) (\<lambda>r. Inr (c_encode (slot_found r a))))"
proof (cases "s = WALK_INCLUDED")
  case False
  then show ?thesis using a s codes_lt
    by (simp add: mpt6_bridge_storage_def put_chain c_put c_ok_update slot_absent_def del: One_nat_def)
next
  case True
  show ?thesis
  proof (cases "mpt6_storage_value node off n")
    case (Inr r)
    obtain v z where r: "r = (v, z)" by (cases r)
    note w = storage_value_width [OF Inr [unfolded r]]
    show ?thesis using True a w codes_lt
      by (simp add: mpt6_bridge_storage_def Inr r put_chain c_put c_ok_update slot_found_def del: One_nat_def)
  qed (use True a codes_lt in \<open>simp add: mpt6_bridge_storage_def put_chain c_put c_ok_update del: One_nat_def\<close>)
qed

end
