(* ===== verification/Comp_App.thy ===== *)
theory Comp_App
  imports Comp_Account MPT_Walk
begin

text \<open>
  The hand-off of (W, C) between transactions, \<open>contracts/composer/handoff.py\<close>, and the segmented
  driver \<open>Mpt6ComposerApp\<close> of \<open>contracts/composer/bench_app.py\<close>: account walk, bridge, storage walk,
  over the transactions of one atomic group. Inner transactions that only raise the opcode budget
  are the parameter \<open>donate\<close>.
\<close>

section \<open>Hand-off\<close>

definition COMP_SELECTOR :: bytes where "COMP_SELECTOR = [0x41, 0x43, 0x53, 0x31]"
definition LOG_LEN_M6 :: nat where "LOG_LEN_M6 = 4 + 2 + W_LEN + C_LEN"

definition mpt6_log_state :: "bytes \<Rightarrow> bytes \<Rightarrow> bytes res" where
  "mpt6_log_state w c =
     check (length w = W_LEN) ''A14'' (
     check (length c = C_LEN) ''A14'' (
     let payload_len = W_LEN + C_LEN; length_b = seg 6 2 (itob payload_len) in
     Inr (ARC4_RETURN_PREFIX @ length_b @ w @ c)))"

definition mpt6_state_from_prev :: "env \<Rightarrow> nat \<Rightarrow> (bytes \<times> bytes) res" where
  "mpt6_state_from_prev E gi =
     check (gi < env_index E) ''A11'' (
     rbind (gtxn_app_call E gi) (\<lambda>(app, args, lg).
     check (app = env_app E) ''A12'' (
     rbind (gtxn_arg0 args) (\<lambda>a0.
     check (a0 = COMP_SELECTOR) ''A13'' (
     check (length lg = LOG_LEN_M6) ''A14'' (
     rbind (bextract lg 0 4) (\<lambda>pre.
     check (pre = ARC4_RETURN_PREFIX) ''A14'' (
     rbind (bextract lg 6 W_LEN) (\<lambda>w.
     rbind (bextract lg (6 + W_LEN) C_LEN) (\<lambda>c. Inr (w, c)))))))))))"

definition mpt6_result_from_group :: "env \<Rightarrow> nat \<Rightarrow> bytes \<Rightarrow> bytes \<Rightarrow> bytes \<Rightarrow> (nat \<times> bytes) res" where
  "mpt6_result_from_group E gi want_state_root want_address want_slot =
     rbind (mpt6_state_from_prev E gi) (\<lambda>(_, c).
     rbind (c_phase c) (\<lambda>phase.
     check (phase = PHASE_DONE) ''A17'' (
     rbind (c_state_root c) (\<lambda>state_root.
     check (state_root = want_state_root) ''A18'' (
     rbind (c_address c) (\<lambda>address.
     check (address = want_address) ''A18'' (
     rbind (c_slot c) (\<lambda>slot.
     check (slot = want_slot) ''A18'' (
     rbind (c_cstatus c) (\<lambda>cstatus.
     rbind (c_value c) (\<lambda>value. Inr (cstatus, value))))))))))))"

section \<open>The driver\<close>

text \<open>\<open>_walk6\<close>: the loop over the remaining node arguments, here their list.\<close>

fun walk6 :: "(bytes \<Rightarrow> bytes) \<Rightarrow> bool \<Rightarrow> bytes \<Rightarrow> bytes \<Rightarrow> bytes list \<Rightarrow> (bytes \<times> bytes) res" where
  "walk6 K is_phase_a cur_c cur_w [] = Inr (cur_w, cur_c)"
| "walk6 K is_phase_a cur_c cur_w (node # nodes) =
     rbind (w_status cur_w) (\<lambda>s.
     check (s = WALK_CONTINUE) ''W10'' (
     rbind (mpt_walk_node K node cur_w) (\<lambda>(cur_w, voff, vlen).
     rbind (w_status cur_w) (\<lambda>status.
     rbind
       (if status \<noteq> WALK_CONTINUE then
          (if is_phase_a then mpt6_bridge_account cur_c status node voff vlen
           else mpt6_bridge_storage cur_c status node voff vlen)
        else Inr cur_c)
     (\<lambda>cur_c. walk6 K is_phase_a cur_c cur_w nodes)))))"

definition walk6_args ::
  "(bytes \<Rightarrow> bytes) \<Rightarrow> env \<Rightarrow> bytes \<Rightarrow> bytes \<Rightarrow> nat \<Rightarrow> bool \<Rightarrow> (bytes \<times> bytes) res" where
  "walk6_args K E c w first_node_arg is_phase_a = walk6 K is_phase_a c w (drop first_node_arg (env_args E))"

definition MODE_A_INIT :: nat where "MODE_A_INIT = 0"
definition MODE_A_NEXT :: nat where "MODE_A_NEXT = 1"
definition MODE_B_INIT :: nat where "MODE_B_INIT = 2"
definition MODE_B_NEXT :: nat where "MODE_B_NEXT = 3"

lemmas mode_defs = MODE_A_INIT_def MODE_A_NEXT_def MODE_B_INIT_def MODE_B_NEXT_def

text \<open>
  The four modes; \<open>donate\<close> stands for \<open>_issue_donors\<close>, whose inner calls may fail. The result is the
  bytes the call logs.
\<close>

definition mode_a_init :: "(bytes \<Rightarrow> bytes) \<Rightarrow> unit res \<Rightarrow> env \<Rightarrow> bytes res" where
  "mode_a_init K donors E =
     rbind (app_arg E 4) (\<lambda>state_root.
     rbind (app_arg E 5) (\<lambda>address.
     rbind (app_arg E 6) (\<lambda>slot.
     rbind donors (\<lambda>_.
     rbind (mpt_key_from_address K address) (\<lambda>key.
     rbind (mpt_init_state state_root key 64) (\<lambda>w.
     rbind (mpt6_init_composite state_root address slot) (\<lambda>c.
     rbind (walk6_args K E c w 7 True) (\<lambda>(final_w, final_c).
     mpt6_log_state final_w final_c))))))))"

definition mode_a_next :: "(bytes \<Rightarrow> bytes) \<Rightarrow> unit res \<Rightarrow> env \<Rightarrow> bytes res" where
  "mode_a_next K donors E =
     rbind (app_arg E 4) (\<lambda>a4. rbind (btoi a4) (\<lambda>prev_gi.
     rbind (mpt6_state_from_prev E prev_gi) (\<lambda>(w, c).
     rbind (c_phase c) (\<lambda>phase.
     check (phase = PHASE_A) ''A10'' (
     rbind donors (\<lambda>_.
     rbind (walk6_args K E c w 5 True) (\<lambda>(final_w, final_c).
     mpt6_log_state final_w final_c)))))))"

definition mode_b_init :: "(bytes \<Rightarrow> bytes) \<Rightarrow> unit res \<Rightarrow> env \<Rightarrow> bytes res" where
  "mode_b_init K donors E =
     rbind (app_arg E 4) (\<lambda>a4. rbind (btoi a4) (\<lambda>prev_gi.
     rbind (mpt6_state_from_prev E prev_gi) (\<lambda>(w_a, c).
     rbind (c_phase c) (\<lambda>phase.
     check (phase = PHASE_A_OK) ''A15'' (
     rbind (w_status w_a) (\<lambda>status.
     check (status = WALK_INCLUDED) ''A16'' (
     rbind (w_root w_a) (\<lambda>root.
     rbind (c_state_root c) (\<lambda>state_root.
     check (root = state_root) ''A7'' (
     rbind (c_storage_root c) (\<lambda>storage_root.
     check (storage_root \<noteq> EMPTY_TRIE_ROOT) ''A8'' (
     rbind (c_slot c) (\<lambda>slot.
     rbind (mpt_key_from_slot K slot) (\<lambda>skey.
     rbind (mpt_init_state storage_root skey 64) (\<lambda>w_b.
     rbind (c_with_phase c PHASE_B) (\<lambda>c2.
     rbind donors (\<lambda>_.
     rbind (walk6_args K E c2 w_b 5 False) (\<lambda>(final_w, final_c).
     mpt6_log_state final_w final_c))))))))))))))))))"

definition mode_b_next :: "(bytes \<Rightarrow> bytes) \<Rightarrow> unit res \<Rightarrow> env \<Rightarrow> bytes res" where
  "mode_b_next K donors E =
     rbind (app_arg E 4) (\<lambda>a4. rbind (btoi a4) (\<lambda>prev_gi.
     rbind (mpt6_state_from_prev E prev_gi) (\<lambda>(w, c).
     rbind (c_phase c) (\<lambda>phase.
     check (phase = PHASE_B) ''A10'' (
     rbind (w_root w) (\<lambda>root.
     rbind (c_storage_root c) (\<lambda>storage_root.
     check (root = storage_root) ''A9'' (
     rbind donors (\<lambda>_.
     rbind (walk6_args K E c w 5 False) (\<lambda>(final_w, final_c).
     mpt6_log_state final_w final_c))))))))))"

text \<open>
  \<open>Mpt6ComposerApp.approval_program\<close> for a \<open>NoOp\<close> call of the deployed application; \<open>None\<close>: nothing
  is logged (a call without arguments).
\<close>

definition mpt6_composer_app ::
  "(bytes \<Rightarrow> bytes) \<Rightarrow> (nat \<Rightarrow> nat \<Rightarrow> unit res) \<Rightarrow> env \<Rightarrow> bytes option res" where
  "mpt6_composer_app K donate E =
     (if env_args E = [] then Inr None
      else
        rbind (app_arg E 0) (\<lambda>selector.
        check (selector = COMP_SELECTOR) ''D1'' (
        rbind (app_arg E 1) (\<lambda>a1. rbind (btoi a1) (\<lambda>mode.
        rbind (app_arg E 2) (\<lambda>a2. rbind (btoi a2) (\<lambda>donor_count.
        rbind (app_arg E 3) (\<lambda>a3. rbind (btoi a3) (\<lambda>donor_app_id.
        let donors = donate donor_count donor_app_id in
        rbind
          (if mode = MODE_A_INIT then mode_a_init K donors E
           else if mode = MODE_A_NEXT then mode_a_next K donors E
           else if mode = MODE_B_INIT then mode_b_init K donors E
           else check (mode = MODE_B_NEXT) ''A19'' (mode_b_next K donors E))
        (\<lambda>lg. Inr (Some lg)))))))))))"

section \<open>The hand-off implements the interface\<close>

lemma comp_recover_logged:
  assumes "gi < env_index E" and "gi < length (env_group E)"
    and "env_group E ! gi = AppCall (env_app E) (COMP_SELECTOR # rest) lg" and "mpt6_log_state w c = Inr lg"
  shows "mpt6_state_from_prev E gi = Inr (w, c)"
proof -
  have l: "length w = W_LEN" "length c = C_LEN"
    and lg: "lg = ARC4_RETURN_PREFIX @ low_bytes2 (W_LEN + C_LEN) @ w @ c"
    using assms(4) by (auto simp: mpt6_log_state_def res_simps low_bytes2_def)
  let ?len = "low_bytes2 (W_LEN + C_LEN)"
  have "seg 0 4 lg = ARC4_RETURN_PREFIX" using seg_at [of "[]" 0 ARC4_RETURN_PREFIX 4] by (simp add: lg)
  moreover have "seg 6 W_LEN lg = w"
    using seg_at [of "ARC4_RETURN_PREFIX @ ?len" 6 w W_LEN c] l by (simp add: lg)
  moreover have "seg (6 + W_LEN) C_LEN lg = c"
    using seg_at_end [of "ARC4_RETURN_PREFIX @ ?len @ w" "6 + W_LEN" c C_LEN] l by (simp add: lg)
  moreover have "length lg = LOG_LEN_M6" using l by (simp add: lg LOG_LEN_M6_def)
  ultimately show ?thesis using assms(1-3)
    by (simp add: mpt6_state_from_prev_def gtxn_app_call_def gtxn_arg0_def bextract_def LOG_LEN_M6_def)
qed

interpretation comp_handoff:
  log_handoff "\<lambda>(w, c). mpt6_log_state w c" mpt6_state_from_prev env_app COMP_SELECTOR
proof
  fix gi rest lg and p :: "bytes \<times> bytes" and E :: env
  assume "gi < env_index E" "gi < length (env_group E)"
    "env_group E ! gi = AppCall (env_app E) (COMP_SELECTOR # rest) lg"
    "(case p of (w, c) \<Rightarrow> mpt6_log_state w c) = Inr lg"
  then show "mpt6_state_from_prev E gi = Inr p"
    using comp_recover_logged by (cases p) simp
next
  fix gi and p :: "bytes \<times> bytes" and E :: env
  assume "mpt6_state_from_prev E gi = Inr p"
  then show "gi < env_index E \<and> gi < length (env_group E) \<and>
      (\<exists>rest lg. env_group E ! gi = AppCall (env_app E) (COMP_SELECTOR # rest) lg)"
    by (auto simp: mpt6_state_from_prev_def res_simps split: prod.splits)
qed

end
