(* ===== verification/Comp_Inv.thy ===== *)
theory Comp_Inv
  imports Comp_App
begin

text \<open>
  The composer as a state machine over the calls of one atomic group: each call of the application is
  a step from a state some earlier call logged, and an invariant of the steps holds of every state
  that can be recovered. First instance: the typing of the composite state.
\<close>

section \<open>Calls as steps\<close>

text \<open>The proof nodes among the arguments of a call.\<close>

definition node_args :: "bytes list \<Rightarrow> bytes list" where
  "node_args args = (if btoi (args ! 1) = Inr MODE_A_INIT then drop 7 args else drop 5 args)"

inductive comp_call :: "(bytes \<Rightarrow> bytes) \<Rightarrow> env \<Rightarrow> bytes \<Rightarrow> bytes \<Rightarrow> bool" for K E where
  a_init: "length root = 32 \<Longrightarrow> length addr = 20 \<Longrightarrow> length slot = 32 \<Longrightarrow>
    mpt_init_state root (K addr) 64 = Inr w \<Longrightarrow>
    walk6 K True (c_encode (c_initial root addr slot)) w nodes = Inr (w', c') \<Longrightarrow>
    nodes = node_args (env_args E) \<Longrightarrow> comp_call K E w' c'"
| a_next: "mpt6_state_from_prev E gi = Inr (w, c) \<Longrightarrow> c_phase c = Inr PHASE_A \<Longrightarrow>
    walk6 K True c w nodes = Inr (w', c') \<Longrightarrow> nodes = node_args (env_args E) \<Longrightarrow> comp_call K E w' c'"
| b_init: "mpt6_state_from_prev E gi = Inr (w_a, c) \<Longrightarrow> c_phase c = Inr PHASE_A_OK \<Longrightarrow>
    c_storage_root c = Inr sroot \<Longrightarrow> sroot \<noteq> EMPTY_TRIE_ROOT \<Longrightarrow> c_slot c = Inr slot \<Longrightarrow>
    mpt_init_state sroot (K slot) 64 = Inr w \<Longrightarrow> c_with_phase c PHASE_B = Inr c2 \<Longrightarrow>
    walk6 K False c2 w nodes = Inr (w', c') \<Longrightarrow> nodes = node_args (env_args E) \<Longrightarrow> comp_call K E w' c'"
| b_next: "mpt6_state_from_prev E gi = Inr (w, c) \<Longrightarrow> c_phase c = Inr PHASE_B \<Longrightarrow>
    walk6 K False c w nodes = Inr (w', c') \<Longrightarrow> nodes = node_args (env_args E) \<Longrightarrow> comp_call K E w' c'"

lemma mode_a_init_call:
  assumes "mode_a_init K donors E = Inr lg" and na: "node_args (env_args E) = drop 7 (env_args E)"
  shows "\<exists>w c. comp_call K E w c \<and> mpt6_log_state w c = Inr lg"
proof -
  from assms(1) obtain root addr slot w w' c' where "length root = 32" "length addr = 20" "length slot = 32"
    "mpt_init_state root (K addr) 64 = Inr w"
    "walk6 K True (c_encode (c_initial root addr slot)) w (drop 7 (env_args E)) = Inr (w', c')"
    and lg: "mpt6_log_state w' c' = Inr lg"
    by (auto simp: mode_a_init_def walk6_args_def mpt_key_from_address_def init_composite_Inr res_simps)
  then have "comp_call K E w' c'" by (intro comp_call.a_init) (simp_all add: na)
  with lg show ?thesis by blast
qed

lemma mode_a_next_call:
  assumes "mode_a_next K donors E = Inr lg" and na: "node_args (env_args E) = drop 5 (env_args E)"
  shows "\<exists>w c. comp_call K E w c \<and> mpt6_log_state w c = Inr lg"
proof -
  from assms(1) obtain gi w c w' c' where "mpt6_state_from_prev E gi = Inr (w, c)" "c_phase c = Inr PHASE_A"
    "walk6 K True c w (drop 5 (env_args E)) = Inr (w', c')" and lg: "mpt6_log_state w' c' = Inr lg"
    by (auto simp: mode_a_next_def walk6_args_def res_simps)
  then have "comp_call K E w' c'" by (intro comp_call.a_next) (simp_all add: na)
  with lg show ?thesis by blast
qed

lemma mode_b_init_call:
  assumes "mode_b_init K donors E = Inr lg" and na: "node_args (env_args E) = drop 5 (env_args E)"
  shows "\<exists>w c. comp_call K E w c \<and> mpt6_log_state w c = Inr lg"
proof -
  from assms(1) obtain gi w_a c sroot slot w c2 w' c' where "mpt6_state_from_prev E gi = Inr (w_a, c)"
    "c_phase c = Inr PHASE_A_OK" "c_storage_root c = Inr sroot" "sroot \<noteq> EMPTY_TRIE_ROOT" "c_slot c = Inr slot"
    "mpt_init_state sroot (K slot) 64 = Inr w" "c_with_phase c PHASE_B = Inr c2"
    "walk6 K False c2 w (drop 5 (env_args E)) = Inr (w', c')" and lg: "mpt6_log_state w' c' = Inr lg"
    by (auto simp: mode_b_init_def walk6_args_def mpt_key_from_slot_def res_simps)
  then have "comp_call K E w' c'" by (intro comp_call.b_init) (simp_all add: na)
  with lg show ?thesis by blast
qed

lemma mode_b_next_call:
  assumes "mode_b_next K donors E = Inr lg" and na: "node_args (env_args E) = drop 5 (env_args E)"
  shows "\<exists>w c. comp_call K E w c \<and> mpt6_log_state w c = Inr lg"
proof -
  from assms(1) obtain gi w c w' c' where "mpt6_state_from_prev E gi = Inr (w, c)" "c_phase c = Inr PHASE_B"
    "walk6 K False c w (drop 5 (env_args E)) = Inr (w', c')" and lg: "mpt6_log_state w' c' = Inr lg"
    by (auto simp: mode_b_next_def walk6_args_def res_simps)
  then have "comp_call K E w' c'" by (intro comp_call.b_next) (simp_all add: na)
  with lg show ?thesis by blast
qed

lemma app_comp_call:
  assumes "mpt6_composer_app K donate E = Inr (Some lg)"
  shows "\<exists>w c. comp_call K E w c \<and> mpt6_log_state w c = Inr lg"
proof -
  from assms obtain donors mode where m: "btoi (env_args E ! 1) = Inr mode"
    and r: "(if mode = MODE_A_INIT then mode_a_init K donors E
        else if mode = MODE_A_NEXT then mode_a_next K donors E
        else if mode = MODE_B_INIT then mode_b_init K donors E
        else check (mode = MODE_B_NEXT) ''A19'' (mode_b_next K donors E)) = Inr lg"
    unfolding mpt6_composer_app_def Let_def
    by (auto simp: res_simps simp del: One_nat_def split: if_split_asm cong: if_cong)
  show ?thesis
  proof (cases "mode = MODE_A_INIT")
    case True
    then show ?thesis using r m by (intro mode_a_init_call [of K donors]) (simp_all add: node_args_def)
  next
    case False
    then have na: "node_args (env_args E) = drop 5 (env_args E)" using m by (simp add: node_args_def)
    from r False have "mode_a_next K donors E = Inr lg \<or> mode_b_init K donors E = Inr lg \<or> mode_b_next K donors E = Inr lg"
      by (auto simp: res_simps split: if_split_asm)
    then show ?thesis
      using mode_a_next_call [OF _ na] mode_b_init_call [OF _ na] mode_b_next_call [OF _ na] by blast
  qed
qed

section \<open>Invariants of a group\<close>

text \<open>
  Every earlier \<open>ACS1\<close> call of the trusted application in the group logged what the code logs in its
  place of the group: the AVM's own execution record.
\<close>

definition comp_executed :: "(bytes \<Rightarrow> bytes) \<Rightarrow> (nat \<Rightarrow> nat \<Rightarrow> unit res) \<Rightarrow> env \<Rightarrow> bool" where
  "comp_executed K donate E \<longleftrightarrow> (\<forall>i rest lg. i < env_index E \<longrightarrow> i < length (env_group E) \<longrightarrow>
     env_group E ! i = AppCall (env_app E) (COMP_SELECTOR # rest) lg \<longrightarrow>
     mpt6_composer_app K donate (E\<lparr>env_index := i, env_args := COMP_SELECTOR # rest\<rparr>) = Inr (Some lg))"

definition group_nodes :: "env \<Rightarrow> bytes set" where
  "group_nodes E = (\<Union>t\<in>set (env_group E).
     case t of AppCall app args lg \<Rightarrow> if app = env_app E then set (node_args args) else {} | _ \<Rightarrow> {})"

lemma group_nodes_nth:
  "i < length (env_group E) \<Longrightarrow> env_group E ! i = AppCall (env_app E) args lg \<Longrightarrow> set (node_args args) \<subseteq> group_nodes E"
  using nth_mem [of i "env_group E"] by (auto simp: group_nodes_def intro!: bexI [of _ "AppCall (env_app E) args lg"])

lemma comp_executed_prefix:
  "comp_executed K donate E \<Longrightarrow> i \<le> env_index E \<Longrightarrow> comp_executed K donate (E\<lparr>env_index := i, env_args := args\<rparr>)"
  unfolding comp_executed_def by simp

lemma group_invariant:
  assumes ex: "comp_executed K donate E"
    and step: "\<And>E' w c. set (node_args (env_args E')) \<subseteq> group_nodes E \<Longrightarrow>
        (\<And>gi w0 c0. mpt6_state_from_prev E' gi = Inr (w0, c0) \<Longrightarrow> Q w0 c0) \<Longrightarrow> comp_call K E' w c \<Longrightarrow> Q w c"
  shows "mpt6_state_from_prev E gi = Inr (w, c) \<Longrightarrow> Q w c"
proof -
  have all: "\<exists>q. (case q of (w, c) \<Rightarrow> mpt6_log_state w c) = Inr lg \<and> (case q of (w, c) \<Rightarrow> Q w c)"
    if "i < env_index E" "i < length (env_group E)" "env_group E ! i = AppCall (env_app E) (COMP_SELECTOR # rest) lg"
    for i rest lg
    using that
  proof (induction i arbitrary: rest lg rule: less_induct)
    case (less i)
    let ?E = "E\<lparr>env_index := i, env_args := COMP_SELECTOR # rest\<rparr>"
    have "mpt6_composer_app K donate ?E = Inr (Some lg)" using ex less.prems by (simp add: comp_executed_def)
    from app_comp_call [OF this] obtain w c where call: "comp_call K ?E w c" and lg: "mpt6_log_state w c = Inr lg"
      by blast
    have rec: "Q w0 c0" if r: "mpt6_state_from_prev ?E gi = Inr (w0, c0)" for gi w0 c0
    proof -
      have "case (w0, c0) of (w, c) \<Rightarrow> Q w c"
        by (rule comp_handoff.recover_invariant [OF r]) (use less in auto)
      then show ?thesis by simp
    qed
    have "set (node_args (env_args ?E)) \<subseteq> group_nodes E" using group_nodes_nth [OF less.prems(2,3)] by simp
    from step [OF this rec call] lg show ?case by (intro exI [of _ "(w, c)"]) simp
  qed
  assume r: "mpt6_state_from_prev E gi = Inr (w, c)"
  have "case (w, c) of (w, c) \<Rightarrow> Q w c" by (rule comp_handoff.recover_invariant [OF r]) (rule all)
  then show "Q w c" by simp
qed

section \<open>Typing of the composite\<close>

text \<open>
  Which combinations of phase, verdict and fields a composite can have: undecided composites carry
  the zero value, an absent account carries the constants of a non-existent account, and only the
  verdicts of a storage walk carry a storage-walk status.
\<close>

definition comp_typed :: "composite \<Rightarrow> bool" where
  "comp_typed a \<longleftrightarrow> c_ok a \<and>
     (if cc_phase a = PHASE_A then
        cc_cstatus a = C_PENDING_ACCOUNT \<and>
        a = c_initial (cc_state_root a) (cc_address a) (cc_slot a)
      else if cc_phase a = PHASE_A_OK \<or> cc_phase a = PHASE_B then
        cc_cstatus a = C_PENDING_STORAGE \<and> cc_storage_root a \<noteq> EMPTY_TRIE_ROOT \<and>
        cc_value a = zeros32 \<and> cc_awalk a = WALK_INCLUDED \<and> cc_swalk a = 0
      else
        cc_phase a = PHASE_DONE \<and>
        (cc_cstatus a = C_ABSENT_ACCOUNT \<and> cc_awalk a \<notin> {WALK_CONTINUE, WALK_INCLUDED} \<and> cc_swalk a = 0 \<and>
           cc_storage_root a = EMPTY_TRIE_ROOT \<and> cc_code_hash a = EMPTY_CODE_HASH \<and>
           cc_nonce a = zeros32 \<and> cc_balance a = zeros32 \<and> cc_value a = zeros32 \<or>
         cc_cstatus a = C_ABSENT_SLOT_EMPTY_TRIE \<and> cc_awalk a = WALK_INCLUDED \<and> cc_swalk a = 0 \<and>
           cc_storage_root a = EMPTY_TRIE_ROOT \<and> cc_value a = zeros32 \<or>
         cc_cstatus a = C_ABSENT_SLOT \<and> cc_awalk a = WALK_INCLUDED \<and>
           cc_swalk a \<notin> {WALK_CONTINUE, WALK_INCLUDED} \<and>
           cc_storage_root a \<noteq> EMPTY_TRIE_ROOT \<and> cc_value a = zeros32 \<or>
         cc_cstatus a = C_ZERO_ENTRY \<and> cc_awalk a = WALK_INCLUDED \<and> cc_swalk a = WALK_INCLUDED \<and>
           cc_storage_root a \<noteq> EMPTY_TRIE_ROOT \<and> cc_value a = zeros32 \<or>
         cc_cstatus a = C_INCLUDED \<and> cc_awalk a = WALK_INCLUDED \<and> cc_swalk a = WALK_INCLUDED \<and>
           cc_storage_root a \<noteq> EMPTY_TRIE_ROOT))"

lemma comp_typed_ok: "comp_typed a \<Longrightarrow> c_ok a"
  by (simp add: comp_typed_def)

lemma typed_initial:
  assumes "comp_typed a" and "cc_phase a = PHASE_A"
  shows "cc_swalk a = 0" and "cc_nonce a = zeros32" and "cc_balance a = zeros32" and "cc_value a = zeros32"
proof -
  have e: "a = c_initial (cc_state_root a) (cc_address a) (cc_slot a)" using assms by (simp add: comp_typed_def)
  show "cc_swalk a = 0" "cc_nonce a = zeros32" "cc_balance a = zeros32" "cc_value a = zeros32"
    by (subst e, simp add: c_initial_def)+
qed

text \<open>The immutable inputs.\<close>

definition same_inputs :: "composite \<Rightarrow> composite \<Rightarrow> bool" where
  "same_inputs a b \<longleftrightarrow> cc_state_root a = cc_state_root b \<and> cc_address a = cc_address b \<and> cc_slot a = cc_slot b"

lemma same_inputs_refl [simp]: "same_inputs a a"
  by (simp add: same_inputs_def)

lemma same_inputs_bridge [simp]:
  "same_inputs a (account_absent s a)" "same_inputs a (account_found body a)"
  "same_inputs a (slot_absent s a)" "same_inputs a (slot_found r a)"
  by (simp_all add: same_inputs_def bridge_result_defs split: prod.splits)

lemma initial_typed:
  "length root = 32 \<Longrightarrow> length addr = 20 \<Longrightarrow> length slot = 32 \<Longrightarrow> comp_typed (c_initial root addr slot)"
  by (simp add: comp_typed_def c_initial_ok) (simp add: c_initial_def)

lemma bridge_account_typed:
  assumes "comp_typed a" and "cc_phase a = PHASE_A" and "s < 256" and "s \<noteq> WALK_CONTINUE"
    and "mpt6_bridge_account (c_encode a) s node off n = Inr c'"
  obtains a' where "c' = c_encode a'" "comp_typed a'" "same_inputs a a'" "cc_phase a' = PHASE_A_OK \<or> cc_phase a' = PHASE_DONE"
    "if s \<noteq> WALK_INCLUDED then a' = account_absent s a
     else \<exists>body. mpt6_account_body node off n = Inr body \<and> a' = account_found body a"
proof (cases "s = WALK_INCLUDED")
  case False
  have ok: "c_ok a" using assms(1) by (rule comp_typed_ok)
  have "comp_typed (account_absent s a)"
    using typed_initial [OF assms(1,2)] assms(3,4) False account_absent_ok [OF ok assms(3)]
    by (simp add: comp_typed_def account_absent_def phase_defs)
  moreover have "c' = c_encode (account_absent s a)"
    using False assms(5) by (simp add: bridge_account_encode [OF ok assms(3)])
  moreover have "cc_phase (account_absent s a) = PHASE_DONE" by (simp add: account_absent_def phase_defs)
  ultimately show ?thesis using False by (intro that [of "account_absent s a"]) simp_all
next
  case True
  have ok: "c_ok a" using assms(1) by (rule comp_typed_ok)
  obtain body where b: "mpt6_account_body node off n = Inr body" "c' = c_encode (account_found body a)"
    using assms(5) True by (auto simp: bridge_account_encode [OF ok] codes_lt res_simps)
  obtain sr ch nonce bal where body: "body = (sr, ch, nonce, bal)" by (metis prod_cases4)
  have "comp_typed (account_found body a)"
    using typed_initial [OF assms(1,2)] account_found_ok [OF ok b(1)]
    by (simp add: comp_typed_def account_found_def body phase_defs c_status_defs)
  moreover have "cc_phase (account_found body a) = PHASE_A_OK \<or> cc_phase (account_found body a) = PHASE_DONE" by (simp add: account_found_def body phase_defs)
  ultimately show ?thesis using b True by (intro that [OF b(2)]) simp_all
qed

lemma bridge_storage_typed:
  assumes "comp_typed a" and "cc_phase a = PHASE_B" and "s < 256" and "s \<noteq> WALK_CONTINUE"
    and "mpt6_bridge_storage (c_encode a) s node off n = Inr c'"
  obtains a' where "c' = c_encode a'" "comp_typed a'" "same_inputs a a'" "cc_phase a' = PHASE_DONE"
    "if s \<noteq> WALK_INCLUDED then a' = slot_absent s a
     else \<exists>r. mpt6_storage_value node off n = Inr r \<and> a' = slot_found r a"
proof -
  have ok: "c_ok a" using assms(1) by (rule comp_typed_ok)
  have t: "cc_storage_root a \<noteq> EMPTY_TRIE_ROOT" "cc_value a = zeros32" "cc_awalk a = WALK_INCLUDED"
    using assms(1,2) by (simp_all add: comp_typed_def phase_defs)
  show ?thesis
  proof (cases "s = WALK_INCLUDED")
    case False
    have "comp_typed (slot_absent s a)"
      using t assms(3,4) False slot_absent_ok [OF ok assms(3)]
      by (simp add: comp_typed_def slot_absent_def phase_defs c_status_defs)
    moreover have "c' = c_encode (slot_absent s a)"
      using False assms(5) by (simp add: bridge_storage_encode [OF ok assms(3)])
    moreover have "cc_phase (slot_absent s a) = PHASE_DONE" by (simp add: slot_absent_def)
    ultimately show ?thesis using False by (intro that [of "slot_absent s a"]) simp_all
  next
    case True
    obtain r where r: "mpt6_storage_value node off n = Inr r" "c' = c_encode (slot_found r a)"
      using assms(5) True by (auto simp: bridge_storage_encode [OF ok] codes_lt res_simps)
    obtain v z where vz: "r = (v, z)" by (cases r)
    have "z \<Longrightarrow> v = zeros32"
      using r(1) by (auto simp: vz mpt6_storage_value_def zeros32_def res_simps split: if_splits)
    then have "comp_typed (slot_found r a)"
      using t slot_found_ok [OF ok r(1)] by (simp add: comp_typed_def slot_found_def vz phase_defs c_status_defs)
    moreover have "cc_phase (slot_found r a) = PHASE_DONE" by (simp add: slot_found_def vz)
    ultimately show ?thesis using r True by (intro that [OF r(2)]) simp_all
  qed
qed

lemma walk6_terminal: "walk6 K ph c w nodes = Inr r \<Longrightarrow> w_status w \<noteq> Inr WALK_CONTINUE \<Longrightarrow> nodes = [] \<and> r = (w, c)"
  by (cases nodes) (auto simp: res_simps)

lemma status_byte: "w_status w = Inr s \<Longrightarrow> s < 256"
  unfolding w_status_def by (rule getbyte_less)

text \<open>
  The loop of a segment, one induction for every invariant of (W, C): \<open>P\<close> is kept by an open node and
  turned into \<open>Q\<close> by a terminal one.
\<close>

lemma walk6_induct:
  assumes "walk6 K ph c w nodes = Inr (w', c')" and "P w c"
    and openn: "\<And>node w w' c off n. node \<in> set nodes \<Longrightarrow> P w c \<Longrightarrow> w_status w = Inr WALK_CONTINUE \<Longrightarrow>
        mpt_walk_node K node w = Inr (w', off, n) \<Longrightarrow> w_status w' = Inr WALK_CONTINUE \<Longrightarrow> P w' c"
    and closing: "\<And>node w w' c c' s off n. node \<in> set nodes \<Longrightarrow> P w c \<Longrightarrow> w_status w = Inr WALK_CONTINUE \<Longrightarrow>
        mpt_walk_node K node w = Inr (w', off, n) \<Longrightarrow> w_status w' = Inr s \<Longrightarrow> s \<noteq> WALK_CONTINUE \<Longrightarrow>
        (if ph then mpt6_bridge_account c s node off n else mpt6_bridge_storage c s node off n) = Inr c' \<Longrightarrow> Q w' c'"
  shows "P w' c' \<or> Q w' c'"
  using assms
proof (induction nodes arbitrary: w c)
  case Nil
  then show ?case by simp
next
  case (Cons node nodes)
  from Cons.prems(1) obtain w1 off n s c1 where w: "w_status w = Inr WALK_CONTINUE"
    and nd: "mpt_walk_node K node w = Inr (w1, off, n)" and s: "w_status w1 = Inr s"
    and c1: "(if s \<noteq> WALK_CONTINUE then if ph then mpt6_bridge_account c s node off n
        else mpt6_bridge_storage c s node off n else Inr c) = Inr c1"
    and rest: "walk6 K ph c1 w1 nodes = Inr (w', c')"
    by (auto simp: res_simps)
  show ?case
  proof (cases "s = WALK_CONTINUE")
    case True
    have "P w1 c" by (rule Cons.prems(3) [OF _ Cons.prems(2) w nd]) (use s True in simp_all)
    then have "P w1 c1" using c1 True by simp
    then show ?thesis
  
    proof (rule Cons.IH [OF rest])
      show "P w' c" if "node \<in> set nodes" "P w c" "w_status w = Inr WALK_CONTINUE"
          "mpt_walk_node K node w = Inr (w', off, n)" "w_status w' = Inr WALK_CONTINUE" for node w w' c off n
        by (rule Cons.prems(3) [OF _ that(2-5)]) (simp add: that(1))
      show "Q w' c'" if "node \<in> set nodes" "P w c" "w_status w = Inr WALK_CONTINUE"
          "mpt_walk_node K node w = Inr (w', off, n)" "w_status w' = Inr s" "s \<noteq> WALK_CONTINUE"
          "(if ph then mpt6_bridge_account c s node off n else mpt6_bridge_storage c s node off n) = Inr c'"
        for node w w' c c' s off n
        by (rule Cons.prems(4) [OF _ that(2-7)]) (simp add: that(1))
    qed
  next
    case False
    have "Q w1 c1" using c1 False by (intro Cons.prems(4) [OF _ Cons.prems(2) w nd s]) simp_all
    moreover have "w' = w1 \<and> c' = c1" using walk6_terminal [OF rest] s False by auto
    ultimately show ?thesis by simp
  qed
qed

end
