(* ===== verification/Comp_Sound.thy ===== *)
theory Comp_Sound
  imports Comp_Inv MPT_Sound
begin

text \<open>
  Soundness of the composer. The abstract world is a state trie, the storage trie of the account in
  question and the injectivity of Keccak on the byte strings that occur; the specification is the
  two-stage lookup. Every composite an earlier call of the group logged for the wanted inputs is at a
  stage of that lookup, and a terminal one carries its result.
\<close>

section \<open>Specification\<close>

text \<open>The string under a one-byte or short RLP string header.\<close>

definition short_content :: "bytes \<Rightarrow> bytes" where
  "short_content v = (if length v = 1 \<and> unat (hd v) < 0x80 then v else drop 1 v)"

definition composite_spec :: "(bytes \<Rightarrow> bytes) \<Rightarrow> trie \<Rightarrow> trie \<Rightarrow> bytes \<Rightarrow> bytes \<Rightarrow> nat \<times> bytes" where
  "composite_spec K T S addr slot =
     (if fst (trie_lookup T (nibs (K addr))) \<noteq> WALK_INCLUDED then (C_ABSENT_ACCOUNT, zeros32)
      else if S = TNull then (C_ABSENT_SLOT_EMPTY_TRIE, zeros32)
      else case trie_lookup S (nibs (K slot)) of (s, v) \<Rightarrow>
        if s \<noteq> WALK_INCLUDED then (C_ABSENT_SLOT, zeros32)
        else if short_content v = [] then (C_ZERO_ENTRY, zeros32)
        else (C_INCLUDED, pad32 (short_content v)))"

text \<open>
  The values the tries hold under the two keys are what Ethereum puts there: an account body whose
  storage root is that of \<open>S\<close>, and a word of at most 32 bytes.
\<close>

definition state_conform :: "(bytes \<Rightarrow> bytes) \<Rightarrow> trie \<Rightarrow> trie \<Rightarrow> bytes \<Rightarrow> bytes \<Rightarrow> bool" where
  "state_conform K T S addr slot \<longleftrightarrow>
     (\<forall>v. trie_lookup T (nibs (K addr)) = (WALK_INCLUDED, v) \<longrightarrow>
        (\<exists>n b ch. v = account_enc n b (K (node_enc K S)) ch \<and> length n \<le> 32 \<and> length b \<le> 32 \<and> length ch = 32)) \<and>
     (\<forall>v. trie_lookup S (nibs (K slot)) = (WALK_INCLUDED, v) \<longrightarrow> (\<exists>x. v = slot_enc x \<and> length x \<le> 32))"

definition comp_world :: "(bytes \<Rightarrow> bytes) \<Rightarrow> trie \<Rightarrow> trie \<Rightarrow> bytes \<Rightarrow> bytes \<Rightarrow> bytes set \<Rightarrow> bool" where
  "comp_world K T S addr slot N \<longleftrightarrow>
     (\<forall>x. length (K x) = 32) \<and> K [0x80] = EMPTY_TRIE_ROOT \<and>
     wf_trie T \<and> T \<noteq> TNull \<and> wf_trie S \<and>
     (\<forall>e\<in>trie_nodes K T \<union> trie_nodes K S. length e \<le> max_bytes) \<and>
     inj_on K (N \<union> trie_nodes K T \<union> trie_nodes K S \<union> {[0x80]}) \<and>
     state_conform K T S addr slot"

lemma short_content_slot: "length x \<le> 32 \<Longrightarrow> short_content (slot_enc x) = x"
  by (auto simp: short_content_def slot_enc_def enc_prefix_def unat_of_nat_byte)

lemma node_enc_not_empty: "t \<noteq> TNull \<Longrightarrow> wf_trie t \<Longrightarrow> node_enc K t \<noteq> [0x80]"
proof -
  assume t: "t \<noteq> TNull" "wf_trie t"
  then obtain xs where xs: "node_rlp K t = RList xs" "xs \<noteq> []" by (cases t) auto
  have "length xs < length (node_enc K t)"
    unfolding node_enc_def xs(1) by (rule le_less_trans [OF sum_enc_ge length_rlp_list])
  moreover have "1 \<le> length xs" using xs(2) by (cases xs) auto
  ultimately have "length (node_enc K t) \<noteq> 1" by linarith
  then show "node_enc K t \<noteq> [0x80]" by auto
qed

lemma node_enc_TNull [simp]: "node_enc K TNull = [0x80]"
  by (simp add: node_enc_def enc_prefix_def)

lemma node_enc_mem: "t \<noteq> TNull \<Longrightarrow> node_enc K t \<in> trie_nodes K t"
  by (cases t) auto

lemma storage_root_empty:
  assumes w: "comp_world K T S addr slot N"
  shows "K (node_enc K S) = EMPTY_TRIE_ROOT \<longleftrightarrow> S = TNull"
proof
  assume e: "K (node_enc K S) = EMPTY_TRIE_ROOT"
  show "S = TNull"
  proof (rule ccontr)
    assume S: "S \<noteq> TNull"
    have "K (node_enc K S) = K [0x80]" using e w by (simp add: comp_world_def)
    then have "node_enc K S = [0x80]" using w node_enc_mem [OF S, of K] unfolding comp_world_def by (blast dest: inj_onD)
    then show False using node_enc_not_empty [OF S, of K] w by (simp add: comp_world_def)
  qed
qed (use w in \<open>simp add: comp_world_def\<close>)

section \<open>The stages\<close>

definition matches :: "bytes \<Rightarrow> bytes \<Rightarrow> bytes \<Rightarrow> composite \<Rightarrow> bool" where
  "matches root addr slot a \<longleftrightarrow> cc_state_root a = root \<and> cc_address a = addr \<and> cc_slot a = slot"

lemma matches_same: "same_inputs a b \<Longrightarrow> matches root addr slot a \<longleftrightarrow> matches root addr slot b"
  by (auto simp: matches_def same_inputs_def)

definition account_proven :: "(bytes \<Rightarrow> bytes) \<Rightarrow> trie \<Rightarrow> trie \<Rightarrow> bytes \<Rightarrow> composite \<Rightarrow> bool" where
  "account_proven K T S addr a \<longleftrightarrow> fst (trie_lookup T (nibs (K addr))) = WALK_INCLUDED \<and> S \<noteq> TNull \<and>
     cc_storage_root a = K (node_enc K S)"

definition stage :: "(bytes \<Rightarrow> bytes) \<Rightarrow> trie \<Rightarrow> trie \<Rightarrow> bytes \<Rightarrow> bytes \<Rightarrow> bytes \<Rightarrow> composite \<Rightarrow> bool" where
  "stage K T S addr slot w a \<longleftrightarrow>
     (cc_phase a = PHASE_A \<longrightarrow> on_path K T (nibs (K addr)) w) \<and>
     (cc_phase a = PHASE_A_OK \<longrightarrow> account_proven K T S addr a) \<and>
     (cc_phase a = PHASE_B \<longrightarrow> account_proven K T S addr a \<and> on_path K S (nibs (K slot)) w) \<and>
     (cc_phase a = PHASE_DONE \<longrightarrow> (cc_cstatus a, cc_value a) = composite_spec K T S addr slot)"

definition staged ::
  "(bytes \<Rightarrow> bytes) \<Rightarrow> trie \<Rightarrow> trie \<Rightarrow> bytes \<Rightarrow> bytes \<Rightarrow> bytes set \<Rightarrow> bytes \<Rightarrow> composite \<Rightarrow> bool" where
  "staged K T S addr slot N w a \<longleftrightarrow> comp_typed a \<and>
     (comp_world K T S addr slot N \<and> matches (K (node_enc K T)) addr slot a \<longrightarrow> stage K T S addr slot w a)"

definition comp_inv ::
  "(bytes \<Rightarrow> bytes) \<Rightarrow> trie \<Rightarrow> trie \<Rightarrow> bytes \<Rightarrow> bytes \<Rightarrow> bytes set \<Rightarrow> bytes \<Rightarrow> bytes \<Rightarrow> bool" where
  "comp_inv K T S addr slot N w c \<longleftrightarrow> (\<exists>a. c = c_encode a \<and> staged K T S addr slot N w a)"

lemma world_inj:
  assumes "comp_world K T S addr slot N" and "node \<in> N"
  shows "inj_on K (insert node (trie_nodes K T))" and "inj_on K (insert node (trie_nodes K S))"
proof -
  have i: "inj_on K (N \<union> trie_nodes K T \<union> trie_nodes K S \<union> {[0x80]})" using assms(1) by (simp only: comp_world_def)
  show "inj_on K (insert node (trie_nodes K T))" by (rule inj_on_subset [OF i]) (use assms(2) in blast)
  show "inj_on K (insert node (trie_nodes K S))" by (rule inj_on_subset [OF i]) (use assms(2) in blast)
qed

lemma split_span: "off + n \<le> length node \<Longrightarrow> node = take off node @ seg off n node @ drop (off + n) node"
  by (simp add: seg_def add.commute flip: drop_drop)

lemma still_on_path:
  assumes w: "comp_world K T S addr slot N" and node: "node \<in> N"
    and st: "mpt_walk_node K node w0 = Inr (w1, off, n)" and o: "w_status w1 = Inr WALK_CONTINUE"
  shows "on_path K T k w0 \<Longrightarrow> on_path K T k w1" and "on_path K S k w0 \<Longrightarrow> on_path K S k w1"
proof -
  have K: "\<And>x. length (K x) = 32" and sz: "\<forall>e\<in>trie_nodes K T. length e \<le> max_bytes"
    "\<forall>e\<in>trie_nodes K S. length e \<le> max_bytes" using w by (auto simp: comp_world_def)
  note inj = world_inj [OF w node]
  show "on_path K T k w1" if "on_path K T k w0"
    using on_path_step [where K = K, OF K bspec [OF sz(1)] that inj(1) st] o decided_status by blast
  show "on_path K S k w1" if "on_path K S k w0"
    using on_path_step [where K = K, OF K bspec [OF sz(2)] that inj(2) st] o decided_status by blast
qed

lemma account_decided:
  assumes w: "comp_world K T S addr slot N" and p: "on_path K T (nibs (K addr)) w0" and node: "node \<in> N"
    and st: "mpt_walk_node K node w0 = Inr (w1, off, n)" and s: "w_status w1 = Inr s" "s \<noteq> WALK_CONTINUE"
  shows "fst (trie_lookup T (nibs (K addr))) = s"
    and "s = WALK_INCLUDED \<Longrightarrow> mpt6_account_body node off n = Inr body \<Longrightarrow> fst body = K (node_enc K S)"
    and "s = WALK_INCLUDED \<Longrightarrow> \<exists>body. mpt6_account_body node off n = Inr body"
proof -
  have K: "\<And>x. length (K x) = 32" and sz: "\<forall>e\<in>trie_nodes K T. length e \<le> max_bytes"
    using w by (auto simp: comp_world_def)
  note inj = world_inj(1) [OF w node]
  have d: "decided T (nibs (K addr)) w1 node off n"
    using on_path_step [where K = K, OF K bspec [OF sz] p inj st] s on_path_status by fastforce
  note look = decided_status [OF d s(1)]
  show "fst (trie_lookup T (nibs (K addr))) = s" using look by simp
  assume inc: "s = WALK_INCLUDED"
  have fit: "off + n \<le> length node" using decided_span [OF d] s(1) inc by simp
  have lim: "length node \<le> max_bytes" using on_path_node [OF p st inj] sz by blast
  obtain nn b ch where v: "seg off n node = account_enc nn b (K (node_enc K S)) ch"
    "length nn \<le> 32" "length b \<le> 32" "length ch = 32"
    using w look inc by (auto simp: comp_world_def state_conform_def)
  have d: "node = take off node @ account_enc nn b (K (node_enc K S)) ch @ drop (off + n) node"
    using split_span [OF fit] v(1) by simp
  have len: "length (account_enc nn b (K (node_enc K S)) ch) = n" using fit v(1) length_seg [OF fit] by simp
  have "length node + n < uint64_limit" using lim fit by (simp add: max_bytes_def uint64_limit_def)
  then have "mpt6_account_body node (length (take off node)) n = Inr (K (node_enc K S), ch, pad32 nn, pad32 b)"
    by (intro account_body_enc [OF d _ v(2,3) K v(4)]) (simp_all add: len)
  then have e: "mpt6_account_body node off n = Inr (K (node_enc K S), ch, pad32 nn, pad32 b)" using fit by simp
  show "\<exists>body. mpt6_account_body node off n = Inr body" using e by blast
  show "mpt6_account_body node off n = Inr body \<Longrightarrow> fst body = K (node_enc K S)" using e by auto
qed

lemma slot_decided:
  assumes w: "comp_world K T S addr slot N" and p: "on_path K S (nibs (K slot)) w0" and node: "node \<in> N"
    and st: "mpt_walk_node K node w0 = Inr (w1, off, n)" and s: "w_status w1 = Inr s" "s \<noteq> WALK_CONTINUE"
  shows "fst (trie_lookup S (nibs (K slot))) = s"
    and "s = WALK_INCLUDED \<Longrightarrow> mpt6_storage_value node off n =
      Inr (pad32 (short_content (snd (trie_lookup S (nibs (K slot))))),
           short_content (snd (trie_lookup S (nibs (K slot)))) = [])"
proof -
  have K: "\<And>x. length (K x) = 32" and sz: "\<forall>e\<in>trie_nodes K S. length e \<le> max_bytes"
    using w by (auto simp: comp_world_def)
  note inj = world_inj(2) [OF w node]
  have d: "decided S (nibs (K slot)) w1 node off n"
    using on_path_step [where K = K, OF K bspec [OF sz] p inj st] s on_path_status by fastforce
  note look = decided_status [OF d s(1)]
  show "fst (trie_lookup S (nibs (K slot))) = s" using look by simp
  assume inc: "s = WALK_INCLUDED"
  have fit: "off + n \<le> length node" using decided_span [OF d] s(1) inc by simp
  have lim: "length node < uint64_limit"
    using on_path_node [OF p st inj] sz by (force simp: max_bytes_def uint64_limit_def)
  obtain x where v: "seg off n node = slot_enc x" "length x \<le> 32"
    using w look inc by (auto simp: comp_world_def state_conform_def)
  have d: "node = take off node @ slot_enc x @ drop (off + n) node" using split_span [OF fit] v(1) by simp
  have len: "length (slot_enc x) = n" using length_seg [OF fit] v(1) by simp
  have "mpt6_storage_value node (length (take off node)) (length (slot_enc x)) = Inr (pad32 x, x = [])"
    by (rule storage_value_enc [OF d lim v(2)])
  then have "mpt6_storage_value node off n = Inr (pad32 x, x = [])" using fit by (simp add: len)
  moreover have "short_content (snd (trie_lookup S (nibs (K slot)))) = x"
    using look inc v by (simp add: short_content_slot)
  ultimately show "mpt6_storage_value node off n =
      Inr (pad32 (short_content (snd (trie_lookup S (nibs (K slot))))),
           short_content (snd (trie_lookup S (nibs (K slot)))) = [])" by simp
qed

section \<open>Every call keeps the invariant\<close>

lemma walk6_A_inv:
  assumes "walk6 K True c w nodes = Inr (w', c')" and N: "set nodes \<subseteq> N"
    and a: "c = c_encode a" "staged K T S addr slot N w a" "cc_phase a = PHASE_A"
  shows "comp_inv K T S addr slot N w' c'"
proof -
  let ?P = "\<lambda>w c. \<exists>a. c = c_encode a \<and> staged K T S addr slot N w a \<and> cc_phase a = PHASE_A"
  have "?P w' c' \<or> comp_inv K T S addr slot N w' c'"
  proof (rule walk6_induct [OF assms(1)])
    show "?P w c" using a by blast
  next
    fix node w w' c off n
    assume nd: "node \<in> set nodes" and P: "?P w c" and st: "mpt_walk_node K node w = Inr (w', off, n)"
      and o: "w_status w' = Inr WALK_CONTINUE"
    from P obtain a where a: "c = c_encode a" "staged K T S addr slot N w a" "cc_phase a = PHASE_A" by blast
    have "stage K T S addr slot w' a"
      if W: "comp_world K T S addr slot N" "matches (K (node_enc K T)) addr slot a"
    proof -
      have p: "on_path K T (nibs (K addr)) w" using a(2,3) W by (simp add: staged_def stage_def)
      from still_on_path [OF W(1) _ st o] p nd N have "on_path K T (nibs (K addr)) w'" by blast
      then show ?thesis using a(3) by (simp add: stage_def phase_defs)
    qed
    then show "?P w' c" using a by (auto simp: staged_def)
  next
    fix node w w' c c' s off n
    assume nd: "node \<in> set nodes" and P: "?P w c" and st: "mpt_walk_node K node w = Inr (w', off, n)"
      and s: "w_status w' = Inr s" "s \<noteq> WALK_CONTINUE"
      and "(if True then mpt6_bridge_account c s node off n else mpt6_bridge_storage c s node off n) = Inr c'"
    then have br: "mpt6_bridge_account c s node off n = Inr c'" by simp
    from P obtain a where a: "c = c_encode a" "staged K T S addr slot N w a" "cc_phase a = PHASE_A" by blast
    have t: "comp_typed a" using a(2) by (simp add: staged_def)
    from bridge_account_typed [OF t a(3) status_byte [OF s(1)] s(2) br [unfolded a(1)]] obtain a' where
      a': "c' = c_encode a'" "comp_typed a'" "same_inputs a a'"
      and res: "if s \<noteq> WALK_INCLUDED then a' = account_absent s a
         else \<exists>body. mpt6_account_body node off n = Inr body \<and> a' = account_found body a" by blast
    have "stage K T S addr slot w' a'"
      if W: "comp_world K T S addr slot N" "matches (K (node_enc K T)) addr slot a"
    proof -
      have p: "on_path K T (nibs (K addr)) w" using a(2,3) W by (simp add: staged_def stage_def)
      have "node \<in> N" using nd N by blast
      note d = account_decided [OF W(1) p this st s]
      note v = typed_initial(4) [OF t a(3)]
      show ?thesis
      proof (cases "s = WALK_INCLUDED")
        case False
        then have "a' = account_absent s a" using res by simp
        then show ?thesis using d(1) False v
          by (simp add: stage_def account_absent_def phase_defs composite_spec_def)
      next
        case True
        with res obtain body where b: "mpt6_account_body node off n = Inr body" "a' = account_found body a" by auto
        obtain sr ch nonce bal where body: "body = (sr, ch, nonce, bal)" by (metis prod_cases4)
        have sr: "sr = K (node_enc K S)" using d(2) [OF True b(1)] by (simp add: body)
        note e = storage_root_empty [OF W(1)]
        show ?thesis
        proof (cases "S = TNull")
          case True
          then have "sr = EMPTY_TRIE_ROOT" using e sr by simp
          then show ?thesis using d(1) \<open>s = WALK_INCLUDED\<close> v True
            by (simp add: b(2) body stage_def account_found_def phase_defs composite_spec_def)
        next
          case False
          then have "sr \<noteq> EMPTY_TRIE_ROOT" using e sr by simp
          then show ?thesis using d(1) \<open>s = WALK_INCLUDED\<close> False sr
            by (simp add: b(2) body stage_def account_found_def account_proven_def phase_defs)
        qed
      qed
    qed
    then show "comp_inv K T S addr slot N w' c'"
      using a' matches_same [OF a'(3)] by (auto simp: comp_inv_def staged_def)
  qed
  then show ?thesis by (auto simp: comp_inv_def)
qed

lemma walk6_B_inv:
  assumes "walk6 K False c w nodes = Inr (w', c')" and N: "set nodes \<subseteq> N"
    and a: "c = c_encode a" "staged K T S addr slot N w a" "cc_phase a = PHASE_B"
  shows "comp_inv K T S addr slot N w' c'"
proof -
  let ?P = "\<lambda>w c. \<exists>a. c = c_encode a \<and> staged K T S addr slot N w a \<and> cc_phase a = PHASE_B"
  have "?P w' c' \<or> comp_inv K T S addr slot N w' c'"
  proof (rule walk6_induct [OF assms(1)])
    show "?P w c" using a by blast
  next
    fix node w w' c off n
    assume nd: "node \<in> set nodes" and P: "?P w c" and st: "mpt_walk_node K node w = Inr (w', off, n)"
      and o: "w_status w' = Inr WALK_CONTINUE"
    from P obtain a where a: "c = c_encode a" "staged K T S addr slot N w a" "cc_phase a = PHASE_B" by blast
    have "stage K T S addr slot w' a"
      if W: "comp_world K T S addr slot N" "matches (K (node_enc K T)) addr slot a"
    proof -
      have p: "account_proven K T S addr a" "on_path K S (nibs (K slot)) w"
        using a(2,3) W by (simp_all add: staged_def stage_def)
      from still_on_path [OF W(1) _ st o] p(2) nd N have "on_path K S (nibs (K slot)) w'" by blast
      then show ?thesis using a(3) p(1) by (simp add: stage_def phase_defs)
    qed
    then show "?P w' c" using a by (auto simp: staged_def)
  next
    fix node w w' c c' s off n
    assume nd: "node \<in> set nodes" and P: "?P w c" and st: "mpt_walk_node K node w = Inr (w', off, n)"
      and s: "w_status w' = Inr s" "s \<noteq> WALK_CONTINUE"
      and "(if False then mpt6_bridge_account c s node off n else mpt6_bridge_storage c s node off n) = Inr c'"
    then have br: "mpt6_bridge_storage c s node off n = Inr c'" by simp
    from P obtain a where a: "c = c_encode a" "staged K T S addr slot N w a" "cc_phase a = PHASE_B" by blast
    have t: "comp_typed a" using a(2) by (simp add: staged_def)
    from bridge_storage_typed [OF t a(3) status_byte [OF s(1)] s(2) br [unfolded a(1)]] obtain a' where
      a': "c' = c_encode a'" "comp_typed a'" "same_inputs a a'"
      and res: "if s \<noteq> WALK_INCLUDED then a' = slot_absent s a
         else \<exists>r. mpt6_storage_value node off n = Inr r \<and> a' = slot_found r a" by blast
    have "stage K T S addr slot w' a'"
      if W: "comp_world K T S addr slot N" "matches (K (node_enc K T)) addr slot a"
    proof -
      have p: "account_proven K T S addr a" "on_path K S (nibs (K slot)) w"
        using a(2,3) W by (simp_all add: staged_def stage_def)
      have "node \<in> N" using nd N by blast
      note d = slot_decided [OF W(1) p(2) this st s]
      have v: "cc_value a = zeros32" using t a(3) by (simp add: comp_typed_def phase_defs)
      obtain s' x where look: "trie_lookup S (nibs (K slot)) = (s', x)" by (cases "trie_lookup S (nibs (K slot))")
      show ?thesis
      proof (cases "s = WALK_INCLUDED")
        case False
        then have "a' = slot_absent s a" using res by simp
        then show ?thesis using d(1) False v p(1) look
          by (simp add: stage_def slot_absent_def phase_defs composite_spec_def account_proven_def)
      next
        case True
        with res d(2) [OF True] obtain r where r: "a' = slot_found r a"
          "r = (pad32 (short_content x), short_content x = [])" by (auto simp: look)
        show ?thesis using d(1) True p(1) look
          by (simp add: r stage_def slot_found_def account_proven_def phase_defs composite_spec_def)
      qed
    qed
    then show "comp_inv K T S addr slot N w' c'"
      using a' matches_same [OF a'(3)] by (auto simp: comp_inv_def staged_def)
  qed
  then show ?thesis by (auto simp: comp_inv_def)
qed

lemma init_path:
  assumes w: "comp_world K T S addr slot N"
  shows "mpt_init_state (K (node_enc K T)) (K addr) 64 = Inr w0 \<Longrightarrow> on_path K T (nibs (K addr)) w0"
    and "mpt_init_state (K (node_enc K S)) (K slot) 64 = Inr w1 \<Longrightarrow> S \<noteq> TNull \<Longrightarrow> on_path K S (nibs (K slot)) w1"
proof -
  have K: "\<And>x. length (K x) = 32" and wf: "wf_trie T" "T \<noteq> TNull" "wf_trie S"
    using w by (auto simp: comp_world_def)
  have k: "length (K x) \<le> 32" "64 \<le> 2 * length (K x)" "take 64 (nibs (K x)) = nibs (K x)" for x
    by (simp_all add: K)
  show "on_path K T (nibs (K addr)) w0" if "mpt_init_state (K (node_enc K T)) (K addr) 64 = Inr w0"
    using init_on_path [where K = K, OF K wf(1,2) k(1,2) that] by (simp only: k(3))
  show "on_path K S (nibs (K slot)) w1" if "mpt_init_state (K (node_enc K S)) (K slot) 64 = Inr w1" "S \<noteq> TNull"
    using init_on_path [where K = K, OF K wf(3) that(2) k(1,2) that(1)] by (simp only: k(3))
qed

lemma staged_get: "staged K T S addr slot N w a \<Longrightarrow> c_phase (c_encode a) = Inr p \<Longrightarrow> cc_phase a = p"
  by (simp add: staged_def c_encode_get comp_typed_ok)

lemma comp_call_inv:
  assumes "comp_call K E w c" and N: "set (node_args (env_args E)) \<subseteq> N"
    and prev: "\<And>gi w0 c0. mpt6_state_from_prev E gi = Inr (w0, c0) \<Longrightarrow> comp_inv K T S addr slot N w0 c0"
  shows "comp_inv K T S addr slot N w c"
  using assms(1)
proof cases
  case (a_init root ad sl w0 nodes)
  have "stage K T S addr slot w0 (c_initial root ad sl)"
    if W: "comp_world K T S addr slot N" "matches (K (node_enc K T)) addr slot (c_initial root ad sl)"
    using init_path(1) [OF W(1)] a_init(4) W(2) by (simp add: stage_def matches_def c_initial_def phase_defs)
  then have "staged K T S addr slot N w0 (c_initial root ad sl)"
    using initial_typed [OF a_init(1-3)] by (simp add: staged_def)
  then show ?thesis using a_init N by (intro walk6_A_inv [OF a_init(5) _ refl]) (auto simp: c_initial_def)
next
  case (a_next gi w0 c0 nodes)
  from prev [OF a_next(1)] obtain a where a: "c0 = c_encode a" "staged K T S addr slot N w0 a"
    by (auto simp: comp_inv_def)
  show ?thesis
    by (rule walk6_A_inv [OF a_next(3) _ a]) (use a_next(2,4) a N staged_get in auto)
next
  case (b_next gi w0 c0 nodes)
  from prev [OF b_next(1)] obtain a where a: "c0 = c_encode a" "staged K T S addr slot N w0 a"
    by (auto simp: comp_inv_def)
  show ?thesis
    by (rule walk6_B_inv [OF b_next(3) _ a]) (use b_next(2,4) a N staged_get in auto)
next
  case (b_init gi w_a c0 sroot sl w0 c2 nodes)
  from prev [OF b_init(1)] obtain a where a: "c0 = c_encode a" "staged K T S addr slot N w_a a"
    by (auto simp: comp_inv_def)
  have ph: "cc_phase a = PHASE_A_OK" using b_init(2) a staged_get by blast
  have t: "comp_typed a" using a(2) by (simp add: staged_def)
  note ok = comp_typed_ok [OF t]
  have get: "cc_storage_root a = sroot" "cc_slot a = sl" using b_init(3,5) a(1) by (simp_all add: c_encode_get [OF ok])
  let ?b = "a\<lparr>cc_phase := PHASE_B\<rparr>"
  have c2: "c2 = c_encode ?b" using b_init(7) a(1) by (simp add: c_with_phase_def c_put [OF ok] del: One_nat_def)
  have "comp_typed ?b" using t ph c_ok_update(2) [OF ok codes_lt(9)] by (simp add: comp_typed_def phase_defs)
  moreover have "stage K T S addr slot w0 ?b"
    if W: "comp_world K T S addr slot N" "matches (K (node_enc K T)) addr slot ?b"
  proof -
    have m: "matches (K (node_enc K T)) addr slot a" using W(2) by (simp add: matches_def)
    have p: "account_proven K T S addr a" using a(2) W(1) m ph by (simp add: staged_def stage_def)
    then have "on_path K S (nibs (K slot)) w0"
      using init_path(2) [OF W(1)] b_init(6) get m by (simp add: account_proven_def matches_def)
    with p show ?thesis by (simp add: stage_def phase_defs account_proven_def)
  qed
  ultimately have "staged K T S addr slot N w0 ?b" by (simp add: staged_def)
  then show ?thesis using b_init(9) N by (intro walk6_B_inv [OF b_init(8) _ c2]) auto
qed

lemma recovered_inv:
  assumes "comp_executed K donate E" and "mpt6_state_from_prev E gi = Inr (w, c)"
  shows "comp_inv K T S addr slot (group_nodes E) w c"
proof (rule group_invariant [where Q = "comp_inv K T S addr slot (group_nodes E)", OF assms(1) _ assms(2)])
  fix E' w c
  assume "set (node_args (env_args E')) \<subseteq> group_nodes E"
    and "\<And>gi w0 c0. mpt6_state_from_prev E' gi = Inr (w0, c0) \<Longrightarrow> comp_inv K T S addr slot (group_nodes E) w0 c0"
    and "comp_call K E' w c"
  then show "comp_inv K T S addr slot (group_nodes E) w c" by (rule comp_call_inv [of K E', rotated])
qed

lemma result_sound:
  assumes W: "comp_world K T S addr slot (group_nodes E)" and ex: "comp_executed K donate E"
    and r: "mpt6_result_from_group E gi (K (node_enc K T)) addr slot = Inr (st, v)"
  shows "(st, v) = composite_spec K T S addr slot"
proof -
  from r obtain w c where c: "mpt6_state_from_prev E gi = Inr (w, c)" "c_phase c = Inr PHASE_DONE"
    "c_state_root c = Inr (K (node_enc K T))" "c_address c = Inr addr" "c_slot c = Inr slot"
    "c_cstatus c = Inr st" "c_value c = Inr v" by (auto simp: mpt6_result_from_group_def res_simps)
  from recovered_inv [OF ex c(1), of T S addr slot] obtain a where
    a: "c = c_encode a" "staged K T S addr slot (group_nodes E) w a" by (auto simp: comp_inv_def)
  have ok: "c_ok a" using a(2) by (simp add: staged_def comp_typed_ok)
  note get = c_encode_get [OF ok]
  have "matches (K (node_enc K T)) addr slot a" using c(3-5) by (simp add: a(1) get matches_def)
  then have "stage K T S addr slot w a" using a(2) W by (simp add: staged_def)
  then show ?thesis using c(2,6,7) by (simp add: a(1) get stage_def)
qed

end
