(* ===== verification/Comp_Live.thy ===== *)
theory Comp_Live
  imports Comp_Sound MPT_Sound
begin

text \<open>
  Completeness of the composer: for every account and slot there is a group of at most two calls,
  whose proof nodes are the tries' own, that the application executes and whose result is the
  two-stage lookup.
\<close>

section \<open>Honest segments\<close>

lemma walk6_open:
  "walk_nodes K w nodes = Inr w' \<Longrightarrow> w_status w' = Inr WALK_CONTINUE \<Longrightarrow>
   walk6 K ph c w (nodes @ rest) = walk6 K ph c w' rest"
proof (induction nodes arbitrary: w)
  case (Cons node nodes)
  then obtain w1 off n where st: "w_status w = Inr WALK_CONTINUE" "mpt_walk_node K node w = Inr (w1, off, n)"
    and r: "walk_nodes K w1 nodes = Inr w'" by (auto simp: res_simps)
  have "w_status w1 = Inr WALK_CONTINUE" by (rule walk_nodes_open [OF r Cons.prems(2)])
  then show ?case using st Cons.IH [OF r Cons.prems(2)] by simp
qed simp

lemma walk6_close:
  assumes "walk_nodes K w nodes = Inr w1" and "mpt_walk_node K node w1 = Inr (w2, off, n)"
    and "w_status w2 = Inr s" and "s \<noteq> WALK_CONTINUE"
    and "(if ph then mpt6_bridge_account c s node off n else mpt6_bridge_storage c s node off n) = Inr c'"
  shows "walk6 K ph c w (nodes @ [node]) = Inr (w2, c')"
proof -
  have o: "w_status w1 = Inr WALK_CONTINUE" using assms(2) by (auto simp: mpt_walk_node_def res_simps)
  show ?thesis using assms(2-5) o by (subst walk6_open [OF assms(1) o]) simp
qed

section \<open>An honest group\<close>

definition call_head :: "nat \<Rightarrow> bytes list" where
  "call_head mode = [COMP_SELECTOR, low_byte mode, itob 0, itob 0]"

definition args_a :: "bytes \<Rightarrow> bytes \<Rightarrow> bytes \<Rightarrow> bytes list \<Rightarrow> bytes list" where
  "args_a root addr slot nodes = call_head MODE_A_INIT @ [root, addr, slot] @ nodes"

definition args_b :: "bytes list \<Rightarrow> bytes list" where
  "args_b nodes = call_head MODE_B_INIT @ [itob 0] @ nodes"

lemma app_a:
  assumes l: "length root = 32" "length addr = 20" "length slot = 32" and d: "\<And>i. donate 0 i = Inr ()"
    and init: "mpt_init_state root (K addr) 64 = Inr w0"
    and walk: "walk6 K True (c_encode (c_initial root addr slot)) w0 nodes = Inr (w, c)"
  shows "mpt6_composer_app K donate (env_at app G i (args_a root addr slot nodes)) =
    rbind (mpt6_log_state w c) (\<lambda>lg. Inr (Some lg))"
  using assms
  by (simp add: mpt6_composer_app_def env_at_def args_a_def call_head_def app_arg_def mode_defs mode_a_init_def
      mpt_key_from_address_def init_composite_Inr [THEN iffD2] walk6_args_def)

lemma app_b:
  assumes prev: "mpt6_state_from_prev (env_at app G i (args_b nodes)) 0 = Inr (w_a, c_encode a)"
    and t: "comp_typed a" "cc_phase a = PHASE_A_OK" and wa: "w_status w_a = Inr WALK_INCLUDED" "w_root w_a = Inr (cc_state_root a)"
    and d: "\<And>i. donate 0 i = Inr ()" and init: "mpt_init_state (cc_storage_root a) (K (cc_slot a)) 64 = Inr w0"
    and walk: "walk6 K False (c_encode (a\<lparr>cc_phase := PHASE_B\<rparr>)) w0 nodes = Inr (w, c)"
  shows "mpt6_composer_app K donate (env_at app G i (args_b nodes)) = rbind (mpt6_log_state w c) (\<lambda>lg. Inr (Some lg))"
proof -
  note ok = comp_typed_ok [OF t(1)]
  have s: "cc_storage_root a \<noteq> EMPTY_TRIE_ROOT" "length (cc_slot a) = 32"
    using t ok by (simp_all add: comp_typed_def c_ok_alt phase_defs)
  have "mode_b_init K (Inr ()) (env_at app G i (args_b nodes)) = mpt6_log_state w c"
    using prev wa t(2) s init walk
    by (simp add: mode_b_init_def env_at_def args_b_def call_head_def app_arg_def c_encode_get [OF ok]
        mpt_key_from_slot_def c_with_phase_def c_put [OF ok] walk6_args_def del: One_nat_def)
  then show ?thesis using d
    by (simp add: mpt6_composer_app_def env_at_def args_b_def call_head_def app_arg_def mode_defs)
qed

lemma log_ok: "length w = W_LEN \<Longrightarrow> c_ok a \<Longrightarrow> \<exists>lg. mpt6_log_state w (c_encode a) = Inr lg"
  by (simp add: mpt6_log_state_def length_c_encode Let_def)

lemma world_nodes:
  assumes "comp_world K T S addr slot {}" and "N \<subseteq> trie_nodes K T \<union> trie_nodes K S"
  shows "comp_world K T S addr slot N"
proof -
  have "N \<union> trie_nodes K T \<union> trie_nodes K S \<union> {[0x80]} = {} \<union> trie_nodes K T \<union> trie_nodes K S \<union> {[0x80]}"
    using assms(2) by blast
  then have "inj_on K (N \<union> trie_nodes K T \<union> trie_nodes K S \<union> {[0x80]})"
    using assms(1) by (simp only: comp_world_def)
  then show ?thesis using assms(1) unfolding comp_world_def by blast
qed

text \<open>The account segment.\<close>

lemma honest_a:
  assumes W: "comp_world K T S addr slot {}" and l: "length addr = 20" "length slot = 32"
  obtains w0 nodes w a where "mpt_init_state (K (node_enc K T)) (K addr) 64 = Inr w0"
    "set nodes \<subseteq> trie_nodes K T"
    "walk6 K True (c_encode (c_initial (K (node_enc K T)) addr slot)) w0 nodes = Inr (w, c_encode a)"
    "staged K T S addr slot (set nodes) w a" "matches (K (node_enc K T)) addr slot a" "cc_phase a = PHASE_A_OK \<or> cc_phase a = PHASE_DONE"
    "length w = W_LEN" "cc_phase a = PHASE_A_OK \<longrightarrow> w_status w = Inr WALK_INCLUDED"
    "w_root w = Inr (K (node_enc K T))"
proof -
  let ?R = "K (node_enc K T)" and ?k = "nibs (K addr)"
  let ?c = "c_initial ?R addr slot"
  have K: "\<And>x. length (K x) = 32" and wf: "wf_trie T" "T \<noteq> TNull"
    and sz: "\<forall>e\<in>trie_nodes K T. length e \<le> max_bytes" using W by (auto simp: comp_world_def)
  have all: "inj_on K ({} \<union> trie_nodes K T \<union> trie_nodes K S \<union> {[0x80]})" using W unfolding comp_world_def by blast
  have inj: "inj_on K (trie_nodes K T)" by (rule inj_on_subset [OF all]) blast
  obtain w0 nodes w1 node w2 off n where h: "mpt_init_state ?R (K addr) 64 = Inr w0"
    "set (nodes @ [node]) \<subseteq> trie_nodes K T" "walk_nodes K w0 nodes = Inr w1"
    "mpt_walk_node K node w1 = Inr (w2, off, n)" "on_path K T ?k w1"
    "w_status w2 = Inr (fst (trie_lookup T ?k))" "fst (trie_lookup T ?k) \<noteq> WALK_CONTINUE"
    "length w2 = W_LEN" "w_root w2 = Inr ?R"
    by (rule honest_walk_hash [where K = K and T = T and x = addr, OF K wf sz inj])
  let ?s = "fst (trie_lookup T ?k)"
  let ?N = "set (nodes @ [node])"
  have W': "comp_world K T S addr slot ?N" by (rule world_nodes [OF W]) (use h(2) in blast)
  have t: "comp_typed ?c" "cc_phase ?c = PHASE_A" using initial_typed [OF K l] by (simp_all add: c_initial_def)
  have N: "node \<in> ?N" by simp
  note d = account_decided [OF W' h(5) N h(4,6,7)]
  obtain c' where br: "mpt6_bridge_account (c_encode ?c) ?s node off n = Inr c'"
    using d(3) bridge_account_encode [OF comp_typed_ok [OF t(1)] status_byte [OF h(6)], of node off n]
    by (cases "?s = WALK_INCLUDED") auto
  have walk: "walk6 K True (c_encode ?c) w0 (nodes @ [node]) = Inr (w2, c')"
    using br by (intro walk6_close [OF h(3,4,6,7)]) simp
  from bridge_account_typed [OF t status_byte [OF h(6)] h(7) br] obtain a where
    a: "c' = c_encode a" "same_inputs ?c a" "cc_phase a = PHASE_A_OK \<or> cc_phase a = PHASE_DONE" "comp_typed a"
    and res: "if ?s \<noteq> WALK_INCLUDED then a = account_absent ?s ?c
     else \<exists>body. mpt6_account_body node off n = Inr body \<and> a = account_found body ?c" by blast
  have "staged K T S addr slot ?N w0 ?c"
    using t(1) init_path(1) [OF W' h(1)] by (simp add: staged_def stage_def c_initial_def phase_defs)
  from walk6_A_inv [OF walk order.refl refl this t(2)] obtain b where
    b: "c' = c_encode b" "staged K T S addr slot ?N w2 b" by (auto simp: comp_inv_def)
  have "b = a" using a(1,4) b by (intro c_encode_inj) (auto simp: staged_def comp_typed_ok)
  with b(2) have st: "staged K T S addr slot ?N w2 a" by simp
  have m: "matches ?R addr slot a" using a(2) by (simp add: same_inputs_def matches_def c_initial_def)
  have "cc_phase a = PHASE_A_OK \<longrightarrow> w_status w2 = Inr WALK_INCLUDED"
    using res h(6) by (auto simp: account_absent_def phase_defs split: if_splits)
  then show ?thesis by (intro that [OF h(1,2) walk [unfolded a(1)] st m a(3) h(8) _ h(9)])
qed

text \<open>The storage segment.\<close>

lemma honest_b:
  assumes W: "comp_world K T S addr slot {}"
    and a: "staged K T S addr slot N0 w_a a" "matches (K (node_enc K T)) addr slot a" "cc_phase a = PHASE_A_OK"
    and N0: "N0 \<subseteq> trie_nodes K T"
  obtains w0 nodes w b where "mpt_init_state (cc_storage_root a) (K (cc_slot a)) 64 = Inr w0"
    "set nodes \<subseteq> trie_nodes K S"
    "walk6 K False (c_encode (a\<lparr>cc_phase := PHASE_B\<rparr>)) w0 nodes = Inr (w, c_encode b)"
    "length w = W_LEN" "c_ok b" "cc_phase b = PHASE_DONE" "matches (K (node_enc K T)) addr slot b"
    "(cc_cstatus b, cc_value b) = composite_spec K T S addr slot"
proof -
  let ?k = "nibs (K slot)" and ?a = "a\<lparr>cc_phase := PHASE_B\<rparr>"
  have W0: "comp_world K T S addr slot N0" by (rule world_nodes [OF W]) (use N0 in blast)
  have p: "account_proven K T S addr a" using a W0 by (simp add: staged_def stage_def)
  have S: "S \<noteq> TNull" and sr: "cc_storage_root a = K (node_enc K S)" using p by (simp_all add: account_proven_def)
  have sl: "cc_slot a = slot" using a(2) by (simp add: matches_def)
  have K: "\<And>x. length (K x) = 32" and wf: "wf_trie S"
    and sz: "\<forall>e\<in>trie_nodes K S. length e \<le> max_bytes" using W by (auto simp: comp_world_def)
  have all: "inj_on K ({} \<union> trie_nodes K T \<union> trie_nodes K S \<union> {[0x80]})" using W unfolding comp_world_def by blast
  have inj: "inj_on K (trie_nodes K S)" by (rule inj_on_subset [OF all]) blast
  obtain w0 nodes w1 node w2 off n where h: "mpt_init_state (K (node_enc K S)) (K slot) 64 = Inr w0"
    "set (nodes @ [node]) \<subseteq> trie_nodes K S" "walk_nodes K w0 nodes = Inr w1"
    "mpt_walk_node K node w1 = Inr (w2, off, n)" "on_path K S ?k w1"
    "w_status w2 = Inr (fst (trie_lookup S ?k))" "fst (trie_lookup S ?k) \<noteq> WALK_CONTINUE"
    "length w2 = W_LEN" "w_root w2 = Inr (K (node_enc K S))"
    by (rule honest_walk_hash [where K = K and T = S and x = slot, OF K wf S sz inj])
  let ?s = "fst (trie_lookup S ?k)"
  let ?N = "set (nodes @ [node])"
  have W': "comp_world K T S addr slot ?N" by (rule world_nodes [OF W]) (use h(2) in blast)
  have ta: "comp_typed a" using a(1) by (simp add: staged_def)
  have t: "comp_typed ?a" "cc_phase ?a = PHASE_B"
    using ta a(3) c_ok_update(2) [OF comp_typed_ok [OF ta] codes_lt(9)] by (simp_all add: comp_typed_def phase_defs)
  have N: "node \<in> ?N" by simp
  note d = slot_decided [OF W' h(5) N h(4,6,7)]
  obtain c' where br: "mpt6_bridge_storage (c_encode ?a) ?s node off n = Inr c'"
    using d(2) bridge_storage_encode [OF comp_typed_ok [OF t(1)] status_byte [OF h(6)], of node off n]
    by (cases "?s = WALK_INCLUDED") auto
  have walk: "walk6 K False (c_encode ?a) w0 (nodes @ [node]) = Inr (w2, c')"
    using br by (intro walk6_close [OF h(3,4,6,7)]) simp
  from bridge_storage_typed [OF t status_byte [OF h(6)] h(7) br] obtain b0 where
    b0: "c' = c_encode b0" "comp_typed b0" "same_inputs ?a b0" "cc_phase b0 = PHASE_DONE" by blast
  have "staged K T S addr slot ?N w0 ?a"
    using t(1) p init_path(2) [OF W' h(1) S] by (simp add: staged_def stage_def account_proven_def phase_defs)
  from walk6_B_inv [OF walk order.refl refl this t(2)] obtain b where
    b: "c' = c_encode b" "staged K T S addr slot ?N w2 b" by (auto simp: comp_inv_def)
  have eq: "b = b0" using b0(1,2) b by (intro c_encode_inj) (auto simp: staged_def comp_typed_ok)
  have m: "matches (K (node_enc K T)) addr slot b0" using a(2) b0(3) by (simp add: same_inputs_def matches_def)
  have "(cc_cstatus b0, cc_value b0) = composite_spec K T S addr slot"
    using b(2) W' m b0(4) by (simp add: eq staged_def stage_def)
  then show ?thesis
    using h(1) by (intro that [OF _ h(2) walk [unfolded b0(1)] h(8) comp_typed_ok [OF b0(2)] b0(4) m]) (simp_all add: sr sl)
qed

lemma node_args_a [simp]: "node_args (args_a root addr slot nodes) = nodes"
  by (simp add: node_args_def args_a_def call_head_def mode_defs)

lemma node_args_b [simp]: "node_args (args_b nodes) = nodes"
  by (simp add: node_args_def args_b_def call_head_def mode_defs)

lemma args_shape: "\<exists>rest. args_a root addr slot nodes = COMP_SELECTOR # rest" "\<exists>rest. args_b nodes = COMP_SELECTOR # rest"
  by (simp_all add: args_a_def args_b_def call_head_def)

lemma recover_call:
  assumes "i < length G" and "G ! i = AppCall app (args_a root addr slot nodes) lg \<or> G ! i = AppCall app (args_b nodes) lg"
    and "i < n" and "mpt6_log_state w c = Inr lg"
  shows "mpt6_state_from_prev (env_at app G n args) i = Inr (w, c)"
  using comp_recover_logged [of i "env_at app G n args" _ lg w c] assms args_shape
  by (auto simp: env_at_def) (metis env.select_convs)+

lemma result_of_done:
  assumes "mpt6_state_from_prev E gi = Inr (w, c_encode b)" and "c_ok b" and "cc_phase b = PHASE_DONE"
    and "matches root addr slot b"
  shows "mpt6_result_from_group E gi root addr slot = Inr (cc_cstatus b, cc_value b)"
  using assms by (simp add: mpt6_result_from_group_def c_encode_get matches_def)

lemma executed_two:
  assumes "mpt6_composer_app K donate (env_at app [AppCall app args0 lg0, AppCall app args1 lg1] 0 args0) = Inr (Some lg0)"
    and "mpt6_composer_app K donate (env_at app [AppCall app args0 lg0, AppCall app args1 lg1] 1 args1) = Inr (Some lg1)"
  shows "comp_executed K donate (env_at app [AppCall app args0 lg0, AppCall app args1 lg1] 2 [])"
  unfolding comp_executed_def env_at_update
proof (intro allI impI)
  fix i rest lg
  let ?G = "[AppCall app args0 lg0, AppCall app args1 lg1]"
  assume "i < env_index (env_at app ?G 2 [])"
    and g: "env_group (env_at app ?G 2 []) ! i = AppCall (env_app (env_at app ?G 2 [])) (COMP_SELECTOR # rest) lg"
  then have "i = 0 \<or> i = 1" by (auto simp: env_at_def)
  then show "mpt6_composer_app K donate (env_at app ?G i (COMP_SELECTOR # rest)) = Inr (Some lg)"
    using assms g by (auto simp: env_at_def)
qed

lemma executed_one:
  assumes "mpt6_composer_app K donate (env_at app [AppCall app args0 lg0] 0 args0) = Inr (Some lg0)"
  shows "comp_executed K donate (env_at app [AppCall app args0 lg0] 1 [])"
  using assms unfolding comp_executed_def env_at_update by (auto simp: env_at_def)

lemma honest_group:
  assumes W: "comp_world K T S addr slot {}" and l: "length addr = 20" "length slot = 32"
    and d: "\<And>i. donate 0 i = Inr ()"
  obtains G gi where "comp_executed K donate (env_at app G (length G) [])" "length G \<le> 2"
    "group_nodes (env_at app G (length G) []) \<subseteq> trie_nodes K T \<union> trie_nodes K S"
    "mpt6_result_from_group (env_at app G (length G) []) gi (K (node_enc K T)) addr slot = Inr (composite_spec K T S addr slot)"
proof -
  let ?R = "K (node_enc K T)"
  have R: "length ?R = 32" using W by (simp add: comp_world_def)
  obtain w0 nodes w a where A: "mpt_init_state ?R (K addr) 64 = Inr w0" "set nodes \<subseteq> trie_nodes K T"
    "walk6 K True (c_encode (c_initial ?R addr slot)) w0 nodes = Inr (w, c_encode a)"
    "staged K T S addr slot (set nodes) w a" "matches ?R addr slot a" "cc_phase a = PHASE_A_OK \<or> cc_phase a = PHASE_DONE"
    "length w = W_LEN" "cc_phase a = PHASE_A_OK \<longrightarrow> w_status w = Inr WALK_INCLUDED" "w_root w = Inr ?R"
    by (rule honest_a [OF W l])
  have t: "comp_typed a" using A(4) by (simp add: staged_def)
  from log_ok [OF A(7) comp_typed_ok [OF t]] obtain lgA where lgA: "mpt6_log_state w (c_encode a) = Inr lgA" by blast
  let ?A = "AppCall app (args_a ?R addr slot nodes) lgA"
  have runA: "mpt6_composer_app K donate (env_at app G i (args_a ?R addr slot nodes)) = Inr (Some lgA)" for G i
    using app_a [where K = K and donate = donate, OF R l d A(1,3)] lgA by simp
  show ?thesis
  proof (cases "cc_phase a = PHASE_A_OK")
    case False
    then have fin: "cc_phase a = PHASE_DONE" using A(6) by simp
    let ?E = "env_at app [?A] (length [?A]) []"
    have "mpt6_state_from_prev ?E 0 = Inr (w, c_encode a)"
      by (rule recover_call [of 0 "[?A]" app ?R addr slot nodes lgA, OF _ _ _ lgA]) simp_all
    from result_of_done [OF this comp_typed_ok [OF t] fin A(5)]
    have "mpt6_result_from_group ?E 0 ?R addr slot = Inr (composite_spec K T S addr slot)"
      using A(4,5) fin world_nodes [OF W, of "set nodes"] A(2) by (simp add: staged_def stage_def le_supI1)
    moreover have "group_nodes ?E \<subseteq> trie_nodes K T \<union> trie_nodes K S"
      using A(2) by (auto simp: group_nodes_def env_at_def)
    ultimately show ?thesis using executed_one [OF runA] by (intro that [of "[?A]" 0]) simp_all
  next
    case ok: True
    obtain v0 ms v b where B: "mpt_init_state (cc_storage_root a) (K (cc_slot a)) 64 = Inr v0"
      "set ms \<subseteq> trie_nodes K S"
      "walk6 K False (c_encode (a\<lparr>cc_phase := PHASE_B\<rparr>)) v0 ms = Inr (v, c_encode b)"
      "length v = W_LEN" "c_ok b" "cc_phase b = PHASE_DONE" "matches ?R addr slot b"
      "(cc_cstatus b, cc_value b) = composite_spec K T S addr slot"
      by (rule honest_b [OF W A(4,5) ok A(2)])
    from log_ok [OF B(4,5)] obtain lgB where lgB: "mpt6_log_state v (c_encode b) = Inr lgB" by blast
    let ?B = "AppCall app (args_b ms) lgB"
    let ?E = "env_at app [?A, ?B] (length [?A, ?B]) []"
    have prev: "mpt6_state_from_prev (env_at app [?A, ?B] 1 (args_b ms)) 0 = Inr (w, c_encode a)"
      by (rule recover_call [of 0 "[?A, ?B]" app ?R addr slot nodes lgA, OF _ _ _ lgA]) simp_all
    have sr: "w_root w = Inr (cc_state_root a)" using A(5,9) by (simp add: matches_def)
    have runB: "mpt6_composer_app K donate (env_at app [?A, ?B] 1 (args_b ms)) = Inr (Some lgB)"
      using app_b [where K = K and donate = donate, OF prev t ok A(8) [rule_format, OF ok] sr d B(1,3)] lgB by simp
    have "mpt6_state_from_prev ?E 1 = Inr (v, c_encode b)"
      by (rule recover_call [of 1 "[?A, ?B]" app _ _ _ ms lgB, OF _ _ _ lgB]) simp_all
    from result_of_done [OF this B(5-7)]
    have "mpt6_result_from_group ?E 1 ?R addr slot = Inr (composite_spec K T S addr slot)" using B(8) by simp
    moreover have "group_nodes ?E \<subseteq> trie_nodes K T \<union> trie_nodes K S"
      using A(2) B(2) by (auto simp: group_nodes_def env_at_def)
    moreover have "comp_executed K donate ?E" using executed_two [OF runA runB] by (simp add: numeral_2_eq_2)
    ultimately show ?thesis by (intro that [of "[?A, ?B]" 1]) simp_all
  qed
qed

end
