(* ===== verification/Props_Comp.thy ===== *)
theory Props_Comp
  imports Comp_Live
begin

text \<open>
  The composer's properties: what a recovered verdict means, that every account and slot has a
  group that reaches the verdict, and the typing of every composite a group logs. Each has an
  instance over a state trie with one account and a storage trie with one slot.
\<close>

section \<open>An instance\<close>

definition demo_hash :: "bytes \<Rightarrow> bytes" where
  "demo_hash x = (if x = [0x80] then EMPTY_TRIE_ROOT else replicate 32 (of_nat (length x)))"

definition demo_addr :: bytes where "demo_addr = replicate 20 5"
definition demo_slot :: bytes where "demo_slot = replicate 32 6"

definition demo_storage :: trie where
  "demo_storage = TLeaf (nibs (demo_hash demo_slot)) (slot_enc [42])"

definition demo_state :: trie where
  "demo_state = TLeaf (nibs (demo_hash demo_addr))
     (account_enc [1] [2, 0] (demo_hash (node_enc demo_hash demo_storage)) (replicate 32 9))"

lemma length_demo_hash [simp]: "length (demo_hash x) = 32"
  by (simp add: demo_hash_def)

lemma length_demo_storage: "length (node_enc demo_hash demo_storage) = 36"
  by (simp add: node_enc_def demo_storage_def enc_prefix_length length_hp_encode slot_enc_def)

lemma length_demo_account: "length sr = 32 \<Longrightarrow> length (account_enc [1] [2, 0] sr (replicate 32 9)) = 72"
  by (simp add: account_enc_def enc_prefix_length be_min.simps)

lemma length_demo_state: "length (node_enc demo_hash demo_state) = 110"
  by (simp add: node_enc_def demo_state_def enc_prefix_length length_hp_encode length_demo_account be_min.simps)

lemma demo_lookup:
  "trie_lookup demo_state (nibs (demo_hash demo_addr)) =
     (WALK_INCLUDED, account_enc [1] [2, 0] (demo_hash (node_enc demo_hash demo_storage)) (replicate 32 9))"
  "trie_lookup demo_storage (nibs (demo_hash demo_slot)) = (WALK_INCLUDED, slot_enc [42])"
  by (simp_all add: demo_state_def demo_storage_def)

lemma demo_world: "comp_world demo_hash demo_state demo_storage demo_addr demo_slot {}"
proof -
  let ?s = "node_enc demo_hash demo_storage" and ?t = "node_enc demo_hash demo_state"
  have nodes: "trie_nodes demo_hash demo_state = {?t}" "trie_nodes demo_hash demo_storage = {?s}"
    by (simp_all add: demo_state_def demo_storage_def)
  have ne: "?s \<noteq> [0x80]" "?t \<noteq> [0x80]" using length_demo_storage length_demo_state by auto
  have h: "demo_hash ?s = replicate 32 36" "demo_hash ?t = replicate 32 110" "demo_hash [0x80] = EMPTY_TRIE_ROOT"
    using ne by (simp_all add: demo_hash_def length_demo_storage length_demo_state)
  have hd: "hd (demo_hash ?s) = 36" "hd (demo_hash ?t) = 110" "hd (demo_hash [0x80]) = 0x56"
    unfolding h by (simp_all add: EMPTY_TRIE_ROOT_def)
  have neq: "(36 :: byte) \<noteq> 110" "(36 :: byte) \<noteq> 0x56" "(110 :: byte) \<noteq> 0x56" by simp_all
  have "demo_hash ?s \<noteq> demo_hash ?t" "demo_hash ?s \<noteq> demo_hash [0x80]" "demo_hash ?t \<noteq> demo_hash [0x80]"
    using hd neq by metis+
  then have "inj_on demo_hash {?t, ?s, [0x80]}" unfolding inj_on_def by fastforce
  moreover have "{} \<union> {?t} \<union> {?s} \<union> {[0x80]} = {?t, ?s, [0x80]}" by auto
  ultimately have "inj_on demo_hash ({} \<union> {?t} \<union> {?s} \<union> {[0x80]})" by (simp only:)
  moreover have "state_conform demo_hash demo_state demo_storage demo_addr demo_slot"
  proof -
    have "length [1 :: byte] \<le> 32" "length [2 :: byte, 0] \<le> 32" "length (replicate 32 (9 :: byte)) = 32"
      "length [42 :: byte] \<le> 32" by simp_all
    then show ?thesis unfolding state_conform_def demo_lookup prod.inject by blast
  qed
  moreover have "wf_trie demo_state" "wf_trie demo_storage" "demo_state \<noteq> TNull"
    by (auto simp: demo_state_def demo_storage_def nibble_list_def nibs_less)
  ultimately show ?thesis
    unfolding comp_world_def nodes using h(3) length_demo_storage length_demo_state by (simp add: max_bytes_def)
qed

lemma demo_spec: "composite_spec demo_hash demo_state demo_storage demo_addr demo_slot = (C_INCLUDED, pad32 [42])"
proof -
  have "short_content (slot_enc [42]) = [42]" by (rule short_content_slot) simp
  moreover have "demo_storage \<noteq> TNull" by (simp add: demo_storage_def)
  ultimately show ?thesis by (simp add: composite_spec_def demo_lookup)
qed

lemma demo_group:
  obtains G gi where "comp_executed demo_hash (\<lambda>_ _. Inr ()) (env_at 7 G (length G) [])"
    "comp_world demo_hash demo_state demo_storage demo_addr demo_slot (group_nodes (env_at 7 G (length G) []))"
    "mpt6_result_from_group (env_at 7 G (length G) []) gi (demo_hash (node_enc demo_hash demo_state)) demo_addr demo_slot =
       Inr (C_INCLUDED, pad32 [42])"
proof -
  have l: "length demo_addr = 20" "length demo_slot = 32" by (simp_all add: demo_addr_def demo_slot_def)
  obtain G gi where g: "comp_executed demo_hash (\<lambda>_ _. Inr ()) (env_at 7 G (length G) [])" "length G \<le> 2"
    "group_nodes (env_at 7 G (length G) []) \<subseteq> trie_nodes demo_hash demo_state \<union> trie_nodes demo_hash demo_storage"
    "mpt6_result_from_group (env_at 7 G (length G) []) gi (demo_hash (node_enc demo_hash demo_state)) demo_addr demo_slot =
       Inr (composite_spec demo_hash demo_state demo_storage demo_addr demo_slot)"
    by (rule honest_group [OF demo_world l, where donate = "\<lambda>_ _. Inr ()" and app = 7]) simp_all
  show ?thesis by (rule that [OF g(1) world_nodes [OF demo_world g(3)] g(4) [unfolded demo_spec]])
qed

section \<open>Properties\<close>

text \<open>
C24: soundness of the storage proof across a transaction group. Whatever calls of the composer
application precede in the group, in whatever order, with whatever nodes, donors and segment
boundaries, and whatever index the caller points at: if \<open>mpt6_result_from_group\<close> returns a verdict
for a state root, an address and a slot, then the verdict and the 32-byte value are those of the
two-stage lookup, first of the account in the state trie under that root, then of the slot in the
storage trie whose root that account carries.
\<close>

theorem composer_result_sound:
  assumes "comp_world K T S addr slot (group_nodes E)" and "comp_executed K donate E"
    and "mpt6_result_from_group E gi (K (node_enc K T)) addr slot = Inr (cstatus, value)"
  shows "(cstatus, value) = composite_spec K T S addr slot"
  using assms by (rule result_sound)

theorem composer_result_sound_witness:
  "\<exists>E gi. comp_executed demo_hash (\<lambda>_ _. Inr ()) E \<and>
     mpt6_result_from_group E gi (demo_hash (node_enc demo_hash demo_state)) demo_addr demo_slot =
       Inr (C_INCLUDED, pad32 [42]) \<and>
     (C_INCLUDED, pad32 [42]) = composite_spec demo_hash demo_state demo_storage demo_addr demo_slot"
proof -
  obtain G gi where g: "comp_executed demo_hash (\<lambda>_ _. Inr ()) (env_at 7 G (length G) [])"
    "comp_world demo_hash demo_state demo_storage demo_addr demo_slot (group_nodes (env_at 7 G (length G) []))"
    "mpt6_result_from_group (env_at 7 G (length G) []) gi (demo_hash (node_enc demo_hash demo_state)) demo_addr demo_slot =
       Inr (C_INCLUDED, pad32 [42])" by (rule demo_group)
  show ?thesis using composer_result_sound [OF g(2,1,3)] g(1,3) by blast
qed

text \<open>
C25: completeness of the storage proof. For every well-formed state and storage trie and every
account and slot, present or absent, there is a group of at most two calls of the composer
application that all succeed, use only the tries' own nodes, and from which the verdict of the
two-stage lookup is recovered. (Limits on argument size and opcode budget are not part of the model.)
\<close>

theorem composer_honest_group:
  assumes "comp_world K T S addr slot {}" and "length addr = 20" and "length slot = 32"
    and "\<And>i. donate 0 i = Inr ()"
  shows "\<exists>G gi. length G \<le> 2 \<and> comp_executed K donate (env_at app G (length G) []) \<and>
    group_nodes (env_at app G (length G) []) \<subseteq> trie_nodes K T \<union> trie_nodes K S \<and>
    mpt6_result_from_group (env_at app G (length G) []) gi (K (node_enc K T)) addr slot =
      Inr (composite_spec K T S addr slot)"
  by (rule honest_group [where K = K and app = app and donate = donate, OF assms]) blast

theorem composer_honest_group_witness:
  "\<exists>G gi. length G \<le> 2 \<and> mpt6_result_from_group (env_at 7 G (length G) []) gi
     (demo_hash (node_enc demo_hash demo_state)) demo_addr demo_slot = Inr (C_INCLUDED, pad32 [42])"
proof -
  have l: "length demo_addr = 20" "length demo_slot = 32" by (simp_all add: demo_addr_def demo_slot_def)
  show ?thesis
    using composer_honest_group [OF demo_world l, of "\<lambda>_ _. Inr ()" 7] unfolding demo_spec by auto
qed

text \<open>
C26: typing of the composite state. Every state recovered from an earlier call of the composer is a
101-byte walk state and the encoding of a well-typed composite: all fields have their widths, the
phase, the verdict and the two walk statuses fit together, an undecided composite carries the zero
value, an absent account the constants of a non-existent one, and no composite is ready for the
storage walk with the empty-trie root. No assumption on the hash or on the inputs is needed.
\<close>

theorem composer_states_typed:
  assumes "comp_executed K donate E" and "mpt6_state_from_prev E gi = Inr (w, c)"
  shows "length w = W_LEN \<and> (\<exists>a. c = c_encode a \<and> comp_typed a)"
proof -
  have "length w = W_LEN" using assms(2) by (auto simp: mpt6_state_from_prev_def res_simps)
  moreover have "\<exists>a. c = c_encode a \<and> comp_typed a"
    using recovered_inv [OF assms, of TNull TNull "[]" "[]"] by (auto simp: comp_inv_def staged_def)
  ultimately show ?thesis by blast
qed

theorem composer_states_typed_witness:
  "\<exists>E gi w a. comp_executed demo_hash (\<lambda>_ _. Inr ()) E \<and> mpt6_state_from_prev E gi = Inr (w, c_encode a) \<and>
     length w = W_LEN \<and> comp_typed a"
proof -
  obtain G gi where g: "comp_executed demo_hash (\<lambda>_ _. Inr ()) (env_at 7 G (length G) [])"
    and r: "mpt6_result_from_group (env_at 7 G (length G) []) gi (demo_hash (node_enc demo_hash demo_state)) demo_addr demo_slot =
       Inr (C_INCLUDED, pad32 [42])" by (rule demo_group)
  from r obtain w c where "mpt6_state_from_prev (env_at 7 G (length G) []) gi = Inr (w, c)"
    by (auto simp: mpt6_result_from_group_def res_simps)
  from composer_states_typed [OF g this] this g show ?thesis by blast
qed

end
