(* ===== verification/Rcpt_State.thy ===== *)
theory Rcpt_State
  imports Group MPT_State
begin

text \<open>
  The result R of a receipt proof, \<open>contracts/receipt/state.py\<close>: a 240-byte buffer with the three
  immutable inputs (receipts root, transaction index, log index) and the decoded log, written once
  when the walk ends.
\<close>

definition R_INCOMPLETE :: nat where "R_INCOMPLETE = 0"
definition R_INCLUDED :: nat where "R_INCLUDED = 1"
definition R_ABSENT :: nat where "R_ABSENT = 2"
definition R_NO_SUCH_LOG :: nat where "R_NO_SUCH_LOG = 3"
definition R_ZERO_LOGS :: nat where "R_ZERO_LOGS = 4"

definition R_LEN :: nat where "R_LEN = 240"

lemmas r_status_defs = R_INCOMPLETE_def R_INCLUDED_def R_ABSENT_def R_NO_SUCH_LOG_def R_ZERO_LOGS_def

definition rbyte1 :: "nat \<Rightarrow> bytes" where "rbyte1 v = seg 7 1 (itob v)"

lemma rbyte1_eq [simp]: "rbyte1 = low_byte"
  by (rule ext) (simp add: rbyte1_def low_byte_def)

section \<open>Accessors\<close>

definition r_rstatus :: "bytes \<Rightarrow> nat res" where "r_rstatus r = getbyte r 0"
definition r_receipts_root :: "bytes \<Rightarrow> bytes res" where "r_receipts_root r = bextract r 1 32"
definition r_tx_index :: "bytes \<Rightarrow> nat res" where "r_tx_index r = rbind (bextract r 33 8) btoi"
definition r_log_index :: "bytes \<Rightarrow> nat res" where "r_log_index r = extract_uint16 r 41"
definition r_tx_type :: "bytes \<Rightarrow> nat res" where "r_tx_type r = getbyte r 43"
definition r_status :: "bytes \<Rightarrow> nat res" where "r_status r = getbyte r 44"
definition r_cumulative_gas_used :: "bytes \<Rightarrow> nat res" where
  "r_cumulative_gas_used r = rbind (bextract r 45 8) btoi"
definition r_address :: "bytes \<Rightarrow> bytes res" where "r_address r = bextract r 53 20"
definition r_n_topics :: "bytes \<Rightarrow> nat res" where "r_n_topics r = getbyte r 73"
definition r_topics :: "bytes \<Rightarrow> bytes res" where "r_topics r = bextract r 74 128"
definition r_data_hash :: "bytes \<Rightarrow> bytes res" where "r_data_hash r = bextract r 202 32"
definition r_data_len :: "bytes \<Rightarrow> nat res" where "r_data_len r = rbind (bextract r 234 4) btoi"
definition r_wstatus :: "bytes \<Rightarrow> nat res" where "r_wstatus r = getbyte r 238"
definition r_n_logs :: "bytes \<Rightarrow> nat res" where "r_n_logs r = getbyte r 239"

section \<open>Construction and update\<close>

definition mpt7_init_result :: "bytes \<Rightarrow> nat \<Rightarrow> nat \<Rightarrow> bytes res" where
  "mpt7_init_result receipts_root tx_index log_index =
     check (length receipts_root = 32) ''L20'' (
     check (tx_index \<le> 0xFFFFFF) ''L20'' (
     check (log_index \<le> 0xFFFF) ''L20'' (
     let rstatus_b = rbyte1 R_INCOMPLETE; tx_index_b = seg 0 8 (itob tx_index);
         log_index_b = seg 6 2 (itob log_index) in
     rbind (bzero 32) (\<lambda>zero32.
     rbind (bzero 8) (\<lambda>zero8.
     rbind (bzero 20) (\<lambda>zero20.
     rbind (bzero 128) (\<lambda>zero128.
     rbind (bzero 4) (\<lambda>zero4.
     Inr (rstatus_b @ receipts_root @ tx_index_b @ log_index_b
       @ rbyte1 0 @ rbyte1 0 @ zero8 @ zero20 @ rbyte1 0 @ zero128 @ zero32 @ zero4
       @ rbyte1 0 @ rbyte1 0)))))))))"

definition r_with_rstatus :: "bytes \<Rightarrow> nat \<Rightarrow> bytes res" where
  "r_with_rstatus r rstatus = breplace r 0 (rbyte1 rstatus)"

definition r_with_terminal ::
  "bytes \<Rightarrow> nat \<Rightarrow> nat \<Rightarrow> nat \<Rightarrow> nat \<Rightarrow> bytes \<Rightarrow> bytes \<Rightarrow> nat \<Rightarrow> bytes \<Rightarrow> bytes \<Rightarrow> nat \<Rightarrow> nat \<Rightarrow> bytes res" where
  "r_with_terminal r rstatus wstatus tx_type status cum_gas address n_topics topics data_hash data_len n_logs =
     check (length cum_gas = 8) ''L20'' (
     check (length address = 20) ''L20'' (
     check (length topics = 128) ''L20'' (
     check (length data_hash = 32) ''L20'' (
     rbind (breplace r 0 (rbyte1 rstatus)) (\<lambda>r2.
     rbind (breplace r2 43 (rbyte1 tx_type)) (\<lambda>r2.
     rbind (breplace r2 44 (rbyte1 status)) (\<lambda>r2.
     rbind (breplace r2 45 cum_gas) (\<lambda>r2.
     rbind (breplace r2 53 address) (\<lambda>r2.
     rbind (breplace r2 73 (rbyte1 n_topics)) (\<lambda>r2.
     rbind (breplace r2 74 topics) (\<lambda>r2.
     rbind (breplace r2 202 data_hash) (\<lambda>r2.
     rbind (breplace r2 234 (seg 4 4 (itob data_len))) (\<lambda>r2.
     rbind (breplace r2 238 (rbyte1 wstatus)) (\<lambda>r2.
     breplace r2 239 (rbyte1 n_logs)))))))))))))))"

section \<open>The fields of a result\<close>

record result =
  rr_rstatus :: nat
  rr_receipts_root :: bytes
  rr_tx_index :: nat
  rr_log_index :: nat
  rr_tx_type :: nat
  rr_status :: nat
  rr_cum_gas :: bytes
  rr_address :: bytes
  rr_n_topics :: nat
  rr_topics :: bytes
  rr_data_hash :: bytes
  rr_data_len :: nat
  rr_wstatus :: nat
  rr_n_logs :: nat

definition r_fields :: "result \<Rightarrow> bytes list" where
  "r_fields a = [low_byte (rr_rstatus a), rr_receipts_root a, be_bytes 8 (rr_tx_index a), be_bytes 2 (rr_log_index a),
     low_byte (rr_tx_type a), low_byte (rr_status a), rr_cum_gas a, rr_address a, low_byte (rr_n_topics a),
     rr_topics a, rr_data_hash a, be_bytes 4 (rr_data_len a), low_byte (rr_wstatus a), low_byte (rr_n_logs a)]"

definition R_WIDTHS :: "nat list" where "R_WIDTHS = [1, 32, 8, 2, 1, 1, 8, 20, 1, 128, 32, 4, 1, 1]"

definition r_encode :: "result \<Rightarrow> bytes" where "r_encode a = concat (r_fields a)"

definition r_ok :: "result \<Rightarrow> bool" where
  "r_ok a \<longleftrightarrow> rr_rstatus a < 256 \<and> rr_tx_type a < 256 \<and> rr_status a < 256 \<and> rr_n_topics a < 256 \<and>
     rr_wstatus a < 256 \<and> rr_n_logs a < 256 \<and> rr_tx_index a < 256 ^ 8 \<and> rr_log_index a < 256 ^ 2 \<and>
     rr_data_len a < 256 ^ 4 \<and> length (rr_receipts_root a) = 32 \<and> length (rr_cum_gas a) = 8 \<and>
     length (rr_address a) = 20 \<and> length (rr_topics a) = 128 \<and> length (rr_data_hash a) = 32"

definition r_initial :: "bytes \<Rightarrow> nat \<Rightarrow> nat \<Rightarrow> result" where
  "r_initial root tx li = \<lparr>rr_rstatus = R_INCOMPLETE, rr_receipts_root = root, rr_tx_index = tx, rr_log_index = li,
     rr_tx_type = 0, rr_status = 0, rr_cum_gas = replicate 8 0, rr_address = replicate 20 0, rr_n_topics = 0,
     rr_topics = replicate 128 0, rr_data_hash = replicate 32 0, rr_data_len = 0, rr_wstatus = 0, rr_n_logs = 0\<rparr>"

lemma r_ok_widths: "r_ok a \<Longrightarrow> map length (r_fields a) = R_WIDTHS"
  by (simp add: r_ok_def r_fields_def R_WIDTHS_def)

lemma length_r_encode: "r_ok a \<Longrightarrow> length (r_encode a) = R_LEN"
  by (simp add: r_encode_def length_fields [OF r_ok_widths] R_WIDTHS_def R_LEN_def)

lemma r_extract:
  "r_ok a \<Longrightarrow> i < length R_WIDTHS \<Longrightarrow> off = sum_list (take i R_WIDTHS) \<Longrightarrow> n = R_WIDTHS ! i \<Longrightarrow>
   bextract (r_encode a) off n = Inr (r_fields a ! i)"
  unfolding r_encode_def by (rule extract_field [OF r_ok_widths])

lemma r_byte:
  "r_ok a \<Longrightarrow> i < length R_WIDTHS \<Longrightarrow> off = sum_list (take i R_WIDTHS) \<Longrightarrow> r_fields a ! i = low_byte v \<Longrightarrow>
   v < 256 \<Longrightarrow> getbyte (r_encode a) off = Inr v"
  unfolding r_encode_def by (rule byte_field [OF r_ok_widths])

lemma r_overwrite:
  "r_ok a \<Longrightarrow> i < length R_WIDTHS \<Longrightarrow> off = sum_list (take i R_WIDTHS) \<Longrightarrow> length new = R_WIDTHS ! i \<Longrightarrow>
   (r_fields a)[i := new] = r_fields b \<Longrightarrow> rbind (breplace (r_encode a) off new) f = f (r_encode b)"
  unfolding r_encode_def using overwrite_field [OF r_ok_widths, of a i off new] by simp

lemma extract_uint16_of:
  assumes "bextract xs off 2 = Inr (be_bytes 2 v)" and "v < 256 ^ 2"
  shows "extract_uint16 xs off = Inr v"
proof -
  have e: "off + 2 \<le> length xs" "seg off 2 xs = be_bytes 2 v" using assms(1) by (simp_all add: bextract_Inr)
  have "be_val (be_bytes 2 v) = v" using assms(2) by (rule be_val_be_bytes)
  with e show ?thesis by (simp add: extract_uint16_def)
qed

lemma r_encode_get:
  assumes "r_ok a"
  shows "r_rstatus (r_encode a) = Inr (rr_rstatus a)"
    and "r_receipts_root (r_encode a) = Inr (rr_receipts_root a)"
    and "r_tx_index (r_encode a) = Inr (rr_tx_index a)"
    and "r_log_index (r_encode a) = Inr (rr_log_index a)"
    and "r_tx_type (r_encode a) = Inr (rr_tx_type a)"
    and "r_status (r_encode a) = Inr (rr_status a)"
    and "r_address (r_encode a) = Inr (rr_address a)"
    and "r_n_topics (r_encode a) = Inr (rr_n_topics a)"
    and "r_topics (r_encode a) = Inr (rr_topics a)"
    and "r_data_hash (r_encode a) = Inr (rr_data_hash a)"
    and "r_data_len (r_encode a) = Inr (rr_data_len a)"
    and "r_wstatus (r_encode a) = Inr (rr_wstatus a)"
    and "r_n_logs (r_encode a) = Inr (rr_n_logs a)"
proof -
  show "r_rstatus (r_encode a) = Inr (rr_rstatus a)"
    unfolding r_rstatus_def by (rule r_byte [OF assms, of 0]) (use assms in \<open>simp_all add: R_WIDTHS_def r_fields_def r_ok_def\<close>)
  show "r_receipts_root (r_encode a) = Inr (rr_receipts_root a)"
    unfolding r_receipts_root_def by (subst r_extract [OF assms, of 1]) (simp_all add: R_WIDTHS_def r_fields_def)
  show "r_tx_index (r_encode a) = Inr (rr_tx_index a)"
    using assms unfolding r_tx_index_def by (subst r_extract [OF assms, of 2]) (simp_all add: R_WIDTHS_def r_fields_def r_ok_def btoi_def)
  show "r_log_index (r_encode a) = Inr (rr_log_index a)"
    using assms unfolding r_log_index_def by (intro extract_uint16_of, subst r_extract [OF assms, of 3]) (simp_all add: R_WIDTHS_def r_fields_def r_ok_def)
  show "r_tx_type (r_encode a) = Inr (rr_tx_type a)"
    unfolding r_tx_type_def by (rule r_byte [OF assms, of 4]) (use assms in \<open>simp_all add: R_WIDTHS_def r_fields_def r_ok_def\<close>)
  show "r_status (r_encode a) = Inr (rr_status a)"
    unfolding r_status_def by (rule r_byte [OF assms, of 5]) (use assms in \<open>simp_all add: R_WIDTHS_def r_fields_def r_ok_def\<close>)
  show "r_address (r_encode a) = Inr (rr_address a)"
    unfolding r_address_def by (subst r_extract [OF assms, of 7]) (simp_all add: R_WIDTHS_def r_fields_def)
  show "r_n_topics (r_encode a) = Inr (rr_n_topics a)"
    unfolding r_n_topics_def by (rule r_byte [OF assms, of 8]) (use assms in \<open>simp_all add: R_WIDTHS_def r_fields_def r_ok_def\<close>)
  show "r_topics (r_encode a) = Inr (rr_topics a)"
    unfolding r_topics_def by (subst r_extract [OF assms, of 9]) (simp_all add: R_WIDTHS_def r_fields_def)
  show "r_data_hash (r_encode a) = Inr (rr_data_hash a)"
    unfolding r_data_hash_def by (subst r_extract [OF assms, of 10]) (simp_all add: R_WIDTHS_def r_fields_def)
  show "r_data_len (r_encode a) = Inr (rr_data_len a)"
    using assms unfolding r_data_len_def by (subst r_extract [OF assms, of 11]) (simp_all add: R_WIDTHS_def r_fields_def r_ok_def btoi_def)
  show "r_wstatus (r_encode a) = Inr (rr_wstatus a)"
    unfolding r_wstatus_def by (rule r_byte [OF assms, of 12]) (use assms in \<open>simp_all add: R_WIDTHS_def r_fields_def r_ok_def\<close>)
  show "r_n_logs (r_encode a) = Inr (rr_n_logs a)"
    unfolding r_n_logs_def by (rule r_byte [OF assms, of 13]) (use assms in \<open>simp_all add: R_WIDTHS_def r_fields_def r_ok_def\<close>)
qed

lemma r_put:
  assumes "r_ok a"
  shows "rbind (breplace (r_encode a) 0 (low_byte v)) f = f (r_encode (a\<lparr>rr_rstatus := v\<rparr>))"
    and "rbind (breplace (r_encode a) 43 (low_byte v)) f = f (r_encode (a\<lparr>rr_tx_type := v\<rparr>))"
    and "rbind (breplace (r_encode a) 44 (low_byte v)) f = f (r_encode (a\<lparr>rr_status := v\<rparr>))"
    and "length x = 8 \<Longrightarrow> rbind (breplace (r_encode a) 45 x) f = f (r_encode (a\<lparr>rr_cum_gas := x\<rparr>))"
    and "length x = 20 \<Longrightarrow> rbind (breplace (r_encode a) 53 x) f = f (r_encode (a\<lparr>rr_address := x\<rparr>))"
    and "rbind (breplace (r_encode a) 73 (low_byte v)) f = f (r_encode (a\<lparr>rr_n_topics := v\<rparr>))"
    and "length x = 128 \<Longrightarrow> rbind (breplace (r_encode a) 74 x) f = f (r_encode (a\<lparr>rr_topics := x\<rparr>))"
    and "length x = 32 \<Longrightarrow> rbind (breplace (r_encode a) 202 x) f = f (r_encode (a\<lparr>rr_data_hash := x\<rparr>))"
    and "rbind (breplace (r_encode a) 234 (be_bytes 4 v)) f = f (r_encode (a\<lparr>rr_data_len := v\<rparr>))"
    and "rbind (breplace (r_encode a) 238 (low_byte v)) f = f (r_encode (a\<lparr>rr_wstatus := v\<rparr>))"
    and "rbind (breplace (r_encode a) 239 (low_byte v)) f = f (r_encode (a\<lparr>rr_n_logs := v\<rparr>))"
  subgoal by (rule r_overwrite [OF assms, of 0]) (simp_all add: R_WIDTHS_def r_fields_def)
  subgoal by (rule r_overwrite [OF assms, of 4]) (simp_all add: R_WIDTHS_def r_fields_def)
  subgoal by (rule r_overwrite [OF assms, of 5]) (simp_all add: R_WIDTHS_def r_fields_def)
  subgoal by (rule r_overwrite [OF assms, of 6]) (simp_all add: R_WIDTHS_def r_fields_def)
  subgoal by (rule r_overwrite [OF assms, of 7]) (simp_all add: R_WIDTHS_def r_fields_def)
  subgoal by (rule r_overwrite [OF assms, of 8]) (simp_all add: R_WIDTHS_def r_fields_def)
  subgoal by (rule r_overwrite [OF assms, of 9]) (simp_all add: R_WIDTHS_def r_fields_def)
  subgoal by (rule r_overwrite [OF assms, of 10]) (simp_all add: R_WIDTHS_def r_fields_def)
  subgoal by (rule r_overwrite [OF assms, of 11]) (simp_all add: R_WIDTHS_def r_fields_def)
  subgoal by (rule r_overwrite [OF assms, of 12]) (simp_all add: R_WIDTHS_def r_fields_def)
  subgoal by (rule r_overwrite [OF assms, of 13]) (simp_all add: R_WIDTHS_def r_fields_def)
  done

lemma init_result_Inr:
  "mpt7_init_result root tx li = Inr r \<longleftrightarrow>
   length root = 32 \<and> tx \<le> 0xFFFFFF \<and> li \<le> 0xFFFF \<and> r = r_encode (r_initial root tx li)"
  using seg_be_bytes [of 2 8 li]
  by (auto simp: mpt7_init_result_def res_simps max_bytes_def r_encode_def r_fields_def r_initial_def Let_def
      low_bytes2_def [symmetric] low_bytes2_eq itob_def be_bytes_zero)

lemma r_initial_ok: "length root = 32 \<Longrightarrow> tx \<le> 0xFFFFFF \<Longrightarrow> li \<le> 0xFFFF \<Longrightarrow> r_ok (r_initial root tx li)"
  by (simp add: r_ok_def r_initial_def r_status_defs)

text \<open>The terminal splice is one record update.\<close>

definition r_final ::
  "nat \<Rightarrow> nat \<Rightarrow> nat \<Rightarrow> nat \<Rightarrow> bytes \<Rightarrow> bytes \<Rightarrow> nat \<Rightarrow> bytes \<Rightarrow> bytes \<Rightarrow> nat \<Rightarrow> nat \<Rightarrow> result \<Rightarrow> result" where
  "r_final rs ws ty st gas addr nt topics dh dl nl a = a\<lparr>rr_rstatus := rs mod 256, rr_tx_type := ty mod 256,
     rr_status := st mod 256, rr_cum_gas := gas, rr_address := addr, rr_n_topics := nt mod 256, rr_topics := topics,
     rr_data_hash := dh, rr_data_len := dl mod 256 ^ 4, rr_wstatus := ws mod 256, rr_n_logs := nl mod 256\<rparr>"

lemma low_byte_mod: "low_byte v = low_byte (v mod 256)"
  by (simp add: low_byte_eq)

lemma be_bytes_mod: "be_bytes k (v mod 256 ^ k) = be_bytes k v"
proof (induction k arbitrary: v)
  case (Suc k)
  have "v mod 256 ^ Suc k div 256 = v div 256 mod 256 ^ k" by (simp add: mod_mult2_eq)
  moreover have "v mod 256 ^ Suc k mod 256 = v mod 256" by (simp add: mod_mod_cancel)
  ultimately show ?case using Suc by (simp del: power_Suc)
qed simp

lemma low_byte_normal: "low_byte v = low_byte w \<longleftrightarrow> v mod 256 = w mod 256"
proof
  assume "low_byte v = low_byte w"
  then have "(of_nat (v mod 256) :: byte) = of_nat (w mod 256)" by (simp add: low_byte_eq)
  then have "unat (of_nat (v mod 256) :: byte) = unat (of_nat (w mod 256) :: byte)" by simp
  then show "v mod 256 = w mod 256" by (simp add: unat_of_nat_byte)
qed (metis low_byte_mod)

lemma r_ok_final:
  "r_ok a \<Longrightarrow> length gas = 8 \<Longrightarrow> length addr = 20 \<Longrightarrow> length topics = 128 \<Longrightarrow> length dh = 32 \<Longrightarrow>
   r_ok (r_final rs ws ty st gas addr nt topics dh dl nl a)"
  by (simp add: r_ok_def r_final_def)

lemma r_ok_put:
  assumes "r_ok a"
  shows "v < 256 \<Longrightarrow> r_ok (a\<lparr>rr_rstatus := v\<rparr>)" and "v < 256 \<Longrightarrow> r_ok (a\<lparr>rr_tx_type := v\<rparr>)"
    and "v < 256 \<Longrightarrow> r_ok (a\<lparr>rr_status := v\<rparr>)" and "v < 256 \<Longrightarrow> r_ok (a\<lparr>rr_n_topics := v\<rparr>)"
    and "v < 256 \<Longrightarrow> r_ok (a\<lparr>rr_wstatus := v\<rparr>)" and "v < 256 ^ 4 \<Longrightarrow> r_ok (a\<lparr>rr_data_len := v\<rparr>)"
    and "length x = 8 \<Longrightarrow> r_ok (a\<lparr>rr_cum_gas := x\<rparr>)" and "length x = 20 \<Longrightarrow> r_ok (a\<lparr>rr_address := x\<rparr>)"
    and "length x = 128 \<Longrightarrow> r_ok (a\<lparr>rr_topics := x\<rparr>)" and "length x = 32 \<Longrightarrow> r_ok (a\<lparr>rr_data_hash := x\<rparr>)"
  using assms by (simp_all add: r_ok_def)

lemma with_terminal_encode:
  assumes a: "r_ok a" and l: "length gas = 8" "length addr = 20" "length topics = 128" "length dh = 32"
  shows "r_with_terminal (r_encode a) rs ws ty st gas addr nt topics dh dl nl =
    Inr (r_encode (r_final rs ws ty st gas addr nt topics dh dl nl a))"
proof -
  have m: "\<And>v::nat. v mod 256 < 256" "\<And>v::nat. v mod 256 ^ 4 < 256 ^ 4" by simp_all
  have dl: "seg 4 4 (itob dl) = be_bytes 4 (dl mod 256 ^ 4)"
    using seg_be_bytes [of 4 8 dl] be_bytes_mod [of 4 dl] by (simp add: itob_def del: power_Suc)
  have last: "r_ok b \<Longrightarrow> breplace (r_encode b) 239 (low_byte v) = Inr (r_encode (b\<lparr>rr_n_logs := v\<rparr>))" for b v
    using r_put(11) [of b v Inr] by (cases "breplace (r_encode b) 239 (low_byte v)") simp_all
  show ?thesis
    unfolding r_with_terminal_def rbyte1_eq dl low_byte_mod [of rs] low_byte_mod [of ty] low_byte_mod [of st]
      low_byte_mod [of nt] low_byte_mod [of ws] low_byte_mod [of nl]
    by (simp add: l r_put r_ok_put a m last r_final_def del: One_nat_def power_Suc)
qed

lemma r_encode_inj:
  assumes "r_ok a" and "r_ok b" and "r_encode a = r_encode b"
  shows "rr_rstatus a = rr_rstatus b" and "rr_receipts_root a = rr_receipts_root b"
    and "rr_tx_index a = rr_tx_index b" and "rr_log_index a = rr_log_index b"
  using r_encode_get [OF assms(1)] r_encode_get [OF assms(2)] assms(3) by simp_all

end
