(* ===== verification/Rcpt_Decode.thy ===== *)
theory Rcpt_Decode
  imports Rcpt_State Comp_Account
begin

text \<open>
  The receipt decode, \<open>contracts/receipt/decode.py\<close>: envelope, the four items of the receipt body, the
  table of its logs and the extraction of one log; with the receipt encoding it is proved against.
\<close>

definition MAX_LOGS_T1T2 :: nat where "MAX_LOGS_T1T2 = 64"

definition mpt7_receipt_body :: "bytes \<Rightarrow> nat \<Rightarrow> nat \<Rightarrow> (nat \<times> nat \<times> bytes \<times> bytes \<times> nat) res" where
  "mpt7_receipt_body node value_off value_len =
     check (1 \<le> value_len) ''L1'' (
     rbind (receipt_envelope node value_off value_len) (\<lambda>(tx_type, p_off, _).
     rbind (rlp_list_header node p_off) (\<lambda>(payload_off, payload_end).
     rbind (rlp_item_header node payload_off) (\<lambda>(o0, l0, _).
     rbind (uadd o0 l0) (\<lambda>p1.
     rbind (rlp_item_header node p1) (\<lambda>(o1, l1, _).
     rbind (uadd o1 l1) (\<lambda>p2.
     rbind (rlp_item_header node p2) (\<lambda>(o2, l2, _).
     rbind (uadd o2 l2) (\<lambda>p3.
     rbind (rlp_item_header node p3) (\<lambda>(o3, l3, _).
     rbind (uadd o3 l3) (\<lambda>p4.
     check (p4 = payload_end) ''L2'' (
     check (l1 \<le> 8) ''L21'' (
     rbind (if l0 = 0 then Inr 0 else rbind (rlp_bytes node o0 l0) btoi) (\<lambda>status.
     rbind (usub 8 l1) (\<lambda>z.
     rbind (bzero z) (\<lambda>pad.
     rbind (rlp_bytes node o1 l1) (\<lambda>gas.
     rbind (bconcat pad gas) (\<lambda>cum_gas8.
     rbind (rlp_scan_n node o3 MAX_LOGS_T1T2) (\<lambda>(logs_table, n_logs).
     Inr (tx_type, status, cum_gas8, logs_table, n_logs))))))))))))))))))))"

text \<open>The loop over the four topic slots, counted down: \<open>k\<close> slots left from \<open>i = 4 - k\<close>.\<close>

fun topics_loop :: "bytes \<Rightarrow> bytes \<Rightarrow> nat \<Rightarrow> nat \<Rightarrow> nat \<Rightarrow> bytes \<Rightarrow> bytes res" where
  "topics_loop node topics_table n_topics 0 i topics128 = Inr topics128"
| "topics_loop node topics_table n_topics (Suc k) i topics128 =
     rbind
       (if i < n_topics then
          rbind (rlp_table_item node topics_table i) (\<lambda>(to, tl, _).
          check (tl = 32) ''L6'' (rlp_bytes node to 32))
        else bzero 32)
     (\<lambda>slot.
     rbind (bconcat topics128 slot) (\<lambda>topics128.
     topics_loop node topics_table n_topics k (i + 1) topics128))"

definition mpt7_log_at ::
  "(bytes \<Rightarrow> bytes) \<Rightarrow> bytes \<Rightarrow> bytes \<Rightarrow> nat \<Rightarrow> (bytes \<times> nat \<times> bytes \<times> bytes \<times> nat) res" where
  "mpt7_log_at K node logs_table log_index =
     rbind (rlp_table_item node logs_table log_index) (\<lambda>(log_off, _, _).
     rbind (rlp_scan node log_off) (\<lambda>(log_table, log_n).
     check (log_n = 3) ''L3'' (
     rbind (rlp_table_item node log_table 0) (\<lambda>(a_off, a_len, _).
     check (a_len = 20) ''L4'' (
     rbind (rlp_bytes node a_off 20) (\<lambda>address.
     rbind (rlp_table_item node log_table 1) (\<lambda>(t_off, _, _).
     rbind (rlp_scan node t_off) (\<lambda>(topics_table, n_topics).
     check (n_topics \<le> 4) ''L5'' (
     rbind (topics_loop node topics_table n_topics 4 0 []) (\<lambda>topics128.
     rbind (rlp_table_item node log_table 2) (\<lambda>(d_off, d_len, _).
     rbind (rlp_bytes node d_off d_len) (\<lambda>data.
     let data_hash = K data in
     Inr (address, n_topics, topics128, data_hash, d_len)))))))))))))"

section \<open>Receipts and their encoding\<close>

record eth_log =
  el_address :: bytes
  el_topics :: "bytes list"
  el_data :: bytes

record eth_receipt =
  er_type :: nat
  er_status :: nat
  er_gas :: nat
  er_bloom :: bytes
  er_logs :: "eth_log list"

definition log_ok :: "eth_log \<Rightarrow> bool" where
  "log_ok l \<longleftrightarrow> length (el_address l) = 20 \<and> length (el_topics l) \<le> 4 \<and>
     (\<forall>t\<in>set (el_topics l). length t = 32) \<and> length (el_data l) < 256 ^ 4"

definition receipt_ok :: "eth_receipt \<Rightarrow> bool" where
  "receipt_ok r \<longleftrightarrow> er_type r \<le> 0x7F \<and> er_status r < 256 \<and> er_gas r < uint64_limit \<and>
     length (er_logs r) \<le> MAX_LOGS_T1T2 \<and> (\<forall>l\<in>set (er_logs r). log_ok l)"

text \<open>A receipt a block can hold: the verifiers' bound on the number of logs is not part of it.\<close>

definition receipt_wf :: "eth_receipt \<Rightarrow> bool" where
  "receipt_wf r \<longleftrightarrow> er_type r \<le> 0x7F \<and> er_status r < 256 \<and> er_gas r < uint64_limit \<and> (\<forall>l\<in>set (er_logs r). log_ok l)"

lemma receipt_ok_wf: "receipt_ok r \<longleftrightarrow> receipt_wf r \<and> length (er_logs r) \<le> MAX_LOGS_T1T2"
  by (auto simp: receipt_ok_def receipt_wf_def)

definition log_rlp :: "eth_log \<Rightarrow> rlp" where
  "log_rlp l = RList [RStr (el_address l), RList (map RStr (el_topics l)), RStr (el_data l)]"

definition receipt_rlp :: "eth_receipt \<Rightarrow> rlp" where
  "receipt_rlp r = RList [RStr (be_min (er_status r)), RStr (be_min (er_gas r)), RStr (er_bloom r),
     RList (map log_rlp (er_logs r))]"

definition receipt_enc :: "eth_receipt \<Rightarrow> bytes" where
  "receipt_enc r = (if er_type r = 0 then [] else [of_nat (er_type r)]) @ rlp_enc (receipt_rlp r)"

definition topics128_of :: "bytes list \<Rightarrow> bytes" where
  "topics128_of ts = concat ts @ replicate (32 * (4 - length ts)) 0"

lemma length_topics128: "length ts \<le> 4 \<Longrightarrow> \<forall>t\<in>set ts. length t = 32 \<Longrightarrow> length (topics128_of ts) = 128"
proof -
  assume "length ts \<le> 4" "\<forall>t\<in>set ts. length t = 32"
  moreover from this(2) have "length (concat ts) = 32 * length ts" by (induction ts) auto
  ultimately show ?thesis by (simp add: topics128_of_def)
qed

text \<open>
  Items by position in an encoded list: the table the scan builds serves every item, and item \<open>i\<close> is
  the one that follows the first \<open>i\<close>.
\<close>

lemma table_of_list:
  assumes "data = pre @ rlp_enc (RList xs) @ post" and "length data \<le> max_bytes"
    and "length xs \<le> mx" and "2 * mx + 2 \<le> max_bytes"
  obtains table where "rlp_scan_n data (length pre) mx = Inr (table, length xs)"
    "\<forall>i<length xs. \<exists>mid post'. data = mid @ rlp_enc (xs ! i) @ post' \<and>
       rlp_table_item data table i = Inr (rlp_span (length mid) (xs ! i))"
proof -
  have "length data < uint64_limit" using assms(2) by (simp add: uint64_limit_def max_bytes_def)
  then obtain table where t: "rlp_scan_n data (length pre) mx = Inr (table, length xs)"
    using rlp_scan_n_enc [OF assms(1) _ assms(3,4)] by blast
  let ?h = "enc_prefix 0xC0 (length (concat (map rlp_enc xs)))"
  have item: "\<exists>mid post'. data = mid @ rlp_enc (xs ! i) @ post' \<and>
       rlp_table_item data table i = Inr (rlp_span (length mid) (xs ! i))" if i: "i < length xs" for i
  proof -
    let ?mid = "pre @ ?h @ concat (map rlp_enc (take i xs))"
    have "xs = take i xs @ xs ! i # drop (Suc i) xs" using i by (simp add: id_take_nth_drop)
    then have "concat (map rlp_enc xs) = concat (map rlp_enc (take i xs)) @ rlp_enc (xs ! i) @ concat (map rlp_enc (drop (Suc i) xs))"
      by (metis concat.simps(2) concat_append list.simps(9) map_append)
    then have "data = ?mid @ rlp_enc (xs ! i) @ concat (map rlp_enc (drop (Suc i) xs)) @ post"
      using assms(1) by (simp add: Let_def)
    moreover have "rlp_table_item data table i = Inr (rlp_span (length ?mid) (xs ! i))"
      using rlp_scan_n_item_enc [OF assms i] t by (simp add: add.assoc)
    ultimately show ?thesis by blast
  qed
  show ?thesis using item by (intro that [OF t]) blast
qed

section \<open>The decode inverts the encoding\<close>

lemma list_header_first: "rlp_list_header data start = Inr r \<Longrightarrow> \<exists>p. getbyte data start = Inr p \<and> 0xC0 \<le> p"
  by (auto simp: rlp_list_header_def res_simps)

lemma be_val_zeros: "be_val (replicate n 0 @ xs) = be_val xs"
proof -
  have "be_val (replicate n 0) = 0" by (induction n) (simp_all add: replicate_append_same [symmetric])
  then show ?thesis by (simp add: be_val_append)
qed

lemma be_min_padded: "v < uint64_limit \<Longrightarrow> replicate (8 - length (be_min v)) 0 @ be_min v = be_bytes 8 v"
  using be_bytes_be_val [of "replicate (8 - length (be_min v)) 0 @ be_min v" 8] length_be_min_8 [of v]
  by (simp add: be_val_zeros)

lemma length_enc_pos_list: "1 \<le> length (rlp_enc (RList xs))"
  by (cases "rlp_enc (RList xs)") (simp_all add: Suc_le_eq del: rlp_enc.simps)

lemma receipt_envelope_enc:
  assumes node: "node = pre @ receipt_enc r @ post" and ok: "receipt_wf r" and lim: "length node \<le> max_bytes"
  obtains l where "receipt_envelope node (length pre) (length (receipt_enc r)) =
      Inr (er_type r, length (pre @ (if er_type r = 0 then [] else [of_nat (er_type r)])), l)"
proof -
  obtain xs where xs: "receipt_rlp r = RList xs" by (simp add: receipt_rlp_def)
  let ?t = "if er_type r = 0 then [] else [of_nat (er_type r)] :: bytes"
  have d: "node = (pre @ ?t) @ rlp_enc (RList xs) @ post" using node by (simp add: receipt_enc_def xs)
  have lim': "length node < uint64_limit" using lim by (simp add: uint64_limit_def max_bytes_def)
  let ?p = "concat (map rlp_enc xs)"
  have "node = (pre @ ?t) @ enc_prefix 0xC0 (length ?p) @ ?p @ post" using d by (simp add: Let_def)
  from list_header_first [OF rlp_list_header_enc [OF this lim']] obtain p where
    p: "getbyte node (length (pre @ ?t)) = Inr p" "0xC0 \<le> p" by blast
  show ?thesis
  proof (cases "er_type r = 0")
    case True
    then have "receipt_envelope node (length pre) (length (receipt_enc r)) = Inr (0, length pre, length (receipt_enc r))"
      using p length_enc_pos_list [of xs] by (simp add: receipt_envelope_def receipt_enc_def xs)
    then show ?thesis using True by (intro that [of "length (receipt_enc r)"]) simp
  next
    case False
    have t: "er_type r \<le> 127" using ok by (simp add: receipt_wf_def)
    have g: "getbyte node (length pre) = Inr (er_type r)"
      using False t by (simp add: d getbyte_def unat_of_nat_byte)
    have "uadd (length pre) (Suc 0) = Inr (Suc (length pre))" using lim' d False by (simp add: uadd_def)
    then have "receipt_envelope node (length pre) (length (receipt_enc r)) =
        Inr (er_type r, length pre + 1, length (receipt_enc r) - 1)"
      using p g t False length_enc_pos_list [of xs]
      by (simp add: receipt_envelope_def receipt_enc_def xs usub_def del: rlp_enc.simps)
    then show ?thesis using False by (intro that [of "length (receipt_enc r) - 1"]) simp
  qed
qed

text \<open>String items one after the other, as the unrolled decoders read them.\<close>

lemma str_item:
  assumes "data = pre @ rlp_enc (RStr bs) @ post" and "length data \<le> max_bytes"
  obtains off k where "rlp_item_header data (length pre) = Inr (off, length bs, k)" "seg off (length bs) data = bs"
    "uadd off (length bs) = Inr (length (pre @ rlp_enc (RStr bs)))" "off + length bs \<le> length data"
    "rlp_bytes data off (length bs) = Inr bs"
proof -
  have lim: "length data < uint64_limit" using assms(2) by (simp add: uint64_limit_def max_bytes_def)
  obtain off k where s: "rlp_span (length pre) (RStr bs) = (off, length bs, k)"
    using rlp_span_string(1) [OF assms(1)] by (metis prod_cases3)
  note f = rlp_span_string [OF assms(1) s]
  have fit: "off + length bs \<le> length data" using f(3) assms(1) by (simp del: rlp_enc.simps)
  have h: "rlp_item_header data (length pre) = Inr (off, length bs, k)"
    using rlp_item_header_enc [OF assms(1) lim] s by simp
  have u: "uadd off (length bs) = Inr (length (pre @ rlp_enc (RStr bs)))"
    using f(3) fit lim by (simp add: uadd_def del: rlp_enc.simps)
  have b: "rlp_bytes data off (length bs) = Inr bs" using f(2) fit by (simp add: rlp_bytes_def bextract_def)
  show ?thesis by (rule that [OF h f(2) u fit b])
qed

definition logs_in :: "bytes \<Rightarrow> bytes \<Rightarrow> eth_log list \<Rightarrow> bool" where
  "logs_in node table ls \<longleftrightarrow> (\<forall>i<length ls. \<exists>mid post n k. node = mid @ rlp_enc (log_rlp (ls ! i)) @ post \<and>
     rlp_table_item node table i = Inr (length mid, n, k))"

text \<open>The body decode up to the scan of its logs, whatever their number.\<close>

lemma receipt_body_scan:
  assumes node: "node = pre @ receipt_enc r @ post" and ok: "receipt_wf r" and lim: "length node \<le> max_bytes"
  obtains p where "node = p @ rlp_enc (RList (map log_rlp (er_logs r))) @ post"
    "mpt7_receipt_body node (length pre) (length (receipt_enc r)) =
      rbind (rlp_scan_n node (length p) MAX_LOGS_T1T2) (\<lambda>(table, n).
      Inr (er_type r, er_status r, be_bytes 8 (er_gas r), table, n))"
proof -
  let ?t = "if er_type r = 0 then [] else [of_nat (er_type r)] :: bytes"
  let ?s = "rlp_enc (RStr (be_min (er_status r)))" and ?g = "rlp_enc (RStr (be_min (er_gas r)))"
    and ?b = "rlp_enc (RStr (er_bloom r))"
  let ?ls = "map log_rlp (er_logs r)"
  let ?items = "?s @ ?g @ ?b @ rlp_enc (RList ?ls)"
  let ?h = "enc_prefix 0xC0 (length ?items)"
  let ?p0 = "(pre @ ?t) @ ?h"
  let ?p1 = "?p0 @ ?s"
  let ?p2 = "?p1 @ ?g"
  let ?p3 = "?p2 @ ?b"
  have d: "node = (pre @ ?t) @ ?h @ ?items @ post"
    using node by (simp add: receipt_enc_def receipt_rlp_def Let_def del: rlp_enc.simps(1))
  have lim': "length node < uint64_limit" using lim by (simp add: uint64_limit_def max_bytes_def)
  obtain l where env: "receipt_envelope node (length pre) (length (receipt_enc r)) = Inr (er_type r, length (pre @ ?t), l)"
    by (rule receipt_envelope_enc [OF node ok lim])
  have hd: "rlp_list_header node (length (pre @ ?t)) = Inr (length ?p0, length ?p0 + length ?items)"
    using rlp_list_header_enc [OF d lim'] by simp
  have d0: "node = ?p0 @ ?s @ (?g @ ?b @ rlp_enc (RList ?ls) @ post)" using d by simp
  have d1: "node = ?p1 @ ?g @ (?b @ rlp_enc (RList ?ls) @ post)" using d by simp
  have d2: "node = ?p2 @ ?b @ (rlp_enc (RList ?ls) @ post)" using d by simp
  have d3: "node = ?p3 @ rlp_enc (RList ?ls) @ post" using d by simp
  obtain o0 k0 where i0: "rlp_item_header node (length ?p0) = Inr (o0, length (be_min (er_status r)), k0)"
    "uadd o0 (length (be_min (er_status r))) = Inr (length ?p1)" "rlp_bytes node o0 (length (be_min (er_status r))) = Inr (be_min (er_status r))"
    by (rule str_item [OF d0 lim])
  obtain o1 k1 where i1: "rlp_item_header node (length ?p1) = Inr (o1, length (be_min (er_gas r)), k1)"
    "uadd o1 (length (be_min (er_gas r))) = Inr (length ?p2)" "rlp_bytes node o1 (length (be_min (er_gas r))) = Inr (be_min (er_gas r))"
    by (rule str_item [OF d1 lim])
  obtain o2 k2 where i2: "rlp_item_header node (length ?p2) = Inr (o2, length (er_bloom r), k2)"
    "uadd o2 (length (er_bloom r)) = Inr (length ?p3)" by (rule str_item [OF d2 lim])
  have i3: "rlp_item_header node (length ?p3) = Inr (length ?p3, length (rlp_enc (RList ?ls)), KIND_LIST)"
    using rlp_item_header_enc [OF d3 lim'] by simp
  have u3: "uadd (length ?p3) (length (rlp_enc (RList ?ls))) = Inr (length ?p0 + length ?items)"
    using lim' d by (simp add: uadd_def del: rlp_enc.simps)
  have st: "(if length (be_min (er_status r)) = 0 then Inr 0
      else rbind (rlp_bytes node o0 (length (be_min (er_status r)))) btoi) = Inr (er_status r)"
    using ok i0(3) length_be_min_8 [of "er_status r"] length_be_min_gt0 [of "er_status r"]
    by (auto simp: receipt_wf_def uint64_limit_def btoi_def)
  have g8: "length (be_min (er_gas r)) \<le> 8" using ok by (simp add: receipt_wf_def length_be_min_8)
  have pad: "bconcat (replicate (8 - length (be_min (er_gas r))) 0) (be_min (er_gas r)) = Inr (be_bytes 8 (er_gas r))"
    using be_min_padded [of "er_gas r"] ok g8 by (simp add: bconcat_def max_bytes_def receipt_wf_def)
  have z: "usub 8 (length (be_min (er_gas r))) = Inr (8 - length (be_min (er_gas r)))"
    "bzero (8 - length (be_min (er_gas r))) = Inr (replicate (8 - length (be_min (er_gas r))) 0)"
    using g8 by (simp_all add: usub_def bzero_def max_bytes_def)
  have len: "1 \<le> length (receipt_enc r)"
    using length_enc_pos_list by (simp add: receipt_enc_def receipt_rlp_def del: rlp_enc.simps)
  have "mpt7_receipt_body node (length pre) (length (receipt_enc r)) =
      rbind (rlp_scan_n node (length ?p3) MAX_LOGS_T1T2) (\<lambda>(table, n).
      Inr (er_type r, er_status r, be_bytes 8 (er_gas r), table, n))"
    unfolding mpt7_receipt_body_def env rbind_Inr prod.case hd i0(1,2) i1 i2 i3 u3 st z pad
    using len g8 by simp
  then show ?thesis by (rule that [OF d3])
qed

lemma receipt_body_enc:
  assumes node: "node = pre @ receipt_enc r @ post" and ok: "receipt_ok r" and lim: "length node \<le> max_bytes"
  shows "\<exists>table. mpt7_receipt_body node (length pre) (length (receipt_enc r)) =
      Inr (er_type r, er_status r, be_bytes 8 (er_gas r), table, length (er_logs r)) \<and>
    logs_in node table (er_logs r)"
proof -
  let ?ls = "map log_rlp (er_logs r)"
  have wf: "receipt_wf r" and n: "length ?ls \<le> MAX_LOGS_T1T2" "2 * MAX_LOGS_T1T2 + 2 \<le> max_bytes"
    using ok by (simp_all add: receipt_ok_wf MAX_LOGS_T1T2_def max_bytes_def)
  obtain p where d: "node = p @ rlp_enc (RList ?ls) @ post"
    and body: "mpt7_receipt_body node (length pre) (length (receipt_enc r)) =
      rbind (rlp_scan_n node (length p) MAX_LOGS_T1T2) (\<lambda>(table, n).
      Inr (er_type r, er_status r, be_bytes 8 (er_gas r), table, n))"
    by (rule receipt_body_scan [OF node wf lim])
  obtain table where t: "rlp_scan_n node (length p) MAX_LOGS_T1T2 = Inr (table, length ?ls)"
    and items: "\<forall>i<length ?ls. \<exists>mid post'. node = mid @ rlp_enc (?ls ! i) @ post' \<and>
       rlp_table_item node table i = Inr (rlp_span (length mid) (?ls ! i))"
    by (rule table_of_list [OF d lim n])
  have "mpt7_receipt_body node (length pre) (length (receipt_enc r)) =
      Inr (er_type r, er_status r, be_bytes 8 (er_gas r), table, length (er_logs r))"
    using body t by simp
  moreover have "logs_in node table (er_logs r)"
    unfolding logs_in_def
  proof (intro allI impI)
    fix i assume "i < length (er_logs r)"
    with items obtain mid post' where m: "node = mid @ rlp_enc (log_rlp (er_logs r ! i)) @ post'"
      "rlp_table_item node table i = Inr (rlp_span (length mid) (log_rlp (er_logs r ! i)))" by auto
    have "\<exists>n k. rlp_span (length mid) (log_rlp (er_logs r ! i)) = (length mid, n, k)" by (simp add: log_rlp_def)
    with m show "\<exists>mid post n k. node = mid @ rlp_enc (log_rlp (er_logs r ! i)) @ post \<and>
        rlp_table_item node table i = Inr (length mid, n, k)" by metis
  qed
  ultimately show ?thesis by blast
qed

text \<open>The decoder succeeds on a receipt only within its bound on logs.\<close>

lemma receipt_body_cap:
  assumes node: "node = pre @ receipt_enc r @ post" and wf: "receipt_wf r" and lim: "length node \<le> max_bytes"
    and body: "mpt7_receipt_body node (length pre) (length (receipt_enc r)) = Inr out"
  shows "receipt_ok r"
proof -
  obtain p where d: "node = p @ rlp_enc (RList (map log_rlp (er_logs r))) @ post"
    and b: "mpt7_receipt_body node (length pre) (length (receipt_enc r)) =
      rbind (rlp_scan_n node (length p) MAX_LOGS_T1T2) (\<lambda>(table, n).
      Inr (er_type r, er_status r, be_bytes 8 (er_gas r), table, n))"
    by (rule receipt_body_scan [OF node wf lim])
  then obtain t n where "rlp_scan_n node (length p) MAX_LOGS_T1T2 = Inr (t, n)" using body by (auto simp: res_simps)
  from rlp_scan_n_count [OF d _ this] lim have "length (er_logs r) \<le> MAX_LOGS_T1T2"
    by (simp add: uint64_limit_def max_bytes_def)
  then show ?thesis using wf by (simp add: receipt_ok_wf)
qed

lemma str_table_item:
  assumes "\<exists>mid post. node = mid @ rlp_enc (RStr bs) @ post \<and>
    rlp_table_item node table i = Inr (rlp_span (length mid) (RStr bs))"
  obtains off k where "rlp_table_item node table i = Inr (off, length bs, k)" "rlp_bytes node off (length bs) = Inr bs"
proof -
  from assms obtain mid post where d: "node = mid @ rlp_enc (RStr bs) @ post"
    and it: "rlp_table_item node table i = Inr (rlp_span (length mid) (RStr bs))" by blast
  obtain off k where s: "rlp_span (length mid) (RStr bs) = (off, length bs, k)"
    using rlp_span_string(1) [OF d] by (metis prod_cases3)
  note f = rlp_span_string [OF d s]
  have "off + length bs \<le> length node" using f(3) d by (simp del: rlp_enc.simps)
  then show ?thesis using f(2) it s by (intro that [of off k]) (simp_all add: rlp_bytes_def bextract_def)
qed

definition topic_slot :: "bytes list \<Rightarrow> nat \<Rightarrow> bytes" where
  "topic_slot ts j = (if j < length ts then ts ! j else replicate 32 0)"

lemma topics_loop_enc:
  assumes items: "\<And>j. j < length ts \<Longrightarrow> \<exists>to k. rlp_table_item node table j = Inr (to, 32, k) \<and> rlp_bytes node to 32 = Inr (ts ! j)"
    and len: "\<And>j. j < length ts \<Longrightarrow> length (ts ! j) = 32"
  shows "i + k = 4 \<Longrightarrow> length acc = 32 * i \<Longrightarrow>
    topics_loop node table (length ts) k i acc = Inr (acc @ concat (map (topic_slot ts) [i..<4]))"
proof (induction k arbitrary: i acc)
  case 0
  then show ?case by simp
next
  case (Suc k)
  have slot: "(if i < length ts then rbind (rlp_table_item node table i) (\<lambda>(to, tl, _). check (tl = 32) ''L6'' (rlp_bytes node to 32))
      else bzero 32) = Inr (topic_slot ts i)"
    using items [of i] by (auto simp: topic_slot_def bzero_def max_bytes_def)
  have l: "length (topic_slot ts i) = 32" using len [of i] by (simp add: topic_slot_def)
  have c: "bconcat acc (topic_slot ts i) = Inr (acc @ topic_slot ts i)"
    using l Suc.prems by (simp add: bconcat_def max_bytes_def)
  have "topics_loop node table (length ts) k (i + 1) (acc @ topic_slot ts i) =
      Inr ((acc @ topic_slot ts i) @ concat (map (topic_slot ts) [i + 1..<4]))"
    using Suc.prems l by (intro Suc.IH) simp_all
  moreover have "[i..<4] = i # [i + 1..<4]" using Suc.prems(1) by (simp add: upt_conv_Cons)
  ultimately show ?case by (simp add: slot c)
qed

lemma concat_replicates: "concat (replicate k (replicate m x)) = replicate (m * k) x"
  by (induction k) (simp_all add: replicate_add)

lemma topic_slots:
  assumes "length ts \<le> 4"
  shows "concat (map (topic_slot ts) [0..<4]) = topics128_of ts"
proof -
  have u: "[0..<4] = [0..<length ts] @ [length ts..<4]" using assms upt_add_eq_append [of 0 "length ts" "4 - length ts"] by simp
  have "map (topic_slot ts) [0..<length ts] = ts" by (rule nth_equalityI) (simp_all add: topic_slot_def)
  moreover have "map (topic_slot ts) [length ts..<4] = replicate (4 - length ts) (replicate 32 0)"
    by (rule nth_equalityI) (simp_all add: topic_slot_def)
  ultimately show ?thesis by (simp add: u concat_replicates topics128_of_def)
qed

lemma log_at_enc:
  assumes logs: "logs_in node table ls" and i: "i < length ls" and ok: "log_ok (ls ! i)" and lim: "length node \<le> max_bytes"
  shows "mpt7_log_at K node table i = Inr (el_address (ls ! i), length (el_topics (ls ! i)),
    topics128_of (el_topics (ls ! i)), K (el_data (ls ! i)), length (el_data (ls ! i)))"
proof -
  let ?l = "ls ! i"
  let ?ts = "map RStr (el_topics ?l)"
  let ?xs = "[RStr (el_address ?l), RList ?ts, RStr (el_data ?l)]"
  from logs i obtain mid post n k where d: "node = mid @ rlp_enc (RList ?xs) @ post"
    and it: "rlp_table_item node table i = Inr (length mid, n, k)" unfolding logs_in_def log_rlp_def by blast
  have c: "2 * MAX_ITEMS + 2 \<le> max_bytes" "length ?xs \<le> MAX_ITEMS" "length ?ts \<le> MAX_ITEMS"
    using ok by (simp_all add: MAX_ITEMS_def max_bytes_def log_ok_def)
  obtain t1 where t1: "rlp_scan_n node (length mid) MAX_ITEMS = Inr (t1, length ?xs)"
    and it1: "\<forall>i<length ?xs. \<exists>mid post'. node = mid @ rlp_enc (?xs ! i) @ post' \<and>
       rlp_table_item node t1 i = Inr (rlp_span (length mid) (?xs ! i))"
    by (rule table_of_list [OF d lim c(2,1)])
  have "\<exists>mid post'. node = mid @ rlp_enc (RStr (el_address ?l)) @ post' \<and>
       rlp_table_item node t1 0 = Inr (rlp_span (length mid) (RStr (el_address ?l)))"
    using it1 [rule_format, of 0] by (simp del: rlp_enc.simps rlp_span.simps)
  then obtain ao ak where a: "rlp_table_item node t1 0 = Inr (ao, length (el_address ?l), ak)"
    "rlp_bytes node ao (length (el_address ?l)) = Inr (el_address ?l)" by (rule str_table_item)
  have "\<exists>mid post'. node = mid @ rlp_enc (RStr (el_data ?l)) @ post' \<and>
       rlp_table_item node t1 2 = Inr (rlp_span (length mid) (RStr (el_data ?l)))"
    using it1 [rule_format, of 2] by (simp del: rlp_enc.simps rlp_span.simps)
  then obtain do dk where da: "rlp_table_item node t1 2 = Inr (do, length (el_data ?l), dk)"
    "rlp_bytes node do (length (el_data ?l)) = Inr (el_data ?l)" by (rule str_table_item)
  obtain mt pt where tp: "node = mt @ rlp_enc (RList ?ts) @ pt"
    "rlp_table_item node t1 1 = Inr (length mt, length (rlp_enc (RList ?ts)), KIND_LIST)"
    using it1 [rule_format, of 1] by (auto simp del: rlp_enc.simps)
  obtain t2 where t2: "rlp_scan_n node (length mt) MAX_ITEMS = Inr (t2, length ?ts)"
    and it2: "\<forall>i<length ?ts. \<exists>mid post'. node = mid @ rlp_enc (?ts ! i) @ post' \<and>
       rlp_table_item node t2 i = Inr (rlp_span (length mid) (?ts ! i))"
    by (rule table_of_list [OF tp(1) lim c(3,1)])
  have len: "length (el_topics ?l ! j) = 32" if "j < length (el_topics ?l)" for j
    using ok that by (simp add: log_ok_def)
  have items: "\<exists>to k. rlp_table_item node t2 j = Inr (to, 32, k) \<and> rlp_bytes node to 32 = Inr (el_topics ?l ! j)"
    if j: "j < length (el_topics ?l)" for j
  proof -
    have "\<exists>mid post. node = mid @ rlp_enc (RStr (el_topics ?l ! j)) @ post \<and>
        rlp_table_item node t2 j = Inr (rlp_span (length mid) (RStr (el_topics ?l ! j)))"
      using it2 [rule_format, of j] j by (simp del: rlp_enc.simps rlp_span.simps)
    then obtain to k where "rlp_table_item node t2 j = Inr (to, length (el_topics ?l ! j), k)"
      "rlp_bytes node to (length (el_topics ?l ! j)) = Inr (el_topics ?l ! j)" by (rule str_table_item)
    then show ?thesis using len [OF j] by simp
  qed
  have "topics_loop node t2 (length (el_topics ?l)) 4 0 [] = Inr (topics128_of (el_topics ?l))"
    using topics_loop_enc [of "el_topics ?l" node t2 0 4 "[]", OF items len] topic_slots ok by (simp add: log_ok_def)
  moreover have "length (el_address ?l) = 20" "length (el_topics ?l) \<le> 4" using ok by (simp_all add: log_ok_def)
  ultimately show ?thesis using a da tp(2) t1 t2 it
    by (simp add: mpt7_log_at_def rlp_scan_def numeral_3_eq_3 del: rlp_enc.simps One_nat_def)
qed

end
