(* ===== verification/Rcpt_App.thy ===== *)
theory Rcpt_App
  imports Rcpt_Decode AVM MPT_Walk Anchor_Handoff
begin

text \<open>
  Box staging of a large leaf (\<open>contracts/receipt/box.py\<close>), the hand-off of (W, R) between transactions
  (\<open>handoff.py\<close>) and the two drivers: the reference driver \<open>Mpt7ReceiptApp\<close> (\<open>bench_app.py\<close>) and the
  deployed verifier \<open>Mpt7AnchoredReceiptApp\<close> (\<open>anchored_app.py\<close>), whose private helpers repeat the
  driver's.
\<close>

section \<open>Box staging\<close>

definition MIN_STAGED_LEAF :: nat where "MIN_STAGED_LEAF = 1943"
definition MAX_STAGED_LEAF :: nat where "MAX_STAGED_LEAF = 4096"

definition mpt7_stage_open :: "boxes \<Rightarrow> bytes \<Rightarrow> nat \<Rightarrow> boxes res" where
  "mpt7_stage_open bs name leaf_len =
     check (MIN_STAGED_LEAF \<le> leaf_len) ''L7'' (
     check (leaf_len \<le> MAX_STAGED_LEAF) ''L7'' (
     case box_delete bs name of (bs, _) \<Rightarrow>
     rbind (box_create bs name leaf_len) (\<lambda>(bs, _). Inr bs)))"

definition mpt7_stage_write :: "boxes \<Rightarrow> bytes \<Rightarrow> nat \<Rightarrow> bytes \<Rightarrow> boxes res" where
  "mpt7_stage_write bs name offset chunk = box_replace bs name offset chunk"

definition mpt7_stage_read :: "boxes \<Rightarrow> bytes \<Rightarrow> nat \<Rightarrow> bytes res" where
  "mpt7_stage_read bs name leaf_len = box_extract bs name 0 leaf_len"

definition mpt7_stage_close :: "boxes \<Rightarrow> bytes \<Rightarrow> boxes" where
  "mpt7_stage_close bs name = fst (box_delete bs name)"

section \<open>Hand-off\<close>

definition RCPT_SELECTOR :: bytes where "RCPT_SELECTOR = [0x52, 0x43, 0x50, 0x31]"
definition LOG_LEN_M7 :: nat where "LOG_LEN_M7 = 4 + 2 + W_LEN + R_LEN"

definition mpt7_log_state :: "bytes \<Rightarrow> bytes \<Rightarrow> bytes res" where
  "mpt7_log_state w r =
     check (length w = W_LEN) ''L19'' (
     check (length r = R_LEN) ''L19'' (
     let payload_len = W_LEN + R_LEN; length_b = seg 6 2 (itob payload_len) in
     Inr (ARC4_RETURN_PREFIX @ length_b @ w @ r)))"

definition mpt7_state_from_prev :: "env \<Rightarrow> nat \<Rightarrow> (bytes \<times> bytes) res" where
  "mpt7_state_from_prev E gi =
     check (gi < env_index E) ''L11'' (
     rbind (gtxn_app_call E gi) (\<lambda>(app, args, lg).
     check (app = env_app E) ''L11'' (
     rbind (gtxn_arg0 args) (\<lambda>a0.
     check (a0 = RCPT_SELECTOR) ''L11'' (
     check (length lg = LOG_LEN_M7) ''L19'' (
     rbind (bextract lg 0 4) (\<lambda>pre.
     check (pre = ARC4_RETURN_PREFIX) ''L19'' (
     rbind (bextract lg 6 W_LEN) (\<lambda>w.
     rbind (bextract lg (6 + W_LEN) R_LEN) (\<lambda>r. Inr (w, r)))))))))))"

text \<open>The returned tuple: rstatus, address, topic count, topics, data hash, data length, status, type.\<close>

type_synonym log_result = "nat \<times> bytes \<times> nat \<times> bytes \<times> bytes \<times> nat \<times> nat \<times> nat"

definition mpt7_result_from_group :: "env \<Rightarrow> nat \<Rightarrow> bytes \<Rightarrow> nat \<Rightarrow> nat \<Rightarrow> log_result res" where
  "mpt7_result_from_group E gi want_receipts_root want_tx_index want_log_index =
     rbind (mpt7_state_from_prev E gi) (\<lambda>(w, r).
     rbind (r_rstatus r) (\<lambda>rstatus.
     check (rstatus \<noteq> 0) ''L10'' (
     rbind (r_receipts_root r) (\<lambda>root.
     check (root = want_receipts_root) ''L11'' (
     rbind (r_tx_index r) (\<lambda>tx.
     check (tx = want_tx_index) ''L11'' (
     rbind (r_log_index r) (\<lambda>li.
     check (li = want_log_index) ''L11'' (
     rbind (r_address r) (\<lambda>address.
     rbind (r_n_topics r) (\<lambda>n_topics.
     rbind (r_topics r) (\<lambda>topics.
     rbind (r_data_hash r) (\<lambda>data_hash.
     rbind (r_data_len r) (\<lambda>data_len.
     rbind (r_status r) (\<lambda>status.
     rbind (r_tx_type r) (\<lambda>tx_type.
     Inr (rstatus, address, n_topics, topics, data_hash, data_len, status, tx_type)))))))))))))))))"

section \<open>The walk of a segment\<close>

definition finalize_if_terminal ::
  "(bytes \<Rightarrow> bytes) \<Rightarrow> bytes \<Rightarrow> bytes \<Rightarrow> bytes \<Rightarrow> nat \<Rightarrow> nat \<Rightarrow> bytes res" where
  "finalize_if_terminal K w r node value_off value_len =
     rbind (w_status w) (\<lambda>status.
     if status = WALK_CONTINUE then Inr r
     else
       rbind (bzero 20) (\<lambda>zero_addr.
       rbind (bzero 128) (\<lambda>zero_topics.
       rbind (bzero 32) (\<lambda>zero_hash.
       rbind (bzero 8) (\<lambda>zero_gas.
       if status = WALK_INCLUDED then
         rbind (mpt7_receipt_body node value_off value_len) (\<lambda>(tx_type, rstat, cum_gas8, logs_table, n_logs).
         rbind (r_log_index r) (\<lambda>log_index.
         if n_logs = 0 then
           r_with_terminal r R_ZERO_LOGS status tx_type rstat cum_gas8 zero_addr 0 zero_topics zero_hash 0 n_logs
         else if n_logs \<le> log_index then
           r_with_terminal r R_NO_SUCH_LOG status tx_type rstat cum_gas8 zero_addr 0 zero_topics zero_hash 0 n_logs
         else
           rbind (mpt7_log_at K node logs_table log_index) (\<lambda>(address, n_topics, topics128, data_hash, data_len).
           r_with_terminal r R_INCLUDED status tx_type rstat cum_gas8 address n_topics topics128 data_hash data_len n_logs)))
       else
         check (status = WALK_ABSENT_EMPTY_SLOT \<or> status = WALK_ABSENT_EXT_DIVERGE \<or>
                status = WALK_ABSENT_LEAF_DIVERGE \<or> status = WALK_ABSENT_BRANCH_TERM) ''L23'' (
         r_with_terminal r R_ABSENT status 0 0 zero_gas zero_addr 0 zero_topics zero_hash 0 0))))))"

text \<open>\<open>_walk7\<close>: the loop over the remaining node arguments, here their list.\<close>

fun walk7 :: "(bytes \<Rightarrow> bytes) \<Rightarrow> bytes \<Rightarrow> bytes \<Rightarrow> bytes list \<Rightarrow> (bytes \<times> bytes) res" where
  "walk7 K cur_r cur_w [] = Inr (cur_w, cur_r)"
| "walk7 K cur_r cur_w (node # nodes) =
     rbind (w_status cur_w) (\<lambda>s.
     check (s = WALK_CONTINUE) ''L12'' (
     rbind (mpt_walk_node K node cur_w) (\<lambda>(cur_w, voff, vlen).
     rbind (finalize_if_terminal K cur_w cur_r node voff vlen) (\<lambda>cur_r.
     walk7 K cur_r cur_w nodes))))"

definition walk7_args :: "(bytes \<Rightarrow> bytes) \<Rightarrow> env \<Rightarrow> bytes \<Rightarrow> bytes \<Rightarrow> nat \<Rightarrow> (bytes \<times> bytes) res" where
  "walk7_args K E r w first_node_arg = walk7 K r w (drop first_node_arg (env_args E))"

text \<open>The private copies of the deployed verifier.\<close>

definition finalize_if_terminal_anchored ::
  "(bytes \<Rightarrow> bytes) \<Rightarrow> bytes \<Rightarrow> bytes \<Rightarrow> bytes \<Rightarrow> nat \<Rightarrow> nat \<Rightarrow> bytes res" where
  "finalize_if_terminal_anchored K w r node value_off value_len =
     rbind (w_status w) (\<lambda>status.
     if status = WALK_CONTINUE then Inr r
     else
       rbind (bzero 20) (\<lambda>zero_addr.
       rbind (bzero 128) (\<lambda>zero_topics.
       rbind (bzero 32) (\<lambda>zero_hash.
       rbind (bzero 8) (\<lambda>zero_gas.
       if status = WALK_INCLUDED then
         rbind (mpt7_receipt_body node value_off value_len) (\<lambda>(tx_type, rstat, cum_gas8, logs_table, n_logs).
         rbind (r_log_index r) (\<lambda>log_index.
         if n_logs = 0 then
           r_with_terminal r R_ZERO_LOGS status tx_type rstat cum_gas8 zero_addr 0 zero_topics zero_hash 0 n_logs
         else if n_logs \<le> log_index then
           r_with_terminal r R_NO_SUCH_LOG status tx_type rstat cum_gas8 zero_addr 0 zero_topics zero_hash 0 n_logs
         else
           rbind (mpt7_log_at K node logs_table log_index) (\<lambda>(address, n_topics, topics128, data_hash, data_len).
           r_with_terminal r R_INCLUDED status tx_type rstat cum_gas8 address n_topics topics128 data_hash data_len n_logs)))
       else
         check (status = WALK_ABSENT_EMPTY_SLOT \<or> status = WALK_ABSENT_EXT_DIVERGE \<or>
                status = WALK_ABSENT_LEAF_DIVERGE \<or> status = WALK_ABSENT_BRANCH_TERM) ''L23'' (
         r_with_terminal r R_ABSENT status 0 0 zero_gas zero_addr 0 zero_topics zero_hash 0 0))))))"

fun walk7_anchored :: "(bytes \<Rightarrow> bytes) \<Rightarrow> bytes \<Rightarrow> bytes \<Rightarrow> bytes list \<Rightarrow> (bytes \<times> bytes) res" where
  "walk7_anchored K cur_r cur_w [] = Inr (cur_w, cur_r)"
| "walk7_anchored K cur_r cur_w (node # nodes) =
     rbind (w_status cur_w) (\<lambda>s.
     check (s = WALK_CONTINUE) ''L12'' (
     rbind (mpt_walk_node K node cur_w) (\<lambda>(cur_w, voff, vlen).
     rbind (finalize_if_terminal_anchored K cur_w cur_r node voff vlen) (\<lambda>cur_r.
     walk7_anchored K cur_r cur_w nodes))))"

lemma finalize_anchored_eq: "finalize_if_terminal_anchored = finalize_if_terminal"
  by (intro ext) (simp only: finalize_if_terminal_anchored_def finalize_if_terminal_def)

lemma walk7_anchored_eq: "walk7_anchored K r w nodes = walk7 K r w nodes"
proof (induction nodes arbitrary: r w)
  case (Cons node nodes)
  then show ?case by (simp only: walk7_anchored.simps walk7.simps finalize_anchored_eq)
qed simp

section \<open>The drivers\<close>

definition MODE_INIT :: nat where "MODE_INIT = 0"
definition MODE_NEXT :: nat where "MODE_NEXT = 1"
definition MODE_STAGE_OPEN :: nat where "MODE_STAGE_OPEN = 2"
definition MODE_STAGE_WRITE :: nat where "MODE_STAGE_WRITE = 3"
definition MODE_STAGE_WALK :: nat where "MODE_STAGE_WALK = 4"
definition MODE_AGAINST_ANCHOR :: nat where "MODE_AGAINST_ANCHOR = 5"

lemmas rcpt_mode_defs = MODE_INIT_def MODE_NEXT_def MODE_STAGE_OPEN_def MODE_STAGE_WRITE_def
  MODE_STAGE_WALK_def MODE_AGAINST_ANCHOR_def

type_synonym rcpt_out = "(boxes \<times> bytes option) res"

text \<open>\<open>fixed\<close> argument of the staging modes: an 8-byte name and a 2-byte number.\<close>

definition staging_fields :: "env \<Rightarrow> (bytes \<times> nat) res" where
  "staging_fields E =
     rbind (app_arg E 3) (\<lambda>fixed.
     check (length fixed = 10) ''L20'' (
     rbind (bextract fixed 0 8) (\<lambda>name.
     rbind (extract_uint16 fixed 8) (\<lambda>n. Inr (name, n)))))"

definition mode_init :: "(bytes \<Rightarrow> bytes) \<Rightarrow> boxes \<Rightarrow> env \<Rightarrow> rcpt_out" where
  "mode_init K bs E =
     rbind (app_arg E 3) (\<lambda>fixed.
     check (length fixed = 42) ''L20'' (
     rbind (bextract fixed 0 32) (\<lambda>receipts_root.
     rbind (bextract fixed 32 8) (\<lambda>tx8. rbind (btoi tx8) (\<lambda>tx_index.
     rbind (extract_uint16 fixed 40) (\<lambda>log_index.
     rbind (mpt_key_from_tx_index tx_index) (\<lambda>key.
     let key_nibs = length key * 2 in
     rbind (mpt_init_state receipts_root key key_nibs) (\<lambda>w.
     rbind (mpt7_init_result receipts_root tx_index log_index) (\<lambda>r.
     rbind (walk7_args K E r w 4) (\<lambda>(final_w, final_r).
     rbind (mpt7_log_state final_w final_r) (\<lambda>lg. Inr (bs, Some lg))))))))))))"

definition mode_stage_open :: "boxes \<Rightarrow> env \<Rightarrow> rcpt_out" where
  "mode_stage_open bs E =
     rbind (staging_fields E) (\<lambda>(name, leaf_len).
     rbind (mpt7_stage_open bs name leaf_len) (\<lambda>bs. Inr (bs, None)))"

definition mode_stage_write :: "boxes \<Rightarrow> env \<Rightarrow> rcpt_out" where
  "mode_stage_write bs E =
     rbind (staging_fields E) (\<lambda>(name, offset).
     rbind (app_arg E 4) (\<lambda>chunk.
     rbind (mpt7_stage_write bs name offset chunk) (\<lambda>bs. Inr (bs, None))))"

definition mode_stage_walk :: "(bytes \<Rightarrow> bytes) \<Rightarrow> boxes \<Rightarrow> env \<Rightarrow> nat \<Rightarrow> rcpt_out" where
  "mode_stage_walk K bs E prev_gi =
     rbind (staging_fields E) (\<lambda>(name, leaf_len).
     rbind (mpt7_state_from_prev E prev_gi) (\<lambda>(w, r).
     rbind (r_rstatus r) (\<lambda>rstatus.
     check (rstatus = R_INCOMPLETE) ''L22'' (
     rbind (mpt7_stage_read bs name leaf_len) (\<lambda>node.
     rbind (mpt_walk_node K node w) (\<lambda>(w2, voff, vlen).
     rbind (finalize_if_terminal K w2 r node voff vlen) (\<lambda>r2.
     let bs = mpt7_stage_close bs name in
     rbind (mpt7_log_state w2 r2) (\<lambda>lg. Inr (bs, Some lg)))))))))"

text \<open>\<open>Mpt7ReceiptApp.approval_program\<close> for a \<open>NoOp\<close> call; the result is the boxes and the log, if any.\<close>

definition mpt7_receipt_app :: "(bytes \<Rightarrow> bytes) \<Rightarrow> boxes \<Rightarrow> env \<Rightarrow> rcpt_out" where
  "mpt7_receipt_app K bs E =
     (if env_args E = [] then Inr (bs, None)
      else
        rbind (app_arg E 0) (\<lambda>selector.
        check (selector = RCPT_SELECTOR) ''L11'' (
        rbind (app_arg E 1) (\<lambda>a1. rbind (btoi a1) (\<lambda>mode.
        rbind (app_arg E 2) (\<lambda>a2. rbind (btoi a2) (\<lambda>prev_gi.
        if mode = MODE_INIT then mode_init K bs E
        else if mode = MODE_NEXT then
          rbind (mpt7_state_from_prev E prev_gi) (\<lambda>(w, r).
          rbind (r_rstatus r) (\<lambda>rstatus.
          check (rstatus = R_INCOMPLETE) ''L22'' (
          rbind (walk7_args K E r w 4) (\<lambda>(final_w, final_r).
          rbind (mpt7_log_state final_w final_r) (\<lambda>lg. Inr (bs, Some lg))))))
        else if mode = MODE_STAGE_OPEN then mode_stage_open bs E
        else if mode = MODE_STAGE_WRITE then mode_stage_write bs E
        else check (mode = MODE_STAGE_WALK) ''L20'' (mode_stage_walk K bs E prev_gi))))))))"

section \<open>The hand-off implements the interface\<close>

lemma rcpt_recover_logged:
  assumes "gi < env_index E" and "gi < length (env_group E)"
    and "env_group E ! gi = AppCall (env_app E) (RCPT_SELECTOR # rest) lg" and "mpt7_log_state w r = Inr lg"
  shows "mpt7_state_from_prev E gi = Inr (w, r)"
proof -
  have l: "length w = W_LEN" "length r = R_LEN"
    and lg: "lg = ARC4_RETURN_PREFIX @ low_bytes2 (W_LEN + R_LEN) @ w @ r"
    using assms(4) by (auto simp: mpt7_log_state_def res_simps low_bytes2_def)
  let ?len = "low_bytes2 (W_LEN + R_LEN)"
  have "seg 0 4 lg = ARC4_RETURN_PREFIX" using seg_at [of "[]" 0 ARC4_RETURN_PREFIX 4] by (simp add: lg)
  moreover have "seg 6 W_LEN lg = w"
    using seg_at [of "ARC4_RETURN_PREFIX @ ?len" 6 w W_LEN r] l by (simp add: lg)
  moreover have "seg (6 + W_LEN) R_LEN lg = r"
    using seg_at_end [of "ARC4_RETURN_PREFIX @ ?len @ w" "6 + W_LEN" r R_LEN] l by (simp add: lg)
  moreover have "length lg = LOG_LEN_M7" using l by (simp add: lg LOG_LEN_M7_def)
  ultimately show ?thesis using assms(1-3)
    by (simp add: mpt7_state_from_prev_def gtxn_app_call_def gtxn_arg0_def bextract_def LOG_LEN_M7_def)
qed

interpretation rcpt_handoff:
  log_handoff "\<lambda>(w, r). mpt7_log_state w r" mpt7_state_from_prev env_app RCPT_SELECTOR
proof
  fix gi rest lg and p :: "bytes \<times> bytes" and E :: env
  assume "gi < env_index E" "gi < length (env_group E)"
    "env_group E ! gi = AppCall (env_app E) (RCPT_SELECTOR # rest) lg"
    "(case p of (w, r) \<Rightarrow> mpt7_log_state w r) = Inr lg"
  then show "mpt7_state_from_prev E gi = Inr p"
    using rcpt_recover_logged by (cases p) simp
next
  fix gi and p :: "bytes \<times> bytes" and E :: env
  assume "mpt7_state_from_prev E gi = Inr p"
  then show "gi < env_index E \<and> gi < length (env_group E) \<and>
      (\<exists>rest lg. env_group E ! gi = AppCall (env_app E) (RCPT_SELECTOR # rest) lg)"
    by (auto simp: mpt7_state_from_prev_def res_simps split: prod.splits)
qed

text \<open>
  The deployed verifier \<open>Mpt7AnchoredReceiptApp\<close> (\<open>contracts/receipt/anchored_app.py\<close>): the walk modes of
  the reference driver and \<open>MODE_AGAINST_ANCHOR\<close>, which checks a finished walk against the receipts root
  of an attested record (\<open>mpt7_result_against_anchor\<close> of \<open>contracts/state_anchor/handoff.py\<close>). The anchor
  application is the build-time constant \<open>anchor_id\<close>.
\<close>

definition mpt7_result_against_anchor :: "nat \<Rightarrow> env \<Rightarrow> nat \<Rightarrow> nat \<Rightarrow> nat \<Rightarrow> nat \<Rightarrow> nat \<Rightarrow> log_result res" where
  "mpt7_result_against_anchor anchor_id E gi anchor_gi want_block_number want_tx_index want_log_index =
     rbind (anchor_from_group anchor_id E anchor_gi want_block_number) (\<lambda>a.
     rbind (anchor_receipts_root a) (\<lambda>root.
     mpt7_result_from_group E gi root want_tx_index want_log_index))"

definition mode_stage_walk_anchored :: "(bytes \<Rightarrow> bytes) \<Rightarrow> boxes \<Rightarrow> env \<Rightarrow> nat \<Rightarrow> rcpt_out" where
  "mode_stage_walk_anchored K bs E prev_gi =
     rbind (staging_fields E) (\<lambda>(name, leaf_len).
     rbind (mpt7_state_from_prev E prev_gi) (\<lambda>(w, r).
     rbind (r_rstatus r) (\<lambda>rstatus.
     check (rstatus = R_INCOMPLETE) ''L22'' (
     rbind (mpt7_stage_read bs name leaf_len) (\<lambda>node.
     rbind (mpt_walk_node K node w) (\<lambda>(w2, voff, vlen).
     rbind (finalize_if_terminal_anchored K w2 r node voff vlen) (\<lambda>r2.
     let bs = mpt7_stage_close bs name in
     rbind (mpt7_log_state w2 r2) (\<lambda>lg. Inr (bs, Some lg)))))))))"

definition mode_init_anchored :: "(bytes \<Rightarrow> bytes) \<Rightarrow> boxes \<Rightarrow> env \<Rightarrow> rcpt_out" where
  "mode_init_anchored K bs E =
     rbind (app_arg E 3) (\<lambda>fixed.
     check (length fixed = 42) ''L20'' (
     rbind (bextract fixed 0 32) (\<lambda>receipts_root.
     rbind (bextract fixed 32 8) (\<lambda>tx8. rbind (btoi tx8) (\<lambda>tx_index.
     rbind (extract_uint16 fixed 40) (\<lambda>log_index.
     rbind (mpt_key_from_tx_index tx_index) (\<lambda>key.
     let key_nibs = length key * 2 in
     rbind (mpt_init_state receipts_root key key_nibs) (\<lambda>w.
     rbind (mpt7_init_result receipts_root tx_index log_index) (\<lambda>r.
     rbind (walk7_anchored K r w (drop 4 (env_args E))) (\<lambda>(final_w, final_r).
     rbind (mpt7_log_state final_w final_r) (\<lambda>lg. Inr (bs, Some lg))))))))))))"

definition mode_against_anchor :: "nat \<Rightarrow> boxes \<Rightarrow> env \<Rightarrow> nat \<Rightarrow> rcpt_out" where
  "mode_against_anchor anchor_id bs E prev_gi =
     rbind (app_arg E 3) (\<lambda>fixed.
     check (length fixed = 26) ''L20'' (
     rbind (bextract fixed 0 8) (\<lambda>f0. rbind (btoi f0) (\<lambda>anchor_gi.
     rbind (bextract fixed 8 8) (\<lambda>f1. rbind (btoi f1) (\<lambda>want_block_number.
     rbind (bextract fixed 16 8) (\<lambda>f2. rbind (btoi f2) (\<lambda>want_tx_index.
     rbind (extract_uint16 fixed 24) (\<lambda>want_log_index.
     rbind (mpt7_result_against_anchor anchor_id E prev_gi anchor_gi want_block_number want_tx_index want_log_index)
     (\<lambda>(rstatus, address, n_topics, topics128, data_hash, data_len, status, tx_type).
     let out = itob rstatus @ address @ itob n_topics @ topics128 @ data_hash
               @ itob data_len @ itob status @ itob tx_type in
     Inr (bs, Some (ARC4_RETURN_PREFIX @ out))))))))))))"

definition mpt7_anchored_app :: "(bytes \<Rightarrow> bytes) \<Rightarrow> nat \<Rightarrow> boxes \<Rightarrow> env \<Rightarrow> rcpt_out" where
  "mpt7_anchored_app K anchor_id bs E =
     (if env_args E = [] then Inr (bs, None)
      else
        rbind (app_arg E 1) (\<lambda>a1. rbind (btoi a1) (\<lambda>mode.
        rbind (app_arg E 2) (\<lambda>a2. rbind (btoi a2) (\<lambda>prev_gi.
        if mode = MODE_INIT then mode_init_anchored K bs E
        else if mode = MODE_NEXT then
          rbind (mpt7_state_from_prev E prev_gi) (\<lambda>(w, r).
          rbind (walk7_anchored K r w (drop 4 (env_args E))) (\<lambda>(final_w, final_r).
          rbind (mpt7_log_state final_w final_r) (\<lambda>lg. Inr (bs, Some lg))))
        else if mode = MODE_STAGE_OPEN then mode_stage_open bs E
        else if mode = MODE_STAGE_WRITE then mode_stage_write bs E
        else if mode = MODE_STAGE_WALK then mode_stage_walk_anchored K bs E prev_gi
        else check (mode = MODE_AGAINST_ANCHOR) ''L20'' (mode_against_anchor anchor_id bs E prev_gi))))))"

lemma stage_walk_anchored_eq: "mode_stage_walk_anchored K bs E gi = mode_stage_walk K bs E gi"
  by (simp only: mode_stage_walk_anchored_def mode_stage_walk_def finalize_anchored_eq)

lemma init_anchored_eq: "mode_init_anchored K bs E = mode_init K bs E"
  by (simp only: mode_init_anchored_def mode_init_def walk7_args_def walk7_anchored_eq)

end
