(* ===== verification/Rcpt_Inv.thy ===== *)
theory Rcpt_Inv
  imports Rcpt_App
begin

text \<open>
  The receipt verifiers as state machines over the calls of one atomic group. Both drivers log only
  states reached by \<open>rcpt_call\<close> steps (or logs that cannot be recovered as a state), so an invariant of
  the steps holds of every recovered (W, R).
\<close>

inductive rcpt_call :: "(bytes \<Rightarrow> bytes) \<Rightarrow> env \<Rightarrow> bytes list \<Rightarrow> bytes \<Rightarrow> bytes \<Rightarrow> bool" for K E nodes where
  init: "length root = 32 \<Longrightarrow> tx \<le> 0xFFFFFF \<Longrightarrow> li \<le> 0xFFFF \<Longrightarrow> mpt_key_from_tx_index tx = Inr key \<Longrightarrow>
    mpt_init_state root key (length key * 2) = Inr w \<Longrightarrow>
    walk7 K (r_encode (r_initial root tx li)) w nodes = Inr (w', r') \<Longrightarrow> rcpt_call K E nodes w' r'"
| resume: "mpt7_state_from_prev E gi = Inr (w, r) \<Longrightarrow> walk7 K r w nodes = Inr (w', r') \<Longrightarrow> rcpt_call K E nodes w' r'"

text \<open>The nodes a call hashes: its arguments, or the contents of the staging box.\<close>

definition rcpt_nodes :: "boxes \<Rightarrow> bytes list \<Rightarrow> bytes list" where
  "rcpt_nodes bs args =
     (if btoi (args ! 1) = Inr MODE_STAGE_WALK then
        (case mpt7_stage_read bs (seg 0 8 (args ! 3)) (be_val (seg 8 2 (args ! 3))) of Inl _ \<Rightarrow> [] | Inr leaf \<Rightarrow> [leaf])
      else drop 4 args)"

lemma mode_init_call:
  assumes "mode_init K bs E = Inr (bs', lo)"
  obtains w r lg where "rcpt_call K E (drop 4 (env_args E)) w r" "mpt7_log_state w r = Inr lg" "lo = Some lg"
proof -
  let ?f = "env_args E ! 3"
  let ?root = "seg 0 32 ?f" and ?tx = "be_val (seg 32 8 ?f)" and ?li = "be_val (seg 40 2 ?f)"
  from assms obtain key w0 w r lg where l: "length ?f = 42" and i: "?tx \<le> 0xFFFFFF" "?li \<le> 0xFFFF"
    "mpt_key_from_tx_index ?tx = Inr key" "mpt_init_state ?root key (length key * 2) = Inr w0"
    "walk7 K (r_encode (r_initial ?root ?tx ?li)) w0 (drop 4 (env_args E)) = Inr (w, r)"
    and lg: "mpt7_log_state w r = Inr lg" "lo = Some lg"
    unfolding mode_init_def walk7_args_def Let_def by (auto simp: init_result_Inr res_simps)
  have "length ?root = 32" using l by simp
  note i = this i
  show ?thesis by (rule that [OF rcpt_call.init [OF i] lg])
qed

lemma walk7_one:
  assumes "mpt_walk_node K node w = Inr (w2, off, n)" and "finalize_if_terminal K w2 r node off n = Inr r2"
  shows "walk7 K r w [node] = Inr (w2, r2)"
  using assms by (auto simp: mpt_walk_node_def res_simps)

lemma mode_stage_walk_call:
  assumes "mode_stage_walk K bs E gi = Inr (bs', lo)" and m: "btoi (env_args E ! 1) = Inr MODE_STAGE_WALK"
  obtains w r lg where "rcpt_call K E (rcpt_nodes bs (env_args E)) w r" "mpt7_log_state w r = Inr lg" "lo = Some lg"
proof -
  from assms(1) obtain node w0 r0 w2 off n r2 lg where
    a: "mpt7_stage_read bs (seg 0 8 (env_args E ! 3)) (be_val (seg 8 2 (env_args E ! 3))) = Inr node"
      "mpt7_state_from_prev E gi = Inr (w0, r0)" "mpt_walk_node K node w0 = Inr (w2, off, n)"
      "finalize_if_terminal K w2 r0 node off n = Inr r2"
    and lg: "mpt7_log_state w2 r2 = Inr lg" "lo = Some lg"
    unfolding mode_stage_walk_def staging_fields_def Let_def by (auto simp: res_simps)
  have "rcpt_nodes bs (env_args E) = [node]" using m a(1) by (simp add: rcpt_nodes_def)
  then have "rcpt_call K E (rcpt_nodes bs (env_args E)) w2 r2"
    using rcpt_call.resume [OF a(2) walk7_one [OF a(3,4)]] by simp
  then show ?thesis by (rule that [OF _ lg])
qed

definition logged_bytes :: "bytes option \<Rightarrow> bytes" where
  "logged_bytes lo = (case lo of None \<Rightarrow> [] | Some lg \<Rightarrow> lg)"

text \<open>What a call of either application logs.\<close>

definition rcpt_logs :: "(bytes \<Rightarrow> bytes) \<Rightarrow> boxes \<Rightarrow> env \<Rightarrow> bytes option \<Rightarrow> bool" where
  "rcpt_logs K bs E lo \<longleftrightarrow>
     (\<exists>w r. rcpt_call K E (rcpt_nodes bs (env_args E)) w r \<and> mpt7_log_state w r = Inr (logged_bytes lo)) \<or>
     length (logged_bytes lo) \<noteq> LOG_LEN_M7"

lemma logs_nothing: "rcpt_logs K bs E None"
  by (simp add: rcpt_logs_def logged_bytes_def LOG_LEN_M7_def)

lemma stage_modes_log_nothing:
  "mode_stage_open bs E = Inr (bs', lo) \<Longrightarrow> lo = None" "mode_stage_write bs E = Inr (bs', lo) \<Longrightarrow> lo = None"
  unfolding mode_stage_open_def mode_stage_write_def by (auto simp: res_simps)

lemma mode_init_logs:
  assumes "mode_init K bs E = Inr (bs', lo)" and "btoi (env_args E ! 1) = Inr MODE_INIT"
  shows "rcpt_logs K bs E lo"
proof -
  have "rcpt_nodes bs (env_args E) = drop 4 (env_args E)" using assms(2) by (simp add: rcpt_nodes_def rcpt_mode_defs)
  then show ?thesis using mode_init_call [OF assms(1)] by (metis logged_bytes_def option.simps(5) rcpt_logs_def)
qed

lemma mode_next_logs:
  assumes "mpt7_state_from_prev E gi = Inr (w, r)" and "walk7 K r w (drop 4 (env_args E)) = Inr (w', r')"
    and "mpt7_log_state w' r' = Inr lg" and "btoi (env_args E ! 1) = Inr MODE_NEXT"
  shows "rcpt_logs K bs E (Some lg)"
proof -
  have "rcpt_nodes bs (env_args E) = drop 4 (env_args E)" using assms(4) by (simp add: rcpt_nodes_def rcpt_mode_defs)
  then show ?thesis using rcpt_call.resume [OF assms(1,2)] assms(3) by (auto simp: rcpt_logs_def logged_bytes_def)
qed

lemma mode_stage_walk_logs:
  assumes "mode_stage_walk K bs E gi = Inr (bs', lo)" and "btoi (env_args E ! 1) = Inr MODE_STAGE_WALK"
  shows "rcpt_logs K bs E lo"
  using mode_stage_walk_call [OF assms] by (metis logged_bytes_def option.simps(5) rcpt_logs_def)

lemma receipt_app_logs:
  assumes "mpt7_receipt_app K bs E = Inr (bs', lo)"
  shows "rcpt_logs K bs E lo"
proof (cases "env_args E = []")
  case True
  then show ?thesis using assms logs_nothing by (simp add: mpt7_receipt_app_def)
next
  case False
  with assms obtain mode gi where m: "btoi (env_args E ! 1) = Inr mode"
    and r: "(if mode = MODE_INIT then mode_init K bs E
        else if mode = MODE_NEXT then
          rbind (mpt7_state_from_prev E gi) (\<lambda>(w, r).
          rbind (r_rstatus r) (\<lambda>rstatus.
          check (rstatus = R_INCOMPLETE) ''L22'' (
          rbind (walk7_args K E r w 4) (\<lambda>(final_w, final_r).
          rbind (mpt7_log_state final_w final_r) (\<lambda>lg. Inr (bs, Some lg))))))
        else if mode = MODE_STAGE_OPEN then mode_stage_open bs E
        else if mode = MODE_STAGE_WRITE then mode_stage_write bs E
        else check (mode = MODE_STAGE_WALK) ''L20'' (mode_stage_walk K bs E gi)) = Inr (bs', lo)"
    unfolding mpt7_receipt_app_def by (auto simp: res_simps simp del: One_nat_def cong: if_cong)
  consider "mode = MODE_INIT" | "mode = MODE_NEXT" | "mode = MODE_STAGE_OPEN" | "mode = MODE_STAGE_WRITE" | "mode = MODE_STAGE_WALK"
    using r by (auto simp: res_simps split: if_split_asm)
  then show ?thesis
  proof cases
    case 1
    then show ?thesis using r m mode_init_logs by simp
  next
    case 2
    then have "MODE_NEXT \<noteq> MODE_INIT" by (simp add: rcpt_mode_defs)
    with 2 r obtain w r w' r' lg where "mpt7_state_from_prev E gi = Inr (w, r)" "walk7 K r w (drop 4 (env_args E)) = Inr (w', r')"
      "mpt7_log_state w' r' = Inr lg" "lo = Some lg" by (auto simp: walk7_args_def res_simps)
    then show ?thesis using mode_next_logs m 2 by blast
  next
    case 3
    then show ?thesis using r stage_modes_log_nothing(1) [of bs E bs' lo] logs_nothing by (auto simp: rcpt_mode_defs)
  next
    case 4
    then show ?thesis using r stage_modes_log_nothing(2) [of bs E bs' lo] logs_nothing by (auto simp: rcpt_mode_defs)
  next
    case 5
    then show ?thesis using r m mode_stage_walk_logs by (auto simp: rcpt_mode_defs)
  qed
qed

lemma result_widths:
  "mpt7_result_from_group E gi root tx li = Inr (rs, addr, nt, topics, dh, dl, st, ty) \<Longrightarrow>
   length addr = 20 \<and> length topics = 128 \<and> length dh = 32"
  unfolding mpt7_result_from_group_def r_address_def r_topics_def r_data_hash_def by (auto simp: res_simps)

lemma against_anchor_logs:
  assumes "mode_against_anchor anchor_id bs E gi = Inr (bs', lo)"
  shows "rcpt_logs K bs E lo"
proof -
  from assms obtain agi bn tx li rs addr nt topics dh dl st ty where
    r: "mpt7_result_against_anchor anchor_id E gi agi bn tx li = Inr (rs, addr, nt, topics, dh, dl, st, ty)"
    and lo: "lo = Some (ARC4_RETURN_PREFIX @ itob rs @ addr @ itob nt @ topics @ dh @ itob dl @ itob st @ itob ty)"
    unfolding mode_against_anchor_def Let_def by (auto simp: res_simps)
  have "length addr = 20 \<and> length topics = 128 \<and> length dh = 32"
    using r result_widths unfolding mpt7_result_against_anchor_def by (auto simp: res_simps)
  then have "length (logged_bytes lo) = 224" by (simp add: logged_bytes_def lo)
  then show ?thesis by (simp add: rcpt_logs_def LOG_LEN_M7_def W_LEN_def R_LEN_def)
qed

lemma anchored_app_logs:
  assumes "mpt7_anchored_app K anchor_id bs E = Inr (bs', lo)"
  shows "rcpt_logs K bs E lo"
proof (cases "env_args E = []")
  case True
  then show ?thesis using assms logs_nothing by (simp add: mpt7_anchored_app_def)
next
  case False
  with assms obtain mode gi where m: "btoi (env_args E ! 1) = Inr mode"
    and r: "(if mode = MODE_INIT then mode_init_anchored K bs E
        else if mode = MODE_NEXT then
          rbind (mpt7_state_from_prev E gi) (\<lambda>(w, r).
          rbind (walk7_anchored K r w (drop 4 (env_args E))) (\<lambda>(final_w, final_r).
          rbind (mpt7_log_state final_w final_r) (\<lambda>lg. Inr (bs, Some lg))))
        else if mode = MODE_STAGE_OPEN then mode_stage_open bs E
        else if mode = MODE_STAGE_WRITE then mode_stage_write bs E
        else if mode = MODE_STAGE_WALK then mode_stage_walk_anchored K bs E gi
        else check (mode = MODE_AGAINST_ANCHOR) ''L20'' (mode_against_anchor anchor_id bs E gi)) = Inr (bs', lo)"
    unfolding mpt7_anchored_app_def by (auto simp: res_simps simp del: One_nat_def cong: if_cong)
  consider "mode = MODE_INIT" | "mode = MODE_NEXT" | "mode = MODE_STAGE_OPEN" | "mode = MODE_STAGE_WRITE"
    | "mode = MODE_STAGE_WALK" | "mode = MODE_AGAINST_ANCHOR"
    using r by (auto simp: res_simps split: if_split_asm)
  then show ?thesis
  proof cases
    case 1
    then show ?thesis using r m mode_init_logs by (simp add: init_anchored_eq)
  next
    case 2
    then have "MODE_NEXT \<noteq> MODE_INIT" by (simp add: rcpt_mode_defs)
    with 2 r obtain w r w' r' lg where "mpt7_state_from_prev E gi = Inr (w, r)" "walk7 K r w (drop 4 (env_args E)) = Inr (w', r')"
      "mpt7_log_state w' r' = Inr lg" "lo = Some lg" by (auto simp: walk7_anchored_eq res_simps)
    then show ?thesis using mode_next_logs m 2 by blast
  next
    case 3
    then show ?thesis using r stage_modes_log_nothing(1) [of bs E bs' lo] logs_nothing by (auto simp: rcpt_mode_defs)
  next
    case 4
    then show ?thesis using r stage_modes_log_nothing(2) [of bs E bs' lo] logs_nothing by (auto simp: rcpt_mode_defs)
  next
    case 5
    then show ?thesis using r m mode_stage_walk_logs by (auto simp: rcpt_mode_defs stage_walk_anchored_eq)
  next
    case 6
    then show ?thesis using r against_anchor_logs by (auto simp: rcpt_mode_defs)
  qed
qed

section \<open>Invariants of a group\<close>

text \<open>
  Every earlier \<open>RCP1\<close> call of the trusted application in the group logged what the application \<open>A\<close> logs
  in its place, whatever the boxes were at that point; \<open>N\<close> collects the nodes those calls hashed.
\<close>

definition rcpt_executed :: "(boxes \<Rightarrow> env \<Rightarrow> rcpt_out) \<Rightarrow> bytes set \<Rightarrow> env \<Rightarrow> bool" where
  "rcpt_executed A N E \<longleftrightarrow> (\<forall>i rest lg. i < env_index E \<longrightarrow> i < length (env_group E) \<longrightarrow>
     env_group E ! i = AppCall (env_app E) (RCPT_SELECTOR # rest) lg \<longrightarrow>
     (\<exists>bs bs' lo. A bs (E\<lparr>env_index := i, env_args := RCPT_SELECTOR # rest\<rparr>) = Inr (bs', lo) \<and>
        lg = logged_bytes lo \<and> set (rcpt_nodes bs (RCPT_SELECTOR # rest)) \<subseteq> N))"

definition rcpt_verifier :: "(bytes \<Rightarrow> bytes) \<Rightarrow> (boxes \<Rightarrow> env \<Rightarrow> rcpt_out) \<Rightarrow> bool" where
  "rcpt_verifier K A \<longleftrightarrow> (\<forall>bs E bs' lo. A bs E = Inr (bs', lo) \<longrightarrow> rcpt_logs K bs E lo)"

lemma verifiers: "rcpt_verifier K (mpt7_receipt_app K)" "rcpt_verifier K (mpt7_anchored_app K anchor_id)"
  using receipt_app_logs anchored_app_logs by (auto simp: rcpt_verifier_def)

lemma rcpt_group_invariant:
  assumes A: "rcpt_verifier K A" and ex: "rcpt_executed A N E"
    and step: "\<And>E' nodes w r. set nodes \<subseteq> N \<Longrightarrow>
        (\<And>gi w0 r0. mpt7_state_from_prev E' gi = Inr (w0, r0) \<Longrightarrow> Q w0 r0) \<Longrightarrow> rcpt_call K E' nodes w r \<Longrightarrow> Q w r"
  shows "mpt7_state_from_prev E gi = Inr (w, r) \<Longrightarrow> Q w r"
proof -
  have all: "(\<exists>q. (case q of (w, r) \<Rightarrow> mpt7_log_state w r) = Inr lg \<and> (case q of (w, r) \<Rightarrow> Q w r)) \<or>
      length lg \<noteq> LOG_LEN_M7"
    if "i < env_index E" "i < length (env_group E)" "env_group E ! i = AppCall (env_app E) (RCPT_SELECTOR # rest) lg"
    for i rest lg
    using that
  proof (induction i arbitrary: rest lg rule: less_induct)
    case (less i)
    let ?E = "E\<lparr>env_index := i, env_args := RCPT_SELECTOR # rest\<rparr>"
    from ex less.prems obtain bs bs' lo where run: "A bs ?E = Inr (bs', lo)" and lg: "lg = logged_bytes lo"
      and N: "set (rcpt_nodes bs (RCPT_SELECTOR # rest)) \<subseteq> N" unfolding rcpt_executed_def by blast
    have "rcpt_logs K bs ?E lo" using A run by (simp add: rcpt_verifier_def)
    then consider w r where "rcpt_call K ?E (rcpt_nodes bs (RCPT_SELECTOR # rest)) w r" "mpt7_log_state w r = Inr lg"
      | "length lg \<noteq> LOG_LEN_M7" unfolding rcpt_logs_def lg by auto
    then show ?case
    proof cases
      case 1
      have rec: "Q w0 r0" if r: "mpt7_state_from_prev ?E gi = Inr (w0, r0)" for gi w0 r0
      proof -
        have "case (w0, r0) of (w, r) \<Rightarrow> Q w r"
        proof (rule rcpt_handoff.recover_invariant_or [OF r])
          fix j rest' lg'
          assume j: "j < env_index ?E" "j < length (env_group ?E)"
            "env_group ?E ! j = AppCall (env_app ?E) (RCPT_SELECTOR # rest') lg'"
          then have "(\<exists>q. (case q of (w, r) \<Rightarrow> mpt7_log_state w r) = Inr lg' \<and> (case q of (w, r) \<Rightarrow> Q w r)) \<or>
              length lg' \<noteq> LOG_LEN_M7" using less.prems by (intro less.IH) simp_all
          moreover have "length lg' \<noteq> LOG_LEN_M7 \<Longrightarrow> \<forall>p. mpt7_state_from_prev ?E j \<noteq> Inr p"
            using j by (auto simp: mpt7_state_from_prev_def res_simps)
          ultimately show "(\<exists>q. (case q of (w, r) \<Rightarrow> mpt7_log_state w r) = Inr lg' \<and> (case q of (w, r) \<Rightarrow> Q w r)) \<or>
              (\<forall>p. mpt7_state_from_prev ?E j \<noteq> Inr p)" by blast
        qed
        then show ?thesis by simp
      qed
      from step [OF N rec 1(1)] 1(2) show ?thesis by (intro disjI1 exI [of _ "(w, r)"]) simp
    qed simp
  qed
  assume r: "mpt7_state_from_prev E gi = Inr (w, r)"
  have "case (w, r) of (w, r) \<Rightarrow> Q w r"
  proof (rule rcpt_handoff.recover_invariant_or [OF r])
    fix j rest' lg'
    assume j: "j < env_index E" "j < length (env_group E)" "env_group E ! j = AppCall (env_app E) (RCPT_SELECTOR # rest') lg'"
    have "length lg' \<noteq> LOG_LEN_M7 \<Longrightarrow> \<forall>p. mpt7_state_from_prev E j \<noteq> Inr p"
      using j by (auto simp: mpt7_state_from_prev_def res_simps)
    with all [OF j] show "(\<exists>q. (case q of (w, r) \<Rightarrow> mpt7_log_state w r) = Inr lg' \<and> (case q of (w, r) \<Rightarrow> Q w r)) \<or>
        (\<forall>p. mpt7_state_from_prev E j \<noteq> Inr p)" by blast
  qed
  then show "Q w r" by simp
qed

end
