(* ===== verification/Rcpt_Sound.thy ===== *)
theory Rcpt_Sound
  imports Rcpt_Inv MPT_Sound
begin

text \<open>
  Soundness of receipt proofs: every result an earlier call of the group logged for the wanted
  receipts root, transaction and log is either undecided, with a walk on the path of the transaction's
  key, or carries the log the receipts trie holds there.
\<close>

section \<open>Specification\<close>

definition tx_key :: "nat \<Rightarrow> bytes" where
  "tx_key tx = (case mpt_key_from_tx_index tx of Inr key \<Rightarrow> key | Inl _ \<Rightarrow> [])"

definition no_log :: "nat \<Rightarrow> nat \<Rightarrow> nat \<Rightarrow> log_result" where
  "no_log rs status ty = (rs, replicate 20 0, 0, replicate 128 0, replicate 32 0, 0, status, ty)"

definition receipt_spec :: "(bytes \<Rightarrow> bytes) \<Rightarrow> trie \<Rightarrow> nat \<Rightarrow> nat \<Rightarrow> eth_receipt \<Rightarrow> log_result" where
  "receipt_spec K T tx li rc =
     (if fst (trie_lookup T (nibs (tx_key tx))) \<noteq> WALK_INCLUDED then no_log R_ABSENT 0 0
      else if er_logs rc = [] then no_log R_ZERO_LOGS (er_status rc) (er_type rc)
      else if length (er_logs rc) \<le> li then no_log R_NO_SUCH_LOG (er_status rc) (er_type rc)
      else let l = er_logs rc ! li in
        (R_INCLUDED, el_address l, length (el_topics l), topics128_of (el_topics l),
         K (el_data l), length (el_data l), er_status rc, er_type rc))"

lemmas spec_defs = receipt_spec_def no_log_def r_status_defs

text \<open>
  The receipts trie holds receipt encodings; \<open>rc\<close> is the receipt under the transaction's key, if any. Neither
  the size of the trie's nodes nor the number of logs of its receipts is bounded.
\<close>

definition rcpt_world :: "(bytes \<Rightarrow> bytes) \<Rightarrow> trie \<Rightarrow> nat \<Rightarrow> eth_receipt \<Rightarrow> bytes set \<Rightarrow> bool" where
  "rcpt_world K T tx rc N \<longleftrightarrow>
     (\<forall>x. length (K x) = 32) \<and> wf_trie T \<and> T \<noteq> TNull \<and>
     inj_on K (N \<union> trie_nodes K T) \<and>
     (\<forall>v. trie_lookup T (nibs (tx_key tx)) = (WALK_INCLUDED, v) \<longrightarrow> v = receipt_enc rc \<and> receipt_wf rc)"

definition observed :: "result \<Rightarrow> log_result" where
  "observed a = (rr_rstatus a, rr_address a, rr_n_topics a, rr_topics a, rr_data_hash a, rr_data_len a,
     rr_status a, rr_tx_type a)"

definition r_matches :: "bytes \<Rightarrow> nat \<Rightarrow> nat \<Rightarrow> result \<Rightarrow> bool" where
  "r_matches root tx li a \<longleftrightarrow> rr_receipts_root a = root \<and> rr_tx_index a = tx \<and> rr_log_index a = li"

definition rstage :: "(bytes \<Rightarrow> bytes) \<Rightarrow> trie \<Rightarrow> nat \<Rightarrow> nat \<Rightarrow> eth_receipt \<Rightarrow> bytes \<Rightarrow> result \<Rightarrow> bool" where
  "rstage K T tx li rc w a \<longleftrightarrow>
     (rr_rstatus a = R_INCOMPLETE \<longrightarrow> on_path K T (nibs (tx_key tx)) w) \<and>
     (rr_rstatus a \<noteq> R_INCOMPLETE \<longrightarrow> w_status w \<noteq> Inr WALK_CONTINUE \<and> observed a = receipt_spec K T tx li rc)"

definition rcpt_inv ::
  "(bytes \<Rightarrow> bytes) \<Rightarrow> trie \<Rightarrow> nat \<Rightarrow> nat \<Rightarrow> eth_receipt \<Rightarrow> bytes set \<Rightarrow> bytes \<Rightarrow> bytes \<Rightarrow> bool" where
  "rcpt_inv K T tx li rc N w r \<longleftrightarrow> (\<exists>a. r = r_encode a \<and> r_ok a \<and>
     (rcpt_world K T tx rc N \<and> r_matches (K (node_enc K T)) tx li a \<longrightarrow> rstage K T tx li rc w a))"

section \<open>Finalization on the fields\<close>

lemma with_terminal_Inr:
  assumes "r_ok a" and "r_with_terminal (r_encode a) rs ws ty st gas addr nt topics dh dl nl = Inr r'"
  shows "r' = r_encode (r_final rs ws ty st gas addr nt topics dh dl nl a) \<and>
    r_ok (r_final rs ws ty st gas addr nt topics dh dl nl a)"
proof -
  have l: "length gas = 8" "length addr = 20" "length topics = 128" "length dh = 32"
    using assms(2) by (auto simp: r_with_terminal_def res_simps)
  show ?thesis using with_terminal_encode [OF assms(1) l] assms(2) r_ok_final [OF assms(1) l] by simp
qed

lemma r_final_inputs [simp]:
  "rr_receipts_root (r_final rs ws ty st gas addr nt topics dh dl nl a) = rr_receipts_root a"
  "rr_tx_index (r_final rs ws ty st gas addr nt topics dh dl nl a) = rr_tx_index a"
  "rr_log_index (r_final rs ws ty st gas addr nt topics dh dl nl a) = rr_log_index a"
  by (simp_all add: r_final_def)

text \<open>A closing walk leaves a decided result about the same inputs.\<close>

lemma finalize_shape:
  assumes a: "r_ok a" and s: "w_status w = Inr s" "s \<noteq> WALK_CONTINUE"
    and f: "finalize_if_terminal K w (r_encode a) node off n = Inr r'"
  obtains a' where "r' = r_encode a'" "r_ok a'" "rr_rstatus a' \<noteq> R_INCOMPLETE"
    "rr_receipts_root a' = rr_receipts_root a" "rr_tx_index a' = rr_tx_index a" "rr_log_index a' = rr_log_index a"
proof -
  from f s obtain rs ty st gas addr nt topics dh dl nl where
    "r_with_terminal (r_encode a) rs s ty st gas addr nt topics dh dl nl = Inr r'" "rs \<in> {R_INCLUDED, R_ABSENT, R_NO_SUCH_LOG, R_ZERO_LOGS}"
    unfolding finalize_if_terminal_def by (auto simp: res_simps split: if_split_asm)
  then show ?thesis using with_terminal_Inr [OF a]
    by (intro that [of "r_final rs s ty st gas addr nt topics dh dl nl a"]) (auto simp: r_final_def r_status_defs)
qed

lemma terminal_status:
  "trie_lookup T k = (s, v) \<Longrightarrow> s = WALK_INCLUDED \<or> s = WALK_ABSENT_EMPTY_SLOT \<or> s = WALK_ABSENT_EXT_DIVERGE \<or>
     s = WALK_ABSENT_LEAF_DIVERGE \<or> s = WALK_ABSENT_BRANCH_TERM"
  by (induction T k rule: trie_lookup.induct) (auto split: if_splits)

lemma observed_final: "observed (r_final rs ws ty st gas addr nt topics dh dl nl a) =
    (rs mod 256, addr, nt mod 256, topics, dh, dl mod 256 ^ 4, st mod 256, ty mod 256)"
  by (simp add: observed_def r_final_def)

lemma terminal_record:
  assumes "F = r_with_terminal (r_encode a) rs ws ty st gas addr nt topics dh dl nl" and "r_ok a"
    and "length gas = 8" "length addr = 20" "length topics = 128" "length dh = 32"
    and "(rs mod 256, addr, nt mod 256, topics, dh, dl mod 256 ^ 4, st mod 256, ty mod 256) = out"
  shows "\<exists>a'. F = Inr (r_encode a') \<and> r_ok a' \<and> observed a' = out"
  using with_terminal_encode [OF assms(2-6)] r_ok_final [OF assms(2-6)] assms(1,7)
  by (intro exI [of _ "r_final rs ws ty st gas addr nt topics dh dl nl a"]) (simp add: observed_final)

text \<open>Finalization after a walk that decided the transaction's key: the span it decodes holds the receipt.\<close>

lemma decided_receipt:
  assumes W: "rcpt_world K T tx rc N" and d: "decided T (nibs (tx_key tx)) w node off n"
    and s: "w_status w = Inr WALK_INCLUDED"
  obtains pre post where "node = pre @ receipt_enc rc @ post" "off = length pre" "n = length (receipt_enc rc)" "receipt_wf rc"
proof -
  note look = decided_status [OF d s]
  have fit: "off + n \<le> length node" using decided_span [OF d] s by simp
  have v: "seg off n node = receipt_enc rc" and wf: "receipt_wf rc" using W look by (auto simp: rcpt_world_def)
  have dn: "node = take off node @ receipt_enc rc @ drop (off + n) node"
    using v by (metis add.commute append_take_drop_id drop_drop seg_def)
  have len: "length (receipt_enc rc) = n" using v length_seg [OF fit] by simp
  show ?thesis by (rule that [OF dn _ _ wf]) (use fit len in simp_all)
qed

lemma finalize_total:
  assumes W: "rcpt_world K T tx rc N" and a: "r_ok a" "rr_log_index a = li"
    and d: "decided T (nibs (tx_key tx)) w node off n" and lim: "length node \<le> max_bytes"
    and cap: "fst (trie_lookup T (nibs (tx_key tx))) = WALK_INCLUDED \<Longrightarrow> length (er_logs rc) \<le> MAX_LOGS_T1T2"
  shows "\<exists>a'. finalize_if_terminal K w (r_encode a) node off n = Inr (r_encode a') \<and> r_ok a' \<and>
    observed a' = receipt_spec K T tx li rc"
proof -
  obtain s where s: "w_status w = Inr s" using d by (auto simp: decided_def w_encode_get)
  note look = decided_status [OF d s]
  have li: "r_log_index (r_encode a) = Inr li" using a by (simp add: r_encode_get)
  have z: "bzero 20 = Inr (replicate 20 0)" "bzero 128 = Inr (replicate 128 0)" "bzero 32 = Inr (replicate 32 0)"
    "bzero 8 = Inr (replicate 8 0)" by (simp_all add: bzero_def max_bytes_def)
  note fd = finalize_if_terminal_def [of K w "r_encode a" node off n] s z li rbind_Inr
  show ?thesis
  proof (cases "s = WALK_INCLUDED")
    case False
    then have "finalize_if_terminal K w (r_encode a) node off n = r_with_terminal (r_encode a) R_ABSENT s 0 0
        (replicate 8 0) (replicate 20 0) 0 (replicate 128 0) (replicate 32 0) 0 0"
      using look terminal_status [of T "nibs (tx_key tx)" s] unfolding fd by (cases "trie_lookup T (nibs (tx_key tx))") auto
    then show ?thesis by (rule terminal_record [OF _ a(1)]) (use False look in \<open>simp_all add: spec_defs\<close>)
  next
    case True
    have inc: "fst (trie_lookup T (nibs (tx_key tx))) = WALK_INCLUDED" using look True by simp
    obtain pre post where dn: "node = pre @ receipt_enc rc @ post" "off = length pre" "n = length (receipt_enc rc)"
      and wf: "receipt_wf rc" by (rule decided_receipt [OF W d s [unfolded True]])
    have ok: "receipt_ok rc" using wf cap [OF inc] by (simp add: receipt_ok_wf)
    obtain table where body: "mpt7_receipt_body node off n =
        Inr (er_type rc, er_status rc, be_bytes 8 (er_gas rc), table, length (er_logs rc))"
      and logs: "logs_in node table (er_logs rc)"
      using receipt_body_enc [OF dn(1) ok lim] by (auto simp: dn(2,3))
    have m: "er_type rc mod 256 = er_type rc" "er_status rc mod 256 = er_status rc" using ok by (simp_all add: receipt_ok_def)
    have cont: "s \<noteq> WALK_CONTINUE" using look by simp
    consider (zero) "er_logs rc = []" | (beyond) "er_logs rc \<noteq> []" "length (er_logs rc) \<le> li" | (log) "li < length (er_logs rc)"
      by linarith
    then show ?thesis
    proof cases
      case zero
      then have "finalize_if_terminal K w (r_encode a) node off n = r_with_terminal (r_encode a) R_ZERO_LOGS s (er_type rc)
          (er_status rc) (be_bytes 8 (er_gas rc)) (replicate 20 0) 0 (replicate 128 0) (replicate 32 0) 0 0"
        using body cont unfolding fd by (simp add: True)
      then show ?thesis by (rule terminal_record [OF _ a(1)]) (use zero inc m in \<open>simp_all add: spec_defs\<close>)
    next
      case beyond
      then have "finalize_if_terminal K w (r_encode a) node off n = r_with_terminal (r_encode a) R_NO_SUCH_LOG s (er_type rc)
          (er_status rc) (be_bytes 8 (er_gas rc)) (replicate 20 0) 0 (replicate 128 0) (replicate 32 0) 0 (length (er_logs rc))"
        using body cont unfolding fd by (simp add: True)
      then show ?thesis by (rule terminal_record [OF _ a(1)]) (use beyond inc m in \<open>simp_all add: spec_defs\<close>)
    next
      case log
      let ?l = "er_logs rc ! li"
      have lok: "log_ok ?l" using ok log by (simp add: receipt_ok_def)
      have nz: "er_logs rc \<noteq> []" "\<not> length (er_logs rc) \<le> li" using log by auto
      have "mpt7_log_at K node table li = Inr (el_address ?l, length (el_topics ?l), topics128_of (el_topics ?l),
          K (el_data ?l), length (el_data ?l))" by (rule log_at_enc [OF logs log lok lim])
      then have t: "finalize_if_terminal K w (r_encode a) node off n = r_with_terminal (r_encode a) R_INCLUDED s (er_type rc)
          (er_status rc) (be_bytes 8 (er_gas rc)) (el_address ?l) (length (el_topics ?l)) (topics128_of (el_topics ?l))
          (K (el_data ?l)) (length (el_data ?l)) (length (er_logs rc))"
        using body cont nz unfolding fd by (simp add: True)
      have "length (el_topics ?l) mod 256 = length (el_topics ?l)" "length (el_data ?l) mod 256 ^ 4 = length (el_data ?l)"
        using lok by (simp_all add: log_ok_def)
      moreover have "length (el_address ?l) = 20" "length (topics128_of (el_topics ?l)) = 128" "length (K (el_data ?l)) = 32"
        using lok length_topics128 [of "el_topics ?l"] W by (simp_all add: log_ok_def rcpt_world_def)
      ultimately show ?thesis
        by (intro terminal_record [OF t a(1)]) (use inc m nz in \<open>simp_all add: spec_defs Let_def\<close>)
    qed
  qed
qed

lemma finalize_decided:
  assumes W: "rcpt_world K T tx rc N" and a: "r_ok a" "rr_log_index a = li"
    and d: "decided T (nibs (tx_key tx)) w node off n" and lim: "length node \<le> max_bytes"
    and f: "finalize_if_terminal K w (r_encode a) node off n = Inr r'"
  shows "\<exists>a'. r' = r_encode a' \<and> r_ok a' \<and> observed a' = receipt_spec K T tx li rc"
proof -
  have "length (er_logs rc) \<le> MAX_LOGS_T1T2" if inc: "fst (trie_lookup T (nibs (tx_key tx))) = WALK_INCLUDED"
  proof -
    obtain s where s: "w_status w = Inr s" using d by (auto simp: decided_def w_encode_get)
    then have i: "w_status w = Inr WALK_INCLUDED" using decided_status [OF d s] inc by simp
    obtain pre post where dn: "node = pre @ receipt_enc rc @ post" "off = length pre" "n = length (receipt_enc rc)"
      and wf: "receipt_wf rc" by (rule decided_receipt [OF W d i])
    from f obtain out where "mpt7_receipt_body node off n = Inr out"
      by (auto simp: finalize_if_terminal_def i WALK_INCLUDED_def WALK_CONTINUE_def res_simps)
    from receipt_body_cap [OF dn(1) wf lim this [unfolded dn(2,3)]] show ?thesis by (simp add: receipt_ok_wf)
  qed
  then show ?thesis using finalize_total [OF W a d lim] f by auto
qed

section \<open>Every call keeps the invariant\<close>

lemma walk7_closed: "walk7 K r w nodes = Inr q \<Longrightarrow> w_status w \<noteq> Inr WALK_CONTINUE \<Longrightarrow> nodes = [] \<and> q = (w, r)"
  by (cases nodes) (auto simp: res_simps)

lemma rcpt_inj:
  assumes "rcpt_world K T tx rc N" and "node \<in> N"
  shows "inj_on K (insert node (trie_nodes K T))"
proof -
  have i: "inj_on K (N \<union> trie_nodes K T)" using assms(1) by (simp only: rcpt_world_def)
  show ?thesis by (rule inj_on_subset [OF i]) (use assms(2) in blast)
qed

lemma walk7_node_inv:
  assumes inv: "rcpt_inv K T tx li rc N w r" and o: "w_status w = Inr WALK_CONTINUE" and node: "node \<in> N"
    and small: "\<forall>e\<in>N. length e \<le> max_bytes" and st: "mpt_walk_node K node w = Inr (w1, off, n)" and f: "finalize_if_terminal K w1 r node off n = Inr r1"
  shows "rcpt_inv K T tx li rc N w1 r1"
proof -
  from inv obtain a where a: "r = r_encode a" "r_ok a"
    and stg: "rcpt_world K T tx rc N \<Longrightarrow> r_matches (K (node_enc K T)) tx li a \<Longrightarrow> rstage K T tx li rc w a"
    unfolding rcpt_inv_def by blast
  let ?k = "nibs (tx_key tx)"
  have path: "on_path K T ?k w" and inc: "rr_rstatus a = R_INCOMPLETE"
    if W: "rcpt_world K T tx rc N" "r_matches (K (node_enc K T)) tx li a"
    using stg [OF W] o by (auto simp: rstage_def)
  have nxt: "on_path K T ?k w1 \<or> decided T ?k w1 node off n"
    if W: "rcpt_world K T tx rc N" "r_matches (K (node_enc K T)) tx li a"
  proof -
    have K: "\<And>x. length (K x) = 32" using W(1) by (auto simp: rcpt_world_def)
    have sz: "node \<in> trie_nodes K T \<Longrightarrow> length node \<le> max_bytes" using small node by simp
    show ?thesis by (rule on_path_step [where K = K, OF K sz path [OF W] rcpt_inj [OF W(1) node] st])
  qed
  obtain s where s: "w_status w1 = Inr s" using f by (auto simp: finalize_if_terminal_def res_simps)
  show ?thesis
  proof (cases "s = WALK_CONTINUE")
    case True
    then have r1: "r1 = r_encode a" using f s a by (simp add: finalize_if_terminal_def)
    have "rstage K T tx li rc w1 a" if W: "rcpt_world K T tx rc N" "r_matches (K (node_enc K T)) tx li a"
      using nxt [OF W] inc [OF W] decided_status [of T ?k w1 node off n, OF _ s] True by (auto simp: rstage_def)
    then show ?thesis using a r1 by (auto simp: rcpt_inv_def)
  next
    case False
    obtain a' where a': "r1 = r_encode a'" "r_ok a'" "rr_rstatus a' \<noteq> R_INCOMPLETE"
      "rr_receipts_root a' = rr_receipts_root a" "rr_tx_index a' = rr_tx_index a" "rr_log_index a' = rr_log_index a"
      by (rule finalize_shape [OF a(2) s False f [unfolded a(1)]])
    have "rstage K T tx li rc w1 a'" if W: "rcpt_world K T tx rc N" "r_matches (K (node_enc K T)) tx li a'"
    proof -
      have m: "r_matches (K (node_enc K T)) tx li a" using W(2) a' by (simp add: r_matches_def)
      have d: "decided T ?k w1 node off n" using nxt [OF W(1) m] s False on_path_status by fastforce
      have "length node \<le> max_bytes" using small node by simp
      from finalize_decided [OF W(1) a(2) _ d this f [unfolded a(1)]] m obtain b where
        b: "r1 = r_encode b" "r_ok b" "observed b = receipt_spec K T tx li rc" by (auto simp: r_matches_def)
      have "observed a' = observed b"
        using r_encode_get [OF a'(2)] r_encode_get [OF b(2)] a'(1) b(1) by (simp add: observed_def)
      then show ?thesis using b(3) a'(3) s False by (simp add: rstage_def)
    qed
    then show ?thesis using a' by (auto simp: rcpt_inv_def)
  qed
qed

lemma walk7_inv:
  "walk7 K r w nodes = Inr (w', r') \<Longrightarrow> rcpt_inv K T tx li rc N w r \<Longrightarrow> set nodes \<subseteq> N \<Longrightarrow>
   \<forall>e\<in>N. length e \<le> max_bytes \<Longrightarrow> rcpt_inv K T tx li rc N w' r'"
proof (induction nodes arbitrary: w r)
  case (Cons node nodes)
  from Cons.prems(1) obtain w1 off n r1 where o: "w_status w = Inr WALK_CONTINUE"
    and st: "mpt_walk_node K node w = Inr (w1, off, n)" and f: "finalize_if_terminal K w1 r node off n = Inr r1"
    and rest: "walk7 K r1 w1 nodes = Inr (w', r')" by (auto simp: res_simps)
  have "node \<in> N" using Cons.prems(3) by simp
  from walk7_node_inv [OF Cons.prems(2) o this Cons.prems(4) st f] Cons.prems(3,4) show ?case by (intro Cons.IH [OF rest]) simp_all
qed simp

lemma init_rcpt_inv:
  assumes "length root = 32" and "tx0 \<le> 0xFFFFFF" and "li0 \<le> 0xFFFF" and key: "mpt_key_from_tx_index tx0 = Inr key"
    and init: "mpt_init_state root key (length key * 2) = Inr w"
  shows "rcpt_inv K T tx li rc N w (r_encode (r_initial root tx0 li0))"
proof -
  let ?a = "r_initial root tx0 li0"
  have "rstage K T tx li rc w ?a" if W: "rcpt_world K T tx rc N" "r_matches (K (node_enc K T)) tx li ?a"
  proof -
    have m: "root = K (node_enc K T)" "tx0 = tx" using W(2) by (simp_all add: r_matches_def r_initial_def)
    have K: "\<And>x. length (K x) = 32" and wf: "wf_trie T" "T \<noteq> TNull" using W(1) by (auto simp: rcpt_world_def)
    have kl: "length key \<le> 32" using init by (auto simp: mpt_init_state_def res_simps)
    have kn: "length key * 2 \<le> 2 * length key" by simp
    have "on_path K T (take (length key * 2) (nibs key)) w"
      by (rule init_on_path [where K = K, OF K wf kl kn init [unfolded m(1)]])
    moreover have "tx_key tx = key" using key m(2) by (simp add: tx_key_def)
    ultimately show ?thesis by (simp add: rstage_def r_initial_def)
  qed
  then show ?thesis using r_initial_ok [OF assms(1-3)] by (auto simp: rcpt_inv_def)
qed

lemma rcpt_call_inv:
  assumes "rcpt_call K E nodes w r" and N: "set nodes \<subseteq> N"
    and small: "\<forall>e\<in>N. length e \<le> max_bytes" and prev: "\<And>gi w0 r0. mpt7_state_from_prev E gi = Inr (w0, r0) \<Longrightarrow> rcpt_inv K T tx li rc N w0 r0"
  shows "rcpt_inv K T tx li rc N w r"
  using assms(1)
proof cases
  case (init root tx0 li0 key w0)
  show ?thesis by (rule walk7_inv [OF init(6) init_rcpt_inv [OF init(1-5)] N small])
next
  case (resume gi w0 r0)
  show ?thesis by (rule walk7_inv [OF resume(2) prev [OF resume(1)] N small])
qed

lemma recovered_rcpt:
  assumes "rcpt_verifier K A" and "rcpt_executed A N E" and small: "\<forall>e\<in>N. length e \<le> max_bytes"
    and "mpt7_state_from_prev E gi = Inr (w, r)"
  shows "rcpt_inv K T tx li rc N w r"
  by (rule rcpt_group_invariant [where Q = "rcpt_inv K T tx li rc N", OF assms(1,2) _ assms(4)])
    (rule rcpt_call_inv [OF _ _ small])

lemma rcpt_result_sound:
  assumes W: "rcpt_world K T tx rc N" and A: "rcpt_verifier K A" and ex: "rcpt_executed A N E"
    and small: "\<forall>e\<in>N. length e \<le> max_bytes" and res: "mpt7_result_from_group E gi (K (node_enc K T)) tx li = Inr out"
  shows "out = receipt_spec K T tx li rc"
proof -
  from res obtain w r where r: "mpt7_state_from_prev E gi = Inr (w, r)"
    by (auto simp: mpt7_result_from_group_def res_simps)
  from recovered_rcpt [OF A ex small r, of T tx li rc] obtain a where a: "r = r_encode a" "r_ok a"
    and stg: "r_matches (K (node_enc K T)) tx li a \<Longrightarrow> rstage K T tx li rc w a"
    using W unfolding rcpt_inv_def by blast
  note get = r_encode_get [OF a(2)]
  have m: "r_matches (K (node_enc K T)) tx li a" and d: "rr_rstatus a \<noteq> R_INCOMPLETE" and out: "out = observed a"
    using res r by (auto simp: mpt7_result_from_group_def res_simps a(1) get r_matches_def observed_def R_INCOMPLETE_def)
  show ?thesis using stg [OF m] d out by (simp add: rstage_def)
qed

end
