(* ===== verification/Rcpt_Live.thy ===== *)
theory Rcpt_Live
  imports Rcpt_Sound MPT_Sound
begin

text \<open>
  Completeness of receipt proofs: for every transaction index and log index there is one call of
  either driver, whose nodes are those of the receipts trie, that succeeds and whose logged result is
  the log the trie holds.
\<close>

section \<open>Honest segments\<close>

lemma walk7_open:
  "walk_nodes K w nodes = Inr w' \<Longrightarrow> w_status w' = Inr WALK_CONTINUE \<Longrightarrow>
   walk7 K r w (nodes @ rest) = walk7 K r w' rest"
proof (induction nodes arbitrary: w)
  case (Cons node nodes)
  then obtain w1 off n where st: "w_status w = Inr WALK_CONTINUE" "mpt_walk_node K node w = Inr (w1, off, n)"
    and r: "walk_nodes K w1 nodes = Inr w'" by (auto simp: res_simps)
  have "w_status w1 = Inr WALK_CONTINUE" by (rule walk_nodes_open [OF r Cons.prems(2)])
  then show ?case using st Cons.IH [OF r Cons.prems(2)] by (simp add: finalize_if_terminal_def)
qed simp

lemma walk7_close:
  assumes "walk_nodes K w nodes = Inr w1" and "mpt_walk_node K node w1 = Inr (w2, off, n)"
    and "finalize_if_terminal K w2 r node off n = Inr r'"
  shows "walk7 K r w (nodes @ [node]) = Inr (w2, r')"
proof -
  have o: "w_status w1 = Inr WALK_CONTINUE" using assms(2) by (auto simp: mpt_walk_node_def res_simps)
  show ?thesis by (subst walk7_open [OF assms(1) o]) (simp add: walk7_one [OF assms(2,3), simplified])
qed

lemma tx_key_bounds: "tx \<le> 0xFFFFFF \<Longrightarrow> mpt_key_from_tx_index tx = Inr (tx_key tx) \<and> length (tx_key tx) \<le> 4"
  by (simp add: tx_key_def mpt_key_from_tx_index_def bextract_def bconcat_def itob_def max_bytes_def)

lemma rcpt_world_nodes:
  assumes "rcpt_world K T tx rc {}" and "N \<subseteq> trie_nodes K T"
  shows "rcpt_world K T tx rc N"
proof -
  have "N \<union> trie_nodes K T = {} \<union> trie_nodes K T" using assms(2) by blast
  then have "inj_on K (N \<union> trie_nodes K T)" using assms(1) by (simp only: rcpt_world_def)
  then show ?thesis using assms(1) unfolding rcpt_world_def by blast
qed

section \<open>One call\<close>

definition init_fixed :: "bytes \<Rightarrow> nat \<Rightarrow> nat \<Rightarrow> bytes" where
  "init_fixed root tx li = root @ itob tx @ be_bytes 2 li"

definition init_args :: "bytes \<Rightarrow> nat \<Rightarrow> nat \<Rightarrow> bytes list \<Rightarrow> bytes list" where
  "init_args root tx li nodes = [RCPT_SELECTOR, [0], [0], init_fixed root tx li] @ nodes"

lemma init_fixed_fields:
  assumes "length root = 32" and "tx \<le> 0xFFFFFF" and "li \<le> 0xFFFF"
  shows "length (init_fixed root tx li) = 42" and "bextract (init_fixed root tx li) 0 32 = Inr root"
    and "bextract (init_fixed root tx li) 32 8 = Inr (itob tx)" and "btoi (itob tx) = Inr tx"
    and "extract_uint16 (init_fixed root tx li) 40 = Inr li"
proof -
  show l: "length (init_fixed root tx li) = 42" using assms(1) by (simp add: init_fixed_def itob_def)
  show "bextract (init_fixed root tx li) 0 32 = Inr root"
    using l assms(1) seg_at [of "[]" 0 root 32] by (simp add: bextract_def init_fixed_def)
  show "bextract (init_fixed root tx li) 32 8 = Inr (itob tx)"
    using l assms(1) seg_at [of root 32 "itob tx" 8] by (simp add: bextract_def init_fixed_def itob_def)
  show "btoi (itob tx) = Inr tx" using assms(2) by (simp add: btoi_def itob_def)
  have "seg 40 2 (init_fixed root tx li) = be_bytes 2 li"
    using assms(1) seg_at_end [of "root @ itob tx" 40 "be_bytes 2 li" 2] by (simp add: init_fixed_def itob_def)
  then show "extract_uint16 (init_fixed root tx li) 40 = Inr li"
    using l assms(3) by (simp add: extract_uint16_def bextract_def be_val_be_bytes del: be_bytes.simps)
qed

lemma mode_init_run:
  assumes l: "length root = 32" "tx \<le> 0xFFFFFF" "li \<le> 0xFFFF"
    and i: "mpt_init_state root (tx_key tx) (length (tx_key tx) * 2) = Inr w0"
    and walk: "walk7 K (r_encode (r_initial root tx li)) w0 nodes = Inr (w, r)"
  shows "mode_init K bs (env_at app G gi (init_args root tx li nodes)) = rbind (mpt7_log_state w r) (\<lambda>lg. Inr (bs, Some lg))"
proof -
  have "mpt7_init_result root tx li = Inr (r_encode (r_initial root tx li))" using l by (simp add: init_result_Inr)
  then show ?thesis
    using i walk tx_key_bounds [OF l(2)] init_fixed_fields [OF l]
    by (simp add: mode_init_def env_at_def init_args_def app_arg_def walk7_args_def Let_def)
qed

lemma init_run:
  assumes "mode_init K bs (env_at app G gi (init_args root tx li nodes)) = out"
  shows "mpt7_receipt_app K bs (env_at app G gi (init_args root tx li nodes)) = out"
    and "mpt7_anchored_app K anchor_id bs (env_at app G gi (init_args root tx li nodes)) = out"
  using assms
  by (simp_all add: mpt7_receipt_app_def mpt7_anchored_app_def init_anchored_eq env_at_def init_args_def app_arg_def
      rcpt_mode_defs)

text \<open>Both drivers run an initialising call of an honest prover.\<close>

definition runs_init :: "(bytes \<Rightarrow> bytes) \<Rightarrow> (boxes \<Rightarrow> env \<Rightarrow> rcpt_out) \<Rightarrow> bool" where
  "runs_init K A \<longleftrightarrow> (\<forall>bs app G gi root tx li nodes. A bs (env_at app G gi (init_args root tx li nodes)) =
     mode_init K bs (env_at app G gi (init_args root tx li nodes)))"

lemma drivers_run_init: "runs_init K (mpt7_receipt_app K)" "runs_init K (mpt7_anchored_app K anchor_id)"
  using init_run [of K] by (simp_all add: runs_init_def)

text \<open>The walk an honest prover makes and the result it ends in.\<close>

lemma honest_rcpt_walk:
  assumes W: "rcpt_world K T tx rc {}" and l: "tx \<le> 0xFFFFFF" "li \<le> 0xFFFF"
    and fit: "\<forall>e\<in>set (path_nodes K T (nibs (tx_key tx))). length e \<le> max_bytes" "length (er_logs rc) \<le> MAX_LOGS_T1T2"
  obtains w0 ns node w1 w2 off n a where
    "mpt_init_state (K (node_enc K T)) (tx_key tx) (length (tx_key tx) * 2) = Inr w0"
    "ns @ [node] = path_nodes K T (nibs (tx_key tx))" "set (ns @ [node]) \<subseteq> trie_nodes K T"
    "walk_nodes K w0 ns = Inr w1" "mpt_walk_node K node w1 = Inr (w2, off, n)"
    "finalize_if_terminal K w2 (r_encode (r_initial (K (node_enc K T)) tx li)) node off n = Inr (r_encode a)"
    "r_ok a" "length w2 = W_LEN" "rr_rstatus a \<noteq> R_INCOMPLETE" "r_matches (K (node_enc K T)) tx li a"
    "observed a = receipt_spec K T tx li rc"
proof -
  let ?R = "K (node_enc K T)" and ?k = "tx_key tx"
  let ?a = "r_initial ?R tx li"
  have K: "\<And>x. length (K x) = 32" and wf: "wf_trie T" "T \<noteq> TNull"
    and inj: "inj_on K (trie_nodes K T)"
    using W by (auto simp: rcpt_world_def)
  have kl: "length ?k \<le> 32" using tx_key_bounds [OF l(1)] by simp
  obtain w0 nodes w1 node w2 off n where h: "mpt_init_state ?R ?k (length ?k * 2) = Inr w0"
    "set (nodes @ [node]) \<subseteq> trie_nodes K T" "walk_nodes K w0 nodes = Inr w1"
    "mpt_walk_node K node w1 = Inr (w2, off, n)" "on_path K T (nibs ?k) w1"
    "w_status w2 = Inr (fst (trie_lookup T (nibs ?k)))" "fst (trie_lookup T (nibs ?k)) \<noteq> WALK_CONTINUE"
    "length w2 = W_LEN" "w_root w2 = Inr ?R" "decided T (nibs ?k) w2 node off n" "nodes @ [node] = path_nodes K T (nibs ?k)"
    by (rule honest_walk [where K = K and T = T and key = ?k, OF K wf fit(1) inj kl])
  have a: "r_ok ?a" "rr_log_index ?a = li" using r_initial_ok [OF K l] by (simp_all add: r_initial_def)
  have lim: "length node \<le> max_bytes" using fit(1) by (simp flip: h(11))
  obtain b where b: "finalize_if_terminal K w2 (r_encode ?a) node off n = Inr (r_encode b)" "r_ok b"
    "observed b = receipt_spec K T tx li rc" using finalize_total [OF W a h(10) lim fit(2)] by blast
  obtain c where c: "r_encode b = r_encode c" "r_ok c" "rr_rstatus c \<noteq> R_INCOMPLETE"
    "rr_receipts_root c = rr_receipts_root ?a" "rr_tx_index c = rr_tx_index ?a" "rr_log_index c = rr_log_index ?a"
    by (rule finalize_shape [OF a(1) h(6,7) b(1)])
  note same = r_encode_inj [OF b(2) c(2,1)]
  have m: "r_matches ?R tx li b" using same c(4-6) by (simp add: r_matches_def r_initial_def)
  show ?thesis
    by (rule that [OF h(1,11,2,3,4) b(1,2) h(8) _ m b(3)]) (use c(3) same in simp)
qed

lemma honest_receipt:
  assumes W: "rcpt_world K T tx rc {}" and l: "tx \<le> 0xFFFFFF" "li \<le> 0xFFFF"
    and fit: "\<forall>e\<in>set (path_nodes K T (nibs (tx_key tx))). length e \<le> max_bytes" "length (er_logs rc) \<le> MAX_LOGS_T1T2"
  obtains nodes w a where "set nodes \<subseteq> trie_nodes K T" "r_ok a" "length w = W_LEN" "rr_rstatus a \<noteq> R_INCOMPLETE"
    "r_matches (K (node_enc K T)) tx li a" "observed a = receipt_spec K T tx li rc"
    "nodes = path_nodes K T (nibs (tx_key tx))"
    "\<And>bs app G gi. mode_init K bs (env_at app G gi (init_args (K (node_enc K T)) tx li nodes)) =
       rbind (mpt7_log_state w (r_encode a)) (\<lambda>lg. Inr (bs, Some lg))"
proof -
  have K: "length (K (node_enc K T)) = 32" using W by (simp add: rcpt_world_def)
  obtain w0 ns node w1 w2 off n a where h:
    "mpt_init_state (K (node_enc K T)) (tx_key tx) (length (tx_key tx) * 2) = Inr w0"
    "ns @ [node] = path_nodes K T (nibs (tx_key tx))" "set (ns @ [node]) \<subseteq> trie_nodes K T"
    "walk_nodes K w0 ns = Inr w1" "mpt_walk_node K node w1 = Inr (w2, off, n)"
    "finalize_if_terminal K w2 (r_encode (r_initial (K (node_enc K T)) tx li)) node off n = Inr (r_encode a)"
    "r_ok a" "length w2 = W_LEN" "rr_rstatus a \<noteq> R_INCOMPLETE" "r_matches (K (node_enc K T)) tx li a"
    "observed a = receipt_spec K T tx li rc" by (rule honest_rcpt_walk [OF W l fit])
  show ?thesis
    by (rule that [OF h(3,7,8,9,10,11,2) mode_init_run [OF K l h(1) walk7_close [OF h(4,5,6)]]])
qed

section \<open>A group with one call\<close>

lemma result_of_final:
  assumes "mpt7_state_from_prev E gi = Inr (w, r_encode a)" and "r_ok a" and "rr_rstatus a \<noteq> R_INCOMPLETE"
    and "r_matches root tx li a"
  shows "mpt7_result_from_group E gi root tx li = Inr (observed a)"
  using assms by (simp add: mpt7_result_from_group_def r_encode_get r_matches_def observed_def R_INCOMPLETE_def)

lemma honest_init_call:
  assumes W: "rcpt_world K T tx rc {}" and l: "tx \<le> 0xFFFFFF" "li \<le> 0xFFFF"
    and fit: "\<forall>e\<in>set (path_nodes K T (nibs (tx_key tx))). length e \<le> max_bytes" "length (er_logs rc) \<le> MAX_LOGS_T1T2"
  shows "\<exists>args lg rest. args = init_args (K (node_enc K T)) tx li (path_nodes K T (nibs (tx_key tx))) \<and>
    args = RCPT_SELECTOR # rest \<and> (\<forall>bs. set (rcpt_nodes bs args) \<subseteq> trie_nodes K T) \<and>
    (\<forall>A. runs_init K A \<longrightarrow> (\<forall>bs G i. A bs (env_at app G i args) = Inr (bs, Some lg))) \<and>
    (\<forall>E gi. gi < env_index E \<and> gi < length (env_group E) \<and> env_app E = app \<and> env_group E ! gi = AppCall app args lg \<longrightarrow>
       mpt7_result_from_group E gi (K (node_enc K T)) tx li = Inr (receipt_spec K T tx li rc))"
proof -
  let ?R = "K (node_enc K T)"
  obtain nodes w a where h: "set nodes \<subseteq> trie_nodes K T" "r_ok a" "length w = W_LEN" "rr_rstatus a \<noteq> R_INCOMPLETE"
    "r_matches ?R tx li a" "observed a = receipt_spec K T tx li rc" "nodes = path_nodes K T (nibs (tx_key tx))"
    "\<And>bs app G gi. mode_init K bs (env_at app G gi (init_args ?R tx li nodes)) =
       rbind (mpt7_log_state w (r_encode a)) (\<lambda>lg. Inr (bs, Some lg))"
    by (rule honest_receipt [OF W l fit]) (rule that)
  obtain lg where lg: "mpt7_log_state w (r_encode a) = Inr lg" using h(2,3) by (simp add: mpt7_log_state_def length_r_encode Let_def)
  let ?args = "init_args ?R tx li nodes"
  have "A bs (env_at app G gi ?args) = Inr (bs, Some lg)" if "runs_init K A" for A bs G gi
    using that h(8) lg by (simp add: runs_init_def)
  moreover have "rcpt_nodes bs ?args = nodes" for bs by (simp add: rcpt_nodes_def init_args_def rcpt_mode_defs)
  moreover have "mpt7_result_from_group E gi ?R tx li = Inr (receipt_spec K T tx li rc)"
    if e: "gi < env_index E" "gi < length (env_group E)" "env_app E = app" "env_group E ! gi = AppCall app ?args lg" for E gi
  proof -
    have "mpt7_state_from_prev E gi = Inr (w, r_encode a)"
      by (rule rcpt_recover_logged [OF e(1,2) _ lg]) (simp add: e(3,4) init_args_def)
    from result_of_final [OF this h(2,4,5)] h(6) show ?thesis by simp
  qed
  moreover have "?args = RCPT_SELECTOR # tl ?args" by (simp add: init_args_def)
  ultimately show ?thesis using h(1,7)
    by (intro exI [of _ ?args] exI [of _ lg] exI [of _ "tl ?args"]) simp
qed

text \<open>A group of that one call is an executed group.\<close>

lemma executed_call:
  assumes "\<And>bs G i. A bs (env_at app G i args) = Inr (bs, Some lg)" and "\<And>bs. set (rcpt_nodes bs args) \<subseteq> N"
    and "env_app E = app" and "\<And>i rest lg'. i < env_index E \<Longrightarrow> i < length (env_group E) \<Longrightarrow>
      env_group E ! i = AppCall app (RCPT_SELECTOR # rest) lg' \<Longrightarrow> RCPT_SELECTOR # rest = args \<and> lg' = lg"
  shows "rcpt_executed A N E"
  unfolding rcpt_executed_def
proof (intro allI impI)
  fix i rest lg'
  assume i: "i < env_index E" "i < length (env_group E)" "env_group E ! i = AppCall (env_app E) (RCPT_SELECTOR # rest) lg'"
  from assms(4) [OF i(1,2) i(3) [unfolded assms(3)]] have e: "RCPT_SELECTOR # rest = args" "lg' = lg" by simp_all
  have "E\<lparr>env_index := i, env_args := args\<rparr> = env_at app (env_group E) i args"
    using assms(3) by (simp add: env_at_def)
  then have "A Map.empty (E\<lparr>env_index := i, env_args := args\<rparr>) = Inr (Map.empty, Some lg)" using assms(1) by simp
  then show "\<exists>bs bs' lo. A bs (E\<lparr>env_index := i, env_args := RCPT_SELECTOR # rest\<rparr>) = Inr (bs', lo) \<and>
      lg' = logged_bytes lo \<and> set (rcpt_nodes bs (RCPT_SELECTOR # rest)) \<subseteq> N"
    using assms(2) [of Map.empty] e by (intro exI conjI) (auto simp: logged_bytes_def)
qed

end
