(* ===== verification/Props_Rcpt.thy ===== *)
theory Props_Rcpt
  imports Rcpt_Live Anchor_Demo
begin

text \<open>
  The receipt verifiers' properties: what a recovered log means, that every log can be proved, that
  decoding inverts the consensus encoding of receipts, and what a log proved against an attested block
  means. Their instances share a receipts trie with one receipt under transaction 0.
\<close>

section \<open>An instance\<close>

definition demo_log :: eth_log where
  "demo_log = \<lparr>el_address = replicate 20 7, el_topics = [replicate 32 1, replicate 32 2], el_data = [1, 2, 3]\<rparr>"

definition demo_rc :: eth_receipt where
  "demo_rc = \<lparr>er_type = 2, er_status = 1, er_gas = 21000, er_bloom = replicate 256 0, er_logs = [demo_log]\<rparr>"

definition demo_keccak :: "bytes \<Rightarrow> bytes" where "demo_keccak _ = dm_rr"

definition demo_receipts :: trie where "demo_receipts = TLeaf [8, 0] (receipt_enc demo_rc)"

lemma demo_log_length: "length (rlp_enc (log_rlp demo_log)) = 95"
  by (simp add: log_rlp_def demo_log_def enc_prefix_length be_min.simps)

lemma demo_receipt_length: "length (receipt_enc demo_rc) = 364"
  using demo_log_length
  by (simp add: receipt_enc_def receipt_rlp_def demo_rc_def enc_prefix_length be_min.simps)

lemma demo_receipt_ok: "receipt_ok demo_rc" "log_ok demo_log"
  by (simp_all add: receipt_ok_def log_ok_def demo_rc_def demo_log_def uint64_limit_def MAX_LOGS_T1T2_def)

lemma demo_tx_key: "tx_key 0 = [0x80]" "nibs [0x80] = [8, 0]"
  by (simp_all add: tx_key_def mpt_key_from_tx_index_def)

lemma demo_nodes: "trie_nodes demo_keccak demo_receipts = {node_enc demo_keccak demo_receipts}"
  by (simp add: demo_receipts_def)

lemma demo_small: "\<forall>e\<in>trie_nodes demo_keccak demo_receipts. length e \<le> max_bytes"
proof -
  have "length (node_enc demo_keccak demo_receipts) = 373"
    using demo_receipt_length by (simp add: node_enc_def demo_receipts_def enc_prefix_length length_hp_encode be_min.simps)
  then show ?thesis by (simp add: demo_nodes max_bytes_def)
qed

lemma demo_fits: "\<forall>e\<in>set (path_nodes demo_keccak demo_receipts (nibs (tx_key 0))). length e \<le> max_bytes"
  "length (er_logs demo_rc) \<le> MAX_LOGS_T1T2"
proof -
  have "demo_receipts \<noteq> TNull" by (simp add: demo_receipts_def)
  then show "\<forall>e\<in>set (path_nodes demo_keccak demo_receipts (nibs (tx_key 0))). length e \<le> max_bytes"
    using demo_small path_nodes_sub by blast
qed (simp add: demo_rc_def MAX_LOGS_T1T2_def)

lemma demo_rcpt_world: "rcpt_world demo_keccak demo_receipts 0 demo_rc {}"
proof -
  have "wf_trie demo_receipts" "demo_receipts \<noteq> TNull" by (auto simp: demo_receipts_def nibble_list_def)
  moreover have "inj_on demo_keccak ({} \<union> trie_nodes demo_keccak demo_receipts)" by (simp add: demo_nodes)
  moreover have "trie_lookup demo_receipts [8, 0] = (WALK_INCLUDED, receipt_enc demo_rc)" by (simp add: demo_receipts_def)
  ultimately show ?thesis unfolding rcpt_world_def demo_tx_key
    using demo_receipt_ok(1) by (simp add: demo_keccak_def receipt_ok_wf)
qed

lemma demo_receipt_spec: "receipt_spec demo_keccak demo_receipts 0 0 demo_rc =
   (R_INCLUDED, replicate 20 7, 2, topics128_of [replicate 32 1, replicate 32 2], dm_rr, 3, 1, 2)"
proof -
  have "trie_lookup demo_receipts [8, 0] = (WALK_INCLUDED, receipt_enc demo_rc)" by (simp add: demo_receipts_def)
  then show ?thesis unfolding receipt_spec_def demo_tx_key
    by (simp add: demo_rc_def demo_log_def Let_def demo_keccak_def)
qed

definition only_call :: "bytes list \<Rightarrow> bytes \<Rightarrow> env \<Rightarrow> bool" where
  "only_call rest lg E \<longleftrightarrow> env_app E = 8 \<and> (\<forall>i rest' lg'. i < env_index E \<longrightarrow> i < length (env_group E) \<longrightarrow>
     env_group E ! i = AppCall 8 (RCPT_SELECTOR # rest') lg' \<longrightarrow> rest' = rest \<and> lg' = lg)"

lemma demo_call:
  "\<exists>rest lg. (\<forall>A E. runs_init demo_keccak A \<and> only_call rest lg E \<longrightarrow>
       rcpt_executed A (trie_nodes demo_keccak demo_receipts) E) \<and>
     (\<forall>E gi. gi < env_index E \<and> gi < length (env_group E) \<and> env_app E = 8 \<and>
        env_group E ! gi = AppCall 8 (RCPT_SELECTOR # rest) lg \<longrightarrow>
        mpt7_result_from_group E gi dm_rr 0 0 = Inr (receipt_spec demo_keccak demo_receipts 0 0 demo_rc))"
proof -
  have l: "(0::nat) \<le> 0xFFFFFF" "(0::nat) \<le> 0xFFFF" by simp_all
  have root: "demo_keccak (node_enc demo_keccak demo_receipts) = dm_rr" by (simp add: demo_keccak_def)
  from honest_init_call [OF demo_rcpt_world l demo_fits, of 8] obtain args lg rest where h: "args = RCPT_SELECTOR # rest"
    "\<And>bs. set (rcpt_nodes bs args) \<subseteq> trie_nodes demo_keccak demo_receipts"
    "\<And>A bs G i. runs_init demo_keccak A \<Longrightarrow> A bs (env_at 8 G i args) = Inr (bs, Some lg)"
    "\<And>E gi. gi < env_index E \<and> gi < length (env_group E) \<and> env_app E = 8 \<and> env_group E ! gi = AppCall 8 args lg \<Longrightarrow>
       mpt7_result_from_group E gi dm_rr 0 0 = Inr (receipt_spec demo_keccak demo_receipts 0 0 demo_rc)"
    unfolding root by blast
  have "rcpt_executed A (trie_nodes demo_keccak demo_receipts) E" if "runs_init demo_keccak A" "only_call rest lg E" for A E
    by (rule executed_call [OF h(3) h(2)]) (use that h(1) in \<open>auto simp: only_call_def\<close>)
  then show ?thesis using h(1,4) by blast
qed

lemma demo_rcpt_world_nodes: "rcpt_world demo_keccak demo_receipts 0 demo_rc (trie_nodes demo_keccak demo_receipts)"
  by (rule rcpt_world_nodes [OF demo_rcpt_world]) simp

section \<open>Properties\<close>

text \<open>
C27: soundness of a receipt proof across a transaction group. Whatever calls of the reference driver or
of the deployed verifier precede in the group, in whatever modes and order, with whatever nodes,
staging boxes and segment boundaries, and whatever index the caller points at: a result recovered for a
receipts root, a transaction index and a log index is the verdict and the log that the receipts trie
under that root holds there. The trie is any well-formed one whose entry for the transaction, if it has
one, is the encoding of a receipt: its other receipts may be of any size and number of logs, and the hash is
injective on the nodes of the trie and those supplied. The nodes supplied to the calls are at most
4,096 bytes long, the length of the longest value of the AVM.
\<close>

theorem receipt_result_sound:
  assumes "rcpt_world K T tx rc N" and "\<forall>e\<in>N. length e \<le> max_bytes" and "A = mpt7_receipt_app K \<or> A = mpt7_anchored_app K anchor_id"
    and "rcpt_executed A N E" and "mpt7_result_from_group E gi (K (node_enc K T)) tx li = Inr out"
  shows "out = receipt_spec K T tx li rc"
  using rcpt_result_sound [OF assms(1) _ assms(4,2,5)] assms(3) verifiers by blast

theorem receipt_result_sound_witness:
  "\<exists>E N. rcpt_executed (mpt7_anchored_app demo_keccak 3) N E \<and>
     mpt7_result_from_group E 0 dm_rr 0 0 = Inr (receipt_spec demo_keccak demo_receipts 0 0 demo_rc) \<and>
     fst (receipt_spec demo_keccak demo_receipts 0 0 demo_rc) = R_INCLUDED"
proof -
  let ?A = "mpt7_anchored_app demo_keccak 3" and ?N = "trie_nodes demo_keccak demo_receipts"
  obtain rest lg where c: "\<And>A E. runs_init demo_keccak A \<and> only_call rest lg E \<Longrightarrow> rcpt_executed A ?N E"
    "\<And>E gi. gi < env_index E \<and> gi < length (env_group E) \<and> env_app E = 8 \<and>
      env_group E ! gi = AppCall 8 (RCPT_SELECTOR # rest) lg \<Longrightarrow>
      mpt7_result_from_group E gi dm_rr 0 0 = Inr (receipt_spec demo_keccak demo_receipts 0 0 demo_rc)"
    using demo_call by blast
  let ?E = "env_at 8 [AppCall 8 (RCPT_SELECTOR # rest) lg] 1 []"
  have ex: "rcpt_executed ?A ?N ?E" by (rule c(1)) (auto simp: only_call_def env_at_def drivers_run_init)
  have res: "mpt7_result_from_group ?E 0 dm_rr 0 0 = Inr (receipt_spec demo_keccak demo_receipts 0 0 demo_rc)"
    by (rule c(2)) (simp_all add: env_at_def)
  have root: "demo_keccak (node_enc demo_keccak demo_receipts) = dm_rr" by (simp add: demo_keccak_def)
  have "receipt_spec demo_keccak demo_receipts 0 0 demo_rc = receipt_spec demo_keccak demo_receipts 0 0 demo_rc"
    by (rule receipt_result_sound [OF demo_rcpt_world_nodes demo_small _ ex, of 3 0 0]) (simp_all add: root res del: One_nat_def)
  then show ?thesis using ex res demo_receipt_spec by auto
qed

text \<open>
Completeness of receipt proofs. For every well-formed receipts trie of encoded receipts and every
transaction and log index, present or not, if the nodes on the path of the transaction's key are at most
4,096 bytes long and its receipt has at most 64 logs, one initialising call with the trie's own nodes is run by
both drivers, and any later call of the group recovers from it the verdict and the log of the trie.
(Limits on argument size and opcode budget are not part of the model.)
\<close>

theorem receipt_honest_call:
  assumes "rcpt_world K T tx rc {}" and "tx \<le> 0xFFFFFF" and "li \<le> 0xFFFF"
    and "\<forall>e\<in>set (path_nodes K T (nibs (tx_key tx))). length e \<le> max_bytes" and "length (er_logs rc) \<le> MAX_LOGS_T1T2"
    and "A = mpt7_receipt_app K \<or> A = mpt7_anchored_app K anchor_id"
  shows "\<exists>args lg. (\<forall>bs G i. A bs (env_at app G i args) = Inr (bs, Some lg)) \<and>
    (\<forall>E gi. gi < env_index E \<and> gi < length (env_group E) \<and> env_app E = app \<and> env_group E ! gi = AppCall app args lg \<longrightarrow>
       mpt7_result_from_group E gi (K (node_enc K T)) tx li = Inr (receipt_spec K T tx li rc))"
proof -
  have "runs_init K A" using assms(6) drivers_run_init by blast
  then show ?thesis using honest_init_call [OF assms(1-5), of app] by blast
qed

theorem receipt_honest_call_witness:
  "\<exists>args lg. mpt7_receipt_app demo_keccak Map.empty (env_at 8 [] 0 args) = Inr (Map.empty, Some lg)"
proof -
  have l: "(0::nat) \<le> 0xFFFFFF" "(0::nat) \<le> 0xFFFF" by simp_all
  from receipt_honest_call [OF demo_rcpt_world l demo_fits, of "mpt7_receipt_app demo_keccak" 3 8] show ?thesis by blast
qed

text \<open>
C28: the receipt decoder inverts the consensus encoding. For every receipt, legacy or typed, with at
most 64 logs of at most 4 topics each, embedded anywhere in a node, the body decoder returns its type,
status, gas and number of logs, and the log decoder returns for every log its address, topic count,
zero-padded topics, and the hash and length of its data.
\<close>

theorem receipt_decode_roundtrip:
  assumes "receipt_ok rc" and "length (pre @ receipt_enc rc @ post) \<le> max_bytes"
  shows "\<exists>table. mpt7_receipt_body (pre @ receipt_enc rc @ post) (length pre) (length (receipt_enc rc)) =
      Inr (er_type rc, er_status rc, be_bytes 8 (er_gas rc), table, length (er_logs rc)) \<and>
    (\<forall>i<length (er_logs rc). mpt7_log_at K (pre @ receipt_enc rc @ post) table i =
      Inr (el_address (er_logs rc ! i), length (el_topics (er_logs rc ! i)), topics128_of (el_topics (er_logs rc ! i)),
        K (el_data (er_logs rc ! i)), length (el_data (er_logs rc ! i))))"
proof -
  obtain table where t: "mpt7_receipt_body (pre @ receipt_enc rc @ post) (length pre) (length (receipt_enc rc)) =
      Inr (er_type rc, er_status rc, be_bytes 8 (er_gas rc), table, length (er_logs rc))"
    and logs: "logs_in (pre @ receipt_enc rc @ post) table (er_logs rc)"
    using receipt_body_enc [OF refl assms] by blast
  have "log_ok (er_logs rc ! i)" if "i < length (er_logs rc)" for i using assms(1) that by (simp add: receipt_ok_def)
  then show ?thesis using t log_at_enc [OF logs _ _ assms(2)] by blast
qed

theorem receipt_decode_roundtrip_witness:
  "\<exists>table. mpt7_receipt_body (receipt_enc demo_rc) 0 364 = Inr (2, 1, be_bytes 8 21000, table, 1) \<and>
     mpt7_log_at demo_keccak (receipt_enc demo_rc) table 0 =
       Inr (replicate 20 7, 2, topics128_of [replicate 32 1, replicate 32 2], dm_rr, 3)"
proof -
  have "length ([] @ receipt_enc demo_rc @ []) \<le> max_bytes" by (simp add: demo_receipt_length max_bytes_def)
  note r = receipt_decode_roundtrip [OF demo_receipt_ok(1) this, of demo_keccak, unfolded append_Nil append_Nil2
    demo_receipt_length list.size(3)]
  have f: "er_type demo_rc = 2" "er_status demo_rc = 1" "er_gas demo_rc = 21000" "er_logs demo_rc = [demo_log]"
    by (simp_all add: demo_rc_def)
  have g: "el_address demo_log = replicate 20 7" "el_topics demo_log = [replicate 32 1, replicate 32 2]"
    "length (el_data demo_log) = 3" by (simp_all add: demo_log_def)
  from r show ?thesis unfolding f by (simp add: g demo_keccak_def numeral_2_eq_2)
qed

section \<open>A log under an attested record\<close>

lemma anchored_core:
  assumes "anchor_inv s" and "bn < uint64_limit" and "rcpt_executed (mpt7_anchored_app K anchor_id) N E"
    and "\<forall>e\<in>N. length e \<le> max_bytes" and "mpt7_result_against_anchor anchor_id E gi anchor_gi bn tx li = Inr out"
    and "\<And>i rest lg. i < env_index E \<Longrightarrow> i < length (env_group E) \<Longrightarrow>
        env_group E ! i = AppCall anchor_id (ATTEST_SELECTOR # rest) lg \<Longrightarrow>
        \<exists>n b. n < uint64_limit \<and> anchor_attest s n = Inr b \<and> lg = ARC4_RETURN_PREFIX @ b"
  shows "\<exists>a. anchor_attest s bn = Inr a \<and> (\<forall>T rc. rcpt_world K T tx rc N \<and> anchor_receipts_root a = Inr (K (node_enc K T)) \<longrightarrow>
    out = receipt_spec K T tx li rc)"
proof -
  from assms(5) obtain a root where a: "anchor_from_group anchor_id E anchor_gi bn = Inr a" "anchor_receipts_root a = Inr root"
    and r: "mpt7_result_from_group E gi root tx li = Inr out" by (auto simp: mpt7_result_against_anchor_def res_simps)
  have "anchor_attest s bn = Inr a" by (rule consumer_core [OF assms(1,2) a(1) assms(6)])
  moreover have "out = receipt_spec K T tx li rc"
    if "rcpt_world K T tx rc N" "anchor_receipts_root a = Inr (K (node_enc K T))" for T rc
  proof -
    have "root = K (node_enc K T)" using a(2) that(2) by simp
    then show ?thesis using rcpt_result_sound [OF that(1) verifiers(2) assms(3,4)] r by simp
  qed
  ultimately show ?thesis by blast
qed

lemma anchored_demo:
  obtains E where "mpt7_result_against_anchor 3 E 1 0 5 0 0 = Inr (receipt_spec demo_keccak demo_receipts 0 0 demo_rc)"
    "rcpt_executed (mpt7_anchored_app demo_keccak 3) (trie_nodes demo_keccak demo_receipts) E"
    "\<forall>i rest lg. i < env_index E \<and> i < length (env_group E) \<and> env_group E ! i = AppCall 3 (ATTEST_SELECTOR # rest) lg \<longrightarrow>
       (\<exists>n b. n < uint64_limit \<and> anchor_attest dm_anchored n = Inr b \<and> lg = ARC4_RETURN_PREFIX @ b)"
proof -
  let ?N = "trie_nodes demo_keccak demo_receipts" and ?spec = "receipt_spec demo_keccak demo_receipts 0 0 demo_rc"
  obtain rest lg where c: "\<And>A E. runs_init demo_keccak A \<and> only_call rest lg E \<Longrightarrow> rcpt_executed A ?N E"
    "\<And>E gi. gi < env_index E \<and> gi < length (env_group E) \<and> env_app E = 8 \<and>
      env_group E ! gi = AppCall 8 (RCPT_SELECTOR # rest) lg \<Longrightarrow>
      mpt7_result_from_group E gi dm_rr 0 0 = Inr (receipt_spec demo_keccak demo_receipts 0 0 demo_rc)"
    using demo_call by blast
  let ?rec = "dm_rec dm_sr"
  let ?E = "env_at 8 [AppCall 3 [ATTEST_SELECTOR] (ARC4_RETURN_PREFIX @ ?rec), AppCall 8 (RCPT_SELECTOR # rest) lg] 2 []"
  note f = dm_rec_facts [OF dm_lengths(5)]
  have n: "(5::nat) < uint64_limit" by (simp add: uint64_limit_def)
  have "length (seg 2 8 ?rec) = 8" using f(1) by simp
  from itob_be_val [OF this] f(3) have bn: "seg 2 8 ?rec = itob 5" by (simp only: rec_block_def)
  have a: "anchor_from_group 3 ?E 0 5 = Inr ?rec"
    using f(1,2,5) bn by (simp only: from_group_Inr) (simp add: env_at_def)
  have rr: "anchor_receipts_root ?rec = Inr dm_rr" using dm_rec_receipts dm_rec_facts(1) [OF dm_lengths(5)] by (simp add: anchor_receipts_root_def bextract_def record_layout)
  have split: "i = 0 \<or> i = 1" if "i < env_index ?E" for i using that by (auto simp: env_at_def)
  have ex: "rcpt_executed (mpt7_anchored_app demo_keccak 3) ?N ?E"
  proof (rule c(1))
    have "rest' = rest \<and> lg' = lg" if "i < env_index ?E" "env_group ?E ! i = AppCall 8 (RCPT_SELECTOR # rest') lg'" for i rest' lg'
      using that split [of i] by (auto simp: env_at_def)
    then show "runs_init demo_keccak (mpt7_anchored_app demo_keccak 3) \<and> only_call rest lg ?E"
      by (simp add: drivers_run_init only_call_def env_at_def)
  qed
  have "mpt7_result_from_group ?E 1 dm_rr 0 0 = Inr ?spec" by (rule c(2)) (simp_all add: env_at_def)
  then have res: "mpt7_result_against_anchor 3 ?E 1 0 5 0 0 = Inr ?spec"
    using a rr by (simp add: mpt7_result_against_anchor_def)
  have logged: "\<exists>bn b. bn < uint64_limit \<and> anchor_attest dm_anchored bn = Inr b \<and> lg = ARC4_RETURN_PREFIX @ b"
    if "i < env_index ?E" "i < length (env_group ?E)" "env_group ?E ! i = AppCall 3 (ATTEST_SELECTOR # rest) lg" for i rest lg
    using that split [of i] dm_attest n by (auto simp: env_at_def)
  show ?thesis by (rule that [OF res ex]) (use logged in blast)
qed

text \<open>
C29: what a log proved against the anchor means. If the deployed verifier's anchor check accepts, the
anchor of state \<open>s\<close> attests a record for the wanted block, and the returned tuple is the log that any
receipts trie whose root is the record's receipts root holds for the wanted transaction and log index,
whatever the sizes of that trie's nodes and the number of its logs.
The hypotheses are that the nodes supplied are at most 4,096 bytes long (the longest value of the AVM),
that every earlier \<open>attest\<close> call of the trusted anchor in the group logged what the anchor attests in
\<open>s\<close>, and that every earlier \<open>RCP1\<close> call of the verifier itself was executed.
\<close>

theorem anchored_log_proof:
  assumes "anchor_inv s" and "bn < uint64_limit" and "rcpt_executed (mpt7_anchored_app K anchor_id) N E"
    and "\<forall>e\<in>N. length e \<le> max_bytes" and "mpt7_result_against_anchor anchor_id E gi anchor_gi bn tx li = Inr out"
    and "\<And>i rest lg. i < env_index E \<Longrightarrow> i < length (env_group E) \<Longrightarrow>
        env_group E ! i = AppCall anchor_id (ATTEST_SELECTOR # rest) lg \<Longrightarrow>
        \<exists>n b. n < uint64_limit \<and> anchor_attest s n = Inr b \<and> lg = ARC4_RETURN_PREFIX @ b"
  shows "\<exists>a. anchor_attest s bn = Inr a \<and> (\<forall>T rc. rcpt_world K T tx rc N \<and> anchor_receipts_root a = Inr (K (node_enc K T)) \<longrightarrow>
    out = receipt_spec K T tx li rc)"
  by (rule anchored_core [OF assms])

theorem anchored_log_proof_witness:
  "\<exists>E N. mpt7_result_against_anchor 3 E 1 0 5 0 0 = Inr (receipt_spec demo_keccak demo_receipts 0 0 demo_rc) \<and>
     (\<exists>a. anchor_attest dm_anchored 5 = Inr a \<and> (\<forall>T rc. rcpt_world demo_keccak T 0 rc N \<and>
        anchor_receipts_root a = Inr (demo_keccak (node_enc demo_keccak T)) \<longrightarrow>
        receipt_spec demo_keccak demo_receipts 0 0 demo_rc = receipt_spec demo_keccak T 0 0 rc))"
proof -
  let ?spec = "receipt_spec demo_keccak demo_receipts 0 0 demo_rc"
  have n: "(5::nat) < uint64_limit" by (simp add: uint64_limit_def)
  obtain E where E: "mpt7_result_against_anchor 3 E 1 0 5 0 0 = Inr ?spec"
      "rcpt_executed (mpt7_anchored_app demo_keccak 3) (trie_nodes demo_keccak demo_receipts) E"
      "\<forall>i rest lg. i < env_index E \<and> i < length (env_group E) \<and> env_group E ! i = AppCall 3 (ATTEST_SELECTOR # rest) lg \<longrightarrow>
       (\<exists>n b. n < uint64_limit \<and> anchor_attest dm_anchored n = Inr b \<and> lg = ARC4_RETURN_PREFIX @ b)"
    by (rule anchored_demo)
  have "\<exists>a. anchor_attest dm_anchored 5 = Inr a \<and> (\<forall>T rc. rcpt_world demo_keccak T 0 rc (trie_nodes demo_keccak demo_receipts) \<and>
      anchor_receipts_root a = Inr (demo_keccak (node_enc demo_keccak T)) \<longrightarrow> ?spec = receipt_spec demo_keccak T 0 0 rc)"
    by (rule anchored_log_proof [OF dm_inv n E(2) demo_small E(1)]) (use E(3) in blast)
  then show ?thesis using E(1) by blast
qed

end
