(* ===== verification/Rel_Base.thy ===== *)
theory Rel_Base
  imports AVM
begin

text \<open>
  Ground of the relayer's model: Python exceptions as values and the conversions of integers to bytes
  that can raise. The relayer's own exceptions are constructors of the same type.
\<close>

datatype py_error =
    AssertionError
  | ValueError
  | KeyError
  | IndexError
  | OverflowError
  | M6Error
  | M7Error
  | NotAnchorable
  | ForkGindexError
  | AlgodError
  | NotImplementedError
  | TierUnsupported

type_synonym 'a py = "py_error + 'a"

text \<open>\<open>bytes([v])\<close>, \<open>v.to_bytes(n, "big")\<close> and \<open>v.to_bytes(n, "little")\<close>.\<close>

definition py_byte :: "nat \<Rightarrow> bytes py" where
  "py_byte v = require (v < 256) ValueError (Inr [of_nat v])"

definition to_bytes_be :: "nat \<Rightarrow> nat \<Rightarrow> bytes py" where
  "to_bytes_be n v = require (v < 256 ^ n) OverflowError (Inr (be_bytes n v))"

definition to_bytes_le :: "nat \<Rightarrow> nat \<Rightarrow> bytes py" where
  "to_bytes_le n v = require (v < 256 ^ n) OverflowError (Inr (rev (be_bytes n v)))"

lemma py_byte_Inr [res_simps]: "py_byte v = Inr b \<longleftrightarrow> v < 256 \<and> b = [of_nat v]"
  by (auto simp: py_byte_def res_simps)

lemma to_bytes_be_Inr [res_simps]: "to_bytes_be n v = Inr b \<longleftrightarrow> v < 256 ^ n \<and> b = be_bytes n v"
  by (auto simp: to_bytes_be_def res_simps)

lemma to_bytes_le_Inr [res_simps]: "to_bytes_le n v = Inr b \<longleftrightarrow> v < 256 ^ n \<and> b = rev (be_bytes n v)"
  by (auto simp: to_bytes_le_def res_simps)

text \<open>\<open>b.ljust(n, b"\x00")\<close> and \<open>b.rjust(n, b"\x00")\<close>.\<close>

definition ljust0 :: "nat \<Rightarrow> bytes \<Rightarrow> bytes" where "ljust0 n b = b @ replicate (n - length b) 0"
definition rjust0 :: "nat \<Rightarrow> bytes \<Rightarrow> bytes" where "rjust0 n b = replicate (n - length b) 0 @ b"

lemma length_just0 [simp]: "length b \<le> n \<Longrightarrow> length (ljust0 n b) = n" "length b \<le> n \<Longrightarrow> length (rjust0 n b) = n"
  by (simp_all add: ljust0_def rjust0_def)

end
