(* ===== verification/Rel_M7.thy ===== *)
theory Rel_M7
  imports Rel_Base Rcpt_App
begin

text \<open>
  The receipt driver of the relayer (\<open>relayer/drivers/m7_receipt.py\<close>): the raw calls that prove a
  receipt, for a leaf that fits the call arguments (T1) and for one that is staged in a box (T2), and
  the decoding of the logged results. \<open>os.urandom(2)\<close> is the parameter of the box name.
\<close>

section \<open>Packing nodes into calls\<close>

definition ARG_BUDGET :: nat where "ARG_BUDGET = 1942"
definition MAX_LEAF :: nat where "MAX_LEAF = 4096"
definition SINGLE_CALL_ARG_BYTE_CAP :: nat where "SINGLE_CALL_ARG_BYTE_CAP = 2000"

record raw_call =
  rc_args :: "bytes list"
  rc_boxes :: "bytes list option"
  rc_produces_log :: bool

definition fixed_init :: "bytes \<Rightarrow> nat \<Rightarrow> nat \<Rightarrow> bytes py" where
  "fixed_init receipts_root tx_index log_index =
     rbind (to_bytes_be 8 tx_index) (\<lambda>t.
     rbind (to_bytes_be 2 log_index) (\<lambda>l. Inr (receipts_root @ t @ l)))"

text \<open>The loop of \<open>_pack_nodes\<close>: \<open>cur\<close> is the open group, \<open>cur_bytes\<close> its size with the call's fixed part.\<close>

fun pack_loop :: "nat \<Rightarrow> bytes list \<Rightarrow> bytes list \<Rightarrow> nat \<Rightarrow> bytes list list \<Rightarrow> bytes list list" where
  "pack_loop mode1_prefix_len [] cur cur_bytes groups = (if cur \<noteq> [] then groups @ [cur] else groups)"
| "pack_loop mode1_prefix_len (node # nodes) cur cur_bytes groups =
     (if cur \<noteq> [] \<and> SINGLE_CALL_ARG_BYTE_CAP < cur_bytes + length node
      then pack_loop mode1_prefix_len nodes [node] (mode1_prefix_len + length node) (groups @ [cur])
      else pack_loop mode1_prefix_len nodes (cur @ [node]) (cur_bytes + length node) groups)"

definition pack_nodes :: "bytes list \<Rightarrow> nat \<Rightarrow> nat \<Rightarrow> bytes list list" where
  "pack_nodes nodes mode0_extra mode1_prefix_len = pack_loop mode1_prefix_len nodes [] mode0_extra []"

section \<open>The walk calls\<close>

text \<open>
  The loop over the groups, from the \<open>i\<close>-th on: the first is a \<open>MODE_INIT\<close> call, every other a
  \<open>MODE_NEXT\<close> call that points at the transaction before it. \<open>logs i\<close> is the call's \<open>produces_log\<close>.
\<close>

fun walk_calls :: "bytes \<Rightarrow> nat \<Rightarrow> (nat \<Rightarrow> bool) \<Rightarrow> nat \<Rightarrow> bytes list list \<Rightarrow> raw_call list py" where
  "walk_calls fixed group_offset logs i [] = Inr []"
| "walk_calls fixed group_offset logs i (grp # groups) =
     rbind (if i = 0 then Inr [[0x52, 0x43, 0x50, 0x31], [0], [0], fixed]
            else rbind (py_byte (group_offset + i - 1)) (\<lambda>prev. Inr [[0x52, 0x43, 0x50, 0x31], [1], prev, []]))
     (\<lambda>head.
     rbind (walk_calls fixed group_offset logs (i + 1) groups) (\<lambda>rest.
     Inr (\<lparr>rc_args = head @ grp, rc_boxes = None, rc_produces_log = logs i\<rparr> # rest)))"

definition plan_receipt_calls ::
  "bytes \<Rightarrow> nat \<Rightarrow> nat \<Rightarrow> bytes list \<Rightarrow> nat \<Rightarrow> (string \<times> raw_call list) py" where
  "plan_receipt_calls receipts_root tx_index log_index nodes group_offset =
     require (nodes \<noteq> []) M7Error (
     let leaf = last nodes in
     require (length leaf \<le> ARG_BUDGET) M7Error (
     rbind (fixed_init receipts_root tx_index log_index) (\<lambda>fixed.
     let groups = pack_nodes nodes 48 6 in
     rbind (walk_calls fixed group_offset (\<lambda>i. i = length groups - 1) 0 groups) (\<lambda>calls.
     Inr (''T1'', calls)))))"

section \<open>Box staging of a large leaf\<close>

definition derive_t2_box_name :: "bytes \<Rightarrow> nat \<Rightarrow> bytes py" where
  "derive_t2_box_name urandom2 block_number =
     rbind (to_bytes_be 4 block_number) (\<lambda>b. Inr ([0x74, 0x32] @ b @ urandom2))"

text \<open>The \<open>while\<close> loop that writes the leaf in chunks of 1,900 bytes.\<close>

function write_calls :: "bytes \<Rightarrow> bytes \<Rightarrow> nat \<Rightarrow> raw_call list py" where
  "write_calls box_name leaf offset =
     (if offset < length leaf then
        let chunk = seg offset 1900 leaf in
        rbind (to_bytes_be 2 offset) (\<lambda>o2.
        rbind (write_calls box_name leaf (offset + length chunk)) (\<lambda>rest.
        Inr (\<lparr>rc_args = [[0x52, 0x43, 0x50, 0x31], [3], [0], box_name @ o2, chunk], rc_boxes = Some [box_name],
              rc_produces_log = False\<rparr> # rest)))
      else Inr [])"
  by pat_completeness auto

termination write_calls
  by (relation "measure (\<lambda>(box_name, leaf, offset). length leaf - offset)") (auto simp: seg_def)

declare write_calls.simps [simp del]

definition plan_receipt_calls_t2 ::
  "bytes \<Rightarrow> nat \<Rightarrow> nat \<Rightarrow> bytes list \<Rightarrow> bytes \<Rightarrow> nat \<Rightarrow> (string \<times> raw_call list \<times> bytes \<times> nat) py" where
  "plan_receipt_calls_t2 receipts_root tx_index log_index nodes box_name group_offset =
     require (nodes \<noteq> []) IndexError (
     let leaf = last nodes; branch_nodes = butlast nodes in
     require (ARG_BUDGET < length leaf \<and> length leaf \<le> MAX_LEAF) M7Error (
     require (branch_nodes \<noteq> []) M7Error (
     rbind (fixed_init receipts_root tx_index log_index) (\<lambda>fixed.
     let groups = pack_nodes branch_nodes 48 6 in
     rbind (walk_calls fixed group_offset (\<lambda>i. False) 0 groups) (\<lambda>walks.
     let walk_index_pointer = group_offset + length walks - 1;
         fund_amount = 2500 + 400 * (8 + length leaf) + 200000 in
     rbind (to_bytes_be 2 (length leaf)) (\<lambda>len2.
     let opening = \<lparr>rc_args = [[0x52, 0x43, 0x50, 0x31], [2], [0], box_name @ len2], rc_boxes = Some [box_name],
                    rc_produces_log = False\<rparr> in
     rbind (write_calls box_name leaf 0) (\<lambda>writes.
     rbind (py_byte walk_index_pointer) (\<lambda>ptr.
     let closing = \<lparr>rc_args = [[0x52, 0x43, 0x50, 0x31], [4], ptr, box_name @ len2], rc_boxes = Some [box_name],
                    rc_produces_log = True\<rparr> in
     Inr (''T2'', walks @ [opening] @ writes @ [closing], box_name, fund_amount)))))))))"

definition t2_box_mbr_requirement :: "nat \<Rightarrow> nat" where
  "t2_box_mbr_requirement leaf_len = 2500 + 400 * (8 + leaf_len) + 100000"

section \<open>Properties of the packing\<close>

lemma pack_loop_concat: "concat (pack_loop p nodes cur cb groups) = concat groups @ cur @ concat nodes'"
  if "nodes' = map (\<lambda>n. [n]) nodes"
  using that by (induction p nodes cur cb groups arbitrary: nodes' rule: pack_loop.induct) auto

lemma pack_nodes_concat: "concat (pack_nodes nodes m0 m1) = nodes"
proof -
  have "concat (map (\<lambda>n. [n]) nodes) = nodes" by (induction nodes) simp_all
  then show ?thesis using pack_loop_concat [OF refl, of m1 nodes "[]" m0 "[]"] by (simp add: pack_nodes_def)
qed

lemma pack_loop_nonempty: "\<forall>g\<in>set groups. g \<noteq> [] \<Longrightarrow> \<forall>g\<in>set (pack_loop p nodes cur cb groups). g \<noteq> []"
  by (induction p nodes cur cb groups rule: pack_loop.induct) auto

lemma pack_nodes_nonempty: "g \<in> set (pack_nodes nodes m0 m1) \<Longrightarrow> g \<noteq> []"
  using pack_loop_nonempty [of "[]" m1 nodes "[]" m0] by (auto simp: pack_nodes_def)

text \<open>Every group fits the cap with its fixed part, unless it is one node that does not.\<close>

definition group_fits :: "nat \<Rightarrow> bytes list \<Rightarrow> bool" where
  "group_fits extra g \<longleftrightarrow> extra + sum_list (map length g) \<le> SINGLE_CALL_ARG_BYTE_CAP \<or> length g = 1"

definition groups_fit :: "nat \<Rightarrow> nat \<Rightarrow> bytes list list \<Rightarrow> bool" where
  "groups_fit m0 m1 gs \<longleftrightarrow> (\<forall>i<length gs. group_fits (if i = 0 then m0 else m1) (gs ! i))"

lemma groups_fit_snoc:
  "groups_fit m0 m1 (gs @ [g]) \<longleftrightarrow> groups_fit m0 m1 gs \<and> group_fits (if gs = [] then m0 else m1) g"
  by (auto simp: groups_fit_def nth_append less_Suc_eq)

lemma pack_loop_fits:
  "groups_fit m0 m1 groups \<Longrightarrow> cb = (if groups = [] then m0 else m1) + sum_list (map length cur) \<Longrightarrow>
   (cur \<noteq> [] \<longrightarrow> group_fits (if groups = [] then m0 else m1) cur) \<Longrightarrow>
   groups_fit m0 m1 (pack_loop m1 nodes cur cb groups)"
proof (induction m1 nodes cur cb groups rule: pack_loop.induct)
  case (2 m1 node nodes cur cb groups)
  show ?case
  proof (cases "cur \<noteq> [] \<and> SINGLE_CALL_ARG_BYTE_CAP < cb + length node")
    case True
    then show ?thesis using 2 by (simp add: groups_fit_snoc group_fits_def)
  next
    case False
    then show ?thesis using 2 by (cases "cur = []") (auto simp: group_fits_def)
  qed
qed (simp add: groups_fit_snoc)

lemma pack_nodes_fit: "groups_fit m0 m1 (pack_nodes nodes m0 m1)"
  unfolding pack_nodes_def by (rule pack_loop_fits) (simp_all add: groups_fit_def)

end
