(* ===== verification/Rel_Exec.thy ===== *)
theory Rel_Exec
  imports Rel_M7 Rcpt_Live
begin

text \<open>
  Running the relayer's plans on the receipt verifiers: the calls of a plan are executed one after the
  other, each sees the transactions before it with what they logged, and the boxes are threaded through.
\<close>

section \<open>Execution of a list of calls\<close>

fun exec_calls :: "(boxes \<Rightarrow> env \<Rightarrow> rcpt_out) \<Rightarrow> nat \<Rightarrow> gtxn list \<Rightarrow> boxes \<Rightarrow> raw_call list \<Rightarrow> (gtxn list \<times> boxes) res" where
  "exec_calls A app G bs [] = Inr (G, bs)"
| "exec_calls A app G bs (c # cs) =
     rbind (A bs (env_at app G (length G) (rc_args c))) (\<lambda>(bs', lo).
     exec_calls A app (G @ [AppCall app (rc_args c) (logged_bytes lo)]) bs' cs)"

lemma exec_calls_append:
  "exec_calls A app G bs (cs @ ds) = rbind (exec_calls A app G bs cs) (\<lambda>(G', bs'). exec_calls A app G' bs' ds)"
proof (induction cs arbitrary: G bs)
  case (Cons c cs)
  then show ?case by (cases "A bs (env_at app G (length G) (rc_args c))") auto
qed simp

section \<open>What the drivers do with the planned calls\<close>

text \<open>
  Both drivers run the calls of an honest prover: \<open>MODE_INIT\<close>, \<open>MODE_NEXT\<close> from an undecided result,
  and the staging modes.
\<close>

definition next_args :: "nat \<Rightarrow> bytes list \<Rightarrow> bytes list" where
  "next_args gi nodes = [RCPT_SELECTOR, [1], [of_nat gi], []] @ nodes"

lemma next_run:
  assumes p: "mpt7_state_from_prev (env_at app G i (next_args gi nodes)) gi = Inr (w, r)" and gi: "gi < 256"
    and o: "r_rstatus r = Inr R_INCOMPLETE" and walk: "walk7 K r w nodes = Inr (w', r')"
    and A: "A = mpt7_receipt_app K \<or> A = mpt7_anchored_app K anchor_id"
  shows "A bs (env_at app G i (next_args gi nodes)) = rbind (mpt7_log_state w' r') (\<lambda>lg. Inr (bs, Some lg))"
proof -
  have g: "unat (of_nat gi :: byte) = gi" by (rule unat_of_nat_byte [OF gi])
  have f: "env_args (env_at app G i (next_args gi nodes)) = [RCPT_SELECTOR, [1], [of_nat gi], []] @ nodes"
    by (simp add: env_at_def next_args_def)
  have a: "app_arg (env_at app G i (next_args gi nodes)) 0 = Inr RCPT_SELECTOR"
    "app_arg (env_at app G i (next_args gi nodes)) 1 = Inr [1]"
    "app_arg (env_at app G i (next_args gi nodes)) 2 = Inr [of_nat gi]"
    by (simp_all add: app_arg_def f del: One_nat_def)
  have d: "drop 4 (env_args (env_at app G i (next_args gi nodes))) = nodes" by (simp add: f)
  have ne: "env_args (env_at app G i (next_args gi nodes)) \<noteq> []" by (simp add: f)
  have m: "btoi [1 :: byte] = Inr MODE_NEXT" "MODE_NEXT \<noteq> MODE_INIT" by (simp_all add: rcpt_mode_defs)
  have b: "btoi [of_nat gi :: byte] = Inr gi" by (simp add: g)
  have "mpt7_receipt_app K bs (env_at app G i (next_args gi nodes)) = rbind (mpt7_log_state w' r') (\<lambda>lg. Inr (bs, Some lg))"
    unfolding mpt7_receipt_app_def if_not_P [OF ne] a rbind_Inr m(1) b if_not_P [OF m(2)]
    using p o walk by (simp add: walk7_args_def d)
  moreover have "mpt7_anchored_app K anchor_id bs (env_at app G i (next_args gi nodes)) =
      rbind (mpt7_log_state w' r') (\<lambda>lg. Inr (bs, Some lg))"
    unfolding mpt7_anchored_app_def if_not_P [OF ne] a rbind_Inr m(1) b if_not_P [OF m(2)]
    using p o walk by (simp add: walk7_anchored_eq d)
  ultimately show ?thesis using A by blast
qed

text \<open>The state the last transaction of a group logged.\<close>

definition logged_state :: "nat \<Rightarrow> gtxn list \<Rightarrow> bytes \<Rightarrow> bytes \<Rightarrow> bool" where
  "logged_state app G w r \<longleftrightarrow> G \<noteq> [] \<and> (\<exists>rest lg. last G = AppCall app (RCPT_SELECTOR # rest) lg \<and> mpt7_log_state w r = Inr lg)"

lemma logged_recover:
  assumes "logged_state app G w r" and "length G \<le> i"
  shows "mpt7_state_from_prev (env_at app G i args) (length G - 1) = Inr (w, r)"
proof -
  obtain rest lg where g: "G \<noteq> []" "last G = AppCall app (RCPT_SELECTOR # rest) lg" "mpt7_log_state w r = Inr lg"
    using assms(1) by (auto simp: logged_state_def)
  have "length G - 1 < length G" using g(1) by simp
  moreover have "G ! (length G - 1) = AppCall app (RCPT_SELECTOR # rest) lg" using g(1,2) by (simp add: last_conv_nth)
  ultimately show ?thesis using assms(2) g(3)
    by (intro rcpt_recover_logged) (auto simp: env_at_def)
qed

text \<open>
  A walk that stays open over \<open>ns\<close> and is decided by \<open>node\<close>, cut into groups: every call but the last
  leaves the result as it was, the last carries the decided one.
\<close>

definition finishing :: "(bytes \<Rightarrow> bytes) \<Rightarrow> bytes \<Rightarrow> bytes \<Rightarrow> bytes list \<Rightarrow> bytes \<Rightarrow> bytes \<Rightarrow> bool" where
  "finishing K w r nodes w' r' \<longleftrightarrow> (\<exists>ns node w1 off n. nodes = ns @ [node] \<and> walk_nodes K w ns = Inr w1 \<and>
     mpt_walk_node K node w1 = Inr (w', off, n) \<and> finalize_if_terminal K w' r node off n = Inr r')"

lemma finishing_split:
  assumes f: "finishing K w r (g @ rest) w' r'" and "rest \<noteq> []"
  shows "\<exists>w1. walk7 K r w g = Inr (w1, r) \<and> finishing K w1 r rest w' r' \<and> walk_nodes K w g = Inr w1"
proof -
  from f obtain ns node w1 off n where h: "g @ rest = ns @ [node]" "walk_nodes K w ns = Inr w1"
    "mpt_walk_node K node w1 = Inr (w', off, n)" "finalize_if_terminal K w' r node off n = Inr r'"
    unfolding finishing_def by blast
  have ns: "ns = g @ butlast rest" "node = last rest"
    using h(1) assms(2) by (metis butlast_append butlast_snoc, metis last_appendR last_snoc)
  from h(2) obtain w0 where w0: "walk_nodes K w g = Inr w0" "walk_nodes K w0 (butlast rest) = Inr w1"
    unfolding ns walk_nodes_append by (auto simp: res_simps)
  have o1: "w_status w1 = Inr WALK_CONTINUE" using h(3) by (auto simp: mpt_walk_node_def res_simps)
  have o0: "w_status w0 = Inr WALK_CONTINUE" by (rule walk_nodes_open [OF w0(2) o1])
  have "walk7 K r w (g @ []) = walk7 K r w0 []" by (rule walk7_open [OF w0(1) o0])
  then have "walk7 K r w g = Inr (w0, r)" by simp
  moreover have "finishing K w0 r rest w' r'"
    unfolding finishing_def using w0(2) h(3,4) ns(2) assms(2) by (metis append_butlast_last_id)
  ultimately show ?thesis using w0(1) by blast
qed

lemma finishing_walk7: "finishing K w r nodes w' r' \<Longrightarrow> walk7 K r w nodes = Inr (w', r')"
  unfolding finishing_def using walk7_close by blast


text \<open>
  A segment of a walk, possibly empty: it stays open and leaves the result, or its last node decides it.
\<close>

definition segment :: "(bytes \<Rightarrow> bytes) \<Rightarrow> bytes \<Rightarrow> bytes \<Rightarrow> bytes list \<Rightarrow> bytes \<Rightarrow> bytes \<Rightarrow> bool" where
  "segment K w r nodes w' r' \<longleftrightarrow> finishing K w r nodes w' r' \<or>
     (walk_nodes K w nodes = Inr w' \<and> (nodes = [] \<or> w_status w' = Inr WALK_CONTINUE) \<and> r' = r)"

lemma segment_empty [simp]: "segment K w r [] w' r' \<longleftrightarrow> w' = w \<and> r' = r"
  by (auto simp: segment_def finishing_def)

lemma segment_walk7: "segment K w r nodes w' r' \<Longrightarrow> walk7 K r w nodes = Inr (w', r')"
  using walk7_open [of K w nodes w' r "[]"] by (auto simp: segment_def dest: finishing_walk7)

lemma segment_length: "segment K w r nodes w' r' \<Longrightarrow> length w' = length w"
  using walk_nodes_length walk_node_frame by (auto simp: segment_def finishing_def walk_frame_def)

lemma segment_close:
  "walk_nodes K w ns = Inr w1 \<Longrightarrow> mpt_walk_node K node w1 = Inr (w', off, n) \<Longrightarrow>
   finalize_if_terminal K w' r node off n = Inr r' \<Longrightarrow> segment K w r (ns @ [node]) w' r'"
  unfolding segment_def finishing_def by blast

lemma segment_split:
  assumes s: "segment K w r (g @ rest) w' r'"
  obtains w1 r1 where "segment K w r g w1 r1" "segment K w1 r1 rest w' r'" "rest \<noteq> [] \<longrightarrow> r1 = r"
proof (cases "rest = []")
  case True
  then show ?thesis using s that [of w' r'] by simp
next
  case ne: False
  show ?thesis
  proof (cases "finishing K w r (g @ rest) w' r'")
    case True
    from finishing_split [OF this ne] obtain w1 where w1: "walk7 K r w g = Inr (w1, r)" "finishing K w1 r rest w' r'"
      "walk_nodes K w g = Inr w1" by blast
    have "w_status w1 = Inr WALK_CONTINUE" using w1(2) walk_nodes_open
      by (fastforce simp: finishing_def mpt_walk_node_def res_simps)
    then show ?thesis using w1 by (intro that [of w1 r]) (simp_all add: segment_def)
  next
    case False
    then obtain w1 where w1: "walk_nodes K w g = Inr w1" "walk_nodes K w1 rest = Inr w'"
      and o: "w_status w' = Inr WALK_CONTINUE" "r' = r"
      using s ne by (auto simp: segment_def walk_nodes_append res_simps)
    then show ?thesis using walk_nodes_open [OF w1(2) o(1)] by (intro that [of w1 r]) (simp_all add: segment_def)
  qed
qed

section \<open>The calls of a plan, executed\<close>

lemma rcpt_log_ok: "length w = W_LEN \<Longrightarrow> length r = R_LEN \<Longrightarrow> \<exists>lg. mpt7_log_state w r = Inr lg"
  by (simp add: mpt7_log_state_def Let_def)

lemma logged_state_snoc:
  "mpt7_log_state w r = Inr lg \<Longrightarrow> logged_state app (G @ [AppCall app (RCPT_SELECTOR # rest) lg]) w r"
  by (auto simp: logged_state_def)

text \<open>The \<open>MODE_NEXT\<close> calls, from a group whose last transaction logged the state before them.\<close>

lemma next_calls_run:
  assumes A: "A = mpt7_receipt_app K \<or> A = mpt7_anchored_app K anchor_id" and rl: "length r' = R_LEN"
  shows "logged_state app G w r \<Longrightarrow> length w = W_LEN \<Longrightarrow> length r = R_LEN \<Longrightarrow> length G = off + i \<Longrightarrow> 0 < i \<Longrightarrow>
    off + i + length gs \<le> 256 \<Longrightarrow> \<forall>g\<in>set gs. g \<noteq> [] \<Longrightarrow> (gs \<noteq> [] \<longrightarrow> r_rstatus r = Inr R_INCOMPLETE) \<Longrightarrow>
    segment K w r (concat gs) w' r' \<Longrightarrow>
    \<exists>cs G'. walk_calls fixed off logs i gs = Inr cs \<and> length cs = length gs \<and> length G' = length gs \<and>
      (\<forall>bs. exec_calls A app G bs cs = Inr (G @ G', bs)) \<and> logged_state app (G @ G') w' r'"
proof (induction gs arbitrary: G w r i)
  case Nil
  then show ?case by simp
next
  case (Cons g gs)
  obtain w1 r1 where s: "segment K w r g w1 r1" "segment K w1 r1 (concat gs) w' r'" "concat gs \<noteq> [] \<longrightarrow> r1 = r"
    using segment_split [of K w r g "concat gs" w' r'] Cons.prems(9) by auto
  have ne: "gs \<noteq> [] \<Longrightarrow> concat gs \<noteq> []" using Cons.prems(7) by (cases gs) auto
  have l: "length w1 = W_LEN" using segment_length [OF s(1)] Cons.prems(2) by simp
  have r: "length r1 = R_LEN" using s(2,3) Cons.prems(3) rl by (cases "concat gs = []") auto
  obtain lg where lg: "mpt7_log_state w1 r1 = Inr lg" using rcpt_log_ok [OF l r] by blast
  let ?gi = "length G - 1" and ?args = "next_args (length G - 1) g"
  have gi: "?gi < 256" "off + i - 1 = ?gi" using Cons.prems(4,5,6) by simp_all
  have o: "r_rstatus r = Inr R_INCOMPLETE" using Cons.prems(8) by simp
  have run: "A bs (env_at app G (length G) ?args) = Inr (bs, Some lg)" for bs
    using next_run [OF logged_recover [OF Cons.prems(1) order_refl] gi(1) o segment_walk7 [OF s(1)] A, of bs] lg by simp
  let ?t = "AppCall app ?args lg"
  have st: "logged_state app (G @ [?t]) w1 r1" unfolding next_args_def by (simp add: logged_state_snoc [OF lg])
  have len: "length (G @ [?t]) = off + (i + 1)" "off + (i + 1) + length gs \<le> 256" using Cons.prems(4,6) by simp_all
  from Cons.IH [OF st l r len(1) _ len(2) _ _ s(2)] obtain cs G' where h: "walk_calls fixed off logs (i + 1) gs = Inr cs"
    "length cs = length gs" "length G' = length gs" "\<And>bs. exec_calls A app (G @ [?t]) bs cs = Inr ((G @ [?t]) @ G', bs)"
    "logged_state app ((G @ [?t]) @ G') w' r'" using Cons.prems(7) o s(3) ne by auto
  have head: "py_byte (off + i - 1) = Inr [of_nat ?gi]" using gi by (simp add: py_byte_def)
  let ?c = "\<lparr>rc_args = ?args, rc_boxes = None, rc_produces_log = logs i\<rparr>"
  have c: "walk_calls fixed off logs i (g # gs) = Inr (?c # cs)"
    using Cons.prems(5) head h(1) by (simp add: next_args_def RCPT_SELECTOR_def)
  have "exec_calls A app G bs (?c # cs) = Inr (G @ (?t # G'), bs)" for bs
    using run [of bs] h(4) by (simp add: logged_bytes_def)
  then show ?case using c h(2,3,5) by (intro exI [of _ "?c # cs"] exI [of _ "?t # G'"]) simp
qed

end
