(* ===== verification/Rel_Logs.thy ===== *)
theory Rel_Logs
  imports Rel_M7 Rcpt_Sound Comp_App Anchor_Handoff
begin

text \<open>
  The relayer's reading of the contracts' logs: the three envelopes of \<open>relayer/group/logs.py\<close> and the
  decoders of the receipt driver (\<open>relayer/drivers/m7_receipt.py\<close>). A \<open>hex()\<close> of the source is
  \<open>py_hex\<close>; the dictionaries of the decoders are records.
\<close>

section \<open>Text\<close>

definition hex_digit :: "nat \<Rightarrow> char" where "hex_digit n = ''0123456789abcdef'' ! n"

definition py_hex :: "bytes \<Rightarrow> string" where
  "py_hex b = concat (map (\<lambda>x. [hex_digit (unat x div 16), hex_digit (unat x mod 16)]) b)"

fun py_str :: "nat \<Rightarrow> string" where
  "py_str n = (if n < 10 then [hex_digit n] else py_str (n div 10) @ [hex_digit (n mod 10)])"

declare py_str.simps [simp del]

section \<open>The envelopes\<close>

datatype producer = M5_M6 | M7 | M8_ATTEST

definition ENVELOPE_W_LEN :: nat where "ENVELOPE_W_LEN = 101"

fun envelope_total_len :: "producer \<Rightarrow> nat" where
  "envelope_total_len M5_M6 = 4 + 2 + 101 + 248"
| "envelope_total_len M7 = 4 + 2 + 101 + 240"
| "envelope_total_len M8_ATTEST = 4 + 154"

record decoded_log =
  dl_producer :: producer
  dl_w :: "bytes option"
  dl_payload :: bytes

definition decode_log :: "bytes \<Rightarrow> producer \<Rightarrow> decoded_log py" where
  "decode_log log_bytes producer =
     (let expected = envelope_total_len producer in
     require (length log_bytes = expected) AssertionError (
     require (seg 0 4 log_bytes = [0x15, 0x1f, 0x7c, 0x75]) AssertionError (
     if producer = M8_ATTEST then Inr \<lparr>dl_producer = producer, dl_w = None, dl_payload = drop 4 log_bytes\<rparr>
     else
       let payload_len = be_val (seg 4 2 log_bytes) in
       require (payload_len = expected - 6) AssertionError (
       let w = seg 6 ENVELOPE_W_LEN log_bytes; payload = drop (6 + ENVELOPE_W_LEN) log_bytes in
       Inr \<lparr>dl_producer = producer, dl_w = Some w, dl_payload = payload\<rparr>))))"

text \<open>Each contract's log is read back.\<close>

lemma length_prefix4: "length ARC4_RETURN_PREFIX = 4"
  by (simp add: ARC4_RETURN_PREFIX_def)

lemma decode_envelope:
  assumes "length w = 101" and "length p = n" and "n + 101 < 65536" and "producer \<noteq> M8_ATTEST"
    and "envelope_total_len producer = 107 + n"
  shows "decode_log (ARC4_RETURN_PREFIX @ low_bytes2 (101 + n) @ w @ p) producer =
    Inr \<lparr>dl_producer = producer, dl_w = Some w, dl_payload = p\<rparr>"
proof -
  let ?l = "ARC4_RETURN_PREFIX @ low_bytes2 (101 + n) @ w @ p"
  have len: "length ?l = 107 + n" using assms(1,2) by (simp add: length_prefix4 del: append.simps)
  have "seg 0 4 ?l = ARC4_RETURN_PREFIX" using seg_at [of "[]" 0 ARC4_RETURN_PREFIX 4] by (simp add: length_prefix4)
  moreover have "seg 4 2 ?l = low_bytes2 (101 + n)" by (rule seg_at) (simp_all add: length_prefix4)
  moreover have "seg 6 101 ?l = w" using seg_at [of "ARC4_RETURN_PREFIX @ low_bytes2 (101 + n)" 6 w 101 p] assms(1)
    by (simp add: length_prefix4)
  moreover have "drop 107 ?l = p" using assms(1) by (simp add: length_prefix4)
  moreover have "be_val (low_bytes2 (101 + n)) = 101 + n" using assms(3) by (simp add: low_bytes2_eq be_val_be_bytes del: be_bytes.simps)
  ultimately show ?thesis using len assms(4,5)
    by (simp add: decode_log_def Let_def require_def ENVELOPE_W_LEN_def) (simp add: ARC4_RETURN_PREFIX_def)
qed

lemma decode_receipt_log:
  "mpt7_log_state w r = Inr lg \<Longrightarrow> decode_log lg M7 = Inr \<lparr>dl_producer = M7, dl_w = Some w, dl_payload = r\<rparr>"
  using decode_envelope [of w r 240 M7]
  by (auto simp: mpt7_log_state_def res_simps low_bytes2_def [symmetric] W_LEN_def R_LEN_def Let_def)

lemma decode_composer_log:
  "mpt6_log_state w c = Inr lg \<Longrightarrow> decode_log lg M5_M6 = Inr \<lparr>dl_producer = M5_M6, dl_w = Some w, dl_payload = c\<rparr>"
  using decode_envelope [of w c 248 M5_M6]
  by (auto simp: mpt6_log_state_def res_simps low_bytes2_def [symmetric] W_LEN_def C_LEN_def Let_def)

lemma decode_attest_log:
  "length a = 154 \<Longrightarrow> decode_log (ARC4_RETURN_PREFIX @ a) M8_ATTEST =
     Inr \<lparr>dl_producer = M8_ATTEST, dl_w = None, dl_payload = a\<rparr>"
  by (simp add: decode_log_def Let_def require_def length_prefix4 seg_def ARC4_RETURN_PREFIX_def)

section \<open>The receipt driver's decoders\<close>

definition rstatus_name :: "nat \<Rightarrow> string" where
  "rstatus_name v =
     (if v = 0 then ''R_INCOMPLETE'' else if v = 1 then ''R_INCLUDED'' else if v = 2 then ''R_ABSENT''
      else if v = 3 then ''R_NO_SUCH_LOG'' else if v = 4 then ''R_ZERO_LOGS'' else ''unknown('' @ py_str v @ '')'')"

record receipt_view =
  rv_rstatus :: nat
  rv_receipts_root :: string
  rv_tx_index :: nat
  rv_log_index :: nat
  rv_tx_type :: nat
  rv_status :: nat
  rv_cumulative_gas_used :: nat
  rv_address :: string
  rv_n_topics :: nat
  rv_topics :: "string list"
  rv_data_hash :: string
  rv_data_len :: nat
  rv_wstatus :: nat
  rv_n_logs :: nat
  rv_rstatus_name :: string

definition decode_r :: "bytes \<Rightarrow> receipt_view py" where
  "decode_r log_bytes =
     rbind (decode_log log_bytes M7) (\<lambda>decoded.
     let r = dl_payload decoded; at = (\<lambda>i. unat (r ! i)) in
     let result = \<lparr>rv_rstatus = at 0, rv_receipts_root = py_hex (seg 1 32 r), rv_tx_index = be_val (seg 33 8 r),
         rv_log_index = be_val (seg 41 2 r), rv_tx_type = at 43, rv_status = at 44,
         rv_cumulative_gas_used = be_val (seg 45 8 r), rv_address = py_hex (seg 53 20 r), rv_n_topics = at 73,
         rv_topics = map (\<lambda>i. py_hex (seg (74 + 32 * i) 32 r)) [0..<at 73], rv_data_hash = py_hex (seg 202 32 r),
         rv_data_len = be_val (seg 234 4 r), rv_wstatus = at 238, rv_n_logs = at 239,
         rv_rstatus_name = rstatus_name (at 0)\<rparr> in
     require (rv_rstatus result \<noteq> 0) M7Error (Inr result))"

lemma getbyte_nth: "getbyte b i = Inr v \<Longrightarrow> unat (b ! i) = v"
  by (auto simp: getbyte_def split: if_splits)

lemma bextract_seg: "bextract b i n = Inr v \<Longrightarrow> seg i n b = v"
  by (auto simp: bextract_def split: if_splits)

text \<open>What the decoder shows of a result, and that it shows it.\<close>

definition view_of :: "result \<Rightarrow> receipt_view" where
  "view_of a = \<lparr>rv_rstatus = rr_rstatus a, rv_receipts_root = py_hex (rr_receipts_root a), rv_tx_index = rr_tx_index a,
     rv_log_index = rr_log_index a, rv_tx_type = rr_tx_type a, rv_status = rr_status a,
     rv_cumulative_gas_used = be_val (rr_cum_gas a), rv_address = py_hex (rr_address a), rv_n_topics = rr_n_topics a,
     rv_topics = map (\<lambda>i. py_hex (seg (32 * i) 32 (rr_topics a))) [0..<rr_n_topics a],
     rv_data_hash = py_hex (rr_data_hash a), rv_data_len = rr_data_len a, rv_wstatus = rr_wstatus a,
     rv_n_logs = rr_n_logs a, rv_rstatus_name = rstatus_name (rr_rstatus a)\<rparr>"

lemma btoi_seg: "rbind (bextract b i n) btoi = Inr v \<Longrightarrow> be_val (seg i n b) = v"
  by (auto simp: rbind_eq_Inr bextract_def btoi_def split: if_splits)

lemma decode_r_view:
  assumes lg: "mpt7_log_state w (r_encode a) = Inr lg" and a: "r_ok a" "rr_rstatus a \<noteq> R_INCOMPLETE" "rr_n_topics a \<le> 4"
  shows "decode_r lg = Inr (view_of a)"
proof -
  let ?r = "r_encode a"
  note g = r_encode_get [OF a(1)]
  have bytes: "unat (?r ! 0) = rr_rstatus a" "unat (?r ! 43) = rr_tx_type a" "unat (?r ! 44) = rr_status a"
    "unat (?r ! 73) = rr_n_topics a" "unat (?r ! 238) = rr_wstatus a" "unat (?r ! 239) = rr_n_logs a"
    using getbyte_nth [OF g(1) [unfolded r_rstatus_def]] getbyte_nth [OF g(5) [unfolded r_tx_type_def]]
      getbyte_nth [OF g(6) [unfolded r_status_def]] getbyte_nth [OF g(8) [unfolded r_n_topics_def]]
      getbyte_nth [OF g(12) [unfolded r_wstatus_def]] getbyte_nth [OF g(13) [unfolded r_n_logs_def]] .
  have segs: "seg 1 32 ?r = rr_receipts_root a" "seg 53 20 ?r = rr_address a" "seg 202 32 ?r = rr_data_hash a"
    using bextract_seg [OF g(2) [unfolded r_receipts_root_def]] bextract_seg [OF g(7) [unfolded r_address_def]]
      bextract_seg [OF g(10) [unfolded r_data_hash_def]] .
  have topics: "seg 74 128 ?r = rr_topics a" using bextract_seg [OF g(9) [unfolded r_topics_def]] .
  have nums: "be_val (seg 33 8 ?r) = rr_tx_index a" "be_val (seg 234 4 ?r) = rr_data_len a"
    using btoi_seg [OF g(3) [unfolded r_tx_index_def]] btoi_seg [OF g(11) [unfolded r_data_len_def]] .
  have gas: "seg 45 8 ?r = rr_cum_gas a"
    by (intro bextract_seg, subst r_extract [OF a(1), of 6]) (simp_all add: R_WIDTHS_def r_fields_def)
  have "seg 41 2 ?r = be_bytes 2 (rr_log_index a)"
    by (intro bextract_seg, subst r_extract [OF a(1), of 3]) (simp_all add: R_WIDTHS_def r_fields_def)
  then have li: "be_val (seg 41 2 ?r) = rr_log_index a" using a(1) by (simp add: r_ok_def be_val_be_bytes del: be_bytes.simps)
  have t: "seg (74 + 32 * i) 32 ?r = seg (32 * i) 32 (rr_topics a)" if "i < rr_n_topics a" for i
    using that a(3) seg_seg [of "32 * i" 32 128 74 ?r] topics by simp
  have topics_list: "map (\<lambda>i. py_hex (seg (74 + 32 * i) 32 ?r)) [0..<rr_n_topics a] =
      map (\<lambda>i. py_hex (seg (32 * i) 32 (rr_topics a))) [0..<rr_n_topics a]"
    by (rule map_cong [OF refl]) (simp add: t)
  show ?thesis unfolding decode_r_def decode_receipt_log [OF lg] rbind_Inr Let_def decoded_log.select_convs bytes segs nums gas li
      topics_list receipt_view.select_convs view_of_def
    using a(2) by (simp add: require_def R_INCOMPLETE_def)
qed

section \<open>The combined check\<close>

definition build_against_anchor_check_args :: "nat \<Rightarrow> nat \<Rightarrow> nat \<Rightarrow> nat \<Rightarrow> nat \<Rightarrow> bytes list py" where
  "build_against_anchor_check_args prev_gi anchor_gi block_number tx_index log_index =
     rbind (to_bytes_be 8 anchor_gi) (\<lambda>a. rbind (to_bytes_be 8 block_number) (\<lambda>b.
     rbind (to_bytes_be 8 tx_index) (\<lambda>t. rbind (to_bytes_be 2 log_index) (\<lambda>l.
     rbind (to_bytes_be 8 prev_gi) (\<lambda>p.
     Inr [[0x52, 0x43, 0x50, 0x31], [5], p, a @ b @ t @ l])))))"

record anchored_view =
  av_rstatus :: nat
  av_address :: string
  av_n_topics :: nat
  av_topics128 :: string
  av_data_hash :: string
  av_data_len :: nat
  av_status :: nat
  av_tx_type :: nat
  av_rstatus_name :: string

definition decode_against_anchor :: "bytes \<Rightarrow> anchored_view py" where
  "decode_against_anchor log_bytes =
     require (seg 0 4 log_bytes = [0x15, 0x1f, 0x7c, 0x75]) AssertionError (
     let out = drop 4 log_bytes in
     require (length out = 220) AssertionError (
     let result = \<lparr>av_rstatus = be_val (seg 0 8 out), av_address = py_hex (seg 8 20 out),
         av_n_topics = be_val (seg 28 8 out), av_topics128 = py_hex (seg 36 128 out),
         av_data_hash = py_hex (seg 164 32 out), av_data_len = be_val (seg 196 8 out),
         av_status = be_val (seg 204 8 out), av_tx_type = be_val (seg 212 8 out),
         av_rstatus_name = rstatus_name (be_val (seg 0 8 out))\<rparr> in
     require (av_rstatus result \<noteq> 0) M7Error (Inr result)))"

end
