(* ===== verification/Rel_Receipts.thy ===== *)
theory Rel_Receipts
  imports MPT_Trie Rcpt_Decode Rel_Base "HOL-Library.List_Lexorder" "HOL-Library.Product_Lexorder"
begin

text \<open>
  The relayer's receipts trie (\<open>relayer/proofs/receipts_trie.py\<close>): from the receipts of a block it
  rebuilds the trie and returns its root hash and the nodes on the path of one transaction. The
  packages it calls are parameters: \<open>enc\<close> for \<open>rlp.encode\<close> and \<open>K\<close> for Keccak-256. The hex strings and
  quantities of the JSON receipts are taken after their decoding (\<open>_hx\<close>, \<open>_qi\<close>).
\<close>

section \<open>Receipts of the JSON-RPC interface\<close>

record json_receipt =
  jr_index :: "nat option"
  jr_type :: "nat option"
  jr_status :: "nat option"
  jr_gas :: nat
  jr_bloom :: bytes
  jr_logs :: "eth_log list"

definition encode_receipt :: "(rlp \<Rightarrow> bytes) \<Rightarrow> json_receipt \<Rightarrow> bytes py" where
  "encode_receipt enc r =
     (let logs = map (\<lambda>l. RList [RStr (el_address l), RList (map RStr (el_topics l)), RStr (el_data l)]) (jr_logs r);
          status = (case jr_status r of None \<Rightarrow> 1 | Some s \<Rightarrow> s);
          body = RList [RStr (if status = 0 then [] else [1]), RStr (be_min (jr_gas r)), RStr (jr_bloom r), RList logs];
          e = enc body;
          ty = (case jr_type r of None \<Rightarrow> 0 | Some t \<Rightarrow> t) in
      if ty \<noteq> 0 then require (ty < 256) ValueError (Inr (of_nat ty # e)) else Inr e)"

section \<open>Nibbles and hex-prefix paths\<close>

fun rt_nib :: "bytes \<Rightarrow> nat list" where
  "rt_nib [] = []"
| "rt_nib (x # b) = [unat (drop_bit 4 x), unat (and x 15)] @ rt_nib b"

text \<open>The loop of \<open>_hp\<close> over the pairs of \<open>rest\<close>, which has even length.\<close>

fun hp_pairs :: "nat list \<Rightarrow> bytes" where
  "hp_pairs (a # b # rest) = of_nat (a * 16 + b) # hp_pairs rest"
| "hp_pairs _ = []"

definition rt_hp :: "nat list \<Rightarrow> bool \<Rightarrow> bytes" where
  "rt_hp nibbles leaf =
     (let flag = (if leaf then 2 else 0) in
      if length nibbles mod 2 \<noteq> 0 then of_nat ((flag + 1) * 16 + hd nibbles) # hp_pairs (tl nibbles)
      else of_nat (flag * 16) # hp_pairs nibbles)"

section \<open>Building the trie\<close>

text \<open>The \<open>while\<close> loop that finds the common prefix of the keys beyond \<open>depth\<close>.\<close>

function common_prefix :: "nat list list \<Rightarrow> nat \<Rightarrow> nat \<Rightarrow> nat" where
  "common_prefix keys depth pref =
     (if (\<forall>k\<in>set keys. depth + pref < length k) \<and> card ((\<lambda>k. k ! (depth + pref)) ` set keys) = 1
      then common_prefix keys depth (pref + 1) else pref)"
  by pat_completeness auto

lemma common_prefix_hd:
  assumes "\<forall>k\<in>set keys. depth + pref < length k" and "card ((\<lambda>k. k ! (depth + pref)) ` set keys) = 1"
  shows "keys \<noteq> [] \<and> depth + pref < length (hd keys)"
  using assms by (cases keys) auto

termination common_prefix
  by (relation "measure (\<lambda>(keys, depth, pref). length (hd keys) - (depth + pref))") (use common_prefix_hd in fastforce)+

declare common_prefix.simps [simp del]

lemma common_prefix_ge: "pref \<le> common_prefix keys depth pref"
proof (induction keys depth pref rule: common_prefix.induct)
  case (1 keys depth pref)
  show ?case unfolding common_prefix.simps [of keys depth pref] using "1.IH" by (auto split: if_splits)
qed

text \<open>What holds at every step of the loop holds of the prefix it finds.\<close>

lemma common_prefix_inv:
  assumes "\<forall>k\<in>set keys. depth + pref \<le> length k"
    and "\<forall>k\<in>set keys. \<forall>l\<in>set keys. take pref (drop depth k) = take pref (drop depth l)"
  shows "(\<forall>k\<in>set keys. depth + common_prefix keys depth pref \<le> length k) \<and>
    (\<forall>k\<in>set keys. \<forall>l\<in>set keys. take (common_prefix keys depth pref) (drop depth k) =
       take (common_prefix keys depth pref) (drop depth l))"
  using assms
proof (induction keys depth pref rule: common_prefix.induct)
  case (1 keys depth pref)
  show ?case
  proof (cases "(\<forall>k\<in>set keys. depth + pref < length k) \<and> card ((\<lambda>k. k ! (depth + pref)) ` set keys) = 1")
    case True
    then obtain x where x: "(\<lambda>k. k ! (depth + pref)) ` set keys = {x}" by (auto simp: card_1_singleton_iff)
    have one: "take (pref + 1) (drop depth k) = take pref (drop depth k) @ [x]" if "k \<in> set keys" for k
    proof -
      have "k ! (depth + pref) = x" using x that by blast
      moreover have "pref < length (drop depth k)" using True that by (simp add: less_diff_conv add.commute)
      ultimately show ?thesis by (simp add: take_Suc_conv_app_nth add.commute)
    qed
    have len: "\<forall>k\<in>set keys. depth + (pref + 1) \<le> length k" using True by auto
    have eq: "\<forall>k\<in>set keys. \<forall>l\<in>set keys. take (pref + 1) (drop depth k) = take (pref + 1) (drop depth l)"
      using one "1.prems"(2) by metis
    have "common_prefix keys depth pref = common_prefix keys depth (pref + 1)"
      unfolding common_prefix.simps [of keys depth pref] by (rule if_P [OF True])
    then show ?thesis using "1.IH" [OF True len eq] by (simp only:)
  next
    case False
    have "common_prefix keys depth pref = pref"
      unfolding common_prefix.simps [of keys depth pref] by (rule if_not_P [OF False])
    then show ?thesis using "1.prems" by (simp only:)
  qed
qed

lemma common_prefix_bound:
  "\<forall>k\<in>set keys. depth \<le> length k \<Longrightarrow> k \<in> set keys \<Longrightarrow> depth + common_prefix keys depth 0 \<le> length k"
  using common_prefix_inv [of keys depth 0] by simp

lemma common_prefix_pos:
  assumes "0 < common_prefix keys depth 0"
  shows "keys \<noteq> [] \<and> (\<forall>k\<in>set keys. depth < length k)"
proof -
  have "(\<forall>k\<in>set keys. depth + 0 < length k) \<and> card ((\<lambda>k. k ! (depth + 0)) ` set keys) = 1"
    using assms by (subst (asm) common_prefix.simps) (auto split: if_splits)
  then show ?thesis using common_prefix_hd [of keys depth 0] by simp
qed

text \<open>\<open>ref\<close>: a short node stands for itself, any other is named by its hash.\<close>

definition rt_ref :: "(rlp \<Rightarrow> bytes) \<Rightarrow> (bytes \<Rightarrow> bytes) \<Rightarrow> rlp \<Rightarrow> rlp" where
  "rt_ref enc K node = (let e = enc node in if 32 \<le> length e then RStr (K e) else node)"

definition keys_weight :: "nat list list \<Rightarrow> nat \<Rightarrow> nat" where
  "keys_weight keys depth = sum_list (map (\<lambda>k. length k - depth) keys)"

definition sub_keys :: "nat list list \<Rightarrow> nat \<Rightarrow> nat \<Rightarrow> nat list list" where
  "sub_keys keys depth n = filter (\<lambda>k. depth < length k \<and> k ! depth = n) keys"

lemma keys_weight_sub:
  assumes "sub_keys keys depth n \<noteq> []"
  shows "keys_weight (sub_keys keys depth n) (depth + 1) < keys_weight keys depth"
  using assms
proof (induction keys)
  case (Cons k keys)
  have le: "keys_weight (sub_keys keys depth n) (depth + 1) \<le> keys_weight keys depth"
    using Cons.IH by (cases "sub_keys keys depth n = []") (simp_all add: keys_weight_def)
  show ?case
  proof (cases "depth < length k \<and> k ! depth = n")
    case True
    then show ?thesis using le by (simp add: sub_keys_def keys_weight_def) arith
  next
    case False
    then have e: "sub_keys (k # keys) depth n = sub_keys keys depth n" by (auto simp: sub_keys_def)
    then have "keys_weight (sub_keys keys depth n) (depth + 1) < keys_weight keys depth" using Cons by simp
    then show ?thesis unfolding e by (simp add: keys_weight_def)
  qed
qed (simp add: sub_keys_def)

lemma keys_weight_drop:
  "keys \<noteq> [] \<Longrightarrow> \<forall>k\<in>set keys. depth < length k \<Longrightarrow> 0 < p \<Longrightarrow> keys_weight keys (depth + p) < keys_weight keys depth"
proof (induction keys)
  case (Cons k keys)
  have "keys_weight keys (depth + p) \<le> keys_weight keys depth"
    using Cons by (cases "keys = []") (simp_all add: keys_weight_def)
  then show ?case using Cons.prems by (simp add: keys_weight_def) arith
qed simp

text \<open>
  \<open>build\<close>: the node for the keys and the encodings it appended to \<open>path_nodes_reverse\<close>, in the order of
  the appends. The three cases are a leaf, an extension and a branch.
\<close>

function rt_build :: "(rlp \<Rightarrow> bytes) \<Rightarrow> (bytes \<Rightarrow> bytes) \<Rightarrow> (nat list \<Rightarrow> bytes) \<Rightarrow> nat list \<Rightarrow> nat list list \<Rightarrow> nat \<Rightarrow> bool \<Rightarrow>
  rlp \<times> bytes list" where
  "rt_build enc K items target keys depth on_path =
     (if length keys = 1 then
        (let k = hd keys; node = RList [RStr (rt_hp (drop depth k) True), RStr (items k)] in
         (node, if on_path then [enc node] else []))
      else if 0 < common_prefix keys depth 0 then
        (let pref = common_prefix keys depth 0; nib = take pref (drop depth (hd keys));
             child_on_path = (on_path \<and> take pref (drop depth target) = nib);
             sub = rt_build enc K items target keys (depth + pref) child_on_path;
             node = RList [RStr (rt_hp nib False), rt_ref enc K (fst sub)] in
         (node, snd sub @ (if on_path then [enc node] else [])))
      else
        (let chosen = (if on_path \<and> depth < length target then Some (target ! depth) else None);
             children = map (\<lambda>n. if sub_keys keys depth n \<noteq> [] then
                 (let sub = rt_build enc K items target (sub_keys keys depth n) (depth + 1) (on_path \<and> Some n = chosen) in
                  (rt_ref enc K (fst sub), snd sub))
               else (RStr [], [])) [0..<16];
             exact = filter (\<lambda>k. length k = depth) keys;
             node = RList (map fst children @ [RStr (if exact \<noteq> [] then items (hd exact) else [])]) in
         (node, concat (map snd children) @ (if on_path then [enc node] else []))))"
  by pat_completeness auto

termination rt_build
proof (relation "measure (\<lambda>(enc, K, items, target, keys, depth, on_path). keys_weight keys depth)", goal_cases)
  case 1
  show ?case by simp
next
  case (2 enc K items target keys depth on_path)
  then show ?case using common_prefix_pos [of keys depth] keys_weight_drop by simp
next
  case (3 enc K items target keys depth on_path)
  then show ?case using keys_weight_sub by simp
qed

declare rt_build.simps [simp del]

text \<open>
  \<open>build_receipts_trie_and_path\<close>: the dictionary of encoded receipts by key (a later entry replaces an
  earlier one), the sorted keys, the root hash and the path from the root to the leaf.
\<close>

definition receipt_index :: "nat \<Rightarrow> json_receipt \<Rightarrow> nat" where
  "receipt_index i r = (case jr_index r of None \<Rightarrow> i | Some x \<Rightarrow> x)"

fun receipt_items :: "(rlp \<Rightarrow> bytes) \<Rightarrow> nat \<Rightarrow> json_receipt list \<Rightarrow> (nat list \<times> bytes) list py" where
  "receipt_items enc i [] = Inr []"
| "receipt_items enc i (r # rs) =
     rbind (encode_receipt enc r) (\<lambda>e.
     rbind (receipt_items enc (i + 1) rs) (\<lambda>rest.
     Inr ((rt_nib (enc (RStr (be_min (receipt_index i r)))), e) # rest)))"

definition build_receipts_trie_and_path ::
  "(rlp \<Rightarrow> bytes) \<Rightarrow> (bytes \<Rightarrow> bytes) \<Rightarrow> json_receipt list \<Rightarrow> nat \<Rightarrow> (bytes \<times> bytes list) py" where
  "build_receipts_trie_and_path enc K receipts target_tx_index =
     rbind (receipt_items enc 0 receipts) (\<lambda>entries.
     let items = map_of (rev entries); target_key = rt_nib (enc (RStr (be_min target_tx_index))) in
     require (items target_key \<noteq> None) KeyError (
     let keys = sort (remdups (map fst entries));
         built = rt_build enc K (\<lambda>k. the (items k)) target_key keys 0 True;
         root_hash = K (enc (fst built)); nodes = rev (snd built) in
     Inr (root_hash, nodes)))"

end
