(* ===== verification/Rel_Trie.thy ===== *)
theory Rel_Trie
  imports Rel_Receipts Rcpt_Live
begin

text \<open>
  The relayer's receipts trie against the abstract one: the nodes it builds are the encodings of a
  well-formed trie that holds every receipt under its key, and the path it returns is the list of
  nodes the on-chain walker needs.
\<close>

section \<open>The abstract trie of a set of keys\<close>

function rt_trie :: "(nat list \<Rightarrow> bytes) \<Rightarrow> nat list list \<Rightarrow> nat \<Rightarrow> trie" where
  "rt_trie items keys depth =
     (if length keys = 1 then TLeaf (drop depth (hd keys)) (items (hd keys))
      else if 0 < common_prefix keys depth 0 then
        TExt (take (common_prefix keys depth 0) (drop depth (hd keys)))
          (rt_trie items keys (depth + common_prefix keys depth 0))
      else
        TBranch (map (\<lambda>n. if sub_keys keys depth n \<noteq> [] then rt_trie items (sub_keys keys depth n) (depth + 1) else TNull)
            [0..<16])
          (let exact = filter (\<lambda>k. length k = depth) keys in if exact \<noteq> [] then items (hd exact) else []))"
  by pat_completeness auto

termination rt_trie
proof (relation "measure (\<lambda>(items, keys, depth). keys_weight keys depth)", goal_cases)
  case (2 items keys depth)
  then show ?case using common_prefix_pos [of keys depth] keys_weight_drop by simp
next
  case (3 items keys depth)
  then show ?case using keys_weight_sub by simp
qed simp

declare rt_trie.simps [simp del]

lemma hp_pairs_pack: "hp_pairs ns = pack ns"
  by (induction ns rule: hp_pairs.induct) (simp_all add: mult.commute)

lemma rt_hp_eq: "rt_hp ns leaf = hp_encode leaf ns"
  by (cases ns) (auto simp: rt_hp_def hp_encode_def hp_pairs_pack Let_def mult.commute odd_iff_mod_2_eq_one)

lemma rt_nib_nibs: "rt_nib bs = nibs bs"
proof (induction bs)
  case (Cons x bs)
  have "unat (drop_bit 4 x) = unat x div 16"
    using unat_drop_bit_eq [of 4 x] by (simp only: drop_bit_eq_div) simp
  moreover have "unat (and x 15) = unat x mod 16"
  proof -
    have "and x 15 = take_bit 4 x" by (simp add: take_bit_eq_mask mask_eq_exp_minus_1)
    then have "unat (and x 15) = take_bit 4 (unat x)" by (simp only: unsigned_take_bit_eq)
    then show ?thesis by (simp add: take_bit_eq_mod)
  qed
  ultimately show ?case using Cons by simp
qed simp

lemma rt_ref_eq: "rt_ref rlp_enc K r = ref_of K r"
  by (simp add: rt_ref_def ref_of_def Let_def not_less)

lemma build_leaf:
  "length keys = 1 \<Longrightarrow> rt_build enc K items target keys depth op =
     (let node = RList [RStr (rt_hp (drop depth (hd keys)) True), RStr (items (hd keys))] in (node, if op then [enc node] else []))"
  by (simp add: rt_build.simps [of enc K items target keys depth op] Let_def)

lemma build_ext:
  assumes "length keys \<noteq> 1" and "0 < common_prefix keys depth 0"
  defines "p \<equiv> common_prefix keys depth 0"
  defines "nib \<equiv> take p (drop depth (hd keys))"
  shows "rt_build enc K items target keys depth op =
    (let sub = rt_build enc K items target keys (depth + p) (op \<and> take p (drop depth target) = nib);
         node = RList [RStr (rt_hp nib False), rt_ref enc K (fst sub)] in
     (node, snd sub @ (if op then [enc node] else [])))"
  using assms by (simp add: rt_build.simps [of enc K items target keys depth op] Let_def)

lemma build_branch:
  assumes "length keys \<noteq> 1" and "\<not> 0 < common_prefix keys depth 0"
  shows "rt_build enc K items target keys depth op =
    (let chosen = (if op \<and> depth < length target then Some (target ! depth) else None);
         children = map (\<lambda>n. if sub_keys keys depth n \<noteq> [] then
             (let sub = rt_build enc K items target (sub_keys keys depth n) (depth + 1) (op \<and> Some n = chosen) in
              (rt_ref enc K (fst sub), snd sub))
           else (RStr [], [])) [0..<16];
         exact = filter (\<lambda>k. length k = depth) keys;
         node = RList (map fst children @ [RStr (if exact \<noteq> [] then items (hd exact) else [])]) in
     (node, concat (map snd children) @ (if op then [enc node] else [])))"
  unfolding rt_build.simps [of enc K items target keys depth op] if_not_P [OF assms(1)] if_not_P [OF assms(2)] ..

lemma trie_leaf: "length keys = 1 \<Longrightarrow> rt_trie items keys depth = TLeaf (drop depth (hd keys)) (items (hd keys))"
  by (simp add: rt_trie.simps [of items keys depth])

lemma trie_ext:
  "length keys \<noteq> 1 \<Longrightarrow> 0 < common_prefix keys depth 0 \<Longrightarrow> rt_trie items keys depth =
     TExt (take (common_prefix keys depth 0) (drop depth (hd keys))) (rt_trie items keys (depth + common_prefix keys depth 0))"
  by (simp add: rt_trie.simps [of items keys depth])

definition sub_trie :: "(nat list \<Rightarrow> bytes) \<Rightarrow> nat list list \<Rightarrow> nat \<Rightarrow> nat \<Rightarrow> trie" where
  "sub_trie items keys depth n =
     (if sub_keys keys depth n \<noteq> [] then rt_trie items (sub_keys keys depth n) (depth + 1) else TNull)"

lemma trie_branch:
  "length keys \<noteq> 1 \<Longrightarrow> \<not> 0 < common_prefix keys depth 0 \<Longrightarrow> rt_trie items keys depth =
     TBranch (map (sub_trie items keys depth) [0..<16])
       (let exact = filter (\<lambda>k. length k = depth) keys in if exact \<noteq> [] then items (hd exact) else [])"
  unfolding rt_trie.simps [of items keys depth] sub_trie_def [abs_def] by (simp only: if_False simp_thms)

text \<open>One induction over the recursion of both builders.\<close>

lemma build_induct [case_names leaf ext branch]:
  assumes "\<And>keys depth. length keys = 1 \<Longrightarrow> P keys depth"
    and "\<And>keys depth. length keys \<noteq> 1 \<Longrightarrow> 0 < common_prefix keys depth 0 \<Longrightarrow>
      P keys (depth + common_prefix keys depth 0) \<Longrightarrow> P keys depth"
    and "\<And>keys depth. length keys \<noteq> 1 \<Longrightarrow> \<not> 0 < common_prefix keys depth 0 \<Longrightarrow>
      (\<And>n. sub_keys keys depth n \<noteq> [] \<Longrightarrow> P (sub_keys keys depth n) (depth + 1)) \<Longrightarrow> P keys depth"
  shows "P keys depth"
proof (induction "keys_weight keys depth" arbitrary: keys depth rule: less_induct)
  case less
  show ?case
  proof (cases "length keys = 1")
    case False
    then show ?thesis
    proof (cases "0 < common_prefix keys depth 0")
      case True
      note c = common_prefix_pos [OF True]
      have "keys_weight keys (depth + common_prefix keys depth 0) < keys_weight keys depth"
        using c True by (intro keys_weight_drop) auto
      from less [OF this] show ?thesis by (rule assms(2) [OF False True])
    next
      case no: False
      show ?thesis by (rule assms(3) [OF False no less]) (rule keys_weight_sub)
    qed
  qed (rule assms(1))
qed

lemma build_node: "fst (rt_build rlp_enc K items target keys depth op) = node_rlp K (rt_trie items keys depth)"
proof (induction keys depth arbitrary: op rule: build_induct)
  case (leaf keys depth)
  then show ?case by (simp add: build_leaf trie_leaf rt_hp_eq Let_def)
next
  case (ext keys depth)
  then show ?case by (simp add: build_ext trie_ext rt_hp_eq rt_ref_eq Let_def)
next
  case (branch keys depth)
  have "ref_of K (RStr []) = RStr []" by (simp add: ref_of_def enc_prefix_def)
  then show ?case using branch
    by (simp add: build_branch [OF branch(1,2)] trie_branch [OF branch(1,2)] rt_ref_eq Let_def sub_trie_def comp_def)
qed

section \<open>Well-formedness and lookup\<close>

text \<open>Distinct nibble strings that agree on their first \<open>depth\<close> nibbles.\<close>

definition keys_ok :: "nat list list \<Rightarrow> nat \<Rightarrow> bool" where
  "keys_ok keys depth \<longleftrightarrow> keys \<noteq> [] \<and> distinct keys \<and>
     (\<forall>k\<in>set keys. nibble_list k \<and> depth \<le> length k \<and> (\<forall>l\<in>set keys. take depth k = take depth l))"

lemma keys_okD:
  "keys_ok keys depth \<Longrightarrow> keys \<noteq> [] \<and> distinct keys"
  "keys_ok keys depth \<Longrightarrow> k \<in> set keys \<Longrightarrow> nibble_list k \<and> depth \<le> length k"
  "keys_ok keys depth \<Longrightarrow> k \<in> set keys \<Longrightarrow> l \<in> set keys \<Longrightarrow> take depth k = take depth l"
  unfolding keys_ok_def by blast+

lemma keys_okI:
  assumes "keys \<noteq> []" and "distinct keys" and "\<And>k. k \<in> set keys \<Longrightarrow> nibble_list k" and "\<And>k. k \<in> set keys \<Longrightarrow> depth \<le> length k"
    and "\<And>k l. k \<in> set keys \<Longrightarrow> l \<in> set keys \<Longrightarrow> take depth k = take depth l"
  shows "keys_ok keys depth"
  unfolding keys_ok_def using assms by blast

lemma keys_ok_prefix:
  assumes ok: "keys_ok keys depth"
  shows "keys_ok keys (depth + common_prefix keys depth 0)"
proof (rule keys_okI)
  let ?p = "common_prefix keys depth 0"
  have d: "\<forall>k\<in>set keys. depth + 0 \<le> length k" using keys_okD(2) [OF ok] by simp
  have "\<forall>k\<in>set keys. \<forall>l\<in>set keys. take 0 (drop depth k) = take 0 (drop depth l)" by simp
  note inv = common_prefix_inv [OF d this]
  fix k assume k: "k \<in> set keys"
  show "nibble_list k" using keys_okD(2) [OF ok k] by simp
  show "depth + ?p \<le> length k" using inv k by blast
  fix l assume l: "l \<in> set keys"
  have "take ?p (drop depth k) = take ?p (drop depth l)" using inv k l by blast
  then show "take (depth + ?p) k = take (depth + ?p) l" by (simp only: take_add keys_okD(3) [OF ok k l])
qed (use keys_okD(1) [OF ok] in simp_all)

lemma sub_keysD: "k \<in> set (sub_keys keys depth n) \<Longrightarrow> k \<in> set keys \<and> depth < length k \<and> k ! depth = n"
  by (simp add: sub_keys_def)

lemma keys_ok_sub:
  assumes ok: "keys_ok keys depth" and "sub_keys keys depth n \<noteq> []"
  shows "keys_ok (sub_keys keys depth n) (depth + 1)"
proof (rule keys_okI)
  show "distinct (sub_keys keys depth n)" using keys_okD(1) [OF ok] by (simp add: sub_keys_def)
  fix k assume "k \<in> set (sub_keys keys depth n)"
  note k = sub_keysD [OF this]
  show "nibble_list k" "depth + 1 \<le> length k" using keys_okD(2) [OF ok] k by simp_all
  fix l assume "l \<in> set (sub_keys keys depth n)"
  note l = sub_keysD [OF this]
  have "take depth k = take depth l" using keys_okD(3) [OF ok] k l by blast
  then show "take (depth + 1) k = take (depth + 1) l" using k l by (simp add: take_Suc_conv_app_nth)
qed (rule assms(2))

text \<open>The prefix found is the longest: beyond it the keys branch.\<close>

lemma common_prefix_shift: "common_prefix keys depth (p + q) = p + common_prefix keys (depth + p) q"
proof (induction "length (hd keys) - (depth + (p + q))" arbitrary: q rule: less_induct)
  case less
  let ?c = "(\<forall>k\<in>set keys. depth + (p + q) < length k) \<and> card ((\<lambda>k. k ! (depth + (p + q))) ` set keys) = 1"
  have e: "depth + p + q = depth + (p + q)" by simp
  show ?case
  proof (cases ?c)
    case True
    have "length (hd keys) - (depth + (p + (q + 1))) < length (hd keys) - (depth + (p + q))"
      using common_prefix_hd [of keys depth "p + q"] True by auto
    from less [OF this] show ?thesis
      unfolding common_prefix.simps [of keys depth "p + q"] common_prefix.simps [of keys "depth + p" q] e if_P [OF True]
      by (simp add: add.assoc)
  next
    case False
    show ?thesis
      unfolding common_prefix.simps [of keys depth "p + q"] common_prefix.simps [of keys "depth + p" q] e if_not_P [OF False] ..
  qed
qed

lemma common_prefix_idem: "common_prefix keys depth (common_prefix keys depth p) = common_prefix keys depth p"
proof (induction keys depth p rule: common_prefix.induct)
  case (1 keys depth p)
  let ?c = "(\<forall>k\<in>set keys. depth + p < length k) \<and> card ((\<lambda>k. k ! (depth + p)) ` set keys) = 1"
  show ?case
  proof (cases ?c)
    case True
    have "common_prefix keys depth p = common_prefix keys depth (p + 1)"
      unfolding common_prefix.simps [of keys depth p] by (rule if_P [OF True])
    then show ?thesis using "1.IH" [OF True] by (simp only:)
  next
    case False
    have "common_prefix keys depth p = p" unfolding common_prefix.simps [of keys depth p] by (rule if_not_P [OF False])
    then show ?thesis by (simp only:)
  qed
qed

lemma common_prefix_max: "common_prefix keys (depth + common_prefix keys depth 0) 0 = 0"
  using common_prefix_shift [of keys depth "common_prefix keys depth 0" 0] common_prefix_idem [of keys depth 0] by simp

lemma nibble_list_part: "nibble_list k \<Longrightarrow> nibble_list (drop a k)" "nibble_list k \<Longrightarrow> nibble_list (take a k)"
  by (auto simp: nibble_list_def dest: in_set_dropD in_set_takeD)

lemma hd_key: "keys_ok keys depth \<Longrightarrow> hd keys \<in> set keys"
  using keys_okD(1) by simp

lemma rt_trie_wf: "keys_ok keys depth \<Longrightarrow> wf_trie (rt_trie items keys depth)"
proof (induction keys depth rule: build_induct)
  case (leaf keys depth)
  have "nibble_list (hd keys)" using keys_okD(2) [OF leaf(2) hd_key [OF leaf(2)]] by simp
  then show ?case by (simp add: trie_leaf leaf(1) nibble_list_part)
next
  case (ext keys depth)
  let ?p = "common_prefix keys depth 0"
  have h: "hd keys \<in> set keys" by (rule hd_key [OF ext(4)])
  have "depth + ?p \<le> length (hd keys)" using keys_okD(2) [OF keys_ok_prefix [OF ext(4)] h] by simp
  then have "take ?p (drop depth (hd keys)) \<noteq> []" using ext(2) by simp
  moreover have "nibble_list (take ?p (drop depth (hd keys)))" using keys_okD(2) [OF ext(4) h] by (simp add: nibble_list_part)
  moreover have "is_branch (rt_trie items keys (depth + ?p))"
    using ext(1) common_prefix_max [of keys depth] by (simp add: trie_branch)
  ultimately show ?case using ext.IH keys_ok_prefix [OF ext(4)] by (simp add: trie_ext [OF ext(1,2)])
next
  case (branch keys depth)
  have "wf_trie (sub_trie items keys depth n)" for n
    using branch(3) [of n] keys_ok_sub [OF branch(4)] by (simp add: sub_trie_def)
  then show ?case by (auto simp: trie_branch [OF branch(1,2)])
qed

lemma singleton_key: "length keys = 1 \<Longrightarrow> k \<in> set keys \<Longrightarrow> k = hd keys"
  by (cases keys) auto

lemma rt_trie_lookup:
  "keys_ok keys depth \<Longrightarrow> \<forall>k\<in>set keys. items k \<noteq> [] \<Longrightarrow> k \<in> set keys \<Longrightarrow>
   trie_lookup (rt_trie items keys depth) (drop depth k) = (WALK_INCLUDED, items k)"
proof (induction keys depth rule: build_induct)
  case (leaf keys depth)
  have "k = hd keys" by (rule singleton_key [OF leaf(1,4)])
  then show ?case by (simp add: trie_leaf leaf(1))
next
  case (ext keys depth)
  let ?p = "common_prefix keys depth 0"
  have ok: "keys_ok keys (depth + ?p)" by (rule keys_ok_prefix [OF ext(4)])
  have h: "hd keys \<in> set keys" by (rule hd_key [OF ext(4)])
  have len: "depth + ?p \<le> length (hd keys)" "depth + ?p \<le> length k" using keys_okD(2) [OF ok] h ext(6) by blast+
  have "take (depth + ?p) k = take (depth + ?p) (hd keys)" by (rule keys_okD(3) [OF ok ext(6) h])
  then have "take ?p (drop depth k) = take ?p (drop depth (hd keys))" by (metis drop_take add_diff_cancel_left')
  moreover have "length (take ?p (drop depth (hd keys))) = ?p" using len by simp
  ultimately show ?case using ext.IH [OF ok ext(5,6)] by (simp add: trie_ext [OF ext(1,2)] add.commute)
next
  case (branch keys depth)
  have d: "depth \<le> length k" using keys_okD(2) [OF branch(4,6)] by simp
  show ?case
  proof (cases "depth = length k")
    case True
    have "l = k" if "l \<in> set keys" "length l = depth" for l
    proof -
      have "take depth l = take depth k" by (rule keys_okD(3) [OF branch(4) that(1) branch(6)])
      then show ?thesis using that(2) True by simp
    qed
    then have all: "l = k" if "l \<in> set (filter (\<lambda>l. length l = depth) keys)" for l using that by simp
    have "k \<in> set (filter (\<lambda>l. length l = depth) keys)" using True branch(6) by simp
    then have ne: "filter (\<lambda>l. length l = depth) keys \<noteq> []" by (metis empty_iff list.set(1))
    have "hd (filter (\<lambda>l. length l = depth) keys) = k" by (rule all [OF hd_in_set [OF ne]])
    then have "rt_trie items keys depth = TBranch (map (sub_trie items keys depth) [0..<16]) (items k)"
      unfolding trie_branch [OF branch(1,2)] Let_def using ne by (simp only: if_True simp_thms)
    moreover have "drop depth k = []" "items k \<noteq> []" using True branch(5,6) by simp_all
    ultimately show ?thesis by simp
  next
    case False
    let ?n = "k ! depth"
    have l: "depth < length k" using d False by simp
    have m: "k \<in> set (sub_keys keys depth ?n)" using l branch(6) by (simp add: sub_keys_def)
    then have ne: "sub_keys keys depth ?n \<noteq> []" by auto
    have n: "?n < 16" using keys_okD(2) [OF branch(4,6)] l by (simp add: nibble_list_def)
    have "drop depth k = ?n # drop (depth + 1) k" using l by (simp add: Cons_nth_drop_Suc)
    moreover have "trie_lookup (rt_trie items (sub_keys keys depth ?n) (depth + 1)) (drop (depth + 1) k) = (WALK_INCLUDED, items k)"
      by (rule branch(3) [OF ne keys_ok_sub [OF branch(4) ne] _ m]) (use branch(5) in \<open>auto simp: sub_keys_def\<close>)
    ultimately show ?thesis using n ne by (simp add: trie_branch [OF branch(1,2)] sub_trie_def del: upt_Suc)
  qed
qed

section \<open>The path\<close>

lemma build_off: "snd (rt_build enc K items target keys depth False) = []"
proof (induction keys depth rule: build_induct)
  case (leaf keys depth)
  then show ?case by (simp add: build_leaf Let_def)
next
  case (ext keys depth)
  then show ?case by (simp add: build_ext Let_def)
next
  case (branch keys depth)
  have "snd (rt_build enc K items target (sub_keys keys depth n) (Suc depth) False) = []" if "sub_keys keys depth n \<noteq> []" for n
    using branch(3) [OF that] by simp
  then show ?case by (auto simp: build_branch [OF branch(1,2)] Let_def simp del: upt_Suc split: if_splits)
qed

lemma leaf_hashed: "32 \<le> length v \<Longrightarrow> 32 \<le> length (node_enc K (TLeaf p v))"
proof -
  assume "32 \<le> length v"
  moreover have "length v \<le> length (rlp_enc (RStr v))" by simp
  moreover have "length (rlp_enc (RStr v)) \<le> length (concat (map rlp_enc [RStr (hp_encode True p), RStr v]))" by simp
  moreover have "length (concat (map rlp_enc [RStr (hp_encode True p), RStr v])) < length (node_enc K (TLeaf p v))"
    unfolding node_enc_def node_rlp.simps by (rule length_rlp_list)
  ultimately show ?thesis by linarith
qed

lemma item_le_branch:
  assumes "x \<in> set (map (\<lambda>t. ref_of K (node_rlp K t)) ts @ [RStr v])"
  shows "length (rlp_enc x) < length (node_enc K (TBranch ts v))"
proof -
  let ?xs = "map (\<lambda>t. ref_of K (node_rlp K t)) ts @ [RStr v]"
  obtain i where i: "i < length ?xs" "x = ?xs ! i" using assms by (metis in_set_conv_nth)
  have "length (rlp_enc x) \<le> length (concat (map rlp_enc ?xs))" using sum_enc_member [OF i(1)] i(2) by simp
  also have "\<dots> < length (node_enc K (TBranch ts v))" unfolding node_enc_def node_rlp.simps by (rule length_rlp_list)
  finally show ?thesis .
qed

lemma branch_hashed:
  assumes K: "\<And>x. length (K x) = 32" and "t \<in> set ts \<and> hashed K t \<or> 32 \<le> length v"
  shows "32 \<le> length (node_enc K (TBranch ts v))"
  using assms(2)
proof
  assume t: "t \<in> set ts \<and> hashed K t"
  then have "ref_of K (node_rlp K t) = RStr (K (node_enc K t))" by (simp add: ref_of_def hashed_def node_enc_def)
  moreover have "ref_of K (node_rlp K t) \<in> set (map (\<lambda>t. ref_of K (node_rlp K t)) ts @ [RStr v])" using t by simp
  ultimately have "length (rlp_enc (RStr (K (node_enc K t)))) < length (node_enc K (TBranch ts v))" using item_le_branch by metis
  moreover have "length (rlp_enc (RStr (K (node_enc K t)))) = 33" using K by (simp add: enc_prefix_length)
  ultimately show ?thesis by linarith
next
  assume v: "32 \<le> length v"
  have "length (rlp_enc (RStr v)) < length (node_enc K (TBranch ts v))" by (rule item_le_branch) simp
  moreover have "length v \<le> length (rlp_enc (RStr v))" by simp
  ultimately show ?thesis using v by linarith
qed

text \<open>With items of at least 32 bytes no node of the trie is embedded.\<close>

lemma rt_trie_hashed:
  assumes K: "\<And>x. length (K x) = 32"
  shows "keys_ok keys depth \<Longrightarrow> \<forall>k\<in>set keys. 32 \<le> length (items k) \<Longrightarrow> hashed K (rt_trie items keys depth)"
proof (induction keys depth rule: build_induct)
  case (leaf keys depth)
  have "32 \<le> length (items (hd keys))" using leaf(3) hd_key [OF leaf(2)] by blast
  then show ?case by (simp add: trie_leaf leaf(1) hashed_def leaf_hashed)
next
  case (ext keys depth)
  have "hashed K (rt_trie items keys (depth + common_prefix keys depth 0))"
    by (rule ext.IH [OF keys_ok_prefix [OF ext(4)] ext(5)])
  then show ?case using ext_size(2) [where K = K, OF _ K] by (simp add: trie_ext [OF ext(1,2)] hashed_def)
next
  case (branch keys depth)
  let ?k = "hd keys"
  have k: "?k \<in> set keys" by (rule hd_key [OF branch(4)])
  show ?case
  proof (cases "length ?k = depth")
    case True
    let ?f = "filter (\<lambda>l. length l = depth) keys"
    have "?k \<in> set ?f" using True k by simp
    then have ne: "?f \<noteq> []" by (metis empty_iff list.set(1))
    then have "hd ?f \<in> set keys" using hd_in_set [OF ne] by (simp only: set_filter mem_Collect_eq)
    then have "32 \<le> length (items (hd ?f))" using branch(5) by blast
    then show ?thesis using ne branch_hashed [where K = K, OF K]
      by (simp add: trie_branch [OF branch(1,2)] hashed_def Let_def del: upt_Suc filter_empty_conv)
  next
    case False
    let ?n = "?k ! depth"
    have l: "depth < length ?k" using keys_okD(2) [OF branch(4) k] False by simp
    have m: "?k \<in> set (sub_keys keys depth ?n)" using l k by (simp add: sub_keys_def)
    then have ne: "sub_keys keys depth ?n \<noteq> []" by auto
    have n: "?n < 16" using keys_okD(2) [OF branch(4) k] l by (simp add: nibble_list_def)
    have "hashed K (sub_trie items keys depth ?n)"
      using branch(3) [OF ne keys_ok_sub [OF branch(4) ne]] branch(5) sub_keysD ne by (simp add: sub_trie_def)
    moreover have "sub_trie items keys depth ?n \<in> set (map (sub_trie items keys depth) [0..<16])" using n by simp
    ultimately have "32 \<le> length (node_enc K (TBranch (map (sub_trie items keys depth) [0..<16]) v))" for v
      by (intro branch_hashed [where K = K, OF K]) blast
    then show ?thesis by (simp only: trie_branch [OF branch(1,2)] hashed_def)
  qed
qed

lemma concat_one:
  assumes "distinct xs" and "x \<in> set xs" and "\<And>y. y \<in> set xs \<Longrightarrow> y \<noteq> x \<Longrightarrow> f y = []"
  shows "concat (map f xs) = f x"
proof -
  have none: "x \<notin> set ys \<Longrightarrow> set ys \<subseteq> set xs \<Longrightarrow> concat (map f ys) = []" for ys
    using assms(3) by (induction ys) auto
  obtain as bs where xs: "xs = as @ x # bs" using split_list [OF assms(2)] by blast
  have "x \<notin> set as" "x \<notin> set bs" "set as \<subseteq> set xs" "set bs \<subseteq> set xs" using assms(1) by (auto simp: xs)
  then have e: "concat (map f as) = []" "concat (map f bs) = []" using none by blast+
  show ?thesis unfolding xs map_append concat_append list.map concat.simps e by simp
qed

text \<open>The nodes appended on the path of the target, in reverse, are the nodes the walker needs.\<close>

lemma build_path:
  assumes K: "\<And>x. length (K x) = 32"
  shows "keys_ok keys depth \<Longrightarrow> \<forall>k\<in>set keys. 32 \<le> length (items k) \<Longrightarrow> target \<in> set keys \<Longrightarrow>
    rev (snd (rt_build rlp_enc K items target keys depth True)) = path_nodes K (rt_trie items keys depth) (drop depth target)"
proof (induction keys depth rule: build_induct)
  case (leaf keys depth)
  then show ?case
    by (simp add: build_leaf trie_leaf rt_hp_eq Let_def path_nodes_def node_enc_def del: rlp_enc.simps)
next
  case (ext keys depth)
  let ?p = "common_prefix keys depth 0" and ?h = "hd keys"
  let ?t = "rt_trie items keys (depth + ?p)"
  have ok: "keys_ok keys (depth + ?p)" by (rule keys_ok_prefix [OF ext(4)])
  have h: "?h \<in> set keys" by (rule hd_key [OF ext(4)])
  have "take (depth + ?p) target = take (depth + ?p) ?h" by (rule keys_okD(3) [OF ok ext(6) h])
  then have nib: "take ?p (drop depth target) = take ?p (drop depth ?h)" by (metis drop_take add_diff_cancel_left')
  have "depth + ?p \<le> length ?h" using keys_okD(2) [OF ok h] by blast
  then have len: "length (take ?p (drop depth ?h)) = ?p" by simp
  have hs: "hashed K ?t" by (rule rt_trie_hashed [where K = K, OF K ok ext(5)])
  have sub: "rev (snd (rt_build rlp_enc K items target keys (depth + ?p) True)) = path_nodes K ?t (drop (depth + ?p) target)"
    by (rule ext.IH [OF ok ext(5,6)])
  have node: "rlp_enc (RList [RStr (rt_hp (take ?p (drop depth ?h)) False),
      rt_ref rlp_enc K (fst (rt_build rlp_enc K items target keys (depth + ?p) True))]) = node_enc K (rt_trie items keys depth)"
    by (simp only: trie_ext [OF ext(1,2)] node_enc_def node_rlp.simps rt_hp_eq rt_ref_eq build_node)
  have "path_nodes K (rt_trie items keys depth) (drop depth target) =
      node_enc K (rt_trie items keys depth) # path_nodes K ?t (drop (depth + ?p) target)"
    using hs nib len by (simp add: path_nodes_def trie_ext [OF ext(1,2)] add.commute)
  then show ?case using sub node by (simp add: build_ext [OF ext(1,2)] nib Let_def del: rlp_enc.simps)
next
  case (branch keys depth)
  let ?T = "rt_trie items keys depth"
  let ?B = "\<lambda>n. if sub_keys keys depth n \<noteq> [] then
      (let sub = rt_build rlp_enc K items target (sub_keys keys depth n) (depth + 1)
         (depth < length target \<and> Some n = Some (target ! depth)) in (rt_ref rlp_enc K (fst sub), snd sub))
    else (RStr [], [])"
  have step: "snd (rt_build rlp_enc K items target keys depth True) = concat (map (\<lambda>n. snd (?B n)) [0..<16]) @ [node_enc K ?T]"
    unfolding node_enc_def build_node [of K items target keys depth True, symmetric] build_branch [OF branch(1,2)]
    by (cases "depth < length target") (simp_all add: Let_def comp_def del: upt_Suc rlp_enc.simps cong: if_cong)
  show ?case
  proof (cases "depth < length target")
    case False
    then have "drop depth target = []" by simp
    moreover have "snd (?B n) = []" for n using False by (simp add: Let_def build_off)
    ultimately show ?thesis unfolding step by (simp add: path_nodes_def trie_branch [OF branch(1,2)] del: upt_Suc)
  next
    case l: True
    let ?n = "target ! depth"
    have m: "target \<in> set (sub_keys keys depth ?n)" using l branch(6) by (simp add: sub_keys_def)
    then have ne: "sub_keys keys depth ?n \<noteq> []" by auto
    have ok: "keys_ok (sub_keys keys depth ?n) (depth + 1)" by (rule keys_ok_sub [OF branch(4) ne])
    have items: "\<forall>k\<in>set (sub_keys keys depth ?n). 32 \<le> length (items k)" using branch(5) sub_keysD by blast
    have n: "?n < 16" using keys_okD(2) [OF branch(4,6)] l by (simp add: nibble_list_def)
    have off: "snd (?B k) = []" if "k \<noteq> ?n" for k using that by (simp add: Let_def build_off)
    have "concat (map (\<lambda>n. snd (?B n)) [0..<16]) = snd (?B ?n)" using n off by (intro concat_one) simp_all
    moreover have "rev (snd (?B ?n)) = path_nodes K (sub_trie items keys depth ?n) (drop (depth + 1) target)"
      using branch(3) [OF ne ok items m] ne l by (simp add: Let_def sub_trie_def)
    moreover have "hashed K (sub_trie items keys depth ?n)"
      using rt_trie_hashed [where K = K, OF K ok items] ne by (simp add: sub_trie_def)
    moreover have "drop depth target = ?n # drop (depth + 1) target" using l by (simp add: Cons_nth_drop_Suc)
    ultimately show ?thesis unfolding step
      using n by (simp add: path_nodes_def trie_branch [OF branch(1,2)] del: upt_Suc)
  qed
qed

section \<open>The size of inner nodes\<close>

text \<open>
  Every node of the path above the leaf is small: when no other key is a prefix of the target, a branch
  on its path carries no value, and its children are references of at most 33 bytes.
\<close>

lemma enc_prefix_le: "n < 65536 \<Longrightarrow> length (enc_prefix b n) \<le> 3"
  using length_be_min_le [of n 2] by (simp add: enc_prefix_length)

lemma rlp_str_le: "length bs < 56 \<Longrightarrow> length (rlp_enc (RStr bs)) \<le> length bs + 1"
  by (simp add: enc_prefix_length)

lemma rlp_list_le:
  assumes "\<And>x. x \<in> set xs \<Longrightarrow> length (rlp_enc x) \<le> m" and "m * length xs < 65536"
  shows "length (rlp_enc (RList xs)) \<le> 3 + m * length xs"
proof -
  have "length (concat (map rlp_enc xs)) \<le> m * length xs" using assms(1) by (induction xs) fastforce+
  moreover from this assms(2) have "length (enc_prefix 0xC0 (length (concat (map rlp_enc xs)))) \<le> 3"
    by (intro enc_prefix_le) linarith
  ultimately show ?thesis by (simp add: Let_def)
qed

lemma hashed_ref: "length (K (node_enc K t)) = 32 \<Longrightarrow> hashed K t \<Longrightarrow> length (rlp_enc (ref_of K (node_rlp K t))) = 33"
proof -
  assume "length (K (node_enc K t)) = 32" "hashed K t"
  moreover from this(2) have "ref_of K (node_rlp K t) = RStr (K (node_enc K t))" by (simp add: ref_of_def hashed_def node_enc_def)
  ultimately show ?thesis by (simp add: enc_prefix_length)
qed

lemma null_ref: "length (rlp_enc (ref_of K (node_rlp K TNull))) = 1"
  by (simp add: ref_of_def enc_prefix_def)

definition INNER_MAX :: nat where "INNER_MAX = 564"

lemma inner_nodes_small:
  assumes K: "\<And>x. length (K x) = 32"
  shows "keys_ok keys depth \<Longrightarrow> \<forall>k\<in>set keys. 32 \<le> length (items k) \<and> length k \<le> 8 \<Longrightarrow>
    \<forall>k\<in>set keys. take (length k) target = k \<longrightarrow> k = target \<Longrightarrow> target \<in> set keys \<Longrightarrow>
    \<forall>n\<in>set (butlast (path_nodes K (rt_trie items keys depth) (drop depth target))). length n \<le> INNER_MAX"
proof (induction keys depth rule: build_induct)
  case (leaf keys depth)
  then show ?case by (simp add: trie_leaf path_nodes_def)
next
  case (ext keys depth)
  let ?p = "common_prefix keys depth 0" and ?h = "hd keys"
  let ?t = "rt_trie items keys (depth + ?p)" and ?q = "take ?p (drop depth ?h)"
  have ok: "keys_ok keys (depth + ?p)" by (rule keys_ok_prefix [OF ext(4)])
  have h: "?h \<in> set keys" by (rule hd_key [OF ext(4)])
  have hs: "hashed K ?t" using ext(5) by (intro rt_trie_hashed [where K = K, OF K ok]) blast
  have "take (depth + ?p) target = take (depth + ?p) ?h" by (rule keys_okD(3) [OF ok ext(7) h])
  then have nib: "take ?p (drop depth target) = ?q" by (metis drop_take add_diff_cancel_left')
  have "depth + ?p \<le> length ?h" using keys_okD(2) [OF ok h] by blast
  then have len: "length ?q = ?p" by simp
  have path: "path_nodes K (rt_trie items keys depth) (drop depth target) =
      node_enc K (rt_trie items keys depth) # path_nodes K ?t (drop (depth + ?p) target)"
    using hs nib len by (simp add: path_nodes_def trie_ext [OF ext(1,2)] add.commute)
  have "length ?q \<le> 8" using ext(5) h by (metis le_trans length_drop length_take diff_le_self min.cobounded1)
  then have "length (hp_encode False ?q) \<le> 5" unfolding length_hp_encode by linarith
  then have "length (rlp_enc (RStr (hp_encode False ?q))) \<le> 33" using rlp_str_le [of "hp_encode False ?q"] by linarith
  then have "length (node_enc K (rt_trie items keys depth)) \<le> 3 + 33 * 2"
    unfolding trie_ext [OF ext(1,2)] node_enc_def node_rlp.simps
    using rlp_list_le [of "[RStr (hp_encode False ?q), ref_of K (node_rlp K ?t)]" 33] hashed_ref [OF K hs]
    by (fastforce simp del: rlp_enc.simps)
  then show ?case using ext.IH [OF ok ext(5,6,7)] unfolding path by (simp add: path_nodes_def INNER_MAX_def)
next
  case (branch keys depth)
  let ?T = "rt_trie items keys depth"
  show ?case
  proof (cases "depth < length target")
    case False
    then show ?thesis by (simp add: path_nodes_def trie_branch [OF branch(1,2)] del: upt_Suc)
  next
    case l: True
    let ?n = "target ! depth"
    have m: "target \<in> set (sub_keys keys depth ?n)" using l branch(7) by (simp add: sub_keys_def)
    then have ne: "sub_keys keys depth ?n \<noteq> []" by auto
    have n: "?n < 16" using keys_okD(2) [OF branch(4,7)] l by (simp add: nibble_list_def)
    have hs: "hashed K (sub_trie items keys depth k)" if "sub_keys keys depth k \<noteq> []" for k
    proof -
      have "\<forall>k\<in>set (sub_keys keys depth k). 32 \<le> length (items k)" using branch(5) sub_keysD by blast
      then show ?thesis using rt_trie_hashed [where K = K, OF K keys_ok_sub [OF branch(4) that]] that by (simp add: sub_trie_def)
    qed
    have "k = target" if "k \<in> set keys" "length k = depth" for k
    proof -
      have "take (length k) target = k" using keys_okD(3) [OF branch(4) that(1) branch(7)] that(2) by simp
      then show ?thesis using branch(6) that(1) by blast
    qed
    then have none: "filter (\<lambda>k. length k = depth) keys = []" using l by (auto simp: filter_empty_conv)
    have T: "?T = TBranch (map (sub_trie items keys depth) [0..<16]) []"
      unfolding trie_branch [OF branch(1,2)] none by (simp add: Let_def del: upt_Suc)
    have child: "length (rlp_enc (ref_of K (node_rlp K (sub_trie items keys depth k)))) \<le> 33" for k
      using hashed_ref [OF K hs [of k]] null_ref [of K] by (cases "sub_keys keys depth k = []") (simp_all add: sub_trie_def)
    have "length (rlp_enc (RStr [])) \<le> 33" by (simp add: enc_prefix_def)
    then have "length (node_enc K ?T) \<le> 3 + 33 * 17" unfolding T node_enc_def node_rlp.simps
      using rlp_list_le [of "map (\<lambda>t. ref_of K (node_rlp K t)) (map (sub_trie items keys depth) [0..<16]) @ [RStr []]" 33] child
      by (fastforce simp del: rlp_enc.simps upt_Suc)
    moreover have "drop depth target = ?n # drop (depth + 1) target" using l by (simp add: Cons_nth_drop_Suc)
    then have "path_nodes K ?T (drop depth target) =
        node_enc K ?T # path_nodes K (sub_trie items keys depth ?n) (drop (depth + 1) target)"
      unfolding T using n hs [OF ne] by (simp add: path_nodes_def del: upt_Suc)
    moreover have "\<forall>e\<in>set (butlast (path_nodes K (sub_trie items keys depth ?n) (drop (depth + 1) target))). length e \<le> INNER_MAX"
      using branch(3) [OF ne keys_ok_sub [OF branch(4) ne] _ _ m] branch(5,6) sub_keysD ne
      by (simp add: sub_trie_def)
    ultimately show ?thesis by (simp add: path_nodes_def INNER_MAX_def)
  qed
qed

section \<open>The receipts of a block\<close>

text \<open>The consensus receipt a JSON receipt describes.\<close>

definition receipt_of :: "json_receipt \<Rightarrow> eth_receipt" where
  "receipt_of r = \<lparr>er_type = (case jr_type r of None \<Rightarrow> 0 | Some t \<Rightarrow> t),
     er_status = (if (case jr_status r of None \<Rightarrow> 1 | Some s \<Rightarrow> s) = 0 then 0 else 1),
     er_gas = jr_gas r, er_bloom = jr_bloom r, er_logs = jr_logs r\<rparr>"

lemma be_min_byte: "0 < v \<Longrightarrow> v < 256 \<Longrightarrow> be_min v = [of_nat v]"
  by (simp add: be_min_pos)

lemma encode_receipt_enc:
  assumes "receipt_wf (receipt_of r)"
  shows "encode_receipt rlp_enc r = Inr (receipt_enc (receipt_of r))"
proof -
  let ?s = "case jr_status r of None \<Rightarrow> 1 | Some s \<Rightarrow> s" and ?ty = "case jr_type r of None \<Rightarrow> 0 | Some t \<Rightarrow> t"
  have ty: "?ty \<le> 0x7F" using assms by (simp add: receipt_wf_def receipt_of_def)
  have one: "be_min (if ?s = 0 then 0 else 1) = (if ?s = 0 then [] else [1])" by (simp add: be_min_byte)
  show ?thesis unfolding encode_receipt_def Let_def receipt_enc_def receipt_rlp_def log_rlp_def [abs_def]
    using ty one by (simp add: receipt_of_def del: rlp_enc.simps)
qed

text \<open>The key of a transaction is the RLP encoding of its index.\<close>

lemma tx_key_rlp:
  assumes "tx \<le> 0xFFFFFF"
  shows "rlp_enc (RStr (be_min tx)) = tx_key tx"
proof -
  have two: "be_min v = be_bytes 2 v" if "256 \<le> v" "v < 256 ^ 2" for v
    using that be_min_byte [of "v div 256"] by (simp add: be_min_pos numeral_2_eq_2)
  have three: "be_min v = be_bytes 3 v" if "256 ^ 2 \<le> v" "v < 256 ^ 3" for v
    using that two [of "v div 256"] by (simp add: be_min_pos numeral_3_eq_3 numeral_2_eq_2)
  consider "tx = 0" | "0 < tx" "tx \<le> 0x7F" | "0x80 \<le> tx" "tx \<le> 0xFF" | "256 \<le> tx" "tx < 256 ^ 2" | "256 ^ 2 \<le> tx" "tx < 256 ^ 3"
    using assms by fastforce
  then show ?thesis
  proof cases
    case 1
    then show ?thesis by (simp add: tx_key_def mpt_key_from_tx_index_def enc_prefix_def)
  next
    case 2
    have "seg 7 1 (itob tx) = [of_nat tx]" using 2 low_byte_eq [of tx] by (simp add: low_byte_def)
    then show ?thesis using 2 assms
      by (simp add: tx_key_def mpt_key_from_tx_index_def bextract_def itob_def be_min_byte unat_of_nat_byte)
  next
    case 3
    have "seg 7 1 (itob tx) = [of_nat tx]" using 3 low_byte_eq [of tx] by (simp add: low_byte_def)
    then show ?thesis using 3 assms
      by (simp add: tx_key_def mpt_key_from_tx_index_def bextract_def bconcat_def max_bytes_def itob_def be_min_byte
          unat_of_nat_byte enc_prefix_def)
  next
    case 4
    have "seg 6 2 (itob tx) = be_bytes 2 tx" using low_bytes2_eq [of tx] by (simp add: low_bytes2_def)
    then show ?thesis using 4 assms two [OF 4]
      by (simp add: tx_key_def mpt_key_from_tx_index_def bextract_def bconcat_def max_bytes_def itob_def enc_prefix_def)
  next
    case 5
    have "seg 5 3 (itob tx) = be_bytes 3 tx" using seg_be_bytes [of 3 8 tx] by (simp add: itob_def)
    then show ?thesis using 5 assms three [OF 5]
      by (simp add: tx_key_def mpt_key_from_tx_index_def bextract_def bconcat_def max_bytes_def itob_def enc_prefix_def)
  qed
qed

text \<open>
  The receipts of a block, in order: well formed, of any size and with any number of logs, with a 256-byte bloom filter, and each receipt's
  index, when it gives one, is its position.
\<close>

lemma receipt_enc_long: "length (er_bloom r) = 256 \<Longrightarrow> 32 \<le> length (receipt_enc r)"
proof -
  assume "length (er_bloom r) = 256"
  then have "256 \<le> length (rlp_enc (RStr (er_bloom r)))" by simp
  also have "\<dots> \<le> length (concat (map rlp_enc [RStr (be_min (er_status r)), RStr (be_min (er_gas r)), RStr (er_bloom r),
      RList (map log_rlp (er_logs r))]))" by (simp del: rlp_enc.simps)
  also have "\<dots> < length (rlp_enc (receipt_rlp r))" unfolding receipt_rlp_def by (rule length_rlp_list)
  also have "\<dots> \<le> length (receipt_enc r)" by (simp add: receipt_enc_def)
  finally show ?thesis by simp
qed

definition block_ok :: "json_receipt list \<Rightarrow> bool" where
  "block_ok rs \<longleftrightarrow> length rs \<le> 0x1000000 \<and>
     (\<forall>i<length rs. receipt_wf (receipt_of (rs ! i)) \<and> length (jr_bloom (rs ! i)) = 256 \<and> receipt_index i (rs ! i) = i)"

definition block_items :: "json_receipt list \<Rightarrow> (nat list \<times> bytes) list" where
  "block_items rs = map (\<lambda>i. (nibs (tx_key i), receipt_enc (receipt_of (rs ! i)))) [0..<length rs]"

definition block_trie :: "json_receipt list \<Rightarrow> trie" where
  "block_trie rs = rt_trie (\<lambda>k. the (map_of (rev (block_items rs)) k)) (sort (remdups (map fst (block_items rs)))) 0"

lemma receipt_items_drop:
  assumes ok: "block_ok rs"
  shows "n \<le> length rs \<Longrightarrow> receipt_items rlp_enc n (drop n rs) =
    Inr (map (\<lambda>i. (nibs (tx_key i), receipt_enc (receipt_of (rs ! i)))) [n..<length rs])"
proof (induction "length rs - n" arbitrary: n)
  case 0
  then show ?case by simp
next
  case (Suc m)
  then have n: "n < length rs" by simp
  have r: "receipt_wf (receipt_of (rs ! n))" "receipt_index n (rs ! n) = n" "n \<le> 0xFFFFFF" using ok n by (auto simp: block_ok_def)
  have "drop n rs = rs ! n # drop (n + 1) rs" using n by (simp add: Cons_nth_drop_Suc)
  moreover have "[n..<length rs] = n # [n + 1..<length rs]" using n by (simp add: upt_conv_Cons)
  ultimately show ?case using Suc(1) [of "n + 1"] Suc(2) n encode_receipt_enc [OF r(1)] r(2) tx_key_rlp [OF r(3)]
    by (simp add: rt_nib_nibs del: rlp_enc.simps)
qed

lemma receipt_items_block: "block_ok rs \<Longrightarrow> receipt_items rlp_enc 0 rs = Inr (block_items rs)"
  using receipt_items_drop [of rs 0] by (simp add: block_items_def)

lemma tx_key_inj: "i \<le> 0xFFFFFF \<Longrightarrow> j \<le> 0xFFFFFF \<Longrightarrow> tx_key i = tx_key j \<Longrightarrow> i = j"
proof -
  assume b: "i \<le> 0xFFFFFF" "j \<le> 0xFFFFFF" and e: "tx_key i = tx_key j"
  have tail: "be_min v = (if v = 0 then [] else if length (tx_key v) = 1 then tx_key v else tl (tx_key v))" if "v \<le> 0xFFFFFF" for v
  proof -
    have "tx_key v = (if length (be_min v) = 1 \<and> unat (hd (be_min v)) < 0x80 then be_min v
        else enc_prefix 0x80 (length (be_min v)) @ be_min v)" using tx_key_rlp [OF that] by simp
    moreover have "length (be_min v) \<le> 3" using length_be_min_le [of v 3] that by simp
    moreover have "be_min v = [] \<longleftrightarrow> v = 0" by (cases "v = 0") (simp_all add: be_min_pos)
    ultimately show ?thesis by (auto simp: enc_prefix_def)
  qed
  have zero: "tx_key v = [0x80] \<longleftrightarrow> v = 0" if "v \<le> 0xFFFFFF" for v
  proof
    assume k: "tx_key v = [0x80]"
    show "v = 0"
    proof (rule ccontr)
      assume "v \<noteq> 0"
      then have m: "be_min v = [0x80]" using tail [OF that] k by simp
      then have "v = 128" using be_val_be_min [of v] by (simp add: be_val_def)
      then show False using k by (simp add: tx_key_def mpt_key_from_tx_index_def bextract_def bconcat_def itob_def max_bytes_def)
    qed
  qed (simp add: tx_key_def mpt_key_from_tx_index_def)
  have z: "i = 0 \<longleftrightarrow> j = 0" using zero [OF b(1)] zero [OF b(2)] unfolding e by simp
  have "be_min i = be_min j"
  proof (cases "i = 0")
    case False
    then have "j \<noteq> 0" using z by simp
    then show ?thesis using False unfolding tail [OF b(1)] tail [OF b(2)] e by simp
  qed (use z in simp)
  then have "be_val (be_min i) = be_val (be_min j)" by simp
  then show "i = j" by simp
qed

lemma block_keys_ok:
  assumes ok: "block_ok rs" and "rs \<noteq> []"
  shows "keys_ok (sort (remdups (map fst (block_items rs)))) 0"
proof (rule keys_okI)
  show "sort (remdups (map fst (block_items rs))) \<noteq> []"
  proof -
    have "block_items rs \<noteq> []" using assms(2) by (simp add: block_items_def)
    then have "set (map fst (block_items rs)) \<noteq> {}" by simp
    then have "set (sort (remdups (map fst (block_items rs)))) \<noteq> {}" by (simp only: set_sort set_remdups) simp
    then show ?thesis by (metis list.set(1))
  qed
  show "nibble_list k" if "k \<in> set (sort (remdups (map fst (block_items rs))))" for k
    using that nibs_less by (auto simp: block_items_def nibble_list_def)
qed simp_all

lemma block_lookup_item:
  assumes ok: "block_ok rs" and i: "i < length rs"
  shows "map_of (rev (block_items rs)) (nibs (tx_key i)) = Some (receipt_enc (receipt_of (rs ! i)))"
proof -
  have "inj_on (\<lambda>i. nibs (tx_key i)) (set [0..<length rs])"
  proof (rule inj_onI)
    fix x y assume xy: "x \<in> set [0..<length rs]" "y \<in> set [0..<length rs]" "nibs (tx_key x) = nibs (tx_key y)"
    have "x \<le> 0xFFFFFF" "y \<le> 0xFFFFFF" using xy ok by (auto simp: block_ok_def)
    then show "x = y" using nibs_inj [OF xy(3)] tx_key_inj by blast
  qed
  then have "distinct (map fst (rev (block_items rs)))"
    by (simp add: block_items_def distinct_map rev_map comp_def)
  moreover have "(nibs (tx_key i), receipt_enc (receipt_of (rs ! i))) \<in> set (rev (block_items rs))"
    using i by (auto simp: block_items_def)
  ultimately show ?thesis by (rule map_of_is_SomeI)
qed

text \<open>What the relayer returns for a transaction of the block.\<close>

lemma build_block:
  assumes K: "\<And>x. length (K x) = 32" and ok: "block_ok rs" and tx: "tx < length rs"
  shows "build_receipts_trie_and_path rlp_enc K rs tx =
      Inr (K (node_enc K (block_trie rs)), path_nodes K (block_trie rs) (nibs (tx_key tx)))"
    and "wf_trie (block_trie rs)" and "block_trie rs \<noteq> TNull"
    and "trie_lookup (block_trie rs) (nibs (tx_key tx)) = (WALK_INCLUDED, receipt_enc (receipt_of (rs ! tx)))"
proof -
  let ?m = "map_of (rev (block_items rs))" and ?keys = "sort (remdups (map fst (block_items rs)))" and ?t = "nibs (tx_key tx)"
  have ne: "rs \<noteq> []" using tx by auto
  note kok = block_keys_ok [OF ok ne]
  have b: "tx \<le> 0xFFFFFF" using tx ok by (simp add: block_ok_def)
  have mem: "?t \<in> set ?keys" using tx by (auto simp: block_items_def image_iff)
  have len: "\<forall>k\<in>set ?keys. 32 \<le> length (the (?m k))"
  proof
    fix k assume "k \<in> set ?keys"
    then obtain i where i: "i < length rs" "k = nibs (tx_key i)" by (auto simp: block_items_def)
    have "32 \<le> length (receipt_enc (receipt_of (rs ! i)))" using ok i(1) by (intro receipt_enc_long) (simp add: block_ok_def receipt_of_def)
    then show "32 \<le> length (the (?m k))" using block_lookup_item [OF ok i(1)] i(2) by simp
  qed
  have item: "?m ?t = Some (receipt_enc (receipt_of (rs ! tx)))" by (rule block_lookup_item [OF ok tx])
  have key: "rt_nib (rlp_enc (RStr (be_min tx))) = ?t" by (simp only: rt_nib_nibs tx_key_rlp [OF b])
  have path: "rev (snd (rt_build rlp_enc K (\<lambda>k. the (?m k)) ?t ?keys 0 True)) = path_nodes K (block_trie rs) ?t"
    using build_path [where K = K, OF K kok len mem] by (simp only: block_trie_def drop_0)
  have node: "rlp_enc (fst (rt_build rlp_enc K (\<lambda>k. the (?m k)) ?t ?keys 0 True)) = node_enc K (block_trie rs)"
    by (simp only: build_node node_enc_def block_trie_def)
  show "build_receipts_trie_and_path rlp_enc K rs tx =
      Inr (K (node_enc K (block_trie rs)), path_nodes K (block_trie rs) ?t)"
    unfolding build_receipts_trie_and_path_def receipt_items_block [OF ok] rbind_Inr Let_def key path node
    by (simp add: item)
  show "wf_trie (block_trie rs)" unfolding block_trie_def by (rule rt_trie_wf [OF kok])
  show "block_trie rs \<noteq> TNull" unfolding block_trie_def
    by (subst rt_trie.simps) (simp split: if_split)
  have "\<forall>k\<in>set ?keys. the (?m k) \<noteq> []" using len by fastforce
  from rt_trie_lookup [OF kok this mem] show "trie_lookup (block_trie rs) ?t = (WALK_INCLUDED, receipt_enc (receipt_of (rs ! tx)))"
    by (simp add: block_trie_def item)
qed

text \<open>No key of a block is a prefix of another, since keys are RLP items.\<close>

lemma tx_key_prefix_free:
  assumes "i \<le> 0xFFFFFF" and "j \<le> 0xFFFFFF" and "take (length (nibs (tx_key i))) (nibs (tx_key j)) = nibs (tx_key i)"
  shows "i = j"
proof -
  let ?a = "rlp_enc (RStr (be_min i))" and ?b = "rlp_enc (RStr (be_min j))"
  have e: "?a = tx_key i" "?b = tx_key j" by (rule tx_key_rlp, fact)+
  have "nibs (take (length (tx_key i)) (tx_key j)) = nibs (tx_key i)" using assms(3) by (simp flip: take_nibs)
  then have t: "take (length ?a) ?b = ?a" using nibs_inj unfolding e by blast
  have split: "?b = [] @ ?a @ drop (length ?a) ?b" using append_take_drop_id [of "length ?a" ?b] unfolding t by simp
  have whole: "?b = [] @ ?b @ []" by simp
  have lim: "length ?b < uint64_limit" using tx_key_bounds [OF assms(2)] unfolding e by (simp add: uint64_limit_def)
  have "rlp_stride ?b 0 = Inr (length ?a)" "rlp_stride ?b 0 = Inr (length ?b)"
    using rlp_stride_enc [OF split lim] rlp_stride_enc [OF whole lim] by simp_all
  then have "length ?a = length ?b" by simp
  then have "?a = ?b" using t by simp
  then show ?thesis using tx_key_inj [OF assms(1,2)] unfolding e by simp
qed

text \<open>Only the leaf of a receipt's path can be long: the nodes above it fit every limit.\<close>

lemma block_path_small:
  assumes K: "\<And>x. length (K x) = 32" and ok: "block_ok rs" and tx: "tx < length rs"
    and leaf: "length (last (path_nodes K (block_trie rs) (nibs (tx_key tx)))) \<le> max_bytes"
  shows "\<forall>e\<in>set (path_nodes K (block_trie rs) (nibs (tx_key tx))). length e \<le> max_bytes"
proof -
  let ?m = "map_of (rev (block_items rs))" and ?keys = "sort (remdups (map fst (block_items rs)))" and ?t = "nibs (tx_key tx)"
  let ?P = "path_nodes K (block_trie rs) ?t"
  have b: "i < length rs \<Longrightarrow> i \<le> 0xFFFFFF" for i using ok by (simp add: block_ok_def)
  have mem: "?t \<in> set ?keys" using tx by (auto simp: block_items_def image_iff)
  have keys: "\<exists>i<length rs. k = nibs (tx_key i)" if "k \<in> set ?keys" for k using that by (auto simp: block_items_def)
  have items: "\<forall>k\<in>set ?keys. 32 \<le> length (the (?m k)) \<and> length k \<le> 8"
  proof
    fix k assume "k \<in> set ?keys"
    then obtain i where i: "i < length rs" "k = nibs (tx_key i)" using keys by blast
    have "32 \<le> length (receipt_enc (receipt_of (rs ! i)))" using ok i(1) by (intro receipt_enc_long) (simp add: block_ok_def receipt_of_def)
    then show "32 \<le> length (the (?m k)) \<and> length k \<le> 8"
      using block_lookup_item [OF ok i(1)] tx_key_bounds [OF b [OF i(1)]] i(2) by simp
  qed
  have free: "\<forall>k\<in>set ?keys. take (length k) ?t = k \<longrightarrow> k = ?t"
    using keys tx_key_prefix_free b tx by blast
  have ne: "rs \<noteq> []" using tx by auto
  have "\<forall>n\<in>set (butlast (path_nodes K (rt_trie (\<lambda>k. the (?m k)) ?keys 0) (drop 0 ?t))). length n \<le> INNER_MAX"
    by (rule inner_nodes_small [where K = K, OF K block_keys_ok [OF ok ne] items free mem])
  then have inner: "\<forall>n\<in>set (butlast ?P). length n \<le> max_bytes"
    unfolding block_trie_def drop_0 by (fastforce simp: INNER_MAX_def max_bytes_def)
  have "set ?P = insert (last ?P) (set (butlast ?P))"
    by (metis append_butlast_last_id list.distinct(1) path_nodes_def rotate1.simps(2) set_rotate1 list.simps(15))
  then show ?thesis using inner leaf by simp
qed

end
