(* ===== verification/Rel_Plan.thy ===== *)
theory Rel_Plan
  imports Rel_Exec Rel_Logs Rel_Trie
begin

text \<open>
  The relayer's receipt plans executed as a whole: the calls of \<open>walk_calls\<close> from the initialising one,
  and the box staging of a large leaf.
\<close>

section \<open>Staging calls\<close>

definition staging_args :: "byte \<Rightarrow> nat \<Rightarrow> bytes \<Rightarrow> nat \<Rightarrow> bytes list \<Rightarrow> bytes list" where
  "staging_args mode gi name n rest = [RCPT_SELECTOR, [mode], [of_nat gi], name @ be_bytes 2 n] @ rest"

lemma staging_args_fields:
  assumes "length name = 8" and "n < 65536" and "gi < 256"
  shows "staging_fields (env_at app G i (staging_args mode gi name n rest)) = Inr (name, n)"
    and "app_arg (env_at app G i (staging_args mode gi name n rest)) 0 = Inr RCPT_SELECTOR"
    and "app_arg (env_at app G i (staging_args mode gi name n rest)) 1 = Inr [mode]"
    and "app_arg (env_at app G i (staging_args mode gi name n rest)) 2 = Inr [of_nat gi]"
    and "btoi [of_nat gi :: byte] = Inr gi"
    and "env_args (env_at app G i (staging_args mode gi name n rest)) \<noteq> []"
proof -
  have f: "length (name @ be_bytes 2 n) = 10" "bextract (name @ be_bytes 2 n) 0 8 = Inr name"
    using assms(1) seg_at [of "[]" 0 name 8] by (simp_all add: bextract_def del: be_bytes.simps)
  have "seg 8 2 (name @ be_bytes 2 n) = be_bytes 2 n" using assms(1) by (intro seg_at_end) simp_all
  then have g: "extract_uint16 (name @ be_bytes 2 n) 8 = Inr n"
    using f(1) assms(2) by (simp add: extract_uint16_def bextract_def be_val_be_bytes del: be_bytes.simps)
  have a: "app_arg (env_at app G i (staging_args mode gi name n rest)) 3 = Inr (name @ be_bytes 2 n)"
    by (simp add: app_arg_def env_at_def staging_args_def del: be_bytes.simps)
  show "staging_fields (env_at app G i (staging_args mode gi name n rest)) = Inr (name, n)"
    unfolding staging_fields_def a rbind_Inr using f g by (simp del: be_bytes.simps)
  show "btoi [of_nat gi :: byte] = Inr gi" using assms(3) by (simp add: unat_of_nat_byte)
qed (simp_all add: app_arg_def env_at_def staging_args_def del: One_nat_def)

lemma stage_modes:
  "btoi [2 :: byte] = Inr MODE_STAGE_OPEN" "btoi [3 :: byte] = Inr MODE_STAGE_WRITE" "btoi [4 :: byte] = Inr MODE_STAGE_WALK"
  "MODE_STAGE_OPEN \<noteq> MODE_INIT" "MODE_STAGE_OPEN \<noteq> MODE_NEXT" "MODE_STAGE_WRITE \<noteq> MODE_INIT" "MODE_STAGE_WRITE \<noteq> MODE_NEXT"
  "MODE_STAGE_WRITE \<noteq> MODE_STAGE_OPEN" "MODE_STAGE_WALK \<noteq> MODE_INIT" "MODE_STAGE_WALK \<noteq> MODE_NEXT"
  "MODE_STAGE_WALK \<noteq> MODE_STAGE_OPEN" "MODE_STAGE_WALK \<noteq> MODE_STAGE_WRITE"
  by (simp_all add: rcpt_mode_defs)

text \<open>Both drivers dispatch a staging call to the same code.\<close>

lemma staging_dispatch:
  assumes f: "length name = 8" "n < 65536" "gi < 256" and A: "A = mpt7_receipt_app K \<or> A = mpt7_anchored_app K anchor_id"
  shows "A bs (env_at app G i (staging_args 2 gi name n rest)) = mode_stage_open bs (env_at app G i (staging_args 2 gi name n rest))"
    and "A bs (env_at app G i (staging_args 3 gi name n rest)) = mode_stage_write bs (env_at app G i (staging_args 3 gi name n rest))"
    and "A bs (env_at app G i (staging_args 4 gi name n rest)) = mode_stage_walk K bs (env_at app G i (staging_args 4 gi name n rest)) gi"
proof -
  note d = staging_args_fields [OF f]
  have r: "mpt7_receipt_app K bs (env_at app G i (staging_args 2 gi name n rest)) = mode_stage_open bs (env_at app G i (staging_args 2 gi name n rest))"
    "mpt7_receipt_app K bs (env_at app G i (staging_args 3 gi name n rest)) = mode_stage_write bs (env_at app G i (staging_args 3 gi name n rest))"
    "mpt7_receipt_app K bs (env_at app G i (staging_args 4 gi name n rest)) = mode_stage_walk K bs (env_at app G i (staging_args 4 gi name n rest)) gi"
    unfolding mpt7_receipt_app_def if_not_P [OF d(6)] d(2-5) rbind_Inr stage_modes(1-3) by (simp_all add: stage_modes(4-12))
  have a: "mpt7_anchored_app K anchor_id bs (env_at app G i (staging_args 2 gi name n rest)) = mode_stage_open bs (env_at app G i (staging_args 2 gi name n rest))"
    "mpt7_anchored_app K anchor_id bs (env_at app G i (staging_args 3 gi name n rest)) = mode_stage_write bs (env_at app G i (staging_args 3 gi name n rest))"
    "mpt7_anchored_app K anchor_id bs (env_at app G i (staging_args 4 gi name n rest)) = mode_stage_walk K bs (env_at app G i (staging_args 4 gi name n rest)) gi"
    unfolding mpt7_anchored_app_def if_not_P [OF d(6)] d(2-5) rbind_Inr stage_modes(1-3)
    by (simp_all add: stage_modes(4-12) stage_walk_anchored_eq)
  show "A bs (env_at app G i (staging_args 2 gi name n rest)) = mode_stage_open bs (env_at app G i (staging_args 2 gi name n rest))"
    "A bs (env_at app G i (staging_args 3 gi name n rest)) = mode_stage_write bs (env_at app G i (staging_args 3 gi name n rest))"
    "A bs (env_at app G i (staging_args 4 gi name n rest)) = mode_stage_walk K bs (env_at app G i (staging_args 4 gi name n rest)) gi"
    using r a A by auto
qed

lemma stage_open_run:
  assumes "length name = 8" "1943 \<le> n" "n \<le> 4096" and A: "A = mpt7_receipt_app K \<or> A = mpt7_anchored_app K anchor_id"
  shows "A bs (env_at app G i (staging_args 2 0 name n [])) = Inr (bs(name \<mapsto> replicate n 0), None)"
proof -
  have f: "length name = 8" "n < 65536" "(0::nat) < 256" using assms(1,3) by simp_all
  show ?thesis unfolding staging_dispatch(1) [OF f A] mode_stage_open_def staging_args_fields(1) [OF f]
    using assms(2,3)
    by (simp add: mpt7_stage_open_def MIN_STAGED_LEAF_def MAX_STAGED_LEAF_def box_delete_def box_create_def max_box_size_def)
qed

lemma stage_write_run:
  assumes "length name = 8" "offset + length chunk \<le> length b" "length b \<le> 4096" and b: "bs name = Some b"
    and A: "A = mpt7_receipt_app K \<or> A = mpt7_anchored_app K anchor_id"
  shows "A bs (env_at app G i (staging_args 3 0 name offset [chunk])) = Inr (bs(name \<mapsto> overwrite offset chunk b), None)"
proof -
  have f: "length name = 8" "offset < 65536" "(0::nat) < 256" using assms(1-3) by simp_all
  have c: "app_arg (env_at app G i (staging_args 3 0 name offset [chunk])) 4 = Inr chunk"
    by (simp add: app_arg_def env_at_def staging_args_def)
  show ?thesis unfolding staging_dispatch(2) [OF f A] mode_stage_write_def staging_args_fields(1) [OF f] c
    using assms(2) b by (simp add: mpt7_stage_write_def box_replace_def breplace_def)
qed

text \<open>The chunks of a leaf, written in order into a box of its length.\<close>

lemma overwrite_chunk:
  assumes "take offset b = take offset leaf" and "length b = length leaf" and "offset \<le> length leaf"
  shows "take (offset + length (seg offset n leaf)) (overwrite offset (seg offset n leaf) b) =
      take (offset + length (seg offset n leaf)) leaf"
    and "length (overwrite offset (seg offset n leaf) b) = length leaf"
proof -
  let ?c = "seg offset n leaf"
  have l: "offset + length ?c \<le> length leaf" using assms(3) by (simp add: seg_def)
  have "take (offset + length ?c) leaf = take offset leaf @ ?c"
    by (simp add: take_add seg_def min_def)
  then show "take (offset + length ?c) (overwrite offset ?c b) = take (offset + length ?c) leaf"
    using assms l by (simp add: overwrite_def)
  show "length (overwrite offset ?c b) = length leaf" using assms(2) l by (simp add: overwrite_def)
qed

lemma write_calls_run:
  assumes A: "A = mpt7_receipt_app K \<or> A = mpt7_anchored_app K anchor_id"
  shows "length name = 8 \<Longrightarrow> length leaf \<le> 4096 \<Longrightarrow> offset \<le> length leaf \<Longrightarrow>
    \<exists>cs G'. write_calls name leaf offset = Inr cs \<and> length G' = length cs \<and>
      (\<forall>bs b. bs name = Some b \<and> length b = length leaf \<and> take offset b = take offset leaf \<longrightarrow>
         exec_calls A app G bs cs = Inr (G @ G', bs(name \<mapsto> leaf)))"
proof (induction name leaf offset arbitrary: G rule: write_calls.induct)
  case (1 name leaf offset)
  show ?case
  proof (cases "offset < length leaf")
    case False
    have "bs(name \<mapsto> leaf) = bs" if "bs name = Some b" "length b = length leaf" "take offset b = take offset leaf" for bs b
    proof -
      have "b = leaf" using that(2,3) False by simp
      then show ?thesis using that(1) by auto
    qed
    then show ?thesis unfolding write_calls.simps [of name leaf offset] if_not_P [OF False] by auto
  next
    case True
    let ?c = "seg offset 1900 leaf"
    have l: "offset + length ?c \<le> length leaf" using True by (simp add: seg_def)
    let ?args = "staging_args 3 0 name offset [?c]"
    let ?t = "AppCall app ?args []" and ?call = "\<lparr>rc_args = staging_args 3 0 name offset [?c], rc_boxes = Some [name], rc_produces_log = False\<rparr>"
    have o2: "to_bytes_be 2 offset = Inr (be_bytes 2 offset)" using True 1(3) by (simp add: to_bytes_be_def require_def)
    from 1(1) [where G = "G @ [?t]", OF True refl o2 1(2,3) l]
    obtain cs G' where h: "write_calls name leaf (offset + length ?c) = Inr cs" "length G' = length cs"
      "\<And>bs b. bs name = Some b \<and> length b = length leaf \<and> take (offset + length ?c) b = take (offset + length ?c) leaf \<Longrightarrow>
         exec_calls A app (G @ [?t]) bs cs = Inr ((G @ [?t]) @ G', bs(name \<mapsto> leaf))" by blast
    have w: "write_calls name leaf offset = Inr (?call # cs)"
      unfolding write_calls.simps [of name leaf offset] if_P [OF True] Let_def o2 rbind_Inr h(1)
      by (simp add: staging_args_def RCPT_SELECTOR_def del: be_bytes.simps)
    have "exec_calls A app G bs (?call # cs) = Inr (G @ (?t # G'), bs(name \<mapsto> leaf))"
      if b: "bs name = Some b" "length b = length leaf" "take offset b = take offset leaf" for bs b
    proof -
      let ?b = "overwrite offset ?c b"
      note o = overwrite_chunk [OF b(3,2) 1(4), of 1900]
      have "A bs (env_at app G (length G) ?args) = Inr (bs(name \<mapsto> ?b), None)"
        by (rule stage_write_run [where bs = bs and b = b, OF 1(2) _ _ b(1) A]) (use l 1(3) b(2) in auto)
      moreover have "exec_calls A app (G @ [?t]) (bs(name \<mapsto> ?b)) cs = Inr ((G @ [?t]) @ G', (bs(name \<mapsto> ?b))(name \<mapsto> leaf))"
        by (rule h(3) [where b = ?b]) (simp add: o)
      ultimately show ?thesis by (simp add: logged_bytes_def)
    qed
    moreover have "length (?t # G') = length (?call # cs)" using h(2) by simp
    ultimately show ?thesis using w by blast
  qed
qed

lemma write_calls_all:
  assumes A: "A = mpt7_receipt_app K \<or> A = mpt7_anchored_app K anchor_id" and n: "length name = 8" and l: "length leaf \<le> 4096"
  shows "\<exists>ws G'. write_calls name leaf 0 = Inr ws \<and> length G' = length ws \<and>
    (\<forall>bs. exec_calls A app G (bs(name \<mapsto> replicate (length leaf) 0)) ws = Inr (G @ G', bs(name \<mapsto> leaf)))"
proof -
  obtain ws G' where w: "write_calls name leaf 0 = Inr ws" "length G' = length ws"
    "\<And>bs b. bs name = Some b \<and> length b = length leaf \<and> take 0 b = take 0 leaf \<Longrightarrow>
       exec_calls A app G bs ws = Inr (G @ G', bs(name \<mapsto> leaf))"
    using write_calls_run [OF A n l, of 0] by blast
  have "exec_calls A app G (bs(name \<mapsto> replicate (length leaf) 0)) ws = Inr (G @ G', bs(name \<mapsto> leaf))" for bs
    using w(3) [of "bs(name \<mapsto> replicate (length leaf) 0)" "replicate (length leaf) 0"] by (simp only: fun_upd_upd) simp
  then show ?thesis using w(1,2) by blast
qed

text \<open>The staged walk: it reads the leaf back, decides the result and closes the box.\<close>

lemma logged_recover_later:
  assumes "logged_state app G w r"
  shows "mpt7_state_from_prev (env_at app (G @ G2) (length (G @ G2)) args) (length G - 1) = Inr (w, r)"
proof -
  obtain rest lg where g: "G \<noteq> []" "last G = AppCall app (RCPT_SELECTOR # rest) lg" "mpt7_log_state w r = Inr lg"
    using assms by (auto simp: logged_state_def)
  have "(G @ G2) ! (length G - 1) = AppCall app (RCPT_SELECTOR # rest) lg" using g(1,2) by (simp add: nth_append last_conv_nth)
  moreover have "length G - 1 < length (G @ G2)" using g(1) by (cases G) simp_all
  ultimately show ?thesis using g(3) by (intro rcpt_recover_logged) (auto simp: env_at_def)
qed

lemma stage_walk_run:
  assumes n: "length name = 8" "length leaf \<le> 4096" and st: "logged_state app G w r" "length G \<le> 256"
    and o: "r_rstatus r = Inr R_INCOMPLETE" and b: "bs name = Some leaf"
    and walk: "mpt_walk_node K leaf w = Inr (w2, off, k)" "finalize_if_terminal K w2 r leaf off k = Inr r2"
    and lg: "mpt7_log_state w2 r2 = Inr lg" and A: "A = mpt7_receipt_app K \<or> A = mpt7_anchored_app K anchor_id"
  shows "A bs (env_at app (G @ G2) (length (G @ G2)) (staging_args 4 (length G - 1) name (length leaf) [])) =
    Inr (bs(name := None), Some lg)"
proof -
  have f: "length name = 8" "length leaf < 65536" "length G - 1 < 256"
    using n st by (auto simp: logged_state_def)
  have "mpt7_stage_read bs name (length leaf) = Inr leaf"
    using b n(2) by (simp add: mpt7_stage_read_def box_extract_all max_bytes_def)
  then show ?thesis
    unfolding staging_dispatch(3) [OF f A] mode_stage_walk_def staging_args_fields(1) [OF f] rbind_Inr
      prod.case logged_recover_later [OF st(1)] o
    using walk lg by (simp add: mpt7_stage_close_def box_delete_def)
qed

section \<open>The walk calls, from the initialising one\<close>

lemma initial_result:
  assumes "length root = 32" "tx \<le> 0xFFFFFF" "li \<le> 0xFFFF"
  shows "r_rstatus (r_encode (r_initial root tx li)) = Inr R_INCOMPLETE" and "length (r_encode (r_initial root tx li)) = R_LEN"
proof -
  have "r_ok (r_initial root tx li)" using assms by (simp add: r_ok_def r_initial_def R_INCOMPLETE_def)
  then show "r_rstatus (r_encode (r_initial root tx li)) = Inr R_INCOMPLETE" "length (r_encode (r_initial root tx li)) = R_LEN"
    by (simp_all add: r_encode_get length_r_encode) (simp add: r_initial_def)
qed

text \<open>The whole tail of a staged proof: open the box, write the leaf, walk it.\<close>

definition staged_calls :: "bytes \<Rightarrow> nat \<Rightarrow> nat \<Rightarrow> raw_call list \<Rightarrow> raw_call list" where
  "staged_calls name n ptr ws =
     \<lparr>rc_args = staging_args 2 0 name n [], rc_boxes = Some [name], rc_produces_log = False\<rparr> # ws @
     [\<lparr>rc_args = staging_args 4 ptr name n [], rc_boxes = Some [name], rc_produces_log = True\<rparr>]"

lemma staged_tail_run:
  assumes A: "A = mpt7_receipt_app K \<or> A = mpt7_anchored_app K anchor_id" and name: "length name = 8"
    and l: "1943 \<le> length leaf" "length leaf \<le> 4096" and st: "logged_state app G w r" "length G \<le> 256"
    and o: "r_rstatus r = Inr R_INCOMPLETE"
    and walk: "mpt_walk_node K leaf w = Inr (w2, off, k)" "finalize_if_terminal K w2 r leaf off k = Inr r2"
    and len: "length w2 = W_LEN" "length r2 = R_LEN"
  shows "\<exists>ws G'. write_calls name leaf 0 = Inr ws \<and>
    (\<forall>bs. exec_calls A app G bs (staged_calls name (length leaf) (length G - 1) ws) = Inr (G @ G', bs(name := None))) \<and>
    logged_state app (G @ G') w2 r2"
proof -
  obtain lg where lg: "mpt7_log_state w2 r2 = Inr lg" using rcpt_log_ok [OF len] by blast
  let ?to = "AppCall app (staging_args 2 0 name (length leaf) []) []"
  let ?aw = "staging_args 4 (length G - 1) name (length leaf) []"
  obtain ws Gw where w: "write_calls name leaf 0 = Inr ws" "length Gw = length ws"
    "\<And>bs. exec_calls A app (G @ [?to]) (bs(name \<mapsto> replicate (length leaf) 0)) ws = Inr ((G @ [?to]) @ Gw, bs(name \<mapsto> leaf))"
    using write_calls_all [where G = "G @ [?to]", OF A name l(2)] by blast
  have walk_run: "A (bs(name \<mapsto> leaf)) (env_at app ((G @ [?to]) @ Gw) (length ((G @ [?to]) @ Gw)) ?aw) = Inr (bs(name := None), Some lg)" for bs
    using stage_walk_run [where G = G and ?G2.0 = "[?to] @ Gw" and bs = "bs(name \<mapsto> leaf)", OF name l(2) st o _ walk lg A] by simp
  have "exec_calls A app G bs (staged_calls name (length leaf) (length G - 1) ws) =
      Inr (G @ ?to # Gw @ [AppCall app ?aw lg], bs(name := None))" for bs
    using stage_open_run [OF name l A, of bs app G "length G"] w(3) [of bs] walk_run [of bs]
    by (simp add: staged_calls_def exec_calls_append logged_bytes_def)
  moreover have "logged_state app (G @ ?to # Gw @ [AppCall app ?aw lg]) w2 r2"
    using logged_state_snoc [OF lg, of app "G @ ?to # Gw" "tl ?aw"] by (simp add: staging_args_def)
  ultimately show ?thesis using w(1) by blast
qed

lemma runs_init_driver: "A = mpt7_receipt_app K \<or> A = mpt7_anchored_app K anchor_id \<Longrightarrow> runs_init K A"
  using drivers_run_init by blast

lemma walk_calls_run:
  assumes A: "A = mpt7_receipt_app K \<or> A = mpt7_anchored_app K anchor_id"
    and l: "length root = 32" "tx \<le> 0xFFFFFF" "li \<le> 0xFFFF"
    and i: "mpt_init_state root (tx_key tx) (length (tx_key tx) * 2) = Inr w0" "length w0 = W_LEN"
    and s: "segment K w0 (r_encode (r_initial root tx li)) (concat gs) w' r'" and r': "length r' = R_LEN"
    and gs: "gs \<noteq> []" "\<forall>g\<in>set gs. g \<noteq> []" "length G + length gs \<le> 256"
  shows "\<exists>cs G'. walk_calls (init_fixed root tx li) (length G) logs 0 gs = Inr cs \<and> length cs = length gs \<and>
    length G' = length gs \<and> (\<forall>bs. exec_calls A app G bs cs = Inr (G @ G', bs)) \<and> logged_state app (G @ G') w' r'"
proof -
  let ?r = "r_encode (r_initial root tx li)"
  note r = initial_result [OF l]
  obtain g gs' where g: "gs = g # gs'" using gs(1) by (cases gs) auto
  have s': "segment K w0 ?r (g @ concat gs') w' r'" using s by (simp add: g)
  obtain w1 r1 where s: "segment K w0 ?r g w1 r1" "segment K w1 r1 (concat gs') w' r'" "concat gs' \<noteq> [] \<longrightarrow> r1 = ?r"
    by (rule segment_split [OF s']) (rule that)
  have ne: "gs' \<noteq> [] \<Longrightarrow> concat gs' \<noteq> []" using gs(2) by (cases gs') (auto simp: g)
  have wl: "length w1 = W_LEN" using segment_length [OF s(1)] i(2) by simp
  have rl: "length r1 = R_LEN" using s(2,3) r(2) r' by (cases "concat gs' = []") auto
  obtain lg where lg: "mpt7_log_state w1 r1 = Inr lg" using rcpt_log_ok [OF wl rl] by blast
  let ?args = "init_args root tx li g"
  let ?t = "AppCall app ?args lg" and ?c = "\<lparr>rc_args = ?args, rc_boxes = None, rc_produces_log = logs 0\<rparr>"
  have run: "A bs (env_at app G (length G) ?args) = Inr (bs, Some lg)" for bs
    using runs_init_driver [OF A] mode_init_run [OF l i(1) segment_walk7 [OF s(1)], of bs app G "length G"] lg
    by (simp add: runs_init_def)
  have st: "logged_state app (G @ [?t]) w1 r1" unfolding init_args_def by (simp add: logged_state_snoc [OF lg])
  have b: "length (G @ [?t]) = length G + 1" "length G + 1 + length gs' \<le> 256" "(0::nat) < 1" "\<forall>g\<in>set gs'. g \<noteq> []"
    "gs' \<noteq> [] \<longrightarrow> r_rstatus r1 = Inr R_INCOMPLETE" using gs(2,3) r(1) s(3) ne by (auto simp: g)
  from next_calls_run [OF A r' st wl rl b(1,3,2,4,5) s(2), of "init_fixed root tx li" logs]
  obtain cs G' where h: "walk_calls (init_fixed root tx li) (length G) logs 1 gs' = Inr cs" "length cs = length gs'"
    "length G' = length gs'" "\<And>bs. exec_calls A app (G @ [?t]) bs cs = Inr ((G @ [?t]) @ G', bs)"
    "logged_state app ((G @ [?t]) @ G') w' r'" by blast
  have c: "walk_calls (init_fixed root tx li) (length G) logs 0 gs = Inr (?c # cs)"
    using h(1) by (simp add: g init_args_def RCPT_SELECTOR_def)
  have "exec_calls A app G bs (?c # cs) = Inr (G @ (?t # G'), bs)" for bs
    using run [of bs] h(4) by (simp add: logged_bytes_def)
  then show ?thesis using c h(2,3,5) by (intro exI [of _ "?c # cs"] exI [of _ "?t # G'"]) (simp add: g)
qed

text \<open>
  The receipt pipeline end to end: the trie rebuilt by the relayer, the plan of its calls, their
  execution by the receipt verifiers and the log that the last call leaves.
\<close>

section \<open>What the last log shows\<close>

definition shows_log :: "(bytes \<Rightarrow> bytes) \<Rightarrow> bytes \<Rightarrow> nat \<Rightarrow> nat \<Rightarrow> eth_receipt \<Rightarrow> receipt_view \<Rightarrow> bool" where
  "shows_log K root tx li rc v \<longleftrightarrow>
     rv_receipts_root v = py_hex root \<and> rv_tx_index v = tx \<and> rv_log_index v = li \<and>
     rv_tx_type v = er_type rc \<and> rv_status v = er_status rc \<and>
     (if li < length (er_logs rc) then
        (let l = er_logs rc ! li in
          rv_rstatus v = R_INCLUDED \<and> rv_address v = py_hex (el_address l) \<and> rv_topics v = map py_hex (el_topics l) \<and>
          rv_data_hash v = py_hex (K (el_data l)) \<and> rv_data_len v = length (el_data l))
      else rv_rstatus v = (if er_logs rc = [] then R_ZERO_LOGS else R_NO_SUCH_LOG))"

text \<open>The last call of \<open>G\<close> logged the verdict, which a later call of the group can recover on chain.\<close>

definition proves_log :: "(bytes \<Rightarrow> bytes) \<Rightarrow> nat \<Rightarrow> gtxn list \<Rightarrow> bytes \<Rightarrow> nat \<Rightarrow> nat \<Rightarrow> eth_receipt \<Rightarrow> log_result \<Rightarrow> bool" where
  "proves_log K app G root tx li rc out \<longleftrightarrow> (\<exists>args lg v. G \<noteq> [] \<and> last G = AppCall app args lg \<and>
     decode_r lg = Inr v \<and> shows_log K root tx li rc v \<and>
     (\<forall>E. env_app E = app \<and> length G \<le> env_index E \<and> take (length G) (env_group E) = G \<longrightarrow>
        mpt7_result_from_group E (length G - 1) root tx li = Inr out))"

lemma topic_segs:
  "\<forall>t\<in>set ts. length t = 32 \<Longrightarrow> i < length ts \<Longrightarrow> seg (32 * i) 32 (concat ts @ rest) = ts ! i"
proof (induction ts arbitrary: i)
  case (Cons t ts)
  show ?case
  proof (cases i)
    case 0
    then show ?thesis using Cons.prems by (simp add: seg_def)
  next
    case (Suc j)
    then have "seg (32 * i) 32 (t @ concat ts @ rest) = seg (32 * j) 32 (concat ts @ rest)"
      using Cons.prems(1) by (subst seg_append_right) simp_all
    then show ?thesis using Cons.IH [of j] Cons.prems Suc by simp
  qed
qed simp

lemma topics_view:
  assumes "\<forall>t\<in>set ts. length t = 32" and "length ts \<le> 4"
  shows "map (\<lambda>i. py_hex (seg (32 * i) 32 (topics128_of ts))) [0..<length ts] = map py_hex ts"
  by (rule nth_equalityI) (simp_all add: topics128_of_def topic_segs assms)

lemma view_shows:
  assumes a: "r_matches root tx li a" "observed a = receipt_spec K T tx li rc"
    and T: "fst (trie_lookup T (nibs (tx_key tx))) = WALK_INCLUDED" and rc: "receipt_wf rc"
  shows "rr_n_topics a \<le> 4 \<and> shows_log K root tx li rc (view_of a)"
proof (cases "li < length (er_logs rc)")
  case True
  then have l: "log_ok (er_logs rc ! li)" using rc by (simp add: receipt_wf_def)
  have "er_logs rc \<noteq> []" using True by auto
  then have s: "rr_rstatus a = R_INCLUDED" "rr_address a = el_address (er_logs rc ! li)"
    "rr_n_topics a = length (el_topics (er_logs rc ! li))" "rr_topics a = topics128_of (el_topics (er_logs rc ! li))"
    "rr_data_hash a = K (el_data (er_logs rc ! li))" "rr_data_len a = length (el_data (er_logs rc ! li))"
    "rr_status a = er_status rc" "rr_tx_type a = er_type rc"
    using a(2) T True by (simp_all add: observed_def receipt_spec_def Let_def)
  show ?thesis using s True a(1) l topics_view [of "el_topics (er_logs rc ! li)"]
    by (simp add: shows_log_def view_of_def r_matches_def Let_def log_ok_def)
next
  case False
  then have "rr_rstatus a = (if er_logs rc = [] then R_ZERO_LOGS else R_NO_SUCH_LOG)" "rr_n_topics a = 0"
    "rr_status a = er_status rc" "rr_tx_type a = er_type rc"
    using a(2) T by (simp_all add: observed_def receipt_spec_def no_log_def split: if_splits)
  then show ?thesis using False a(1) by (simp add: shows_log_def view_of_def r_matches_def)
qed

lemma logged_proof:
  assumes st: "logged_state app G w (r_encode a)" and a: "r_ok a" "rr_rstatus a \<noteq> R_INCOMPLETE" "r_matches root tx li a"
    "observed a = receipt_spec K T tx li rc"
    and T: "fst (trie_lookup T (nibs (tx_key tx))) = WALK_INCLUDED" and rc: "receipt_wf rc"
  shows "proves_log K app G root tx li rc (receipt_spec K T tx li rc)"
proof -
  obtain rest lg where g: "G \<noteq> []" "last G = AppCall app (RCPT_SELECTOR # rest) lg" "mpt7_log_state w (r_encode a) = Inr lg"
    using st by (auto simp: logged_state_def)
  note v = view_shows [OF a(3,4) T rc]
  have dec: "decode_r lg = Inr (view_of a)" by (rule decode_r_view [OF g(3) a(1,2)]) (use v in simp)
  have "mpt7_result_from_group E (length G - 1) root tx li = Inr (receipt_spec K T tx li rc)"
    if e: "env_app E = app" "length G \<le> env_index E" "take (length G) (env_group E) = G" for E
  proof -
    have len: "length G \<le> length (env_group E)" using arg_cong [OF e(3), of length] by simp
    have "take (length G) (env_group E) ! (length G - 1) = last G" unfolding e(3) using g(1) by (simp add: last_conv_nth)
    then have "env_group E ! (length G - 1) = AppCall (env_app E) (RCPT_SELECTOR # rest) lg" using g(1,2) e(1) by simp
    moreover have "length G - 1 < length (env_group E)" "length G - 1 < env_index E" using len e(2) g(1) by (cases G; simp)+
    ultimately have "mpt7_state_from_prev E (length G - 1) = Inr (w, r_encode a)" using rcpt_recover_logged g(3) by blast
    from result_of_final [OF this a(1,2,3)] show ?thesis by (simp add: a(4))
  qed
  then show ?thesis unfolding proves_log_def using g(1,2) dec v by blast
qed

section \<open>The world of a block's receipts\<close>

definition block_world :: "(bytes \<Rightarrow> bytes) \<Rightarrow> json_receipt list \<Rightarrow> bool" where
  "block_world K rs \<longleftrightarrow> (\<forall>x. length (K x) = 32) \<and> block_ok rs \<and> inj_on K (trie_nodes K (block_trie rs))"

lemma block_world_rcpt:
  assumes W: "block_world K rs" and tx: "tx < length rs"
  shows "rcpt_world K (block_trie rs) tx (receipt_of (rs ! tx)) {}" and "tx \<le> 0xFFFFFF" and "receipt_wf (receipt_of (rs ! tx))"
proof -
  have K: "\<And>x. length (K x) = 32" and ok: "block_ok rs" using W by (simp_all add: block_world_def)
  show rc: "receipt_wf (receipt_of (rs ! tx))" using ok tx by (simp add: block_ok_def)
  show "tx \<le> 0xFFFFFF" using ok tx by (simp add: block_ok_def)
  show "rcpt_world K (block_trie rs) tx (receipt_of (rs ! tx)) {}"
    unfolding rcpt_world_def Un_empty_left
    using W rc build_block(2-4) [where K = K, OF K ok tx] by (simp add: block_world_def)
qed

lemma pack_length: "length (pack_nodes nodes m0 m1) \<le> length nodes"
proof -
  have "length gs \<le> length (concat gs)" if "\<forall>g\<in>set gs. g \<noteq> []" for gs :: "bytes list list"
    using that
  proof (induction gs)
    case (Cons g gs)
    then show ?case by (cases g) simp_all
  qed simp
  then show ?thesis using pack_nodes_nonempty [of _ nodes m0 m1] pack_nodes_concat [of nodes m0 m1] by metis
qed

lemma pack_nonempty: "nodes \<noteq> [] \<Longrightarrow> pack_nodes nodes m0 m1 \<noteq> []"
  using pack_nodes_concat [of nodes m0 m1] by auto

lemma fixed_init_ok: "tx \<le> 0xFFFFFF \<Longrightarrow> li \<le> 0xFFFF \<Longrightarrow> fixed_init root tx li = Inr (init_fixed root tx li)"
  by (simp add: fixed_init_def to_bytes_be_def require_def init_fixed_def itob_def)

lemma init_length: "mpt_init_state root key n = Inr w \<Longrightarrow> length w = W_LEN"
  unfolding mpt_init_state_def by (auto simp: res_simps W_LEN_def Let_def)

end
