(* ===== verification/Rel_Demo.thy ===== *)
theory Rel_Demo
  imports Rel_Plan Props_Rcpt
begin

text \<open>
  A block of two receipts, the instance of the relayer's properties: transaction 0 has a small receipt,
  transaction 1 a receipt with \<open>n\<close> bytes of log data, whose leaf has to be staged (\<open>n = 1700\<close>) or is longer than
  any value of the AVM (\<open>n = 5000\<close>). The hash of the instance is the length of its argument, which is
  injective on the three nodes of the trie.
\<close>

definition len_hash :: "bytes \<Rightarrow> bytes" where "len_hash x = be_bytes 32 (length x)"

lemma length_len_hash [simp]: "length (len_hash x) = 32"
  by (simp add: len_hash_def del: be_bytes.simps)

lemma len_hash_inj: "length x < 256 ^ 32 \<Longrightarrow> length y < 256 ^ 32 \<Longrightarrow> len_hash x = len_hash y \<Longrightarrow> length x = length y"
  by (metis be_val_be_bytes len_hash_def)

definition big_log :: "nat \<Rightarrow> eth_log" where
  "big_log n = \<lparr>el_address = replicate 20 9, el_topics = [], el_data = replicate n 5\<rparr>"

definition small_json :: json_receipt where
  "small_json = \<lparr>jr_index = None, jr_type = Some 2, jr_status = Some 1, jr_gas = 21000, jr_bloom = replicate 256 0, jr_logs = [demo_log]\<rparr>"

definition big_json :: "nat \<Rightarrow> json_receipt" where
  "big_json n = \<lparr>jr_index = None, jr_type = Some 2, jr_status = Some 1, jr_gas = 21000, jr_bloom = replicate 256 0, jr_logs = [big_log n]\<rparr>"

definition demo_block :: "nat \<Rightarrow> json_receipt list" where "demo_block n = [small_json, big_json n]"

abbreviation big_rc :: "nat \<Rightarrow> eth_receipt" where "big_rc n \<equiv> receipt_of (big_json n)"

text \<open>The sizes for which the lengths of the prefixes are those of the instance.\<close>

definition big_size :: "nat \<Rightarrow> bool" where "big_size n \<longleftrightarrow> 256 \<le> n \<and> n \<le> 60000"

lemma big_sizes: "big_size 1700" "big_size 5000"
  by (simp_all add: big_size_def)

lemma be_min_two: "256 \<le> v \<Longrightarrow> v < 65536 \<Longrightarrow> length (be_min v) = 2"
  using be_min_byte [of "v div 256"] by (simp add: be_min_pos)

lemma bare_json: "jr_index small_json = None" "jr_index (big_json n) = None" "length (jr_bloom small_json) = 256"
  "length (jr_bloom (big_json n)) = 256"
  by (simp_all add: small_json_def big_json_def)

lemma small_receipt: "receipt_of small_json = demo_rc"
  by (simp add: receipt_of_def small_json_def demo_rc_def)

lemma big_log_length: "big_size n \<Longrightarrow> length (rlp_enc (log_rlp (big_log n))) = n + 28"
  by (simp add: log_rlp_def big_log_def enc_prefix_length be_min_byte be_min_two big_size_def)

lemma big_receipt_length: "big_size n \<Longrightarrow> length (receipt_enc (big_rc n)) = n + 298"
  using big_log_length [of n]
  by (simp add: receipt_enc_def receipt_rlp_def receipt_of_def big_json_def enc_prefix_length be_min_byte be_min_two big_size_def)

lemma big_receipt_ok: "big_size n \<Longrightarrow> receipt_ok (big_rc n)"
  by (simp add: receipt_ok_def log_ok_def receipt_of_def big_json_def big_log_def uint64_limit_def MAX_LOGS_T1T2_def big_size_def)

lemma demo_block_ok:
  assumes n: "big_size n"
  shows "block_ok (demo_block n)"
proof -
  have "receipt_wf (receipt_of (demo_block n ! i)) \<and> length (jr_bloom (demo_block n ! i)) = 256 \<and> receipt_index i (demo_block n ! i) = i"
    if "i < 2" for i
  proof -
    from that consider "i = 0" | "i = 1" by linarith
    then show ?thesis
      by cases (simp_all add: demo_block_def small_receipt demo_receipt_ok [unfolded receipt_ok_wf] big_receipt_ok [OF n, unfolded receipt_ok_wf] receipt_index_def bare_json)
  qed
  then show ?thesis by (simp add: block_ok_def demo_block_def)
qed

lemma demo_keys: "nibs (tx_key 0) = [8, 0]" "nibs (tx_key 1) = [0, 1]"
  by (simp_all add: tx_key_rlp [symmetric] be_min_byte enc_prefix_def)

definition small_leaf :: trie where "small_leaf = TLeaf [0] (receipt_enc demo_rc)"
definition big_leaf :: "nat \<Rightarrow> trie" where "big_leaf n = TLeaf [1] (receipt_enc (big_rc n))"

lemma demo_block_trie:
  "block_trie (demo_block n) = TBranch ([big_leaf n] @ replicate 7 TNull @ [small_leaf] @ replicate 7 TNull) []"
proof -
  have items: "block_items (demo_block n) = [([8, 0], receipt_enc demo_rc), ([0, 1], receipt_enc (big_rc n))]"
    using demo_keys by (simp add: block_items_def demo_block_def small_receipt upt_rec)
  let ?items = "\<lambda>k. the (map_of (rev [([8, 0], receipt_enc demo_rc), ([0, 1::nat], receipt_enc (big_rc n))]) k)"
  have keys: "sort (remdups (map fst [([8::nat, 0], receipt_enc demo_rc), ([0, 1], receipt_enc (big_rc n))])) = [[0, 1], [8, 0]]" by simp
  have cp: "\<not> 0 < common_prefix [[0, 1], [8::nat, 0]] 0 0"
    by (subst common_prefix.simps) (simp add: card_insert_if)
  have sub: "sub_trie ?items [[0, 1], [8, 0]] 0 j = (if j = 0 then big_leaf n else if j = 8 then small_leaf else TNull)" for j
    by (simp add: sub_trie_def sub_keys_def trie_leaf big_leaf_def small_leaf_def)
  have "map (\<lambda>j. if j = 0 then big_leaf n else if j = 8 then small_leaf else TNull) [0..<16] =
      [big_leaf n] @ replicate 7 TNull @ [small_leaf] @ replicate 7 TNull"
    by (simp add: upt_rec numeral_eq_Suc)
  moreover have "map (sub_trie ?items [[0, 1], [8, 0]] 0) [0..<16] = map (\<lambda>j. if j = 0 then big_leaf n else if j = 8 then small_leaf else TNull) [0..<16]"
    by (rule map_cong [OF refl sub])
  ultimately have m: "map (sub_trie ?items [[0, 1], [8, 0]] 0) [0..<16] = [big_leaf n] @ replicate 7 TNull @ [small_leaf] @ replicate 7 TNull"
    by (simp only:)
  have "length [[0, 1], [8::nat, 0]] \<noteq> 1" by simp
  from trie_branch [OF this cp, of ?items] show ?thesis unfolding block_trie_def items keys m by (simp add: Let_def)
qed

lemma demo_leaf_lengths: "length (node_enc K small_leaf) = 371" "big_size n \<Longrightarrow> length (node_enc K (big_leaf n)) = n + 305"
proof -
  show "length (node_enc K small_leaf) = 371" using demo_receipt_length
    by (simp add: node_enc_def small_leaf_def enc_prefix_length length_hp_encode be_min.simps hp_encode_def)
  assume n: "big_size n"
  then show "length (node_enc K (big_leaf n)) = n + 305" using big_receipt_length [OF n]
    by (simp add: node_enc_def big_leaf_def enc_prefix_length length_hp_encode be_min_two big_size_def hp_encode_def)
qed

lemma demo_sizes: "big_size n \<Longrightarrow> 560 < length (node_enc K (big_leaf n)) \<and> length (node_enc K (big_leaf n)) < 65536"
  using demo_leaf_lengths(2) by (simp add: big_size_def)

lemma demo_root_length:
  assumes n: "big_size n"
  shows "length (node_enc len_hash (block_trie (demo_block n))) = 83"
proof -
  have "ref_of len_hash (node_rlp len_hash small_leaf) = RStr (len_hash (node_enc len_hash small_leaf))"
    "ref_of len_hash (node_rlp len_hash (big_leaf n)) = RStr (len_hash (node_enc len_hash (big_leaf n)))"
    using demo_leaf_lengths(1) [of len_hash] demo_sizes [OF n, of len_hash] by (simp_all add: ref_of_def node_enc_def Let_def)
  moreover have "ref_of len_hash (node_rlp len_hash TNull) = RStr []" by (simp add: ref_of_def enc_prefix_def)
  ultimately have "node_rlp len_hash (block_trie (demo_block n)) = RList ([RStr (len_hash (node_enc len_hash (big_leaf n)))] @
      replicate 7 (RStr []) @ [RStr (len_hash (node_enc len_hash small_leaf))] @ replicate 7 (RStr []) @ [RStr []])"
    unfolding demo_block_trie by (simp add: map_replicate)
  moreover have "length (rlp_enc (RStr (len_hash x))) = 33" for x by (simp add: enc_prefix_def)
  moreover have "rlp_enc (RStr []) = [0x80]" by (simp add: enc_prefix_def)
  ultimately show ?thesis unfolding node_enc_def
    by (simp add: length_concat map_replicate enc_prefix_length be_min.simps del: rlp_enc.simps(1))
qed

lemma demo_block_nodes:
  "trie_nodes K (block_trie (demo_block n)) = {node_enc K (block_trie (demo_block n)), node_enc K small_leaf, node_enc K (big_leaf n)}"
  unfolding demo_block_trie by (auto simp: small_leaf_def big_leaf_def)

lemma demo_block_world:
  assumes n: "big_size n"
  shows "block_world len_hash (demo_block n)"
proof -
  note sz = demo_leaf_lengths(1) [of len_hash] demo_sizes [OF n, of len_hash] demo_root_length [OF n]
  have l: "length x < 256 ^ 32" if "x \<in> trie_nodes len_hash (block_trie (demo_block n))" for x
    using that sz unfolding demo_block_nodes by auto
  have "inj_on len_hash (trie_nodes len_hash (block_trie (demo_block n)))"
  proof (rule inj_onI)
    fix x y assume xy: "x \<in> trie_nodes len_hash (block_trie (demo_block n))" "y \<in> trie_nodes len_hash (block_trie (demo_block n))"
      "len_hash x = len_hash y"
    have "length x = length y" using len_hash_inj [OF _ _ xy(3)] l [OF xy(1)] l [OF xy(2)] by auto
    then show "x = y" using xy(1,2) sz unfolding demo_block_nodes by auto
  qed
  then show ?thesis using demo_block_ok [OF n] by (simp add: block_world_def)
qed

lemma demo_paths:
  assumes n: "big_size n"
  shows
  "path_nodes len_hash (block_trie (demo_block n)) [8, 0] = [node_enc len_hash (block_trie (demo_block n)), node_enc len_hash small_leaf]"
  "path_nodes len_hash (block_trie (demo_block n)) [0, 1] = [node_enc len_hash (block_trie (demo_block n)), node_enc len_hash (big_leaf n)]"
proof -
  have h: "hashed len_hash small_leaf" "hashed len_hash (big_leaf n)" using demo_leaf_lengths(1) [of len_hash] demo_sizes [OF n, of len_hash] by (simp_all add: hashed_def)
  have "nodes_below len_hash small_leaf k = []" "nodes_below len_hash (big_leaf n) k = []" for k
    by (simp_all add: small_leaf_def big_leaf_def)
  then show "path_nodes len_hash (block_trie (demo_block n)) [8, 0] = [node_enc len_hash (block_trie (demo_block n)), node_enc len_hash small_leaf]"
    "path_nodes len_hash (block_trie (demo_block n)) [0, 1] = [node_enc len_hash (block_trie (demo_block n)), node_enc len_hash (big_leaf n)]"
    using h by (simp_all add: path_nodes_def demo_block_trie nth_append)
qed

lemma demo_built:
  assumes n: "big_size n"
  shows
  "build_receipts_trie_and_path rlp_enc len_hash (demo_block n) 0 =
     Inr (len_hash (node_enc len_hash (block_trie (demo_block n))), [node_enc len_hash (block_trie (demo_block n)), node_enc len_hash small_leaf])"
  "build_receipts_trie_and_path rlp_enc len_hash (demo_block n) 1 =
     Inr (len_hash (node_enc len_hash (block_trie (demo_block n))), [node_enc len_hash (block_trie (demo_block n)), node_enc len_hash (big_leaf n)])"
proof -
  have l: "0 < length (demo_block n)" "1 < length (demo_block n)" by (simp_all add: demo_block_def)
  note b = build_block(1) [where K = len_hash, OF length_len_hash demo_block_ok [OF n]]
  show "build_receipts_trie_and_path rlp_enc len_hash (demo_block n) 0 =
     Inr (len_hash (node_enc len_hash (block_trie (demo_block n))), [node_enc len_hash (block_trie (demo_block n)), node_enc len_hash small_leaf])"
    unfolding b [OF l(1)] demo_keys demo_paths [OF n] ..
  show "build_receipts_trie_and_path rlp_enc len_hash (demo_block n) 1 =
     Inr (len_hash (node_enc len_hash (block_trie (demo_block n))), [node_enc len_hash (block_trie (demo_block n)), node_enc len_hash (big_leaf n)])"
    unfolding b [OF l(2)] demo_keys demo_paths [OF n] ..
qed

end
