(* ===== verification/Props_Rel.thy ===== *)
theory Props_Rel
  imports Rel_Demo
begin

text \<open>
  The relayer's properties: the calls it plans for a receipt of a block are accepted by the receipt
  verifiers, and the log it decodes from the last one is the log of the block's receipt.
\<close>

section \<open>Receipt proofs\<close>

text \<open>
C30: liveness of the receipt pipeline with arguments only (T1). From the receipts of any block, of any
size and with any number of logs, the relayer rebuilds the receipts trie and the path of a transaction; if
the leaf of that path fits the call arguments, the receipt proved has at most 64 logs and the group indices
of the calls fit a byte, the planned calls are accepted one after the other by either verifier wherever
they start in a group, leave the boxes as they were, and the log of the last one decodes to the verdict,
address, topics, data hash and length of the wanted log, which a later call of the group recovers on chain.
(\<open>block_world\<close>: the receipts are well formed, with a status of success or failure, a 256-byte bloom and an index
that is their position, and the hash is injective on the nodes of the trie.)
\<close>

theorem relayer_receipt_t1:
  assumes "\<And>x. enc x = rlp_enc x" and "block_world K rs" and "tx < length rs" and "li \<le> 0xFFFF"
    and "A = mpt7_receipt_app K \<or> A = mpt7_anchored_app K anchor_id"
  shows "\<exists>root nodes. build_receipts_trie_and_path enc K rs tx = Inr (root, nodes) \<and>
    (length (last nodes) \<le> ARG_BUDGET \<and> length (jr_logs (rs ! tx)) \<le> MAX_LOGS_T1T2 \<and> length G + length nodes \<le> 256 \<longrightarrow>
      (\<exists>calls G'. plan_receipt_calls root tx li nodes (length G) = Inr (''T1'', calls) \<and>
        (\<forall>bs. exec_calls A app G bs calls = Inr (G @ G', bs)) \<and>
        proves_log K app (G @ G') root tx li (receipt_of (rs ! tx)) (receipt_spec K (block_trie rs) tx li (receipt_of (rs ! tx)))))"
proof -
  let ?T = "block_trie rs" and ?rc = "receipt_of (rs ! tx)" and ?P = "path_nodes K (block_trie rs) (nibs (tx_key tx))"
  let ?root = "K (node_enc K ?T)"
  have e: "enc = rlp_enc" using assms(1) by (intro ext)
  have K: "\<And>x. length (K x) = 32" and ok: "block_ok rs" using assms(2) by (simp_all add: block_world_def)
  note b = block_world_rcpt [OF assms(2,3)] and built = build_block [where K = K, OF K ok assms(3)]
  have "\<exists>calls G'. plan_receipt_calls ?root tx li ?P (length G) = Inr (''T1'', calls) \<and>
        (\<forall>bs. exec_calls A app G bs calls = Inr (G @ G', bs)) \<and>
        proves_log K app (G @ G') ?root tx li ?rc (receipt_spec K ?T tx li ?rc)"
    if leaf: "length (last ?P) \<le> ARG_BUDGET" and logs: "length (jr_logs (rs ! tx)) \<le> MAX_LOGS_T1T2"
      and fit: "length G + length ?P \<le> 256"
  proof -
    have "length (last ?P) \<le> max_bytes" using leaf by (simp add: ARG_BUDGET_def max_bytes_def)
    note small = block_path_small [where K = K, OF K ok assms(3) this]
    have cap: "length (er_logs ?rc) \<le> MAX_LOGS_T1T2" using logs by (simp add: receipt_of_def)
    obtain w0 ns node w1 w2 off n a where h: "mpt_init_state ?root (tx_key tx) (length (tx_key tx) * 2) = Inr w0"
      "ns @ [node] = ?P" "set (ns @ [node]) \<subseteq> trie_nodes K ?T"
      "walk_nodes K w0 ns = Inr w1" "mpt_walk_node K node w1 = Inr (w2, off, n)"
      "finalize_if_terminal K w2 (r_encode (r_initial ?root tx li)) node off n = Inr (r_encode a)"
      "r_ok a" "length w2 = W_LEN" "rr_rstatus a \<noteq> R_INCOMPLETE" "r_matches ?root tx li a"
      "observed a = receipt_spec K ?T tx li ?rc" by (rule honest_rcpt_walk [OF b(1,2) assms(4) small cap])
    let ?gs = "pack_nodes ?P 48 6"
    have ne: "?P \<noteq> []" unfolding h(2) [symmetric] by simp
    have seg: "segment K w0 (r_encode (r_initial ?root tx li)) (concat ?gs) w2 (r_encode a)"
      using segment_close [OF h(4,5,6)] by (simp only: pack_nodes_concat h(2))
    have gs: "?gs \<noteq> []" "\<forall>g\<in>set ?gs. g \<noteq> []" "length G + length ?gs \<le> 256"
      using pack_nonempty [OF ne] pack_nodes_nonempty pack_length [of ?P 48 6] fit by (blast, blast, linarith)
    from walk_calls_run [OF assms(5) K b(2) assms(4) h(1) init_length [OF h(1)] seg length_r_encode [OF h(7)] gs]
    obtain cs G' where c: "walk_calls (init_fixed ?root tx li) (length G) (\<lambda>i. i = length ?gs - 1) 0 ?gs = Inr cs"
      "\<And>bs. exec_calls A app G bs cs = Inr (G @ G', bs)" "logged_state app (G @ G') w2 (r_encode a)" by blast
    have "plan_receipt_calls ?root tx li ?P (length G) = Inr (''T1'', cs)"
      unfolding plan_receipt_calls_def Let_def fixed_init_ok [OF b(2) assms(4)] rbind_Inr c(1)
      using ne leaf by (simp add: require_def)
    moreover have "fst (trie_lookup ?T (nibs (tx_key tx))) = WALK_INCLUDED" by (simp add: built(4))
    ultimately show ?thesis using c(2) logged_proof [OF c(3) h(7,9,10,11) _ b(3)] by blast
  qed
  then show ?thesis using built(1) unfolding e by blast
qed

text \<open>The block of the instance also holds a receipt whose leaf no call could take.\<close>

theorem relayer_receipt_t1_witness:
  "\<not> length (node_enc len_hash (big_leaf 5000)) \<le> max_bytes \<and>
   node_enc len_hash (big_leaf 5000) \<in> trie_nodes len_hash (block_trie (demo_block 5000)) \<and>
   (\<exists>root nodes calls G'. build_receipts_trie_and_path rlp_enc len_hash (demo_block 5000) 0 = Inr (root, nodes) \<and>
    plan_receipt_calls root 0 0 nodes 1 = Inr (''T1'', calls) \<and>
    exec_calls (mpt7_anchored_app len_hash 3) 8 [OtherTxn] Map.empty calls = Inr ([OtherTxn] @ G', Map.empty) \<and>
    proves_log len_hash 8 ([OtherTxn] @ G') root 0 0 demo_rc (receipt_spec len_hash (block_trie (demo_block 5000)) 0 0 demo_rc))"
proof -
  have tx: "0 < length (demo_block 5000)" "demo_block 5000 ! 0 = small_json" by (simp_all add: demo_block_def)
  have long: "\<not> length (node_enc len_hash (big_leaf 5000)) \<le> max_bytes \<and>
      node_enc len_hash (big_leaf 5000) \<in> trie_nodes len_hash (block_trie (demo_block 5000))"
    using demo_leaf_lengths(2) [OF big_sizes(2), of len_hash] by (simp add: demo_block_nodes max_bytes_def)
  have "(0::nat) \<le> 0xFFFF" by simp
  from relayer_receipt_t1 [where enc = rlp_enc and G = "[OtherTxn]", OF refl demo_block_world [OF big_sizes(2)] tx(1) this, of "mpt7_anchored_app len_hash 3" 3 8]
  moreover have "length (jr_logs small_json) \<le> MAX_LOGS_T1T2" by (simp add: small_json_def MAX_LOGS_T1T2_def)
  ultimately show ?thesis unfolding demo_built [OF big_sizes(2)] tx(2) small_receipt
    using demo_leaf_lengths(1) [of len_hash] long by (fastforce simp: ARG_BUDGET_def)
qed

text \<open>
C31: liveness of the receipt pipeline with a staged leaf (T2). For a leaf of 1,943 to 4,096 bytes below
at least one branch node, with a receipt of at most 64 logs in it and group indices of one byte, the
planned calls walk the branch nodes, stage the leaf in a box whatever a stranger left under that name, walk
it from the box and delete the box; all of them are accepted by either verifier, and the last log decodes
to the wanted log. As above, the other receipts of the block are of any size and number of logs.
\<close>

theorem relayer_receipt_t2:
  assumes "\<And>x. enc x = rlp_enc x" and "block_world K rs" and "tx < length rs" and "li \<le> 0xFFFF"
    and "A = mpt7_receipt_app K \<or> A = mpt7_anchored_app K anchor_id"
    and "derive_t2_box_name nonce bn = Inr name" and "length nonce = 2"
  shows "\<exists>root nodes. build_receipts_trie_and_path enc K rs tx = Inr (root, nodes) \<and>
    (ARG_BUDGET < length (last nodes) \<and> length (last nodes) \<le> MAX_LEAF \<and> 1 < length nodes \<and>
      length (jr_logs (rs ! tx)) \<le> MAX_LOGS_T1T2 \<and> length G + length nodes \<le> 256 \<longrightarrow>
      (\<exists>calls G' fund. plan_receipt_calls_t2 root tx li nodes name (length G) = Inr (''T2'', calls, name, fund) \<and>
        (\<forall>bs. exec_calls A app G bs calls = Inr (G @ G', bs(name := None))) \<and>
        proves_log K app (G @ G') root tx li (receipt_of (rs ! tx)) (receipt_spec K (block_trie rs) tx li (receipt_of (rs ! tx))) \<and>
        fund = t2_box_mbr_requirement (length (last nodes)) + 100000))"
proof -
  let ?T = "block_trie rs" and ?rc = "receipt_of (rs ! tx)" and ?P = "path_nodes K (block_trie rs) (nibs (tx_key tx))"
  let ?root = "K (node_enc K ?T)"
  have e: "enc = rlp_enc" using assms(1) by (intro ext)
  have K: "\<And>x. length (K x) = 32" and ok: "block_ok rs" using assms(2) by (simp_all add: block_world_def)
  note b = block_world_rcpt [OF assms(2,3)] and built = build_block [where K = K, OF K ok assms(3)]
  have name: "length name = 8" using assms(6,7) by (auto simp: derive_t2_box_name_def res_simps)
  let ?r = "r_encode (r_initial ?root tx li)"
  have "\<exists>calls G' fund. plan_receipt_calls_t2 ?root tx li ?P name (length G) = Inr (''T2'', calls, name, fund) \<and>
        (\<forall>bs. exec_calls A app G bs calls = Inr (G @ G', bs(name := None))) \<and>
        proves_log K app (G @ G') ?root tx li ?rc (receipt_spec K ?T tx li ?rc) \<and>
        fund = t2_box_mbr_requirement (length (last ?P)) + 100000"
    if size: "ARG_BUDGET < length (last ?P)" "length (last ?P) \<le> MAX_LEAF" and two: "1 < length ?P"
      and logs: "length (jr_logs (rs ! tx)) \<le> MAX_LOGS_T1T2" and fit: "length G + length ?P \<le> 256"
  proof -
    have "length (last ?P) \<le> max_bytes" using size(2) by (simp add: MAX_LEAF_def max_bytes_def)
    note small = block_path_small [where K = K, OF K ok assms(3) this]
    have cap: "length (er_logs ?rc) \<le> MAX_LOGS_T1T2" using logs by (simp add: receipt_of_def)
    obtain w0 ns leaf w1 w2 off n a where h: "mpt_init_state ?root (tx_key tx) (length (tx_key tx) * 2) = Inr w0"
      "ns @ [leaf] = ?P" "set (ns @ [leaf]) \<subseteq> trie_nodes K ?T"
      "walk_nodes K w0 ns = Inr w1" "mpt_walk_node K leaf w1 = Inr (w2, off, n)"
      "finalize_if_terminal K w2 ?r leaf off n = Inr (r_encode a)"
      "r_ok a" "length w2 = W_LEN" "rr_rstatus a \<noteq> R_INCOMPLETE" "r_matches ?root tx li a"
      "observed a = receipt_spec K ?T tx li ?rc" by (rule honest_rcpt_walk [OF b(1,2) assms(4) small cap])
    have P: "last ?P = leaf" "butlast ?P = ns" unfolding h(2) [symmetric] by simp_all
    have Pn: "?P \<noteq> []" unfolding h(2) [symmetric] by simp
    have ne: "ns \<noteq> []" using two unfolding h(2) [symmetric] by auto
    let ?gs = "pack_nodes ns 48 6"
    have o: "w_status w1 = Inr WALK_CONTINUE" using h(5) by (auto simp: mpt_walk_node_def res_simps)
    have seg: "segment K w0 ?r (concat ?gs) w1 ?r" unfolding pack_nodes_concat segment_def using h(4) o by blast
    have gs: "?gs \<noteq> []" "\<forall>g\<in>set ?gs. g \<noteq> []" "length G + length ?gs < 256"
      using pack_nonempty [OF ne] pack_nodes_nonempty pack_length [of ns 48 6] fit unfolding h(2) [symmetric]
      by (blast, blast, simp)
    note r = initial_result [OF K b(2) assms(4), of "node_enc K ?T"]
    from walk_calls_run [OF assms(5) K b(2) assms(4) h(1) init_length [OF h(1)] seg r(2) gs(1,2) less_imp_le [OF gs(3)]]
    obtain cs G' where c: "walk_calls (init_fixed ?root tx li) (length G) (\<lambda>i. False) 0 ?gs = Inr cs"
      "length cs = length ?gs" "length G' = length ?gs" "\<And>bs. exec_calls A app G bs cs = Inr (G @ G', bs)"
      "logged_state app (G @ G') w1 ?r" by blast
    have ls: "1943 \<le> length leaf" "length leaf \<le> 4096" using size by (simp_all add: P ARG_BUDGET_def MAX_LEAF_def)
    have len: "length (G @ G') \<le> 256" using gs(3) c(3) by simp
    obtain ws G2 where w: "write_calls name leaf 0 = Inr ws"
      "\<And>bs. exec_calls A app (G @ G') bs (staged_calls name (length leaf) (length (G @ G') - 1) ws) =
        Inr ((G @ G') @ G2, bs(name := None))"
      and st: "logged_state app ((G @ G') @ G2) w2 (r_encode a)"
      using staged_tail_run [OF assms(5) name ls c(5) len r(1) h(5,6,8) length_r_encode [OF h(7)]] by blast
    let ?calls = "cs @ staged_calls name (length leaf) (length (G @ G') - 1) ws"
    have run: "exec_calls A app G bs ?calls = Inr (G @ G' @ G2, bs(name := None))" for bs
      using w(2) [of bs] by (simp add: exec_calls_append c(4))
    have "length (G @ G') - 1 < 256" using len by simp
    moreover have "length (G @ G') - 1 = length G + length cs - 1" using c(2,3) by simp
    ultimately have ptr: "py_byte (length G + length cs - 1) = Inr [of_nat (length (G @ G') - 1)]" by (simp add: py_byte_def require_def)
    have len2: "to_bytes_be 2 (length leaf) = Inr (be_bytes 2 (length leaf))" using ls(2) by (simp add: to_bytes_be_def require_def)
    have plan: "plan_receipt_calls_t2 ?root tx li ?P name (length G) =
        Inr (''T2'', ?calls, name, 2500 + 400 * (8 + length leaf) + 200000)"
      unfolding plan_receipt_calls_t2_def Let_def P fixed_init_ok [OF b(2) assms(4)] rbind_Inr c(1) len2 w(1) ptr
      using size ne Pn by (simp add: require_def P staged_calls_def staging_args_def RCPT_SELECTOR_def del: be_bytes.simps)
    have "fst (trie_lookup ?T (nibs (tx_key tx))) = WALK_INCLUDED" by (simp add: built(4))
    from logged_proof [OF st [unfolded append_assoc] h(7,9,10,11) this b(3)] have pl: "proves_log K app (G @ G' @ G2) ?root tx li ?rc (receipt_spec K ?T tx li ?rc)" .
    have fund: "2500 + 400 * (8 + length leaf) + 200000 = t2_box_mbr_requirement (length (last ?P)) + 100000"
      by (simp add: t2_box_mbr_requirement_def P)
    show ?thesis using plan run pl fund by blast
  qed
  then show ?thesis using built(1) unfolding e by blast
qed

theorem relayer_receipt_t2_witness:
  "\<exists>root nodes name calls G' fund. derive_t2_box_name [1, 2] 5 = Inr name \<and> build_receipts_trie_and_path rlp_enc len_hash (demo_block 1700) 1 = Inr (root, nodes) \<and>
    plan_receipt_calls_t2 root 1 0 nodes name 0 = Inr (''T2'', calls, name, fund) \<and>
    exec_calls (mpt7_receipt_app len_hash) 8 [] Map.empty calls = Inr (G', Map.empty) \<and>
    proves_log len_hash 8 G' root 1 0 (big_rc 1700) (receipt_spec len_hash (block_trie (demo_block 1700)) 1 0 (big_rc 1700))"
proof -
  have tx: "1 < length (demo_block 1700)" "demo_block 1700 ! 1 = big_json 1700" by (simp_all add: demo_block_def)
  have li: "(0::nat) \<le> 0xFFFF" by simp
  obtain name where name: "derive_t2_box_name [1, 2] 5 = Inr name"
    by (simp add: derive_t2_box_name_def to_bytes_be_def require_def del: be_bytes.simps)
  have two: "length [1, 2::byte] = 2" by simp
  have A: "mpt7_receipt_app len_hash = mpt7_receipt_app len_hash \<or> mpt7_receipt_app len_hash = mpt7_anchored_app len_hash 3" by simp
  from relayer_receipt_t2 [where enc = rlp_enc and G = "[]" and app = 8, OF refl demo_block_world [OF big_sizes(1)] tx(1) li A name two]
  obtain root nodes where built: "build_receipts_trie_and_path rlp_enc len_hash (demo_block 1700) 1 = Inr (root, nodes)"
    and run: "ARG_BUDGET < length (last nodes) \<and> length (last nodes) \<le> MAX_LEAF \<and> 1 < length nodes \<and>
      length (jr_logs (demo_block 1700 ! 1)) \<le> MAX_LOGS_T1T2 \<and> length ([]::gtxn list) + length nodes \<le> 256 \<longrightarrow>
      (\<exists>calls G' fund. plan_receipt_calls_t2 root 1 0 nodes name (length ([]::gtxn list)) = Inr (''T2'', calls, name, fund) \<and>
        (\<forall>bs. exec_calls (mpt7_receipt_app len_hash) 8 [] bs calls = Inr ([] @ G', bs(name := None))) \<and>
        proves_log len_hash 8 ([] @ G') root 1 0 (receipt_of (demo_block 1700 ! 1)) (receipt_spec len_hash (block_trie (demo_block 1700)) 1 0 (receipt_of (demo_block 1700 ! 1))) \<and>
        fund = t2_box_mbr_requirement (length (last nodes)) + 100000)" by blast
  have l: "length nodes = 2" "length (last nodes) = 2005" using built demo_leaf_lengths(2) [OF big_sizes(1), of len_hash] unfolding demo_built [OF big_sizes(1)] by auto
  have "ARG_BUDGET < length (last nodes) \<and> length (last nodes) \<le> MAX_LEAF \<and> 1 < length nodes \<and>
      length (jr_logs (demo_block 1700 ! 1)) \<le> MAX_LOGS_T1T2 \<and> length ([]::gtxn list) + length nodes \<le> 256"
    unfolding l tx(2) by (simp add: ARG_BUDGET_def MAX_LEAF_def big_json_def MAX_LOGS_T1T2_def)
  from mp [OF run this, unfolded tx(2) append_Nil list.size(3)] obtain calls G' fund where
    c: "plan_receipt_calls_t2 root 1 0 nodes name 0 = Inr (''T2'', calls, name, fund) \<and>
      (\<forall>bs. exec_calls (mpt7_receipt_app len_hash) 8 [] bs calls = Inr (G', bs(name := None))) \<and>
      proves_log len_hash 8 G' root 1 0 (big_rc 1700) (receipt_spec len_hash (block_trie (demo_block 1700)) 1 0 (big_rc 1700)) \<and>
      fund = t2_box_mbr_requirement (length (last nodes)) + 100000" by (elim exE)
  have e: "Map.empty(name := None) = Map.empty" by auto
  have "exec_calls (mpt7_receipt_app len_hash) 8 [] Map.empty calls = Inr (G', Map.empty)"
    using spec [OF conjunct1 [OF conjunct2 [OF c]], of Map.empty] unfolding e .
  then show ?thesis using built name conjunct1 [OF c] conjunct1 [OF conjunct2 [OF conjunct2 [OF c]]] by blast
qed

end
