(* ===== verification/Rel_Merkle.thy ===== *)
theory Rel_Merkle
  imports Rel_Base SSZ_Merkleize
begin

text \<open>
  The relayer's SSZ merkleization, \<open>relayer/ssz/merkleize.py\<close>, over a hash \<open>H\<close> for SHA-256, and the
  header codecs \<open>relayer/codec/header.py\<close> and \<open>relayer/codec/committee.py\<close>. Hex and decimal strings of
  the beacon API are taken after decoding. Lists of computations evaluate left to right.
\<close>

section \<open>Lists of computations\<close>

fun py_seq :: "'a py list \<Rightarrow> 'a list py" where
  "py_seq [] = Inr []"
| "py_seq (m # ms) = rbind m (\<lambda>x. rbind (py_seq ms) (\<lambda>xs. Inr (x # xs)))"

definition py_head :: "'a list \<Rightarrow> 'a py" where
  "py_head xs = require (xs \<noteq> []) IndexError (Inr (hd xs))"

definition py_nth :: "'a list \<Rightarrow> nat \<Rightarrow> 'a py" where
  "py_nth xs i = require (i < length xs) IndexError (Inr (xs ! i))"

lemma py_seq_map: "(\<And>x. x \<in> set xs \<Longrightarrow> f x = Inr (g x)) \<Longrightarrow> py_seq (map f xs) = Inr (map g xs)"
  by (induction xs) simp_all

lemma py_seq_ok: "py_seq ms = Inr xs \<longleftrightarrow> map Inr xs = ms"
  by (induction ms arbitrary: xs) (auto simp: res_simps Cons_eq_map_conv map_eq_Cons_conv)

section \<open>Merkleization\<close>

definition ZERO_CHUNK :: bytes where "ZERO_CHUNK = replicate 32 0"

fun rel_zero_hash :: "(bytes \<Rightarrow> bytes) \<Rightarrow> nat \<Rightarrow> bytes" where
  "rel_zero_hash H 0 = ZERO_CHUNK"
| "rel_zero_hash H (Suc depth) = (let prev = rel_zero_hash H depth in H (prev @ prev))"

text \<open>The loop of \<open>next_pow2\<close>; its variable \<open>p\<close> is \<open>2 ^ k\<close>.\<close>

function next_pow2_loop :: "nat \<Rightarrow> nat \<Rightarrow> nat" where
  "next_pow2_loop n k = (if 2 ^ k < n then next_pow2_loop n (k + 1) else 2 ^ k)"
  by pat_completeness auto
termination
proof (relation "measure (\<lambda>(n, k). n - k)")
  fix n k :: nat
  assume "2 ^ k < n"
  then have "k < n" using less_exp [of k] by linarith
  then show "((n, k + 1), n, k) \<in> measure (\<lambda>(n, k). n - k)" by simp
qed simp

declare next_pow2_loop.simps [simp del]

definition next_pow2 :: "nat \<Rightarrow> nat" where
  "next_pow2 n = max (next_pow2_loop n 0) 1"

fun pair_hash :: "(bytes \<Rightarrow> bytes) \<Rightarrow> bytes list \<Rightarrow> bytes list" where
  "pair_hash H (a # b # rest) = H (a @ b) # pair_hash H rest"
| "pair_hash H _ = []"

text \<open>\<open>[sha256(layer[i] + layer[i + 1]) for i in range(0, len(layer), 2)]\<close>.\<close>

definition hash_layer :: "(bytes \<Rightarrow> bytes) \<Rightarrow> bytes list \<Rightarrow> bytes list py" where
  "hash_layer H layer = require (even (length layer)) IndexError (Inr (pair_hash H layer))"

lemma length_pair_hash [simp]: "length (pair_hash H l) = length l div 2"
  by (induction H l rule: pair_hash.induct) simp_all

lemma hash_layer_Inr [res_simps]: "hash_layer H l = Inr n \<longleftrightarrow> even (length l) \<and> n = pair_hash H l"
  by (auto simp: hash_layer_def require_def)

function merkle_loop :: "(bytes \<Rightarrow> bytes) \<Rightarrow> bytes list \<Rightarrow> bytes list py" where
  "merkle_loop H layer = (if 1 < length layer then rbind (hash_layer H layer) (\<lambda>n. merkle_loop H n) else Inr layer)"
  by pat_completeness auto
termination
  by (relation "measure (\<lambda>(H, layer). length layer)") (auto simp: res_simps)

declare merkle_loop.simps [simp del]

definition merkleize_chunks_exact :: "(bytes \<Rightarrow> bytes) \<Rightarrow> bytes list \<Rightarrow> bytes py" where
  "merkleize_chunks_exact H chunks =
     (let n = (if 0 < length chunks then next_pow2 (length chunks) else 1);
          layer = chunks @ replicate (n - length chunks) ZERO_CHUNK in
      rbind (merkle_loop H layer) py_head)"

definition merkleize_with_limit :: "(bytes \<Rightarrow> bytes) \<Rightarrow> bytes list \<Rightarrow> nat \<Rightarrow> bytes py" where
  "merkleize_with_limit H chunks limit =
     require (and limit (limit - 1) = 0) AssertionError (
     let d = bitlen limit - 1 in
     if length chunks = 0 then Inr (rel_zero_hash H d)
     else
       let k = bitlen (next_pow2 (length chunks)) - 1 in
       rbind (merkleize_chunks_exact H chunks) (\<lambda>node.
       Inr (foldl (\<lambda>node level. H (node @ rel_zero_hash H level)) node [k..<d])))"

definition rel_mix_in_length :: "(bytes \<Rightarrow> bytes) \<Rightarrow> bytes \<Rightarrow> nat \<Rightarrow> bytes py" where
  "rel_mix_in_length H root len = rbind (to_bytes_le 32 len) (\<lambda>l. Inr (H (root @ l)))"

definition le_pad32 :: "nat \<Rightarrow> nat \<Rightarrow> bytes py" where
  "le_pad32 x nbytes = rbind (to_bytes_le nbytes x) (\<lambda>b. Inr (ljust0 32 b))"

section \<open>Packed lists\<close>

fun pack_uint64_loop :: "nat list \<Rightarrow> bytes \<Rightarrow> bytes list py" where
  "pack_uint64_loop [] buf = Inr (if buf \<noteq> [] then [ljust0 32 buf] else [])"
| "pack_uint64_loop (v # vs) buf =
     rbind (to_bytes_le 8 v) (\<lambda>b.
     let buf = buf @ b in
     if length buf = 32 then rbind (pack_uint64_loop vs []) (\<lambda>out. Inr (buf # out)) else pack_uint64_loop vs buf)"

definition pack_uint64_chunks :: "nat list \<Rightarrow> bytes list py" where "pack_uint64_chunks values = pack_uint64_loop values []"

fun pack_uint8_loop :: "nat list \<Rightarrow> bytes \<Rightarrow> bytes list" where
  "pack_uint8_loop [] buf = (if buf \<noteq> [] then [ljust0 32 buf] else [])"
| "pack_uint8_loop (v # vs) buf =
     (let buf = buf @ [of_nat (and v 0xFF)] in
      if length buf = 32 then buf # pack_uint8_loop vs [] else pack_uint8_loop vs buf)"

definition pack_uint8_chunks :: "nat list \<Rightarrow> bytes list" where "pack_uint8_chunks values = pack_uint8_loop values []"

definition htr_uint64_list :: "(bytes \<Rightarrow> bytes) \<Rightarrow> nat list \<Rightarrow> nat \<Rightarrow> bytes py" where
  "htr_uint64_list H values limit_elements =
     rbind (pack_uint64_chunks values) (\<lambda>chunks.
     let limit_chunks = (if 0 < limit_elements then next_pow2 ((limit_elements * 8 + 31) div 32) else 1) in
     rbind (merkleize_with_limit H chunks limit_chunks) (\<lambda>root. rel_mix_in_length H root (length values)))"

definition htr_uint8_list :: "(bytes \<Rightarrow> bytes) \<Rightarrow> nat list \<Rightarrow> nat \<Rightarrow> bytes py" where
  "htr_uint8_list H values limit_elements =
     (let chunks = pack_uint8_chunks values;
          limit_chunks = (if 0 < limit_elements then next_pow2 ((limit_elements + 31) div 32) else 1) in
     rbind (merkleize_with_limit H chunks limit_chunks) (\<lambda>root. rel_mix_in_length H root (length values)))"

definition htr_uint64_vector_fixed :: "(bytes \<Rightarrow> bytes) \<Rightarrow> nat list \<Rightarrow> nat \<Rightarrow> bytes py" where
  "htr_uint64_vector_fixed H values n =
     rbind (pack_uint64_chunks values) (\<lambda>chunks.
     merkleize_with_limit H chunks (next_pow2 ((n * 8 + 31) div 32)))"

definition htr_bytes32_vector_fixed :: "(bytes \<Rightarrow> bytes) \<Rightarrow> bytes list \<Rightarrow> nat \<Rightarrow> bytes py" where
  "htr_bytes32_vector_fixed H values n = merkleize_with_limit H values (next_pow2 n)"

definition htr_container_list :: "(bytes \<Rightarrow> bytes) \<Rightarrow> bytes list \<Rightarrow> nat \<Rightarrow> bytes py" where
  "htr_container_list H leaf_roots limit_elements =
     rbind (merkleize_with_limit H leaf_roots (next_pow2 limit_elements)) (\<lambda>root.
     rel_mix_in_length H root (length leaf_roots))"

section \<open>Byte vectors and bit lists\<close>

definition bls_pubkey_root :: "(bytes \<Rightarrow> bytes) \<Rightarrow> bytes \<Rightarrow> bytes py" where
  "bls_pubkey_root H pubkey48 = require (length pubkey48 = 48) AssertionError (Inr (H (pubkey48 @ replicate 16 0)))"

definition bls_signature_root :: "(bytes \<Rightarrow> bytes) \<Rightarrow> bytes \<Rightarrow> bytes py" where
  "bls_signature_root H sig96 =
     require (length sig96 = 96) AssertionError (
     merkleize_chunks_exact H [seg 0 32 sig96, seg 32 32 sig96, seg 64 32 sig96])"

definition logs_bloom_root :: "(bytes \<Rightarrow> bytes) \<Rightarrow> bytes \<Rightarrow> bytes py" where
  "logs_bloom_root H logs_bloom =
     require (length logs_bloom = 256) AssertionError (
     merkleize_chunks_exact H (map (\<lambda>i. seg (32 * i) 32 logs_bloom) [0..<8]))"

definition extra_data_root :: "(bytes \<Rightarrow> bytes) \<Rightarrow> bytes \<Rightarrow> bytes py" where
  "extra_data_root H extra_data =
     require (length extra_data \<le> 32) AssertionError (
     rel_mix_in_length H (ljust0 32 extra_data) (length extra_data))"

text \<open>\<open>[data[i:i + 32].ljust(32, b"\x00") for i in range(0, len(data), 32)]\<close>.\<close>

definition padded_chunks :: "bytes \<Rightarrow> bytes list" where
  "padded_chunks b = map (\<lambda>j. ljust0 32 (seg (32 * j) 32 b)) [0..<(length b + 31) div 32]"

fun find_delimiter :: "bytes \<Rightarrow> nat \<Rightarrow> nat option" where
  "find_delimiter raw 0 = None"
| "find_delimiter raw (Suc i) =
     (if and (drop_bit (i mod 8) (unat (raw ! (i div 8)))) 1 \<noteq> 0 then Some i else find_delimiter raw i)"

definition bitlist_htr :: "(bytes \<Rightarrow> bytes) \<Rightarrow> bytes \<Rightarrow> nat \<Rightarrow> bytes py" where
  "bitlist_htr H raw limit_bits =
     (case find_delimiter raw (length raw * 8) of
        None \<Rightarrow> Inl AssertionError
      | Some bit_length \<Rightarrow>
          let data = raw[bit_length div 8 := unset_bit (bit_length mod 8) (raw ! (bit_length div 8))];
              nbytes = (bit_length + 7) div 8; data = take nbytes data; chunks = padded_chunks data;
              limit_chunks = (if 0 < limit_bits then next_pow2 ((limit_bits + 255) div 256) else 1) in
          rbind (merkleize_with_limit H chunks limit_chunks) (\<lambda>root. rel_mix_in_length H root bit_length))"

definition bitvector_htr :: "(bytes \<Rightarrow> bytes) \<Rightarrow> bytes \<Rightarrow> nat \<Rightarrow> bytes py" where
  "bitvector_htr H raw n_bits =
     require (length raw = (n_bits + 7) div 8) AssertionError (
     merkleize_with_limit H (padded_chunks raw) (next_pow2 ((n_bits + 255) div 256)))"

section \<open>Header and committee codecs\<close>

record json_header =
  jh_slot :: nat
  jh_proposer_index :: nat
  jh_parent_root :: bytes
  jh_state_root :: bytes
  jh_body_root :: bytes

definition decode_header :: "json_header \<Rightarrow> bytes py" where
  "decode_header h =
     require (length (jh_parent_root h) = length (jh_state_root h) \<and> length (jh_state_root h) = length (jh_body_root h) \<and>
       length (jh_body_root h) = 32) AssertionError (
     rbind (to_bytes_le 8 (jh_slot h)) (\<lambda>slot. rbind (to_bytes_le 8 (jh_proposer_index h)) (\<lambda>proposer_index.
     let header = slot @ proposer_index @ jh_parent_root h @ jh_state_root h @ jh_body_root h in
     require (length header = 112) AssertionError (Inr header))))"

definition rel_header_root :: "(bytes \<Rightarrow> bytes) \<Rightarrow> bytes \<Rightarrow> bytes py" where
  "rel_header_root H header =
     require (length header = 112) AssertionError (
     let slot_chunk = seg 0 8 header @ replicate 24 0; proposer_chunk = seg 8 8 header @ replicate 24 0;
         parent_root = seg 16 32 header; state_root = seg 48 32 header; body_root = seg 80 32 header;
         zero_leaf = replicate 32 0;
         l0 = H (slot_chunk @ proposer_chunk); l1 = H (parent_root @ state_root);
         l2 = H (body_root @ zero_leaf); l3 = H (zero_leaf @ zero_leaf);
         n0 = H (l0 @ l1); n1 = H (l2 @ l3) in
     Inr (H (n0 @ n1)))"

definition decode_branch :: "bytes list \<Rightarrow> bytes py" where
  "decode_branch nodes = require (\<forall>n\<in>set nodes. length n = 32) AssertionError (Inr (concat nodes))"

definition rel_committee_root :: "(bytes \<Rightarrow> bytes) \<Rightarrow> bytes list \<Rightarrow> bytes \<Rightarrow> bytes py" where
  "rel_committee_root H pubkeys aggregate =
     (let leaves = map (\<lambda>pk. H (pk @ replicate 16 0)) pubkeys in
     rbind (merkle_loop H leaves) (\<lambda>layer.
     rbind (py_head layer) (\<lambda>committee_vector_root.
     let agg_leaf = H (aggregate @ replicate 16 0) in
     Inr (H (committee_vector_root @ agg_leaf)))))"

end
