(* ===== verification/Rel_Tree.thy ===== *)
theory Rel_Tree
  imports Rel_Merkle SSZ_Tree
begin

text \<open>
  The relayer's trees against the references of the contracts: its layered merkleization computes the
  root of the zero-padded chunk list, and the siblings it reads off the layers fold to that root.
\<close>

section \<open>Layers\<close>

text \<open>The layers of a tree, from the leaves to the root, and the siblings of a position.\<close>

function tree_layers :: "(bytes \<Rightarrow> bytes) \<Rightarrow> bytes list \<Rightarrow> bytes list list py" where
  "tree_layers H cur =
     (if 1 < length cur then rbind (hash_layer H cur) (\<lambda>n. rbind (tree_layers H n) (\<lambda>ls. Inr (cur # ls))) else Inr [cur])"
  by pat_completeness auto
termination
  by (relation "measure (\<lambda>(H, layer). length layer)") (auto simp: res_simps)

declare tree_layers.simps [simp del]

fun branch_from :: "bytes list list \<Rightarrow> nat \<Rightarrow> bytes py" where
  "branch_from [] idx = Inr []"
| "branch_from (layer # layers) idx =
     rbind (py_nth layer (xor idx 1)) (\<lambda>s. rbind (branch_from layers (idx div 2)) (\<lambda>b. Inr (s @ b)))"

text \<open>References: the layers and siblings of a full list of \<open>2 ^ d\<close> leaves.\<close>

fun ref_layers :: "(bytes \<Rightarrow> bytes) \<Rightarrow> nat \<Rightarrow> bytes list \<Rightarrow> bytes list list" where
  "ref_layers H 0 cur = [cur]"
| "ref_layers H (Suc d) cur = cur # ref_layers H d (pair_hash H cur)"

fun layer_sibs :: "(bytes \<Rightarrow> bytes) \<Rightarrow> nat \<Rightarrow> bytes list \<Rightarrow> nat \<Rightarrow> bytes list" where
  "layer_sibs H 0 cur pos = []"
| "layer_sibs H (Suc d) cur pos = cur ! (xor pos 1) # layer_sibs H d (pair_hash H cur) (pos div 2)"

lemma ref_layers_ne [simp]: "ref_layers H d cur \<noteq> []"
  by (cases d) simp_all

lemma nth_pair_hash: "2 * i + 1 < length l \<Longrightarrow> pair_hash H l ! i = H (l ! (2 * i) @ l ! (2 * i + 1))"
proof (induction H l arbitrary: i rule: pair_hash.induct)
  case (1 H a b rest)
  then show ?case by (cases i) simp_all
qed simp_all

lemma pair_hash_short: "length l < 2 \<Longrightarrow> pair_hash H l = []"
  by (cases l; cases "tl l") auto

lemma take_pair_hash: "pair_hash H (take (2 * n) l) = take n (pair_hash H l)"
proof (induction H l arbitrary: n rule: pair_hash.induct)
  case (1 H a b rest)
  then show ?case by (cases n) simp_all
qed (auto simp: pair_hash_short)

lemma drop_pair_hash: "pair_hash H (drop (2 * n) l) = drop n (pair_hash H l)"
proof (induction H l arbitrary: n rule: pair_hash.induct)
  case (1 H a b rest)
  then show ?case by (cases n) simp_all
qed (auto simp: pair_hash_short)

lemma chunk_root_pair: "length cur = 2 ^ Suc d \<Longrightarrow> chunk_root H (Suc d) cur = chunk_root H d (pair_hash H cur)"
proof (induction d arbitrary: cur)
  case 0
  then obtain a b where "cur = [a, b]" by (cases cur; cases "tl cur") (auto simp: numeral_2_eq_2 length_Suc_conv)
  then show ?case by simp
next
  case (Suc d)
  have "length (take (2 ^ Suc d) cur) = 2 ^ Suc d" "length (drop (2 ^ Suc d) cur) = 2 ^ Suc d" using Suc.prems by simp_all
  from Suc.IH [OF this(1)] Suc.IH [OF this(2)] show ?case
    using take_pair_hash [of H "2 ^ d" cur] drop_pair_hash [of H "2 ^ d" cur] by simp
qed

lemma layers_step:
  "length cur = 2 ^ Suc d \<Longrightarrow> 1 < length cur \<and> hash_layer H cur = Inr (pair_hash H cur) \<and> length (pair_hash H cur) = 2 ^ d"
proof -
  assume l: "length cur = 2 ^ Suc d"
  have "(1::nat) \<le> 2 ^ d" by simp
  then have "1 < length cur" unfolding l power_Suc by linarith
  then show ?thesis using l by (simp add: hash_layer_def require_def)
qed

lemma tree_layers_full: "length cur = 2 ^ d \<Longrightarrow> tree_layers H cur = Inr (ref_layers H d cur)"
proof (induction d arbitrary: cur)
  case 0
  then show ?case by (simp add: tree_layers.simps)
next
  case (Suc d)
  note s = layers_step [OF Suc.prems, of H]
  show ?case using s Suc.IH [of "pair_hash H cur"] by (simp add: tree_layers.simps [of H cur])
qed

lemma merkle_loop_full: "length cur = 2 ^ d \<Longrightarrow> merkle_loop H cur = Inr [chunk_root H d cur]"
proof (induction d arbitrary: cur)
  case 0
  then show ?case by (cases cur) (simp_all add: merkle_loop.simps)
next
  case (Suc d)
  note s = layers_step [OF Suc.prems, of H]
  show ?case using s Suc.IH [of "pair_hash H cur"] chunk_root_pair [OF Suc.prems, of H]
    by (simp add: merkle_loop.simps [of H cur] del: chunk_root.simps)
qed

lemma last_ref_layers: "length cur = 2 ^ d \<Longrightarrow> last (ref_layers H d cur) = [chunk_root H d cur]"
proof (induction d arbitrary: cur)
  case 0
  then show ?case by (cases cur) simp_all
next
  case (Suc d)
  show ?case using layers_step [OF Suc.prems, of H] Suc.IH [of "pair_hash H cur"] chunk_root_pair [OF Suc.prems, of H]
    by (simp del: chunk_root.simps)
qed

section \<open>Siblings fold to the root\<close>

lemma xor_one_if: "xor i (1::nat) = (if even i then i + 1 else i - 1)"
  unfolding xor_one_eq by simp

lemma xor_one_less: "i < 2 * n \<Longrightarrow> xor i 1 < (2 * n :: nat)"
  unfolding xor_one_if by (cases "even i") (auto elim!: evenE oddE)

lemma branch_from_full:
  "length cur = 2 ^ d \<Longrightarrow> pos < 2 ^ d \<Longrightarrow> branch_from (butlast (ref_layers H d cur)) pos = Inr (concat (layer_sibs H d cur pos))"
proof (induction d arbitrary: cur pos)
  case (Suc d)
  have "xor pos 1 < length cur" using xor_one_less [of pos "2 ^ d"] Suc.prems by simp
  then show ?case using Suc.IH [of "pair_hash H cur" "pos div 2"] Suc.prems layers_step [OF Suc.prems(1), of H]
    by (simp add: py_nth_def require_def)
qed simp

lemma fold_layer_sibs:
  "length cur = 2 ^ d \<Longrightarrow> pos < 2 ^ d \<Longrightarrow> fold_sibs H (cur ! pos) (layer_sibs H d cur pos) (2 ^ d + pos) = chunk_root H d cur"
proof (induction d arbitrary: cur pos)
  case 0
  then show ?case by (cases cur) simp_all
next
  case (Suc d)
  let ?p = "pair_hash H cur"
  have l: "length ?p = 2 ^ d" "pos div 2 < 2 ^ d" using Suc.prems by simp_all
  have b: "2 * (pos div 2) + 1 < length cur" using l Suc.prems(1) by simp
  have m: "(if odd pos then H (cur ! (xor pos 1) @ cur ! pos) else H (cur ! pos @ cur ! (xor pos 1))) = ?p ! (pos div 2)"
    unfolding nth_pair_hash [OF b] xor_one_if by (cases "even pos") (auto elim!: evenE oddE)
  have o: "odd (2 ^ Suc d + pos) = odd pos" "(2 ^ Suc d + pos) div 2 = 2 ^ d + pos div 2" by simp_all
  show ?case using Suc.IH [OF l] chunk_root_pair [OF Suc.prems(1), of H]
    by (simp only: layer_sibs.simps fold_sibs.simps o m)
qed

lemma length_layer_sibs [simp]: "length (layer_sibs H d cur pos) = d"
  by (induction d arbitrary: cur pos) simp_all

lemma layer_sibs_32:
  assumes H: "\<And>x. length (H x) = 32"
  shows "length cur = 2 ^ d \<Longrightarrow> pos < 2 ^ d \<Longrightarrow> \<forall>c\<in>set cur. length c = 32 \<Longrightarrow> s \<in> set (layer_sibs H d cur pos) \<Longrightarrow> length s = 32"
proof (induction d arbitrary: cur pos)
  case (Suc d)
  have "xor pos 1 < length cur" using xor_one_less [of pos "2 ^ d"] Suc.prems by simp
  then have n: "length (cur ! (xor pos 1)) = 32" using Suc.prems(3) by simp
  have p: "\<forall>c\<in>set (pair_hash H cur). length c = 32" using H by (auto simp: in_set_conv_nth nth_pair_hash)
  have l: "length (pair_hash H cur) = 2 ^ d" "pos div 2 < 2 ^ d" using Suc.prems by simp_all
  show ?case using Suc.prems(4) n Suc.IH [OF l p] by auto
qed simp

text \<open>A fold in two parts; a fold reads only the low bits of its index.\<close>

lemma fold_sibs_append: "fold_sibs H n (as @ bs) g = fold_sibs H (fold_sibs H n as g) bs (g div 2 ^ length as)"
  by (induction as arbitrary: n g) (simp_all add: div_mult2_eq)

lemma fold_sibs_low: "g mod 2 ^ length ss = g' mod 2 ^ length ss \<Longrightarrow> fold_sibs H n ss g = fold_sibs H n ss g'"
proof (induction ss arbitrary: n g g')
  case (Cons s ss)
  let ?k = "2 ^ length ss :: nat"
  have e: "g mod (2 * ?k) = g' mod (2 * ?k)" using Cons.prems by simp
  have m: "x mod (2 * ?k) = 2 * (x div 2 mod ?k) + x mod 2" for x :: nat by (rule mod_mult2_eq)
  have p: "a = b \<and> r = t" if "2 * a + r = 2 * b + t" "r < 2" "t < 2" for a b r t :: nat using that by presburger
  have "g div 2 mod ?k = g' div 2 mod ?k \<and> g mod 2 = g' mod 2" using e unfolding m by (rule p) simp_all
  then have "odd g = odd g'" "g div 2 mod ?k = g' div 2 mod ?k" by (simp_all add: odd_iff_mod_2_eq_one)
  then show ?case using Cons.IH [of "g div 2" "g' div 2"] by (simp only: fold_sibs.simps)
qed simp


section \<open>Padding and limits\<close>

lemma ZERO_CHUNK_zero32: "ZERO_CHUNK = zero32"
  by (simp add: ZERO_CHUNK_def zero32_def)

lemma rel_zero_hash_root: "rel_zero_hash H d = chunk_root H d []"
  by (induction d) (simp_all add: ZERO_CHUNK_zero32 Let_def)

lemma chunk_root_pad: "chunk_root H d (cs @ replicate m zero32) = chunk_root H d cs"
proof (induction d arbitrary: cs m)
  case 0
  then show ?case by (cases cs; cases m) simp_all
next
  case (Suc d)
  let ?n = "2 ^ d"
  have "take ?n (cs @ replicate m zero32) = take ?n cs @ replicate (min m (?n - length cs)) zero32"
    by (simp add: min.commute)
  moreover have "drop ?n (cs @ replicate m zero32) = drop ?n cs @ replicate (m - (?n - length cs)) zero32" by simp
  ultimately show ?case by (simp only: chunk_root.simps Suc)
qed

text \<open>\<open>next_pow2\<close> is the least power of two that is not smaller.\<close>

lemma next_pow2_loop_eq: "j \<le> k \<Longrightarrow> n \<le> 2 ^ k \<Longrightarrow> (k = 0 \<or> 2 ^ (k - 1) < n) \<Longrightarrow> next_pow2_loop n j = 2 ^ k"
proof (induction "k - j" arbitrary: j)
  case 0
  then show ?case by (simp add: next_pow2_loop.simps [of n j])
next
  case (Suc m)
  then have "2 ^ j \<le> (2::nat) ^ (k - 1)" by (intro power_increasing) simp_all
  moreover have "2 ^ (k - 1) < n" using Suc by auto
  ultimately have "2 ^ j < n" by (rule le_less_trans)
  then show ?case using Suc by (simp add: next_pow2_loop.simps [of n j])
qed

lemma next_pow2_eq: "n \<le> 2 ^ k \<Longrightarrow> (k = 0 \<or> 2 ^ (k - 1) < n) \<Longrightarrow> next_pow2 n = 2 ^ k"
  using next_pow2_loop_eq [of 0 k n] by (simp add: next_pow2_def)

lemma next_pow2_ex: "\<exists>k. (n::nat) \<le> 2 ^ k \<and> (k = 0 \<or> 2 ^ (k - 1) < n)"
proof -
  have "n \<le> 2 ^ n" using less_exp [of n] by simp
  then have l: "n \<le> 2 ^ (LEAST k. n \<le> 2 ^ k)" by (rule LeastI)
  have "\<not> n \<le> 2 ^ ((LEAST k. n \<le> 2 ^ k) - 1)" if "(LEAST k. n \<le> 2 ^ k) \<noteq> 0"
    using that by (intro not_less_Least) simp
  then show ?thesis using l by (metis not_le)
qed

lemma bitlen_pow2: "bitlen (2 ^ k) = Suc k"
  by (induction k) (simp_all add: bitlen_pos)

lemma pow2_le_iff: "(n::nat) \<le> 2 ^ d \<Longrightarrow> (k = 0 \<or> 2 ^ (k - 1) < n) \<Longrightarrow> k \<le> d"
proof (rule ccontr)
  assume a: "n \<le> 2 ^ d" "k = 0 \<or> 2 ^ (k - 1) < n" "\<not> k \<le> d"
  then have "(2::nat) ^ d \<le> 2 ^ (k - 1)" by (intro power_increasing) simp_all
  moreover have "2 ^ (k - 1) < n" using a by auto
  ultimately show False using a(1) by linarith
qed

lemma chunk_root_raise:
  "length cs \<le> 2 ^ k \<Longrightarrow> k \<le> d \<Longrightarrow>
   foldl (\<lambda>node level. H (node @ rel_zero_hash H level)) (chunk_root H k cs) [k..<d] = chunk_root H d cs"
proof (induction d)
  case (Suc d)
  show ?case
  proof (cases "k = Suc d")
    case False
    then have "k \<le> d" using Suc.prems(2) by simp
    moreover have "length cs \<le> 2 ^ d" using le_trans [OF Suc.prems(1) power_increasing [OF \<open>k \<le> d\<close>, of "2::nat"]] by simp
    ultimately show ?thesis using Suc by (simp add: rel_zero_hash_root)
  qed simp
qed simp

lemma merkleize_exact_eq:
  assumes "length cs \<le> 2 ^ k" and "k = 0 \<or> 2 ^ (k - 1) < length cs"
  shows "merkleize_chunks_exact H cs = Inr (chunk_root H k cs)"
proof -
  let ?n = "if 0 < length cs then next_pow2 (length cs) else 1"
  have n: "?n = 2 ^ k" using next_pow2_eq [OF assms] assms(2) by auto
  have "length (cs @ replicate (2 ^ k - length cs) ZERO_CHUNK) = 2 ^ k" using assms(1) by simp
  from merkle_loop_full [OF this] show ?thesis
    unfolding merkleize_chunks_exact_def Let_def n
    by (simp add: py_head_def require_def ZERO_CHUNK_zero32 chunk_root_pad)
qed

lemma and_pow2_pred: "and (2 ^ d) (2 ^ d - 1) = (0::nat)"
proof -
  have "2 ^ d - 1 = (mask d :: nat)" by (simp add: mask_eq_exp_minus_1)
  then have "and (2 ^ d) (2 ^ d - 1) = take_bit d (2 ^ d :: nat)" by (simp only: take_bit_eq_mask)
  then show ?thesis by simp
qed

theorem merkleize_with_limit_eq:
  assumes "length cs \<le> 2 ^ d"
  shows "merkleize_with_limit H cs (2 ^ d) = Inr (chunk_root H d cs)"
proof (cases "cs = []")
  case True
  then show ?thesis
    by (simp add: merkleize_with_limit_def require_def and_pow2_pred [unfolded One_nat_def] bitlen_pow2 rel_zero_hash_root Let_def)
next
  case False
  obtain k where k: "length cs \<le> 2 ^ k" "k = 0 \<or> 2 ^ (k - 1) < length cs" using next_pow2_ex by blast
  have "k \<le> d" by (rule pow2_le_iff [OF assms k(2)])
  then show ?thesis using False merkleize_exact_eq [OF k, of H] next_pow2_eq [OF k] chunk_root_raise [OF k(1)]
    by (simp add: merkleize_with_limit_def require_def and_pow2_pred [unfolded One_nat_def] bitlen_pow2 Let_def)
qed

end
