(* ===== verification/Rel_State.thy ===== *)
theory Rel_State
  imports Rel_Tree
begin

text \<open>
  The beacon-state tree of the relayer, \<open>relayer/ssz/beacon_state.py\<close>: the hash-tree roots of the
  38 fields of a Fulu state, the state root and the branch of one entry of \<open>block_roots\<close>. JSON objects
  are records of decoded values; an absent optional list is the empty list.
\<close>

section \<open>Constants\<close>

definition EPOCHS_PER_HISTORICAL_VECTOR :: nat where "EPOCHS_PER_HISTORICAL_VECTOR = 65536"
definition EPOCHS_PER_SLASHINGS_VECTOR :: nat where "EPOCHS_PER_SLASHINGS_VECTOR = 8192"
definition HISTORICAL_ROOTS_LIMIT :: nat where "HISTORICAL_ROOTS_LIMIT = 2 ^ 24"
definition VALIDATOR_REGISTRY_LIMIT :: nat where "VALIDATOR_REGISTRY_LIMIT = 2 ^ 40"
definition ETH1_DATA_VOTES_LIMIT :: nat where "ETH1_DATA_VOTES_LIMIT = 2048"
definition REL_SYNC_COMMITTEE_SIZE :: nat where "REL_SYNC_COMMITTEE_SIZE = 512"
definition PENDING_DEPOSITS_LIMIT :: nat where "PENDING_DEPOSITS_LIMIT = 2 ^ 27"
definition PENDING_PARTIAL_WITHDRAWALS_LIMIT :: nat where "PENDING_PARTIAL_WITHDRAWALS_LIMIT = 2 ^ 27"
definition PENDING_CONSOLIDATIONS_LIMIT :: nat where "PENDING_CONSOLIDATIONS_LIMIT = 2 ^ 18"
definition PROPOSER_LOOKAHEAD_LENGTH :: nat where "PROPOSER_LOOKAHEAD_LENGTH = 64"
definition BLOCK_ROOTS_FIELD_INDEX :: nat where "BLOCK_ROOTS_FIELD_INDEX = 5"
definition BEACON_STATE_DEPTH :: nat where "BEACON_STATE_DEPTH = bitlen (next_pow2 38) - 1"
definition G_BLOCK_ROOTS_BASE_FULU :: nat where "G_BLOCK_ROOTS_BASE_FULU = 2 ^ BEACON_STATE_DEPTH + BLOCK_ROOTS_FIELD_INDEX"

lemmas state_limit_defs = EPOCHS_PER_HISTORICAL_VECTOR_def EPOCHS_PER_SLASHINGS_VECTOR_def HISTORICAL_ROOTS_LIMIT_def
  VALIDATOR_REGISTRY_LIMIT_def ETH1_DATA_VOTES_LIMIT_def REL_SYNC_COMMITTEE_SIZE_def PENDING_DEPOSITS_LIMIT_def
  PENDING_PARTIAL_WITHDRAWALS_LIMIT_def PENDING_CONSOLIDATIONS_LIMIT_def PROPOSER_LOOKAHEAD_LENGTH_def

section \<open>Containers\<close>

text \<open>A container: its field roots in order, merkleized.\<close>

definition htr_fields :: "(bytes \<Rightarrow> bytes) \<Rightarrow> bytes py list \<Rightarrow> bytes py" where
  "htr_fields H fs = rbind (py_seq fs) (merkleize_chunks_exact H)"

record validator =
  va_pubkey :: bytes
  va_withdrawal_credentials :: bytes
  va_effective_balance :: nat
  va_slashed :: bool
  va_activation_eligibility_epoch :: nat
  va_activation_epoch :: nat
  va_exit_epoch :: nat
  va_withdrawable_epoch :: nat

definition validator_htr :: "(bytes \<Rightarrow> bytes) \<Rightarrow> validator \<Rightarrow> bytes py" where
  "validator_htr H v = htr_fields H
     [bls_pubkey_root H (va_pubkey v), Inr (va_withdrawal_credentials v), le_pad32 (va_effective_balance v) 8,
      Inr (ljust0 32 (if va_slashed v then [1] else [0])), le_pad32 (va_activation_eligibility_epoch v) 8,
      le_pad32 (va_activation_epoch v) 8, le_pad32 (va_exit_epoch v) 8, le_pad32 (va_withdrawable_epoch v) 8]"

definition htr_validators :: "(bytes \<Rightarrow> bytes) \<Rightarrow> validator list \<Rightarrow> bytes py" where
  "htr_validators H vs = rbind (py_seq (map (validator_htr H) vs)) (\<lambda>leaves. htr_container_list H leaves VALIDATOR_REGISTRY_LIMIT)"

record json_fork =
  jf_previous_version :: bytes
  jf_current_version :: bytes
  jf_epoch :: nat

definition fork_htr :: "(bytes \<Rightarrow> bytes) \<Rightarrow> json_fork \<Rightarrow> bytes py" where
  "fork_htr H f = htr_fields H
     [Inr (ljust0 32 (jf_previous_version f)), Inr (ljust0 32 (jf_current_version f)), le_pad32 (jf_epoch f) 8]"

record eth1data =
  e1_deposit_root :: bytes
  e1_deposit_count :: nat
  e1_block_hash :: bytes

definition eth1data_htr :: "(bytes \<Rightarrow> bytes) \<Rightarrow> eth1data \<Rightarrow> bytes py" where
  "eth1data_htr H d = htr_fields H [Inr (e1_deposit_root d), le_pad32 (e1_deposit_count d) 8, Inr (e1_block_hash d)]"

record checkpoint =
  cp_epoch :: nat
  cp_root :: bytes

definition checkpoint_htr :: "(bytes \<Rightarrow> bytes) \<Rightarrow> checkpoint \<Rightarrow> bytes py" where
  "checkpoint_htr H d = htr_fields H [le_pad32 (cp_epoch d) 8, Inr (cp_root d)]"

record historical_summary =
  hs_block_summary_root :: bytes
  hs_state_summary_root :: bytes

definition historical_summary_htr :: "(bytes \<Rightarrow> bytes) \<Rightarrow> historical_summary \<Rightarrow> bytes py" where
  "historical_summary_htr H d = htr_fields H [Inr (hs_block_summary_root d), Inr (hs_state_summary_root d)]"

record pending_deposit =
  pd_pubkey :: bytes
  pd_withdrawal_credentials :: bytes
  pd_amount :: nat
  pd_signature :: bytes
  pd_slot :: nat

definition pending_deposit_htr :: "(bytes \<Rightarrow> bytes) \<Rightarrow> pending_deposit \<Rightarrow> bytes py" where
  "pending_deposit_htr H d = htr_fields H
     [bls_pubkey_root H (pd_pubkey d), Inr (pd_withdrawal_credentials d), le_pad32 (pd_amount d) 8,
      bls_signature_root H (pd_signature d), le_pad32 (pd_slot d) 8]"

record pending_partial_withdrawal =
  pw_validator_index :: nat
  pw_amount :: nat
  pw_withdrawable_epoch :: nat

definition pending_partial_withdrawal_htr :: "(bytes \<Rightarrow> bytes) \<Rightarrow> pending_partial_withdrawal \<Rightarrow> bytes py" where
  "pending_partial_withdrawal_htr H d = htr_fields H
     [le_pad32 (pw_validator_index d) 8, le_pad32 (pw_amount d) 8, le_pad32 (pw_withdrawable_epoch d) 8]"

record pending_consolidation =
  pc_source_index :: nat
  pc_target_index :: nat

definition pending_consolidation_htr :: "(bytes \<Rightarrow> bytes) \<Rightarrow> pending_consolidation \<Rightarrow> bytes py" where
  "pending_consolidation_htr H d = htr_fields H [le_pad32 (pc_source_index d) 8, le_pad32 (pc_target_index d) 8]"

record json_committee =
  jc_pubkeys :: "bytes list"
  jc_aggregate_pubkey :: bytes

definition sync_committee_htr :: "(bytes \<Rightarrow> bytes) \<Rightarrow> json_committee \<Rightarrow> bytes py" where
  "sync_committee_htr H sc =
     rbind (py_seq (map (bls_pubkey_root H) (jc_pubkeys sc))) (\<lambda>pubkey_leaves.
     require (length pubkey_leaves = REL_SYNC_COMMITTEE_SIZE) AssertionError (
     rbind (htr_bytes32_vector_fixed H pubkey_leaves REL_SYNC_COMMITTEE_SIZE) (\<lambda>pubkeys_root.
     rbind (bls_pubkey_root H (jc_aggregate_pubkey sc)) (\<lambda>agg_leaf.
     merkleize_chunks_exact H [pubkeys_root, agg_leaf]))))"

text \<open>The execution payload (header): 17 fields; the last two roots are precomputed in a header.\<close>

record payload_header =
  ph_parent_hash :: bytes
  ph_fee_recipient :: bytes
  ph_state_root :: bytes
  ph_receipts_root :: bytes
  ph_logs_bloom :: bytes
  ph_prev_randao :: bytes
  ph_block_number :: nat
  ph_gas_limit :: nat
  ph_gas_used :: nat
  ph_timestamp :: nat
  ph_extra_data :: bytes
  ph_base_fee_per_gas :: nat
  ph_block_hash :: bytes
  ph_transactions_root :: bytes
  ph_withdrawals_root :: bytes
  ph_blob_gas_used :: nat
  ph_excess_blob_gas :: nat

definition payload_leaves :: "(bytes \<Rightarrow> bytes) \<Rightarrow> payload_header \<Rightarrow> bytes py list" where
  "payload_leaves H h =
     [Inr (ph_parent_hash h), Inr (ljust0 32 (ph_fee_recipient h)), Inr (ph_state_root h), Inr (ph_receipts_root h),
      logs_bloom_root H (ph_logs_bloom h), Inr (ph_prev_randao h), le_pad32 (ph_block_number h) 8,
      le_pad32 (ph_gas_limit h) 8, le_pad32 (ph_gas_used h) 8, le_pad32 (ph_timestamp h) 8,
      extra_data_root H (ph_extra_data h), to_bytes_le 32 (ph_base_fee_per_gas h), Inr (ph_block_hash h),
      Inr (ph_transactions_root h), Inr (ph_withdrawals_root h), le_pad32 (ph_blob_gas_used h) 8,
      le_pad32 (ph_excess_blob_gas h) 8]"

definition exec_payload_header_htr :: "(bytes \<Rightarrow> bytes) \<Rightarrow> payload_header \<Rightarrow> bytes py" where
  "exec_payload_header_htr H h = htr_fields H (payload_leaves H h)"

text \<open>\<open>val\<close> is the first byte of the hex string, or the integer itself.\<close>

definition bitvector4_htr :: "nat \<Rightarrow> bytes py" where
  "bitvector4_htr val = rbind (py_byte val) (\<lambda>b. Inr (ljust0 32 b))"

definition header_fields_htr :: "(bytes \<Rightarrow> bytes) \<Rightarrow> json_header \<Rightarrow> bytes py" where
  "header_fields_htr H m = htr_fields H
     [le_pad32 (jh_slot m) 8, le_pad32 (jh_proposer_index m) 8, Inr (jh_parent_root m), Inr (jh_state_root m), Inr (jh_body_root m)]"

section \<open>The state\<close>

record beacon_state =
  bs_genesis_time :: nat
  bs_genesis_validators_root :: bytes
  bs_slot :: nat
  bs_fork :: json_fork
  bs_latest_block_header :: json_header
  bs_block_roots :: "bytes list"
  bs_state_roots :: "bytes list"
  bs_historical_roots :: "bytes list"
  bs_eth1_data :: eth1data
  bs_eth1_data_votes :: "eth1data list"
  bs_eth1_deposit_index :: nat
  bs_validators :: "validator list"
  bs_balances :: "nat list"
  bs_randao_mixes :: "bytes list"
  bs_slashings :: "nat list"
  bs_previous_epoch_participation :: "nat list"
  bs_current_epoch_participation :: "nat list"
  bs_justification_bits :: nat
  bs_previous_justified_checkpoint :: checkpoint
  bs_current_justified_checkpoint :: checkpoint
  bs_finalized_checkpoint :: checkpoint
  bs_inactivity_scores :: "nat list"
  bs_current_sync_committee :: json_committee
  bs_next_sync_committee :: json_committee
  bs_latest_execution_payload_header :: payload_header
  bs_next_withdrawal_index :: nat
  bs_next_withdrawal_validator_index :: nat
  bs_historical_summaries :: "historical_summary list"
  bs_deposit_requests_start_index :: nat
  bs_deposit_balance_to_consume :: nat
  bs_exit_balance_to_consume :: nat
  bs_earliest_exit_epoch :: nat
  bs_consolidation_balance_to_consume :: nat
  bs_earliest_consolidation_epoch :: nat
  bs_pending_deposits :: "pending_deposit list"
  bs_pending_partial_withdrawals :: "pending_partial_withdrawal list"
  bs_pending_consolidations :: "pending_consolidation list"
  bs_proposer_lookahead :: "nat list"

definition list_htr :: "(bytes \<Rightarrow> bytes) \<Rightarrow> ('a \<Rightarrow> bytes py) \<Rightarrow> 'a list \<Rightarrow> nat \<Rightarrow> bytes py" where
  "list_htr H f xs limit = rbind (py_seq (map f xs)) (\<lambda>leaves. htr_container_list H leaves limit)"

text \<open>The 38 field roots in order, with the length checks of the vectors.\<close>

definition state_fields :: "(bytes \<Rightarrow> bytes) \<Rightarrow> beacon_state \<Rightarrow> bytes py list" where
  "state_fields H d =
     [le_pad32 (bs_genesis_time d) 8, Inr (bs_genesis_validators_root d), le_pad32 (bs_slot d) 8, fork_htr H (bs_fork d),
      header_fields_htr H (bs_latest_block_header d),
      require (length (bs_block_roots d) = 8192) AssertionError (htr_bytes32_vector_fixed H (bs_block_roots d) 8192),
      require (length (bs_state_roots d) = 8192) AssertionError (htr_bytes32_vector_fixed H (bs_state_roots d) 8192),
      htr_container_list H (bs_historical_roots d) HISTORICAL_ROOTS_LIMIT, eth1data_htr H (bs_eth1_data d),
      list_htr H (eth1data_htr H) (bs_eth1_data_votes d) ETH1_DATA_VOTES_LIMIT, le_pad32 (bs_eth1_deposit_index d) 8,
      htr_validators H (bs_validators d), htr_uint64_list H (bs_balances d) VALIDATOR_REGISTRY_LIMIT,
      require (length (bs_randao_mixes d) = EPOCHS_PER_HISTORICAL_VECTOR) AssertionError
        (htr_bytes32_vector_fixed H (bs_randao_mixes d) EPOCHS_PER_HISTORICAL_VECTOR),
      require (length (bs_slashings d) = EPOCHS_PER_SLASHINGS_VECTOR) AssertionError
        (htr_uint64_vector_fixed H (bs_slashings d) EPOCHS_PER_SLASHINGS_VECTOR),
      htr_uint8_list H (bs_previous_epoch_participation d) VALIDATOR_REGISTRY_LIMIT,
      htr_uint8_list H (bs_current_epoch_participation d) VALIDATOR_REGISTRY_LIMIT,
      bitvector4_htr (bs_justification_bits d), checkpoint_htr H (bs_previous_justified_checkpoint d),
      checkpoint_htr H (bs_current_justified_checkpoint d), checkpoint_htr H (bs_finalized_checkpoint d),
      htr_uint64_list H (bs_inactivity_scores d) VALIDATOR_REGISTRY_LIMIT, sync_committee_htr H (bs_current_sync_committee d),
      sync_committee_htr H (bs_next_sync_committee d), exec_payload_header_htr H (bs_latest_execution_payload_header d),
      le_pad32 (bs_next_withdrawal_index d) 8, le_pad32 (bs_next_withdrawal_validator_index d) 8,
      list_htr H (historical_summary_htr H) (bs_historical_summaries d) HISTORICAL_ROOTS_LIMIT,
      le_pad32 (bs_deposit_requests_start_index d) 8, le_pad32 (bs_deposit_balance_to_consume d) 8,
      le_pad32 (bs_exit_balance_to_consume d) 8, le_pad32 (bs_earliest_exit_epoch d) 8,
      le_pad32 (bs_consolidation_balance_to_consume d) 8, le_pad32 (bs_earliest_consolidation_epoch d) 8,
      list_htr H (pending_deposit_htr H) (bs_pending_deposits d) PENDING_DEPOSITS_LIMIT,
      list_htr H (pending_partial_withdrawal_htr H) (bs_pending_partial_withdrawals d) PENDING_PARTIAL_WITHDRAWALS_LIMIT,
      list_htr H (pending_consolidation_htr H) (bs_pending_consolidations d) PENDING_CONSOLIDATIONS_LIMIT,
      require (length (bs_proposer_lookahead d) = PROPOSER_LOOKAHEAD_LENGTH) AssertionError
        (htr_uint64_vector_fixed H (bs_proposer_lookahead d) PROPOSER_LOOKAHEAD_LENGTH)]"

text \<open>The state root, the field roots and the raw \<open>block_roots\<close>; the key order of the JSON object is the record's.\<close>

definition build_beacon_state_tree :: "(bytes \<Rightarrow> bytes) \<Rightarrow> beacon_state \<Rightarrow> (bytes \<times> bytes list \<times> bytes list) py" where
  "build_beacon_state_tree H d =
     rbind (py_seq (state_fields H d)) (\<lambda>field_roots.
     require (\<forall>r\<in>set field_roots. length r = 32) AssertionError (
     rbind (merkleize_chunks_exact H field_roots) (\<lambda>state_root.
     Inr (state_root, field_roots, bs_block_roots d))))"

text \<open>The branch of \<open>block_roots[t_slot % 8192]\<close> up to the state root.\<close>

definition block_roots_fold_branch :: "(bytes \<Rightarrow> bytes) \<Rightarrow> bytes list \<Rightarrow> bytes list \<Rightarrow> int \<Rightarrow> bytes py" where
  "block_roots_fold_branch H field_roots block_roots_raw t_slot =
     (let residue = nat (t_slot mod 8192) in
     rbind (tree_layers H block_roots_raw) (\<lambda>layers.
     rbind (branch_from (butlast layers) residue) (\<lambda>inner_branch.
     require (length inner_branch = 13 * 32) AssertionError (
     let padded = field_roots @ replicate (64 - length field_roots) ZERO_CHUNK in
     rbind (tree_layers H padded) (\<lambda>outer_layers.
     rbind (branch_from (butlast outer_layers) BLOCK_ROOTS_FIELD_INDEX) (\<lambda>outer_branch.
     require (length outer_branch = 6 * 32) AssertionError (
     Inr (inner_branch @ outer_branch))))))))"

end
