(* ===== verification/Rel_Body.thy ===== *)
theory Rel_Body
  imports Rel_State
begin

text \<open>
  The relayer's execution payload and block body trees, \<open>relayer/ssz/execution_payload.py\<close> and
  \<open>relayer/ssz/block_body.py\<close>: the depth-5 tree of a payload, the depth-4 tree of a body with the branch
  of its payload, and the composed branch of an execution field.
\<close>

section \<open>The payload tree of a light-client header\<close>

text \<open>The layers of \<open>build_tree\<close>, which pairs \<open>len(cur) // 2\<close> neighbours.\<close>

function floor_layers :: "(bytes \<Rightarrow> bytes) \<Rightarrow> bytes list \<Rightarrow> bytes list list" where
  "floor_layers H cur = (if 1 < length cur then cur # floor_layers H (pair_hash H cur) else [cur])"
  by pat_completeness auto
termination
  by (relation "measure (\<lambda>(H, layer). length layer)") auto

declare floor_layers.simps [simp del]

definition build_tree :: "(bytes \<Rightarrow> bytes) \<Rightarrow> nat \<Rightarrow> bytes list \<Rightarrow> (bytes \<times> bytes list list) py" where
  "build_tree H depth leaves =
     (let n = 2 ^ depth in
     require (length leaves \<le> n) AssertionError (
     let padded = leaves @ replicate (n - length leaves) (replicate 32 0); layers = floor_layers H padded in
     rbind (py_head (last layers)) (\<lambda>root. Inr (root, layers))))"

text \<open>\<open>branch_for\<close> of both modules: the siblings on all layers but the last.\<close>

definition branch_for :: "bytes list list \<Rightarrow> nat \<Rightarrow> bytes py" where
  "branch_for layers position = branch_from (butlast layers) position"

definition FIELD_NAMES :: "string list" where
  "FIELD_NAMES = [''parent_hash'', ''fee_recipient'', ''state_root'', ''receipts_root'', ''logs_bloom'', ''prev_randao'',
     ''block_number'', ''gas_limit'', ''gas_used'', ''timestamp'', ''extra_data'', ''base_fee_per_gas'', ''block_hash'',
     ''transactions_root'', ''withdrawals_root'', ''blob_gas_used'', ''excess_blob_gas'']"

definition FIELD_INDEX :: "string \<Rightarrow> nat py" where
  "FIELD_INDEX field = (case map_of (zip FIELD_NAMES [0..<17]) field of None \<Rightarrow> Inl KeyError | Some i \<Rightarrow> Inr i)"

definition EXECUTION_PAYLOAD_DEPTH :: nat where "EXECUTION_PAYLOAD_DEPTH = 5"
definition EXECUTION_PAYLOAD_GINDEX :: nat where "EXECUTION_PAYLOAD_GINDEX = 25"

definition build_execution_payload_tree :: "(bytes \<Rightarrow> bytes) \<Rightarrow> payload_header \<Rightarrow> (bytes \<times> bytes list list) py" where
  "build_execution_payload_tree H payload =
     rbind (py_seq (payload_leaves H payload)) (build_tree H EXECUTION_PAYLOAD_DEPTH)"

text \<open>The loop of \<open>compute_branch_root\<close>.\<close>

fun branch_root_loop :: "(bytes \<Rightarrow> bytes) \<Rightarrow> bytes \<Rightarrow> nat \<Rightarrow> nat \<Rightarrow> nat \<Rightarrow> bytes \<Rightarrow> bytes" where
  "branch_root_loop H branch gindex i 0 node = node"
| "branch_root_loop H branch gindex i (Suc k) node =
     (let sib = seg (32 * i) 32 branch in
      branch_root_loop H branch gindex (i + 1) k (if and (drop_bit i gindex) 1 \<noteq> 0 then H (sib @ node) else H (node @ sib)))"

definition compute_branch_root :: "(bytes \<Rightarrow> bytes) \<Rightarrow> bytes \<Rightarrow> bytes \<Rightarrow> nat \<Rightarrow> bytes py" where
  "compute_branch_root H leaf branch gindex =
     (let depth = int (bitlen gindex) - 1 in
     require (int (length branch) = depth * 32) AssertionError (Inr (branch_root_loop H branch gindex 0 (nat depth) leaf)))"

definition deep_branch :: "(bytes \<Rightarrow> bytes) \<Rightarrow> payload_header \<Rightarrow> bytes list \<Rightarrow> string \<Rightarrow> (bytes \<times> nat) py" where
  "deep_branch H payload execution_branch field =
     rbind (build_execution_payload_tree H payload) (\<lambda>(_, layers).
     rbind (FIELD_INDEX field) (\<lambda>field_index.
     rbind (branch_for layers field_index) (\<lambda>inner_branch.
     let outer_branch = concat execution_branch;
         composed_gindex = EXECUTION_PAYLOAD_GINDEX * 2 ^ EXECUTION_PAYLOAD_DEPTH + field_index in
     Inr (inner_branch @ outer_branch, composed_gindex))))"

section \<open>Operations of a block body\<close>

definition MAX_PROPOSER_SLASHINGS :: nat where "MAX_PROPOSER_SLASHINGS = 16"
definition MAX_ATTESTER_SLASHINGS_ELECTRA :: nat where "MAX_ATTESTER_SLASHINGS_ELECTRA = 1"
definition MAX_ATTESTATIONS_ELECTRA :: nat where "MAX_ATTESTATIONS_ELECTRA = 8"
definition MAX_DEPOSITS :: nat where "MAX_DEPOSITS = 16"
definition MAX_VOLUNTARY_EXITS :: nat where "MAX_VOLUNTARY_EXITS = 16"
definition MAX_BLS_TO_EXECUTION_CHANGES :: nat where "MAX_BLS_TO_EXECUTION_CHANGES = 16"
definition MAX_BLOB_COMMITMENTS_PER_BLOCK :: nat where "MAX_BLOB_COMMITMENTS_PER_BLOCK = 4096"
definition MAX_COMMITTEES_PER_SLOT :: nat where "MAX_COMMITTEES_PER_SLOT = 64"
definition MAX_VALIDATORS_PER_COMMITTEE :: nat where "MAX_VALIDATORS_PER_COMMITTEE = 2048"
definition AGGREGATION_BITS_LIMIT :: nat where
  "AGGREGATION_BITS_LIMIT = MAX_VALIDATORS_PER_COMMITTEE * MAX_COMMITTEES_PER_SLOT"
definition MAX_DEPOSIT_REQUESTS_PER_PAYLOAD :: nat where "MAX_DEPOSIT_REQUESTS_PER_PAYLOAD = 8192"
definition MAX_WITHDRAWAL_REQUESTS_PER_PAYLOAD :: nat where "MAX_WITHDRAWAL_REQUESTS_PER_PAYLOAD = 16"
definition MAX_CONSOLIDATION_REQUESTS_PER_PAYLOAD :: nat where "MAX_CONSOLIDATION_REQUESTS_PER_PAYLOAD = 2"
definition MAX_BYTES_PER_TRANSACTION :: nat where "MAX_BYTES_PER_TRANSACTION = 2 ^ 30"
definition MAX_TRANSACTIONS_PER_PAYLOAD :: nat where "MAX_TRANSACTIONS_PER_PAYLOAD = 2 ^ 20"
definition MAX_WITHDRAWALS_PER_PAYLOAD :: nat where "MAX_WITHDRAWALS_PER_PAYLOAD = 16"
definition EXECUTION_PAYLOAD_FIELD_INDEX :: nat where "EXECUTION_PAYLOAD_FIELD_INDEX = 9"
definition BEACON_BLOCK_BODY_DEPTH :: nat where "BEACON_BLOCK_BODY_DEPTH = bitlen (next_pow2 13) - 1"

record attestation_data =
  ad_slot :: nat
  ad_index :: nat
  ad_beacon_block_root :: bytes
  ad_source :: checkpoint
  ad_target :: checkpoint

definition attestation_data_htr :: "(bytes \<Rightarrow> bytes) \<Rightarrow> attestation_data \<Rightarrow> bytes py" where
  "attestation_data_htr H d = htr_fields H
     [le_pad32 (ad_slot d) 8, le_pad32 (ad_index d) 8, Inr (ad_beacon_block_root d), checkpoint_htr H (ad_source d),
      checkpoint_htr H (ad_target d)]"

record attestation =
  at_aggregation_bits :: bytes
  at_data :: attestation_data
  at_signature :: bytes
  at_committee_bits :: bytes

definition attestation_htr :: "(bytes \<Rightarrow> bytes) \<Rightarrow> attestation \<Rightarrow> bytes py" where
  "attestation_htr H a = htr_fields H
     [bitlist_htr H (at_aggregation_bits a) AGGREGATION_BITS_LIMIT, attestation_data_htr H (at_data a),
      bls_signature_root H (at_signature a), bitvector_htr H (at_committee_bits a) MAX_COMMITTEES_PER_SLOT]"

definition htr_attestations_list :: "(bytes \<Rightarrow> bytes) \<Rightarrow> attestation list \<Rightarrow> bytes py" where
  "htr_attestations_list H as = list_htr H (attestation_htr H) as MAX_ATTESTATIONS_ELECTRA"

record deposit =
  de_proof :: "bytes list"
  de_pubkey :: bytes
  de_withdrawal_credentials :: bytes
  de_amount :: nat
  de_signature :: bytes

definition deposit_data_htr :: "(bytes \<Rightarrow> bytes) \<Rightarrow> deposit \<Rightarrow> bytes py" where
  "deposit_data_htr H d = htr_fields H
     [bls_pubkey_root H (de_pubkey d), Inr (de_withdrawal_credentials d), le_pad32 (de_amount d) 8,
      bls_signature_root H (de_signature d)]"

definition deposit_htr :: "(bytes \<Rightarrow> bytes) \<Rightarrow> deposit \<Rightarrow> bytes py" where
  "deposit_htr H d =
     require (length (de_proof d) = 33) AssertionError (
     htr_fields H [htr_bytes32_vector_fixed H (de_proof d) 33, deposit_data_htr H d])"

definition htr_deposits_list :: "(bytes \<Rightarrow> bytes) \<Rightarrow> deposit list \<Rightarrow> bytes py" where
  "htr_deposits_list H ds = list_htr H (deposit_htr H) ds MAX_DEPOSITS"

record signed_header =
  sh_message :: json_header
  sh_signature :: bytes

definition signed_beacon_block_header_htr :: "(bytes \<Rightarrow> bytes) \<Rightarrow> signed_header \<Rightarrow> bytes py" where
  "signed_beacon_block_header_htr H sh = htr_fields H
     [header_fields_htr H (sh_message sh), bls_signature_root H (sh_signature sh)]"

record proposer_slashing =
  ps_signed_header_1 :: signed_header
  ps_signed_header_2 :: signed_header

definition proposer_slashing_htr :: "(bytes \<Rightarrow> bytes) \<Rightarrow> proposer_slashing \<Rightarrow> bytes py" where
  "proposer_slashing_htr H ps = htr_fields H
     [signed_beacon_block_header_htr H (ps_signed_header_1 ps), signed_beacon_block_header_htr H (ps_signed_header_2 ps)]"

definition htr_proposer_slashings_list :: "(bytes \<Rightarrow> bytes) \<Rightarrow> proposer_slashing list \<Rightarrow> bytes py" where
  "htr_proposer_slashings_list H items = list_htr H (proposer_slashing_htr H) items MAX_PROPOSER_SLASHINGS"

record indexed_attestation =
  ia_attesting_indices :: "nat list"
  ia_data :: attestation_data
  ia_signature :: bytes

definition indexed_attestation_htr :: "(bytes \<Rightarrow> bytes) \<Rightarrow> indexed_attestation \<Rightarrow> bytes py" where
  "indexed_attestation_htr H ia = htr_fields H
     [htr_uint64_list H (ia_attesting_indices ia) AGGREGATION_BITS_LIMIT, attestation_data_htr H (ia_data ia),
      bls_signature_root H (ia_signature ia)]"

record attester_slashing =
  as_attestation_1 :: indexed_attestation
  as_attestation_2 :: indexed_attestation

definition attester_slashing_htr :: "(bytes \<Rightarrow> bytes) \<Rightarrow> attester_slashing \<Rightarrow> bytes py" where
  "attester_slashing_htr H a = htr_fields H
     [indexed_attestation_htr H (as_attestation_1 a), indexed_attestation_htr H (as_attestation_2 a)]"

definition htr_attester_slashings_list :: "(bytes \<Rightarrow> bytes) \<Rightarrow> attester_slashing list \<Rightarrow> bytes py" where
  "htr_attester_slashings_list H items = list_htr H (attester_slashing_htr H) items MAX_ATTESTER_SLASHINGS_ELECTRA"

record signed_voluntary_exit =
  ve_epoch :: nat
  ve_validator_index :: nat
  ve_signature :: bytes

definition voluntary_exit_htr :: "(bytes \<Rightarrow> bytes) \<Rightarrow> signed_voluntary_exit \<Rightarrow> bytes py" where
  "voluntary_exit_htr H ve = htr_fields H [le_pad32 (ve_epoch ve) 8, le_pad32 (ve_validator_index ve) 8]"

definition signed_voluntary_exit_htr :: "(bytes \<Rightarrow> bytes) \<Rightarrow> signed_voluntary_exit \<Rightarrow> bytes py" where
  "signed_voluntary_exit_htr H sve = htr_fields H [voluntary_exit_htr H sve, bls_signature_root H (ve_signature sve)]"

definition htr_voluntary_exits_list :: "(bytes \<Rightarrow> bytes) \<Rightarrow> signed_voluntary_exit list \<Rightarrow> bytes py" where
  "htr_voluntary_exits_list H items = list_htr H (signed_voluntary_exit_htr H) items MAX_VOLUNTARY_EXITS"

record signed_bls_change =
  bc_validator_index :: nat
  bc_from_bls_pubkey :: bytes
  bc_to_execution_address :: bytes
  bc_signature :: bytes

definition bls_to_execution_change_htr :: "(bytes \<Rightarrow> bytes) \<Rightarrow> signed_bls_change \<Rightarrow> bytes py" where
  "bls_to_execution_change_htr H c = htr_fields H
     [le_pad32 (bc_validator_index c) 8, bls_pubkey_root H (bc_from_bls_pubkey c), Inr (ljust0 32 (bc_to_execution_address c))]"

definition signed_bls_to_execution_change_htr :: "(bytes \<Rightarrow> bytes) \<Rightarrow> signed_bls_change \<Rightarrow> bytes py" where
  "signed_bls_to_execution_change_htr H sc = htr_fields H
     [bls_to_execution_change_htr H sc, bls_signature_root H (bc_signature sc)]"

definition htr_bls_to_execution_changes_list :: "(bytes \<Rightarrow> bytes) \<Rightarrow> signed_bls_change list \<Rightarrow> bytes py" where
  "htr_bls_to_execution_changes_list H items =
     list_htr H (signed_bls_to_execution_change_htr H) items MAX_BLS_TO_EXECUTION_CHANGES"

definition htr_blob_kzg_commitments_list :: "(bytes \<Rightarrow> bytes) \<Rightarrow> bytes list \<Rightarrow> bytes py" where
  "htr_blob_kzg_commitments_list H cs = list_htr H (bls_pubkey_root H) cs MAX_BLOB_COMMITMENTS_PER_BLOCK"

record deposit_request =
  dr_pubkey :: bytes
  dr_withdrawal_credentials :: bytes
  dr_amount :: nat
  dr_signature :: bytes
  dr_index :: nat

definition deposit_request_htr :: "(bytes \<Rightarrow> bytes) \<Rightarrow> deposit_request \<Rightarrow> bytes py" where
  "deposit_request_htr H d = htr_fields H
     [bls_pubkey_root H (dr_pubkey d), Inr (dr_withdrawal_credentials d), le_pad32 (dr_amount d) 8,
      bls_signature_root H (dr_signature d), le_pad32 (dr_index d) 8]"

record withdrawal_request =
  wr_source_address :: bytes
  wr_validator_pubkey :: bytes
  wr_amount :: nat

definition withdrawal_request_htr :: "(bytes \<Rightarrow> bytes) \<Rightarrow> withdrawal_request \<Rightarrow> bytes py" where
  "withdrawal_request_htr H d = htr_fields H
     [Inr (ljust0 32 (wr_source_address d)), bls_pubkey_root H (wr_validator_pubkey d), le_pad32 (wr_amount d) 8]"

record consolidation_request =
  cr_source_address :: bytes
  cr_source_pubkey :: bytes
  cr_target_pubkey :: bytes

definition consolidation_request_htr :: "(bytes \<Rightarrow> bytes) \<Rightarrow> consolidation_request \<Rightarrow> bytes py" where
  "consolidation_request_htr H d = htr_fields H
     [Inr (ljust0 32 (cr_source_address d)), bls_pubkey_root H (cr_source_pubkey d), bls_pubkey_root H (cr_target_pubkey d)]"

record execution_requests =
  er_deposits :: "deposit_request list"
  er_withdrawals :: "withdrawal_request list"
  er_consolidations :: "consolidation_request list"

definition execution_requests_htr :: "(bytes \<Rightarrow> bytes) \<Rightarrow> execution_requests \<Rightarrow> bytes py" where
  "execution_requests_htr H er = htr_fields H
     [list_htr H (deposit_request_htr H) (er_deposits er) MAX_DEPOSIT_REQUESTS_PER_PAYLOAD,
      list_htr H (withdrawal_request_htr H) (er_withdrawals er) MAX_WITHDRAWAL_REQUESTS_PER_PAYLOAD,
      list_htr H (consolidation_request_htr H) (er_consolidations er) MAX_CONSOLIDATION_REQUESTS_PER_PAYLOAD]"

record sync_aggregate =
  sa_sync_committee_bits :: bytes
  sa_sync_committee_signature :: bytes

definition sync_aggregate_htr :: "(bytes \<Rightarrow> bytes) \<Rightarrow> sync_aggregate \<Rightarrow> bytes py" where
  "sync_aggregate_htr H sa = htr_fields H
     [bitvector_htr H (sa_sync_committee_bits sa) REL_SYNC_COMMITTEE_SIZE, bls_signature_root H (sa_sync_committee_signature sa)]"

section \<open>The full payload\<close>

definition transaction_htr :: "(bytes \<Rightarrow> bytes) \<Rightarrow> bytes \<Rightarrow> bytes py" where
  "transaction_htr H tx =
     rbind (merkleize_with_limit H (padded_chunks tx) (next_pow2 ((MAX_BYTES_PER_TRANSACTION + 31) div 32))) (\<lambda>root.
     rel_mix_in_length H root (length tx))"

definition transactions_root :: "(bytes \<Rightarrow> bytes) \<Rightarrow> bytes list \<Rightarrow> bytes py" where
  "transactions_root H txs = list_htr H (transaction_htr H) txs MAX_TRANSACTIONS_PER_PAYLOAD"

record withdrawal =
  wd_index :: nat
  wd_validator_index :: nat
  wd_address :: bytes
  wd_amount :: nat

definition withdrawal_htr :: "(bytes \<Rightarrow> bytes) \<Rightarrow> withdrawal \<Rightarrow> bytes py" where
  "withdrawal_htr H w = htr_fields H
     [le_pad32 (wd_index w) 8, le_pad32 (wd_validator_index w) 8, Inr (ljust0 32 (wd_address w)), le_pad32 (wd_amount w) 8]"

definition withdrawals_root :: "(bytes \<Rightarrow> bytes) \<Rightarrow> withdrawal list \<Rightarrow> bytes py" where
  "withdrawals_root H ws = list_htr H (withdrawal_htr H) ws MAX_WITHDRAWALS_PER_PAYLOAD"

text \<open>A full payload: the header's fields, with the two lists in place of their roots.\<close>

record full_payload =
  fp_header :: payload_header
  fp_transactions :: "bytes list"
  fp_withdrawals :: "withdrawal list"

definition full_payload_leaves :: "(bytes \<Rightarrow> bytes) \<Rightarrow> full_payload \<Rightarrow> bytes py list" where
  "full_payload_leaves H p =
     (payload_leaves H (fp_header p))[13 := transactions_root H (fp_transactions p), 14 := withdrawals_root H (fp_withdrawals p)]"

definition build_full_execution_payload_tree :: "(bytes \<Rightarrow> bytes) \<Rightarrow> full_payload \<Rightarrow> (bytes \<times> bytes list list) py" where
  "build_full_execution_payload_tree H payload =
     rbind (py_seq (full_payload_leaves H payload)) (\<lambda>leaves.
     rbind (tree_layers H (leaves @ replicate (32 - 17) ZERO_CHUNK)) (\<lambda>layers.
     rbind (py_head (last layers)) (\<lambda>root. Inr (root, layers))))"

section \<open>The block body\<close>

record block_body =
  bb_randao_reveal :: bytes
  bb_eth1_data :: eth1data
  bb_graffiti :: bytes
  bb_proposer_slashings :: "proposer_slashing list"
  bb_attester_slashings :: "attester_slashing list"
  bb_attestations :: "attestation list"
  bb_deposits :: "deposit list"
  bb_voluntary_exits :: "signed_voluntary_exit list"
  bb_sync_aggregate :: sync_aggregate
  bb_execution_payload :: full_payload
  bb_bls_to_execution_changes :: "signed_bls_change list"
  bb_blob_kzg_commitments :: "bytes list"
  bb_execution_requests :: execution_requests

definition body_fields :: "(bytes \<Rightarrow> bytes) \<Rightarrow> block_body \<Rightarrow> bytes \<Rightarrow> bytes py list" where
  "body_fields H body execution_payload_root =
     [bls_signature_root H (bb_randao_reveal body), eth1data_htr H (bb_eth1_data body), Inr (bb_graffiti body),
      htr_proposer_slashings_list H (bb_proposer_slashings body), htr_attester_slashings_list H (bb_attester_slashings body),
      htr_attestations_list H (bb_attestations body), htr_deposits_list H (bb_deposits body),
      htr_voluntary_exits_list H (bb_voluntary_exits body), sync_aggregate_htr H (bb_sync_aggregate body),
      Inr execution_payload_root, htr_bls_to_execution_changes_list H (bb_bls_to_execution_changes body),
      htr_blob_kzg_commitments_list H (bb_blob_kzg_commitments body), execution_requests_htr H (bb_execution_requests body)]"

definition build_beacon_block_body_tree :: "(bytes \<Rightarrow> bytes) \<Rightarrow> block_body \<Rightarrow> bytes \<Rightarrow> (bytes \<times> bytes) py" where
  "build_beacon_block_body_tree H body execution_payload_root =
     rbind (py_seq (body_fields H body execution_payload_root)) (\<lambda>field_roots.
     require (\<forall>r\<in>set field_roots. length r = 32) AssertionError (
     rbind (tree_layers H (field_roots @ replicate (16 - 13) ZERO_CHUNK)) (\<lambda>layers.
     rbind (py_head (last layers)) (\<lambda>body_root.
     rbind (branch_for layers EXECUTION_PAYLOAD_FIELD_INDEX) (\<lambda>branch.
     require (length branch = BEACON_BLOCK_BODY_DEPTH * 32) AssertionError (Inr (body_root, branch)))))))"

end
