(* ===== verification/Rel_M8.thy ===== *)
theory Rel_M8
  imports Rel_Body
begin

text \<open>
  The anchor driver of the relayer, \<open>relayer/drivers/m8_anchor.py\<close>: the choice between direct and
  historical anchoring, the arguments it builds from the beacon API's data, and the boxes of a call.
  The three requests of the historical path are parameters: functions from a slot to decoded data.
\<close>

section \<open>Choice of the mode\<close>

definition WINDOW_SLOTS :: int where "WINDOW_SLOTS = 8192"

datatype anchor_mode = DIRECT | HISTORICAL

record anchor_plan_hint =
  hint_mode :: anchor_mode
  hint_t_slot :: int

definition choose_anchor_mode :: "bool \<Rightarrow> int \<Rightarrow> int \<Rightarrow> anchor_plan_hint py" where
  "choose_anchor_mode target_is_newest_finalized fin_slot t_slot =
     (if target_is_newest_finalized then Inr \<lparr>hint_mode = DIRECT, hint_t_slot = t_slot\<rparr>
      else if fin_slot - t_slot < WINDOW_SLOTS then Inr \<lparr>hint_mode = HISTORICAL, hint_t_slot = t_slot\<rparr>
      else Inl NotAnchorable)"

section \<open>Fixtures\<close>

definition from_bytes_le :: "bytes \<Rightarrow> nat" where "from_bytes_le b = be_val (rev b)"

record direct_fixture =
  df_fin_slot :: nat
  df_t_slot :: nat
  df_fin_header :: bytes
  df_el_state_root :: bytes
  df_el_receipts_root :: bytes
  df_el_block_number :: nat
  df_state_branch :: bytes
  df_receipts_branch :: bytes
  df_number_branch :: bytes
  df_g_state_root :: nat
  df_g_receipts_root :: nat
  df_g_block_number :: nat

definition build_direct_fixture :: "(bytes \<Rightarrow> bytes) \<Rightarrow> payload_header \<Rightarrow> bytes list \<Rightarrow> bytes \<Rightarrow> direct_fixture py" where
  "build_direct_fixture H payload execution_branch fin_header =
     rbind (deep_branch H payload execution_branch ''state_root'') (\<lambda>(state_branch, g_state).
     rbind (deep_branch H payload execution_branch ''receipts_root'') (\<lambda>(receipts_branch, g_receipts).
     rbind (deep_branch H payload execution_branch ''block_number'') (\<lambda>(number_branch, g_number).
     let fin_slot = from_bytes_le (seg 0 8 fin_header) in
     Inr \<lparr>df_fin_slot = fin_slot, df_t_slot = fin_slot, df_fin_header = fin_header,
       df_el_state_root = ph_state_root payload, df_el_receipts_root = ph_receipts_root payload,
       df_el_block_number = ph_block_number payload, df_state_branch = state_branch, df_receipts_branch = receipts_branch,
       df_number_branch = number_branch, df_g_state_root = g_state, df_g_receipts_root = g_receipts,
       df_g_block_number = g_number\<rparr>)))"

record historical_fixture =
  hf_fin_slot :: nat
  hf_t_slot :: int
  hf_fin_header :: bytes
  hf_fin_root :: bytes
  hf_target_header :: bytes
  hf_block_roots_branch :: bytes
  hf_g_block_roots_base_fulu :: nat
  hf_el_state_root :: bytes
  hf_el_receipts_root :: bytes
  hf_el_block_number :: nat
  hf_state_branch :: bytes
  hf_receipts_branch :: bytes
  hf_number_branch :: bytes

text \<open>The 112 bytes of a header message, as the fixture concatenates them.\<close>

definition header_message_bytes :: "json_header \<Rightarrow> bytes py" where
  "header_message_bytes hm =
     rbind (to_bytes_le 8 (jh_slot hm)) (\<lambda>slot. rbind (to_bytes_le 8 (jh_proposer_index hm)) (\<lambda>proposer_index.
     Inr (slot @ proposer_index @ jh_parent_root hm @ jh_state_root hm @ jh_body_root hm)))"

definition build_historical_fixture ::
  "(bytes \<Rightarrow> bytes) \<Rightarrow> (nat \<Rightarrow> beacon_state py) \<Rightarrow> (int \<Rightarrow> (json_header \<times> bytes) py) \<Rightarrow> (int \<Rightarrow> block_body py) \<Rightarrow>
   bytes \<Rightarrow> int \<Rightarrow> historical_fixture py" where
  "build_historical_fixture H fetch_state fetch_header fetch_body fin_header t_slot_offset =
     (let fin_slot = from_bytes_le (seg 0 8 fin_header); live_fin_state_root = seg 48 32 fin_header in
     rbind (rel_header_root H fin_header) (\<lambda>fin_root.
     let t_slot = int fin_slot - t_slot_offset in
     rbind (fetch_state fin_slot) (\<lambda>data.
     require (bs_slot data = fin_slot) AssertionError (
     rbind (build_beacon_state_tree H data) (\<lambda>(state_root, field_roots, block_roots_raw).
     require (state_root = live_fin_state_root) AssertionError (
     rbind (block_roots_fold_branch H field_roots block_roots_raw t_slot) (\<lambda>branch19.
     rbind (fetch_header t_slot) (\<lambda>(hm, api_root).
     rbind (header_message_bytes hm) (\<lambda>t_header_bytes.
     rbind (rel_header_root H t_header_bytes) (\<lambda>t_root.
     require (t_root = api_root) AssertionError (
     rbind (py_nth block_roots_raw (nat (t_slot mod 8192))) (\<lambda>entry.
     require (entry = t_root) AssertionError (
     rbind (fetch_body t_slot) (\<lambda>tbody.
     let tpayload = bb_execution_payload tbody in
     rbind (build_full_execution_payload_tree H tpayload) (\<lambda>(payload_root, layers).
     rbind (build_beacon_block_body_tree H tbody payload_root) (\<lambda>(body_root, branch4).
     require (body_root = seg 80 32 t_header_bytes) AssertionError (
     rbind (rbind (FIELD_INDEX ''state_root'') (branch_for layers)) (\<lambda>state_branch.
     rbind (rbind (FIELD_INDEX ''receipts_root'') (branch_for layers)) (\<lambda>receipts_branch.
     rbind (rbind (FIELD_INDEX ''block_number'') (branch_for layers)) (\<lambda>number_branch.
     Inr \<lparr>hf_fin_slot = fin_slot, hf_t_slot = t_slot, hf_fin_header = fin_header, hf_fin_root = fin_root,
       hf_target_header = t_header_bytes, hf_block_roots_branch = branch19,
       hf_g_block_roots_base_fulu = G_BLOCK_ROOTS_BASE_FULU, hf_el_state_root = ph_state_root (fp_header tpayload),
       hf_el_receipts_root = ph_receipts_root (fp_header tpayload), hf_el_block_number = ph_block_number (fp_header tpayload),
       hf_state_branch = state_branch @ branch4, hf_receipts_branch = receipts_branch @ branch4,
       hf_number_branch = number_branch @ branch4\<rparr>))))))))))))))))))))"

section \<open>Boxes of a call\<close>

definition rel_ring_box_name :: "nat \<Rightarrow> bytes py" where
  "rel_ring_box_name residue = rbind (to_bytes_be 8 residue) (\<lambda>b. Inr ([0x68, 0x3a] @ b))"

definition rel_pin_box_name :: "nat \<Rightarrow> bytes py" where
  "rel_pin_box_name block_number = rbind (to_bytes_be 8 block_number) (\<lambda>b. Inr ([0x70, 0x3a] @ b))"

definition auto_boxes_for :: "string \<Rightarrow> nat \<Rightarrow> nat \<Rightarrow> (nat \<times> bytes) list py" where
  "auto_boxes_for method_name block_number ring_n =
     (let residue = nat (and (int block_number) (int ring_n - 1)) in
     rbind (rel_ring_box_name residue) (\<lambda>ring.
     if method_name = ''pin'' \<or> method_name = ''unpin'' then
       rbind (rel_pin_box_name block_number) (\<lambda>pin. Inr [(0, ring), (0, pin)])
     else Inr [(0, ring)]))"

end
