(* ===== verification/Rel_Fixture.thy ===== *)
theory Rel_Fixture
  imports Rel_M8 Anchor_Inv SC_Session
begin

text \<open>
  The relayer's branches against the contract's folds: the siblings of a leaf in a tree whose root is a
  leaf of a second tree, concatenated, are a branch the anchor accepts at the composed index.
\<close>

section \<open>A branch through two trees\<close>

lemma bitlen_unique: "2 ^ d \<le> g \<Longrightarrow> g < 2 ^ Suc d \<Longrightarrow> bitlen g = Suc d"
proof (induction d arbitrary: g)
  case 0
  then have "g = 1" by simp
  then show ?case by (simp add: bitlen_pos)
next
  case (Suc d)
  then have "2 ^ d \<le> g div 2" "g div 2 < 2 ^ Suc d" "0 < g" by (auto simp: Suc_le_eq)
  then show ?case using Suc.IH [of "g div 2"] by (simp add: bitlen_pos)
qed

lemma composed_index:
  assumes "p1 < 2 ^ a" and "p2 < 2 ^ b"
  defines "g \<equiv> (2 ^ b + p2) * 2 ^ a + p1"
  shows "bitlen g = Suc (a + b)" and "g mod 2 ^ a = p1" and "g div 2 ^ a = 2 ^ b + p2" and "1 \<le> g"
proof -
  have "2 ^ (a + b) \<le> g" unfolding g_def power_add by (simp add: algebra_simps)
  moreover have "g < 2 ^ Suc (a + b)"
  proof -
    have "g < (2 ^ b + p2 + 1) * 2 ^ a" using assms(1) by (simp add: g_def)
    also have "\<dots> \<le> (2 ^ b + 2 ^ b) * 2 ^ a" by (rule mult_le_mono1) (use assms(2) in linarith)
    also have "\<dots> = 2 ^ Suc (a + b)" by (simp add: power_add)
    finally show ?thesis .
  qed
  ultimately show "bitlen g = Suc (a + b)" by (rule bitlen_unique)
  show "g mod 2 ^ a = p1" "g div 2 ^ a = 2 ^ b + p2" using assms(1) by (simp_all add: g_def)
  show "1 \<le> g" using \<open>2 ^ (a + b) \<le> g\<close> one_le_power [of "2::nat" "a + b"] by linarith
qed

lemma folds_two:
  assumes H: "\<And>x. length (H x) = 32"
    and c1: "length cur1 = 2 ^ a" "p1 < 2 ^ a" and c2: "length cur2 = 2 ^ b" "p2 < 2 ^ b" and ab: "a + b \<le> 61"
    and link: "cur2 ! p2 = chunk_root H a cur1" and leaf: "length (cur1 ! p1) = 32" and root: "length (chunk_root H b cur2) = 32"
    and sibs: "\<forall>s\<in>set (layer_sibs H a cur1 p1 @ layer_sibs H b cur2 p2). length s = 32"
  shows "folds_to H (cur1 ! p1) (concat (layer_sibs H a cur1 p1) @ concat (layer_sibs H b cur2 p2))
    ((2 ^ b + p2) * 2 ^ a + p1) (chunk_root H b cur2)"
proof -
  let ?g = "(2 ^ b + p2) * 2 ^ a + p1" and ?s1 = "layer_sibs H a cur1 p1" and ?s2 = "layer_sibs H b cur2 p2"
  note g = composed_index [OF c1(2) c2(2)]
  have d: "gdepth ?g = length (?s1 @ ?s2)" by (simp add: gdepth_def g(1))
  have "fold_sibs H (cur1 ! p1) ?s1 ?g = fold_sibs H (cur1 ! p1) ?s1 (2 ^ a + p1)"
    using c1(2) by (intro fold_sibs_low) (simp add: g(2))
  then have "fold_sibs H (cur1 ! p1) (?s1 @ ?s2) ?g = chunk_root H b cur2"
    using fold_layer_sibs [OF c1, of H] fold_layer_sibs [OF c2, of H] by (simp add: fold_sibs_append g(3) link)
  moreover have "chunks32 (concat (?s1 @ ?s2)) (length (?s1 @ ?s2)) = ?s1 @ ?s2" by (rule chunks32_concat [OF sibs])
  moreover have "length (concat (?s1 @ ?s2)) = 32 * length (?s1 @ ?s2)" by (rule concat_len32 [OF sibs])
  ultimately show ?thesis unfolding folds_to_def
    using leaf root g(1,4) ab by (simp only: d concat_append) (simp add: bitlen_pow2)
qed

text \<open>One concatenation of the right length has only 32-byte siblings.\<close>

lemma sibs_of_length:
  assumes H: "\<And>x. length (H x) = 32" and "length cur = 2 ^ d" "pos < 2 ^ d" "length (concat (layer_sibs H d cur pos)) = 32 * d"
  shows "\<forall>s\<in>set (layer_sibs H d cur pos). length s = 32"
proof (cases d)
  case (Suc e)
  have p: "\<forall>c\<in>set (pair_hash H cur). length c = 32" using H by (auto simp: in_set_conv_nth nth_pair_hash)
  have l: "length (pair_hash H cur) = 2 ^ e" "pos div 2 < 2 ^ e" using assms(2,3) Suc by simp_all
  have up: "\<forall>s\<in>set (layer_sibs H e (pair_hash H cur) (pos div 2)). length s = 32"
    using layer_sibs_32 [where H = H, OF H l p] by blast
  then have "length (concat (layer_sibs H e (pair_hash H cur) (pos div 2))) = 32 * e"
    using concat_len32 [OF up] by simp
  then show ?thesis using assms(4) up by (simp add: Suc)
qed simp

section \<open>The relayer's trees\<close>

lemma full_tree:
  assumes t: "tree_layers H padded = Inr layers" and l: "length padded = 2 ^ d"
  shows "layers = ref_layers H d padded" and "py_head (last layers) = Inr r \<longleftrightarrow> r = chunk_root H d padded"
    and "pos < 2 ^ d \<Longrightarrow> branch_from (butlast layers) pos = Inr (concat (layer_sibs H d padded pos))"
proof -
  show e: "layers = ref_layers H d padded" using t tree_layers_full [OF l, of H] by simp
  show "py_head (last layers) = Inr r \<longleftrightarrow> r = chunk_root H d padded"
    by (auto simp: e last_ref_layers [OF l] py_head_def require_def)
  show "branch_from (butlast layers) pos = Inr (concat (layer_sibs H d padded pos))" if "pos < 2 ^ d"
    unfolding e by (rule branch_from_full [OF l that])
qed

lemma field_indices: "FIELD_INDEX ''state_root'' = Inr 2" "FIELD_INDEX ''receipts_root'' = Inr 3" "FIELD_INDEX ''block_number'' = Inr 6"
  by (simp_all add: FIELD_INDEX_def FIELD_NAMES_def upt_rec)

text \<open>A payload whose hashes have 32 bytes and whose fee recipient has at most 32.\<close>

definition payload_ok :: "payload_header \<Rightarrow> bool" where
  "payload_ok h \<longleftrightarrow> length (ph_parent_hash h) = 32 \<and> length (ph_fee_recipient h) \<le> 32 \<and> length (ph_state_root h) = 32 \<and>
     length (ph_receipts_root h) = 32 \<and> length (ph_prev_randao h) = 32 \<and> length (ph_block_hash h) = 32"

section \<open>Leaves\<close>

text \<open>\<open>cur\<close> are the leaves of a full tree with this root, whose branches \<open>layers\<close> gives.\<close>

definition tree_of :: "(bytes \<Rightarrow> bytes) \<Rightarrow> nat \<Rightarrow> bytes list \<Rightarrow> bytes \<Rightarrow> bytes list list \<Rightarrow> bool" where
  "tree_of H d cur root layers \<longleftrightarrow> length cur = 2 ^ d \<and> (\<forall>c\<in>set cur. length c = 32) \<and> root = chunk_root H d cur \<and>
     (\<forall>pos<2 ^ d. branch_for layers pos = Inr (concat (layer_sibs H d cur pos)))"

lemma tree_of_layers:
  assumes "tree_layers H cur = Inr layers" and "length cur = 2 ^ d" and "\<forall>c\<in>set cur. length c = 32"
    and "py_head (last layers) = Inr root"
  shows "tree_of H d cur root layers"
  using full_tree [OF assms(1,2)] assms by (simp add: tree_of_def branch_for_def)

lemma length_root: "(\<And>x. length (H x) = 32) \<Longrightarrow> 0 < d \<Longrightarrow> length (chunk_root H d cur) = 32"
  by (cases d) simp_all

lemma py_seq_nth: "py_seq ms = Inr xs \<Longrightarrow> length xs = length ms \<and> (\<forall>i<length ms. ms ! i = Inr (xs ! i))"
  by (auto simp: py_seq_ok)

lemma py_seq_set: "py_seq ms = Inr xs \<Longrightarrow> x \<in> set xs \<Longrightarrow> Inr x \<in> set ms"
  by (auto simp: py_seq_ok)

lemma length_le_pad32: "le_pad32 v 8 = Inr b \<Longrightarrow> length b = 32"
  by (auto simp: le_pad32_def res_simps)

lemma length_exact_root:
  assumes H: "\<And>x. length (H x) = 32" and "2 \<le> length cs" and "merkleize_chunks_exact H cs = Inr r"
  shows "length r = 32"
proof -
  obtain k where k: "length cs \<le> 2 ^ k" "k = 0 \<or> 2 ^ (k - 1) < length cs" using next_pow2_ex by blast
  then obtain j where "k = Suc j" using assms(2) by (cases k) simp_all
  then show ?thesis using merkleize_exact_eq [OF k, of H] assms(3) H by auto
qed

lemma length_mix: "(\<And>x. length (H x) = 32) \<Longrightarrow> rel_mix_in_length H root n = Inr r \<Longrightarrow> length r = 32"
  by (auto simp: rel_mix_in_length_def res_simps)

lemma length_list_htr: "(\<And>x. length (H x) = 32) \<Longrightarrow> list_htr H f xs n = Inr r \<Longrightarrow> length r = 32"
  by (auto simp: list_htr_def htr_container_list_def res_simps dest: length_mix [where H = H, rotated])

lemma payload_leaves_32:
  assumes H: "\<And>x. length (H x) = 32" and ok: "payload_ok h" and s: "py_seq (payload_leaves H h) = Inr lv"
    and r: "length (ph_transactions_root h) = 32" "length (ph_withdrawals_root h) = 32"
  shows "\<forall>l\<in>set lv. length l = 32"
proof
  fix l
  assume "l \<in> set lv"
  from py_seq_set [OF s this] consider "l \<in> {ph_parent_hash h, ljust0 32 (ph_fee_recipient h), ph_state_root h,
      ph_receipts_root h, ph_prev_randao h, ph_block_hash h, ph_transactions_root h, ph_withdrawals_root h}"
    | "logs_bloom_root H (ph_logs_bloom h) = Inr l" | v where "le_pad32 v 8 = Inr l"
    | "extra_data_root H (ph_extra_data h) = Inr l" | "to_bytes_le 32 (ph_base_fee_per_gas h) = Inr l"
    by (auto simp: payload_leaves_def)
  then show "length l = 32"
  proof cases
    case 2
    then show ?thesis using length_exact_root [where H = H, OF H, of "map (\<lambda>i. seg (32 * i) 32 (ph_logs_bloom h)) [0..<8]" l]
      by (auto simp: logs_bloom_root_def res_simps)
  next
    case 4
    then show ?thesis by (auto simp: extra_data_root_def res_simps dest: length_mix [where H = H, OF H])
  qed (use ok r in \<open>auto simp: payload_ok_def length_le_pad32 res_simps\<close>)
qed

text \<open>The leaves of a full payload are those of its header with the roots of the two lists.\<close>

definition header_of_full :: "payload_header \<Rightarrow> bytes \<Rightarrow> bytes \<Rightarrow> payload_header" where
  "header_of_full h txs wds = h\<lparr>ph_transactions_root := txs, ph_withdrawals_root := wds\<rparr>"

lemma full_leaves_header:
  assumes "py_seq (full_payload_leaves H p) = Inr lv"
  obtains txs wds where "transactions_root H (fp_transactions p) = Inr txs" "withdrawals_root H (fp_withdrawals p) = Inr wds"
    "py_seq (payload_leaves H (header_of_full (fp_header p) txs wds)) = Inr lv"
proof -
  let ?l = "payload_leaves H (fp_header p)"
  have l: "length ?l = 17" by (simp add: payload_leaves_def)
  note n = py_seq_nth [OF assms]
  have "full_payload_leaves H p ! 13 = transactions_root H (fp_transactions p)"
      "full_payload_leaves H p ! 14 = withdrawals_root H (fp_withdrawals p)" "length (full_payload_leaves H p) = 17"
    using l by (simp_all add: full_payload_leaves_def)
  then have t: "transactions_root H (fp_transactions p) = Inr (lv ! 13)"
      "withdrawals_root H (fp_withdrawals p) = Inr (lv ! 14)"
    using n by simp_all
  have "payload_leaves H (header_of_full (fp_header p) (lv ! 13) (lv ! 14)) = full_payload_leaves H p"
    unfolding full_payload_leaves_def t by (simp add: payload_leaves_def header_of_full_def)
  from assms [folded this] show ?thesis by (rule that [OF t])
qed

lemma payload_leaf_values:
  assumes "py_seq (payload_leaves H h) = Inr lv"
  shows "length lv = 17" and "lv ! 2 = ph_state_root h" and "lv ! 3 = ph_receipts_root h"
    and "lv ! 6 = block_number_leaf (ph_block_number h)" and "ph_block_number h < uint64_limit"
proof -
  have l: "length (payload_leaves H h) = 17" by (simp add: payload_leaves_def)
  note n = py_seq_nth [OF assms]
  show "length lv = 17" using n l by simp
  have g: "payload_leaves H h ! 2 = Inr (ph_state_root h)" "payload_leaves H h ! 3 = Inr (ph_receipts_root h)"
    "payload_leaves H h ! 6 = le_pad32 (ph_block_number h) 8" by (simp_all add: payload_leaves_def)
  show "lv ! 2 = ph_state_root h" "lv ! 3 = ph_receipts_root h" using n g l by auto
  have "le_pad32 (ph_block_number h) 8 = Inr (lv ! 6)" using n g l by auto
  then show "lv ! 6 = block_number_leaf (ph_block_number h)" "ph_block_number h < uint64_limit"
    by (auto simp: le_pad32_def res_simps ljust0_def block_number_leaf_def le64_def itob_def uint64_limit_def)
qed

section \<open>The trees of the fixture\<close>

lemma pad_to: "length cs \<le> n \<Longrightarrow> length (cs @ replicate (n - length cs) ZERO_CHUNK) = n"
  by simp

lemma pad_32: "\<forall>c\<in>set cs. length c = 32 \<Longrightarrow> \<forall>c\<in>set (cs @ replicate m ZERO_CHUNK). length c = 32"
  by (auto simp: ZERO_CHUNK_def)

lemma full_payload_tree:
  assumes H: "\<And>x. length (H x) = 32" and b: "build_full_execution_payload_tree H p = Inr (root, layers)"
    and ok: "payload_ok (fp_header p)"
  obtains cur where "tree_of H 5 cur root layers" "cur ! 2 = ph_state_root (fp_header p)"
    "cur ! 3 = ph_receipts_root (fp_header p)" "cur ! 6 = block_number_leaf (ph_block_number (fp_header p))"
    "ph_block_number (fp_header p) < uint64_limit"
proof -
  from b obtain lv where s: "py_seq (full_payload_leaves H p) = Inr lv"
    and t: "tree_layers H (lv @ replicate 15 ZERO_CHUNK) = Inr layers" "py_head (last layers) = Inr root"
    by (auto simp: build_full_execution_payload_tree_def res_simps)
  obtain txs wds where r: "transactions_root H (fp_transactions p) = Inr txs" "withdrawals_root H (fp_withdrawals p) = Inr wds"
    and s': "py_seq (payload_leaves H (header_of_full (fp_header p) txs wds)) = Inr lv"
    by (rule full_leaves_header [OF s])
  note v = payload_leaf_values [OF s', unfolded header_of_full_def, simplified]
  have "length txs = 32" "length wds = 32"
    using r length_list_htr [where H = H, OF H] by (simp_all add: transactions_root_def withdrawals_root_def)
  moreover have "payload_ok (header_of_full (fp_header p) txs wds)"
    using ok by (simp add: header_of_full_def payload_ok_def)
  ultimately have "\<forall>l\<in>set lv. length l = 32"
    by (intro payload_leaves_32 [where H = H, OF H _ s']) (simp_all add: header_of_full_def)
  then have "tree_of H 5 (lv @ replicate 15 ZERO_CHUNK) root layers"
    by (intro tree_of_layers [OF t(1) _ pad_32 t(2)]) (simp_all add: v)
  then show ?thesis by (rule that) (simp_all add: nth_append v)
qed

lemma body_tree:
  assumes b: "build_beacon_block_body_tree H body pr = Inr (root, branch)"
  obtains cur layers where "tree_of H 4 cur root layers" "cur ! 9 = pr" "branch = concat (layer_sibs H 4 cur 9)"
proof -
  from b obtain fr layers where s: "py_seq (body_fields H body pr) = Inr fr" and l: "\<forall>r\<in>set fr. length r = 32"
    and t: "tree_layers H (fr @ replicate 3 ZERO_CHUNK) = Inr layers" "py_head (last layers) = Inr root"
    and br: "branch_for layers 9 = Inr branch"
    by (auto simp: build_beacon_block_body_tree_def res_simps EXECUTION_PAYLOAD_FIELD_INDEX_def)
  have "length (body_fields H body pr) = 13" "body_fields H body pr ! 9 = Inr pr" by (simp_all add: body_fields_def)
  then have n: "length fr = 13" "fr ! 9 = pr" using py_seq_nth [OF s] by auto
  have T: "tree_of H 4 (fr @ replicate 3 ZERO_CHUNK) root layers"
    by (rule tree_of_layers [OF t(1) _ pad_32 [OF l] t(2)]) (simp add: n)
  then have "branch = concat (layer_sibs H 4 (fr @ replicate 3 ZERO_CHUNK) 9)" using br by (simp add: tree_of_def)
  with T show ?thesis by (intro that) (simp_all add: nth_append n)
qed

lemma execution_field_folds:
  assumes H: "\<And>x. length (H x) = 32" and t1: "tree_of H 5 cur1 root1 layers1" and t2: "tree_of H 4 cur2 root2 layers2"
    and link: "cur2 ! 9 = root1" and pos: "pos < 32" and br: "branch_for layers1 pos = Inr b"
  shows "folds_to H (cur1 ! pos) (b @ concat (layer_sibs H 4 cur2 9)) (800 + pos) root2"
proof -
  have p: "pos < 2 ^ 5" "9 < (2::nat) ^ 4" using pos by simp_all
  note a = t1 [unfolded tree_of_def] t2 [unfolded tree_of_def]
  have l: "length (cur1 ! pos) = 32" using a(1) p by simp
  have s: "\<forall>s\<in>set (layer_sibs H 5 cur1 pos @ layer_sibs H 4 cur2 9). length s = 32"
    using layer_sibs_32 [where H = H, OF H conjunct1 [OF a(1)] p(1)] layer_sibs_32 [where H = H, OF H conjunct1 [OF a(2)] p(2)] a
    by auto
  have r: "length (chunk_root H 4 cur2) = 32" by (rule length_root [where H = H, OF H]) simp
  have b: "b = concat (layer_sibs H 5 cur1 pos)" using br a(1) p(1) by simp
  show ?thesis
    using folds_two [where H = H, OF H conjunct1 [OF a(1)] p(1) conjunct1 [OF a(2)] p(2) _ _ l r s] link a b by simp
qed

lemma state_tree:
  assumes b: "build_beacon_state_tree H d = Inr (root, fr, raw)"
  shows "length fr = 38" and "\<forall>r\<in>set fr. length r = 32" and "root = chunk_root H 6 (fr @ replicate 26 ZERO_CHUNK)"
    and "length raw = 8192" and "fr ! 5 = chunk_root H 13 raw"
proof -
  from b have s: "py_seq (state_fields H d) = Inr fr" and l: "\<forall>r\<in>set fr. length r = 32"
    and m: "merkleize_chunks_exact H fr = Inr root" and raw: "raw = bs_block_roots d"
    by (auto simp: build_beacon_state_tree_def res_simps)
  have n: "length (state_fields H d) = 38" by (simp add: state_fields_def)
  have f: "state_fields H d ! 5 =
      require (length (bs_block_roots d) = 8192) AssertionError (htr_bytes32_vector_fixed H (bs_block_roots d) 8192)"
    by (simp add: state_fields_def)
  show len: "length fr = 38" using py_seq_nth [OF s] n by simp
  show "\<forall>r\<in>set fr. length r = 32" by (rule l)
  have "merkleize_chunks_exact H fr = Inr (chunk_root H 6 fr)" by (rule merkleize_exact_eq) (simp_all add: len)
  then show "root = chunk_root H 6 (fr @ replicate 26 ZERO_CHUNK)"
    using m by (simp add: ZERO_CHUNK_zero32 chunk_root_pad del: chunk_root.simps)
  have "state_fields H d ! 5 = Inr (fr ! 5)" using py_seq_nth [OF s] n by simp
  then show r: "length raw = 8192" and "fr ! 5 = chunk_root H 13 raw"
    using next_pow2_eq [of 8192 13] merkleize_with_limit_eq [of raw 13 H]
    by (auto simp: f raw res_simps htr_bytes32_vector_fixed_def)
qed

lemma block_roots_folds:
  assumes H: "\<And>x. length (H x) = 32" and b: "build_beacon_state_tree H d = Inr (root, fr, raw)"
    and br: "block_roots_fold_branch H fr raw (int t) = Inr branch" and e: "py_nth raw (nat (int t mod 8192)) = Inr leaf"
    and leaf: "length leaf = 32"
  shows "folds_to H leaf branch (69 * 8192 + t mod 8192) root"
proof -
  note T = state_tree [OF b]
  let ?p = "t mod 8192" and ?c = "fr @ replicate 26 ZERO_CHUNK"
  have r: "nat (int t mod 8192) = ?p" by (simp add: nat_mod_as_int)
  have l: "length raw = 2 ^ 13" "?p < 2 ^ 13" "length ?c = 2 ^ 6" "5 < (2::nat) ^ 6" using T(1,4) by simp_all
  from br obtain ib ob where i: "branch_from (butlast (ref_layers H 13 raw)) ?p = Inr ib" "length ib = 32 * 13"
    and o: "branch_from (butlast (ref_layers H 6 ?c)) 5 = Inr ob" and bb: "branch = ib @ ob"
    by (auto simp: block_roots_fold_branch_def res_simps r Let_def tree_layers_full [OF l(1)] tree_layers_full [OF l(3)] T(1)
        BLOCK_ROOTS_FIELD_INDEX_def)
  have ib: "ib = concat (layer_sibs H 13 raw ?p)" and ob: "ob = concat (layer_sibs H 6 ?c 5)"
    using i(1) o branch_from_full [OF l(1,2), of H] branch_from_full [OF l(3,4), of H] by simp_all
  have s1: "\<forall>s\<in>set (layer_sibs H 13 raw ?p). length s = 32"
    by (rule sibs_of_length [where H = H, OF H l(1,2)]) (use i(2) ib in simp)
  have s2: "\<forall>s\<in>set (layer_sibs H 6 ?c 5). length s = 32"
    using layer_sibs_32 [where H = H, OF H l(3,4) pad_32 [OF T(2)]] by blast
  have q: "raw ! ?p = leaf" using e by (simp add: py_nth_def res_simps r)
  have c: "?c ! 5 = chunk_root H 13 raw" using T(1,5) by (simp add: nth_append)
  have rl: "length (chunk_root H 6 ?c) = 32" by (rule length_root [where H = H, OF H]) simp
  have s: "\<forall>s\<in>set (layer_sibs H 13 raw ?p @ layer_sibs H 6 ?c 5). length s = 32" using s1 s2 by auto
  have "folds_to H (raw ! ?p) (concat (layer_sibs H 13 raw ?p) @ concat (layer_sibs H 6 ?c 5))
      ((2 ^ 6 + 5) * 2 ^ 13 + ?p) (chunk_root H 6 ?c)"
    by (rule folds_two [where H = H, OF H l(1,2,3,4) _ c _ rl s]) (simp_all add: q leaf)
  moreover have "(2 ^ 6 + 5) * 2 ^ 13 + ?p = 69 * 8192 + ?p" by simp
  ultimately show ?thesis by (simp only: bb ib ob T(3) q)
qed

section \<open>Headers\<close>

lemma rel_header_root_eq: "rel_header_root H h = Inr r \<longleftrightarrow> length h = 112 \<and> r = tree_root H (header_tree h)"
  by (auto simp: rel_header_root_def res_simps Let_def header_tree_def zero32_def)

lemma message_slot:
  assumes "header_message_bytes hm = Inr t" and "length t = 112"
  shows "header_slot t = Inr (jh_slot hm)"
proof -
  from assms(1) have s: "jh_slot hm < 256 ^ 8" and t: "\<exists>r. t = rev (be_bytes 8 (jh_slot hm)) @ r"
    by (auto simp: header_message_bytes_def res_simps)
  from t have "seg 0 8 t = le64 (jh_slot hm)" by (auto simp: seg_def le64_def itob_def)
  then show ?thesis using s assms(2) by (simp add: header_slot_eq uint64_limit_def)
qed

section \<open>What a built fixture holds\<close>

lemma historical_fixture_parts:
  assumes H: "\<And>x. length (H x) = 32"
    and fixt: "build_historical_fixture H fetch_state fetch_header fetch_body fin_header off = Inr fx"
    and api: "\<And>t hm root. fetch_header t = Inr (hm, root) \<Longrightarrow> int (jh_slot hm) = t"
    and pay: "\<And>t body. fetch_body t = Inr body \<Longrightarrow> payload_ok (fp_header (bb_execution_payload body))"
  obtains ts where "hf_t_slot fx = int ts" "int ts = int (hf_fin_slot fx) - off" "hf_fin_header fx = fin_header"
    "length fin_header = 112" "hf_fin_root fx = tree_root H (header_tree fin_header)"
    "length (hf_target_header fx) = 112" "header_slot (hf_target_header fx) = Inr ts"
    "folds_to H (tree_root H (header_tree (hf_target_header fx))) (hf_block_roots_branch fx) (69 * 8192 + ts mod 8192)
       (seg 48 32 fin_header)"
    "folds_to H (hf_el_state_root fx) (hf_state_branch fx) 802 (seg 80 32 (hf_target_header fx))"
    "folds_to H (hf_el_receipts_root fx) (hf_receipts_branch fx) 803 (seg 80 32 (hf_target_header fx))"
    "folds_to H (block_number_leaf (hf_el_block_number fx)) (hf_number_branch fx) 806 (seg 80 32 (hf_target_header fx))"
    "hf_el_block_number fx < uint64_limit"
proof -
  define fin_slot where "fin_slot = from_bytes_le (seg 0 8 fin_header)"
  define t_slot where "t_slot = int fin_slot - off"
  from fixt obtain fin_root data fr raw branch19 hm api_root t t_root tbody proot layers body_root branch4 sb rb nb
    where p: "rel_header_root H fin_header = Inr fin_root"
      "build_beacon_state_tree H data = Inr (seg 48 32 fin_header, fr, raw)"
      "block_roots_fold_branch H fr raw t_slot = Inr branch19" "fetch_header t_slot = Inr (hm, t_root)"
      "header_message_bytes hm = Inr t" "rel_header_root H t = Inr t_root" "py_nth raw (nat (t_slot mod 8192)) = Inr t_root"
      "fetch_body t_slot = Inr tbody"
      "build_full_execution_payload_tree H (bb_execution_payload tbody) = Inr (proot, layers)"
      "build_beacon_block_body_tree H tbody proot = Inr (seg 80 32 t, branch4)"
      "branch_for layers 2 = Inr sb" "branch_for layers 3 = Inr rb" "branch_for layers 6 = Inr nb"
    and fx: "fx = \<lparr>hf_fin_slot = fin_slot, hf_t_slot = t_slot, hf_fin_header = fin_header, hf_fin_root = fin_root,
       hf_target_header = t, hf_block_roots_branch = branch19,
       hf_g_block_roots_base_fulu = G_BLOCK_ROOTS_BASE_FULU,
       hf_el_state_root = ph_state_root (fp_header (bb_execution_payload tbody)),
       hf_el_receipts_root = ph_receipts_root (fp_header (bb_execution_payload tbody)),
       hf_el_block_number = ph_block_number (fp_header (bb_execution_payload tbody)),
       hf_state_branch = sb @ branch4, hf_receipts_branch = rb @ branch4, hf_number_branch = nb @ branch4\<rparr>"
    unfolding fin_slot_def t_slot_def build_historical_fixture_def
    by (fastforce simp: res_simps Let_def field_indices)
  note hdr = p(1,6) [unfolded rel_header_root_eq]
  define ts where "ts = jh_slot hm"
  have ts: "t_slot = int ts" using api [OF p(4)] by (simp add: ts_def)
  obtain cur where c: "tree_of H 5 cur proot layers" "cur ! 2 = hf_el_state_root fx" "cur ! 3 = hf_el_receipts_root fx"
      "cur ! 6 = block_number_leaf (hf_el_block_number fx)" "hf_el_block_number fx < uint64_limit"
    using full_payload_tree [where H = H, OF H p(9) pay [OF p(8)]] unfolding fx by auto
  obtain cur2 layers2 where b: "tree_of H 4 cur2 (seg 80 32 t) layers2" "cur2 ! 9 = proot" "branch4 = concat (layer_sibs H 4 cur2 9)"
    by (rule body_tree [OF p(10)])
  note e = execution_field_folds [where H = H, OF H c(1) b(1,2), folded b(3)]
  show ?thesis
  proof (rule that [of ts])
    show "folds_to H (tree_root H (header_tree (hf_target_header fx))) (hf_block_roots_branch fx) (69 * 8192 + ts mod 8192)
       (seg 48 32 fin_header)"
      using block_roots_folds [where H = H, OF H p(2) p(3,7) [unfolded ts]] hdr(2) length_tree_root [OF wf_header_tree H]
      by (simp add: fx)
    show "header_slot (hf_target_header fx) = Inr ts" using message_slot [OF p(5)] hdr by (simp add: fx ts_def)
  qed (use e [OF _ p(11)] e [OF _ p(12)] e [OF _ p(13)] c hdr ts t_slot_def in \<open>simp_all add: fx\<close>)
qed

section \<open>The direct fixture\<close>

lemma branch_root_loop_eq:
  "branch_root_loop H branch g i k node = fold_sibs H node (chunks32 (drop (32 * i) branch) k) (g div 2 ^ i)"
proof (induction k arbitrary: i node)
  case (Suc k)
  have "and (drop_bit i g) 1 \<noteq> 0 \<longleftrightarrow> odd (g div 2 ^ i)" by (simp add: and_one_eq drop_bit_eq_div odd_iff_mod_2_eq_one)
  moreover have "g div 2 ^ Suc i = g div 2 ^ i div 2" by (simp flip: div_mult2_eq add: mult.commute)
  ultimately show ?case using Suc.IH [of "i + 1"] by (simp add: Let_def seg_def add.commute)
qed simp

lemma compute_branch_root_eq:
  "1 \<le> g \<Longrightarrow> compute_branch_root H leaf branch g = Inr r \<longleftrightarrow>
     length branch = 32 * gdepth g \<and> r = fold_sibs H leaf (chunks32 branch (gdepth g)) g"
proof -
  assume "1 \<le> g"
  then obtain b where "bitlen g = Suc b" using bitlen_ge1 [of g] by (cases "bitlen g") simp_all
  then show ?thesis by (auto simp: compute_branch_root_def gdepth_def res_simps branch_root_loop_eq)
qed

lemma length_fold_sibs: "(\<And>x. length (H x) = 32) \<Longrightarrow> length node = 32 \<Longrightarrow> length (fold_sibs H node ss g) = 32"
  by (induction ss arbitrary: node g) simp_all

lemma floor_layers_full: "length cur = 2 ^ d \<Longrightarrow> floor_layers H cur = ref_layers H d cur"
proof (induction d arbitrary: cur)
  case 0
  then show ?case by (simp add: floor_layers.simps)
next
  case (Suc d)
  show ?case using layers_step [OF Suc.prems, of H] Suc.IH [of "pair_hash H cur"] by (simp add: floor_layers.simps [of H cur])
qed

lemma header_payload_tree:
  assumes H: "\<And>x. length (H x) = 32" and b: "build_execution_payload_tree H h = Inr (root, layers)" and ok: "payload_ok h"
    and r: "length (ph_transactions_root h) = 32" "length (ph_withdrawals_root h) = 32"
  obtains cur where "tree_of H 5 cur root layers" "cur ! 2 = ph_state_root h" "cur ! 3 = ph_receipts_root h"
    "cur ! 6 = block_number_leaf (ph_block_number h)" "ph_block_number h < uint64_limit"
proof -
  from b obtain lv where s: "py_seq (payload_leaves H h) = Inr lv" and t: "build_tree H 5 lv = Inr (root, layers)"
    by (auto simp: build_execution_payload_tree_def res_simps EXECUTION_PAYLOAD_DEPTH_def)
  note v = payload_leaf_values [OF s]
  let ?cur = "lv @ replicate 15 ZERO_CHUNK"
  have l: "length ?cur = 2 ^ 5" using v by simp
  have "layers = floor_layers H ?cur" "py_head (last layers) = Inr root"
    using t v by (auto simp: build_tree_def res_simps Let_def ZERO_CHUNK_def)
  then have "tree_layers H ?cur = Inr layers" "py_head (last layers) = Inr root"
    using floor_layers_full [OF l, of H] tree_layers_full [OF l, of H] by simp_all
  then have "tree_of H 5 ?cur root layers"
    by (intro tree_of_layers l pad_32 payload_leaves_32 [where H = H, OF H ok s r])
  then show ?thesis by (rule that) (simp_all add: nth_append v)
qed

text \<open>A branch of the payload tree followed by any branch that folds the payload root.\<close>

lemma composed_branch_folds:
  assumes H: "\<And>x. length (H x) = 32" and t: "tree_of H d cur root layers" and pos: "pos < 2 ^ d"
    and b: "branch_for layers pos = Inr b" and outer: "folds_to H root ob g tgt" and g: "d + gdepth g \<le> 61"
  shows "folds_to H (cur ! pos) (b @ ob) (g * 2 ^ d + pos) tgt"
proof -
  note a = t [unfolded tree_of_def] and o = outer [unfolded folds_to_def]
  let ?e = "gdepth g" and ?s = "layer_sibs H d cur pos" and ?g = "g * 2 ^ d + pos"
  have b: "b = concat ?s" using b a pos by simp
  have s: "\<forall>s\<in>set ?s. length s = 32" using layer_sibs_32 [where H = H, OF H _ pos] a by blast
  have q: "\<forall>s\<in>set (chunks32 ob ?e). length s = 32" using chunks32_len o by blast
  have "bitlen g = Suc ?e" using o bitlen_ge1 [of g] by (simp add: gdepth_def)
  then have gq: "g = 2 ^ ?e + (g - 2 ^ ?e)" "g - 2 ^ ?e < 2 ^ ?e" using o bitlen_bounds [of g] by auto
  have gd: "gdepth ?g = d + ?e" "?g mod 2 ^ d = pos" "?g div 2 ^ d = g" "1 \<le> ?g"
    using composed_index [OF pos gq(2), folded gq(1)] by (simp_all add: gdepth_def)
  have ob: "ob = concat (chunks32 ob ?e)" using concat_chunks32 o by simp
  have c: "chunks32 (b @ ob) (d + ?e) = ?s @ chunks32 ob ?e"
    using chunks32_concat [of "?s @ chunks32 ob ?e"] s q by (simp add: b ob [symmetric] ball_Un)
  have "fold_sibs H (cur ! pos) ?s ?g = fold_sibs H (cur ! pos) ?s (2 ^ d + pos)"
    by (intro fold_sibs_low) (simp add: gd)
  then have "fold_sibs H (cur ! pos) (?s @ chunks32 ob ?e) ?g = tgt"
    using fold_layer_sibs [of cur d pos H] a pos o by (simp add: fold_sibs_append gd)
  moreover have "length (b @ ob) = 32 * (d + ?e)" using concat_len32 [OF s] o by (simp add: b)
  moreover have "length (cur ! pos) = 32" using a pos by simp
  moreover have "bitlen ?g \<le> 62" using gd(1,4) g by (simp add: gdepth_def)
  ultimately show ?thesis using o by (simp only: folds_to_def gd c)
qed

lemma direct_fixture_parts:
  assumes H: "\<And>x. length (H x) = 32" and fixt: "build_direct_fixture H payload eb fin_header = Inr fx"
    and ok: "payload_ok payload" "length (ph_transactions_root payload) = 32" "length (ph_withdrawals_root payload) = 32"
    and root: "build_execution_payload_tree H payload = Inr (proot, layers)"
    and outer: "compute_branch_root H proot (concat eb) 25 = Inr (seg 80 32 fin_header)"
  shows "df_fin_header fx = fin_header" "df_fin_slot fx = be_val (rev (seg 0 8 fin_header))"
    "df_g_state_root fx = 802" "df_g_receipts_root fx = 803" "df_g_block_number fx = 806"
    "length (df_el_state_root fx) = 32" "length (df_el_receipts_root fx) = 32" "df_el_block_number fx < uint64_limit"
    "folds_to H (df_el_state_root fx) (df_state_branch fx) 802 (seg 80 32 fin_header)"
    "folds_to H (df_el_receipts_root fx) (df_receipts_branch fx) 803 (seg 80 32 fin_header)"
    "folds_to H (block_number_leaf (df_el_block_number fx)) (df_number_branch fx) 806 (seg 80 32 fin_header)"
proof -
  from fixt root obtain sb rb nb where p: "branch_for layers 2 = Inr sb" "branch_for layers 3 = Inr rb" "branch_for layers 6 = Inr nb"
    and fx: "fx = \<lparr>df_fin_slot = be_val (rev (seg 0 8 fin_header)), df_t_slot = be_val (rev (seg 0 8 fin_header)),
       df_fin_header = fin_header, df_el_state_root = ph_state_root payload, df_el_receipts_root = ph_receipts_root payload,
       df_el_block_number = ph_block_number payload, df_state_branch = sb @ concat eb, df_receipts_branch = rb @ concat eb,
       df_number_branch = nb @ concat eb, df_g_state_root = 802, df_g_receipts_root = 803, df_g_block_number = 806\<rparr>"
    by (auto simp: build_direct_fixture_def deep_branch_def res_simps Let_def field_indices from_bytes_le_def
        EXECUTION_PAYLOAD_GINDEX_def EXECUTION_PAYLOAD_DEPTH_def)
  obtain cur where c: "tree_of H 5 cur proot layers" "cur ! 2 = ph_state_root payload" "cur ! 3 = ph_receipts_root payload"
      "cur ! 6 = block_number_leaf (ph_block_number payload)" "ph_block_number payload < uint64_limit"
    by (rule header_payload_tree [where H = H, OF H root ok])
  have l: "length proot = 32" using c(1) length_root [where H = H, OF H, of 5] by (simp add: tree_of_def)
  have d: "gdepth 25 = 4" "bitlen 25 = 5" by (simp_all add: gdepth_def bitlen.simps)
  have tgt: "length (seg 80 32 fin_header) = 32"
    using outer compute_branch_root_eq [of 25 H proot "concat eb"] d
      length_fold_sibs [where H = H, OF H l, of "chunks32 (concat eb) 4"] by simp
  have o: "folds_to H proot (concat eb) 25 (seg 80 32 fin_header)"
    using outer compute_branch_root_eq [of 25 H proot "concat eb"] l tgt by (simp add: folds_to_def d)
  note f = composed_branch_folds [where H = H, OF H c(1) _ _ o, unfolded d]
  show "folds_to H (df_el_state_root fx) (df_state_branch fx) 802 (seg 80 32 fin_header)"
    "folds_to H (df_el_receipts_root fx) (df_receipts_branch fx) 803 (seg 80 32 fin_header)"
    "folds_to H (block_number_leaf (df_el_block_number fx)) (df_number_branch fx) 806 (seg 80 32 fin_header)"
    using f [OF _ p(1)] f [OF _ p(2)] f [OF _ p(3)] c by (simp_all add: fx)
  show "df_fin_header fx = fin_header" "df_fin_slot fx = be_val (rev (seg 0 8 fin_header))" "df_g_state_root fx = 802"
    "df_g_receipts_root fx = 803" "df_g_block_number fx = 806" "length (df_el_state_root fx) = 32"
    "length (df_el_receipts_root fx) = 32" "df_el_block_number fx < uint64_limit"
    using ok c(5) by (simp_all add: fx payload_ok_def)
qed

section \<open>Fields of the state\<close>

lemma state_field_folds:
  assumes H: "\<And>x. length (H x) = 32" and st: "build_beacon_state_tree H d = Inr (root, fr, raw)" and i: "i < 38"
  shows "\<exists>branch. folds_to H (fr ! i) branch (2 ^ 6 + i) root"
proof -
  note T = state_tree [OF st]
  let ?c = "fr @ replicate 26 ZERO_CHUNK"
  have l: "length ?c = 2 ^ 6" "i < 2 ^ 6" using T(1) i by simp_all
  have s: "\<forall>s\<in>set (layer_sibs H 6 ?c i). length s = 32" using layer_sibs_32 [where H = H, OF H l pad_32 [OF T(2)]] by blast
  have d: "bitlen (2 ^ 6 + i) = 7" using bitlen_unique [of 6 "2 ^ 6 + i"] i by simp
  have c: "chunks32 (concat (layer_sibs H 6 ?c i)) 6 = layer_sibs H 6 ?c i" using chunks32_concat [OF s] by simp
  have "fold_sibs H (?c ! i) (layer_sibs H 6 ?c i) (2 ^ 6 + i) = root" using fold_layer_sibs [OF l, of H] T(3) by simp
  moreover have "?c ! i = fr ! i" "length (fr ! i) = 32" using T(1,2) i by (simp_all add: nth_append)
  moreover have "length root = 32" unfolding T(3) by (rule length_root [where H = H, OF H]) simp
  moreover have "length (concat (layer_sibs H 6 ?c i)) = 32 * 6" using concat_len32 [OF s] by simp
  ultimately have "folds_to H (fr ! i) (concat (layer_sibs H 6 ?c i)) (2 ^ 6 + i) root"
    by (simp only: folds_to_def gdepth_def d) (simp add: c [simplified])
  then show ?thesis by blast
qed

lemma committee_htr_root:
  assumes "sync_committee_htr H sc = Inr r"
  shows "r = committee_root H (jc_pubkeys sc) (jc_aggregate_pubkey sc)"
proof -
  from assms obtain ls pr ag where l: "py_seq (map (bls_pubkey_root H) (jc_pubkeys sc)) = Inr ls" "length ls = 512"
    and p: "htr_bytes32_vector_fixed H ls 512 = Inr pr" and a: "bls_pubkey_root H (jc_aggregate_pubkey sc) = Inr ag"
    and r: "merkleize_chunks_exact H [pr, ag] = Inr r"
    by (auto simp: sync_committee_htr_def res_simps REL_SYNC_COMMITTEE_SIZE_def)
  have "map Inr ls = map (bls_pubkey_root H) (jc_pubkeys sc)" using l(1) by (simp add: py_seq_ok)
  then have "ls = map (key_leaf H) (jc_pubkeys sc)"
    by (auto simp: list_eq_iff_nth_eq bls_pubkey_root_def key_leaf_def require_def split: if_splits)
  moreover have "pr = chunk_root H 9 ls"
    using p next_pow2_eq [of 512 9] merkleize_with_limit_eq [of ls 9 H] l(2) by (simp add: htr_bytes32_vector_fixed_def)
  moreover have "ag = key_leaf H (jc_aggregate_pubkey sc)" using a by (auto simp: bls_pubkey_root_def key_leaf_def res_simps)
  moreover have "r = H (pr @ ag)" using r merkleize_exact_eq [of "[pr, ag]" 1 H] by simp
  ultimately show ?thesis by (simp add: committee_root_def)
qed

lemma state_committees:
  assumes "build_beacon_state_tree H d = Inr (root, fr, raw)"
  shows "fr ! 22 = committee_root H (jc_pubkeys (bs_current_sync_committee d)) (jc_aggregate_pubkey (bs_current_sync_committee d))"
    and "fr ! 23 = committee_root H (jc_pubkeys (bs_next_sync_committee d)) (jc_aggregate_pubkey (bs_next_sync_committee d))"
    and "checkpoint_htr H (bs_finalized_checkpoint d) = Inr (fr ! 20)"
proof -
  from assms have s: "py_seq (state_fields H d) = Inr fr" by (auto simp: build_beacon_state_tree_def res_simps)
  have n: "length (state_fields H d) = 38" by (simp add: state_fields_def)
  have f: "state_fields H d ! 22 = sync_committee_htr H (bs_current_sync_committee d)"
    "state_fields H d ! 23 = sync_committee_htr H (bs_next_sync_committee d)"
    "state_fields H d ! 20 = checkpoint_htr H (bs_finalized_checkpoint d)" by (simp_all add: state_fields_def)
  have "sync_committee_htr H (bs_current_sync_committee d) = Inr (fr ! 22)"
    "sync_committee_htr H (bs_next_sync_committee d) = Inr (fr ! 23)"
    and c: "checkpoint_htr H (bs_finalized_checkpoint d) = Inr (fr ! 20)"
    using py_seq_nth [OF s, unfolded n, THEN conjunct2] f [symmetric] by simp_all
  then show "fr ! 22 = committee_root H (jc_pubkeys (bs_current_sync_committee d)) (jc_aggregate_pubkey (bs_current_sync_committee d))"
    "fr ! 23 = committee_root H (jc_pubkeys (bs_next_sync_committee d)) (jc_aggregate_pubkey (bs_next_sync_committee d))"
    "checkpoint_htr H (bs_finalized_checkpoint d) = Inr (fr ! 20)"
    using committee_htr_root by auto
qed

lemma checkpoint_folds:
  assumes H: "\<And>x. length (H x) = 32" and st: "build_beacon_state_tree H d = Inr (root, fr, raw)"
    and cp: "length (cp_root (bs_finalized_checkpoint d)) = 32"
  shows "\<exists>branch. folds_to H (cp_root (bs_finalized_checkpoint d)) branch ((2 ^ 6 + 20) * 2 + 1) root"
proof -
  note T = state_tree [OF st]
  let ?c = "fr @ replicate 26 ZERO_CHUNK" and ?r = "cp_root (bs_finalized_checkpoint d)"
  from state_committees(3) [OF st] obtain ep where e: "le_pad32 (cp_epoch (bs_finalized_checkpoint d)) 8 = Inr ep"
    and m: "merkleize_chunks_exact H [ep, ?r] = Inr (fr ! 20)" by (auto simp: checkpoint_htr_def htr_fields_def res_simps)
  have l: "length ?c = 2 ^ 6" "20 < (2::nat) ^ 6" using T(1) by simp_all
  have "fr ! 20 = chunk_root H 1 [ep, ?r]" using m merkleize_exact_eq [of "[ep, ?r]" 1 H] by simp
  then have link: "?c ! 20 = chunk_root H 1 [ep, ?r]" using T(1) by (simp add: nth_append)
  have sib: "layer_sibs H 1 [ep, ?r] 1 = [ep]" by (simp add: xor_one_if)
  have "\<forall>s\<in>set (layer_sibs H 1 [ep, ?r] 1 @ layer_sibs H 6 ?c 20). length s = 32"
    using layer_sibs_32 [where H = H, OF H l pad_32 [OF T(2)]] length_le_pad32 [OF e] by (auto simp: sib)
  from folds_two [where H = H, OF H _ _ l _ link _ _ this] cp length_root [where H = H, OF H, of 6 ?c] T(3)
  show ?thesis by (simp del: chunk_root.simps layer_sibs.simps) blast
qed

end
