(* ===== verification/Deploy_Forks.thy ===== *)
theory Deploy_Forks
  imports Rel_M8
begin

text \<open>
  The generator of fork rows, \<open>deploy/forks.py\<close>: every generalized index of a row of the two fork
  tables is computed from the field lists of the relayer's SSZ modules.
\<close>

section \<open>Field lists\<close>

definition FULU_FIELDS :: "string list" where
  "FULU_FIELDS =
     [''genesis_time'', ''genesis_validators_root'', ''slot'', ''fork'', ''latest_block_header'', ''block_roots'',
      ''state_roots'', ''historical_roots'', ''eth1_data'', ''eth1_data_votes'', ''eth1_deposit_index'', ''validators'',
      ''balances'', ''randao_mixes'', ''slashings'', ''previous_epoch_participation'', ''current_epoch_participation'',
      ''justification_bits'', ''previous_justified_checkpoint'', ''current_justified_checkpoint'',
      ''finalized_checkpoint'', ''inactivity_scores'', ''current_sync_committee'', ''next_sync_committee'',
      ''latest_execution_payload_header'', ''next_withdrawal_index'', ''next_withdrawal_validator_index'',
      ''historical_summaries'', ''deposit_requests_start_index'', ''deposit_balance_to_consume'',
      ''exit_balance_to_consume'', ''earliest_exit_epoch'', ''consolidation_balance_to_consume'',
      ''earliest_consolidation_epoch'', ''pending_deposits'', ''pending_partial_withdrawals'',
      ''pending_consolidations'', ''proposer_lookahead'']"

definition FORK_FIELD_COUNTS :: "string \<Rightarrow> nat option" where
  "FORK_FIELD_COUNTS = [''deneb'' \<mapsto> 28, ''electra'' \<mapsto> 37, ''fulu'' \<mapsto> 38]"

definition EXECUTION_BLOCK_HASH_GINDEX_DENEB :: nat where "EXECUTION_BLOCK_HASH_GINDEX_DENEB = 812"

text \<open>The loop of \<open>_next_pow2_depth\<close>; its variable \<open>size\<close> is \<open>2 ^ depth\<close>.\<close>

function depth_loop :: "nat \<Rightarrow> nat \<Rightarrow> nat" where
  "depth_loop n depth = (if 2 ^ depth < n then depth_loop n (depth + 1) else depth)"
  by pat_completeness auto
termination
proof (relation "measure (\<lambda>(n, depth). n - depth)")
  fix n depth :: nat
  assume "2 ^ depth < n"
  then have "depth < n" using less_exp [of depth] by linarith
  then show "((n, depth + 1), n, depth) \<in> measure (\<lambda>(n, depth). n - depth)" by simp
qed simp

declare depth_loop.simps [simp del]

definition next_pow2_depth :: "nat \<Rightarrow> nat" where
  "next_pow2_depth n = (if n \<le> 1 then 0 else depth_loop n 0)"

text \<open>\<open>str.lower\<close> on ASCII letters, and \<open>list.index\<close>.\<close>

definition lower_char :: "char \<Rightarrow> char" where
  "lower_char c = (if of_char c \<in> {65::nat..90} then char_of (of_char c + 32 :: nat) else c)"

definition py_index :: "'a list \<Rightarrow> 'a \<Rightarrow> nat py" where
  "py_index xs x = (case map_of (zip xs [0..<length xs]) x of None \<Rightarrow> Inl ValueError | Some i \<Rightarrow> Inr i)"

text \<open>An absent \<open>field_list\<close> is \<open>None\<close>.\<close>

definition fields_for :: "string \<Rightarrow> string list option \<Rightarrow> string list py" where
  "fields_for fork field_list =
     (case FORK_FIELD_COUNTS (map lower_char fork) of
        None \<Rightarrow> Inl ForkGindexError
      | Some n \<Rightarrow>
          let flds = (case field_list of Some fl \<Rightarrow> fl | None \<Rightarrow> FULU_FIELDS) in
          if length flds < n then Inl ForkGindexError else Inr (take n flds))"

section \<open>Rows\<close>

record M4ForkRow =
  r4_activation_epoch :: nat
  r4_fork_version :: bytes
  r4_finality_gindex :: nat
  r4_current_sc_gindex :: nat
  r4_next_sc_gindex :: nat

definition m4_fork_row :: "string \<Rightarrow> nat \<Rightarrow> bytes \<Rightarrow> string list option \<Rightarrow> M4ForkRow py" where
  "m4_fork_row fork activation_epoch fork_version field_list =
     require (length fork_version = 4) AssertionError (
     rbind (fields_for fork field_list) (\<lambda>flds.
     let depth = next_pow2_depth (length flds); base = 2 ^ depth in
     rbind (py_index flds ''finalized_checkpoint'') (\<lambda>finalized_checkpoint_idx.
     let finality_gindex = (base + finalized_checkpoint_idx) * 2 + 1 in
     rbind (py_index flds ''current_sync_committee'') (\<lambda>cur.
     rbind (py_index flds ''next_sync_committee'') (\<lambda>nxt.
     Inr \<lparr>r4_activation_epoch = activation_epoch, r4_fork_version = fork_version, r4_finality_gindex = finality_gindex,
       r4_current_sc_gindex = base + cur, r4_next_sc_gindex = base + nxt\<rparr>)))))"

record M8ForkRow =
  r8_activation_epoch :: nat
  r8_g_state_root :: nat
  r8_g_receipts_root :: nat
  r8_g_block_number :: nat
  r8_g_block_roots_base :: nat

definition M8ForkRow_as_tuple :: "M8ForkRow \<Rightarrow> nat \<times> nat \<times> nat \<times> nat \<times> nat" where
  "M8ForkRow_as_tuple r =
     (r8_activation_epoch r, r8_g_state_root r, r8_g_receipts_root r, r8_g_block_number r, r8_g_block_roots_base r)"

definition m8_fork_row :: "string \<Rightarrow> nat \<Rightarrow> string list option \<Rightarrow> (string \<Rightarrow> nat py) option \<Rightarrow> M8ForkRow py" where
  "m8_fork_row fork activation_epoch field_list field_index =
     rbind (fields_for fork field_list) (\<lambda>flds.
     let depth = next_pow2_depth (length flds); base = 2 ^ depth in
     rbind (py_index flds ''block_roots'') (\<lambda>i.
     let g_block_roots_base = base + i; idx = (case field_index of Some f \<Rightarrow> f | None \<Rightarrow> FIELD_INDEX);
         pow2 = 2 ^ EXECUTION_PAYLOAD_DEPTH;
         compose = (\<lambda>field_name. rbind (idx field_name) (\<lambda>j. Inr (EXECUTION_PAYLOAD_GINDEX * pow2 + j))) in
     rbind (compose ''block_hash'') (\<lambda>block_hash_check.
     if block_hash_check \<noteq> EXECUTION_BLOCK_HASH_GINDEX_DENEB then Inl ForkGindexError
     else
       rbind (compose ''state_root'') (\<lambda>g_state_root.
       rbind (compose ''receipts_root'') (\<lambda>g_receipts_root.
       rbind (compose ''block_number'') (\<lambda>g_block_number.
       Inr \<lparr>r8_activation_epoch = activation_epoch, r8_g_state_root = g_state_root,
         r8_g_receipts_root = g_receipts_root, r8_g_block_number = g_block_number,
         r8_g_block_roots_base = g_block_roots_base\<rparr>))))))"

section \<open>The rows of the supported forks\<close>

lemma next_pow2_depths: "next_pow2_depth 28 = 5" "next_pow2_depth 37 = 6" "next_pow2_depth 38 = 6"
  by (simp_all add: next_pow2_depth_def depth_loop.simps)

lemma FULU_FIELDS_length: "length FULU_FIELDS = 38"
  by (simp add: FULU_FIELDS_def)

text \<open>The prefix of a list finds the same index where it reaches that far.\<close>

lemma py_index_take:
  "distinct xs \<Longrightarrow> i < n \<Longrightarrow> i < length xs \<Longrightarrow> py_index (take n xs) (xs ! i) = Inr i"
proof -
  assume a: "distinct xs" "i < n" "i < length xs"
  have "distinct (map fst (zip (take n xs) [0..<length (take n xs)]))" using a(1) by simp
  moreover have "(take n xs ! i, i) \<in> set (zip (take n xs) [0..<length (take n xs)])"
    using a by (auto simp: set_zip intro!: exI [of _ i])
  ultimately have "map_of (zip (take n xs) [0..<length (take n xs)]) (take n xs ! i) = Some i"
    by (simp add: map_of_eq_Some_iff)
  then show ?thesis using a(2) by (simp add: py_index_def)
qed

lemma FULU_FIELDS_distinct: "distinct FULU_FIELDS"
  by (simp add: FULU_FIELDS_def)

lemma FULU_FIELDS_nth: "FULU_FIELDS ! 5 = ''block_roots''" "FULU_FIELDS ! 20 = ''finalized_checkpoint''"
    "FULU_FIELDS ! 22 = ''current_sync_committee''" "FULU_FIELDS ! 23 = ''next_sync_committee''"
  by (simp_all add: FULU_FIELDS_def)

lemma fulu_index:
  assumes "28 \<le> n"
  shows "py_index (take n FULU_FIELDS) ''block_roots'' = Inr 5"
    and "py_index (take n FULU_FIELDS) ''finalized_checkpoint'' = Inr 20"
    and "py_index (take n FULU_FIELDS) ''current_sync_committee'' = Inr 22"
    and "py_index (take n FULU_FIELDS) ''next_sync_committee'' = Inr 23"
  using py_index_take [OF FULU_FIELDS_distinct, of 5 n] py_index_take [OF FULU_FIELDS_distinct, of 20 n]
    py_index_take [OF FULU_FIELDS_distinct, of 22 n] py_index_take [OF FULU_FIELDS_distinct, of 23 n] assms
  by (simp_all add: FULU_FIELDS_length FULU_FIELDS_nth)

definition fork_depth :: "string \<Rightarrow> nat" where
  "fork_depth fork = (if map lower_char fork = ''deneb'' then 5 else 6)"

lemma fork_counts:
  "FORK_FIELD_COUNTS f = Some n \<Longrightarrow> 28 \<le> n \<and> n \<le> 38 \<and> next_pow2_depth n = (if f = ''deneb'' then 5 else 6)"
  unfolding FORK_FIELD_COUNTS_def fun_upd_def by (auto simp: next_pow2_depths split: if_splits simp del: list.inject)

lemma fields_for_known:
  "fields_for fork None =
     (case FORK_FIELD_COUNTS (map lower_char fork) of None \<Rightarrow> Inl ForkGindexError | Some n \<Rightarrow> Inr (take n FULU_FIELDS))"
  using fork_counts [of "map lower_char fork"]
  by (auto simp: fields_for_def FULU_FIELDS_length split: option.splits)

lemma known_forks:
  assumes "FORK_FIELD_COUNTS (map lower_char fork) = Some n"
  shows "fields_for fork None = Inr (take n FULU_FIELDS)" and "28 \<le> n"
    and "next_pow2_depth (length (take n FULU_FIELDS)) = fork_depth fork"
  using fork_counts [OF assms] assms by (simp_all add: fields_for_known FULU_FIELDS_length fork_depth_def min_absorb2)

lemma more_indices: "FIELD_INDEX ''state_root'' = Inr 2" "FIELD_INDEX ''receipts_root'' = Inr 3"
    "FIELD_INDEX ''block_number'' = Inr 6" "FIELD_INDEX ''block_hash'' = Inr 12"
  by (simp_all add: FIELD_INDEX_def FIELD_NAMES_def upt_rec)

text \<open>Every row the deployment emits.\<close>

lemma m8_row_values:
  "m8_fork_row fork e None None = Inr row \<longleftrightarrow>
     FORK_FIELD_COUNTS (map lower_char fork) \<noteq> None \<and>
     row = \<lparr>r8_activation_epoch = e, r8_g_state_root = 802, r8_g_receipts_root = 803, r8_g_block_number = 806,
       r8_g_block_roots_base = 2 ^ fork_depth fork + 5\<rparr>"
proof (cases "FORK_FIELD_COUNTS (map lower_char fork)")
  case (Some n)
  note k = known_forks [OF Some]
  show ?thesis
    unfolding Some by (simp add: m8_fork_row_def k(1,3) fulu_index [OF k(2)] more_indices EXECUTION_PAYLOAD_DEPTH_def
        EXECUTION_PAYLOAD_GINDEX_def EXECUTION_BLOCK_HASH_GINDEX_DENEB_def Let_def eq_commute [of row] del: length_take)
qed (simp add: m8_fork_row_def fields_for_known)

lemma m4_row_values:
  "m4_fork_row fork e fv None = Inr row \<longleftrightarrow>
     length fv = 4 \<and> FORK_FIELD_COUNTS (map lower_char fork) \<noteq> None \<and>
     row = \<lparr>r4_activation_epoch = e, r4_fork_version = fv, r4_finality_gindex = (2 ^ fork_depth fork + 20) * 2 + 1,
       r4_current_sc_gindex = 2 ^ fork_depth fork + 22, r4_next_sc_gindex = 2 ^ fork_depth fork + 23\<rparr>"
proof (cases "FORK_FIELD_COUNTS (map lower_char fork)")
  case (Some n)
  note k = known_forks [OF Some]
  show ?thesis
    unfolding Some by (simp add: m4_fork_row_def k(1,3) fulu_index [OF k(2)] require_def Let_def eq_commute [of row] del: length_take)
qed (simp add: m4_fork_row_def fields_for_known require_def)

end
