(* ===== verification/Rel_Total.thy ===== *)
theory Rel_Total
  imports Rel_Fixture Deploy_Forks Anchor_Demo
begin

text \<open>
  On well-formed data the relayer's trees are built without an error, and every root has 32 bytes. The
  second half builds a small finalized state, a block in its window and the anchor's view of them.
\<close>

section \<open>Roots of 32 bytes\<close>

definition ok32 :: "bytes py \<Rightarrow> bool" where
  "ok32 m \<longleftrightarrow> (\<exists>x. m = Inr x \<and> length x = 32)"

lemma ok32_Inr [simp]: "ok32 (Inr x) \<longleftrightarrow> length x = 32"
  by (simp add: ok32_def)

lemma length_chunk_root32:
  "(\<And>x. length (H x) = 32) \<Longrightarrow> \<forall>c\<in>set cs. length c = 32 \<Longrightarrow> length (chunk_root H d cs) = 32"
  by (cases d; cases cs) (simp_all add: zero32_def)

lemma ok32_le_pad32 [simp]: "v < 18446744073709551616 \<Longrightarrow> ok32 (le_pad32 v 8)"
  by (simp add: ok32_def le_pad32_def to_bytes_le_def require_def)

lemma ok32_le_bytes [simp]: "v < 18446744073709551616 \<Longrightarrow> ok32 (to_bytes_le 32 v)"
  by (simp add: ok32_def to_bytes_le_def require_def)

lemma py_seq_ok32: "\<forall>m\<in>set ms. ok32 m \<Longrightarrow> \<exists>xs. py_seq ms = Inr xs \<and> length xs = length ms \<and> (\<forall>x\<in>set xs. length x = 32)"
  by (induction ms) (auto simp: ok32_def)

lemma exact_total:
  assumes H: "\<And>x. length (H x) = 32" and "\<forall>c\<in>set cs. length c = 32" and "cs \<noteq> []"
  shows "ok32 (merkleize_chunks_exact H cs)"
proof -
  obtain k where "length cs \<le> 2 ^ k" "k = 0 \<or> 2 ^ (k - 1) < length cs" using next_pow2_ex by blast
  then show ?thesis
    using merkleize_exact_eq [of cs k H] length_chunk_root32 [where H = H, OF H assms(2)] by (simp add: ok32_def)
qed

lemma limit_total:
  assumes H: "\<And>x. length (H x) = 32" and "\<forall>c\<in>set cs. length c = 32" and "length cs \<le> n"
  shows "ok32 (merkleize_with_limit H cs (next_pow2 n))"
proof -
  obtain k where k: "n \<le> 2 ^ k" "k = 0 \<or> 2 ^ (k - 1) < n" using next_pow2_ex by blast
  then show ?thesis
    using merkleize_with_limit_eq [of cs k H] next_pow2_eq [OF k] length_chunk_root32 [where H = H, OF H assms(2)] assms(3)
    by (simp add: ok32_def)
qed

lemma mix_total: "(\<And>x. length (H x) = 32) \<Longrightarrow> n < 2 ^ 64 \<Longrightarrow> ok32 (rel_mix_in_length H root n)"
  by (simp add: ok32_def rel_mix_in_length_def to_bytes_le_def require_def)

section \<open>Containers\<close>

lemma fields_total:
  assumes H: "\<And>x. length (H x) = 32" and "\<forall>f\<in>set fs. ok32 f" and "fs \<noteq> []"
  shows "ok32 (htr_fields H fs)"
proof -
  obtain xs where "py_seq fs = Inr xs" "length xs = length fs" "\<forall>x\<in>set xs. length x = 32" using py_seq_ok32 [OF assms(2)] by blast
  moreover from this have "xs \<noteq> []" using assms(3) by auto
  ultimately show ?thesis using exact_total [where H = H, OF H, of xs] by (simp add: htr_fields_def)
qed

lemma container_total:
  assumes H: "\<And>x. length (H x) = 32" and "\<forall>l\<in>set ls. length l = 32" and "length ls \<le> n" "length ls < 2 ^ 64"
  shows "ok32 (htr_container_list H ls n)"
proof -
  obtain r where "merkleize_with_limit H ls (next_pow2 n) = Inr r"
    using limit_total [where H = H, OF H assms(2,3)] by (auto simp: ok32_def)
  then show ?thesis using mix_total [where H = H, OF H assms(4)] by (simp add: htr_container_list_def)
qed

lemma list_total:
  assumes H: "\<And>x. length (H x) = 32" and "\<forall>x\<in>set xs. ok32 (f x)" and "length xs \<le> n" "length xs < 2 ^ 64"
  shows "ok32 (list_htr H f xs n)"
proof -
  have "\<forall>m\<in>set (map f xs). ok32 m" using assms(2) by simp
  then obtain ls where "py_seq (map f xs) = Inr ls" "length ls = length xs" "\<forall>l\<in>set ls. length l = 32"
    using py_seq_ok32 by fastforce
  then show ?thesis using container_total [where H = H, OF H, of ls n] assms(3,4) by (simp add: list_htr_def)
qed

lemma pack_uint64_total:
  "\<forall>v\<in>set vs. v < 2 ^ 64 \<Longrightarrow> length buf = 8 * j \<Longrightarrow> j < 4 \<Longrightarrow>
   \<exists>cs. pack_uint64_loop vs buf = Inr cs \<and> (\<forall>c\<in>set cs. length c = 32) \<and> 32 * length cs < 8 * (j + length vs) + 32"
proof (induction vs arbitrary: buf j)
  case Nil
  then show ?case by (cases j) auto
next
  case (Cons v vs)
  have t: "to_bytes_le 8 v = Inr (rev (be_bytes 8 v))" using Cons.prems(1) by (simp add: to_bytes_le_def require_def)
  let ?b = "buf @ rev (be_bytes 8 v)"
  show ?case
  proof (cases "j = 3")
    case True
    then have l: "length ?b = 32" using Cons.prems(2) by simp
    obtain cs where "pack_uint64_loop vs [] = Inr cs" "\<forall>c\<in>set cs. length c = 32" "32 * length cs < 8 * (0 + length vs) + 32"
      using Cons.IH [of "[]" 0] Cons.prems(1) by auto
    then show ?thesis using True l by (intro exI [of _ "?b # cs"]) (simp add: t Let_def)
  next
    case False
    then have l: "length ?b = 8 * Suc j" "length ?b \<noteq> 32" "Suc j < 4" using Cons.prems(2,3) by simp_all
    then show ?thesis using Cons.IH [OF _ l(1,3)] Cons.prems(1) by (auto simp: t Let_def)
  qed
qed

lemma uint64_vector_total:
  assumes H: "\<And>x. length (H x) = 32" and "\<forall>v\<in>set vs. v < 2 ^ 64" and "length vs \<le> n"
  shows "ok32 (htr_uint64_vector_fixed H vs n)"
proof -
  obtain cs where c: "pack_uint64_loop vs [] = Inr cs" "\<forall>c\<in>set cs. length c = 32" "32 * length cs < 8 * (0 + length vs) + 32"
    using pack_uint64_total [OF assms(2), of "[]" 0] by auto
  have "8 * length vs \<le> 8 * n" using assms(3) by simp
  then have "32 * length cs < 8 * n + 32" using c(3) by simp
  then have "length cs \<le> (n * 8 + 31) div 32" by (simp add: less_eq_div_iff_mult_less_eq)
  then show ?thesis using limit_total [where H = H, OF H c(2)] c(1) by (simp add: htr_uint64_vector_fixed_def pack_uint64_chunks_def)
qed

lemma empty_lists_total:
  assumes H: "\<And>x. length (H x) = 32"
  shows "0 < n \<Longrightarrow> ok32 (htr_uint64_list H [] n)" "0 < n \<Longrightarrow> ok32 (htr_uint8_list H [] n)"
proof -
  have m: "ok32 (rbind (merkleize_with_limit H [] (next_pow2 k)) (\<lambda>root. rel_mix_in_length H root 0))" for k
  proof -
    obtain r where "merkleize_with_limit H [] (next_pow2 k) = Inr r"
      using limit_total [where H = H, OF H, of "[]" k] by (auto simp: ok32_def)
    then show ?thesis using mix_total [where H = H, OF H] by simp
  qed
  show "0 < n \<Longrightarrow> ok32 (htr_uint64_list H [] n)" "0 < n \<Longrightarrow> ok32 (htr_uint8_list H [] n)"
    using m by (simp_all add: htr_uint64_list_def htr_uint8_list_def pack_uint64_chunks_def pack_uint8_chunks_def)
qed

lemma vector_total:
  "(\<And>x. length (H x) = 32) \<Longrightarrow> \<forall>c\<in>set cs. length c = 32 \<Longrightarrow> length cs \<le> n \<Longrightarrow> ok32 (htr_bytes32_vector_fixed H cs n)"
  using limit_total by (simp add: htr_bytes32_vector_fixed_def)

lemma byte_vectors_total:
  assumes H: "\<And>x. length (H x) = 32"
  shows "length pk = 48 \<Longrightarrow> ok32 (bls_pubkey_root H pk)" "length sig = 96 \<Longrightarrow> ok32 (bls_signature_root H sig)"
    "length bloom = 256 \<Longrightarrow> ok32 (logs_bloom_root H bloom)" "length ed \<le> 32 \<Longrightarrow> ok32 (extra_data_root H ed)"
proof -
  show "length pk = 48 \<Longrightarrow> ok32 (bls_pubkey_root H pk)" using H by (simp add: bls_pubkey_root_def require_def)
  show "length sig = 96 \<Longrightarrow> ok32 (bls_signature_root H sig)"
    using exact_total [where H = H, OF H] by (simp add: bls_signature_root_def require_def)
  show "length bloom = 256 \<Longrightarrow> ok32 (logs_bloom_root H bloom)"
    unfolding logs_bloom_root_def require_def using exact_total [where H = H, OF H] by simp
  show "length ed \<le> 32 \<Longrightarrow> ok32 (extra_data_root H ed)"
    using mix_total [where H = H, OF H] by (simp add: extra_data_root_def require_def)
qed

lemma bitvector_total:
  assumes H: "\<And>x. length (H x) = 32" and "length raw = (n + 7) div 8"
  shows "ok32 (bitvector_htr H raw n)"
proof -
  have "\<forall>c\<in>set (padded_chunks raw). length c = 32" by (auto simp: padded_chunks_def seg_def)
  moreover have "length (padded_chunks raw) \<le> (n + 255) div 256" using assms(2) by (simp add: padded_chunks_def)
  ultimately show ?thesis using limit_total [where H = H, OF H] assms(2) by (simp add: bitvector_htr_def require_def)
qed

lemma committee_total:
  assumes H: "\<And>x. length (H x) = 32" and l: "length (jc_pubkeys sc) = 512" "\<forall>pk\<in>set (jc_pubkeys sc). length pk = 48"
    "length (jc_aggregate_pubkey sc) = 48"
  shows "ok32 (sync_committee_htr H sc)"
proof -
  have "\<forall>m\<in>set (map (bls_pubkey_root H) (jc_pubkeys sc)). ok32 m" using l(2) byte_vectors_total(1) [where H = H, OF H] by simp
  then obtain ls where ls: "py_seq (map (bls_pubkey_root H) (jc_pubkeys sc)) = Inr ls" "length ls = 512" "\<forall>x\<in>set ls. length x = 32"
    using py_seq_ok32 l(1) by fastforce
  obtain r where r: "htr_bytes32_vector_fixed H ls 512 = Inr r" "length r = 32"
    using vector_total [where H = H, OF H ls(3), of 512] ls(2) by (auto simp: ok32_def)
  obtain a where a: "bls_pubkey_root H (jc_aggregate_pubkey sc) = Inr a" "length a = 32"
    using byte_vectors_total(1) [where H = H, OF H l(3)] by (auto simp: ok32_def)
  show ?thesis
    using exact_total [where H = H, OF H, of "[r, a]"] ls r a
    by (simp add: sync_committee_htr_def REL_SYNC_COMMITTEE_SIZE_def require_def)
qed

section \<open>A small chain\<close>

definition wx_payload :: payload_header where
  "wx_payload = \<lparr>ph_parent_hash = dm_sr, ph_fee_recipient = replicate 20 3, ph_state_root = dm_sr, ph_receipts_root = dm_rr,
     ph_logs_bloom = replicate 256 0, ph_prev_randao = dm_rr, ph_block_number = 7, ph_gas_limit = 30000000,
     ph_gas_used = 21000, ph_timestamp = 1700000000, ph_extra_data = [1, 2, 3], ph_base_fee_per_gas = 7,
     ph_block_hash = dm_sr2, ph_transactions_root = zero32, ph_withdrawals_root = zero32, ph_blob_gas_used = 0,
     ph_excess_blob_gas = 0\<rparr>"

definition wx_checkpoint :: checkpoint where "wx_checkpoint = \<lparr>cp_epoch = 256, cp_root = dm_sr\<rparr>"
definition wx_eth1 :: eth1data where
  "wx_eth1 = \<lparr>e1_deposit_root = dm_sr, e1_deposit_count = 3, e1_block_hash = dm_sr2\<rparr>"

definition wx_body :: block_body where
  "wx_body = \<lparr>bb_randao_reveal = replicate 96 9, bb_eth1_data = wx_eth1, bb_graffiti = dm_rr, bb_proposer_slashings = [],
     bb_attester_slashings = [], bb_attestations = [], bb_deposits = [], bb_voluntary_exits = [],
     bb_sync_aggregate = \<lparr>sa_sync_committee_bits = replicate 64 255, sa_sync_committee_signature = replicate 96 5\<rparr>,
     bb_execution_payload = \<lparr>fp_header = wx_payload, fp_transactions = [], fp_withdrawals = []\<rparr>,
     bb_bls_to_execution_changes = [], bb_blob_kzg_commitments = [],
     bb_execution_requests = \<lparr>er_deposits = [], er_withdrawals = [], er_consolidations = []\<rparr>\<rparr>"

definition wx_header :: "bytes \<Rightarrow> json_header" where
  "wx_header body_root = \<lparr>jh_slot = 8192, jh_proposer_index = 5, jh_parent_root = dm_sr, jh_state_root = dm_rr,
     jh_body_root = body_root\<rparr>"

definition wx_committee :: json_committee where
  "wx_committee = \<lparr>jc_pubkeys = replicate 512 (replicate 48 4), jc_aggregate_pubkey = replicate 48 6\<rparr>"

text \<open>A finalized state at slot 8256 whose ring of block roots holds one root everywhere.\<close>

definition wx_state :: "bytes \<Rightarrow> beacon_state" where
  "wx_state t_root = \<lparr>bs_genesis_time = 1606824023, bs_genesis_validators_root = dm_sr, bs_slot = 8256,
     bs_fork = \<lparr>jf_previous_version = [5, 0, 0, 0], jf_current_version = [6, 0, 0, 0], jf_epoch = 0\<rparr>,
     bs_latest_block_header = wx_header dm_sr, bs_block_roots = replicate 8192 t_root, bs_state_roots = replicate 8192 dm_sr,
     bs_historical_roots = [], bs_eth1_data = wx_eth1, bs_eth1_data_votes = [], bs_eth1_deposit_index = 0, bs_validators = [],
     bs_balances = [], bs_randao_mixes = replicate 65536 dm_rr, bs_slashings = replicate 8192 0,
     bs_previous_epoch_participation = [], bs_current_epoch_participation = [], bs_justification_bits = 15,
     bs_previous_justified_checkpoint = wx_checkpoint, bs_current_justified_checkpoint = wx_checkpoint,
     bs_finalized_checkpoint = wx_checkpoint, bs_inactivity_scores = [], bs_current_sync_committee = wx_committee,
     bs_next_sync_committee = wx_committee, bs_latest_execution_payload_header = wx_payload, bs_next_withdrawal_index = 0,
     bs_next_withdrawal_validator_index = 0, bs_historical_summaries = [], bs_deposit_requests_start_index = 0,
     bs_deposit_balance_to_consume = 0, bs_exit_balance_to_consume = 0, bs_earliest_exit_epoch = 0,
     bs_consolidation_balance_to_consume = 0, bs_earliest_consolidation_epoch = 0, bs_pending_deposits = [],
     bs_pending_partial_withdrawals = [], bs_pending_consolidations = [], bs_proposer_lookahead = replicate 64 0\<rparr>"

lemma wx_payload_leaves:
  assumes H: "\<And>x. length (H x) = 32"
  shows "\<forall>f\<in>set (payload_leaves H wx_payload). ok32 f"
  using byte_vectors_total(3,4) [where H = H, OF H]
  by (simp add: payload_leaves_def wx_payload_def zero32_def)

lemma wx_payload_ok: "payload_ok wx_payload"
  by (simp add: payload_ok_def wx_payload_def)

lemma wx_small:
  assumes H: "\<And>x. length (H x) = 32"
  shows "ok32 (eth1data_htr H wx_eth1)" "ok32 (checkpoint_htr H wx_checkpoint)" "ok32 (sync_committee_htr H wx_committee)"
    "ok32 (exec_payload_header_htr H wx_payload)" "length b = 32 \<Longrightarrow> ok32 (header_fields_htr H (wx_header b))"
    "ok32 (fork_htr H \<lparr>jf_previous_version = [5, 0, 0, 0], jf_current_version = [6, 0, 0, 0], jf_epoch = 0\<rparr>)"
proof -
  note f = fields_total [where H = H, OF H]
  show "ok32 (eth1data_htr H wx_eth1)" unfolding eth1data_htr_def wx_eth1_def by (rule f) simp_all
  show "ok32 (checkpoint_htr H wx_checkpoint)" unfolding checkpoint_htr_def wx_checkpoint_def by (rule f) simp_all
  show "ok32 (sync_committee_htr H wx_committee)"
    by (rule committee_total [where H = H, OF H]) (simp_all add: wx_committee_def)
  show "ok32 (exec_payload_header_htr H wx_payload)"
    unfolding exec_payload_header_htr_def by (rule f [OF wx_payload_leaves [where H = H, OF H]]) (simp add: payload_leaves_def)
  show "length b = 32 \<Longrightarrow> ok32 (header_fields_htr H (wx_header b))"
    unfolding header_fields_htr_def wx_header_def by (rule f) simp_all
  show "ok32 (fork_htr H \<lparr>jf_previous_version = [5, 0, 0, 0], jf_current_version = [6, 0, 0, 0], jf_epoch = 0\<rparr>)"
    unfolding fork_htr_def by (rule f) simp_all
qed

lemma wx_state_fields:
  assumes H: "\<And>x. length (H x) = 32" and "length t = 32"
  shows "\<forall>f\<in>set (state_fields H (wx_state t)). ok32 f"
proof -
  note v = vector_total [where H = H, OF H] uint64_vector_total [where H = H, OF H]
  note e = list_total [where H = H and xs = "[]", OF H] container_total [where H = H and ls = "[]", OF H] empty_lists_total [where H = H, OF H]
  have b: "ok32 (bitvector4_htr 15)" by (simp add: bitvector4_htr_def py_byte_def require_def)
  show ?thesis
    using wx_small [where H = H, OF H] b assms(2)
    by (simp add: state_fields_def wx_state_def state_limit_defs htr_validators_def list_htr_def [symmetric] require_def v e
        del: of_nat_numeral)
qed

section \<open>Its trees\<close>

lemma tree_total:
  assumes H: "\<And>x. length (H x) = 32" and "\<forall>c\<in>set cs. length c = 32" and "length cs + m = 2 ^ d"
  obtains layers where "tree_layers H (cs @ replicate m ZERO_CHUNK) = Inr layers"
    "py_head (last layers) = Inr (chunk_root H d (cs @ replicate m ZERO_CHUNK))"
    "tree_of H d (cs @ replicate m ZERO_CHUNK) (chunk_root H d (cs @ replicate m ZERO_CHUNK)) layers"
proof -
  have l: "length (cs @ replicate m ZERO_CHUNK) = 2 ^ d" using assms(3) by simp
  note t = tree_layers_full [OF l, of H]
  have h: "py_head (last (ref_layers H d (cs @ replicate m ZERO_CHUNK))) = Inr (chunk_root H d (cs @ replicate m ZERO_CHUNK))"
    unfolding full_tree(2) [OF t l] ..
  show ?thesis by (rule that [OF t h tree_of_layers [OF t l pad_32 [OF assms(2)] h]])
qed

lemma wx_trees:
  assumes H: "\<And>x. length (H x) = 32"
  obtains proot layers broot branch where
    "build_full_execution_payload_tree H (bb_execution_payload wx_body) = Inr (proot, layers)"
    "\<And>pos. pos < 32 \<Longrightarrow> \<exists>b. branch_for layers pos = Inr b"
    "build_beacon_block_body_tree H wx_body proot = Inr (broot, branch)" "length broot = 32"
proof -
  have e: "ok32 (transactions_root H [])" "ok32 (withdrawals_root H [])"
    using list_total [where H = H and xs = "[]", OF H] by (simp_all add: transactions_root_def withdrawals_root_def)
  have "\<forall>f\<in>set (full_payload_leaves H (bb_execution_payload wx_body)). ok32 f"
    using wx_payload_leaves [where H = H, OF H] e set_update_subset_insert
    by (simp add: full_payload_leaves_def wx_body_def payload_leaves_def)
  then obtain lv where l: "py_seq (full_payload_leaves H (bb_execution_payload wx_body)) = Inr lv" "length lv = 17"
      "\<forall>x\<in>set lv. length x = 32"
    using py_seq_ok32 [of "full_payload_leaves H (bb_execution_payload wx_body)"] by (auto simp: full_payload_leaves_def payload_leaves_def)
  obtain layers where t: "tree_layers H (lv @ replicate 15 ZERO_CHUNK) = Inr layers"
      "py_head (last layers) = Inr (chunk_root H 5 (lv @ replicate 15 ZERO_CHUNK))"
      "tree_of H 5 (lv @ replicate 15 ZERO_CHUNK) (chunk_root H 5 (lv @ replicate 15 ZERO_CHUNK)) layers"
    by (rule tree_total [where H = H, OF H l(3), of 15 5]) (simp add: l(2))
  let ?p = "chunk_root H 5 (lv @ replicate 15 ZERO_CHUNK)"
  have lp: "length ?p = 32" by (rule length_root [where H = H, OF H]) simp
  note nil = list_total [where H = H and xs = "[]", OF H]
  have "\<forall>f\<in>set (body_fields H wx_body ?p). ok32 f"
    using lp byte_vectors_total [where H = H, OF H] wx_small(1) [where H = H, OF H] fields_total [where H = H, OF H]
      bitvector_total [where H = H, OF H]
    by (simp add: body_fields_def wx_body_def nil sync_aggregate_htr_def execution_requests_htr_def REL_SYNC_COMMITTEE_SIZE_def
        htr_proposer_slashings_list_def htr_attester_slashings_list_def htr_attestations_list_def htr_deposits_list_def
        htr_voluntary_exits_list_def htr_bls_to_execution_changes_list_def htr_blob_kzg_commitments_list_def
        del: chunk_root.simps)
  then obtain fr where f: "py_seq (body_fields H wx_body ?p) = Inr fr" "length fr = 13" "\<forall>x\<in>set fr. length x = 32"
    using py_seq_ok32 [of "body_fields H wx_body ?p"] by (auto simp: body_fields_def)
  obtain layers2 where t2: "tree_layers H (fr @ replicate 3 ZERO_CHUNK) = Inr layers2"
      "py_head (last layers2) = Inr (chunk_root H 4 (fr @ replicate 3 ZERO_CHUNK))"
      "tree_of H 4 (fr @ replicate 3 ZERO_CHUNK) (chunk_root H 4 (fr @ replicate 3 ZERO_CHUNK)) layers2"
    by (rule tree_total [where H = H, OF H f(3), of 3 4]) (simp add: f(2))
  let ?b = "concat (layer_sibs H 4 (fr @ replicate 3 ZERO_CHUNK) 9)"
  have b: "branch_for layers2 9 = Inr ?b" using t2(3) by (simp add: tree_of_def)
  have "\<forall>s\<in>set (layer_sibs H 4 (fr @ replicate 3 ZERO_CHUNK) 9). length s = 32"
    using layer_sibs_32 [where H = H and d = 4 and pos = 9, OF H _ _ pad_32 [OF f(3)]] f(2) by auto
  then have lb: "length ?b = 128" using concat_len32 by fastforce
  have d: "BEACON_BLOCK_BODY_DEPTH = 4"
    using next_pow2_eq [of 13 4] bitlen_pow2 [of 4] by (simp add: BEACON_BLOCK_BODY_DEPTH_def)
  show ?thesis
  proof (rule that)
    show "build_full_execution_payload_tree H (bb_execution_payload wx_body) = Inr (?p, layers)"
      by (simp add: build_full_execution_payload_tree_def l(1) t(1,2))
    show "build_beacon_block_body_tree H wx_body ?p = Inr (chunk_root H 4 (fr @ replicate 3 ZERO_CHUNK), ?b)"
      using f(3) by (simp add: build_beacon_block_body_tree_def f(1) t2(1,2) EXECUTION_PAYLOAD_FIELD_INDEX_def b lb d require_def
          del: chunk_root.simps)
    show "length (chunk_root H 4 (fr @ replicate 3 ZERO_CHUNK)) = 32" by (rule length_root [where H = H, OF H]) simp
    show "\<exists>b. branch_for layers pos = Inr b" if "pos < 32" for pos using t(3) that by (simp add: tree_of_def)
  qed
qed

lemma wx_state_tree:
  assumes H: "\<And>x. length (H x) = 32" and t: "length t = 32"
  obtains sroot fr branch where "build_beacon_state_tree H (wx_state t) = Inr (sroot, fr, replicate 8192 t)" "length sroot = 32"
    "block_roots_fold_branch H fr (replicate 8192 t) 8192 = Inr branch"
proof -
  note w = wx_state_fields [where H = H, OF H t]
  have n: "length (state_fields H (wx_state t)) = 38" by (simp add: state_fields_def)
  obtain fr where f: "py_seq (state_fields H (wx_state t)) = Inr fr" "length fr = 38" "\<forall>x\<in>set fr. length x = 32"
    using py_seq_ok32 [OF w] n by auto
  have m: "merkleize_chunks_exact H fr = Inr (chunk_root H 6 fr)" by (rule merkleize_exact_eq) (simp_all add: f(2))
  have raw: "bs_block_roots (wx_state t) = replicate 8192 t" by (simp add: wx_state_def)
  have s: "build_beacon_state_tree H (wx_state t) = Inr (chunk_root H 6 fr, fr, replicate 8192 t)"
    using f(3) by (simp add: build_beacon_state_tree_def f(1) m raw require_def del: chunk_root.simps)
  have l: "length (replicate 8192 t) = 2 ^ 13" "length (fr @ replicate 26 ZERO_CHUNK) = 2 ^ 6" by (simp_all add: f(2))
  have s1: "\<forall>s\<in>set (layer_sibs H 13 (replicate 8192 t) 0). length s = 32"
    using layer_sibs_32 [where H = H and pos = 0, OF H l(1)] t by auto
  have s2: "\<forall>s\<in>set (layer_sibs H 6 (fr @ replicate 26 ZERO_CHUNK) 5). length s = 32"
    using layer_sibs_32 [where H = H and pos = 5, OF H l(2) _ pad_32 [OF f(3)]] by auto
  have c: "length (concat (layer_sibs H 13 (replicate 8192 t) 0)) = 416"
      "length (concat (layer_sibs H 6 (fr @ replicate 26 ZERO_CHUNK) 5)) = 192"
    using concat_len32 [OF s1] concat_len32 [OF s2] by simp_all
  have b: "branch_from (butlast (ref_layers H 13 (replicate 8192 t))) 0 = Inr (concat (layer_sibs H 13 (replicate 8192 t) 0))"
      "branch_from (butlast (ref_layers H 6 (fr @ replicate 26 ZERO_CHUNK))) 5 = Inr (concat (layer_sibs H 6 (fr @ replicate 26 ZERO_CHUNK) 5))"
    by (rule branch_from_full [OF l(1)], simp) (rule branch_from_full [OF l(2)], simp)
  have "block_roots_fold_branch H fr (replicate 8192 t) 8192 =
      Inr (concat (layer_sibs H 13 (replicate 8192 t) 0) @ concat (layer_sibs H 6 (fr @ replicate 26 ZERO_CHUNK) 5))"
    using tree_layers_full [OF l(1), of H] tree_layers_full [OF l(2), of H]
    by (simp add: block_roots_fold_branch_def f(2) BLOCK_ROOTS_FIELD_INDEX_def b c require_def Let_def
        del: layer_sibs.simps ref_layers.simps)
  from that [OF s _ this] show ?thesis using length_root [where H = H, OF H, of 6] by simp
qed

section \<open>Its fixture\<close>

definition wx_body_root :: "(bytes \<Rightarrow> bytes) \<Rightarrow> bytes" where
  "wx_body_root H = fst (projr (build_beacon_block_body_tree H wx_body
     (fst (projr (build_full_execution_payload_tree H (bb_execution_payload wx_body))))))"

definition wx_target :: "(bytes \<Rightarrow> bytes) \<Rightarrow> bytes" where
  "wx_target H = le64 8192 @ le64 5 @ dm_sr @ dm_rr @ wx_body_root H"

definition wx_target_root :: "(bytes \<Rightarrow> bytes) \<Rightarrow> bytes" where
  "wx_target_root H = tree_root H (header_tree (wx_target H))"

definition wx_fin :: "(bytes \<Rightarrow> bytes) \<Rightarrow> bytes" where
  "wx_fin H = le64 8256 @ le64 5 @ dm_sr @ fst (projr (build_beacon_state_tree H (wx_state (wx_target_root H)))) @ dm_sr"

definition wx_fetch_header :: "(bytes \<Rightarrow> bytes) \<Rightarrow> int \<Rightarrow> (json_header \<times> bytes) py" where
  "wx_fetch_header H t = (if t = 8192 then Inr (wx_header (wx_body_root H), wx_target_root H) else Inl KeyError)"

lemma wx_fixture:
  assumes H: "\<And>x. length (H x) = 32"
  obtains fx where
    "build_historical_fixture H (\<lambda>_. Inr (wx_state (wx_target_root H))) (wx_fetch_header H) (\<lambda>_. Inr wx_body) (wx_fin H) 64 = Inr fx"
    "hf_fin_slot fx = 8256" "hf_t_slot fx = 8192" "hf_fin_root fx = tree_root H (header_tree (wx_fin H))"
    "length (wx_fin H) = 112" "hf_el_block_number fx = 7"
proof -
  obtain proot layers broot branch where
    p: "build_full_execution_payload_tree H (bb_execution_payload wx_body) = Inr (proot, layers)"
    and pb: "\<And>pos. pos < 32 \<Longrightarrow> \<exists>b. branch_for layers pos = Inr b"
    and b: "build_beacon_block_body_tree H wx_body proot = Inr (broot, branch)" "length broot = 32"
    using wx_trees [where H = H, OF H] by metis
  have wb: "wx_body_root H = broot" by (simp add: wx_body_root_def p b)
  have lt: "length (wx_target H) = 112" using b(2) by (simp add: wx_target_def wb)
  have ltr: "length (wx_target_root H) = 32"
    unfolding wx_target_root_def by (rule length_tree_root [OF wf_header_tree [OF lt] H])
  obtain sroot fr br where s: "build_beacon_state_tree H (wx_state (wx_target_root H)) = Inr (sroot, fr, replicate 8192 (wx_target_root H))"
      "length sroot = 32" "block_roots_fold_branch H fr (replicate 8192 (wx_target_root H)) 8192 = Inr br"
    by (rule wx_state_tree [where H = H, OF H ltr])
  have fin: "wx_fin H = le64 8256 @ le64 5 @ dm_sr @ sroot @ dm_sr" by (simp add: wx_fin_def s(1))
  have lf: "length (wx_fin H) = 112" using s(2) by (simp add: fin)
  have slot: "from_bytes_le (seg 0 8 (wx_fin H)) = 8256"
    by (simp add: fin seg_simps from_bytes_le_def le64_def itob_def)
  have segs: "seg 48 32 (wx_fin H) = sroot" "seg 80 32 (wx_target H) = broot"
    using s(2) b(2) by (simp_all add: fin wx_target_def wb seg_simps)
  have msg: "header_message_bytes (wx_header (wx_body_root H)) = Inr (wx_target H)"
    by (simp add: header_message_bytes_def wx_header_def wx_target_def le64_def itob_def to_bytes_le_def require_def)
  have roots: "rel_header_root H (wx_fin H) = Inr (tree_root H (header_tree (wx_fin H)))"
      "rel_header_root H (wx_target H) = Inr (wx_target_root H)"
    using lf lt by (simp_all add: rel_header_root_eq wx_target_root_def)
  have bs: "bs_slot (wx_state x) = 8256" for x by (simp add: wx_state_def)
  have bn: "ph_block_number (fp_header (bb_execution_payload wx_body)) = 7" by (simp add: wx_body_def wx_payload_def)
  have nth: "py_nth (replicate 8192 x) 0 = Inr x" for x :: bytes by (simp add: py_nth_def require_def)
  obtain sb rb nb where br3: "branch_for layers 2 = Inr sb" "branch_for layers 3 = Inr rb" "branch_for layers 6 = Inr nb"
    using pb [of 2] pb [of 3] pb [of 6] by auto
  have "\<exists>fx. build_historical_fixture H (\<lambda>_. Inr (wx_state (wx_target_root H))) (wx_fetch_header H) (\<lambda>_. Inr wx_body) (wx_fin H) 64 = Inr fx \<and>
      hf_fin_slot fx = 8256 \<and> hf_t_slot fx = 8192 \<and> hf_fin_root fx = tree_root H (header_tree (wx_fin H)) \<and> hf_el_block_number fx = 7"
    by (simp add: build_historical_fixture_def slot roots segs bs s msg wx_fetch_header_def nth p b br3 bn field_indices require_def Let_def
        del: replicate_Suc)
  then show ?thesis using that lf by blast
qed

section \<open>The anchor's view\<close>

definition wx_env :: call_env where
  "wx_env = \<lparr>ce_sender = dm_gov, ce_round = 9, ce_app_addr = replicate 32 7, ce_uints = (\<lambda>_. [ascii ''fin_slot'' \<mapsto> 8256]),
     ce_bytes = (\<lambda>_. [ascii ''fin_root'' \<mapsto> tree_root head_hash (header_tree (wx_fin head_hash)),
       ascii ''fin_state_root'' \<mapsto> seg 48 32 (wx_fin head_hash)])\<rparr>"

definition wx_anchor :: anchor_state where
  "wx_anchor = dm_ring\<lparr>an_globals := [an_row_key 0 \<mapsto> itob 0 @ itob 802 @ itob 803 @ itob 806 @ itob 69], an_fork_count := 1\<rparr>"

lemma wx_lookup: "lookup_row (an_globals wx_anchor) (an_fork_count wx_anchor) e = Inr (802, 803, 806, 69)"
proof -
  have "an_read_row (an_globals wx_anchor) 0 = Inr (0, 802, 803, 806, 69)"
    by (rule an_read_written) (simp_all add: an_row_valid_def uint64_limit_def wx_anchor_def)
  moreover from this have "an_find_row (an_globals wx_anchor) 1 e = Inr (True, 0)" by (simp add: an_find_row_def)
  ultimately show ?thesis unfolding lookup_row_Inr by (simp add: wx_anchor_def)
qed

lemma wx_row: "m8_fork_row ''fulu'' 0 None None =
    Inr \<lparr>r8_activation_epoch = 0, r8_g_state_root = 802, r8_g_receipts_root = 803, r8_g_block_number = 806, r8_g_block_roots_base = 69\<rparr>"
proof -
  have "map lower_char ''fulu'' = ''fulu''" by (simp add: lower_char_def)
  then show ?thesis unfolding m8_row_values by (simp add: FORK_FIELD_COUNTS_def fork_depth_def)
qed

lemma head_root_nonzero: "tree_root head_hash (header_tree (le64 8256 @ rest)) \<noteq> zero_address"
proof
  have "tree_root head_hash (header_tree (le64 8256 @ rest)) = le64 8256 @ replicate 24 0"
    using head_hash_left [of "le64 8256 @ replicate 24 0"] by (simp add: header_tree_def seg_simps)
  moreover assume "tree_root head_hash (header_tree (le64 8256 @ rest)) = zero_address"
  ultimately have "take 8 (le64 8256 @ replicate 24 0) = take 8 zero_address" by simp
  then have "le64 8256 = le64 0" by (simp add: zero_address_def le64_def itob_def be_bytes_zero)
  then show False using le64_inj [of 8256 0] by (simp add: uint64_limit_def)
qed

section \<open>A direct fixture\<close>

text \<open>A branch of four zero chunks, and the header whose body root it leads to.\<close>

definition wd_branch :: "bytes list" where "wd_branch = replicate 4 zero32"

definition wd_header :: "(bytes \<Rightarrow> bytes) \<Rightarrow> bytes" where
  "wd_header H = le64 8256 @ le64 5 @ dm_sr @ dm_rr @
     projr (compute_branch_root H (fst (projr (build_execution_payload_tree H wx_payload))) (concat wd_branch) 25)"

definition wd_env :: call_env where
  "wd_env = wx_env\<lparr>ce_bytes := (\<lambda>_. [ascii ''fin_root'' \<mapsto> tree_root head_hash (header_tree (wd_header head_hash)),
       ascii ''fin_state_root'' \<mapsto> seg 48 32 (wd_header head_hash)])\<rparr>"

lemma wd_fixture:
  assumes H: "\<And>x. length (H x) = 32"
  obtains proot layers fx where "build_execution_payload_tree H wx_payload = Inr (proot, layers)"
    "compute_branch_root H proot (concat wd_branch) 25 = Inr (seg 80 32 (wd_header H))" "length (wd_header H) = 112"
    "build_direct_fixture H wx_payload wd_branch (wd_header H) = Inr fx" "be_val (rev (seg 0 8 (wd_header H))) = 8256"
    "df_el_block_number fx = 7"
proof -
  obtain lv where l: "py_seq (payload_leaves H wx_payload) = Inr lv" "length lv = 17" "\<forall>x\<in>set lv. length x = 32"
    using py_seq_ok32 [OF wx_payload_leaves [where H = H, OF H]] by (auto simp: payload_leaves_def)
  let ?cur = "lv @ replicate 15 ZERO_CHUNK"
  obtain layers where t: "tree_layers H ?cur = Inr layers" "py_head (last layers) = Inr (chunk_root H 5 ?cur)"
      "tree_of H 5 ?cur (chunk_root H 5 ?cur) layers"
    by (rule tree_total [where H = H, OF H l(3), of 15 5]) (simp add: l(2))
  have c: "length ?cur = 2 ^ 5" by (simp add: l(2))
  have fl: "floor_layers H ?cur = layers" using floor_layers_full [OF c, of H] tree_layers_full [OF c, of H] t(1) by simp
  have r: "build_execution_payload_tree H wx_payload = Inr (chunk_root H 5 ?cur, layers)"
    using t(2) fl by (simp add: build_execution_payload_tree_def l EXECUTION_PAYLOAD_DEPTH_def build_tree_def require_def Let_def
        ZERO_CHUNK_def [symmetric] del: chunk_root.simps replicate.simps)
  have lr: "length (chunk_root H 5 ?cur) = 32" by (rule length_root [where H = H, OF H]) simp
  have d: "gdepth 25 = 4" by (simp add: gdepth_def bitlen.simps)
  obtain b where b: "compute_branch_root H (chunk_root H 5 ?cur) (concat wd_branch) 25 = Inr b" "length b = 32"
    using compute_branch_root_eq [of 25 H "chunk_root H 5 ?cur" "concat wd_branch"] length_fold_sibs [where H = H, OF H lr]
    by (simp add: d wd_branch_def concat_replicate_zero32)
  have hd: "wd_header H = le64 8256 @ le64 5 @ dm_sr @ dm_rr @ b" by (simp add: wd_header_def r b)
  have sg: "seg 80 32 (wd_header H) = b" "length (wd_header H) = 112" "be_val (rev (seg 0 8 (wd_header H))) = 8256"
    using b(2) by (simp_all add: hd seg_simps le64_def itob_def)
  obtain sb rb nb where br: "branch_for layers 2 = Inr sb" "branch_for layers 3 = Inr rb" "branch_for layers 6 = Inr nb"
    using t(3) by (simp add: tree_of_def)
  have "\<exists>fx. build_direct_fixture H wx_payload wd_branch (wd_header H) = Inr fx \<and> df_el_block_number fx = 7"
    by (simp add: build_direct_fixture_def deep_branch_def r field_indices br Let_def wx_payload_def [THEN arg_cong, of ph_block_number])
  then show ?thesis using that [OF r] b sg by auto
qed

end
