(* ===== verification/Props_Fix.thy ===== *)
theory Props_Fix
  imports Rel_Total
begin

text \<open>
  Properties of the relayer's anchor driver and of the deployment's fork rows: what the relayer builds from
  a finalized state and a block is what the anchor's candidate checks accept, at the rows the deployment
  registers.
\<close>

text \<open>
C32: an honest historical anchoring succeeds. If the relayer builds a historical fixture from the API's
finalized state, header and block (each header answered for the slot that was asked), the offset lies in
the window of 8192 slots, the verifier's globals hold the finalized header's slot, root and state root,
and the two epochs' fork rows are rows the deployment's generator emits (Fulu for the finalized epoch,
any supported fork for the target's), then the anchor's checks accept the fixture's arguments: the
candidate record binds the target slot, the block number and both execution roots.
\<close>

theorem relayer_historical_accepted:
  assumes H: "\<And>x. length (H x) = 32"
    and fixt: "build_historical_fixture H fetch_state fetch_header fetch_body fin_header off = Inr fx"
    and api: "\<And>t hm root. fetch_header t = Inr (hm, root) \<Longrightarrow> int (jh_slot hm) = t"
    and pay: "\<And>t body. fetch_body t = Inr body \<Longrightarrow> payload_ok (fp_header (bb_execution_payload body))"
    and off: "0 < off" "off \<le> 8192"
    and m4: "read_m4_finalized E m (an_m4_app s) = Inr (hf_fin_slot fx, hf_fin_root fx, seg 48 32 fin_header)"
    and nz: "hf_fin_root fx \<noteq> zero_address"
    and row1: "m8_fork_row ''fulu'' e1 None None = Inr r1"
      "lookup_row (an_globals s) (an_fork_count s) (epoch_of (hf_fin_slot fx)) = Inr (snd (M8ForkRow_as_tuple r1))"
    and row2: "m8_fork_row fork e2 None None = Inr r2"
      "lookup_row (an_globals s) (an_fork_count s) (epoch_of (nat (hf_t_slot fx))) = Inr (snd (M8ForkRow_as_tuple r2))"
  shows "\<exists>a. anchor_historical_candidate H E s m (hf_fin_header fx) (hf_target_header fx) (hf_block_roots_branch fx)
      (hf_el_state_root fx, hf_el_receipts_root fx, hf_el_block_number fx, hf_state_branch fx, hf_receipts_branch fx,
       hf_number_branch fx) = Inr a \<and>
    int (rec_slot a) = hf_t_slot fx \<and> rec_block a = hf_el_block_number fx \<and>
    seg 18 32 a = hf_el_state_root fx \<and> seg 50 32 a = hf_el_receipts_root fx"
proof -
  obtain ts where ts: "hf_t_slot fx = int ts" "int ts = int (hf_fin_slot fx) - off" and fh: "hf_fin_header fx = fin_header"
      "length fin_header = 112" "hf_fin_root fx = tree_root H (header_tree fin_header)"
    and t: "length (hf_target_header fx) = 112" "header_slot (hf_target_header fx) = Inr ts"
    and folds: "folds_to H (tree_root H (header_tree (hf_target_header fx))) (hf_block_roots_branch fx) (69 * 8192 + ts mod 8192)
       (seg 48 32 fin_header)"
      "folds_to H (hf_el_state_root fx) (hf_state_branch fx) 802 (seg 80 32 (hf_target_header fx))"
      "folds_to H (hf_el_receipts_root fx) (hf_receipts_branch fx) 803 (seg 80 32 (hf_target_header fx))"
      "folds_to H (block_number_leaf (hf_el_block_number fx)) (hf_number_branch fx) 806 (seg 80 32 (hf_target_header fx))"
    and bn: "hf_el_block_number fx < uint64_limit"
    by (rule historical_fixture_parts [where H = H, OF H fixt api pay])
  have f: "fork_depth ''fulu'' = 6" by (simp add: fork_depth_def lower_char_def)
  note rows = row1(2) row2(2) [unfolded ts(1) nat_int]
  have r: "snd (M8ForkRow_as_tuple r1) = (802, 803, 806, 69)" "\<exists>b. snd (M8ForkRow_as_tuple r2) = (802, 803, 806, b)"
    using row1(1) row2(1) by (auto simp: m8_row_values M8ForkRow_as_tuple_def f)
  have l: "length (hf_el_state_root fx) = 32" "length (hf_el_receipts_root fx) = 32"
      "length (tree_root H (header_tree (hf_target_header fx))) = 32" "length (hf_fin_root fx) = 32"
    using folds length_tree_root [OF wf_header_tree [OF fh(2)] H] by (simp_all add: folds_to_def fh(3))
  then obtain a where a: "build_record True (hf_el_block_number fx) ts (hf_el_state_root fx) (hf_el_receipts_root fx)
      (tree_root H (header_tree (hf_target_header fx))) (hf_fin_root fx) (ce_round E) = Inr a"
    by (simp add: build_record_Inr)
  have w: "ts < hf_fin_slot fx" "hf_fin_slot fx \<le> ts + 8192" using ts(2) off by linarith+
  have "ts mod 8192 < 8192" by simp
  then have g: "69 * 8192 + ts mod 8192 < uint64_limit" by (simp add: uint64_limit_def)
  have "anchor_historical_candidate H E s m (hf_fin_header fx) (hf_target_header fx) (hf_block_roots_branch fx)
      (hf_el_state_root fx, hf_el_receipts_root fx, hf_el_block_number fx, hf_state_branch fx, hf_receipts_branch fx,
       hf_number_branch fx) = Inr a"
    unfolding historical_candidate_Inr [where H = H, OF H] fh(1)
    using m4 nz fh(2,3) t w rows r folds g a by auto
  then show ?thesis
    using build_record_fields [OF a bn header_slot_less [OF t(2)]] ts(1) by auto
qed

theorem relayer_historical_accepted_witness:
  "\<exists>fx a. build_historical_fixture head_hash (\<lambda>_. Inr (wx_state (wx_target_root head_hash))) (wx_fetch_header head_hash)
      (\<lambda>_. Inr wx_body) (wx_fin head_hash) 64 = Inr fx \<and>
    anchor_historical_candidate head_hash wx_env wx_anchor 7 (hf_fin_header fx) (hf_target_header fx) (hf_block_roots_branch fx)
      (hf_el_state_root fx, hf_el_receipts_root fx, hf_el_block_number fx, hf_state_branch fx, hf_receipts_branch fx,
       hf_number_branch fx) = Inr a \<and> rec_slot a = 8192 \<and> rec_block a = 7"
proof -
  obtain fx where fx: "build_historical_fixture head_hash (\<lambda>_. Inr (wx_state (wx_target_root head_hash)))
      (wx_fetch_header head_hash) (\<lambda>_. Inr wx_body) (wx_fin head_hash) 64 = Inr fx"
    and v: "hf_fin_slot fx = 8256" "hf_t_slot fx = 8192" "hf_fin_root fx = tree_root head_hash (header_tree (wx_fin head_hash))"
      "length (wx_fin head_hash) = 112" "hf_el_block_number fx = 7"
    by (rule wx_fixture [where H = head_hash, OF length_head_hash])
  have api: "int (jh_slot hm) = t" if "wx_fetch_header head_hash t = Inr (hm, root)" for t hm root
    using that by (auto simp: wx_fetch_header_def wx_header_def split: if_splits)
  have pay: "payload_ok (fp_header (bb_execution_payload body))" if "Inr wx_body = (Inr body :: block_body py)" for body
    using that wx_payload_ok by (auto simp: wx_body_def)
  have m4: "read_m4_finalized wx_env 7 (an_m4_app wx_anchor) = Inr (hf_fin_slot fx, hf_fin_root fx, seg 48 32 (wx_fin head_hash))"
    using ascii_names by (simp add: read_m4_Inr wx_env_def wx_anchor_def dm_ring_def dm_base_def v)
  have look: "lookup_row (an_globals wx_anchor) (an_fork_count wx_anchor) e = Inr (snd (M8ForkRow_as_tuple \<lparr>r8_activation_epoch = 0,
      r8_g_state_root = 802, r8_g_receipts_root = 803, r8_g_block_number = 806, r8_g_block_roots_base = 69\<rparr>))" for e
    by (simp add: wx_lookup M8ForkRow_as_tuple_def)
  have "\<exists>a. anchor_historical_candidate head_hash wx_env wx_anchor 7 (hf_fin_header fx) (hf_target_header fx) (hf_block_roots_branch fx)
      (hf_el_state_root fx, hf_el_receipts_root fx, hf_el_block_number fx, hf_state_branch fx, hf_receipts_branch fx,
       hf_number_branch fx) = Inr a \<and>
    int (rec_slot a) = hf_t_slot fx \<and> rec_block a = hf_el_block_number fx \<and>
    seg 18 32 a = hf_el_state_root fx \<and> seg 50 32 a = hf_el_receipts_root fx"
    by (rule relayer_historical_accepted [where H = head_hash, OF length_head_hash fx api pay _ _ m4 _ wx_row look wx_row look])
      (simp_all add: v head_root_nonzero wx_fin_def)
  then show ?thesis using fx v by auto
qed

text \<open>
C33: an honest direct anchoring succeeds. If the light-client header carries a payload header with 32-byte
roots and a branch that leads from the payload's root to the header's body root at index 25, the
verifier's globals hold that header, and the epoch's fork row is one the deployment's generator emits,
then the anchor's checks accept the arguments of the direct fixture, and the candidate record binds the
header's slot, the block number and both execution roots.
\<close>

theorem relayer_direct_accepted:
  assumes H: "\<And>x. length (H x) = 32" and fixt: "build_direct_fixture H payload eb fin_header = Inr fx"
    and ok: "payload_ok payload" "length (ph_transactions_root payload) = 32" "length (ph_withdrawals_root payload) = 32"
    and root: "build_execution_payload_tree H payload = Inr (proot, layers)"
    and outer: "compute_branch_root H proot (concat eb) 25 = Inr (seg 80 32 fin_header)" and lh: "length fin_header = 112"
    and m4: "read_m4_finalized E m (an_m4_app s) = Inr (df_fin_slot fx, tree_root H (header_tree fin_header), seg 48 32 fin_header)"
    and nz: "tree_root H (header_tree fin_header) \<noteq> zero_address"
    and row: "m8_fork_row fork e None None = Inr r"
      "lookup_row (an_globals s) (an_fork_count s) (epoch_of (df_fin_slot fx)) = Inr (snd (M8ForkRow_as_tuple r))"
  shows "(df_g_state_root fx, df_g_receipts_root fx, df_g_block_number fx) =
      (r8_g_state_root r, r8_g_receipts_root r, r8_g_block_number r) \<and>
    (\<exists>a. anchor_direct_candidate H E s m (df_fin_header fx) (df_el_state_root fx, df_el_receipts_root fx, df_el_block_number fx,
        df_state_branch fx, df_receipts_branch fx, df_number_branch fx) = Inr a \<and>
      rec_slot a = df_t_slot fx \<and> rec_block a = df_el_block_number fx \<and>
      seg 18 32 a = df_el_state_root fx \<and> seg 50 32 a = df_el_receipts_root fx)"
proof -
  note p = direct_fixture_parts [where H = H, OF H fixt ok root outer]
  have ts: "df_t_slot fx = df_fin_slot fx"
    using fixt by (auto simp: build_direct_fixture_def res_simps Let_def)
  have "be_val (rev (seg 0 8 fin_header)) < 256 ^ length (rev (seg 0 8 fin_header))" by (rule be_val_less)
  then have sl: "df_fin_slot fx < uint64_limit" using lh by (simp add: p(2) uint64_limit_def)
  have slot: "header_slot fin_header = Inr (df_fin_slot fx)"
    unfolding header_slot_eq using lh sl itob_be_val [of "rev (seg 0 8 fin_header)"] by (simp add: p(2) le64_def)
  have g: "r8_g_state_root r = 802" "r8_g_receipts_root r = 803" "r8_g_block_number r = 806"
      "snd (M8ForkRow_as_tuple r) = (802, 803, 806, r8_g_block_roots_base r)"
    using row(1) by (auto simp: m8_row_values M8ForkRow_as_tuple_def)
  have "length (tree_root H (header_tree fin_header)) = 32" by (rule length_tree_root [OF wf_header_tree [OF lh] H])
  then obtain a where a: "build_record False (df_el_block_number fx) (df_fin_slot fx) (df_el_state_root fx) (df_el_receipts_root fx)
      (tree_root H (header_tree fin_header)) (tree_root H (header_tree fin_header)) (ce_round E) = Inr a"
    using p(6,7) by (simp add: build_record_Inr)
  have "anchor_direct_candidate H E s m (df_fin_header fx) (df_el_state_root fx, df_el_receipts_root fx, df_el_block_number fx,
        df_state_branch fx, df_receipts_branch fx, df_number_branch fx) = Inr a"
    unfolding direct_candidate_Inr [where H = H, OF H] p(1)
    using m4 nz lh slot row(2) [unfolded g(4)] p(9-11) a by blast
  then show ?thesis using build_record_fields [OF a p(8) sl] by (auto simp: ts g p(3-5))
qed

theorem relayer_direct_accepted_witness:
  "\<exists>fx a. build_direct_fixture head_hash wx_payload wd_branch (wd_header head_hash) = Inr fx \<and>
    anchor_direct_candidate head_hash wd_env wx_anchor 7 (df_fin_header fx) (df_el_state_root fx, df_el_receipts_root fx,
      df_el_block_number fx, df_state_branch fx, df_receipts_branch fx, df_number_branch fx) = Inr a \<and> rec_block a = 7"
proof -
  obtain proot layers fx where r: "build_execution_payload_tree head_hash wx_payload = Inr (proot, layers)"
    and o: "compute_branch_root head_hash proot (concat wd_branch) 25 = Inr (seg 80 32 (wd_header head_hash))"
      "length (wd_header head_hash) = 112"
    and fx: "build_direct_fixture head_hash wx_payload wd_branch (wd_header head_hash) = Inr fx"
    and v: "be_val (rev (seg 0 8 (wd_header head_hash))) = 8256" "df_el_block_number fx = 7"
    by (rule wd_fixture [where H = head_hash, OF length_head_hash])
  have w: "length (ph_transactions_root wx_payload) = 32" "length (ph_withdrawals_root wx_payload) = 32"
    by (simp_all add: wx_payload_def zero32_def)
  have sl: "df_fin_slot fx = 8256"
    using direct_fixture_parts(2) [where H = head_hash, OF length_head_hash fx wx_payload_ok w r o(1)] v by simp
  have m4: "read_m4_finalized wd_env 7 (an_m4_app wx_anchor) =
      Inr (df_fin_slot fx, tree_root head_hash (header_tree (wd_header head_hash)), seg 48 32 (wd_header head_hash))"
    using ascii_names by (simp add: read_m4_Inr wd_env_def wx_env_def wx_anchor_def dm_ring_def dm_base_def sl)
  have look: "lookup_row (an_globals wx_anchor) (an_fork_count wx_anchor) e = Inr (snd (M8ForkRow_as_tuple \<lparr>r8_activation_epoch = 0,
      r8_g_state_root = 802, r8_g_receipts_root = 803, r8_g_block_number = 806, r8_g_block_roots_base = 69\<rparr>))" for e
    by (simp add: wx_lookup M8ForkRow_as_tuple_def)
  have nz: "tree_root head_hash (header_tree (wd_header head_hash)) \<noteq> zero_address"
    by (simp add: wd_header_def head_root_nonzero)
  from relayer_direct_accepted [where H = head_hash, OF length_head_hash fx wx_payload_ok w r o m4 nz wx_row look] fx v
  show ?thesis by auto
qed

text \<open>A hash that reads its whole argument and continues the zero-hash table up to depth 3.\<close>

definition table_hash :: "bytes \<Rightarrow> bytes" where
  "table_hash x = (if x = zero_root 0 @ zero_root 0 then zero_root 1 else if x = zero_root 1 @ zero_root 1 then zero_root 2
     else if x = zero_root 2 @ zero_root 2 then zero_root 3 else be_bytes 32 (be_val x mod (2 ^ 255 - 19)))"

lemma length_table_hash [simp]: "length (table_hash x) = 32"
  by (simp add: table_hash_def del: be_bytes.simps)

lemma table_hash_ok: "zero_table_ok table_hash 3"
proof -
  have v: "be_val (zero_root 0) = zero_hash_rows ! 0" "be_val (zero_root 1) = zero_hash_rows ! 1"
    "be_val (zero_root 2) = zero_hash_rows ! 2"
    unfolding zero_root_def by (rule be_val_be_bytes, simp add: zero_hash_rows_def)+
  have "zero_hash_rows ! 1 \<noteq> zero_hash_rows ! 0" "zero_hash_rows ! 2 \<noteq> zero_hash_rows ! 0" "zero_hash_rows ! 2 \<noteq> zero_hash_rows ! 1"
    by (simp_all add: zero_hash_rows_def)
  then have d: "zero_root 1 \<noteq> zero_root 0" "zero_root 2 \<noteq> zero_root 0" "zero_root 2 \<noteq> zero_root 1"
    using v by metis+
  have "zero_root (Suc i) = table_hash (zero_root i @ zero_root i)" if "i < 3" for i
  proof -
    from that consider "i = 0" | "i = 1" | "i = 2" by linarith
    then show ?thesis by cases (use d in \<open>simp_all add: table_hash_def numeral_2_eq_2 numeral_3_eq_3\<close>)
  qed
  then show ?thesis by (simp add: zero_table_ok_def)
qed

text \<open>
C35: the contract and the relayer compute the same Merkle roots. For a hash of which the contract's
zero-hash table holds the roots up to the depth (the table is written for SHA-256), on any packed list of at most
\<open>2 ^ depth\<close> chunks, exactly full ones included, the contract's streaming accumulator and the relayer's layered
merkleization return the root of the zero-padded list of chunks, and the two length mix-ins agree.
\<close>

theorem relayer_contract_roots_agree:
  assumes "\<And>x. length (H x) = 32" and "zero_table_ok H depth" and "depth \<le> 62"
    and "n \<le> 2 ^ depth" and "length arg = 32 * n" and "btoi a0 = Inr n" and "btoi a2 = Inr depth"
  shows "\<exists>root mixed. merkleize_benchmark H a0 arg a2 = Inr (root, mixed) \<and>
    merkleize_with_limit H (chunks32 arg n) (2 ^ depth) = Inr root \<and> rel_mix_in_length H root n = Inr mixed \<and>
    root = chunk_root H depth (chunks32 arg n)"
proof -
  have "n < 256 ^ 32" using btoi_less [OF assms(6)] by (simp add: uint64_limit_def)
  then show ?thesis
    using benchmark_run [where H = H, OF assms] merkleize_with_limit_eq [of "chunks32 arg n" depth H] assms(4)
    by (simp add: rel_mix_in_length_def to_bytes_le_def require_def)
qed

theorem relayer_contract_roots_agree_witness:
  "\<exists>root mixed. merkleize_benchmark table_hash [3] (ssz_leaf 1 @ ssz_leaf 2 @ ssz_leaf 3) [3] = Inr (root, mixed) \<and>
    merkleize_with_limit table_hash [ssz_leaf 1, ssz_leaf 2, ssz_leaf 3] 8 = Inr root \<and>
    rel_mix_in_length table_hash root 3 = Inr mixed \<and>
    root = table_hash (table_hash (table_hash (ssz_leaf 1 @ ssz_leaf 2) @ table_hash (ssz_leaf 3 @ zero_root 0)) @ zero_root 2)"
proof -
  let ?cs = "[ssz_leaf 1, ssz_leaf 2, ssz_leaf 3]" and ?arg = "ssz_leaf 1 @ ssz_leaf 2 @ ssz_leaf 3"
  have c: "chunks32 ?arg 3 = ?cs" using chunks32_concat [of ?cs] by (simp add: numeral_3_eq_3)
  have n: "(3::nat) \<le> 62" "(3::nat) \<le> 2 ^ 3" "length ?arg = 32 * 3" "btoi [3] = Inr 3" by (simp_all add: btoi_def be_val_def)
  have "chunk_root table_hash 2 [] = zero_root 2" by (rule chunk_root_Nil [OF table_hash_ok]) simp
  then have "chunk_root table_hash 3 ?cs =
      table_hash (table_hash (table_hash (ssz_leaf 1 @ ssz_leaf 2) @ table_hash (ssz_leaf 3 @ zero_root 0)) @ zero_root 2)"
    by (simp add: numeral_3_eq_3 numeral_2_eq_2 zero_root_0)
  then show ?thesis
    using relayer_contract_roots_agree [where H = table_hash, OF length_table_hash table_hash_ok n(1,2,3,4,4)] unfolding c by simp
qed

text \<open>
C34: the deployment's fork rows point at the fields they are meant for. In the state tree that the relayer
builds from a Fulu state, the root of the current and of the next sync committee, exactly the committee
root the verifier's installation computes, is the leaf at the row's two committee indices, and the root
of the finalized checkpoint is the leaf at its finality index: branches that the verifier accepts exist.
\<close>

theorem fork_row_points_at_fields:
  assumes H: "\<And>x. length (H x) = 32" and st: "build_beacon_state_tree H d = Inr (root, fr, raw)"
    and row: "m4_fork_row ''fulu'' e fv None = Inr row" and cp: "length (cp_root (bs_finalized_checkpoint d)) = 32"
  shows "(\<exists>branch. folds_to H (committee_root H (jc_pubkeys (bs_current_sync_committee d))
        (jc_aggregate_pubkey (bs_current_sync_committee d))) branch (r4_current_sc_gindex row) root) \<and>
    (\<exists>branch. folds_to H (committee_root H (jc_pubkeys (bs_next_sync_committee d))
        (jc_aggregate_pubkey (bs_next_sync_committee d))) branch (r4_next_sc_gindex row) root) \<and>
    (\<exists>branch. folds_to H (cp_root (bs_finalized_checkpoint d)) branch (r4_finality_gindex row) root)"
proof -
  have g: "r4_current_sc_gindex row = 2 ^ 6 + 22" "r4_next_sc_gindex row = 2 ^ 6 + 23" "r4_finality_gindex row = (2 ^ 6 + 20) * 2 + 1"
    using row by (simp_all add: m4_row_values fork_depth_def lower_char_def)
  show ?thesis
    unfolding g using state_field_folds [where H = H, OF H st, of 22] state_field_folds [where H = H, OF H st, of 23]
      state_committees [OF st] checkpoint_folds [where H = H, OF H st cp] by simp
qed

theorem fork_row_points_at_fields_witness:
  "\<exists>root fr branch. build_beacon_state_tree head_hash (wx_state zero32) = Inr (root, fr, replicate 8192 zero32) \<and>
    folds_to head_hash dm_sr branch 169 root"
proof -
  have z: "length zero32 = 32" by (simp add: zero32_def)
  obtain root fr where st: "build_beacon_state_tree head_hash (wx_state zero32) = Inr (root, fr, replicate 8192 zero32)"
    by (rule wx_state_tree [where H = head_hash, OF length_head_hash z])
  have cp: "cp_root (bs_finalized_checkpoint (wx_state zero32)) = dm_sr" by (simp add: wx_state_def wx_checkpoint_def)
  have "\<exists>row. m4_fork_row ''fulu'' 0 [6, 0, 0, 0] None = Inr row \<and> r4_finality_gindex row = 169"
    by (simp add: m4_row_values FORK_FIELD_COUNTS_def fork_depth_def lower_char_def)
  then obtain row where row: "m4_fork_row ''fulu'' 0 [6, 0, 0, 0] None = Inr row" "r4_finality_gindex row = 169" by blast
  have "length (cp_root (bs_finalized_checkpoint (wx_state zero32))) = 32" by (simp add: cp)
  from fork_row_points_at_fields [where H = head_hash, OF length_head_hash st row(1) this] st row(2) cp show ?thesis by auto
qed

end
