(* ===== verification/Rel_M4.thy ===== *)
theory Rel_M4
  imports SC_Live Rel_State "HOL-Library.AList" "HOL-Library.List_Lexorder"
begin

text \<open>
  The light-client driver of the relayer: the box-reference planner (\<open>relayer/group/boxes.py\<close>), the point
  codecs (\<open>codec/bls.py\<close>), the argument transforms of \<open>drivers/m4_sync_committee.py\<close>, and the groups that
  \<open>client.py\<close> submits to install a committee, to update and to retire. A box is available to a call only if
  its group names it. The decompression of \<open>py_ecc\<close>, the beacon API and the clock are parameters.
\<close>

section \<open>Box references\<close>

definition MAX_BOX_REFS_PER_TXN :: nat where "MAX_BOX_REFS_PER_TXN = 8"
definition BOX_WRITE_BUDGET_BYTES_PER_REF :: nat where "BOX_WRITE_BUDGET_BYTES_PER_REF = 2048"
definition MAX_TXNS_PER_GROUP :: nat where "MAX_TXNS_PER_GROUP = 16"
definition KEY_BOX_BYTES :: nat where "KEY_BOX_BYTES = 6144"
definition TOTAL_BOX_BYTES :: nat where "TOTAL_BOX_BYTES = 96"
definition SESSION_BOX_BYTES_R :: nat where "SESSION_BOX_BYTES_R = 424"
definition KEYS_PER_BOX_R :: nat where "KEYS_PER_BOX_R = 64"
definition BOXES_PER_COMMITTEE_R :: nat where "BOXES_PER_COMMITTEE_R = 8"

record box_ref_plan =
  distinct_boxes :: "bytes list"
  total_declared_bytes :: nat
  refs_required :: nat
  txns_required :: nat
  fits_in_group :: bool

text \<open>\<open>ceil(n / k)\<close> and \<open>range(a, b, step)\<close>.\<close>

definition ceil_div :: "nat \<Rightarrow> nat \<Rightarrow> nat" where "ceil_div n k = (n + k - 1) div k"
definition py_range :: "nat \<Rightarrow> nat \<Rightarrow> nat \<Rightarrow> nat list" where
  "py_range a b step = map (\<lambda>k. a + k * step) [0..<ceil_div (b - a) step]"

definition check_fits :: "box_ref_plan \<Rightarrow> nat \<Rightarrow> nat \<Rightarrow> unit py" where
  "check_fits p other_real_txns max_group_txns =
     require (txns_required p + other_real_txns \<le> max_group_txns) ValueError (Inr ())"

text \<open>A dictionary is an association list with distinct keys, in the order of insertion.\<close>

definition plan_box_refs :: "(bytes \<times> nat) list \<Rightarrow> box_ref_plan" where
  "plan_box_refs box_sizes =
     (if box_sizes = [] then
        \<lparr>distinct_boxes = [], total_declared_bytes = 0, refs_required = 0, txns_required = 0, fits_in_group = True\<rparr>
      else
        let dist = sort (map fst box_sizes); total_bytes = sum_list (map snd box_sizes);
            refs = max (length dist) (ceil_div total_bytes BOX_WRITE_BUDGET_BYTES_PER_REF);
            txns_min = ceil_div refs MAX_BOX_REFS_PER_TXN in
        \<lparr>distinct_boxes = dist, total_declared_bytes = total_bytes, refs_required = refs,
         txns_required = txns_min, fits_in_group = True\<rparr>)"

definition key_box_name_r :: "nat \<Rightarrow> nat \<Rightarrow> bytes py" where
  "key_box_name_r gen j =
     rbind (to_bytes_be 8 gen) (\<lambda>g. rbind (to_bytes_be 8 j) (\<lambda>b. Inr ([0x6b, 0x3a] @ g @ seg 7 1 b)))"

definition total_box_name_r :: "nat \<Rightarrow> bytes py" where
  "total_box_name_r gen = rbind (to_bytes_be 8 gen) (\<lambda>g. Inr ([0x61, 0x3a] @ g))"

definition session_box_name_r :: "nat \<Rightarrow> bytes py" where
  "session_box_name_r gen = rbind (to_bytes_be 8 gen) (\<lambda>g. Inr ([0x73, 0x3a] @ g))"

fun set_key_boxes :: "nat \<Rightarrow> nat list \<Rightarrow> (bytes \<times> nat) list \<Rightarrow> (bytes \<times> nat) list py" where
  "set_key_boxes gen [] sizes = Inr sizes"
| "set_key_boxes gen (j # js) sizes =
     rbind (key_box_name_r gen j) (\<lambda>name. set_key_boxes gen js (AList.update name KEY_BOX_BYTES sizes))"

definition m4_submit_update_box_sizes :: "nat \<Rightarrow> nat set \<Rightarrow> bool \<Rightarrow> (bytes \<times> nat) list py" where
  "m4_submit_update_box_sizes gen key_box_indices include_total =
     rbind (set_key_boxes gen (sorted_list_of_set key_box_indices) []) (\<lambda>sizes.
     if include_total then
       rbind (total_box_name_r gen) (\<lambda>name. Inr (AList.update name TOTAL_BOX_BYTES sizes))
     else Inr sizes)"

definition m4_retire_box_sizes :: "nat \<Rightarrow> (bytes \<times> nat) list py" where
  "m4_retire_box_sizes gen =
     rbind (set_key_boxes gen [0..<BOXES_PER_COMMITTEE_R] []) (\<lambda>sizes.
     rbind (total_box_name_r gen) (\<lambda>name. Inr (AList.update name TOTAL_BOX_BYTES sizes)))"

definition m4_install_open_box_sizes :: "nat \<Rightarrow> (bytes \<times> nat) list py" where
  "m4_install_open_box_sizes gen =
     rbind (set_key_boxes gen [0..<BOXES_PER_COMMITTEE_R] []) (\<lambda>sizes.
     rbind (session_box_name_r gen) (\<lambda>name. Inr (AList.update name SESSION_BOX_BYTES_R sizes)))"

definition bit_set_r :: "bytes \<Rightarrow> nat \<Rightarrow> bool py" where
  "bit_set_r bits i =
     require (i div 8 < length bits) IndexError (Inr (and (drop_bit (7 - i mod 8) (bits ! (i div 8))) 1 = 1))"

definition key_box_indices_for_mode :: "bytes \<Rightarrow> nat \<Rightarrow> nat \<Rightarrow> nat \<Rightarrow> nat set py" where
  "key_box_indices_for_mode bits mode keys_per_box committee_size =
     rbind (py_seq (map (bit_set_r bits) [0..<committee_size])) (\<lambda>bs.
     Inr (set (map (\<lambda>i. i div keys_per_box)
       (filter (\<lambda>i. if mode = 0 then bs ! i else \<not> bs ! i) [0..<committee_size]))))"

definition choose_mode :: "bytes \<Rightarrow> nat \<Rightarrow> (nat \<times> box_ref_plan) py" where
  "choose_mode bits gen =
     rbind (key_box_indices_for_mode bits 0 KEYS_PER_BOX_R 512) (\<lambda>direct_idx.
     rbind (key_box_indices_for_mode bits 1 KEYS_PER_BOX_R 512) (\<lambda>complement_idx.
     rbind (m4_submit_update_box_sizes gen direct_idx False) (\<lambda>direct_sizes.
     rbind (m4_submit_update_box_sizes gen complement_idx True) (\<lambda>complement_sizes.
     let direct_plan = plan_box_refs direct_sizes; complement_plan = plan_box_refs complement_sizes in
     if refs_required direct_plan = refs_required complement_plan then
       rbind (py_seq (map (bit_set_r bits) [0..<512])) (\<lambda>bs.
       let popcount = length (filter id bs) in
       Inr (if popcount > 256 then (0, direct_plan) else (1, complement_plan)))
     else Inr (if refs_required direct_plan < refs_required complement_plan then (0, direct_plan)
               else (1, complement_plan))))))"

section \<open>Donors (\<open>relayer/group/budget.py\<close>)\<close>

definition DONOR_NET_YIELD_PER_CALL :: nat where "DONOR_NET_YIELD_PER_CALL = 682"
definition BASE_BUDGET_PER_APP_CALL :: nat where "BASE_BUDGET_PER_APP_CALL = 700"
definition INNER_CALL_CEILING_PER_GROUP :: nat where "INNER_CALL_CEILING_PER_GROUP = 256"

record donor_sizing =
  n_donors :: nat
  base_budget :: nat
  measured_consumed :: nat
  ds_margin :: nat

definition size_donors :: "nat \<Rightarrow> nat \<Rightarrow> nat \<Rightarrow> donor_sizing" where
  "size_donors measured n_app_calls_in_group margin =
     (let base = BASE_BUDGET_PER_APP_CALL * n_app_calls_in_group; needed = measured - base;
          n = max margin (ceil_div needed DONOR_NET_YIELD_PER_CALL + margin) in
      \<lparr>n_donors = n, base_budget = base, measured_consumed = measured, ds_margin = margin\<rparr>)"

definition assert_inner_call_budget_ok :: "nat \<Rightarrow> nat \<Rightarrow> nat \<Rightarrow> unit py" where
  "assert_inner_call_budget_ok n other_inner_calls ceiling =
     require (n + other_inner_calls \<le> ceiling) ValueError (Inr ())"

section \<open>Points\<close>

text \<open>An affine point, or \<open>None\<close> for infinity; \<open>dg1\<close> and \<open>dg2\<close> are \<open>_to_affine\<close> after \<open>decompress_G1\<close> and
  \<open>decompress_G2\<close>.\<close>

type_synonym fp = nat
type_synonym fp2 = "nat \<times> nat"

definition g1_uncompressed_avm :: "(fp \<times> fp) option \<Rightarrow> bytes py" where
  "g1_uncompressed_avm point = (case point of
       None \<Rightarrow> Inr (replicate 96 0)
     | Some (x, y) \<Rightarrow> rbind (to_bytes_be 48 x) (\<lambda>a. rbind (to_bytes_be 48 y) (\<lambda>b. Inr (a @ b))))"

definition g2_uncompressed_avm :: "(fp2 \<times> fp2) option \<Rightarrow> bytes py" where
  "g2_uncompressed_avm point = (case point of
       None \<Rightarrow> Inr (replicate 192 0)
     | Some ((x0, x1), (y0, y1)) \<Rightarrow>
         rbind (to_bytes_be 48 x0) (\<lambda>a. rbind (to_bytes_be 48 x1) (\<lambda>b.
         rbind (to_bytes_be 48 y0) (\<lambda>c. rbind (to_bytes_be 48 y1) (\<lambda>d. Inr (a @ b @ c @ d))))))"

definition g1_compressed_to_avm :: "(nat \<Rightarrow> (fp \<times> fp) option py) \<Rightarrow> bytes \<Rightarrow> (bytes \<times> bytes) py" where
  "g1_compressed_to_avm dg1 cbs =
     require (length cbs = 48) AssertionError (
     rbind (dg1 (be_val cbs)) (\<lambda>pt.
     rbind (g1_uncompressed_avm pt) (\<lambda>uncompressed.
     require (length uncompressed = 96) AssertionError (Inr (cbs, uncompressed)))))"

definition g2_compressed_to_avm :: "(nat \<times> nat \<Rightarrow> (fp2 \<times> fp2) option py) \<Rightarrow> bytes \<Rightarrow> bytes py" where
  "g2_compressed_to_avm dg2 sig =
     require (length sig = 96) AssertionError (
     rbind (dg2 (be_val (take 48 sig), be_val (drop 48 sig))) (\<lambda>pt.
     rbind (g2_uncompressed_avm pt) (\<lambda>out.
     require (length out = 192) AssertionError (Inr out))))"

section \<open>Arguments (\<open>relayer/drivers/m4_sync_committee.py\<close>)\<close>

record json_finality_update =
  fu_attested_header :: json_header
  fu_finalized_header :: json_header
  fu_finality_branch :: "bytes list"
  fu_bits :: bytes
  fu_signature :: bytes
  fu_signature_slot :: nat
  fu_next :: "(json_committee \<times> bytes list) option"

definition transform_finality_update :: "(nat \<times> nat \<Rightarrow> (fp2 \<times> fp2) option py) \<Rightarrow> json_finality_update \<Rightarrow> sc_update py" where
  "transform_finality_update dg2 d =
     rbind (decode_header (fu_attested_header d)) (\<lambda>attested_header.
     rbind (decode_header (fu_finalized_header d)) (\<lambda>finalized_header.
     rbind (decode_branch (fu_finality_branch d)) (\<lambda>finality_branch.
     require (length (fu_bits d) = 64) AssertionError (
     rbind (g2_compressed_to_avm dg2 (fu_signature d)) (\<lambda>signature.
     Inr \<lparr>u_attested = attested_header, u_finalized = finalized_header, u_finality_branch = finality_branch,
       u_next_root = replicate 32 0, u_next_branch = [], u_bits = fu_bits d, u_signature = signature,
       u_sig_slot = fu_signature_slot d, u_mode = 0\<rparr>)))))"

definition transform_light_client_update ::
  "(bytes \<Rightarrow> bytes) \<Rightarrow> (nat \<times> nat \<Rightarrow> (fp2 \<times> fp2) option py) \<Rightarrow> json_finality_update \<Rightarrow> sc_update py" where
  "transform_light_client_update H dg2 d =
     rbind (transform_finality_update dg2 d) (\<lambda>args. case fu_next d of
       None \<Rightarrow> Inr args
     | Some (nsc, branch) \<Rightarrow>
         rbind (rel_committee_root H (jc_pubkeys nsc) (jc_aggregate_pubkey nsc)) (\<lambda>root.
         rbind (decode_branch branch) (\<lambda>b. Inr (args\<lparr>u_next_root := root, u_next_branch := b\<rparr>))))"

record json_bootstrap =
  jb_header :: json_header
  jb_committee :: json_committee
  jb_branch :: "bytes list"

record boot_args =
  ba_header :: bytes
  ba_committee_root :: bytes
  ba_branch :: bytes
  ba_pairs :: "(bytes \<times> bytes) list"
  ba_aggregate_compressed :: bytes
  ba_aggregate_uncompressed :: bytes

definition transform_bootstrap ::
  "(bytes \<Rightarrow> bytes) \<Rightarrow> (nat \<Rightarrow> (fp \<times> fp) option py) \<Rightarrow> json_bootstrap \<Rightarrow> boot_args py" where
  "transform_bootstrap H dg1 d =
     rbind (decode_header (jb_header d)) (\<lambda>header.
     let csc = jb_committee d in
     rbind (rel_committee_root H (jc_pubkeys csc) (jc_aggregate_pubkey csc)) (\<lambda>root.
     rbind (decode_branch (jb_branch d)) (\<lambda>branch.
     rbind (py_seq (map (g1_compressed_to_avm dg1) (jc_pubkeys csc))) (\<lambda>pairs.
     rbind (g1_compressed_to_avm dg1 (jc_aggregate_pubkey csc)) (\<lambda>(agg_compressed, agg_uncompressed).
     Inr \<lparr>ba_header = header, ba_committee_root = root, ba_branch = branch, ba_pairs = pairs,
       ba_aggregate_compressed = agg_compressed, ba_aggregate_uncompressed = agg_uncompressed\<rparr>)))))"

definition INSTALL_CHUNK_SIZE :: nat where "INSTALL_CHUNK_SIZE = 8"
definition BYTES_PER_MEMBER :: nat where "BYTES_PER_MEMBER = 48 + 96"
definition MAX_ARG_BYTES :: nat where "MAX_ARG_BYTES = 2048"

definition chunk_blobs :: "(bytes \<times> bytes) list \<Rightarrow> nat \<Rightarrow> nat \<Rightarrow> nat \<times> bytes \<times> bytes" where
  "chunk_blobs pairs chunk_size start =
     (let chunk = take chunk_size (drop start pairs) in (start, concat (map fst chunk), concat (map snd chunk)))"

definition install_chunks :: "(bytes \<times> bytes) list \<Rightarrow> nat \<Rightarrow> (nat \<times> bytes \<times> bytes) list py" where
  "install_chunks pairs chunk_size =
     require (chunk_size * BYTES_PER_MEMBER \<le> MAX_ARG_BYTES) ValueError (
     require (chunk_size \<noteq> 0) ValueError (
     Inr (map (chunk_blobs pairs chunk_size) (py_range 0 (length pairs) chunk_size))))"

definition GENESIS_TIME_MAINNET :: nat where "GENESIS_TIME_MAINNET = 1606824023"
definition SECONDS_PER_SLOT :: nat where "SECONDS_PER_SLOT = 12"
definition MARGIN_SLOTS :: nat where "MARGIN_SLOTS = 12"

text \<open>Times are integers; \<open>max(0, (now - genesis) // 12)\<close> on naturals.\<close>

definition slot_now :: "nat \<Rightarrow> nat \<Rightarrow> nat" where
  "slot_now genesis_time now = (now - genesis_time) div SECONDS_PER_SLOT"

definition assert_not_future_dated :: "nat \<Rightarrow> nat \<Rightarrow> nat \<Rightarrow> nat \<Rightarrow> unit py" where
  "assert_not_future_dated signature_slot genesis_time margin_slots now =
     require (signature_slot \<le> slot_now genesis_time now + margin_slots) ValueError (Inr ())"

text \<open>
  The light-client duties of \<open>relayer/client.py\<close>: installing a committee (fresh or resumed from the on-chain
  cursor), submitting an update, and retiring superseded generations. Each is a function of the contract's
  state, which the relayer reads first, to the state it leaves and a result or exception: an exception does not
  undo the groups accepted before it. The fetched data, the signer's address and the clock are parameters.
\<close>

section \<open>Groups\<close>

text \<open>A transaction to the donor issuer, or a call of the light client, with its box references.\<close>

datatype m4_txn =
    DonorTxn "bytes list"
  | M4Call sc_call "bytes list"

fun txn_refs :: "m4_txn \<Rightarrow> bytes list" where
  "txn_refs (DonorTxn refs) = refs"
| "txn_refs (M4Call c refs) = refs"

definition group_refs :: "m4_txn list \<Rightarrow> bytes set" where
  "group_refs g = set (concat (map txn_refs g))"

text \<open>The ledger's rule: a call reaches the boxes its group names, and no others. Reading, writing or creating
  another box is a panic. (No call here deletes a box that its group does not name.)\<close>

definition call_with_refs ::
  "(bytes \<Rightarrow> bytes) \<Rightarrow> ec_ops \<Rightarrow> bytes set \<Rightarrow> bytes \<Rightarrow> sc_call \<Rightarrow> sc_state \<Rightarrow> sc_state res" where
  "call_with_refs H C S x c s =
     (if sc_call_ok c then
        rbind (sc_exec H C x c (s\<lparr>sc_boxes := sc_boxes s |` S\<rparr>)) (\<lambda>(s', out).
        require (dom (sc_boxes s') \<subseteq> S) NoSuchBox (
        Inr (s'\<lparr>sc_boxes := \<lambda>n. if n \<in> S then sc_boxes s' n else sc_boxes s n\<rparr>)))
      else Inl TypeMismatch)"

fun run_txns ::
  "(bytes \<Rightarrow> bytes) \<Rightarrow> ec_ops \<Rightarrow> bytes set \<Rightarrow> bytes \<Rightarrow> m4_txn list \<Rightarrow> sc_state \<Rightarrow> sc_state res" where
  "run_txns H C S x [] s = Inr s"
| "run_txns H C S x (DonorTxn refs # ts) s = run_txns H C S x ts s"
| "run_txns H C S x (M4Call c refs # ts) s =
     rbind (call_with_refs H C S x c s) (\<lambda>s'. run_txns H C S x ts s')"

text \<open>A group is atomic: a failing call raises an exception of the client (of the sizing simulation or of the
  submission, here one constructor) and leaves the state as it was.\<close>

definition run_group :: "(bytes \<Rightarrow> bytes) \<Rightarrow> ec_ops \<Rightarrow> bytes \<Rightarrow> m4_txn list \<Rightarrow> sc_state \<Rightarrow> sc_state py" where
  "run_group H C x g s = (case run_txns H C (group_refs g) x g s of Inl _ \<Rightarrow> Inl AlgodError | Inr s' \<Rightarrow> Inr s')"

section \<open>Padding\<close>

text \<open>\<open>while len(refs) < n: refs.append(base[len(refs) % len(base)])\<close>.\<close>

function pad_refs :: "bytes list \<Rightarrow> nat \<Rightarrow> bytes list \<Rightarrow> bytes list" where
  "pad_refs base n refs =
     (if length refs < n then pad_refs base n (refs @ [base ! (length refs mod length base)]) else refs)"
  by pat_completeness auto
termination by (relation "measure (\<lambda>(base, n, refs). n - length refs)") auto

declare pad_refs.simps [simp del]

definition chunks_of :: "nat \<Rightarrow> 'a list \<Rightarrow> 'a list list" where
  "chunks_of k xs = map (\<lambda>i. take k (drop i xs)) (py_range 0 (length xs) k)"

section \<open>Installing\<close>

definition open_group :: "boot_args \<Rightarrow> bytes \<Rightarrow> nat \<Rightarrow> m4_txn list py" where
  "open_group boot bootstrap_root gen =
     rbind (py_seq (map (key_box_name_r gen) [0..<8])) (\<lambda>key_refs.
     rbind (session_box_name_r gen) (\<lambda>session_ref.
     Inr [M4Call (SBootstrap (ba_header boot) (ba_committee_root boot) (ba_branch boot) bootstrap_root) (take 8 key_refs),
          M4Call SOpenKeys key_refs, M4Call SOpenSession (session_ref # take 7 key_refs),
          M4Call SNoopBudget [session_ref]]))"

definition chunk_group :: "nat \<Rightarrow> (bytes \<times> bytes) list \<Rightarrow> nat \<Rightarrow> m4_txn list py" where
  "chunk_group gen pairs start =
     (let (_, compressed_blob, uncompressed_blob) = chunk_blobs pairs INSTALL_CHUNK_SIZE start; box_j = start div 64 in
      rbind (key_box_name_r gen box_j) (\<lambda>kb. rbind (session_box_name_r gen) (\<lambda>sb.
      Inr [DonorTxn [], M4Call (SInstallChunk start compressed_blob uncompressed_blob) [kb, sb, kb, sb]])))"

definition finalize_group :: "nat \<Rightarrow> boot_args \<Rightarrow> m4_txn list py" where
  "finalize_group gen boot =
     rbind (session_box_name_r gen) (\<lambda>sb. rbind (total_box_name_r gen) (\<lambda>ab.
     Inr [DonorTxn [], M4Call (SInstallFinalize (ba_aggregate_compressed boot) (ba_aggregate_uncompressed boot)) [sb, ab]]))"

fun submit_chunks ::
  "(bytes \<Rightarrow> bytes) \<Rightarrow> ec_ops \<Rightarrow> bytes \<Rightarrow> nat \<Rightarrow> (bytes \<times> bytes) list \<Rightarrow> nat list \<Rightarrow> sc_state \<Rightarrow> sc_state \<times> unit py" where
  "submit_chunks H C x gen pairs [] s = (s, Inr ())"
| "submit_chunks H C x gen pairs (start # starts) s =
     (case rbind (chunk_group gen pairs start) (\<lambda>g. run_group H C x g s) of
        Inl e \<Rightarrow> (s, Inl e)
      | Inr s' \<Rightarrow> submit_chunks H C x gen pairs starts s')"

datatype install_outcome =
    AlreadyInstalled nat
  | NotInstalling nat nat
  | Installed nat nat nat

text \<open>The second half: from an installing session on.\<close>

definition resume_install ::
  "(bytes \<Rightarrow> bytes) \<Rightarrow> ec_ops \<Rightarrow> bytes \<Rightarrow> boot_args \<Rightarrow> sc_state \<Rightarrow> sc_state \<times> install_outcome py" where
  "resume_install H C x boot s =
     (if ba_committee_root boot \<noteq> inst_root s then (s, Inl AssertionError)
      else
        let gen = inst_gen s; cursor = inst_cursor s;
            starts = py_range cursor (length (ba_pairs boot)) INSTALL_CHUNK_SIZE in
        case submit_chunks H C x gen (ba_pairs boot) starts s of
          (s1, Inl e) \<Rightarrow> (s1, Inl e)
        | (s1, Inr _) \<Rightarrow>
            (case rbind (finalize_group gen boot) (\<lambda>g. run_group H C x g s1) of
               Inl e \<Rightarrow> (s1, Inl e)
             | Inr s2 \<Rightarrow> (s2, Inr (Installed gen (length starts) cursor))))"

definition fetch_boot_args ::
  "(bytes \<Rightarrow> bytes) \<Rightarrow> (nat \<Rightarrow> (fp \<times> fp) option py) \<Rightarrow> (bytes \<Rightarrow> json_bootstrap py) \<Rightarrow> bytes option \<Rightarrow> boot_args py" where
  "fetch_boot_args H dg1 fetch bootstrap_root = (case bootstrap_root of
       None \<Rightarrow> Inl ValueError
     | Some root \<Rightarrow> rbind (fetch root) (\<lambda>resp. transform_bootstrap H dg1 resp))"

definition drive_m4_install ::
  "(bytes \<Rightarrow> bytes) \<Rightarrow> ec_ops \<Rightarrow> bytes \<Rightarrow> (nat \<Rightarrow> (fp \<times> fp) option py) \<Rightarrow> (bytes \<Rightarrow> json_bootstrap py) \<Rightarrow>
   bytes option \<Rightarrow> sc_state \<Rightarrow> sc_state \<times> install_outcome py" where
  "drive_m4_install H C x dg1 fetch bootstrap_root s =
     (if inst_state s = 0 \<and> cur_gen s \<noteq> 0 then (s, Inr (AlreadyInstalled (cur_gen s)))
      else if inst_state s = 0 then
        (case rbind (fetch_boot_args H dg1 fetch bootstrap_root) (\<lambda>boot.
              rbind (rel_header_root H (ba_header boot)) (\<lambda>r.
              require (Some r = bootstrap_root) AssertionError (
              rbind (open_group boot r (gen_counter s + 1)) (\<lambda>g.
              rbind (run_group H C x g s) (\<lambda>s1. Inr (boot, s1)))))) of
           Inl e \<Rightarrow> (s, Inl e)
         | Inr (boot, s1) \<Rightarrow>
             (if inst_state s1 = 1 \<or> inst_state s1 = 2 then (s1, Inl NotImplementedError)
              else if inst_state s1 \<noteq> 3 then (s1, Inr (NotInstalling (inst_gen s1) (inst_state s1)))
              else resume_install H C x boot s1))
      else if inst_state s = 1 \<or> inst_state s = 2 then (s, Inl NotImplementedError)
      else if inst_state s \<noteq> 3 then (s, Inr (NotInstalling (inst_gen s) (inst_state s)))
      else case fetch_boot_args H dg1 fetch bootstrap_root of
          Inl e \<Rightarrow> (s, Inl e)
        | Inr boot \<Rightarrow> resume_install H C x boot s)"

section \<open>Updating\<close>

definition submit_update_group :: "sc_update \<Rightarrow> nat \<Rightarrow> box_ref_plan \<Rightarrow> m4_txn list" where
  "submit_update_group args mode plan =
     (let base = distinct_boxes plan;
          refs = (if base = [] then [] else pad_refs base (refs_required plan) base);
          submit_boxes = take 8 refs; rest = drop 8 refs;
          donor_boxes = take 7 rest; rest' = drop 7 rest in
      DonorTxn donor_boxes # map (M4Call SNoopBudget) (chunks_of 8 rest') @
        [M4Call (SSubmitUpdate (args\<lparr>u_mode := mode\<rparr>)) submit_boxes])"

datatype update_outcome =
    NoCommittee
  | NotNewer nat
  | NextNotInstalled nat nat
  | Submitted nat nat bool

definition committee_choice :: "sc_state \<Rightarrow> nat \<Rightarrow> bool \<times> nat" where
  "committee_choice s signature_slot =
     (let store_period = fin_slot s div 8192; update_signature_period = signature_slot div 8192;
          using_next = (update_signature_period = store_period + 1) in
      (using_next, if using_next then next_gen s else cur_gen s))"

definition drive_m4_update ::
  "(bytes \<Rightarrow> bytes) \<Rightarrow> ec_ops \<Rightarrow> bytes \<Rightarrow> (nat \<times> nat \<Rightarrow> (fp2 \<times> fp2) option py) \<Rightarrow> nat \<Rightarrow> bool \<Rightarrow>
   json_finality_update py \<Rightarrow> sc_state \<Rightarrow> sc_state \<times> update_outcome py" where
  "drive_m4_update H C x dg2 now has_signer finality s =
     (if cur_gen s = 0 then (s, Inr NoCommittee)
      else case rbind finality (\<lambda>d. rbind (transform_finality_update dg2 d) (\<lambda>args.
          rbind (assert_not_future_dated (u_sig_slot args) GENESIS_TIME_MAINNET MARGIN_SLOTS now) (\<lambda>_. Inr args))) of
        Inl e \<Rightarrow> (s, Inl e)
      | Inr args \<Rightarrow>
          if be_val (rev (seg 0 8 (u_finalized args))) \<le> fin_slot s then (s, Inr (NotNewer (fin_slot s)))
          else if \<not> has_signer then (s, Inl ValueError)
          else
            let (using_next, committee_gen) = committee_choice s (u_sig_slot args) in
            if using_next \<and> committee_gen = 0 then
              (s, Inr (NextNotInstalled (fin_slot s div 8192) (u_sig_slot args div 8192)))
            else case rbind (choose_mode (u_bits args) committee_gen) (\<lambda>(mode, plan).
                rbind (run_group H C x (submit_update_group args mode plan) s) (\<lambda>s'. Inr (mode, s'))) of
              Inl e \<Rightarrow> (s, Inl e)
            | Inr (mode, s') \<Rightarrow> (s', Inr (Submitted mode committee_gen using_next)))"

section \<open>Retiring\<close>

definition retire_group :: "nat \<Rightarrow> m4_txn list py" where
  "retire_group gen =
     rbind (m4_retire_box_sizes gen) (\<lambda>sizes.
     let plan = plan_box_refs sizes; base = distinct_boxes plan;
         refs = pad_refs base (refs_required plan) base in
     Inr (M4Call (SRetire gen) (take 8 refs) # map (M4Call SNoopBudget) (chunks_of 8 (drop 8 refs))))"

text \<open>The scan: generations retired, skipped because their total box is gone, and failed.\<close>

fun retire_scan ::
  "(bytes \<Rightarrow> bytes) \<Rightarrow> ec_ops \<Rightarrow> bytes \<Rightarrow> nat set \<Rightarrow> nat list \<Rightarrow> sc_state \<Rightarrow>
   sc_state \<times> (nat list \<times> nat list \<times> nat list)" where
  "retire_scan H C x protected [] s = (s, [], [], [])"
| "retire_scan H C x protected (gen # gens) s =
     (if gen \<in> protected then retire_scan H C x protected gens s
      else case total_box_name_r gen of
        Inl e \<Rightarrow> let (s', r, k, f) = retire_scan H C x protected gens s in (s', r, k, gen # f)
      | Inr name \<Rightarrow>
          if sc_boxes s name = None then
            let (s', r, k, f) = retire_scan H C x protected gens s in (s', r, gen # k, f)
          else case rbind (retire_group gen) (\<lambda>g. run_group H C x g s) of
            Inl e \<Rightarrow> let (s', r, k, f) = retire_scan H C x protected gens s in (s', r, k, gen # f)
          | Inr s1 \<Rightarrow> let (s', r, k, f) = retire_scan H C x protected gens s1 in (s', gen # r, k, f))"

definition retire_old_generations ::
  "(bytes \<Rightarrow> bytes) \<Rightarrow> ec_ops \<Rightarrow> bytes \<Rightarrow> sc_state \<Rightarrow> sc_state \<times> (nat list \<times> nat list \<times> nat list)" where
  "retire_old_generations H C x s =
     retire_scan H C x {0, cur_gen s, next_gen s, inst_gen s} [1..<gen_counter s + 1] s"

section \<open>The facade\<close>

text \<open>\<open>sync\<close>: an exception of a phase ends the call; the details of the phases that ran are returned.\<close>

record sync_detail =
  sd_install :: "install_outcome option"
  sd_update :: "update_outcome option"
  sd_retire :: "(nat list \<times> nat list \<times> nat list) option"

definition sync_m4 ::
  "(bytes \<Rightarrow> bytes) \<Rightarrow> ec_ops \<Rightarrow> bytes \<Rightarrow> (nat \<Rightarrow> (fp \<times> fp) option py) \<Rightarrow> (nat \<times> nat \<Rightarrow> (fp2 \<times> fp2) option py) \<Rightarrow>
   (bytes \<Rightarrow> json_bootstrap py) \<Rightarrow> nat \<Rightarrow> bool \<Rightarrow> json_finality_update py \<Rightarrow> bool \<Rightarrow> bool \<Rightarrow> bytes option \<Rightarrow> bool \<Rightarrow>
   sc_state \<Rightarrow> sc_state \<times> sync_detail py" where
  "sync_m4 H C x dg1 dg2 fetch now has_signer finality install update bootstrap_root auto_retire s =
     (case (if install then map_prod id (map_sum id Some) (drive_m4_install H C x dg1 fetch bootstrap_root s)
            else (s, Inr None)) of
        (s1, Inl e) \<Rightarrow> (s1, Inl e)
      | (s1, Inr di) \<Rightarrow>
         if \<not> update then (s1, Inr \<lparr>sd_install = di, sd_update = None, sd_retire = None\<rparr>)
         else case drive_m4_update H C x dg2 now has_signer finality s1 of
            (s2, Inl e) \<Rightarrow> (s2, Inl e)
          | (s2, Inr du) \<Rightarrow>
              if auto_retire \<and> has_signer then
                let (s3, r) = retire_old_generations H C x s2 in
                (s3, Inr \<lparr>sd_install = di, sd_update = Some du, sd_retire = Some r\<rparr>)
              else (s2, Inr \<lparr>sd_install = di, sd_update = Some du, sd_retire = None\<rparr>))"

end
