(* ===== verification/Rel_Sync.thy ===== *)
theory Rel_Sync
  imports Rel_M4 SC_Facts
begin

text \<open>
  What the relayer's groups do on the light client: the boxes they name are the ones their calls reach, so that
  the calls behave as without references; and where they are not.
\<close>

section \<open>Names\<close>

lemma key_name_r: "gen < uint64_limit \<Longrightarrow> j < 256 \<Longrightarrow> key_box_name_r gen j = Inr (key_box_name gen j)"
  by (simp add: key_box_name_r_def key_box_name_def to_bytes_be_def uint64_limit_def itob_def low_byte_def del: be_bytes.simps)

lemma total_name_r: "gen < uint64_limit \<Longrightarrow> total_box_name_r gen = Inr (total_box_name gen)"
  by (simp add: total_box_name_r_def total_box_name_def to_bytes_be_def uint64_limit_def itob_def del: be_bytes.simps)

lemma session_name_r: "gen < uint64_limit \<Longrightarrow> session_box_name_r gen = Inr (session_box_name gen)"
  by (simp add: session_box_name_r_def session_box_name_def to_bytes_be_def uint64_limit_def itob_def del: be_bytes.simps)

section \<open>Calls that stay within their references\<close>

text \<open>A box operation is local to a set of names: on the boxes of the set alone it does the same, and it leaves
  every other box as it was.\<close>

definition keeps :: "bytes set \<Rightarrow> boxes \<Rightarrow> (boxes \<times> 'a) res \<Rightarrow> (boxes \<times> 'a) res \<Rightarrow> bool" where
  "keeps S bs r r' \<longleftrightarrow> (case r of
       Inl e \<Rightarrow> r' = Inl e
     | Inr (bs', y) \<Rightarrow> r' = Inr (bs' |` S, y) \<and> (\<forall>n. n \<notin> S \<longrightarrow> bs' n = bs n))"

lemma keeps_Inl: "keeps S bs (Inl e) r' \<longleftrightarrow> r' = Inl e"
  by (simp add: keeps_def)

lemma keeps_Inr: "keeps S bs (Inr (bs', y)) r' \<longleftrightarrow> r' = Inr (bs' |` S, y) \<and> (\<forall>n. n \<notin> S \<longrightarrow> bs' n = bs n)"
  by (simp add: keeps_def)

text \<open>The boxes after the call, put together again.\<close>

lemma keeps_merge: "(\<forall>n. n \<notin> S \<longrightarrow> bs' n = bs n) \<Longrightarrow> (\<lambda>n. if n \<in> S then (bs' |` S) n else bs n) = bs'"
  by (auto simp: restrict_map_def)

lemma keeps_bind:
  assumes "keeps S bs m m'"
    and "\<And>bs1 y. m = Inr (bs1, y) \<Longrightarrow> keeps S bs1 (f (bs1, y)) (f' (bs1 |` S, y))"
  shows "keeps S bs (rbind m f) (rbind m' f')"
proof (cases m)
  case (Inl e)
  then show ?thesis using assms(1) by (simp add: keeps_def)
next
  case (Inr r)
  obtain bs1 y where r: "r = (bs1, y)" by fastforce
  have k: "m' = Inr (bs1 |` S, y)" "\<forall>n. n \<notin> S \<longrightarrow> bs1 n = bs n" using assms(1) Inr r by (simp_all add: keeps_def)
  show ?thesis
  proof (cases "f (bs1, y)")
    case (Inl e)
    then show ?thesis using assms(2) [of bs1 y] Inr r k by (simp add: keeps_def)
  next
    case (Inr q)
    then show ?thesis using assms(2) [of bs1 y] \<open>m = Inr r\<close> r k by (cases q) (simp add: keeps_def)
  qed
qed

text \<open>A step that does not touch the boxes.\<close>

lemma keeps_pure: "(\<And>y. m = Inr y \<Longrightarrow> keeps S bs (f y) (f' y)) \<Longrightarrow> keeps S bs (rbind m f) (rbind m f')"
  by (cases m) (simp_all add: keeps_Inl)

lemma keeps_check: "(b \<Longrightarrow> keeps S bs r r') \<Longrightarrow> keeps S bs (require b e r) (require b e r')"
  by (cases b) (simp_all add: keeps_Inl)

lemma keeps_return: "keeps S bs (Inr (bs, y)) (Inr (bs |` S, y))"
  by (simp add: keeps_Inr)

definition unit_boxes :: "boxes res \<Rightarrow> (boxes \<times> unit) res" where
  "unit_boxes m = rbind m (\<lambda>bs. Inr (bs, ()))"

lemma replace_restrict: "n \<in> S \<Longrightarrow> box_replace (bs |` S) n off new =
    rbind (box_replace bs n off new) (\<lambda>bs'. Inr (bs' |` S))"
  by (auto simp: box_replace_def breplace_def restrict_map_def fun_eq_iff split: option.split)

lemma replace_frame: "box_replace bs n off new = Inr bs' \<Longrightarrow> n \<in> S \<Longrightarrow> \<forall>k. k \<notin> S \<longrightarrow> bs' k = bs k"
  by (auto simp: res_simps)

lemma keeps_replace:
  assumes "n \<in> S" and "\<And>bs1. box_replace bs n off new = Inr bs1 \<Longrightarrow> keeps S bs1 (f bs1) (f' (bs1 |` S))"
  shows "keeps S bs (rbind (box_replace bs n off new) f) (rbind (box_replace (bs |` S) n off new) f')"
proof (cases "box_replace bs n off new")
  case (Inl e)
  then show ?thesis using replace_restrict [OF assms(1)] by (simp add: keeps_Inl)
next
  case (Inr bs1)
  note fr = replace_frame [OF Inr assms(1)]
  have "keeps S bs (f bs1) (f' (bs1 |` S))"
    using assms(2) [OF Inr] fr by (cases "f bs1") (auto simp: keeps_def split: prod.splits)
  then show ?thesis using Inr replace_restrict [OF assms(1), of bs off new] by simp
qed

lemma keeps_create:
  assumes "n \<in> S"
  shows "keeps S bs (box_create bs n k) (box_create (bs |` S) n k)"
  using assms by (auto simp: box_create_def keeps_def restrict_map_def fun_eq_iff split: option.split)

lemma extract_restrict: "n \<in> S \<Longrightarrow> box_extract (bs |` S) n off k = box_extract bs n off k"
  by (simp add: box_extract_def)

lemma chunk_loop_keeps:
  assumes "\<And>i. cursor + m \<le> i \<Longrightarrow> i < cursor + m + k \<Longrightarrow> key_box_name gen (i div 64) \<in> S"
  shows "keeps S bs (chunk_loop H C gen cursor cb ub m k bs stack filled s)
    (chunk_loop H C gen cursor cb ub m k (bs |` S) stack filled s)"
  using assms
proof (induction k arbitrary: m bs stack filled s)
  case 0
  then show ?case by (simp add: keeps_def)
next
  case (Suc k)
  have n: "key_box_name gen ((cursor + m) div 64) \<in> S" using Suc.prems by simp
  have IH: "keeps S bs1 (chunk_loop H C gen cursor cb ub (m + 1) k bs1 st fl su)
      (chunk_loop H C gen cursor cb ub (m + 1) k (bs1 |` S) st fl su)" for bs1 st fl su
    by (rule Suc.IH) (use Suc.prems in simp)
  show ?case
    unfolding chunk_loop.simps Let_def
    by (intro keeps_pure) (auto simp: uadd_def box_layout n IH [simplified] intro!: keeps_replace keeps_pure split: if_splits prod.split)
qed

lemma process_chunk_keeps:
  assumes "session_box_name gen \<in> S"
    and "\<And>i. cursor \<le> i \<Longrightarrow> i < cursor + length cb div 48 \<Longrightarrow> key_box_name gen (i div 64) \<in> S"
  shows "keeps S bs (install_process_chunk H C gen cursor cb ub bs) (install_process_chunk H C gen cursor cb ub (bs |` S))"
proof -
  have rd: "read_session (bs |` S) gen = read_session bs gen"
    using extract_restrict [OF assms(1)] by (simp add: read_session_def)
  have l: "keeps S bs (chunk_loop H C gen cursor cb ub 0 (length cb div 48) bs st fl su)
      (chunk_loop H C gen cursor cb ub 0 (length cb div 48) (bs |` S) st fl su)" for st fl su
    by (rule chunk_loop_keeps) (use assms(2) in simp)
  show ?thesis
    unfolding install_process_chunk_def Let_def rd box_layout
    by (intro keeps_check keeps_pure)
      (auto simp: assms(1) split: prod.split intro!: keeps_check keeps_pure keeps_bind [OF l] keeps_replace keeps_return)
qed

lemma process_finalize_keeps:
  assumes "session_box_name gen \<in> S"
  shows "keeps S bs (install_process_finalize H C gen cursor root aggc aggu bs)
    (install_process_finalize H C gen cursor root aggc aggu (bs |` S))"
proof -
  have rd: "read_session (bs |` S) gen = read_session bs gen"
    using extract_restrict [OF assms(1)] by (simp add: read_session_def)
  have d: "(bs |` S)(session_box_name gen := None) = (bs(session_box_name gen := None)) |` S"
    by (auto simp: restrict_map_def fun_eq_iff)
  show ?thesis
    unfolding install_process_finalize_def Let_def rd box_layout
    by (intro keeps_check keeps_pure)
      (auto simp: assms(1) d keeps_Inr box_delete_def split: prod.split intro!: keeps_check keeps_pure)
qed

text \<open>A chunk that reaches a key box outside the references is rejected.\<close>

lemma chunk_loop_stuck:
  assumes "cursor + m \<le> i" and "i < cursor + m + k" and "bs (key_box_name gen (i div 64)) = None"
  shows "chunk_loop H C gen cursor cb ub m k bs stack filled s \<noteq> Inr r"
  using assms
proof (induction k arbitrary: m bs stack filled s)
  case 0
  then show ?case by simp
next
  case (Suc k)
  show ?case
  proof
    assume run: "chunk_loop H C gen cursor cb ub m (Suc k) bs stack filled s = Inr r"
    then obtain bs1 st fl su ukey where
      w: "box_replace bs (key_box_name gen ((cursor + m) div 64)) ((cursor + m) mod 64 * 96) ukey = Inr bs1"
      and l: "chunk_loop H C gen cursor cb ub (m + 1) k bs1 st fl su = Inr r"
      by (auto simp: Let_def res_simps uadd_def box_layout split: if_splits)
    have "key_box_name gen (i div 64) \<noteq> key_box_name gen ((cursor + m) div 64)" using w Suc.prems(3) by (auto simp: res_simps)
    then have b: "bs1 (key_box_name gen (i div 64)) = None" "i \<noteq> cursor + m" using w Suc.prems(3) by (auto simp: res_simps)
    have "chunk_loop H C gen cursor cb ub (m + 1) k bs1 st fl su \<noteq> Inr r"
      by (rule Suc.IH) (use Suc.prems b in auto)
    then show False using l by simp
  qed
qed

section \<open>Calls with references\<close>

text \<open>A call that keeps to its references does what it does with all boxes.\<close>

lemma refs_silent:
  assumes ok: "sc_call_ok c" and ex: "sc_exec H C x c = (\<lambda>s. silent (m s))"
    and eq: "m (s\<lparr>sc_boxes := sc_boxes s |` S\<rparr>) =
      (case m s of Inl e \<Rightarrow> Inl e | Inr s' \<Rightarrow> Inr (s'\<lparr>sc_boxes := sc_boxes s' |` S\<rparr>))"
    and fr: "\<And>s'. m s = Inr s' \<Longrightarrow> \<forall>n. n \<notin> S \<longrightarrow> sc_boxes s' n = sc_boxes s n"
  shows "call_with_refs H C S x c s = m s"
proof (cases "m s")
  case (Inl e)
  then show ?thesis using ok eq by (simp add: call_with_refs_def ex silent_def)
next
  case (Inr s')
  have d: "dom (sc_boxes s' |` S) \<subseteq> S" by auto
  have e: "sc_exec H C x c (s\<lparr>sc_boxes := sc_boxes s |` S\<rparr>) = Inr (s'\<lparr>sc_boxes := sc_boxes s' |` S\<rparr>, [])"
    using eq Inr by (simp add: ex silent_def)
  have m: "(\<lambda>n. if n \<in> S then (sc_boxes s' |` S) n else sc_boxes s n) = sc_boxes s'"
    by (rule keeps_merge [OF fr [OF Inr]])
  have b: "sc_boxes (s'\<lparr>sc_boxes := sc_boxes s' |` S\<rparr>) = sc_boxes s' |` S" by simp
  have "call_with_refs H C S x c s = Inr (s'\<lparr>sc_boxes := sc_boxes s' |` S\<rparr>\<lparr>sc_boxes := sc_boxes s'\<rparr>)"
    unfolding call_with_refs_def e by (simp only: ok d m b if_True rbind_Inr prod.case require_True)
  then show ?thesis using Inr by simp
qed

lemma refs_chunk:
  assumes ok: "sc_call_ok (SInstallChunk i cb ub)" and "session_box_name (inst_gen s) \<in> S"
    and "\<And>j. inst_cursor s \<le> j \<Longrightarrow> j < inst_cursor s + length cb div 48 \<Longrightarrow> key_box_name (inst_gen s) (j div 64) \<in> S"
  shows "call_with_refs H C S x (SInstallChunk i cb ub) s = install_chunk H C i cb ub s"
proof (rule refs_silent [OF ok])
  let ?m = "\<lambda>bs. install_process_chunk H C (inst_gen s) (inst_cursor s) cb ub bs"
  have k: "keeps S (sc_boxes s) (?m (sc_boxes s)) (?m (sc_boxes s |` S))"
    by (rule process_chunk_keeps [OF assms(2)]) (use assms(3) in simp)
  show "sc_exec H C x (SInstallChunk i cb ub) = (\<lambda>s. silent (install_chunk H C i cb ub s))" by (rule ext) simp
  show "install_chunk H C i cb ub (s\<lparr>sc_boxes := sc_boxes s |` S\<rparr>) =
      (case install_chunk H C i cb ub s of Inl e \<Rightarrow> Inl e | Inr s' \<Rightarrow> Inr (s'\<lparr>sc_boxes := sc_boxes s' |` S\<rparr>))"
    using k by (cases "?m (sc_boxes s)") (auto simp: install_chunk_def keeps_def require_def)
  show "\<forall>n. n \<notin> S \<longrightarrow> sc_boxes s' n = sc_boxes s n" if "install_chunk H C i cb ub s = Inr s'" for s'
    using k that by (cases "?m (sc_boxes s)") (auto simp: install_chunk_def keeps_def res_simps)
qed

lemma refs_finalize:
  assumes ok: "sc_call_ok (SInstallFinalize ac au)" and S: "session_box_name (inst_gen s) \<in> S" "total_box_name (inst_gen s) \<in> S"
  shows "call_with_refs H C S x (SInstallFinalize ac au) s = install_finalize H C ac au s"
proof (rule refs_silent [OF ok])
  let ?g = "inst_gen s" and ?b = "sc_boxes s"
  let ?m = "\<lambda>bs. rbind (install_process_finalize H C ?g (inst_cursor s) (inst_root s) ac au bs) (\<lambda>(bs1, a_total).
     rbind (box_create bs1 (total_box_name ?g) G1_BYTES) (\<lambda>(bs2, _).
     rbind (box_replace bs2 (total_box_name ?g) 0 a_total) (\<lambda>bs3. Inr (bs3, ()))))"
  have k: "keeps S ?b (?m ?b) (?m (?b |` S))"
    by (rule keeps_bind [OF process_finalize_keeps [OF S(1)]])
      (auto intro!: keeps_bind [OF keeps_create [OF S(2)]] keeps_replace [OF S(2)] keeps_return)
  let ?s = "\<lambda>bs. clear_session ((if cur_gen s = 0 then s\<lparr>cur_gen := ?g, cur_period := inst_period s\<rparr>
               else s\<lparr>next_gen := ?g, next_period := inst_period s\<rparr>)\<lparr>sc_boxes := bs\<rparr>)"
  have f: "install_finalize H C ac au (s\<lparr>sc_boxes := bs\<rparr>) =
      check (inst_state s = INST_STATE_INSTALLING) ''no install session in flight'' (rbind (?m bs) (\<lambda>(bs3, _). Inr (?s bs3)))" for bs
    by (cases "inst_state s = INST_STATE_INSTALLING")
      (auto simp: install_finalize_def Let_def rbind_assoc split_def intro!: arg_cong [where f = "rbind _"] ext)
  have f0: "install_finalize H C ac au s =
      check (inst_state s = INST_STATE_INSTALLING) ''no install session in flight'' (rbind (?m ?b) (\<lambda>(bs3, _). Inr (?s bs3)))"
    using f [of ?b] by simp
  show "sc_exec H C x (SInstallFinalize ac au) = (\<lambda>s. silent (install_finalize H C ac au s))" by (rule ext) simp
  have r: "?s bs\<lparr>sc_boxes := sc_boxes (?s bs) |` S\<rparr> = ?s (bs |` S)" "sc_boxes (?s bs) = bs" for bs
    by (simp_all add: clear_session_def)
  show "install_finalize H C ac au (s\<lparr>sc_boxes := ?b |` S\<rparr>) =
      (case install_finalize H C ac au s of Inl e \<Rightarrow> Inl e | Inr s' \<Rightarrow> Inr (s'\<lparr>sc_boxes := sc_boxes s' |` S\<rparr>))"
    using k unfolding f f0
    by (cases "inst_state s = INST_STATE_INSTALLING"; cases "?m ?b") (auto simp: keeps_def clear_session_def)
  show "\<forall>n. n \<notin> S \<longrightarrow> sc_boxes s' n = sc_boxes s n" if "install_finalize H C ac au s = Inr s'" for s'
    using k that unfolding f0
    by (cases "?m ?b") (auto simp: keeps_def clear_session_def res_simps)
qed

section \<open>The boxes of an update\<close>

lemma walk_loop_restrict:
  assumes "\<And>j. i \<le> j \<Longrightarrow> j < i + k \<Longrightarrow> ssz_bit bits j \<noteq> complement \<Longrightarrow> key_box_name gen (j div 64) \<in> S"
    and "length bits = 64" and "i + k \<le> 512"
  shows "walk_loop C (bs |` S) bits gen complement i k acc have_any touched = walk_loop C bs bits gen complement i k acc have_any touched"
  using assms(1,3)
proof (induction k arbitrary: i acc have_any touched)
  case 0
  then show ?case by simp
next
  case (Suc k)
  have i: "i < 512" using Suc.prems(2) by simp
  have IH: "walk_loop C (bs |` S) bits gen complement (i + 1) k a h t = walk_loop C bs bits gen complement (i + 1) k a h t" for a h t
    by (rule Suc.IH) (use Suc.prems in auto)
  have "ssz_bit bits i \<noteq> complement \<Longrightarrow> key_box_name gen (i div KEYS_PER_BOX) \<in> S"
    using Suc.prems(1) [of i] by (simp add: box_layout)
  then show ?case
    unfolding walk_loop.simps getbit_ssz [OF assms(2) i] IH
    by (cases "ssz_bit bits i \<noteq> complement") (auto simp: extract_restrict Let_def)
qed

lemma walk_loop_stuck:
  assumes "i \<le> j" and "j < i + k" and "ssz_bit bits j \<noteq> complement" and "bs (key_box_name gen (j div 64)) = None"
    and "length bits = 64" and "i + k \<le> 512"
  shows "walk_loop C bs bits gen complement i k acc have_any touched \<noteq> Inr r"
  using assms
proof (induction k arbitrary: i acc have_any touched)
  case 0
  then show ?case by simp
next
  case (Suc k)
  have i: "i < 512" using Suc.prems(6) by simp
  show ?case
  proof (cases "i = j")
    case True
    then have "box_extract bs (key_box_name gen (i div KEYS_PER_BOX)) (i mod KEYS_PER_BOX * G1_BYTES) G1_BYTES = Inl NoSuchBox"
      and "ssz_bit bits i \<noteq> complement"
      using Suc.prems(3,4) by (simp_all add: box_extract_def box_layout)
    then show ?thesis
      unfolding walk_loop.simps getbit_ssz [OF Suc.prems(5) i] by (auto simp: Let_def)
  next
    case False
    have IH: "walk_loop C bs bits gen complement (i + 1) k a h t \<noteq> Inr r" for a h t
      by (rule Suc.IH) (use Suc.prems False in auto)
    show ?thesis
      using IH unfolding walk_loop.simps getbit_ssz [OF Suc.prems(5) i] by (auto simp: Let_def res_simps split: if_splits)
  qed
qed

text \<open>The boxes the walk of a mode visits.\<close>

definition mode_boxes :: "bytes \<Rightarrow> nat \<Rightarrow> nat \<Rightarrow> bytes set" where
  "mode_boxes bits gen mode =
     {key_box_name gen (i div 64) |i. i < 512 \<and> ssz_bit bits i \<noteq> (mode = 1)} \<union>
     (if mode = 1 then {total_box_name gen} else {})"

lemma aggregate_restrict:
  assumes "mode_boxes bits gen mode \<subseteq> S" and "length bits = 64"
  shows "aggregate_participants C (bs |` S) bits gen mode = aggregate_participants C bs bits gen mode"
proof -
  have w: "walk_and_accumulate C (bs |` S) bits gen (mode = 1) = walk_and_accumulate C bs bits gen (mode = 1)"
    unfolding walk_and_accumulate_def
    by (rule require_cong [OF refl refl], rule walk_loop_restrict)
      (use assms in \<open>auto simp: mode_boxes_def box_layout\<close>)
  have t: "mode = 1 \<Longrightarrow> box_extract (bs |` S) (total_box_name gen) 0 G1_BYTES = box_extract bs (total_box_name gen) 0 G1_BYTES"
    by (rule extract_restrict) (use assms(1) in \<open>simp add: mode_boxes_def\<close>)
  show ?thesis unfolding aggregate_participants_def Let_def w using t by (cases "mode = 1") simp_all
qed

lemma aggregate_needs:
  assumes "aggregate_participants C bs bits gen mode = Inr r" and "length bits = 64"
  shows "mode_boxes bits gen mode \<subseteq> dom bs"
proof -
  obtain q where w: "walk_loop C bs bits gen (mode = 1) 0 512 g1_infinity False 0 = Inr q"
    using assms(1) by (auto simp: aggregate_participants_def Let_def res_simps walk_and_accumulate_def box_layout)
  have "bs (key_box_name gen (i div 64)) \<noteq> None" if "i < 512" "ssz_bit bits i \<noteq> (mode = 1)" for i
    using walk_loop_stuck [of 0 i 512 bits "mode = 1" bs gen C g1_infinity False 0 q] that assms(2) w by auto
  moreover have "bs (total_box_name gen) \<noteq> None" if "mode = 1"
    using assms(1) that by (auto simp: aggregate_participants_def Let_def res_simps)
  ultimately show ?thesis by (auto simp: mode_boxes_def domIff)
qed

lemma refs_update:
  assumes ok: "sc_call_ok (SSubmitUpdate u)"
    and gen: "\<And>ats fs un g. select_committee s ats fs (u_sig_slot u) = Inr (un, g) \<Longrightarrow> mode_boxes (u_bits u) g (u_mode u) \<subseteq> S"
    and dm: "dom (sc_boxes s |` S) \<subseteq> S"
  shows "call_with_refs H C S x (SSubmitUpdate u) s = rbind (submit_update H C u s) (\<lambda>(s', _). Inr s')"
proof -
  have l: "length (u_bits u) = 64" using ok by simp
  let ?r = "s\<lparr>sc_boxes := sc_boxes s |` S\<rparr>"
  have sel: "select_committee ?r = select_committee s" by (intro ext) (simp add: select_committee_def Let_def)
  have br: "check_branches H ?r u a f = check_branches H s u a f" for a f by (simp add: check_branches_def)
  have nx: "apply_next_root ?r u n a = rbind (apply_next_root s u n a) (\<lambda>s'. Inr (s'\<lparr>sc_boxes := sc_boxes s' |` S\<rparr>))" for n a
    by (simp add: apply_next_root_def Let_def require_def)
  have nb: "apply_next_root s u n a = Inr s' \<Longrightarrow> sc_boxes s' = sc_boxes s" for n a s'
    by (auto simp: apply_next_root_def Let_def res_simps split: if_splits)
  have fi: "apply_finality (s'\<lparr>sc_boxes := bs\<rparr>) u n a f lf p =
      (let (t, ev) = apply_finality s' u n a f lf p in (t\<lparr>sc_boxes := bs\<rparr>, ev))" for s' bs n a f lf p
    by (simp add: apply_finality_def Let_def)
  have fb: "sc_boxes (fst (apply_finality s' u n a f lf p)) = sc_boxes s'" for s' n a f lf p
    by (simp add: apply_finality_def Let_def)
  have sg: "check_signature H C ?r u g v = check_signature H C s u g v" if "mode_boxes (u_bits u) g (u_mode u) \<subseteq> S" for g v
    using aggregate_restrict [OF that l, of C "sc_boxes s"] by (simp add: check_signature_def)
  have e0: "submit_update H C u ?r = rbind (submit_update H C u s) (\<lambda>(t, ev). Inr (t\<lparr>sc_boxes := sc_boxes t |` S\<rparr>, ev))"
    unfolding submit_update_def rbind_assoc sel br
  proof (intro rbind_cong refl, goal_cases)
    case (1 ats fs r)
    obtain un g where r: "r = (un, g)" by fastforce
    show ?case unfolding r prod.case rbind_assoc
    proof (intro rbind_cong refl, goal_cases)
      case (1 q)
      obtain v lf where q: "q = (v, lf)" by fastforce
      show ?case unfolding q prod.case rbind_assoc sg [OF gen [OF \<open>select_committee s ats fs (u_sig_slot u) = Inr r\<close> [unfolded r]]] nx
        by (intro rbind_cong refl) (simp add: fi fb split_def Let_def)
    qed
  qed
  have b: "sc_boxes t = sc_boxes s" if "submit_update H C u s = Inr (t, ev)" for t ev
    using that nb fb by (auto simp: submit_update_def res_simps split_def) (metis fst_conv)+
  show ?thesis
  proof (cases "submit_update H C u s")
    case (Inl x)
    then show ?thesis using ok e0 by (simp add: call_with_refs_def)
  next
    case (Inr r)
    obtain t ev where r: "r = (t, ev)" by fastforce
    have m: "(\<lambda>n. if n \<in> S then (sc_boxes s |` S) n else sc_boxes s n) = sc_boxes s" by (rule keeps_merge) simp
    have q: "sc_boxes (t\<lparr>sc_boxes := sc_boxes s |` S\<rparr>) = sc_boxes s |` S" by simp
    have bt: "sc_boxes t = sc_boxes s" using b Inr r by blast
    have e: "submit_update H C u ?r = Inr (t\<lparr>sc_boxes := sc_boxes s |` S\<rparr>, ev)" using e0 Inr r bt by simp
    have "call_with_refs H C S x (SSubmitUpdate u) s = Inr (t\<lparr>sc_boxes := sc_boxes s |` S\<rparr>\<lparr>sc_boxes := sc_boxes s\<rparr>)"
      by (simp only: call_with_refs_def e ok if_True sc_exec.simps rbind_Inr prod.case q m dm require_True)
    then show ?thesis using Inr r bt [symmetric] by simp
  qed
qed

section \<open>The plan of an update\<close>

lemma update_fresh: "k \<notin> fst ` set al \<Longrightarrow> AList.update k v al = al @ [(k, v)]"
  by (induction al) auto

lemma set_key_boxes_eq:
  assumes "gen < uint64_limit" and "\<And>j. j \<in> set js \<Longrightarrow> j < 256" and "distinct js"
    and "\<And>j. j \<in> set js \<Longrightarrow> key_box_name gen j \<notin> fst ` set sizes"
  shows "set_key_boxes gen js sizes = Inr (sizes @ map (\<lambda>j. (key_box_name gen j, 6144)) js)"
  using assms(2-4)
proof (induction js arbitrary: sizes)
  case Nil
  then show ?case by simp
next
  case (Cons j js)
  have j: "j < 256" "key_box_name gen j \<notin> fst ` set sizes" using Cons.prems by simp_all
  have ne: "key_box_name gen i \<noteq> key_box_name gen j" if "i \<in> set js" for i
    using key_box_name_eq [OF assms(1,1), of i j] Cons.prems(1) [of i] Cons.prems(2) j(1) that by auto
  have "set_key_boxes gen js (sizes @ [(key_box_name gen j, 6144)]) =
      Inr ((sizes @ [(key_box_name gen j, 6144)]) @ map (\<lambda>j. (key_box_name gen j, 6144)) js)"
    by (rule Cons.IH) (use Cons.prems ne in auto)
  then show ?case by (simp add: key_name_r [OF assms(1) j(1)] update_fresh [OF j(2)] KEY_BOX_BYTES_def)
qed

definition key_names :: "nat \<Rightarrow> nat set \<Rightarrow> bytes list" where
  "key_names gen idx = map (key_box_name gen) (sorted_list_of_set idx)"

lemma update_sizes_eq:
  assumes g: "gen < uint64_limit" and idx: "idx \<subseteq> {..<8}"
  shows "m4_submit_update_box_sizes gen idx t =
    Inr (map (\<lambda>n. (n, 6144)) (key_names gen idx) @ (if t then [(total_box_name gen, 96)] else []))"
proof -
  have f: "finite idx" using idx finite_subset by blast
  have k: "set_key_boxes gen (sorted_list_of_set idx) [] = Inr ([] @ map (\<lambda>j. (key_box_name gen j, 6144)) (sorted_list_of_set idx))"
    by (rule set_key_boxes_eq [OF g]) (use idx f in auto)
  have "total_box_name gen \<notin> fst ` set (map (\<lambda>j. (key_box_name gen j, 6144 :: nat)) (sorted_list_of_set idx))" by auto
  from update_fresh [OF this] show ?thesis
    by (simp add: m4_submit_update_box_sizes_def k total_name_r [OF g] key_names_def TOTAL_BOX_BYTES_def comp_def)
qed

lemma key_names_distinct:
  assumes "gen < uint64_limit" and "idx \<subseteq> {..<8}"
  shows "distinct (key_names gen idx)" and "length (key_names gen idx) = card idx"
    and "set (key_names gen idx) = key_box_name gen ` idx"
proof -
  have f: "finite idx" using assms(2) finite_subset by blast
  have "inj_on (key_box_name gen) idx"
  proof (rule inj_onI)
    fix i j assume ij: "i \<in> idx" "j \<in> idx" "key_box_name gen i = key_box_name gen j"
    then have "i < 256" "j < 256" using assms(2) by auto
    then show "i = j" using key_box_name_eq [OF assms(1,1)] ij(3) by simp
  qed
  then show "distinct (key_names gen idx)" using f by (simp add: key_names_def distinct_map)
  show "length (key_names gen idx) = card idx" "set (key_names gen idx) = key_box_name gen ` idx"
    using f by (simp_all add: key_names_def)
qed

lemma sum_sizes: "sum_list (map snd (map (\<lambda>n. (n, w)) ns)) = length ns * (w :: nat)"
  by (induction ns) auto

text \<open>The plan for \<open>idx\<close>: every name once, three references for a key box and one for the total box.\<close>

lemma plan_props:
  fixes t :: bool
  assumes g: "gen < uint64_limit" and idx: "idx \<subseteq> {..<8}"
  defines "p \<equiv> plan_box_refs (map (\<lambda>n. (n, 6144)) (key_names gen idx) @ (if t then [(total_box_name gen, 96)] else []))"
  shows "set (distinct_boxes p) = key_box_name gen ` idx \<union> (if t then {total_box_name gen} else {})"
    and "distinct (distinct_boxes p)" and "length (distinct_boxes p) = card idx + (if t then 1 else 0)"
    and "refs_required p = 3 * card idx + (if t then 1 else 0)"
    and "total_declared_bytes p = 6144 * card idx + (if t then 96 else 0)"
proof -
  let ?ns = "key_names gen idx @ (if t then [total_box_name gen] else [])"
  note kn = key_names_distinct [OF g idx]
  have names: "map fst (map (\<lambda>n. (n, 6144 :: nat)) (key_names gen idx) @ (if t then [(total_box_name gen, 96)] else [])) = ?ns"
    by (simp add: comp_def)
  have d: "distinct ?ns" using kn(1,3) by auto
  have l: "length ?ns = card idx + (if t then 1 else 0)" using kn(2) by simp
  have tb: "sum_list (map snd (map (\<lambda>n. (n, 6144)) (key_names gen idx) @ (if t then [(total_box_name gen, 96)] else []))) =
      6144 * card idx + (if t then 96 else 0)"
    unfolding map_append sum_list_append sum_sizes by (simp add: kn(2))
  have c: "max (card idx + (if t then 1 else 0)) (ceil_div (6144 * card idx + (if t then 96 else 0)) 2048) =
      3 * card idx + (if t then 1 else 0)"
  proof -
    have "6144 * k + 96 + 2047 = 2048 * (3 * k + 1) + 95" "2047 + 6144 * k = 2048 * (3 * k) + 2047" for k :: nat by simp_all
    then have "(6144 * k + 96 + 2047) div 2048 = 3 * k + 1" "(2047 + 6144 * k) div 2048 = 3 * k" for k :: nat
      by (simp_all only: div_mult_self4)
    then show ?thesis by (simp add: ceil_div_def)
  qed
  show "set (distinct_boxes p) = key_box_name gen ` idx \<union> (if t then {total_box_name gen} else {})"
    "distinct (distinct_boxes p)" "length (distinct_boxes p) = card idx + (if t then 1 else 0)"
    "refs_required p = 3 * card idx + (if t then 1 else 0)"
    "total_declared_bytes p = 6144 * card idx + (if t then 96 else 0)"
    using d l c kn unfolding p_def plan_box_refs_def names tb
    by (auto simp: Let_def BOX_WRITE_BUDGET_BYTES_PER_REF_def split: if_splits)
qed

definition box_indices :: "bytes \<Rightarrow> bool \<Rightarrow> nat set" where
  "box_indices bits b = (\<lambda>i. i div 64) ` {i. i < 512 \<and> ssz_bit bits i = b}"

lemma avm_bit_index_byte: "avm_bit_index i div 8 = i div 8" "avm_bit_index i mod 8 = 7 - i mod 8"
proof -
  have e: "avm_bit_index i = i div 8 * 8 + (7 - i mod 8)" using mod_less_divisor [of 8 i] by (simp add: avm_bit_index_def)
  have "(q * 8 + r) div 8 = q \<and> (q * 8 + r) mod 8 = r" if "r < 8" for q r :: nat using that by simp
  from this [of "7 - i mod 8" "i div 8"]
  have "(i div 8 * 8 + (7 - i mod 8)) div 8 = i div 8" "(i div 8 * 8 + (7 - i mod 8)) mod 8 = 7 - i mod 8" by linarith+
  then show "avm_bit_index i div 8 = i div 8" "avm_bit_index i mod 8 = 7 - i mod 8" by (simp_all only: e)
qed

lemma bit_set_ssz:
  assumes "length bits = 64" and "i < 512"
  shows "bit_set_r bits i = Inr (ssz_bit bits (avm_bit_index i))"
proof -
  have "i div 8 < 64" using assms(2) by auto
  then show ?thesis using assms(1)
    by (simp add: bit_set_r_def ssz_bit_def avm_bit_index_byte bit_iff_and_drop_bit_eq_1 and.commute)
qed

lemma indices_eq:
  assumes "length bits = 64"
  shows "key_box_indices_for_mode bits mode KEYS_PER_BOX_R 512 = Inr (box_indices bits (mode = 0))"
proof -
  have m: "py_seq (map (bit_set_r bits) [0..<512]) = Inr (map (\<lambda>i. ssz_bit bits (avm_bit_index i)) [0..<512])"
    by (rule py_seq_map) (use assms bit_set_ssz in simp)
  have r: "avm_bit_index i < 512 \<longleftrightarrow> i < 512" "avm_bit_index i div 64 = i div 64" "avm_bit_index (avm_bit_index i) = i" for i
  proof -
    have e: "avm_bit_index i div 8 div 8 = i div 8 div 8" by (simp only: avm_bit_index_byte)
    then show "avm_bit_index i div 64 = i div 64" by (simp add: div_mult2_eq [symmetric])
    have "n < 512 \<longleftrightarrow> n div 8 < 64" for n :: nat by auto
    then show "avm_bit_index i < 512 \<longleftrightarrow> i < 512" by (metis avm_bit_index_byte(1))
    have "i mod 8 \<le> 7" by (simp add: less_Suc_eq_le [symmetric])
    then have "avm_bit_index (avm_bit_index i) mod 8 = i mod 8" "avm_bit_index (avm_bit_index i) div 8 = i div 8"
      by (simp_all add: avm_bit_index_byte)
    then show "avm_bit_index (avm_bit_index i) = i" by (metis div_mult_mod_eq)
  qed
  have "(\<lambda>i. i div 64) ` {i. i < 512 \<and> ssz_bit bits (avm_bit_index i) = b} = box_indices bits b" for b
  proof -
    have "x \<in> (\<lambda>i. i div 64) ` {i. i < 512 \<and> ssz_bit bits (avm_bit_index i) = b} \<longleftrightarrow>
        x \<in> (\<lambda>i. i div 64) ` {i. i < 512 \<and> ssz_bit bits i = b}" for x
      by (auto simp: image_iff) (metis r)+
    then show ?thesis by (auto simp: box_indices_def)
  qed
  note this [of True] this [of False]
  moreover have "set (map (\<lambda>i. i div 64) (filter (\<lambda>i. if mode = 0 then map f [0..<512] ! i else \<not> map f [0..<512] ! i) [0..<512])) =
      (\<lambda>i. i div 64) ` {i. i < 512 \<and> f i = (mode = 0)}" for f :: "nat \<Rightarrow> bool"
    by (cases "mode = 0") (auto simp: image_iff)
  ultimately show ?thesis
    by (cases "mode = 0") (simp_all add: key_box_indices_for_mode_def m KEYS_PER_BOX_R_def del: upt_conv_Cons)
qed

lemma box_indices_bound: "box_indices bits b \<subseteq> {..<8}"
  by (auto simp: box_indices_def)

lemma choose_mode_eq:
  assumes bits: "length bits = 64" and g: "gen < uint64_limit"
  defines "kd \<equiv> card (box_indices bits True)" and "kc \<equiv> card (box_indices bits False)"
  shows "\<exists>mode plan. choose_mode bits gen = Inr (mode, plan) \<and> mode = (if kd \<le> kc then 0 else 1) \<and>
    refs_required plan = (if kd \<le> kc then 3 * kd else 3 * kc + 1) \<and>
    set (distinct_boxes plan) = mode_boxes bits gen mode \<and> distinct (distinct_boxes plan) \<and>
    length (distinct_boxes plan) = (if kd \<le> kc then kd else kc + 1) \<and>
    total_declared_bytes plan = (if kd \<le> kc then 6144 * kd else 6144 * kc + 96)"
proof -
  let ?p = "\<lambda>b t. plan_box_refs (map (\<lambda>n. (n, 6144)) (key_names gen (box_indices bits b)) @ (if t then [(total_box_name gen, 96)] else []))"
  note D = plan_props [OF g box_indices_bound, where t = False, of bits True]
    and K = plan_props [OF g box_indices_bound, where t = True, of bits False]
  have refs: "refs_required (?p True False) = 3 * kd" "refs_required (?p False True) = 3 * kc + 1"
    using D(4) K(4) unfolding kd_def kc_def by simp_all
  have ne: "3 * kd \<noteq> 3 * kc + 1" by presburger
  have lt: "3 * kd < 3 * kc + 1 \<longleftrightarrow> kd \<le> kc" by linarith
  have ix: "key_box_indices_for_mode bits 0 KEYS_PER_BOX_R 512 = Inr (box_indices bits True)"
    "key_box_indices_for_mode bits 1 KEYS_PER_BOX_R 512 = Inr (box_indices bits False)"
    using indices_eq [OF bits, of 0] indices_eq [OF bits, of 1] by simp_all
  have ch: "choose_mode bits gen = Inr (if kd \<le> kc then (0, ?p True False) else (1, ?p False True))"
    using ne unfolding choose_mode_def ix rbind_Inr update_sizes_eq [OF g box_indices_bound] Let_def
    by (simp only: simp_thms if_True if_False refs [unfolded if_True if_False] lt)
  have k: "{key_box_name gen (i div 64) |i. i < 512 \<and> ssz_bit bits i = b} = key_box_name gen ` box_indices bits b" for b
    by (auto simp: box_indices_def)
  have mb: "mode_boxes bits gen 0 = key_box_name gen ` box_indices bits True"
    "mode_boxes bits gen 1 = key_box_name gen ` box_indices bits False \<union> {total_box_name gen}"
    using k [of True] k [of False] by (simp_all add: mode_boxes_def)
  show ?thesis
  proof (cases "kd \<le> kc")
    case True
    then show ?thesis using ch refs D mb unfolding kd_def [symmetric] by (intro exI [of _ 0] exI [of _ "?p True False"]) simp
  next
    case False
    then show ?thesis using ch refs K mb unfolding kc_def [symmetric] by (intro exI [of _ 1] exI [of _ "?p False True"]) simp
  qed
qed

section \<open>Padding and chunks\<close>

lemma pad_refs_props:
  "base \<noteq> [] \<Longrightarrow> set refs \<subseteq> set base \<Longrightarrow>
   set refs \<subseteq> set (pad_refs base n refs) \<and> set (pad_refs base n refs) \<subseteq> set base \<and>
   length (pad_refs base n refs) = max n (length refs)"
proof (induction base n refs rule: pad_refs.induct)
  case (1 base n refs)
  have "base ! (length refs mod length base) \<in> set base" using 1(2) by simp
  then have "set (refs @ [base ! (length refs mod length base)]) \<subseteq> set base" using 1(3) by simp
  then show ?case using 1(1) [OF _ 1(2)] 1(3) pad_refs.simps [of base n refs] by (cases "length refs < n") auto
qed

lemma concat_chunks: "concat (map (\<lambda>i. take k (drop (i * k) xs)) [0..<n]) = take (n * k) xs"
proof (induction n)
  case 0
  then show ?case by simp
next
  case (Suc n)
  have "Suc n * k = n * k + k" by simp
  then show ?case using Suc by (simp only: take_add) simp
qed

lemma ceil_div_covers:
  assumes "0 < k"
  shows "n \<le> ceil_div n k * k"
proof -
  have "(n + k - 1) div k * k + (n + k - 1) mod k = n + k - 1" by simp
  moreover have "(n + k - 1) mod k < k" using assms by simp
  ultimately have "n \<le> (n + k - 1) div k * k" using assms by linarith
  then show ?thesis by (simp add: ceil_div_def)
qed

lemma chunks_of_concat: "0 < k \<Longrightarrow> concat (chunks_of k xs) = xs"
  using concat_chunks [of k xs "ceil_div (length xs) k"] ceil_div_covers [of k "length xs"]
  by (simp add: chunks_of_def py_range_def comp_def)

lemma chunks_of_bound: "c \<in> set (chunks_of k xs) \<Longrightarrow> length c \<le> k"
  by (auto simp: chunks_of_def)

lemma length_chunks_of: "length (chunks_of k xs) = ceil_div (length xs) k"
  by (simp add: chunks_of_def py_range_def)

section \<open>The update group\<close>

lemma refs_noop: "call_with_refs H C S x SNoopBudget s = Inr s"
  by (rule refs_silent [where m = Inr]) (simp_all add: silent_def fun_eq_iff)

lemma run_noops: "run_txns H C S x (map (M4Call SNoopBudget) rs @ ts) s = run_txns H C S x ts s"
  by (induction rs) (simp_all add: refs_noop)

definition padded_refs :: "box_ref_plan \<Rightarrow> bytes list" where
  "padded_refs plan =
     (if distinct_boxes plan = [] then [] else pad_refs (distinct_boxes plan) (refs_required plan) (distinct_boxes plan))"

lemma padded_refs_props:
  "set (padded_refs plan) = set (distinct_boxes plan)"
  "distinct_boxes plan \<noteq> [] \<Longrightarrow> length (padded_refs plan) = max (refs_required plan) (length (distinct_boxes plan))"
  using pad_refs_props [of "distinct_boxes plan" "distinct_boxes plan" "refs_required plan"]
  by (auto simp: padded_refs_def)

lemma update_group_eq:
  "submit_update_group u mode plan =
     DonorTxn (take 7 (drop 8 (padded_refs plan))) #
       map (M4Call SNoopBudget) (chunks_of 8 (drop 7 (drop 8 (padded_refs plan)))) @
       [M4Call (SSubmitUpdate (u\<lparr>u_mode := mode\<rparr>)) (take 8 (padded_refs plan))]"
  by (simp add: submit_update_group_def padded_refs_def Let_def)

lemma noop_refs: "concat (map txn_refs (map (M4Call SNoopBudget) rs)) = concat rs"
  by (simp add: comp_def)

lemma update_group_refs: "group_refs (submit_update_group u mode plan) = set (distinct_boxes plan)"
proof -
  let ?r = "padded_refs plan"
  have "group_refs (submit_update_group u mode plan) =
      set (take 7 (drop 8 ?r) @ concat (chunks_of 8 (drop 7 (drop 8 ?r))) @ take 8 ?r)"
    unfolding group_refs_def update_group_eq by (simp only: list.map map_append concat.simps concat_append noop_refs txn_refs.simps append_Nil2 append.simps)
  also have "\<dots> = set (take 8 ?r @ take 7 (drop 8 ?r) @ drop 7 (drop 8 ?r))"
    by (simp only: chunks_of_concat set_append) auto
  also have "\<dots> = set ?r" by (simp only: append_take_drop_id)
  finally show ?thesis using padded_refs_props(1) by simp
qed

lemma update_group_runs:
  assumes ch: "choose_mode (u_bits u) gen = Inr (mode, plan)" and g: "gen < uint64_limit"
    and ok: "sc_call_ok (SSubmitUpdate u)"
    and sel: "\<And>a f un g. select_committee s a f (u_sig_slot u) = Inr (un, g) \<Longrightarrow> g = gen"
  shows "run_group H C x (submit_update_group u mode plan) s =
    (case submit_update H C (u\<lparr>u_mode := mode\<rparr>) s of Inl _ \<Rightarrow> Inl AlgodError | Inr (s', _) \<Rightarrow> Inr s')"
proof -
  let ?u = "u\<lparr>u_mode := mode\<rparr>" and ?S = "set (distinct_boxes plan)"
  have l: "length (u_bits u) = 64" using ok by simp
  have S: "?S = mode_boxes (u_bits u) gen mode" using choose_mode_eq [OF l g] ch by auto
  have "call_with_refs H C ?S x (SSubmitUpdate ?u) s = rbind (submit_update H C ?u s) (\<lambda>(s', _). Inr s')"
  proof (rule refs_update)
    show "sc_call_ok (SSubmitUpdate ?u)" using ok by simp
    show "dom (sc_boxes s |` ?S) \<subseteq> ?S" by auto
    show "mode_boxes (u_bits ?u) h (u_mode ?u) \<subseteq> ?S" if "select_committee s a f (u_sig_slot ?u) = Inr (un, h)" for a f un h
      using sel [of a f un h] that S by simp
  qed
  moreover have "run_txns H C T x (submit_update_group u mode plan) s = rbind (call_with_refs H C T x (SSubmitUpdate ?u) s) Inr" for T
    unfolding update_group_eq by (simp add: run_noops) (simp add: rbind_def split: sum.split)
  ultimately show ?thesis
    unfolding run_group_def update_group_refs by (cases "submit_update H C ?u s") auto
qed

text \<open>The committee the relayer plans for is the one the contract selects.\<close>

lemma committee_choice_select:
  assumes "select_committee s a f sig = Inr (un, g)"
  shows "committee_choice s sig = (un, g)"
  using assms
  by (auto simp: select_committee_def committee_choice_def Let_def res_simps period_at_slot_eq split: if_splits)

text \<open>The shape of the group: at most four transactions, no more than eight references each (seven beside the
  donor's application), and enough of them for the bytes of the boxes.\<close>

lemma update_group_shape:
  assumes ch: "choose_mode bits gen = Inr (mode, plan)" and l: "length bits = 64" and g: "gen < uint64_limit"
  shows "length (submit_update_group u mode plan) \<le> 4"
    and "\<forall>t\<in>set (submit_update_group u mode plan). length (txn_refs t) \<le> 8"
    and "length (txn_refs (hd (submit_update_group u mode plan))) \<le> 7"
    and "sum_list (map (length \<circ> txn_refs) (submit_update_group u mode plan)) = refs_required plan"
    and "total_declared_bytes plan \<le> 2048 * refs_required plan" and "refs_required plan \<le> 24"
proof -
  let ?r = "padded_refs plan"
  let ?kd = "card (box_indices bits True)" and ?kc = "card (box_indices bits False)"
  have b: "?kd \<le> 8" "?kc \<le> 8" using card_mono [OF _ box_indices_bound] by fastforce+
  have P: "refs_required plan = (if ?kd \<le> ?kc then 3 * ?kd else 3 * ?kc + 1)"
    "length (distinct_boxes plan) = (if ?kd \<le> ?kc then ?kd else ?kc + 1)"
    "total_declared_bytes plan = (if ?kd \<le> ?kc then 6144 * ?kd else 6144 * ?kc + 96)"
    using choose_mode_eq [OF l g] ch by auto
  show r24: "refs_required plan \<le> 24" using P(1) b by (auto split: if_splits)
  show "total_declared_bytes plan \<le> 2048 * refs_required plan" using P(1,3) by auto
  have len: "length ?r = refs_required plan"
  proof (cases "distinct_boxes plan = []")
    case True
    then show ?thesis using P(1,2) by (auto simp: padded_refs_def split: if_splits)
  next
    case False
    then show ?thesis using padded_refs_props(2) [of plan] P(1,2) by (auto split: if_splits)
  qed
  have "ceil_div n 8 \<le> 2" if "n \<le> 9" for n using that by (simp add: ceil_div_def)
  then show "length (submit_update_group u mode plan) \<le> 4"
    using len r24 by (simp add: update_group_eq length_chunks_of)
  show "\<forall>t\<in>set (submit_update_group u mode plan). length (txn_refs t) \<le> 8"
    using chunks_of_bound [of _ 8] by (auto simp: update_group_eq)
  show "length (txn_refs (hd (submit_update_group u mode plan))) \<le> 7" by (simp add: update_group_eq)
  have c: "sum_list (map (length \<circ> txn_refs) (map (M4Call SNoopBudget) cs)) = length (concat cs)" for cs
    by (induction cs) simp_all
  have "sum_list (map (length \<circ> txn_refs) (submit_update_group u mode plan)) =
      length (take 7 (drop 8 ?r)) + length (drop 7 (drop 8 ?r)) + length (take 8 ?r)"
    unfolding update_group_eq list.map map_append sum_list_append c chunks_of_concat [OF zero_less_numeral] sum_list.Cons by simp
  then show "sum_list (map (length \<circ> txn_refs) (submit_update_group u mode plan)) = refs_required plan"
    using len by simp
qed

section \<open>A whole update\<close>

lemma drive_update_core:
  assumes g: "cur_gen s < uint64_limit" "next_gen s < uint64_limit"
    and tr: "finality = Inr d" "transform_finality_update dg2 d = Inr u" "u_sig_slot u < uint64_limit"
    and now: "u_sig_slot u \<le> slot_now GENESIS_TIME_MAINNET now + MARGIN_SLOTS"
    and new: "fin_slot s < be_val (rev (seg 0 8 (u_finalized u)))"
    and inst: "cur_gen s \<noteq> 0" and cc: "committee_choice s (u_sig_slot u) = (un, gen)" "gen \<noteq> 0"
  shows "\<exists>mode plan. choose_mode (u_bits u) gen = Inr (mode, plan) \<and>
    drive_m4_update H C x dg2 now True finality s =
      (case submit_update H C (u\<lparr>u_mode := mode\<rparr>) s of
         Inl _ \<Rightarrow> (s, Inl AlgodError)
       | Inr (s', _) \<Rightarrow> (s', Inr (Submitted mode gen un)))"
proof -
  have u: "length (u_bits u) = 64" "length (u_next_root u) = 32"
    using tr(2) by (auto simp: transform_finality_update_def res_simps)
  have gen: "gen < uint64_limit" using cc g by (auto simp: committee_choice_def Let_def split: if_splits)
  obtain mode plan where ch: "choose_mode (u_bits u) gen = Inr (mode, plan)"
    using choose_mode_eq [OF u(1) gen] by blast
  have ok: "sc_call_ok (SSubmitUpdate u)" using u tr(3) by simp
  have sel: "\<And>a f un g. select_committee s a f (u_sig_slot u) = Inr (un, g) \<Longrightarrow> g = gen"
    using committee_choice_select cc(1) by fastforce
  note run = update_group_runs [OF ch gen ok sel, where H = H and C = C and x = x]
  have "rbind finality (\<lambda>d. rbind (transform_finality_update dg2 d) (\<lambda>args.
      rbind (assert_not_future_dated (u_sig_slot args) GENESIS_TIME_MAINNET MARGIN_SLOTS now) (\<lambda>_. Inr args))) = Inr u"
    using tr now by (simp add: assert_not_future_dated_def)
  then have "drive_m4_update H C x dg2 now True finality s =
      (case submit_update H C (u\<lparr>u_mode := mode\<rparr>) s of
         Inl _ \<Rightarrow> (s, Inl AlgodError)
       | Inr (s', _) \<Rightarrow> (s', Inr (Submitted mode gen un)))"
    using inst new cc ch by (simp add: drive_m4_update_def run split: sum.split)
  with ch show ?thesis by blast
qed

end
