(* ===== verification/Rel_Drive.thy ===== *)
theory Rel_Drive
  imports Rel_Sync
begin

text \<open>
  The relayer's installation of a committee: from a session whose cursor is a multiple of the chunk size it runs
  to the end, each group naming the boxes its calls reach; from any other cursor below the last key box it never
  gets out. And the reclaiming of superseded generations.
\<close>

section \<open>One chunk group\<close>

lemma range_next: "c < n \<Longrightarrow> 0 < k \<Longrightarrow> py_range c n k = c # py_range (c + k) n k"
proof -
  assume c: "c < n" and k: "0 < k"
  have "ceil_div (n - c) k = Suc (ceil_div (n - (c + k)) k)"
  proof (cases "n \<le> c + k")
    case True
    have "(n - c + k - 1) div k = 1"
    proof -
      have "n - c + k - 1 = k + (n - c - 1)" "n - c - 1 < k" using c k True by linarith+
      moreover have "(k + r) div k = 1" if "r < k" for r using k that by (simp add: div_add_self1)
      ultimately show ?thesis by (simp only:)
    qed
    moreover have "(k - 1) div k = 0" using k by simp
    ultimately show ?thesis using True by (simp add: ceil_div_def)
  next
    case False
    then have e: "n - c + k - 1 = (n - (c + k) + k - 1) + k" using k by linarith
    have "(m + k) div k = Suc (m div k)" for m using div_add_self2 [of k m] k by simp
    then show ?thesis unfolding ceil_div_def e .
  qed
  then show ?thesis
    by (simp add: py_range_def upt_conv_Cons map_Suc_upt [symmetric] comp_def del: upt_Suc)
qed

lemma range_end: "n \<le> c \<Longrightarrow> 0 < k \<Longrightarrow> py_range c n k = []"
  by (simp add: py_range_def ceil_div_def)

definition chunk_at :: "(bytes \<times> bytes) list \<Rightarrow> nat \<Rightarrow> (bytes \<times> bytes) list" where
  "chunk_at pairs start = take 8 (drop start pairs)"

lemma chunk_group_eq:
  assumes "gen < uint64_limit" and "start < 512"
  shows "chunk_group gen pairs start = Inr [DonorTxn [], M4Call (chunk_call start (chunk_at pairs start))
    [key_box_name gen (start div 64), session_box_name gen, key_box_name gen (start div 64), session_box_name gen]]"
proof -
  have "start div 64 < 256" using assms(2) by auto
  from key_name_r [OF assms(1) this] session_name_r [OF assms(1)] show ?thesis
    by (simp add: chunk_group_def chunk_blobs_def chunk_call_def chunk_at_def INSTALL_CHUNK_SIZE_def Let_def)
qed

lemma group_of_one: "run_group H C x [DonorTxn rs, M4Call c refs] s =
    (case call_with_refs H C (set rs \<union> set refs) x c s of Inl _ \<Rightarrow> Inl AlgodError | Inr s' \<Rightarrow> Inr s')"
  by (simp add: run_group_def group_refs_def rbind_def split: sum.split)

lemma same_key_box:
  assumes "c mod 8 = 0" and "c \<le> j" and "j < c + 8"
  shows "j div 64 = c div (64 :: nat)"
proof -
  obtain q where q: "c = 8 * q" using assms(1) by (metis mult_div_mod_eq add.right_neutral)
  obtain r where r: "j = 8 * q + r" "r < 8" using assms(2,3) q by (metis le_Suc_ex nat_add_left_cancel_less)
  have "j div 8 = q" "c div 8 = q" using q r by simp_all
  then show ?thesis by (metis div_mult2_eq mult_numeral_left(1) num_double numeral_times_numeral)
qed

text \<open>An aligned chunk stays within its key box.\<close>

lemma chunk_group_accepted:
  assumes g: "inst_gen s < uint64_limit" and c: "inst_cursor s mod 8 = 0" "inst_cursor s < 512"
    and m: "\<And>p. p \<in> set pairs \<Longrightarrow> length (fst p) = 48"
    and st: "sc_step H C s (x, chunk_call (inst_cursor s) (chunk_at pairs (inst_cursor s))) s'"
  shows "rbind (chunk_group (inst_gen s) pairs (inst_cursor s)) (\<lambda>g. run_group H C x g s) = Inr s'"
proof -
  let ?c = "inst_cursor s" and ?ch = "chunk_at pairs (inst_cursor s)"
  let ?S = "set [] \<union> set [key_box_name (inst_gen s) (?c div 64), session_box_name (inst_gen s), key_box_name (inst_gen s) (?c div 64), session_box_name (inst_gen s)]"
  have cc: "chunk_call ?c ?ch = SInstallChunk ?c (concat (map fst ?ch)) (concat (map snd ?ch))" by (simp add: chunk_call_def)
  have l: "length (concat (map fst ?ch)) div 48 \<le> 8"
  proof -
    have "length (concat (map fst ?ch)) = length (map fst ?ch) * 48"
      by (rule concat_const_length) (use m in \<open>auto simp: chunk_at_def dest!: in_set_takeD in_set_dropD\<close>)
    moreover have "length ?ch \<le> 8" by (simp add: chunk_at_def)
    ultimately show ?thesis by simp
  qed
  have ok: "sc_call_ok (SInstallChunk ?c (concat (map fst ?ch)) (concat (map snd ?ch)))"
    and ex: "install_chunk H C ?c (concat (map fst ?ch)) (concat (map snd ?ch)) s = Inr s'"
    using st unfolding cc sc_step_simps by (auto simp: silent_def res_simps)
  have "call_with_refs H C ?S x (chunk_call ?c ?ch) s = Inr s'"
    unfolding cc
  proof (subst refs_chunk [OF ok])
    show "session_box_name (inst_gen s) \<in> ?S" by simp
    fix j assume j: "?c \<le> j" "j < ?c + length (concat (map fst ?ch)) div 48"
    then have "j < ?c + 8" using l by linarith
    then have "j div 64 = ?c div 64" by (rule same_key_box [OF c(1) j(1)])
    then show "key_box_name (inst_gen s) (j div 64) \<in> ?S" by simp
  qed (use ex in simp)
  then show ?thesis by (simp add: chunk_group_eq [OF g c(2)] group_of_one)
qed

section \<open>Resuming\<close>

lemma submit_chunks_complete:
  assumes c: "g1_curve C G" and H: "\<And>x. length (H x) = 32"
    and pairs: "length pairs = 512" "\<And>p. p \<in> set pairs \<Longrightarrow> member_ok G p"
  shows "sc_inv H C G R s \<Longrightarrow> inst_state s = 3 \<Longrightarrow> session_inv H C G (sc_boxes s) (inst_gen s) (take n pairs) \<Longrightarrow>
    inst_cursor s = n \<Longrightarrow> n mod 8 = 0 \<Longrightarrow> n \<le> 512 \<Longrightarrow>
    \<exists>bs R'. let s' = s\<lparr>sc_boxes := bs, inst_cursor := 512\<rparr> in
      submit_chunks H C x (inst_gen s) pairs (py_range n 512 8) s = (s', Inr ()) \<and>
      session_inv H C G bs (inst_gen s) pairs \<and> sc_inv H C G R' s'"
proof (induction "512 - n" arbitrary: n s R rule: less_induct)
  case less
  show ?case
  proof (cases "n = 512")
    case True
    have e: "s\<lparr>inst_cursor := 512\<rparr> = s" using less.prems(4) [symmetric] True [symmetric] by simp
    show ?thesis using less.prems True pairs(1)
      by (intro exI [of _ "sc_boxes s"] exI [of _ R]) (simp add: range_end e)
  next
    case False
    have n: "n < 512" using False less.prems(6) by simp
    obtain q where "n = 8 * q" using less.prems(5) by (metis mult_div_mod_eq add.right_neutral)
    then have n: "n < 512" "n + 8 \<le> 512" using n by simp_all
    let ?ch = "chunk_at pairs n"
    have ln: "length (take n pairs) = n" using n pairs(1) by simp
    have chm: "\<And>p. p \<in> set ?ch \<Longrightarrow> member_ok G p" using pairs(2) by (auto simp: chunk_at_def dest!: in_set_takeD in_set_dropD)
    have chl: "length ?ch = 8" using n pairs(1) by (simp add: chunk_at_def)
    have tk: "take n pairs @ ?ch = take (n + 8) pairs" by (simp add: chunk_at_def take_add)
    have cur: "inst_cursor s = length (take n pairs)" using less.prems(4) ln by simp
    have b: "length ?ch \<le> 42" "length (take n pairs) + length ?ch \<le> 512" using chl ln n by simp_all
    obtain bs where st: "sc_step H C s (x, chunk_call n ?ch) (s\<lparr>sc_boxes := bs, inst_cursor := n + 8\<rparr>)"
      and si: "session_inv H C G bs (inst_gen s) (take (n + 8) pairs)"
      using chunk_accepted [where H = H, OF c H less.prems(1-3) cur chm b, of x] unfolding tk ln chl by (auto simp: ln n pairs(1))
    let ?s = "s\<lparr>sc_boxes := bs, inst_cursor := n + 8\<rparr>"
    have g: "inst_gen s < uint64_limit" using less.prems(1) by (auto simp: sc_inv_def gens_ok_def)
    have m48: "\<And>p. p \<in> set pairs \<Longrightarrow> length (fst p) = 48" using pairs(2) by (auto simp: member_ok_def)
    have cu: "inst_cursor s mod 8 = 0" "inst_cursor s < 512" using less.prems(4,5) n by simp_all
    have run: "rbind (chunk_group (inst_gen s) pairs n) (\<lambda>g. run_group H C x g s) = Inr ?s"
      using chunk_group_accepted [OF g cu m48] st less.prems(4) by auto
    note inv = inv_step [where H = H, OF c H less.prems(1) st]
    have "512 - (n + 8) < 512 - n" using n by linarith
    from less.hyps [OF this inv] si less.prems(2,5) n obtain bs' R' where
      r: "submit_chunks H C x (inst_gen s) pairs (py_range (n + 8) 512 8) ?s = (?s\<lparr>sc_boxes := bs', inst_cursor := 512\<rparr>, Inr ())"
      "session_inv H C G bs' (inst_gen s) pairs" "sc_inv H C G R' (?s\<lparr>sc_boxes := bs', inst_cursor := 512\<rparr>)"
      unfolding Let_def by auto
    have "submit_chunks H C x (inst_gen s) pairs (py_range n 512 8) s = (s\<lparr>sc_boxes := bs', inst_cursor := 512\<rparr>, Inr ())"
      using run r(1) n(1) by (simp add: range_next)
    then show ?thesis using r(2,3) by (intro exI [of _ bs'] exI [of _ R']) (simp add: Let_def)
  qed
qed

lemma resume_complete:
  assumes c: "g1_curve C G" and H: "\<And>x. length (H x) = 32" and inv: "sc_inv H C G R s" and i: "inst_state s = 3"
    and root: "ba_committee_root boot = inst_root s"
    and cm: "committee_members H C G (ba_pairs boot) (ba_aggregate_compressed boot) (inst_root s)"
    and au: "ba_aggregate_uncompressed boot = gsum C (map snd (ba_pairs boot))"
    and ses: "session_inv H C G (sc_boxes s) (inst_gen s) (take (inst_cursor s) (ba_pairs boot))"
    and cur: "inst_cursor s mod 8 = 0" "inst_cursor s \<le> 512"
  shows "\<exists>s'. resume_install H C x boot s =
      (s', Inr (Installed (inst_gen s) ((512 - inst_cursor s) div 8) (inst_cursor s))) \<and>
    after_install C s (map snd (ba_pairs boot)) s'"
proof -
  let ?p = "ba_pairs boot" and ?g = "inst_gen s"
  have l: "length ?p = 512" and mem: "\<And>p. p \<in> set ?p \<Longrightarrow> member_ok G p" using cm unfolding committee_members_def by blast+
  obtain bs R' where sub: "submit_chunks H C x ?g ?p (py_range (inst_cursor s) 512 8) s = (s\<lparr>sc_boxes := bs, inst_cursor := 512\<rparr>, Inr ())"
    and si: "session_inv H C G bs ?g ?p" and inv1: "sc_inv H C G R' (s\<lparr>sc_boxes := bs, inst_cursor := 512\<rparr>)"
    using submit_chunks_complete [where H = H, OF c H l mem inv i ses refl cur, of x] unfolding Let_def by blast
  let ?s = "s\<lparr>sc_boxes := bs, inst_cursor := 512\<rparr>"
  have p: "inst_state ?s = 3" "session_inv H C G (sc_boxes ?s) (inst_gen ?s) ?p" "inst_cursor ?s = 512"
    "committee_members H C G ?p (ba_aggregate_compressed boot) (inst_root ?s)" using i si cm by simp_all
  obtain s' where st: "sc_step H C ?s (x, SInstallFinalize (ba_aggregate_compressed boot) (ba_aggregate_uncompressed boot)) s'"
    and af: "after_install C ?s (map snd ?p) s'"
    using finalize_accepted [where H = H, OF c H inv1 p, of x] unfolding au by blast
  have g: "?g < uint64_limit" using inv by (auto simp: sc_inv_def gens_ok_def)
  have fg: "finalize_group ?g boot = Inr [DonorTxn [], M4Call (SInstallFinalize (ba_aggregate_compressed boot) (ba_aggregate_uncompressed boot))
      [session_box_name ?g, total_box_name ?g]]"
    by (simp add: finalize_group_def session_name_r [OF g] total_name_r [OF g])
  have ok: "sc_call_ok (SInstallFinalize (ba_aggregate_compressed boot) (ba_aggregate_uncompressed boot))"
    and ex: "install_finalize H C (ba_aggregate_compressed boot) (ba_aggregate_uncompressed boot) ?s = Inr s'"
    using st unfolding sc_step_simps by (auto simp: silent_def res_simps)
  have "call_with_refs H C (set [] \<union> set [session_box_name ?g, total_box_name ?g]) x
      (SInstallFinalize (ba_aggregate_compressed boot) (ba_aggregate_uncompressed boot)) ?s = Inr s'"
    by (subst refs_finalize [OF ok]) (use ex in simp_all)
  then have fin: "rbind (finalize_group ?g boot) (\<lambda>g. run_group H C x g ?s) = Inr s'" by (simp add: fg group_of_one)
  have n: "length (py_range (inst_cursor s) 512 8) = (512 - inst_cursor s) div 8"
  proof -
    obtain q where "inst_cursor s = 8 * q" using cur(1) by (metis mult_div_mod_eq add.right_neutral)
    then have "512 - inst_cursor s = 8 * (64 - q)" using cur(2) by simp
    then show ?thesis by (simp add: py_range_def ceil_div_def)
  qed
  have "resume_install H C x boot s = (s', Inr (Installed ?g ((512 - inst_cursor s) div 8) (inst_cursor s)))"
    using root sub fin n by (simp add: resume_install_def l INSTALL_CHUNK_SIZE_def Let_def)
  moreover have "after_install C s (map snd ?p) s'" using af by (simp add: after_install_def)
  ultimately show ?thesis by blast
qed

section \<open>A cursor between chunks\<close>

text \<open>A chunk that crosses into the next key box is not accepted: its group names only the first.\<close>

lemma crossing_chunk_fails:
  assumes g: "inst_gen s < uint64_limit" and c: "inst_cursor s < 448" "inst_cursor s mod 64 > 56"
    and p: "length pairs = 512" "\<And>p. p \<in> set pairs \<Longrightarrow> length (fst p) = 48"
  shows "\<exists>e. rbind (chunk_group (inst_gen s) pairs (inst_cursor s)) (\<lambda>g. run_group H C x g s) = Inl e"
proof (rule ccontr)
  let ?c = "inst_cursor s" and ?ch = "chunk_at pairs (inst_cursor s)" and ?g = "inst_gen s"
  let ?S = "set [] \<union> set [key_box_name ?g (?c div 64), session_box_name ?g, key_box_name ?g (?c div 64), session_box_name ?g]"
  have c5: "?c < 512" using c by simp
  assume "\<not> ?thesis"
  then obtain s' where "call_with_refs H C ?S x (chunk_call ?c ?ch) s = Inr s'"
    unfolding chunk_group_eq [OF g c5] rbind_Inr group_of_one
    by (cases "call_with_refs H C ?S x (chunk_call ?c ?ch) s") auto
  then obtain r where pc: "install_process_chunk H C ?g ?c (concat (map fst ?ch)) (concat (map snd ?ch)) (sc_boxes s |` ?S) = Inr r"
    by (auto simp: call_with_refs_def chunk_call_def silent_def install_chunk_def res_simps split: if_splits)
  have "length (concat (map fst ?ch)) = length (map fst ?ch) * 48"
    by (rule concat_const_length) (use p(2) in \<open>auto simp: chunk_at_def dest!: in_set_takeD in_set_dropD\<close>)
  then have k: "length (concat (map fst ?ch)) div 48 = 8" using p(1) c by (simp add: chunk_at_def)
  obtain q st fl su where l: "chunk_loop H C ?g ?c (concat (map fst ?ch)) (concat (map snd ?ch)) 0 8 (sc_boxes s |` ?S) st fl su = Inr q"
    using pc by (auto simp: install_process_chunk_def Let_def res_simps box_layout k)
  let ?i = "64 * (?c div 64 + 1)"
  have m: "64 * (?c div 64) + ?c mod 64 = ?c" "?c mod 64 < 64" by simp_all
  have a: "c + 0 \<le> 64 * (q + 1) \<and> 64 * (q + 1) < c + 0 + 8" if "64 * q + r = c" "r < 64" "56 < r" for q r c :: nat
    using that by presburger
  have i: "?c + 0 \<le> ?i" "?i < ?c + 0 + 8" using a [OF m c(2)] by blast+
  have i3: "?i div 64 = ?c div 64 + 1" by simp
  have "key_box_name ?g (?c div 64 + 1) \<noteq> key_box_name ?g (?c div 64)"
    using key_box_name_eq [OF g g, of "?c div 64 + 1" "?c div 64"] c(1) by auto
  then have "(sc_boxes s |` ?S) (key_box_name ?g (?i div 64)) = None" unfolding i3 by (simp add: restrict_map_def)
  from chunk_loop_stuck [where bs = "sc_boxes s |` ?S", OF i(1,2) this] l show False by blast
qed

text \<open>The states that the relayer cannot leave by installing.\<close>

definition install_stuck :: "sc_state \<Rightarrow> bool" where
  "install_stuck s \<longleftrightarrow> inst_state s = 3 \<and> inst_gen s < uint64_limit \<and> inst_cursor s mod 8 \<noteq> 0 \<and> inst_cursor s < 448"

lemma chunk_group_result:
  assumes "inst_state s = 3" and g: "inst_gen s < uint64_limit" and c: "inst_cursor s < 504" and p: "length pairs = 512"
    "\<And>p. p \<in> set pairs \<Longrightarrow> length (fst p) = 48"
    and r: "rbind (chunk_group (inst_gen s) pairs (inst_cursor s)) (\<lambda>g. run_group H C x g s) = Inr s'"
  shows "inst_state s' = 3 \<and> inst_gen s' = inst_gen s \<and> inst_root s' = inst_root s \<and> inst_cursor s' = inst_cursor s + 8"
proof -
  let ?c = "inst_cursor s" and ?ch = "chunk_at pairs (inst_cursor s)" and ?g = "inst_gen s"
  have c5: "?c < 512" using c by simp
  have "length (concat (map fst ?ch)) = length (map fst ?ch) * 48"
    by (rule concat_const_length) (use p(2) in \<open>auto simp: chunk_at_def dest!: in_set_takeD in_set_dropD\<close>)
  then have k: "length (concat (map fst ?ch)) div 48 = 8" using p(1) c by (simp add: chunk_at_def)
  have n: "n = ?c + 8" if "install_process_chunk H C ?g ?c (concat (map fst ?ch)) ub bs = Inr (bs', n)" for ub bs bs' n
    using that by (auto simp: install_process_chunk_def Let_def res_simps k uadd_def box_layout split: if_splits)
  show ?thesis
    using r n unfolding chunk_group_eq [OF g c5] rbind_Inr group_of_one
    by (auto simp: call_with_refs_def chunk_call_def silent_def install_chunk_def inst_states res_simps split: if_splits sum.splits)
qed

lemma stuck_chunks:
  assumes p: "length pairs = 512" "\<And>p. p \<in> set pairs \<Longrightarrow> length (fst p) = 48"
  shows "install_stuck s \<Longrightarrow> inst_cursor s = n \<Longrightarrow>
    \<exists>s' e. submit_chunks H C x (inst_gen s) pairs (py_range n 512 8) s = (s', Inl e) \<and> install_stuck s'"
proof (induction "512 - n" arbitrary: n s rule: less_induct)
  case less
  have n: "n < 448" "n mod 8 \<noteq> 0" "inst_state s = 3" "inst_gen s < uint64_limit" using less.prems by (auto simp: install_stuck_def)
  show ?case
  proof (cases "rbind (chunk_group (inst_gen s) pairs n) (\<lambda>g. run_group H C x g s)")
    case (Inl e)
    then have "submit_chunks H C x (inst_gen s) pairs (py_range n 512 8) s = (s, Inl e)" using n by (simp add: range_next)
    then show ?thesis using less.prems(1) by blast
  next
    case (Inr s1)
    have cu: "inst_cursor s < 504" using less.prems(2) n by simp
    have r: "inst_state s1 = 3" "inst_gen s1 = inst_gen s" "inst_cursor s1 = n + 8"
      using chunk_group_result [where H = H and C = C and x = x and s' = s1, OF n(3,4) cu p] Inr less.prems(2) by auto
    have "\<not> n mod 64 > 56"
    proof
      assume "n mod 64 > 56"
      then have "\<exists>e. rbind (chunk_group (inst_gen s) pairs (inst_cursor s)) (\<lambda>g. run_group H C x g s) = Inl e"
        by (intro crossing_chunk_fails n(4) p) (use less.prems(2) n(1) in simp_all)
      then show False using Inr less.prems(2) by auto
    qed
    then have q: "n mod 64 \<le> 56" "n div 64 \<le> 6" "n = 64 * (n div 64) + n mod 64" using n(1) by auto
    have "n \<noteq> 440" using n(2) by auto
    moreover have "n + 8 \<le> 448" using q by linarith
    ultimately have "n + 8 < 448" by linarith
    moreover have "(n + 8) mod 8 \<noteq> 0" using n(2) by simp
    ultimately have st: "install_stuck s1" using r n(4) by (simp add: install_stuck_def)
    have "512 - (n + 8) < 512 - n" using n(1) by linarith
    from less.hyps [OF this st r(3)] show ?thesis using Inr n r(2) by (simp add: range_next)
  qed
qed

lemma g1_pairs_length:
  assumes "py_seq (map (g1_compressed_to_avm dg1) pks) = Inr pairs"
  shows "map fst pairs = pks" and "\<And>p. p \<in> set pairs \<Longrightarrow> length (fst p) = 48"
proof -
  have m: "map Inr pairs = map (g1_compressed_to_avm dg1) pks" using assms by (simp add: py_seq_ok)
  have f: "g1_compressed_to_avm dg1 pk = Inr p \<Longrightarrow> fst p = pk \<and> length pk = 48" for pk p
    by (auto simp: g1_compressed_to_avm_def res_simps)
  have l: "length pairs = length pks" using m by (metis length_map)
  have n: "g1_compressed_to_avm dg1 (pks ! i) = Inr (pairs ! i)" if "i < length pks" for i
    using m that l by (metis nth_map)
  show "map fst pairs = pks"
  proof (rule nth_equalityI)
    fix i assume "i < length (map fst pairs)"
    then have i: "i < length pks" "i < length pairs" using l by simp_all
    then show "map fst pairs ! i = pks ! i" using f [OF n [OF i(1)]] by simp
  qed (simp add: l)
  show "length (fst p) = 48" if "p \<in> set pairs" for p using that n f l by (metis in_set_conv_nth)
qed

text \<open>Whatever is fetched for a committee of 512, every attempt raises and leaves a stuck state.\<close>

lemma stuck_drive:
  assumes "install_stuck s" and "\<And>r resp. fetch r = Inr resp \<Longrightarrow> length (jc_pubkeys (jb_committee resp)) = 512"
  shows "\<exists>s' e. drive_m4_install H C x dg1 fetch root s = (s', Inl e) \<and> install_stuck s'"
proof (cases "fetch_boot_args H dg1 fetch root")
  case (Inl e)
  then show ?thesis using assms(1) by (simp add: drive_m4_install_def install_stuck_def)
next
  case (Inr boot)
  then obtain r resp where f: "fetch r = Inr resp" "transform_bootstrap H dg1 resp = Inr boot"
    by (auto simp: fetch_boot_args_def res_simps split: option.splits)
  then have ps: "py_seq (map (g1_compressed_to_avm dg1) (jc_pubkeys (jb_committee resp))) = Inr (ba_pairs boot)"
    by (auto simp: transform_bootstrap_def res_simps Let_def)
  note gp = g1_pairs_length [OF ps]
  have l: "length (ba_pairs boot) = 512" using gp(1) assms(2) [OF f(1)] by (metis length_map)
  obtain s' e where sub: "submit_chunks H C x (inst_gen s) (ba_pairs boot) (py_range (inst_cursor s) 512 8) s = (s', Inl e)"
    and st: "install_stuck s'" using stuck_chunks [OF l gp(2) assms(1) refl] by blast
  have "drive_m4_install H C x dg1 fetch root s = resume_install H C x boot s"
    using assms(1) Inr by (simp add: drive_m4_install_def install_stuck_def)
  then show ?thesis using sub st assms(1)
    by (cases "ba_committee_root boot = inst_root s") (simp_all add: resume_install_def l INSTALL_CHUNK_SIZE_def Let_def)
qed

section \<open>A fresh installation\<close>

lemma open_loop_keeps:
  assumes "\<And>i. j \<le> i \<Longrightarrow> i < j + k \<Longrightarrow> key_box_name gen i \<in> S"
  shows "keeps S bs (unit_boxes (open_key_loop gen j k bs)) (unit_boxes (open_key_loop gen j k (bs |` S)))"
  using assms
proof (induction k arbitrary: j bs)
  case 0
  then show ?case by (simp add: unit_boxes_def keeps_Inr)
next
  case (Suc k)
  have n: "key_box_name gen j \<in> S" using Suc.prems by simp
  have IH: "keeps S bs1 (unit_boxes (open_key_loop gen (j + 1) k bs1)) (unit_boxes (open_key_loop gen (j + 1) k (bs1 |` S)))" for bs1
    by (rule Suc.IH) (use Suc.prems in simp)
  have e: "unit_boxes (open_key_loop gen j (Suc k) b) =
      rbind (box_create b (key_box_name gen j) (KEYS_PER_BOX * G1_BYTES)) (\<lambda>(b', _). unit_boxes (open_key_loop gen (j + 1) k b'))" for b
    by (simp add: unit_boxes_def rbind_assoc split_def)
  show ?case unfolding e by (rule keeps_bind [OF keeps_create [OF n]]) (simp add: IH [simplified])
qed

lemma refs_open_keys:
  assumes "\<And>i. i < 8 \<Longrightarrow> key_box_name (inst_gen s) i \<in> S"
  shows "call_with_refs H C S x SOpenKeys s = install_open_keys s"
proof (rule refs_silent)
  let ?m = "\<lambda>bs. unit_boxes (open_key_loop (inst_gen s) 0 8 bs)"
  have k: "keeps S (sc_boxes s) (?m (sc_boxes s)) (?m (sc_boxes s |` S))" by (rule open_loop_keeps) (use assms in simp)
  show "sc_exec H C x SOpenKeys = (\<lambda>s. silent (install_open_keys s))" by (rule ext) simp
  show "install_open_keys (s\<lparr>sc_boxes := sc_boxes s |` S\<rparr>) =
      (case install_open_keys s of Inl e \<Rightarrow> Inl e | Inr s' \<Rightarrow> Inr (s'\<lparr>sc_boxes := sc_boxes s' |` S\<rparr>))"
    using k by (cases "open_key_loop (inst_gen s) 0 8 (sc_boxes s)"; cases "open_key_loop (inst_gen s) 0 8 (sc_boxes s |` S)")
      (auto simp: install_open_keys_def install_open_key_boxes_def box_layout keeps_def require_def unit_boxes_def)
  show "\<forall>n. n \<notin> S \<longrightarrow> sc_boxes s' n = sc_boxes s n" if "install_open_keys s = Inr s'" for s'
    using k that by (cases "open_key_loop (inst_gen s) 0 8 (sc_boxes s)")
      (auto simp: install_open_keys_def install_open_key_boxes_def box_layout keeps_def res_simps unit_boxes_def)
qed simp

lemma refs_open_session:
  assumes "session_box_name (inst_gen s) \<in> S"
  shows "call_with_refs H C S x SOpenSession s = install_open_session s"
proof (rule refs_silent)
  let ?m = "\<lambda>bs. box_create bs (session_box_name (inst_gen s)) SESSION_BOX_BYTES"
  have k: "keeps S (sc_boxes s) (?m (sc_boxes s)) (?m (sc_boxes s |` S))" by (rule keeps_create [OF assms])
  show "sc_exec H C x SOpenSession = (\<lambda>s. silent (install_open_session s))" by (rule ext) simp
  show "install_open_session (s\<lparr>sc_boxes := sc_boxes s |` S\<rparr>) =
      (case install_open_session s of Inl e \<Rightarrow> Inl e | Inr s' \<Rightarrow> Inr (s'\<lparr>sc_boxes := sc_boxes s' |` S\<rparr>))"
    using k by (cases "?m (sc_boxes s)")
      (auto simp: install_open_session_def install_open_session_box_def keeps_def require_def)
  show "\<forall>n. n \<notin> S \<longrightarrow> sc_boxes s' n = sc_boxes s n" if "install_open_session s = Inr s'" for s'
    using k that by (cases "?m (sc_boxes s)")
      (auto simp: install_open_session_def install_open_session_box_def keeps_def res_simps)
qed simp

lemma rbind_right: "rbind m Inr = m"
  by (cases m) simp_all

lemma run_nil: "run_txns H C T x [] = Inr"
  by (rule ext) simp

lemma run_call:
  "run_txns H C S x (M4Call c refs # ts) = (\<lambda>s. rbind (call_with_refs H C S x c s) (run_txns H C S x ts))"
  by (rule ext) simp

lemma rbind_require: "rbind (require b e m) f = require b e (rbind m f)"
  by (cases b) simp_all

lemma bootstrap_other_boxes:
  "sc_bootstrap H x h r b t (s\<lparr>sc_boxes := bs\<rparr>) = rbind (sc_bootstrap H x h r b t s) (\<lambda>s'. Inr (s'\<lparr>sc_boxes := bs\<rparr>))"
  by (simp add: sc_bootstrap_def reserve_generation_def Let_def rbind_require rbind_assoc split_def)
    (intro require_cong rbind_cong refl; simp)

lemma bootstrap_same_boxes: "sc_bootstrap H x h r b t s = Inr s' \<Longrightarrow> sc_boxes s' = sc_boxes s"
  by (auto simp: sc_bootstrap_def reserve_generation_def Let_def res_simps split_def)

lemma refs_bootstrap:
  assumes "sc_call_ok (SBootstrap h r b t)"
  shows "call_with_refs H C S x (SBootstrap h r b t) s = sc_bootstrap H x h r b t s"
proof (rule refs_silent [OF assms])
  show "sc_exec H C x (SBootstrap h r b t) = (\<lambda>s. silent (sc_bootstrap H x h r b t s))" by (rule ext) simp
  show "sc_bootstrap H x h r b t (s\<lparr>sc_boxes := sc_boxes s |` S\<rparr>) =
      (case sc_bootstrap H x h r b t s of Inl e \<Rightarrow> Inl e | Inr s' \<Rightarrow> Inr (s'\<lparr>sc_boxes := sc_boxes s' |` S\<rparr>))"
    using bootstrap_same_boxes [of H x h r b t s] by (cases "sc_bootstrap H x h r b t s") (simp_all add: bootstrap_other_boxes)
qed (auto dest: bootstrap_same_boxes)

lemma open_group_eq:
  assumes g: "gen < uint64_limit"
  shows "open_group boot root gen = Inr
    [M4Call (SBootstrap (ba_header boot) (ba_committee_root boot) (ba_branch boot) root) (map (key_box_name gen) [0..<8]),
     M4Call SOpenKeys (map (key_box_name gen) [0..<8]),
     M4Call SOpenSession (session_box_name gen # map (key_box_name gen) [0..<7]), M4Call SNoopBudget [session_box_name gen]]"
proof -
  have "py_seq (map (key_box_name_r gen) [0..<8]) = Inr (map (key_box_name gen) [0..<8])"
    by (rule py_seq_map) (simp add: key_name_r [OF g])
  moreover have "take 8 (map f [0..<8]) = map f [0..<8]" "take 7 (map f [0..<8]) = map f [0..<7]" for f :: "nat \<Rightarrow> bytes"
    by (simp_all add: take_map)
  ultimately show ?thesis by (simp only: open_group_def rbind_Inr session_name_r [OF g])
qed

text \<open>The whole of \<open>_drive_m4_install\<close> on a contract without a committee.\<close>

lemma fresh_complete:
  assumes c: "g1_curve C G" and H: "\<And>x. length (H x) = 32" and inv: "sc_inv H C G R s"
    and i: "inst_state s = 0" "cur_gen s = 0"
    and boot: "fetch root = Inr resp" "transform_bootstrap H dg1 resp = Inr boot"
    and hr: "rel_header_root H (ba_header boot) = Inr root"
    and bs: "sc_bootstrap H x (ba_header boot) (ba_committee_root boot) (ba_branch boot) root s = Inr s1"
    and cm: "committee_members H C G (ba_pairs boot) (ba_aggregate_compressed boot) (ba_committee_root boot)"
    and au: "ba_aggregate_uncompressed boot = gsum C (map snd (ba_pairs boot))"
  shows "\<exists>s'. drive_m4_install H C x dg1 fetch (Some root) s = (s', Inr (Installed (gen_counter s + 1) 64 0)) \<and>
    after_install C s1 (map snd (ba_pairs boot)) s'"
proof -
  let ?g = "gen_counter s + 1"
  have s1: "inst_state s1 = 1" "inst_gen s1 = ?g" "inst_root s1 = ba_committee_root boot" "inst_cursor s1 = 0" "?g < uint64_limit"
    using bs by (auto simp: sc_bootstrap_def reserve_generation_def Let_def res_simps uadd_def inst_states split_def split: if_splits)
  have "ba_committee_root boot = committee_root H (map fst (ba_pairs boot)) (ba_aggregate_compressed boot)"
    using cm by (simp add: committee_members_def)
  then have len: "length (ba_header boot) = 112" "length root = 32" "length (ba_committee_root boot) = 32"
    using hr H by (auto simp: rel_header_root_def res_simps Let_def committee_root_def)
  have ok: "sc_call_ok (SBootstrap (ba_header boot) (ba_committee_root boot) (ba_branch boot) root)" using len by simp
  have st1: "sc_step H C s (x, SBootstrap (ba_header boot) (ba_committee_root boot) (ba_branch boot) root) s1"
    using bs len by (simp add: sc_step_simps silent_def)
  note inv1 = inv_step [where H = H, OF c H inv st1]
  obtain b2 where st2: "sc_step H C s1 (x, SOpenKeys) (s1\<lparr>sc_boxes := b2, inst_state := 2\<rparr>)"
    using open_keys_accepted [OF inv1 s1(1)] by blast
  note inv2 = inv_step [where H = H, OF c H inv1 st2]
  have i2: "inst_state (s1\<lparr>sc_boxes := b2, inst_state := 2\<rparr>) = 2" by simp
  obtain b3 where st3: "sc_step H C (s1\<lparr>sc_boxes := b2, inst_state := 2\<rparr>) (x, SOpenSession) (s1\<lparr>sc_boxes := b3, inst_state := 3\<rparr>)"
    and si: "session_inv H C G b3 ?g []"
    using open_session_accepted [OF inv2 i2, of x] s1(2) by auto
  let ?s2 = "s1\<lparr>sc_boxes := b2, inst_state := 2\<rparr>" and ?s3 = "s1\<lparr>sc_boxes := b3, inst_state := 3\<rparr>"
  note inv3 = inv_step [where H = H, OF c H inv2 st3]
  obtain grp where og: "open_group boot root ?g = Inr grp" and
    grp: "grp = [M4Call (SBootstrap (ba_header boot) (ba_committee_root boot) (ba_branch boot) root) (map (key_box_name ?g) [0..<8]),
     M4Call SOpenKeys (map (key_box_name ?g) [0..<8]),
     M4Call SOpenSession (session_box_name ?g # map (key_box_name ?g) [0..<7]), M4Call SNoopBudget [session_box_name ?g]]"
    using open_group_eq [OF s1(5)] by blast
  have S: "\<And>j. j < 8 \<Longrightarrow> key_box_name ?g j \<in> group_refs grp" "session_box_name ?g \<in> group_refs grp"
    unfolding group_refs_def grp by (simp_all add: image_iff) (metis atLeast0LessThan imageI lessThan_iff)+
  have "call_with_refs H C (group_refs grp) x SOpenKeys s1 = Inr ?s2"
    using refs_open_keys [of s1 "group_refs grp" H C x] S(1) s1(2) st2 by (auto simp: sc_step_simps silent_def res_simps)
  moreover have "call_with_refs H C (group_refs grp) x SOpenSession ?s2 = Inr ?s3"
    using refs_open_session [of ?s2 "group_refs grp" H C x] S(2) s1(2) st3 by (auto simp: sc_step_simps silent_def res_simps)
  moreover have "run_txns H C T x grp s = rbind (call_with_refs H C T x (SBootstrap (ba_header boot) (ba_committee_root boot) (ba_branch boot) root) s)
      (\<lambda>s1. rbind (call_with_refs H C T x SOpenKeys s1) (\<lambda>s2. call_with_refs H C T x SOpenSession s2))" for T
    unfolding grp run_call run_nil rbind_right refs_noop by (simp add: rbind_right)
  ultimately have run: "run_group H C x grp s = Inr ?s3"
    by (simp add: run_group_def refs_bootstrap [OF ok] bs)
  have r: "ba_committee_root boot = inst_root ?s3" "committee_members H C G (ba_pairs boot) (ba_aggregate_compressed boot) (inst_root ?s3)"
    "session_inv H C G (sc_boxes ?s3) (inst_gen ?s3) (take (inst_cursor ?s3) (ba_pairs boot))" "inst_state ?s3 = 3"
    "inst_cursor ?s3 mod 8 = 0" "inst_cursor ?s3 \<le> 512"
    using s1 cm si by simp_all
  obtain s' where res: "resume_install H C x boot ?s3 = (s', Inr (Installed (inst_gen ?s3) ((512 - inst_cursor ?s3) div 8) (inst_cursor ?s3)))"
    and af: "after_install C ?s3 (map snd (ba_pairs boot)) s'"
    using resume_complete [where H = H, OF c H inv3 r(4,1,2) au r(3,5,6)] by blast
  have fb: "fetch_boot_args H dg1 fetch (Some root) = Inr boot" by (simp add: fetch_boot_args_def boot)
  have "drive_m4_install H C x dg1 fetch (Some root) s = (s', Inr (Installed ?g 64 0))"
    using i res s1 by (simp add: drive_m4_install_def fb hr og [simplified] run)
  moreover have "after_install C s1 (map snd (ba_pairs boot)) s'" using af by (simp add: after_install_def)
  ultimately show ?thesis by blast
qed

section \<open>What the transform yields\<close>

text \<open>What the relayer relies on of the decompression of a 48-byte key: if it yields an affine point, the point is
  not the encoding of infinity and its compressed form is the key. Whether the point lies in the
  prime-order subgroup is not checked by the decompression; it is a condition on the keys.\<close>

definition decompresses :: "(nat \<Rightarrow> (fp \<times> fp) option py) \<Rightarrow> bool" where
  "decompresses dg1 \<longleftrightarrow> (\<forall>z x y. z < 256 ^ 48 \<and> dg1 z = Inr (Some (x, y)) \<longrightarrow>
     (let u = be_bytes 48 x @ be_bytes 48 y in u \<noteq> g1_infinity \<and> compressed u = be_bytes 48 z))"

definition key_in :: "(nat \<Rightarrow> (fp \<times> fp) option py) \<Rightarrow> bytes set \<Rightarrow> bytes \<Rightarrow> bool" where
  "key_in dg1 G pk \<longleftrightarrow> (\<exists>x y. dg1 (be_val pk) = Inr (Some (x, y)) \<and> be_bytes 48 x @ be_bytes 48 y \<in> G)"

lemma g1_member:
  assumes "decompresses dg1" and "g1_compressed_to_avm dg1 pk = Inr (ck, u)" and "key_in dg1 G pk"
  shows "ck = pk \<and> member_ok G (ck, u)"
proof -
  from assms(3) obtain a b where ab: "dg1 (be_val pk) = Inr (Some (a, b))" "be_bytes 48 a @ be_bytes 48 b \<in> G"
    unfolding key_in_def by blast
  have pt: "g1_uncompressed_avm (Some (a, b)) = Inr u" and p: "length pk = 48" "ck = pk"
    using assms(2) ab(1) by (auto simp: g1_compressed_to_avm_def res_simps)
  then have u: "u = be_bytes 48 a @ be_bytes 48 b" by (auto simp: g1_uncompressed_avm_def res_simps)
  have "be_bytes 48 (be_val pk) = pk" by (rule be_bytes_be_val) (rule p(1))
  moreover have "be_val pk < 256 ^ 48" using be_val_less [of pk] p(1) by simp
  ultimately show ?thesis using assms(1) ab u p by (auto simp: decompresses_def member_ok_def Let_def)
qed

lemma transform_members:
  assumes tr: "transform_bootstrap H dg1 resp = Inr boot" and dg: "decompresses dg1"
    and l: "length (jc_pubkeys (jb_committee resp)) = 512"
    and fin: "\<And>pk. pk \<in> set (jc_aggregate_pubkey (jb_committee resp) # jc_pubkeys (jb_committee resp)) \<Longrightarrow> key_in dg1 G pk"
    and sum: "ba_aggregate_uncompressed boot = gsum C (map snd (ba_pairs boot))"
  shows "committee_members H C G (ba_pairs boot) (ba_aggregate_compressed boot) (ba_committee_root boot)"
proof -
  let ?pks = "jc_pubkeys (jb_committee resp)" and ?agg = "jc_aggregate_pubkey (jb_committee resp)"
  have ps: "py_seq (map (g1_compressed_to_avm dg1) ?pks) = Inr (ba_pairs boot)"
    and ag: "g1_compressed_to_avm dg1 ?agg = Inr (ba_aggregate_compressed boot, ba_aggregate_uncompressed boot)"
    and rt: "rel_committee_root H ?pks ?agg = Inr (ba_committee_root boot)"
    using tr by (auto simp: transform_bootstrap_def res_simps Let_def)
  note gp = g1_pairs_length(1) [OF ps]
  have "ba_aggregate_compressed boot = ?agg \<and> member_ok G (ba_aggregate_compressed boot, ba_aggregate_uncompressed boot)"
    by (rule g1_member [OF dg ag]) (use fin in simp)
  then have a: "ba_aggregate_compressed boot = ?agg" "member_ok G (ba_aggregate_compressed boot, ba_aggregate_uncompressed boot)"
    by blast+
  have m: "member_ok G p" if p: "p \<in> set (ba_pairs boot)" for p
  proof -
    have "Inr p \<in> set (map (g1_compressed_to_avm dg1) ?pks)"
      using ps p unfolding py_seq_ok by (metis image_eqI list.set_map)
    then obtain pk where pk: "pk \<in> set ?pks" "g1_compressed_to_avm dg1 pk = Inr (fst p, snd p)" by auto
    then show ?thesis using g1_member [OF dg pk(2)] fin by simp
  qed
  have "length (map (key_leaf H) ?pks) = 2 ^ 9" using l by simp
  from merkle_loop_full [OF this] have "ba_committee_root boot = committee_root H ?pks ?agg"
    using rt by (simp add: rel_committee_root_def py_head_def committee_root_def Let_def key_leaf_def [abs_def] del: chunk_root.simps)
  then show ?thesis using gp l a m sum by (simp add: committee_members_def) (metis length_map)
qed

section \<open>Retiring\<close>

definition committee_names :: "nat \<Rightarrow> bytes set" where
  "committee_names g = insert (total_box_name g) (key_box_name g ` {..<8})"

lemma delete_committee_spec:
  "install_delete_committee_boxes g bs n = (if n \<in> committee_names g then None else bs n)"
  by (auto simp: committee_names_def install_delete_committee_boxes_def box_delete_def delete_key_loop_spec box_layout)

lemma retire_boxes_restrict:
  assumes "\<And>j. j < 8 \<Longrightarrow> key_box_name g j \<in> S" and "total_box_name g \<in> S"
  shows "install_delete_committee_boxes g (bs |` S) = install_delete_committee_boxes g bs |` S"
    and "n \<notin> S \<Longrightarrow> install_delete_committee_boxes g bs n = bs n"
proof -
  note d = delete_committee_spec
  show "install_delete_committee_boxes g (bs |` S) = install_delete_committee_boxes g bs |` S"
    by (rule ext) (simp add: d restrict_map_def)
  show "install_delete_committee_boxes g bs n = bs n" if "n \<notin> S" using that assms by (auto simp: d committee_names_def)
qed

lemma refs_retire:
  assumes ok: "g < uint64_limit" and S: "\<And>j. j < 8 \<Longrightarrow> key_box_name g j \<in> S" "total_box_name g \<in> S"
  shows "call_with_refs H C S x (SRetire g) s = sc_retire g s"
proof (rule refs_silent)
  note r = retire_boxes_restrict [OF S]
  show "sc_call_ok (SRetire g)" using ok by simp
  show "sc_exec H C x (SRetire g) = (\<lambda>s. silent (sc_retire g s))" by (rule ext) simp
  show "sc_retire g (s\<lparr>sc_boxes := sc_boxes s |` S\<rparr>) =
      (case sc_retire g s of Inl e \<Rightarrow> Inl e | Inr s' \<Rightarrow> Inr (s'\<lparr>sc_boxes := sc_boxes s' |` S\<rparr>))"
    by (simp add: sc_retire_def require_def r(1))
  show "\<forall>n. n \<notin> S \<longrightarrow> sc_boxes s' n = sc_boxes s n" if "sc_retire g s = Inr s'" for s'
    using that r(2) by (auto simp: sc_retire_def res_simps)
qed

lemma retire_group_eq:
  assumes g: "gen < uint64_limit"
  obtains base where "retire_group gen = Inr (M4Call (SRetire gen) (take 8 (pad_refs base 25 base)) #
      map (M4Call SNoopBudget) (chunks_of 8 (drop 8 (pad_refs base 25 base))))"
    and "set base = key_box_name gen ` {..<8} \<union> {total_box_name gen}" and "base \<noteq> []"
proof -
  have sl: "sorted_list_of_set {..<8} = [0..<8 :: nat]" by (simp add: lessThan_atLeast0)
  have e: "m4_retire_box_sizes gen = m4_submit_update_box_sizes gen {..<8} True"
    by (simp add: m4_retire_box_sizes_def m4_submit_update_box_sizes_def sl BOXES_PER_COMMITTEE_R_def)
  let ?p = "plan_box_refs (map (\<lambda>n. (n, 6144)) (key_names gen {..<8}) @ (if True then [(total_box_name gen, 96)] else []))"
  note P = plan_props [OF g subset_refl, where t = True]
  have "refs_required ?p = 25" using P(4) by simp
  then have "retire_group gen = Inr (M4Call (SRetire gen) (take 8 (pad_refs (distinct_boxes ?p) 25 (distinct_boxes ?p))) #
      map (M4Call SNoopBudget) (chunks_of 8 (drop 8 (pad_refs (distinct_boxes ?p) 25 (distinct_boxes ?p)))))"
    by (simp add: retire_group_def e update_sizes_eq [OF g] Let_def)
  moreover have "set (distinct_boxes ?p) = key_box_name gen ` {..<8} \<union> {total_box_name gen}" using P(1) by simp
  moreover have "distinct_boxes ?p \<noteq> []" using P(3) by force
  ultimately show thesis using that by blast
qed

lemma retire_group_runs:
  assumes g: "gen < uint64_limit" and p: "gen \<notin> {0, cur_gen s, next_gen s, inst_gen s}"
  shows "rbind (retire_group gen) (\<lambda>g. run_group H C x g s) =
    Inr (s\<lparr>sc_boxes := install_delete_committee_boxes gen (sc_boxes s)\<rparr>)"
proof -
  obtain base where rg: "retire_group gen = Inr (M4Call (SRetire gen) (take 8 (pad_refs base 25 base)) #
      map (M4Call SNoopBudget) (chunks_of 8 (drop 8 (pad_refs base 25 base))))"
    and b: "set base = key_box_name gen ` {..<8} \<union> {total_box_name gen}" "base \<noteq> []"
    using retire_group_eq [OF g] .
  let ?r = "pad_refs base 25 base"
  let ?g = "M4Call (SRetire gen) (take 8 ?r) # map (M4Call SNoopBudget) (chunks_of 8 (drop 8 ?r))"
  have "group_refs ?g = set (take 8 ?r @ concat (chunks_of 8 (drop 8 ?r)))"
    unfolding group_refs_def by (simp only: list.map concat.simps noop_refs txn_refs.simps)
  also have "\<dots> = set ?r" by (simp only: chunks_of_concat append_take_drop_id)
  also have "\<dots> = set base" using pad_refs_props [OF b(2) subset_refl, of 25] by blast
  finally have S: "group_refs ?g = set base" .
  have "call_with_refs H C (set base) x (SRetire gen) s = sc_retire gen s"
    by (rule refs_retire [OF g]) (use b(1) in auto)
  also have "\<dots> = Inr (s\<lparr>sc_boxes := install_delete_committee_boxes gen (sc_boxes s)\<rparr>)"
    using p by (simp add: sc_retire_def)
  finally have "run_txns H C (set base) x ?g s = Inr (s\<lparr>sc_boxes := install_delete_committee_boxes gen (sc_boxes s)\<rparr>)"
    using run_noops [of H C "set base" x _ "[]"] by simp
  then show ?thesis by (simp add: rg run_group_def S)
qed

text \<open>The scan retires exactly the unprotected generations that still have a total box, and no group fails.\<close>

lemma retire_scan_spec:
  assumes p: "protected = {0, cur_gen s, next_gen s, inst_gen s}"
    and "\<And>g. g \<in> set gens \<Longrightarrow> g < uint64_limit" and "distinct gens"
  shows "\<exists>bs. retire_scan H C x protected gens s =
      (s\<lparr>sc_boxes := bs\<rparr>, filter (\<lambda>g. g \<notin> protected \<and> sc_boxes s (total_box_name g) \<noteq> None) gens,
       filter (\<lambda>g. g \<notin> protected \<and> sc_boxes s (total_box_name g) = None) gens, []) \<and>
    (\<forall>n. bs n = (if \<exists>g\<in>set gens. g \<notin> protected \<and> sc_boxes s (total_box_name g) \<noteq> None \<and>
        n \<in> committee_names g then None else sc_boxes s n))"
  using assms
proof (induction gens arbitrary: s)
  case Nil
  then show ?case by (intro exI [of _ "sc_boxes s"]) simp
next
  case (Cons g gens)
  have g: "g < uint64_limit" and d: "g \<notin> set gens" "distinct gens" using Cons.prems by auto
  have lim: "\<And>h. h \<in> set gens \<Longrightarrow> h < uint64_limit" using Cons.prems(2) by simp
  show ?case
  proof (cases "g \<notin> protected \<and> sc_boxes s (total_box_name g) \<noteq> None")
    case False
    from Cons.IH [OF Cons.prems(1) lim d(2)] obtain bs where IH:
      "retire_scan H C x protected gens s =
        (s\<lparr>sc_boxes := bs\<rparr>, filter (\<lambda>g. g \<notin> protected \<and> sc_boxes s (total_box_name g) \<noteq> None) gens,
         filter (\<lambda>g. g \<notin> protected \<and> sc_boxes s (total_box_name g) = None) gens, [])"
      "\<forall>n. bs n = (if \<exists>g\<in>set gens. g \<notin> protected \<and> sc_boxes s (total_box_name g) \<noteq> None \<and>
        n \<in> committee_names g then None else sc_boxes s n)" by blast
    have "\<forall>n. bs n = (if \<exists>h\<in>set (g # gens). h \<notin> protected \<and> sc_boxes s (total_box_name h) \<noteq> None \<and>
        n \<in> committee_names h then None else sc_boxes s n)"
      using IH(2) False by auto
    moreover have "retire_scan H C x protected (g # gens) s =
        (s\<lparr>sc_boxes := bs\<rparr>, filter (\<lambda>g. g \<notin> protected \<and> sc_boxes s (total_box_name g) \<noteq> None) (g # gens),
         filter (\<lambda>g. g \<notin> protected \<and> sc_boxes s (total_box_name g) = None) (g # gens), [])"
      using False by (cases "g \<in> protected") (simp_all add: total_name_r [OF g] IH(1))
    ultimately show ?thesis by blast
  next
    case True
    let ?b = "install_delete_committee_boxes g (sc_boxes s)"
    let ?s = "s\<lparr>sc_boxes := ?b\<rparr>"
    have run: "rbind (retire_group g) (\<lambda>gr. run_group H C x gr s) = Inr ?s"
      by (rule retire_group_runs [OF g]) (use True p Cons.prems(1) in simp)
    have ps: "protected = {0, cur_gen ?s, next_gen ?s, inst_gen ?s}" using Cons.prems(1) by simp
    have same: "sc_boxes ?s (total_box_name h) = sc_boxes s (total_box_name h)" if "h \<in> set gens" for h
      using that d(1) total_box_name_eq [OF lim [OF that] g] by (auto simp: delete_committee_spec committee_names_def)
    from Cons.IH [OF ps lim d(2)] obtain bs where IH:
      "retire_scan H C x protected gens ?s =
        (?s\<lparr>sc_boxes := bs\<rparr>, filter (\<lambda>g. g \<notin> protected \<and> sc_boxes ?s (total_box_name g) \<noteq> None) gens,
         filter (\<lambda>g. g \<notin> protected \<and> sc_boxes ?s (total_box_name g) = None) gens, [])"
      "\<forall>n. bs n = (if \<exists>h\<in>set gens. h \<notin> protected \<and> sc_boxes ?s (total_box_name h) \<noteq> None \<and>
        n \<in> committee_names h then None else sc_boxes ?s n)" by blast
    have f: "filter (\<lambda>g. g \<notin> protected \<and> sc_boxes ?s (total_box_name g) \<noteq> None) gens =
        filter (\<lambda>g. g \<notin> protected \<and> sc_boxes s (total_box_name g) \<noteq> None) gens"
      "filter (\<lambda>g. g \<notin> protected \<and> sc_boxes ?s (total_box_name g) = None) gens =
        filter (\<lambda>g. g \<notin> protected \<and> sc_boxes s (total_box_name g) = None) gens"
      by (rule filter_cong; simp only: same)+
    have ex: "(\<exists>h\<in>set gens. h \<notin> protected \<and> sc_boxes ?s (total_box_name h) \<noteq> None \<and> Q h) \<longleftrightarrow>
        (\<exists>h\<in>set gens. h \<notin> protected \<and> sc_boxes s (total_box_name h) \<noteq> None \<and> Q h)" for Q
      by (rule bex_cong) (simp_all only: same)
    have "bs n = (if \<exists>h\<in>set (g # gens). h \<notin> protected \<and> sc_boxes s (total_box_name h) \<noteq> None \<and>
        n \<in> committee_names h then None else sc_boxes s n)" for n
      using IH(2) [rule_format, of n] True unfolding ex by (auto simp: delete_committee_spec)
    moreover have "retire_scan H C x protected (g # gens) s =
        (s\<lparr>sc_boxes := bs\<rparr>, filter (\<lambda>g. g \<notin> protected \<and> sc_boxes s (total_box_name g) \<noteq> None) (g # gens),
         filter (\<lambda>g. g \<notin> protected \<and> sc_boxes s (total_box_name g) = None) (g # gens), [])"
      using True run IH(1) unfolding f by (auto simp: total_name_r [OF g])
    ultimately show ?thesis by blast
  qed
qed

text \<open>A whole scan, and a second one after it.\<close>

lemma retire_twice:
  assumes gc: "gen_counter s < uint64_limit"
  shows "\<exists>bs retired skipped. retire_old_generations H C x s = (s\<lparr>sc_boxes := bs\<rparr>, retired, skipped, []) \<and>
    set retired = {g. 1 \<le> g \<and> g \<le> gen_counter s \<and> g \<notin> {cur_gen s, next_gen s, inst_gen s} \<and> sc_boxes s (total_box_name g) \<noteq> None} \<and>
    (\<forall>n. bs n = (if \<exists>g\<in>set retired. n = total_box_name g \<or> (\<exists>j<8. n = key_box_name g j) then None else sc_boxes s n)) \<and>
    (\<exists>skipped'. retire_old_generations H C x (s\<lparr>sc_boxes := bs\<rparr>) = (s\<lparr>sc_boxes := bs\<rparr>, [], skipped', []))"
proof -
  let ?gens = "[1..<gen_counter s + 1]" and ?P = "{0, cur_gen s, next_gen s, inst_gen s}"
  have d: "\<And>g. g \<in> set ?gens \<Longrightarrow> g < uint64_limit" "distinct ?gens" using gc by auto
  let ?ret = "filter (\<lambda>g. g \<notin> ?P \<and> sc_boxes s (total_box_name g) \<noteq> None) ?gens"
  from retire_scan_spec [OF refl d, of H C x] obtain bs where
    r: "retire_old_generations H C x s = (s\<lparr>sc_boxes := bs\<rparr>, ?ret, filter (\<lambda>g. g \<notin> ?P \<and> sc_boxes s (total_box_name g) = None) ?gens, [])"
    and b: "\<forall>n. bs n = (if \<exists>g\<in>set ?gens. g \<notin> ?P \<and> sc_boxes s (total_box_name g) \<noteq> None \<and> n \<in> committee_names g then None else sc_boxes s n)"
    unfolding retire_old_generations_def by blast
  let ?s = "s\<lparr>sc_boxes := bs\<rparr>"
  have P: "?P = {0, cur_gen ?s, next_gen ?s, inst_gen ?s}" by simp
  have none: "bs (total_box_name g) = None" if "g \<in> set ?gens" "g \<notin> ?P" for g
  proof (cases "sc_boxes s (total_box_name g) = None")
    case True
    then show ?thesis by (simp add: b [rule_format, of "total_box_name g"])
  next
    case False
    then have "\<exists>h\<in>set ?gens. h \<notin> ?P \<and> sc_boxes s (total_box_name h) \<noteq> None \<and> total_box_name g \<in> committee_names h"
      using that by (intro bexI [of _ g]) (simp_all add: committee_names_def)
    then show ?thesis by (simp only: b [rule_format, of "total_box_name g"] if_True)
  qed
  from retire_scan_spec [OF P d, of H C x] obtain bs' where
    r2: "retire_scan H C x ?P ?gens ?s = (?s\<lparr>sc_boxes := bs'\<rparr>, filter (\<lambda>g. g \<notin> ?P \<and> sc_boxes ?s (total_box_name g) \<noteq> None) ?gens,
      filter (\<lambda>g. g \<notin> ?P \<and> sc_boxes ?s (total_box_name g) = None) ?gens, [])"
    and b2: "\<forall>n. bs' n = (if \<exists>g\<in>set ?gens. g \<notin> ?P \<and> sc_boxes ?s (total_box_name g) \<noteq> None \<and> n \<in> committee_names g then None else sc_boxes ?s n)"
    by blast
  have e: "sc_boxes ?s = bs" by simp
  have none': "\<not> (g \<notin> ?P \<and> bs (total_box_name g) \<noteq> None)" if "g \<in> set ?gens" for g
  proof
    assume a: "g \<notin> ?P \<and> bs (total_box_name g) \<noteq> None"
    from none [OF that conjunct1 [OF a]] conjunct2 [OF a] show False by (rule notE [rotated])
  qed
  have same: "bs' n = bs n" for n
  proof -
    have no: "\<not> (\<exists>g\<in>set ?gens. g \<notin> ?P \<and> sc_boxes ?s (total_box_name g) \<noteq> None \<and> n \<in> committee_names g)"
      unfolding e
    proof (intro notI, elim bexE)
      fix g assume "g \<in> set ?gens" and "g \<notin> ?P \<and> bs (total_box_name g) \<noteq> None \<and> n \<in> committee_names g"
      with none' show False by (metis (no_types, lifting))
    qed
    have "bs' n = sc_boxes ?s n" by (rule trans [OF b2 [rule_format, of n] if_not_P [OF no]])
    then show ?thesis unfolding e .
  qed
  have "bs' = bs" by (rule ext) (rule same)
  moreover have "filter (\<lambda>g. g \<notin> ?P \<and> sc_boxes ?s (total_box_name g) \<noteq> None) ?gens = []"
    unfolding filter_empty_conv e by (intro ballI none')
  ultimately have "\<exists>skipped'. retire_old_generations H C x ?s = (?s, [], skipped', [])"
    using r2 by (simp add: retire_old_generations_def)
  moreover have "set ?ret = {g. 1 \<le> g \<and> g \<le> gen_counter s \<and> g \<notin> {cur_gen s, next_gen s, inst_gen s} \<and> sc_boxes s (total_box_name g) \<noteq> None}"
    by auto
  moreover have "\<forall>n. bs n = (if \<exists>g\<in>set ?ret. n = total_box_name g \<or> (\<exists>j<8. n = key_box_name g j) then None else sc_boxes s n)"
  proof
    fix n
    have "(\<exists>g\<in>set ?gens. g \<notin> ?P \<and> sc_boxes s (total_box_name g) \<noteq> None \<and> n \<in> committee_names g) \<longleftrightarrow>
        (\<exists>g\<in>set ?ret. n = total_box_name g \<or> (\<exists>j<8. n = key_box_name g j))"
      by (auto simp: committee_names_def simp del: upt_Suc)
    then show "bs n = (if \<exists>g\<in>set ?ret. n = total_box_name g \<or> (\<exists>j<8. n = key_box_name g j) then None else sc_boxes s n)"
      using b by simp
  qed
  ultimately show ?thesis using r by blast
qed

end
