(* ===== verification/Props_Sync.thy ===== *)
theory Props_Sync
  imports Rel_Drive SC_Demo
begin

text \<open>
  Properties of the relayer's light-client duties: the groups it submits name the boxes their calls reach,
  a fresh installation completes, an installation with a cursor between two chunks is stuck for ever, and
  superseded generations are reclaimed. The witnesses use the history of \<open>SC_Demo\<close>.
\<close>

section \<open>A concrete bootstrap\<close>

text \<open>Decompression on the two keys of the concrete committee, and the bootstrap the beacon node would serve.\<close>

definition sy_dg1 :: "nat \<Rightarrow> (fp \<times> fp) option py" where
  "sy_dg1 z =
     (if z = be_val de_key then Inr (Some (be_val (take 48 toy_p), be_val (drop 48 toy_p)))
      else if z = be_val de_agg then Inr (Some (be_val (take 48 (neg_point toy_p)), be_val (drop 48 (neg_point toy_p))))
      else Inl ValueError)"

definition sy_resp :: json_bootstrap where
  "sy_resp = \<lparr>jb_header = \<lparr>jh_slot = 0, jh_proposer_index = 0, jh_parent_root = zero32, jh_state_root = de_root, jh_body_root = zero32\<rparr>,
     jb_committee = \<lparr>jc_pubkeys = replicate 512 de_key, jc_aggregate_pubkey = de_agg\<rparr>, jb_branch = [zero32]\<rparr>"

definition sy_boot :: boot_args where
  "sy_boot = \<lparr>ba_header = de_hdr 0 de_root, ba_committee_root = de_root, ba_branch = zero32, ba_pairs = de_members,
     ba_aggregate_compressed = de_agg, ba_aggregate_uncompressed = neg_point toy_p\<rparr>"

definition sy_root :: bytes where "sy_root = le64 0 @ replicate 24 0"

lemma sy_header_root: "rel_header_root head_hash (de_hdr 0 de_root) = Inr sy_root"
proof -
  have "seg 0 8 (de_hdr 0 de_root) = le64 0" by (simp add: de_hdr_def seg_def)
  then show ?thesis using head_hash_left [of "le64 0 @ replicate 24 0"]
    by (simp add: rel_header_root_def length_de_hdr Let_def head_hash_left sy_root_def)
qed

lemma sy_keys_differ: "be_val de_agg \<noteq> be_val de_key"
proof
  assume "be_val de_agg = be_val de_key"
  then have "compressed (neg_point toy_p) = compressed toy_p" using be_val_inj [of de_agg de_key, unfolded de_lengths] by (simp add: de_key_def de_agg_def)
  then have "px (neg_point toy_p) = px toy_p \<and> (py (neg_point toy_p) > half_p \<longleftrightarrow> py toy_p > half_p)"
    by (rule compressed_inj [OF conjunct1 [OF neg_finite [OF toy_finite]] toy_finite])
  moreover have "py toy_p = 1" unfolding toy_p_def by (rule py_append) simp_all
  ultimately show False using neg_finite [OF toy_finite] by (simp add: field_modulus_def half_p_def)
qed

lemma sy_halves:
  assumes "length P = 96"
  shows "be_bytes 48 (be_val (take 48 P)) @ be_bytes 48 (be_val (drop 48 P)) = P"
    "be_val (take 48 P) < 256 ^ 48" "be_val (drop 48 P) < 256 ^ 48"
  using assms be_bytes_be_val [of "take 48 P" 48] be_bytes_be_val [of "drop 48 P" 48] be_val_less [of "take 48 P"]
    be_val_less [of "drop 48 P"] by simp_all

lemma sy_dg1_keys:
  "g1_compressed_to_avm sy_dg1 de_key = Inr (de_key, toy_p)" "g1_compressed_to_avm sy_dg1 de_agg = Inr (de_agg, neg_point toy_p)"
proof -
  have u: "g1_uncompressed_avm (Some (be_val (take 48 P), be_val (drop 48 P))) = Inr P" if "length P = 96" for P
    using sy_halves [OF that] by (simp add: g1_uncompressed_avm_def to_bytes_be_def)
  show "g1_compressed_to_avm sy_dg1 de_key = Inr (de_key, toy_p)"
    using u [OF toy_length(1)] by (simp add: g1_compressed_to_avm_def sy_dg1_def toy_length)
  show "g1_compressed_to_avm sy_dg1 de_agg = Inr (de_agg, neg_point toy_p)"
    using u [OF toy_length(2)] sy_keys_differ by (simp add: g1_compressed_to_avm_def sy_dg1_def toy_length)
qed

lemma sy_decompresses: "decompresses sy_dg1"
proof -
  have "be_bytes 48 (be_val de_key) = compressed toy_p" "be_bytes 48 (be_val de_agg) = compressed (neg_point toy_p)"
    unfolding de_key_def [symmetric] de_agg_def [symmetric] by (rule be_bytes_be_val, simp)+
  then show ?thesis
    using sy_halves(1) [OF toy_length(1)] sy_halves(1) [OF toy_length(2)] toy_distinct
    by (auto simp: decompresses_def sy_dg1_def Let_def split: if_splits)
qed

lemma sy_keys_in: "key_in sy_dg1 toy_group de_key" "key_in sy_dg1 toy_group de_agg"
  using sy_halves(1) [OF toy_length(1)] sy_halves(1) [OF toy_length(2)] toy_members sy_keys_differ
  by (simp_all add: key_in_def sy_dg1_def)

lemma sy_transform: "transform_bootstrap head_hash sy_dg1 sy_resp = Inr sy_boot"
proof -
  have le: "to_bytes_le 8 0 = Inr (replicate 8 0)" by (simp add: to_bytes_le_def be_bytes_zero)
  have "le64 0 = replicate 8 0" by (simp add: le64_def itob_def be_bytes_zero)
  then have h: "decode_header (jb_header sy_resp) = Inr (de_hdr 0 de_root)"
    by (simp add: decode_header_def sy_resp_def le de_hdr_def Let_def)
  have "(512 :: nat) = 2 ^ 9" by simp
  then have r: "rel_committee_root head_hash (replicate 512 de_key) de_agg = Inr de_root"
    using merkle_loop_full [of "map (\<lambda>pk. head_hash (pk @ replicate 16 0)) (replicate 512 de_key)" 9 head_hash]
    by (simp add: rel_committee_root_def de_root_def committee_root_def py_head_def de_members_def map_replicate key_leaf_def Let_def)
  have "py_seq (replicate n (Inr a)) = Inr (replicate n a)" for n and a :: "bytes \<times> bytes" by (induction n) simp_all
  then have "py_seq (map (g1_compressed_to_avm sy_dg1) (replicate 512 de_key)) = Inr de_members"
    by (simp add: sy_dg1_keys de_members_def map_replicate)
  then show ?thesis
    by (simp add: transform_bootstrap_def h sy_boot_def Let_def) (simp add: sy_resp_def r sy_dg1_keys decode_branch_def)
qed

text \<open>The finality update that leads to the second update of the history.\<close>

definition sy_dg2 :: "nat \<times> nat \<Rightarrow> (fp2 \<times> fp2) option py" where
  "sy_dg2 _ = (let v = be_val (replicate 48 1) in Inr (Some ((v, v), (v, v))))"

definition sy_update :: json_finality_update where
  "sy_update = \<lparr>fu_attested_header = \<lparr>jh_slot = 8191, jh_proposer_index = 0, jh_parent_root = zero32,
       jh_state_root = le64 1 @ replicate 24 0, jh_body_root = zero32\<rparr>,
     fu_finalized_header = \<lparr>jh_slot = 1, jh_proposer_index = 0, jh_parent_root = zero32, jh_state_root = zero32, jh_body_root = zero32\<rparr>,
     fu_finality_branch = [zero32], fu_bits = de_bits, fu_signature = replicate 96 0, fu_signature_slot = 8192, fu_next = None\<rparr>"

lemma sy_update_decodes: "transform_finality_update sy_dg2 sy_update = Inr (de_u2\<lparr>u_mode := 0\<rparr>)"
proof -
  have v: "to_bytes_be 48 (be_val (replicate 48 1)) = Inr (replicate 48 1)"
    using be_val_less [of "replicate 48 1"] be_bytes_be_val [of "replicate 48 1" 48] by (simp add: to_bytes_be_def)
  have "replicate 48 1 @ replicate 48 1 @ replicate 48 1 @ replicate 48 1 = replicate 192 (1 :: byte)" by (simp flip: replicate_add)
  then have "g2_compressed_to_avm sy_dg2 (replicate 96 0) = Inr (replicate 192 1)"
    by (simp add: g2_compressed_to_avm_def sy_dg2_def g2_uncompressed_avm_def v Let_def)
  then show ?thesis
    by (simp add: transform_finality_update_def sy_update_def decode_header_def to_bytes_le_def le64_def itob_def be_bytes_zero
        decode_branch_def de_u2_def de_update_def de_hdr_def de_bits_def zero32_def Let_def)
qed

lemma sy_mode: "\<exists>plan. choose_mode de_bits 2 = Inr (1, plan)"
proof -
  have set: "ssz_bit de_bits i" if "i < 512" for i
  proof -
    have "i \<in> set (participants de_bits)" using that by (simp add: de_participants)
    then show ?thesis by (simp add: participants_def)
  qed
  have "box_indices de_bits False = {}" using set by (auto simp: box_indices_def)
  moreover have "0 \<in> box_indices de_bits True" using set [of 0] by (force simp: box_indices_def)
  then have "card (box_indices de_bits True) > 0" using finite_subset [OF box_indices_bound] by (simp add: card_gt_0_iff) blast
  moreover have "length de_bits = 64" by (simp add: de_bits_def)
  ultimately show ?thesis using choose_mode_eq [of de_bits 2] by auto
qed

section \<open>Planning\<close>

text \<open>C40: The box plan of an update is exact. For every bit vector of 512 bits and every generation a mode and a
  plan are chosen; whenever the aggregation of that mode succeeds with all boxes it succeeds with the boxes
  of a set exactly if the set contains the planned ones. The group built from the plan has at most four
  transactions with at most eight references each, seven on the donor's, and its references pay for all
  bytes of the planned boxes.\<close>
theorem update_plan_exact:
  assumes "length bits = 64" and "gen < uint64_limit"
  shows "\<exists>mode plan. choose_mode bits gen = Inr (mode, plan) \<and>
    (\<forall>C bs r S. aggregate_participants C bs bits gen mode = Inr r \<longrightarrow>
       ((\<exists>q. aggregate_participants C (bs |` S) bits gen mode = Inr q) \<longleftrightarrow> set (distinct_boxes plan) \<subseteq> S)) \<and>
    (\<forall>u. let g = submit_update_group u mode plan in
       group_refs g = set (distinct_boxes plan) \<and> length g \<le> 4 \<and> (\<forall>t\<in>set g. length (txn_refs t) \<le> 8) \<and>
       length (txn_refs (hd g)) \<le> 7 \<and>
       total_declared_bytes plan \<le> BOX_WRITE_BUDGET_BYTES_PER_REF * sum_list (map (length \<circ> txn_refs) g))"
proof -
  obtain mode plan where ch: "choose_mode bits gen = Inr (mode, plan)" and S: "set (distinct_boxes plan) = mode_boxes bits gen mode"
    using choose_mode_eq [OF assms] by blast
  have "(\<exists>q. aggregate_participants C (bs |` T) bits gen mode = Inr q) \<longleftrightarrow> set (distinct_boxes plan) \<subseteq> T"
    if "aggregate_participants C bs bits gen mode = Inr r" for C bs r T
  proof
    assume "\<exists>q. aggregate_participants C (bs |` T) bits gen mode = Inr q"
    then have "mode_boxes bits gen mode \<subseteq> dom (bs |` T)" using aggregate_needs [OF _ assms(1)] by blast
    then show "set (distinct_boxes plan) \<subseteq> T" using S by auto
  next
    assume "set (distinct_boxes plan) \<subseteq> T"
    then show "\<exists>q. aggregate_participants C (bs |` T) bits gen mode = Inr q"
      using aggregate_restrict [OF _ assms(1)] that S by metis
  qed
  moreover have "let g = submit_update_group u mode plan in
       group_refs g = set (distinct_boxes plan) \<and> length g \<le> 4 \<and> (\<forall>t\<in>set g. length (txn_refs t) \<le> 8) \<and>
       length (txn_refs (hd g)) \<le> 7 \<and>
       total_declared_bytes plan \<le> BOX_WRITE_BUDGET_BYTES_PER_REF * sum_list (map (length \<circ> txn_refs) g)" for u
    using update_group_shape(1-4) [OF ch assms, where u = u] update_group_shape(5) [OF ch assms] by (simp add: update_group_refs BOX_WRITE_BUDGET_BYTES_PER_REF_def Let_def)
  ultimately show ?thesis using ch by blast
qed

theorem update_plan_exact_witness:
  "\<exists>mode plan. choose_mode de_bits 2 = Inr (mode, plan) \<and> length (submit_update_group de_u2 mode plan) \<le> 4"
proof -
  have "length de_bits = 64" by (simp add: de_bits_def)
  from update_plan_exact [OF this de_u64(5)] show ?thesis by (auto simp: Let_def)
qed

text \<open>C36: The update the relayer submits. In every reachable state, for a fetched update that decodes, is not dated
  into the future and finalizes a later slot, with the committee of its period installed, the driver plans for
  the generation the contract selects, and its result is that of the contract's own \<open>submit_update\<close> in the planned mode:
  no group is lost to a missing box reference.\<close>
theorem relayer_update_submits:
  assumes c: "g1_curve C G" and H: "\<forall>x. length (H x) = 32" and run: "sc_run H C (sc_create gov gvr) evs s"
    and tr: "transform_finality_update dg2 d = Inr u" and sig: "u_sig_slot u < uint64_limit"
    and now: "u_sig_slot u \<le> slot_now GENESIS_TIME_MAINNET now + MARGIN_SLOTS"
    and new: "fin_slot s < be_val (rev (seg 0 8 (u_finalized u)))"
    and gen: "cur_gen s \<noteq> 0" "committee_choice s (u_sig_slot u) = (using_next, gen)" "gen \<noteq> 0"
  shows "\<exists>mode plan. choose_mode (u_bits u) gen = Inr (mode, plan) \<and>
    (\<forall>a f n g. select_committee s a f (u_sig_slot u) = Inr (n, g) \<longrightarrow> n = using_next \<and> g = gen) \<and>
    drive_m4_update H C x dg2 now True (Inr d) s =
      (case submit_update H C (u\<lparr>u_mode := mode\<rparr>) s of
         Inl _ \<Rightarrow> (s, Inl AlgodError)
       | Inr (s', _) \<Rightarrow> (s', Inr (Submitted mode gen using_next)))"
proof -
  have H': "\<And>x. length (H x) = 32" using H by blast
  have g: "cur_gen s < uint64_limit" "next_gen s < uint64_limit"
    using sc_reach_inv [where H = H, OF c H' run] by (auto simp: sc_inv_def gens_ok_def)
  have "\<forall>a f n g. select_committee s a f (u_sig_slot u) = Inr (n, g) \<longrightarrow> n = using_next \<and> g = gen"
    using committee_choice_select gen(2) by fastforce
  then show ?thesis using drive_update_core [OF g refl tr sig now new gen, where H = H and C = C and x = x] by blast
qed

theorem relayer_update_submits_witness:
  "\<exists>s s'. sc_run head_hash toy_ec de_s0 de_evs5 s \<and> fin_slot s = 0 \<and> fin_slot s' = 1 \<and>
    drive_m4_update head_hash toy_ec de_gov sy_dg2 1606922327 True (Inr sy_update) s = (s', Inr (Submitted 1 2 True))"
proof -
  let ?u = "de_u2\<lparr>u_mode := 0\<rparr>"
  obtain s where run: "sc_run head_hash toy_ec de_s0 de_evs5 s" and b: "de_both s" using de_run5 by blast
  note inv = sc_reach_inv [where H = head_hash, OF toy_curve length_head_hash run [unfolded de_s0_def]]
  obtain s' out where up: "submit_update head_hash toy_ec de_u2 s = Inr (s', out)" "fin_slot s' = 1" using de_update2 [OF inv b] by blast
  have u: "u_sig_slot ?u = 8192" "u_bits ?u = de_bits" "u_finalized ?u = de_hdr 1 zero32" by (simp_all add: de_u2_def de_update_def)
  have f: "fin_slot s = 0" "cur_gen s \<noteq> 0" "next_gen s = 2" using b by (simp_all add: de_both_def)
  have n: "u_sig_slot ?u < uint64_limit" "u_sig_slot ?u \<le> slot_now GENESIS_TIME_MAINNET 1606922327 + MARGIN_SLOTS"
    by (simp_all add: u slot_now_def GENESIS_TIME_MAINNET_def SECONDS_PER_SLOT_def)
  have "seg 0 8 (de_hdr 1 zero32) = le64 1" by (simp add: de_hdr_def seg_def)
  then have new: "fin_slot s < be_val (rev (seg 0 8 (u_finalized ?u)))"
    by (simp add: u f le64_def itob_def be_val_be_bytes)
  have cc: "committee_choice s (u_sig_slot ?u) = (True, 2)" by (simp add: committee_choice_def u f)
  have m1: "mode = 1" if "choose_mode de_bits 2 = Inr (mode, plan)" for mode plan
    using sy_mode that by simp
  from relayer_update_submits [where x = de_gov, OF toy_curve allI [OF length_head_hash] run [unfolded de_s0_def] sy_update_decodes n new f(2) cc]
  obtain mode plan where "choose_mode de_bits 2 = Inr (mode, plan)"
    "drive_m4_update head_hash toy_ec de_gov sy_dg2 1606922327 True (Inr sy_update) s =
      (case submit_update head_hash toy_ec (?u\<lparr>u_mode := mode\<rparr>) s of
         Inl _ \<Rightarrow> (s, Inl AlgodError) | Inr (s', _) \<Rightarrow> (s', Inr (Submitted mode 2 True)))" by (auto simp: u)
  moreover have "?u\<lparr>u_mode := 1\<rparr> = de_u2" by (simp add: de_u2_def de_update_def)
  ultimately show ?thesis using m1 up run f(1) by auto
qed

section \<open>Installing\<close>

text \<open>C37: A fresh installation completes. Let the relayer fetch a bootstrap of 512 keys and their aggregate, all of
  them points of the prime-order group (beacon chain deposits admit no other key; the decompression itself
  does not check it), whose header is the trusted root and which the contract's \<open>bootstrap\<close> accepts. Then the driver opens the boxes, feeds 64 chunks and
  finalizes; every group is accepted with the references it names, and the committee is in its place.\<close>
theorem relayer_install_completes:
  assumes c: "g1_curve C G" and H: "\<forall>x. length (H x) = 32" and run: "sc_run H C (sc_create gov gvr) evs s"
    and i: "inst_state s = 0" "cur_gen s = 0"
    and boot: "fetch root = Inr resp" "transform_bootstrap H dg1 resp = Inr boot"
    and hr: "rel_header_root H (ba_header boot) = Inr root"
    and bs: "sc_bootstrap H x (ba_header boot) (ba_committee_root boot) (ba_branch boot) root s = Inr s1"
    and l: "length (jc_pubkeys (jb_committee resp)) = 512" and dg: "decompresses dg1"
    and keys: "\<forall>pk\<in>set (jc_aggregate_pubkey (jb_committee resp) # jc_pubkeys (jb_committee resp)).
      \<exists>px py. dg1 (be_val pk) = Inr (Some (px, py)) \<and> be_bytes 48 px @ be_bytes 48 py \<in> G"
    and sum: "ba_aggregate_uncompressed boot = gsum C (map snd (ba_pairs boot))"
  shows "\<exists>s'. drive_m4_install H C x dg1 fetch (Some root) s = (s', Inr (Installed (gen_counter s + 1) 64 0)) \<and>
    after_install C s1 (map snd (ba_pairs boot)) s' \<and> map fst (ba_pairs boot) = jc_pubkeys (jb_committee resp)"
proof -
  have H': "\<And>x. length (H x) = 32" using H by blast
  have cm: "committee_members H C G (ba_pairs boot) (ba_aggregate_compressed boot) (ba_committee_root boot)"
    by (rule transform_members [OF boot(2) dg l _ sum]) (use keys in \<open>simp only: key_in_def\<close>)
  have "map fst (ba_pairs boot) = jc_pubkeys (jb_committee resp)"
    using boot(2) by (intro g1_pairs_length(1)) (auto simp: transform_bootstrap_def res_simps Let_def)
  then show ?thesis
    using fresh_complete [where H = H and fetch = fetch, OF c H' sc_reach_inv [where H = H, OF c H' run] i boot hr bs cm sum] by blast
qed

theorem relayer_install_completes_witness:
  "\<exists>s'. drive_m4_install head_hash toy_ec de_gov sy_dg1 (\<lambda>_. Inr sy_resp) (Some sy_root) de_s1 = (s', Inr (Installed 1 64 0)) \<and>
    cur_gen s' = 1"
proof -
  let ?fetch = "\<lambda>_ :: bytes. Inr sy_resp :: json_bootstrap py"
  have i: "inst_state de_s1 = 0" "cur_gen de_s1 = 0" "gen_counter de_s1 = 0" by (simp_all add: de_s1_def de_s0_def sc_create_def inst_states)
  have run: "sc_run head_hash toy_ec (sc_create de_gov de_gvr) [(de_gov, SAppendForkRow de_row)] de_s1"
    using sc_run_one [OF de_step1] by (simp add: de_s0_def)
  have b: "ba_header sy_boot = de_hdr 0 de_root" "ba_committee_root sy_boot = de_root" "ba_branch sy_boot = zero32"
    "ba_pairs sy_boot = de_members" "ba_aggregate_uncompressed sy_boot = neg_point toy_p" by (simp_all add: sy_boot_def)
  have bs: "sc_bootstrap head_hash de_gov (de_hdr 0 de_root) de_root zero32 sy_root de_s1 = Inr de_s2"
    using de_step2 by (auto simp: sc_step_simps silent_def sy_root_def res_simps)
  have fin: "\<forall>pk\<in>set (jc_aggregate_pubkey (jb_committee sy_resp) # jc_pubkeys (jb_committee sy_resp)).
      \<exists>px py. sy_dg1 (be_val pk) = Inr (Some (px, py)) \<and> be_bytes 48 px @ be_bytes 48 py \<in> toy_group"
    using sy_keys_in by (simp add: sy_resp_def key_in_def)
  have "\<exists>s'. drive_m4_install head_hash toy_ec de_gov sy_dg1 ?fetch (Some sy_root) de_s1 = (s', Inr (Installed (gen_counter de_s1 + 1) 64 0)) \<and>
      after_install toy_ec de_s2 (map snd de_members) s' \<and> map fst de_members = jc_pubkeys (jb_committee sy_resp)"
    by (rule relayer_install_completes [where fetch = ?fetch and ?dg1.0 = sy_dg1, OF toy_curve allI [OF length_head_hash] run i(1,2) refl sy_transform,
        unfolded b, OF sy_header_root bs _ sy_decompresses fin de_sum [symmetric]]) (simp add: sy_resp_def)
  then show ?thesis using i(2,3) by (auto simp: after_install_def de_s2_def)
qed

text \<open>C38: One member stalls the relayer. \<open>install_chunk\<close> takes chunks of any length from anyone. If in an open session
  somebody submits the first member alone, the call is accepted, the cursor is 1, and from then on every attempt
  of the relayer to install raises and leaves such a state again, whatever it fetches: its chunk of eight that
  crosses into the next key box names only the first box.\<close>
theorem one_member_stalls_relayer:
  assumes c: "g1_curve C G" and H: "\<forall>x. length (H x) = 32" and run: "sc_run H C (sc_create gov gvr) evs s"
    and i: "inst_state s = INST_STATE_INSTALLING" "inst_cursor s = 0" and p: "member_ok G p"
    and resp: "\<forall>r resp. fetch r = Inr resp \<longrightarrow> length (jc_pubkeys (jb_committee resp)) = 512"
  shows "\<exists>s1. sc_step H C s (y, SInstallChunk 0 (fst p) (snd p)) s1 \<and> install_stuck s1 \<and>
    (\<forall>t x root. install_stuck t \<longrightarrow>
      (\<exists>t' e. drive_m4_install H C x dg1 fetch root t = (t', Inl e) \<and> install_stuck t'))"
proof -
  have H': "\<And>x. length (H x) = 32" using H by blast
  note inv = sc_reach_inv [where H = H, OF c H' run]
  have s: "inst_state s = 3" "inst_gen s < uint64_limit" using i inv by (auto simp: INST_STATE_INSTALLING_def sc_inv_def gens_ok_def)
  obtain ms where ms: "session_inv H C G (sc_boxes s) (inst_gen s) ms" "inst_cursor s = length ms"
    using inv s(1) by (auto simp: sc_inv_def session_ok_def)
  have m: "\<And>q. q \<in> set [p] \<Longrightarrow> member_ok G q" "length [p] \<le> 42" "length ms + length [p] \<le> 512" using p ms(2) i(2) by simp_all
  obtain bs where st: "sc_step H C s (y, chunk_call 0 [p]) (s\<lparr>sc_boxes := bs, inst_cursor := 1\<rparr>)"
    using chunk_accepted [where H = H, OF c H' inv s(1) ms m, of y] ms(2) i(2) by auto
  have "install_stuck (s\<lparr>sc_boxes := bs, inst_cursor := 1\<rparr>)" using s by (simp add: install_stuck_def)
  moreover have "\<forall>t x root. install_stuck t \<longrightarrow> (\<exists>t' e. drive_m4_install H C x dg1 fetch root t = (t', Inl e) \<and> install_stuck t')"
    using stuck_drive [of _ fetch] resp by blast
  ultimately show ?thesis using st by (auto simp: chunk_call_def)
qed

theorem one_member_stalls_relayer_witness:
  "\<exists>evs s s1. sc_run head_hash toy_ec de_s0 evs s \<and> sc_step head_hash toy_ec s (replicate 32 9, SInstallChunk 0 de_key toy_p) s1 \<and>
    (\<exists>s2 e. drive_m4_install head_hash toy_ec de_gov sy_dg1 (\<lambda>_. Inr sy_resp) (Some sy_root) s1 = (s2, Inl e))"
proof -
  have "inst_state de_s2 = 1" by (simp add: de_s2_def)
  from open_keys_accepted [OF de_inv2 this] obtain bs where
    o: "sc_step head_hash toy_ec de_s2 (de_gov, SOpenKeys) (de_s2\<lparr>sc_boxes := bs, inst_state := 2\<rparr>)" by blast
  let ?s3 = "de_s2\<lparr>sc_boxes := bs, inst_state := 2\<rparr>"
  have run3: "sc_run head_hash toy_ec de_s0 (de_start @ [(de_gov, SOpenKeys)]) ?s3" by (rule sc_run_append [OF sc_run_one [OF o] de_run2])
  note inv3 = sc_reach_inv [where H = head_hash, OF toy_curve length_head_hash run3 [unfolded de_s0_def]]
  from open_session_accepted [OF inv3, of de_gov] obtain bs' where
    o': "sc_step head_hash toy_ec ?s3 (de_gov, SOpenSession) (?s3\<lparr>sc_boxes := bs', inst_state := 3\<rparr>)" by auto
  let ?s4 = "?s3\<lparr>sc_boxes := bs', inst_state := 3\<rparr>"
  have run4: "sc_run head_hash toy_ec de_s0 ((de_start @ [(de_gov, SOpenKeys)]) @ [(de_gov, SOpenSession)]) ?s4"
    by (rule sc_run_append [OF sc_run_one [OF o'] run3])
  have i: "inst_state ?s4 = INST_STATE_INSTALLING" "inst_cursor ?s4 = 0" by (simp_all add: de_s2_def inst_states)
  have p: "member_ok toy_group (de_key, toy_p)" using toy_members toy_distinct de_lengths(1) by (simp add: member_ok_def de_key_def)
  have r: "\<forall>r resp. Inr sy_resp = Inr resp \<longrightarrow> length (jc_pubkeys (jb_committee resp)) = 512" by (simp add: sy_resp_def)
  obtain s1 where "sc_step head_hash toy_ec ?s4 (replicate 32 9, SInstallChunk 0 de_key toy_p) s1" "install_stuck s1"
    "\<forall>t x root. install_stuck t \<longrightarrow>
      (\<exists>t' e. drive_m4_install head_hash toy_ec x sy_dg1 (\<lambda>_. Inr sy_resp) root t = (t', Inl e) \<and> install_stuck t')"
    using one_member_stalls_relayer [where fetch = "\<lambda>_. Inr sy_resp" and ?dg1.0 = sy_dg1 and y = "replicate 32 9",
        OF toy_curve allI [OF length_head_hash] run4 [unfolded de_s0_def] i p r] by auto
  then show ?thesis using run4 by blast
qed

section \<open>Retiring\<close>

text \<open>C39: Superseded generations are reclaimed. In every reachable state the scan retires exactly the generations
  that were allocated, are neither current, staged nor being installed, and still have a total box; no group
  fails; afterwards none of their boxes is left, every other box is as before, and a second scan finds nothing.\<close>
theorem retire_reclaims:
  assumes c: "g1_curve C G" and H: "\<forall>x. length (H x) = 32" and run: "sc_run H C (sc_create gov gvr) evs s"
  shows "\<exists>bs retired skipped. retire_old_generations H C x s = (s\<lparr>sc_boxes := bs\<rparr>, retired, skipped, []) \<and>
    set retired = {g. 1 \<le> g \<and> g \<le> gen_counter s \<and> g \<notin> {cur_gen s, next_gen s, inst_gen s} \<and> sc_boxes s (total_box_name g) \<noteq> None} \<and>
    (\<forall>n. bs n = (if \<exists>g\<in>set retired. n = total_box_name g \<or> (\<exists>j<8. n = key_box_name g j) then None else sc_boxes s n)) \<and>
    (\<exists>skipped'. retire_old_generations H C x (s\<lparr>sc_boxes := bs\<rparr>) = (s\<lparr>sc_boxes := bs\<rparr>, [], skipped', []))"
proof -
  have H': "\<And>x. length (H x) = 32" using H by blast
  have gc: "gen_counter s < uint64_limit"
    using sc_reach_inv [where H = H, OF c H' run] by (auto simp: sc_inv_def gens_ok_def)
  show ?thesis by (rule retire_twice [OF gc])
qed

theorem retire_reclaims_witness:
  "\<exists>evs s bs skipped. sc_run head_hash toy_ec de_s0 evs s \<and> sc_boxes s (total_box_name 1) \<noteq> None \<and> bs (total_box_name 1) = None \<and>
    (\<exists>retired. retire_old_generations head_hash toy_ec de_gov s = (s\<lparr>sc_boxes := bs\<rparr>, retired, skipped, []) \<and> set retired = {1})"
proof -
  obtain s where run: "sc_run head_hash toy_ec de_s0 de_evs5 s" and b: "de_both s" using de_run5 by blast
  note inv = sc_reach_inv [where H = head_hash, OF toy_curve length_head_hash run [unfolded de_s0_def]]
  obtain s' out where up: "submit_update head_hash toy_ec de_u2 s = Inr (s', out)"
    and s': "cur_gen s' = 2" "next_gen s' = 0" "inst_gen s' = inst_gen s" "gen_counter s' = 2" "sc_boxes s' = sc_boxes s"
    using de_update2 [OF inv b] by blast
  have i0: "inst_gen s = 0" using inv b by (simp add: sc_inv_def gens_ok_def de_both_def)
  have t: "sc_boxes s (total_box_name 1) \<noteq> None"
    using inv b by (auto simp: sc_inv_def de_both_def installed_def committee_stored_def)
  have "sc_step head_hash toy_ec s (de_gov, SSubmitUpdate de_u2) s'"
    using up unfolding sc_step_simps by (auto simp: de_u2_def de_update_def de_bits_def)
  then have run': "sc_run head_hash toy_ec de_s0 (de_evs5 @ [(de_gov, SSubmitUpdate de_u2)]) s'"
    by (rule sc_run_append [OF sc_run_one run])
  from retire_reclaims [where x = de_gov, OF toy_curve allI [OF length_head_hash] run' [unfolded de_s0_def]]
  obtain bs retired skipped where r: "retire_old_generations head_hash toy_ec de_gov s' = (s'\<lparr>sc_boxes := bs\<rparr>, retired, skipped, [])"
    "set retired = {g. 1 \<le> g \<and> g \<le> 2 \<and> g \<notin> {2, 0, 0} \<and> sc_boxes s (total_box_name g) \<noteq> None}"
    "\<forall>n. bs n = (if \<exists>g\<in>set retired. n = total_box_name g \<or> (\<exists>j<8. n = key_box_name g j) then None else sc_boxes s n)"
    unfolding s' i0 by blast
  have "g = 1 \<longleftrightarrow> 1 \<le> g \<and> g \<le> 2 \<and> g \<notin> {2, 0, 0} \<and> sc_boxes s (total_box_name g) \<noteq> None" for g :: nat
    using t by (cases "g = 1") auto
  then have one: "set retired = {1}" unfolding r(2) by blast
  then have "bs (total_box_name 1) = None" using r(3) by auto
  then show ?thesis using run' t s'(5) r(1) one by metis
qed

end
