(* ===== verification/Props_End.thy ===== *)
theory Props_End
  imports Props_Rcpt SC_Demo
begin

text \<open>
  The three contracts together: what a log accepted by the receipt verifier means when the anchor reads
  the globals of the light client and the verifier recovers an attested record from its group.
\<close>

section \<open>Reading the light client\<close>

text \<open>The globals of the application \<open>m4\<close> that a call of the anchor reads, when \<open>m4\<close> is the light client in state \<open>st\<close>.\<close>

definition light_view :: "sc_state \<Rightarrow> nat \<Rightarrow> call_env \<Rightarrow> bool" where
  "light_view st m4 E \<longleftrightarrow> ce_uints E m4 (ascii ''fin_slot'') = Some (fin_slot st) \<and>
     ce_bytes E m4 (ascii ''fin_root'') = Some (fin_root st) \<and>
     ce_bytes E m4 (ascii ''fin_state_root'') = Some (fin_state_root st)"

text \<open>
  A record chained to a finalized header root \<open>fr\<close> and state root \<open>fsr\<close>: some header of the record's slot is
  the finalized header itself or a leaf under its state root, the record holds that header's root, and the
  record's execution roots and block number are leaves under its body root.
\<close>

definition chain_header :: "(bytes \<Rightarrow> bytes) \<Rightarrow> bytes \<Rightarrow> bytes \<Rightarrow> bytes \<Rightarrow> bytes \<Rightarrow> bool" where
  "chain_header H fr fsr a h \<longleftrightarrow> length h = 112 \<and> header_slot h = Inr (rec_slot a) \<and> seg 82 32 a = tree_root H (header_tree h) \<and>
     (tree_root H (header_tree h) = fr \<or> (\<exists>b g. folds_to H (tree_root H (header_tree h)) b g fsr)) \<and>
     (\<exists>b g. folds_to H (seg 18 32 a) b g (seg 80 32 h)) \<and> (\<exists>b g. folds_to H (seg 50 32 a) b g (seg 80 32 h)) \<and>
     (\<exists>b g. folds_to H (block_number_leaf (rec_block a)) b g (seg 80 32 h))"

definition chained :: "(bytes \<Rightarrow> bytes) \<Rightarrow> bytes \<Rightarrow> bytes \<Rightarrow> bytes \<Rightarrow> bool" where
  "chained H fr fsr a \<longleftrightarrow> seg 114 32 a = fr \<and> (\<exists>h. chain_header H fr fsr a h)"

lemma candidate_chained:
  assumes H: "\<And>x. length (H x) = 32" and ok: "call_ok c" and cand: "call_candidate H E s c = Inr a"
    and view: "light_view st (an_m4_app s) E"
  shows "chained H (fin_root st) (fin_state_root st) a \<and> fin_root st \<noteq> zero_address"
proof (cases c)
  case (CAnchorDirect m h el)
  obtain sr rr n sb rb nb where el: "el = (sr, rr, n, sb, rb, nb)" by (cases el)
  from cand obtain fs fr gs gr gn where d: "read_m4_finalized E m (an_m4_app s) = Inr (fs, fr, seg 48 32 h)" "fr \<noteq> zero_address"
      "length h = 112" "header_slot h = Inr fs" "tree_root H (header_tree h) = fr"
      "folds_to H sr sb gs (seg 80 32 h)" "folds_to H rr rb gr (seg 80 32 h)" "folds_to H (block_number_leaf n) nb gn (seg 80 32 h)"
    and b: "build_record False n fs sr rr fr fr (ce_round E) = Inr a"
    by (auto simp: CAnchorDirect el direct_candidate_Inr [where H = H, OF H])
  have n: "n < uint64_limit" using ok by (simp add: CAnchorDirect el)
  note f = build_record_fields [OF b n header_slot_less [OF d(4)]]
  have "fr = fin_root st" using d(1) view by (auto simp: read_m4_Inr light_view_def)
  note fr = this
  have "\<exists>b g. folds_to H (seg 18 32 a) b g (seg 80 32 h)" "\<exists>b g. folds_to H (seg 50 32 a) b g (seg 80 32 h)"
      "\<exists>b g. folds_to H (block_number_leaf (rec_block a)) b g (seg 80 32 h)" unfolding f using d(6-8) by blast+
  moreover have "tree_root H (header_tree h) = fin_root st \<or> (\<exists>b g. folds_to H (tree_root H (header_tree h)) b g (fin_state_root st))"
    using d(5) fr by auto
  ultimately have "chain_header H (fin_root st) (fin_state_root st) a h" using d f fr by (simp add: chain_header_def)
  then show ?thesis unfolding chained_def using d(2) f fr by auto
next
  case (CAnchorHistorical m h t bb el)
  obtain sr rr n sb rb nb where el: "el = (sr, rr, n, sb, rb, nb)" by (cases el)
  from cand obtain fs fr ts g gs gr gn where d: "read_m4_finalized E m (an_m4_app s) = Inr (fs, fr, seg 48 32 h)" "fr \<noteq> zero_address"
      "length t = 112" "header_slot t = Inr ts" "folds_to H (tree_root H (header_tree t)) bb g (seg 48 32 h)"
      "folds_to H sr sb gs (seg 80 32 t)" "folds_to H rr rb gr (seg 80 32 t)" "folds_to H (block_number_leaf n) nb gn (seg 80 32 t)"
    and b: "build_record True n ts sr rr (tree_root H (header_tree t)) fr (ce_round E) = Inr a"
    by (auto simp: CAnchorHistorical el historical_candidate_Inr [where H = H, OF H])
  have n: "n < uint64_limit" using ok by (simp add: CAnchorHistorical el)
  note f = build_record_fields [OF b n header_slot_less [OF d(4)]]
  have "fr = fin_root st" "seg 48 32 h = fin_state_root st" using d(1) view by (auto simp: read_m4_Inr light_view_def)
  note fr = this
  have "\<exists>b g. folds_to H (seg 18 32 a) b g (seg 80 32 t)" "\<exists>b g. folds_to H (seg 50 32 a) b g (seg 80 32 t)"
      "\<exists>b g. folds_to H (block_number_leaf (rec_block a)) b g (seg 80 32 t)" unfolding f using d(6-8) by blast+
  moreover have "tree_root H (header_tree t) = fin_root st \<or> (\<exists>b g. folds_to H (tree_root H (header_tree t)) b g (fin_state_root st))"
    using d(5) fr by auto
  ultimately have "chain_header H (fin_root st) (fin_state_root st) a t" using d f fr by (simp add: chain_header_def)
  then show ?thesis unfolding chained_def using d(2) f fr by auto
qed (use cand in simp_all)

text \<open>Every attested record is chained to a header whose finality the light client proved.\<close>

lemma attested_chained:
  assumes c: "g1_curve C G" and H: "\<And>x. length (H x) = 32"
    and create: "anchor_create gov m4 n = Inr s0" "n < uint64_limit" and run: "anchor_run H s0 evs s" and bn: "bn < uint64_limit"
    and light: "\<And>E c. (E, c) \<in> set evs \<Longrightarrow> \<exists>lc st. sc_run H C (sc_create lgov gvr) lc st \<and> light_view st m4 E"
    and att: "anchor_attest s bn = Inr a"
  shows "\<exists>lc st. sc_run H C (sc_create lgov gvr) lc st \<and> fin_origin H C G (sc_create lgov gvr) lc st \<and>
    chained H (fin_root st) (fin_state_root st) a"
proof -
  have inv0: "anchor_inv s0" by (rule create_inv [OF create])
  have inv: "anchor_inv s" by (rule run_inv [where H = H, OF H run inv0])
  have "attest_answer s bn = Some a" using att attest_exact(1) [OF inv bn] by simp
  then have "provenance H s0 evs a" by (rule attest_provenance_core [where H = H, OF H create run bn])
  then obtain pre E cl post s1 where p: "evs = pre @ (E, cl) # post" "anchor_run H s0 pre s1" "call_ok cl" "call_candidate H E s1 cl = Inr a"
    unfolding provenance_def by blast
  have m: "an_m4_app s1 = m4"
    using run_m4 [where H = H, OF H p(2) inv0] create(1) by (auto simp: anchor_create_def res_simps)
  obtain lc st where l: "sc_run H C (sc_create lgov gvr) lc st" "light_view st m4 E" using light p(1) by fastforce
  have ch: "chained H (fin_root st) (fin_state_root st) a" and nz: "fin_root st \<noteq> zero_address"
    using candidate_chained [where H = H, OF H p(3,4)] l(2) m by auto
  have "fin_of st = fin_of (sc_create lgov gvr) \<or> fin_origin H C G (sc_create lgov gvr) lc st"
    by (rule fin_provenance [where H = H, OF c H l(1) refl])
  moreover have "fin_of st \<noteq> fin_of (sc_create lgov gvr)"
    using nz by (auto simp: fin_of_def sc_create_def zero_address_def zero32_def)
  ultimately show ?thesis using l(1) ch by blast
qed

section \<open>End to end\<close>

text \<open>
C1: what an accepted log proof means, end to end. Let the anchor run any history of calls whose reads of the
light client's globals are those of reachable states of the light client, and let the receipt verifier's
check against the anchor accept in a group whose earlier \<open>attest\<close> calls logged what the anchor attests and
whose earlier calls of the verifier were executed on nodes of at most 4,096 bytes, the longest value of the
AVM. Then the returned tuple is the log that the receipts
trie under the attested receipts root holds, whatever that trie's other receipts and their sizes (the hash
is taken to be injective on the trie's nodes and those supplied), that root is a leaf under the body root of a header of the
record's slot, that header is a finalized header of the light client or a leaf under its state root, and
this finality was bootstrapped by governance or proved by an update signed by two thirds of an
established committee.
\<close>

theorem log_proof_end_to_end:
  assumes "g1_curve C G" and "\<forall>x. length (H x) = 32"
    and "anchor_create gov m4 n = Inr s0" "n < uint64_limit" and "anchor_run H s0 evs s" and "bn < uint64_limit"
    and "\<And>E c. (E, c) \<in> set evs \<Longrightarrow> \<exists>lc st. sc_run H C (sc_create lgov gvr) lc st \<and> light_view st m4 E"
    and "rcpt_executed (mpt7_anchored_app K anchor_id) N E" and "\<forall>e\<in>N. length e \<le> max_bytes"
    and "mpt7_result_against_anchor anchor_id E gi anchor_gi bn tx li = Inr out"
    and "\<And>i rest lg. i < env_index E \<Longrightarrow> i < length (env_group E) \<Longrightarrow>
        env_group E ! i = AppCall anchor_id (ATTEST_SELECTOR # rest) lg \<Longrightarrow>
        \<exists>n b. n < uint64_limit \<and> anchor_attest s n = Inr b \<and> lg = ARC4_RETURN_PREFIX @ b"
  shows "\<exists>a lc st. anchor_attest s bn = Inr a \<and>
    (\<forall>T rc. rcpt_world K T tx rc N \<and> anchor_receipts_root a = Inr (K (node_enc K T)) \<longrightarrow> out = receipt_spec K T tx li rc) \<and>
    anchor_receipts_root a = Inr (seg 50 32 a) \<and> chained H (fin_root st) (fin_state_root st) a \<and>
    sc_run H C (sc_create lgov gvr) lc st \<and> fin_origin H C G (sc_create lgov gvr) lc st"
proof -
  have H: "\<And>x. length (H x) = 32" using assms(2) by blast
  have inv: "anchor_inv s" by (rule run_inv [where H = H, OF H assms(5) create_inv [OF assms(3,4)]])
  obtain a where a: "anchor_attest s bn = Inr a" "\<forall>T rc. rcpt_world K T tx rc N \<and> anchor_receipts_root a = Inr (K (node_enc K T)) \<longrightarrow>
      out = receipt_spec K T tx li rc"
  proof -
    have "\<exists>a. anchor_attest s bn = Inr a \<and> (\<forall>T rc. rcpt_world K T tx rc N \<and> anchor_receipts_root a = Inr (K (node_enc K T)) \<longrightarrow>
        out = receipt_spec K T tx li rc)"
      by (rule anchored_core [OF inv assms(6,8,9,10)]) (rule assms(11))
    then show ?thesis using that by blast
  qed
  have "length a = 154" using attest_answer_shape [OF inv assms(6)] a(1) attest_exact(1) [OF inv assms(6)] by blast
  then have "anchor_receipts_root a = Inr (seg 50 32 a)"
    by (simp add: anchor_receipts_root_def bextract_def record_layout)
  moreover have "\<exists>lc st. sc_run H C (sc_create lgov gvr) lc st \<and> fin_origin H C G (sc_create lgov gvr) lc st \<and>
      chained H (fin_root st) (fin_state_root st) a"
    by (rule attested_chained [where H = H, OF assms(1) H assms(3-6) _ a(1)]) (rule assms(7))
  ultimately show ?thesis using a by blast
qed

text \<open>The light client of the witness: one fork row and a bootstrap from the header that the anchor's history uses.\<close>

definition le_boot :: "bytes \<times> sc_call" where
  "le_boot = (de_gov, SBootstrap dm_header zero32 zero32 dm_root)"

definition le_state :: sc_state where
  "le_state = de_s1\<lparr>gen_counter := 1, inst_gen := 1, inst_period := 0, inst_root := zero32, inst_cursor := 0, inst_state := 1,
     fin_slot := 64, fin_root := dm_root, fin_state_root := zero32, att_slot := 64, att_state_root := zero32\<rparr>"

lemma le_run: "sc_run head_hash toy_ec de_s0 [(de_gov, SAppendForkRow de_row), le_boot] le_state"
proof -
  have p: "period_at_slot 64 = 0" by (simp add: period_at_slot_eq)
  have h: "hash_tree_root_beacon_block_header head_hash dm_header = Inr dm_root" by (simp add: htr_header_eq dm_htr)
  have b: "bslice dm_header 48 80 = zero32" using dm_header_segs(4) [of 64] by (simp add: bslice_def)
  have "sc_bootstrap head_hash de_gov dm_header zero32 zero32 dm_root de_s1 = Inr le_state"
    using h dm_slot64 b de_lookup(1) de_branch(1) [OF length_zero32 length_zero32] p
    by (simp add: sc_bootstrap_def reserve_generation_def de_s1_def de_s0_def le_state_def sc_create_def inst_states
        uadd_def uint64_limit_def)
  then have "sc_step head_hash toy_ec de_s1 le_boot le_state"
    unfolding sc_step_simps le_boot_def by (simp add: silent_def)
  then show ?thesis by (rule sc_run_cons [OF de_step1 sc_run_one])
qed

theorem log_proof_end_to_end_witness:
  "\<exists>E lc st a. mpt7_result_against_anchor 3 E 1 0 5 0 0 = Inr (receipt_spec demo_keccak demo_receipts 0 0 demo_rc) \<and>
     anchor_attest dm_anchored 5 = Inr a \<and> chained head_hash (fin_root st) (fin_state_root st) a \<and>
     fin_origin head_hash toy_ec toy_group (sc_create de_gov de_gvr) lc st"
proof -
  have n: "(5::nat) < uint64_limit" "(1::nat) < uint64_limit" by (simp_all add: uint64_limit_def)
  obtain E where E: "mpt7_result_against_anchor 3 E 1 0 5 0 0 = Inr (receipt_spec demo_keccak demo_receipts 0 0 demo_rc)"
      "rcpt_executed (mpt7_anchored_app demo_keccak 3) (trie_nodes demo_keccak demo_receipts) E"
      "\<forall>i rest lg. i < env_index E \<and> i < length (env_group E) \<and> env_group E ! i = AppCall 3 (ATTEST_SELECTOR # rest) lg \<longrightarrow>
       (\<exists>n b. n < uint64_limit \<and> anchor_attest dm_anchored n = Inr b \<and> lg = ARC4_RETURN_PREFIX @ b)"
    by (rule anchored_demo)
  have light: "\<exists>lc st. sc_run head_hash toy_ec (sc_create de_gov de_gvr) lc st \<and> light_view st 7 F" if "(F, c) \<in> set dm_events" for F c
  proof -
    have "F = dm_env dm_gov" using that by (auto simp: dm_events_def)
    then have "light_view le_state 7 F" using ascii_names by (simp add: light_view_def dm_env_def le_state_def)
    then show ?thesis using le_run unfolding de_s0_def by blast
  qed
  have "\<exists>a lc st. anchor_attest dm_anchored 5 = Inr a \<and>
    (\<forall>T rc. rcpt_world demo_keccak T 0 rc (trie_nodes demo_keccak demo_receipts) \<and>
      anchor_receipts_root a = Inr (demo_keccak (node_enc demo_keccak T)) \<longrightarrow>
      receipt_spec demo_keccak demo_receipts 0 0 demo_rc = receipt_spec demo_keccak T 0 0 rc) \<and>
    anchor_receipts_root a = Inr (seg 50 32 a) \<and> chained head_hash (fin_root st) (fin_state_root st) a \<and>
    sc_run head_hash toy_ec (sc_create de_gov de_gvr) lc st \<and> fin_origin head_hash toy_ec toy_group (sc_create de_gov de_gvr) lc st"
    by (rule log_proof_end_to_end [OF toy_curve _ dm_create n(2) dm_run n(1) _ E(2) demo_small E(1)]) (use light E(3) in \<open>auto simp: length_head_hash\<close>)
  then show ?thesis using E(1) by blast
qed

end
