(* ===== verification/Spec2Isabelle.thy ===== *)
theory Spec2Isabelle
  imports Props_Walk Props_SSZ Props_Anchor Props_BLS Props_SC Props_Comp Props_Rcpt Props_Rel Props_Fix Props_Sync Props_End
begin

text \<open>
  This development models the on-chain part of an Ethereum light client for Algorand (\<open>contracts/\<close>, written
  in Algorand Python), and of the relayer that serves it (\<open>relayer/\<close>) the parts whose output the contracts
  check; of the deployment tool (\<open>deploy/\<close>) it models the generator of the governed constants. It is a
  shallow embedding: one HOL function per subroutine, method, handler or helper, with the asserts, panics
  and exceptions of the source as error values, so that every definition can be evaluated.

  THE PROGRAM. Four contracts work together.
    (1) \<open>SyncCommitteeVerifier\<close> (\<open>contracts/sync_committee\<close>) follows the beacon chain: it installs sync
        committees of 512 members over many calls, and moves a finalized header forward on a two-thirds
        BLS signature of the committee in force.
    (2) \<open>TrustedRootAnchor\<close> (\<open>contracts/state_anchor\<close>) reads the finalized header of (1) from its global
        state and folds SSZ branches down to the fields of an execution block (number, hash, state root,
        receipts root). It keeps the record in a ring of boxes, lets users pin copies, lets governance
        revoke, and attests a record to consumers.
    (3) \<open>Mpt6ComposerApp\<close> (\<open>contracts/composer\<close>) proves an account and a storage slot under a state root,
        by two trie walks over the calls of one transaction group.
    (4) \<open>Mpt7ReceiptApp\<close> and the deployed \<open>Mpt7AnchoredReceiptApp\<close> (\<open>contracts/receipt\<close>) prove one log of
        one receipt under a receipts root, by one trie walk; a large leaf may be staged in a box.
  They share the libraries \<open>contracts/primitives\<close> (RLP, SSZ, BLS) and the trie walker \<open>contracts/mpt\<close>.
  State passes between calls of a group through their logs; a consumer reads the log of an earlier
  transaction of its group. The relayer fetches beacon and execution data, rebuilds the tries and SSZ
  trees, and plans the calls.

  THEORIES, in the order of the imports (each opens with a text that says what it holds).
    Ground. \<open>Prelude\<close>: the result type \<open>error + 'a\<close>, its bind \<open>rbind\<close> and assertion \<open>check\<close>, list segments.
      \<open>AVM\<close>: \<open>UInt64\<close> arithmetic that panics outside \<open>0 .. 2^64-1\<close>, byte slicing, \<open>itob\<close>, \<open>btoi\<close>, bounds of
      byte values, box storage. \<open>Group\<close>: the transactions of a group, and the locale \<open>log_handoff\<close>, the
      contract between a producer that logs a state and a consumer that recovers it from the group.
    RLP (\<open>primitives/rlp/core.py\<close>, \<open>nibbles.py\<close>, \<open>eip2718.py\<close>). \<open>RLP_Core\<close>, \<open>RLP_Nibbles\<close>: the code.
      \<open>RLP_Spec\<close>, \<open>RLP_Encode\<close>: bounds of the decoded spans, agreement of the fast paths, decoding against
      the reference encoder \<open>rlp_enc\<close>.
    SSZ (\<open>primitives/ssz/merkle.py\<close>, \<open>merkleize.py\<close>, \<open>harness.py\<close>). \<open>SSZ_Merkle\<close>, \<open>SSZ_Merkleize\<close>: branch folding and
      streaming merkleization. \<open>SSZ_Tree\<close>: Merkle trees addressed by generalized indices, and what an
      accepted branch says of a tree with the given root.
    Trie walker (\<open>mpt/*.py\<close>). \<open>MPT_State\<close>: the 101-byte walk state W and its hand-off. \<open>MPT_Walk\<close>: hops, the
      single-node step \<open>mpt_walk_node\<close> and \<open>MptSegmentApp\<close>. \<open>MPT_Trie\<close>: the abstract trie and lookup.
      \<open>MPT_Refine\<close>: each hop computes the abstract step. \<open>MPT_Sound\<close>: whole walks, sound and complete.
    BLS (\<open>primitives/bls\<close>). \<open>BLS_Codec\<close>, \<open>BLS_Aggregate\<close>: compression and its binding, negation, accumulators,
      multi-scalar chunks, message expansion, hash to G2, pairing blobs.
    Fork tables (\<open>sync_committee/forks.py\<close>, \<open>state_anchor/forks.py\<close>). \<open>Fork_Tables\<close>: both tables and the locale
      \<open>fork_table\<close>, interpreted on both.
    Light client. \<open>SC_Header\<close> (\<open>header.py\<close>, \<open>constants.py\<close>), \<open>SC_Install\<close> (\<open>install.py\<close>), \<open>SC_Bitfield\<close>
      (\<open>bitfield.py\<close>), \<open>SC_Verifier\<close> (\<open>verifier.py\<close>: the record \<open>sc_state\<close>, one function per ABI method, the dispatch
      \<open>sc_exec\<close> and the relation of accepted calls). \<open>SC_Session\<close>, \<open>SC_Inv\<close>, \<open>SC_Steps\<close>: the invariant and its
      preservation by every call. \<open>SC_Live\<close>: progress of an installation. \<open>SC_Facts\<close>, \<open>SC_Store\<close>, \<open>SC_Hist\<close>: the
      meaning of histories and the abstract store the contract refines. \<open>SC_Demo\<close>: a concrete history.
    Anchor. \<open>Anchor_Record\<close> (\<open>record.py\<close>, \<open>constants.py\<close>, \<open>box.py\<close>), \<open>Anchor_Bridge\<close> (\<open>bridge.py\<close>), \<open>Anchor_App\<close>
      (\<open>anchor_app.py\<close>: the record \<open>anchor_state\<close>, its methods and dispatch \<open>anchor_exec\<close>), \<open>Anchor_Handoff\<close>
      (\<open>handoff.py\<close>, the consumer side). \<open>Anchor_Inv\<close>, \<open>Anchor_Facts\<close>: invariant and histories. \<open>Anchor_Demo\<close>.
    Composer. \<open>Comp_State\<close> (\<open>state.py\<close>), \<open>Comp_Account\<close> (\<open>account.py\<close>, \<open>bridge.py\<close>), \<open>Comp_App\<close> (\<open>handoff.py\<close> and the
      driver of \<open>bench_app.py\<close>). \<open>Comp_Inv\<close>, \<open>Comp_Sound\<close>, \<open>Comp_Live\<close>: the calls of a group as a step relation,
      soundness and completeness against the two-stage lookup.
    Receipts. \<open>Rcpt_State\<close> (\<open>state.py\<close>), \<open>Rcpt_Decode\<close> (\<open>decode.py\<close>), \<open>Rcpt_App\<close> (\<open>box.py\<close>, \<open>handoff.py\<close>, \<open>bench_app.py\<close>,
      \<open>anchored_app.py\<close>). \<open>Rcpt_Inv\<close>, \<open>Rcpt_Sound\<close>, \<open>Rcpt_Live\<close>: as for the composer.
    Relayer. \<open>Rel_Base\<close>: Python exceptions as values. \<open>Rel_Receipts\<close> (\<open>proofs/receipts_trie.py\<close>), \<open>Rel_Trie\<close>: the
      receipts trie and its correctness. \<open>Rel_M7\<close> (\<open>drivers/m7_receipt.py\<close>), \<open>Rel_Exec\<close>, \<open>Rel_Logs\<close>
      (\<open>group/logs.py\<close>), \<open>Rel_Plan\<close>, \<open>Rel_Demo\<close>: planned calls, their execution on (4), decoding of the logs.
      \<open>Rel_Merkle\<close> (\<open>ssz/merkleize.py\<close>, \<open>codec/header.py\<close>, \<open>codec/committee.py\<close>), \<open>Rel_Tree\<close>, \<open>Rel_State\<close>
      (\<open>ssz/beacon_state.py\<close>), \<open>Rel_Body\<close> (\<open>ssz/execution_payload.py\<close>, \<open>ssz/block_body.py\<close>), \<open>Rel_M8\<close>
      (\<open>drivers/m8_anchor.py\<close>), \<open>Rel_Fixture\<close>, \<open>Rel_Total\<close>: the SSZ trees, the branches read off them, and their
      acceptance by (2).
      \<open>Rel_M4\<close> (\<open>group/boxes.py\<close>, \<open>group/budget.py\<close>, \<open>codec/bls.py\<close>, \<open>drivers/m4_sync_committee.py\<close> and the
      light-client duties of \<open>client.py\<close>): the groups that install a committee, update and retire, run against (1)
      under the ledger's rule that a call reaches only the boxes its group names. \<open>Rel_Sync\<close>: which boxes the
      calls need, and that the plans name them. \<open>Rel_Drive\<close>: whole installations, fresh, resumed or stuck, and the
      reclaiming of superseded generations.
    Deployment. \<open>Deploy_Forks\<close> (\<open>deploy/forks.py\<close>): the fork rows computed from the field lists.
    Properties. \<open>Props_Walk\<close>, \<open>Props_SSZ\<close>, \<open>Props_BLS\<close>, \<open>Props_SC\<close>, \<open>Props_Anchor\<close>, \<open>Props_Comp\<close>, \<open>Props_Rcpt\<close>,
      \<open>Props_Rel\<close>, \<open>Props_Fix\<close>, \<open>Props_Sync\<close> and \<open>Props_End\<close>; each property has an instance at concrete data.

  WHAT IS SHOWN. Whatever nodes a relayer supplies, a decided walk carries the verdict of the trie, and every
  key has a walk that decides it. An SSZ branch is accepted exactly when it is the branch of the tree. The
  light client's live committees are those committed by roots that were proved to it, its finalized slot
  never decreases, every finalized header came with a two-thirds signature of the committee of its period,
  and its steps are those of an abstract store. An attested record is the checked candidate of an earlier
  call, is unique per block for ever, and binds the fields of the genuine block. A verdict of (3) or (4) is
  the lookup in the tries. \<open>log_proof_end_to_end\<close> composes them: a log accepted by the deployed verifier is
  the log of the receipts trie of a block that is chained, by hashes, to a header the light client
  finalized. For the relayer the statements are of liveness: what it plans is accepted, its box
  references are enough, an installation completes, old generations are reclaimed. Places where the code does
  not do what its documents say are theorems as well (\<open>early_rollover_stalls\<close>, \<open>second_pin_strands_deposit\<close>,
  \<open>one_member_stalls_relayer\<close>).

  CONVENTIONS. Bytes are \<open>8 word list\<close>; a \<open>UInt64\<close> is a natural number with explicit range checks; a Python
  integer is a natural number where the code keeps it non-negative. A failed assertion \<open>X\<close> is the error
  value with code \<open>X\<close>; an accepted call returns the new state, a rejected one changes nothing. Slices follow
  the language they come from: the AVM panics, Python clamps.

  PARAMETERS, that is code outside the repository. \<open>H\<close> is SHA-256 and \<open>K\<close> Keccak-256: functions on byte lists
  with 32-byte results, injective on the finite set of messages a statement names (never on all).
  \<open>C\<close> is the record \<open>ec_ops\<close> of the curve opcodes, with the laws \<open>g1_curve C G\<close> of an abelian group where
  sums matter. \<open>enc\<close> is \<open>rlp.encode\<close>, with the hypothesis that it is the RLP encoding. \<open>donate\<close> stands for
  inner calls that only raise the opcode budget. \<open>call_env\<close> holds what a call sees of the chain (sender, round, the
  light client's globals). \<open>anchor_id\<close> is the consumer's compile-time constant. Box contents are arbitrary at
  each call of a receipt group. The relayer's requests (\<open>fetch\<close>), the decompression of \<open>py_ecc\<close> (\<open>dg1\<close>, \<open>dg2\<close>;
  \<open>decompresses\<close> states what is used of it: an affine point that compresses to the key. It makes no subgroup
  check, so that the fetched keys lie in the group is a condition of the theorem that needs it), the clock and \<open>os.urandom\<close> are parameters too.

  BOUNDS AND FUEL. No definition needs fuel: loops of the contracts are bounded by \<open>urange\<close> and count down,
  walks recurse over the nodes supplied, RLP scans over the remaining bytes. Embedded nodes make a single
  step descend up to \<open>INLINE_STEPS_MAX\<close> hops, as in the source; \<open>mpt_walk_complete\<close> shows it is enough. A byte
  value of the AVM holds at most 4,096 bytes (\<open>max_bytes\<close>) and the receipt decoder stops at 64 logs. Soundness
  of receipt proofs asks the first of the nodes supplied and nothing of the other receipts: a real block has
  receipts beyond both limits, and a log of another receipt of it is proved all the same. Liveness asks both of
  the receipt proved only: \<open>block_path_small\<close> shows that the nodes above its leaf are always short.

  NOT MODELLED, and why. Opcode budgets, fees, minimum balances, argument-size limits and, but for the
  relayer's light-client groups, box-reference limits of the ledger (they can only reject a call). The benchmark probes of \<open>bench_app.py\<close>, \<open>harness.py\<close> and \<open>bench/\<close>:
  shells over the modelled subroutines with literals baked in. The network, signing and key handling of
  the relayer (\<open>sources/\<close>, the other duties of \<open>client.py\<close>, \<open>cli.py\<close>, \<open>group/submit.py\<close>, \<open>group/donors.py\<close>, \<open>config.py\<close>), the HTTP service
  (\<open>service/\<close>), the monitor script, and the compile, create and diff steps of \<open>deploy/\<close>: I/O and calls of the
  Algorand SDK. The relayer's off-chain pre-check of account proofs (\<open>drivers/m6_account_storage.py\<close>,
  \<open>proofs/account.py\<close>, \<open>proofs/classify.py\<close>, \<open>group/planner.py\<close>): the composer decides. JSON hex and decimal strings are taken after decoding.
\<close>

end
